(* ===== verification/Prelude.thy ===== *)
theory Prelude imports Main "HOL-Library.Word" begin

text \<open>
  Shared vocabulary of the development: machine words and byte buffers, the result type of
  operations that can fail, little-endian encoding of words, bounds-checked buffer reads and
  writes (the model of \<open>memcpy\<close>), and the lemma collections the component theories use.

  A buffer is a list of bytes whose length is its allocated size.  A read or a write that
  leaves the buffer is the value \<open>Inl OutOfBounds\<close>; a read of a variable that the code has
  not assigned is \<open>Inl UninitRead\<close>; a dereference of a null pointer is \<open>Inl NullPtr\<close>; a
  call of \<open>Ocall_SGX_Exit_Error\<close> is \<open>Inl ExitError\<close>; the exception of the cache is
  \<open>Inl KeyNotFound\<close>; a loop that exceeds the bound its
  model gives it is \<open>Inl NoReturn\<close> (each such bound is proved to be enough).
\<close>

unbundle bit_operations_syntax

type_synonym byte = "8 word"
type_synonym u32 = "32 word"
type_synonym u64 = "64 word"

lemma unat_word_less: "unat (w :: 'a::len word) < 2 ^ LENGTH('a)"
  by (rule unsigned_less)

section \<open>Results\<close>

datatype fault = OutOfBounds | UninitRead | NullPtr | ExitError | NoReturn | KeyNotFound

type_synonym 'a res = "fault + 'a"

definition res_bind :: "'a res \<Rightarrow> ('a \<Rightarrow> 'b res) \<Rightarrow> 'b res" where
  "res_bind m f = (case m of Inl e \<Rightarrow> Inl e | Inr x \<Rightarrow> f x)"

lemma res_bind_simps [simp]:
  "res_bind (Inl e) f = Inl e"
  "res_bind (Inr x) f = f x"
  by (simp_all add: res_bind_def)

lemma res_bind_cong [fundef_cong]:
  assumes "m = m'" "\<And>x. m' = Inr x \<Longrightarrow> f x = g x"
  shows "res_bind m f = res_bind m' g"
  using assms by (cases m') simp_all

lemma res_bind_InrE:
  assumes "res_bind m f = Inr y"
  obtains x where "m = Inr x" "f x = Inr y"
  using assms by (cases m) auto

lemma res_bind_eq_Inr: "res_bind m f = Inr y \<longleftrightarrow> (\<exists>x. m = Inr x \<and> f x = Inr y)"
  by (cases m) auto

lemma res_bind_eq_Inl: "res_bind m f = Inl e \<longleftrightarrow> m = Inl e \<or> (\<exists>x. m = Inr x \<and> f x = Inl e)"
  by (cases m) auto

definition res_guard :: "fault \<Rightarrow> bool \<Rightarrow> unit res" where
  "res_guard e b = (if b then Inr () else Inl e)"

lemma res_guard_simps [simp]:
  "res_guard e True = Inr ()"
  "res_guard e False = Inl e"
  "res_guard e b = Inr u \<longleftrightarrow> b"
  by (simp_all add: res_guard_def)

text \<open>A computation returns a value that satisfies a predicate; sequences compose.\<close>

definition returns :: "'a res \<Rightarrow> ('a \<Rightarrow> bool) \<Rightarrow> bool" where
  "returns m Q = (case m of Inl e \<Rightarrow> False | Inr x \<Rightarrow> Q x)"

lemma returns_simps [simp]:
  "returns (Inr x) Q = Q x"
  "\<not> returns (Inl e) Q"
  by (simp_all add: returns_def)

lemma returns_bind: "returns (res_bind m f) Q = returns m (\<lambda>x. returns (f x) Q)"
  by (cases m) simp_all

lemma returns_iff: "returns m Q \<longleftrightarrow> (\<exists>x. m = Inr x \<and> Q x)"
  by (cases m) simp_all

lemma returnsI: "m = Inr x \<Longrightarrow> Q x \<Longrightarrow> returns m Q"
  by simp

lemma returnsE:
  assumes "returns m Q"
  obtains x where "m = Inr x" "Q x"
  using assms by (cases m) auto

lemma returns_mono: "returns m P \<Longrightarrow> (\<And>x. m = Inr x \<Longrightarrow> P x \<Longrightarrow> Q x) \<Longrightarrow> returns m Q"
  by (cases m) auto

lemma returns_bindI:
  assumes "returns m P" "\<And>x. m = Inr x \<Longrightarrow> P x \<Longrightarrow> returns (f x) Q"
  shows "returns (res_bind m f) Q"
  using assms by (cases m) auto

section \<open>Byte buffers\<close>

text \<open>The bytes \<open>[off, off + n)\<close> of a buffer.\<close>

definition bslice :: "byte list \<Rightarrow> nat \<Rightarrow> nat \<Rightarrow> byte list" where
  "bslice buf off n = take n (drop off buf)"

text \<open>\<open>memcpy (dst, src + off, n)\<close> as a read of the source.\<close>

definition buf_read :: "byte list \<Rightarrow> nat \<Rightarrow> nat \<Rightarrow> byte list res" where
  "buf_read buf off n = (if off + n \<le> length buf then Inr (bslice buf off n) else Inl OutOfBounds)"

text \<open>\<open>memcpy (dst + off, src, n)\<close> as a write of the destination.\<close>

definition buf_write :: "byte list \<Rightarrow> nat \<Rightarrow> byte list \<Rightarrow> byte list res" where
  "buf_write buf off bs =
     (if off + length bs \<le> length buf
      then Inr (take off buf @ bs @ drop (off + length bs) buf) else Inl OutOfBounds)"

text \<open>A single byte read, where the byte of an index outside the buffer is never used.\<close>

definition byte_at :: "byte list \<Rightarrow> nat \<Rightarrow> byte" where
  "byte_at p i = (if i < length p then p ! i else 0)"

lemma bslice_length: "off + n \<le> length buf \<Longrightarrow> length (bslice buf off n) = n"
  by (simp add: bslice_def)

lemma bslice_0 [simp]: "bslice buf off 0 = []"
  by (simp add: bslice_def)

lemma bslice_full: "n = length buf \<Longrightarrow> bslice buf 0 n = buf"
  by (simp add: bslice_def)

lemma bslice_append: "bslice buf off a @ bslice buf (off + a) b = bslice buf off (a + b)"
  by (simp add: bslice_def take_add add.commute)

lemma bslice_take: "off + n \<le> m \<Longrightarrow> bslice (take m buf) off n = bslice buf off n"
  by (simp add: bslice_def drop_take)

lemma bslice_append_left: "off + n \<le> length a \<Longrightarrow> bslice (a @ b) off n = bslice a off n"
  by (simp add: bslice_def)

lemma bslice_append_right: "length a \<le> off \<Longrightarrow> bslice (a @ b) off n = bslice b (off - length a) n"
  by (simp add: bslice_def)

lemma bslice_at_length: "bslice (a @ b @ c) (length a) (length b) = b"
  by (simp add: bslice_def)

lemma bslice_left: "bslice buf off n = take n (bslice buf off (n + m))"
  by (simp add: bslice_def)

lemma bslice_right: "bslice buf (off + n) m = drop n (bslice buf off (n + m))"
  by (simp add: bslice_def drop_take add.commute)

lemma bslice_nth: "i < n \<Longrightarrow> off + n \<le> length buf \<Longrightarrow> bslice buf off n ! i = buf ! (off + i)"
  by (simp add: bslice_def)

lemma take_bslice: "take k buf @ bslice buf k n = take (k + n) buf"
  by (simp add: bslice_def take_add)

lemma buf_read_Inr:
  "buf_read buf off n = Inr bs \<longleftrightarrow> off + n \<le> length buf \<and> bs = bslice buf off n"
  by (auto simp: buf_read_def)

lemma buf_write_Inr:
  "buf_write buf off bs = Inr buf' \<longleftrightarrow>
     off + length bs \<le> length buf \<and> buf' = take off buf @ bs @ drop (off + length bs) buf"
  by (auto simp: buf_write_def)

lemma buf_write_length: "buf_write buf off bs = Inr buf' \<Longrightarrow> length buf' = length buf"
  by (auto simp: buf_write_Inr)

lemma buf_write_take:
  "buf_write buf off bs = Inr buf' \<Longrightarrow> take (off + length bs) buf' = take off buf @ bs"
  by (auto simp: buf_write_Inr)

lemma buf_write_take_less:
  "buf_write buf off bs = Inr buf' \<Longrightarrow> n \<le> off \<Longrightarrow> take n buf' = take n buf"
  by (auto simp: buf_write_Inr min_def)

lemma byte_at_take: "i < n \<Longrightarrow> byte_at (take n p) i = byte_at p i"
  by (simp add: byte_at_def)

section \<open>Little-endian words\<close>

text \<open>
  The code copies words and structs into buffers as they lie in memory; the target (x86-64
  with SGX) is little-endian.
\<close>

fun le_bytes :: "nat \<Rightarrow> nat \<Rightarrow> byte list" where
  "le_bytes 0 v = []"
| "le_bytes (Suc k) v = word_of_nat v # le_bytes k (v div 256)"

fun le_val :: "byte list \<Rightarrow> nat" where
  "le_val [] = 0"
| "le_val (b # bs) = unat b + 256 * le_val bs"

lemma le_bytes_length [simp]: "length (le_bytes k v) = k"
  by (induction k arbitrary: v) auto

lemma unat_byte_of_nat: "unat (word_of_nat v :: byte) = v mod 256"
  by (simp add: unat_of_nat)

lemma le_val_le_bytes: "le_val (le_bytes k v) = v mod 256 ^ k"
proof (induction k arbitrary: v)
  case 0
  then show ?case by simp
next
  case (Suc k)
  have "v mod 256 + 256 * (v div 256 mod 256 ^ k) = v mod 256 ^ Suc k"
    by (simp add: mod_mult2_eq add.commute)
  then show ?case by (simp add: Suc unat_byte_of_nat)
qed

lemma le_val_less: "le_val bs < 256 ^ length bs"
proof (induction bs)
  case Nil
  then show ?case by simp
next
  case (Cons b bs)
  have "unat b < 256" using unat_word_less [of b] by simp
  with Cons show ?case by simp
qed

lemma le_bytes_le_val: "length bs = k \<Longrightarrow> le_bytes k (le_val bs) = bs"
proof (induction bs arbitrary: k)
  case Nil
  then show ?case by simp
next
  case (Cons b bs)
  have b: "unat b < 256" using unat_word_less [of b] by simp
  have "unat (word_of_nat (unat b + 256 * le_val bs) :: byte) = unat b"
    using b by (simp only: unat_byte_of_nat) simp
  then have "(word_of_nat (unat b + 256 * le_val bs) :: byte) = b"
    by (simp only: word_unat_eq_iff)
  moreover have "(unat b + 256 * le_val bs) div 256 = le_val bs"
    using b by simp
  ultimately show ?case
    using Cons by (cases k) (simp_all del: of_nat_add of_nat_mult)
qed

definition le32 :: "u32 \<Rightarrow> byte list" where
  "le32 w = le_bytes 4 (unat w)"

definition get32 :: "byte list \<Rightarrow> u32" where
  "get32 bs = word_of_nat (le_val bs)"

definition le64 :: "u64 \<Rightarrow> byte list" where
  "le64 w = le_bytes 8 (unat w)"

definition get64 :: "byte list \<Rightarrow> u64" where
  "get64 bs = word_of_nat (le_val bs)"

lemma le32_length [simp]: "length (le32 w) = 4"
  by (simp add: le32_def)

lemma le64_length [simp]: "length (le64 w) = 8"
  by (simp add: le64_def)

lemma get32_le32 [simp]: "get32 (le32 w) = w"
  using unat_word_less [of w] by (simp add: get32_def le32_def le_val_le_bytes)

lemma get64_le64 [simp]: "get64 (le64 w) = w"
  using unat_word_less [of w] by (simp add: get64_def le64_def le_val_le_bytes)

lemma le32_get32: "length bs = 4 \<Longrightarrow> le32 (get32 bs) = bs"
  using le_val_less [of bs]
  by (simp add: le32_def get32_def unat_of_nat le_bytes_le_val)

lemma le64_get64: "length bs = 8 \<Longrightarrow> le64 (get64 bs) = bs"
  using le_val_less [of bs]
  by (simp add: le64_def get64_def unat_of_nat le_bytes_le_val)

lemma get64_inject: "length a = 8 \<Longrightarrow> length b = 8 \<Longrightarrow> get64 a = get64 b \<longleftrightarrow> a = b"
  by (metis le64_get64)

section \<open>Lemma collections\<close>

named_theorems len_simps \<open>lengths of encoded structures\<close>
named_theorems inv_intros \<open>preservation of component invariants\<close>

declare le32_length [len_simps] le64_length [len_simps] le_bytes_length [len_simps]

end
