(* ===== verification/Gear.thy ===== *)
theory Gear imports Prelude begin

text \<open>
  Content-defined chunking and weak hashing of the delta compressor
  (\<open>ecallSrc/edelta/util.cc\<close>): the hash \<open>weakHash\<close> of a sub-chunk, the gear table, the
  chunker \<open>rolling_gear_v3\<close> that cuts the base chunk and the chunker \<open>chunk_gear\<close> that
  cuts one sub-chunk off the input.  The lemmas bound the cut points and show that the two
  chunkers cut at the same place.
\<close>

section \<open>Constants (util.h)\<close>

definition STRMIN :: nat where "STRMIN = 12"
definition STRMAX :: nat where "STRMAX = 64"
definition STRAVG :: u32 where "STRAVG = 28"

lemmas str_defs = STRMIN_def STRMAX_def STRAVG_def

section \<open>The weak hash\<close>

definition hash_seed :: u64 where "hash_seed = 0x7fcaf1"
definition hash_p1 :: u64 where "hash_p1 = 0x9e3779b185ebca87"
definition hash_p2 :: u64 where "hash_p2 = 0xc2b2ae3d27d4eb4f"
definition hash_p3 :: u64 where "hash_p3 = 0x165667b19e3779f9"
definition hash_p4 :: u64 where "hash_p4 = 0x85ebca77c2b2ae63"
definition hash_p5 :: u64 where "hash_p5 = 0x27d4eb2f165667c5"

text \<open>The macro \<open>XXHR\<close>: a left rotation.\<close>

definition XXHR :: "u64 \<Rightarrow> nat \<Rightarrow> u64" where
  "XXHR x r = push_bit r x OR drop_bit (64 - r) x"

text \<open>The macro \<open>XXHS\<close>: absorb the eight bytes \<open>x\<close> into the lane \<open>v\<close>.\<close>

definition XXHS :: "u64 \<Rightarrow> u64 \<Rightarrow> u64" where
  "XXHS v x = XXHR (v + x * hash_p2) 31 * hash_p1"

text \<open>The macro \<open>XXHF\<close>: fold the lane \<open>v\<close> into the hash \<open>h\<close>.\<close>

definition XXHF :: "u64 \<Rightarrow> u64 \<Rightarrow> u64" where
  "XXHF v h = (h XOR (XXHR (v * hash_p2) 31 * hash_p1)) * hash_p1 + hash_p4"

text \<open>The \<open>do ... while (len >= 32)\<close> loop over 32-byte stripes.\<close>

function hash_stripes :: "byte list \<Rightarrow> u64 \<Rightarrow> u64 \<Rightarrow> u64 \<Rightarrow> u64
    \<Rightarrow> byte list \<times> u64 \<times> u64 \<times> u64 \<times> u64" where
  "hash_stripes p v0 v1 v2 v3 =
     (let v0' = XXHS v0 (get64 (bslice p 0 8));
          v1' = XXHS v1 (get64 (bslice p 8 8));
          v2' = XXHS v2 (get64 (bslice p 16 8));
          v3' = XXHS v3 (get64 (bslice p 24 8));
          p' = drop 32 p
      in if 32 \<le> length p' then hash_stripes p' v0' v1' v2' v3' else (p', v0', v1', v2', v3'))"
  by pat_completeness auto
termination
  by (relation "measure (\<lambda>(p, _). length p)") auto

declare hash_stripes.simps [simp del]

text \<open>The loops over the remaining 8-byte words, the 4-byte word and the last bytes.\<close>

function hash_words :: "byte list \<Rightarrow> u64 \<Rightarrow> byte list \<times> u64" where
  "hash_words p h =
     (if 8 \<le> length p
      then hash_words (drop 8 p)
        (XXHR (h XOR (XXHR (get64 (take 8 p) * hash_p2) 31 * hash_p1)) 27 * hash_p1 + hash_p4)
      else (p, h))"
  by pat_completeness auto
termination
  by (relation "measure (\<lambda>(p, _). length p)") auto

declare hash_words.simps [simp del]

definition hash_half :: "byte list \<Rightarrow> u64 \<Rightarrow> byte list \<times> u64" where
  "hash_half p h =
     (if 4 \<le> length p
      then (drop 4 p, XXHR (h XOR (ucast (get32 (take 4 p)) * hash_p1)) 23 * hash_p2 + hash_p3)
      else (p, h))"

fun hash_bytes :: "byte list \<Rightarrow> u64 \<Rightarrow> u64" where
  "hash_bytes [] h = h"
| "hash_bytes (b # p) h = hash_bytes p (XXHR (h XOR (ucast b * hash_p5)) 11 * hash_p1)"

definition hash_avalanche :: "u64 \<Rightarrow> u64" where
  "hash_avalanche h =
     (let h1 = (h XOR drop_bit 33 h) * hash_p2;
          h2 = (h1 XOR drop_bit 29 h1) * hash_p3
      in h2 XOR drop_bit 32 h2)"

text \<open>\<open>weakHash (buf, len)\<close>, on the list of the \<open>len\<close> bytes that it reads.\<close>

definition weakHash :: "byte list \<Rightarrow> u64" where
  "weakHash buf =
     (let n = word_of_nat (length buf);
          (p, h) =
            (if length buf < 32 then (buf, hash_seed + hash_p5 + n)
             else
               let (p, v0, v1, v2, v3) =
                     hash_stripes buf (hash_seed + hash_p1 + hash_p2) (hash_seed + hash_p2)
                       hash_seed (hash_seed - hash_p1);
                   h = XXHR v0 1 + XXHR v1 7 + XXHR v2 12 + XXHR v3 18
               in (p, XXHF v3 (XXHF v2 (XXHF v1 (XXHF v0 h))) + n));
          (p, h) = hash_words p h;
          (p, h) = hash_half p h
      in hash_avalanche (hash_bytes p h))"

section \<open>The gear table\<close>

text \<open>
  The array has 256 entries and an initialiser of 255: the last entry, for the byte 255, is
  zero as C initialises it.
\<close>

definition GEAR :: "u32 list" where
  "GEAR =
    [
     0x4b8fbc70, 0x95a75be0, 0x7fa97617, 0xdb51a0d, 0x7c71d5b3, 0x97842403,
     0x87d60b89, 0x10c081cb, 0x176c2faf, 0xc7392648, 0x2f15cf70, 0x842062ac,
     0x7d19bc1b, 0xc9a22b6d, 0x29f65703, 0x54f0a470, 0x4913c078, 0x91dd2661,
     0xce401296, 0x1080796b, 0x3c6ba084, 0x291fd606, 0x1be96ae, 0x5e104df3,
     0x953a3946, 0xd59e7f77, 0x9f4734d9, 0xf095c27c, 0xe4448418, 0x47ca4676,
     0xe9131404, 0xc6965ee3, 0x2f46c05a, 0x8ba2c750, 0x5fb2fec6, 0xaae07db7,
     0xf96ad818, 0xaed74a8d, 0x3b73296d, 0x42b47c83, 0x3f14fa76, 0xe775583b,
     0x8583a649, 0xe347effd, 0x1814ed33, 0xd747a499, 0x1241b4c, 0xc2ba1de6,
     0x9e459ecd, 0xf2cb801a, 0xb1575ba0, 0x57230ea3, 0xfd6e88ca, 0x1d0501a2,
     0xf33ed508, 0x531f339c, 0xece73621, 0x2171ee60, 0xc545563a, 0x3b68b071,
     0x480657e4, 0x69b955c1, 0x954a24b1, 0xc458ee33, 0x48958571, 0xccdd1652,
     0xa67ad0f0, 0xa93e0890, 0x8255fe6, 0xc190ff58, 0x6d2966a, 0x1e3e1a20,
     0x1649fd23, 0xa5452efe, 0x247ce55, 0xf4220d84, 0xf817eb4b, 0xab0ff6bf,
     0xd98c80da, 0xbb660cad, 0xce39b4a0, 0xebfa6bfe, 0xc4baba1b, 0x5cfd0930,
     0x7cdba262, 0xab2c4cdb, 0xdd1858e7, 0x7aa35c54, 0x36c7793b, 0xc3298957,
     0x5212e006, 0x772a10b3, 0x4b412801, 0x6348ea44, 0x90b7a8c, 0xf3903817,
     0x55ec8d5, 0xd39bca5e, 0xa19e4f8b, 0xf8472700, 0xd792025e, 0xcfdc83e0,
     0x576880c7, 0xcbaa6558, 0x692f5350, 0x1400ee49, 0x3a89aa8b, 0x46873d99,
     0x63ecb853, 0x9860b122, 0x31685257, 0x32874e3d, 0x6b44e063, 0x87525cd0,
     0xf0a5025c, 0x6ccb4020, 0xf1d8849d, 0x414f66e7, 0x6afed5a4, 0x9a9befeb,
     0xd6e18fdc, 0x27129a4c, 0x7d6bcf28, 0x37fa944a, 0xe9b09b54, 0x9159093,
     0x4a31242, 0x28d0d7d2, 0x97e8d65a, 0xfcf68625, 0x1800702, 0x39dbe43f,
     0x35da0210, 0xa6c68d9, 0x68500f4e, 0xc8a5ab6e, 0x8b2b756a, 0xd5fb25bd,
     0xb0c0405d, 0xc453b18c, 0xe2e66ea4, 0xda553370, 0x7dbc5759, 0x886eeab,
     0x9fafd0e5, 0x4e430b, 0x8331c2e5, 0x5a5d06b4, 0xe43f7b9d, 0xf3ec3644,
     0x6a46d11, 0xcd41e503, 0xa18a2e19, 0xadde1ea1, 0x36f7488e, 0x455255bd,
     0x8075175e, 0x88d32d58, 0x9a0a25b0, 0x970e0c67, 0x77b009e, 0x12d5bf75,
     0xdc7fd18, 0xde77a2bb, 0x6ab176e0, 0xa6ab6c09, 0x6210efa8, 0xd947e049,
     0x5fb01605, 0xde4bd448, 0x5b2af7ba, 0xd2b49fe9, 0x1783f531, 0x66fffd39,
     0x59e8a9ba, 0xc2ee818b, 0x1f3b0f3c, 0x4cd0e620, 0xeaf278ba, 0x92045e3d,
     0x64e6ebca, 0x9b70573, 0x3aaf57a4, 0xe287e26, 0x54dcafbb, 0x8c25a8,
     0x99642381, 0x5c8de9f0, 0x51fda6c0, 0x910e0b6d, 0xf6328e12, 0xec5e5389,
     0x8ed195f, 0xe80f0583, 0xa7185a25, 0xa83c3268, 0xa4e79433, 0xe6def4b,
     0x77065b1f, 0x43678dc7, 0x7e506399, 0x88503f60, 0x62c4983d, 0x70ece12,
     0xe0d421a4, 0x71821295, 0x801310e8, 0x3bd7bf4b, 0xe42779be, 0xefee3449,
     0xd6aaaffc, 0xa5608bae, 0xf6e0b8ae, 0xdd79aa9f, 0x8bd6606d, 0x3b83977a,
     0x512a0c70, 0x2c6de88, 0x25f5ea97, 0x68ceb140, 0xdaa87097, 0x602b8497,
     0x7767467a, 0xfee216a8, 0x14512325, 0x142c4e04, 0x7bf5ac09, 0x384364d5,
     0xf58188a8, 0xa410598, 0x799223f, 0xc1b76b42, 0xd828d74b, 0x931ecbb1,
     0x41922ad3, 0x787fb489, 0xf41c1d00, 0x3dbc3f88, 0x12a70e39, 0x26ae363d,
     0x47f7274, 0x86385074, 0x2ffb7263, 0xb8e3de33, 0x9496a61, 0x92025809,
     0xbf8b296d, 0xf1a57003, 0xa8057fb6, 0x2ce2e565, 0x56d7a64a, 0xa6e30007,
     0xe0562996, 0xabec18bd, 0x6b8c68ed, 0
    ]"

lemma GEAR_length: "length GEAR = 256"
  by (simp add: GEAR_def)

text \<open>One step of the rolling fingerprint, \<open>(fingerprint << 1) + GEAR[b]\<close>.\<close>

definition gear_step :: "u32 \<Rightarrow> byte \<Rightarrow> u32" where
  "gear_step fp b = push_bit 1 fp + GEAR ! unat b"

lemma gear_index: "unat (b :: byte) < length GEAR"
  using unat_word_less [of b] by (simp add: GEAR_length)

section \<open>The chunkers\<close>

text \<open>
  \<open>rolling_gear_v3\<close> cuts up to \<open>num\<close> sub-chunks off the \<open>n\<close> bytes at \<open>p\<close>.  The list
  \<open>cuts\<close> is the array the code fills, \<open>cut[0..count)\<close>; \<open>j\<close> counts the cuts made.
\<close>

function rolling_loop :: "byte list \<Rightarrow> nat \<Rightarrow> nat \<Rightarrow> u32 \<Rightarrow> nat \<Rightarrow> nat list \<Rightarrow> nat \<Rightarrow> nat list" where
  "rolling_loop p n num fp i cuts j =
     (if j < num then
        (if i < n then
           (let fp' = gear_step fp (byte_at p i) in
            if i \<le> last cuts + STRMAX then
              (if fp' AND STRAVG = 0
               then rolling_loop p n num 0 (i + STRMIN + 1) (cuts @ [i]) (Suc j)
               else rolling_loop p n num fp' (i + 1) cuts j)
            else rolling_loop p n num 0 (i + STRMIN + 1) (cuts @ [i]) (Suc j))
         else cuts @ replicate (num - j) n)
      else cuts)"
  by pat_completeness auto
termination
  by (relation "measure (\<lambda>(p, n, num, fp, i, cuts, j). n - i)") auto

declare rolling_loop.simps [simp del]

definition rolling_gear_v3 :: "byte list \<Rightarrow> nat \<Rightarrow> nat \<Rightarrow> nat list" where
  "rolling_gear_v3 p n num = rolling_loop p n num 0 (STRMIN + 1) [0] 0"

text \<open>
  \<open>chunk_gear\<close> returns the length of the first sub-chunk of the \<open>n\<close> bytes at \<open>p\<close>.  Its
  loop runs up to \<open>i = n\<close>, one past the end of the input; the byte read there never
  influences the result (lemma \<open>chunk_gear_past_end\<close>).
\<close>

function chunk_loop :: "byte list \<Rightarrow> nat \<Rightarrow> u32 \<Rightarrow> nat \<Rightarrow> nat" where
  "chunk_loop p n fp i =
     (if i \<le> n then
        (let fp' = gear_step fp (byte_at p i) in
         if i \<le> STRMAX then (if fp' AND STRAVG = 0 then i else chunk_loop p n fp' (i + 1))
         else i)
      else i)"
  by pat_completeness auto
termination
  by (relation "measure (\<lambda>(p, n, fp, i). n + 1 - i)") auto

declare chunk_loop.simps [simp del]

definition chunk_gear :: "byte list \<Rightarrow> nat \<Rightarrow> nat" where
  "chunk_gear p n = (if n \<le> STRMAX then n else chunk_loop p n 0 (STRMIN + 1))"

section \<open>Cut points of \<open>chunk_gear\<close>\<close>

lemma chunk_loop_bounds:
  assumes "STRMIN + 1 \<le> i" "i \<le> STRMAX + 1" "STRMAX < n"
  shows "i \<le> chunk_loop p n fp i \<and> chunk_loop p n fp i \<le> STRMAX + 1"
  using assms
proof (induction p n fp i rule: chunk_loop.induct)
  case (1 p n fp i)
  show ?case
    using "1.IH" "1.prems" by (subst (1 2) chunk_loop.simps) (auto simp: Let_def)
qed

lemma chunk_loop_past_end:
  assumes "STRMAX < n"
  shows "chunk_loop (take n p) n fp i = chunk_loop p n fp i"
  using assms
proof (induction p n fp i rule: chunk_loop.induct)
  case (1 p n fp i)
  show ?case
    using "1.IH" "1.prems"
    by (subst (1 2) chunk_loop.simps) (auto simp: Let_def byte_at_take)
qed

text \<open>A sub-chunk never runs past the input, is not empty, and is long unless it is the last.\<close>

lemma chunk_gear_le: "chunk_gear p n \<le> n"
  using chunk_loop_bounds [of "STRMIN + 1" n p 0]
  by (auto simp: chunk_gear_def str_defs)

lemma chunk_gear_max: "chunk_gear p n \<le> STRMAX + 1"
  using chunk_loop_bounds [of "STRMIN + 1" n p 0]
  by (auto simp: chunk_gear_def str_defs)

lemma chunk_gear_min: "STRMIN < chunk_gear p n \<or> chunk_gear p n = n"
  using chunk_loop_bounds [of "STRMIN + 1" n p 0]
  by (auto simp: chunk_gear_def str_defs)

lemma chunk_gear_pos: "0 < n \<Longrightarrow> 0 < chunk_gear p n"
  using chunk_gear_min [of p n] by auto

text \<open>The byte one past the input that the loop reads has no influence on the cut.\<close>

lemma chunk_gear_past_end: "chunk_gear (take n p) n = chunk_gear p n"
  by (auto simp: chunk_gear_def chunk_loop_past_end)

section \<open>Cut points of \<open>rolling_gear_v3\<close>\<close>

text \<open>
  The shape of the cut list: each sub-chunk lies inside the \<open>n\<close> bytes, has at most
  \<open>STRMAX + 1\<close> bytes, and has more than \<open>STRMIN\<close> bytes unless it ends at \<open>n\<close>.
\<close>

definition cut_step :: "nat \<Rightarrow> nat \<Rightarrow> nat \<Rightarrow> bool" where
  "cut_step n a b \<longleftrightarrow> a \<le> b \<and> b \<le> n \<and> b \<le> a + STRMAX + 1 \<and> (a + STRMIN < b \<or> b = n)"

lemma cut_step_end: "cut_step n n n"
  by (simp add: cut_step_def)

lemma successively_snoc:
  "xs \<noteq> [] \<Longrightarrow> successively P (xs @ [x]) \<longleftrightarrow> successively P xs \<and> P (last xs) x"
  by (simp add: successively_append_iff)

lemma successively_replicate: "P x x \<Longrightarrow> successively P (replicate m x)"
proof (induction m)
  case 0
  then show ?case by simp
next
  case (Suc m)
  then show ?case by (cases m) auto
qed

lemma cuts_replicate:
  assumes "successively (cut_step n) cs" "cs \<noteq> []" "cut_step n (last cs) n"
  shows "successively (cut_step n) (cs @ replicate m n)"
  using assms
  using successively_replicate [of "cut_step n" n m, OF cut_step_end]
  by (cases m) (auto simp: successively_append_iff)

lemma rolling_loop_cuts:
  assumes "successively (cut_step n) cuts" "cuts \<noteq> []" "last cuts \<le> n"
    "last cuts + STRMIN < i" "i \<le> last cuts + STRMAX + 1"
  shows "successively (cut_step n) (rolling_loop p n num fp i cuts j)
    \<and> rolling_loop p n num fp i cuts j \<noteq> []"
  using assms
proof (induction p n num fp i cuts j rule: rolling_loop.induct)
  case (1 p n num fp i cuts j)
  show ?case
  proof (cases "j < num \<and> i < n")
    case False
    with "1.prems" have "cut_step n (last cuts) n" if "j < num"
      using that by (auto simp: cut_step_def)
    with False "1.prems" show ?thesis
      by (subst (1 2) rolling_loop.simps) (auto intro: cuts_replicate)
  next
    case True
    then have *: "successively (cut_step n) (cuts @ [i])"
      using "1.prems" by (simp add: successively_snoc cut_step_def)
    with True "1.prems" "1.IH" show ?thesis
      by (subst (1 2) rolling_loop.simps) (auto simp: Let_def str_defs)
  qed
qed

lemma rolling_loop_length:
  assumes "length cuts = Suc j" "j \<le> num"
  shows "length (rolling_loop p n num fp i cuts j) = Suc num"
  using assms
proof (induction p n num fp i cuts j rule: rolling_loop.induct)
  case (1 p n num fp i cuts j)
  show ?case
    using "1.prems" "1.IH" by (subst rolling_loop.simps) (auto simp: Let_def)
qed

lemma rolling_loop_prefix:
  "\<exists>cs. rolling_loop p n num fp i cuts j = cuts @ cs"
proof (induction p n num fp i cuts j rule: rolling_loop.induct)
  case (1 p n num fp i cuts j)
  show ?case
    using "1.IH"
    by (subst rolling_loop.simps, cases "i \<le> last cuts + STRMAX") (auto simp: Let_def)
qed

lemma rolling_gear_length: "length (rolling_gear_v3 p n num) = Suc num"
  by (simp add: rolling_gear_v3_def rolling_loop_length)

lemma rolling_gear_hd: "rolling_gear_v3 p n num ! 0 = 0"
  using rolling_loop_prefix [of p n num 0 "STRMIN + 1" "[0]" 0]
  by (auto simp: rolling_gear_v3_def)

lemma rolling_gear_successively: "successively (cut_step n) (rolling_gear_v3 p n num)"
  using rolling_loop_cuts [of n "[0]" "STRMIN + 1" p num 0 0]
  by (simp add: rolling_gear_v3_def str_defs)

lemma rolling_gear_cut_step:
  assumes "k < num"
  shows "cut_step n (rolling_gear_v3 p n num ! k) (rolling_gear_v3 p n num ! Suc k)"
  using rolling_gear_successively [of n p num] assms
  by (auto simp: successively_conv_nth rolling_gear_length)

lemma rolling_gear_le:
  assumes "k \<le> num"
  shows "rolling_gear_v3 p n num ! k \<le> n"
  using rolling_gear_cut_step [of "k - 1" num n p] assms rolling_gear_hd [of p n num]
  by (cases k) (auto simp: cut_step_def)

text \<open>Away from the end of the input, the two chunkers make the same first cut.\<close>

lemma rolling_first_cut:
  assumes "STRMAX + 1 < n" "STRMIN < i" "i \<le> STRMAX + 1"
  shows "rolling_loop p n 1 fp i [0] 0 = [0, chunk_loop p n fp i]"
  using assms
proof (induction p n fp i rule: chunk_loop.induct)
  case (1 p n fp i)
  have stop: "rolling_loop p n 1 f m [0, i] 1 = [0, i]" for f m
    by (subst rolling_loop.simps) simp
  show ?case
    using "1.prems" "1.IH" stop
    by (subst rolling_loop.simps, subst chunk_loop.simps) (auto simp: Let_def)
qed

end
