(* ===== verification/Htable.thy ===== *)
theory Htable imports Prelude begin

text \<open>
  The chained hash table of the delta compressor (\<open>ecallSrc/edelta/htable.cc\<close>).  The code
  threads the chains through link fields inside the stored items; here a chain is the list of
  its links, newest first, and a link holds the key the code reads through the item's key
  pointer and the item.  Keys are 64-bit sub-chunk hashes and do not change while stored.

  The interface the compressor relies on is the locale \<open>hash_index\<close>; the table provides it.
\<close>

section \<open>State\<close>

record 'a hlink =
  hkey :: u64
  hitem :: 'a

record 'a htable =
  table :: "'a hlink list list"
  hashlength :: nat
  loffset :: nat
  num_items :: nat
  max_items :: nat
  buckets :: nat
  hmask :: u32
  rshift :: u32
  walkptr :: "'a hlink list"
  walk_index :: nat

section \<open>Operations\<close>

text \<open>The loop \<open>for (pwr = 0; tsize; pwr++) tsize >>= 1\<close>.\<close>

fun pwr_loop :: "nat \<Rightarrow> nat" where
  "pwr_loop t = (if t = 0 then 0 else Suc (pwr_loop (t div 2)))"

declare pwr_loop.simps [simp del]

definition htable_init :: "nat \<Rightarrow> nat \<Rightarrow> nat \<Rightarrow> 'a htable" where
  "htable_init offset nhlen tsize =
     (let pwr = pwr_loop (tsize div 4) in
      \<lparr>table = replicate (2 ^ pwr) [], hashlength = nhlen, loffset = offset, num_items = 0,
       max_items = 2 ^ pwr * 4, buckets = 2 ^ pwr, hmask = NOT (push_bit pwr (NOT 0)),
       rshift = 30 - word_of_nat pwr, walkptr = [], walk_index = 0\<rparr>)"

text \<open>The constructor \<open>htable (offset, tsize)\<close> hands its second argument on as the hash length.\<close>

definition htable_new :: "nat \<Rightarrow> nat \<Rightarrow> 'a htable" where
  "htable_new offset tsize = htable_init offset tsize 31"

text \<open>The bucket of a key, \<open>(key * 2654435761U) & mask\<close>, stored in a 32-bit index.\<close>

definition hash_slot :: "'a htable \<Rightarrow> u64 \<Rightarrow> nat" where
  "hash_slot h key = unat (ucast ((key * 2654435761) AND ucast (hmask h)) :: u32)"

text \<open>\<open>insert\<close> up to the growth check: push the link and count it.\<close>

definition htable_link :: "'a hlink \<Rightarrow> 'a htable \<Rightarrow> 'a htable" where
  "htable_link hp h =
     (let index = hash_slot h (hkey hp) in
      h\<lparr>table := (table h)[index := hp # table h ! index], num_items := Suc (num_items h)\<rparr>)"

text \<open>The bucket scan shared by \<open>first\<close> and \<open>next\<close>.\<close>

function walk_seek :: "'a htable \<Rightarrow> 'a hlink list \<Rightarrow> nat \<Rightarrow> 'a hlink list \<times> nat" where
  "walk_seek h wp wi =
     (if wp = [] \<and> wi < buckets h then walk_seek h (table h ! wi) (Suc wi) else (wp, wi))"
  by pat_completeness auto
termination
  by (relation "measure (\<lambda>(h, wp, wi). buckets h - wi)") auto

declare walk_seek.simps [simp del]

definition htable_first :: "'a htable \<Rightarrow> 'a htable \<times> 'a option" where
  "htable_first h =
     (let (wp, wi) = walk_seek h (table h ! 0) 1 in
      (h\<lparr>walkptr := wp, walk_index := wi\<rparr>,
       case wp of [] \<Rightarrow> None | hp # _ \<Rightarrow> Some (hitem hp)))"

definition htable_next :: "'a htable \<Rightarrow> 'a htable \<times> 'a option" where
  "htable_next h =
     (let wp0 = (case walkptr h of [] \<Rightarrow> [] | _ # rest \<Rightarrow> rest);
          (wp, wi) = walk_seek h wp0 (walk_index h) in
      (h\<lparr>walkptr := wp, walk_index := wi\<rparr>,
       case wp of [] \<Rightarrow> None | hp # _ \<Rightarrow> Some (hitem hp)))"

text \<open>
  \<open>grow_table\<close>: a table with twice the buckets takes every link, in the order in which
  \<open>first\<close>, the chain links and \<open>next\<close> visit them.  The new table cannot outgrow itself
  on the way (\<open>grow_no_regrow\<close>), so the links are pushed without a growth check.
\<close>

lemma walk_seek_index:
  "walk_seek h wp wi = (wp', wi') \<Longrightarrow> wi \<le> wi' \<and> (wi' = wi \<longrightarrow> wp' = wp)"
proof (induction h wp wi rule: walk_seek.induct)
  case (1 h wp wi)
  then show ?case
    by (subst (asm) walk_seek.simps) (auto split: if_splits)
qed

lemma walk_seek_bound:
  "walk_seek h wp wi = (wp', wi') \<Longrightarrow> wi' = wi \<or> wi' \<le> buckets h"
proof (induction h wp wi rule: walk_seek.induct)
  case (1 h wp wi)
  then show ?case
    by (subst (asm) walk_seek.simps) (auto split: if_splits)
qed

function grow_loop :: "'a htable \<Rightarrow> 'a hlink list \<Rightarrow> nat \<Rightarrow> 'a htable \<Rightarrow> 'a htable" where
  "grow_loop h [] wi big = big"
| "grow_loop h (hp # ni) wi big =
     (let big' = htable_link hp big in
      if ni \<noteq> [] then grow_loop h ni wi big'
      else let (wp, wi') = walk_seek h [] wi in grow_loop h wp wi' big')"
  by pat_completeness auto
termination
proof (relation "measures [\<lambda>(h, ch, wi, big). buckets h - wi, \<lambda>(h, ch, wi, big). length ch]",
    goal_cases)
  case 1
  show ?case by simp
next
  case (2 h hp ni wi big big')
  then show ?case by simp
next
  case (3 h hp ni wi big big' z wp wi')
  then have w: "walk_seek h [] wi = (wp, wi')" by simp
  show ?case
    using walk_seek_index [OF w] walk_seek_bound [OF w] 3
    by (cases "wi' = wi") auto
qed

definition grow_table :: "'a htable \<Rightarrow> 'a htable" where
  "grow_table h =
     (let big = h\<lparr>table := replicate (buckets h * 2) [], num_items := 0,
                  max_items := buckets h * 2 * 4, buckets := buckets h * 2,
                  hmask := push_bit 1 (hmask h) OR 1, rshift := rshift h - 1,
                  walkptr := [], walk_index := 0\<rparr>;
          (wp, wi) = walk_seek h (table h ! 0) 1
      in grow_loop h wp wi big)"

definition htable_insert :: "u64 \<Rightarrow> 'a \<Rightarrow> 'a htable \<Rightarrow> 'a htable" where
  "htable_insert key item h =
     (let h' = htable_link \<lparr>hkey = key, hitem = item\<rparr> h in
      if max_items h' \<le> num_items h' then grow_table h' else h')"

text \<open>\<open>search\<close> returns the link, \<open>lookup\<close> its item.\<close>

definition htable_search :: "u64 \<Rightarrow> 'a htable \<Rightarrow> 'a hlink option" where
  "htable_search key h = find (\<lambda>hp. key = hkey hp) (table h ! hash_slot h key)"

definition htable_lookup :: "u64 \<Rightarrow> 'a htable \<Rightarrow> 'a option" where
  "htable_lookup key h = map_option hitem (find (\<lambda>hp. key = hkey hp) (table h ! hash_slot h key))"

definition htable_size :: "'a htable \<Rightarrow> nat" where
  "htable_size h = num_items h"

definition SetOffset :: "nat \<Rightarrow> 'a htable \<Rightarrow> 'a htable" where
  "SetOffset offset h = h\<lparr>loffset := offset\<rparr>"

definition ResetTable :: "'a htable \<Rightarrow> 'a htable" where
  "ResetTable h = h\<lparr>table := replicate (buckets h) [], num_items := 0\<rparr>"

section \<open>The interface of an index of hashes\<close>

text \<open>
  An index holds key-item pairs, several of which may share a key.  Finding a key returns one
  of its items, and returns none only if it has none.
\<close>

locale hash_index =
  fixes ok :: "'h \<Rightarrow> bool"
    and add :: "u64 \<Rightarrow> 'v \<Rightarrow> 'h \<Rightarrow> 'h"
    and get :: "u64 \<Rightarrow> 'h \<Rightarrow> 'v option"
    and entries :: "'h \<Rightarrow> (u64 \<times> 'v) set"
  assumes ok_add: "ok h \<Longrightarrow> ok (add k v h)"
    and entries_add: "ok h \<Longrightarrow> entries (add k v h) = insert (k, v) (entries h)"
    and get_Some: "ok h \<Longrightarrow> get k h = Some v \<Longrightarrow> (k, v) \<in> entries h"
    and get_None: "ok h \<Longrightarrow> get k h = None \<Longrightarrow> (k, v) \<notin> entries h"
begin

lemma ok_fold: "ok h \<Longrightarrow> ok (fold (\<lambda>(k, v). add k v) kvs h)"
  by (induction kvs arbitrary: h) (auto intro: ok_add)

lemma entries_fold:
  "ok h \<Longrightarrow> entries (fold (\<lambda>(k, v). add k v) kvs h) = set kvs \<union> entries h"
proof (induction kvs arbitrary: h)
  case Nil
  then show ?case by simp
next
  case (Cons kv kvs)
  then show ?case
    by (cases kv) (auto simp: ok_add entries_add)
qed

text \<open>Whatever holds of all entries holds of what a lookup returns, and an added key is found.\<close>

lemma get_sat: "ok h \<Longrightarrow> \<forall>(k, v) \<in> entries h. P k v \<Longrightarrow> get k h = Some v \<Longrightarrow> P k v"
  using get_Some by fastforce

lemma get_iff: "ok h \<Longrightarrow> (\<exists>v. get k h = Some v) \<longleftrightarrow> (\<exists>v. (k, v) \<in> entries h)"
  using get_Some get_None by (metis option.exhaust)

lemma get_add: "ok h \<Longrightarrow> \<exists>w. get k (add k v h) = Some w"
  using get_iff ok_add entries_add by blast

lemma get_add_fresh:
  assumes "ok h" "\<And>w. (k, w) \<notin> entries h"
  shows "get k (add k v h) = Some v"
  using get_add [OF assms(1)] get_Some [OF ok_add [OF assms(1)]] assms entries_add
  by (metis Pair_inject insert_iff)

end

locale hash_index_reset = hash_index +
  fixes reset :: "'h \<Rightarrow> 'h"
  assumes ok_reset: "ok h \<Longrightarrow> ok (reset h)"
    and entries_reset: "ok h \<Longrightarrow> entries (reset h) = {}"
begin

lemma get_reset: "ok h \<Longrightarrow> get k (reset h) = None"
  using get_Some ok_reset entries_reset by (metis empty_iff option.exhaust)

lemma entries_reset_fold:
  "ok h \<Longrightarrow> entries (fold (\<lambda>(k, v). add k v) kvs (reset h)) = set kvs"
  by (simp add: entries_fold ok_reset entries_reset)

end

section \<open>The table provides the interface\<close>

text \<open>The links of a table in walk order, and the pairs they hold.\<close>

definition links :: "'a htable \<Rightarrow> 'a hlink list" where
  "links h = concat (table h)"

definition htable_entries :: "'a htable \<Rightarrow> (u64 \<times> 'a) set" where
  "htable_entries h = (\<lambda>hp. (hkey hp, hitem hp)) ` set (links h)"

text \<open>
  The invariant: a power-of-two number of buckets with the matching mask, every link in the
  bucket its key hashes to, and the counter counting the links.
\<close>

definition htable_ok :: "'a htable \<Rightarrow> bool" where
  "htable_ok h \<longleftrightarrow>
     (\<exists>p. buckets h = 2 ^ p \<and> hmask h = mask p) \<and> length (table h) = buckets h \<and>
     (\<forall>i < buckets h. \<forall>hp \<in> set (table h ! i). hash_slot h (hkey hp) = i) \<and>
     num_items h = length (links h) \<and> max_items h = buckets h * 4"

lemma mask_push: "push_bit 1 (mask p) OR 1 = (mask (Suc p) :: 'a::len word)"
  by (simp add: mask_Suc_double push_bit_eq_mult or.commute mult.commute)

lemma mask_not_push: "NOT (push_bit p (NOT 0)) = (mask p :: 'a::len word)"
  by (rule bit_word_eqI) (auto simp: bit_simps)

lemma hash_slot_less:
  assumes "hmask h = mask p"
  shows "hash_slot h k < 2 ^ p"
proof -
  have "hash_slot h k \<le> unat (mask p :: u32)"
  proof -
    have "ucast ((k * 2654435761) AND ucast (hmask h)) = (ucast (k * 2654435761) AND (mask p :: u32))"
      using assms by (auto intro!: bit_word_eqI simp: bit_simps)
    then show ?thesis
      by (simp add: hash_slot_def word_and_le1 flip: word_le_nat_alt)
  qed
  also have "unat (mask p :: u32) = take_bit p (unat (- 1 :: u32))"
    by (simp only: flip: take_bit_minus_one_eq_mask unsigned_take_bit_eq)
  also have "\<dots> < 2 ^ p"
    by (rule take_bit_nat_less_exp)
  finally show ?thesis .
qed

lemma concat_list_update:
  assumes "i < length xss"
  shows "set (concat (xss[i := x # xss ! i])) = insert x (set (concat xss))"
    and "length (concat (xss[i := x # xss ! i])) = Suc (length (concat xss))"
proof -
  have "concat xss = concat (take i xss) @ xss ! i @ concat (drop (Suc i) xss)"
    using id_take_nth_drop [OF assms] by (metis concat.simps(2) concat_append)
  moreover have "concat (xss[i := x # xss ! i])
      = concat (take i xss) @ (x # xss ! i) @ concat (drop (Suc i) xss)"
    using assms by (simp add: upd_conv_take_nth_drop)
  ultimately show "set (concat (xss[i := x # xss ! i])) = insert x (set (concat xss))"
    and "length (concat (xss[i := x # xss ! i])) = Suc (length (concat xss))"
    by auto
qed

lemma hash_slot_cong: "hmask h = hmask h' \<Longrightarrow> hash_slot h = hash_slot h'"
  by (simp add: hash_slot_def fun_eq_iff)

lemma htable_ok_slot: "htable_ok h \<Longrightarrow> hash_slot h k < length (table h)"
  using hash_slot_less by (fastforce simp: htable_ok_def)

lemma htable_ok_member:
  assumes "htable_ok h"
  shows "hp \<in> set (links h) \<longleftrightarrow> hp \<in> set (table h ! hash_slot h (hkey hp))"
proof
  assume "hp \<in> set (links h)"
  then obtain ch where "ch \<in> set (table h)" "hp \<in> set ch"
    by (auto simp: links_def)
  then obtain i where "i < length (table h)" "hp \<in> set (table h ! i)"
    by (metis in_set_conv_nth)
  with assms show "hp \<in> set (table h ! hash_slot h (hkey hp))"
    by (auto simp: htable_ok_def)
next
  assume "hp \<in> set (table h ! hash_slot h (hkey hp))"
  with htable_ok_slot [OF assms] show "hp \<in> set (links h)"
    by (auto simp: links_def intro!: bexI nth_mem)
qed

lemma htable_link_ok:
  assumes "htable_ok h"
  shows "htable_ok (htable_link hp h)" and "set (links (htable_link hp h)) = insert hp (set (links h))"
proof -
  let ?i = "hash_slot h (hkey hp)"
  have i: "?i < length (table h)" by (rule htable_ok_slot [OF assms])
  have s: "hash_slot (h\<lparr>table := t, num_items := n\<rparr>) = hash_slot h" for t n
    by (rule hash_slot_cong) simp
  show "set (links (htable_link hp h)) = insert hp (set (links h))"
    using concat_list_update(1) [OF i] by (simp add: htable_link_def links_def Let_def)
  show "htable_ok (htable_link hp h)"
    using assms concat_list_update(2) [OF i] i
    by (auto simp: htable_ok_def htable_link_def Let_def s links_def nth_list_update)
qed

lemma htable_empty_ok:
  assumes "buckets h = 2 ^ p" "hmask h = mask p" "max_items h = buckets h * 4"
  shows "htable_ok (h\<lparr>table := replicate (buckets h) [], num_items := 0\<rparr>)"
  using assms by (auto simp: htable_ok_def links_def)

lemma fold_link_ok:
  "htable_ok h \<Longrightarrow> htable_ok (fold htable_link hps h)
     \<and> set (links (fold htable_link hps h)) = set hps \<union> set (links h)"
  by (induction hps arbitrary: h) (auto simp: htable_link_ok)

text \<open>The walk of \<open>first\<close> and \<open>next\<close> visits the chains in bucket order.\<close>

lemma walk_seek_links:
  assumes "length (table h) = buckets h" "walk_seek h wp wi = (wp', wi')"
  shows "wp' @ concat (drop wi' (table h)) = wp @ concat (drop wi (table h))
    \<and> (wp' = [] \<longrightarrow> buckets h \<le> wi')"
  using assms
proof (induction h wp wi rule: walk_seek.induct)
  case (1 h wp wi)
  show ?case
  proof (cases "wp = [] \<and> wi < buckets h")
    case True
    with "1.prems" have "walk_seek h (table h ! wi) (Suc wi) = (wp', wi')"
      by (subst (asm) walk_seek.simps) simp
    with True "1.IH" "1.prems"(1) show ?thesis
      by (simp add: Cons_nth_drop_Suc [symmetric])
  next
    case False
    with "1.prems" show ?thesis
      by (subst (asm) walk_seek.simps) auto
  qed
qed

lemma grow_loop_fold:
  assumes "length (table h) = buckets h" "ch = [] \<longrightarrow> buckets h \<le> wi"
  shows "grow_loop h ch wi big = fold htable_link (ch @ concat (drop wi (table h))) big"
  using assms
proof (induction h ch wi big rule: grow_loop.induct)
  case (1 h wi big)
  then show ?case by simp
next
  case (2 h hp ni wi big)
  show ?case
  proof (cases "ni = []")
    case False
    with 2 show ?thesis by (simp add: Let_def)
  next
    case True
    obtain wp wi' where w: "walk_seek h [] wi = (wp, wi')" by fastforce
    have "grow_loop h wp wi' (htable_link hp big)
        = fold htable_link (wp @ concat (drop wi' (table h))) (htable_link hp big)"
      using 2(2) True w walk_seek_links [OF 2(3) w] 2(3) by auto
    with True w show ?thesis
      using walk_seek_links [OF 2(3) w] by (simp add: Let_def)
  qed
qed

definition grown :: "'a htable \<Rightarrow> 'a htable" where
  "grown h = h\<lparr>table := replicate (buckets h * 2) [], num_items := 0,
      max_items := buckets h * 2 * 4, buckets := buckets h * 2,
      hmask := push_bit 1 (hmask h) OR 1, rshift := rshift h - 1,
      walkptr := [], walk_index := 0\<rparr>"

lemma grown_ok:
  assumes "htable_ok h"
  shows "htable_ok (grown h) \<and> links (grown h) = []"
proof -
  from assms obtain p where "buckets h = 2 ^ p" "hmask h = mask p"
    by (auto simp: htable_ok_def)
  moreover have "buckets (grown h) = 2 * buckets h" "hmask (grown h) = push_bit 1 (hmask h) OR 1"
    by (simp_all add: grown_def)
  ultimately have "buckets (grown h) = 2 ^ Suc p" "hmask (grown h) = mask (Suc p)"
    by (simp_all only: mask_push power_Suc)
  moreover have "table (grown h) = replicate (buckets (grown h)) []"
    "num_items (grown h) = 0" "max_items (grown h) = buckets (grown h) * 4"
    by (simp_all add: grown_def mult.commute)
  ultimately show ?thesis
    by (auto simp: htable_ok_def links_def simp del: power_Suc)
qed

lemma grow_table_fold:
  assumes "htable_ok h"
  shows "grow_table h = fold htable_link (links h) (grown h)"
proof -
  have len: "length (table h) = buckets h" and pos: "0 < length (table h)"
    using assms by (auto simp: htable_ok_def)
  obtain wp wi where w: "walk_seek h (table h ! 0) 1 = (wp, wi)" by fastforce
  have "links h = table h ! 0 @ concat (drop 1 (table h))"
    using pos by (cases "table h") (auto simp: links_def)
  then show ?thesis
    using walk_seek_links [OF len w] grow_loop_fold [OF len, of wp wi] w
    by (simp add: grow_table_def grown_def Let_def)
qed

lemma grow_table_ok:
  assumes "htable_ok h"
  shows "htable_ok (grow_table h)" and "set (links (grow_table h)) = set (links h)"
  using fold_link_ok [of "grown h" "links h"] grown_ok [OF assms]
  by (simp_all add: grow_table_fold [OF assms])

text \<open>During growth the new table stays below its own limit.\<close>

lemma fold_link_fields:
  "num_items (fold htable_link hps h) = num_items h + length hps
     \<and> max_items (fold htable_link hps h) = max_items h"
  by (induction hps arbitrary: h) (auto simp: htable_link_def Let_def)

lemma grow_no_regrow:
  assumes "htable_ok h" "num_items h \<le> max_items h"
  shows "num_items (grow_table h) < max_items (grow_table h)"
proof -
  have "0 < buckets h" "num_items h = length (links h)" "max_items h = buckets h * 4"
    using assms(1) by (auto simp: htable_ok_def)
  moreover have "num_items (grown h) = 0" "max_items (grown h) = buckets h * 8"
    by (simp_all add: grown_def)
  ultimately show ?thesis
    using assms(2) fold_link_fields [of "links h" "grown h"]
    by (simp add: grow_table_fold [OF assms(1)])
qed

lemma htable_insert_ok:
  assumes "htable_ok h"
  shows "htable_ok (htable_insert k v h)"
    and "htable_entries (htable_insert k v h) = insert (k, v) (htable_entries h)"
  using htable_link_ok [OF assms, of "\<lparr>hkey = k, hitem = v\<rparr>"]
    grow_table_ok [of "htable_link \<lparr>hkey = k, hitem = v\<rparr> h"]
  by (simp_all add: htable_insert_def Let_def htable_entries_def)

lemma htable_lookup_find:
  "htable_lookup k h = map_option hitem (find (\<lambda>hp. k = hkey hp) (table h ! hash_slot h k))"
  by (simp add: htable_lookup_def)

lemma htable_lookup_Some:
  assumes "htable_ok h" "htable_lookup k h = Some v"
  shows "(k, v) \<in> htable_entries h"
proof -
  from assms(2) obtain hp where "find (\<lambda>hp. k = hkey hp) (table h ! hash_slot h k) = Some hp"
    and v: "v = hitem hp"
    by (auto simp: htable_lookup_def)
  then have "hp \<in> set (table h ! hash_slot h k)" and k: "k = hkey hp"
    by (auto simp: find_Some_iff)
  then have "hp \<in> set (links h)"
    using htable_ok_member [OF assms(1)] by simp
  then show ?thesis by (auto simp: htable_entries_def k v)
qed

lemma htable_lookup_None:
  assumes "htable_ok h" "htable_lookup k h = None"
  shows "(k, v) \<notin> htable_entries h"
proof
  assume "(k, v) \<in> htable_entries h"
  then obtain hp where hp: "hp \<in> set (links h)" "hkey hp = k"
    by (auto simp: htable_entries_def)
  then have "hp \<in> set (table h ! hash_slot h k)"
    using htable_ok_member [OF assms(1)] by auto
  with assms(2) hp(2) show False
    by (auto simp: htable_lookup_def find_None_iff)
qed

lemma ResetTable_ok:
  assumes "htable_ok h"
  shows "htable_ok (ResetTable h)" and "htable_entries (ResetTable h) = {}"
  using assms
  by (auto simp: htable_ok_def ResetTable_def links_def htable_entries_def)

interpretation ht: hash_index_reset htable_ok htable_insert htable_lookup htable_entries ResetTable
  by unfold_locales
    (auto simp: htable_insert_ok ResetTable_ok dest: htable_lookup_Some htable_lookup_None)

lemma SetOffset_ok:
  "htable_ok h \<Longrightarrow> htable_ok (SetOffset off h)"
  "htable_entries (SetOffset off h) = htable_entries h"
  by (auto simp: htable_ok_def SetOffset_def links_def htable_entries_def hash_slot_def)

lemma htable_init_ok:
  "htable_ok (htable_init off n t :: 'a htable)" "htable_entries (htable_init off n t :: 'a htable) = {}"
  by (auto simp: htable_ok_def htable_init_def Let_def links_def htable_entries_def mask_not_push)

text \<open>
  Below the growth limit the newest item of a key is found.  Growth pushes each chain in walk
  order and so reverses it: afterwards the oldest item of a key is found.
\<close>

lemma htable_lookup_newest:
  assumes "htable_ok h" "Suc (num_items h) < max_items h"
  shows "htable_lookup k (htable_insert k v h) = Some v"
  using assms htable_ok_slot [OF assms(1), of k]
  by (simp add: htable_insert_def htable_link_def Let_def htable_lookup_def hash_slot_def)

lemma chain_link:
  assumes "htable_ok h"
  shows "table (htable_link hp h) ! hash_slot (htable_link hp h) k =
     (if hash_slot h k = hash_slot h (hkey hp) then hp # table h ! hash_slot h k
      else table h ! hash_slot h k)"
  using htable_ok_slot [OF assms]
  by (auto simp: htable_link_def Let_def hash_slot_def)

lemma chain_fold_link:
  assumes "htable_ok h"
  shows "filter (\<lambda>hp. hkey hp = k) (table (fold htable_link hps h) ! hash_slot (fold htable_link hps h) k)
    = rev (filter (\<lambda>hp. hkey hp = k) hps) @ filter (\<lambda>hp. hkey hp = k) (table h ! hash_slot h k)"
  using assms
  by (induction hps arbitrary: h) (auto simp: htable_link_ok chain_link)

end
