(* ===== verification/Edelta.thy ===== *)
theory Edelta imports Gear Htable begin

text \<open>
  The delta compressor of \<open>ecallSrc/ecallIndex/ecallFreqIndex.cc\<close> (the same code stands in
  \<open>ecallMeGA.cc\<close>, \<open>ecallOffline.cc\<close> and, for the decoder, \<open>ecallRecvDecoder.cc\<close>): the
  record codec, \<open>Chunking_v3\<close>, \<open>EDeltaEncode\<close> and \<open>EDeltaDecode\<close>.

  Buffers have their allocated size and every \<open>memcpy\<close> into them is bounds-checked.  Pointers
  into the array \<open>BaseLink\<close> are indices.  The local variables that the encoder leaves
  uninitialised are \<open>None\<close> until assigned.  Sizes and cursors are natural numbers; they are
  cut to 32 bits where the code stores them in a record.  The two counters \<open>match\<close> and
  \<open>matchsum\<close>, which nothing reads, are left out.
\<close>

section \<open>Records (util.h) and their flag word\<close>

record DeltaRecord =
  nHash :: u64
  nOffset :: nat
  nLength :: nat
  DupFlag :: nat

record DeltaUnit1 =
  flag_length1 :: u32
  nOffset1 :: u32

record DeltaUnit2 =
  flag_length2 :: u32

text \<open>The top bit of the first word is the kind of the record, the other 31 bits its length.\<close>

definition set_flag :: "u32 \<Rightarrow> nat \<Rightarrow> u32" where
  "set_flag fl flag =
     (if flag = 0 then fl AND drop_bit 1 (NOT 0) else fl OR push_bit 31 1)"

definition get_flag :: "u32 \<Rightarrow> u32" where
  "get_flag fl = fl AND push_bit 31 1"

definition set_length :: "u32 \<Rightarrow> u32 \<Rightarrow> u32" where
  "set_length fl len = (let musk = fl AND push_bit 31 1 in len OR musk)"

definition get_length :: "u32 \<Rightarrow> u32" where
  "get_length fl = fl AND drop_bit 1 (NOT 0)"

definition unit1_bytes :: "DeltaUnit1 \<Rightarrow> byte list" where
  "unit1_bytes r = le32 (flag_length1 r) @ le32 (nOffset1 r)"

definition unit2_bytes :: "DeltaUnit2 \<Rightarrow> byte list" where
  "unit2_bytes r = le32 (flag_length2 r)"

definition unit1_size :: nat where "unit1_size = 8"
definition unit2_size :: nat where "unit2_size = 4"

section \<open>Chunking_v3\<close>

text \<open>The records of the sub-chunks between successive cuts, and the number of bytes cut.\<close>

definition Chunking_v3 :: "byte list \<Rightarrow> nat \<Rightarrow> nat \<Rightarrow> DeltaRecord list \<times> nat" where
  "Chunking_v3 data len num =
     (let cuts = rolling_gear_v3 data len num in
      (map (\<lambda>i. let chunkLen = cuts ! Suc i - cuts ! i in
              \<lparr>nHash = weakHash (bslice data (cuts ! i) chunkLen), nOffset = cuts ! i,
               nLength = chunkLen, DupFlag = 0\<rparr>) [0..<num],
       last cuts))"

section \<open>Head and tail detection\<close>

text \<open>
  Extend a match byte by byte, eight at a time while both sides allow it.  The base side
  starts at \<open>bo\<close> and ends at \<open>bl\<close>, the input side starts at \<open>no\<close> and ends at \<open>nl\<close>.
\<close>

function ext_words :: "byte list \<Rightarrow> nat \<Rightarrow> nat \<Rightarrow> byte list \<Rightarrow> nat \<Rightarrow> nat \<Rightarrow> nat \<Rightarrow> nat" where
  "ext_words base bo bl new no nl j =
     (if bo + j + 7 < bl \<and> no + j + 7 < nl then
        (if get64 (bslice base (bo + j) 8) = get64 (bslice new (no + j) 8)
         then ext_words base bo bl new no nl (j + 8) else j)
      else j)"
  by pat_completeness auto
termination
  by (relation "measure (\<lambda>(base, bo, bl, new, no, nl, j). bl - j)") auto

function ext_bytes :: "byte list \<Rightarrow> nat \<Rightarrow> nat \<Rightarrow> byte list \<Rightarrow> nat \<Rightarrow> nat \<Rightarrow> nat \<Rightarrow> nat" where
  "ext_bytes base bo bl new no nl j =
     (if bo + j < bl \<and> no + j < nl then
        (if base ! (bo + j) = new ! (no + j) then ext_bytes base bo bl new no nl (j + 1) else j)
      else j)"
  by pat_completeness auto
termination
  by (relation "measure (\<lambda>(base, bo, bl, new, no, nl, j). bl - j)") auto

function tail_words :: "byte list \<Rightarrow> byte list \<Rightarrow> nat \<Rightarrow> nat" where
  "tail_words base new e =
     (if e + 7 < length base \<and> e + 7 < length new then
        (if get64 (bslice base (length base - e - 8) 8) = get64 (bslice new (length new - e - 8) 8)
         then tail_words base new (e + 8) else e)
      else e)"
  by pat_completeness auto
termination
  by (relation "measure (\<lambda>(base, new, e). length base - e)") auto

function tail_bytes :: "byte list \<Rightarrow> byte list \<Rightarrow> nat \<Rightarrow> nat" where
  "tail_bytes base new e =
     (if e < length base \<and> e < length new then
        (if base ! (length base - e - 1) = new ! (length new - e - 1)
         then tail_bytes base new (e + 1) else e)
      else e)"
  by pat_completeness auto
termination
  by (relation "measure (\<lambda>(base, new, e). length base - e)") auto

declare ext_words.simps [simp del] ext_bytes.simps [simp del]
  tail_words.simps [simp del] tail_bytes.simps [simp del]

text \<open>The common head and tail of the two chunks: \<open>begSize\<close> and \<open>endSize\<close>, zero if not used.\<close>

definition detect_ends :: "byte list \<Rightarrow> byte list \<Rightarrow> nat \<times> nat" where
  "detect_ends new base =
     (let begSize = ext_words base 0 (length base) new 0 (length new) 0;
          begSize = ext_bytes base 0 (length base) new 0 (length new) begSize;
          begSize = (if 16 < begSize then begSize else 0);
          endSize = tail_words base new 0;
          endSize = tail_bytes base new endSize;
          endSize = (if length new < begSize + endSize then length new - begSize else endSize);
          endSize = (if 16 < endSize then endSize else 0)
      in (begSize, endSize))"

text \<open>
  When head and tail together cover the base: one record for the head, the bytes between
  them, one record for the tail.
\<close>

definition encode_ends ::
    "byte list \<Rightarrow> byte list \<Rightarrow> nat \<Rightarrow> nat \<Rightarrow> byte list \<Rightarrow> (byte list \<times> nat) res" where
  "encode_ends new base begSize endSize buf =
     res_bind
       (if 0 < begSize then
          res_bind (buf_write buf 0
              (unit1_bytes \<lparr>flag_length1 = set_length (set_flag 0 0) (word_of_nat begSize),
                            nOffset1 = 0\<rparr>))
            (\<lambda>buf. Inr (buf, unit1_size))
        else Inr (buf, 0))
       (\<lambda>(buf, deltaLen).
          res_bind
            (if 0 < length new - begSize - endSize then
               let r2 = set_length (set_flag 0 1) (word_of_nat (length new - begSize - endSize)) in
               res_bind (buf_write buf deltaLen (unit2_bytes \<lparr>flag_length2 = r2\<rparr>)) (\<lambda>buf.
               res_bind (buf_read new begSize (unat (get_length r2))) (\<lambda>lit.
               res_bind (buf_write buf (deltaLen + unit2_size) lit) (\<lambda>buf.
               Inr (buf, deltaLen + unit2_size + unat (get_length r2)))))
             else Inr (buf, deltaLen))
            (\<lambda>(buf, deltaLen).
               if 0 < endSize then
                 res_bind (buf_write buf deltaLen
                     (unit1_bytes \<lparr>flag_length1 = set_length (set_flag 0 0) (word_of_nat endSize),
                                   nOffset1 = word_of_nat (length base - endSize)\<rparr>))
                   (\<lambda>buf. Inr (buf, deltaLen + unit1_size))
               else Inr (buf, deltaLen)))"

section \<open>The main loop of the encoder\<close>

definition BASE_BEGIN :: nat where "BASE_BEGIN = 5"
definition BASE_EXPAND :: nat where "BASE_EXPAND = 3"
definition BASE_STEP :: nat where "BASE_STEP = 3"
definition INPUT_TRY :: nat where "INPUT_TRY = 5"

lemmas edelta_consts = BASE_BEGIN_def BASE_EXPAND_def BASE_STEP_def INPUT_TRY_def
  unit1_size_def unit2_size_def

text \<open>The local variables of \<open>EDeltaEncode\<close> and the buffers it works on.\<close>

record estate =
  deltaBuf :: "byte list"
  deltaLen :: nat
  cursor_base :: nat
  cursor_input :: nat
  input_last_chunk_beg :: nat
  inputPos :: nat
  elength :: nat
  psDupSubCnk :: "nat option"
  record1 :: DeltaUnit1
  record2 :: DeltaUnit2
  eflag :: nat
  numBase :: nat
  BaseLink :: "DeltaRecord list"
  psHTable :: "nat htable"
  flag_chunk :: bool
  numBytes_old :: nat
  numBytes_accu :: nat
  probe_match :: nat
  flag_handle_probe :: "bool option"
  InputLink :: "DeltaRecord list"

text \<open>
  The test whether more of the base is to be chunked,
  \<open>(cursor_input / (float) newSize) + 0.5 >= (cursor_base / (float) baseSize)\<close>, in the
  arithmetic of the machine: single-precision quotients rounded to 24 bits, ties to even; the
  sum in double precision is exact for the values that occur (cursors of at most 24 bits,
  which are exact in single precision).  \<open>f32_div a b\<close> is the quotient as \<open>m / 2 ^ e\<close>.
\<close>

function f32_shift :: "nat \<Rightarrow> nat \<Rightarrow> nat \<Rightarrow> nat" where
  "f32_shift a b e = (if 0 < a \<and> a * 2 ^ e < 2 ^ 23 * b then f32_shift a b (Suc e) else e)"
  by pat_completeness auto
termination
proof (relation "measure (\<lambda>(a, b, e). 2 ^ 23 * b - a * 2 ^ e)", goal_cases)
  case 1
  show ?case by simp
next
  case (2 a b e)
  then have "a * 2 ^ e < a * 2 ^ Suc e" by simp
  with 2 have "2 ^ 23 * b - a * 2 ^ Suc e < 2 ^ 23 * b - a * 2 ^ e"
    by (intro diff_less_mono2) auto
  then show ?case by (simp only: in_measure prod.case)
qed

declare f32_shift.simps [simp del]

definition f32_div :: "nat \<Rightarrow> nat \<Rightarrow> nat \<times> nat" where
  "f32_div a b =
     (let e = f32_shift a b 0; q = a * 2 ^ e div b; r = a * 2 ^ e mod b
      in (if b < 2 * r \<or> (2 * r = b \<and> odd q) then q + 1 else q, e))"

definition base_due :: "nat \<Rightarrow> nat \<Rightarrow> nat \<Rightarrow> nat \<Rightarrow> bool" where
  "base_due cin newSize cbase baseSize =
     (let (m1, e1) = f32_div cin newSize; (m2, e2) = f32_div cbase baseSize
      in m2 * 2 ^ Suc e1 \<le> (2 * m1 + 2 ^ e1) * 2 ^ e2)"

text \<open>
  Chunk the next \<open>chunk_number\<close> sub-chunks of the base into \<open>BaseLink\<close> and index them, up to
  the first empty one, which marks the end of the base.
\<close>

fun insert_base ::
    "nat list \<Rightarrow> nat \<Rightarrow> DeltaRecord list \<Rightarrow> nat htable \<Rightarrow> bool \<Rightarrow> DeltaRecord list \<times> nat htable \<times> bool"
    where
  "insert_base [] cb bl h fc = (bl, h, fc)"
| "insert_base (k # ks) cb bl h fc =
     (if nLength (bl ! k) = 0 then (bl, h, False)
      else
        let r = (bl ! k)\<lparr>nOffset := nOffset (bl ! k) + cb\<rparr>
        in insert_base ks cb (bl[k := r]) (htable_insert (nHash r) k h) fc)"

definition chunk_base :: "byte list \<Rightarrow> nat \<Rightarrow> nat \<Rightarrow> estate \<Rightarrow> estate res" where
  "chunk_base base endSize chunk_number st =
     (let (recs, numBytes) = Chunking_v3 (drop (cursor_base st) base)
                               (length base - endSize - cursor_base st) chunk_number
      in res_bind (res_guard OutOfBounds (numBase st + chunk_number \<le> length (BaseLink st)))
        (\<lambda>_. let bl = take (numBase st) (BaseLink st) @ recs
                      @ drop (numBase st + chunk_number) (BaseLink st);
                  (bl, h, fc) = insert_base [numBase st..<numBase st + chunk_number]
                                  (cursor_base st) bl (psHTable st) (flag_chunk st)
              in Inr (st\<lparr>BaseLink := bl, psHTable := h, flag_chunk := fc,
                         cursor_base := cursor_base st + numBytes,
                         numBase := numBase st + chunk_number,
                         numBytes_accu := numBytes_accu st + numBytes\<rparr>)))"

text \<open>
  Probe the first \<open>INPUT_TRY\<close> sub-chunks of the input against the index: the first round cuts
  them (\<open>probe_cut\<close>), the later rounds look the same sub-chunks up again (\<open>probe_again\<close>).
  The result is the position of the sub-chunk that was found, if any, and the last lookup.
\<close>

fun probe_cut ::
    "byte list \<Rightarrow> nat \<Rightarrow> nat htable \<Rightarrow> nat \<Rightarrow> nat \<Rightarrow> DeltaRecord list
      \<Rightarrow> DeltaRecord list \<times> nat option \<times> nat option" where
  "probe_cut new endSize h c1 0 acc = (acc, None, None)"
| "probe_cut new endSize h c1 (Suc k) acc =
     (let c2 = c1;
          c1' = chunk_gear (drop c2 new) (length new - c2 - endSize) + c2;
          hash = weakHash (bslice new c2 (c1' - c2));
          acc' = acc @ [\<lparr>nHash = hash, nOffset = 0, nLength = c1' - c2, DupFlag = 0\<rparr>]
      in (case htable_lookup hash h of
            Some d \<Rightarrow> (acc', Some (length acc), Some d)
          | None \<Rightarrow> probe_cut new endSize h c1' k acc'))"

fun probe_again ::
    "nat htable \<Rightarrow> nat \<Rightarrow> DeltaRecord list \<Rightarrow> nat option \<times> nat option" where
  "probe_again h j [] = (None, None)"
| "probe_again h j (r # rs) =
     (case htable_lookup (nHash r) h of
        Some d \<Rightarrow> (Some j, Some d)
      | None \<Rightarrow> probe_again h (Suc j) rs)"

definition probe_input :: "byte list \<Rightarrow> nat \<Rightarrow> nat \<Rightarrow> estate \<Rightarrow> estate" where
  "probe_input new endSize i st =
     (let (links, pm, dup) =
            (if i = 0 then probe_cut new endSize (psHTable st) (cursor_input st) INPUT_TRY []
             else let (pm, dup) = probe_again (psHTable st) 0 (InputLink st)
                  in (InputLink st, pm, dup))
      in st\<lparr>InputLink := links, psDupSubCnk := dup,
            probe_match := (case pm of Some j \<Rightarrow> j | None \<Rightarrow> probe_match st)\<rparr>)"

text \<open>The loop \<open>for (i = 0; i < BASE_STEP; i++)\<close>, with its exits on a match and at the base's end.\<close>

fun base_rounds :: "byte list \<Rightarrow> byte list \<Rightarrow> nat \<Rightarrow> nat \<Rightarrow> nat \<Rightarrow> nat \<Rightarrow> estate \<Rightarrow> estate res" where
  "base_rounds new base endSize 0 i chunk_number st = Inr st"
| "base_rounds new base endSize (Suc k) i chunk_number st =
     res_bind (chunk_base base endSize chunk_number st)
       (\<lambda>st. let st = probe_input new endSize i st in
              if psDupSubCnk st \<noteq> None then Inr st
              else if \<not> flag_chunk st then Inr st
              else base_rounds new base endSize k (Suc i) (chunk_number * BASE_EXPAND) st)"

definition rechunk :: "byte list \<Rightarrow> byte list \<Rightarrow> nat \<Rightarrow> estate \<Rightarrow> estate res" where
  "rechunk new base endSize st =
     (if flag_chunk st \<and>
         base_due (cursor_input st) (length new) (cursor_base st) (length base)
      then res_bind
        (base_rounds new base endSize BASE_STEP 0 BASE_BEGIN
          (st\<lparr>numBytes_old := numBytes_accu st, numBytes_accu := 0,
              flag_handle_probe := Some True, probe_match := INPUT_TRY\<rparr>))
        (\<lambda>st. Inr (st\<lparr>input_last_chunk_beg :=
            (if input_last_chunk_beg st + numBytes_old st < cursor_input st
             then cursor_input st else input_last_chunk_beg st + numBytes_old st)\<rparr>))
      else Inr st)"

text \<open>
  An unmatched sub-chunk is appended as literal bytes.  While literals follow each other only
  the bytes are written and the length is kept in \<open>record2\<close>; the header in the buffer is
  brought up to date when the run of literals ends.
\<close>

definition emit_literal :: "byte list \<Rightarrow> estate \<Rightarrow> estate res" where
  "emit_literal new st =
     res_bind (buf_read new (inputPos st) (elength st)) (\<lambda>lit.
       if eflag st = 2 then
         res_bind (buf_write (deltaBuf st) (deltaLen st) lit) (\<lambda>buf.
           Inr (st\<lparr>deltaBuf := buf, deltaLen := deltaLen st + elength st,
                   record2 := \<lparr>flag_length2 = set_length (flag_length2 (record2 st))
                     (get_length (flag_length2 (record2 st)) + word_of_nat (elength st))\<rparr>\<rparr>))
       else
         let r2 = \<lparr>flag_length2 = set_length (flag_length2 (record2 st)) (word_of_nat (elength st))\<rparr>
         in res_bind (buf_write (deltaBuf st) (deltaLen st) (unit2_bytes r2)) (\<lambda>buf.
            res_bind (buf_write buf (deltaLen st + unit2_size) lit) (\<lambda>buf.
              Inr (st\<lparr>deltaBuf := buf, deltaLen := deltaLen st + unit2_size + elength st,
                      record2 := r2, eflag := 2\<rparr>))))"

text \<open>The header of the current run of literals, written back in front of its bytes.\<close>

definition flush_literal :: "estate \<Rightarrow> estate res" where
  "flush_literal st =
     (if eflag st = 2 then
        let back = unat (get_length (flag_length2 (record2 st))) + unit2_size in
        res_bind (res_guard OutOfBounds (back \<le> deltaLen st)) (\<lambda>_.
        res_bind (buf_write (deltaBuf st) (deltaLen st - back) (unit2_bytes (record2 st))) (\<lambda>buf.
          Inr (st\<lparr>deltaBuf := buf\<rparr>)))
      else Inr st)"

text \<open>The number of literal bytes before the match that the base holds before it as well.\<close>

function back_bytes :: "byte list \<Rightarrow> nat \<Rightarrow> byte list \<Rightarrow> nat \<Rightarrow> nat \<Rightarrow> nat \<Rightarrow> nat" where
  "back_bytes base off new pos lim k =
     (if k + 1 \<le> off \<and> k + 1 \<le> lim then
        (if base ! (off - (k + 1)) = new ! (pos - (k + 1))
         then back_bytes base off new pos lim (k + 1) else k)
      else k)"
  by pat_completeness auto
termination
  by (relation "measure (\<lambda>(base, off, new, pos, lim, k). lim - k)") auto

declare back_bytes.simps [simp del]

text \<open>Take the last \<open>k\<close> bytes off the run of literals; the bytes stay in the buffer.\<close>

definition shrink_literal :: "nat \<Rightarrow> estate \<Rightarrow> estate res" where
  "shrink_literal k st =
     (if 0 < k then
        let deltaLen' = deltaLen st - unat (get_length (flag_length2 (record2 st))) - unit2_size;
            r2 = \<lparr>flag_length2 = set_length (flag_length2 (record2 st))
                   (get_length (flag_length2 (record2 st)) - word_of_nat k)\<rparr>
        in res_bind
             (if 0 < get_length (flag_length2 r2) then
                res_bind (buf_write (deltaBuf st) deltaLen' (unit2_bytes r2)) (\<lambda>buf.
                  Inr (st\<lparr>deltaBuf := buf, record2 := r2, deltaLen :=
                    deltaLen' + unit2_size + unat (get_length (flag_length2 r2))\<rparr>))
              else Inr (st\<lparr>deltaLen := deltaLen', record2 := r2\<rparr>))
             (\<lambda>st. Inr (st\<lparr>record1 :=
                \<lparr>flag_length1 = set_length (flag_length1 (record1 st))
                                  (get_length (flag_length1 (record1 st)) + word_of_nat k),
                 nOffset1 = nOffset1 (record1 st) - word_of_nat k\<rparr>\<rparr>))
      else Inr st)"

text \<open>A match: extend it to both sides and write its record.\<close>

definition emit_match :: "byte list \<Rightarrow> byte list \<Rightarrow> nat \<Rightarrow> DeltaRecord \<Rightarrow> estate \<Rightarrow> estate res" where
  "emit_match new base endSize dup st =
     res_bind (flush_literal st) (\<lambda>st.
       let bo = nOffset dup + elength st;
           j = ext_words base bo (length base - endSize) new (cursor_input st)
                 (length new - endSize) 0;
           j = ext_bytes base bo (length base - endSize) new (cursor_input st)
                 (length new - endSize) j;
           cin = cursor_input st + j;
           st = st\<lparr>cursor_input := cin,
                   cursor_base := (if cursor_base st < bo + j then bo + j else cursor_base st),
                   record1 := \<lparr>flag_length1 = set_length (flag_length1 (record1 st))
                                  (word_of_nat (cin - inputPos st)),
                               nOffset1 = word_of_nat (nOffset dup)\<rparr>\<rparr>;
           k = (if eflag st = 2
                then back_bytes base (nOffset dup) new (inputPos st)
                       (unat (get_length (flag_length2 (record2 st)))) 0
                else 0)
       in res_bind (shrink_literal k st) (\<lambda>st.
          res_bind (buf_write (deltaBuf st) (deltaLen st) (unit1_bytes (record1 st))) (\<lambda>buf.
            Inr (st\<lparr>deltaBuf := buf, deltaLen := deltaLen st + unit1_size, eflag := 1\<rparr>))))"

text \<open>
  The label \<open>match\<close>: the sub-chunk found by hash is compared byte by byte; on a difference
  control goes to \<open>handle_hash_error\<close>, which treats the sub-chunk as unmatched.
\<close>

definition do_match :: "byte list \<Rightarrow> byte list \<Rightarrow> nat \<Rightarrow> estate \<Rightarrow> estate res" where
  "do_match new base endSize st =
     (case psDupSubCnk st of
        None \<Rightarrow> Inl NullPtr
      | Some d \<Rightarrow>
          res_bind (res_guard OutOfBounds (d < length (BaseLink st))) (\<lambda>_.
            let dup = BaseLink st ! d in
            if elength st = nLength dup then
              res_bind (buf_read new (inputPos st) (elength st)) (\<lambda>a.
              res_bind (buf_read base (nOffset dup) (elength st)) (\<lambda>b.
                if a = b then emit_match new base endSize dup st else emit_literal new st))
            else emit_literal new st))"

text \<open>The probed sub-chunks are consumed first: unmatched ones up to the one that was found.\<close>

fun handle_probe :: "byte list \<Rightarrow> nat \<Rightarrow> DeltaRecord list \<Rightarrow> estate \<Rightarrow> (bool \<times> estate) res" where
  "handle_probe new i [] st = Inr (False, st\<lparr>flag_handle_probe := Some False\<rparr>)"
| "handle_probe new i (r # rs) st =
     (let st = st\<lparr>elength := nLength r, cursor_input := nLength r + inputPos st\<rparr> in
      if i = probe_match st then Inr (True, st\<lparr>flag_handle_probe := Some False\<rparr>)
      else res_bind (emit_literal new st)
             (\<lambda>st. handle_probe new (Suc i) rs (st\<lparr>inputPos := cursor_input st\<rparr>)))"

text \<open>Otherwise one sub-chunk is cut off the input and looked up.\<close>

definition cut_and_match :: "byte list \<Rightarrow> byte list \<Rightarrow> nat \<Rightarrow> estate \<Rightarrow> estate res" where
  "cut_and_match new base endSize st =
     (let cin = chunk_gear (drop (inputPos st) new) (length new - inputPos st - endSize)
                + inputPos st;
          len = cin - inputPos st;
          hash = weakHash (bslice new (inputPos st) len);
          st = st\<lparr>cursor_input := cin, elength := len,
                  psDupSubCnk := htable_lookup hash (psHTable st)\<rparr>
      in if psDupSubCnk st \<noteq> None then do_match new base endSize st else emit_literal new st)"

text \<open>One iteration of the main loop.\<close>

definition encode_step :: "byte list \<Rightarrow> byte list \<Rightarrow> nat \<Rightarrow> estate \<Rightarrow> estate res" where
  "encode_step new base endSize st =
     res_bind (rechunk new base endSize st) (\<lambda>st.
       case flag_handle_probe st of
         None \<Rightarrow> Inl UninitRead
       | Some handle \<Rightarrow>
           res_bind
             (if handle then
                res_bind (handle_probe new 0 (InputLink st) st) (\<lambda>(found, st).
                  if found then do_match new base endSize st
                  else cut_and_match new base endSize st)
              else cut_and_match new base endSize st)
             (\<lambda>st. Inr (st\<lparr>inputPos := cursor_input st\<rparr>)))"

text \<open>The main loop \<open>while (inputPos < newSize - endSize)\<close>; at most \<open>newSize\<close> iterations.\<close>

fun encode_loop :: "nat \<Rightarrow> byte list \<Rightarrow> byte list \<Rightarrow> nat \<Rightarrow> estate \<Rightarrow> estate res" where
  "encode_loop 0 new base endSize st = Inl NoReturn"
| "encode_loop (Suc fuel) new base endSize st =
     (if inputPos st < length new - endSize
      then res_bind (encode_step new base endSize st) (encode_loop fuel new base endSize)
      else Inr st)"

definition encode_init ::
    "nat \<Rightarrow> byte list \<Rightarrow> DeltaRecord list \<Rightarrow> nat htable \<Rightarrow> estate res" where
  "encode_init begSize buf bl h =
     (let st = \<lparr>deltaBuf = buf, deltaLen = 0, cursor_base = begSize, cursor_input = begSize,
                input_last_chunk_beg = begSize, inputPos = begSize, elength = 0,
                psDupSubCnk = None, record1 = \<lparr>flag_length1 = set_flag 0 0, nOffset1 = 0\<rparr>,
                record2 = \<lparr>flag_length2 = set_flag 0 1\<rparr>, eflag = 0, numBase = 0, BaseLink = bl,
                psHTable = SetOffset 24 h, flag_chunk = True, numBytes_old = 0,
                numBytes_accu = 0, probe_match = 0, flag_handle_probe = None,
                InputLink = []\<rparr> in
      if 0 < begSize then
        let r1 = \<lparr>flag_length1 = set_length (set_flag 0 0) (word_of_nat begSize), nOffset1 = 0\<rparr> in
        res_bind (buf_write buf 0 (unit1_bytes r1)) (\<lambda>buf.
          Inr (st\<lparr>deltaBuf := buf, deltaLen := unit1_size, record1 := r1, eflag := 1\<rparr>))
      else Inr st)"

definition encode_finish :: "byte list \<Rightarrow> nat \<Rightarrow> estate \<Rightarrow> estate res" where
  "encode_finish base endSize st =
     res_bind (flush_literal st) (\<lambda>st.
       res_bind
         (if 0 < endSize then
            let r1 = \<lparr>flag_length1 = set_length (flag_length1 (record1 st)) (word_of_nat endSize),
                      nOffset1 = word_of_nat (length base - endSize)\<rparr> in
            res_bind (buf_write (deltaBuf st) (deltaLen st) (unit1_bytes r1)) (\<lambda>buf.
              Inr (st\<lparr>deltaBuf := buf, deltaLen := deltaLen st + unit1_size, record1 := r1\<rparr>))
          else Inr st)
         (\<lambda>st. Inr (st\<lparr>psHTable := ResetTable (psHTable st)\<rparr>)))"

text \<open>
  \<open>EDeltaEncode\<close> on the input chunk \<open>new\<close> and the base chunk \<open>base\<close>, with the client's
  output buffer, sub-chunk array and hash table.  The result is the output buffer, the length
  of the delta in it, and the array and table as they are left for the next call.
\<close>

definition EDeltaEncode ::
    "byte list \<Rightarrow> byte list \<Rightarrow> byte list \<Rightarrow> DeltaRecord list \<Rightarrow> nat htable
      \<Rightarrow> (byte list \<times> nat \<times> DeltaRecord list \<times> nat htable) res" where
  "EDeltaEncode new base buf bl h =
     (let (begSize, endSize) = detect_ends new base in
      if length base \<le> begSize + endSize then
        res_bind (encode_ends new base begSize endSize buf)
          (\<lambda>(buf, deltaLen). Inr (buf, deltaLen, bl, h))
      else
        res_bind (encode_init begSize buf bl h) (\<lambda>st.
        res_bind (encode_loop (Suc (length new)) new base endSize st) (\<lambda>st.
        res_bind (encode_finish base endSize st) (\<lambda>st.
          Inr (deltaBuf st, deltaLen st, BaseLink st, psHTable st)))))"

section \<open>The decoder\<close>

text \<open>
  \<open>EDeltaDecode\<close>: a loop that decodes one record and then tests whether the delta is used
  up.  \<open>dl\<close> is the length of the output so far, \<open>rl\<close> the position in the delta.
\<close>

function decode_loop ::
    "byte list \<Rightarrow> nat \<Rightarrow> byte list \<Rightarrow> byte list \<Rightarrow> nat \<Rightarrow> nat \<Rightarrow> (byte list \<times> nat) res" where
  "decode_loop delta deltaSize base out dl rl =
     res_bind (buf_read delta rl 4) (\<lambda>hd.
       if get_flag (get32 hd) = 0 then
         res_bind (buf_read delta rl unit1_size) (\<lambda>u.
           let len = unat (get_length (get32 (bslice u 0 4)));
               off = unat (get32 (bslice u 4 4));
               rl' = rl + unit1_size in
           res_bind (buf_read base off len) (\<lambda>bs.
           res_bind (buf_write out dl bs) (\<lambda>out.
             if deltaSize \<le> rl' then Inr (out, dl + len)
             else decode_loop delta deltaSize base out (dl + len) rl')))
       else
         let len = unat (get_length (get32 hd)); rl' = rl + unit2_size in
         res_bind (buf_read delta rl' len) (\<lambda>bs.
         res_bind (buf_write out dl bs) (\<lambda>out.
           if deltaSize \<le> rl' + len then Inr (out, dl + len)
           else decode_loop delta deltaSize base out (dl + len) (rl' + len))))"
  by pat_completeness auto
termination
  by (relation "measure (\<lambda>(delta, deltaSize, base, out, dl, rl). deltaSize - rl)")
    (auto simp: edelta_consts)

declare decode_loop.simps [simp del]

definition EDeltaDecode ::
    "byte list \<Rightarrow> nat \<Rightarrow> byte list \<Rightarrow> byte list \<Rightarrow> (byte list \<times> nat) res" where
  "EDeltaDecode delta deltaSize base out = decode_loop delta deltaSize base out 0 0"

end
