(* ===== verification/Delta_Spec.thy ===== *)
theory Delta_Spec imports Edelta begin

text \<open>
  What a delta is: a list of units, each a copy from the base or a run of literal bytes, with
  its meaning (\<open>delta_out\<close>) and its bytes (\<open>ser\<close>).  The decoder computes the meaning from
  the bytes (\<open>EDeltaDecode_ser\<close>); the encoder's side is in \<open>Edelta_Correct\<close>.
\<close>


section \<open>The flag word\<close>

abbreviation top_bit :: u32 where "top_bit \<equiv> push_bit 31 1"

lemma low_bits: "drop_bit 1 (NOT 0) = (mask 31 :: u32)"
  by (rule bit_word_eqI) (auto simp: bit_simps)

lemma bit_top_bit: "bit (2147483648 :: int) n \<longleftrightarrow> n = 31"
proof -
  have "(2147483648 :: int) = push_bit 31 1" by simp
  then show ?thesis by (simp only: bit_push_bit_iff) (auto simp: bit_simps)
qed

lemma short_word:
  assumes "l < 2 ^ 31"
  shows "take_bit 31 (word_of_nat l :: u32) = word_of_nat l" and "unat (word_of_nat l :: u32) = l"
  using assms by (simp_all add: unat_of_nat take_bit_nat_eq_self flip: of_nat_take_bit take_bit_of_nat)

lemma get_length_set_length: "get_length (set_length fl len) = take_bit 31 len"
  unfolding get_length_def set_length_def low_bits Let_def
  by (rule bit_word_eqI) (auto simp: bit_simps bit_top_bit)

lemma get_length_eq: "get_length fl = take_bit 31 fl"
  unfolding get_length_def low_bits by (simp add: take_bit_eq_mask)

lemma get_flag_iff: "get_flag fl = (if bit fl 31 then top_bit else 0)"
  unfolding get_flag_def by (rule bit_word_eqI) (auto simp: bit_simps bit_top_bit)

lemma short_not_bit: "take_bit 31 len = (len :: u32) \<Longrightarrow> \<not> bit len 31"
  by (metis bit_take_bit_iff less_irrefl)

lemma get_flag_set_length: "take_bit 31 len = len \<Longrightarrow> get_flag (set_length fl len) = get_flag fl"
  using short_not_bit [of len]
  by (auto simp: get_flag_iff set_length_def Let_def bit_simps bit_top_bit)

lemma get_flag_set_flag: "get_flag (set_flag fl 0) = 0" "get_flag (set_flag fl (Suc 0)) = top_bit"
  by (auto simp: get_flag_iff set_flag_def bit_simps bit_top_bit low_bits)

text \<open>The words of the two kinds of record, for lengths below \<open>2 ^ 31\<close>.\<close>

definition copy_word :: "nat \<Rightarrow> u32" where "copy_word l = word_of_nat l"
definition lit_word :: "nat \<Rightarrow> u32" where "lit_word l = word_of_nat l OR top_bit"

lemma copy_word_get:
  assumes "l < 2 ^ 31"
  shows "get_flag (copy_word l) = 0" and "unat (get_length (copy_word l)) = l"
  using short_word [OF assms] short_not_bit
  by (auto simp: copy_word_def get_flag_iff get_length_eq)

lemma lit_word_get:
  assumes "l < 2 ^ 31"
  shows "get_flag (lit_word l) \<noteq> 0" and "get_length (lit_word l) = word_of_nat l"
    and "unat (get_length (lit_word l)) = l"
proof -
  show "get_flag (lit_word l) \<noteq> 0"
    by (auto simp: lit_word_def get_flag_iff bit_simps bit_top_bit)
  have "take_bit 31 (lit_word l) = word_of_nat l"
    using short_word(1) [OF assms] unfolding lit_word_def take_bit_or
    by (simp add: take_bit_push_bit)
  then show "get_length (lit_word l) = word_of_nat l" "unat (get_length (lit_word l)) = l"
    using short_word(2) [OF assms] by (simp_all add: get_length_eq)
qed

lemma set_length_lit: "get_flag fl \<noteq> 0 \<Longrightarrow> set_length fl (word_of_nat l) = lit_word l"
  using get_flag_iff [of fl]
  by (auto simp: set_length_def lit_word_def get_flag_def Let_def split: if_splits)

lemma set_length_copy: "get_flag fl = 0 \<Longrightarrow> set_length fl (word_of_nat l) = copy_word l"
  by (auto simp: set_length_def copy_word_def get_flag_def Let_def)

section \<open>Units\<close>

datatype dunit = Copy nat nat | Lit "byte list"

fun unit_out :: "byte list \<Rightarrow> dunit \<Rightarrow> byte list" where
  "unit_out base (Copy off len) = bslice base off len"
| "unit_out base (Lit bs) = bs"

definition delta_out :: "byte list \<Rightarrow> dunit list \<Rightarrow> byte list" where
  "delta_out base us = concat (map (unit_out base) us)"

fun ser_unit :: "dunit \<Rightarrow> byte list" where
  "ser_unit (Copy off len) =
     unit1_bytes \<lparr>flag_length1 = copy_word len, nOffset1 = word_of_nat off\<rparr>"
| "ser_unit (Lit bs) = unit2_bytes \<lparr>flag_length2 = lit_word (length bs)\<rparr> @ bs"

definition ser :: "dunit list \<Rightarrow> byte list" where
  "ser us = concat (map ser_unit us)"

text \<open>Copies stay inside the base, and lengths and offsets fit their fields.\<close>

fun unit_ok :: "byte list \<Rightarrow> dunit \<Rightarrow> bool" where
  "unit_ok base (Copy off len) \<longleftrightarrow> off + len \<le> length base \<and> len < 2 ^ 31 \<and> off < 2 ^ 32"
| "unit_ok base (Lit bs) \<longleftrightarrow> length bs < 2 ^ 31"

lemma delta_out_simps [simp]:
  "delta_out base [] = []"
  "delta_out base (u # us) = unit_out base u @ delta_out base us"
  "delta_out base (us @ vs) = delta_out base us @ delta_out base vs"
  by (simp_all add: delta_out_def)

lemma ser_simps [simp]:
  "ser [] = []"
  "ser (u # us) = ser_unit u @ ser us"
  "ser (us @ vs) = ser us @ ser vs"
  by (simp_all add: ser_def)

lemma unit_bytes_length [simp, len_simps]:
  "length (unit1_bytes r1) = unit1_size" "length (unit2_bytes r2) = unit2_size"
  by (simp_all add: unit1_bytes_def unit2_bytes_def edelta_consts)

lemma ser_unit_length: "0 < length (ser_unit u)"
  by (cases u) (auto simp: edelta_consts)

section \<open>The decoder computes the meaning of a delta\<close>

lemma unit1_read:
  "get32 (bslice (unit1_bytes r) 0 4) = flag_length1 r"
  "get32 (bslice (unit1_bytes r) 4 4) = nOffset1 r"
  by (simp_all add: unit1_bytes_def bslice_def)

lemma decode_unit:
  assumes "unit_ok base u" "bslice delta rl (length (ser_unit u)) = ser_unit u"
    "rl + length (ser_unit u) \<le> length delta"
    "dl + length (unit_out base u) \<le> length out"
  shows "\<exists>out'. buf_write out dl (unit_out base u) = Inr out' \<and>
     decode_loop delta deltaSize base out dl rl =
       (if deltaSize \<le> rl + length (ser_unit u) then Inr (out', dl + length (unit_out base u))
        else decode_loop delta deltaSize base out' (dl + length (unit_out base u))
               (rl + length (ser_unit u)))"
proof (cases u)
  case (Copy off len)
  let ?r = "\<lparr>flag_length1 = copy_word len, nOffset1 = word_of_nat off\<rparr>"
  have u: "bslice delta rl 8 = unit1_bytes ?r" and b: "rl + 8 \<le> length delta"
    using assms Copy by (simp_all add: edelta_consts)
  have "bslice delta rl 4 = bslice (unit1_bytes ?r) 0 4"
    using bslice_left [of delta rl 4 4] by (simp add: u) (simp add: bslice_def)
  then have hd: "get32 (bslice delta rl 4) = copy_word len"
    using unit1_read(1) [of ?r] by simp
  have len: "unat (get_length (copy_word len)) = len" "get_flag (copy_word len) = 0"
    "unat (word_of_nat off :: u32) = off"
    using assms(1) Copy copy_word_get [of len] by (auto simp: unat_of_nat)
  have "buf_read base off len = Inr (bslice base off len)"
    using assms(1) Copy by (simp add: buf_read_def)
  then show ?thesis
    using Copy assms b hd len unit1_read [of ?r] u
    by (subst decode_loop.simps)
      (auto simp: buf_read_def buf_write_def edelta_consts Let_def bslice_length)
next
  case (Lit bs)
  have b: "rl + 4 + length bs \<le> length delta"
    and s: "bslice delta rl (4 + length bs) = le32 (lit_word (length bs)) @ bs"
    using assms Lit by (simp_all add: edelta_consts unit2_bytes_def)
  have "bslice delta rl 4 = take 4 (bslice delta rl (4 + length bs))"
    and "bslice delta (rl + 4) (length bs) = drop 4 (bslice delta rl (4 + length bs))"
    by (rule bslice_left, rule bslice_right)
  then have hd: "get32 (bslice delta rl 4) = lit_word (length bs)"
    and lit: "bslice delta (rl + 4) (length bs) = bs"
    using s by simp_all
  show ?thesis
    using Lit assms b hd lit lit_word_get [of "length bs"]
    by (subst decode_loop.simps)
      (auto simp: buf_read_def buf_write_def edelta_consts Let_def add.assoc)
qed

lemma decode_units:
  assumes "us \<noteq> []" "\<forall>u \<in> set us. unit_ok base u"
    "bslice delta rl (length (ser us)) = ser us" "rl + length (ser us) = deltaSize"
    "deltaSize \<le> length delta" "dl + length (delta_out base us) \<le> length out"
  shows "\<exists>out'. decode_loop delta deltaSize base out dl rl
      = Inr (out', dl + length (delta_out base us)) \<and> length out' = length out \<and>
      take (dl + length (delta_out base us)) out' = take dl out @ delta_out base us"
  using assms
proof (induction us arbitrary: rl dl out)
  case Nil
  then show ?case by simp
next
  case (Cons u us)
  let ?n = "length (ser_unit u)" and ?m = "length (unit_out base u)"
  have s: "bslice delta rl (?n + length (ser us)) = ser_unit u @ ser us"
    using Cons.prems by simp
  have "bslice delta rl ?n = take ?n (bslice delta rl (?n + length (ser us)))"
    and "bslice delta (rl + ?n) (length (ser us)) = drop ?n (bslice delta rl (?n + length (ser us)))"
    by (rule bslice_left, rule bslice_right)
  then have su: "bslice delta rl ?n = ser_unit u" and sus: "bslice delta (rl + ?n) (length (ser us)) = ser us"
    using s by simp_all
  obtain out1 where out1: "buf_write out dl (unit_out base u) = Inr out1"
    and step: "decode_loop delta deltaSize base out dl rl =
       (if deltaSize \<le> rl + ?n then Inr (out1, dl + ?m)
        else decode_loop delta deltaSize base out1 (dl + ?m) (rl + ?n))"
    using decode_unit [OF _ su, of base dl out deltaSize] Cons.prems by auto
  have t: "take (dl + ?m) out1 = take dl out @ unit_out base u" "length out1 = length out"
    using buf_write_take [OF out1] buf_write_length [OF out1] by simp_all
  show ?case
  proof (cases "us = []")
    case True
    with Cons.prems step t show ?thesis by simp
  next
    case False
    then have "0 < length (ser us)"
      using ser_unit_length by (cases us) auto
    with Cons.prems step have step: "decode_loop delta deltaSize base out dl rl
        = decode_loop delta deltaSize base out1 (dl + ?m) (rl + ?n)" by auto
    show ?thesis
      using Cons.IH [OF False _ sus, of "dl + ?m" out1] Cons.prems t step
      by (auto simp: add.assoc)
  qed
qed

theorem EDeltaDecode_ser:
  assumes "us \<noteq> []" "\<forall>u \<in> set us. unit_ok base u" "take deltaSize delta = ser us"
    "deltaSize \<le> length delta" "length (delta_out base us) \<le> length out"
  shows "\<exists>out'. EDeltaDecode delta deltaSize base out = Inr (out', length (delta_out base us))
    \<and> take (length (delta_out base us)) out' = delta_out base us"
proof -
  have "length (ser us) = deltaSize"
    using assms(3,4) by (metis length_take min.absorb2)
  then show ?thesis
    using decode_units [OF assms(1,2), of delta 0 deltaSize 0 out] assms
    by (auto simp: EDeltaDecode_def bslice_def)
qed

end
