(* ===== verification/Edelta_Correct.thy ===== *)
theory Edelta_Correct imports Delta_Spec begin

text \<open>
  Correctness of the encoder: whatever the hash index finds, the delta it writes denotes the
  input chunk, every buffer access is in bounds, and the loop ends.
\<close>


section \<open>Match extension\<close>

definition agree :: "byte list \<Rightarrow> nat \<Rightarrow> byte list \<Rightarrow> nat \<Rightarrow> nat \<Rightarrow> bool" where
  "agree base bo new no n \<longleftrightarrow>
     bo + n \<le> length base \<and> no + n \<le> length new \<and> bslice base bo n = bslice new no n"

lemma agree_0: "bo \<le> length base \<Longrightarrow> no \<le> length new \<Longrightarrow> agree base bo new no 0"
  by (simp add: agree_def)

lemma agree_add:
  "agree base bo new no n \<Longrightarrow> agree base (bo + n) new (no + n) m \<Longrightarrow> agree base bo new no (n + m)"
  by (auto simp: agree_def simp flip: bslice_append)

lemma agree_1: "base ! bo = new ! no \<Longrightarrow> bo < length base \<Longrightarrow> no < length new \<Longrightarrow> agree base bo new no 1"
  by (simp add: agree_def bslice_def take_Suc_conv_app_nth)

lemma agree_word:
  "get64 (bslice base bo 8) = get64 (bslice new no 8) \<Longrightarrow> bo + 8 \<le> length base \<Longrightarrow>
    no + 8 \<le> length new \<Longrightarrow> agree base bo new no 8"
  by (simp add: agree_def get64_inject bslice_length)

lemma ext_words_agree:
  assumes "bl \<le> length base" "nl \<le> length new" "agree base bo new no j"
    "bo + j \<le> bl" "no + j \<le> nl"
  shows "agree base bo new no (ext_words base bo bl new no nl j) \<and>
    bo + ext_words base bo bl new no nl j \<le> bl \<and> no + ext_words base bo bl new no nl j \<le> nl"
  using assms
proof (induction base bo bl new no nl j rule: ext_words.induct)
  case (1 base bo bl new no nl j)
  show ?case
  proof (cases "bo + j + 7 < bl \<and> no + j + 7 < nl \<and>
      get64 (bslice base (bo + j) 8) = get64 (bslice new (no + j) 8)")
    case True
    with 1 have "agree base bo new no (j + 8)"
      by (auto intro!: agree_add agree_word)
    with True "1.IH" "1.prems" show ?thesis
      by (subst (1 2 3) ext_words.simps) auto
  next
    case False
    with "1.prems" show ?thesis
      by (subst (1 2 3) ext_words.simps) auto
  qed
qed

lemma ext_bytes_agree:
  assumes "bl \<le> length base" "nl \<le> length new" "agree base bo new no j"
    "bo + j \<le> bl" "no + j \<le> nl"
  shows "agree base bo new no (ext_bytes base bo bl new no nl j) \<and>
    bo + ext_bytes base bo bl new no nl j \<le> bl \<and> no + ext_bytes base bo bl new no nl j \<le> nl"
  using assms
proof (induction base bo bl new no nl j rule: ext_bytes.induct)
  case (1 base bo bl new no nl j)
  show ?case
  proof (cases "bo + j < bl \<and> no + j < nl \<and> base ! (bo + j) = new ! (no + j)")
    case True
    with 1 have "agree base bo new no (j + 1)"
      by (intro agree_add agree_1) auto
    with True "1.IH" "1.prems" show ?thesis
      by (subst (1 2 3) ext_bytes.simps) auto
  next
    case False
    with "1.prems" show ?thesis
      by (subst (1 2 3) ext_bytes.simps) auto
  qed
qed

text \<open>Agreement counted backwards from two positions.\<close>

definition agree_back :: "byte list \<Rightarrow> nat \<Rightarrow> byte list \<Rightarrow> nat \<Rightarrow> nat \<Rightarrow> bool" where
  "agree_back base bo new no n \<longleftrightarrow> n \<le> bo \<and> n \<le> no \<and> agree base (bo - n) new (no - n) n"

lemma agree_back_0: "bo \<le> length base \<Longrightarrow> no \<le> length new \<Longrightarrow> agree_back base bo new no 0"
  by (simp add: agree_back_def agree_0)

lemma agree_back_add:
  assumes "agree_back base bo new no n" "agree base (bo - (n + m)) new (no - (n + m)) m"
    "n + m \<le> bo" "n + m \<le> no"
  shows "agree_back base bo new no (n + m)"
proof -
  have "agree base (bo - (n + m)) new (no - (n + m)) (m + n)"
    using assms by (intro agree_add) (auto simp: agree_back_def)
  with assms show ?thesis by (simp add: agree_back_def add.commute)
qed

lemma tail_words_agree:
  assumes "agree_back base (length base) new (length new) e"
  shows "agree_back base (length base) new (length new) (tail_words base new e)"
  using assms
proof (induction base new e rule: tail_words.induct)
  case (1 base new e)
  show ?case
  proof (cases "e + 7 < length base \<and> e + 7 < length new \<and>
      get64 (bslice base (length base - e - 8) 8) = get64 (bslice new (length new - e - 8) 8)")
    case True
    with 1 have "agree_back base (length base) new (length new) (e + 8)"
      by (intro agree_back_add agree_word) auto
    with True "1.IH" show ?thesis
      by (subst tail_words.simps) auto
  next
    case False
    with "1.prems" show ?thesis by (subst tail_words.simps) auto
  qed
qed

lemma tail_bytes_agree:
  assumes "agree_back base (length base) new (length new) e"
  shows "agree_back base (length base) new (length new) (tail_bytes base new e)"
  using assms
proof (induction base new e rule: tail_bytes.induct)
  case (1 base new e)
  show ?case
  proof (cases "e < length base \<and> e < length new \<and>
      base ! (length base - e - 1) = new ! (length new - e - 1)")
    case True
    with 1 have "agree_back base (length base) new (length new) (e + 1)"
      by (intro agree_back_add agree_1) auto
    with True "1.IH" show ?thesis
      by (subst tail_bytes.simps) auto
  next
    case False
    with "1.prems" show ?thesis by (subst tail_bytes.simps) auto
  qed
qed

lemma back_bytes_agree:
  assumes "agree_back base off new pos k" "k \<le> lim" "lim \<le> pos"
    "off \<le> length base" "pos \<le> length new"
  shows "agree_back base off new pos (back_bytes base off new pos lim k) \<and>
    back_bytes base off new pos lim k \<le> lim"
  using assms
proof (induction base off new pos lim k rule: back_bytes.induct)
  case (1 base off new pos lim k)
  show ?case
  proof (cases "k + 1 \<le> off \<and> k + 1 \<le> lim \<and> base ! (off - (k + 1)) = new ! (pos - (k + 1))")
    case True
    with 1 have "agree_back base off new pos (k + 1)"
      by (intro agree_back_add agree_1) auto
    with True "1.IH" "1.prems" show ?thesis
      by (subst (1 2) back_bytes.simps) auto
  next
    case False
    with "1.prems" show ?thesis by (subst (1 2) back_bytes.simps) auto
  qed
qed

text \<open>What head and tail detection establishes.\<close>

lemma agree_sub: "agree base bo new no n \<Longrightarrow> m \<le> n \<Longrightarrow> agree base (bo + (n - m)) new (no + (n - m)) m"
proof -
  assume a: "agree base bo new no n" and m: "m \<le> n"
  have "bslice base (bo + (n - m)) m = bslice new (no + (n - m)) m"
    using a m bslice_right [of base bo "n - m" m] bslice_right [of new no "n - m" m]
    by (simp add: agree_def)
  with a m show ?thesis by (simp add: agree_def)
qed

lemma agree_back_le: "agree_back base bo new no n \<Longrightarrow> m \<le> n \<Longrightarrow> agree_back base bo new no m"
  using agree_sub [of base "bo - n" new "no - n" n m] by (simp add: agree_back_def)

lemma detect_ends_agree:
  assumes "detect_ends new base = (begSize, endSize)"
  shows "agree base 0 new 0 begSize" "agree_back base (length base) new (length new) endSize"
    "begSize + endSize \<le> length new" "0 < begSize \<Longrightarrow> 16 < begSize" "0 < endSize \<Longrightarrow> 16 < endSize"
proof -
  let ?w = "ext_words base 0 (length base) new 0 (length new) 0"
  let ?b = "ext_bytes base 0 (length base) new 0 (length new) ?w"
  let ?e = "tail_bytes base new (tail_words base new 0)"
  have b0: "agree base 0 new 0 ?w \<and> 0 + ?w \<le> length base \<and> 0 + ?w \<le> length new"
    by (rule ext_words_agree) (simp_all add: agree_0)
  have b: "agree base 0 new 0 ?b"
    by (rule ext_bytes_agree [THEN conjunct1]) (use b0 in simp_all)
  have e: "agree_back base (length base) new (length new) ?e"
    by (intro tail_bytes_agree tail_words_agree agree_back_0) auto
  have bs: "begSize = (if 16 < ?b then ?b else 0)"
    and es: "endSize = (let e = (if length new < begSize + ?e then length new - begSize else ?e)
                        in if 16 < e then e else 0)"
    using assms by (auto simp: detect_ends_def Let_def)
  show "agree base 0 new 0 begSize" using b by (auto simp: bs agree_0)
  show "begSize + endSize \<le> length new"
    using b by (auto simp: bs es Let_def agree_def)
  show "agree_back base (length base) new (length new) endSize"
    using e by (auto simp: es Let_def intro: agree_back_0 agree_back_le)
  show "0 < begSize \<Longrightarrow> 16 < begSize" "0 < endSize \<Longrightarrow> 16 < endSize"
    by (auto simp: bs es Let_def split: if_splits)
qed

section \<open>The contents of the output buffer\<close>

definition holds :: "byte list \<Rightarrow> nat \<Rightarrow> byte list \<Rightarrow> bool" where
  "holds buf n s \<longleftrightarrow> n = length s \<and> n \<le> length buf \<and> take n buf = s"

lemma holds_nil: "holds buf 0 []"
  by (simp add: holds_def)

lemma holds_write:
  assumes "holds buf n s" "n + length bs \<le> length buf"
  obtains buf' where "buf_write buf n bs = Inr buf'" "length buf' = length buf"
    "holds buf' (n + length bs) (s @ bs)"
  using assms by (auto simp: holds_def buf_write_def)

lemma holds_rewrite:
  assumes "holds buf n (s @ h @ l)" "length h' = length h"
  obtains buf' where "buf_write buf (length s) h' = Inr buf'" "length buf' = length buf"
    "holds buf' n (s @ h' @ l)"
proof -
  have n: "n = length s + length h + length l" "n \<le> length buf"
    and t: "take n buf = s @ h @ l"
    using assms by (auto simp: holds_def)
  have "take (length s) (take n buf) = s" "drop (length s + length h) (take n buf) = l"
    by (simp_all add: t)
  then have s: "take (length s) buf = s" and l: "take (length l) (drop (length s + length h) buf) = l"
    using n by (simp_all add: drop_take min_def)
  have "buf_write buf (length s) h' = Inr (s @ h' @ drop (length s + length h) buf)"
    using n s assms(2) by (simp add: buf_write_def)
  moreover have "holds (s @ h' @ drop (length s + length h) buf) n (s @ h' @ l)"
    using n l assms(2) by (simp add: holds_def)
  moreover have "length (s @ h' @ drop (length s + length h) buf) = length buf"
    using n assms(2) by simp
  ultimately show ?thesis using that by blast
qed

lemma holds_prefix: "holds buf n (s @ l) \<Longrightarrow> holds buf (length s) s"
  by (auto simp: holds_def) (metis append_eq_conv_conj le_add1 min.absorb1 take_take)

text \<open>
  \<open>out_ok new base pos st us\<close>: the units \<open>us\<close>, and the pending run of literals if there is
  one, stand in the output buffer and denote the first \<open>pos\<close> bytes of the input.
\<close>

definition out_ok :: "byte list \<Rightarrow> byte list \<Rightarrow> nat \<Rightarrow> estate \<Rightarrow> dunit list \<Rightarrow> bool" where
  "out_ok new base pos st us \<longleftrightarrow>
     (\<forall>u \<in> set us. unit_ok base u) \<and> get_flag (flag_length1 (record1 st)) = 0 \<and>
     get_flag (flag_length2 (record2 st)) \<noteq> 0 \<and>
     (if eflag st = 2
      then \<exists>hdr lit. length hdr = 4 \<and> holds (deltaBuf st) (deltaLen st) (ser us @ hdr @ lit) \<and>
             flag_length2 (record2 st) = lit_word (length lit) \<and> length lit < 2 ^ 31 \<and>
             delta_out base us @ lit = take pos new
      else holds (deltaBuf st) (deltaLen st) (ser us) \<and> delta_out base us = take pos new)"

text \<open>The fields that writing output leaves alone.\<close>

definition same_input :: "estate \<Rightarrow> estate \<Rightarrow> bool" where
  "same_input st st' \<longleftrightarrow> inputPos st' = inputPos st \<and> BaseLink st' = BaseLink st \<and>
     psHTable st' = psHTable st \<and> numBase st' = numBase st \<and> flag_chunk st' = flag_chunk st \<and>
     flag_handle_probe st' = flag_handle_probe st \<and> InputLink st' = InputLink st \<and>
     probe_match st' = probe_match st \<and> psDupSubCnk st' = psDupSubCnk st \<and>
     length (deltaBuf st') = length (deltaBuf st)"

lemma same_input_refl [simp]: "same_input st st"
  by (simp add: same_input_def)

lemma same_input_trans: "same_input a b \<Longrightarrow> same_input b c \<Longrightarrow> same_input a c"
  by (simp add: same_input_def)

lemma lit_word_flag: "get_flag (lit_word l) \<noteq> 0"
  by (auto simp: lit_word_def get_flag_iff bit_simps bit_top_bit)

lemma out_ok_literalI:
  assumes "eflag st = 2" "\<forall>u \<in> set us. unit_ok base u" "get_flag (flag_length1 (record1 st)) = 0"
    "length hdr = 4" "holds (deltaBuf st) (deltaLen st) (ser us @ hdr @ lit)"
    "flag_length2 (record2 st) = lit_word (length lit)" "length lit < 2 ^ 31"
    "delta_out base us @ lit = take pos new"
  shows "out_ok new base pos st us"
  using assms lit_word_flag [of "length lit"] unfolding out_ok_def by auto

lemma out_ok_unitsI:
  assumes "eflag st \<noteq> 2" "\<forall>u \<in> set us. unit_ok base u" "get_flag (flag_length1 (record1 st)) = 0"
    "get_flag (flag_length2 (record2 st)) \<noteq> 0" "holds (deltaBuf st) (deltaLen st) (ser us)"
    "delta_out base us = take pos new"
  shows "out_ok new base pos st us"
  using assms unfolding out_ok_def by auto

lemma out_ok_flags:
  assumes "out_ok new base pos st us"
  shows "\<forall>u \<in> set us. unit_ok base u" "get_flag (flag_length1 (record1 st)) = 0"
    "get_flag (flag_length2 (record2 st)) \<noteq> 0"
  using assms unfolding out_ok_def by auto

lemma lit_word_add:
  assumes "a + b < 2 ^ 31"
  shows "set_length (lit_word a) (get_length (lit_word a) + word_of_nat b) = lit_word (a + b)"
proof -
  have "get_length (lit_word a) + word_of_nat b = word_of_nat (a + b)"
    using assms by (simp add: lit_word_get)
  then show ?thesis
    by (simp only: set_length_lit [OF lit_word_flag])
qed

lemma lit_word_sub:
  assumes "b \<le> a" "a < 2 ^ 31"
  shows "set_length (lit_word a) (get_length (lit_word a) - word_of_nat b) = lit_word (a - b)"
proof -
  have "get_length (lit_word a) - word_of_nat b = word_of_nat (a - b)"
    using assms by (simp add: lit_word_get of_nat_diff)
  then show ?thesis
    by (simp only: set_length_lit [OF lit_word_flag])
qed

lemma copy_word_add:
  assumes "a + b < 2 ^ 31"
  shows "set_length (copy_word a) (get_length (copy_word a) + word_of_nat b) = copy_word (a + b)"
proof -
  have "get_length (copy_word a) = word_of_nat a"
    using assms short_word [of a] by (simp add: get_length_eq copy_word_def)
  then have "get_length (copy_word a) + word_of_nat b = word_of_nat (a + b)" by simp
  then show ?thesis
    using assms copy_word_get(1) [of a] by (simp only: set_length_copy)
qed

lemma emit_literal_ok:
  assumes ok: "out_ok new base (inputPos st) st us"
    and len: "inputPos st + elength st \<le> length new" "length new < 2 ^ 31"
    and cap: "deltaLen st + 4 + elength st \<le> length (deltaBuf st)"
  obtains st' where "emit_literal new st = Inr st'" "same_input st st'" "eflag st' = 2"
    "out_ok new base (inputPos st + elength st) st' us"
    "deltaLen st' = deltaLen st + elength st + (if eflag st = 2 then 0 else 4)"
    "cursor_input st' = cursor_input st" "cursor_base st' = cursor_base st"
    "elength st' = elength st"
proof -
  let ?lit = "bslice new (inputPos st) (elength st)"
  have read: "buf_read new (inputPos st) (elength st) = Inr ?lit"
    using len by (simp add: buf_read_def)
  have l: "length ?lit = elength st" using len by (simp add: bslice_length)
  have t: "take (inputPos st) new @ ?lit = take (inputPos st + elength st) new"
    by (rule take_bslice)
  show ?thesis
  proof (cases "eflag st = 2")
    case True
    with ok obtain hdr lit where h: "length hdr = 4"
      "holds (deltaBuf st) (deltaLen st) (ser us @ hdr @ lit)"
      "flag_length2 (record2 st) = lit_word (length lit)"
      "delta_out base us @ lit = take (inputPos st) new"
      by (auto simp: out_ok_def)
    have ll: "length lit + elength st < 2 ^ 31"
    proof -
      have "length lit \<le> inputPos st" using h(4) len
        by (metis le_add2 length_append length_take min.absorb2 min.bounded_iff order_trans
            le_add1 nat_le_linear)
      then show ?thesis using len by simp
    qed
    obtain buf where w: "buf_write (deltaBuf st) (deltaLen st) ?lit = Inr buf"
      "length buf = length (deltaBuf st)"
      "holds buf (deltaLen st + length ?lit) ((ser us @ hdr @ lit) @ ?lit)"
      using holds_write [OF h(2), of ?lit] cap l by auto
    have r2: "set_length (lit_word (length lit)) (get_length (lit_word (length lit))
        + word_of_nat (elength st)) = lit_word (length (lit @ ?lit))"
      using lit_word_add [OF ll] l by simp
    let ?st = "st\<lparr>deltaBuf := buf, deltaLen := deltaLen st + elength st,
      record2 := \<lparr>flag_length2 = lit_word (length (lit @ ?lit))\<rparr>\<rparr>"
    have "emit_literal new st = Inr ?st"
      using True read w h(3) r2 by (simp add: emit_literal_def)
    moreover have "out_ok new base (inputPos st + elength st) ?st us"
      using True ok w(3) l h(1,4) t ll
      by (intro out_ok_literalI [where hdr = hdr and lit = "lit @ ?lit"])
        (auto dest: out_ok_flags simp flip: append_assoc)
    ultimately show ?thesis
      using True w(2) that [of ?st] by (simp add: same_input_def)
  next
    case False
    with ok have h: "holds (deltaBuf st) (deltaLen st) (ser us)"
      "delta_out base us = take (inputPos st) new" "get_flag (flag_length2 (record2 st)) \<noteq> 0"
      by (auto simp: out_ok_def)
    let ?r2 = "\<lparr>flag_length2 = lit_word (length ?lit)\<rparr> :: DeltaUnit2"
    have r2: "set_length (flag_length2 (record2 st)) (word_of_nat (elength st)) = lit_word (length ?lit)"
      using h(3) l by (simp add: set_length_lit)
    obtain buf where w: "buf_write (deltaBuf st) (deltaLen st) (unit2_bytes ?r2) = Inr buf"
      "length buf = length (deltaBuf st)" "holds buf (deltaLen st + 4) (ser us @ unit2_bytes ?r2)"
      using holds_write [OF h(1), of "unit2_bytes ?r2"] cap by (auto simp: edelta_consts)
    obtain buf2 where w2: "buf_write buf (deltaLen st + 4) ?lit = Inr buf2"
      "length buf2 = length (deltaBuf st)"
      "holds buf2 (deltaLen st + 4 + elength st) (ser us @ unit2_bytes ?r2 @ ?lit)"
      using holds_write [OF w(3), of ?lit] cap l w(2) by auto
    let ?st = "st\<lparr>deltaBuf := buf2, deltaLen := deltaLen st + 4 + elength st, record2 := ?r2, eflag := 2\<rparr>"
    have "emit_literal new st = Inr ?st"
      using False read w w2 r2 by (simp add: emit_literal_def edelta_consts)
    moreover have "out_ok new base (inputPos st + elength st) ?st us"
      using ok w2(3) l h(2) t len
      by (intro out_ok_literalI [where hdr = "unit2_bytes ?r2" and lit = ?lit])
        (auto dest: out_ok_flags simp: edelta_consts)
    ultimately show ?thesis
      using False w2(2) that [of ?st] by (simp add: same_input_def)
  qed
qed

lemma flush_literal_ok:
  assumes ok: "out_ok new base pos st us"
  obtains buf where "flush_literal st = Inr (st\<lparr>deltaBuf := buf\<rparr>)"
    "length buf = length (deltaBuf st)"
    "eflag st \<noteq> 2 \<Longrightarrow> holds buf (deltaLen st) (ser us) \<and> delta_out base us = take pos new"
    "eflag st = 2 \<Longrightarrow> \<exists>lit. flag_length2 (record2 st) = lit_word (length lit) \<and>
       length lit < 2 ^ 31 \<and> holds buf (deltaLen st) (ser (us @ [Lit lit])) \<and>
       delta_out base (us @ [Lit lit]) = take pos new"
proof (cases "eflag st = 2")
  case False
  then have "flush_literal st = Inr (st\<lparr>deltaBuf := deltaBuf st\<rparr>)"
    by (simp add: flush_literal_def)
  with False ok show ?thesis
    by (intro that [of "deltaBuf st"]) (auto simp: out_ok_def)
next
  case True
  with ok obtain hdr lit where h: "length hdr = 4"
    "holds (deltaBuf st) (deltaLen st) (ser us @ hdr @ lit)"
    "flag_length2 (record2 st) = lit_word (length lit)" "length lit < 2 ^ 31"
    "delta_out base us @ lit = take pos new"
    by (auto simp: out_ok_def)
  obtain buf where w: "buf_write (deltaBuf st) (length (ser us)) (unit2_bytes (record2 st)) = Inr buf"
    "length buf = length (deltaBuf st)"
    "holds buf (deltaLen st) (ser us @ unit2_bytes (record2 st) @ lit)"
    using holds_rewrite [OF h(2), of "unit2_bytes (record2 st)"] h(1) by (auto simp: edelta_consts)
  have d: "deltaLen st = length (ser us) + 4 + length lit"
    using h(1,2) by (simp add: holds_def)
  have "flush_literal st = Inr (st\<lparr>deltaBuf := buf\<rparr>)"
    using True w d h(3,4) lit_word_get(3) [of "length lit"]
    by (simp add: flush_literal_def edelta_consts)
  moreover have "unit2_bytes (record2 st) = unit2_bytes \<lparr>flag_length2 = lit_word (length lit)\<rparr>"
    using h(3) by (simp add: unit2_bytes_def)
  ultimately show ?thesis
    using True w h by (intro that [of buf]) (auto intro!: exI [of _ lit])
qed


section \<open>Matches\<close>

lemma shrink_literal_0: "shrink_literal 0 st = Inr st"
  by (simp add: shrink_literal_def)

text \<open>Taking \<open>k\<close> bytes off the flushed run of literals \<open>lit\<close> and giving them to the match.\<close>

lemma shrink_literal_ok:
  assumes r2: "flag_length2 (record2 st) = lit_word (length lit)" "length lit < 2 ^ 31"
    and h: "holds (deltaBuf st) (deltaLen st) (ser (us @ [Lit lit]))"
    and r1: "flag_length1 (record1 st) = copy_word l" "l + k < 2 ^ 31"
      "nOffset1 (record1 st) = word_of_nat off" "k \<le> off"
    and k: "0 < k" "k \<le> length lit"
  obtains st' us' where "shrink_literal k st = Inr st'" "same_input st st'"
    "us' = us @ (if k < length lit then [Lit (take (length lit - k) lit)] else [])"
    "holds (deltaBuf st') (deltaLen st') (ser us')" "deltaLen st' \<le> deltaLen st"
    "record1 st' = \<lparr>flag_length1 = copy_word (l + k), nOffset1 = word_of_nat (off - k)\<rparr>"
    "get_flag (flag_length2 (record2 st')) \<noteq> 0"
    "cursor_input st' = cursor_input st" "cursor_base st' = cursor_base st"
    "eflag st' = eflag st"
proof -
  let ?m = "length lit - k"
  let ?hdr = "\<lambda>n. unit2_bytes \<lparr>flag_length2 = lit_word n\<rparr>"
  have hs: "holds (deltaBuf st) (deltaLen st) (ser us @ ?hdr (length lit) @ lit)"
    using h by simp
  then have d: "deltaLen st = length (ser us) + 4 + length lit"
    by (simp add: holds_def edelta_consts)
  have r2': "set_length (flag_length2 (record2 st))
      (get_length (flag_length2 (record2 st)) - word_of_nat k) = lit_word ?m"
    using lit_word_sub [OF k(2) r2(2)] by (simp add: r2(1))
  have "?m < 2 ^ 31" using r2(2) by simp
  then have m: "unat (get_length (lit_word ?m)) = ?m" by (rule lit_word_get(3))
  then have pos: "unat (get_length (lit_word ?m)) = ?m" "0 < get_length (lit_word ?m) \<longleftrightarrow> k < length lit"
    by (simp_all only: word_less_nat_alt) (simp add: m)
  have r1': "set_length (flag_length1 (record1 st))
      (get_length (flag_length1 (record1 st)) + word_of_nat k) = copy_word (l + k)"
    using copy_word_add [OF r1(2)] by (simp add: r1(1))
  have off: "nOffset1 (record1 st) - word_of_nat k = word_of_nat (off - k)"
    using r1(4) by (simp add: r1(3) of_nat_diff)
  let ?d = "length (ser us)"
  have dl: "deltaLen st - unat (get_length (flag_length2 (record2 st))) - unit2_size = ?d"
    using lit_word_get(3) [OF r2(2)] d by (simp add: r2(1) edelta_consts)
  let ?r1 = "\<lparr>flag_length1 = copy_word (l + k), nOffset1 = word_of_nat (off - k)\<rparr> :: DeltaUnit1"
  show ?thesis
  proof (cases "k < length lit")
    case True
    obtain buf where w: "buf_write (deltaBuf st) ?d (?hdr ?m) = Inr buf"
      "length buf = length (deltaBuf st)" "holds buf (deltaLen st) (ser us @ ?hdr ?m @ lit)"
      using holds_rewrite [OF hs, of "?hdr ?m"] by auto
    have lt: "length (take ?m lit) = ?m" by simp
    have s: "ser (us @ [Lit (take ?m lit)]) = ser us @ ?hdr ?m @ take ?m lit"
      by (simp only: ser_simps ser_unit.simps lt append_Nil2)
    have "holds buf (deltaLen st) ((ser us @ ?hdr ?m @ take ?m lit) @ drop ?m lit)"
      using w(3) by simp
    then have h': "holds buf (?d + 4 + ?m) (ser (us @ [Lit (take ?m lit)]))"
      unfolding s using holds_prefix [of buf "deltaLen st" "ser us @ ?hdr ?m @ take ?m lit" "drop ?m lit"]
      by (simp add: edelta_consts add.assoc)
    let ?st = "st\<lparr>deltaBuf := buf, deltaLen := ?d + 4 + ?m,
      record2 := \<lparr>flag_length2 = lit_word ?m\<rparr>, record1 := ?r1\<rparr>"
    have "shrink_literal k st = Inr ?st"
      using k True w pos dl r1' r2' off by (simp add: shrink_literal_def Let_def edelta_consts)
    with h' True w(2) d show ?thesis
      by (intro that [of ?st "us @ [Lit (take ?m lit)]"]) (auto simp: same_input_def lit_word_flag)
  next
    case False
    have h': "holds (deltaBuf st) ?d (ser us)"
      using holds_prefix [OF hs] .
    let ?st = "st\<lparr>deltaLen := ?d, record2 := \<lparr>flag_length2 = lit_word ?m\<rparr>, record1 := ?r1\<rparr>"
    have "shrink_literal k st = Inr ?st"
      using k False pos dl r1' r2' off by (simp add: shrink_literal_def Let_def edelta_consts)
    with h' False d show ?thesis
      by (intro that [of ?st us]) (auto simp: same_input_def lit_word_flag)
  qed
qed

text \<open>Appending the record of a match.\<close>

lemma match_unit_ok:
  assumes "agree base off new pos n" "n < 2 ^ 31" "off < 2 ^ 32"
  shows "unit_ok base (Copy off n)" "take pos new @ unit_out base (Copy off n) = take (pos + n) new"
  using assms by (auto simp: agree_def take_bslice)

lemma emit_match_ok:
  assumes ok: "out_ok new base (inputPos st) st us"
    and dup: "nOffset dup + elength st \<le> length base - endSize" "endSize \<le> length new"
      "cursor_input st = inputPos st + elength st" "cursor_input st \<le> length new - endSize"
      "agree base (nOffset dup) new (inputPos st) (elength st)"
    and sz: "length new < 2 ^ 31" "length base < 2 ^ 32"
    and cap: "deltaLen st + 8 \<le> length (deltaBuf st)"
  obtains st' us' where "emit_match new base endSize dup st = Inr st'" "same_input st st'"
    "eflag st' = 1" "out_ok new base (cursor_input st') st' us'"
    "cursor_input st \<le> cursor_input st'" "cursor_input st' \<le> length new - endSize"
    "deltaLen st' \<le> deltaLen st + 8" "cursor_base st \<le> cursor_base st'"
    "cursor_base st' \<le> max (cursor_base st) (length base - endSize)"
proof -
  obtain buf where f: "flush_literal st = Inr (st\<lparr>deltaBuf := buf\<rparr>)"
    "length buf = length (deltaBuf st)"
    "eflag st \<noteq> 2 \<Longrightarrow> holds buf (deltaLen st) (ser us) \<and> delta_out base us = take (inputPos st) new"
    "eflag st = 2 \<Longrightarrow> \<exists>lit. flag_length2 (record2 st) = lit_word (length lit) \<and>
       length lit < 2 ^ 31 \<and> holds buf (deltaLen st) (ser (us @ [Lit lit])) \<and>
       delta_out base (us @ [Lit lit]) = take (inputPos st) new"
    using flush_literal_ok [OF ok] by blast
  define bo where "bo = nOffset dup + elength st"
  define w where "w = ext_words base bo (length base - endSize) new (cursor_input st)
                 (length new - endSize) 0"
  define j where "j = ext_bytes base bo (length base - endSize) new (cursor_input st)
                 (length new - endSize) w"
  define cin where "cin = cursor_input st + j"
  define off where "off = nOffset dup"
  define pos where "pos = inputPos st"
  have "agree base bo new (cursor_input st) w \<and> bo + w \<le> length base - endSize \<and>
      cursor_input st + w \<le> length new - endSize"
    unfolding w_def using dup by (intro ext_words_agree) (auto simp: bo_def agree_0)
  then have j: "agree base bo new (cursor_input st) j \<and> bo + j \<le> length base - endSize \<and>
      cursor_input st + j \<le> length new - endSize"
    unfolding j_def by (intro ext_bytes_agree) auto
  have n: "cin - pos = elength st + j" "pos \<le> cin" "cin = pos + (elength st + j)"
    using dup by (auto simp: cin_def pos_def)
  have ag: "agree base off new pos (elength st + j)"
    using dup(3,5) j agree_add [of base off new pos "elength st" j]
    by (simp add: off_def pos_def bo_def)
  define st1 where "st1 = st\<lparr>deltaBuf := buf, cursor_input := cin,
      cursor_base := (if cursor_base st < bo + j then bo + j else cursor_base st),
      record1 := \<lparr>flag_length1 = copy_word (elength st + j), nOffset1 = word_of_nat off\<rparr>\<rparr>"
  have r1: "set_length (flag_length1 (record1 st)) (word_of_nat (cin - pos)) = copy_word (elength st + j)"
    by (simp only: set_length_copy [OF out_ok_flags(2) [OF ok]] n(1))
  define k where "k = (if eflag st = 2
      then back_bytes base off new pos (unat (get_length (flag_length2 (record2 st)))) 0 else 0)"
  have emit: "emit_match new base endSize dup st = res_bind (shrink_literal k st1) (\<lambda>st.
      res_bind (buf_write (deltaBuf st) (deltaLen st) (unit1_bytes (record1 st))) (\<lambda>buf.
        Inr (st\<lparr>deltaBuf := buf, deltaLen := deltaLen st + unit1_size, eflag := 1\<rparr>)))"
    using r1
    by (simp add: emit_match_def f(1) Let_def st1_def k_def pos_def off_def cin_def
        flip: bo_def w_def j_def)
  have small: "elength st + j \<le> length new" using j n dup by (auto simp: cin_def)
  have s1: "same_input st st1" using f(2) by (simp add: st1_def same_input_def)
  have cb: "cursor_base st \<le> cursor_base st1"
    "cursor_base st1 \<le> max (cursor_base st) (length base - endSize)"
    using j by (auto simp: st1_def)
  have "\<exists>st2 us2. shrink_literal k st1 = Inr st2 \<and> same_input st st2 \<and>
      (\<forall>u \<in> set us2. unit_ok base u) \<and> get_flag (flag_length2 (record2 st2)) \<noteq> 0 \<and>
      holds (deltaBuf st2) (deltaLen st2) (ser us2) \<and> deltaLen st2 \<le> deltaLen st \<and>
      record1 st2 = \<lparr>flag_length1 = copy_word (elength st + j + k), nOffset1 = word_of_nat (off - k)\<rparr> \<and>
      delta_out base us2 = take (pos - k) new \<and> agree_back base off new pos k \<and>
      cursor_input st2 = cin \<and> cursor_base st2 = cursor_base st1"
  proof (cases "k = 0")
    case True
    have "\<exists>us2. (\<forall>u \<in> set us2. unit_ok base u) \<and> holds buf (deltaLen st) (ser us2) \<and>
        delta_out base us2 = take pos new"
    proof (cases "eflag st = 2")
      case True
      then obtain lit where lit: "length lit < 2 ^ 31" "holds buf (deltaLen st) (ser (us @ [Lit lit]))"
        "delta_out base (us @ [Lit lit]) = take pos new"
        using f(4) by (auto simp: pos_def)
      with out_ok_flags(1) [OF ok] show ?thesis
        by (intro exI [of _ "us @ [Lit lit]"]) auto
    next
      case False
      with f(3) out_ok_flags(1) [OF ok] show ?thesis
        by (intro exI [of _ us]) (auto simp: pos_def)
    qed
    with True s1 show ?thesis
      using out_ok_flags(3) [OF ok] ag
      by (auto simp: shrink_literal_0 st1_def agree_back_def agree_def)
  next
    case False
    then have "eflag st = 2" by (simp add: k_def split: if_splits)
    then obtain lit where lit: "flag_length2 (record2 st) = lit_word (length lit)"
      "length lit < 2 ^ 31" "holds buf (deltaLen st) (ser (us @ [Lit lit]))"
      "delta_out base (us @ [Lit lit]) = take pos new"
      using f(4) by (auto simp: pos_def)
    have lp: "length lit \<le> pos"
      using arg_cong [OF lit(4), of length] ag by (auto simp: agree_def)
    have kb: "agree_back base off new pos k \<and> k \<le> length lit"
      using back_bytes_agree [of base off new pos 0 "length lit"] ag lp
        lit_word_get(3) [OF lit(2)] \<open>eflag st = 2\<close>
      by (auto simp: k_def lit(1) agree_def agree_back_def)
    have len: "elength st + j + k < 2 ^ 31"
      using kb j n lp sz(1) by (auto simp: cin_def pos_def)
    obtain st2 us2 where st2: "shrink_literal k st1 = Inr st2" "same_input st1 st2"
      "us2 = us @ (if k < length lit then [Lit (take (length lit - k) lit)] else [])"
      "holds (deltaBuf st2) (deltaLen st2) (ser us2)" "deltaLen st2 \<le> deltaLen st1"
      "record1 st2 = \<lparr>flag_length1 = copy_word (elength st + j + k), nOffset1 = word_of_nat (off - k)\<rparr>"
      "get_flag (flag_length2 (record2 st2)) \<noteq> 0"
      "cursor_input st2 = cursor_input st1" "cursor_base st2 = cursor_base st1"
    proof (rule shrink_literal_ok [of st1 lit us "elength st + j" k off])
      show "flag_length2 (record2 st1) = lit_word (length lit)"
        "holds (deltaBuf st1) (deltaLen st1) (ser (us @ [Lit lit]))"
        "flag_length1 (record1 st1) = copy_word (elength st + j)"
        "nOffset1 (record1 st1) = word_of_nat off" "k \<le> off"
        using lit kb by (auto simp: st1_def agree_back_def)
    qed (use lit(2) kb False len in auto)
    have "delta_out base us2 = take (length (take pos new) - k) (take pos new)"
    proof -
      have "delta_out base us2 = take (length (delta_out base (us @ [Lit lit])) - k)
          (delta_out base (us @ [Lit lit]))"
        using kb by (cases "k < length lit") (simp_all add: st2(3))
      then show ?thesis by (simp only: lit(4))
    qed
    moreover have "length (take pos new) = pos" using ag by (simp add: agree_def)
    ultimately have "delta_out base us2 = take (pos - k) new" by simp
    moreover have "\<forall>u \<in> set us2. unit_ok base u"
      using out_ok_flags(1) [OF ok] lit(2) by (auto simp: st2(3))
    moreover have "deltaLen st1 = deltaLen st" "cursor_input st1 = cin"
      by (simp_all add: st1_def)
    ultimately show ?thesis
      using st2(1,4-9) kb same_input_trans [OF s1 st2(2)] by auto
  qed
  then obtain st2 us2 where st2: "shrink_literal k st1 = Inr st2" "same_input st st2"
    "\<forall>u \<in> set us2. unit_ok base u" "get_flag (flag_length2 (record2 st2)) \<noteq> 0"
    "holds (deltaBuf st2) (deltaLen st2) (ser us2)" "deltaLen st2 \<le> deltaLen st"
    "record1 st2 = \<lparr>flag_length1 = copy_word (elength st + j + k), nOffset1 = word_of_nat (off - k)\<rparr>"
    "delta_out base us2 = take (pos - k) new" "agree_back base off new pos k"
    "cursor_input st2 = cin" "cursor_base st2 = cursor_base st1"
    by blast
  have agk: "agree base (off - k) new (pos - k) (elength st + j + k)"
    using agree_add [of base "off - k" new "pos - k" k "elength st + j"] st2(9) ag
    by (simp add: agree_back_def add.commute)
  have unit: "unit_ok base (Copy (off - k) (elength st + j + k))"
    "delta_out base us2 @ unit_out base (Copy (off - k) (elength st + j + k)) = take cin new"
  proof -
    have "elength st + j + k < 2 ^ 31" "off - k < 2 ^ 32"
      using agk sz by (auto simp: agree_def)
    moreover have "pos - k + (elength st + j + k) = cin"
      using n(3) st2(9) by (simp add: agree_back_def)
    ultimately show "unit_ok base (Copy (off - k) (elength st + j + k))"
      "delta_out base us2 @ unit_out base (Copy (off - k) (elength st + j + k)) = take cin new"
      using match_unit_ok [OF agk] by (auto simp: st2(8))
  qed
  obtain buf3 where w3: "buf_write (deltaBuf st2) (deltaLen st2) (unit1_bytes (record1 st2)) = Inr buf3"
    "length buf3 = length (deltaBuf st2)"
    "holds buf3 (deltaLen st2 + 8) (ser us2 @ unit1_bytes (record1 st2))"
    using holds_write [OF st2(5), of "unit1_bytes (record1 st2)"] cap st2(2,6)
    by (auto simp: edelta_consts same_input_def)
  let ?st = "st2\<lparr>deltaBuf := buf3, deltaLen := deltaLen st2 + 8, eflag := 1\<rparr>"
  let ?us = "us2 @ [Copy (off - k) (elength st + j + k)]"
  have "emit_match new base endSize dup st = Inr ?st"
    using st2(1) w3(1) by (simp add: emit edelta_consts)
  moreover have "out_ok new base cin ?st ?us"
  proof (rule out_ok_unitsI)
    show "get_flag (flag_length1 (record1 ?st)) = 0"
      using unit(1) by (simp add: st2(7) copy_word_get(1) del: of_nat_add)
  qed (use st2(3,4,7) w3(3) unit in auto)
  ultimately show ?thesis
    using st2 w3(2) cb j by (intro that [of ?st ?us]) (auto simp: same_input_def cin_def)
qed


section \<open>Invariants of the main loop\<close>

text \<open>The sizes the encoder is used with: the tail \<open>e\<close> is part of both chunks.\<close>

definition sizes_ok :: "byte list \<Rightarrow> byte list \<Rightarrow> nat \<Rightarrow> bool" where
  "sizes_ok new base e \<longleftrightarrow> e \<le> length new \<and> e \<le> length base \<and>
     length new < 2 ^ 31 \<and> length base < 2 ^ 32"

text \<open>
  \<open>wr_ok\<close>: the output denotes the first \<open>pos\<close> input bytes, is at most a few bytes longer
  than they are, and the buffer has room for the rest.
\<close>

definition wr_ok :: "byte list \<Rightarrow> byte list \<Rightarrow> nat \<Rightarrow> nat \<Rightarrow> estate \<Rightarrow> dunit list \<Rightarrow> bool" where
  "wr_ok new base e pos st us \<longleftrightarrow> out_ok new base pos st us \<and> pos \<le> length new - e \<and>
     deltaLen st \<le> pos + (if eflag st = 2 then 4 else if pos < length new - e then 0 else 11) \<and>
     length new + 12 \<le> length (deltaBuf st)"

definition same_output :: "estate \<Rightarrow> estate \<Rightarrow> bool" where
  "same_output st st' \<longleftrightarrow> deltaBuf st' = deltaBuf st \<and> deltaLen st' = deltaLen st \<and>
     record1 st' = record1 st \<and> record2 st' = record2 st \<and> eflag st' = eflag st"

lemma wr_ok_same: "same_output st st' \<Longrightarrow> wr_ok new base e pos st' us = wr_ok new base e pos st us"
  unfolding same_output_def wr_ok_def out_ok_def by (elim conjE) (simp only:)

text \<open>A record of \<open>BaseLink\<close> that the index may return.\<close>

definition rec_ok :: "byte list \<Rightarrow> nat \<Rightarrow> DeltaRecord \<Rightarrow> bool" where
  "rec_ok base e r \<longleftrightarrow> 0 < nLength r \<and> nOffset r + nLength r \<le> length base - e"

definition dup_ok :: "byte list \<Rightarrow> nat \<Rightarrow> estate \<Rightarrow> nat \<Rightarrow> bool" where
  "dup_ok base e st d \<longleftrightarrow> d < numBase st \<and> rec_ok base e (BaseLink st ! d)"

definition tab_ok :: "byte list \<Rightarrow> nat \<Rightarrow> estate \<Rightarrow> bool" where
  "tab_ok base e st \<longleftrightarrow> htable_ok (psHTable st) \<and> numBase st \<le> length (BaseLink st) \<and>
     (\<forall>(k, d) \<in> htable_entries (psHTable st). dup_ok base e st d)"

text \<open>
  Every sub-chunk of the base but its last has more than \<open>STRMIN\<close> bytes, so the number of
  records is bounded by the part of the base chunked so far.
\<close>

definition cap_ok :: "nat \<Rightarrow> byte list \<Rightarrow> nat \<Rightarrow> estate \<Rightarrow> bool" where
  "cap_ok L base e st \<longleftrightarrow> cursor_base st \<le> length base - e \<and>
     length (BaseLink st) = L \<and> length base + 600 \<le> 13 * L \<and>
     (flag_chunk st \<longrightarrow> 13 * numBase st \<le> cursor_base st \<or>
        cursor_base st = length base - e \<and> 13 * numBase st \<le> cursor_base st + 12)"

lemma tab_ok_lookup:
  assumes "tab_ok base e st" "htable_lookup k (psHTable st) = Some d"
  shows "dup_ok base e st d"
  using ht.get_sat [of "psHTable st" "\<lambda>k d. dup_ok base e st d" k d] assms
  by (auto simp: tab_ok_def)

lemma same_input_ok:
  assumes "same_input st st'"
  shows "tab_ok base e st' = tab_ok base e st" "dup_ok base e st' = dup_ok base e st"
  using assms by (auto simp: tab_ok_def dup_ok_def same_input_def fun_eq_iff)

lemma cap_ok_cursor:
  assumes "cap_ok L base e st" "same_input st st'" "cursor_base st \<le> cursor_base st'"
    "cursor_base st' \<le> max (cursor_base st) (length base - e)"
  shows "cap_ok L base e st'"
  using assms by (auto simp: cap_ok_def same_input_def)

text \<open>What one iteration leaves unchanged, and how it moves the base cursor.\<close>

definition moved :: "byte list \<Rightarrow> nat \<Rightarrow> estate \<Rightarrow> estate \<Rightarrow> bool" where
  "moved base e st st' \<longleftrightarrow> same_input st st' \<and> cursor_input st \<le> cursor_input st' \<and>
     cursor_base st \<le> cursor_base st' \<and> cursor_base st' \<le> max (cursor_base st) (length base - e)"

lemma emit_literal_step:
  assumes w: "wr_ok new base e (inputPos st) st us" and sz: "sizes_ok new base e"
    and pre: "inputPos st < length new - e \<or> eflag st = 2"
    and c: "cursor_input st = inputPos st + elength st" "cursor_input st \<le> length new - e"
  shows "\<exists>st'. emit_literal new st = Inr st' \<and> moved base e st st' \<and> eflag st' = 2 \<and>
    cursor_input st' = cursor_input st \<and> wr_ok new base e (cursor_input st') st' us \<and>
    cursor_base st' = cursor_base st"
proof -
  have b: "inputPos st + elength st \<le> length new" "length new < 2 ^ 31"
    "deltaLen st + 4 + elength st \<le> length (deltaBuf st)" "out_ok new base (inputPos st) st us"
    using w sz pre c by (auto simp: wr_ok_def sizes_ok_def split: if_splits)
  obtain st' where st': "emit_literal new st = Inr st'" "same_input st st'" "eflag st' = 2"
    "out_ok new base (inputPos st + elength st) st' us"
    "deltaLen st' = deltaLen st + elength st + (if eflag st = 2 then 0 else 4)"
    "cursor_input st' = cursor_input st" "cursor_base st' = cursor_base st"
    using emit_literal_ok [OF b(4,1,2,3)] by metis
  have dl: "deltaLen st \<le> inputPos st + (if eflag st = 2 then 4 else 0)"
    "length new + 12 \<le> length (deltaBuf st)"
    using w pre by (auto simp: wr_ok_def split: if_splits)
  have "deltaLen st' \<le> cursor_input st' + 4"
    using dl st'(5,6) c by (simp split: if_splits)
  then have "wr_ok new base e (cursor_input st') st' us"
    using st' c dl by (simp add: wr_ok_def same_input_def)
  with st' show ?thesis by (auto simp: moved_def)
qed

lemma do_match_step:
  assumes w: "wr_ok new base e (inputPos st) st us" and sz: "sizes_ok new base e"
    and pre: "inputPos st < length new - e \<or> eflag st = 2"
    and c: "cursor_input st = inputPos st + elength st" "cursor_input st \<le> length new - e"
      "STRMIN < elength st \<or> cursor_input st = length new - e"
    and d: "psDupSubCnk st = Some d" "dup_ok base e st d" "tab_ok base e st"
  shows "\<exists>st' us'. do_match new base e st = Inr st' \<and> moved base e st st' \<and>
    wr_ok new base e (cursor_input st') st' us'"
proof -
  let ?dup = "BaseLink st ! d"
  have dl: "d < length (BaseLink st)" and r: "rec_ok base e ?dup"
    using d by (auto simp: dup_ok_def tab_ok_def)
  note lit = emit_literal_step [OF w sz pre c(1,2)]
  show ?thesis
  proof (cases "elength st = nLength ?dup \<and>
      bslice new (inputPos st) (elength st) = bslice base (nOffset ?dup) (elength st)")
    case False
    have "do_match new base e st = emit_literal new st"
      using False d dl c r sz
      by (auto simp: do_match_def Let_def buf_read_def rec_ok_def sizes_ok_def)
    with lit show ?thesis by auto
  next
    case True
    have m: "do_match new base e st = emit_match new base e ?dup st"
      using True d dl c r sz
      by (auto simp: do_match_def Let_def buf_read_def rec_ok_def sizes_ok_def)
    have pos: "0 < elength st" "inputPos st < length new - e"
      using True r c by (auto simp: rec_ok_def)
    have ag: "agree base (nOffset ?dup) new (inputPos st) (elength st)"
      using True r c sz by (auto simp: agree_def rec_ok_def sizes_ok_def)
    have cap: "deltaLen st + 8 \<le> length (deltaBuf st)" "deltaLen st \<le> inputPos st + 4"
      using w pos by (auto simp: wr_ok_def split: if_splits)
    obtain st' us' where st': "emit_match new base e ?dup st = Inr st'" "same_input st st'"
      "eflag st' = 1" "out_ok new base (cursor_input st') st' us'"
      "cursor_input st \<le> cursor_input st'" "cursor_input st' \<le> length new - e"
      "deltaLen st' \<le> deltaLen st + 8" "cursor_base st \<le> cursor_base st'"
      "cursor_base st' \<le> max (cursor_base st) (length base - e)"
    proof (rule emit_match_ok [of new base st us ?dup e])
      show "out_ok new base (inputPos st) st us" using w by (simp add: wr_ok_def)
      show "nOffset ?dup + elength st \<le> length base - e" using True r by (simp add: rec_ok_def)
    qed (use sz c ag cap in \<open>auto simp: sizes_ok_def\<close>)
    have "wr_ok new base e (cursor_input st') st' us'"
      using st' c cap pos w by (auto simp: wr_ok_def same_input_def str_defs)
    with m st' show ?thesis by (auto simp: moved_def)
  qed
qed

section \<open>Sub-chunks of the input\<close>

text \<open>Sub-chunks cut one after the other from position \<open>c\<close>, not past \<open>n\<close>.\<close>

definition sub_ok :: "nat \<Rightarrow> nat \<Rightarrow> nat \<Rightarrow> bool" where
  "sub_ok n c l \<longleftrightarrow> c + l \<le> n \<and> (STRMIN < l \<or> c + l = n) \<and> (c < n \<longrightarrow> 0 < l)"

fun subs_ok :: "nat \<Rightarrow> nat \<Rightarrow> DeltaRecord list \<Rightarrow> bool" where
  "subs_ok n c [] = True"
| "subs_ok n c (r # rs) \<longleftrightarrow> sub_ok n c (nLength r) \<and> subs_ok n (c + nLength r) rs"

lemma subs_ok_append:
  "subs_ok n c (rs @ [r]) \<longleftrightarrow> subs_ok n c rs \<and> sub_ok n (c + sum_list (map nLength rs)) (nLength r)"
  by (induction rs arbitrary: c) (auto simp: add.assoc)

lemma chunk_gear_sub_ok: "c \<le> n \<Longrightarrow> sub_ok n c (chunk_gear p (n - c))"
  using chunk_gear_le [of p "n - c"] chunk_gear_min [of p "n - c"] chunk_gear_pos [of "n - c" p]
  by (auto simp: sub_ok_def)

lemma cut_and_match_step:
  assumes w: "wr_ok new base e (inputPos st) st us" and sz: "sizes_ok new base e"
    and pre: "inputPos st < length new - e \<or> eflag st = 2" and t: "tab_ok base e st"
  shows "\<exists>st' us'. cut_and_match new base e st = Inr st' \<and>
    wr_ok new base e (cursor_input st') st' us' \<and> tab_ok base e st' \<and>
    (cap_ok L base e st \<longrightarrow> cap_ok L base e st') \<and>
    (inputPos st < length new - e \<longrightarrow> inputPos st < cursor_input st') \<and>
    inputPos st \<le> cursor_input st' \<and> flag_handle_probe st' = flag_handle_probe st"
proof -
  let ?len = "chunk_gear (drop (inputPos st) new) (length new - inputPos st - e)"
  let ?hash = "weakHash (bslice new (inputPos st) ?len)"
  let ?st = "st\<lparr>cursor_input := inputPos st + ?len, elength := ?len,
               psDupSubCnk := htable_lookup ?hash (psHTable st)\<rparr>"
  have s: "sub_ok (length new - e) (inputPos st) ?len"
    using chunk_gear_sub_ok [of "inputPos st" "length new - e"] w
    by (simp add: wr_ok_def add.commute)
  have w': "wr_ok new base e (inputPos ?st) ?st us"
    using w wr_ok_same [of st ?st] by (simp add: same_output_def)
  have t': "tab_ok base e ?st"
    using t by (simp add: tab_ok_def dup_ok_def)
  have pre': "inputPos ?st < length new - e \<or> eflag ?st = 2"
    using pre by simp
  have c: "cursor_input ?st = inputPos ?st + elength ?st" "cursor_input ?st \<le> length new - e"
    "STRMIN < elength ?st \<or> cursor_input ?st = length new - e"
    using s by (auto simp: sub_ok_def)
  have eq: "cut_and_match new base e st =
      (if psDupSubCnk ?st \<noteq> None then do_match new base e ?st else emit_literal new ?st)"
    by (simp add: cut_and_match_def Let_def add.commute)
  have "\<exists>st' us'. cut_and_match new base e st = Inr st' \<and> moved base e ?st st' \<and>
      wr_ok new base e (cursor_input st') st' us'"
  proof (cases "psDupSubCnk ?st")
    case None
    with emit_literal_step [OF w' sz pre' c(1,2)] eq show ?thesis by auto
  next
    case (Some d)
    then have "dup_ok base e ?st d"
      using tab_ok_lookup [OF t'] by auto
    with do_match_step [OF w' sz pre' c Some _ t'] eq Some show ?thesis by auto
  qed
  then obtain st' us' where st': "cut_and_match new base e st = Inr st'" "moved base e ?st st'"
    "wr_ok new base e (cursor_input st') st' us'" by blast
  have "tab_ok base e st'"
    using st'(2) t' same_input_ok(1) [of ?st st'] by (auto simp: moved_def)
  moreover have "cap_ok L base e st'" if "cap_ok L base e st"
    using st'(2) that cap_ok_cursor [of L base e ?st st'] by (auto simp: moved_def cap_ok_def)
  ultimately show ?thesis
    using st' s by (auto simp: moved_def same_input_def sub_ok_def)
qed


section \<open>Chunking and indexing the base\<close>

lemma Chunking_v3_ok:
  assumes "Chunking_v3 data len num = (recs, n)"
  shows "length recs = num" "n \<le> len" "\<forall>r \<in> set recs. nOffset r + nLength r \<le> n"
    "\<forall>r \<in> set recs. 0 < nLength r \<Longrightarrow> 13 * num \<le> n + (if n = len then 12 else 0)"
proof -
  let ?c = "rolling_gear_v3 data len num"
  have recs: "recs = map (\<lambda>i. \<lparr>nHash = weakHash (bslice data (?c ! i) (?c ! Suc i - ?c ! i)),
      nOffset = ?c ! i, nLength = ?c ! Suc i - ?c ! i, DupFlag = 0\<rparr>) [0..<num]"
    and n: "n = ?c ! num"
    using assms rolling_gear_length [of data len num] last_conv_nth [of ?c]
    by (force simp: Chunking_v3_def Let_def)+
  have step: "cut_step len (?c ! i) (?c ! Suc i)" if "i < num" for i
    using rolling_gear_cut_step that by blast
  show "length recs = num" by (simp add: recs)
  show "n \<le> len" using rolling_gear_le [of num num data len] by (simp add: n)
  have mono: "?c ! i \<le> ?c ! j" if "i \<le> j" "j \<le> num" for i j
    using that
  proof (induction j)
    case 0
    then show ?case by simp
  next
    case (Suc j)
    then show ?case
      using step [of j] by (cases "i = Suc j") (force simp: cut_step_def)+
  qed
  show "\<forall>r \<in> set recs. nOffset r + nLength r \<le> n"
    using mono step by (fastforce simp: recs n cut_step_def)
  assume "\<forall>r \<in> set recs. 0 < nLength r"
  then have pos: "?c ! i < ?c ! Suc i" if "i < num" for i
    using that by (auto simp: recs)
  have "13 * i \<le> ?c ! i + (if ?c ! i = len then 12 else 0) \<and> (i < num \<longrightarrow> 13 * i \<le> ?c ! i)" if "i \<le> num" for i
    using that
  proof (induction i)
    case 0
    then show ?case by simp
  next
    case (Suc i)
    then have i: "13 * i \<le> ?c ! i" "?c ! i < ?c ! Suc i"
      using pos [of i] by auto
    have "?c ! Suc i < len" if "Suc i < num"
      using step [of "Suc i"] pos [of "Suc i"] that by (auto simp: cut_step_def)
    then show ?case
      using i step [of i] Suc.prems by (auto simp: cut_step_def str_defs)
  qed
  then show "13 * num \<le> n + (if n = len then 12 else 0)"
    by (auto simp: n)
qed

text \<open>
  \<open>insert_base\<close> on the fresh records \<open>ks\<close>: it indexes exactly records that lie in the base,
  touches no others, and keeps the flag only if all fresh records are non-empty.
\<close>

definition inserted ::
    "nat list \<Rightarrow> nat \<Rightarrow> DeltaRecord list \<Rightarrow> nat htable \<Rightarrow> bool \<Rightarrow> DeltaRecord list \<Rightarrow> nat htable \<Rightarrow> bool \<Rightarrow> bool"
    where
  "inserted ks cb bl h fc bl' h' fc' \<longleftrightarrow> length bl' = length bl \<and> htable_ok h' \<and>
     (\<forall>k. k \<notin> set ks \<longrightarrow> bl' ! k = bl ! k) \<and>
     (\<forall>(x, d) \<in> htable_entries h'. (x, d) \<in> htable_entries h \<or> d \<in> set ks \<and> 0 < nLength (bl ! d) \<and>
        bl' ! d = (bl ! d)\<lparr>nOffset := nOffset (bl ! d) + cb\<rparr>) \<and>
     (fc' \<longrightarrow> fc \<and> (\<forall>k \<in> set ks. 0 < nLength (bl ! k)))"

lemma insert_base_ok:
  assumes "insert_base ks cb bl h fc = (bl', h', fc')" "htable_ok h" "distinct ks"
    "\<forall>k \<in> set ks. k < length bl"
  shows "inserted ks cb bl h fc bl' h' fc'"
  using assms
proof (induction ks cb bl h fc rule: insert_base.induct)
  case (1 cb bl h fc)
  then show ?case by (auto simp: inserted_def)
next
  case (2 k ks cb bl h fc)
  let ?r = "(bl ! k)\<lparr>nOffset := nOffset (bl ! k) + cb\<rparr>"
  let ?bl = "bl[k := ?r]" and ?h = "htable_insert (nHash (bl ! k)) k h"
  show ?case
  proof (cases "nLength (bl ! k) = 0")
    case True
    with "2.prems" show ?thesis by (auto simp: inserted_def)
  next
    case False
    have eq: "insert_base ks cb ?bl ?h fc = (bl', h', fc')"
      using "2.prems"(1) False by (simp add: Let_def)
    have IH: "inserted ks cb ?bl ?h fc bl' h' fc'"
      using "2.IH" False eq "2.prems"(2-4) by (auto simp: htable_insert_ok)
    have k: "k \<notin> set ks" "k < length bl" using "2.prems" by auto
    have old: "?bl ! d = bl ! d" if "d \<in> set ks" for d
      using that k by (metis nth_list_update_neq)
    have r: "bl' ! k = ?r" using IH k by (simp add: inserted_def)
    have h: "htable_entries ?h = insert (nHash (bl ! k), k) (htable_entries h)"
      using "2.prems"(2) by (rule htable_insert_ok)
    have "(x, d) \<in> htable_entries h \<or> d \<in> set (k # ks) \<and> 0 < nLength (bl ! d) \<and>
        bl' ! d = (bl ! d)\<lparr>nOffset := nOffset (bl ! d) + cb\<rparr>" if "(x, d) \<in> htable_entries h'" for x d
    proof (cases "d = k")
      case True
      with r False show ?thesis by simp
    next
      case neq: False
      from IH that have "(x, d) \<in> htable_entries ?h \<or> d \<in> set ks \<and> 0 < nLength (?bl ! d) \<and>
          bl' ! d = (?bl ! d)\<lparr>nOffset := nOffset (?bl ! d) + cb\<rparr>"
        by (fastforce simp: inserted_def)
      with neq show ?thesis by (auto simp: h)
    qed
    moreover have "0 < nLength (bl ! j)" if "fc'" "j \<in> set (k # ks)" for j
      using IH that k False old [of j] by (cases "j = k") (auto simp: inserted_def)
    moreover have "bl' ! j = bl ! j" if "j \<notin> set (k # ks)" for j
      using IH that by (simp add: inserted_def)
    ultimately show ?thesis
      using IH unfolding inserted_def by auto
  qed
qed

lemma chunk_base_ok:
  assumes t: "tab_ok base e st" and c: "cap_ok L base e st" "flag_chunk st" and n: "num \<le> 45"
  shows "\<exists>st'. chunk_base base e num st = Inr st' \<and> tab_ok base e st' \<and> cap_ok L base e st' \<and>
    (\<exists>bl h fc cb nb na. st' = st\<lparr>BaseLink := bl, psHTable := h, flag_chunk := fc,
       cursor_base := cb, numBase := nb, numBytes_accu := na\<rparr>)"
proof -
  let ?cb = "cursor_base st" and ?nb = "numBase st"
  obtain recs nB where ch: "Chunking_v3 (drop ?cb base) (length base - e - ?cb) num = (recs, nB)"
    by fastforce
  note chk = Chunking_v3_ok [OF ch]
  let ?bl = "take ?nb (BaseLink st) @ recs @ drop (?nb + num) (BaseLink st)"
  let ?ks = "[?nb..<?nb + num]"
  obtain bl' h' fc' where ins: "insert_base ?ks ?cb ?bl (psHTable st) (flag_chunk st) = (bl', h', fc')"
    by (cases "insert_base ?ks ?cb ?bl (psHTable st) (flag_chunk st)") auto
  have cap: "?nb + num \<le> length (BaseLink st)"
    using c n by (auto simp: cap_ok_def)
  have len: "length ?bl = length (BaseLink st)"
    using cap chk(1) by simp
  have new: "?bl ! d \<in> set recs" if "d \<in> set ?ks" for d
    using that chk(1) cap by (auto simp: nth_append)
  have old: "?bl ! d = BaseLink st ! d" if "d < ?nb" for d
    using that cap by (simp add: nth_append)
  have I: "inserted ?ks ?cb ?bl (psHTable st) (flag_chunk st) bl' h' fc'"
    using insert_base_ok [OF ins] t cap len by (auto simp: tab_ok_def)
  let ?st = "st\<lparr>BaseLink := bl', psHTable := h', flag_chunk := fc', cursor_base := ?cb + nB,
    numBase := ?nb + num, numBytes_accu := numBytes_accu st + nB\<rparr>"
  have "chunk_base base e num st = Inr ?st"
    using ch ins cap by (simp add: chunk_base_def)
  moreover have "tab_ok base e ?st"
  proof -
    have "dup_ok base e ?st d" if xd: "(x, d) \<in> htable_entries h'" for x d
    proof (cases "d \<in> set ?ks \<and> 0 < nLength (?bl ! d) \<and>
        bl' ! d = (?bl ! d)\<lparr>nOffset := nOffset (?bl ! d) + ?cb\<rparr>")
      case True
      then have "nOffset (?bl ! d) + nLength (?bl ! d) \<le> nB"
        using chk(3) new by blast
      with True chk(2) c(1) show ?thesis
        by (auto simp: dup_ok_def rec_ok_def cap_ok_def)
    next
      case False
      then have d: "(x, d) \<in> htable_entries (psHTable st)"
        using I xd by (fastforce simp: inserted_def)
      then have "dup_ok base e st d" using t by (auto simp: tab_ok_def)
      moreover from this have "bl' ! d = BaseLink st ! d"
        using I old [of d] by (auto simp: dup_ok_def inserted_def)
      ultimately show ?thesis by (simp add: dup_ok_def)
    qed
    then show ?thesis
      using I cap len by (auto simp: tab_ok_def inserted_def)
  qed
  moreover have "cap_ok L base e ?st"
  proof -
    have "13 * num \<le> nB + (if nB = length base - e - ?cb then 12 else 0) \<and> nB + ?cb \<le> length base - e \<and>
        (?cb = length base - e \<longrightarrow> num = 0)" if "fc'"
    proof -
      have ne: "\<forall>r \<in> set recs. 0 < nLength r"
      proof
        fix r assume "r \<in> set recs"
        then obtain i where i: "i < num" "r = recs ! i" using chk(1) by (auto simp: in_set_conv_nth)
        then have "?bl ! (?nb + i) = r" using cap chk(1) by (simp add: nth_append)
        moreover have "0 < nLength (?bl ! (?nb + i))"
          using I that i by (simp add: inserted_def)
        ultimately show "0 < nLength r" by simp
      qed
      moreover have "num = 0" if "?cb = length base - e"
      proof (rule ccontr)
        assume "num \<noteq> 0"
        then obtain r where r: "r \<in> set recs" using chk(1) by (cases recs) auto
        then show False using ne chk(2,3) that by fastforce
      qed
      ultimately show ?thesis using chk(2,4) c(1) by (auto simp: cap_ok_def)
    qed
    then show ?thesis
      using c chk(2) I len unfolding cap_ok_def inserted_def by (auto split: if_splits)
  qed
  ultimately show ?thesis by blast
qed


section \<open>Probing the input\<close>

definition kept :: "estate \<Rightarrow> estate \<Rightarrow> bool" where
  "kept st st' \<longleftrightarrow> BaseLink st' = BaseLink st \<and> psHTable st' = psHTable st \<and>
     numBase st' = numBase st \<and> flag_chunk st' = flag_chunk st \<and>
     psDupSubCnk st' = psDupSubCnk st \<and> cursor_base st' = cursor_base st"

lemma kept_refl [simp]: "kept st st"
  by (simp add: kept_def)

lemma kept_trans: "kept a b \<Longrightarrow> kept b c \<Longrightarrow> kept a c"
  by (simp add: kept_def)

lemma kept_ok:
  assumes "kept st st'"
  shows "tab_ok base e st' = tab_ok base e st" "dup_ok base e st' = dup_ok base e st"
    "cap_ok L base e st' = cap_ok L base e st"
  using assms by (auto simp: kept_def tab_ok_def dup_ok_def cap_ok_def fun_eq_iff)

lemma probe_cut_ok:
  assumes "probe_cut new e h c1 k acc = (lks, pm, dup)" "c1 \<le> length new - e"
    "subs_ok (length new - e) c acc" "c1 = c + sum_list (map nLength acc)"
  shows "subs_ok (length new - e) c lks \<and> (acc \<noteq> [] \<or> 0 < k \<longrightarrow> lks \<noteq> []) \<and>
    (case pm of None \<Rightarrow> dup = None \<and> length lks = length acc + k
     | Some j \<Rightarrow> j < length lks \<and> dup \<noteq> None \<and> (\<exists>x. htable_lookup x h = dup))"
  using assms
proof (induction new e h c1 k acc rule: probe_cut.induct)
  case (1 new e h c1 acc)
  then show ?case by auto
next
  case (2 new e h c1 k acc)
  let ?l = "chunk_gear (drop c1 new) (length new - c1 - e)"
  let ?hash = "weakHash (bslice new c1 ?l)"
  let ?r = "\<lparr>nHash = ?hash, nOffset = 0, nLength = ?l, DupFlag = 0\<rparr>"
  have s: "sub_ok (length new - e) c1 ?l"
    using chunk_gear_sub_ok [OF "2.prems"(2), of "drop c1 new"] by (simp add: add.commute)
  then have l: "?l + c1 \<le> length new - e" by (simp add: sub_ok_def)
  have acc: "subs_ok (length new - e) c (acc @ [?r])"
    using "2.prems"(3,4) s by (simp add: subs_ok_append)
  show ?case
  proof (cases "htable_lookup ?hash h")
    case None
    have eq: "probe_cut new e h (?l + c1) k (acc @ [?r]) = (lks, pm, dup)"
      using "2.prems"(1) None by (simp add: Let_def)
    have sum: "?l + c1 = c + sum_list (map nLength (acc @ [?r]))"
      using "2.prems"(4) by simp
    show ?thesis
      using "2.IH" [of c1 "?l + c1" ?hash "acc @ [?r]"] None eq l acc sum
      by (simp split: option.splits)
  next
    case (Some d)
    then have "lks = acc @ [?r] \<and> pm = Some (length acc) \<and> dup = Some d"
      using "2.prems"(1) by (auto simp: Let_def)
    with acc Some show ?thesis by auto
  qed
qed

lemma probe_again_ok:
  assumes "probe_again h j rs = (pm, dup)"
  shows "case pm of None \<Rightarrow> dup = None
    | Some i \<Rightarrow> i < j + length rs \<and> dup \<noteq> None \<and> (\<exists>x. htable_lookup x h = dup)"
  using assms by (induction h j rs rule: probe_again.induct) (auto split: option.splits, metis)

text \<open>The state of a probe that found the sub-chunk \<open>probe_match\<close>, or none of the five.\<close>

definition probe_ok :: "byte list \<Rightarrow> byte list \<Rightarrow> nat \<Rightarrow> estate \<Rightarrow> bool" where
  "probe_ok new base e st \<longleftrightarrow> subs_ok (length new - e) (inputPos st) (InputLink st) \<and>
     InputLink st \<noteq> [] \<and>
     (case psDupSubCnk st of
        None \<Rightarrow> probe_match st = INPUT_TRY \<and> length (InputLink st) = INPUT_TRY
      | Some d \<Rightarrow> probe_match st < length (InputLink st) \<and> dup_ok base e st d)"

lemma probe_input_ok:
  assumes t: "tab_ok base e st" and c: "cursor_input st = inputPos st" "inputPos st \<le> length new - e"
    and i: "0 < i \<Longrightarrow> probe_ok new base e st \<and> psDupSubCnk st = None"
    and m: "probe_match st = INPUT_TRY"
  shows "probe_ok new base e (probe_input new e i st)"
proof (cases "i = 0")
  case True
  obtain lks pm dup where p: "probe_cut new e (psHTable st) (cursor_input st) INPUT_TRY []
      = (lks, pm, dup)" by (cases "probe_cut new e (psHTable st) (cursor_input st) INPUT_TRY []") auto
  show ?thesis
    using probe_cut_ok [OF p, of "inputPos st"] c m True p tab_ok_lookup [OF t]
    by (auto simp: probe_input_def probe_ok_def dup_ok_def edelta_consts split: option.splits)
next
  case False
  obtain pm dup where p: "probe_again (psHTable st) 0 (InputLink st) = (pm, dup)" by fastforce
  show ?thesis
    using probe_again_ok [OF p] i m False p tab_ok_lookup [OF t]
    by (auto simp: probe_input_def probe_ok_def dup_ok_def split: option.splits)
qed

section \<open>Rounds over the base\<close>

definition rounds_ok :: "nat \<Rightarrow> byte list \<Rightarrow> byte list \<Rightarrow> nat \<Rightarrow> estate \<Rightarrow> bool" where
  "rounds_ok L new base e st \<longleftrightarrow> tab_ok base e st \<and> cap_ok L base e st \<and>
     cursor_input st = inputPos st \<and> inputPos st \<le> length new - e"

lemma base_rounds_ok:
  assumes "rounds_ok L new base e st" "flag_chunk st" "probe_match st = INPUT_TRY"
    "num * 3 ^ k \<le> 135" "0 < k"
    "0 < i \<Longrightarrow> probe_ok new base e st \<and> psDupSubCnk st = None"
  shows "\<exists>st'. base_rounds new base e k i num st = Inr st' \<and> rounds_ok L new base e st' \<and>
    probe_ok new base e st' \<and> same_output st st' \<and> inputPos st' = inputPos st \<and>
    flag_handle_probe st' = flag_handle_probe st"
  using assms
proof (induction k arbitrary: i num st)
  case 0
  then show ?case by simp
next
  case (Suc k)
  have "num * 1 \<le> num * 3 ^ k" by (rule mult_le_mono2) simp
  also have "num * 3 ^ k \<le> 45" using Suc.prems(4) by simp
  finally have "num \<le> 45" by simp
  then obtain st1 where st1: "chunk_base base e num st = Inr st1" "tab_ok base e st1" "cap_ok L base e st1"
    and upd: "\<exists>bl h fc cb nb na. st1 = st\<lparr>BaseLink := bl, psHTable := h, flag_chunk := fc,
       cursor_base := cb, numBase := nb, numBytes_accu := na\<rparr>"
    using chunk_base_ok [of base e st L num] Suc.prems(1,2) unfolding rounds_ok_def by blast
  have same: "same_output st st1" "inputPos st1 = inputPos st" "cursor_input st1 = cursor_input st"
    "probe_match st1 = probe_match st" "InputLink st1 = InputLink st" "psDupSubCnk st1 = psDupSubCnk st"
    "flag_handle_probe st1 = flag_handle_probe st"
    using upd by (auto simp: same_output_def)
  let ?st2 = "probe_input new e i st1"
  have p1: "probe_ok new base e st1 \<and> psDupSubCnk st1 = None" if "0 < i"
    using Suc.prems(6) that same by (auto simp: probe_ok_def)
  have p: "probe_ok new base e ?st2"
    using st1(2) Suc.prems(1,3) same p1 by (intro probe_input_ok) (auto simp: rounds_ok_def)
  have same2: "same_output st1 ?st2 \<and> inputPos ?st2 = inputPos st1 \<and> flag_handle_probe ?st2 = flag_handle_probe st1
      \<and> rounds_ok L new base e ?st2 \<and> flag_chunk ?st2 = flag_chunk st1"
    using st1(2,3) Suc.prems(1) same
    by (auto simp: probe_input_def same_output_def rounds_ok_def tab_ok_def cap_ok_def dup_ok_def
        split: prod.splits)
  show ?case
  proof (cases "psDupSubCnk ?st2 \<noteq> None \<or> \<not> flag_chunk ?st2 \<or> k = 0")
    case True
    then have "base_rounds new base e (Suc k) i num st = Inr ?st2"
      using st1(1) by (auto simp: Let_def)
    then show ?thesis using p same same2 by (auto simp: same_output_def)
  next
    case False
    then have m: "probe_match ?st2 = INPUT_TRY" using p by (auto simp: probe_ok_def)
    have "\<exists>st'. base_rounds new base e k (Suc i) (num * BASE_EXPAND) ?st2 = Inr st' \<and>
        rounds_ok L new base e st' \<and> probe_ok new base e st' \<and> same_output ?st2 st' \<and>
        inputPos st' = inputPos ?st2 \<and> flag_handle_probe st' = flag_handle_probe ?st2"
      by (rule Suc.IH) (use False same2 m p Suc.prems(4) in \<open>auto simp: edelta_consts\<close>)
    then show ?thesis using False st1(1) same same2 by (auto simp: Let_def same_output_def)
  qed
qed

lemma rechunk_ok:
  assumes r: "rounds_ok L new base e st"
  defines "due \<equiv> flag_chunk st \<and> base_due (cursor_input st) (length new) (cursor_base st) (length base)"
  shows "\<exists>st'. rechunk new base e st = Inr st' \<and> rounds_ok L new base e st' \<and>
    same_output st st' \<and> inputPos st' = inputPos st \<and>
    (if due then flag_handle_probe st' = Some True \<and> probe_ok new base e st' else st' = st)"
proof (cases due)
  case False
  then show ?thesis using r by (auto simp: rechunk_def due_def same_output_def)
next
  case True
  let ?st = "st\<lparr>numBytes_old := numBytes_accu st, numBytes_accu := 0,
              flag_handle_probe := Some True, probe_match := INPUT_TRY\<rparr>"
  have "\<exists>st'. base_rounds new base e BASE_STEP 0 BASE_BEGIN ?st = Inr st' \<and> rounds_ok L new base e st' \<and>
    probe_ok new base e st' \<and> same_output ?st st' \<and> inputPos st' = inputPos ?st \<and>
    flag_handle_probe st' = flag_handle_probe ?st"
    by (rule base_rounds_ok)
      (use r True in \<open>auto simp: due_def rounds_ok_def tab_ok_def cap_ok_def dup_ok_def edelta_consts\<close>)
  then obtain st1 where st1: "base_rounds new base e BASE_STEP 0 BASE_BEGIN ?st = Inr st1"
    "rounds_ok L new base e st1" "probe_ok new base e st1" "same_output ?st st1"
    "inputPos st1 = inputPos st" "flag_handle_probe st1 = Some True" by auto
  let ?st2 = "st1\<lparr>input_last_chunk_beg := (if input_last_chunk_beg st1 + numBytes_old st1 < cursor_input st1
             then cursor_input st1 else input_last_chunk_beg st1 + numBytes_old st1)\<rparr>"
  have "rechunk new base e st = Inr ?st2"
    using True st1(1) by (simp add: rechunk_def due_def)
  moreover have "rounds_ok L new base e ?st2 \<and> probe_ok new base e ?st2 \<and> same_output st ?st2"
    using st1(2-4)
    by (auto simp: rounds_ok_def tab_ok_def cap_ok_def dup_ok_def probe_ok_def same_output_def
        split: option.splits)
  ultimately show ?thesis using st1(5,6) True by auto
qed


section \<open>One iteration\<close>

definition probed ::
    "byte list \<Rightarrow> byte list \<Rightarrow> nat \<Rightarrow> dunit list \<Rightarrow> DeltaRecord list \<Rightarrow> nat \<Rightarrow> estate \<Rightarrow> bool \<Rightarrow> estate \<Rightarrow> bool"
    where
  "probed new base e us rs i st found st' \<longleftrightarrow> kept st st' \<and>
    flag_handle_probe st' = Some False \<and> wr_ok new base e (inputPos st') st' us \<and>
    (found \<longleftrightarrow> probe_match st < i + length rs) \<and> inputPos st \<le> inputPos st' \<and>
    (inputPos st' < length new - e \<or> eflag st' = 2) \<and>
    (found \<longrightarrow> cursor_input st' = inputPos st' + elength st' \<and> cursor_input st' \<le> length new - e \<and>
      (STRMIN < elength st' \<or> cursor_input st' = length new - e)) \<and>
    (inputPos st < length new - e \<and> rs \<noteq> [] \<longrightarrow>
      inputPos st < (if found then cursor_input st' else inputPos st'))"

lemma handle_probe_ok:
  assumes "wr_ok new base e (inputPos st) st us" "sizes_ok new base e"
    "inputPos st < length new - e \<or> eflag st = 2" "subs_ok (length new - e) (inputPos st) rs"
    "i \<le> probe_match st"
  shows "\<exists>found st'. handle_probe new i rs st = Inr (found, st') \<and> probed new base e us rs i st found st'"
  using assms
proof (induction new i rs st rule: handle_probe.induct)
  case (1 new i st)
  let ?st' = "st\<lparr>flag_handle_probe := Some False\<rparr>"
  have "wr_ok new base e (inputPos ?st') ?st' us"
    using "1.prems"(1) wr_ok_same [of st ?st'] by (simp add: same_output_def)
  with "1.prems"(3,5) have "probed new base e us [] i st False ?st'"
    by (simp add: kept_def probed_def)
  then show ?case by auto
next
  case (2 new i r rs st)
  let ?st = "st\<lparr>elength := nLength r, cursor_input := nLength r + inputPos st\<rparr>"
  have s: "sub_ok (length new - e) (inputPos st) (nLength r)"
    and ss: "subs_ok (length new - e) (inputPos st + nLength r) rs" using "2.prems"(4) by auto
  have w: "wr_ok new base e (inputPos ?st) ?st us"
    using "2.prems"(1) wr_ok_same [of st ?st] by (simp add: same_output_def)
  show ?case
  proof (cases "i = probe_match st")
    case True
    let ?st' = "?st\<lparr>flag_handle_probe := Some False\<rparr>"
    have "wr_ok new base e (inputPos ?st') ?st' us"
      using "2.prems"(1) wr_ok_same [of st ?st'] by (simp add: same_output_def)
    with True "2.prems"(3) s have "probed new base e us (r # rs) i st True ?st'"
      by (auto simp: kept_def sub_ok_def probed_def)
    with True show ?thesis by (auto simp: Let_def)
  next
    case False
    have c: "cursor_input ?st = inputPos ?st + elength ?st" "cursor_input ?st \<le> length new - e"
      "inputPos ?st < length new - e \<or> eflag ?st = 2"
      using s "2.prems"(3) by (auto simp: sub_ok_def)
    obtain st1 where st1: "emit_literal new ?st = Inr st1" "moved base e ?st st1" "eflag st1 = 2"
      "cursor_input st1 = nLength r + inputPos st" "wr_ok new base e (cursor_input st1) st1 us"
      "cursor_base st1 = cursor_base ?st"
      using emit_literal_step [OF w "2.prems"(2) c(3,1,2)] by auto
    let ?st2 = "st1\<lparr>inputPos := cursor_input st1\<rparr>"
    have k: "kept st ?st2" "probe_match ?st2 = probe_match st" "eflag ?st2 = 2"
      using st1(2,3,6) by (simp_all add: moved_def same_input_def kept_def)
    have w2: "wr_ok new base e (inputPos ?st2) ?st2 us"
      using st1(5) wr_ok_same [of st1 ?st2] by (simp add: same_output_def)
    have eq: "handle_probe new i (r # rs) st = handle_probe new (Suc i) rs ?st2"
      using False st1(1) by (simp add: Let_def)
    have sub2: "subs_ok (length new - e) (inputPos ?st2) rs"
      using ss st1(4) by (simp add: add.commute)
    have "Suc i \<le> probe_match ?st2" "i \<noteq> probe_match ?st" using False "2.prems"(5) k(2) by simp_all
    then obtain found st' where st': "handle_probe new (Suc i) rs ?st2 = Inr (found, st')"
      "probed new base e us rs (Suc i) ?st2 found st'"
      using "2.IH" [of ?st st1] w2 "2.prems"(2) sub2 st1(1) k(3) by blast
    have "kept st st'" using kept_trans [OF k(1)] st'(2) by (simp add: probed_def)
    moreover have "inputPos ?st2 = inputPos st + nLength r" using st1(4) by simp
    ultimately have "probed new base e us (r # rs) i st found st'"
      using st'(2) s k(2) unfolding probed_def by (auto simp: sub_ok_def)
    with st'(1) eq show ?thesis by auto
  qed
qed

text \<open>The state at the head of the main loop.\<close>

definition loop_ok :: "nat \<Rightarrow> byte list \<Rightarrow> byte list \<Rightarrow> nat \<Rightarrow> estate \<Rightarrow> dunit list \<Rightarrow> bool" where
  "loop_ok L new base e st us \<longleftrightarrow> rounds_ok L new base e st \<and> wr_ok new base e (inputPos st) st us"

lemma loop_okI:
  assumes "tab_ok base e st" "cap_ok L base e st" "wr_ok new base e (cursor_input st) st us"
  shows "loop_ok L new base e (st\<lparr>inputPos := cursor_input st\<rparr>) us"
proof -
  let ?st = "st\<lparr>inputPos := cursor_input st\<rparr>"
  have "kept st ?st" "same_output st ?st" by (simp_all add: kept_def same_output_def)
  moreover have "cursor_input st \<le> length new - e" using assms(3) by (simp add: wr_ok_def)
  ultimately show ?thesis
    using assms kept_ok [of st ?st] wr_ok_same [of st ?st]
    by (simp add: loop_ok_def rounds_ok_def)
qed

lemma cut_or_match_ok:
  assumes w: "wr_ok new base e (inputPos st) st us" and sz: "sizes_ok new base e"
    and pre: "inputPos st < length new - e \<or> eflag st = 2"
    and r: "tab_ok base e st" "cap_ok L base e st"
  shows "\<exists>st' us'. cut_and_match new base e st = Inr st' \<and>
    loop_ok L new base e (st'\<lparr>inputPos := cursor_input st'\<rparr>) us' \<and> inputPos st \<le> cursor_input st' \<and>
    (inputPos st < length new - e \<longrightarrow> inputPos st < cursor_input st') \<and>
    flag_handle_probe st' = flag_handle_probe st"
proof -
  obtain st' us' where st': "cut_and_match new base e st = Inr st'"
    "wr_ok new base e (cursor_input st') st' us'" "tab_ok base e st'" "cap_ok L base e st'"
    "inputPos st < length new - e \<longrightarrow> inputPos st < cursor_input st'"
    "inputPos st \<le> cursor_input st'" "flag_handle_probe st' = flag_handle_probe st"
    using cut_and_match_step [OF w sz pre r(1)] r(2) by blast
  show ?thesis using loop_okI [OF st'(3,4,2)] st' by blast
qed

lemma found_match_ok:
  assumes w: "wr_ok new base e (inputPos st) st us" and sz: "sizes_ok new base e"
    and pre: "inputPos st < length new - e \<or> eflag st = 2"
    and c: "cursor_input st = inputPos st + elength st" "cursor_input st \<le> length new - e"
      "STRMIN < elength st \<or> cursor_input st = length new - e"
    and d: "psDupSubCnk st = Some d" "dup_ok base e st d"
    and r: "tab_ok base e st" "cap_ok L base e st"
  shows "\<exists>st' us'. do_match new base e st = Inr st' \<and>
    loop_ok L new base e (st'\<lparr>inputPos := cursor_input st'\<rparr>) us' \<and>
    cursor_input st \<le> cursor_input st' \<and> flag_handle_probe st' = flag_handle_probe st"
proof -
  obtain st' us' where st': "do_match new base e st = Inr st'" "moved base e st st'"
    "wr_ok new base e (cursor_input st') st' us'"
    using do_match_step [OF w sz pre c d r(1)] by blast
  have t: "tab_ok base e st'" "cap_ok L base e st'"
    using st'(2) r same_input_ok(1) [of st st'] cap_ok_cursor [of L base e st st']
    by (auto simp: moved_def)
  have "cursor_input st \<le> cursor_input st'" "flag_handle_probe st' = flag_handle_probe st"
    using st'(2) by (simp_all add: moved_def same_input_def)
  with st'(1) loop_okI [OF t st'(3)] show ?thesis by blast
qed

lemma encode_step_ok:
  assumes l: "loop_ok L new base e st us" and sz: "sizes_ok new base e"
    and pos: "inputPos st < length new - e"
    and h: "flag_handle_probe st = Some False \<or> flag_handle_probe st = None \<and> flag_chunk st \<and>
       base_due (cursor_input st) (length new) (cursor_base st) (length base)"
  shows "\<exists>st' us'. encode_step new base e st = Inr st' \<and> loop_ok L new base e st' us' \<and>
    flag_handle_probe st' = Some False \<and> inputPos st < inputPos st'"
proof -
  let ?due = "flag_chunk st \<and> base_due (cursor_input st) (length new) (cursor_base st) (length base)"
  obtain st1 where st1: "rechunk new base e st = Inr st1" "rounds_ok L new base e st1"
    "same_output st st1" "inputPos st1 = inputPos st"
    "if ?due then flag_handle_probe st1 = Some True \<and> probe_ok new base e st1 else st1 = st"
    using rechunk_ok [of L new base e st] l unfolding loop_ok_def by blast
  have w1: "wr_ok new base e (inputPos st1) st1 us"
    using l wr_ok_same [OF st1(3)] st1(4) by (simp add: loop_ok_def)
  have r1: "tab_ok base e st1" "cap_ok L base e st1" "inputPos st1 < length new - e"
    using st1(2,4) pos by (auto simp: rounds_ok_def)
  show ?thesis
  proof (cases ?due)
    case False
    then have eq: "encode_step new base e st = res_bind (cut_and_match new base e st1)
        (\<lambda>st. Inr (st\<lparr>inputPos := cursor_input st\<rparr>))" and fh: "flag_handle_probe st1 = Some False"
      using st1(1,5) h by (auto simp: encode_step_def)
    show ?thesis
      using cut_or_match_ok [OF w1 sz disjI1 [OF r1(3)] r1(1,2)] fh r1(3) st1(4)
      by (auto simp: eq)
  next
    case True
    then have fh: "flag_handle_probe st1 = Some True" and p: "probe_ok new base e st1"
      using st1(5) by auto
    obtain found st2 where st2: "handle_probe new 0 (InputLink st1) st1 = Inr (found, st2)"
      "kept st1 st2" "flag_handle_probe st2 = Some False" "wr_ok new base e (inputPos st2) st2 us"
      "found \<longleftrightarrow> probe_match st1 < length (InputLink st1)" "inputPos st1 \<le> inputPos st2"
      "inputPos st2 < length new - e \<or> eflag st2 = 2"
      "found \<longrightarrow> cursor_input st2 = inputPos st2 + elength st2 \<and> cursor_input st2 \<le> length new - e \<and>
          (STRMIN < elength st2 \<or> cursor_input st2 = length new - e)"
      "inputPos st1 < (if found then cursor_input st2 else inputPos st2)"
      using handle_probe_ok [OF w1 sz disjI1 [OF r1(3)], of "InputLink st1" 0] p r1(3)
      unfolding probe_ok_def probed_def by force
    have r2: "tab_ok base e st2" "cap_ok L base e st2" "dup_ok base e st2 = dup_ok base e st1"
      using r1 kept_ok [OF st2(2)] by auto
    have eq: "encode_step new base e st = res_bind
        (if found then do_match new base e st2 else cut_and_match new base e st2)
        (\<lambda>st. Inr (st\<lparr>inputPos := cursor_input st\<rparr>))"
      using st1(1) st2(1) fh by (simp add: encode_step_def)
    show ?thesis
    proof (cases found)
      case False
      then show ?thesis
        using cut_or_match_ok [OF st2(4) sz st2(7) r2(1,2)] st2(3,6,9) st1(4)
        by (auto simp: eq)
    next
      case True
      then obtain d where d: "psDupSubCnk st2 = Some d" "dup_ok base e st2 d"
        using st2(2,5) p r2(3) by (auto simp: probe_ok_def kept_def split: option.splits)
      show ?thesis
      proof -
        have c: "cursor_input st2 = inputPos st2 + elength st2" "cursor_input st2 \<le> length new - e"
          "STRMIN < elength st2 \<or> cursor_input st2 = length new - e" "inputPos st < cursor_input st2"
          using st2(8,9) st1(4) True by auto
        obtain st' us' where st': "do_match new base e st2 = Inr st'"
          "loop_ok L new base e (st'\<lparr>inputPos := cursor_input st'\<rparr>) us'"
          "cursor_input st2 \<le> cursor_input st'" "flag_handle_probe st' = flag_handle_probe st2"
          using found_match_ok [OF st2(4) sz st2(7) c(1-3) d r2(1,2)] by blast
        let ?st = "st'\<lparr>inputPos := cursor_input st'\<rparr>"
        have "encode_step new base e st = Inr ?st" using True st'(1) by (simp add: eq)
        moreover have "flag_handle_probe ?st = Some False" "inputPos st < inputPos ?st"
          using st'(3,4) st2(3) c(4) by simp_all
        ultimately show ?thesis using st'(2) by blast
      qed
    qed
  qed
qed


section \<open>The whole encoder\<close>

definition probe_ready :: "byte list \<Rightarrow> byte list \<Rightarrow> estate \<Rightarrow> bool" where
  "probe_ready new base st \<longleftrightarrow> flag_handle_probe st = Some False \<or>
     flag_handle_probe st = None \<and> flag_chunk st \<and>
     base_due (cursor_input st) (length new) (cursor_base st) (length base)"

lemma encode_loop_ok:
  assumes "loop_ok L new base e st us" "sizes_ok new base e"
    "inputPos st < length new - e \<Longrightarrow> probe_ready new base st"
    "length new - e - inputPos st < fuel"
  shows "\<exists>st' us'. encode_loop fuel new base e st = Inr st' \<and> loop_ok L new base e st' us' \<and>
    inputPos st' = length new - e"
  using assms
proof (induction fuel arbitrary: st us)
  case 0
  then show ?case by simp
next
  case (Suc fuel)
  show ?case
  proof (cases "inputPos st < length new - e")
    case False
    with Suc.prems(1) show ?thesis by (auto simp: loop_ok_def rounds_ok_def)
  next
    case True
    then have "probe_ready new base st" using Suc.prems(3) by simp
    then obtain st1 us1 where st1: "encode_step new base e st = Inr st1" "loop_ok L new base e st1 us1"
      "flag_handle_probe st1 = Some False" "inputPos st < inputPos st1"
      using encode_step_ok [OF Suc.prems(1,2) True] unfolding probe_ready_def by blast
    have "\<exists>st' us'. encode_loop fuel new base e st1 = Inr st' \<and> loop_ok L new base e st' us' \<and>
        inputPos st' = length new - e"
      using Suc.prems(2,4) st1 True by (intro Suc.IH [of st1 us1]) (auto simp: probe_ready_def)
    with True st1(1) show ?thesis by simp
  qed
qed

lemma encode_init_ok:
  assumes d: "detect_ends new base = (b, e)" "b + e < length base"
    and sz: "sizes_ok new base e" and cap: "length new + 12 \<le> length buf"
    "length base + 600 \<le> 13 * length bl"
    and h: "htable_ok h" "htable_entries h = {}"
  shows "\<exists>st us. encode_init b buf bl h = Inr st \<and> loop_ok (length bl) new base e st us \<and>
    inputPos st = b \<and> cursor_input st = b \<and> cursor_base st = b \<and> flag_chunk st \<and>
    flag_handle_probe st = None"
proof -
  note ends = detect_ends_agree [OF d(1)]
  have words: "get_flag (set_flag 0 0) = 0" "get_flag (set_flag 0 1) \<noteq> 0"
    by (simp_all add: set_flag_def get_flag_def)
  have w: "set_length (set_flag 0 0) (word_of_nat b) = copy_word b"
    by (rule set_length_copy [OF words(1)])
  have r: "rounds_ok (length bl) new base e st"
    if "psHTable st = SetOffset 24 h" "numBase st = 0" "BaseLink st = bl" "cursor_base st = b"
      "cursor_input st = b" "inputPos st = b" for st
    using that d(2) sz cap ends(3) h
    by (auto simp: rounds_ok_def tab_ok_def cap_ok_def SetOffset_ok)
  show ?thesis
  proof (cases "b = 0")
    case True
    let ?st = "\<lparr>deltaBuf = buf, deltaLen = 0, cursor_base = b, cursor_input = b,
      input_last_chunk_beg = b, inputPos = b, elength = 0, psDupSubCnk = None,
      record1 = \<lparr>flag_length1 = set_flag 0 0, nOffset1 = 0\<rparr>,
      record2 = \<lparr>flag_length2 = set_flag 0 1\<rparr>, eflag = 0, numBase = 0, BaseLink = bl,
      psHTable = SetOffset 24 h, flag_chunk = True, numBytes_old = 0, numBytes_accu = 0,
      probe_match = 0, flag_handle_probe = None, InputLink = []\<rparr> :: estate"
    have "out_ok new base b ?st []"
      using words True by (intro out_ok_unitsI) (auto simp: holds_def)
    then have "wr_ok new base e b ?st []"
      using cap ends(3) by (auto simp: wr_ok_def)
    moreover have "encode_init b buf bl h = Inr ?st"
      using True by (simp add: encode_init_def Let_def)
    moreover have "rounds_ok (length bl) new base e ?st" by (rule r) simp_all
    ultimately show ?thesis by (auto simp: loop_ok_def)
  next
    case False
    then have b: "16 < b" using ends(4) by simp
    obtain buf' where buf': "buf_write buf 0 (unit1_bytes \<lparr>flag_length1 = copy_word b, nOffset1 = 0\<rparr>) = Inr buf'"
      "length buf' = length buf" "holds buf' 8 (unit1_bytes \<lparr>flag_length1 = copy_word b, nOffset1 = 0\<rparr>)"
      using holds_write [OF holds_nil, of "unit1_bytes \<lparr>flag_length1 = copy_word b, nOffset1 = 0\<rparr>" buf]
        cap b ends(3) by (auto simp: edelta_consts)
    let ?st = "\<lparr>deltaBuf = buf', deltaLen = 8, cursor_base = b, cursor_input = b,
      input_last_chunk_beg = b, inputPos = b, elength = 0, psDupSubCnk = None,
      record1 = \<lparr>flag_length1 = copy_word b, nOffset1 = 0\<rparr>,
      record2 = \<lparr>flag_length2 = set_flag 0 1\<rparr>, eflag = 1, numBase = 0, BaseLink = bl,
      psHTable = SetOffset 24 h, flag_chunk = True, numBytes_old = 0, numBytes_accu = 0,
      probe_match = 0, flag_handle_probe = None, InputLink = []\<rparr> :: estate"
    have bl: "b < 2 ^ 31" using sz ends(3) by (auto simp: sizes_ok_def)
    have "out_ok new base b ?st [Copy 0 b]"
      using words buf'(3) ends(1) sz copy_word_get(1) [OF bl] bl
      by (intro out_ok_unitsI) (auto simp: agree_def bslice_def)
    then have "wr_ok new base e b ?st [Copy 0 b]"
      using cap ends(3) b buf'(2) by (auto simp: wr_ok_def)
    moreover have "encode_init b buf bl h = Inr ?st"
      using False w buf'(1) by (simp add: encode_init_def Let_def edelta_consts)
    moreover have "rounds_ok (length bl) new base e ?st" by (rule r) simp_all
    ultimately show ?thesis by (auto simp: loop_ok_def)
  qed
qed

text \<open>The delta of a finished run: the units of \<open>us\<close>, which denote the whole input.\<close>

definition delta_ok :: "byte list \<Rightarrow> byte list \<Rightarrow> byte list \<Rightarrow> nat \<Rightarrow> dunit list \<Rightarrow> bool" where
  "delta_ok new base buf n us \<longleftrightarrow> (\<forall>u \<in> set us. unit_ok base u) \<and> holds buf n (ser us) \<and>
     delta_out base us = new \<and> n \<le> length new + 12"

lemma tail_unit:
  assumes "agree_back base (length base) new (length new) e" "sizes_ok new base e"
    "delta_out base us = take (length new - e) new"
  shows "unit_ok base (Copy (length base - e) e)" "delta_out base (us @ [Copy (length base - e) e]) = new"
proof -
  have "agree base (length base - e) new (length new - e) e"
    using assms(1) by (simp add: agree_back_def)
  then show "unit_ok base (Copy (length base - e) e)"
    "delta_out base (us @ [Copy (length base - e) e]) = new"
    using match_unit_ok [of base "length base - e" new "length new - e" e] assms(2,3)
    by (auto simp: sizes_ok_def)
qed

lemma encode_finish_ok:
  assumes l: "loop_ok L new base e st us" and pos: "inputPos st = length new - e"
    and d: "agree_back base (length base) new (length new) e" "0 < e \<Longrightarrow> 16 < e"
    and sz: "sizes_ok new base e"
  shows "\<exists>st' us'. encode_finish base e st = Inr st' \<and> delta_ok new base (deltaBuf st') (deltaLen st') us' \<and>
    length (BaseLink st') = L \<and> length (deltaBuf st') = length (deltaBuf st) \<and>
    htable_ok (psHTable st') \<and> htable_entries (psHTable st') = {}"
proof -
  have ok: "out_ok new base (inputPos st) st us" and w: "wr_ok new base e (inputPos st) st us"
    and r: "length (BaseLink st) = L" "htable_ok (psHTable st)"
    using l by (auto simp: loop_ok_def wr_ok_def rounds_ok_def cap_ok_def tab_ok_def)
  obtain buf where f: "flush_literal st = Inr (st\<lparr>deltaBuf := buf\<rparr>)"
    "length buf = length (deltaBuf st)"
    "eflag st \<noteq> 2 \<Longrightarrow> holds buf (deltaLen st) (ser us) \<and> delta_out base us = take (inputPos st) new"
    "eflag st = 2 \<Longrightarrow> \<exists>lit. flag_length2 (record2 st) = lit_word (length lit) \<and>
       length lit < 2 ^ 31 \<and> holds buf (deltaLen st) (ser (us @ [Lit lit])) \<and>
       delta_out base (us @ [Lit lit]) = take (inputPos st) new"
    using flush_literal_ok [OF ok] by blast
  have "\<exists>us1. (\<forall>u \<in> set us1. unit_ok base u) \<and> holds buf (deltaLen st) (ser us1) \<and>
      delta_out base us1 = take (length new - e) new"
  proof (cases "eflag st = 2")
    case True
    then obtain lit where "length lit < 2 ^ 31" "holds buf (deltaLen st) (ser (us @ [Lit lit]))"
      "delta_out base (us @ [Lit lit]) = take (length new - e) new"
      using f(4) pos by auto
    with out_ok_flags(1) [OF ok] show ?thesis by (intro exI [of _ "us @ [Lit lit]"]) auto
  next
    case False
    with f(3) out_ok_flags(1) [OF ok] pos show ?thesis by (intro exI [of _ us]) auto
  qed
  then obtain us1 where us1: "\<forall>u \<in> set us1. unit_ok base u" "holds buf (deltaLen st) (ser us1)"
    "delta_out base us1 = take (length new - e) new" by blast
  have dl: "deltaLen st \<le> length new - e + 11" "length new + 12 \<le> length buf" "e \<le> length new"
    using w pos f(2) sz by (auto simp: wr_ok_def sizes_ok_def split: if_splits)
  show ?thesis
  proof (cases "e = 0")
    case True
    have "delta_ok new base buf (deltaLen st) us1"
      using us1 True dl by (auto simp: delta_ok_def)
    with True f(1,2) r ResetTable_ok [OF r(2)] show ?thesis
      by (auto simp: encode_finish_def)
  next
    case False
    then have e: "16 < e" using d(2) by simp
    with dl have dl8: "deltaLen st + 8 \<le> length buf" by linarith
    let ?r1 = "\<lparr>flag_length1 = copy_word e, nOffset1 = word_of_nat (length base - e)\<rparr>"
    have c: "set_length (flag_length1 (record1 st)) (word_of_nat e) = copy_word e"
      by (rule set_length_copy [OF out_ok_flags(2) [OF ok]])
    obtain buf2 where b2: "buf_write buf (deltaLen st) (unit1_bytes ?r1) = Inr buf2"
      "length buf2 = length buf" "holds buf2 (deltaLen st + 8) (ser us1 @ unit1_bytes ?r1)"
      using holds_write [OF us1(2), of "unit1_bytes ?r1"] dl8 by (auto simp: edelta_consts)
    have "delta_ok new base buf2 (deltaLen st + 8) (us1 @ [Copy (length base - e) e])"
      using us1(1) b2(3) tail_unit [OF d(1) sz us1(3)] dl e
      by (auto simp: delta_ok_def simp del: unit_ok.simps delta_out_simps)
    with False f(1,2) r ResetTable_ok [OF r(2)] b2 c show ?thesis
      by (auto simp: encode_finish_def Let_def edelta_consts)
  qed
qed


section \<open>Chunks that differ only between their ends\<close>

lemma encode_ends_ok:
  assumes d: "detect_ends new base = (b, e)" "length base \<le> b + e"
    and sz: "sizes_ok new base e" and cap: "length new + 12 \<le> length buf"
  shows "\<exists>buf' n us. encode_ends new base b e buf = Inr (buf', n) \<and> delta_ok new base buf' n us \<and>
    length buf' = length buf"
proof -
  note ends = detect_ends_agree [OF d(1)]
  let ?m = "length new - b - e"
  have w: "set_length (set_flag 0 0) (word_of_nat l) = copy_word l"
    "set_length (set_flag 0 1) (word_of_nat l) = lit_word l" for l
    by (simp_all add: set_length_copy set_length_lit set_flag_def get_flag_def)
  have small: "b < 2 ^ 31" "?m < 2 ^ 31" using sz ends(3) by (auto simp: sizes_ok_def)
  have mid: "unat (get_length (lit_word ?m)) = ?m" by (rule lit_word_get(3) [OF small(2)])
  define us1 where "us1 = (if 0 < b then [Copy 0 b] else [])"
  define us2 where "us2 = us1 @ (if 0 < ?m then [Lit (bslice new b ?m)] else [])"
  define us3 where "us3 = us2 @ (if 0 < e then [Copy (length base - e) e] else [])"
  have p1: "\<forall>u \<in> set us1. unit_ok base u" "delta_out base us1 = take b new"
    using ends(1) small sz by (auto simp: us1_def agree_def sizes_ok_def bslice_def)
  have m: "length (bslice new b ?m) = ?m" using ends(3) by (simp add: bslice_length)
  have p2: "\<forall>u \<in> set us2. unit_ok base u" "delta_out base us2 = take (length new - e) new"
    using p1 small m ends(3) take_bslice [of b new ?m] by (auto simp: us2_def)
  have p3: "\<forall>u \<in> set us3. unit_ok base u" "delta_out base us3 = new"
    using p2 tail_unit [OF ends(2) sz p2(2)] by (auto simp: us3_def simp del: unit_ok.simps)
  have l1: "length (ser us1) = (if 0 < b then 8 else 0)"
    by (simp add: us1_def edelta_consts)
  have l2: "length (ser us2) = length (ser us1) + (if 0 < ?m then 4 + ?m else 0)"
    using m by (simp add: us2_def edelta_consts)
  have l3: "length (ser us3) = length (ser us2) + (if 0 < e then 8 else 0)"
    by (simp add: us3_def edelta_consts)
  have len: "length (ser us3) \<le> length new + 12"
    using ends(3-5) by (auto simp: l1 l2 l3)
  obtain buf1 where b1: "(if 0 < b then res_bind (buf_write buf 0
      (unit1_bytes \<lparr>flag_length1 = copy_word b, nOffset1 = 0\<rparr>)) (\<lambda>buf. Inr (buf, unit1_size))
      else Inr (buf, 0)) = Inr (buf1, length (ser us1))" "length buf1 = length buf"
    "holds buf1 (length (ser us1)) (ser us1)"
  proof (cases "0 < b")
    case True
    then have "0 + length (ser us1) \<le> length buf" using len cap l1 l2 l3 by linarith
    then obtain buf1 where "buf_write buf 0 (ser us1) = Inr buf1" "length buf1 = length buf"
      "holds buf1 (length (ser us1)) (ser us1)"
      using holds_write [OF holds_nil, of "ser us1" buf] by auto
    with True show ?thesis by (intro that [of buf1]) (auto simp: us1_def edelta_consts)
  qed (auto simp: us1_def holds_def)
  obtain buf2 where b2: "(if 0 < ?m then
      res_bind (buf_write buf1 (length (ser us1)) (unit2_bytes \<lparr>flag_length2 = lit_word ?m\<rparr>)) (\<lambda>buf.
      res_bind (buf_read new b ?m) (\<lambda>lit. res_bind (buf_write buf (length (ser us1) + unit2_size) lit) (\<lambda>buf.
        Inr (buf, length (ser us1) + unit2_size + ?m)))) else Inr (buf1, length (ser us1)))
      = Inr (buf2, length (ser us2))" "length buf2 = length buf" "holds buf2 (length (ser us2)) (ser us2)"
  proof (cases "0 < ?m")
    case True
    have c: "length (ser us1) + 4 + ?m \<le> length buf1" using True len cap l1 l2 l3 b1(2) by simp
    obtain bufa where a: "buf_write buf1 (length (ser us1)) (unit2_bytes \<lparr>flag_length2 = lit_word ?m\<rparr>) = Inr bufa"
      "length bufa = length buf1"
      "holds bufa (length (ser us1) + 4) (ser us1 @ unit2_bytes \<lparr>flag_length2 = lit_word ?m\<rparr>)"
      using holds_write [OF b1(3), of "unit2_bytes \<lparr>flag_length2 = lit_word ?m\<rparr>"] c
      by (auto simp: edelta_consts)
    obtain bufb where b: "buf_write bufa (length (ser us1) + 4) (bslice new b ?m) = Inr bufb"
      "length bufb = length bufa"
      "holds bufb (length (ser us1) + 4 + ?m) ((ser us1 @ unit2_bytes \<lparr>flag_length2 = lit_word ?m\<rparr>) @ bslice new b ?m)"
      using holds_write [OF a(3), of "bslice new b ?m"] c a(2) m by auto
    show ?thesis
    proof (rule that [of bufb])
      show "holds bufb (length (ser us2)) (ser us2)"
        using b(3) True m by (simp add: us2_def edelta_consts add.assoc)
    qed (use True a b b1(2) ends(3) m in \<open>auto simp: us2_def edelta_consts buf_read_def\<close>)
  qed (use b1 in \<open>auto simp: us2_def\<close>)
  obtain buf3 where b3: "(if 0 < e then
      res_bind (buf_write buf2 (length (ser us2)) (unit1_bytes \<lparr>flag_length1 = copy_word e,
        nOffset1 = word_of_nat (length base - e)\<rparr>)) (\<lambda>buf. Inr (buf, length (ser us2) + unit1_size))
      else Inr (buf2, length (ser us2))) = Inr (buf3, length (ser us3))"
    "length buf3 = length buf" "holds buf3 (length (ser us3)) (ser us3)"
  proof (cases "0 < e")
    case True
    then have c: "length (ser us2) + 8 \<le> length buf2" using len cap l3 b2(2) by simp
    show ?thesis
      using holds_write [OF b2(3), of "ser_unit (Copy (length base - e) e)"] c True b2(2) that
      by (fastforce simp: us3_def edelta_consts)
  qed (use b2 in \<open>auto simp: us3_def\<close>)
  have "encode_ends new base b e buf = Inr (buf3, length (ser us3))"
    unfolding encode_ends_def Let_def w mid by (simp only: b1(1) b2(1) b3(1) res_bind_simps prod.case)
  moreover have "delta_ok new base buf3 (length (ser us3)) us3"
    using p3 b3(3) len by (simp add: delta_ok_def)
  ultimately show ?thesis using b3(2) by blast
qed

section \<open>The encoder\<close>

text \<open>
  The encoder gets started: head and tail cover one of the two chunks, or the first test of
  the main loop has the base chunked.
\<close>

definition encode_starts :: "byte list \<Rightarrow> byte list \<Rightarrow> bool" where
  "encode_starts new base \<longleftrightarrow>
     (let (b, e) = detect_ends new base
      in length base \<le> b + e \<or> length new \<le> b + e \<or> base_due b (length new) b (length base))"

text \<open>The client's buffer, sub-chunk array and empty table are big enough for two chunks.\<close>

definition encode_room ::
    "byte list \<Rightarrow> byte list \<Rightarrow> byte list \<Rightarrow> DeltaRecord list \<Rightarrow> nat htable \<Rightarrow> bool" where
  "encode_room new base buf bl h \<longleftrightarrow> length new < 2 ^ 31 \<and> length base < 2 ^ 32 \<and>
     length new + 12 \<le> length buf \<and> length base + 600 \<le> 13 * length bl \<and>
     htable_ok h \<and> htable_entries h = {}"

lemma encode_room_sizes:
  "encode_room new base buf bl h \<Longrightarrow> detect_ends new base = (b, e) \<Longrightarrow> sizes_ok new base e"
  using detect_ends_agree [of new base b e]
  by (auto simp: encode_room_def sizes_ok_def agree_back_def)

lemma EDeltaEncode_delta:
  assumes r: "encode_room new base buf bl h" and s: "encode_starts new base"
  shows "\<exists>buf' n bl' h' us. EDeltaEncode new base buf bl h = Inr (buf', n, bl', h') \<and>
    delta_ok new base buf' n us \<and> length bl' = length bl \<and>
    htable_ok h' \<and> htable_entries h' = {}"
proof -
  obtain b e where d: "detect_ends new base = (b, e)" by fastforce
  note sz = encode_room_sizes [OF r d] and ends = detect_ends_agree [OF d]
  show ?thesis
  proof (cases "length base \<le> b + e")
    case True
    with encode_ends_ok [OF d True sz, of buf] r d show ?thesis
      by (auto simp: EDeltaEncode_def encode_room_def)
  next
    case False
    obtain st us where st: "encode_init b buf bl h = Inr st" "loop_ok (length bl) new base e st us"
      "inputPos st = b" "cursor_input st = b" "cursor_base st = b" "flag_chunk st"
      "flag_handle_probe st = None"
      using encode_init_ok [OF d _ sz, of buf bl h] False r by (auto simp: encode_room_def)
    have "probe_ready new base st" if "inputPos st < length new - e"
      using that s d st False by (auto simp: encode_starts_def probe_ready_def)
    then obtain st1 us1 where st1: "encode_loop (Suc (length new)) new base e st = Inr st1"
      "loop_ok (length bl) new base e st1 us1" "inputPos st1 = length new - e"
      using encode_loop_ok [OF st(2) sz, of "Suc (length new)"] by fastforce
    obtain st2 us2 where "encode_finish base e st1 = Inr st2"
      "delta_ok new base (deltaBuf st2) (deltaLen st2) us2" "length (BaseLink st2) = length bl"
      "htable_ok (psHTable st2)" "htable_entries (psHTable st2) = {}"
      using encode_finish_ok [OF st1(2,3) ends(2,5) sz] by auto
    with False d st(1) st1(1) show ?thesis by (auto simp: EDeltaEncode_def)
  qed
qed


text \<open>
  Otherwise the first iteration reaches the test of \<open>flag_handle_probe\<close> before anything was
  assigned to it.
\<close>

lemma EDeltaEncode_uninit:
  assumes r: "encode_room new base buf bl h" and s: "\<not> encode_starts new base"
  shows "EDeltaEncode new base buf bl h = Inl UninitRead"
proof -
  obtain b e where d: "detect_ends new base = (b, e)" by fastforce
  note sz = encode_room_sizes [OF r d]
  have ns: "b + e < length base" "b + e < length new" "\<not> base_due b (length new) b (length base)"
    using s d by (auto simp: encode_starts_def)
  obtain st where st: "encode_init b buf bl h = Inr st"
    "inputPos st = b" "cursor_input st = b" "cursor_base st = b" "flag_handle_probe st = None"
    using encode_init_ok [OF d _ sz, of buf bl h] ns r by (auto simp: encode_room_def)
  have "encode_step new base e st = Inl UninitRead"
    using st ns by (simp add: encode_step_def rechunk_def)
  moreover have "b < length new - e" using ns by simp
  ultimately show ?thesis using st ns d by (simp add: EDeltaEncode_def)
qed

text \<open>Decoding a delta gives back the input.\<close>

lemma delta_ok_decode:
  assumes d: "delta_ok new base buf n us" and new: "new \<noteq> []" and out: "length new \<le> length out"
  shows "\<exists>out'. EDeltaDecode buf n base out = Inr (out', length new) \<and> take (length new) out' = new"
proof -
  have "us \<noteq> []" using d new by (auto simp: delta_ok_def)
  then show ?thesis
    using EDeltaDecode_ser [of us base n buf out] d out by (auto simp: delta_ok_def holds_def)
qed

section \<open>The encoder keeps the size of its buffer\<close>

lemma rechunk_len:
  "rechunk new base e st = Inr st' \<Longrightarrow> length (deltaBuf st') = length (deltaBuf st)"
proof -
  have 1: "chunk_base base e n s = Inr s' \<Longrightarrow> deltaBuf s' = deltaBuf s" for n s s'
    by (auto simp: chunk_base_def Let_def res_bind_eq_Inr split: prod.splits)
  have 2: "deltaBuf (probe_input new e i s) = deltaBuf s" for i s
    by (auto simp: probe_input_def Let_def split: prod.splits)
  have 3: "base_rounds new base e k i n s = Inr s' \<Longrightarrow> deltaBuf s' = deltaBuf s" for k i n s s'
  proof (induction k arbitrary: i n s)
    case (Suc k)
    then obtain t where t: "chunk_base base e n s = Inr t"
      "(let st = probe_input new e i t in if psDupSubCnk st \<noteq> None then Inr st else if \<not> flag_chunk st then Inr st
        else base_rounds new base e k (Suc i) (n * BASE_EXPAND) st) = Inr s'" by (auto simp: res_bind_eq_Inr)
    show ?case
    proof (cases "psDupSubCnk (probe_input new e i t) \<noteq> None \<or> \<not> flag_chunk (probe_input new e i t)")
      case True
      then have "s' = probe_input new e i t" using t(2) by (simp only: Let_def if_distrib [of "\<lambda>x. x = Inr s'"]) (auto split: if_splits)
      then show ?thesis using 1 [OF t(1)] 2 by simp
    next
      case False
      then have "base_rounds new base e k (Suc i) (n * BASE_EXPAND) (probe_input new e i t) = Inr s'"
        using t(2) by (simp add: Let_def)
      from Suc.IH [OF this] show ?thesis using 1 [OF t(1)] 2 by simp
    qed
  qed simp
  show "rechunk new base e st = Inr st' \<Longrightarrow> length (deltaBuf st') = length (deltaBuf st)"
    by (auto simp: rechunk_def res_bind_eq_Inr split: if_splits dest!: 3)
qed

lemma flush_literal_len:
  "flush_literal st = Inr st' \<Longrightarrow> length (deltaBuf st') = length (deltaBuf st)"
  by (auto simp: flush_literal_def Let_def res_bind_eq_Inr split: if_splits dest!: buf_write_length)

lemma emit_literal_len:
  "emit_literal new st = Inr st' \<Longrightarrow> length (deltaBuf st') = length (deltaBuf st)"
  by (auto simp: emit_literal_def Let_def res_bind_eq_Inr split: if_splits dest!: buf_write_length)

lemma shrink_literal_len:
  "shrink_literal k st = Inr st' \<Longrightarrow> length (deltaBuf st') = length (deltaBuf st)"
  by (auto simp: shrink_literal_def Let_def res_bind_eq_Inr split: if_splits dest!: buf_write_length)

lemma emit_match_len:
  "emit_match new base e dup st = Inr st' \<Longrightarrow> length (deltaBuf st') = length (deltaBuf st)"
  by (auto simp: emit_match_def Let_def res_bind_eq_Inr dest!: buf_write_length flush_literal_len shrink_literal_len)

lemma do_match_len:
  "do_match new base e st = Inr st' \<Longrightarrow> length (deltaBuf st') = length (deltaBuf st)"
  by (auto simp: do_match_def Let_def res_bind_eq_Inr split: option.splits if_splits dest!: emit_match_len emit_literal_len)

lemma handle_probe_len:
  "handle_probe new i rs st = Inr (b, st') \<Longrightarrow> length (deltaBuf st') = length (deltaBuf st)"
proof (induction new i rs st rule: handle_probe.induct)
  case (2 new i r rs st)
  let ?st = "st\<lparr>elength := nLength r, cursor_input := nLength r + inputPos st\<rparr>"
  show ?case
  proof (cases "i = probe_match st")
    case True
    with 2(2) show ?thesis by (auto simp: Let_def)
  next
    case False
    then obtain s where s: "emit_literal new ?st = Inr s"
      "handle_probe new (Suc i) rs (s\<lparr>inputPos := cursor_input s\<rparr>) = Inr (b, st')"
      using 2(2) by (auto simp: Let_def res_bind_eq_Inr)
    with False 2(1) [OF refl _ s] emit_literal_len [OF s(1)] show ?thesis by simp
  qed
qed auto

lemma cut_and_match_len:
  "cut_and_match new base e st = Inr st' \<Longrightarrow> length (deltaBuf st') = length (deltaBuf st)"
  unfolding cut_and_match_def Let_def by (auto split: if_splits dest!: do_match_len emit_literal_len)

lemma encode_step_len:
  assumes "encode_step new base e st = Inr st'"
  shows "length (deltaBuf st') = length (deltaBuf st)"
proof -
  obtain s1 handle s2 where s: "rechunk new base e st = Inr s1" "flag_handle_probe s1 = Some handle"
    "(if handle then res_bind (handle_probe new 0 (InputLink s1) s1) (\<lambda>(found, st).
          if found then do_match new base e st else cut_and_match new base e st)
      else cut_and_match new base e s1) = Inr s2" "st' = s2\<lparr>inputPos := cursor_input s2\<rparr>"
    using assms by (auto simp: encode_step_def res_bind_eq_Inr split: option.splits)
  have "length (deltaBuf s2) = length (deltaBuf s1)"
  proof (cases handle)
    case True
    then obtain found s where "handle_probe new 0 (InputLink s1) s1 = Inr (found, s)"
      "(if found then do_match new base e s else cut_and_match new base e s) = Inr s2"
      using s(3) by (auto simp: res_bind_eq_Inr)
    then show ?thesis
      by (cases found) (simp_all add: handle_probe_len do_match_len cut_and_match_len)
  qed (use s(3) in \<open>simp add: cut_and_match_len\<close>)
  then show ?thesis using s(4) rechunk_len [OF s(1)] by simp
qed

lemma encode_loop_len:
  "encode_loop n new base e st = Inr st' \<Longrightarrow> length (deltaBuf st') = length (deltaBuf st)"
proof (induction n arbitrary: st)
  case (Suc n)
  show ?case
  proof (cases "inputPos st < length new - e")
    case True
    then obtain s where s: "encode_step new base e st = Inr s" "encode_loop n new base e s = Inr st'"
      using Suc.prems by (auto simp: res_bind_eq_Inr)
    show ?thesis using Suc.IH [OF s(2)] encode_step_len [OF s(1)] by simp
  qed (use Suc.prems in auto)
qed simp

lemma encode_init_len: "encode_init b buf bl h = Inr st \<Longrightarrow> length (deltaBuf st) = length buf"
  by (auto simp: encode_init_def Let_def res_bind_eq_Inr split: if_splits dest!: buf_write_length)

lemma encode_finish_len:
  assumes "encode_finish base e st = Inr st'"
  shows "length (deltaBuf st') = length (deltaBuf st)"
proof -
  obtain s1 where s: "flush_literal st = Inr s1" "length (deltaBuf st') = length (deltaBuf s1)"
    using assms by (auto simp: encode_finish_def Let_def res_bind_eq_Inr split: if_splits dest!: buf_write_length)
  then show ?thesis using flush_literal_len [OF s(1)] by simp
qed

lemma encode_ends_len:
  "encode_ends new base b e buf = Inr (buf', n) \<Longrightarrow> length buf' = length buf"
  by (auto simp: encode_ends_def Let_def res_bind_eq_Inr split: if_splits dest!: buf_write_length)

lemma EDeltaEncode_len:
  assumes "EDeltaEncode new base buf bl h = Inr (buf', n, bl', h')"
  shows "length buf' = length buf"
proof -
  obtain b e where d: "detect_ends new base = (b, e)" by fastforce
  show ?thesis
  proof (cases "length base \<le> b + e")
    case True
    then have "encode_ends new base b e buf = Inr (buf', n)"
      using assms d by (auto simp: EDeltaEncode_def res_bind_eq_Inr)
    then show ?thesis by (rule encode_ends_len)
  next
    case False
    then obtain s1 s2 s3 where s: "encode_init b buf bl h = Inr s1" "encode_loop (Suc (length new)) new base e s1 = Inr s2"
      "encode_finish base e s2 = Inr s3" "buf' = deltaBuf s3"
      using assms d by (auto simp: EDeltaEncode_def res_bind_eq_Inr simp del: encode_loop.simps)
    then show ?thesis using encode_init_len [OF s(1)] encode_loop_len [OF s(2)] encode_finish_len [OF s(3)] by simp
  qed
qed

end
