(* ===== verification/Edelta_Props.thy ===== *)
theory Edelta_Props imports Edelta_Correct begin

text \<open>
  The properties of the delta compressor as a whole, and the evaluation of its definitions on
  two small pairs of chunks: one that is encoded, and one on which the encoder reads an
  uninitialised variable.
\<close>

section \<open>Two small inputs\<close>


lemma f32_div_0 [simp]: "f32_div 0 b = (0, 0)"
  by (simp add: f32_div_def f32_shift.simps [of 0])


lemma detect_uninit:
  "detect_ends (replicate 40 0) (replicate 17 0 @ [1]) = (17, 0)"
proof -
  have t: "tail_words (replicate 17 0 @ [1]) (replicate 40 0) 0 = 0"
  proof -
    have "bslice (replicate 17 0 @ [1]) 10 8 \<noteq> bslice (replicate 40 (0 :: byte)) 32 8"
      by (simp add: bslice_def eval_nat_numeral)
    then show ?thesis
      by (subst tail_words.simps) (simp add: get64_inject bslice_length)
  qed
  have b: "tail_bytes (replicate 17 0 @ [1]) (replicate 40 0) 0 = 0"
    by (subst tail_bytes.simps) (simp add: nth_append)
  have w: "ext_words (replicate 17 0 @ [1]) 0 18 (replicate 40 0) 0 40 0 = 16"
    by (simp add: ext_words.simps bslice_def)
  have "ext_bytes (replicate 17 0 @ [1]) 0 18 (replicate 40 0) 0 40 16 = 17"
    by (simp add: ext_bytes.simps nth_append)
  with t b w show ?thesis by (simp add: detect_ends_def Let_def)
qed

lemma starts_small: "encode_starts [1, 2, 3] [1, 2, 4]"
  by (simp add: encode_starts_def detect_ends_def ext_words.simps ext_bytes.simps tail_words.simps tail_bytes.simps base_due_def Let_def)

lemma f32_div_17_40: "f32_div 17 40 = (14260634, 25)"
  by (simp add: f32_div_def f32_shift.simps)
lemma f32_div_17_18: "f32_div 17 18 = (15845148, 24)"
  by (simp add: f32_div_def f32_shift.simps)
lemma not_starts_small: "\<not> encode_starts (replicate 40 0) (replicate 17 0 @ [1])"
  by (simp add: encode_starts_def detect_uninit base_due_def f32_div_17_40 f32_div_17_18)

abbreviation small_links :: "DeltaRecord list" where
  "small_links \<equiv> replicate 100 \<lparr>nHash = 0, nOffset = 0, nLength = 0, DupFlag = 0\<rparr>"

lemma room_small:
  "encode_room [1, 2, 3] [1, 2, 4] (replicate 15 0) small_links (htable_new 24 1)"
  "encode_room (replicate 40 0) (replicate 17 0 @ [1]) (replicate 52 0) small_links (htable_new 24 1)"
  by (simp_all add: encode_room_def htable_new_def htable_init_ok)

section \<open>Properties\<close>

text \<open>
  C1: Round trip.  With buffers of the sizes the clients allocate, the delta that
  \<open>EDeltaEncode\<close> writes for a non-empty chunk is decoded by \<open>EDeltaDecode\<close>, over the same
  base, to the chunk, and the encoder leaves the sub-chunk array and an empty hash table for
  the next call.
\<close>

theorem EDelta_roundtrip:
  assumes "encode_room new base buf bl h" "encode_starts new base" "new \<noteq> []"
    "length new \<le> length out"
  shows "\<exists>delta n bl' h' out'. EDeltaEncode new base buf bl h = Inr (delta, n, bl', h') \<and>
    EDeltaDecode delta n base out = Inr (out', length new) \<and> take (length new) out' = new \<and>
    length bl' = length bl \<and> htable_ok h' \<and> htable_entries h' = {}"
proof -
  obtain delta n bl' h' us where "EDeltaEncode new base buf bl h = Inr (delta, n, bl', h')"
    "delta_ok new base delta n us" "length bl' = length bl" "htable_ok h'" "htable_entries h' = {}"
    using EDeltaEncode_delta [OF assms(1,2)] by blast
  with delta_ok_decode [OF _ assms(3,4)] show ?thesis by blast
qed

theorem EDelta_roundtrip_witness:
  "\<exists>delta n bl' h' out'.
    EDeltaEncode [1, 2, 3] [1, 2, 4] (replicate 15 0)
      small_links (htable_new 24 1) = Inr (delta, n, bl', h') \<and>
    EDeltaDecode delta n [1, 2, 4] [0, 0, 0, 0] = Inr (out', 3) \<and> take 3 out' = [1, 2, 3] \<and>
    length bl' = 100 \<and> htable_ok h' \<and> htable_entries h' = {}"
  using EDelta_roundtrip [OF room_small(1) starts_small, of "[0, 0, 0, 0]"]
  by (simp add: numeral_3_eq_3)

text \<open>
  C2: A delta is at most 12 bytes longer than the chunk, so the encoder never leaves an output
  buffer of that size.
\<close>

theorem EDelta_size:
  assumes "encode_room new base buf bl h"
    "EDeltaEncode new base buf bl h = Inr (delta, n, bl', h')"
  shows "n \<le> length new + 12"
proof (cases "encode_starts new base")
  case True
  with EDeltaEncode_delta [OF assms(1) True] assms(2) show ?thesis by (auto simp: delta_ok_def)
next
  case False
  with EDeltaEncode_uninit [OF assms(1) False] assms(2) show ?thesis by simp
qed

theorem EDelta_size_witness:
  "\<exists>delta n bl' h'. EDeltaEncode [1, 2, 3] [1, 2, 4] (replicate 15 0) small_links (htable_new 24 1)
      = Inr (delta, n, bl', h') \<and> n \<le> 15"
proof -
  obtain delta n bl' h' where e: "EDeltaEncode [1, 2, 3] [1, 2, 4] (replicate 15 0) small_links
      (htable_new 24 1) = Inr (delta, n, bl', h')"
    using EDeltaEncode_delta [OF room_small(1) starts_small] by blast
  with EDelta_size [OF room_small(1) e] show ?thesis by auto
qed



end
