(* ===== verification/Types.thy ===== *)
theory Types imports Prelude begin

text \<open>
  Constants (\<open>include/constVar.h\<close>) and the record structures that the components exchange
  (\<open>include/chunkStructure.h\<close>).  A fixed-size byte array is a byte list whose length is part
  of the structure's well-formedness; a structure that is copied as raw memory has its layout
  as a function to bytes (all layouts here are free of padding).
\<close>

section \<open>Constants\<close>

definition CRYPTO_BLOCK_SIZE :: nat where "CRYPTO_BLOCK_SIZE = 16"
definition CHUNK_HASH_SIZE :: nat where "CHUNK_HASH_SIZE = 32"
definition MAX_CHUNK_SIZE :: nat where "MAX_CHUNK_SIZE = 16384"
definition AVG_CHUNK_SIZE :: nat where "AVG_CHUNK_SIZE = 8192"
definition AVG_SEGMENT_SIZE :: nat where "AVG_SEGMENT_SIZE = 1024 * 1024 * 10"
definition MIN_SEGMENT_SIZE :: nat where "MIN_SEGMENT_SIZE = AVG_SEGMENT_SIZE div 2"
definition MAX_SEGMENT_SIZE :: nat where "MAX_SEGMENT_SIZE = AVG_SEGMENT_SIZE * 2"
definition DIVISOR :: nat where
  "DIVISOR = (AVG_SEGMENT_SIZE - MIN_SEGMENT_SIZE) div AVG_CHUNK_SIZE"
definition PATTERN :: nat where "PATTERN = 1"
definition MAX_CONTAINER_SIZE :: nat where "MAX_CONTAINER_SIZE = 2 ^ 22"
definition CONTAINER_ID_LENGTH :: nat where "CONTAINER_ID_LENGTH = 7"
definition CONTAINER_CAPPING_VALUE :: nat where "CONTAINER_CAPPING_VALUE = 16"

lemmas size_consts = CRYPTO_BLOCK_SIZE_def CHUNK_HASH_SIZE_def MAX_CHUNK_SIZE_def
  AVG_CHUNK_SIZE_def AVG_SEGMENT_SIZE_def MIN_SEGMENT_SIZE_def MAX_SEGMENT_SIZE_def
  DIVISOR_def PATTERN_def MAX_CONTAINER_SIZE_def CONTAINER_ID_LENGTH_def

text \<open>The enumerations \<open>TWO_PATH_STATUS\<close> and \<open>DELTA_STATUS\<close>, stored in byte fields.\<close>

definition UNIQUE :: byte where "UNIQUE = 0"
definition TMP_UNIQUE :: byte where "TMP_UNIQUE = 1"
definition DUPLICATE :: byte where "DUPLICATE = 2"
definition TMP_DUPLICATE :: byte where "TMP_DUPLICATE = 3"

definition NO_DELTA :: byte where "NO_DELTA = 0"
definition DELTA :: byte where "DELTA = 1"
definition DELAY_DELTA :: byte where "DELAY_DELTA = 2"
definition OUT_DELTA :: byte where "OUT_DELTA = 3"

lemmas status_defs = UNIQUE_def TMP_UNIQUE_def DUPLICATE_def TMP_DUPLICATE_def
lemmas delta_defs = NO_DELTA_def DELTA_def DELAY_DELTA_def OUT_DELTA_def

section \<open>Recipe entries\<close>

record RecipeEntry_t =
  containerName :: "byte list"
  re_deltaFlag :: byte
  re_offset :: u32
  re_length :: u32
  basechunkHash :: "byte list"
  superfeature :: "byte list"

definition sizeof_RecipeEntry :: nat where "sizeof_RecipeEntry = 144"

definition recipe_wf :: "RecipeEntry_t \<Rightarrow> bool" where
  "recipe_wf r \<longleftrightarrow> length (containerName r) = CONTAINER_ID_LENGTH \<and>
     length (basechunkHash r) = CHUNK_HASH_SIZE \<and> length (superfeature r) = 3 * CHUNK_HASH_SIZE"

definition recipe_bytes :: "RecipeEntry_t \<Rightarrow> byte list" where
  "recipe_bytes r = containerName r @ [re_deltaFlag r] @ le32 (re_offset r) @ le32 (re_length r)
     @ basechunkHash r @ superfeature r"

definition bytes_recipe :: "byte list \<Rightarrow> RecipeEntry_t" where
  "bytes_recipe bs =
     \<lparr>containerName = bslice bs 0 7, re_deltaFlag = bs ! 7, re_offset = get32 (bslice bs 8 4),
      re_length = get32 (bslice bs 12 4), basechunkHash = bslice bs 16 32,
      superfeature = bslice bs 48 96\<rparr>"

lemma recipe_bytes_length [simp, len_simps]:
  "recipe_wf r \<Longrightarrow> length (recipe_bytes r) = sizeof_RecipeEntry"
  by (simp add: recipe_wf_def recipe_bytes_def sizeof_RecipeEntry_def size_consts)

lemma bytes_recipe_bytes [simp]: "recipe_wf r \<Longrightarrow> bytes_recipe (recipe_bytes r) = r"
  by (simp add: recipe_wf_def recipe_bytes_def bytes_recipe_def bslice_def nth_append size_consts)

lemma recipe_bytes_recipe:
  assumes "length bs = sizeof_RecipeEntry"
  shows "recipe_bytes (bytes_recipe bs) = bs" and "recipe_wf (bytes_recipe bs)"
proof -
  have s: "bslice bs a n @ bslice bs (a + n) m = bslice bs a (n + m)" for a n m
    by (rule bslice_append)
  have b7: "[bs ! 7] = bslice bs 7 1"
    using assms by (simp add: bslice_def sizeof_RecipeEntry_def take_Suc_conv_app_nth)
  have l: "le32 (get32 (bslice bs a 4)) = bslice bs a 4" if "a + 4 \<le> 144" for a
    using that assms by (intro le32_get32 bslice_length) (simp add: sizeof_RecipeEntry_def)
  have "recipe_bytes (bytes_recipe bs) = bslice bs 0 7 @ bslice bs 7 1 @ bslice bs 8 4 @
      bslice bs 12 4 @ bslice bs 16 32 @ bslice bs 48 96"
    by (simp add: recipe_bytes_def bytes_recipe_def b7 l)
  also have "\<dots> = bslice bs 0 144"
    using s [of 48 0 96] s [of 16 32 96] s [of 12 4 128] s [of 8 4 132] s [of 7 1 136] s [of 0 7 137]
    by simp
  finally show "recipe_bytes (bytes_recipe bs) = bs"
    using assms by (simp add: bslice_full sizeof_RecipeEntry_def)
  show "recipe_wf (bytes_recipe bs)"
    using assms by (simp add: recipe_wf_def bytes_recipe_def bslice_length size_consts sizeof_RecipeEntry_def)
qed

section \<open>Containers\<close>

record Container_t =
  containerID :: "byte list"
  ct_deltaFlag :: bool
  ct_body :: "byte list"
  currentSize :: nat

text \<open>The container under construction inside the enclave.\<close>

record InContainer =
  ic_buf :: "byte list"
  curSize :: nat

end
