(* ===== verification/Uuid.thy ===== *)
theory Uuid imports Types begin

text \<open>
  Container names: \<open>tool::CreateUUID\<close> of \<open>include/define.h\<close> counts a seven-digit base-36
  counter up from zero \<open>times\<close> (here \<open>n\<close>) times and prints it, most significant digit first.  The names
  of two different counter values below \<open>36 ^ 7\<close> differ.
\<close>

definition ALPHABET :: "byte list" where
  "ALPHABET = map word_of_nat ([48..<58] @ [97..<123])"

text \<open>
  The carry loop \<open>for (i = 0; i < idLen; i++)\<close>; the carry out of the last digit would write
  one past the array.
\<close>

fun carry :: "nat list \<Rightarrow> nat \<Rightarrow> nat \<Rightarrow> nat list res" where
  "carry ds i 0 = Inr ds"
| "carry ds i (Suc k) =
     (if ds ! i = 36 then
        (if Suc i < length ds then carry (ds[Suc i := Suc (ds ! Suc i), i := 0]) (Suc i) k
         else Inl OutOfBounds)
      else carry ds (Suc i) k)"

definition count_up :: "nat list \<Rightarrow> nat list res" where
  "count_up ds =
     (let ds = ds[0 := Suc (ds ! 0)]
      in if ds ! 0 = 36 then carry ds 0 (length ds) else Inr ds)"

fun count_times :: "nat \<Rightarrow> nat list \<Rightarrow> nat list res" where
  "count_times 0 ds = Inr ds"
| "count_times (Suc t) ds = res_bind (count_up ds) (count_times t)"

definition CreateUUID :: "nat \<Rightarrow> nat \<Rightarrow> byte list res" where
  "CreateUUID idLen n =
     res_bind (count_times n (replicate idLen 0)) (\<lambda>ds.
       Inr (map (\<lambda>i. ALPHABET ! (ds ! (idLen - 1 - i))) [0..<idLen]))"

section \<open>The counter\<close>

text \<open>The value of the digits, least significant first.\<close>

fun digits_val :: "nat list \<Rightarrow> nat" where
  "digits_val [] = 0"
| "digits_val (d # ds) = d + 36 * digits_val ds"

definition digits_ok :: "nat list \<Rightarrow> bool" where
  "digits_ok ds \<longleftrightarrow> (\<forall>d \<in> set ds. d < 36)"

lemma digits_val_less: "digits_ok ds \<Longrightarrow> digits_val ds < 36 ^ length ds"
proof (induction ds)
  case Nil
  then show ?case by simp
next
  case (Cons d ds)
  then have "d < 36" "digits_val ds < 36 ^ length ds" by (auto simp: digits_ok_def)
  then show ?case by simp
qed

lemma digits_val_inj:
  "digits_ok ds \<Longrightarrow> digits_ok es \<Longrightarrow> length ds = length es \<Longrightarrow> digits_val ds = digits_val es \<Longrightarrow> ds = es"
proof (induction ds arbitrary: es)
  case Nil
  then show ?case by simp
next
  case (Cons d ds)
  then obtain e es' where es: "es = e # es'" by (cases es) auto
  have lt: "d < 36" "e < 36" using Cons.prems es by (auto simp: digits_ok_def)
  have eq: "d + 36 * digits_val ds = e + 36 * digits_val es'" using Cons.prems es by simp
  then have "(d + 36 * digits_val ds) mod 36 = (e + 36 * digits_val es') mod 36" by simp
  then have "d = e" using lt by simp
  with eq Cons es show ?case by (simp add: digits_ok_def)
qed

lemma digits_val_append: "digits_val (ds @ es) = digits_val ds + 36 ^ length ds * digits_val es"
  by (induction ds) (auto simp: algebra_simps)

text \<open>
  The carry loop from digit \<open>i\<close> on: all digits below \<open>i\<close> and above \<open>i\<close> are digits, the digit
  at \<open>i\<close> may be 36.
\<close>

lemma carry_ok:
  assumes "i + k = length ds" "0 < k" "\<forall>j < length ds. j \<noteq> i \<longrightarrow> ds ! j < 36" "ds ! i \<le> 36"
  shows "(\<exists>ds'. carry ds i k = Inr ds' \<and> digits_ok ds' \<and> length ds' = length ds \<and>
      digits_val ds' = digits_val ds) \<or>
    carry ds i k = Inl OutOfBounds \<and> 36 ^ length ds \<le> digits_val ds"
  using assms
proof (induction ds i k rule: carry.induct)
  case (1 ds i)
  then show ?case by simp
next
  case (2 ds i k)
  have i: "i < length ds" using "2.prems"(1) by simp
  show ?case
  proof (cases "ds ! i = 36")
    case False
    then have d: "\<forall>j < length ds. ds ! j < 36"
      using "2.prems"(3,4) by (metis le_neq_implies_less)
    then have ok: "digits_ok ds" by (auto simp: digits_ok_def in_set_conv_nth)
    show ?thesis
    proof (cases "k = 0")
      case True
      with False ok show ?thesis by simp
    next
      case nz: False
      have "ds ! Suc i \<le> 36" "0 < k" using d nz "2.prems"(1) by (auto simp: less_imp_le)
      with "2.IH"(2) [OF False] "2.prems" d False show ?thesis by simp
    qed
  next
    case True
    have split: "ds = take i ds @ ds ! i # drop (Suc i) ds"
      using i by (rule id_take_nth_drop)
    show ?thesis
    proof (cases "Suc i < length ds")
      case False
      then have "digits_val ds = digits_val (take i ds @ [36])"
        using split True by simp
      moreover have "length ds = Suc i" using False i by simp
      ultimately have "36 ^ length ds \<le> digits_val ds"
        by (simp add: digits_val_append)
      with True False show ?thesis by simp
    next
      case s: True
      let ?ds = "ds[Suc i := Suc (ds ! Suc i), i := 0]"
      have split2: "ds = take i ds @ 36 # ds ! Suc i # drop (Suc (Suc i)) ds"
        using split True Cons_nth_drop_Suc [OF s] by simp
      have "?ds = take i ds @ 0 # Suc (ds ! Suc i) # drop (Suc (Suc i)) ds"
        by (subst (1 2) split2) (use i in \<open>simp add: list_update_append\<close>)
      then have v: "digits_val ?ds = digits_val ds"
        by (subst (3) split2) (simp add: digits_val_append)
      have "\<forall>j < length ?ds. j \<noteq> Suc i \<longrightarrow> ?ds ! j < 36"
      proof (intro allI impI)
        fix j assume j: "j < length ?ds" "j \<noteq> Suc i"
        then show "?ds ! j < 36"
          using "2.prems"(3) by (cases "j = i") (auto simp: nth_list_update_neq)
      qed
      moreover have "?ds ! Suc i \<le> 36"
        using "2.prems"(3) s by (auto simp: Suc_le_eq)
      moreover have "0 < k" using s "2.prems"(1) by auto
      ultimately show ?thesis
        using "2.IH"(1) [OF True s] "2.prems"(1) True s v by simp
    qed
  qed
qed

lemma count_up_ok:
  assumes "digits_ok ds" "ds \<noteq> []"
  shows "if Suc (digits_val ds) < 36 ^ length ds
    then \<exists>ds'. count_up ds = Inr ds' \<and> digits_ok ds' \<and> length ds' = length ds \<and>
      digits_val ds' = Suc (digits_val ds)
    else count_up ds = Inl OutOfBounds"
proof -
  obtain d es where ds: "ds = d # es" using assms(2) by (cases ds) auto
  have d: "d < 36" "\<forall>x \<in> set es. x < 36" using assms(1) ds by (auto simp: digits_ok_def)
  show ?thesis
  proof (cases "Suc d = 36")
    case True
    have "(\<exists>ds'. carry (Suc d # es) 0 (length ds) = Inr ds' \<and> digits_ok ds' \<and>
        length ds' = length (Suc d # es) \<and> digits_val ds' = digits_val (Suc d # es)) \<or>
      carry (Suc d # es) 0 (length ds) = Inl OutOfBounds \<and> 36 ^ length (Suc d # es) \<le> digits_val (Suc d # es)"
    proof (rule carry_ok)
      show "\<forall>j < length (Suc d # es). j \<noteq> 0 \<longrightarrow> (Suc d # es) ! j < 36"
        using d(2) by (auto simp: nth_Cons split: nat.splits)
    qed (use ds True in auto)
    moreover have up: "count_up ds = carry (Suc d # es) 0 (length ds)"
      using True ds by (simp add: count_up_def Let_def)
    moreover have v: "digits_val (Suc d # es) = Suc (digits_val ds)" "length (Suc d # es) = length ds"
      using ds by simp_all
    ultimately consider ds' where "count_up ds = Inr ds'" "digits_ok ds'" "length ds' = length ds"
        "digits_val ds' = Suc (digits_val ds)"
      | "count_up ds = Inl OutOfBounds" "36 ^ length ds \<le> Suc (digits_val ds)"
      unfolding up v by blast
    then show ?thesis
    proof cases
      case 1
      then have "Suc (digits_val ds) < 36 ^ length ds" using digits_val_less by metis
      with 1 show ?thesis by simp
    next
      case 2
      then show ?thesis by simp
    qed
  next
    case False
    then have u: "count_up ds = Inr (Suc d # es)" "digits_ok (Suc d # es)"
      using d ds by (auto simp: count_up_def digits_ok_def Let_def)
    moreover have "Suc (digits_val ds) < 36 ^ length ds"
      using digits_val_less [OF u(2)] ds by simp
    moreover have "digits_val (Suc d # es) = Suc (digits_val ds)" "length (Suc d # es) = length ds"
      using ds by simp_all
    ultimately show ?thesis by auto
  qed
qed

lemma count_times_ok:
  assumes "digits_ok ds" "ds \<noteq> []"
  shows "if digits_val ds + t < 36 ^ length ds
    then \<exists>ds'. count_times t ds = Inr ds' \<and> digits_ok ds' \<and> length ds' = length ds \<and>
      digits_val ds' = digits_val ds + t
    else count_times t ds = Inl OutOfBounds"
  using assms
proof (induction t arbitrary: ds)
  case 0
  then show ?case using digits_val_less [of ds] by simp
next
  case (Suc t)
  show ?case
  proof (cases "Suc (digits_val ds) < 36 ^ length ds")
    case True
    then obtain ds1 where ds1: "count_up ds = Inr ds1" "digits_ok ds1" "length ds1 = length ds"
      "digits_val ds1 = Suc (digits_val ds)"
      using count_up_ok [OF Suc.prems] by auto
    then have "ds1 \<noteq> []" using Suc.prems(2) by auto
    from Suc.IH [OF ds1(2) this] show ?thesis
      unfolding ds1(3,4) count_times.simps ds1(1) res_bind_simps add_Suc add_Suc_right .
  next
    case False
    with count_up_ok [OF Suc.prems] show ?thesis by simp
  qed
qed

lemma ALPHABET_nth: "length ALPHABET = 36" "distinct ALPHABET"
  by (simp_all add: ALPHABET_def upt_rec)

definition uuid_digits :: "nat \<Rightarrow> nat \<Rightarrow> byte list \<Rightarrow> nat list \<Rightarrow> bool" where
  "uuid_digits n t name ds \<longleftrightarrow> CreateUUID n t = Inr name \<and> digits_ok ds \<and> length ds = n \<and>
     digits_val ds = t \<and> name = rev (map ((!) ALPHABET) ds)"

lemma digits_val_zero: "digits_val (replicate m 0) = 0"
  by (induction m) auto

lemma CreateUUID_digits:
  assumes "0 < n" "t < 36 ^ n"
  shows "\<exists>name ds. uuid_digits n t name ds"
proof -
  note z = digits_val_zero
  obtain ds where ds: "count_times t (replicate n 0) = Inr ds" "digits_ok ds" "length ds = n"
    "digits_val ds = t"
  proof -
    have "digits_ok (replicate n 0)" "replicate n (0 :: nat) \<noteq> []"
      using assms by (auto simp: digits_ok_def)
    then show ?thesis
      using count_times_ok [of "replicate n 0" t] that assms(2)
      by (auto simp only: z length_replicate add_0 if_True)
  qed
  have "map (\<lambda>i. ALPHABET ! (ds ! (n - 1 - i))) [0..<n] = rev (map ((!) ALPHABET) ds)"
  proof (rule nth_equalityI)
    fix i assume "i < length (map (\<lambda>i. ALPHABET ! (ds ! (n - 1 - i))) [0..<n])"
    then show "map (\<lambda>i. ALPHABET ! (ds ! (n - 1 - i))) [0..<n] ! i = rev (map ((!) ALPHABET) ds) ! i"
      using ds(3) by (simp add: rev_nth)
  qed (simp add: ds(3))
  then have "CreateUUID n t = Inr (rev (map ((!) ALPHABET) ds))"
    by (simp add: CreateUUID_def ds(1))
  with ds(2-4) have "uuid_digits n t (rev (map ((!) ALPHABET) ds)) ds"
    unfolding uuid_digits_def by blast
  then show ?thesis by blast
qed

text \<open>The counter runs out after \<open>36 ^ n\<close> names, by a write past the digit array.\<close>

lemma CreateUUID_Inr:
  assumes "0 < n"
  shows "(\<exists>name. CreateUUID n t = Inr name) \<longleftrightarrow> t < 36 ^ n"
proof
  assume "\<exists>name. CreateUUID n t = Inr name"
  then obtain ds where c: "count_times t (replicate n 0) = Inr ds"
    by (auto simp: CreateUUID_def res_bind_eq_Inr)
  have d: "digits_ok (replicate n 0)" "replicate n (0 :: nat) \<noteq> []"
    using assms by (auto simp: digits_ok_def)
  show "t < 36 ^ n"
  proof (rule ccontr)
    assume "\<not> t < 36 ^ n"
    with count_times_ok [OF d, of t] have "count_times t (replicate n 0) = Inl OutOfBounds"
      by (simp only: length_replicate digits_val_zero add_0 if_False)
    with c show False by simp
  qed
next
  assume "t < 36 ^ n"
  then show "\<exists>name. CreateUUID n t = Inr name"
    using CreateUUID_digits [OF assms] unfolding uuid_digits_def by blast
qed

lemma CreateUUID_inj:
  assumes "0 < n" "CreateUUID n s = Inr name" "CreateUUID n t = Inr name"
  shows "s = t"
proof -
  have "s < 36 ^ n" "t < 36 ^ n" using CreateUUID_Inr [OF assms(1)] assms(2,3) by blast+
  then obtain a ds b es where a: "uuid_digits n s a ds" and b: "uuid_digits n t b es"
    using CreateUUID_digits [OF assms(1)] by meson
  have "map ((!) ALPHABET) ds = map ((!) ALPHABET) es"
    using a b assms(2,3) by (auto simp: uuid_digits_def)
  moreover have "inj_on ((!) ALPHABET) (set ds \<union> set es)"
  proof (rule inj_on_nth [OF ALPHABET_nth(2)])
    show "\<forall>i \<in> set ds \<union> set es. i < length ALPHABET"
      using a b unfolding ALPHABET_nth(1) uuid_digits_def digits_ok_def by blast
  qed
  ultimately have "ds = es" by (rule map_inj_on)
  with a b show ?thesis unfolding uuid_digits_def by blast
qed

lemma CreateUUID_length: "CreateUUID n t = Inr name \<Longrightarrow> length name = n"
  by (auto simp: CreateUUID_def res_bind_eq_Inr)

end
