(* ===== verification/Storage.thy ===== *)
theory Storage imports Uuid begin

text \<open>
  Container storage: the enclave's storage core (\<open>ecallStore/ecallStorage.cc\<close>), the OCALLs
  that hand a full container out (\<open>ocallSrc/storeOCall.cc\<close>) and the thread that writes it to
  disk (\<open>Server/dataWriter.cc\<close>).

  Base chunks and delta chunks go to two streams.  A stream is the container under
  construction inside the enclave and the container structure outside it.  The queue between
  the enclave and the writer thread is a list, the disk a map from (delta flag, container
  name) to file contents.
\<close>

section \<open>State\<close>

record stream =
  inCon :: InContainer
  outCon :: Container_t

record store =
  base_stream :: stream
  delta_stream :: stream
  inputMQ :: "Container_t list"
  disk :: "bool \<times> byte list \<Rightarrow> byte list option"
  con_times :: nat
  st_iv :: "byte list"
  writtenDataSize :: nat
  writtenChunkNum :: nat

section \<open>Operations\<close>

text \<open>
  \<open>Ocall_WriteContainer\<close> and \<open>Ocall_WriteDeltaContainer\<close>: queue the container, give the
  structure a new name.
\<close>

definition write_container :: "bool \<Rightarrow> Container_t \<Rightarrow> store \<Rightarrow> (Container_t \<times> store) res" where
  "write_container flag c st =
     (let c = c\<lparr>ct_deltaFlag := flag\<rparr>;
          st = st\<lparr>inputMQ := inputMQ st @ [c]\<rparr>
      in res_bind (CreateUUID CONTAINER_ID_LENGTH (con_times st)) (\<lambda>name.
           Inr (c\<lparr>containerID := name, currentSize := 0\<rparr>, st\<lparr>con_times := Suc (con_times st)\<rparr>)))"

text \<open>Move the finished container out and start an empty one.\<close>

definition flush_stream :: "bool \<Rightarrow> stream \<Rightarrow> store \<Rightarrow> (stream \<times> store) res" where
  "flush_stream flag s st =
     res_bind (buf_read (ic_buf (inCon s)) 0 (curSize (inCon s))) (\<lambda>content.
     res_bind (buf_write (ct_body (outCon s)) 0 content) (\<lambda>body.
     res_bind (write_container flag
         ((outCon s)\<lparr>ct_body := body, currentSize := curSize (inCon s)\<rparr>) st)
       (\<lambda>(out, st). Inr (s\<lparr>inCon := (inCon s)\<lparr>curSize := 0\<rparr>, outCon := out\<rparr>, st))))"

text \<open>The sequence of \<open>memcpy (buf + writeOffset, piece)\<close>, \<open>writeOffset += size\<close>.\<close>

fun copy_pieces :: "byte list \<Rightarrow> nat \<Rightarrow> byte list list \<Rightarrow> byte list res" where
  "copy_pieces buf off [] = Inr buf"
| "copy_pieces buf off (p # ps) =
     res_bind (buf_write buf off p) (\<lambda>buf. copy_pieces buf (off + length p) ps)"

text \<open>
  The test whether a chunk still fits; the sum of the 32-bit terms wraps before the 64-bit
  \<open>sizeof\<close> is added.
\<close>

definition record_fits :: "nat \<Rightarrow> nat \<Rightarrow> bool" where
  "record_fits chunkSize saveOffset \<longleftrightarrow>
     (CRYPTO_BLOCK_SIZE + chunkSize + saveOffset + 4 * CHUNK_HASH_SIZE) mod 2 ^ 32
       + sizeof_RecipeEntry < MAX_CONTAINER_SIZE"

text \<open>The record of a chunk at \<open>saveOffset\<close>: recipe, fingerprint, features, content and iv.\<close>

definition put_record ::
    "byte list \<Rightarrow> RecipeEntry_t \<Rightarrow> byte list \<Rightarrow> byte list \<Rightarrow> byte list \<Rightarrow> stream
      \<Rightarrow> (RecipeEntry_t \<times> stream) res" where
  "put_record chunkData addr sf fp iv s =
     (let saveOffset = curSize (inCon s);
          addr = addr\<lparr>re_offset := word_of_nat saveOffset, containerName := containerID (outCon s)\<rparr>
      in res_bind (copy_pieces (ic_buf (inCon s)) saveOffset [recipe_bytes addr, fp, sf, chunkData, iv])
          (\<lambda>buf. Inr (addr, s\<lparr>inCon := \<lparr>ic_buf = buf, curSize = saveOffset + length chunkData
             + CRYPTO_BLOCK_SIZE + 4 * CHUNK_HASH_SIZE + sizeof_RecipeEntry\<rparr>\<rparr>)))"

definition save_record ::
    "bool \<Rightarrow> byte list \<Rightarrow> RecipeEntry_t \<Rightarrow> byte list \<Rightarrow> byte list \<Rightarrow> stream \<Rightarrow> store
      \<Rightarrow> (RecipeEntry_t \<times> stream \<times> store) res" where
  "save_record flag chunkData addr sf fp s st =
     res_bind
       (if record_fits (length chunkData) (curSize (inCon s)) then Inr (s, st)
        else flush_stream flag s st)
       (\<lambda>(s, st). res_bind (put_record chunkData addr sf fp (st_iv st) s) (\<lambda>(addr, s).
          Inr (addr, s, st\<lparr>writtenDataSize := writtenDataSize st + length chunkData,
                           writtenChunkNum := Suc (writtenChunkNum st)\<rparr>)))"

definition SavebaseChunk ::
    "byte list \<Rightarrow> RecipeEntry_t \<Rightarrow> byte list \<Rightarrow> byte list \<Rightarrow> store \<Rightarrow> (RecipeEntry_t \<times> store) res" where
  "SavebaseChunk chunkData chunkAddr chunksf chunkfp st =
     res_bind (save_record False chunkData
         (chunkAddr\<lparr>re_length := word_of_nat (length chunkData), superfeature := chunksf\<rparr>)
         chunksf chunkfp (base_stream st) st)
       (\<lambda>(addr, s, st). Inr (addr, st\<lparr>base_stream := s\<rparr>))"

definition SavedeltaChunk ::
    "byte list \<Rightarrow> RecipeEntry_t \<Rightarrow> byte list \<Rightarrow> byte list \<Rightarrow> store \<Rightarrow> (RecipeEntry_t \<times> store) res" where
  "SavedeltaChunk chunkData chunkAddr chunksf chunkfp st =
     res_bind (save_record True chunkData
         (chunkAddr\<lparr>re_length := word_of_nat (length chunkData)\<rparr>)
         chunksf chunkfp (delta_stream st) st)
       (\<lambda>(addr, s, st). Inr (addr, st\<lparr>delta_stream := s\<rparr>))"

text \<open>\<open>SaveChunk\<close> stores the content and the iv only; the index schemes without deltas use it.\<close>

definition SaveChunk :: "byte list \<Rightarrow> RecipeEntry_t \<Rightarrow> store \<Rightarrow> (RecipeEntry_t \<times> store) res" where
  "SaveChunk chunkData chunkAddr st =
     (let s = base_stream st in
      res_bind
        (if (CRYPTO_BLOCK_SIZE + length chunkData + curSize (inCon s)) mod 2 ^ 32 < MAX_CONTAINER_SIZE
         then Inr (s, st) else flush_stream False s st)
        (\<lambda>(s, st).
           let saveOffset = curSize (inCon s);
               addr = chunkAddr\<lparr>re_length := word_of_nat (length chunkData),
                 containerName := containerID (outCon s), re_offset := word_of_nat saveOffset\<rparr>
           in res_bind (copy_pieces (ic_buf (inCon s)) saveOffset [chunkData, st_iv st]) (\<lambda>buf.
                Inr (addr, st\<lparr>base_stream := s\<lparr>inCon := \<lparr>ic_buf = buf,
                    curSize = saveOffset + length chunkData + CRYPTO_BLOCK_SIZE\<rparr>\<rparr>,
                  writtenDataSize := writtenDataSize st + length chunkData,
                  writtenChunkNum := Suc (writtenChunkNum st)\<rparr>))))"

text \<open>The writer thread: \<open>DataWriter::SaveToFile\<close> on the container at the head of the queue.\<close>

definition SaveToFile ::
    "Container_t \<Rightarrow> (bool \<times> byte list \<Rightarrow> byte list option) \<Rightarrow> (bool \<times> byte list \<Rightarrow> byte list option) res"
    where
  "SaveToFile c files =
     res_bind (buf_read (ct_body c) 0 (currentSize c)) (\<lambda>content.
       Inr (files((ct_deltaFlag c, containerID c) \<mapsto> content)))"

definition DataWriter_step :: "store \<Rightarrow> store res" where
  "DataWriter_step st =
     (case inputMQ st of
        [] \<Rightarrow> Inr st
      | c # cs \<Rightarrow> res_bind (SaveToFile c (disk st)) (\<lambda>files. Inr (st\<lparr>inputMQ := cs, disk := files\<rparr>)))"

text \<open>
  The end of an upload: \<open>ProcessTailBatch\<close> copies what is left in the enclave's containers
  out, and the receiver thread (\<open>Server/dataReceiver.cc\<close>) queues the containers that are not
  empty and leaves the writer to work off the queue.
\<close>

definition tail_stream :: "stream \<Rightarrow> stream res" where
  "tail_stream s =
     (if curSize (inCon s) \<noteq> 0 then
        res_bind (buf_read (ic_buf (inCon s)) 0 (curSize (inCon s))) (\<lambda>content.
        res_bind (buf_write (ct_body (outCon s)) 0 content) (\<lambda>body.
          Inr (s\<lparr>outCon := (outCon s)\<lparr>ct_body := body, currentSize := curSize (inCon s)\<rparr>\<rparr>)))
      else Inr s)"

definition ProcessTail_containers :: "store \<Rightarrow> store res" where
  "ProcessTail_containers st =
     res_bind (tail_stream (base_stream st)) (\<lambda>b.
     res_bind (tail_stream (delta_stream st)) (\<lambda>d.
       Inr (st\<lparr>base_stream := b, delta_stream := d\<rparr>)))"

definition write_last :: "bool \<Rightarrow> stream \<Rightarrow> store \<Rightarrow> (stream \<times> store) res" where
  "write_last flag s st =
     (if currentSize (outCon s) \<noteq> 0
      then res_bind (write_container flag (outCon s) st) (\<lambda>(out, st). Inr (s\<lparr>outCon := out\<rparr>, st))
      else Inr (s, st))"

definition Receiver_finish :: "store \<Rightarrow> store res" where
  "Receiver_finish st =
     res_bind (write_last False (base_stream st) st) (\<lambda>(b, st).
     res_bind (write_last True (delta_stream st) st) (\<lambda>(d, st).
       Inr (st\<lparr>base_stream := b, delta_stream := d\<rparr>)))"

text \<open>\<open>DataWriter::Run\<close> until the queue, to which nothing is added any more, is empty.\<close>

fun DataWriter_run :: "Container_t list \<Rightarrow> (bool \<times> byte list \<Rightarrow> byte list option)
    \<Rightarrow> (bool \<times> byte list \<Rightarrow> byte list option) res" where
  "DataWriter_run [] files = Inr files"
| "DataWriter_run (c # cs) files = res_bind (SaveToFile c files) (DataWriter_run cs)"

definition end_upload :: "store \<Rightarrow> store res" where
  "end_upload st =
     res_bind (ProcessTail_containers st) (\<lambda>st.
     res_bind (Receiver_finish st) (\<lambda>st.
     res_bind (DataWriter_run (inputMQ st) (disk st)) (\<lambda>files.
       Inr (st\<lparr>inputMQ := [], disk := files\<rparr>))))"

text \<open>A client's streams as \<open>ClientVar::InitUploadBuffer\<close> and its enclave counterpart set them up.\<close>

definition new_stream :: "nat \<Rightarrow> stream res" where
  "new_stream n =
     res_bind (CreateUUID CONTAINER_ID_LENGTH n) (\<lambda>name.
       Inr \<lparr>inCon = \<lparr>ic_buf = replicate MAX_CONTAINER_SIZE 0, curSize = 0\<rparr>,
            outCon = \<lparr>containerID = name, ct_deltaFlag = False,
                      ct_body = replicate MAX_CONTAINER_SIZE 0, currentSize = 0\<rparr>\<rparr>)"

definition InitUpload :: "byte list \<Rightarrow> store res" where
  "InitUpload iv =
     res_bind (new_stream 1) (\<lambda>b. res_bind (new_stream 2) (\<lambda>d.
       Inr \<lparr>base_stream = b, delta_stream = d, inputMQ = [], disk = (\<lambda>_. None), con_times = 3,
            st_iv = iv, writtenDataSize = 0, writtenChunkNum = 0\<rparr>))"

section \<open>Reading a record back\<close>

text \<open>
  The readers of \<open>ecallUtil/ecallOffline.cc\<close>: recipe, fingerprint and features stand in front of
  the content, the iv behind it.  The result buffer of the content has \<open>MAX_CHUNK_SIZE\<close> bytes;
  the pair is the extent of the record in the container.
\<close>

definition GetChunk_SF :: "byte list \<Rightarrow> RecipeEntry_t \<Rightarrow> byte list res" where
  "GetChunk_SF container r =
     buf_read container (unat (re_offset r) + sizeof_RecipeEntry + CHUNK_HASH_SIZE) (3 * CHUNK_HASH_SIZE)"

definition GetChunk_FP :: "byte list \<Rightarrow> RecipeEntry_t \<Rightarrow> byte list res" where
  "GetChunk_FP container r =
     buf_read container (unat (re_offset r) + sizeof_RecipeEntry) CHUNK_HASH_SIZE"

definition GetChunk_IV :: "byte list \<Rightarrow> RecipeEntry_t \<Rightarrow> byte list res" where
  "GetChunk_IV container r =
     buf_read container (unat (re_offset r) + sizeof_RecipeEntry + 4 * CHUNK_HASH_SIZE
       + unat (re_length r)) CRYPTO_BLOCK_SIZE"

definition GetChunk_content_buffer ::
    "byte list \<Rightarrow> RecipeEntry_t \<Rightarrow> bool \<Rightarrow> nat \<times> nat \<Rightarrow> byte list \<Rightarrow> (byte list \<times> (nat \<times> nat)) res" where
  "GetChunk_content_buffer container r cold_flag pair out =
     (let pair' = (unat (re_offset r), unat (re_length r) + 4 * CHUNK_HASH_SIZE
                     + sizeof_RecipeEntry + CRYPTO_BLOCK_SIZE) in
      res_bind (buf_read container (unat (re_offset r) + sizeof_RecipeEntry + 4 * CHUNK_HASH_SIZE)
                  (unat (re_length r))) (\<lambda>content.
      res_bind (buf_write out 0 content) (\<lambda>out.
        Inr (out, if cold_flag then pair' else pair))))"

end
