(* ===== verification/Storage_Correct.thy ===== *)
theory Storage_Correct imports Storage begin

text \<open>
  Correctness of the container storage: the contents of a container are a sequence of records,
  every record can be read back through the recipe that saving it returned, and it stays
  readable while its container is filled, queued and written to disk.
\<close>

section \<open>Records and their layout\<close>

record srec =
  s_addr :: RecipeEntry_t
  s_fp :: "byte list"
  s_sf :: "byte list"
  s_data :: "byte list"
  s_iv :: "byte list"

definition srec_bytes :: "srec \<Rightarrow> byte list" where
  "srec_bytes r = recipe_bytes (s_addr r) @ s_fp r @ s_sf r @ s_data r @ s_iv r"

definition srec_size :: "nat \<Rightarrow> nat" where
  "srec_size n = n + CRYPTO_BLOCK_SIZE + 4 * CHUNK_HASH_SIZE + sizeof_RecipeEntry"

text \<open>A record that stands at \<open>off\<close> in the container \<open>name\<close>.\<close>

definition srec_ok :: "byte list \<Rightarrow> nat \<Rightarrow> srec \<Rightarrow> bool" where
  "srec_ok name off r \<longleftrightarrow> recipe_wf (s_addr r) \<and> containerName (s_addr r) = name \<and>
     unat (re_offset (s_addr r)) = off \<and> unat (re_length (s_addr r)) = length (s_data r) \<and>
     length (s_fp r) = CHUNK_HASH_SIZE \<and> length (s_sf r) = 3 * CHUNK_HASH_SIZE \<and>
     length (s_iv r) = CRYPTO_BLOCK_SIZE"

fun placed :: "byte list \<Rightarrow> nat \<Rightarrow> srec list \<Rightarrow> bool" where
  "placed name off [] = True"
| "placed name off (r # rs) \<longleftrightarrow> srec_ok name off r \<and> placed name (off + length (srec_bytes r)) rs"

definition content :: "srec list \<Rightarrow> byte list" where
  "content rs = concat (map srec_bytes rs)"

lemma content_simps [simp]:
  "content [] = []" "content (r # rs) = srec_bytes r @ content rs"
  "content (rs @ rs') = content rs @ content rs'"
  by (simp_all add: content_def)

lemma srec_bytes_length: "srec_ok name off r \<Longrightarrow> length (srec_bytes r) = srec_size (length (s_data r))"
  by (simp add: srec_ok_def srec_bytes_def srec_size_def)

lemma placed_append:
  "placed name off (rs @ rs') \<longleftrightarrow> placed name off rs \<and> placed name (off + length (content rs)) rs'"
  by (induction rs arbitrary: off) (auto simp: add.assoc)

text \<open>Reading back one record of a container.\<close>

definition reads_back :: "byte list \<Rightarrow> srec \<Rightarrow> bool" where
  "reads_back c r \<longleftrightarrow> GetChunk_FP c (s_addr r) = Inr (s_fp r) \<and> GetChunk_SF c (s_addr r) = Inr (s_sf r) \<and>
     GetChunk_IV c (s_addr r) = Inr (s_iv r) \<and>
     (\<forall>flag pair out. length (s_data r) \<le> length out \<longrightarrow>
        (\<exists>out' pair'. GetChunk_content_buffer c (s_addr r) flag pair out = Inr (out', pair') \<and>
           take (length (s_data r)) out' = s_data r))"

lemma buf_read_mid: "n = length b \<Longrightarrow> off = length a \<Longrightarrow> buf_read (a @ b @ c) off n = Inr b"
  by (simp add: buf_read_def bslice_def)

lemma reads_back_at:
  assumes "srec_ok name (length a) r"
  shows "reads_back (a @ srec_bytes r @ c) r"
proof -
  let ?p = "a @ recipe_bytes (s_addr r)"
  have lp: "length ?p = length a + sizeof_RecipeEntry"
    using assms by (simp add: srec_ok_def)
  have l: "unat (re_offset (s_addr r)) = length a" "unat (re_length (s_addr r)) = length (s_data r)"
    "length (s_fp r) = CHUNK_HASH_SIZE" "length (s_sf r) = 3 * CHUNK_HASH_SIZE"
    "length (s_iv r) = CRYPTO_BLOCK_SIZE"
    using assms by (auto simp: srec_ok_def)
  have "buf_read (?p @ s_fp r @ (s_sf r @ s_data r @ s_iv r @ c)) (length a + sizeof_RecipeEntry)
      CHUNK_HASH_SIZE = Inr (s_fp r)"
    using lp l by (intro buf_read_mid) auto
  moreover have "buf_read ((?p @ s_fp r) @ s_sf r @ (s_data r @ s_iv r @ c))
      (length a + sizeof_RecipeEntry + CHUNK_HASH_SIZE) (3 * CHUNK_HASH_SIZE) = Inr (s_sf r)"
    using lp l by (intro buf_read_mid) auto
  moreover have "buf_read ((?p @ s_fp r @ s_sf r) @ s_data r @ (s_iv r @ c))
      (length a + sizeof_RecipeEntry + 4 * CHUNK_HASH_SIZE) (length (s_data r)) = Inr (s_data r)"
    using lp l by (intro buf_read_mid) auto
  moreover have "buf_read ((?p @ s_fp r @ s_sf r @ s_data r) @ s_iv r @ c)
      (length a + sizeof_RecipeEntry + 4 * CHUNK_HASH_SIZE + length (s_data r)) CRYPTO_BLOCK_SIZE = Inr (s_iv r)"
    using lp l by (intro buf_read_mid) auto
  ultimately show ?thesis
    using l by (auto simp: reads_back_def srec_bytes_def GetChunk_FP_def GetChunk_SF_def GetChunk_IV_def
        GetChunk_content_buffer_def Let_def buf_write_def)
qed

lemma placed_reads_back:
  assumes "placed name (length a) rs" "r \<in> set rs"
  shows "reads_back (a @ content rs @ c) r"
  using assms
proof (induction rs arbitrary: a)
  case Nil
  then show ?case by simp
next
  case (Cons x rs)
  show ?case
  proof (cases "r = x")
    case True
    with reads_back_at [of name a x "content rs @ c"] Cons.prems(1) show ?thesis by simp
  next
    case False
    with Cons.IH [of "a @ srec_bytes x"] Cons.prems show ?thesis by simp
  qed
qed

section \<open>One save\<close>

lemma copy_pieces_write:
  "off + length (concat ps) \<le> length buf \<Longrightarrow>
    copy_pieces buf off ps = buf_write buf off (concat ps)"
proof (induction ps arbitrary: buf off)
  case Nil
  then show ?case by (simp add: buf_write_def)
next
  case (Cons p ps)
  then obtain buf1 where b: "buf_write buf off p = Inr buf1" "length buf1 = length buf"
    by (auto simp: buf_write_def)
  have "take off buf1 = take off buf" "take (off + length p) buf1 = take off buf @ p"
    "drop (off + length p) buf1 = drop (off + length p) buf"
    using b Cons.prems by (auto simp: buf_write_def)
  moreover have "drop (off + length p + length (concat ps)) buf1 = drop (off + length p + length (concat ps)) buf"
    using b Cons.prems by (auto simp: buf_write_def ac_simps)
  ultimately show ?case
    using Cons b by (auto simp: buf_write_def add.assoc)
qed

definition stream_ok :: "stream \<Rightarrow> srec list \<Rightarrow> bool" where
  "stream_ok s rs \<longleftrightarrow> length (ic_buf (inCon s)) = MAX_CONTAINER_SIZE \<and>
     length (ct_body (outCon s)) = MAX_CONTAINER_SIZE \<and> curSize (inCon s) = length (content rs) \<and>
     curSize (inCon s) < MAX_CONTAINER_SIZE \<and> take (curSize (inCon s)) (ic_buf (inCon s)) = content rs \<and>
     length (containerID (outCon s)) = CONTAINER_ID_LENGTH \<and> currentSize (outCon s) = 0 \<and>
     placed (containerID (outCon s)) 0 rs"

text \<open>The chunks the core is given: they fit into an empty container.\<close>

definition chunk_ok :: "byte list \<Rightarrow> RecipeEntry_t \<Rightarrow> byte list \<Rightarrow> byte list \<Rightarrow> byte list \<Rightarrow> bool" where
  "chunk_ok data addr sf fp iv \<longleftrightarrow> srec_size (length data) < MAX_CONTAINER_SIZE \<and>
     length (basechunkHash addr) = CHUNK_HASH_SIZE \<and> length (superfeature addr) = 3 * CHUNK_HASH_SIZE \<and>
     length sf = 3 * CHUNK_HASH_SIZE \<and> length fp = CHUNK_HASH_SIZE \<and> length iv = CRYPTO_BLOCK_SIZE"

lemma put_record_ok:
  assumes s: "stream_ok s rs" and c: "chunk_ok data addr sf fp iv"
    and len: "re_length addr = word_of_nat (length data)"
    and fits: "srec_size (length data) + curSize (inCon s) < MAX_CONTAINER_SIZE"
  defines "addr' \<equiv> addr\<lparr>re_offset := word_of_nat (curSize (inCon s)), containerName := containerID (outCon s)\<rparr>"
  shows "\<exists>s'. put_record data addr sf fp iv s = Inr (addr', s') \<and> outCon s' = outCon s \<and>
    stream_ok s' (rs @ [\<lparr>s_addr = addr', s_fp = fp, s_sf = sf, s_data = data, s_iv = iv\<rparr>])"
proof -
  let ?r = "\<lparr>s_addr = addr', s_fp = fp, s_sf = sf, s_data = data, s_iv = iv\<rparr>"
  let ?off = "curSize (inCon s)" and ?buf = "ic_buf (inCon s)"
  have small: "length data < 2 ^ 32" "?off < 2 ^ 32"
    using c s by (auto simp: chunk_ok_def stream_ok_def srec_size_def size_consts)
  have ok: "srec_ok (containerID (outCon s)) ?off ?r"
    using c s len small
    by (auto simp: srec_ok_def recipe_wf_def addr'_def chunk_ok_def stream_ok_def unat_of_nat)
  have pieces: "concat [recipe_bytes addr', fp, sf, data, iv] = srec_bytes ?r"
    by (simp add: srec_bytes_def)
  have l: "length (srec_bytes ?r) = srec_size (length data)"
    using srec_bytes_length [OF ok] by simp
  obtain buf where b: "copy_pieces ?buf ?off [recipe_bytes addr', fp, sf, data, iv] = Inr buf"
    "length buf = length ?buf" "take (?off + srec_size (length data)) buf = content rs @ srec_bytes ?r"
    using copy_pieces_write [of ?off "[recipe_bytes addr', fp, sf, data, iv]" ?buf] fits s l
    unfolding pieces by (auto simp: stream_ok_def buf_write_def)
  let ?s = "s\<lparr>inCon := \<lparr>ic_buf = buf, curSize = ?off + srec_size (length data)\<rparr>\<rparr>"
  have "put_record data addr sf fp iv s = Inr (addr', ?s)"
    using b(1) by (simp add: put_record_def addr'_def Let_def srec_size_def add.assoc)
  moreover have "stream_ok ?s (rs @ [?r])"
    using s b fits l ok by (simp add: stream_ok_def placed_append add.commute)
  ultimately show ?thesis by auto
qed

lemma stream_ok_empty:
  "stream_ok s [] \<longleftrightarrow> length (ic_buf (inCon s)) = MAX_CONTAINER_SIZE \<and>
     length (ct_body (outCon s)) = MAX_CONTAINER_SIZE \<and> curSize (inCon s) = 0 \<and>
     length (containerID (outCon s)) = CONTAINER_ID_LENGTH \<and> currentSize (outCon s) = 0"
  by (auto simp: stream_ok_def size_consts)

text \<open>A flushed container holds exactly the records, under the name they point to.\<close>

definition packed :: "bool \<Rightarrow> Container_t \<Rightarrow> srec list \<Rightarrow> bool" where
  "packed flag c rs \<longleftrightarrow> ct_deltaFlag c = flag \<and> currentSize c \<le> length (ct_body c) \<and>
     take (currentSize c) (ct_body c) = content rs \<and> placed (containerID c) 0 rs"

lemma flush_stream_ok:
  assumes s: "stream_ok s rs" and t: "con_times st < 36 ^ CONTAINER_ID_LENGTH"
  obtains s' c where "flush_stream flag s st = Inr (s', st\<lparr>inputMQ := inputMQ st @ [c],
      con_times := Suc (con_times st)\<rparr>)" "packed flag c rs" "containerID c = containerID (outCon s)"
    "stream_ok s' []" "CreateUUID CONTAINER_ID_LENGTH (con_times st) = Inr (containerID (outCon s'))"
proof -
  obtain name where n: "CreateUUID CONTAINER_ID_LENGTH (con_times st) = Inr name"
    using CreateUUID_Inr [of CONTAINER_ID_LENGTH] t by (auto simp: size_consts)
  have l: "length name = CONTAINER_ID_LENGTH" using CreateUUID_length [OF n] .
  let ?body = "content rs @ drop (length (content rs)) (ct_body (outCon s))"
  let ?c = "(outCon s)\<lparr>ct_body := ?body, currentSize := curSize (inCon s), ct_deltaFlag := flag\<rparr>"
  let ?s = "s\<lparr>inCon := (inCon s)\<lparr>curSize := 0\<rparr>, outCon := ?c\<lparr>containerID := name, currentSize := 0\<rparr>\<rparr>"
  have "flush_stream flag s st = Inr (?s, st\<lparr>inputMQ := inputMQ st @ [?c], con_times := Suc (con_times st)\<rparr>)"
  proof -
    have "take (length (content rs)) (ic_buf (inCon s)) = content rs"
      using s unfolding stream_ok_def by metis
    then show ?thesis
      using s n by (simp add: flush_stream_def buf_read_def buf_write_def bslice_def stream_ok_def
        write_container_def Let_def)
  qed
  moreover have "packed flag ?c rs" using s by (auto simp: packed_def stream_ok_def)
  moreover have "stream_ok ?s []" using s l by (auto simp: stream_ok_def size_consts)
  ultimately show ?thesis using that [of ?s ?c] n by auto
qed


section \<open>The store\<close>

text \<open>The contents of a container, wherever it is: under construction, queued or on disk.\<close>

definition current :: "store \<Rightarrow> bool \<Rightarrow> stream" where
  "current st flag = (if flag then delta_stream st else base_stream st)"

definition view :: "store \<Rightarrow> bool \<times> byte list \<Rightarrow> byte list option" where
  "view st k =
     (if snd k = containerID (outCon (current st (fst k)))
      then Some (take (curSize (inCon (current st (fst k)))) (ic_buf (inCon (current st (fst k)))))
      else case find (\<lambda>c. (ct_deltaFlag c, containerID c) = k) (inputMQ st) of
             Some c \<Rightarrow> Some (take (currentSize c) (ct_body c))
           | None \<Rightarrow> disk st k)"

text \<open>
  The invariant, relative to a catalogue of the records of every container: the catalogue
  describes every copy of a container, a container under construction has no other copy, and
  the names in use were made by the counter, none of them for both kinds of containers.
\<close>

definition on_disk :: "(bool \<times> byte list \<Rightarrow> byte list option) \<Rightarrow> (bool \<times> byte list \<Rightarrow> srec list option) \<Rightarrow> bool" where
  "on_disk d cat \<longleftrightarrow> (\<forall>k c. d k = Some c \<longrightarrow> (\<exists>rs. cat k = Some rs \<and> c = content rs \<and> placed (snd k) 0 rs))"

definition in_queue :: "Container_t list \<Rightarrow> (bool \<times> byte list \<Rightarrow> srec list option) \<Rightarrow> bool" where
  "in_queue q cat \<longleftrightarrow> (\<forall>c \<in> set q. \<exists>rs. cat (ct_deltaFlag c, containerID c) = Some rs \<and> packed (ct_deltaFlag c) c rs)"

definition key_of :: "Container_t \<Rightarrow> bool \<times> byte list" where
  "key_of c = (ct_deltaFlag c, containerID c)"

definition used :: "store \<Rightarrow> (bool \<times> byte list) set" where
  "used st = key_of ` set (inputMQ st) \<union> dom (disk st)"

definition cur_key :: "store \<Rightarrow> bool \<Rightarrow> bool \<times> byte list" where
  "cur_key st flag = (flag, containerID (outCon (current st flag)))"

definition tidy :: "(bool \<times> byte list \<Rightarrow> srec list option) \<Rightarrow> bool" where
  "tidy cat \<longleftrightarrow> (\<forall>n. cat (False, n) = None \<or> cat (True, n) = None) \<and>
     (\<forall>k rs. cat k = Some rs \<longrightarrow> length (content rs) \<le> MAX_CONTAINER_SIZE)"

definition store_ok :: "store \<Rightarrow> (bool \<times> byte list \<Rightarrow> srec list option) \<Rightarrow> bool" where
  "store_ok st cat \<longleftrightarrow> on_disk (disk st) cat \<and> in_queue (inputMQ st) cat \<and>
     (\<forall>flag. \<exists>rs. cat (cur_key st flag) = Some rs \<and> stream_ok (current st flag) rs \<and> cur_key st flag \<notin> used st) \<and>
     dom cat \<subseteq> used st \<union> range (cur_key st) \<and>
     (\<forall>k \<in> dom cat. \<exists>t < con_times st. CreateUUID CONTAINER_ID_LENGTH t = Inr (snd k)) \<and>
     tidy cat \<and> length (st_iv st) = CRYPTO_BLOCK_SIZE"

lemma find_key: "find (\<lambda>c. (ct_deltaFlag c, containerID c) = k) q = Some c \<Longrightarrow> c \<in> set q \<and> key_of c = k"
  by (auto simp: find_Some_iff key_of_def)

lemma find_key_None: "find (\<lambda>c. (ct_deltaFlag c, containerID c) = k) q = None \<longleftrightarrow> k \<notin> key_of ` set q"
  by (auto simp: find_None_iff key_of_def)

lemma view_cat:
  assumes "store_ok st cat" "cat k = Some rs"
  shows "view st k = Some (content rs) \<and> placed (snd k) 0 rs"
proof (cases "k = cur_key st (fst k)")
  case True
  then have "snd k = containerID (outCon (current st (fst k)))" by (metis cur_key_def snd_conv)
  moreover have "stream_ok (current st (fst k)) rs"
    using assms True unfolding store_ok_def by (metis option.inject)
  ultimately show ?thesis unfolding view_def stream_ok_def by metis
next
  case False
  then have n: "snd k \<noteq> containerID (outCon (current st (fst k)))"
    by (metis cur_key_def prod.collapse)
  have k: "k \<in> used st"
  proof -
    have "k \<in> used st \<union> range (cur_key st)" using assms by (auto simp: store_ok_def)
    moreover have "k \<noteq> cur_key st f" for f
      using False by (cases "f = fst k") (auto simp: cur_key_def)
    ultimately show ?thesis by auto
  qed
  show ?thesis
  proof (cases "find (\<lambda>c. (ct_deltaFlag c, containerID c) = k) (inputMQ st)")
    case (Some c)
    then have c: "c \<in> set (inputMQ st)" "(ct_deltaFlag c, containerID c) = k"
      using find_key [OF Some] by (simp_all add: key_of_def)
    then have "cat k = Some rs" "snd k = containerID c" using assms(2) by auto
    moreover obtain rs' where "cat k = Some rs'" "packed (ct_deltaFlag c) c rs'"
      using assms(1) c unfolding store_ok_def in_queue_def by metis
    ultimately have "packed (ct_deltaFlag c) c rs" "snd k = containerID c" by simp_all
    then show ?thesis using Some n by (simp add: view_def packed_def)
  next
    case None
    then obtain d where d: "disk st k = Some d"
      using k find_key_None [of k] by (auto simp: used_def)
    then have "d = content rs \<and> placed (snd k) 0 rs"
      using assms unfolding store_ok_def on_disk_def by (metis option.inject)
    then show ?thesis using None n d by (simp add: view_def)
  qed
qed

lemma store_ok_reads:
  assumes "store_ok st cat" "cat k = Some rs" "r \<in> set rs"
  shows "\<exists>c. view st k = Some c \<and> reads_back c r"
  using view_cat [OF assms(1,2)] placed_reads_back [of "snd k" "[]" rs r "[]"] assms(3) by auto

section \<open>Steps\<close>

lemma record_fits_iff:
  assumes "srec_size (length data) < MAX_CONTAINER_SIZE" "off < MAX_CONTAINER_SIZE"
  shows "record_fits (length data) off \<longleftrightarrow> srec_size (length data) + off < MAX_CONTAINER_SIZE"
proof -
  have "CRYPTO_BLOCK_SIZE + length data + off + 4 * CHUNK_HASH_SIZE < 2 ^ 32"
    using assms by (simp add: srec_size_def size_consts sizeof_RecipeEntry_def)
  then show ?thesis by (auto simp: record_fits_def srec_size_def)
qed

lemma fresh_name:
  assumes "store_ok st cat" "CreateUUID CONTAINER_ID_LENGTH (con_times st) = Inr name"
  shows "(flag, name) \<notin> dom cat"
proof
  assume "(flag, name) \<in> dom cat"
  then obtain t where "t < con_times st" "CreateUUID CONTAINER_ID_LENGTH t = Inr name"
    using assms(1) unfolding store_ok_def by (metis snd_conv)
  then show False
    using CreateUUID_inj [OF _ assms(2), of t] by (auto simp: size_consts)
qed

definition put_stream :: "bool \<Rightarrow> stream \<Rightarrow> store \<Rightarrow> store" where
  "put_stream flag s st = (if flag then st\<lparr>delta_stream := s\<rparr> else st\<lparr>base_stream := s\<rparr>)"

lemma put_stream_simps [simp]:
  "current (put_stream flag s st) f = (if f = flag then s else current st f)"
  "inputMQ (put_stream flag s st) = inputMQ st" "disk (put_stream flag s st) = disk st"
  "con_times (put_stream flag s st) = con_times st" "st_iv (put_stream flag s st) = st_iv st"
  "used (put_stream flag s st) = used st"
  by (simp_all add: put_stream_def current_def used_def)

lemma cur_key_put: "cur_key (put_stream flag s st) f
    = (if f = flag then (flag, containerID (outCon s)) else cur_key st f)"
  by (simp add: cur_key_def)

lemma store_ok_stats:
  "store_ok (st\<lparr>writtenDataSize := a, writtenChunkNum := b\<rparr>) cat = store_ok st cat"
proof -
  let ?st = "st\<lparr>writtenDataSize := a, writtenChunkNum := b\<rparr>"
  have "current ?st = current st" by (simp add: current_def fun_eq_iff)
  moreover from this have "cur_key ?st = cur_key st" by (simp add: cur_key_def fun_eq_iff)
  moreover have "used ?st = used st" by (simp add: used_def)
  ultimately show ?thesis by (simp add: store_ok_def)
qed

lemma cur_key_inject: "cur_key st f = cur_key st f' \<longleftrightarrow> f = f'"
  by (auto simp: cur_key_def)

lemma grow_ok:
  assumes st: "store_ok st cat" and rs: "cat (cur_key st flag) = Some rs"
    and s: "outCon s = outCon (current st flag)" "stream_ok s (rs @ [r])"
  shows "store_ok (put_stream flag s st) (cat(cur_key st flag \<mapsto> rs @ [r]))"
proof -
  let ?cat = "cat(cur_key st flag \<mapsto> rs @ [r])"
  have key: "cur_key (put_stream flag s st) f = cur_key st f" for f
    using s(1) by (simp add: cur_key_put) (simp add: cur_key_def)
  have nu: "cur_key st flag \<notin> used st" using st by (auto simp: store_ok_def)
  have "on_disk (disk st) ?cat" using st nu by (auto simp: store_ok_def on_disk_def used_def)
  moreover have "in_queue (inputMQ st) ?cat"
    using st nu by (fastforce simp: store_ok_def in_queue_def used_def key_of_def image_iff)
  moreover have "\<exists>rs'. ?cat (cur_key st f) = Some rs' \<and> stream_ok (current (put_stream flag s st) f) rs' \<and>
      cur_key st f \<notin> used st" for f
    using st s(2) nu by (cases "f = flag") (auto simp: store_ok_def cur_key_inject)
  moreover have "dom ?cat = dom cat" using rs by auto
  moreover have "tidy ?cat"
  proof -
    have "length (content (rs @ [r])) \<le> MAX_CONTAINER_SIZE" using s(2) unfolding stream_ok_def by linarith
    moreover have "tidy cat" using st by (simp add: store_ok_def)
    moreover have "k = cur_key st flag \<Longrightarrow> cat k \<noteq> None" for k using rs by simp
    then have "(?cat k = None) = (cat k = None)" for k by auto
    ultimately show ?thesis unfolding tidy_def by (metis fun_upd_apply option.inject)
  qed
  ultimately show ?thesis
    using st by (simp add: store_ok_def key)
qed

lemma rotate_ok:
  assumes st: "store_ok st cat" and rs: "cat (cur_key st flag) = Some rs"
    and c: "packed flag c rs" "containerID c = containerID (outCon (current st flag))"
    and s: "stream_ok s []" "CreateUUID CONTAINER_ID_LENGTH (con_times st) = Inr (containerID (outCon s))"
  shows "store_ok (put_stream flag s (st\<lparr>inputMQ := inputMQ st @ [c], con_times := Suc (con_times st)\<rparr>))
    (cat((flag, containerID (outCon s)) \<mapsto> []))"
proof -
  let ?k = "(flag, containerID (outCon s))" let ?cat = "cat(?k \<mapsto> [])"
  let ?st = "st\<lparr>inputMQ := inputMQ st @ [c], con_times := Suc (con_times st)\<rparr>"
  have new: "?k \<notin> dom cat" using fresh_name [OF st s(2)] .
  have kc: "key_of c = cur_key st flag" using c by (simp add: key_of_def cur_key_def packed_def)
  have used: "used ?st = insert (cur_key st flag) (used st)"
    using kc by (auto simp: used_def)
  have sub: "used st \<subseteq> dom cat"
    using st by (fastforce simp: store_ok_def used_def on_disk_def in_queue_def key_of_def)
  have key: "cur_key (put_stream flag s ?st) f = (if f = flag then ?k else cur_key st f)" for f
    by (simp add: cur_key_put) (simp add: cur_key_def current_def)
  have "on_disk (disk st) ?cat" using st new unfolding store_ok_def on_disk_def by (metis domI fun_upd_other)
  moreover have "in_queue (inputMQ st @ [c]) ?cat"
  proof -
    have "\<exists>rs. ?cat (key_of x) = Some rs \<and> packed (ct_deltaFlag x) x rs" if "x \<in> set (inputMQ st @ [c])" for x
    proof -
      have "\<exists>rs. cat (key_of x) = Some rs \<and> packed (ct_deltaFlag x) x rs"
        using that st rs c(1) kc by (auto simp: store_ok_def in_queue_def key_of_def packed_def)
      then show ?thesis using new by (metis domI fun_upd_other)
    qed
    then show ?thesis by (simp add: in_queue_def key_of_def)
  qed
  moreover have "\<exists>rs'. ?cat (cur_key (put_stream flag s ?st) f) = Some rs' \<and>
      stream_ok (current (put_stream flag s ?st) f) rs' \<and> cur_key (put_stream flag s ?st) f \<notin> used ?st" for f
  proof (cases "f = flag")
    case True
    then show ?thesis using s(1) new sub rs unfolding key used by auto
  next
    case False
    then obtain rs' where "cat (cur_key st f) = Some rs'" "stream_ok (current st f) rs'" "cur_key st f \<notin> used st"
      using st unfolding store_ok_def by blast
    moreover have "current ?st f = current st f" by (simp add: current_def)
    ultimately show ?thesis using False new unfolding key used
      by (auto simp: cur_key_inject)
  qed
  moreover have "dom ?cat \<subseteq> used ?st \<union> range (cur_key (put_stream flag s ?st))"
  proof
    fix k assume "k \<in> dom ?cat"
    then have "k = ?k \<or> k \<in> used st \<or> k \<in> range (cur_key st)"
      using st by (auto simp: store_ok_def split: if_splits)
    then show "k \<in> used ?st \<union> range (cur_key (put_stream flag s ?st))"
    proof (elim disjE)
      assume "k = ?k"
      then have "k = cur_key (put_stream flag s ?st) flag" by (simp add: key)
      then show ?thesis by blast
    next
      assume "k \<in> range (cur_key st)"
      then obtain f where f: "k = cur_key st f" by blast
      show ?thesis
      proof (cases "f = flag")
        case True
        with f used show ?thesis by simp
      next
        case False
        then have "k = cur_key (put_stream flag s ?st) f" using f by (simp add: key)
        then show ?thesis by blast
      qed
    qed (simp add: used)
  qed
  moreover have "\<exists>t < Suc (con_times st). CreateUUID CONTAINER_ID_LENGTH t = Inr (snd k)" if "k \<in> dom ?cat" for k
  proof (cases "k = ?k")
    case True
    with s(2) show ?thesis by auto
  next
    case False
    with that have "k \<in> dom cat" by simp
    with st show ?thesis unfolding store_ok_def by (metis less_SucI)
  qed
  moreover have "tidy ?cat"
    using st fresh_name [OF st s(2), of True] fresh_name [OF st s(2), of False]
    by (cases flag) (auto simp: store_ok_def tidy_def domIff)
  ultimately show ?thesis
    using st by (simp add: store_ok_def)
qed

lemma save_record_ok:
  assumes st: "store_ok st cat" and c: "chunk_ok data addr sf fp (st_iv st)"
    and len: "re_length addr = word_of_nat (length data)"
    and t: "record_fits (length data) (curSize (inCon (current st flag))) \<or>
      con_times st < 36 ^ CONTAINER_ID_LENGTH"
  obtains addr' s' st' cat' rs' where
    "save_record flag data addr sf fp (current st flag) st = Inr (addr', s', st')"
    "store_ok (put_stream flag s' st') cat'" "\<And>k rs. cat k = Some rs \<Longrightarrow> \<exists>rs'. cat' k = Some (rs @ rs')"
    "cat' (flag, containerName addr') = Some (rs' @
        [\<lparr>s_addr = addr', s_fp = fp, s_sf = sf, s_data = data, s_iv = st_iv st\<rparr>])"
proof -
  let ?s = "current st flag"
  obtain rs where rs: "cat (cur_key st flag) = Some rs" "stream_ok ?s rs"
    using st unfolding store_ok_def by blast
  have sz: "srec_size (length data) < MAX_CONTAINER_SIZE" using c by (simp add: chunk_ok_def)
  define fits where "fits = record_fits (length data) (curSize (inCon ?s))"
  obtain s1 st1 cat1 rs1 where m:
    "(if fits then Inr (?s, st) else flush_stream flag ?s st) = Inr (s1, st1)"
    "store_ok (put_stream flag s1 st1) cat1" "cat1 (flag, containerID (outCon s1)) = Some rs1"
    "stream_ok s1 rs1" "srec_size (length data) + curSize (inCon s1) < MAX_CONTAINER_SIZE"
    "\<And>k rs. cat k = Some rs \<Longrightarrow> cat1 k = Some rs" "st_iv st1 = st_iv st"
  proof (cases fits)
    case True
    have "put_stream flag ?s st = st" by (simp add: put_stream_def current_def)
    moreover have "srec_size (length data) + curSize (inCon ?s) < MAX_CONTAINER_SIZE"
      using True record_fits_iff [OF sz, of "curSize (inCon ?s)"] rs(2) by (simp add: fits_def stream_ok_def)
    ultimately show ?thesis
      using True rs st by (intro that [of ?s st cat rs]) (simp_all add: cur_key_def)
  next
    case False
    then have "con_times st < 36 ^ CONTAINER_ID_LENGTH" using t by (simp add: fits_def)
    then obtain s' c' where f: "flush_stream flag ?s st = Inr (s', st\<lparr>inputMQ := inputMQ st @ [c'],
        con_times := Suc (con_times st)\<rparr>)" "packed flag c' rs" "containerID c' = containerID (outCon ?s)"
      "stream_ok s' []" "CreateUUID CONTAINER_ID_LENGTH (con_times st) = Inr (containerID (outCon s'))"
      using flush_stream_ok [OF rs(2)] by blast
    have "(flag, containerID (outCon s')) \<notin> dom cat" using fresh_name [OF st f(5)] .
    then have "(cat((flag, containerID (outCon s')) \<mapsto> [])) k = Some rs" if "cat k = Some rs" for k rs
      using that by auto
    with False f rotate_ok [OF st rs(1) f(2-5)] sz show ?thesis
      by (intro that [of s' "st\<lparr>inputMQ := inputMQ st @ [c'], con_times := Suc (con_times st)\<rparr>"
            "cat((flag, containerID (outCon s')) \<mapsto> [])" "[]"]) (simp_all add: stream_ok_empty)
  qed
  define addr' where "addr' = addr\<lparr>re_offset := word_of_nat (curSize (inCon s1)), containerName := containerID (outCon s1)\<rparr>"
  let ?r = "\<lparr>s_addr = addr', s_fp = fp, s_sf = sf, s_data = data, s_iv = st_iv st\<rparr>"
  obtain s2 where p: "put_record data addr sf fp (st_iv st) s1 = Inr (addr', s2)" "outCon s2 = outCon s1"
    "stream_ok s2 (rs1 @ [?r])"
    using put_record_ok [OF m(4) c len m(5)] unfolding addr'_def by blast
  let ?st2 = "st1\<lparr>writtenDataSize := writtenDataSize st1 + length data, writtenChunkNum := Suc (writtenChunkNum st1)\<rparr>"
  have key: "cur_key (put_stream flag s1 st1) flag = (flag, containerID (outCon s1))"
    by (simp add: cur_key_put)
  have "store_ok (put_stream flag s2 (put_stream flag s1 st1)) (cat1((flag, containerID (outCon s1)) \<mapsto> rs1 @ [?r]))"
    using grow_ok [OF m(2), of flag rs1 s2 ?r] m(3) p(2,3) unfolding key by simp
  moreover have "put_stream flag s2 (put_stream flag s1 st1) = put_stream flag s2 st1"
    by (simp add: put_stream_def)
  moreover have "put_stream flag s2 ?st2 = (put_stream flag s2 st1)\<lparr>writtenDataSize := writtenDataSize st1 + length data,
      writtenChunkNum := Suc (writtenChunkNum st1)\<rparr>"
    by (simp add: put_stream_def)
  ultimately have ok: "store_ok (put_stream flag s2 ?st2) (cat1((flag, containerID (outCon s1)) \<mapsto> rs1 @ [?r]))"
    by (simp only: store_ok_stats)
  show ?thesis
  proof (rule that [OF _ ok])
    show "save_record flag data addr sf fp ?s st = Inr (addr', s2, ?st2)"
      using m(1,7) p(1) by (simp add: save_record_def fits_def)
    show "(cat1((flag, containerID (outCon s1)) \<mapsto> rs1 @ [?r])) (flag, containerName addr') = Some (rs1 @ [?r])"
      by (simp add: addr'_def)
    show "\<exists>rs'. (cat1((flag, containerID (outCon s1)) \<mapsto> rs1 @ [?r])) k = Some (rs @ rs')" if "cat k = Some rs" for k rs
      using m(3) m(6) [OF that] by (cases "k = (flag, containerID (outCon s1))") auto
  qed
qed


section \<open>Sessions\<close>

text \<open>
  A session of one client: saves of base and delta chunks, changes of the iv between them, and
  steps of the writer thread, in any order.  The second argument lists the records saved.
\<close>

inductive session :: "store \<Rightarrow> (bool \<times> srec) list \<Rightarrow> bool" where
  start: "length iv = CRYPTO_BLOCK_SIZE \<Longrightarrow> InitUpload iv = Inr st \<Longrightarrow> session st []"
| base: "session st hs \<Longrightarrow> chunk_ok data addr sf fp (st_iv st) \<Longrightarrow>
    SavebaseChunk data addr sf fp st = Inr (addr', st') \<Longrightarrow>
    session st' ((False, \<lparr>s_addr = addr', s_fp = fp, s_sf = sf, s_data = data, s_iv = st_iv st\<rparr>) # hs)"
| delta: "session st hs \<Longrightarrow> chunk_ok data addr sf fp (st_iv st) \<Longrightarrow>
    SavedeltaChunk data addr sf fp st = Inr (addr', st') \<Longrightarrow>
    session st' ((True, \<lparr>s_addr = addr', s_fp = fp, s_sf = sf, s_data = data, s_iv = st_iv st\<rparr>) # hs)"
| iv: "session st hs \<Longrightarrow> length iv = CRYPTO_BLOCK_SIZE \<Longrightarrow> session (st\<lparr>st_iv := iv\<rparr>) hs"
| writer: "session st hs \<Longrightarrow> DataWriter_step st = Inr st' \<Longrightarrow> session st' hs"

lemma save_succeeds_uuid:
  "save_record flag data addr sf fp s st = Inr x \<Longrightarrow> con_times st < 36 ^ CONTAINER_ID_LENGTH \<or>
     record_fits (length data) (curSize (inCon s))"
  using CreateUUID_Inr [of CONTAINER_ID_LENGTH "con_times st"]
  by (auto simp: save_record_def flush_stream_def write_container_def Let_def res_bind_eq_Inr
      size_consts split: if_splits)

lemma store_ok_freshI:
  assumes "disk st = (\<lambda>_. None)" "inputMQ st = []" "\<And>f. cat (cur_key st f) = Some []"
    "\<And>f. stream_ok (current st f) []" "dom cat \<subseteq> range (cur_key st)"
    "\<And>k. k \<in> dom cat \<Longrightarrow> \<exists>t < con_times st. CreateUUID CONTAINER_ID_LENGTH t = Inr (snd k)"
    "tidy cat" "length (st_iv st) = CRYPTO_BLOCK_SIZE"
  shows "store_ok st cat"
  using assms by (simp add: store_ok_def on_disk_def in_queue_def used_def)

lemma InitUpload_ok:
  assumes "length iv = CRYPTO_BLOCK_SIZE" "InitUpload iv = Inr st"
  shows "\<exists>cat. store_ok st cat"
proof -
  obtain n1 n2 where n: "CreateUUID CONTAINER_ID_LENGTH 1 = Inr n1" "CreateUUID CONTAINER_ID_LENGTH 2 = Inr n2"
    and st: "st = \<lparr>base_stream = \<lparr>inCon = \<lparr>ic_buf = replicate MAX_CONTAINER_SIZE 0, curSize = 0\<rparr>,
      outCon = \<lparr>containerID = n1, ct_deltaFlag = False, ct_body = replicate MAX_CONTAINER_SIZE 0, currentSize = 0\<rparr>\<rparr>,
      delta_stream = \<lparr>inCon = \<lparr>ic_buf = replicate MAX_CONTAINER_SIZE 0, curSize = 0\<rparr>,
      outCon = \<lparr>containerID = n2, ct_deltaFlag = False, ct_body = replicate MAX_CONTAINER_SIZE 0, currentSize = 0\<rparr>\<rparr>,
      inputMQ = [], disk = (\<lambda>_. None), con_times = 3, st_iv = iv, writtenDataSize = 0, writtenChunkNum = 0\<rparr>"
    using assms(2) by (auto simp: InitUpload_def new_stream_def res_bind_eq_Inr)
  let ?cat = "[(False, n1) \<mapsto> [], (True, n2) \<mapsto> []]"
  have key: "cur_key st f = (if f then (True, n2) else (False, n1))" for f
    by (simp add: cur_key_def current_def st)
  have *: "stream_ok (current st f) []" for f
    using CreateUUID_length [OF n(1)] CreateUUID_length [OF n(2)]
    by (simp add: stream_ok_empty current_def st)
  have **: "\<exists>t < con_times st. CreateUUID CONTAINER_ID_LENGTH t = Inr (snd k)" if "k \<in> dom ?cat" for k
  proof -
    have ct: "con_times st = 3" by (simp add: st)
    have "k = (True, n2) \<or> k = (False, n1)" using that by (simp split: if_splits)
    then show ?thesis
    proof
      assume "k = (True, n2)"
      then show ?thesis using n(2) unfolding ct by (intro exI [of _ 2]) simp
    next
      assume "k = (False, n1)"
      then show ?thesis using n(1) unfolding ct by (intro exI [of _ 1]) simp
    qed
  qed
  have ***: "dom ?cat \<subseteq> range (cur_key st)"
  proof -
    have "(False, n1) = cur_key st False" "(True, n2) = cur_key st True" by (simp_all add: key)
    then show ?thesis by auto
  qed
  have "store_ok st ?cat"
  proof (rule store_ok_freshI)
    show "dom ?cat \<subseteq> range (cur_key st)" by (rule ***)
    have "n1 \<noteq> n2"
      using CreateUUID_inj [of CONTAINER_ID_LENGTH 1 n1 2] n by (auto simp: size_consts)
    then show "tidy ?cat" by (auto simp: tidy_def)
  qed (use * ** assms(1) in \<open>simp_all add: key\<close>, simp_all add: st)
  then show ?thesis by blast
qed

lemma SavebaseChunk_save:
  "SavebaseChunk data addr sf fp st = res_bind (save_record False data
     (addr\<lparr>re_length := word_of_nat (length data), superfeature := sf\<rparr>) sf fp (current st False) st)
     (\<lambda>(addr, s, st). Inr (addr, put_stream False s st))"
  by (simp add: SavebaseChunk_def current_def put_stream_def)

lemma SavedeltaChunk_save:
  "SavedeltaChunk data addr sf fp st = res_bind (save_record True data
     (addr\<lparr>re_length := word_of_nat (length data)\<rparr>) sf fp (current st True) st)
     (\<lambda>(addr, s, st). Inr (addr, put_stream True s st))"
  by (simp add: SavedeltaChunk_def current_def put_stream_def)

definition history_ok :: "(bool \<times> srec) list \<Rightarrow> (bool \<times> byte list \<Rightarrow> srec list option) \<Rightarrow> bool" where
  "history_ok hs cat \<longleftrightarrow> (\<forall>(f, r) \<in> set hs. \<exists>rs. cat (f, containerName (s_addr r)) = Some rs \<and> r \<in> set rs)"

lemma history_okD:
  "history_ok hs cat \<Longrightarrow> (f, r) \<in> set hs \<Longrightarrow>
    \<exists>rs. cat (f, containerName (s_addr r)) = Some rs \<and> r \<in> set rs"
  unfolding history_ok_def by (drule (1) bspec) simp

text \<open>A successful save, whether or not the name counter is exhausted.\<close>

lemma save_step:
  assumes st: "store_ok st cat" "history_ok hs cat" and c: "chunk_ok data addr sf fp (st_iv st)"
    and len: "re_length addr = word_of_nat (length data)"
    and save: "save_record flag data addr sf fp (current st flag) st = Inr (addr', s', st')"
  shows "\<exists>cat'. store_ok (put_stream flag s' st') cat' \<and> history_ok ((flag,
      \<lparr>s_addr = addr', s_fp = fp, s_sf = sf, s_data = data, s_iv = st_iv st\<rparr>) # hs) cat'"
proof -
  have t: "record_fits (length data) (curSize (inCon (current st flag))) \<or>
      con_times st < 36 ^ CONTAINER_ID_LENGTH"
    using save_succeeds_uuid [OF save] by blast
  obtain cat' rs' where cat': "store_ok (put_stream flag s' st') cat'"
    "\<And>k rs. cat k = Some rs \<Longrightarrow> \<exists>rs'. cat' k = Some (rs @ rs')"
    "cat' (flag, containerName addr') = Some (rs' @
        [\<lparr>s_addr = addr', s_fp = fp, s_sf = sf, s_data = data, s_iv = st_iv st\<rparr>])"
    by (rule save_record_ok [OF st(1) c len t]) (use save in auto)
  have "history_ok hs cat'"
    using st(2) cat'(2) unfolding history_ok_def by fastforce
  with cat' show ?thesis by (auto simp: history_ok_def)
qed

lemma writer_step:
  assumes "store_ok st cat" "DataWriter_step st = Inr st'"
  shows "store_ok st' cat"
proof (cases "inputMQ st")
  case Nil
  with assms show ?thesis by (simp add: DataWriter_step_def)
next
  case (Cons c cs)
  have "\<exists>rs. cat (ct_deltaFlag c, containerID c) = Some rs \<and> packed (ct_deltaFlag c) c rs"
    using assms(1) Cons unfolding store_ok_def in_queue_def by (metis list.set_intros(1))
  then obtain rs where rs: "cat (key_of c) = Some rs" "packed (ct_deltaFlag c) c rs"
    by (auto simp: key_of_def)
  have st': "st' = st\<lparr>inputMQ := cs, disk := (disk st)(key_of c \<mapsto> content rs)\<rparr>"
    using assms(2) Cons rs(2)
    by (auto simp: DataWriter_step_def SaveToFile_def packed_def key_of_def buf_read_def bslice_def)
  have cur: "current st' = current st" by (simp add: st' current_def fun_eq_iff)
  then have key: "cur_key st' = cur_key st" by (simp add: cur_key_def fun_eq_iff)
  have used: "used st' = used st" using Cons by (auto simp: used_def st')
  have "on_disk (disk st') cat"
    using assms(1) rs by (auto simp: store_ok_def on_disk_def st' packed_def key_of_def)
  moreover have "in_queue (inputMQ st') cat"
    using assms(1) Cons by (simp add: store_ok_def in_queue_def st')
  moreover have "con_times st' = con_times st" "st_iv st' = st_iv st" by (simp_all add: st')
  ultimately show ?thesis
    using assms(1) unfolding store_ok_def cur key used by simp
qed

lemma session_ok: "session st hs \<Longrightarrow> \<exists>cat. store_ok st cat \<and> history_ok hs cat"
proof (induction rule: session.induct)
  case (start iv st)
  with InitUpload_ok show ?case by (fastforce simp: history_ok_def)
next
  case (base st hs data addr sf fp addr' st')
  then obtain cat where cat: "store_ok st cat" "history_ok hs cat" by blast
  obtain s st1 where save: "save_record False data (addr\<lparr>re_length := word_of_nat (length data),
      superfeature := sf\<rparr>) sf fp (current st False) st = Inr (addr', s, st1)" "st' = put_stream False s st1"
    using base.hyps(3) by (auto simp: SavebaseChunk_save res_bind_eq_Inr)
  have "chunk_ok data (addr\<lparr>re_length := word_of_nat (length data), superfeature := sf\<rparr>) sf fp (st_iv st)"
    using base.hyps(2) by (simp add: chunk_ok_def)
  from save_step [OF cat this _ save(1)] save(2) show ?case by auto
next
  case (delta st hs data addr sf fp addr' st')
  then obtain cat where cat: "store_ok st cat" "history_ok hs cat" by blast
  obtain s st1 where save: "save_record True data (addr\<lparr>re_length := word_of_nat (length data)\<rparr>)
      sf fp (current st True) st = Inr (addr', s, st1)" "st' = put_stream True s st1"
    using delta.hyps(3) by (auto simp: SavedeltaChunk_save res_bind_eq_Inr)
  have "chunk_ok data (addr\<lparr>re_length := word_of_nat (length data)\<rparr>) sf fp (st_iv st)"
    using delta.hyps(2) by (simp add: chunk_ok_def)
  from save_step [OF cat this _ save(1)] save(2) show ?case by auto
next
  case (iv st hs iv)
  then obtain cat where cat: "store_ok st cat" "history_ok hs cat" by blast
  have "current (st\<lparr>st_iv := iv\<rparr>) = current st" by (simp add: current_def fun_eq_iff)
  moreover from this have "cur_key (st\<lparr>st_iv := iv\<rparr>) = cur_key st" by (simp add: cur_key_def fun_eq_iff)
  moreover have "used (st\<lparr>st_iv := iv\<rparr>) = used st" by (simp add: used_def)
  ultimately have "store_ok (st\<lparr>st_iv := iv\<rparr>) cat"
    using cat(1) iv.hyps(2) by (simp add: store_ok_def)
  with cat(2) show ?case by blast
next
  case (writer st hs st')
  with writer_step show ?case by blast
qed


section \<open>The end of an upload\<close>

lemma DataWriter_run_ok:
  assumes "in_queue q cat" "on_disk d cat"
  shows "\<exists>d'. DataWriter_run q d = Inr d' \<and> on_disk d' cat \<and> dom d' = key_of ` set q \<union> dom d"
  using assms
proof (induction q arbitrary: d)
  case Nil
  then show ?case by simp
next
  case (Cons c q)
  then obtain rs where rs: "cat (key_of c) = Some rs" "packed (ct_deltaFlag c) c rs"
    by (auto simp: in_queue_def key_of_def)
  have save: "SaveToFile c d = Inr (d(key_of c \<mapsto> content rs))"
    using rs(2) by (simp add: SaveToFile_def buf_read_def bslice_def packed_def key_of_def)
  have "on_disk (d(key_of c \<mapsto> content rs)) cat"
    using Cons.prems(2) rs by (auto simp: on_disk_def packed_def key_of_def)
  moreover have "in_queue q cat" using Cons.prems(1) by (simp add: in_queue_def)
  ultimately obtain d' where "DataWriter_run q (d(key_of c \<mapsto> content rs)) = Inr d'" "on_disk d' cat"
    "dom d' = key_of ` set q \<union> dom (d(key_of c \<mapsto> content rs))"
    using Cons.IH by blast
  with save show ?case by auto
qed

text \<open>What the tail of one stream adds to the queue.\<close>

lemma tail_write_ok:
  assumes s: "stream_ok s rs" and t: "con_times st < 36 ^ CONTAINER_ID_LENGTH"
  shows "\<exists>s' s'' st' q. tail_stream s = Inr s' \<and> write_last flag s' st = Inr (s'', st') \<and>
    inputMQ st' = inputMQ st @ q \<and> disk st' = disk st \<and> con_times st' \<le> Suc (con_times st) \<and>
    (\<forall>c \<in> set q. key_of c = (flag, containerID (outCon s)) \<and> packed flag c rs) \<and> (rs \<noteq> [] \<longrightarrow> q \<noteq> [])"
proof (cases "curSize (inCon s) = 0")
  case True
  then have "rs = []"
  proof (cases rs)
    case (Cons r rs')
    then have "srec_bytes r = []" "srec_ok (containerID (outCon s)) 0 r"
      using s True by (auto simp: stream_ok_def)
    then show ?thesis
      using srec_bytes_length [of "containerID (outCon s)" 0 r] by (simp add: srec_size_def sizeof_RecipeEntry_def)
  qed
  moreover have "tail_stream s = Inr s" "write_last flag s st = Inr (s, st)"
    using True s by (auto simp: tail_stream_def write_last_def stream_ok_def)
  ultimately show ?thesis by (intro exI [of _ s] exI [of _ st] exI [of _ "[]"]) auto
next
  case False
  obtain name where n: "CreateUUID CONTAINER_ID_LENGTH (con_times st) = Inr name"
    using CreateUUID_Inr [of CONTAINER_ID_LENGTH] t by (auto simp: size_consts)
  have tk: "take (length (content rs)) (ic_buf (inCon s)) = content rs" "curSize (inCon s) = length (content rs)"
    "length (content rs) \<le> length (ct_body (outCon s))" "length (content rs) \<le> length (ic_buf (inCon s))"
    "placed (containerID (outCon s)) 0 rs"
    using s unfolding stream_ok_def by auto
  let ?body = "content rs @ drop (length (content rs)) (ct_body (outCon s))"
  let ?s = "s\<lparr>outCon := (outCon s)\<lparr>ct_body := ?body, currentSize := curSize (inCon s)\<rparr>\<rparr>"
  let ?c = "(outCon ?s)\<lparr>ct_deltaFlag := flag\<rparr>"
  have "tail_stream s = Inr ?s"
    using False tk by (simp add: tail_stream_def buf_read_def buf_write_def bslice_def)
  moreover have "write_last flag ?s st = Inr (?s\<lparr>outCon := ?c\<lparr>containerID := name, currentSize := 0\<rparr>\<rparr>,
      st\<lparr>inputMQ := inputMQ st @ [?c], con_times := Suc (con_times st)\<rparr>)"
    using False n by (simp add: write_last_def write_container_def Let_def)
  moreover have "key_of ?c = (flag, containerID (outCon s))" "packed flag ?c rs"
    using tk by (simp_all add: key_of_def packed_def)
  ultimately show ?thesis
    by (intro exI [of _ ?s] exI [of _ "?s\<lparr>outCon := ?c\<lparr>containerID := name, currentSize := 0\<rparr>\<rparr>"]
        exI [of _ "st\<lparr>inputMQ := inputMQ st @ [?c], con_times := Suc (con_times st)\<rparr>"] exI [of _ "[?c]"]) simp
qed

lemma write_last_streams:
  assumes "write_last flag s st = Inr (s', st')"
  shows "write_last flag s (st\<lparr>base_stream := b, delta_stream := d\<rparr>)
    = Inr (s', st'\<lparr>base_stream := b, delta_stream := d\<rparr>)"
proof (cases "currentSize (outCon s) = 0")
  case True
  with assms show ?thesis by (simp add: write_last_def)
next
  case False
  with assms obtain name where "CreateUUID CONTAINER_ID_LENGTH (con_times st) = Inr name"
    by (auto simp: write_last_def write_container_def Let_def res_bind_eq_Inr)
  with False assms show ?thesis
    by (auto simp: write_last_def write_container_def Let_def)
qed

lemma end_upload_ok:
  assumes st: "store_ok st cat" and t: "Suc (con_times st) < 36 ^ CONTAINER_ID_LENGTH"
  shows "\<exists>st'. end_upload st = Inr st' \<and> on_disk (disk st') cat \<and>
    (\<forall>k rs. cat k = Some rs \<and> rs \<noteq> [] \<longrightarrow> k \<in> dom (disk st'))"
proof -
  have cur: "\<exists>rs. cat (cur_key st f) = Some rs \<and> stream_ok (current st f) rs" for f
    using st unfolding store_ok_def by blast
  obtain rb where b: "cat (cur_key st False) = Some rb" "stream_ok (base_stream st) rb"
    using cur [of False] by (auto simp: current_def)
  obtain rd where d: "cat (cur_key st True) = Some rd" "stream_ok (delta_stream st) rd"
    using cur [of True] by (auto simp: current_def)
  obtain b1 b2 st1 qb where wb: "tail_stream (base_stream st) = Inr b1" "write_last False b1 st = Inr (b2, st1)"
    "inputMQ st1 = inputMQ st @ qb" "disk st1 = disk st" "con_times st1 \<le> Suc (con_times st)"
    "\<forall>c \<in> set qb. key_of c = (False, containerID (outCon (base_stream st))) \<and> packed False c rb"
    "rb \<noteq> [] \<longrightarrow> qb \<noteq> []"
    proof -
    have "con_times st < 36 ^ CONTAINER_ID_LENGTH" using t by linarith
    from tail_write_ok [OF b(2) this, of False] that show ?thesis by blast
  qed
  obtain d1 d2 st2 qd where wd: "tail_stream (delta_stream st) = Inr d1" "write_last True d1 st1 = Inr (d2, st2)"
    "inputMQ st2 = inputMQ st1 @ qd" "disk st2 = disk st1"
    "\<forall>c \<in> set qd. key_of c = (True, containerID (outCon (delta_stream st))) \<and> packed True c rd"
    "rd \<noteq> [] \<longrightarrow> qd \<noteq> []"
    proof -
    have "con_times st1 < 36 ^ CONTAINER_ID_LENGTH" using t wb(5) by linarith
    from tail_write_ok [OF d(2) this, of True] that show ?thesis by blast
  qed
  let ?q = "inputMQ st @ qb @ qd"
  have keys: "cur_key st False = (False, containerID (outCon (base_stream st)))"
    "cur_key st True = (True, containerID (outCon (delta_stream st)))"
    by (simp_all add: cur_key_def current_def)
  have q: "in_queue ?q cat"
    using st wb(6) wd(5) b(1) d(1) unfolding keys
    by (auto simp: store_ok_def in_queue_def key_of_def)
  obtain files where f: "DataWriter_run ?q (disk st) = Inr files" "on_disk files cat"
    "dom files = key_of ` set ?q \<union> dom (disk st)"
    using DataWriter_run_ok [OF q, of "disk st"] st unfolding store_ok_def by blast
  have "end_upload st = Inr ((st2\<lparr>base_stream := b2, delta_stream := d2\<rparr>)\<lparr>inputMQ := [], disk := files\<rparr>)"
    using wb(1,3,4) wd(1,3,4) f(1) write_last_streams [OF wb(2), of d1 b1] write_last_streams [OF wd(2), of d1 b1]
    by (simp add: end_upload_def ProcessTail_containers_def Receiver_finish_def)
  moreover have "k \<in> dom files" if k: "cat k = Some rs" "rs \<noteq> []" for k rs
  proof -
    have "k \<in> used st \<union> range (cur_key st)" using st k(1) by (auto simp: store_ok_def)
    then consider "k \<in> used st" | "k = cur_key st False" | "k = cur_key st True" by (cases "k \<in> used st") (auto simp: UNIV_bool)
    then show ?thesis
    proof cases
      case 1
      then show ?thesis by (auto simp: f(3) used_def)
    next
      case 2
      then have "qb \<noteq> []" using k b(1) wb(7) by simp
      then obtain c where "c \<in> set qb" by (cases qb) auto
      with 2 wb(6) show ?thesis unfolding f(3) keys by force
    next
      case 3
      then have "qd \<noteq> []" using k d(1) wd(6) by simp
      then obtain c where "c \<in> set qd" by (cases qd) auto
      with 3 wd(5) show ?thesis unfolding f(3) keys by force
    qed
  qed
  ultimately show ?thesis using f(2) by auto
qed

end
