(* ===== verification/Storage_Props.thy ===== *)
theory Storage_Props imports Storage_Correct begin

text \<open>
  The properties of container names and container storage, with a small session as witness.
\<close>

section \<open>A small session\<close>

abbreviation iv0 :: "byte list" where "iv0 \<equiv> replicate 16 0"
abbreviation fp0 :: "byte list" where "fp0 \<equiv> replicate 32 0"
abbreviation sf0 :: "byte list" where "sf0 \<equiv> replicate 96 0"

abbreviation addr0 :: RecipeEntry_t where
  "addr0 \<equiv> \<lparr>containerName = replicate 7 0, re_deltaFlag = 0, re_offset = 0, re_length = 0,
     basechunkHash = fp0, superfeature = sf0\<rparr>"

lemma chunk_ok_small: "chunk_ok [1, 2, 3] addr0 sf0 fp0 iv0"
  by (simp add: chunk_ok_def srec_size_def size_consts sizeof_RecipeEntry_def)

lemma start_small: "\<exists>st. InitUpload iv0 = Inr st \<and> session st [] \<and> con_times st = 3 \<and> st_iv st = iv0"
proof -
  have "(1 :: nat) < 36 ^ CONTAINER_ID_LENGTH" "(2 :: nat) < 36 ^ CONTAINER_ID_LENGTH"
    by (simp_all add: size_consts)
  then obtain n1 n2 where "CreateUUID CONTAINER_ID_LENGTH 1 = Inr n1" "CreateUUID CONTAINER_ID_LENGTH 2 = Inr n2"
    using CreateUUID_Inr [of CONTAINER_ID_LENGTH] by (metis CONTAINER_ID_LENGTH_def zero_less_numeral)
  then obtain st where st: "InitUpload iv0 = Inr st" "con_times st = 3" "st_iv st = iv0"
    by (simp add: InitUpload_def new_stream_def)
  have "session st []" by (rule session.start [OF _ st(1)]) (simp add: size_consts)
  with st show ?thesis by blast
qed

lemma save_total:
  assumes s: "session st hs" and c: "chunk_ok data addr sf fp (st_iv st)"
    and t: "con_times st < 36 ^ CONTAINER_ID_LENGTH"
  shows "(\<exists>addr' st'. SavebaseChunk data addr sf fp st = Inr (addr', st')) \<and>
    (\<exists>addr' st'. SavedeltaChunk data addr sf fp st = Inr (addr', st'))"
proof -
  obtain cat where cat: "store_ok st cat" using session_ok [OF s] by blast
  let ?a1 = "addr\<lparr>re_length := word_of_nat (length data), superfeature := sf\<rparr>"
  let ?a2 = "addr\<lparr>re_length := word_of_nat (length data)\<rparr>"
  have c12: "chunk_ok data ?a1 sf fp (st_iv st)" "chunk_ok data ?a2 sf fp (st_iv st)"
    "re_length ?a1 = word_of_nat (length data)" "re_length ?a2 = word_of_nat (length data)"
    using c by (simp_all add: chunk_ok_def)
  obtain a1 s1 st1 where 1: "save_record False data ?a1 sf fp (current st False) st = Inr (a1, s1, st1)"
    by (rule save_record_ok [OF cat c12(1,3) disjI2 [OF t], of False])
  obtain a2 s2 st2 where 2: "save_record True data ?a2 sf fp (current st True) st = Inr (a2, s2, st2)"
    by (rule save_record_ok [OF cat c12(2,4) disjI2 [OF t], of True])
  show ?thesis using 1 2 by (simp add: SavebaseChunk_save SavedeltaChunk_save)
qed

lemma session_small:
  "\<exists>st addr. session st [(False, \<lparr>s_addr = addr, s_fp = fp0, s_sf = sf0, s_data = [1, 2, 3], s_iv = iv0\<rparr>)]
     \<and> Suc (con_times st) < 36 ^ CONTAINER_ID_LENGTH"
proof -
  obtain st where st: "session st []" "con_times st = 3" "st_iv st = iv0" using start_small by blast
  have t: "con_times st < 36 ^ CONTAINER_ID_LENGTH" by (simp add: st(2) size_consts)
  have c: "chunk_ok [1, 2, 3] addr0 sf0 fp0 (st_iv st)" using chunk_ok_small by (simp only: st(3))
  obtain addr' st' where s: "SavebaseChunk [1, 2, 3] addr0 sf0 fp0 st = Inr (addr', st')"
    using save_total [OF st(1) c t] by blast
  have "con_times st' \<le> 4"
    using s st(2) by (auto simp: SavebaseChunk_def save_record_def flush_stream_def write_container_def
        Let_def res_bind_eq_Inr split: if_splits)
  then have "Suc (con_times st') < 36 ^ CONTAINER_ID_LENGTH" by (simp add: size_consts)
  with session.base [OF st(1) c s] show ?thesis unfolding st(3) by blast
qed

section \<open>Properties\<close>


text \<open>
  C5: A saved chunk stays readable: in every reachable state of a session, whatever was saved
  and flushed after it and however far the writer thread has come, the container its recipe
  names holds its fingerprint, features, content and iv at the offset the recipe gives.
\<close>

theorem stored_chunk_readable:
  assumes "session st hs" "(flag, r) \<in> set hs"
  shows "\<exists>c. view st (flag, containerName (s_addr r)) = Some c \<and> reads_back c r"
proof -
  obtain cat where cat: "store_ok st cat" "history_ok hs cat" using session_ok [OF assms(1)] by blast
  then obtain rs where "cat (flag, containerName (s_addr r)) = Some rs" "r \<in> set rs"
    using history_okD assms(2) by blast
  with store_ok_reads [OF cat(1)] show ?thesis by blast
qed

theorem stored_chunk_readable_witness:
  "\<exists>st addr c. view st (False, containerName addr) = Some c \<and>
     reads_back c \<lparr>s_addr = addr, s_fp = fp0, s_sf = sf0, s_data = [1, 2, 3], s_iv = iv0\<rparr>"
proof -
  obtain st addr where s: "session st [(False, \<lparr>s_addr = addr, s_fp = fp0, s_sf = sf0, s_data = [1, 2, 3], s_iv = iv0\<rparr>)]"
    using session_small by blast
  from stored_chunk_readable [OF s, of False] show ?thesis by fastforce
qed

text \<open>
  C6: Saving is safe: in every reachable state a chunk that fits an empty container is saved
  without leaving a buffer, as long as the name counter has not run out.
\<close>

theorem save_safe:
  assumes "session st hs" "chunk_ok data addr sf fp (st_iv st)"
    "con_times st < 36 ^ CONTAINER_ID_LENGTH"
  shows "(\<exists>addr' st'. SavebaseChunk data addr sf fp st = Inr (addr', st')) \<and>
    (\<exists>addr' st'. SavedeltaChunk data addr sf fp st = Inr (addr', st'))"
  by (rule save_total [OF assms])

theorem save_safe_witness:
  "\<exists>st addr' st'. InitUpload iv0 = Inr st \<and> SavedeltaChunk [1, 2, 3] addr0 sf0 fp0 st = Inr (addr', st')"
proof -
  obtain st where st: "InitUpload iv0 = Inr st" "session st []" "con_times st = 3" "st_iv st = iv0"
    using start_small by blast
  have "con_times st < 36 ^ CONTAINER_ID_LENGTH" by (simp add: st(3) size_consts)
  with save_safe [OF st(2), of "[1, 2, 3]" addr0 sf0 fp0] chunk_ok_small st(1,4) show ?thesis by auto
qed

text \<open>
  C7: An upload is durable: when its end has been processed and the writer has worked off the
  queue, every chunk saved in the session can be read back from the files on disk.
\<close>

theorem upload_durable:
  assumes "session st hs" "Suc (con_times st) < 36 ^ CONTAINER_ID_LENGTH"
  shows "\<exists>st'. end_upload st = Inr st' \<and> (\<forall>(flag, r) \<in> set hs.
    \<exists>c. disk st' (flag, containerName (s_addr r)) = Some c \<and> reads_back c r)"
proof -
  obtain cat where cat: "store_ok st cat" "history_ok hs cat" using session_ok [OF assms(1)] by blast
  obtain st' where st': "end_upload st = Inr st'" "on_disk (disk st') cat"
    "\<forall>k rs. cat k = Some rs \<and> rs \<noteq> [] \<longrightarrow> k \<in> dom (disk st')"
    using end_upload_ok [OF cat(1) assms(2)] by blast
  have "\<exists>c. disk st' (flag, containerName (s_addr r)) = Some c \<and> reads_back c r"
    if h: "(flag, r) \<in> set hs" for flag r
  proof -
    obtain rs where rs: "cat (flag, containerName (s_addr r)) = Some rs" "r \<in> set rs"
      using history_okD [OF cat(2) h] by blast
    then obtain c where c: "disk st' (flag, containerName (s_addr r)) = Some c"
      using st'(3) by (metis domD empty_iff list.set(1))
    then have "c = content rs" "placed (containerName (s_addr r)) 0 rs"
      using st'(2) rs(1) unfolding on_disk_def by fastforce+
    with c placed_reads_back [of _ "[]" rs r "[]"] rs(2) show ?thesis by auto
  qed
  with st'(1) show ?thesis by blast
qed

theorem upload_durable_witness:
  "\<exists>st st' addr c. end_upload st = Inr st' \<and> disk st' (False, containerName addr) = Some c \<and>
     reads_back c \<lparr>s_addr = addr, s_fp = fp0, s_sf = sf0, s_data = [1, 2, 3], s_iv = iv0\<rparr>"
proof -
  obtain st addr where s: "session st [(False, \<lparr>s_addr = addr, s_fp = fp0, s_sf = sf0, s_data = [1, 2, 3], s_iv = iv0\<rparr>)]"
    "Suc (con_times st) < 36 ^ CONTAINER_ID_LENGTH"
    using session_small by blast
  from upload_durable [OF s] show ?thesis by fastforce
qed

end
