(* ===== verification/Lru.thy ===== *)
theory Lru imports Prelude begin

text \<open>
  The LRU cache \<open>include/lruCache.h\<close>: a hash map from keys to nodes of a linked list that is
  kept in order of use, most recent first.  A list iterator is the identity of its node; the
  hash map is an association list, whose order nothing depends on.

  The contract of the cache is the locale \<open>lru_store\<close>; the container caches rest on it.
\<close>

section \<open>State and operations\<close>

record ('k, 'v) lru_node =
  node_id :: nat
  node_key :: 'k
  node_value :: 'v

record ('k, 'v) lru =
  cache_map :: "('k \<times> nat) list"
  keys_list :: "('k, 'v) lru_node list"
  next_node :: nat
  max_size :: nat
  elasticity :: nat

definition lru_new :: "nat \<Rightarrow> nat \<Rightarrow> ('k, 'v) lru" where
  "lru_new maxSize el =
     \<lparr>cache_map = [], keys_list = [], next_node = 0, max_size = maxSize, elasticity = el\<rparr>"

definition lru_size :: "('k, 'v) lru \<Rightarrow> nat" where
  "lru_size c = length (cache_map c)"

definition contains :: "'k \<Rightarrow> ('k, 'v) lru \<Rightarrow> bool" where
  "contains k c \<longleftrightarrow> map_of (cache_map c) k \<noteq> None"

definition lru_clear :: "('k, 'v) lru \<Rightarrow> ('k, 'v) lru" where
  "lru_clear c = c\<lparr>cache_map := [], keys_list := []\<rparr>"

text \<open>\<open>splice (begin (), keys_, it)\<close>: move a node to the front.\<close>

definition node_at :: "nat \<Rightarrow> ('k, 'v) lru_node list \<Rightarrow> ('k, 'v) lru_node option" where
  "node_at it ns = find (\<lambda>n. node_id n = it) ns"

definition splice_front :: "nat \<Rightarrow> ('k, 'v) lru_node list \<Rightarrow> ('k, 'v) lru_node list" where
  "splice_front it ns =
     (case node_at it ns of Some n \<Rightarrow> n # filter (\<lambda>n. node_id n \<noteq> it) ns | None \<Rightarrow> ns)"

definition set_value :: "nat \<Rightarrow> 'v \<Rightarrow> ('k, 'v) lru_node list \<Rightarrow> ('k, 'v) lru_node list" where
  "set_value it v = map (\<lambda>n. if node_id n = it then n\<lparr>node_value := v\<rparr> else n)"

text \<open>The loop of \<open>prune\<close>: the key of the last node leaves the map, and the node the list.\<close>

function prune_loop ::
    "nat \<Rightarrow> ('k \<times> nat) list \<Rightarrow> ('k, 'v) lru_node list \<Rightarrow> ('k \<times> nat) list \<times> ('k, 'v) lru_node list" where
  "prune_loop m ca ns =
     (if m < length ca \<and> ns \<noteq> []
      then prune_loop m (filter (\<lambda>e. fst e \<noteq> node_key (last ns)) ca) (butlast ns)
      else (ca, ns))"
  by pat_completeness auto
termination
  by (relation "measure (\<lambda>(m, ca, ns). length ns)") auto

declare prune_loop.simps [simp del]

definition prune :: "('k, 'v) lru \<Rightarrow> ('k, 'v) lru" where
  "prune c =
     (let maxAllowed = max_size c + elasticity c in
      if max_size c = 0 \<or> lru_size c < maxAllowed then c
      else let (ca, ns) = prune_loop (max_size c) (cache_map c) (keys_list c)
           in c\<lparr>cache_map := ca, keys_list := ns\<rparr>)"

definition lru_insert :: "'k \<Rightarrow> 'v \<Rightarrow> ('k, 'v) lru \<Rightarrow> ('k, 'v) lru" where
  "lru_insert k v c =
     (case map_of (cache_map c) k of
        Some it \<Rightarrow> c\<lparr>keys_list := splice_front it (set_value it v (keys_list c))\<rparr>
      | None \<Rightarrow>
          prune (c\<lparr>keys_list := \<lparr>node_id = next_node c, node_key = k, node_value = v\<rparr> # keys_list c,
                   cache_map := (k, next_node c) # cache_map c, next_node := Suc (next_node c)\<rparr>))"

definition tryGet :: "'k \<Rightarrow> ('k, 'v) lru \<Rightarrow> 'v option \<times> ('k, 'v) lru" where
  "tryGet k c =
     (case map_of (cache_map c) k of
        None \<Rightarrow> (None, c)
      | Some it \<Rightarrow> (map_option node_value (node_at it (keys_list c)), c\<lparr>keys_list := splice_front it (keys_list c)\<rparr>))"

definition lru_get :: "'k \<Rightarrow> ('k, 'v) lru \<Rightarrow> ('v \<times> ('k, 'v) lru) res" where
  "lru_get k c =
     (case tryGet k c of (Some v, c') \<Rightarrow> Inr (v, c') | (None, c') \<Rightarrow> Inl KeyNotFound)"

definition lru_remove :: "'k \<Rightarrow> ('k, 'v) lru \<Rightarrow> bool \<times> ('k, 'v) lru" where
  "lru_remove k c =
     (case map_of (cache_map c) k of
        None \<Rightarrow> (False, c)
      | Some it \<Rightarrow> (True, c\<lparr>keys_list := filter (\<lambda>n. node_id n \<noteq> it) (keys_list c),
                             cache_map := filter (\<lambda>e. fst e \<noteq> k) (cache_map c)\<rparr>))"

text \<open>\<open>pruneValue\<close>: the value of the least recently used key; \<open>back ()\<close> of an empty list is undefined.\<close>

definition pruneValue :: "('k, 'v) lru \<Rightarrow> 'v res" where
  "pruneValue c =
     (if keys_list c = [] then Inl OutOfBounds
      else case map_of (cache_map c) (node_key (last (keys_list c))) of
             None \<Rightarrow> Inl KeyNotFound
           | Some it \<Rightarrow> (case node_at it (keys_list c) of Some n \<Rightarrow> Inr (node_value n) | None \<Rightarrow> Inl NullPtr))"

section \<open>Invariant and abstraction\<close>

text \<open>
  The map holds exactly the keys of the list, each with the identity of its node.  The list,
  read as pairs of key and value, is what the cache means.
\<close>

definition entry_of :: "('k, 'v) lru_node \<Rightarrow> 'k \<times> nat" where
  "entry_of n = (node_key n, node_id n)"

definition pair_of :: "('k, 'v) lru_node \<Rightarrow> 'k \<times> 'v" where
  "pair_of n = (node_key n, node_value n)"

definition lru_ok :: "('k, 'v) lru \<Rightarrow> bool" where
  "lru_ok c \<longleftrightarrow> set (cache_map c) = entry_of ` set (keys_list c) \<and> distinct (map fst (cache_map c)) \<and>
     distinct (map node_key (keys_list c)) \<and> distinct (map node_id (keys_list c)) \<and>
     (\<forall>n \<in> set (keys_list c). node_id n < next_node c) \<and>
     (0 < max_size c \<longrightarrow> lru_size c \<le> max_size c + elasticity c)"

definition lru_abs :: "('k, 'v) lru \<Rightarrow> ('k \<times> 'v) list" where
  "lru_abs c = map pair_of (keys_list c)"

text \<open>The abstract cache: a list of pairs in order of use.\<close>

definition spec_use :: "'k \<Rightarrow> ('k \<times> 'v) list \<Rightarrow> ('k \<times> 'v) list" where
  "spec_use k l = (case map_of l k of Some v \<Rightarrow> (k, v) # filter (\<lambda>p. fst p \<noteq> k) l | None \<Rightarrow> l)"

definition spec_insert :: "nat \<Rightarrow> nat \<Rightarrow> 'k \<Rightarrow> 'v \<Rightarrow> ('k \<times> 'v) list \<Rightarrow> ('k \<times> 'v) list" where
  "spec_insert m el k v l =
     (if k \<in> fst ` set l then (k, v) # filter (\<lambda>p. fst p \<noteq> k) l
      else if m = 0 \<or> Suc (length l) < m + el then (k, v) # l
      else take m ((k, v) # l))"

lemma lru_size_keys:
  assumes "lru_ok c"
  shows "lru_size c = length (keys_list c)"
proof -
  have d: "distinct (map fst (cache_map c))" "distinct (map node_key (keys_list c))"
    and s: "set (cache_map c) = entry_of ` set (keys_list c)" using assms by (auto simp: lru_ok_def)
  have "fst ` set (cache_map c) = node_key ` set (keys_list c)"
    unfolding s by (force simp: entry_of_def image_iff)
  then have "card (set (map fst (cache_map c))) = card (set (map node_key (keys_list c)))" by simp
  then show ?thesis
    using d by (simp add: distinct_card lru_size_def del: set_map)
qed

lemma map_of_cache:
  assumes "lru_ok c"
  shows "map_of (cache_map c) k = Some it \<longleftrightarrow> (\<exists>n \<in> set (keys_list c). node_key n = k \<and> node_id n = it)"
proof -
  have "map_of (cache_map c) k = Some it \<longleftrightarrow> (k, it) \<in> set (cache_map c)"
    using assms by (simp add: lru_ok_def)
  also have "\<dots> \<longleftrightarrow> (\<exists>n \<in> set (keys_list c). node_key n = k \<and> node_id n = it)"
    using assms by (auto simp: lru_ok_def entry_of_def image_iff)
  finally show ?thesis .
qed

lemma map_of_cache_None:
  assumes "lru_ok c"
  shows "map_of (cache_map c) k = None \<longleftrightarrow> (\<forall>n \<in> set (keys_list c). node_key n \<noteq> k)"
  using map_of_cache [OF assms] by (metis not_None_eq)

lemma node_at_eq:
  assumes "distinct (map node_id ns)" "n \<in> set ns"
  shows "node_at (node_id n) ns = Some n"
  using assms unfolding node_at_def by (induction ns) auto

lemma filter_id_key:
  assumes "distinct (map node_id ns)" "distinct (map node_key ns)" "n \<in> set ns"
  shows "filter (\<lambda>m. node_id m \<noteq> node_id n) ns = filter (\<lambda>m. node_key m \<noteq> node_key n) ns"
proof (rule filter_cong [OF refl])
  fix m assume "m \<in> set ns"
  then show "node_id m \<noteq> node_id n \<longleftrightarrow> node_key m \<noteq> node_key n"
    using assms by (metis distinct_map inj_onD)
qed

lemma lru_abs_map_of:
  assumes "lru_ok c" "n \<in> set (keys_list c)"
  shows "map_of (lru_abs c) (node_key n) = Some (node_value n)"
proof -
  have "distinct (map fst (lru_abs c))"
    using assms(1) by (simp add: lru_ok_def lru_abs_def pair_of_def comp_def)
  then show ?thesis
    using assms(2) by (force simp: lru_abs_def pair_of_def)
qed

section \<open>Functional correctness\<close>

lemma splice_front_eq:
  assumes "distinct (map node_id ns)" "n \<in> set ns"
  shows "splice_front (node_id n) ns = n # filter (\<lambda>m. node_id m \<noteq> node_id n) ns"
  using assms by (simp add: splice_front_def node_at_eq)

lemma filter_pairs:
  "map pair_of (filter (\<lambda>m. node_key m \<noteq> k) ns) = filter (\<lambda>p. fst p \<noteq> k) (map pair_of ns)"
  by (simp add: filter_map comp_def pair_of_def)

lemma move_front_ok:
  assumes c: "lru_ok c" and n: "n \<in> set (keys_list c)"
  shows "lru_ok (c\<lparr>keys_list := n\<lparr>node_value := v\<rparr> # filter (\<lambda>m. node_id m \<noteq> node_id n) (keys_list c)\<rparr>)"
proof -
  let ?f = "filter (\<lambda>m. node_id m \<noteq> node_id n) (keys_list c)"
  have k: "?f = filter (\<lambda>m. node_key m \<noteq> node_key n) (keys_list c)"
    using filter_id_key c n by (auto simp: lru_ok_def)
  have "entry_of ` set (n\<lparr>node_value := v\<rparr> # ?f) = entry_of ` set (keys_list c)"
  proof -
    have "entry_of (n\<lparr>node_value := v\<rparr>) = entry_of n" by (simp add: entry_of_def)
    moreover have "entry_of ` set ?f \<union> {entry_of n} = entry_of ` set (keys_list c)"
      using n by (auto simp: entry_of_def image_iff)
        (metis c distinct_map inj_onD lru_ok_def)
    ultimately show ?thesis by auto
  qed
  moreover have "distinct (map node_key (n\<lparr>node_value := v\<rparr> # ?f))"
    using c by (auto simp: k lru_ok_def distinct_map_filter)
  moreover have "distinct (map node_id (n\<lparr>node_value := v\<rparr> # ?f))"
    using c by (auto simp: lru_ok_def distinct_map_filter)
  ultimately show ?thesis
    using c n by (auto simp: lru_ok_def lru_size_def)
qed

lemma tryGet_correct:
  assumes "lru_ok c"
  shows "fst (tryGet k c) = map_of (lru_abs c) k" and "lru_ok (snd (tryGet k c))"
    and "lru_abs (snd (tryGet k c)) = spec_use k (lru_abs c)"
proof -
  have "fst (tryGet k c) = map_of (lru_abs c) k \<and> lru_ok (snd (tryGet k c)) \<and>
    lru_abs (snd (tryGet k c)) = spec_use k (lru_abs c)"
  proof (cases "map_of (cache_map c) k")
    case None
    then have "k \<notin> fst ` set (lru_abs c)"
      using map_of_cache_None [OF assms] by (auto simp: lru_abs_def pair_of_def)
    then have "map_of (lru_abs c) k = None" by (simp add: map_of_eq_None_iff)
    with None assms show ?thesis by (simp add: tryGet_def spec_use_def)
  next
    case (Some it)
    then obtain n where n: "n \<in> set (keys_list c)" "node_key n = k" "node_id n = it"
      using map_of_cache [OF assms] by blast
    have d: "distinct (map node_id (keys_list c))" "distinct (map node_key (keys_list c))"
      using assms by (auto simp: lru_ok_def)
    have t: "tryGet k c = (Some (node_value n),
        c\<lparr>keys_list := n # filter (\<lambda>m. node_id m \<noteq> node_id n) (keys_list c)\<rparr>)"
      using Some n d by (auto simp: tryGet_def node_at_eq splice_front_eq)
    have "lru_ok (c\<lparr>keys_list := n # filter (\<lambda>m. node_id m \<noteq> node_id n) (keys_list c)\<rparr>)"
      using move_front_ok [OF assms n(1), of "node_value n"] by simp
    moreover have "map_of (lru_abs c) k = Some (node_value n)"
      using lru_abs_map_of [OF assms n(1)] n(2) by simp
    ultimately show ?thesis
      using n(2) filter_id_key [OF d n(1)]
      by (simp add: t spec_use_def lru_abs_def filter_pairs) (simp add: pair_of_def)
  qed
  then show "fst (tryGet k c) = map_of (lru_abs c) k" "lru_ok (snd (tryGet k c))"
    "lru_abs (snd (tryGet k c)) = spec_use k (lru_abs c)" by auto
qed


text \<open>The pruning loop cuts the list to its first \<open>m\<close> nodes, and the map with it.\<close>

lemma prune_loop_eq:
  assumes "set ca = entry_of ` set ns" "distinct (map fst ca)" "distinct (map node_key ns)"
  shows "prune_loop m ca ns = (filter (\<lambda>e. fst e \<in> node_key ` set (take m ns)) ca, take m ns)"
  using assms
proof (induction m ca ns rule: prune_loop.induct)
  case (1 m ca ns)
  have "fst ` set ca = node_key ` set ns"
    unfolding 1(2) by (force simp: entry_of_def image_iff)
  then have "card (set (map fst ca)) = card (set (map node_key ns))" by simp
  then have len: "length ca = length ns"
    using 1(3,4) by (simp add: distinct_card del: set_map)
  have all: "fst e \<in> node_key ` set ns" if "e \<in> set ca" for e
    using that \<open>fst ` set ca = node_key ` set ns\<close> by (metis image_eqI)
  show ?case
  proof (cases "m < length ca \<and> ns \<noteq> []")
    case False
    then have "take m ns = ns" using len by auto
    moreover have "prune_loop m ca ns = (ca, ns)"
      by (subst prune_loop.simps) (rule if_not_P [OF False])
    ultimately show ?thesis using all by simp
  next
    case True
    define x where "x = last ns"
    have ns: "ns = butlast ns @ [x]" using True by (simp add: x_def)
    have x: "node_key x \<notin> node_key ` set (butlast ns)"
      using 1(4) by (subst (asm) ns) simp
    let ?ca = "filter (\<lambda>e. fst e \<noteq> node_key x) ca"
    have "set ?ca = {e \<in> entry_of ` set ns. fst e \<noteq> node_key x}" by (simp add: 1(2))
    also have "\<dots> = entry_of ` set (butlast ns)"
    proof -
      have "set ns = insert x (set (butlast ns))" by (subst ns) simp
      then show ?thesis using x by (force simp: entry_of_def image_iff)
    qed
    finally have s: "set ?ca = entry_of ` set (butlast ns)" .
    have d: "distinct (map fst ?ca)" using 1(3) by (simp add: distinct_map_filter)
    have dk: "distinct (map node_key (butlast ns))"
      using 1(4) by (simp add: map_butlast distinct_butlast)
    have t: "take m (butlast ns) = take m ns" using True len by (simp add: take_butlast)
    have "x \<notin> set (take m ns)"
      using x set_take_subset [of m "butlast ns"] unfolding t by auto
    have nx: "node_key x \<notin> node_key ` set (take m ns)"
      using x set_take_subset [of m "butlast ns"] unfolding t by auto
    have "prune_loop m ca ns = prune_loop m ?ca (butlast ns)"
      using True by (simp add: prune_loop.simps [of m ca ns] x_def)
    also have "\<dots> = (filter (\<lambda>e. fst e \<in> node_key ` set (take m ns)) ?ca, take m ns)"
      using 1(1) [OF True] s d dk by (simp add: x_def t)
    also have "filter (\<lambda>e. fst e \<in> node_key ` set (take m ns)) ?ca
        = filter (\<lambda>e. fst e \<in> node_key ` set (take m ns)) ca"
      unfolding filter_filter by (rule filter_cong [OF refl]) (use nx in metis)
    finally show ?thesis .
  qed
qed

lemma lru_new_ok: "lru_ok (lru_new m el)" and lru_new_abs: "lru_abs (lru_new m el) = []"
  by (simp_all add: lru_ok_def lru_new_def lru_abs_def lru_size_def)

lemma lru_insert_hit:
  assumes c: "lru_ok c" and k: "k \<in> fst ` set (lru_abs c)"
  shows "lru_ok (lru_insert k v c) \<and> lru_abs (lru_insert k v c) = (k, v) # filter (\<lambda>p. fst p \<noteq> k) (lru_abs c)"
proof -
  obtain n where n: "n \<in> set (keys_list c)" "node_key n = k"
    using k by (auto simp: lru_abs_def pair_of_def)
  have d: "distinct (map node_id (keys_list c))" "distinct (map node_key (keys_list c))"
    using c by (auto simp: lru_ok_def)
  let ?g = "\<lambda>m. if node_id m = node_id n then m\<lparr>node_value := v\<rparr> else m"
  have it: "map_of (cache_map c) k = Some (node_id n)" using map_of_cache [OF c] n by blast
  have ids: "map node_id (map ?g (keys_list c)) = map node_id (keys_list c)" by simp
  have "n\<lparr>node_value := v\<rparr> \<in> set (map ?g (keys_list c))" using n(1) by (force simp: image_iff)
  moreover have "distinct (map node_id (map ?g (keys_list c)))" using d(1) by (simp only: ids)
  ultimately have "splice_front (node_id (n\<lparr>node_value := v\<rparr>)) (map ?g (keys_list c))
      = n\<lparr>node_value := v\<rparr> # filter (\<lambda>m. node_id m \<noteq> node_id (n\<lparr>node_value := v\<rparr>)) (map ?g (keys_list c))"
    by (rule splice_front_eq [rotated])
  then have "splice_front (node_id n) (map ?g (keys_list c))
      = n\<lparr>node_value := v\<rparr> # filter (\<lambda>m. node_id m \<noteq> node_id n) (map ?g (keys_list c))" by simp
  moreover have "filter (\<lambda>m. node_id m \<noteq> node_id n) (map ?g (keys_list c))
      = filter (\<lambda>m. node_id m \<noteq> node_id n) (keys_list c)"
    by (auto simp: filter_map comp_def intro!: map_idI)
  ultimately have e: "lru_insert k v c = c\<lparr>keys_list := n\<lparr>node_value := v\<rparr> # filter (\<lambda>m. node_id m \<noteq> node_id n) (keys_list c)\<rparr>"
    using it by (simp add: lru_insert_def set_value_def)
  show ?thesis
    unfolding e using move_front_ok [OF c n(1)] n(2) filter_id_key [OF d n(1)]
    by (simp add: lru_abs_def filter_pairs) (simp add: pair_of_def)
qed

lemma prune_ok:
  fixes ns :: "('k, 'v) lru_node list"
  assumes s: "set ca = entry_of ` set ns" and d: "distinct (map fst ca)"
    and dk: "distinct (map node_key ns)" and di: "distinct (map node_id ns)"
    and b: "\<forall>n \<in> set ns. node_id n < nx"
    and c: "c = \<lparr>cache_map = ca, keys_list = ns, next_node = nx, max_size = m, elasticity = el\<rparr>"
  shows "lru_ok (prune c) \<and>
    keys_list (prune c) = (if m = 0 \<or> length ns < m + el then ns else take m ns)"
proof -
  have "fst ` set ca = node_key ` set ns"
    unfolding s by (force simp: entry_of_def image_iff)
  then have "card (set (map fst ca)) = card (set (map node_key ns))" by simp
  then have len: "length ca = length ns"
    using d dk by (simp add: distinct_card del: set_map)
  show ?thesis
  proof (cases "m = 0 \<or> length ns < m + el")
    case True
    then show ?thesis
      using s d dk di b len by (auto simp: c lru_ok_def prune_def lru_size_def)
  next
    case False
    let ?ca = "filter (\<lambda>e. fst e \<in> node_key ` set (take m ns)) ca"
    have p: "prune c = c\<lparr>cache_map := ?ca, keys_list := take m ns\<rparr>"
      using False len prune_loop_eq [OF s d dk, of m] by (simp add: prune_def lru_size_def c Let_def)
    have "set ?ca = entry_of ` set (take m ns)"
    proof -
      have "set ?ca = {e \<in> entry_of ` set ns. fst e \<in> node_key ` set (take m ns)}" by (simp add: s)
      also have "\<dots> = entry_of ` set (take m ns)"
      proof -
        have "x = y" if "x \<in> set ns" "y \<in> set (take m ns)" "node_key x = node_key y" for x y
          using that dk set_take_subset [of m ns] by (meson distinct_map inj_onD subsetD)
        then show ?thesis using set_take_subset [of m ns] by (fastforce simp: entry_of_def)
      qed
      finally show ?thesis .
    qed
    moreover have "distinct (map fst ?ca)" using d by (simp add: distinct_map_filter)
    moreover have tk: "distinct (map node_key (take m ns))" "distinct (map node_id (take m ns))"
      using dk di by (simp_all add: take_map [symmetric])
    ultimately have cc: "set ?ca = entry_of ` set (take m ns)" "distinct (map fst ?ca)" by auto
    have "fst ` set ?ca = node_key ` set (take m ns)"
      unfolding cc(1) by (force simp: entry_of_def image_iff)
    then have "card (set (map fst ?ca)) = card (set (map node_key (take m ns)))" by simp
    then have "length ?ca = length (take m ns)"
      using cc(2) tk by (simp only: distinct_card length_map)
    moreover have "\<forall>n \<in> set (take m ns). node_id n < nx" using b set_take_subset [of m ns] by blast
    ultimately show ?thesis
      unfolding p using False cc tk
      by (auto simp: lru_ok_def lru_size_def c simp del: set_filter)
  qed
qed

lemma lru_insert_miss:
  assumes c: "lru_ok c" and k: "k \<notin> fst ` set (lru_abs c)"
  shows "lru_ok (lru_insert k v c) \<and> lru_abs (lru_insert k v c) =
     (if max_size c = 0 \<or> Suc (length (lru_abs c)) < max_size c + elasticity c then (k, v) # lru_abs c
      else take (max_size c) ((k, v) # lru_abs c))"
proof -
  have nk: "\<forall>n \<in> set (keys_list c). node_key n \<noteq> k"
    using k by (force simp: lru_abs_def pair_of_def)
  then have none: "map_of (cache_map c) k = None" by (simp add: map_of_cache_None [OF c])
  let ?n = "\<lparr>node_id = next_node c, node_key = k, node_value = v\<rparr>"
  have kc: "k \<notin> fst ` set (cache_map c)" using none by (simp add: map_of_eq_None_iff)
  have e: "lru_insert k v c = prune \<lparr>cache_map = (k, next_node c) # cache_map c,
      keys_list = ?n # keys_list c, next_node = Suc (next_node c), max_size = max_size c,
      elasticity = elasticity c\<rparr>"
    using none by (cases c) (simp add: lru_insert_def)
  have "set ((k, next_node c) # cache_map c) = entry_of ` set (?n # keys_list c)"
    "distinct (map fst ((k, next_node c) # cache_map c))"
    "distinct (map node_key (?n # keys_list c))" "distinct (map node_id (?n # keys_list c))"
    "\<forall>n \<in> set (?n # keys_list c). node_id n < Suc (next_node c)"
    using c kc nk by (auto simp: lru_ok_def entry_of_def less_Suc_eq)
  note p = prune_ok [OF this refl, of "max_size c" "elasticity c"]
  have t: "map pair_of (take m (?n # keys_list c)) = take m ((k, v) # lru_abs c)" for m
    by (simp add: lru_abs_def take_map [symmetric] pair_of_def)
  show ?thesis
    unfolding e using p t by (auto simp: lru_abs_def pair_of_def)
qed

lemma lru_sizes [simp]:
  "max_size (lru_insert k v c) = max_size c" "elasticity (lru_insert k v c) = elasticity c"
  "max_size (snd (tryGet k c)) = max_size c" "elasticity (snd (tryGet k c)) = elasticity c"
  by (auto simp: lru_insert_def prune_def Let_def tryGet_def split: option.splits prod.splits)

lemma lru_insert_correct:
  assumes "lru_ok c"
  shows "lru_ok (lru_insert k v c)"
    and "lru_abs (lru_insert k v c) = spec_insert (max_size c) (elasticity c) k v (lru_abs c)"
  using lru_insert_hit [OF assms, of k v] lru_insert_miss [OF assms, of k v]
  by (auto simp: spec_insert_def)

lemma lru_remove_correct:
  assumes c: "lru_ok c"
  shows "fst (lru_remove k c) \<longleftrightarrow> k \<in> fst ` set (lru_abs c)"
    and "lru_ok (snd (lru_remove k c))"
    and "lru_abs (snd (lru_remove k c)) = filter (\<lambda>p. fst p \<noteq> k) (lru_abs c)"
proof -
  have "(fst (lru_remove k c) \<longleftrightarrow> k \<in> fst ` set (lru_abs c)) \<and> lru_ok (snd (lru_remove k c)) \<and>
    lru_abs (snd (lru_remove k c)) = filter (\<lambda>p. fst p \<noteq> k) (lru_abs c)"
  proof (cases "map_of (cache_map c) k")
    case None
    then have nk: "\<forall>n \<in> set (keys_list c). node_key n \<noteq> k" by (simp add: map_of_cache_None [OF c])
    then have "filter (\<lambda>p. fst p \<noteq> k) (lru_abs c) = lru_abs c"
      by (auto simp: lru_abs_def pair_of_def intro!: filter_True)
    moreover have "k \<notin> fst ` set (lru_abs c)" using nk by (auto simp: lru_abs_def pair_of_def)
    ultimately show ?thesis using None c by (simp add: lru_remove_def)
  next
    case (Some it)
    then obtain n where n: "n \<in> set (keys_list c)" "node_key n = k" "node_id n = it"
      using map_of_cache [OF c] by blast
    have d: "distinct (map node_id (keys_list c))" "distinct (map node_key (keys_list c))"
      using c by (auto simp: lru_ok_def)
    let ?f = "filter (\<lambda>m. node_id m \<noteq> it) (keys_list c)" and ?ca = "filter (\<lambda>e. fst e \<noteq> k) (cache_map c)"
    have f: "?f = filter (\<lambda>m. node_key m \<noteq> k) (keys_list c)"
      using filter_id_key [OF d n(1)] n by simp
    have "set ?ca = entry_of ` set ?f"
      unfolding f using c by (auto simp: lru_ok_def entry_of_def)
    moreover have "distinct (map fst ?ca)" "distinct (map node_key ?f)" "distinct (map node_id ?f)"
      using c by (auto simp: lru_ok_def distinct_map_filter)
    moreover have "0 < max_size c \<Longrightarrow> length ?ca \<le> max_size c + elasticity c"
      using c by (intro le_trans [OF length_filter_le]) (simp add: lru_ok_def lru_size_def)
    ultimately have "lru_ok (snd (lru_remove k c))"
      using c Some by (auto simp: lru_remove_def lru_ok_def lru_size_def)
    moreover have "k \<in> fst ` set (lru_abs c)" using n by (force simp: lru_abs_def pair_of_def)
    ultimately show ?thesis
      using Some by (simp add: lru_remove_def lru_abs_def f filter_pairs)
  qed
  then show "fst (lru_remove k c) \<longleftrightarrow> k \<in> fst ` set (lru_abs c)" "lru_ok (snd (lru_remove k c))"
    "lru_abs (snd (lru_remove k c)) = filter (\<lambda>p. fst p \<noteq> k) (lru_abs c)" by auto
qed

lemma pruneValue_correct:
  assumes c: "lru_ok c"
  shows "pruneValue c = (if lru_abs c = [] then Inl OutOfBounds else Inr (snd (last (lru_abs c))))"
proof (cases "keys_list c = []")
  case False
  define n where "n = last (keys_list c)"
  have n: "n \<in> set (keys_list c)" using False by (simp add: n_def)
  then have "map_of (cache_map c) (node_key n) = Some (node_id n)" using map_of_cache [OF c] by blast
  moreover have "node_at (node_id n) (keys_list c) = Some n" using c n node_at_eq by (auto simp: lru_ok_def)
  ultimately show ?thesis
    using False by (simp add: pruneValue_def lru_abs_def last_map pair_of_def n_def)
qed (simp add: pruneValue_def lru_abs_def)


section \<open>The contract of a bounded cache\<close>

text \<open>
  What the container caches use: a finite map that is full at \<open>cap\<close> entries; adding a new key
  to a full cache drops the entry that \<open>victim\<close> has named.
\<close>

locale bounded_cache =
  fixes good :: "'c \<Rightarrow> bool"
    and lookup :: "'c \<Rightarrow> 'k \<Rightarrow> 'v option"
    and cap :: "'c \<Rightarrow> nat"
    and count :: "'c \<Rightarrow> nat"
    and touch :: "'k \<Rightarrow> 'c \<Rightarrow> 'c"
    and add :: "'k \<Rightarrow> 'v \<Rightarrow> 'c \<Rightarrow> 'c"
    and victim :: "'c \<Rightarrow> 'v res"
  assumes finite_dom: "good c \<Longrightarrow> finite (dom (lookup c))"
    and card_dom: "good c \<Longrightarrow> card (dom (lookup c)) = count c"
    and count_cap: "good c \<Longrightarrow> count c \<le> cap c"
    and touch_good: "good c \<Longrightarrow> good (touch k c)"
    and touch_lookup: "good c \<Longrightarrow> lookup (touch k c) = lookup c"
    and add_good: "good c \<Longrightarrow> good (add k v c)"
    and add_cap: "good c \<Longrightarrow> cap (add k v c) = cap c"
    and add_room: "good c \<Longrightarrow> lookup c k = None \<Longrightarrow> count c < cap c \<Longrightarrow>
          lookup (add k v c) = (lookup c)(k \<mapsto> v)"
    and add_full: "good c \<Longrightarrow> lookup c k = None \<Longrightarrow> count c = cap c \<Longrightarrow>
          \<exists>k0 w. lookup c k0 = Some w \<and> victim c = Inr w \<and>
            (\<forall>v. lookup (add k v c) = (lookup c)(k0 := None, k \<mapsto> v))"

text \<open>The entries of a cache use the slots \<open>{0..<n}\<close>, each for one key.\<close>

definition slots :: "('k \<Rightarrow> nat option) \<Rightarrow> nat \<Rightarrow> bool" where
  "slots f n \<longleftrightarrow> inj_on f (dom f) \<and> ran f = {..<n}"

lemma slots_card: "slots f n \<Longrightarrow> finite (dom f) \<Longrightarrow> card (dom f) = n"
proof -
  assume s: "slots f n" and fin: "finite (dom f)"
  have "f ` dom f = Some ` ran f" by (force simp: ran_def dom_def)
  then have "f ` dom f = Some ` {..<n}" using s by (simp add: slots_def)
  then have "card (f ` dom f) = n" by (simp add: card_image)
  then show ?thesis using s by (simp add: slots_def card_image)
qed

lemma slots_extend:
  assumes "slots f n" "f k = None"
  shows "slots (f(k \<mapsto> n)) (Suc n)"
proof -
  have "f x \<noteq> Some n" for x using assms(1) by (auto simp: slots_def ran_def)
  then have "inj_on (f(k \<mapsto> n)) (dom (f(k \<mapsto> n)))"
    using assms unfolding slots_def inj_on_def by (auto simp: dom_def split: if_splits)
  then show ?thesis using assms by (auto simp: slots_def)
qed

lemma slots_replace:
  assumes "slots f n" "f k = None" "f k0 = Some w"
  shows "slots (f(k0 := None, k \<mapsto> w)) n"
    and "x \<noteq> k \<Longrightarrow> (f(k0 := None, k \<mapsto> w)) x = Some i \<Longrightarrow> f x = Some i \<and> i \<noteq> w"
proof -
  have only: "f x = Some w \<Longrightarrow> x = k0" for x
    using assms unfolding slots_def inj_on_def by (metis domI)
  let ?g = "f(k0 := None, k \<mapsto> w)"
  have "inj_on ?g (dom ?g)"
    using assms only unfolding slots_def inj_on_def by (auto simp: dom_def split: if_splits)
  moreover have "ran ?g = ran f"
  proof (intro set_eqI iffI)
    fix i assume "i \<in> ran ?g"
    then obtain x where "?g x = Some i" unfolding ran_def by blast
    then show "i \<in> ran f" using assms(3) by (auto split: if_splits intro: ranI)
  next
    fix i assume "i \<in> ran f"
    then obtain x where x: "f x = Some i" unfolding ran_def by blast
    show "i \<in> ran ?g"
    proof (cases "i = w")
      case True
      have "?g k = Some w" by simp
      then show ?thesis unfolding True by (rule ranI)
    next
      case False
      with x assms have "x \<noteq> k0" "x \<noteq> k" by auto
      then have "?g x = Some i" using x by simp
      then show ?thesis by (rule ranI)
    qed
  qed
  ultimately show "slots ?g n" using assms(1) by (simp add: slots_def)
  show "x \<noteq> k \<Longrightarrow> ?g x = Some i \<Longrightarrow> f x = Some i \<and> i \<noteq> w"
    using only by (auto split: if_splits)
qed

text \<open>A cache whose values are slots of a pool with \<open>cap\<close> slots.\<close>

locale slot_cache = bounded_cache good lookup cap count touch add victim
  for good :: "'c \<Rightarrow> bool"
    and lookup :: "'c \<Rightarrow> 'k \<Rightarrow> nat option"
    and cap :: "'c \<Rightarrow> nat"
    and count :: "'c \<Rightarrow> nat"
    and touch :: "'k \<Rightarrow> 'c \<Rightarrow> 'c"
    and add :: "'k \<Rightarrow> nat \<Rightarrow> 'c \<Rightarrow> 'c"
    and victim :: "'c \<Rightarrow> nat res"
begin

lemma slots_count:
  assumes "good c" "slots (lookup c) n"
  shows "count c = n"
  using assms slots_card [OF assms(2) finite_dom] card_dom by simp

text \<open>The two cases of a client that hands out the slots of a pool of \<open>cap c\<close> slots.\<close>

lemma add_fresh_slot:
  assumes "good c" "slots (lookup c) n" "lookup c k = None" "n < cap c"
  shows "slots (lookup (add k n c)) (Suc n)"
    and "lookup (add k n c) = (lookup c)(k \<mapsto> n)"
proof -
  show l: "lookup (add k n c) = (lookup c)(k \<mapsto> n)"
    using assms slots_count by (simp add: add_room)
  show "slots (lookup (add k n c)) (Suc n)" unfolding l by (rule slots_extend [OF assms(2,3)])
qed

lemma add_victim_slot:
  assumes "good c" "slots (lookup c) (cap c)" "lookup c k = None"
  obtains w where "victim c = Inr w" "w < cap c" "slots (lookup (add k w c)) (cap c)"
    "lookup (add k w c) k = Some w"
    "\<And>x i. x \<noteq> k \<Longrightarrow> lookup (add k w c) x = Some i \<Longrightarrow> lookup c x = Some i \<and> i \<noteq> w"
proof -
  obtain k0 w where w: "lookup c k0 = Some w" "victim c = Inr w"
      "\<And>v. lookup (add k v c) = (lookup c)(k0 := None, k \<mapsto> v)"
    using add_full [OF assms(1,3)] slots_count [OF assms(1,2)] by blast
  note r = slots_replace [OF assms(2,3) w(1)]
  have "w < cap c" using assms(2) w(1) by (auto simp: slots_def ran_def)
  with that [of w] w(2) r show thesis by (simp add: w(3))
qed

lemma touch_slots: "good c \<Longrightarrow> slots (lookup c) n \<Longrightarrow> slots (lookup (touch k c)) n"
  by (simp add: touch_lookup)

end

text \<open>The LRU cache without elasticity is such a cache.\<close>

definition lru_bounded :: "('k, 'v) lru \<Rightarrow> bool" where
  "lru_bounded c \<longleftrightarrow> lru_ok c \<and> elasticity c = 0 \<and> 0 < max_size c"

definition lru_lookup :: "('k, 'v) lru \<Rightarrow> 'k \<Rightarrow> 'v option" where
  "lru_lookup c = map_of (lru_abs c)"

definition lru_touch :: "'k \<Rightarrow> ('k, 'v) lru \<Rightarrow> ('k, 'v) lru" where
  "lru_touch k c = snd (tryGet k c)"

lemma lru_abs_distinct: "lru_ok c \<Longrightarrow> distinct (map fst (lru_abs c))"
  by (simp add: lru_ok_def lru_abs_def pair_of_def comp_def)

lemma contains_lookup: "lru_ok c \<Longrightarrow> contains k c \<longleftrightarrow> lru_lookup c k \<noteq> None"
proof -
  assume c: "lru_ok c"
  have "contains k c \<longleftrightarrow> \<not> (\<forall>n \<in> set (keys_list c). node_key n \<noteq> k)"
    using map_of_cache_None [OF c] by (simp add: contains_def)
  also have "\<dots> \<longleftrightarrow> k \<in> fst ` set (lru_abs c)" by (force simp: lru_abs_def pair_of_def)
  also have "\<dots> \<longleftrightarrow> lru_lookup c k \<noteq> None"
    by (simp add: lru_lookup_def map_of_eq_None_iff)
  finally show ?thesis .
qed

lemma lru_get_correct:
  assumes "lru_ok c"
  shows "lru_get k c = (case lru_lookup c k of None \<Rightarrow> Inl KeyNotFound | Some v \<Rightarrow> Inr (v, lru_touch k c))"
  using tryGet_correct(1) [OF assms, of k]
  by (cases "tryGet k c") (auto simp: lru_get_def lru_lookup_def lru_touch_def split: option.splits)

lemma filter_key_lookup: "map_of (filter (\<lambda>p. fst p \<noteq> k) l) = (map_of l)(k := None)"
  by (induction l) (auto simp: fun_eq_iff)

lemma spec_use_lookup:
  "distinct (map fst l) \<Longrightarrow> map_of (spec_use k l) = map_of l"
  by (rule ext) (auto simp: spec_use_def filter_key_lookup split: option.splits)


lemma butlast_lookup:
  assumes "distinct (map fst l)" "l \<noteq> []"
  shows "map_of (butlast l) = (map_of l)(fst (last l) := None)"
proof -
  have l: "l = butlast l @ [last l]" using assms(2) by simp
  have "distinct (map fst (butlast l @ [last l]))" using assms l by metis
  then have "fst (last l) \<notin> fst ` set (butlast l)" by simp
  then have n: "map_of (butlast l) (fst (last l)) = None" by (simp add: map_of_eq_None_iff)
  have "map_of l = map_of [last l] ++ map_of (butlast l)"
    by (subst l) (simp only: map_of_append)
  with n show ?thesis by (cases "last l") (auto simp: fun_eq_iff map_add_def split: option.splits)
qed

lemma lru_insert_room:
  assumes "lru_bounded c" "lru_lookup c k = None" "lru_size c < max_size c"
  shows "lru_lookup (lru_insert k v c) = (lru_lookup c)(k \<mapsto> v)"
proof -
  have c: "lru_ok c" "elasticity c = 0" using assms(1) by (auto simp: lru_bounded_def)
  have "k \<notin> fst ` set (lru_abs c)" using assms(2) by (simp add: lru_lookup_def map_of_eq_None_iff)
  then have "lru_abs (lru_insert k v c) = (k, v) # lru_abs c"
    using assms(3) c lru_size_keys [OF c(1)]
    by (simp add: lru_insert_correct spec_insert_def) (simp add: lru_abs_def)
  then show ?thesis by (simp add: lru_lookup_def)
qed

lemma lru_insert_full:
  assumes "lru_bounded c" "lru_lookup c k = None" "lru_size c = max_size c"
  shows "\<exists>k0 w. lru_lookup c k0 = Some w \<and> pruneValue c = Inr w \<and>
    (\<forall>v. lru_lookup (lru_insert k v c) = (lru_lookup c)(k0 := None, k \<mapsto> v))"
proof -
  have c: "lru_ok c" "elasticity c = 0" "0 < max_size c" using assms(1) by (auto simp: lru_bounded_def)
  have len: "length (lru_abs c) = max_size c"
    using assms(3) lru_size_keys [OF c(1)] by (simp add: lru_abs_def)
  then have ne: "lru_abs c \<noteq> []" using c(3) by auto
  have k: "k \<notin> fst ` set (lru_abs c)" using assms(2) by (simp add: lru_lookup_def map_of_eq_None_iff)
  have "lru_abs (lru_insert k v c) = (k, v) # butlast (lru_abs c)" for v
    using k len c by (simp add: lru_insert_correct spec_insert_def butlast_conv_take take_Cons')
  moreover have kl: "fst (last (lru_abs c)) \<noteq> k" using k ne by (metis imageI last_in_set)
  ultimately have "lru_lookup (lru_insert k v c) = (lru_lookup c)(fst (last (lru_abs c)) := None, k \<mapsto> v)" for v
    using butlast_lookup [OF lru_abs_distinct [OF c(1)] ne] by (simp add: lru_lookup_def)
  moreover have "lru_lookup c (fst (last (lru_abs c))) = Some (snd (last (lru_abs c)))"
    using ne lru_abs_distinct [OF c(1)] by (simp add: lru_lookup_def)
  moreover have "pruneValue c = Inr (snd (last (lru_abs c)))"
    using ne by (simp add: pruneValue_correct [OF c(1)])
  ultimately show ?thesis by blast
qed

interpretation lru: slot_cache lru_bounded lru_lookup max_size lru_size lru_touch lru_insert pruneValue
proof unfold_locales
  fix c :: "('k, nat) lru" and k v
  assume c: "lru_bounded c"
  then have ok: "lru_ok c" by (simp add: lru_bounded_def)
  show "finite (dom (lru_lookup c))" by (simp add: lru_lookup_def finite_dom_map_of)
  show "card (dom (lru_lookup c)) = lru_size c"
  proof -
    have "card (dom (lru_lookup c)) = card (set (map fst (lru_abs c)))"
      by (simp add: lru_lookup_def dom_map_of_conv_image_fst)
    then show ?thesis
      using lru_abs_distinct [OF ok] lru_size_keys [OF ok]
      by (simp add: distinct_card lru_abs_def del: set_map)
  qed
  show "lru_size c \<le> max_size c" using c by (auto simp: lru_bounded_def lru_ok_def)
  show "lru_bounded (lru_touch k c)" using c tryGet_correct(2) [OF ok] by (simp add: lru_bounded_def lru_touch_def)
  show "lru_lookup (lru_touch k c) = lru_lookup c"
    using lru_abs_distinct [OF ok] by (simp add: lru_lookup_def lru_touch_def tryGet_correct [OF ok] spec_use_lookup)
  show "lru_bounded (lru_insert k v c)" using c lru_insert_correct(1) [OF ok] by (simp add: lru_bounded_def)
  show "max_size (lru_insert k v c) = max_size c" by simp
  show "lru_lookup c k = None \<Longrightarrow> lru_size c < max_size c \<Longrightarrow>
      lru_lookup (lru_insert k v c) = (lru_lookup c)(k \<mapsto> v)"
    by (rule lru_insert_room [OF c])
  show "lru_lookup c k = None \<Longrightarrow> lru_size c = max_size c \<Longrightarrow>
      \<exists>k0 w. lru_lookup c k0 = Some w \<and> pruneValue c = Inr w \<and>
        (\<forall>v. lru_lookup (lru_insert k v c) = (lru_lookup c)(k0 := None, k \<mapsto> v))"
    by (rule lru_insert_full [OF c])
qed

end
