(* ===== verification/ContainerCache.thy ===== *)
theory ContainerCache imports Lru Storage_Correct begin

text \<open>
  The two container caches: \<open>ReadCache\<close> of the restore path (\<open>Util/readCache.cc\<close>) and
  \<open>InContainercache\<close> of the enclave (\<open>ecallUtil/ecallinContainercache.cc\<close>).  Both hand the
  slots of a pool of containers out in order and, once the cache is full, reuse the slot of the
  least recently used container.
\<close>

section \<open>State and operations\<close>

record slot_pool =
  pool_lru :: "(byte list, nat) lru"
  containerPool :: "byte list list"
  cacheSize :: nat
  currentIndex :: nat

text \<open>
  \<open>ReadCache\<close> keeps a cache of 64 entries whatever size is configured; only the pool has the
  configured number of slots.  \<open>InContainercache\<close> uses \<open>Cachesize\<close> for both.
\<close>

definition new_pool :: "nat \<Rightarrow> nat \<Rightarrow> slot_pool" where
  "new_pool entries n =
     \<lparr>pool_lru = lru_new entries 0, containerPool = replicate n (replicate MAX_CONTAINER_SIZE 0),
      cacheSize = n, currentIndex = 0\<rparr>"

definition ReadCache :: "nat \<Rightarrow> slot_pool" where
  "ReadCache readCacheSize = new_pool 64 readCacheSize"

text \<open>\<open>memcpy (containerPool_[i], data, length)\<close>.\<close>

definition pool_write :: "byte list list \<Rightarrow> nat \<Rightarrow> byte list \<Rightarrow> byte list list res" where
  "pool_write pool i data =
     (if i < length pool
      then res_bind (buf_write (pool ! i) 0 data) (\<lambda>b. Inr (pool[i := b])) else Inl OutOfBounds)"

definition InsertToCache_pool :: "byte list \<Rightarrow> byte list \<Rightarrow> slot_pool \<Rightarrow> (nat \<times> slot_pool) res" where
  "InsertToCache_pool name data c =
     (if cacheSize c < lru_size (pool_lru c) + 1 then
        res_bind (pruneValue (pool_lru c)) (\<lambda>replaceIndex.
        res_bind (pool_write (containerPool c) replaceIndex data) (\<lambda>pool.
          Inr (replaceIndex, c\<lparr>containerPool := pool, pool_lru := lru_insert name replaceIndex (pool_lru c)\<rparr>)))
      else
        res_bind (pool_write (containerPool c) (currentIndex c) data) (\<lambda>pool.
          Inr (currentIndex c, c\<lparr>containerPool := pool,
            pool_lru := lru_insert name (currentIndex c) (pool_lru c),
            currentIndex := Suc (currentIndex c)\<rparr>)))"

definition ReadCache_InsertToCache :: "byte list \<Rightarrow> byte list \<Rightarrow> slot_pool \<Rightarrow> slot_pool res" where
  "ReadCache_InsertToCache name data c =
     res_bind (InsertToCache_pool name data c) (\<lambda>(i, c). Inr c)"

definition ExistsInCache :: "byte list \<Rightarrow> slot_pool \<Rightarrow> bool" where
  "ExistsInCache name c = contains name (pool_lru c)"

definition ReadFromCache :: "byte list \<Rightarrow> slot_pool \<Rightarrow> (byte list \<times> slot_pool) res" where
  "ReadFromCache name c =
     res_bind (lru_get name (pool_lru c)) (\<lambda>(index, l).
       if index < length (containerPool c)
       then Inr (containerPool c ! index, c\<lparr>pool_lru := l\<rparr>) else Inl OutOfBounds)"

text \<open>\<open>InsertToCache_Offline\<close> copies \<open>MAX_CONTAINER_SIZE\<close> bytes whatever length it is given.\<close>

definition InsertToCache_Offline :: "byte list \<Rightarrow> byte list \<Rightarrow> slot_pool \<Rightarrow> slot_pool res" where
  "InsertToCache_Offline name data c =
     res_bind (buf_read data 0 MAX_CONTAINER_SIZE) (\<lambda>data.
     res_bind (InsertToCache_pool name data c) (\<lambda>(i, c). Inr c))"

text \<open>
  \<open>GetReqContainers\<close>, one container: from the cache, or from disk (base containers first) and
  then into the cache.
\<close>

definition GetReqContainer ::
    "(bool \<times> byte list \<Rightarrow> byte list option) \<Rightarrow> byte list \<Rightarrow> byte list \<Rightarrow> slot_pool
      \<Rightarrow> (byte list \<times> slot_pool) res" where
  "GetReqContainer files out name c =
     (if ExistsInCache name c
      then res_bind (ReadFromCache name c) (\<lambda>(buf, c).
           res_bind (buf_read buf 0 MAX_CONTAINER_SIZE) (\<lambda>data.
           res_bind (buf_write out 0 data) (\<lambda>out. Inr (out, c))))
      else case (case files (False, name) of Some f \<Rightarrow> Some f | None \<Rightarrow> files (True, name)) of
             None \<Rightarrow> Inl ExitError
           | Some f \<Rightarrow> res_bind (buf_write out 0 f) (\<lambda>out.
               res_bind (ReadCache_InsertToCache name f c) (\<lambda>c. Inr (out, c))))"

fun GetReqContainers ::
    "(bool \<times> byte list \<Rightarrow> byte list option) \<Rightarrow> byte list list \<Rightarrow> byte list list \<Rightarrow> slot_pool
      \<Rightarrow> (byte list list \<times> slot_pool) res" where
  "GetReqContainers files [] outs c = Inr ([], c)"
| "GetReqContainers files (name # names) [] c = Inl OutOfBounds"
| "GetReqContainers files (name # names) (out # outs) c =
     res_bind (GetReqContainer files out name c) (\<lambda>(out, c).
     res_bind (GetReqContainers files names outs c) (\<lambda>(outs, c). Inr (out # outs, c)))"

section \<open>The enclave's cache and its feature index\<close>

text \<open>
  For every slot three maps from a feature to the recipes and fingerprints of the chunks that
  have it, filled by reading through the container.
\<close>

type_synonym sf_index = "(byte list \<Rightarrow> (RecipeEntry_t \<times> byte list) list) list"

record InContainercache = slot_pool +
  SF_INC :: "sf_index list"

definition Cachesize :: nat where "Cachesize = 10"

definition no_features :: sf_index where
  "no_features = replicate 3 (\<lambda>_. [])"

definition InContainercache_new :: InContainercache where
  "InContainercache_new = slot_pool.extend (new_pool Cachesize Cachesize)
     \<lparr>SF_INC = replicate Cachesize no_features\<rparr>"

definition push_feature :: "sf_index \<Rightarrow> nat \<Rightarrow> byte list \<Rightarrow> RecipeEntry_t \<times> byte list \<Rightarrow> sf_index" where
  "push_feature ix i sf e = ix[i := (ix ! i)(sf := (ix ! i) sf @ [e])]"

text \<open>
  The loop \<open>while (readset < length)\<close>.  The offset is 32 bits wide and the comparison unsigned.
  The state of the loop is its offset, so more rounds than there are offsets below \<open>length\<close>
  mean that it does not end.
\<close>

definition u32_add :: "nat \<Rightarrow> nat \<Rightarrow> nat" where
  "u32_add a b = (a + b) mod 2 ^ 32"

fun index_container :: "nat \<Rightarrow> byte list \<Rightarrow> nat \<Rightarrow> sf_index \<Rightarrow> sf_index res" where
  "index_container 0 data readset ix = (if readset < length data then Inl NoReturn else Inr ix)"
| "index_container (Suc n) data readset ix =
     (if readset < length data then
        res_bind (buf_read data readset sizeof_RecipeEntry) (\<lambda>rb.
        let tempRecipe = bytes_recipe rb; readset = u32_add readset sizeof_RecipeEntry in
        res_bind (buf_read data readset CHUNK_HASH_SIZE) (\<lambda>tempHashstr.
        let readset = u32_add readset CHUNK_HASH_SIZE; e = (tempRecipe, tempHashstr) in
        res_bind (buf_read data readset CHUNK_HASH_SIZE) (\<lambda>sf0.
        res_bind (buf_read data (u32_add readset CHUNK_HASH_SIZE) CHUNK_HASH_SIZE) (\<lambda>sf1.
        res_bind (buf_read data (u32_add readset (2 * CHUNK_HASH_SIZE)) CHUNK_HASH_SIZE) (\<lambda>sf2.
        let ix = push_feature (push_feature (push_feature ix 0 sf0 e) 1 sf1 e) 2 sf2 e;
            readset = u32_add readset (3 * CHUNK_HASH_SIZE);
            readset = u32_add readset (unat (re_length tempRecipe));
            readset = u32_add readset CRYPTO_BLOCK_SIZE
        in index_container n data readset ix)))))
      else Inr ix)"

definition InContainer_InsertToCache ::
    "byte list \<Rightarrow> byte list \<Rightarrow> InContainercache \<Rightarrow> InContainercache res" where
  "InContainer_InsertToCache name data c =
     res_bind (InsertToCache_pool name data (slot_pool.truncate c)) (\<lambda>(i, p).
       if i < length (SF_INC c) then
         let old = (if cacheSize c < lru_size (pool_lru c) + 1 then no_features else SF_INC c ! i) in
         res_bind (index_container (length data) data 0 old) (\<lambda>ix.
           Inr (slot_pool.extend p \<lparr>SF_INC = (SF_INC c)[i := ix]\<rparr>))
       else Inl OutOfBounds)"


section \<open>Correctness\<close>

text \<open>
  The invariant: the entries use the slots below \<open>currentIndex\<close>, each one its own, and the slot
  of a name starts with the contents \<open>M name\<close> that were stored for it.
\<close>

definition pool_ok :: "nat \<Rightarrow> (byte list \<Rightarrow> byte list) \<Rightarrow> slot_pool \<Rightarrow> bool" where
  "pool_ok n M c \<longleftrightarrow> lru_bounded (pool_lru c) \<and> max_size (pool_lru c) = n \<and> cacheSize c = n \<and>
     length (containerPool c) = n \<and> (\<forall>b \<in> set (containerPool c). length b = MAX_CONTAINER_SIZE) \<and>
     currentIndex c \<le> n \<and> slots (lru_lookup (pool_lru c)) (currentIndex c) \<and>
     (\<forall>name i. lru_lookup (pool_lru c) name = Some i \<longrightarrow>
        take (length (M name)) (containerPool c ! i) = M name)"

lemma new_pool_ok: "0 < n \<Longrightarrow> pool_ok n M (new_pool n n)"
  by (auto simp: pool_ok_def new_pool_def lru_bounded_def lru_new_ok lru_lookup_def lru_new_abs slots_def)
    (simp_all add: lru_new_def)

lemma pool_slot: "pool_ok n M c \<Longrightarrow> lru_lookup (pool_lru c) name = Some i \<Longrightarrow> i < currentIndex c"
  unfolding pool_ok_def slots_def by (blast dest: ranI)

lemma pool_count: "pool_ok n M c \<Longrightarrow> lru_size (pool_lru c) = currentIndex c"
  using lru.slots_count unfolding pool_ok_def by blast

lemma pool_write_ok:
  assumes "i < length pool" "\<forall>b \<in> set pool. length b = m" "length data \<le> m"
  obtains b where "pool_write pool i data = Inr (pool[i := b])" "length b = m"
    "take (length data) b = data"
proof
  let ?b = "data @ drop (length data) (pool ! i)"
  have l: "length (pool ! i) = m" using assms(1,2) by simp
  then show "pool_write pool i data = Inr (pool[i := ?b])" "length ?b = m" "take (length data) ?b = data"
    using assms(1,3) by (auto simp: pool_write_def buf_write_def)
qed

lemma InsertToCache_pool_ok:
  assumes c: "pool_ok n M c" and new: "\<not> ExistsInCache name c"
    and data: "length data \<le> MAX_CONTAINER_SIZE"
  shows "\<exists>i c'. InsertToCache_pool name data c = Inr (i, c') \<and> i < n \<and> pool_ok n (M(name := data)) c' \<and>
    lru_lookup (pool_lru c') name = Some i \<and>
    (\<forall>x j. x \<noteq> name \<longrightarrow> lru_lookup (pool_lru c') x = Some j \<longrightarrow> lru_lookup (pool_lru c) x = Some j \<and> j \<noteq> i) \<and>
    (if currentIndex c < n then i = currentIndex c \<and> currentIndex c' = Suc i
     else currentIndex c' = currentIndex c)"
proof -
  let ?l = "pool_lru c" and ?p = "containerPool c"
  have l: "lru_bounded ?l" "max_size ?l = n" "cacheSize c = n" "length ?p = n"
    "\<forall>b \<in> set ?p. length b = MAX_CONTAINER_SIZE" "currentIndex c \<le> n"
    "slots (lru_lookup ?l) (currentIndex c)"
    "\<And>name i. lru_lookup ?l name = Some i \<Longrightarrow> take (length (M name)) (?p ! i) = M name"
    using c by (auto simp: pool_ok_def)
  have none: "lru_lookup ?l name = None"
    using new contains_lookup [of ?l name] l(1) by (auto simp: ExistsInCache_def lru_bounded_def)
  have cnt: "lru_size ?l = currentIndex c" by (rule pool_count [OF c])
  show ?thesis
  proof (cases "currentIndex c < n")
    case True
    obtain b where b: "pool_write ?p (currentIndex c) data = Inr (?p[currentIndex c := b])"
        "length b = MAX_CONTAINER_SIZE" "take (length data) b = data"
      using pool_write_ok [OF _ l(5) data, of "currentIndex c"] l(4) True by auto
    let ?l' = "lru_insert name (currentIndex c) ?l"
    let ?c' = "c\<lparr>containerPool := ?p[currentIndex c := b], pool_lru := ?l',
                 currentIndex := Suc (currentIndex c)\<rparr>"
    have i: "InsertToCache_pool name data c = Inr (currentIndex c, ?c')"
      using True cnt l(3) b(1) by (simp add: InsertToCache_pool_def)
    have s: "slots (lru_lookup ?l') (Suc (currentIndex c))"
      and f: "lru_lookup ?l' = (lru_lookup ?l)(name \<mapsto> currentIndex c)"
      using lru.add_fresh_slot [OF l(1,7) none] True l(2) by auto
    have "take (length ((M(name := data)) x)) (?p[currentIndex c := b] ! j) = (M(name := data)) x"
      if "lru_lookup ?l' x = Some j" for x j
    proof (cases "x = name")
      case True
      with that show ?thesis using f b l(4) \<open>currentIndex c < n\<close> by simp
    next
      case False
      with that have "lru_lookup ?l x = Some j" by (simp add: f)
      with pool_slot [OF c this] l(8) False show ?thesis by simp
    qed
    then have "pool_ok n (M(name := data)) ?c'"
      using l True s b(2) lru.add_good [OF l(1)] set_update_subset_insert [of ?p "currentIndex c" b]
      by (auto simp: pool_ok_def)
    moreover have "lru_lookup ?l x = Some j \<and> j \<noteq> currentIndex c"
      if "x \<noteq> name" "lru_lookup ?l' x = Some j" for x j
      using that f pool_slot [OF c, of x j] by simp
    ultimately show ?thesis using i f True by auto
  next
    case False
    then have full: "currentIndex c = n" using l(6) by simp
    obtain w where w: "pruneValue ?l = Inr w" "w < n" "slots (lru_lookup (lru_insert name w ?l)) n"
        "lru_lookup (lru_insert name w ?l) name = Some w"
        "\<And>x i. x \<noteq> name \<Longrightarrow> lru_lookup (lru_insert name w ?l) x = Some i \<Longrightarrow> lru_lookup ?l x = Some i \<and> i \<noteq> w"
      using lru.add_victim_slot [OF l(1) _ none] l(2,7) full by metis
    obtain b where b: "pool_write ?p w data = Inr (?p[w := b])"
        "length b = MAX_CONTAINER_SIZE" "take (length data) b = data"
      using pool_write_ok [OF _ l(5) data, of w] l(4) w(2) by auto
    let ?l' = "lru_insert name w ?l"
    let ?c' = "c\<lparr>containerPool := ?p[w := b], pool_lru := ?l'\<rparr>"
    have i: "InsertToCache_pool name data c = Inr (w, ?c')"
      using full cnt l(3) b(1) w(1) by (simp add: InsertToCache_pool_def)
    have "take (length ((M(name := data)) x)) (?p[w := b] ! j) = (M(name := data)) x"
      if "lru_lookup ?l' x = Some j" for x j
    proof (cases "x = name")
      case True
      with that show ?thesis using w b l(4) by simp
    next
      case False
      with that w(5) have "lru_lookup ?l x = Some j" "j \<noteq> w" by auto
      with l(8) False show ?thesis by simp
    qed
    then have "pool_ok n (M(name := data)) ?c'"
      using l full w(3) b(2) lru.add_good [OF l(1)] set_update_subset_insert [of ?p w b]
      by (auto simp: pool_ok_def)
    with i w full show ?thesis by auto
  qed
qed

lemma ReadFromCache_ok:
  assumes c: "pool_ok n M c" and e: "ExistsInCache name c"
  shows "\<exists>buf c'. ReadFromCache name c = Inr (buf, c') \<and> take (length (M name)) buf = M name \<and>
    length buf = MAX_CONTAINER_SIZE \<and> pool_ok n M c' \<and> (\<forall>x. ExistsInCache x c' = ExistsInCache x c)"
proof -
  let ?l = "pool_lru c"
  have l: "lru_bounded ?l" "lru_ok ?l" using c by (auto simp: pool_ok_def lru_bounded_def)
  obtain i where i: "lru_lookup ?l name = Some i"
    using e contains_lookup [OF l(2)] by (auto simp: ExistsInCache_def)
  have ib: "i < n" using pool_slot [OF c i] c by (auto simp: pool_ok_def)
  have t: "lru_bounded (lru_touch name ?l)" "lru_lookup (lru_touch name ?l) = lru_lookup ?l"
    "max_size (lru_touch name ?l) = max_size ?l"
    using lru.touch_good [OF l(1)] lru.touch_lookup [OF l(1)] by (auto simp: lru_touch_def)
  have "ReadFromCache name c = Inr (containerPool c ! i, c\<lparr>pool_lru := lru_touch name ?l\<rparr>)"
    using i ib c by (simp add: ReadFromCache_def lru_get_correct [OF l(2)] pool_ok_def)
  moreover have "pool_ok n M (c\<lparr>pool_lru := lru_touch name ?l\<rparr>)"
    using c t by (simp add: pool_ok_def)
  moreover have "ExistsInCache x (c\<lparr>pool_lru := lru_touch name ?l\<rparr>) = ExistsInCache x c" for x
    using contains_lookup [OF l(2)] contains_lookup [of "lru_touch name ?l"] t
    by (simp add: ExistsInCache_def lru_bounded_def)
  moreover have "containerPool c ! i \<in> set (containerPool c)" using ib c by (simp add: pool_ok_def)
  ultimately show ?thesis using c i by (auto simp: pool_ok_def)
qed


section \<open>The restore path\<close>

definition container_file :: "(bool \<times> byte list \<Rightarrow> byte list option) \<Rightarrow> byte list \<Rightarrow> byte list option" where
  "container_file files name =
     (case files (False, name) of Some f \<Rightarrow> Some f | None \<Rightarrow> files (True, name))"

definition contents :: "(bool \<times> byte list \<Rightarrow> byte list option) \<Rightarrow> byte list \<Rightarrow> byte list" where
  "contents files name = (case container_file files name of Some f \<Rightarrow> f | None \<Rightarrow> [])"

lemma GetReqContainer_ok:
  assumes c: "pool_ok n (contents files) c" and out: "length out = MAX_CONTAINER_SIZE"
    and f: "container_file files name = Some f" "length f \<le> MAX_CONTAINER_SIZE"
  shows "\<exists>out' c'. GetReqContainer files out name c = Inr (out', c') \<and> take (length f) out' = f \<and>
    pool_ok n (contents files) c'"
proof (cases "ExistsInCache name c")
  case True
  from ReadFromCache_ok [OF c True] obtain buf c' where
    r: "ReadFromCache name c = Inr (buf, c')" "take (length (contents files name)) buf = contents files name"
      "length buf = MAX_CONTAINER_SIZE" "pool_ok n (contents files) c'" by blast
  then show ?thesis
    using True out f by (simp add: GetReqContainer_def buf_read_def buf_write_def contents_def bslice_def)
next
  case False
  have M: "(contents files)(name := f) = contents files"
    using f by (auto simp: contents_def)
  from InsertToCache_pool_ok [OF c False f(2)] obtain i c' where
    "InsertToCache_pool name f c = Inr (i, c')" "pool_ok n (contents files) c'"
    unfolding M by blast
  moreover have "(case files (False, name) of Some f \<Rightarrow> Some f | None \<Rightarrow> files (True, name)) = Some f"
    using f(1) by (simp add: container_file_def)
  ultimately show ?thesis
    using False out f by (simp add: GetReqContainer_def buf_write_def ReadCache_InsertToCache_def)
qed

lemma GetReqContainers_ok:
  assumes "pool_ok n (contents files) c" "length names \<le> length outs"
    and "\<forall>out \<in> set outs. length out = MAX_CONTAINER_SIZE"
    and "\<forall>name \<in> set names. \<exists>f. container_file files name = Some f \<and> length f \<le> MAX_CONTAINER_SIZE"
  shows "\<exists>outs' c'. GetReqContainers files names outs c = Inr (outs', c') \<and> pool_ok n (contents files) c' \<and>
    list_all2 (\<lambda>name out. take (length (contents files name)) out = contents files name) names outs'"
  using assms
proof (induction names arbitrary: outs c)
  case (Cons name names)
  from Cons.prems(2) obtain out outs1 where o: "outs = out # outs1" by (cases outs) auto
  obtain f where f: "container_file files name = Some f" "length f \<le> MAX_CONTAINER_SIZE"
    using Cons.prems(4) by auto
  have "length out = MAX_CONTAINER_SIZE" using Cons.prems(3) o by simp
  from GetReqContainer_ok [OF Cons.prems(1) this f] obtain out' c1 where
    s: "GetReqContainer files out name c = Inr (out', c1)" "take (length f) out' = f"
      "pool_ok n (contents files) c1" by blast
  have "\<exists>outs' c'. GetReqContainers files names outs1 c1 = Inr (outs', c') \<and> pool_ok n (contents files) c' \<and>
    list_all2 (\<lambda>name out. take (length (contents files name)) out = contents files name) names outs'"
    using Cons.prems o by (intro Cons.IH [OF s(3)]) auto
  moreover have "contents files name = f" using f by (simp add: contents_def)
  ultimately show ?case using s by (auto simp: o)
qed simp

section \<open>A pool smaller than the cache\<close>

text \<open>
  When fewer than the cache's entries are configured as pool size, reusing a slot does not
  remove the entry that owned it.
\<close>

lemma stale_insert:
  assumes l: "lru_bounded (pool_lru c)" and full: "lru_size (pool_lru c) = cacheSize c"
    and small: "cacheSize c < max_size (pool_lru c)" and pool: "length (containerPool c) = cacheSize c"
    and new: "\<not> ExistsInCache name c" and slots: "slots (lru_lookup (pool_lru c)) (cacheSize c)"
    and data: "length data \<le> MAX_CONTAINER_SIZE"
    and bufs: "\<forall>b \<in> set (containerPool c). length b = MAX_CONTAINER_SIZE" and pos: "0 < cacheSize c"
  shows "\<exists>old c' buf c''. old \<noteq> name \<and> ExistsInCache old c \<and> ReadCache_InsertToCache name data c = Inr c' \<and>
    ExistsInCache old c' \<and> ReadFromCache old c' = Inr (buf, c'') \<and> take (length data) buf = data"
proof -
  let ?l = "pool_lru c"
  have ok: "lru_ok ?l" using l by (simp add: lru_bounded_def)
  have "length (lru_abs ?l) = cacheSize c" using full lru_size_keys [OF ok] by (simp add: lru_abs_def)
  then have ne: "lru_abs ?l \<noteq> []" using pos by auto
  define old w where "old = fst (last (lru_abs ?l))" and "w = snd (last (lru_abs ?l))"
  have w: "lru_lookup ?l old = Some w"
    using ne lru_abs_distinct [OF ok] by (simp add: lru_lookup_def old_def w_def)
  have none: "lru_lookup ?l name = None"
    using new contains_lookup [OF ok] by (auto simp: ExistsInCache_def)
  have wn: "w < cacheSize c" using slots w by (auto simp: slots_def dest: ranI)
  obtain b where b: "pool_write (containerPool c) w data = Inr ((containerPool c)[w := b])"
      "take (length data) b = data"
    using pool_write_ok [OF _ bufs data, of w] pool wn by auto
  let ?l' = "lru_insert name w ?l"
  have room: "lru_lookup ?l' = (lru_lookup ?l)(name \<mapsto> w)"
    using l none full small by (intro lru_insert_room) auto
  have ok': "lru_ok ?l'" using ok by (rule lru_insert_correct)
  let ?c' = "c\<lparr>containerPool := (containerPool c)[w := b], pool_lru := ?l'\<rparr>"
  have "ReadCache_InsertToCache name data c = Inr ?c'"
    using full b(1) ne by (simp add: ReadCache_InsertToCache_def InsertToCache_pool_def
        pruneValue_correct [OF ok] w_def)
  moreover have "old \<noteq> name" using w none by auto
  moreover have "ExistsInCache old c" using w contains_lookup [OF ok] by (simp add: ExistsInCache_def)
  moreover have "ExistsInCache old ?c'"
    using w room contains_lookup [OF ok'] by (simp add: ExistsInCache_def)
  moreover have "lru_lookup ?l' old = Some w" using w room \<open>old \<noteq> name\<close> by simp
  then have "ReadFromCache old ?c' = Inr (b, ?c'\<lparr>pool_lru := lru_touch old ?l'\<rparr>)"
    using wn pool by (simp add: ReadFromCache_def lru_get_correct [OF ok'])
  ultimately show ?thesis using b(2) by blast
qed

section \<open>Indexing a container\<close>

lemma push_feature_at:
  "i < length ix \<Longrightarrow> push_feature ix i sf e ! j =
     (if i = j then (ix ! i)(sf := (ix ! i) sf @ [e]) else ix ! j)"
  by (simp add: push_feature_def)

lemma push_feature_length [simp]: "length (push_feature ix i sf e) = length ix"
  by (simp add: push_feature_def)

text \<open>The chunks of a container with a feature, in the order of the container.\<close>

definition with_feature :: "nat \<Rightarrow> byte list \<Rightarrow> srec list \<Rightarrow> (RecipeEntry_t \<times> byte list) list" where
  "with_feature i sf rs =
     map (\<lambda>r. (s_addr r, s_fp r)) (filter (\<lambda>r. bslice (s_sf r) (i * CHUNK_HASH_SIZE) CHUNK_HASH_SIZE = sf) rs)"

lemma u32_add_small: "a + b < 2 ^ 32 \<Longrightarrow> u32_add a b = a + b"
  by (simp add: u32_add_def)

lemma index_record:
  assumes r: "srec_ok name (length a) r" and small: "length (a @ srec_bytes r @ c) \<le> MAX_CONTAINER_SIZE"
    and ix: "length ix = 3"
  shows "\<exists>ix'. index_container (Suc n) (a @ srec_bytes r @ c) (length a) ix =
      index_container n (a @ srec_bytes r @ c) (length a + length (srec_bytes r)) ix' \<and> length ix' = 3 \<and>
      (\<forall>i < 3. \<forall>sf. (ix' ! i) sf = (ix ! i) sf @ with_feature i sf [r])"
proof -
  let ?d = "a @ srec_bytes r @ c" and ?p = "a @ recipe_bytes (s_addr r)" and ?e = "(s_addr r, s_fp r)"
  have l: "recipe_wf (s_addr r)" "unat (re_length (s_addr r)) = length (s_data r)"
    "length (s_fp r) = CHUNK_HASH_SIZE" "length (s_sf r) = 3 * CHUNK_HASH_SIZE"
    "length (s_iv r) = CRYPTO_BLOCK_SIZE" using r by (auto simp: srec_ok_def)
  define s where "s = (\<lambda>i. bslice (s_sf r) (i * CHUNK_HASH_SIZE) CHUNK_HASH_SIZE)"
  have sf: "s_sf r = s 0 @ s 1 @ s 2"
  proof -
    have "s 0 @ s 1 @ s 2 = bslice (s_sf r) 0 (3 * CHUNK_HASH_SIZE)"
      using bslice_append [of "s_sf r" 0 CHUNK_HASH_SIZE "2 * CHUNK_HASH_SIZE"]
        bslice_append [of "s_sf r" CHUNK_HASH_SIZE CHUNK_HASH_SIZE CHUNK_HASH_SIZE]
      by (simp add: s_def mult_2 numeral_3_eq_3)
    then show ?thesis using l(4) by (simp add: bslice_full)
  qed
  have sl: "length (s 0) = CHUNK_HASH_SIZE" "length (s 1) = CHUNK_HASH_SIZE" "length (s 2) = CHUNK_HASH_SIZE"
    using l(4) by (simp_all add: s_def bslice_length size_consts)
  have lp: "length ?p = length a + sizeof_RecipeEntry" using l(1) by simp
  have len: "length (srec_bytes r) = length (s_data r) + CRYPTO_BLOCK_SIZE + 4 * CHUNK_HASH_SIZE + sizeof_RecipeEntry"
    using srec_bytes_length [OF r] by (simp add: srec_size_def)
  have b: "length a + (length (s_data r) + CRYPTO_BLOCK_SIZE + 4 * CHUNK_HASH_SIZE + sizeof_RecipeEntry) < 2 ^ 32"
    using small len by (simp add: MAX_CONTAINER_SIZE_def)
  have u: "u32_add (length a) sizeof_RecipeEntry = length a + sizeof_RecipeEntry"
    "u32_add (length a + sizeof_RecipeEntry) CHUNK_HASH_SIZE = length a + sizeof_RecipeEntry + CHUNK_HASH_SIZE"
    "u32_add (length a + sizeof_RecipeEntry + CHUNK_HASH_SIZE) CHUNK_HASH_SIZE
       = length a + sizeof_RecipeEntry + 2 * CHUNK_HASH_SIZE"
    "u32_add (length a + sizeof_RecipeEntry + CHUNK_HASH_SIZE) (2 * CHUNK_HASH_SIZE)
       = length a + sizeof_RecipeEntry + 3 * CHUNK_HASH_SIZE"
    "u32_add (length a + sizeof_RecipeEntry + CHUNK_HASH_SIZE) (3 * CHUNK_HASH_SIZE)
       = length a + sizeof_RecipeEntry + 4 * CHUNK_HASH_SIZE"
    "u32_add (length a + sizeof_RecipeEntry + 4 * CHUNK_HASH_SIZE) (length (s_data r))
       = length a + sizeof_RecipeEntry + 4 * CHUNK_HASH_SIZE + length (s_data r)"
    "u32_add (length a + sizeof_RecipeEntry + 4 * CHUNK_HASH_SIZE + length (s_data r)) CRYPTO_BLOCK_SIZE
       = length a + length (srec_bytes r)"
    using b len by (subst u32_add_small; simp)+
  have rd: "buf_read (a @ recipe_bytes (s_addr r) @ (s_fp r @ s_sf r @ s_data r @ s_iv r @ c))
      (length a) sizeof_RecipeEntry = Inr (recipe_bytes (s_addr r))"
    "buf_read (?p @ s_fp r @ (s_sf r @ s_data r @ s_iv r @ c)) (length a + sizeof_RecipeEntry)
      CHUNK_HASH_SIZE = Inr (s_fp r)"
    "buf_read ((?p @ s_fp r) @ s 0 @ (s 1 @ s 2 @ s_data r @ s_iv r @ c))
      (length a + sizeof_RecipeEntry + CHUNK_HASH_SIZE) CHUNK_HASH_SIZE = Inr (s 0)"
    "buf_read ((?p @ s_fp r @ s 0) @ s 1 @ (s 2 @ s_data r @ s_iv r @ c))
      (length a + sizeof_RecipeEntry + 2 * CHUNK_HASH_SIZE) CHUNK_HASH_SIZE = Inr (s 1)"
    "buf_read ((?p @ s_fp r @ s 0 @ s 1) @ s 2 @ (s_data r @ s_iv r @ c))
      (length a + sizeof_RecipeEntry + 3 * CHUNK_HASH_SIZE) CHUNK_HASH_SIZE = Inr (s 2)"
    by (rule buf_read_mid; use lp l sl in simp)+
  have d: "?d = a @ recipe_bytes (s_addr r) @ (s_fp r @ s_sf r @ s_data r @ s_iv r @ c)"
    "?d = ?p @ s_fp r @ (s_sf r @ s_data r @ s_iv r @ c)"
    "?d = (?p @ s_fp r) @ s 0 @ (s 1 @ s 2 @ s_data r @ s_iv r @ c)"
    "?d = (?p @ s_fp r @ s 0) @ s 1 @ (s 2 @ s_data r @ s_iv r @ c)"
    "?d = (?p @ s_fp r @ s 0 @ s 1) @ s 2 @ (s_data r @ s_iv r @ c)"
    by (simp_all add: srec_bytes_def sf)
  note rds = rd [folded d]
  have lt: "length a < length ?d" using len by (simp add: sizeof_RecipeEntry_def)
  define ix' where "ix' = push_feature (push_feature (push_feature ix 0 (s 0) ?e) 1 (s 1) ?e) 2 (s 2) ?e"
  have "index_container (Suc n) ?d (length a) ix = index_container n ?d (length a + length (srec_bytes r)) ix'"
    unfolding index_container.simps if_P [OF lt] Let_def
    by (simp only: rds u res_bind_simps bytes_recipe_bytes [OF l(1)] l(2) ix'_def)
  moreover have "length ix' = 3" using ix by (simp add: ix'_def)
  moreover have "(ix' ! i) sf = (ix ! i) sf @ with_feature i sf [r]" if "i < 3" for i sf
  proof -
    have "i = 0 \<or> i = 1 \<or> i = 2" using that by auto
    then show ?thesis
      using ix by (auto simp: ix'_def push_feature_at with_feature_def s_def)
  qed
  ultimately show ?thesis by blast
qed

lemma index_container_ok:
  assumes "placed name (length a) rs" "length (a @ content rs) \<le> MAX_CONTAINER_SIZE" "length ix = 3"
    and "length rs \<le> n"
  shows "\<exists>ix'. index_container n (a @ content rs) (length a) ix = Inr ix' \<and> length ix' = 3 \<and>
      (\<forall>i < 3. \<forall>sf. (ix' ! i) sf = (ix ! i) sf @ with_feature i sf rs)"
  using assms
proof (induction rs arbitrary: a ix n)
  case Nil
  then show ?case by (cases n) (auto simp: with_feature_def)
next
  case (Cons r rs)
  from Cons.prems(4) obtain m where m: "n = Suc m" "length rs \<le> m" by (cases n) auto
  have r: "srec_ok name (length a) r" using Cons.prems(1) by simp
  have small: "length (a @ srec_bytes r @ content rs) \<le> MAX_CONTAINER_SIZE" using Cons.prems(2) by simp
  from index_record [OF r small Cons.prems(3), of m] obtain ix1 where i1:
    "index_container (Suc m) (a @ srec_bytes r @ content rs) (length a) ix =
      index_container m (a @ srec_bytes r @ content rs) (length a + length (srec_bytes r)) ix1"
    "length ix1 = 3" "\<forall>i < 3. \<forall>sf. (ix1 ! i) sf = (ix ! i) sf @ with_feature i sf [r]" by blast
  have "\<exists>ix'. index_container m ((a @ srec_bytes r) @ content rs) (length (a @ srec_bytes r)) ix1 = Inr ix' \<and>
      length ix' = 3 \<and> (\<forall>i < 3. \<forall>sf. (ix' ! i) sf = (ix1 ! i) sf @ with_feature i sf rs)"
    using Cons.prems m i1(2) by (intro Cons.IH) auto
  then obtain ix' where i2: "index_container m (a @ srec_bytes r @ content rs) (length a + length (srec_bytes r)) ix1 = Inr ix'"
      "length ix' = 3" "\<forall>i < 3. \<forall>sf. (ix' ! i) sf = (ix1 ! i) sf @ with_feature i sf rs" by auto
  have "with_feature i sf [r] @ with_feature i sf rs = with_feature i sf (r # rs)" for i sf
    by (simp add: with_feature_def)
  with i1 i2 show ?case unfolding m(1) by auto
qed


text \<open>
  The invariant of the enclave's cache: its pool's, and for every cached container the three
  maps of its slot list exactly its chunks.
\<close>

definition inc_ok :: "(byte list \<Rightarrow> srec list) \<Rightarrow> InContainercache \<Rightarrow> bool" where
  "inc_ok R c \<longleftrightarrow> pool_ok Cachesize (\<lambda>name. content (R name)) (slot_pool.truncate c) \<and>
     length (SF_INC c) = Cachesize \<and> (\<forall>ix \<in> set (SF_INC c). length ix = 3) \<and>
     (\<forall>i. currentIndex c \<le> i \<and> i < Cachesize \<longrightarrow> SF_INC c ! i = no_features) \<and>
     (\<forall>name i. lru_lookup (pool_lru c) name = Some i \<longrightarrow>
        (\<forall>j < 3. \<forall>sf. (SF_INC c ! i ! j) sf = with_feature j sf (R name)))"

lemma no_features_simps [simp]: "length no_features = 3" "j < 3 \<Longrightarrow> (no_features ! j) sf = []"
  by (simp_all add: no_features_def)

lemma inc_new_ok: "inc_ok R InContainercache_new"
  using new_pool_ok [of Cachesize "\<lambda>name. content (R name)"]
  by (auto simp: inc_ok_def InContainercache_new_def slot_pool.defs new_pool_def lru_lookup_def
      lru_new_abs Cachesize_def)

lemma placed_many: "placed name off rs \<Longrightarrow> length rs \<le> length (content rs)"
proof (induction rs arbitrary: off)
  case (Cons r rs)
  then show ?case
    using srec_bytes_length [of name off r] Cons.IH [of "off + length (srec_bytes r)"]
    by (fastforce simp: srec_size_def CRYPTO_BLOCK_SIZE_def)
qed simp

lemma InContainer_InsertToCache_ok:
  assumes c: "inc_ok R c" and new: "\<not> ExistsInCache name (slot_pool.truncate c)"
    and rs: "placed nm 0 rs" "length (content rs) \<le> MAX_CONTAINER_SIZE"
  shows "\<exists>c'. InContainer_InsertToCache name (content rs) c = Inr c' \<and> inc_ok (R(name := rs)) c' \<and>
    ExistsInCache name (slot_pool.truncate c')"
proof -
  let ?t = "slot_pool.truncate c" and ?M = "\<lambda>name. content (R name)"
  have t [simp]: "pool_lru ?t = pool_lru c" "currentIndex ?t = currentIndex c" "cacheSize ?t = cacheSize c"
    by (simp_all add: slot_pool.defs)
  have p: "pool_ok Cachesize ?M ?t" and len: "length (SF_INC c) = Cachesize"
    and three: "\<forall>ix \<in> set (SF_INC c). length ix = 3"
    and free: "\<And>i. currentIndex c \<le> i \<Longrightarrow> i < Cachesize \<Longrightarrow> SF_INC c ! i = no_features"
    and feat: "\<And>name i j sf. lru_lookup (pool_lru c) name = Some i \<Longrightarrow> j < 3 \<Longrightarrow>
        (SF_INC c ! i ! j) sf = with_feature j sf (R name)"
    using c by (auto simp: inc_ok_def)
  have M: "?M(name := content rs) = (\<lambda>x. content ((R(name := rs)) x))" by auto
  from InsertToCache_pool_ok [OF p new rs(2)] obtain i q where
    i: "InsertToCache_pool name (content rs) ?t = Inr (i, q)" "i < Cachesize"
      "pool_ok Cachesize (\<lambda>x. content ((R(name := rs)) x)) q" "lru_lookup (pool_lru q) name = Some i"
    and other: "\<And>x j. x \<noteq> name \<Longrightarrow> lru_lookup (pool_lru q) x = Some j \<Longrightarrow>
        lru_lookup (pool_lru c) x = Some j \<and> j \<noteq> i"
    and ci: "if currentIndex c < Cachesize then i = currentIndex c \<and> currentIndex q = Suc i
        else currentIndex q = currentIndex c"
    unfolding M t by blast
  define old where "old = (if cacheSize c < lru_size (pool_lru c) + 1 then no_features else SF_INC c ! i)"
  have cnt: "lru_size (pool_lru c) = currentIndex c" "cacheSize c = Cachesize"
    using pool_count [OF p] p by (auto simp: pool_ok_def)
  have old: "old = no_features"
    using cnt ci free i(2) by (auto simp: old_def split: if_splits)
  have many: "length rs \<le> length (content rs)" by (rule placed_many [OF rs(1)])
  from index_container_ok [of nm "[]" rs old "length (content rs)"] rs many obtain ix where
    ix: "index_container (length (content rs)) (content rs) 0 old = Inr ix" "length ix = 3"
      "\<forall>j < 3. \<forall>sf. (ix ! j) sf = (old ! j) sf @ with_feature j sf rs" by (auto simp: old)
  let ?c = "slot_pool.extend q \<lparr>SF_INC = (SF_INC c)[i := ix]\<rparr>"
  have e [simp]: "slot_pool.truncate ?c = q" "pool_lru ?c = pool_lru q" "currentIndex ?c = currentIndex q"
    "SF_INC ?c = (SF_INC c)[i := ix]"
    by (simp_all add: slot_pool.defs)
  have "InContainer_InsertToCache name (content rs) c = Inr ?c"
    using i(1,2) ix(1) len by (simp add: InContainer_InsertToCache_def old_def Let_def)
  moreover have "inc_ok (R(name := rs)) ?c"
    unfolding inc_ok_def e
  proof (intro conjI allI impI)
    show "pool_ok Cachesize (\<lambda>x. content ((R(name := rs)) x)) q" by (rule i(3))
    show "length ((SF_INC c)[i := ix]) = Cachesize" using len by simp
    show "\<forall>ix \<in> set ((SF_INC c)[i := ix]). length ix = 3"
      using three ix(2) set_update_subset_insert [of "SF_INC c" i ix] by auto
    show "(SF_INC c)[i := ix] ! k = no_features" if "currentIndex q \<le> k \<and> k < Cachesize" for k
      using that ci free [of k] i(2) by (auto split: if_splits)
    show "((SF_INC c)[i := ix] ! k ! j) sf = with_feature j sf ((R(name := rs)) x)"
      if "lru_lookup (pool_lru q) x = Some k" "j < 3" for x k j sf
    proof (cases "x = name")
      case True
      with that i(2,4) ix(3) len old show ?thesis by simp
    next
      case False
      with other that have "lru_lookup (pool_lru c) x = Some k" "k \<noteq> i" by auto
      with feat that(2) False show ?thesis by simp
    qed
  qed
  moreover have "ExistsInCache name q"
    using i(3,4) contains_lookup [of "pool_lru q" name] by (simp add: ExistsInCache_def pool_ok_def lru_bounded_def)
  ultimately show ?thesis by auto
qed

end
