(* ===== verification/Cache_Props.thy ===== *)
theory Cache_Props imports ContainerCache Storage_Props begin


text \<open>
  The properties of the LRU cache and of the two container caches.
\<close>

lemma lru_new_sizes [simp]: "max_size (lru_new m el) = m" "elasticity (lru_new m el) = el"
  by (simp_all add: lru_new_def)

lemma session_catalogue:
  assumes "session st hs" "Suc (con_times st) < 36 ^ CONTAINER_ID_LENGTH"
  obtains st' cat where "end_upload st = Inr st'" "history_ok hs cat" "tidy cat" "on_disk (disk st') cat"
    "\<forall>k rs. cat k = Some rs \<and> rs \<noteq> [] \<longrightarrow> k \<in> dom (disk st')"
proof -
  obtain cat where cat: "store_ok st cat" "history_ok hs cat" using session_ok [OF assms(1)] by blast
  have t: "tidy cat" using cat(1) by (simp add: store_ok_def)
  from end_upload_ok [OF cat(1) assms(2)] that cat(2) t show thesis by blast
qed

lemma record_file:
  assumes h: "history_ok hs cat" "(flag, r) \<in> set hs" and t: "tidy cat" and d: "on_disk d cat"
    and dom: "\<forall>k rs. cat k = Some rs \<and> rs \<noteq> [] \<longrightarrow> k \<in> dom d"
  obtains rs where "container_file d (containerName (s_addr r)) = Some (content rs)"
    "placed (containerName (s_addr r)) 0 rs" "r \<in> set rs" "length (content rs) \<le> MAX_CONTAINER_SIZE"
proof -
  let ?n = "containerName (s_addr r)"
  obtain rs where rs: "cat (flag, ?n) = Some rs" "r \<in> set rs" using history_okD [OF h] by blast
  have only: "cat (\<not> flag, ?n) = None" using t rs(1) by (metis (full_types) option.distinct(1) tidy_def)
  obtain f where f: "d (flag, ?n) = Some f" using dom rs by (metis domD empty_iff list.set(1))
  then have fc: "f = content rs" "placed ?n 0 rs" using d rs(1) unfolding on_disk_def by fastforce+
  have "d (\<not> flag, ?n) = None" using d only unfolding on_disk_def by (metis not_None_eq)
  then have "container_file d ?n = Some (content rs)"
    using f fc(1) by (cases flag) (auto simp: container_file_def)
  moreover have "length (content rs) \<le> MAX_CONTAINER_SIZE" using t rs(1) by (simp add: tidy_def)
  ultimately show thesis using that fc(2) rs(2) by blast
qed

text \<open>
  C8: The LRU cache is the list of its pairs in order of use: for every cache that satisfies the
  invariant, \<open>tryGet\<close> finds the pair of the key and moves it to the front, \<open>insert\<close> puts the
  pair there and, when the cache has reached its bound, keeps the \<open>maxSize\<close> most recent ones,
  \<open>remove\<close> drops the key, \<open>pruneValue\<close> names the value used least recently, and the invariant
  is preserved.
\<close>

theorem lru_refines_list:
  assumes "lru_ok c"
  shows "fst (tryGet k c) = map_of (lru_abs c) k \<and> lru_ok (snd (tryGet k c)) \<and>
    lru_abs (snd (tryGet k c)) = spec_use k (lru_abs c) \<and>
    lru_ok (lru_insert k v c) \<and>
    lru_abs (lru_insert k v c) = spec_insert (max_size c) (elasticity c) k v (lru_abs c) \<and>
    fst (lru_remove k c) = (k \<in> fst ` set (lru_abs c)) \<and> lru_ok (snd (lru_remove k c)) \<and>
    lru_abs (snd (lru_remove k c)) = filter (\<lambda>p. fst p \<noteq> k) (lru_abs c) \<and>
    pruneValue c = (if lru_abs c = [] then Inl OutOfBounds else Inr (snd (last (lru_abs c)))) \<and>
    contains k c = (k \<in> fst ` set (lru_abs c)) \<and> lru_size c = length (lru_abs c)"
proof -
  have "contains k c = (k \<in> fst ` set (lru_abs c))"
    using contains_lookup [OF assms] by (simp add: lru_lookup_def map_of_eq_None_iff)
  moreover have "lru_size c = length (lru_abs c)" using lru_size_keys [OF assms] by (simp add: lru_abs_def)
  ultimately show ?thesis
    using tryGet_correct [OF assms] lru_insert_correct [OF assms] lru_remove_correct [OF assms]
      pruneValue_correct [OF assms] by blast
qed

theorem lru_refines_list_witness:
  "lru_abs (lru_insert (3::nat) (30::nat) (lru_insert 2 20 (lru_insert 1 10 (lru_new 2 0)))) = [(3, 30), (2, 20)]"
proof -
  let ?a = "lru_new 2 0 :: (nat, nat) lru"
  have a: "lru_ok ?a" "lru_abs ?a = []" "max_size ?a = 2" "elasticity ?a = 0"
    using lru_new_ok lru_new_abs by (auto simp: lru_new_def)
  note b = lru_refines_list [OF a(1), of 1 10]
  note c = lru_refines_list [of "lru_insert 1 10 ?a" 2 20]
  note d = lru_refines_list [of "lru_insert 2 20 (lru_insert 1 10 ?a)" 3 30]
  have "lru_abs (lru_insert 1 10 ?a) = [(1, 10)]" using b a by (simp add: spec_insert_def)
  moreover then have "lru_abs (lru_insert 2 20 (lru_insert 1 10 ?a)) = [(2, 20), (1, 10)]"
    using b c a by (simp add: spec_insert_def)
  ultimately show ?thesis using b c d a by (simp add: spec_insert_def)
qed

text \<open>
  C9: What was uploaded can be restored through the container cache: after the end of an upload,
  a request of the restore path for containers of saved chunks fills every buffer with a
  container from which each of its chunks can be read back through the recipe that saving it
  returned, whatever was fetched from the cache and whatever from disk.
\<close>

theorem upload_restore:
  assumes "session st hs" "Suc (con_times st) < 36 ^ CONTAINER_ID_LENGTH"
    and "set names \<subseteq> (\<lambda>(flag, r). containerName (s_addr r)) ` set hs"
    and "length names \<le> length outs" "\<forall>out \<in> set outs. length out = MAX_CONTAINER_SIZE"
  shows "\<exists>st' outs' c. end_upload st = Inr st' \<and>
    GetReqContainers (disk st') names outs (ReadCache 64) = Inr (outs', c) \<and>
    (\<forall>i < length names. \<forall>(flag, r) \<in> set hs. containerName (s_addr r) = names ! i \<longrightarrow>
       reads_back (outs' ! i) r)"
proof -
  obtain st' cat where e: "end_upload st = Inr st'" "history_ok hs cat" "tidy cat" "on_disk (disk st') cat"
    "\<forall>k rs. cat k = Some rs \<and> rs \<noteq> [] \<longrightarrow> k \<in> dom (disk st')"
    using session_catalogue [OF assms(1,2)] by blast
  note rf = record_file [OF e(2) _ e(3,4,5)]
  have files: "\<exists>f. container_file (disk st') name = Some f \<and> length f \<le> MAX_CONTAINER_SIZE" if n: "name \<in> set names" for name
  proof -
    obtain flag r where h: "(flag, r) \<in> set hs" "name = containerName (s_addr r)" using assms(3) n by fastforce
    show ?thesis by (rule rf [OF h(1)]) (auto simp: h(2))
  qed
  have "pool_ok 64 (contents (disk st')) (ReadCache 64)" using new_pool_ok by (simp add: ReadCache_def)
  from GetReqContainers_ok [OF this assms(4,5)] files obtain outs' c where
    g: "GetReqContainers (disk st') names outs (ReadCache 64) = Inr (outs', c)"
      "list_all2 (\<lambda>name out. take (length (contents (disk st') name)) out = contents (disk st') name) names outs'"
    by blast
  have "reads_back (outs' ! i) r"
    if i: "i < length names" and h: "(flag, r) \<in> set hs" "containerName (s_addr r) = names ! i" for i flag r
  proof -
    obtain rs where rs: "container_file (disk st') (names ! i) = Some (content rs)"
      "placed (names ! i) 0 rs" "r \<in> set rs" using rf [OF h(1), unfolded h(2)] by blast
    have "take (length (content rs)) (outs' ! i) = content rs"
      using list_all2_nthD [OF g(2) i] rs(1) by (simp add: contents_def)
    then have "outs' ! i = [] @ content rs @ drop (length (content rs)) (outs' ! i)"
      by (metis append_Nil append_take_drop_id)
    with placed_reads_back [of "names ! i" "[]" rs r "drop (length (content rs)) (outs' ! i)"] rs show ?thesis
      by simp
  qed
  with e(1) g(1) show ?thesis by blast
qed

theorem upload_restore_witness:
  "\<exists>st st' addr outs' c. end_upload st = Inr st' \<and>
     GetReqContainers (disk st') [containerName addr] [replicate MAX_CONTAINER_SIZE 0] (ReadCache 64) = Inr (outs', c) \<and>
     reads_back (outs' ! 0) \<lparr>s_addr = addr, s_fp = fp0, s_sf = sf0, s_data = [1, 2, 3], s_iv = iv0\<rparr>"
proof -
  obtain st addr where s: "session st [(False, \<lparr>s_addr = addr, s_fp = fp0, s_sf = sf0, s_data = [1, 2, 3], s_iv = iv0\<rparr>)]"
    "Suc (con_times st) < 36 ^ CONTAINER_ID_LENGTH"
    using session_small by blast
  from upload_restore [OF s, of "[containerName addr]" "[replicate MAX_CONTAINER_SIZE 0]"]
  show ?thesis by fastforce
qed

text \<open>
  C10: The enclave's container cache and its feature index agree: reading a container of saved
  chunks into the cache leaves the pool of slots consistent, and in every slot the three maps
  list exactly the chunks of its container with a feature, in their order.
\<close>

theorem InContainer_index:
  assumes "inc_ok R c" "\<not> ExistsInCache name (slot_pool.truncate c)"
    and "placed nm 0 rs" "length (content rs) \<le> MAX_CONTAINER_SIZE"
  shows "\<exists>c'. InContainer_InsertToCache name (content rs) c = Inr c' \<and> inc_ok (R(name := rs)) c' \<and>
    ExistsInCache name (slot_pool.truncate c')"
  by (rule InContainer_InsertToCache_ok [OF assms])

lemma inc_new_empty: "\<not> ExistsInCache name (slot_pool.truncate InContainercache_new)"
  by (simp add: ExistsInCache_def InContainercache_new_def slot_pool.defs new_pool_def contains_def lru_new_def)

theorem InContainer_index_witness:
  "\<exists>addr c. InContainer_InsertToCache (replicate 7 0)
     (content [\<lparr>s_addr = addr, s_fp = fp0, s_sf = sf0, s_data = [1, 2, 3], s_iv = iv0\<rparr>]) InContainercache_new = Inr c"
proof -
  let ?a = "addr0\<lparr>re_length := 3\<rparr>"
  let ?r = "\<lparr>s_addr = ?a, s_fp = fp0, s_sf = sf0, s_data = [1, 2, 3], s_iv = iv0\<rparr> :: srec"
  have r: "srec_ok (replicate 7 0) 0 ?r" by (simp add: srec_ok_def recipe_wf_def size_consts)
  then have "placed (replicate 7 0) 0 [?r]" by simp
  moreover have "length (content [?r]) \<le> MAX_CONTAINER_SIZE"
    using srec_bytes_length [OF r] by (simp add: srec_size_def size_consts sizeof_RecipeEntry_def)
  ultimately show ?thesis
    using InContainer_index [OF inc_new_ok inc_new_empty, of "replicate 7 0" "[?r]" "replicate 7 0"] by blast
qed

text \<open>
  C11: A pool smaller than the cache serves wrong containers: with a configured read cache size
  of 1, after two containers were read, the first is still present and reading it yields the
  second.
\<close>

theorem ReadCache_small_stale:
  assumes "a \<noteq> b" "length da \<le> MAX_CONTAINER_SIZE" "length db \<le> MAX_CONTAINER_SIZE"
  shows "\<exists>c1 c2 buf c3. ReadCache_InsertToCache a da (ReadCache 1) = Inr c1 \<and>
    ReadCache_InsertToCache b db c1 = Inr c2 \<and> ExistsInCache a c2 \<and>
    ReadFromCache a c2 = Inr (buf, c3) \<and> take (length db) buf = db"
proof -
  let ?l = "lru_insert a 0 (lru_new 64 0) :: (byte list, nat) lru"
  let ?c1 = "\<lparr>pool_lru = ?l, containerPool = [da @ drop (length da) (replicate MAX_CONTAINER_SIZE 0)],
              cacheSize = 1, currentIndex = 1\<rparr>"
  have ok: "lru_ok ?l" "lru_abs ?l = [(a, 0)]"
    using lru_insert_correct [OF lru_new_ok, of a "0::nat" 64 0]
    by (simp_all add: lru_new_abs spec_insert_def)
  have b: "lru_bounded ?l" "max_size ?l = 64"
    using ok(1) by (simp_all add: lru_bounded_def)
  have sz: "lru_size ?l = 1" using lru_size_keys [OF ok(1)] ok(2) by (simp add: lru_abs_def) (metis length_map length_Cons list.size(3))
  have look: "lru_lookup ?l = [a \<mapsto> 0]" using ok(2) by (auto simp: lru_lookup_def)
  have i1: "ReadCache_InsertToCache a da (ReadCache 1) = Inr ?c1"
    using assms(2) by (simp add: ReadCache_InsertToCache_def InsertToCache_pool_def ReadCache_def new_pool_def
        lru_size_def pool_write_def buf_write_def) (simp add: lru_new_def)
  have "\<exists>old c' buf c''. old \<noteq> b \<and> ExistsInCache old ?c1 \<and> ReadCache_InsertToCache b db ?c1 = Inr c' \<and>
    ExistsInCache old c' \<and> ReadFromCache old c' = Inr (buf, c'') \<and> take (length db) buf = db"
    using assms b sz look contains_lookup [OF ok(1)]
    by (intro stale_insert) (auto simp: ExistsInCache_def slots_def)
  then show ?thesis
    using i1 look contains_lookup [OF ok(1)] by (auto simp: ExistsInCache_def split: if_splits)
qed

theorem ReadCache_small_stale_witness:
  "\<exists>c1 c2 buf c3. ReadCache_InsertToCache [1] [10] (ReadCache 1) = Inr c1 \<and>
    ReadCache_InsertToCache [2] [20] c1 = Inr c2 \<and> ReadFromCache [1] c2 = Inr (buf, c3) \<and> take 1 buf = [20]"
  using ReadCache_small_stale [of "[1]" "[2]" "[10]" "[20]"] by (fastforce simp: size_consts)

end
