(* ===== verification/Sketch.thy ===== *)
theory Sketch imports Types begin

text \<open>
  The frequency sketch of the enclave: a count-min sketch that never counts a chunk less often
  than it occurred, as long as the counters do not wrap around.
\<close>


section \<open>The count-min sketch\<close>

text \<open>\<open>ecallUtil/ecallCMSketch.cc\<close>.  A chunk hash is read as 32-bit words, one per row.\<close>

record EcallCMSketch =
  width :: u32
  depth :: u32
  total_num :: nat
  counterArray :: "u32 list list"

definition CMSketch_new :: "u32 \<Rightarrow> u32 \<Rightarrow> EcallCMSketch" where
  "CMSketch_new w d = \<lparr>width = w, depth = d, total_num = 0,
     counterArray = replicate (unat d) (replicate (unat w) 0)\<rparr>"

definition hash_word :: "byte list \<Rightarrow> nat \<Rightarrow> u32 res" where
  "hash_word chunkHash i = res_bind (buf_read chunkHash (4 * i) 4) (\<lambda>bs. Inr (get32 bs))"

text \<open>The column of row \<open>i\<close>, checked against the row that was allocated.\<close>

definition sketch_pos :: "EcallCMSketch \<Rightarrow> byte list \<Rightarrow> nat \<Rightarrow> nat res" where
  "sketch_pos s chunkHash i =
     res_bind (hash_word chunkHash i) (\<lambda>h.
       let pos = unat (h mod width s) in
       if i < length (counterArray s) \<and> pos < length (counterArray s ! i) then Inr pos else Inl OutOfBounds)"

fun sketch_min :: "EcallCMSketch \<Rightarrow> byte list \<Rightarrow> nat list \<Rightarrow> u32 \<Rightarrow> u32 res" where
  "sketch_min s chunkHash [] minVal = Inr minVal"
| "sketch_min s chunkHash (i # is) minVal =
     res_bind (sketch_pos s chunkHash i) (\<lambda>pos.
       sketch_min s chunkHash is (min minVal (counterArray s ! i ! pos)))"

definition Estimate :: "EcallCMSketch \<Rightarrow> byte list \<Rightarrow> u32 res" where
  "Estimate s chunkHash = sketch_min s chunkHash [0..<unat (depth s)] (- 1)"

fun sketch_add :: "byte list \<Rightarrow> u32 \<Rightarrow> nat list \<Rightarrow> EcallCMSketch \<Rightarrow> EcallCMSketch res" where
  "sketch_add chunkHash count [] s = Inr s"
| "sketch_add chunkHash count (i # is) s =
     res_bind (sketch_pos s chunkHash i) (\<lambda>pos.
       let row = counterArray s ! i in
       sketch_add chunkHash count is
         (s\<lparr>counterArray := (counterArray s)[i := row[pos := row ! pos + count]]\<rparr>))"

definition Update :: "byte list \<Rightarrow> u32 \<Rightarrow> EcallCMSketch \<Rightarrow> EcallCMSketch res" where
  "Update chunkHash count s =
     sketch_add chunkHash count [0..<unat (depth s)] (s\<lparr>total_num := total_num s + unat count\<rparr>)"

definition ClearUp :: "EcallCMSketch \<Rightarrow> EcallCMSketch" where
  "ClearUp s = s\<lparr>counterArray := map (map (\<lambda>_. 0)) (counterArray s)\<rparr>"

fun Updates :: "(byte list \<times> u32) list \<Rightarrow> EcallCMSketch \<Rightarrow> EcallCMSketch res" where
  "Updates [] s = Inr s"
| "Updates ((h, n) # us) s = res_bind (Update h n s) (Updates us)"

section \<open>Counting\<close>

text \<open>
  The invariant relates the counters to the history of updates: a counter is the sum, modulo
  the word size, of the counts of all hashes that fall into its column.
\<close>

definition column :: "EcallCMSketch \<Rightarrow> byte list \<Rightarrow> nat \<Rightarrow> nat" where
  "column s h i = unat (get32 (bslice h (4 * i) 4) mod width s)"

definition hits :: "EcallCMSketch \<Rightarrow> nat \<Rightarrow> nat \<Rightarrow> (byte list \<times> u32) list \<Rightarrow> nat" where
  "hits s i pos us = sum_list (map (\<lambda>(h, n). if column s h i = pos then unat n else 0) us)"

definition occurrences :: "byte list \<Rightarrow> (byte list \<times> u32) list \<Rightarrow> nat" where
  "occurrences x us = sum_list (map (\<lambda>(h, n). if h = x then unat n else 0) us)"

definition total_count :: "(byte list \<times> u32) list \<Rightarrow> nat" where
  "total_count us = sum_list (map (\<lambda>(h, n). unat n) us)"

definition sketch_ok :: "EcallCMSketch \<Rightarrow> (byte list \<times> u32) list \<Rightarrow> bool" where
  "sketch_ok s us \<longleftrightarrow> 0 < width s \<and> length (counterArray s) = unat (depth s) \<and>
     (\<forall>i < unat (depth s). length (counterArray s ! i) = unat (width s) \<and>
        (\<forall>pos < unat (width s). counterArray s ! i ! pos = word_of_nat (hits s i pos us)))"

lemma column_less: "0 < width s \<Longrightarrow> column s h i < unat (width s)"
  by (simp add: column_def unat_mod_distrib word_less_nat_alt)

lemma sketch_pos_ok:
  assumes "0 < width s" "length (counterArray s) = unat (depth s)"
    "\<forall>i < unat (depth s). length (counterArray s ! i) = unat (width s)"
    "i < unat (depth s)" "4 * unat (depth s) \<le> length h"
  shows "sketch_pos s h i = Inr (column s h i)"
  using assms column_less [of s h i]
  by (simp add: sketch_pos_def hash_word_def buf_read_def column_def Let_def)

lemma sketch_new_ok: "0 < w \<Longrightarrow> sketch_ok (CMSketch_new w d) []"
  by (simp add: sketch_ok_def CMSketch_new_def hits_def)

definition sketch_dims :: "EcallCMSketch \<Rightarrow> bool" where
  "sketch_dims s \<longleftrightarrow> 0 < width s \<and> length (counterArray s) = unat (depth s) \<and>
     (\<forall>i < unat (depth s). length (counterArray s ! i) = unat (width s))"

lemma sketch_add_ok:
  assumes "sketch_dims s" "set is \<subseteq> {..<unat (depth s)}" "distinct is" "4 * unat (depth s) \<le> length h"
  shows "\<exists>ca. sketch_add h n is s = Inr (s\<lparr>counterArray := ca\<rparr>) \<and> sketch_dims (s\<lparr>counterArray := ca\<rparr>) \<and>
    (\<forall>i < unat (depth s). \<forall>pos < unat (width s). ca ! i ! pos =
       (if i \<in> set is \<and> pos = column s h i then counterArray s ! i ! pos + n else counterArray s ! i ! pos))"
  using assms
proof (induction "is" arbitrary: s)
  case Nil
  have "s\<lparr>counterArray := counterArray s\<rparr> = s" by simp
  then show ?case using Nil.prems by (intro exI [of _ "counterArray s"]) simp
next
  case (Cons i js)
  let ?d = "unat (depth s)" and ?w = "unat (width s)"
  have d: "0 < width s" "length (counterArray s) = ?d" "\<forall>i < ?d. length (counterArray s ! i) = ?w"
    using Cons.prems(1) by (auto simp: sketch_dims_def)
  have i: "i < ?d" using Cons.prems(2) by simp
  let ?ca = "(counterArray s)[i := (counterArray s ! i)[column s h i := counterArray s ! i ! column s h i + n]]"
  let ?s = "s\<lparr>counterArray := ?ca\<rparr>"
  have p: "sketch_pos s h i = Inr (column s h i)" by (rule sketch_pos_ok [OF d i Cons.prems(4)])
  have dims: "sketch_dims ?s"
    using d i by (auto simp: sketch_dims_def nth_list_update)
  have "\<exists>ca. sketch_add h n js ?s = Inr (?s\<lparr>counterArray := ca\<rparr>) \<and> sketch_dims (?s\<lparr>counterArray := ca\<rparr>) \<and>
    (\<forall>i < unat (depth ?s). \<forall>pos < unat (width ?s). ca ! i ! pos =
       (if i \<in> set js \<and> pos = column ?s h i then counterArray ?s ! i ! pos + n else counterArray ?s ! i ! pos))"
    using Cons.prems dims by (intro Cons.IH) auto
  then obtain ca where ca: "sketch_add h n js ?s = Inr (s\<lparr>counterArray := ca\<rparr>)" "sketch_dims (s\<lparr>counterArray := ca\<rparr>)"
    "\<And>k pos. k < ?d \<Longrightarrow> pos < ?w \<Longrightarrow> ca ! k ! pos =
       (if k \<in> set js \<and> pos = column s h k then ?ca ! k ! pos + n else ?ca ! k ! pos)"
    by (auto simp: column_def)
  have "ca ! k ! pos = (if k \<in> set (i # js) \<and> pos = column s h k then counterArray s ! k ! pos + n
      else counterArray s ! k ! pos)" if "k < ?d" "pos < ?w" for k pos
    using ca(3) [OF that] that d i Cons.prems(3) column_less [OF d(1)]
    by (auto simp: nth_list_update)
  with ca p show ?case by (auto simp: Let_def)
qed

lemma Update_ok:
  assumes s: "sketch_ok s us" and h: "4 * unat (depth s) \<le> length h"
  obtains s' where "Update h n s = Inr s'" "sketch_ok s' (us @ [(h, n)])" "depth s' = depth s"
    "width s' = width s" "total_num s' = total_num s + unat n"
proof -
  let ?s = "s\<lparr>total_num := total_num s + unat n\<rparr>"
  have d: "sketch_dims ?s" using s by (simp add: sketch_ok_def sketch_dims_def)
  have sub: "set [0..<unat (depth s)] \<subseteq> {..<unat (depth ?s)}" by auto
  from sketch_add_ok [OF d sub, of h n] h obtain ca where
    ca: "sketch_add h n [0..<unat (depth s)] ?s = Inr (?s\<lparr>counterArray := ca\<rparr>)"
      "sketch_dims (?s\<lparr>counterArray := ca\<rparr>)"
      "\<And>i pos. i < unat (depth s) \<Longrightarrow> pos < unat (width s) \<Longrightarrow> ca ! i ! pos =
        (if pos = column s h i then counterArray s ! i ! pos + n else counterArray s ! i ! pos)"
    by (auto simp: column_def)
  let ?s' = "?s\<lparr>counterArray := ca\<rparr>"
  have "ca ! i ! pos = word_of_nat (hits ?s' i pos (us @ [(h, n)]))"
    if "i < unat (depth s)" "pos < unat (width s)" for i pos
    using ca(3) [OF that] s that by (auto simp: sketch_ok_def hits_def column_def)
  then have "sketch_ok ?s' (us @ [(h, n)])"
    using ca(2) by (auto simp: sketch_ok_def sketch_dims_def)
  with ca(1) that [of ?s'] show thesis by (simp add: Update_def)
qed

lemma Updates_ok:
  assumes "sketch_ok s us0" "\<forall>(h, n) \<in> set us. 4 * unat (depth s) \<le> length h"
  shows "\<exists>s'. Updates us s = Inr s' \<and> sketch_ok s' (us0 @ us) \<and> depth s' = depth s \<and> width s' = width s \<and>
    total_num s' = total_num s + total_count us"
  using assms
proof (induction us arbitrary: s us0)
  case Nil
  then show ?case by (simp add: total_count_def)
next
  case (Cons u us)
  obtain h n where u: "u = (h, n)" by (cases u)
  have h: "4 * unat (depth s) \<le> length h" using Cons.prems(2) u by simp
  obtain s1 where s1: "Update h n s = Inr s1" "sketch_ok s1 (us0 @ [(h, n)])" "depth s1 = depth s"
    "width s1 = width s" "total_num s1 = total_num s + unat n"
    by (rule Update_ok [OF Cons.prems(1) h])
  have "\<exists>s'. Updates us s1 = Inr s' \<and> sketch_ok s' ((us0 @ [(h, n)]) @ us) \<and> depth s' = depth s1 \<and>
      width s' = width s1 \<and> total_num s' = total_num s1 + total_count us"
    using Cons.prems(2) s1(3) by (intro Cons.IH [OF s1(2)]) simp
  with s1 show ?case by (auto simp: u total_count_def)
qed

lemma hits_bounds: "occurrences h us \<le> hits s i (column s h i) us" "hits s i pos us \<le> total_count us"
  unfolding occurrences_def hits_def total_count_def by (induction us) (auto simp: add_mono trans_le_add2)

lemma sketch_min_ok:
  assumes s: "sketch_ok s us" and h: "4 * unat (depth s) \<le> length h" and t: "total_count us < 2 ^ 32"
    and "is": "set is \<subseteq> {..<unat (depth s)}" and m: "occurrences h us \<le> unat m"
  shows "\<exists>e. sketch_min s h is m = Inr e \<and> occurrences h us \<le> unat e \<and> e \<le> m \<and>
    (is \<noteq> [] \<longrightarrow> unat e \<le> total_count us) \<and>
    (\<forall>i \<in> set is. unat e \<le> hits s i (column s h i) us)"
  using "is" m
proof (induction "is" arbitrary: m)
  case (Cons i js)
  have d: "0 < width s" "length (counterArray s) = unat (depth s)"
    "\<forall>i < unat (depth s). length (counterArray s ! i) = unat (width s)"
    using s by (auto simp: sketch_ok_def)
  have i: "i < unat (depth s)" using Cons.prems by simp
  have p: "sketch_pos s h i = Inr (column s h i)" by (rule sketch_pos_ok [OF d i h])
  let ?c = "counterArray s ! i ! column s h i"
  have "?c = word_of_nat (hits s i (column s h i) us)"
    using s i column_less [OF d(1), of h i] by (simp add: sketch_ok_def)
  moreover have "hits s i (column s h i) us < 2 ^ 32" using hits_bounds(2) t by (rule le_less_trans)
  ultimately have c: "unat ?c = hits s i (column s h i) us" by (simp add: unat_of_nat)
  have "\<exists>e. sketch_min s h js (min m ?c) = Inr e \<and> occurrences h us \<le> unat e \<and> e \<le> min m ?c \<and>
    (js \<noteq> [] \<longrightarrow> unat e \<le> total_count us) \<and> (\<forall>i \<in> set js. unat e \<le> hits s i (column s h i) us)"
    using Cons.prems c hits_bounds(1) [of h us s i] by (intro Cons.IH) (auto simp: min_def)
  then obtain e where e: "sketch_min s h js (min m ?c) = Inr e" "occurrences h us \<le> unat e" "e \<le> min m ?c"
    "\<forall>i \<in> set js. unat e \<le> hits s i (column s h i) us" by blast
  have "unat e \<le> hits s i (column s h i) us" 
  proof -
    have "e \<le> ?c" using e(3) by simp
    then show ?thesis using c by (simp only: word_le_nat_alt)
  qed
  with e p hits_bounds(2) [of s i "column s h i" us] show ?case by (auto intro: le_trans)
qed (use h in auto)

end
