(* ===== verification/EntryHeap.thy ===== *)
theory EntryHeap imports Types begin

text \<open>
  The top-k index of the enclave (\<open>ecallUtil/ecallEntryHeap.cc\<close>): a binary min-heap, ordered by
  frequency, of references to the nodes of a hash map.  A reference is the key of its node,
  which is unique; every node knows its position in the heap.
\<close>


section \<open>State and operations\<close>

record HeapItem_t =
  address :: RecipeEntry_t
  chunkFreq :: u32
  idx :: nat

record EcallEntryHeap =
  heap :: "byte list list"
  index :: "byte list \<Rightarrow> HeapItem_t option"

definition new_heap :: EcallEntryHeap where
  "new_heap = \<lparr>heap = [], index = (\<lambda>_. None)\<rparr>"

definition ParentIdx :: "nat \<Rightarrow> nat" where
  "ParentIdx i = ((i + 2 ^ 32 - 1) mod 2 ^ 32) div 2"

definition ChildIdx :: "nat \<Rightarrow> nat" where
  "ChildIdx i = (i * 2 + 1) mod 2 ^ 32"

text \<open>\<open>_heap[i]->second\<close>: the position must exist and its node must still be in the index.\<close>

definition item_at :: "EcallEntryHeap \<Rightarrow> nat \<Rightarrow> HeapItem_t res" where
  "item_at s i =
     (if i < length (heap s)
      then case index s (heap s ! i) of Some it \<Rightarrow> Inr it | None \<Rightarrow> Inl NullPtr
      else Inl OutOfBounds)"

definition set_idx :: "nat \<Rightarrow> nat \<Rightarrow> EcallEntryHeap \<Rightarrow> EcallEntryHeap res" where
  "set_idx i v s = res_bind (item_at s i) (\<lambda>it.
     Inr (s\<lparr>index := (index s)(heap s ! i \<mapsto> it\<lparr>idx := v\<rparr>)\<rparr>))"

definition swap :: "nat \<Rightarrow> nat \<Rightarrow> 'a list \<Rightarrow> 'a list" where
  "swap i j xs = xs[i := xs ! j, j := xs ! i]"

definition CompFreq :: "u32 \<Rightarrow> u32 \<Rightarrow> bool" where
  "CompFreq freq1 freq2 \<longleftrightarrow> freq1 < freq2"

text \<open>The first argument bounds the number of rounds; the number of entries is enough.\<close>

fun SwapUp :: "nat \<Rightarrow> nat \<Rightarrow> EcallEntryHeap \<Rightarrow> (nat \<times> EcallEntryHeap) res" where
  "SwapUp 0 i s = Inl NoReturn"
| "SwapUp (Suc n) i s =
     (let parent = ParentIdx i in
      if 0 < i then
        res_bind (item_at s i) (\<lambda>x. res_bind (item_at s parent) (\<lambda>y.
          if CompFreq (chunkFreq x) (chunkFreq y) then
            res_bind (set_idx i i (s\<lparr>heap := swap i parent (heap s)\<rparr>)) (SwapUp n parent)
          else Inr (i, s)))
      else Inr (i, s))"

fun SwapDown :: "nat \<Rightarrow> nat \<Rightarrow> EcallEntryHeap \<Rightarrow> (nat \<times> EcallEntryHeap) res" where
  "SwapDown 0 i s = Inl NoReturn"
| "SwapDown (Suc n) i s =
     (let child = ChildIdx i in
      if child < length (heap s) then
        res_bind
          (if (child + 1) mod 2 ^ 32 < length (heap s)
           then res_bind (item_at s ((child + 1) mod 2 ^ 32)) (\<lambda>r. res_bind (item_at s child) (\<lambda>l.
                  Inr (if CompFreq (chunkFreq r) (chunkFreq l) then (child + 1) mod 2 ^ 32 else child)))
           else Inr child)
          (\<lambda>child. res_bind (item_at s child) (\<lambda>x. res_bind (item_at s i) (\<lambda>y.
             if \<not> CompFreq (chunkFreq x) (chunkFreq y) then Inr (i, s)
             else res_bind (set_idx i i (s\<lparr>heap := swap child i (heap s)\<rparr>)) (SwapDown n child))))
      else Inr (i, s))"

definition rounds :: "EcallEntryHeap \<Rightarrow> nat" where
  "rounds s = Suc (length (heap s))"

definition Size :: "EcallEntryHeap \<Rightarrow> nat" where
  "Size s = length (heap s)"

definition TopEntry :: "EcallEntryHeap \<Rightarrow> u32 res" where
  "TopEntry s = res_bind (item_at s 0) (\<lambda>it. Inr (chunkFreq it))"

text \<open>
  \<open>Pop\<close> drops the last element before it sifts, and then assigns through \<open>_heap[idx]\<close>.
\<close>

definition Pop :: "EcallEntryHeap \<Rightarrow> EcallEntryHeap res" where
  "Pop s =
     (if heap s = [] then Inl OutOfBounds
      else let t = heap s ! 0;
               h = butlast ((heap s)[0 := last (heap s)]);
               s = s\<lparr>heap := h, index := (index s)(t := None)\<rparr>
           in res_bind (SwapDown (rounds s) 0 s) (\<lambda>(i, s). set_idx i i s))"

text \<open>
  \<open>_index[key]\<close>: a key that is missing is inserted with an item of zero bytes.
\<close>

definition zero_item :: HeapItem_t where
  "zero_item = \<lparr>address = \<lparr>containerName = replicate 7 0, re_deltaFlag = 0, re_offset = 0,
     re_length = 0, basechunkHash = replicate 32 0, superfeature = replicate 96 0\<rparr>,
     chunkFreq = 0, idx = 0\<rparr>"

definition node_ref :: "byte list \<Rightarrow> EcallEntryHeap \<Rightarrow> HeapItem_t \<times> EcallEntryHeap" where
  "node_ref key s =
     (case index s key of
        Some it \<Rightarrow> (it, s)
      | None \<Rightarrow> (zero_item, s\<lparr>index := (index s)(key \<mapsto> zero_item)\<rparr>))"

definition put_idx :: "byte list \<Rightarrow> nat \<Rightarrow> EcallEntryHeap \<Rightarrow> EcallEntryHeap" where
  "put_idx key i s =
     (let (it, s) = node_ref key s in s\<lparr>index := (index s)(key \<mapsto> it\<lparr>idx := i\<rparr>)\<rparr>)"

lemma node_ref_Some [simp]: "index s key = Some it \<Longrightarrow> node_ref key s = (it, s)"
  by (simp add: node_ref_def)

lemma put_idx_Some [simp]:
  "index s key = Some it \<Longrightarrow> put_idx key i s = s\<lparr>index := (index s)(key \<mapsto> it\<lparr>idx := i\<rparr>)\<rparr>"
  by (simp add: put_idx_def)

text \<open>\<open>insert\<close> of a key that is present leaves the index as it is.\<close>

definition Add :: "byte list \<Rightarrow> HeapItem_t \<Rightarrow> EcallEntryHeap \<Rightarrow> EcallEntryHeap res" where
  "Add key value s =
     (let s = s\<lparr>index := (case index s key of None \<Rightarrow> (index s)(key \<mapsto> value) | Some _ \<Rightarrow> index s),
               heap := heap s @ [key]\<rparr>
      in res_bind (SwapUp (rounds s) (length (heap s) - 1) s) (\<lambda>(i, s).
           Inr (put_idx key i s)))"

definition Update_freq :: "byte list \<Rightarrow> u32 \<Rightarrow> EcallEntryHeap \<Rightarrow> EcallEntryHeap res" where
  "Update_freq key freq s =
     (let (it, s) = node_ref key s in
      res_bind (item_at s (idx it)) (\<lambda>x.
      let s = s\<lparr>index := (index s)(heap s ! idx it \<mapsto> x\<lparr>chunkFreq := freq\<rparr>)\<rparr> in
      res_bind (SwapUp (rounds s) (idx it) s) (\<lambda>(i, s).
      res_bind (SwapDown (rounds s) i s) (\<lambda>(i, s).
        Inr (put_idx key i s)))))"

definition Contains_heap :: "byte list \<Rightarrow> EcallEntryHeap \<Rightarrow> bool" where
  "Contains_heap key s \<longleftrightarrow> index s key \<noteq> None"

definition GetPriority :: "byte list \<Rightarrow> EcallEntryHeap \<Rightarrow> HeapItem_t \<times> EcallEntryHeap" where
  "GetPriority key s = node_ref key s"

text \<open>\<open>CheckIfAddToHeap\<close> and \<open>AddChunkToHeap\<close> of \<open>ecallFreqIndex.cc\<close>, with the threshold.\<close>

definition CheckIfAddToHeap :: "nat \<Rightarrow> u32 \<Rightarrow> EcallEntryHeap \<Rightarrow> bool res" where
  "CheckIfAddToHeap topThreshold freq s =
     (if Size s < topThreshold then Inr True
      else res_bind (TopEntry s) (\<lambda>currentMin. Inr (currentMin \<le> freq)))"

definition AddChunkToHeap ::
    "nat \<Rightarrow> u32 \<Rightarrow> RecipeEntry_t \<Rightarrow> byte list \<Rightarrow> EcallEntryHeap \<Rightarrow> EcallEntryHeap res" where
  "AddChunkToHeap topThreshold freq addr fp s =
     res_bind (if Size s = topThreshold then Pop s else Inr s)
       (Add fp \<lparr>address = addr, chunkFreq = freq, idx = 0\<rparr>)"

text \<open>One chunk in the last step of a batch.\<close>

definition UpdateTopK ::
    "nat \<Rightarrow> u32 \<Rightarrow> RecipeEntry_t \<Rightarrow> byte list \<Rightarrow> EcallEntryHeap \<Rightarrow> EcallEntryHeap res" where
  "UpdateTopK topThreshold freq addr fp s =
     res_bind (CheckIfAddToHeap topThreshold freq s) (\<lambda>b.
       if b then (if Contains_heap fp s then Update_freq fp freq s
                  else AddChunkToHeap topThreshold freq addr fp s)
       else Inr s)"

section \<open>Invariant\<close>

definition freq_of :: "EcallEntryHeap \<Rightarrow> byte list \<Rightarrow> u32" where
  "freq_of s k = chunkFreq (the (index s k))"

definition par :: "nat \<Rightarrow> nat" where
  "par i = (i - 1) div 2"

text \<open>Nodes and index belong together, and all but the exempt positions know their place.\<close>

definition linked :: "nat set \<Rightarrow> EcallEntryHeap \<Rightarrow> bool" where
  "linked X s \<longleftrightarrow> distinct (heap s) \<and> set (heap s) = dom (index s) \<and> length (heap s) < 2 ^ 31 \<and>
     (\<forall>i < length (heap s). i \<notin> X \<longrightarrow> idx (the (index s (heap s ! i))) = i)"

text \<open>The order of a heap whose keys have frequencies \<open>f\<close>, but for the edges in \<open>E\<close>.\<close>

definition ordered :: "('a \<Rightarrow> u32) \<Rightarrow> nat set \<Rightarrow> 'a list \<Rightarrow> bool" where
  "ordered f E h \<longleftrightarrow> (\<forall>i. 0 < i \<and> i < length h \<and> i \<notin> E \<longrightarrow> f (h ! par i) \<le> f (h ! i))"

text \<open>The children of \<open>p\<close> are not below its parent.\<close>

definition skip_ok :: "('a \<Rightarrow> u32) \<Rightarrow> nat \<Rightarrow> 'a list \<Rightarrow> bool" where
  "skip_ok f p h \<longleftrightarrow> (0 < p \<longrightarrow> (\<forall>i. 0 < i \<and> i < length h \<and> par i = p \<longrightarrow> f (h ! par p) \<le> f (h ! i)))"

definition heap_ok :: "EcallEntryHeap \<Rightarrow> bool" where
  "heap_ok s \<longleftrightarrow> linked {} s \<and> ordered (freq_of s) {} (heap s)"

text \<open>The abstract content: address and frequency of every key.\<close>

definition entries :: "EcallEntryHeap \<Rightarrow> byte list \<Rightarrow> (RecipeEntry_t \<times> u32) option" where
  "entries s k = map_option (\<lambda>it. (address it, chunkFreq it)) (index s k)"

lemma par_less: "0 < i \<Longrightarrow> par i < i"
  by (auto simp: par_def)

lemma par_iff: "par i = p \<and> 0 < i \<longleftrightarrow> i = 2 * p + 1 \<or> i = 2 * p + 2"
  by (auto simp: par_def)

lemma ParentIdx_par: "0 < i \<Longrightarrow> i < 2 ^ 32 \<Longrightarrow> ParentIdx i = par i"
proof -
  assume "0 < i" "i < 2 ^ 32"
  then have "(i + 2 ^ 32 - 1) mod 2 ^ 32 = i - 1" by (simp add: mod_if)
  then show ?thesis by (simp add: ParentIdx_def par_def)
qed

lemma ChildIdx_eq: "i < 2 ^ 31 \<Longrightarrow> ChildIdx i = 2 * i + 1"
  by (simp add: ChildIdx_def)


section \<open>Sifting\<close>

lemma swap_length [simp]: "length (swap i j xs) = length xs"
  by (simp add: swap_def)

lemma swap_nth:
  "i < length xs \<Longrightarrow> j < length xs \<Longrightarrow> k < length xs \<Longrightarrow>
    swap i j xs ! k = (if k = i then xs ! j else if k = j then xs ! i else xs ! k)"
  by (simp add: swap_def nth_list_update)

lemma swap_commute: "i < length xs \<Longrightarrow> j < length xs \<Longrightarrow> swap i j xs = swap j i xs"
  by (rule nth_equalityI) (auto simp: swap_nth)

lemma swap_set [simp]: "i < length xs \<Longrightarrow> j < length xs \<Longrightarrow> set (swap i j xs) = set xs"
  by (simp add: swap_def)

lemma swap_distinct [simp]: "i < length xs \<Longrightarrow> j < length xs \<Longrightarrow> distinct (swap i j xs) = distinct xs"
  by (simp add: swap_def)

lemma item_at_linked:
  assumes "linked X s" "i < length (heap s)"
  obtains it where "item_at s i = Inr it" "index s (heap s ! i) = Some it" "chunkFreq it = freq_of s (heap s ! i)"
proof -
  have "heap s ! i \<in> dom (index s)" using assms nth_mem unfolding linked_def by blast
  then obtain it where "index s (heap s ! i) = Some it" by blast
  with assms(2) that show thesis by (simp add: item_at_def freq_of_def)
qed

text \<open>What sifting leaves alone: the addresses and frequencies, and the set of keys.\<close>

definition same_entries :: "EcallEntryHeap \<Rightarrow> EcallEntryHeap \<Rightarrow> bool" where
  "same_entries s t \<longleftrightarrow> entries s = entries t \<and> freq_of s = freq_of t \<and> length (heap s) = length (heap t)"

lemma same_entries_simps:
  "same_entries s s" "same_entries s t \<Longrightarrow> same_entries t u \<Longrightarrow> same_entries s u"
  by (auto simp: same_entries_def)

lemma swap_step:
  assumes s: "linked {i} s" and i: "i < length (heap s)" and j: "j < length (heap s)" and ij: "i \<noteq> j"
  obtains s1 where "set_idx i i (s\<lparr>heap := swap i j (heap s)\<rparr>) = Inr s1" "heap s1 = swap i j (heap s)"
    "linked {j} s1" "same_entries s1 s"
proof -
  let ?h = "swap i j (heap s)"
  have hi: "?h ! i = heap s ! j" using i j by (simp add: swap_nth)
  obtain it where it: "index s (heap s ! j) = Some it" by (rule item_at_linked [OF s j])
  let ?s1 = "s\<lparr>heap := ?h, index := (index s)(heap s ! j \<mapsto> it\<lparr>idx := i\<rparr>)\<rparr>"
  have "set_idx i i (s\<lparr>heap := ?h\<rparr>) = Inr ?s1"
    using i it hi by (simp add: set_idx_def item_at_def)
  moreover have "linked {j} ?s1"
  proof -
    have "idx (the (index ?s1 (?h ! k))) = k" if k: "k < length (heap s)" "k \<noteq> j" for k
    proof (cases "k = i")
      case True
      then show ?thesis by (simp add: hi)
    next
      case False
      then have "?h ! k = heap s ! k" "heap s ! k \<noteq> heap s ! j"
        using k i j s by (auto simp: swap_nth linked_def nth_eq_iff_index_eq)
      then show ?thesis using s k False by (simp add: linked_def)
    qed
    moreover have "heap s ! j \<in> dom (index s)" using it by blast
    ultimately show ?thesis using s i j by (auto simp: linked_def)
  qed
  moreover have "same_entries ?s1 s"
    using it by (auto simp: same_entries_def entries_def freq_of_def fun_eq_iff)
  ultimately show thesis using that [of ?s1] by simp
qed

lemma orderedD: "ordered f E h \<Longrightarrow> 0 < i \<Longrightarrow> i < length h \<Longrightarrow> i \<notin> E \<Longrightarrow> f (h ! par i) \<le> f (h ! i)"
  by (simp add: ordered_def)

lemma skip_okD: "skip_ok f p h \<Longrightarrow> 0 < p \<Longrightarrow> 0 < i \<Longrightarrow> i < length h \<Longrightarrow> par i = p \<Longrightarrow> f (h ! par p) \<le> f (h ! i)"
  by (simp add: skip_ok_def)

lemma up_order:
  fixes f :: "'a \<Rightarrow> u32"
  assumes o: "ordered f {i} h" and k: "skip_ok f i h" and i: "0 < i" "i < length h"
    and less: "f (h ! i) < f (h ! par i)"
  shows "ordered f {par i} (swap i (par i) h) \<and> skip_ok f (par i) (swap i (par i) h)"
proof -
  define p where "p = par i"
  have p: "p < i" using par_less [OF i(1)] by (simp add: p_def)
  let ?h = "swap i p h"
  have n: "?h ! j = (if j = i then h ! p else if j = p then h ! i else h ! j)" if "j < length h" for j
    using swap_nth [of i h p j] that i p by simp
  have pj: "par j < length h" if "j < length h" for j using that by (simp add: par_def)
  have "f (?h ! par j) \<le> f (?h ! j)" if j: "0 < j" "j < length h" "j \<noteq> p" for j
  proof -
    consider "j = i" | "j \<noteq> i" "par j = i" | "j \<noteq> i" "par j = p" | "j \<noteq> i" "par j \<noteq> i" "par j \<noteq> p" by blast
    then show ?thesis
    proof cases
      case 1
      then show ?thesis using less i p n by (simp add: p_def [symmetric] less_imp_le)
    next
      case 2
      then show ?thesis using skip_okD [OF k i(1) j(1,2)] j n [of j] n [of i] i by (simp add: p_def)
    next
      case 3
      have "f (h ! p) \<le> f (h ! j)" using orderedD [OF o j(1,2)] 3 by simp
      then show ?thesis using 3 less j p i n [of j] n [of p] by (simp add: p_def [symmetric])
    next
      case 4
      have "f (h ! par j) \<le> f (h ! j)" using orderedD [OF o j(1,2)] 4 by simp
      then show ?thesis using 4 j n [of j] n [of "par j"] pj [OF j(2)] by simp
    qed
  qed
  then have "ordered f {p} ?h" by (simp add: ordered_def)
  moreover have "skip_ok f p ?h"
    unfolding skip_ok_def
  proof (intro impI allI, elim conjE)
    fix j assume p0: "0 < p" and j: "0 < j" "j < length ?h" "par j = p"
    have pp: "par p < p" using par_less [OF p0] .
    have top: "?h ! par p = h ! par p" using n [of "par p"] pp p i by simp
    have a: "f (h ! par p) \<le> f (h ! p)" using orderedD [OF o p0] p i by simp
    show "f (?h ! par p) \<le> f (?h ! j)"
    proof (cases "j = i")
      case True
      then show ?thesis using a top n [of i] i by simp
    next
      case False
      have "j \<noteq> p" using par_less [OF j(1)] j(3) by simp
      have "f (h ! p) \<le> f (h ! j)" using orderedD [OF o j(1)] j False by simp
      then show ?thesis using a top n [of j] j False \<open>j \<noteq> p\<close> by simp
    qed
  qed
  ultimately show ?thesis by (simp add: p_def)
qed

lemma SwapUp_ok:
  assumes "linked {i} s" "i < length (heap s)" "ordered (freq_of s) {i} (heap s)"
    "skip_ok (freq_of s) i (heap s)" "i < n"
  shows "\<exists>i' s'. SwapUp n i s = Inr (i', s') \<and> linked {i'} s' \<and> i' < length (heap s') \<and>
    ordered (freq_of s') {} (heap s') \<and> same_entries s' s \<and> heap s' ! i' = heap s ! i"
  using assms
proof (induction n arbitrary: i s)
  case (Suc n)
  show ?case
  proof (cases "0 < i \<and> freq_of s (heap s ! i) < freq_of s (heap s ! par i)")
    case False
    have "ordered (freq_of s) {} (heap s)"
      using Suc.prems(3) False by (auto simp: ordered_def not_less)
    moreover have "SwapUp (Suc n) i s = Inr (i, s)"
    proof (cases "0 < i")
      case True
      have "i < 2 ^ 32" using Suc.prems(1,2) by (simp add: linked_def)
      then have p: "ParentIdx i = par i" "par i < length (heap s)"
        using ParentIdx_par True Suc.prems(2) by (auto simp: par_def)
      obtain x where x: "item_at s i = Inr x" "chunkFreq x = freq_of s (heap s ! i)"
        by (rule item_at_linked [OF Suc.prems(1,2)])
      obtain y where y: "item_at s (par i) = Inr y" "chunkFreq y = freq_of s (heap s ! par i)"
        by (rule item_at_linked [OF Suc.prems(1) p(2)])
      show ?thesis using False True x y p(1) by (simp add: CompFreq_def)
    qed simp
    ultimately show ?thesis using Suc.prems same_entries_simps(1) by auto
  next
    case True
    then have i: "0 < i" "freq_of s (heap s ! i) < freq_of s (heap s ! par i)" by auto
    have "i < 2 ^ 32" using Suc.prems(1,2) by (simp add: linked_def)
    then have p: "ParentIdx i = par i" "par i < length (heap s)" "par i < i"
      using ParentIdx_par i(1) Suc.prems(2) par_less [OF i(1)] by auto
    obtain x where x: "item_at s i = Inr x" "chunkFreq x = freq_of s (heap s ! i)"
      by (rule item_at_linked [OF Suc.prems(1,2)])
    obtain y where y: "item_at s (par i) = Inr y" "chunkFreq y = freq_of s (heap s ! par i)"
      by (rule item_at_linked [OF Suc.prems(1) p(2)])
    obtain s1 where s1: "set_idx i i (s\<lparr>heap := swap i (par i) (heap s)\<rparr>) = Inr s1"
      "heap s1 = swap i (par i) (heap s)" "linked {par i} s1" "same_entries s1 s"
      by (rule swap_step [OF Suc.prems(1,2) p(2)]) (use p(3) in auto)
    have o: "ordered (freq_of s1) {par i} (heap s1)" "skip_ok (freq_of s1) (par i) (heap s1)"
      using up_order [OF Suc.prems(3,4) i(1) Suc.prems(2) i(2)] s1(2,4) by (simp_all add: same_entries_def)
    have "par i < length (heap s1)" "par i < n" using p Suc.prems(5) s1(2) by simp_all
    from Suc.IH [OF s1(3) this(1) o this(2)] obtain i' s' where r:
      "SwapUp n (par i) s1 = Inr (i', s')" "linked {i'} s'" "i' < length (heap s')"
      "ordered (freq_of s') {} (heap s')" "same_entries s' s1" "heap s' ! i' = heap s1 ! par i" by blast
    have "SwapUp (Suc n) i s = Inr (i', s')"
      using i x y p(1) s1(1) r(1) by (simp add: CompFreq_def)
    moreover have "heap s1 ! par i = heap s ! i"
      using s1(2) swap_nth [of i "heap s" "par i" "par i"] p Suc.prems(2) by simp
    moreover have "same_entries s' s" by (rule same_entries_simps(2) [OF r(5) s1(4)])
    ultimately show ?thesis using r(2-4,6) by auto
  qed
qed simp

text \<open>The edges from a node to its children.\<close>

definition below :: "nat \<Rightarrow> nat set" where
  "below i = {j. 0 < j \<and> par j = i}"

lemma below_iff: "j \<in> below i \<longleftrightarrow> j = 2 * i + 1 \<or> j = 2 * i + 2"
  using par_iff [of j i] by (auto simp: below_def)

lemma down_order:
  fixes f :: "'a \<Rightarrow> u32"
  assumes o: "ordered f (below i) h" and k: "skip_ok f i h" and i: "i < length h"
    and c: "c \<in> below i" "c < length h"
    and smallest: "\<And>j. j \<in> below i \<Longrightarrow> j < length h \<Longrightarrow> f (h ! c) \<le> f (h ! j)"
    and less: "f (h ! c) < f (h ! i)"
  shows "ordered f (below c) (swap i c h) \<and> skip_ok f c (swap i c h)"
proof -
  have ci: "i < c" "par c = i" "0 < c" using c(1) par_less by (auto simp: below_def)
  let ?h = "swap i c h"
  have n: "?h ! j = (if j = i then h ! c else if j = c then h ! i else h ! j)" if "j < length h" for j
    using swap_nth [of i h c j] that i c by simp
  have pj: "par j < length h" if "j < length h" for j using that by (simp add: par_def)
  have "f (?h ! par j) \<le> f (?h ! j)" if j: "0 < j" "j < length h" "j \<notin> below c" for j
  proof -
    have jc: "par j \<noteq> c" using j(1,3) by (simp add: below_def)
    consider "j = c" | "j \<noteq> c" "par j = i" | "j = i" "par j \<noteq> i" | "j \<noteq> c" "par j \<noteq> i" "j \<noteq> i" by blast
    then show ?thesis
    proof cases
      case 1
      then show ?thesis using less n i c ci by (simp add: less_imp_le)
    next
      case 2
      then have "f (h ! c) \<le> f (h ! j)" using smallest j by (simp add: below_def)
      moreover have "j \<noteq> i" using par_less [OF j(1)] 2 by simp
      ultimately show ?thesis using 2 n [of j] n [of i] i j by simp
    next
      case 3
      have "f (h ! par i) \<le> f (h ! c)" using skip_okD [OF k _ ci(3) c(2) ci(2)] 3 j by simp
      then show ?thesis using 3 n [of i] n [of "par i"] pj [OF i] i jc by simp
    next
      case 4
      then have "f (h ! par j) \<le> f (h ! j)" using orderedD [OF o j(1,2)] by (simp add: below_def)
      then show ?thesis using 4 jc n [of j] n [of "par j"] pj [OF j(2)] j by simp
    qed
  qed
  then have "ordered f (below c) ?h" by (simp add: ordered_def)
  moreover have "skip_ok f c ?h"
    unfolding skip_ok_def
  proof (intro impI allI, elim conjE)
    fix j assume j: "0 < j" "j < length ?h" "par j = c"
    have "j \<notin> below i" using j(3) ci(1) by (simp add: below_def)
    then have "f (h ! c) \<le> f (h ! j)" using orderedD [OF o j(1)] j by simp
    moreover have "j \<noteq> i" "j \<noteq> c" using par_less [OF j(1)] j(3) ci(1) by auto
    ultimately show "f (?h ! par c) \<le> f (?h ! j)" using n [of i] n [of j] i j ci by simp
  qed
  ultimately show ?thesis by simp
qed

lemma SwapDown_ok:
  assumes "linked {i} s" "i < length (heap s)" "ordered (freq_of s) (below i) (heap s)"
    "skip_ok (freq_of s) i (heap s)" "length (heap s) \<le> n + i"
  shows "\<exists>i' s'. SwapDown n i s = Inr (i', s') \<and> linked {i'} s' \<and> i' < length (heap s') \<and>
    ordered (freq_of s') {} (heap s') \<and> same_entries s' s \<and> heap s' ! i' = heap s ! i"
  using assms
proof (induction n arbitrary: i s)
  case (Suc n)
  let ?f = "freq_of s" and ?h = "heap s"
  have small: "length ?h < 2 ^ 31" using Suc.prems(1) by (simp add: linked_def)
  then have ch: "ChildIdx i = 2 * i + 1" "(2 * i + 1 + 1) mod 2 ^ 32 = 2 * i + 2"
    using Suc.prems(2) ChildIdx_eq [of i] by simp_all
  show ?case
  proof (cases "2 * i + 1 < length ?h")
    case False
    then have "ordered ?f {} ?h" using Suc.prems(3) by (auto simp: ordered_def below_iff)
    moreover have "SwapDown (Suc n) i s = Inr (i, s)" using False ch by simp
    ultimately show ?thesis using Suc.prems same_entries_simps(1) by auto
  next
    case True
    define c where "c = (if 2 * i + 2 < length ?h \<and> ?f (?h ! (2 * i + 2)) < ?f (?h ! (2 * i + 1))
      then 2 * i + 2 else 2 * i + 1)"
    have c: "c \<in> below i" "c < length ?h" "i < c" using True by (auto simp: c_def below_iff)
    have smallest: "?f (?h ! c) \<le> ?f (?h ! j)" if "j \<in> below i" "j < length ?h" for j
      using that by (auto simp: c_def below_iff)
    obtain x where x: "item_at s c = Inr x" "chunkFreq x = ?f (?h ! c)"
      by (rule item_at_linked [OF Suc.prems(1) c(2)])
    obtain y where y: "item_at s i = Inr y" "chunkFreq y = ?f (?h ! i)"
      by (rule item_at_linked [OF Suc.prems(1,2)])
    obtain l where l: "item_at s (2 * i + 1) = Inr l" "chunkFreq l = ?f (?h ! (2 * i + 1))"
      by (rule item_at_linked [OF Suc.prems(1) True])
    have pick: "(if (2 * i + 1 + 1) mod 2 ^ 32 < length ?h
        then res_bind (item_at s ((2 * i + 1 + 1) mod 2 ^ 32)) (\<lambda>r. res_bind (item_at s (2 * i + 1)) (\<lambda>l.
          Inr (if CompFreq (chunkFreq r) (chunkFreq l) then (2 * i + 1 + 1) mod 2 ^ 32 else 2 * i + 1)))
        else Inr (2 * i + 1)) = Inr c"
    proof (cases "2 * i + 2 < length ?h")
      case True
      obtain r where "item_at s (2 * i + 2) = Inr r" "chunkFreq r = ?f (?h ! (2 * i + 2))"
        by (rule item_at_linked [OF Suc.prems(1) True])
      then show ?thesis using True l unfolding ch(2) by (simp add: c_def CompFreq_def)
    next
      case False
      then show ?thesis unfolding ch(2) by (simp add: c_def)
    qed
    show ?thesis
    proof (cases "?f (?h ! c) < ?f (?h ! i)")
      case False
      have "ordered ?f {} ?h"
        unfolding ordered_def
      proof (intro allI impI, elim conjE)
        fix j assume j: "0 < j" "j < length ?h"
        show "?f (?h ! par j) \<le> ?f (?h ! j)"
        proof (cases "j \<in> below i")
          case True
          then show ?thesis using smallest [OF True j(2)] False by (simp add: below_def)
        next
          case nb: False
          then show ?thesis by (rule orderedD [OF Suc.prems(3) j])
        qed
      qed
      moreover have "SwapDown (Suc n) i s = Inr (i, s)"
        using True pick x y False unfolding SwapDown.simps Let_def ch(1) by (simp add: CompFreq_def)
      ultimately show ?thesis using Suc.prems same_entries_simps(1) by auto
    next
      case less: True
      obtain s1 where s1: "set_idx i i (s\<lparr>heap := swap i c ?h\<rparr>) = Inr s1"
        "heap s1 = swap i c ?h" "linked {c} s1" "same_entries s1 s"
        by (rule swap_step [OF Suc.prems(1,2) c(2)]) (use c(3) in auto)
      have o: "ordered (freq_of s1) (below c) (heap s1)" "skip_ok (freq_of s1) c (heap s1)"
        using down_order [OF Suc.prems(3,4,2) c(1,2) smallest less] s1(2,4) by (simp_all add: same_entries_def)
      have "c < length (heap s1)" "length (heap s1) \<le> n + c" using c Suc.prems(5) s1(2) by simp_all
      from Suc.IH [OF s1(3) this(1) o this(2)] obtain i' s' where r:
        "SwapDown n c s1 = Inr (i', s')" "linked {i'} s'" "i' < length (heap s')"
        "ordered (freq_of s') {} (heap s')" "same_entries s' s1" "heap s' ! i' = heap s1 ! c" by blast
      have "swap c i ?h = swap i c ?h" using c(2) Suc.prems(2) by (rule swap_commute)
      then have "SwapDown (Suc n) i s = Inr (i', s')"
        using True pick x y less s1(1) r(1) unfolding SwapDown.simps Let_def ch(1) by (simp add: CompFreq_def)
      moreover have "heap s1 ! c = ?h ! i"
        using s1(2) swap_nth [of i ?h c c] c Suc.prems(2) by simp
      moreover have "same_entries s' s" by (rule same_entries_simps(2) [OF r(5) s1(4)])
      ultimately show ?thesis using r(2-4,6) by auto
    qed
  qed
qed simp


section \<open>Operations\<close>

lemma linked_mono: "linked X s \<Longrightarrow> X \<subseteq> Y \<Longrightarrow> linked Y s"
  by (auto simp: linked_def)

lemma settle:
  assumes s: "linked {i} s" "i < length (heap s)" and it: "index s (heap s ! i) = Some it"
  defines "s' \<equiv> s\<lparr>index := (index s)(heap s ! i \<mapsto> it\<lparr>idx := i\<rparr>)\<rparr>"
  shows "set_idx i i s = Inr s'" "linked {} s'" "same_entries s' s" "heap s' = heap s"
proof -
  show "set_idx i i s = Inr s'" using s(2) it by (simp add: set_idx_def item_at_def s'_def)
  show "heap s' = heap s" by (simp add: s'_def)
  have "idx (the (index s' (heap s ! k))) = k" if k: "k < length (heap s)" for k
    using s k by (cases "k = i") (auto simp: s'_def linked_def nth_eq_iff_index_eq)
  moreover have "heap s ! i \<in> dom (index s)" using it by blast
  ultimately show "linked {} s'" using s by (auto simp: linked_def s'_def)
  show "same_entries s' s"
    using it by (auto simp: s'_def same_entries_def entries_def freq_of_def fun_eq_iff)
qed

lemma heap_ok_settled:
  assumes s: "linked {i} s" "i < length (heap s)" "ordered (freq_of s) {} (heap s)" "same_entries s t"
  obtains it where "index s (heap s ! i) = Some it"
    "set_idx i i s = Inr (s\<lparr>index := (index s)(heap s ! i \<mapsto> it\<lparr>idx := i\<rparr>)\<rparr>)"
    "heap_ok (s\<lparr>index := (index s)(heap s ! i \<mapsto> it\<lparr>idx := i\<rparr>)\<rparr>)"
    "same_entries (s\<lparr>index := (index s)(heap s ! i \<mapsto> it\<lparr>idx := i\<rparr>)\<rparr>) t"
proof -
  obtain it where it: "index s (heap s ! i) = Some it" by (rule item_at_linked [OF s(1,2)])
  note se = settle [OF s(1,2) it]
  have "heap_ok (s\<lparr>index := (index s)(heap s ! i \<mapsto> it\<lparr>idx := i\<rparr>)\<rparr>)"
    using se(2,3) s(3) by (simp add: heap_ok_def same_entries_def)
  with that it se(1) same_entries_simps(2) [OF se(3) s(4)] show thesis by blast
qed

lemma top_min:
  assumes "ordered f {} h" "i < length h"
  shows "f (h ! 0) \<le> f (h ! i)"
  using assms(2)
proof (induction i rule: less_induct)
  case (less i)
  show ?case
  proof (cases "i = 0")
    case False
    then have i: "0 < i" by simp
    have "f (h ! 0) \<le> f (h ! par i)" using less.IH [OF par_less [OF i]] less.prems par_less [OF i] by simp
    also have "\<dots> \<le> f (h ! i)" using orderedD [OF assms(1) i less.prems] by simp
    finally show ?thesis .
  qed simp
qed

lemma TopEntry_ok:
  assumes "heap_ok s" "heap s \<noteq> []"
  shows "\<exists>a m. TopEntry s = Inr m \<and> entries s (heap s ! 0) = Some (a, m) \<and>
    (\<forall>k a' n. entries s k = Some (a', n) \<longrightarrow> m \<le> n)"
proof -
  have l: "linked {} s" and o: "ordered (freq_of s) {} (heap s)" using assms(1) by (auto simp: heap_ok_def)
  obtain it where it: "item_at s 0 = Inr it" "index s (heap s ! 0) = Some it" "chunkFreq it = freq_of s (heap s ! 0)"
    by (rule item_at_linked [OF l, of 0]) (use assms(2) in auto)
  have "chunkFreq it \<le> n" if "entries s k = Some (a', n)" for k a' n
  proof -
    have "k \<in> set (heap s)" using that l by (auto simp: entries_def linked_def)
    then obtain i where i: "i < length (heap s)" "heap s ! i = k" by (auto simp: in_set_conv_nth)
    have "freq_of s (heap s ! 0) \<le> freq_of s k" using top_min [OF o i(1)] i(2) by simp
    moreover have "freq_of s k = n" using that by (auto simp: entries_def freq_of_def)
    ultimately show ?thesis using it(3) by simp
  qed
  then show ?thesis
    by (intro exI [of _ "address it"] exI [of _ "chunkFreq it"]) (auto simp: TopEntry_def entries_def it)
qed

lemma Add_ok:
  assumes s: "heap_ok s" and k: "\<not> Contains_heap key s" and room: "Suc (Size s) < 2 ^ 31"
  obtains s' where "Add key v s = Inr s'" "heap_ok s'"
    "entries s' = (entries s)(key \<mapsto> (address v, chunkFreq v))" "Size s' = Suc (Size s)"
proof -
  let ?n = "length (heap s)"
  let ?s = "s\<lparr>index := (index s)(key \<mapsto> v), heap := heap s @ [key]\<rparr>"
  have l: "linked {} s" and o: "ordered (freq_of s) {} (heap s)" using s by (auto simp: heap_ok_def)
  have key: "index s key = None" "key \<notin> set (heap s)" using k l by (auto simp: Contains_heap_def linked_def)
  have nth: "(heap s @ [key]) ! i = heap s ! i" "heap s ! i \<noteq> key" if "i < ?n" for i
    using that key by (auto simp: nth_append)
  have l1: "linked {?n} ?s"
    using l key room nth by (auto simp: linked_def Size_def less_Suc_eq)
  have "ordered (freq_of ?s) {?n} (heap ?s)"
    unfolding ordered_def
  proof (intro allI impI, elim conjE)
    fix i assume i: "0 < i" "i < length (heap ?s)" "i \<notin> {?n}"
    then have "i < ?n" "par i < ?n" using par_less [of i] by auto
    then show "freq_of ?s (heap ?s ! par i) \<le> freq_of ?s (heap ?s ! i)"
      using orderedD [OF o i(1)] nth [of i] nth [of "par i"] by (simp add: freq_of_def)
  qed
  moreover have "skip_ok (freq_of ?s) ?n (heap ?s)" by (auto simp: skip_ok_def par_def)
  moreover have "?n < length (heap ?s)" "?n < rounds ?s" by (simp_all add: rounds_def)
  ultimately obtain i' s1 where s1: "SwapUp (rounds ?s) ?n ?s = Inr (i', s1)" "linked {i'} s1"
    "i' < length (heap s1)" "ordered (freq_of s1) {} (heap s1)" "same_entries s1 ?s" "heap s1 ! i' = heap ?s ! ?n"
    using SwapUp_ok [OF l1, of "rounds ?s"] by blast
  have top: "heap s1 ! i' = key" using s1(6) by simp
  obtain it where it: "index s1 key = Some it"
    "heap_ok (s1\<lparr>index := (index s1)(key \<mapsto> it\<lparr>idx := i'\<rparr>)\<rparr>)"
    "same_entries (s1\<lparr>index := (index s1)(key \<mapsto> it\<lparr>idx := i'\<rparr>)\<rparr>) ?s"
    by (rule heap_ok_settled [OF s1(2-5), unfolded top])
  let ?r = "s1\<lparr>index := (index s1)(key \<mapsto> it\<lparr>idx := i'\<rparr>)\<rparr>"
  have "Add key v s = Inr ?r" using key(1) s1(1) it(1) by (simp add: Add_def)
  moreover have "entries ?r = (entries s)(key \<mapsto> (address v, chunkFreq v))"
    using it(3) by (simp add: same_entries_def) (auto simp: entries_def fun_eq_iff)
  moreover have "Size ?r = Suc (Size s)" using it(3) by (simp add: same_entries_def Size_def)
  ultimately show thesis using that it(2) by blast
qed

lemma Pop_one: "length (heap s) = 1 \<Longrightarrow> Pop s = Inl OutOfBounds"
  by (auto simp: Pop_def Let_def rounds_def set_idx_def item_at_def length_Suc_conv)

lemma Pop_ok:
  assumes s: "heap_ok s" and two: "2 \<le> Size s"
  obtains s' where "Pop s = Inr s'" "heap_ok s'" "entries s' = (entries s)(heap s ! 0 := None)"
    "Suc (Size s') = Size s"
proof -
  let ?n = "length (heap s)" and ?t = "heap s ! 0"
  let ?h = "butlast ((heap s)[0 := last (heap s)])"
  let ?s = "s\<lparr>heap := ?h, index := (index s)(?t := None)\<rparr>"
  have l: "linked {} s" and o: "ordered (freq_of s) {} (heap s)" using s by (auto simp: heap_ok_def)
  have n: "2 \<le> ?n" using two by (simp add: Size_def)
  then have ne: "heap s \<noteq> []" by auto
  have len: "length ?h = ?n - 1" by simp
  have nth: "?h ! i = (if i = 0 then heap s ! (?n - 1) else heap s ! i)" if "i < ?n - 1" for i
    using that n ne by (simp add: nth_butlast nth_list_update last_conv_nth)
  have dist: "distinct (heap s)" using l by (simp add: linked_def)
  have inj: "heap s ! i = heap s ! j \<longleftrightarrow> i = j" if "i < ?n" "j < ?n" for i j
    using dist that by (simp add: nth_eq_iff_index_eq)
  have hd: "distinct ?h"
    unfolding distinct_conv_nth len
  proof (intro allI impI)
    fix i j assume ij: "i < ?n - 1" "j < ?n - 1" "i \<noteq> j"
    define g where "g k = (if k = 0 then ?n - 1 else k)" for k
    have g: "?h ! k = heap s ! g k" "g k < ?n" if "k < ?n - 1" for k
      using nth [OF that] that by (auto simp: g_def)
    have "g i \<noteq> g j" using ij by (auto simp: g_def)
    then show "?h ! i \<noteq> ?h ! j"
      using g [OF ij(1)] g [OF ij(2)] inj [of "g i" "g j"] by simp
  qed
  have hs: "set ?h = set (heap s) - {?t}"
  proof (intro equalityI subsetI)
    fix x assume "x \<in> set ?h"
    then obtain i where i: "i < ?n - 1" "x = ?h ! i" by (auto simp: in_set_conv_nth)
    define j where "j = (if i = 0 then ?n - 1 else i)"
    have "x = heap s ! j" "j < ?n" "j \<noteq> 0" using i nth [OF i(1)] n by (auto simp: j_def)
    then show "x \<in> set (heap s) - {?t}" using inj [of j 0] ne by auto
  next
    fix x assume "x \<in> set (heap s) - {?t}"
    then obtain j where j: "j < ?n" "x = heap s ! j" "j \<noteq> 0" by (auto simp: in_set_conv_nth)
    define i where "i = (if j = ?n - 1 then 0 else j)"
    have "i < ?n - 1" "?h ! i = x" using j nth [of i] n by (auto simp: i_def)
    then show "x \<in> set ?h" using len nth_mem by metis
  qed
  have "set (heap s) = dom (index s)" using l by (simp add: linked_def)
  moreover have "idx (the (index ?s (?h ! i))) = i" if i: "i < ?n - 1" "i \<noteq> 0" for i
  proof -
    have "heap s ! i \<noteq> ?t" using inj [of i 0] i ne by simp
    then show ?thesis using l i nth [OF i(1)] by (simp add: linked_def)
  qed
  ultimately have l1: "linked {0} ?s"
    using l hd hs unfolding linked_def by auto
  have fr: "freq_of ?s (heap s ! i) = freq_of s (heap s ! i)" if "0 < i" "i < ?n" for i
    using inj [of i 0] that ne by (simp add: freq_of_def)
  have "ordered (freq_of ?s) (below 0) (heap ?s)"
    unfolding ordered_def
  proof (intro allI impI, elim conjE)
    fix i assume i: "0 < i" "i < length (heap ?s)" "i \<notin> below 0"
    then have b: "i < ?n - 1" "0 < par i" "par i < ?n - 1" using par_less [of i] by (auto simp: below_def)
    then show "freq_of ?s (heap ?s ! par i) \<le> freq_of ?s (heap ?s ! i)"
      using orderedD [OF o i(1)] nth [of i] nth [of "par i"] fr [of i] fr [of "par i"] i(1) by simp
  qed
  moreover have "skip_ok (freq_of ?s) 0 (heap ?s)" by (simp add: skip_ok_def)
  moreover have "0 < length (heap ?s)" "length (heap ?s) \<le> rounds ?s + 0" using n by (simp_all add: rounds_def)
  ultimately obtain i' s1 where s1: "SwapDown (rounds ?s) 0 ?s = Inr (i', s1)" "linked {i'} s1"
    "i' < length (heap s1)" "ordered (freq_of s1) {} (heap s1)" "same_entries s1 ?s"
    using SwapDown_ok [OF l1, of "rounds ?s"] by blast
  obtain it where it: "set_idx i' i' s1 = Inr (s1\<lparr>index := (index s1)(heap s1 ! i' \<mapsto> it\<lparr>idx := i'\<rparr>)\<rparr>)"
    "heap_ok (s1\<lparr>index := (index s1)(heap s1 ! i' \<mapsto> it\<lparr>idx := i'\<rparr>)\<rparr>)"
    "same_entries (s1\<lparr>index := (index s1)(heap s1 ! i' \<mapsto> it\<lparr>idx := i'\<rparr>)\<rparr>) ?s"
    by (rule heap_ok_settled [OF s1(2-5)])
  let ?r = "s1\<lparr>index := (index s1)(heap s1 ! i' \<mapsto> it\<lparr>idx := i'\<rparr>)\<rparr>"
  have "Pop s = Inr ?r" using ne s1(1) it(1) by (simp add: Pop_def Let_def)
  moreover have "entries ?r = (entries s)(?t := None)"
    using it(3) by (simp add: same_entries_def) (auto simp: entries_def fun_eq_iff)
  moreover have "Suc (Size ?r) = Size s" using it(3) n by (simp add: same_entries_def Size_def)
  ultimately show thesis using that it(2) by blast
qed

lemma SwapUp_stay:
  assumes "linked X s" "i < length (heap s)" "0 < i \<Longrightarrow> freq_of s (heap s ! par i) \<le> freq_of s (heap s ! i)"
  shows "SwapUp (Suc n) i s = Inr (i, s)"
proof (cases "0 < i")
  case True
  have "i < 2 ^ 32" using assms(1,2) by (simp add: linked_def)
  then have p: "ParentIdx i = par i" "par i < length (heap s)"
    using ParentIdx_par True assms(2) by (auto simp: par_def)
  obtain x where x: "item_at s i = Inr x" "chunkFreq x = freq_of s (heap s ! i)"
    by (rule item_at_linked [OF assms(1,2)])
  obtain y where y: "item_at s (par i) = Inr y" "chunkFreq y = freq_of s (heap s ! par i)"
    by (rule item_at_linked [OF assms(1) p(2)])
  have "\<not> chunkFreq x < chunkFreq y" using assms(3) True x y by (simp add: not_less)
  then show ?thesis using True x(1) y(1) p(1) by (simp add: CompFreq_def Let_def)
qed simp

lemma ordered_skip:
  assumes "ordered f {} h" "i < length h"
  shows "skip_ok f i h"
  unfolding skip_ok_def
proof (intro impI allI, elim conjE)
  fix j assume "0 < i" "0 < j" "j < length h" "par j = i"
  then show "f (h ! par i) \<le> f (h ! j)"
    using orderedD [OF assms(1), of i] orderedD [OF assms(1), of j] assms(2) by (auto intro: order_trans)
qed

lemma ordered_mono: "ordered f E h \<Longrightarrow> E \<subseteq> E' \<Longrightarrow> ordered f E' h"
  by (auto simp: ordered_def)

lemma Update_freq_ok:
  assumes s: "heap_ok s" and it: "index s key = Some it"
  obtains s' where "Update_freq key freq s = Inr s'" "heap_ok s'"
    "entries s' = (entries s)(key \<mapsto> (address it, freq))" "Size s' = Size s"
proof -
  let ?h = "heap s" let ?i = "idx it"
  let ?s = "s\<lparr>index := (index s)(key \<mapsto> it\<lparr>chunkFreq := freq\<rparr>)\<rparr>"
  have l: "linked {} s" and o: "ordered (freq_of s) {} ?h" using s by (auto simp: heap_ok_def)
  have "key \<in> set ?h" using it l by (auto simp: linked_def)
  then obtain i where i: "i < length ?h" "?h ! i = key" by (auto simp: in_set_conv_nth)
  then have idx: "?i = i" using l it by (auto simp: linked_def)
  have kd: "insert key (dom (index s)) = dom (index s)" using it by auto
  have l0: "linked {} ?s" using l it kd by (auto simp: linked_def)
  have l1: "linked {i} ?s" by (rule linked_mono [OF l0]) simp
  have fr: "freq_of ?s k = (if k = key then freq else freq_of s k)" for k by (simp add: freq_of_def)
  have nk: "?h ! j = key \<longleftrightarrow> j = i" if "j < length ?h" for j
    using that i l nth_eq_iff_index_eq [of ?h j i] by (auto simp: linked_def)
  have pl: "par j < length ?h" if "j < length ?h" for j using that by (simp add: par_def)
  have "\<exists>i1 s1. SwapUp (rounds ?s) i ?s = Inr (i1, s1) \<and> linked {i1} s1 \<and> i1 < length (heap s1) \<and>
    ordered (freq_of s1) (below i1) (heap s1) \<and> skip_ok (freq_of s1) i1 (heap s1) \<and> same_entries s1 ?s \<and> heap s1 ! i1 = key"
  proof (cases "freq \<le> freq_of s key")
    case True
    have "ordered (freq_of ?s) {i} ?h"
      unfolding ordered_def
    proof (intro allI impI, elim conjE)
      fix j assume j: "0 < j" "j < length ?h" "j \<notin> {i}"
      have "freq_of s (?h ! par j) \<le> freq_of s (?h ! j)" using orderedD [OF o j(1,2)] by simp
      then show "freq_of ?s (?h ! par j) \<le> freq_of ?s (?h ! j)"
        using nk [of j] nk [of "par j"] pl [OF j(2)] j True by (auto simp: fr)
    qed
    moreover have "skip_ok (freq_of ?s) i ?h"
      unfolding skip_ok_def
    proof (intro impI allI, elim conjE)
      fix j assume j: "0 < i" "0 < j" "j < length ?h" "par j = i"
      then have "j \<noteq> i" "par i \<noteq> i" using par_less [of j] par_less [of i] by auto
      then show "freq_of ?s (?h ! par i) \<le> freq_of ?s (?h ! j)"
        using skip_okD [OF ordered_skip [OF o i(1)] j] nk [of j] nk [of "par i"] pl [OF i(1)] j by (simp add: fr)
    qed
    moreover have "i < rounds ?s" using i by (simp add: rounds_def)
    ultimately obtain i1 s1 where r: "SwapUp (rounds ?s) i ?s = Inr (i1, s1)" "linked {i1} s1"
      "i1 < length (heap s1)" "ordered (freq_of s1) {} (heap s1)" "same_entries s1 ?s" "heap s1 ! i1 = ?h ! i"
      using SwapUp_ok [OF l1, of "rounds ?s"] i(1) by auto
    then show ?thesis using ordered_skip [OF r(4,3)] ordered_mono [OF r(4)] i(2) by auto
  next
    case False
    then have up: "freq_of s key \<le> freq" by simp
    have "SwapUp (rounds ?s) i ?s = Inr (i, ?s)"
      unfolding rounds_def
    proof (rule SwapUp_stay [OF l1])
      assume "0 < i"
      then have "freq_of s (?h ! par i) \<le> freq_of s key" using orderedD [OF o, of i] i by simp
      then have "freq_of s (?h ! par i) \<le> freq" using up by (rule order_trans)
      then show "freq_of ?s (heap ?s ! par i) \<le> freq_of ?s (heap ?s ! i)" using i(2) by (simp add: fr)
    qed (use i in simp)
    moreover have "ordered (freq_of ?s) (below i) ?h"
      unfolding ordered_def
    proof (intro allI impI, elim conjE)
      fix j assume j: "0 < j" "j < length ?h" "j \<notin> below i"
      then have "par j \<noteq> i" by (simp add: below_def)
      moreover have "freq_of s (?h ! par j) \<le> freq_of s (?h ! j)" using orderedD [OF o j(1,2)] by simp
      ultimately show "freq_of ?s (?h ! par j) \<le> freq_of ?s (?h ! j)"
        using nk [of j] nk [of "par j"] pl [OF j(2)] j up by (auto simp: fr)
    qed
    moreover have "skip_ok (freq_of ?s) i ?h"
      unfolding skip_ok_def
    proof (intro impI allI, elim conjE)
      fix j assume j: "0 < i" "0 < j" "j < length ?h" "par j = i"
      then have "j \<noteq> i" "par i \<noteq> i" using par_less [of j] par_less [of i] by auto
      then show "freq_of ?s (?h ! par i) \<le> freq_of ?s (?h ! j)"
        using skip_okD [OF ordered_skip [OF o i(1)] j] nk [of j] nk [of "par i"] pl [OF i(1)] j by (simp add: fr)
    qed
    ultimately show ?thesis using l1 i same_entries_simps(1) by auto
  qed
  then obtain i1 s1 where s1: "SwapUp (rounds ?s) i ?s = Inr (i1, s1)" "linked {i1} s1" "i1 < length (heap s1)"
    "ordered (freq_of s1) (below i1) (heap s1)" "skip_ok (freq_of s1) i1 (heap s1)" "same_entries s1 ?s"
    "heap s1 ! i1 = key" by blast
  obtain i2 s2 where s2: "SwapDown (rounds s1) i1 s1 = Inr (i2, s2)" "linked {i2} s2" "i2 < length (heap s2)"
    "ordered (freq_of s2) {} (heap s2)" "same_entries s2 s1" "heap s2 ! i2 = heap s1 ! i1"
    using SwapDown_ok [OF s1(2-5), of "rounds s1"] by (auto simp: rounds_def)
  have top: "heap s2 ! i2 = key" using s2(6) s1(7) by simp
  obtain it2 where it2: "index s2 key = Some it2"
    "heap_ok (s2\<lparr>index := (index s2)(key \<mapsto> it2\<lparr>idx := i2\<rparr>)\<rparr>)"
    "same_entries (s2\<lparr>index := (index s2)(key \<mapsto> it2\<lparr>idx := i2\<rparr>)\<rparr>) ?s"
    by (rule heap_ok_settled [OF s2(2-4) same_entries_simps(2) [OF s2(5) s1(6)], unfolded top])
  let ?r = "s2\<lparr>index := (index s2)(key \<mapsto> it2\<lparr>idx := i2\<rparr>)\<rparr>"
  have "Update_freq key freq s = Inr ?r"
    using it i idx s1(1) s2(1) it2(1) by (simp add: Update_freq_def item_at_def Let_def)
  moreover have "entries ?r = (entries s)(key \<mapsto> (address it, freq))"
    using it2(3) by (simp add: same_entries_def) (auto simp: entries_def fun_eq_iff)
  moreover have "Size ?r = Size s" using it2(3) by (simp add: same_entries_def Size_def)
  ultimately show thesis using that it2(2) by blast
qed


section \<open>The top-k index\<close>

text \<open>
  The chunks of a run of updates; \<open>last_freq\<close> is the frequency with which a chunk was presented
  last.  The frequencies of a chunk do not decrease, because they are counts.
\<close>

type_synonym update = "u32 \<times> RecipeEntry_t \<times> byte list"

fun topk_run :: "nat \<Rightarrow> update list \<Rightarrow> EcallEntryHeap \<Rightarrow> EcallEntryHeap res" where
  "topk_run k [] s = Inr s"
| "topk_run k ((freq, addr, fp) # us) s = res_bind (UpdateTopK k freq addr fp s) (topk_run k us)"

fun last_freq :: "(byte list \<Rightarrow> u32 option) \<Rightarrow> update list \<Rightarrow> byte list \<Rightarrow> u32 option" where
  "last_freq L [] = L"
| "last_freq L ((freq, addr, fp) # us) = last_freq (L(fp \<mapsto> freq)) us"

fun counts_grow :: "(byte list \<Rightarrow> u32 option) \<Rightarrow> update list \<Rightarrow> bool" where
  "counts_grow L [] = True"
| "counts_grow L ((freq, addr, fp) # us) \<longleftrightarrow>
     (\<forall>g. L fp = Some g \<longrightarrow> g \<le> freq) \<and> counts_grow (L(fp \<mapsto> freq)) us"

text \<open>
  The index holds every chunk with its last frequency, except that a full index may lack chunks
  that are not more frequent than any chunk it holds.
\<close>

definition topk_ok :: "nat \<Rightarrow> (byte list \<Rightarrow> u32 option) \<Rightarrow> EcallEntryHeap \<Rightarrow> bool" where
  "topk_ok k L s \<longleftrightarrow> heap_ok s \<and> Size s \<le> k \<and>
     (\<forall>fp a n. entries s fp = Some (a, n) \<longrightarrow> L fp = Some n) \<and>
     (\<forall>fp n. L fp = Some n \<and> entries s fp = None \<longrightarrow>
        Size s = k \<and> (\<forall>fp' a m. entries s fp' = Some (a, m) \<longrightarrow> n \<le> m))"

lemma topk_okI:
  assumes "heap_ok s" "Size s \<le> k" "\<And>x a n. entries s x = Some (a, n) \<Longrightarrow> L x = Some n"
    "\<And>x n. L x = Some n \<Longrightarrow> entries s x = None \<Longrightarrow> Size s = k"
    "\<And>x n y a m. L x = Some n \<Longrightarrow> entries s x = None \<Longrightarrow> entries s y = Some (a, m) \<Longrightarrow> n \<le> m"
  shows "topk_ok k L s"
  using assms unfolding topk_ok_def by blast

lemma entries_None: "entries s fp = None \<longleftrightarrow> \<not> Contains_heap fp s"
  by (simp add: entries_def Contains_heap_def)

lemma heap_nonempty: "Size s = k \<Longrightarrow> 0 < k \<Longrightarrow> heap s \<noteq> []"
  by (auto simp: Size_def)

lemma UpdateTopK_full:
  assumes s: "topk_ok k L s" and k: "2 \<le> k" "k < 2 ^ 31" and full: "Size s = k"
    and new: "entries s fp = None" and g: "\<forall>g. L fp = Some g \<longrightarrow> g \<le> freq"
  shows "\<exists>s'. UpdateTopK k freq addr fp s = Inr s' \<and> topk_ok k (L(fp \<mapsto> freq)) s'"
proof -
  have h: "heap_ok s" and have_L: "\<And>fp a n. entries s fp = Some (a, n) \<Longrightarrow> L fp = Some n"
    and out_L: "\<And>fp n fp' a m. L fp = Some n \<Longrightarrow> entries s fp = None \<Longrightarrow> entries s fp' = Some (a, m) \<Longrightarrow> n \<le> m"
    using s unfolding topk_ok_def by blast+
  have ne: "heap s \<noteq> []" using full k(1) by (intro heap_nonempty) auto
  from TopEntry_ok [OF h ne] obtain a0 m0 where top: "TopEntry s = Inr m0" "entries s (heap s ! 0) = Some (a0, m0)"
    and top_le: "\<forall>x a n. entries s x = Some (a, n) \<longrightarrow> m0 \<le> n" by blast
  have nc: "\<not> Contains_heap fp s" using new by (simp add: entries_None)
  show ?thesis
  proof (cases "m0 \<le> freq")
    case False
    have "UpdateTopK k freq addr fp s = Inr s"
      using False full top(1) by (simp add: UpdateTopK_def CheckIfAddToHeap_def)
    moreover have "freq \<le> m" if "entries s x = Some (a, m)" for x a m
      using top_le that False by fastforce
    then have "topk_ok k (L(fp \<mapsto> freq)) s"
      using h full have_L out_L new unfolding topk_ok_def by (auto split: if_splits)
    ultimately show ?thesis by blast
  next
    case True
    obtain s1 where s1: "Pop s = Inr s1" "heap_ok s1" "entries s1 = (entries s)(heap s ! 0 := None)"
      "Suc (Size s1) = Size s"
      by (rule Pop_ok [OF h]) (use full k in auto)
    have "entries s1 fp = None" using s1(3) new by simp
    then have n1: "\<not> Contains_heap fp s1" by (simp add: entries_None)
    obtain s2 where s2: "Add fp \<lparr>address = addr, chunkFreq = freq, idx = 0\<rparr> s1 = Inr s2" "heap_ok s2"
      "entries s2 = (entries s1)(fp \<mapsto> (addr, freq))" "Size s2 = Suc (Size s1)"
      using Add_ok [OF s1(2) n1, of "\<lparr>address = addr, chunkFreq = freq, idx = 0\<rparr>"] s1(4) full k by auto
    have "UpdateTopK k freq addr fp s = Inr s2"
      using True full top(1) nc s1(1) s2(1) by (simp add: UpdateTopK_def CheckIfAddToHeap_def AddChunkToHeap_def)
    moreover have "topk_ok k (L(fp \<mapsto> freq)) s2"
    proof -
      have e: "entries s2 x = (if x = fp then Some (addr, freq) else if x = heap s ! 0 then None else entries s x)" for x
        by (simp add: s2(3) s1(3))
      have ge: "m0 \<le> m" if "entries s2 x = Some (a, m)" for x a m
        using that True top_le by (auto simp: e split: if_splits)
      have le: "n \<le> m0" if "(L(fp \<mapsto> freq)) x = Some n" "entries s2 x = None" for x n
      proof (cases "x = heap s ! 0")
        case True
        then show ?thesis using that top(2) have_L by (auto simp: e split: if_splits)
      next
        case False
        then show ?thesis using that out_L [OF _ _ top(2)] by (auto simp: e split: if_splits)
      qed
      have "n \<le> m" if "(L(fp \<mapsto> freq)) x = Some n" "entries s2 x = None" "entries s2 y = Some (a, m)" for x y n a m
        using le [OF that(1,2)] ge [OF that(3)] by (rule order_trans)
      moreover have "(L(fp \<mapsto> freq)) x = Some n" if "entries s2 x = Some (a, n)" for x a n
        using that have_L by (auto simp: e split: if_splits)
      moreover have "Size s2 = k" using s2(4) s1(4) full by simp
      ultimately show ?thesis by (intro topk_okI [OF s2(2)]) blast+
    qed
    ultimately show ?thesis by blast
  qed
qed

lemma UpdateTopK_room:
  assumes s: "topk_ok k L s" and k: "k < 2 ^ 31" and room: "Size s < k" and new: "entries s fp = None"
  shows "\<exists>s'. UpdateTopK k freq addr fp s = Inr s' \<and> topk_ok k (L(fp \<mapsto> freq)) s'"
proof -
  have h: "heap_ok s" and have_L: "\<And>fp a n. entries s fp = Some (a, n) \<Longrightarrow> L fp = Some n"
    and out_L: "\<And>x. L x \<noteq> None \<Longrightarrow> entries s x \<noteq> None"
    using s room unfolding topk_ok_def by auto
  have nc: "\<not> Contains_heap fp s" using new by (simp add: entries_None)
  obtain s2 where s2: "Add fp \<lparr>address = addr, chunkFreq = freq, idx = 0\<rparr> s = Inr s2" "heap_ok s2"
    "entries s2 = (entries s)(fp \<mapsto> (addr, freq))" "Size s2 = Suc (Size s)"
    using Add_ok [OF h nc, of "\<lparr>address = addr, chunkFreq = freq, idx = 0\<rparr>"] room k by auto
  have "UpdateTopK k freq addr fp s = Inr s2"
    using room nc s2(1) by (simp add: UpdateTopK_def CheckIfAddToHeap_def AddChunkToHeap_def)
  moreover have "topk_ok k (L(fp \<mapsto> freq)) s2"
  proof -
    have e: "entries s2 x = (if x = fp then Some (addr, freq) else entries s x)" for x by (simp add: s2(3))
    have "(L(fp \<mapsto> freq)) x = None" if "entries s2 x = None" for x
    proof -
      have "x \<noteq> fp" "entries s x = None" using that by (auto simp: e split: if_splits)
      then show ?thesis using out_L [of x] by (cases "L x") auto
    qed
    moreover have "(L(fp \<mapsto> freq)) x = Some n" if "entries s2 x = Some (a, n)" for x a n
      using that have_L by (auto simp: e split: if_splits)
    moreover have "Size s2 \<le> k" using s2(4) room by simp
    ultimately show ?thesis by (intro topk_okI [OF s2(2)]) (auto simp del: fun_upd_apply)
  qed
  ultimately show ?thesis by blast
qed

lemma UpdateTopK_known:
  assumes s: "topk_ok k L s" and k: "0 < k" and old: "entries s fp = Some (a, n)"
    and g: "\<forall>g. L fp = Some g \<longrightarrow> g \<le> freq"
  shows "\<exists>s'. UpdateTopK k freq addr fp s = Inr s' \<and> topk_ok k (L(fp \<mapsto> freq)) s'"
proof -
  have h: "heap_ok s" and have_L: "\<And>fp a n. entries s fp = Some (a, n) \<Longrightarrow> L fp = Some n"
    and out_L: "\<And>fp n fp' a m. L fp = Some n \<Longrightarrow> entries s fp = None \<Longrightarrow> entries s fp' = Some (a, m) \<Longrightarrow> n \<le> m"
    and out_k: "\<And>fp n. L fp = Some n \<Longrightarrow> entries s fp = None \<Longrightarrow> Size s = k" and sz: "Size s \<le> k"
    using s unfolding topk_ok_def by blast+
  have up: "n \<le> freq" using g have_L [OF old] by simp
  have ct: "Contains_heap fp s" using old by (auto simp: entries_def Contains_heap_def)
  have "\<exists>it. index s fp = Some it \<and> address it = a"
    using old by (cases "index s fp") (simp_all add: entries_def)
  then obtain it where it: "index s fp = Some it" "address it = a" by blast
  obtain s2 where s2: "Update_freq fp freq s = Inr s2" "heap_ok s2" "entries s2 = (entries s)(fp \<mapsto> (address it, freq))"
    "Size s2 = Size s"
    by (rule Update_freq_ok [OF h it(1)])
  have "CheckIfAddToHeap k freq s = Inr True"
  proof (cases "Size s < k")
    case False
    then have "heap s \<noteq> []" using sz k by (intro heap_nonempty [of s k]) auto
    from TopEntry_ok [OF h this] obtain m0 where top: "TopEntry s = Inr m0"
      and le: "\<forall>x a n. entries s x = Some (a, n) \<longrightarrow> m0 \<le> n" by blast
    have "m0 \<le> n" using le old by blast
    then have "m0 \<le> freq" using up by (rule order_trans)
    with False top show ?thesis by (simp add: CheckIfAddToHeap_def)
  qed (simp add: CheckIfAddToHeap_def)
  then have "UpdateTopK k freq addr fp s = Inr s2" using ct s2(1) by (simp add: UpdateTopK_def)
  moreover have "topk_ok k (L(fp \<mapsto> freq)) s2"
  proof -
    have e: "entries s2 x = (if x = fp then Some (a, freq) else entries s x)" for x
      using it(2) by (simp add: s2(3))
    have "n' \<le> m" if x: "(L(fp \<mapsto> freq)) x = Some n'" "entries s2 x = None" "entries s2 y = Some (b, m)" for x y n' b m
    proof -
      have x': "L x = Some n'" "entries s x = None" using x by (auto simp: e split: if_splits)
      show ?thesis
      proof (cases "y = fp")
        case True
        then have "m = freq" using x(3) by (simp add: e)
        then show ?thesis using out_L [OF x' old] up by simp
      next
        case False
        then show ?thesis using out_L [OF x'] x(3) by (simp add: e)
      qed
    qed
    moreover have "Size s = k" if "(L(fp \<mapsto> freq)) x = Some n'" "entries s2 x = None" for x n'
      using that out_k by (auto simp: e split: if_splits)
    moreover have "(L(fp \<mapsto> freq)) x = Some n'" if "entries s2 x = Some (b, n')" for x b n'
      using that have_L by (auto simp: e split: if_splits)
    moreover have "Size s2 = Size s" by (rule s2(4))
    ultimately show ?thesis using sz by (intro topk_okI [OF s2(2)]) (simp, blast+)
  qed
  ultimately show ?thesis by blast
qed

lemma topk_run_ok:
  assumes "topk_ok k L s" "2 \<le> k" "k < 2 ^ 31" "counts_grow L us"
  shows "\<exists>s'. topk_run k us s = Inr s' \<and> topk_ok k (last_freq L us) s'"
  using assms
proof (induction us arbitrary: s L)
  case (Cons u us)
  obtain freq addr fp where u: "u = (freq, addr, fp)" by (cases u) auto
  have g: "\<forall>g. L fp = Some g \<longrightarrow> g \<le> freq" "counts_grow (L(fp \<mapsto> freq)) us" using Cons.prems(4) u by auto
  have "\<exists>s'. UpdateTopK k freq addr fp s = Inr s' \<and> topk_ok k (L(fp \<mapsto> freq)) s'"
  proof (cases "entries s fp")
    case None
    show ?thesis
    proof (cases "Size s < k")
      case True
      then show ?thesis by (rule UpdateTopK_room [OF Cons.prems(1,3) _ None])
    next
      case False
      then have "Size s = k" using Cons.prems(1) by (simp add: topk_ok_def)
      then show ?thesis by (rule UpdateTopK_full [OF Cons.prems(1-3) _ None g(1)])
    qed
  next
    case (Some p)
    then obtain a n where "entries s fp = Some (a, n)" by (cases p) auto
    then show ?thesis using UpdateTopK_known [OF Cons.prems(1) _ _ g(1)] Cons.prems(2) by auto
  qed
  then obtain s1 where s1: "UpdateTopK k freq addr fp s = Inr s1" "topk_ok k (L(fp \<mapsto> freq)) s1" by blast
  from Cons.IH [OF s1(2) Cons.prems(2,3) g(2)] show ?case by (simp add: u s1(1) del: fun_upd_apply)
qed simp

lemma new_heap_ok: "topk_ok k (\<lambda>_. None) new_heap"
  by (simp add: topk_ok_def heap_ok_def new_heap_def linked_def ordered_def Size_def entries_def)

end
