(* ===== verification/Index_Props.thy ===== *)
theory Index_Props imports Sketch EntryHeap begin

text \<open>
  The properties of the frequency sketch and of the top-k index.
\<close>

text \<open>
  C12: The sketch never undercounts: after any updates whose counts sum up to less than
  \<open>2 ^ 32\<close>, the estimate of a chunk is at least the number of its occurrences and at most the
  total, and \<open>TotalCount\<close> is exact.
\<close>

theorem sketch_never_undercounts:
  assumes "0 < w" "0 < d" "\<forall>(x, n) \<in> set us. 4 * unat d \<le> length x" "4 * unat d \<le> length h"
    and "total_count us < 2 ^ 32"
  shows "\<exists>s e. Updates us (CMSketch_new w d) = Inr s \<and> Estimate s h = Inr e \<and>
    occurrences h us \<le> unat e \<and> unat e \<le> total_count us \<and> total_num s = total_count us"
proof -
  have "depth (CMSketch_new w d) = d" by (simp add: CMSketch_new_def)
  then obtain s where s: "Updates us (CMSketch_new w d) = Inr s" "sketch_ok s us" "depth s = d"
    "total_num s = total_count us"
    using Updates_ok [OF sketch_new_ok [OF assms(1), of d], of us] assms(3) by (auto simp: CMSketch_new_def)
  have h: "4 * unat (depth s) \<le> length h" using s(3) assms(4) by simp
  have m: "occurrences h us \<le> unat (- 1 :: u32)"
    using hits_bounds(1) [of h us s 0] hits_bounds(2) [of s 0 "column s h 0" us] assms(5)
    by (simp add: unsigned_minus_1_eq_mask mask_eq_exp_minus_1)
  have i: "set [0..<unat (depth s)] \<subseteq> {..<unat (depth s)}" by auto
  have "[0..<unat (depth s)] \<noteq> []" using s(3) assms(2) by (simp add: word_less_nat_alt)
  with sketch_min_ok [OF s(2) h assms(5) i m] s show ?thesis by (auto simp: Estimate_def)
qed

theorem sketch_never_undercounts_witness:
  "\<exists>s e. Updates [(replicate 32 1, 1), (replicate 32 2, 1), (replicate 32 1, 1)] (CMSketch_new 16 4) = Inr s \<and>
     Estimate s (replicate 32 1) = Inr e \<and> 2 \<le> unat e \<and> unat e \<le> 3"
proof -
  let ?us = "[(replicate 32 1, 1), (replicate 32 2, 1), (replicate 32 1, 1)] :: (byte list \<times> u32) list"
  have "replicate 32 (2 :: byte) \<noteq> replicate 32 1" by (simp add: replicate_eq_replicate)
  then have "occurrences (replicate 32 1) ?us = 2" "total_count ?us = 3"
    by (simp_all add: occurrences_def total_count_def)
  with sketch_never_undercounts [of 16 4 ?us "replicate 32 1"] show ?thesis by (auto simp: total_count_def)
qed

text \<open>
  C13: The min-heap is correct: every operation preserves its invariant (heap order, distinct
  keys, every node knowing its position) and does to the content what its name says; the top
  is a minimum.  \<open>Pop\<close> needs two elements: on one it indexes the empty vector.
\<close>

theorem heap_operations:
  assumes "heap_ok s"
  shows "(index s key = None \<and> Suc (Size s) < 2 ^ 31 \<longrightarrow>
       (\<exists>s'. Add key v s = Inr s' \<and> heap_ok s' \<and> entries s' = (entries s)(key \<mapsto> (address v, chunkFreq v)))) \<and>
    (2 \<le> Size s \<longrightarrow> (\<exists>s'. Pop s = Inr s' \<and> heap_ok s' \<and> entries s' = (entries s)(heap s ! 0 := None))) \<and>
    (Size s = 1 \<longrightarrow> Pop s = Inl OutOfBounds) \<and>
    (\<forall>it. index s key = Some it \<longrightarrow>
       (\<exists>s'. Update_freq key freq s = Inr s' \<and> heap_ok s' \<and> entries s' = (entries s)(key \<mapsto> (address it, freq)))) \<and>
    (heap s \<noteq> [] \<longrightarrow> (\<exists>a m. TopEntry s = Inr m \<and> entries s (heap s ! 0) = Some (a, m) \<and>
       (\<forall>k a' n. entries s k = Some (a', n) \<longrightarrow> m \<le> n)))"
proof (intro conjI impI allI)
  assume "index s key = None \<and> Suc (Size s) < 2 ^ 31"
  then have k: "\<not> Contains_heap key s" "Suc (Size s) < 2 ^ 31" by (simp_all add: Contains_heap_def)
  show "\<exists>s'. Add key v s = Inr s' \<and> heap_ok s' \<and> entries s' = (entries s)(key \<mapsto> (address v, chunkFreq v))"
    by (rule Add_ok [OF assms k]) blast
next
  assume "2 \<le> Size s"
  then show "\<exists>s'. Pop s = Inr s' \<and> heap_ok s' \<and> entries s' = (entries s)(heap s ! 0 := None)"
    by (rule Pop_ok [OF assms]) blast
next
  fix it assume it: "index s key = Some it"
  show "\<exists>s'. Update_freq key freq s = Inr s' \<and> heap_ok s' \<and> entries s' = (entries s)(key \<mapsto> (address it, freq))"
    by (rule Update_freq_ok [OF assms it]) blast
qed (use Pop_one TopEntry_ok [OF assms] in \<open>simp_all add: Size_def\<close>)

abbreviation no_addr :: RecipeEntry_t where
  "no_addr \<equiv> \<lparr>containerName = replicate 7 0, re_deltaFlag = 0, re_offset = 0, re_length = 0,
     basechunkHash = replicate 32 0, superfeature = replicate 96 0\<rparr>"

theorem heap_operations_witness:
  "\<exists>s s'. Add [1] \<lparr>address = no_addr, chunkFreq = 7, idx = 0\<rparr> new_heap = Inr s \<and>
     Update_freq [1] 9 s = Inr s' \<and> TopEntry s' = Inr 9"
proof -
  let ?v = "\<lparr>address = no_addr, chunkFreq = 7, idx = 0\<rparr>"
  have n: "heap_ok new_heap" using new_heap_ok [of 2] by (simp add: topk_ok_def)
  obtain s where s: "Add [1] ?v new_heap = Inr s" "heap_ok s" "entries s = (entries new_heap)([1] \<mapsto> (no_addr, 7))"
    using heap_operations [OF n, of "[1]" ?v 0] by (auto simp: new_heap_def Size_def)
  have e: "entries s [1] = Some (no_addr, 7)" by (simp add: s(3))
  then obtain it where it: "index s [1] = Some it" by (auto simp: entries_def)
  obtain s' where s': "Update_freq [1] 9 s = Inr s'" "heap_ok s'" "entries s' = (entries s)([1] \<mapsto> (address it, 9))"
    using heap_operations [OF s(2), of "[1]" ?v 9] it by blast
  have only: "entries s' k = (if k = [1] then Some (address it, 9) else None)" for k
    by (simp add: s'(3) s(3) new_heap_def entries_def)
  have "heap s' \<noteq> []" using s'(2) only [of "[1]"] by (auto simp: heap_ok_def linked_def entries_def)
  then obtain a m where "TopEntry s' = Inr m" "entries s' (heap s' ! 0) = Some (a, m)"
    using heap_operations [OF s'(2), of "[1]" ?v 9] by blast
  then have "TopEntry s' = Inr 9" by (simp add: only split: if_splits)
  with s(1) s'(1) show ?thesis by blast
qed

text \<open>
  C14: The top-k index keeps the most frequent chunks: from an empty index with a threshold of
  at least two, processing any chunks whose frequencies do not decrease never leaves a vector,
  never exceeds the threshold, and ends with every indexed chunk at its last frequency; a chunk
  that is not indexed is no more frequent than any that is, and then the index is full.
\<close>

theorem topk_keeps_most_frequent:
  assumes "2 \<le> k" "k < 2 ^ 31" "counts_grow (\<lambda>_. None) us"
  shows "\<exists>s. topk_run k us new_heap = Inr s \<and> Size s \<le> k \<and>
    (\<forall>fp a n. entries s fp = Some (a, n) \<longrightarrow> last_freq (\<lambda>_. None) us fp = Some n) \<and>
    (\<forall>fp n. last_freq (\<lambda>_. None) us fp = Some n \<and> entries s fp = None \<longrightarrow>
       Size s = k \<and> (\<forall>fp' a m. entries s fp' = Some (a, m) \<longrightarrow> n \<le> m))"
  using topk_run_ok [OF new_heap_ok assms] unfolding topk_ok_def by blast

theorem topk_keeps_most_frequent_witness:
  "\<exists>s. topk_run 2 [(1, no_addr, [1]), (1, no_addr, [2]), (2, no_addr, [1]), (3, no_addr, [3])] new_heap = Inr s \<and>
     Size s \<le> 2"
  using topk_keeps_most_frequent [of 2 "[(1, no_addr, [1]), (1, no_addr, [2]), (2, no_addr, [1]), (3, no_addr, [3])]"]
  by auto

section \<open>Sifting ends\<close>

text \<open>Sifting up halves the position and sifting down doubles it.\<close>

definition ends :: "'a res \<Rightarrow> bool" where
  "ends m \<longleftrightarrow> m \<noteq> Inl NoReturn"

lemma ends_simps [simp]: "ends (Inr x)" "ends (item_at s i)" "ends (set_idx i v s)"
  by (auto simp: ends_def item_at_def set_idx_def res_bind_def split: option.split sum.splits)

lemma ends_bind: "ends m \<Longrightarrow> (\<And>x. m = Inr x \<Longrightarrow> ends (f x)) \<Longrightarrow> ends (res_bind m f)"
  by (cases m) (auto simp: ends_def)

lemma set_idx_heap: "set_idx i v s = Inr s' \<Longrightarrow> heap s' = heap s"
  by (auto simp: set_idx_def res_bind_eq_Inr)

lemma SwapUp_ends: "i < 2 ^ n \<Longrightarrow> i < 2 ^ 32 \<Longrightarrow> ends (SwapUp (Suc n) i s)"
proof (induction n arbitrary: i s)
  case (Suc n)
  have p: "ends (SwapUp (Suc n) (ParentIdx i) t)" if "0 < i" for t
  proof (rule Suc.IH)
    have "ParentIdx i = par i" by (rule ParentIdx_par [OF that Suc.prems(2)])
    then show "ParentIdx i < 2 ^ n" "ParentIdx i < 2 ^ 32" using Suc.prems par_less [OF that] by (auto simp: par_def)
  qed
  show ?case
    by (subst SwapUp.simps) (use p in \<open>auto simp: Let_def simp del: SwapUp.simps intro!: ends_bind\<close>)
qed simp

lemma SwapDown_ends:
  "length (heap s) \<le> 2 ^ n * Suc i \<Longrightarrow> length (heap s) < 2 ^ 31 \<Longrightarrow> i < length (heap s) \<Longrightarrow> ends (SwapDown (Suc n) i s)"
proof (induction n arbitrary: i s)
  case 0
  then show ?case using ChildIdx_eq [of i] by simp
next
  case (Suc n)
  have c: "ChildIdx i = 2 * i + 1" using ChildIdx_eq [of i] Suc.prems by simp
  have p: "ends (SwapDown (Suc n) j t)"
    if "2 * i + 1 \<le> j" "j < length (heap s)" "length (heap t) = length (heap s)" for j t
  proof (rule Suc.IH)
    have "length (heap s) \<le> 2 ^ n * (2 * Suc i)" using Suc.prems(1) by simp
    also have "\<dots> \<le> 2 ^ n * Suc j" using that(1) by (intro mult_le_mono2) simp
    finally show "length (heap t) \<le> 2 ^ n * Suc j" using that(3) by simp
  qed (use Suc.prems that in simp_all)
  define pick where "pick = (if (ChildIdx i + 1) mod 2 ^ 32 < length (heap s)
      then res_bind (item_at s ((ChildIdx i + 1) mod 2 ^ 32)) (\<lambda>r. res_bind (item_at s (ChildIdx i)) (\<lambda>l.
             Inr (if CompFreq (chunkFreq r) (chunkFreq l) then (ChildIdx i + 1) mod 2 ^ 32 else ChildIdx i)))
      else Inr (ChildIdx i))"
  define go where "go j = res_bind (item_at s j) (\<lambda>x. res_bind (item_at s i) (\<lambda>y.
      if \<not> CompFreq (chunkFreq x) (chunkFreq y) then Inr (i, s)
      else res_bind (set_idx i i (s\<lparr>heap := swap j i (heap s)\<rparr>)) (SwapDown (Suc n) j)))" for j
  have step: "SwapDown (Suc (Suc n)) i s = (if ChildIdx i < length (heap s) then res_bind pick go else Inr (i, s))"
    by (subst SwapDown.simps) (simp only: Let_def pick_def go_def [abs_def])
  have g: "ends (go j)" if "2 * i + 1 \<le> j" "j < length (heap s)" for j
    using p [OF that] by (auto simp: go_def set_idx_heap simp del: SwapDown.simps intro!: ends_bind)
  have k: "ends pick" by (auto simp: pick_def intro!: ends_bind)
  show ?case
  proof (cases "ChildIdx i < length (heap s)")
    case True
    have m: "(ChildIdx i + 1) mod 2 ^ 32 = 2 * i + 2" using True Suc.prems(2) by (simp add: c)
    have r: "2 * i + 1 \<le> j \<and> j < length (heap s)" if "pick = Inr j" for j
      using that True unfolding pick_def m unfolding c by (auto simp: res_bind_eq_Inr split: if_splits)
    show ?thesis unfolding step if_P [OF True] by (rule ends_bind [OF k]) (use r g in blast)
  qed (simp add: step)
qed

text \<open>
  C31: Sifting terminates within a logarithmic number of rounds, whatever the state is, even one
  that is not a heap: in an array of at most \<open>2 ^ n\<close> entries, \<open>n + 1\<close> rounds are enough for
  \<open>SwapUp\<close> and for \<open>SwapDown\<close>.
\<close>

theorem sift_terminates:
  assumes "length (heap s) \<le> 2 ^ n" "length (heap s) < 2 ^ 31" "i < length (heap s)"
  shows "SwapUp (Suc n) i s \<noteq> Inl NoReturn \<and> SwapDown (Suc n) i s \<noteq> Inl NoReturn"
proof -
  have "length (heap s) \<le> 2 ^ n * Suc i" using assms(1) by (rule order_trans) simp
  from SwapUp_ends [of i n s] SwapDown_ends [OF this assms(2,3)] assms show ?thesis by (simp add: ends_def)
qed

theorem sift_terminates_witness:
  "SwapUp 3 2 \<lparr>heap = [[1], [2], [3]], index = (\<lambda>_. None)\<rparr> \<noteq> Inl NoReturn \<and>
   SwapDown 3 2 \<lparr>heap = [[1], [2], [3]], index = (\<lambda>_. None)\<rparr> \<noteq> Inl NoReturn"
  using sift_terminates [of "\<lparr>heap = [[1], [2], [3]], index = (\<lambda>_. None)\<rparr>" 2 2] by (simp add: numeral_3_eq_3)

end
