(* ===== verification/Database.thy ===== *)
theory Database imports Types begin

text \<open>
  The index outside the enclave (\<open>Database/inMemoryDatabase.cc\<close>): fingerprint index, three
  feature maps, delta index and the maps of the offline pass, with the files in which the first
  two survive a restart.  Keys and values are byte strings; the enclave sends them encrypted.
\<close>

section \<open>State and operations\<close>

type_synonym kv = "byte list \<Rightarrow> byte list option"
type_synonym multi = "byte list \<Rightarrow> byte list list option"

record InMemoryDatabase =
  indexObj :: kv
  sfObj :: "multi list"
  delta_index :: multi
  local_tmp_map :: kv
  skipMap :: multi

definition empty_db :: InMemoryDatabase where
  "empty_db = \<lparr>indexObj = Map.empty, sfObj = replicate 3 Map.empty, delta_index = Map.empty,
     local_tmp_map = Map.empty, skipMap = Map.empty\<rparr>"

definition Query :: "byte list \<Rightarrow> InMemoryDatabase \<Rightarrow> byte list option" where
  "Query key db = indexObj db key"

definition Insert :: "byte list \<Rightarrow> byte list \<Rightarrow> InMemoryDatabase \<Rightarrow> InMemoryDatabase" where
  "Insert key val db = db\<lparr>indexObj := (indexObj db)(key \<mapsto> val)\<rparr>"

definition InsertBuffer :: "byte list \<Rightarrow> byte list \<Rightarrow> nat \<Rightarrow> InMemoryDatabase \<Rightarrow> InMemoryDatabase res" where
  "InsertBuffer key buffer n db =
     res_bind (buf_read buffer 0 n) (\<lambda>valueStr. Inr (db\<lparr>indexObj := (indexObj db)(key \<mapsto> valueStr)\<rparr>))"

definition InsertBothBuffer ::
    "byte list \<Rightarrow> nat \<Rightarrow> byte list \<Rightarrow> nat \<Rightarrow> InMemoryDatabase \<Rightarrow> InMemoryDatabase res" where
  "InsertBothBuffer key keySize buffer n db =
     res_bind (buf_read key 0 keySize) (\<lambda>keyStr.
     res_bind (buf_read buffer 0 n) (\<lambda>valueStr.
       Inr (db\<lparr>indexObj := (indexObj db)(keyStr \<mapsto> valueStr)\<rparr>)))"

definition QueryBuffer :: "byte list \<Rightarrow> nat \<Rightarrow> InMemoryDatabase \<Rightarrow> byte list option res" where
  "QueryBuffer key keySize db = res_bind (buf_read key 0 keySize) (\<lambda>keyStr. Inr (indexObj db keyStr))"

text \<open>\<open>m[key].push_back (v)\<close>.\<close>

definition multi_push :: "byte list \<Rightarrow> byte list \<Rightarrow> multi \<Rightarrow> multi" where
  "multi_push key v m = m(key \<mapsto> (case m key of None \<Rightarrow> [] | Some vs \<Rightarrow> vs) @ [v])"

text \<open>The body of the loop over the three feature maps.\<close>

definition insert_feature :: "nat \<Rightarrow> byte list \<Rightarrow> byte list \<Rightarrow> byte \<Rightarrow> multi list \<Rightarrow> multi list" where
  "insert_feature i keyStr valueStr updateflag ms =
     (let m = ms ! i in
      ms[i := (if updateflag = 0 then multi_push keyStr valueStr m
               else if updateflag = 1 then multi_push keyStr valueStr (m(keyStr := None))
               else if updateflag = 2 then m(keyStr := None)
               else m)])"

fun insert_features ::
    "nat list \<Rightarrow> byte list \<Rightarrow> byte list \<Rightarrow> byte \<Rightarrow> multi list \<Rightarrow> multi list res" where
  "insert_features [] key buffer flag ms = Inr ms"
| "insert_features (i # is) key buffer flag ms =
     res_bind (buf_read key (i * CHUNK_HASH_SIZE) CHUNK_HASH_SIZE) (\<lambda>keyStr.
     res_bind (buf_read buffer 0 CHUNK_HASH_SIZE) (\<lambda>valueStr.
       insert_features is key buffer flag (insert_feature i keyStr valueStr flag ms)))"

definition InsertSF :: "byte list \<Rightarrow> byte list \<Rightarrow> byte \<Rightarrow> InMemoryDatabase \<Rightarrow> InMemoryDatabase res" where
  "InsertSF key buffer updateflag db =
     res_bind (insert_features [0, 1, 2] key buffer updateflag (sfObj db)) (\<lambda>ms. Inr (db\<lparr>sfObj := ms\<rparr>))"

fun query_features :: "nat list \<Rightarrow> byte list \<Rightarrow> multi list \<Rightarrow> byte list option res" where
  "query_features [] key ms = Inr None"
| "query_features (i # is) key ms =
     res_bind (buf_read key (CHUNK_HASH_SIZE * i) CHUNK_HASH_SIZE) (\<lambda>keyStr.
       case (ms ! i) keyStr of
         None \<Rightarrow> query_features is key ms
       | Some [] \<Rightarrow> Inl OutOfBounds
       | Some (v # _) \<Rightarrow> Inr (Some v))"

definition QuerySF :: "byte list \<Rightarrow> InMemoryDatabase \<Rightarrow> byte list option res" where
  "QuerySF key db = query_features [0, 1, 2] key (sfObj db)"

definition InsertDeltaIndex :: "byte list \<Rightarrow> byte list \<Rightarrow> InMemoryDatabase \<Rightarrow> InMemoryDatabase" where
  "InsertDeltaIndex baseChunkFp deltaChunkFp db =
     db\<lparr>delta_index := multi_push baseChunkFp deltaChunkFp (delta_index db)\<rparr>"

text \<open>A query takes the entry out of the delta index.\<close>

definition QueryDeltaIndex ::
    "byte list \<Rightarrow> InMemoryDatabase \<Rightarrow> byte list list option \<times> InMemoryDatabase" where
  "QueryDeltaIndex baseChunkFp db =
     (case delta_index db baseChunkFp of
        Some fps \<Rightarrow> (Some fps, db\<lparr>delta_index := (delta_index db)(baseChunkFp := None)\<rparr>)
      | None \<Rightarrow> (None, db))"

text \<open>
  The OCALLs of \<open>ocallSrc/storeOCall.cc\<close> that work off a buffer of fingerprint pairs:
  \<open>Ocall_UpdateDeltaIndex\<close> on \<open>process_buffer\<close> and \<open>Ocall_LocalInsert\<close> on \<open>test_buffer\<close>.
\<close>

fun Ocall_UpdateDeltaIndex :: "byte list \<Rightarrow> nat \<Rightarrow> nat \<Rightarrow> InMemoryDatabase \<Rightarrow> InMemoryDatabase res" where
  "Ocall_UpdateDeltaIndex buf offset 0 db = Inr db"
| "Ocall_UpdateDeltaIndex buf offset (Suc n) db =
     res_bind (buf_read buf offset CHUNK_HASH_SIZE) (\<lambda>baseChunkHash.
     res_bind (buf_read buf (offset + CHUNK_HASH_SIZE) CHUNK_HASH_SIZE) (\<lambda>deltaChunkHash.
       Ocall_UpdateDeltaIndex buf (offset + 2 * CHUNK_HASH_SIZE) n
         (InsertDeltaIndex baseChunkHash deltaChunkHash db)))"

definition local_insert :: "byte list \<Rightarrow> byte list \<Rightarrow> InMemoryDatabase \<Rightarrow> InMemoryDatabase" where
  "local_insert oldfp newfp db =
     (let db = (case local_tmp_map db oldfp of
                  None \<Rightarrow> db
                | Some fp \<Rightarrow> db\<lparr>skipMap := multi_push oldfp fp (skipMap db)\<rparr>)
      in db\<lparr>local_tmp_map := (local_tmp_map db)(oldfp \<mapsto> newfp)\<rparr>)"

fun Ocall_LocalInsert :: "byte list \<Rightarrow> nat \<Rightarrow> nat \<Rightarrow> InMemoryDatabase \<Rightarrow> InMemoryDatabase res" where
  "Ocall_LocalInsert buf offset 0 db = Inr db"
| "Ocall_LocalInsert buf offset (Suc n) db =
     res_bind (buf_read buf offset CHUNK_HASH_SIZE) (\<lambda>oldfp.
     res_bind (buf_read buf (offset + CHUNK_HASH_SIZE) CHUNK_HASH_SIZE) (\<lambda>newfp.
       Ocall_LocalInsert buf (offset + 2 * CHUNK_HASH_SIZE) n (local_insert oldfp newfp db)))"

section \<open>Persistence\<close>

text \<open>
  The destructor writes the maps in the order in which they iterate, which is a parameter here:
  a list of the pairs.  Sizes are written as a 32-bit \<open>int\<close>.
\<close>

definition db_item :: "byte list \<Rightarrow> byte list" where
  "db_item s = le32 (word_of_nat (length s)) @ s"

definition persist_index :: "(byte list \<times> byte list) list \<Rightarrow> byte list" where
  "persist_index kvs = concat (map (\<lambda>(k, v). db_item k @ db_item v) kvs)"

definition persist_sf_entry :: "nat \<Rightarrow> byte list \<times> byte list list \<Rightarrow> byte list" where
  "persist_sf_entry i kvs =
     concat (map (\<lambda>v. le32 (word_of_nat i) @ db_item (fst kvs) @ db_item v) (snd kvs))"

definition persist_sf :: "(byte list \<times> byte list list) list list \<Rightarrow> byte list" where
  "persist_sf ms =
     concat (map (\<lambda>(i, kvss). concat (map (persist_sf_entry i) kvss)) (zip [0..<length ms] ms))"

text \<open>
  An input stream: the rest of the file and whether a read came up short, after which reads do
  nothing.  A read overwrites as much of its destination as it gets.
\<close>

type_synonym ifs = "byte list \<times> bool"

definition ifs_read :: "ifs \<Rightarrow> byte list \<Rightarrow> byte list \<times> ifs" where
  "ifs_read s dst =
     (case s of (rest, failed) \<Rightarrow>
        if failed then (dst, s)
        else if length dst \<le> length rest then (take (length dst) rest, (drop (length dst) rest, False))
        else (rest @ drop (length rest) dst, ([], True)))"

text \<open>
  \<open>key.resize (itemSize, 0)\<close> and the read of the string; a negative size throws.
\<close>

definition ifs_string :: "u32 \<Rightarrow> ifs \<Rightarrow> (byte list \<times> ifs) res" where
  "ifs_string n s =
     (if 2 ^ 31 \<le> unat n then Inl ExitError
      else Inr (ifs_read s (replicate (unat n) 0)))"

text \<open>One key and value; a key size of 0, which is also what is left at the end, ends the loop.\<close>

definition read_pair :: "ifs \<Rightarrow> (byte list \<times> byte list \<times> ifs) option res" where
  "read_pair s =
     (let (size, s) = ifs_read s (replicate 4 0);
          itemSize = get32 size
      in if itemSize = 0 then Inr None
         else res_bind (ifs_string itemSize s) (\<lambda>(key, s).
           let (size, s) = ifs_read s (le32 itemSize) in
           res_bind (ifs_string (get32 size) s) (\<lambda>(val, s). Inr (Some (key, val, s)))))"

lemma ifs_read_shrinks:
  "ifs_read s dst = (out, s') \<Longrightarrow> length (fst s') \<le> length (fst s) \<and>
     (snd s' \<or> length (fst s') + length dst = length (fst s) \<and> \<not> snd s)"
  by (auto simp: ifs_read_def split: prod.splits if_splits)

lemma ifs_string_shrinks:
  "ifs_string n s = Inr (out, s') \<Longrightarrow> length (fst s') \<le> length (fst s) \<and> (snd s \<longrightarrow> snd s')"
  using ifs_read_shrinks [of s "replicate (unat n) 0" out s']
  by (auto simp: ifs_string_def split: if_splits)

lemma read_pair_shrinks:
  assumes "read_pair s = Inr (Some (key, val, s'))"
  shows "length (fst s') \<le> length (fst s)" and "\<not> snd s' \<Longrightarrow> length (fst s') < length (fst s)"
proof -
  obtain size s1 where r1: "ifs_read s (replicate 4 0) = (size, s1)" by (rule prod.exhaust)
  with assms obtain key' s2 where r2: "ifs_string (get32 size) s1 = Inr (key', s2)"
    by (auto simp: read_pair_def Let_def res_bind_eq_Inr split: if_splits)
  obtain size' s3 where r3: "ifs_read s2 (le32 (get32 size)) = (size', s3)" by (rule prod.exhaust)
  have r4: "ifs_string (get32 size') s3 = Inr (val, s')"
    using assms r1 r2 r3 by (auto simp: read_pair_def Let_def res_bind_eq_Inr split: if_splits)
  note r = r1 r2 r3 r4
  note k = ifs_read_shrinks [OF r(1)] ifs_string_shrinks [OF r(2)] ifs_read_shrinks [OF r(3)]
    ifs_string_shrinks [OF r(4)]
  show "length (fst s') \<le> length (fst s)" using k by linarith
  show "length (fst s') < length (fst s)" if "\<not> snd s'" using k that by auto
qed

text \<open>The loop of \<open>OpenDB\<close> over the fingerprint file; \<open>insert\<close> keeps an existing key.\<close>

function load_index :: "ifs \<Rightarrow> kv \<Rightarrow> kv res" where
  "load_index s m =
     res_bind (read_pair s) (\<lambda>r. case r of
         None \<Rightarrow> Inr m
       | Some (key, val, s') \<Rightarrow>
           let m' = (case m key of None \<Rightarrow> m(key \<mapsto> val) | Some _ \<Rightarrow> m) in
           if snd s' then Inr m' else load_index s' m')"
  by pat_completeness auto
termination
  by (relation "measure (\<lambda>(s, m). length (fst s))") (auto dest: read_pair_shrinks(2))

declare load_index.simps [simp del]

text \<open>The loop over the feature file.\<close>

function load_sf :: "ifs \<Rightarrow> byte list \<Rightarrow> multi list \<Rightarrow> multi list res" where
  "load_sf s version ms =
     (let (version', s1) = ifs_read s version in
      res_bind (read_pair s1) (\<lambda>r. case r of
         None \<Rightarrow> Inr ms
       | Some (key, val, s') \<Rightarrow>
           let i = unat (get32 version') in
           if length ms \<le> i then Inl OutOfBounds
           else let ms' = ms[i := multi_push key val (ms ! i)] in
                if snd s' then Inr ms' else load_sf s' version' ms'))"
  by pat_completeness auto
termination
proof (relation "measure (\<lambda>(s, v, m). length (fst s))", goal_cases)
  case 1
  show ?case by simp
next
  case prems: (2 s version ms x version' s1 r y key z val s' i ms')
  have "ifs_read s version = (version', s1)" using prems(1,2) by simp
  from ifs_read_shrinks [OF this] have "length (fst s1) \<le> length (fst s)" by simp
  with read_pair_shrinks(2) [of s1 key val s'] prems show ?case by simp
qed

declare load_sf.simps [simp del]

text \<open>\<open>OpenDB\<close> on the contents of the two files; a missing file is empty.\<close>

definition OpenDB :: "byte list \<Rightarrow> byte list \<Rightarrow> InMemoryDatabase \<Rightarrow> InMemoryDatabase res" where
  "OpenDB dbFile sfdbFile db =
     res_bind (if dbFile = [] then Inr (indexObj db) else load_index (dbFile, False) (indexObj db)) (\<lambda>m.
     res_bind (if sfdbFile = [] then Inr (replicate 3 Map.empty)
               else load_sf (sfdbFile, False) (replicate 4 0) (replicate 3 Map.empty)) (\<lambda>ms.
       Inr (db\<lparr>indexObj := m, sfObj := ms\<rparr>)))"

end
