(* ===== verification/Database_Props.thy ===== *)
theory Database_Props imports Database begin

text \<open>
  What the index outside the enclave promises: it is a store of key-value pairs, its two files
  bring it back whatever order its maps iterate in, and a feature query answers from the
  history of the insertions.
\<close>


section \<open>The interface of an index\<close>

text \<open>
  A store of key-value pairs: reading a key returns the value put last.  The enclave relies on
  it when it looks up a batch of fingerprints after earlier batches were put in.
\<close>

locale kv_store =
  fixes get :: "'s \<Rightarrow> 'k \<Rightarrow> 'v option"
    and put :: "'k \<Rightarrow> 'v \<Rightarrow> 's \<Rightarrow> 's"
  assumes get_put: "get (put k v s) k' = (if k' = k then Some v else get s k')"
begin

lemma get_puts:
  "get (fold (\<lambda>(k, v). put k v) kvs s) k' =
     (case map_of (rev kvs) k' of Some v \<Rightarrow> Some v | None \<Rightarrow> get s k')"
  by (induction kvs arbitrary: s) (auto simp: get_put map_add_def split: option.splits)

lemma get_puts_same:
  assumes "\<forall>(k, v) \<in> set kvs. k = k' \<longrightarrow> v = v'" "(k', v') \<in> set kvs"
  shows "get (fold (\<lambda>(k, v). put k v) kvs s) k' = Some v'"
proof -
  obtain v where v: "map_of (rev kvs) k' = Some v"
    using assms(2) by (metis map_of_eq_None_iff not_None_eq imageI fst_conv set_rev)
  then have "v = v'" using assms(1) map_of_SomeD [OF v] by fastforce
  with v show ?thesis by (simp add: get_puts)
qed

end

interpretation db: kv_store "\<lambda>db k. Query k db" Insert
  by unfold_locales (simp add: Query_def Insert_def)

lemma InsertBothBuffer_exact:
  "keySize = length key \<Longrightarrow> n = length val \<Longrightarrow> InsertBothBuffer key keySize val n db = Inr (Insert key val db)"
  by (simp add: InsertBothBuffer_def Insert_def buf_read_def bslice_full)

lemma QueryBuffer_exact: "keySize = length key \<Longrightarrow> QueryBuffer key keySize db = Inr (Query key db)"
  by (simp add: QueryBuffer_def Query_def buf_read_def bslice_full)

section \<open>Persistence\<close>

lemma get32_zeros [simp]: "get32 (replicate n 0) = 0"
proof -
  have "le_val (replicate n 0) = 0" by (induction n) simp_all
  then show ?thesis by (simp add: get32_def)
qed

lemma unat_word_of_length:
  "length k < 2 ^ 31 \<Longrightarrow> unat (word_of_nat (length k) :: u32) = length k"
  by (simp add: unat_of_nat)

lemma word_of_length_nonzero:
  "length k < 2 ^ 31 \<Longrightarrow> k \<noteq> [] \<Longrightarrow> (word_of_nat (length k) :: u32) \<noteq> 0"
  using unat_word_of_length [of k] by (metis length_0_conv unat_0)

lemma le32_not_Nil [simp]: "le32 w \<noteq> []"
  using le32_length [of w] by (metis list.size(3) zero_neq_numeral)

lemma ifs_read_exact: "length a = length dst \<Longrightarrow> ifs_read (a @ rest, False) dst = (a, (rest, False))"
  by (simp add: ifs_read_def)

lemma ifs_read_le32 [simp]: "length dst = 4 \<Longrightarrow> ifs_read (le32 w @ rest, False) dst = (le32 w, (rest, False))"
  by (simp add: ifs_read_exact)

lemma ifs_string_exact:
  "length a < 2 ^ 31 \<Longrightarrow> ifs_string (word_of_nat (length a)) (a @ rest, False) = Inr (a, (rest, False))"
  by (simp add: ifs_string_def unat_of_nat ifs_read_exact)

definition item_ok :: "byte list \<Rightarrow> bool" where
  "item_ok s \<longleftrightarrow> length s < 2 ^ 31"

lemma read_pair_items:
  assumes "item_ok k" "item_ok v" "k \<noteq> []"
  shows "read_pair (db_item k @ db_item v @ rest, False) = Inr (Some (k, v, (rest, False)))"
proof -
  have "word_of_nat (length k) \<noteq> (0 :: u32)"
    using word_of_length_nonzero [of k] assms(1,3) by (simp add: item_ok_def)
  then show ?thesis
    using assms by (simp add: read_pair_def db_item_def item_ok_def ifs_string_exact)
qed

lemma read_pair_end: "read_pair ([], False) = Inr None"
  by (simp add: read_pair_def ifs_read_def)

lemma persist_index_simps [simp]:
  "persist_index [] = []"
  "persist_index ((k, v) # kvs) = db_item k @ db_item v @ persist_index kvs"
  by (simp_all add: persist_index_def)

lemma load_persist_index:
  "\<forall>(k, v) \<in> set kvs. item_ok k \<and> item_ok v \<and> k \<noteq> [] \<and> m k = None \<Longrightarrow> distinct (map fst kvs) \<Longrightarrow>
   load_index (persist_index kvs, False) m = Inr (m ++ map_of kvs)"
proof (induction kvs arbitrary: m)
  case Nil
  show ?case by (subst load_index.simps) (simp add: read_pair_end)
next
  case (Cons kv kvs)
  obtain k v where kv: "kv = (k, v)" by (cases kv)
  have "load_index (persist_index kvs, False) (m(k \<mapsto> v)) = Inr (m(k \<mapsto> v) ++ map_of kvs)"
  proof (rule Cons.IH)
    show "\<forall>(k', v') \<in> set kvs. item_ok k' \<and> item_ok v' \<and> k' \<noteq> [] \<and> (m(k \<mapsto> v)) k' = None"
      using Cons.prems by (fastforce simp: kv image_iff)
    show "distinct (map fst kvs)" using Cons.prems(2) by simp
  qed
  moreover have "m(k \<mapsto> v) ++ map_of kvs = m ++ map_of (kv # kvs)"
  proof -
    have "map_of kvs k = None" using Cons.prems(2) by (simp add: kv map_of_eq_None_iff)
    then show ?thesis by (auto simp: kv map_add_def split: option.splits)
  qed
  ultimately show ?case
    using Cons.prems unfolding kv
    by (subst load_index.simps) (simp add: read_pair_items)
qed

text \<open>The feature file as the list of its triples of map, feature and fingerprint.\<close>

type_synonym triple = "nat \<times> byte list \<times> byte list"

definition triples :: "(byte list \<times> byte list list) list list \<Rightarrow> triple list" where
  "triples ms = concat (map (\<lambda>(i, kvss). concat (map (\<lambda>(k, vs). map (\<lambda>v. (i, k, v)) vs) kvss)) (zip [0..<length ms] ms))"

definition ser_triple :: "triple \<Rightarrow> byte list" where
  "ser_triple t = (case t of (i, k, v) \<Rightarrow> le32 (word_of_nat i) @ db_item k @ db_item v)"

definition push_triple :: "triple \<Rightarrow> multi list \<Rightarrow> multi list" where
  "push_triple t ms = (case t of (i, k, v) \<Rightarrow> ms[i := multi_push k v (ms ! i)])"

definition triple_ok :: "nat \<Rightarrow> triple \<Rightarrow> bool" where
  "triple_ok n t = (case t of (i, k, v) \<Rightarrow> i < n \<and> item_ok k \<and> item_ok v \<and> k \<noteq> [])"

lemma persist_sf_triples: "persist_sf ms = concat (map ser_triple (triples ms))"
proof -
  have "concat (map (persist_sf_entry i) kvss) =
      concat (map ser_triple (concat (map (\<lambda>(k, vs). map (\<lambda>v. (i, k, v)) vs) kvss)))" for i kvss
    by (induction kvss) (auto simp: persist_sf_entry_def ser_triple_def comp_def)
  then have "concat (map (\<lambda>(i, kvss). concat (map (persist_sf_entry i) kvss)) l) =
      concat (map ser_triple (concat (map (\<lambda>(i, kvss). concat (map (\<lambda>(k, vs). map (\<lambda>v. (i, k, v)) vs) kvss)) l)))" for l
    by (induction l) auto
  then show ?thesis by (simp add: persist_sf_def triples_def)
qed

lemma load_sf_triples:
  "\<forall>t \<in> set ts. triple_ok (length ms) t \<Longrightarrow> length ms \<le> 2 ^ 31 \<Longrightarrow> length ver = 4 \<Longrightarrow>
   load_sf (concat (map ser_triple ts), False) ver ms = Inr (fold push_triple ts ms)"
proof (induction ts arbitrary: ms ver)
  case Nil
  show ?case
    by (subst load_sf.simps) (simp add: ifs_read_def read_pair_def)
next
  case (Cons t ts)
  obtain i k v where t: "t = (i, k, v)" by (cases t)
  have i: "i < length ms" "item_ok k" "item_ok v" "k \<noteq> []" using Cons.prems(1) by (simp_all add: t triple_ok_def)
  then have u: "unat (word_of_nat i :: u32) = i"
    using Cons.prems(2) by (simp add: unat_of_nat)
  have "load_sf (concat (map ser_triple ts), False) (le32 (word_of_nat i)) (push_triple t ms) =
      Inr (fold push_triple ts (push_triple t ms))"
    using Cons.prems by (intro Cons.IH) (auto simp: push_triple_def t)
  with i u Cons.prems(3) show ?case
    by (subst load_sf.simps) (simp add: t ser_triple_def read_pair_items push_triple_def)
qed

text \<open>What a sequence of pushes leaves in a map.\<close>

definition pushed :: "nat \<Rightarrow> byte list \<Rightarrow> triple list \<Rightarrow> byte list list" where
  "pushed i k ts = map (\<lambda>(_, _, v). v) (filter (\<lambda>(i', k', _). i' = i \<and> k' = k) ts)"

definition extend :: "byte list list option \<Rightarrow> byte list list \<Rightarrow> byte list list option" where
  "extend old l = (case old of None \<Rightarrow> if l = [] then None else Some l | Some vs \<Rightarrow> Some (vs @ l))"

lemma extend_extend [simp]: "extend (extend old l) l' = extend old (l @ l')"
  by (simp add: extend_def split: option.split)

lemma extend_Nil [simp]: "extend old [] = old"
  by (simp add: extend_def split: option.split)

lemma multi_push_extend: "multi_push k v m k' = (if k' = k then extend (m k) [v] else m k')"
  by (simp add: multi_push_def extend_def split: option.split)

lemma push_triple_length [simp]: "length (push_triple t ms) = length ms"
  by (simp add: push_triple_def split: prod.split)

lemma fold_push_length [simp]: "length (fold push_triple ts ms) = length ms"
  by (induction ts arbitrary: ms) simp_all

lemma fold_push_triple:
  "i < length ms \<Longrightarrow> (fold push_triple ts ms ! i) k = extend ((ms ! i) k) (pushed i k ts)"
proof (induction ts arbitrary: ms)
  case Nil
  then show ?case by (simp add: pushed_def)
next
  case (Cons t ts)
  obtain i' k' v where t: "t = (i', k', v)" by (cases t)
  have "(push_triple t ms ! i) k = extend ((ms ! i) k) (pushed i k [t])"
    using Cons.prems by (cases "i' = i") (auto simp: push_triple_def t pushed_def multi_push_extend)
  moreover have "pushed i k (t # ts) = pushed i k [t] @ pushed i k ts" by (simp add: pushed_def)
  ultimately show ?case using Cons by simp
qed

lemma pushed_append: "pushed i k (a @ b) = pushed i k a @ pushed i k b"
  by (simp add: pushed_def)

lemma pushed_other:
  "i' \<noteq> i \<Longrightarrow> pushed i k (concat (map (\<lambda>(k, vs). map (\<lambda>v. (i', k, v)) vs) kvss)) = []"
  by (auto simp: pushed_def filter_empty_conv)

lemma pushed_enum:
  "distinct (map fst kvss) \<Longrightarrow>
   pushed i k (concat (map (\<lambda>(k, vs). map (\<lambda>v. (i, k, v)) vs) kvss)) =
     (case map_of kvss k of None \<Rightarrow> [] | Some vs \<Rightarrow> vs)"
proof (induction kvss)
  case Nil
  then show ?case by (simp add: pushed_def)
next
  case (Cons kv kvss)
  obtain k' vs where kv: "kv = (k', vs)" by (cases kv)
  have h: "pushed i k (map (\<lambda>v. (i, k', v)) vs) = (if k' = k then vs else [])"
    by (induction vs) (auto simp: pushed_def)
  have "map_of kvss k' = None" using Cons.prems by (simp add: kv map_of_eq_None_iff)
  then show ?case using Cons h by (auto simp: kv pushed_append)
qed

lemma pushed_triples:
  assumes "i < length ms" "\<forall>kvss \<in> set ms. distinct (map fst kvss)"
  shows "pushed i k (triples ms) = (case map_of (ms ! i) k of None \<Rightarrow> [] | Some vs \<Rightarrow> vs)"
proof -
  let ?e = "\<lambda>i kvss. concat (map (\<lambda>(k, vs). map (\<lambda>v. (i :: nat, k, v)) vs) kvss)"
  have "pushed i k (concat (map (\<lambda>(j, kvss). ?e j kvss) (zip [a..<a + length l] l))) =
      (if a \<le> i \<and> i < a + length l then pushed i k (?e i (l ! (i - a))) else [])" for a and l :: "(byte list \<times> byte list list) list list"
  proof (induction l arbitrary: a)
    case Nil
    show ?case by (auto simp: pushed_def)
  next
    case (Cons x l)
    have z: "zip [a..<a + length (x # l)] (x # l) = (a, x) # zip [Suc a..<Suc a + length l] l"
      by (subst upt_conv_Cons) simp_all
    show ?case
      unfolding z using Cons.IH [of "Suc a"] pushed_other [of a i k x]
      by (cases "i = a") (auto simp: pushed_append nth_Cons' Suc_diff_le)
  qed
  from this [of 0 ms] assms pushed_enum [of "ms ! i" i k] show ?thesis
    by (simp add: triples_def)
qed

text \<open>An enumeration of a map is what its iteration visits.\<close>

definition enumerates :: "('a \<times> 'b) list \<Rightarrow> ('a \<Rightarrow> 'b option) \<Rightarrow> bool" where
  "enumerates kvs m \<longleftrightarrow> distinct (map fst kvs) \<and> map_of kvs = m"

definition db_persistable :: "InMemoryDatabase \<Rightarrow> bool" where
  "db_persistable db \<longleftrightarrow> length (sfObj db) = 3 \<and>
     (\<forall>k v. indexObj db k = Some v \<longrightarrow> k \<noteq> [] \<and> item_ok k \<and> item_ok v) \<and>
     (\<forall>m \<in> set (sfObj db). \<forall>k vs. m k = Some vs \<longrightarrow> k \<noteq> [] \<and> item_ok k \<and> vs \<noteq> [] \<and> (\<forall>v \<in> set vs. item_ok v))"

lemma triples_ok:
  assumes "\<forall>kvss \<in> set ms. \<forall>(k, vs) \<in> set kvss. k \<noteq> [] \<and> item_ok k \<and> (\<forall>v \<in> set vs. item_ok v)"
  shows "\<forall>t \<in> set (triples ms). triple_ok (length ms) t"
proof
  fix t assume "t \<in> set (triples ms)"
  then obtain i kvss k vs v where t: "(i, kvss) \<in> set (zip [0..<length ms] ms)" "(k, vs) \<in> set kvss"
    "v \<in> set vs" "t = (i, k, v)"
    by (auto simp: triples_def)
  then have "i < length ms" "kvss \<in> set ms" by (auto dest: set_zip_leftD set_zip_rightD)
  with t assms show "triple_ok (length ms) t" by (fastforce simp: triple_ok_def)
qed

lemma load_persist_sf:
  assumes "list_all2 enumerates kvsss ms" "length ms = 3"
    "\<forall>m \<in> set ms. \<forall>k vs. m k = Some vs \<longrightarrow> k \<noteq> [] \<and> item_ok k \<and> vs \<noteq> [] \<and> (\<forall>v \<in> set vs. item_ok v)"
  shows "load_sf (persist_sf kvsss, False) (replicate 4 0) (replicate 3 Map.empty) = Inr ms"
proof -
  have len: "length kvsss = 3" using assms(1,2) by (simp add: list_all2_lengthD)
  have e: "enumerates (kvsss ! i) (ms ! i)" if "i < 3" for i
    using list_all2_nthD2 [OF assms(1)] that assms(2) by simp
  have ok: "\<forall>kvss \<in> set kvsss. \<forall>(k, vs) \<in> set kvss. k \<noteq> [] \<and> item_ok k \<and> (\<forall>v \<in> set vs. item_ok v)"
  proof (intro ballI, clarify)
    fix kvss k vs assume k: "kvss \<in> set kvsss" "(k, vs) \<in> set kvss"
    then obtain i where i: "i < 3" "kvss = kvsss ! i" by (metis in_set_conv_nth len)
    then have "map_of (kvsss ! i) k = Some vs" using e [OF i(1)] k(2) unfolding i(2) enumerates_def
      by (blast intro: map_of_is_SomeI)
    then have "(ms ! i) k = Some vs" using e [OF i(1)] by (simp add: enumerates_def)
    moreover have "ms ! i \<in> set ms" using i(1) assms(2) by simp
    ultimately show "k \<noteq> [] \<and> item_ok k \<and> (\<forall>v \<in> set vs. item_ok v)" using assms(3) by blast
  qed
  have d: "\<forall>kvss \<in> set kvsss. distinct (map fst kvss)"
    using e len by (metis enumerates_def in_set_conv_nth)
  have l: "load_sf (persist_sf kvsss, False) (replicate 4 0) (replicate 3 Map.empty) =
      Inr (fold push_triple (triples kvsss) (replicate 3 Map.empty))"
    unfolding persist_sf_triples using triples_ok [OF ok] len by (intro load_sf_triples) simp_all
  have "fold push_triple (triples kvsss) (replicate 3 Map.empty) = ms"
  proof (rule nth_equalityI)
    fix i assume "i < length (fold push_triple (triples kvsss) (replicate 3 Map.empty))"
    then have i: "i < 3" by simp
    show "fold push_triple (triples kvsss) (replicate 3 Map.empty) ! i = ms ! i"
    proof
      fix k
      have "map_of (kvsss ! i) = ms ! i" using e [OF i] by (simp add: enumerates_def)
      moreover have "(ms ! i) k \<noteq> Some []" using assms(2,3) i nth_mem by fastforce
      ultimately show "(fold push_triple (triples kvsss) (replicate 3 Map.empty) ! i) k = (ms ! i) k"
        using i len d by (simp add: fold_push_triple pushed_triples extend_def split: option.split) blast
    qed
  qed (simp add: assms(2))
  with l show ?thesis by simp
qed

lemma persist_index_Nil: "persist_index kvs = [] \<longleftrightarrow> kvs = []"
  by (cases kvs) (auto simp: db_item_def)


section \<open>The feature maps as a history\<close>

text \<open>The feature \<open>i\<close> of a super feature, and an update of the three feature maps.\<close>

definition feature :: "nat \<Rightarrow> byte list \<Rightarrow> byte list" where
  "feature i sf = bslice sf (i * CHUNK_HASH_SIZE) CHUNK_HASH_SIZE"

type_synonym sf_update = "byte list \<times> byte list \<times> byte"

text \<open>
  The fingerprints a history leaves for a feature: an insertion appends, a replacement (flag 1)
  starts afresh and a deletion (flag 2) drops what was there.
\<close>

definition sf_apply :: "nat \<Rightarrow> byte list \<Rightarrow> sf_update \<Rightarrow> byte list list \<Rightarrow> byte list list" where
  "sf_apply i f u vs = (case u of (sf, fp, flag) \<Rightarrow>
     if feature i sf \<noteq> f then vs
     else if flag = 0 then vs @ [fp]
     else if flag = 1 then [fp]
     else if flag = 2 then []
     else vs)"

definition sf_history :: "sf_update list \<Rightarrow> nat \<Rightarrow> byte list \<Rightarrow> byte list list" where
  "sf_history us i f = fold (sf_apply i f) us []"

definition sf_answer :: "sf_update list \<Rightarrow> byte list \<Rightarrow> byte list option" where
  "sf_answer us sf =
     (case concat (map (\<lambda>i. sf_history us i (feature i sf)) [0, 1, 2]) of [] \<Rightarrow> None | fp # _ \<Rightarrow> Some fp)"

fun run_sf :: "sf_update list \<Rightarrow> InMemoryDatabase \<Rightarrow> InMemoryDatabase res" where
  "run_sf [] db = Inr db"
| "run_sf ((sf, fp, flag) # us) db = res_bind (InsertSF sf fp flag db) (run_sf us)"

definition update_ok :: "sf_update \<Rightarrow> bool" where
  "update_ok u = (case u of (sf, fp, flag) \<Rightarrow> length sf = 3 * CHUNK_HASH_SIZE \<and> length fp = CHUNK_HASH_SIZE)"

definition to_option :: "'a list \<Rightarrow> 'a list option" where
  "to_option vs = (if vs = [] then None else Some vs)"

lemma insert_feature_at:
  assumes "i < length ms" "(ms ! i) f = to_option vs"
  shows "(insert_feature i (feature i sf) fp flag ms ! i) f = to_option (sf_apply i f (sf, fp, flag) vs)"
  using assms
  by (auto simp: insert_feature_def Let_def sf_apply_def to_option_def multi_push_def)

lemma insert_feature_other: "j \<noteq> i \<Longrightarrow> insert_feature i k fp flag ms ! j = ms ! j"
  by (simp add: insert_feature_def Let_def)

lemma insert_feature_length [simp]: "length (insert_feature i k fp flag ms) = length ms"
  by (simp add: insert_feature_def Let_def)

lemma InsertSF_features:
  assumes "update_ok (sf, fp, flag)"
  shows "InsertSF sf fp flag db = Inr (db\<lparr>sfObj :=
     insert_feature 2 (feature 2 sf) fp flag (insert_feature 1 (feature 1 sf) fp flag
       (insert_feature 0 (feature 0 sf) fp flag (sfObj db)))\<rparr>)"
  using assms
  by (simp add: InsertSF_def update_ok_def feature_def buf_read_def CHUNK_HASH_SIZE_def bslice_full)

lemma run_sf_history:
  assumes "\<forall>u \<in> set us. update_ok u" "length (sfObj db) = 3"
    "\<forall>i < 3. \<forall>f. (sfObj db ! i) f = to_option (h i f)"
  shows "returns (run_sf us db) (\<lambda>db'. length (sfObj db') = 3 \<and>
    (\<forall>i < 3. \<forall>f. (sfObj db' ! i) f = to_option (fold (sf_apply i f) us (h i f))))"
  using assms
proof (induction us arbitrary: db h)
  case Nil
  then show ?case by simp
next
  case (Cons u us)
  obtain sf fp flag where u: "u = (sf, fp, flag)" by (cases u)
  let ?db = "db\<lparr>sfObj :=
     insert_feature 2 (feature 2 sf) fp flag (insert_feature 1 (feature 1 sf) fp flag
       (insert_feature 0 (feature 0 sf) fp flag (sfObj db)))\<rparr>"
  have "(sfObj ?db ! i) f = to_option (sf_apply i f u (h i f))" if "i < 3" for i f
  proof -
    have "i = 0 \<or> i = 1 \<or> i = 2" using that by auto
    then show ?thesis using Cons.prems(2,3)
      by (auto simp: u insert_feature_other intro!: insert_feature_at)
  qed
  then show ?case
    using Cons.IH [of ?db "\<lambda>i f. sf_apply i f u (h i f)"] Cons.prems(1,2) InsertSF_features [of sf fp flag db]
    by (simp add: u)
qed

lemma QuerySF_answer:
  assumes "length sf = 3 * CHUNK_HASH_SIZE" "\<forall>i < 3. \<forall>f. (sfObj db ! i) f = to_option (h i f)"
  shows "QuerySF sf db = Inr (case concat (map (\<lambda>i. h i (feature i sf)) [0, 1, 2]) of
     [] \<Rightarrow> None | fp # _ \<Rightarrow> Some fp)"
proof -
  have r: "buf_read sf (CHUNK_HASH_SIZE * i) CHUNK_HASH_SIZE = Inr (feature i sf)" if "i < 3" for i
    using that assms(1) by (simp add: buf_read_def feature_def CHUNK_HASH_SIZE_def mult.commute)
  have q: "query_features (i # is) sf (sfObj db) = (case h i (feature i sf) of
      [] \<Rightarrow> query_features is sf (sfObj db) | fp # _ \<Rightarrow> Inr (Some fp))" if "i < 3" for i "is"
    using that assms(2) by (simp add: r to_option_def split: list.split)
  show ?thesis unfolding QuerySF_def by (simp add: q del: query_features.simps(2) split: list.split)
qed

section \<open>Properties\<close>

text \<open>
  C15: The index survives a restart: opening the two files that the destructor of a database
  with non-empty keys and items below 2 GiB wrote gives back the fingerprint index and the three
  feature maps, whatever order the maps were iterated in.
\<close>

theorem OpenDB_restores:
  assumes "db_persistable db" "enumerates kvs (indexObj db)" "list_all2 enumerates kvsss (sfObj db)"
  shows "OpenDB (persist_index kvs) (persist_sf kvsss) empty_db =
    Inr (empty_db\<lparr>indexObj := indexObj db, sfObj := sfObj db\<rparr>)"
proof -
  have "load_index (persist_index kvs, False) Map.empty = Inr (Map.empty ++ map_of kvs)"
  proof (rule load_persist_index)
    show "\<forall>(k, v) \<in> set kvs. item_ok k \<and> item_ok v \<and> k \<noteq> [] \<and> Map.empty k = None"
    proof (clarify)
      fix k v assume "(k, v) \<in> set kvs"
      then have "indexObj db k = Some v" using assms(2) unfolding enumerates_def by (metis map_of_is_SomeI)
      then show "item_ok k \<and> item_ok v \<and> k \<noteq> [] \<and> Map.empty k = None"
        using assms(1) unfolding db_persistable_def by blast
    qed
  qed (use assms(2) in \<open>simp add: enumerates_def\<close>)
  then have i: "load_index (persist_index kvs, False) Map.empty = Inr (indexObj db)"
    using assms(2) by (simp add: enumerates_def)
  have s: "load_sf (persist_sf kvsss, False) (replicate 4 0) (replicate 3 Map.empty) = Inr (sfObj db)"
    using assms(1,3) unfolding db_persistable_def by (intro load_persist_sf) blast+
  have n: "load_sf ([], False) (replicate 4 0) (replicate 3 Map.empty) = Inr (replicate 3 Map.empty)"
    by (subst load_sf.simps) (simp add: ifs_read_def read_pair_def)
  have "indexObj db = Map.empty" if "kvs = []" using assms(2) that by (simp add: enumerates_def)
  then show ?thesis using i s n
    by (cases "persist_sf kvsss = []") (simp_all add: OpenDB_def empty_db_def persist_index_Nil)
qed

theorem OpenDB_restores_witness:
  "OpenDB (persist_index [([1], [2, 3])]) (persist_sf [[([4], [[5], [6]])], [], []]) empty_db =
    Inr (empty_db\<lparr>indexObj := [[1] \<mapsto> [2, 3]], sfObj := [[[4] \<mapsto> [[5], [6]]], Map.empty, Map.empty]\<rparr>)"
proof -
  let ?db = "empty_db\<lparr>indexObj := [[1] \<mapsto> [2, 3]], sfObj := [[[4] \<mapsto> [[5], [6]]], Map.empty, Map.empty]\<rparr>"
  have "db_persistable ?db" by (auto simp: db_persistable_def item_ok_def split: if_splits)
  from OpenDB_restores [OF this, of "[([1], [2, 3])]" "[[([4], [[5], [6]])], [], []]"] show ?thesis
    by (simp add: enumerates_def)
qed

text \<open>
  C16: A feature query answers from the history: after any insertions, replacements and
  deletions of super features, the query returns the oldest fingerprint that the history leaves
  for the first of the three features that has one, nothing if none has, and it never reads the
  front of an empty list.
\<close>

theorem QuerySF_refines_history:
  assumes "\<forall>u \<in> set us. update_ok u" "length sf = 3 * CHUNK_HASH_SIZE"
  shows "\<exists>db. run_sf us empty_db = Inr db \<and> QuerySF sf db = Inr (sf_answer us sf)"
proof -
  have "\<forall>i < 3. \<forall>f. (sfObj empty_db ! i) f = to_option []"
    by (auto simp: empty_db_def to_option_def)
  then have "returns (run_sf us empty_db) (\<lambda>db. length (sfObj db) = 3 \<and>
      (\<forall>i < 3. \<forall>f. (sfObj db ! i) f = to_option (sf_history us i f)))"
    using run_sf_history [OF assms(1), of empty_db "\<lambda>i f. []"]
    by (simp add: sf_history_def) (simp add: empty_db_def)
  then obtain db where db: "run_sf us empty_db = Inr db"
    "\<forall>i < 3. \<forall>f. (sfObj db ! i) f = to_option (sf_history us i f)" by (auto elim: returnsE)
  then show ?thesis using QuerySF_answer [OF assms(2) db(2)] by (simp add: sf_answer_def)
qed

theorem QuerySF_refines_history_witness:
  "\<exists>db. run_sf [(replicate 96 1, replicate 32 7, 0), (replicate 96 1, replicate 32 8, 0)] empty_db = Inr db \<and>
     QuerySF (replicate 96 1) db = Inr (Some (replicate 32 7))"
  using QuerySF_refines_history
    [of "[(replicate 96 1, replicate 32 7, 0), (replicate 96 1, replicate 32 8, 0)]" "replicate 96 1"]
  by (simp add: update_ok_def CHUNK_HASH_SIZE_def sf_answer_def sf_history_def sf_apply_def feature_def bslice_def)

end
