(* ===== verification/Crypto.thy ===== *)
theory Crypto imports Types begin

text \<open>
  The cryptographic wrapper of the enclave (\<open>ecallUtil/ecallEnc.cc\<close>) and the chunk ivs
  (\<open>ecallClient.h\<close>).  OpenSSL itself is a parameter: a record of what a run of its EVP
  interface returns (the bytes of the update and the final call, or a failure of the
  initialisation or the update).  What the wrapper relies on is the hypothesis \<open>openssl_ok\<close>:
  encryption keeps the length and is undone by decryption, and a digest has its size.
\<close>

section \<open>Algorithms\<close>

datatype ENCRYPT_SET = AES_256_GCM | AES_128_GCM | AES_256_CFB | AES_128_CFB

datatype HASH_SET = SHA_256 | MD5 | SHA_1

text \<open>The cipher objects of OpenSSL the code asks for.\<close>

datatype evp_cipher = EVP_aes_128_cfb | EVP_aes_256_cfb | EVP_aes_128_gcm | EVP_aes_256_gcm
  | EVP_aes_256_cbc

text \<open>Cipher, key, iv, additional data and input of a run; for CBC without padding.\<close>

type_synonym evp_run =
  "evp_cipher \<Rightarrow> byte list \<Rightarrow> byte list \<Rightarrow> byte list \<Rightarrow> byte list \<Rightarrow> byte list option"

record openssl =
  evp_encrypt :: evp_run
  evp_decrypt :: evp_run
  evp_digest :: "HASH_SET \<Rightarrow> byte list \<Rightarrow> byte list option"

definition HASH_TYPE :: HASH_SET where "HASH_TYPE = SHA_256"
definition CIPHER_TYPE :: ENCRYPT_SET where "CIPHER_TYPE = AES_256_GCM"

definition ecall_gcm_aad :: "byte list" where
  "ecall_gcm_aad = [0x4d, 0x23, 0xc3, 0xce, 0xc3, 0x34, 0xb4, 0x9b, 0xdb, 0x37, 0x0c, 0x43,
     0x7f, 0xec, 0x78, 0xde]"

section \<open>The wrapper\<close>

record EcallCrypto =
  cipherType :: ENCRYPT_SET
  hashType :: HASH_SET
  crypto_iv :: "byte list"

definition EcallCrypto_new :: "ENCRYPT_SET \<Rightarrow> HASH_SET \<Rightarrow> EcallCrypto" where
  "EcallCrypto_new c h =
     \<lparr>cipherType = c, hashType = h, crypto_iv = replicate CRYPTO_BLOCK_SIZE 0\<rparr>"

text \<open>The object every component creates.\<close>

definition cryptoObj :: EcallCrypto where
  "cryptoObj = EcallCrypto_new CIPHER_TYPE HASH_TYPE"

fun digest_size :: "HASH_SET \<Rightarrow> nat" where
  "digest_size SHA_1 = 20"
| "digest_size SHA_256 = 32"
| "digest_size MD5 = 16"

definition GenerateHash :: "openssl \<Rightarrow> EcallCrypto \<Rightarrow> byte list \<Rightarrow> byte list res" where
  "GenerateHash ssl c data =
     (case evp_digest ssl (hashType c) data of
        None \<Rightarrow> Inl ExitError
      | Some hash \<Rightarrow>
          if length hash \<noteq> digest_size (hashType c) then Inl ExitError else Inr hash)"

text \<open>The cipher and the additional data the switch over the cipher type sets up.\<close>

fun cipher_setup :: "ENCRYPT_SET \<Rightarrow> evp_cipher \<times> byte list" where
  "cipher_setup AES_128_CFB = (EVP_aes_128_cfb, [])"
| "cipher_setup AES_256_CFB = (EVP_aes_256_cfb, [])"
| "cipher_setup AES_256_GCM = (EVP_aes_256_gcm, ecall_gcm_aad)"
| "cipher_setup AES_128_GCM = (EVP_aes_128_gcm, ecall_gcm_aad)"

text \<open>A run and the check that the output is as long as the input.\<close>

definition run_cipher :: "evp_run \<Rightarrow> evp_cipher \<times> byte list \<Rightarrow> byte list \<Rightarrow> byte list \<Rightarrow> byte list
    \<Rightarrow> byte list res" where
  "run_cipher run setup key iv data =
     (case run (fst setup) key iv (snd setup) data of
        None \<Rightarrow> Inl ExitError
      | Some out \<Rightarrow> if length out \<noteq> length data then Inl ExitError else Inr out)"

definition EncryptWithKey :: "openssl \<Rightarrow> EcallCrypto \<Rightarrow> byte list \<Rightarrow> byte list \<Rightarrow> byte list res" where
  "EncryptWithKey ssl c data key =
     run_cipher (evp_encrypt ssl) (cipher_setup (cipherType c)) key (crypto_iv c) data"

definition DecryptWithKey :: "openssl \<Rightarrow> EcallCrypto \<Rightarrow> byte list \<Rightarrow> byte list \<Rightarrow> byte list res" where
  "DecryptWithKey ssl c data key =
     run_cipher (evp_decrypt ssl) (cipher_setup (cipherType c)) key (crypto_iv c) data"

definition SessionKeyEnc :: "openssl \<Rightarrow> EcallCrypto \<Rightarrow> byte list \<Rightarrow> byte list \<Rightarrow> byte list res" where
  "SessionKeyEnc ssl c data key =
     run_cipher (evp_encrypt ssl) (EVP_aes_128_gcm, ecall_gcm_aad) key (crypto_iv c) data"

definition SessionKeyDec :: "openssl \<Rightarrow> EcallCrypto \<Rightarrow> byte list \<Rightarrow> byte list \<Rightarrow> byte list res" where
  "SessionKeyDec ssl c data key =
     run_cipher (evp_decrypt ssl) (EVP_aes_128_gcm, ecall_gcm_aad) key (crypto_iv c) data"

definition EncryptWithKeyIV ::
    "openssl \<Rightarrow> EcallCrypto \<Rightarrow> byte list \<Rightarrow> byte list \<Rightarrow> byte list \<Rightarrow> byte list res" where
  "EncryptWithKeyIV ssl c data key iv =
     run_cipher (evp_encrypt ssl) (cipher_setup (cipherType c)) key iv data"

definition DecryptionWithKeyIV ::
    "openssl \<Rightarrow> EcallCrypto \<Rightarrow> byte list \<Rightarrow> byte list \<Rightarrow> byte list \<Rightarrow> byte list res" where
  "DecryptionWithKeyIV ssl c data key iv =
     run_cipher (evp_decrypt ssl) (cipher_setup (cipherType c)) key iv data"

definition AESCBCEnc :: "openssl \<Rightarrow> EcallCrypto \<Rightarrow> byte list \<Rightarrow> byte list \<Rightarrow> byte list res" where
  "AESCBCEnc ssl c data key =
     run_cipher (evp_encrypt ssl) (EVP_aes_256_cbc, []) key (crypto_iv c) data"

definition AESCBCDec :: "openssl \<Rightarrow> EcallCrypto \<Rightarrow> byte list \<Rightarrow> byte list \<Rightarrow> byte list res" where
  "AESCBCDec ssl c data key =
     run_cipher (evp_decrypt ssl) (EVP_aes_256_cbc, []) key (crypto_iv c) data"

text \<open>\<open>reverseBytes\<close>, with the two pointers as indices.\<close>

function reverse_loop :: "byte list \<Rightarrow> nat \<Rightarrow> nat \<Rightarrow> byte list" where
  "reverse_loop buf lo hi =
     (if lo < hi then reverse_loop (buf[lo := buf ! hi, hi := buf ! lo]) (Suc lo) (hi - 1) else buf)"
  by pat_completeness auto
termination
  by (relation "measure (\<lambda>(buf, lo, hi). hi - lo)") auto

declare reverse_loop.simps [simp del]

definition reverseBytes :: "byte list \<Rightarrow> byte list" where
  "reverseBytes buf = reverse_loop buf 0 (length buf - 1)"

definition IndexAESCMCEnc :: "openssl \<Rightarrow> EcallCrypto \<Rightarrow> byte list \<Rightarrow> byte list \<Rightarrow> byte list res" where
  "IndexAESCMCEnc ssl c data key =
     res_bind (AESCBCEnc ssl c data key) (\<lambda>tmp. AESCBCEnc ssl c (reverseBytes tmp) key)"

definition IndexAESCMCDec :: "openssl \<Rightarrow> EcallCrypto \<Rightarrow> byte list \<Rightarrow> byte list \<Rightarrow> byte list res" where
  "IndexAESCMCDec ssl c data key =
     res_bind (AESCBCDec ssl c data key) (\<lambda>tmp. AESCBCDec ssl c (reverseBytes tmp) key)"

section \<open>Chunk ivs\<close>

definition Rotl :: "u64 \<Rightarrow> nat \<Rightarrow> u64" where
  "Rotl x k = push_bit k x OR drop_bit (64 - k) x"

definition iv_words :: "byte list \<Rightarrow> u64 \<times> u64" where
  "iv_words iv = (get64 (bslice iv 0 8), get64 (bslice iv 8 8))"

definition iv_bytes :: "u64 \<times> u64 \<Rightarrow> byte list" where
  "iv_bytes w = le64 (fst w) @ le64 (snd w)"

definition GenerateNextIV :: "byte list \<Rightarrow> byte list" where
  "GenerateNextIV iv =
     (let (s0, s1) = iv_words iv;
          s1 = s1 XOR s0
      in iv_bytes (Rotl s0 24 XOR s1 XOR push_bit 16 s1, Rotl s1 37))"

text \<open>\<open>PickNewIV\<close> counts the first word up.\<close>

definition PickNewIV :: "byte list \<Rightarrow> byte list" where
  "PickNewIV iv = (let (s0, s1) = iv_words iv in iv_bytes (s0 + 1, s1))"

section \<open>Correctness\<close>

text \<open>What the wrapper relies on in OpenSSL, for keys and ivs of the sizes it passes.\<close>

definition openssl_ok :: "openssl \<Rightarrow> bool" where
  "openssl_ok ssl \<longleftrightarrow>
     (\<forall>c key iv aad d. length key = 32 \<and> length iv = 16 \<and> (c = EVP_aes_256_cbc \<longrightarrow> 16 dvd length d) \<longrightarrow>
        (\<exists>out. evp_encrypt ssl c key iv aad d = Some out \<and> length out = length d \<and>
           evp_decrypt ssl c key iv aad out = Some d)) \<and>
     (\<forall>h d. \<exists>out. evp_digest ssl h d = Some out \<and> length out = digest_size h)"

lemma openssl_run:
  assumes "openssl_ok ssl" "length key = 32" "length iv = 16"
    "fst setup = EVP_aes_256_cbc \<longrightarrow> 16 dvd length d"
  obtains out where "run_cipher (evp_encrypt ssl) setup key iv d = Inr out" "length out = length d"
    "run_cipher (evp_decrypt ssl) setup key iv out = Inr d"
proof -
  obtain out where "evp_encrypt ssl (fst setup) key iv (snd setup) d = Some out" "length out = length d"
    "evp_decrypt ssl (fst setup) key iv (snd setup) out = Some d"
    using assms unfolding openssl_ok_def by blast
  then show thesis by (intro that [of out]) (simp_all add: run_cipher_def)
qed

lemma crypto_iv_length [simp]: "length (crypto_iv cryptoObj) = 16"
  by (simp add: cryptoObj_def EcallCrypto_new_def CRYPTO_BLOCK_SIZE_def)

lemma hashType_cryptoObj [simp]: "hashType cryptoObj = SHA_256"
  by (simp add: cryptoObj_def EcallCrypto_new_def HASH_TYPE_def)

lemma cipher_setup_stream: "fst (cipher_setup t) \<noteq> EVP_aes_256_cbc"
  by (cases t) simp_all

lemma EncryptWithKeyIV_ok:
  assumes "openssl_ok ssl" "length key = 32" "length iv = 16"
  obtains out where "EncryptWithKeyIV ssl c d key iv = Inr out" "length out = length d"
    "DecryptionWithKeyIV ssl c out key iv = Inr d"
  unfolding EncryptWithKeyIV_def DecryptionWithKeyIV_def
  by (rule openssl_run [OF assms, of "cipher_setup (cipherType c)" d]) (simp_all add: cipher_setup_stream)

lemma EncryptWithKey_ok:
  assumes "openssl_ok ssl" "length key = 32"
  obtains out where "EncryptWithKey ssl cryptoObj d key = Inr out" "length out = length d"
    "DecryptWithKey ssl cryptoObj out key = Inr d"
  unfolding EncryptWithKey_def DecryptWithKey_def
  by (rule openssl_run [OF assms crypto_iv_length, of "cipher_setup (cipherType cryptoObj)" d])
    (simp_all add: cipher_setup_stream)

lemma SessionKeyEnc_ok:
  assumes "openssl_ok ssl" "length key = 32"
  obtains out where "SessionKeyEnc ssl cryptoObj d key = Inr out" "length out = length d"
    "SessionKeyDec ssl cryptoObj out key = Inr d"
  unfolding SessionKeyEnc_def SessionKeyDec_def
  by (rule openssl_run [OF assms crypto_iv_length, of "(EVP_aes_128_gcm, ecall_gcm_aad)" d]) simp_all

lemma AESCBCEnc_ok:
  assumes "openssl_ok ssl" "length key = 32" "16 dvd length d"
  obtains out where "AESCBCEnc ssl cryptoObj d key = Inr out" "length out = length d"
    "AESCBCDec ssl cryptoObj out key = Inr d"
  unfolding AESCBCEnc_def AESCBCDec_def
  by (rule openssl_run [OF assms(1,2) crypto_iv_length, of "(EVP_aes_256_cbc, [])" d]) (simp_all add: assms(3))

lemma GenerateHash_ok:
  assumes "openssl_ok ssl"
  obtains out where "GenerateHash ssl cryptoObj d = Inr out" "length out = CHUNK_HASH_SIZE"
proof -
  obtain out where "evp_digest ssl SHA_256 d = Some out" "length out = 32"
    using assms unfolding openssl_ok_def by (metis digest_size.simps(2))
  then show thesis by (intro that [of out]) (simp_all add: GenerateHash_def CHUNK_HASH_SIZE_def)
qed

text \<open>The in-place reversal is the list reversal.\<close>

lemma reverse_loop_nth:
  "hi < length buf \<Longrightarrow> lo + hi = length buf - 1 \<Longrightarrow>
   length (reverse_loop buf lo hi) = length buf \<and>
   (\<forall>i < length buf. reverse_loop buf lo hi ! i =
      (if lo \<le> i \<and> i \<le> hi then buf ! (length buf - 1 - i) else buf ! i))"
proof (induction buf lo hi rule: reverse_loop.induct)
  case (1 buf lo hi)
  show ?case
  proof (cases "lo < hi")
    case True
    let ?buf = "buf[lo := buf ! hi, hi := buf ! lo]"
    have ih: "length (reverse_loop ?buf (Suc lo) (hi - 1)) = length buf"
      "\<forall>i < length buf. reverse_loop ?buf (Suc lo) (hi - 1) ! i =
         (if Suc lo \<le> i \<and> i \<le> hi - 1 then ?buf ! (length buf - 1 - i) else ?buf ! i)"
      using 1 True by auto
    have n: "length buf - 1 = lo + hi" using 1(3) by simp
    have "reverse_loop ?buf (Suc lo) (hi - 1) ! i =
        (if lo \<le> i \<and> i \<le> hi then buf ! (length buf - 1 - i) else buf ! i)" if i: "i < length buf" for i
    proof -
      consider "Suc lo \<le> i \<and> i \<le> hi - 1" | "i = lo" | "i = hi" | "i < lo \<or> hi < i" by linarith
      then show ?thesis
      proof cases
        case 1
        then have "length buf - 1 - i \<noteq> lo" "length buf - 1 - i \<noteq> hi" using n by auto
        moreover have "i \<le> hi" using 1 True by linarith
        ultimately show ?thesis using 1 ih(2) i by (simp add: nth_list_update_neq)
      qed (use ih(2) i True n 1(2) in \<open>auto simp: nth_list_update\<close>)
    qed
    then show ?thesis using True ih(1) by (subst (1 2) reverse_loop.simps) simp
  next
    case False
    with 1(3) have "i = length buf - 1 - i" if "lo \<le> i" "i \<le> hi" for i using that by linarith
    with False show ?thesis by (subst (1 2) reverse_loop.simps) auto
  qed
qed

lemma reverseBytes_rev: "reverseBytes buf = rev buf"
proof (cases "buf = []")
  case True
  then show ?thesis by (simp add: reverseBytes_def reverse_loop.simps)
next
  case False
  then show ?thesis
    using reverse_loop_nth [of "length buf - 1" buf 0] unfolding reverseBytes_def
    by (intro nth_equalityI) (auto simp: rev_nth)
qed

lemma IndexAESCMCEnc_ok:
  assumes "openssl_ok ssl" "length key = 32" "16 dvd length d"
  obtains out where "IndexAESCMCEnc ssl cryptoObj d key = Inr out" "length out = length d"
    "IndexAESCMCDec ssl cryptoObj out key = Inr d"
proof -
  obtain a where a: "AESCBCEnc ssl cryptoObj d key = Inr a" "length a = length d"
    "AESCBCDec ssl cryptoObj a key = Inr d" by (rule AESCBCEnc_ok [OF assms])
  have "16 dvd length (rev a)" using assms(3) a(2) by simp
  then obtain b where b: "AESCBCEnc ssl cryptoObj (rev a) key = Inr b" "length b = length (rev a)"
    "AESCBCDec ssl cryptoObj b key = Inr (rev a)" by (rule AESCBCEnc_ok [OF assms(1,2)])
  show thesis
    by (rule that [of b]) (use a b in \<open>simp_all add: IndexAESCMCEnc_def IndexAESCMCDec_def reverseBytes_rev\<close>)
qed

section \<open>Ivs\<close>

lemma iv_words_bytes [simp]: "iv_words (iv_bytes w) = w"
  by (simp add: iv_words_def iv_bytes_def bslice_def)

lemma iv_bytes_words: "length iv = 16 \<Longrightarrow> iv_bytes (iv_words iv) = iv"
  using bslice_append [of iv 0 8 8]
  by (simp add: iv_words_def iv_bytes_def le64_get64 bslice_length bslice_full)

lemma iv_bytes_length [simp]: "length (iv_bytes w) = 16"
  by (simp add: iv_bytes_def)

lemma PickNewIV_length [simp]: "length (PickNewIV iv) = 16"
  by (simp add: PickNewIV_def split: prod.split)

lemma PickNewIV_times:
  "iv_words ((PickNewIV ^^ n) iv) = (fst (iv_words iv) + word_of_nat n, snd (iv_words iv))"
  by (induction n) (simp_all add: PickNewIV_def split: prod.split)

end
