(* ===== verification/Crypto_Props.thy ===== *)
theory Crypto_Props imports Crypto begin

text \<open>
  What the enclave relies on in its cryptographic wrapper: the cipher that hides fingerprints
  from the index outside is a bijection, and the ivs of the stored chunks never repeat.
\<close>

section \<open>Ivs\<close>


lemma Rotl_bit:
  assumes "0 < k" "k < 64" "n < 64"
  shows "bit (Rotl x k) ((n + k) mod 64) = bit x n"
proof (cases "n + k < 64")
  case True
  moreover have "\<not> bit x (64 + n)" using bit_imp_le_length [of x "64 + n"] by auto
  ultimately show ?thesis using assms
    by (simp add: Rotl_def bit_simps add.commute)
next
  case False
  then have m: "(n + k) mod 64 = n + k - 64" using assms by (simp add: mod_if)
  have "\<not> k \<le> n + k - 64" using assms by linarith
  then show ?thesis using False assms unfolding m Rotl_def
    by (simp add: bit_simps)
qed

lemma Rotl_inject:
  assumes "0 < k" "k < 64" "Rotl x k = Rotl y k"
  shows "x = y"
proof (rule bit_word_eqI)
  fix n assume "n < LENGTH(64)"
  then show "bit x n = bit y n" using Rotl_bit [OF assms(1,2), of n] assms(3) by simp metis
qed

lemma xor_cancel:
  assumes "a XOR c = b XOR (c :: u64)"
  shows "a = b"
proof -
  have "(a XOR c) XOR c = (b XOR c) XOR c" by (simp only: assms)
  then show ?thesis by (simp only: xor.assoc xor_self_eq xor.right_neutral)
qed

lemma iv_words_inject: "length a = 16 \<Longrightarrow> length b = 16 \<Longrightarrow> iv_words a = iv_words b \<longleftrightarrow> a = b"
  by (metis iv_bytes_words)

lemma GenerateNextIV_inject:
  assumes "length a = 16" "length b = 16" "GenerateNextIV a = GenerateNextIV b"
  shows "a = b"
proof -
  obtain a0 a1 where a: "iv_words a = (a0, a1)" by (rule prod.exhaust)
  obtain b0 b1 where b: "iv_words b = (b0, b1)" by (rule prod.exhaust)
  let ?x = "a1 XOR a0" and ?y = "b1 XOR b0"
  have e: "(Rotl a0 24 XOR ?x XOR push_bit 16 ?x, Rotl ?x 37) = (Rotl b0 24 XOR ?y XOR push_bit 16 ?y, Rotl ?y 37)"
    using assms(3) a b by (metis (no_types, lifting) GenerateNextIV_def case_prod_conv iv_words_bytes)
  then have x: "?x = ?y" using Rotl_inject [of 37 ?x ?y] by simp
  have "Rotl a0 24 XOR (?y XOR push_bit 16 ?y) = Rotl b0 24 XOR (?y XOR push_bit 16 ?y)"
    using e x by (simp only: prod.inject xor.assoc)
  then have r: "Rotl a0 24 = Rotl b0 24" by (rule xor_cancel)
  then have z: "a0 = b0" using Rotl_inject [of 24 a0 b0] by simp
  with x have "a1 = b1" by (simp add: xor_cancel)
  with z a b assms(1,2) show ?thesis by (metis iv_words_inject)
qed

lemma PickNewIV_distinct:
  assumes "length iv = 16" "i < 2 ^ 64" "j < 2 ^ 64" "(PickNewIV ^^ i) iv = (PickNewIV ^^ j) iv"
  shows "i = j"
proof -
  have "(word_of_nat i :: u64) = word_of_nat j"
    using PickNewIV_times [of i iv] PickNewIV_times [of j iv] assms(4) by simp
  then have "unat (word_of_nat i :: u64) = unat (word_of_nat j :: u64)" by simp
  then show ?thesis using assms(2,3) by (simp add: unat_of_nat)
qed


section \<open>A sample OpenSSL\<close>

text \<open>
  An instance of the parameter for the witnesses: ciphers that add the first key byte, digests
  that pad or cut the data.
\<close>

definition sample_ssl :: openssl where
  "sample_ssl = \<lparr>
     evp_encrypt = \<lambda>c key iv aad d. Some (map ((+) (hd key)) d),
     evp_decrypt = \<lambda>c key iv aad d. Some (map (\<lambda>b. b - hd key) d),
     evp_digest = \<lambda>h d. Some (take (digest_size h) (d @ replicate (digest_size h) 0))\<rparr>"

lemma sample_ssl_ok: "openssl_ok sample_ssl"
  by (simp add: openssl_ok_def sample_ssl_def comp_def min_def)

section \<open>Properties\<close>

text \<open>
  C17: The index outside the enclave is addressed faithfully: encrypting a fingerprint with the
  index cipher (CBC, byte reversal, CBC) returns a string of the same length that decrypts to
  the fingerprint, so two fingerprints never share an index key.
\<close>

theorem index_cipher_bijective:
  assumes "openssl_ok ssl" "length key = 32" "length fp = CHUNK_HASH_SIZE" "length fp' = CHUNK_HASH_SIZE"
  shows "\<exists>c c'. IndexAESCMCEnc ssl cryptoObj fp key = Inr c \<and> length c = CHUNK_HASH_SIZE \<and>
    IndexAESCMCDec ssl cryptoObj c key = Inr fp \<and>
    IndexAESCMCEnc ssl cryptoObj fp' key = Inr c' \<and> (c = c' \<longleftrightarrow> fp = fp')"
proof -
  have d: "16 dvd length fp" "16 dvd length fp'" using assms(3,4) by (simp_all add: CHUNK_HASH_SIZE_def)
  obtain c where c: "IndexAESCMCEnc ssl cryptoObj fp key = Inr c" "length c = length fp"
    "IndexAESCMCDec ssl cryptoObj c key = Inr fp" by (rule IndexAESCMCEnc_ok [OF assms(1,2) d(1)])
  obtain c' where c': "IndexAESCMCEnc ssl cryptoObj fp' key = Inr c'"
    "IndexAESCMCDec ssl cryptoObj c' key = Inr fp'" by (rule IndexAESCMCEnc_ok [OF assms(1,2) d(2)])
  have "c = c' \<longleftrightarrow> fp = fp'" using c c' by auto
  then show ?thesis using c c'(1) assms(3) by simp
qed

theorem index_cipher_bijective_witness:
  "\<exists>c c'. IndexAESCMCEnc sample_ssl cryptoObj (replicate 32 1) (replicate 32 9) = Inr c \<and>
     IndexAESCMCEnc sample_ssl cryptoObj (replicate 32 2) (replicate 32 9) = Inr c' \<and> c \<noteq> c'"
  using index_cipher_bijective [OF sample_ssl_ok, of "replicate 32 9" "replicate 32 1" "replicate 32 2"]
  by (auto simp: CHUNK_HASH_SIZE_def replicate_eqI)



end
