(* ===== verification/Features.thy ===== *)
theory Features imports Crypto begin

text \<open>
  The super features of a chunk (\<open>getSF2\<close> and \<open>mt_n_get\<close> in \<open>ecallFreqIndex.cc\<close>) and the
  three threads that compute them for a batch.  A chunk is cut into twelve parts of nearly the
  same size; a part contributes the largest polynomial hash of its windows of 48 bytes; the
  twelve values, sorted by threes, are hashed into three super features.
\<close>

section \<open>The generator of coefficients\<close>

text \<open>The macro \<open>INIT (L, R, OFF)\<close>; the loops that fill an array with it.\<close>

definition INIT :: "u32 \<Rightarrow> u32 \<Rightarrow> u32" where
  "INIT r off = 0x6c078965 * (r XOR drop_bit 30 r) + off"

fun init_from :: "nat \<Rightarrow> nat \<Rightarrow> u32 \<Rightarrow> u32 list" where
  "init_from off 0 r = [r]"
| "init_from off (Suc k) r = r # init_from (Suc off) k (INIT r (word_of_nat (Suc off)))"

text \<open>The loop over \<open>temp\<close> from \<open>i\<close> up to 397.\<close>

function init_skip :: "nat \<Rightarrow> u32 \<Rightarrow> u32" where
  "init_skip i temp = (if i < 397 then init_skip (Suc i) (INIT temp (word_of_nat (Suc i))) else temp)"
  by pat_completeness auto
termination
  by (relation "measure (\<lambda>(i, _). 397 - i)") auto

declare init_skip.simps [simp del]

definition mt_twist :: "u32 \<Rightarrow> u32 \<Rightarrow> u32 \<Rightarrow> u32" where
  "mt_twist hi lo far =
     (let temp = (hi AND 0x80000000) + (lo AND 0x7fffffff);
          h = drop_bit 1 temp XOR far
      in if temp mod 2 \<noteq> 0 then h XOR 0x9908b0df else h)"

fun twist_loop :: "nat \<Rightarrow> nat \<Rightarrow> u32 list \<Rightarrow> u32 list \<Rightarrow> u32 list" where
  "twist_loop i 0 head_arr last_arr = head_arr"
| "twist_loop i (Suc k) head_arr last_arr =
     twist_loop (Suc i) k (head_arr[i := mt_twist (head_arr ! i) (head_arr ! Suc i) (last_arr ! i)]) last_arr"

definition mt_temper :: "u32 \<Rightarrow> u32" where
  "mt_temper y =
     (let y = y XOR drop_bit 11 y;
          y = y XOR (push_bit 7 y AND 2636928640);
          y = y XOR (push_bit 15 y AND 4022730752)
      in y XOR drop_bit 18 y)"

definition mt_n_get :: "u32 \<Rightarrow> nat \<Rightarrow> u32 list" where
  "mt_n_get seed n =
     (let head_arr = init_from 0 n seed;
          last_arr = init_from 397 n (init_skip n (head_arr ! n));
          head_arr = twist_loop 0 n head_arr last_arr
      in map mt_temper (take n head_arr))"

section \<open>Features of a chunk\<close>

definition WINDOW_SIZE :: nat where "WINDOW_SIZE = 48"
definition SF_NUM :: nat where "SF_NUM = 3"
definition FEATURE_NUM :: nat where "FEATURE_NUM = 12"
definition FEATURE_A :: int where "FEATURE_A = 37"
definition FEATURE_MOD :: int where "FEATURE_MOD = 1000000007"

lemmas feature_consts = WINDOW_SIZE_def SF_NUM_def FEATURE_NUM_def FEATURE_A_def FEATURE_MOD_def

definition subchunkIndex :: "nat \<Rightarrow> nat \<Rightarrow> nat" where
  "subchunkIndex chunkSize i = chunkSize * i div FEATURE_NUM"

fun power_loop :: "nat \<Rightarrow> int \<Rightarrow> int" where
  "power_loop 0 Apower = Apower"
| "power_loop (Suc n) Apower = power_loop n (Apower * FEATURE_A mod FEATURE_MOD)"

definition Apower :: int where
  "Apower = power_loop (WINDOW_SIZE - 1) 1"

text \<open>
  The fingerprint is a signed 64-bit variable; every value it takes lies between
  \<open>- FEATURE_MOD\<close> and \<open>38 * FEATURE_MOD\<close>, so it is an integer here.
\<close>

definition fp_push :: "int \<Rightarrow> byte \<Rightarrow> int" where
  "fp_push fp b = (fp * FEATURE_A + uint b) mod FEATURE_MOD"

definition first_window :: "byte list \<Rightarrow> nat \<Rightarrow> int res" where
  "first_window ptr start = res_bind (buf_read ptr start WINDOW_SIZE) (\<lambda>w. Inr (foldl fp_push 0 w))"

function fp_lift :: "int \<Rightarrow> int" where
  "fp_lift fp = (if fp < 0 then fp_lift (fp + FEATURE_MOD) else fp)"
  by pat_completeness auto
termination
  by (relation "measure (\<lambda>fp. nat (- fp))") (auto simp: FEATURE_MOD_def)

declare fp_lift.simps [simp del]

definition read_byte :: "byte list \<Rightarrow> nat \<Rightarrow> byte res" where
  "read_byte ptr i = (if i < length ptr then Inr (ptr ! i) else Inl OutOfBounds)"

definition fp_pull :: "int \<Rightarrow> byte \<Rightarrow> int" where
  "fp_pull fp b = fp_lift (fp - uint b * Apower mod FEATURE_MOD)"

text \<open>The rolling loop over the windows of one part, which ends at \<open>stop\<close>.\<close>

function roll_windows :: "byte list \<Rightarrow> nat \<Rightarrow> nat \<Rightarrow> int \<Rightarrow> int \<Rightarrow> int res" where
  "roll_windows ptr stop j fp feature =
     (if int j < int stop - int WINDOW_SIZE + 1 then
        let feature = (if fp > feature then fp else feature) in
        res_bind (read_byte ptr j) (\<lambda>b.
        let fp = fp_pull fp b in
        if int j \<noteq> int stop - int WINDOW_SIZE
        then res_bind (read_byte ptr (j + WINDOW_SIZE)) (\<lambda>c. roll_windows ptr stop (Suc j) (fp_push fp c) feature)
        else roll_windows ptr stop (Suc j) fp feature)
      else Inr feature)"
  by pat_completeness auto
termination
  by (relation "measure (\<lambda>(_, stop, j, _, _). nat (int stop + 1 - int j))")
    (auto simp: WINDOW_SIZE_def)

declare roll_windows.simps [simp del]

definition part_feature :: "byte list \<Rightarrow> nat \<Rightarrow> nat \<Rightarrow> int res" where
  "part_feature ptr chunkSize i =
     res_bind (first_window ptr (subchunkIndex chunkSize i)) (\<lambda>fp.
       roll_windows ptr (subchunkIndex chunkSize (Suc i)) (subchunkIndex chunkSize i) fp 0)"

fun part_features :: "byte list \<Rightarrow> nat \<Rightarrow> nat list \<Rightarrow> int list res" where
  "part_features ptr chunkSize [] = Inr []"
| "part_features ptr chunkSize (i # is) =
     res_bind (part_feature ptr chunkSize i) (\<lambda>f.
     res_bind (part_features ptr chunkSize is) (\<lambda>fs. Inr (f # fs)))"

text \<open>\<open>std::sort\<close> on each group of \<open>SF_NUM\<close> values.\<close>

definition sort_groups :: "int list \<Rightarrow> int list" where
  "sort_groups feature =
     concat (map (\<lambda>i. sort (take SF_NUM (drop (i * SF_NUM) feature))) [0..<FEATURE_NUM div SF_NUM])"

definition group_bytes :: "int list \<Rightarrow> nat \<Rightarrow> byte list" where
  "group_bytes feature i =
     concat (map (\<lambda>j. le64 (word_of_int (feature ! (j * SF_NUM + i)))) [0..<FEATURE_NUM div SF_NUM])"

fun hash_groups :: "openssl \<Rightarrow> EcallCrypto \<Rightarrow> int list \<Rightarrow> nat list \<Rightarrow> byte list res" where
  "hash_groups ssl c feature [] = Inr []"
| "hash_groups ssl c feature (i # is) =
     res_bind (GenerateHash ssl c (group_bytes feature i)) (\<lambda>h.
     res_bind (hash_groups ssl c feature is) (\<lambda>hs. Inr (h @ hs)))"

text \<open>
  \<open>ptr\<close> is the receive buffer from the chunk to its end.  The coefficients that \<open>mt_n_get\<close>
  yields are stored and never used.
\<close>

definition getSF2 :: "openssl \<Rightarrow> EcallCrypto \<Rightarrow> byte list \<Rightarrow> nat \<Rightarrow> byte list res" where
  "getSF2 ssl c ptr chunkSize =
     res_bind (part_features ptr chunkSize [0..<FEATURE_NUM]) (\<lambda>feature.
       hash_groups ssl c (sort_groups feature) [0..<SF_NUM])"

section \<open>The threads\<close>

record Param =
  pm_ptr :: "byte list"
  pm_SF :: nat
  pm_chunksize :: nat

record GetSFTask =
  task_begin :: nat
  task_end :: nat
  task_thread :: nat

definition thread_num :: nat where "thread_num = 3"

definition sf_task :: "nat \<Rightarrow> nat \<Rightarrow> GetSFTask" where
  "sf_task n i =
     (let block_len = n div thread_num in
      \<lparr>task_begin = block_len * i,
       task_end = (if i = thread_num - 1 \<and> n mod thread_num \<noteq> 0 then n else block_len * (i + 1)),
       task_thread = i\<rparr>)"

definition sf_tasks :: "nat \<Rightarrow> GetSFTask list" where
  "sf_tasks n = map (sf_task n) [0..<thread_num]"


text \<open>The features each thread has written, by query entry, and the next index of each thread.\<close>

record sf_run =
  SFs :: "nat \<Rightarrow> byte list option"
  cursors :: "nat list"

definition sf_start :: "nat \<Rightarrow> sf_run" where
  "sf_start n = \<lparr>SFs = Map.empty, cursors = map task_begin (sf_tasks n)\<rparr>"

text \<open>A round of \<open>GetSF_thread_func_f\<close> in thread \<open>t\<close>; rounds of the threads interleave.\<close>

inductive sf_step :: "openssl \<Rightarrow> EcallCrypto \<Rightarrow> Param list \<Rightarrow> sf_run \<Rightarrow> sf_run \<Rightarrow> bool"
  for ssl c params where
  round: "t < thread_num \<Longrightarrow> i = cursors s ! t \<Longrightarrow> i < task_end (sf_task (length params) t) \<Longrightarrow>
    getSF2 ssl c (pm_ptr (params ! i)) (pm_chunksize (params ! i)) = Inr sf \<Longrightarrow>
    sf_step ssl c params s
      (s\<lparr>SFs := (SFs s)(pm_SF (params ! i) \<mapsto> sf), cursors := (cursors s)[t := Suc i]\<rparr>)"

end
