(* ===== verification/Features_Props.thy ===== *)
theory Features_Props imports Features Crypto_Props begin

text \<open>
  The coefficients of \<open>mt_n_get\<close> are outputs of the Mersenne Twister, the rolling features are
  those of a direct computation, and the threads finish a batch in every interleaving.
\<close>

section \<open>The generator is the Mersenne Twister\<close>

text \<open>The state sequence of MT19937, first by its initialisation, then by its recurrence.\<close>

fun mt_state :: "u32 \<Rightarrow> nat \<Rightarrow> u32" where
  "mt_state seed k =
     (if k = 0 then seed
      else if k < 624 then
        (let x = mt_state seed (k - 1) in 1812433253 * (x XOR drop_bit 30 x) + word_of_nat k)
      else
        (let y = (mt_state seed (k - 624) AND 0x80000000) OR (mt_state seed (k - 623) AND 0x7fffffff)
         in mt_state seed (k - 227) XOR drop_bit 1 y XOR (if odd y then 0x9908b0df else 0)))"

declare mt_state.simps [simp del]

primrec mt_init :: "u32 \<Rightarrow> nat \<Rightarrow> u32" where
  "mt_init seed 0 = seed"
| "mt_init seed (Suc k) = INIT (mt_init seed k) (word_of_nat (Suc k))"

lemma mt_state_init: "k < 624 \<Longrightarrow> mt_state seed k = mt_init seed k"
proof (induction k)
  case 0
  show ?case by (subst mt_state.simps) simp
next
  case (Suc k)
  then show ?case by (subst mt_state.simps) (simp add: INIT_def Let_def)
qed

lemma init_from_nth:
  "length (init_from off k (mt_init seed off)) = Suc k \<and>
   (\<forall>j \<le> k. init_from off k (mt_init seed off) ! j = mt_init seed (off + j))"
proof (induction k arbitrary: off)
  case 0
  show ?case by simp
next
  case (Suc k)
  then show ?case
    using Suc.IH [of "Suc off"] by (auto simp: nth_Cons split: nat.split)
qed

lemma init_skip_init: "i \<le> 397 \<Longrightarrow> init_skip i (mt_init seed i) = mt_init seed 397"
proof (induction i "mt_init seed i" rule: init_skip.induct)
  case (1 i)
  then show ?case by (subst init_skip.simps) (simp add: le_Suc_eq)
qed

lemma split_add_or:
  "((a :: u32) AND 0x80000000) + (b AND 0x7fffffff) = (a AND 0x80000000) OR (b AND 0x7fffffff)"
proof (rule disjunctive_add_eq_or)
  have "(a AND 0x80000000) AND (b AND 0x7fffffff) = (a AND b) AND (0x80000000 AND 0x7fffffff :: u32)"
    by (simp only: and.assoc and.left_commute)
  then show "(a AND 0x80000000) AND (b AND 0x7fffffff) = 0" by simp
qed

lemma mt_twist_or:
  assumes "y = (hi AND 0x80000000) OR (lo AND 0x7fffffff)"
  shows "mt_twist hi lo far = far XOR drop_bit 1 y XOR (if odd y then 0x9908b0df else 0)"
proof -
  have "y mod 2 \<noteq> 0 \<longleftrightarrow> odd y" by (simp add: even_iff_mod_2_eq_zero)
  moreover have "drop_bit 1 y XOR far = far XOR drop_bit 1 y" by (rule xor.commute)
  ultimately show ?thesis
    unfolding mt_twist_def split_add_or assms [symmetric] Let_def
    by (simp only: xor.assoc xor.right_neutral if_distrib [of "(XOR) _"] cong: if_cong)
qed

lemma mt_twist_state:
  "mt_twist (mt_state seed i) (mt_state seed (Suc i)) (mt_state seed (397 + i)) = mt_state seed (624 + i)"
proof -
  have d: "624 + i - 624 = i" "624 + i - 623 = Suc i" "624 + i - 227 = 397 + i" "624 + i \<noteq> 0" "\<not> 624 + i < 624"
    by simp_all
  show ?thesis
    unfolding mt_twist_or [OF refl] mt_state.simps [of seed "624 + i"] Let_def
    by (simp only: d if_False refl)
qed

lemma twist_loop_state:
  assumes "length head_arr = Suc (i + k)" "length last_arr = Suc (i + k)" "i + k \<le> 227"
    "\<forall>j. i \<le> j \<and> j \<le> i + k \<longrightarrow> head_arr ! j = mt_state seed j"
    "\<forall>j < i + k. last_arr ! j = mt_state seed (397 + j)"
  shows "take (i + k) (twist_loop i k head_arr last_arr) =
    take i head_arr @ map (\<lambda>j. mt_state seed (624 + j)) [i..<i + k]"
  using assms
proof (induction k arbitrary: i head_arr)
  case 0
  then show ?case by simp
next
  case (Suc k)
  let ?t = "mt_twist (head_arr ! i) (head_arr ! Suc i) (last_arr ! i)"
  have t: "?t = mt_state seed (624 + i)"
    using Suc.prems(4) Suc.prems(5) mt_twist_state [of seed i] by simp
  have "take (Suc i + k) (twist_loop (Suc i) k (head_arr[i := ?t]) last_arr) =
      take (Suc i) (head_arr[i := ?t]) @ map (\<lambda>j. mt_state seed (624 + j)) [Suc i..<Suc i + k]"
    by (rule Suc.IH) (use Suc.prems in auto)
  moreover have "take (Suc i) (head_arr[i := ?t]) = take i head_arr @ [?t]"
    using Suc.prems(1) by (simp add: take_Suc_conv_app_nth)
  moreover have "[i..<i + Suc k] = i # [Suc i..<Suc i + k]" by (simp add: upt_conv_Cons)
  ultimately show ?case using t by simp
qed

lemma mt_n_get_state:
  assumes "n \<le> 227"
  shows "mt_n_get seed n = map (\<lambda>i. mt_temper (mt_state seed (624 + i))) [0..<n]"
proof -
  let ?h = "init_from 0 n seed" and ?l = "init_from 397 n (mt_init seed 397)"
  have h: "length ?h = Suc n" "\<forall>j \<le> n. ?h ! j = mt_init seed j"
    using init_from_nth [of 0 n seed] by simp_all
  then have k: "init_skip n (?h ! n) = mt_init seed 397"
    using init_skip_init [of n seed] assms by simp
  have l: "length ?l = Suc n" "\<forall>j \<le> n. ?l ! j = mt_init seed (397 + j)"
    using init_from_nth [of 397 n seed] by simp_all
  have "take (0 + n) (twist_loop 0 n ?h ?l) = take 0 ?h @ map (\<lambda>j. mt_state seed (624 + j)) [0..<0 + n]"
    by (rule twist_loop_state) (use assms h l in \<open>auto simp: mt_state_init\<close>)
  then show ?thesis by (simp add: mt_n_get_def Let_def k comp_def)
qed


section \<open>The rolling hash is the hash of each window\<close>

definition horner :: "byte list \<Rightarrow> int" where
  "horner w = foldl (\<lambda>h b. h * FEATURE_A + uint b) 0 w"

definition window_hash :: "byte list \<Rightarrow> int" where
  "window_hash w = horner w mod FEATURE_MOD"

definition windows :: "byte list \<Rightarrow> byte list list" where
  "windows p = map (\<lambda>j. bslice p j WINDOW_SIZE) [0..<Suc (length p) - WINDOW_SIZE]"

definition largest_hash :: "byte list \<Rightarrow> int" where
  "largest_hash p = fold max (map window_hash (windows p)) 0"

definition part :: "byte list \<Rightarrow> nat \<Rightarrow> byte list" where
  "part chunk i = bslice chunk (subchunkIndex (length chunk) i)
     (subchunkIndex (length chunk) (Suc i) - subchunkIndex (length chunk) i)"

definition super_features :: "openssl \<Rightarrow> EcallCrypto \<Rightarrow> byte list \<Rightarrow> byte list res" where
  "super_features ssl c chunk =
     hash_groups ssl c (sort_groups (map (\<lambda>i. largest_hash (part chunk i)) [0..<FEATURE_NUM])) [0..<SF_NUM]"

lemma mod_pos [simp]: "0 < FEATURE_MOD"
  by (simp add: FEATURE_MOD_def)

lemma fp_push_mod: "fp_push (h mod FEATURE_MOD) b = (h * FEATURE_A + uint b) mod FEATURE_MOD"
  unfolding fp_push_def by (metis mod_add_left_eq mod_mult_left_eq)

lemma foldl_fp_push: "foldl fp_push (h mod FEATURE_MOD) w = foldl (\<lambda>h b. h * FEATURE_A + uint b) h w mod FEATURE_MOD"
proof (induction w arbitrary: h)
  case Nil
  show ?case by simp
next
  case (Cons b w)
  show ?case using Cons [of "h * FEATURE_A + uint b"] by (simp add: fp_push_mod)
qed

lemma first_window_hash:
  "start + WINDOW_SIZE \<le> length ptr \<Longrightarrow> first_window ptr start = Inr (window_hash (bslice ptr start WINDOW_SIZE))"
  using foldl_fp_push [of 0] by (simp add: first_window_def buf_read_def window_hash_def horner_def)

lemma horner_snoc: "horner (w @ [b]) = horner w * FEATURE_A + uint b"
  by (simp add: horner_def)

lemma horner_Cons: "horner (b # w) = uint b * FEATURE_A ^ length w + horner w"
proof -
  have "foldl (\<lambda>h b. h * FEATURE_A + uint b) h w = h * FEATURE_A ^ length w + foldl (\<lambda>h b. h * FEATURE_A + uint b) 0 w" for h
  proof (induction w rule: rev_induct)
    case Nil
    show ?case by simp
  next
    case (snoc b w)
    then show ?case by (simp add: algebra_simps)
  qed
  from this [of "uint b"] show ?thesis by (simp add: horner_def)
qed

lemma power_loop_mod: "power_loop n (a mod FEATURE_MOD) = a * FEATURE_A ^ n mod FEATURE_MOD"
proof (induction n arbitrary: a)
  case 0
  show ?case by simp
next
  case (Suc n)
  have "power_loop (Suc n) (a mod FEATURE_MOD) = power_loop n ((a * FEATURE_A) mod FEATURE_MOD)"
    by (simp add: mod_mult_left_eq)
  also have "\<dots> = (a * FEATURE_A) * FEATURE_A ^ n mod FEATURE_MOD" by (rule Suc.IH)
  finally show ?case by (simp add: mult.assoc)
qed

lemma Apower_mod: "Apower = FEATURE_A ^ (WINDOW_SIZE - 1) mod FEATURE_MOD"
  using power_loop_mod [of "WINDOW_SIZE - 1" 1] by (simp add: Apower_def FEATURE_MOD_def)

lemma fp_lift_mod: "- FEATURE_MOD \<le> x \<Longrightarrow> x < FEATURE_MOD \<Longrightarrow> fp_lift x = x mod FEATURE_MOD"
proof (cases "x < 0")
  case True
  assume x: "- FEATURE_MOD \<le> x" "x < FEATURE_MOD"
  have "fp_lift x = fp_lift (x + FEATURE_MOD)" using True by (subst fp_lift.simps) simp
  also have "\<dots> = x + FEATURE_MOD" using x by (subst fp_lift.simps) simp
  also have "\<dots> = (x + FEATURE_MOD) mod FEATURE_MOD"
    by (rule mod_pos_pos_trivial [symmetric]) (use x True in linarith)+
  finally show ?thesis by simp
qed (subst fp_lift.simps, simp)

lemma fp_pull_hash:
  assumes "length w = WINDOW_SIZE - 1"
  shows "fp_pull (window_hash (b # w)) b = horner w mod FEATURE_MOD"
proof -
  let ?p = "uint b * FEATURE_A ^ (WINDOW_SIZE - 1)"
  have a: "uint b * Apower mod FEATURE_MOD = ?p mod FEATURE_MOD"
    by (simp add: Apower_mod mod_mult_right_eq)
  have r: "0 \<le> x mod FEATURE_MOD" "x mod FEATURE_MOD < FEATURE_MOD" for x by simp_all
  have "fp_pull (window_hash (b # w)) b = fp_lift ((?p + horner w) mod FEATURE_MOD - ?p mod FEATURE_MOD)"
    by (simp add: fp_pull_def a window_hash_def horner_Cons assms)
  also have "\<dots> = ((?p + horner w) mod FEATURE_MOD - ?p mod FEATURE_MOD) mod FEATURE_MOD"
    using r [of "?p + horner w"] r [of ?p] by (intro fp_lift_mod) linarith+
  finally show ?thesis by (simp add: mod_diff_eq)
qed

lemma bslice_Suc: "off + n < length p \<Longrightarrow> bslice p off (Suc n) = bslice p off n @ [p ! (off + n)]"
  by (simp add: bslice_def take_Suc_conv_app_nth)

lemma bslice_bslice: "i + w \<le> n \<Longrightarrow> bslice (bslice p a n) i w = bslice p (a + i) w"
  by (simp add: bslice_def drop_take add.commute)

lemma windows_bslice:
  assumes "a + WINDOW_SIZE \<le> b" "b \<le> length p"
  shows "windows (bslice p a (b - a)) = map (\<lambda>j. bslice p j WINDOW_SIZE) [a..<Suc b - WINDOW_SIZE]"
proof -
  have l: "length (bslice p a (b - a)) = b - a" using assms by (simp add: bslice_length)
  have u: "[a..<Suc b - WINDOW_SIZE] = map (\<lambda>j. a + j) [0..<Suc (b - a) - WINDOW_SIZE]"
    using assms(1) map_add_upt [of a "Suc (b - a) - WINDOW_SIZE"] by (simp add: add.commute)
  show ?thesis
    unfolding windows_def l u by (auto simp: bslice_bslice)
qed

lemma roll_windows_largest:
  assumes "stop \<le> length ptr" "j + WINDOW_SIZE \<le> stop" "fp = window_hash (bslice ptr j WINDOW_SIZE)"
  shows "roll_windows ptr stop j fp feature =
    Inr (fold max (map (\<lambda>j. window_hash (bslice ptr j WINDOW_SIZE)) [j..<Suc stop - WINDOW_SIZE]) feature)"
  using assms
proof (induction "stop - j" arbitrary: j fp feature rule: less_induct)
  case less
  let ?h = "\<lambda>j. window_hash (bslice ptr j WINDOW_SIZE)"
  have j: "j < stop" using less.prems(2) by (simp add: WINDOW_SIZE_def)
  let ?w = "bslice ptr (Suc j) (WINDOW_SIZE - 1)"
  have w: "bslice ptr j WINDOW_SIZE = ptr ! j # ?w" "length ?w = WINDOW_SIZE - 1"
    using less.prems(1,2) by (simp_all add: bslice_def WINDOW_SIZE_def Cons_nth_drop_Suc [symmetric])
  have p: "fp_pull fp (ptr ! j) = horner ?w mod FEATURE_MOD"
    using fp_pull_hash [OF w(2)] less.prems(3) w(1) by simp
  have m: "(if fp > feature then fp else feature) = max (?h j) feature" using less.prems(3) by simp
  show ?case
  proof (cases "j + WINDOW_SIZE = stop")
    case True
    have s: "roll_windows ptr stop (Suc j) x y = Inr y" for x y
      using True by (subst roll_windows.simps) simp
    have "Suc stop - WINDOW_SIZE = Suc j" using True by simp
    then have "[j..<Suc stop - WINDOW_SIZE] = [j]" by simp
    then show ?thesis
      unfolding roll_windows.simps [of ptr stop j] m using True less.prems(1) j s
      by (simp add: read_byte_def Let_def)
  next
    case False
    let ?c = "ptr ! (j + WINDOW_SIZE)"
    have c: "bslice ptr (Suc j) WINDOW_SIZE = ?w @ [?c]"
      using less.prems(1,2) False bslice_Suc [of "Suc j" "WINDOW_SIZE - 1" ptr]
      by (simp add: WINDOW_SIZE_def add.commute)
    have "fp_push (horner ?w mod FEATURE_MOD) ?c = ?h (Suc j)"
      unfolding c by (simp add: fp_push_mod window_hash_def horner_snoc)
    moreover have "[j..<Suc stop - WINDOW_SIZE] = j # [Suc j..<Suc stop - WINDOW_SIZE]"
      using less.prems(2) False by (intro upt_conv_Cons) simp
    moreover have "roll_windows ptr stop (Suc j) (?h (Suc j)) (max (?h j) feature) =
        Inr (fold max (map ?h [Suc j..<Suc stop - WINDOW_SIZE]) (max (?h j) feature))"
      using less.prems False j by (intro less.hyps) simp_all
    ultimately show ?thesis
      unfolding roll_windows.simps [of ptr stop j] m using less.prems(1,2) False j
      by (simp add: read_byte_def Let_def p)
  qed
qed

lemma part_feature_largest:
  assumes "chunkSize \<le> length ptr" "subchunkIndex chunkSize i + WINDOW_SIZE \<le> length ptr" "i < FEATURE_NUM"
  shows "part_feature ptr chunkSize i = Inr (largest_hash (part (take chunkSize ptr) i))"
proof -
  let ?a = "subchunkIndex chunkSize i" and ?b = "subchunkIndex chunkSize (Suc i)"
  have "chunkSize * Suc i div FEATURE_NUM \<le> chunkSize * FEATURE_NUM div FEATURE_NUM"
    using assms(3) by (intro div_le_mono mult_le_mono2) simp
  then have le: "?a \<le> ?b" "?b \<le> chunkSize"
    by (auto simp: subchunkIndex_def FEATURE_NUM_def intro!: div_le_mono)
  have p: "part (take chunkSize ptr) i = bslice ptr ?a (?b - ?a)"
    using assms(1) le by (simp add: part_def bslice_take min_absorb2)
  have f: "first_window ptr ?a = Inr (window_hash (bslice ptr ?a WINDOW_SIZE))"
    using assms(2) by (rule first_window_hash)
  have l: "length (bslice ptr ?a (?b - ?a)) = ?b - ?a" using le assms(1) by (simp add: bslice_length)
  show ?thesis
  proof (cases "?a + WINDOW_SIZE \<le> ?b")
    case True
    have "windows (bslice ptr ?a (?b - ?a)) = map (\<lambda>j. bslice ptr j WINDOW_SIZE) [?a..<Suc ?b - WINDOW_SIZE]"
      using True le assms(1) by (intro windows_bslice) simp_all
    then show ?thesis
      using roll_windows_largest [of ?b ptr ?a _ 0] True le assms(1)
      by (simp add: part_feature_def f p largest_hash_def comp_def)
  next
    case False
    then have "windows (bslice ptr ?a (?b - ?a)) = []" using l le(1) by (simp add: windows_def)
    moreover have "roll_windows ptr ?b ?a x 0 = Inr 0" for x
      using False by (subst roll_windows.simps) simp
    ultimately show ?thesis by (simp add: part_feature_def f p largest_hash_def)
  qed
qed

lemma part_features_largest:
  assumes "chunkSize \<le> length ptr" "\<forall>i \<in> set is. i < FEATURE_NUM \<and> subchunkIndex chunkSize i + WINDOW_SIZE \<le> length ptr"
  shows "part_features ptr chunkSize is = Inr (map (\<lambda>i. largest_hash (part (take chunkSize ptr) i)) is)"
  using assms(2)
proof (induction "is")
  case Nil
  show ?case by simp
next
  case (Cons i "is")
  then show ?case using part_feature_largest [OF assms(1), of i] by simp
qed

lemma getSF2_super_features:
  assumes "chunkSize \<le> length ptr" "chunkSize * 11 div 12 + WINDOW_SIZE \<le> length ptr"
  shows "getSF2 ssl c ptr chunkSize = super_features ssl c (take chunkSize ptr)"
proof -
  have "subchunkIndex chunkSize i \<le> chunkSize * 11 div 12" if "i < FEATURE_NUM" for i
    using that unfolding subchunkIndex_def FEATURE_NUM_def by (intro div_le_mono) simp
  then have "\<forall>i \<in> set [0..<FEATURE_NUM]. i < FEATURE_NUM \<and> subchunkIndex chunkSize i + WINDOW_SIZE \<le> length ptr"
    using assms(2) by fastforce
  from part_features_largest [OF assms(1) this] show ?thesis
    by (simp add: getSF2_def super_features_def)
qed


lemma hash_groups_ok:
  assumes "openssl_ok ssl"
  obtains hs where "hash_groups ssl cryptoObj feature is = Inr hs" "length hs = length is * CHUNK_HASH_SIZE"
proof (induction "is" arbitrary: thesis)
  case Nil
  then show ?case by simp
next
  case (Cons i "is")
  obtain hs where hs: "hash_groups ssl cryptoObj feature is = Inr hs" "length hs = length is * CHUNK_HASH_SIZE"
    by (rule Cons.IH)
  obtain h where h: "GenerateHash ssl cryptoObj (group_bytes feature i) = Inr h" "length h = CHUNK_HASH_SIZE"
    by (rule GenerateHash_ok [OF assms])
  show ?case by (rule Cons.prems [of "h @ hs"]) (use hs h in simp_all)
qed

lemma super_features_ok:
  assumes "openssl_ok ssl"
  obtains sf where "super_features ssl cryptoObj chunk = Inr sf" "length sf = 3 * CHUNK_HASH_SIZE"
  by (rule hash_groups_ok [OF assms, of _ "[0..<SF_NUM]"]) (simp add: super_features_def SF_NUM_def)

section \<open>The threads share out the batch\<close>

lemma sf_task_simps [simp]:
  "task_begin (sf_task n t) = n div 3 * t"
  "task_end (sf_task n 0) = n div 3"
  "task_end (sf_task n (Suc 0)) = n div 3 * 2"
  "task_end (sf_task n 2) = n"
proof -
  have "n mod 3 = 0 \<Longrightarrow> n div 3 * 3 = n" by (metis add.right_neutral div_mult_mod_eq)
  then show "task_end (sf_task n 2) = n" by (simp add: sf_task_def thread_num_def Let_def)
qed (simp_all add: sf_task_def thread_num_def Let_def)

lemma less_threads: "t < thread_num \<longleftrightarrow> t = 0 \<or> t = Suc 0 \<or> t = 2"
  by (auto simp: thread_num_def)

text \<open>The indices a run has worked off.\<close>

definition worked :: "nat \<Rightarrow> sf_run \<Rightarrow> nat set" where
  "worked n s = (\<Union>t < thread_num. {task_begin (sf_task n t)..<cursors s ! t})"

definition sf_inv :: "Param list \<Rightarrow> (Param \<Rightarrow> byte list) \<Rightarrow> nat \<Rightarrow> sf_run \<Rightarrow> bool" where
  "sf_inv params f k s \<longleftrightarrow> length (cursors s) = thread_num \<and>
     (\<forall>t < thread_num. task_begin (sf_task (length params) t) \<le> cursors s ! t \<and>
        cursors s ! t \<le> task_end (sf_task (length params) t)) \<and>
     cursors s ! 0 + cursors s ! 1 + cursors s ! 2 = k + length params div 3 * 3 \<and>
     (\<forall>key sf. SFs s key = Some sf \<longleftrightarrow> (\<exists>i \<in> worked (length params) s. pm_SF (params ! i) = key \<and> f (params ! i) = sf))"

lemma worked_thirds:
  "worked n s = {0..<cursors s ! 0} \<union> {n div 3..<cursors s ! 1} \<union> {n div 3 * 2..<cursors s ! 2}"
proof -
  have "{..<thread_num} = {0, Suc 0, 2}" by (auto simp: thread_num_def)
  then show ?thesis by (simp add: worked_def Un_assoc)
qed

lemma cursors_start: "cursors (sf_start n) = [0, n div 3, n div 3 * 2]"
proof -
  have "[0..<thread_num] = [0, Suc 0, 2]" by (simp add: thread_num_def upt_rec)
  then show ?thesis by (simp add: sf_start_def sf_tasks_def)
qed

lemma third_bounds: "n div 3 * 2 \<le> (n :: nat)" "n div 3 \<le> n div 3 * 2"
  by simp_all

lemma sf_inv_start: "sf_inv params f 0 (sf_start (length params))"
proof -
  have "worked n (sf_start n) = {}" for n by (simp add: worked_thirds cursors_start)
  moreover have "\<forall>key sf. SFs (sf_start n) key \<noteq> Some sf" for n by (simp add: sf_start_def)
  moreover have "length (cursors (sf_start n)) = thread_num" for n by (simp add: cursors_start thread_num_def)
  moreover have "\<forall>t < thread_num. task_begin (sf_task n t) \<le> cursors (sf_start n) ! t \<and>
      cursors (sf_start n) ! t \<le> task_end (sf_task n t)" for n
    by (simp add: less_threads cursors_start)
  ultimately show ?thesis by (simp add: sf_inv_def) (simp add: cursors_start)
qed

lemma sf_inv_step:
  assumes "sf_inv params f k s" "sf_step ssl c params s s'" "distinct (map pm_SF params)"
    "\<forall>p \<in> set params. getSF2 ssl c (pm_ptr p) (pm_chunksize p) = Inr (f p)"
  shows "sf_inv params f (Suc k) s'"
  using assms(2)
proof cases
  case (round t i sf)
  let ?n = "length params"
  have i: "i < ?n" using round(2,4) third_bounds [of ?n] by (auto simp: less_threads)
  have sf: "sf = f (params ! i)" using round(5) assms(4) i by simp
  have len: "length (cursors s) = 3" using assms(1) by (simp add: sf_inv_def thread_num_def)
  have b: "cursors s ! 0 \<le> ?n div 3" "?n div 3 \<le> cursors s ! 1" "cursors s ! 1 \<le> ?n div 3 * 2"
    "?n div 3 * 2 \<le> cursors s ! 2" "cursors s ! 2 \<le> ?n"
    "cursors s ! 0 + cursors s ! 1 + cursors s ! 2 = k + ?n div 3 * 3"
    using assms(1) by (simp_all add: sf_inv_def less_threads)
  have w: "worked ?n s' = insert i (worked ?n s)"
    using round(2,3,4) b len by (auto simp: round(1) worked_thirds less_threads)
  have wn: "worked ?n s \<subseteq> {0..<?n}" using b by (auto simp: worked_thirds)
  have S: "\<forall>key sf. SFs s key = Some sf \<longleftrightarrow> (\<exists>i \<in> worked ?n s. pm_SF (params ! i) = key \<and> f (params ! i) = sf)"
    using assms(1) by (simp add: sf_inv_def)
  have d: "j = i" if "j \<in> worked ?n s" "pm_SF (params ! j) = pm_SF (params ! i)" for j
  proof -
    have "j < ?n" using that(1) wn by auto
    then show ?thesis using nth_eq_iff_index_eq [OF assms(3), of j i] i that(2) by simp
  qed
  have "SFs s' key = Some sf' \<longleftrightarrow> (\<exists>i \<in> worked ?n s'. pm_SF (params ! i) = key \<and> f (params ! i) = sf')" for key sf'
    unfolding w using S d by (auto simp: round(1) sf)
  moreover have "\<forall>t < thread_num. task_begin (sf_task ?n t) \<le> cursors s' ! t \<and> cursors s' ! t \<le> task_end (sf_task ?n t)"
    using round(2,3,4) b len by (auto simp: round(1) less_threads)
  moreover have "cursors s' ! 0 + cursors s' ! 1 + cursors s' ! 2 = Suc k + ?n div 3 * 3"
    using round(2,3) b(6) len by (auto simp: round(1) less_threads)
  ultimately show ?thesis using len by (simp add: sf_inv_def round(1) thread_num_def)
qed

lemma sf_inv_run:
  assumes "(sf_step ssl c params ^^ k) (sf_start (length params)) s" "distinct (map pm_SF params)"
    "\<forall>p \<in> set params. getSF2 ssl c (pm_ptr p) (pm_chunksize p) = Inr (f p)"
  shows "sf_inv params f k s"
  using assms(1)
proof (induction k arbitrary: s)
  case 0
  then have "s = sf_start (length params)" by simp
  then show ?case by (simp only: sf_inv_start)
next
  case (Suc k)
  from Suc.prems obtain s1 where "(sf_step ssl c params ^^ k) (sf_start (length params)) s1" "sf_step ssl c params s1 s"
    by (rule relpowp_Suc_E)
  with Suc.IH sf_inv_step [OF _ _ assms(2,3)] show ?case by blast
qed

lemma sf_inv_progress:
  assumes "sf_inv params f k s" "\<forall>p \<in> set params. getSF2 ssl c (pm_ptr p) (pm_chunksize p) = Inr (f p)"
  shows "k \<le> length params" and "(\<nexists>s'. sf_step ssl c params s s') \<longleftrightarrow> k = length params"
    and "k = length params \<Longrightarrow> worked (length params) s = {0..<length params}"
proof -
  let ?n = "length params"
  have b: "cursors s ! 0 \<le> ?n div 3" "?n div 3 \<le> cursors s ! 1" "cursors s ! 1 \<le> ?n div 3 * 2"
    "?n div 3 * 2 \<le> cursors s ! 2" "cursors s ! 2 \<le> ?n"
    "cursors s ! 0 + cursors s ! 1 + cursors s ! 2 = k + ?n div 3 * 3"
    using assms(1) by (simp_all add: sf_inv_def less_threads)
  then show "k \<le> ?n" by linarith
  have e: "k = ?n \<longleftrightarrow> (\<forall>t < thread_num. cursors s ! t = task_end (sf_task ?n t))"
  proof -
    have "(\<forall>t < thread_num. cursors s ! t = task_end (sf_task ?n t)) \<longleftrightarrow>
        cursors s ! 0 = ?n div 3 \<and> cursors s ! 1 = ?n div 3 * 2 \<and> cursors s ! 2 = ?n"
      by (auto simp: less_threads)
    moreover have "k = ?n \<longleftrightarrow> cursors s ! 0 = ?n div 3 \<and> cursors s ! 1 = ?n div 3 * 2 \<and> cursors s ! 2 = ?n"
      using b by (intro iffI conjI; (elim conjE)?; linarith)
    ultimately show ?thesis by simp
  qed
  show "(\<nexists>s'. sf_step ssl c params s s') \<longleftrightarrow> k = ?n"
  proof
    assume n: "\<nexists>s'. sf_step ssl c params s s'"
    have "cursors s ! t = task_end (sf_task ?n t)" if t: "t < thread_num" for t
    proof (rule ccontr)
      assume "cursors s ! t \<noteq> task_end (sf_task ?n t)"
      then have l: "cursors s ! t < task_end (sf_task ?n t)" using t b by (auto simp: less_threads)
      then have "cursors s ! t < ?n" using t third_bounds [of ?n] by (auto simp: less_threads)
      then have "getSF2 ssl c (pm_ptr (params ! (cursors s ! t))) (pm_chunksize (params ! (cursors s ! t))) =
          Inr (f (params ! (cursors s ! t)))" using assms(2) by simp
      from sf_step.round [OF t refl l this] n show False by blast
    qed
    then show "k = ?n" using e by blast
  next
    assume "k = ?n"
    then have "\<forall>t < thread_num. cursors s ! t = task_end (sf_task ?n t)" using e by blast
    then show "\<nexists>s'. sf_step ssl c params s s'" by (auto elim!: sf_step.cases)
  qed
  assume "k = ?n"
  then have c: "\<forall>t < thread_num. cursors s ! t = task_end (sf_task ?n t)" using e by blast
  show "worked ?n s = {0..<?n}"
    using c ivl_disj_un_two(3) [of 0 "?n div 3" "?n div 3 * 2"] ivl_disj_un_two(3) [of 0 "?n div 3 * 2" ?n]
    by (simp add: worked_thirds less_threads third_bounds)
qed

section \<open>Properties\<close>



text \<open>
  C20: The rolling computation of super features is the direct one: if the buffer holds the
  chunk and 48 bytes from the start of its last twelfth, the code reads inside the buffer and
  returns the hashes of the sorted maxima of the window hashes of the twelve parts, which depend
  on the bytes of the chunk alone, also where a part is shorter than a window.
\<close>

theorem getSF2_is_direct:
  assumes "chunkSize \<le> length ptr" "chunkSize * 11 div 12 + WINDOW_SIZE \<le> length ptr"
  shows "getSF2 ssl c ptr chunkSize = super_features ssl c (take chunkSize ptr)"
  by (rule getSF2_super_features [OF assms])

theorem getSF2_is_direct_witness:
  "\<forall>ssl c. getSF2 ssl c (replicate 600 7) 500 = super_features ssl c (replicate 500 7)"
  using getSF2_is_direct [of 500 "replicate 600 7"] by (simp add: WINDOW_SIZE_def min_def)

text \<open>
  C21: The three threads finish the batch however they interleave: a run from the start never
  takes more rounds than there are chunks, can go on exactly while rounds are left, and when no
  round is left every chunk has its own super features and nothing else was written.
\<close>

theorem sf_threads_complete:
  assumes "(sf_step ssl c params ^^ k) (sf_start (length params)) s" "distinct (map pm_SF params)"
    "\<forall>p \<in> set params. getSF2 ssl c (pm_ptr p) (pm_chunksize p) = Inr (f p)"
  shows "k \<le> length params \<and> ((\<nexists>s'. sf_step ssl c params s s') \<longleftrightarrow> k = length params) \<and>
    (k = length params \<longrightarrow>
      (\<forall>key sf. SFs s key = Some sf \<longleftrightarrow> (\<exists>p \<in> set params. pm_SF p = key \<and> f p = sf)))"
proof -
  note i = sf_inv_run [OF assms]
  note p = sf_inv_progress [OF i assms(3)]
  have "SFs s key = Some sf \<longleftrightarrow> (\<exists>p \<in> set params. pm_SF p = key \<and> f p = sf)" if "k = length params" for key sf
  proof -
    have "SFs s key = Some sf \<longleftrightarrow> (\<exists>j \<in> {0..<length params}. pm_SF (params ! j) = key \<and> f (params ! j) = sf)"
      using i unfolding sf_inv_def p(3) [OF that] by blast
    moreover have "set params = (!) params ` {0..<length params}" by (auto simp: set_conv_nth)
    ultimately show ?thesis by simp
  qed
  with p(1,2) show ?thesis by blast
qed

theorem sf_threads_complete_witness:
  "\<exists>s. sf_step sample_ssl cryptoObj [\<lparr>pm_ptr = replicate 600 7, pm_SF = 0, pm_chunksize = 500\<rparr>] (sf_start 1) s"
proof -
  let ?p = "\<lparr>pm_ptr = replicate 600 7, pm_SF = 0, pm_chunksize = 500\<rparr>"
  have "getSF2 sample_ssl cryptoObj (replicate 600 7) 500 = super_features sample_ssl cryptoObj (replicate 500 7)"
    using getSF2_super_features [of 500 "replicate 600 7"] by (simp add: WINDOW_SIZE_def min_def)
  moreover obtain sf where "super_features sample_ssl cryptoObj (replicate 500 7) = Inr sf"
    by (rule super_features_ok [OF sample_ssl_ok])
  ultimately have "\<forall>p \<in> set [?p]. getSF2 sample_ssl cryptoObj (pm_ptr p) (pm_chunksize p) = Inr sf" by simp
  from sf_threads_complete [of 0 sample_ssl cryptoObj "[?p]" "sf_start 1", OF _ _ this] show ?thesis by simp
qed

end
