(* ===== verification/Restore.thy ===== *)
theory Restore imports Crypto Database ContainerCache Edelta begin

text \<open>
  The restore path: \<open>ecallStore/ecallRecvDecoder.cc\<close> in the enclave, the OCALLs it makes
  (\<open>ocallSrc/storeOCall.cc\<close>) and the loop over the recipe file
  (\<open>Server/enclaveRecvDecoder.cc\<close>).  A file recipe is an encrypted list of fingerprints.  The
  enclave looks their chunks up, collects the containers it needs until there are enough of
  them, has them fetched, and decrypts, decompresses and delta-decodes the chunks into messages
  for the client.
\<close>

section \<open>State\<close>

text \<open>
  LZ4 is a parameter: the result of compressing into a buffer of a given size, \<open>None\<close> where the
  library returns 0, and of decompressing, \<open>None\<close> where it returns 0 or an error.
\<close>

record lz4 =
  LZ4_compress_fast :: "byte list \<Rightarrow> nat \<Rightarrow> byte list option"
  LZ4_decompress_safe :: "byte list \<Rightarrow> nat \<Rightarrow> byte list option"

text \<open>What does not change during a restore: libraries, index, files, keys and batch sizes.\<close>

record restore_env =
  env_ssl :: openssl
  env_lz4 :: lz4
  env_db :: InMemoryDatabase
  env_files :: "bool \<times> byte list \<Rightarrow> byte list option"
  enclaveKey :: "byte list"
  indexQueryKey :: "byte list"
  masterKey :: "byte list"
  sessionKey :: "byte list"
  sendChunkBatchSize :: nat
  sendRecipeBatchSize :: nat

text \<open>\<open>EnclaveRecipeEntry_t\<close>; its copy of the base fingerprint is never read and left out.\<close>

record EnclaveRecipeEntry_t =
  er_containerID :: nat
  er_offset :: nat
  er_length :: nat
  er_deltaFlag :: byte

datatype messageType = SERVER_RESTORE_CHUNK | SERVER_RESTORE_FINAL

text \<open>
  The buffers of a restoring client: the requested containers, the queue of base fingerprints
  with the addresses found for them, the recipes of the chunks that wait for their containers,
  the message under construction, and the messages sent (type, number of chunks, data).
\<close>

record restorer =
  idBuffer :: "byte list"
  idNum :: nat
  containerArray :: "byte list list"
  baseQuery :: "(byte list \<times> byte list) list"
  queryNum :: nat
  enclaveRecipeBuffer :: "EnclaveRecipeEntry_t list"
  baseRecipeBuffer :: "EnclaveRecipeEntry_t list"
  dataBuffer :: "byte list"
  dataSize :: nat
  currentItemNum :: nat
  containerCache :: slot_pool
  sent :: "(messageType \<times> nat \<times> byte list) list"

definition CONTAINERARRAY_VALUE :: nat where "CONTAINERARRAY_VALUE = 50"
definition sizeof_Chunk :: nat where "sizeof_Chunk = MAX_CHUNK_SIZE + 4"
definition BASE_QUERY_NUM :: nat where "BASE_QUERY_NUM = 5"

definition InitRestoreBuffer :: "nat \<Rightarrow> nat \<Rightarrow> restorer" where
  "InitRestoreBuffer readCacheSize batch =
     \<lparr>idBuffer = replicate (CONTAINER_CAPPING_VALUE * CONTAINER_ID_LENGTH) 0, idNum = 0,
      containerArray = replicate CONTAINERARRAY_VALUE (replicate MAX_CONTAINER_SIZE 0),
      baseQuery = replicate BASE_QUERY_NUM (replicate CHUNK_HASH_SIZE 0, replicate sizeof_RecipeEntry 0),
      queryNum = 0, enclaveRecipeBuffer = [], baseRecipeBuffer = [],
      dataBuffer = replicate (batch * sizeof_Chunk) 0, dataSize = 0, currentItemNum = 0,
      containerCache = ReadCache readCacheSize, sent = []\<rparr>"

section \<open>Decoding chunks\<close>

text \<open>
  \<open>ed3_decode\<close> decodes into a buffer of twice the sizes of delta and base; the decoder is the
  enclave's copy of \<open>EDeltaDecode\<close>, which has the same statements.
\<close>

definition ed3_decode :: "byte list \<Rightarrow> byte list \<Rightarrow> byte list res" where
  "ed3_decode delta ref =
     (let max_buffer_size = (length delta + length ref) * 2 in
      res_bind (EDeltaDecode delta (length delta) ref (replicate max_buffer_size 0)) (\<lambda>(buffer, sz).
        buf_read buffer 0 sz))"

text \<open>
  Decrypt the chunk at \<open>pos\<close> of a container into an array of \<open>MAX_CHUNK_SIZE\<close> bytes; the iv
  follows the chunk.
\<close>

definition decrypt_at :: "restore_env \<Rightarrow> byte list \<Rightarrow> nat \<Rightarrow> nat \<Rightarrow> byte list res" where
  "decrypt_at env container pos chunkSize =
     res_bind (buf_read container pos chunkSize) (\<lambda>chunkBuffer.
     res_bind (buf_read container (pos + chunkSize) CRYPTO_BLOCK_SIZE) (\<lambda>iv.
     res_bind (DecryptionWithKeyIV (env_ssl env) cryptoObj chunkBuffer (enclaveKey env) iv) (\<lambda>out.
       if length out \<le> MAX_CHUNK_SIZE then Inr out else Inl OutOfBounds)))"

text \<open>
  The size and the bytes of a chunk behind what the message holds; bytes behind \<open>dataSize\<close> do
  not matter.
\<close>

definition put_chunk :: "byte list \<Rightarrow> restorer \<Rightarrow> restorer res" where
  "put_chunk chunk st =
     res_bind (buf_write (dataBuffer st) (dataSize st) (le32 (word_of_nat (length chunk)))) (\<lambda>buf.
     res_bind (buf_write buf (dataSize st + 4) chunk) (\<lambda>buf.
       Inr (st\<lparr>dataBuffer := buf, dataSize := dataSize st + 4 + length chunk,
               currentItemNum := Suc (currentItemNum st)\<rparr>)))"

definition RecoverOneChunk ::
    "restore_env \<Rightarrow> byte list \<Rightarrow> nat \<Rightarrow> nat \<Rightarrow> restorer \<Rightarrow> restorer res" where
  "RecoverOneChunk env container pos chunkSize st =
     res_bind (decrypt_at env container pos chunkSize) (\<lambda>decompressedChunk.
       case LZ4_decompress_safe (env_lz4 env) decompressedChunk MAX_CHUNK_SIZE of
         Some chunk \<Rightarrow> put_chunk chunk st
       | None \<Rightarrow> put_chunk decompressedChunk st)"

text \<open>Where the content of a record starts.\<close>

definition chunk_pos :: "nat \<Rightarrow> nat" where
  "chunk_pos offset = offset + sizeof_RecipeEntry + 4 * CHUNK_HASH_SIZE"

definition container_at :: "restorer \<Rightarrow> nat \<Rightarrow> byte list res" where
  "container_at st i =
     (if i < length (containerArray st) then Inr (containerArray st ! i) else Inl OutOfBounds)"

definition RecoverDelta ::
    "restore_env \<Rightarrow> EnclaveRecipeEntry_t \<Rightarrow> nat \<Rightarrow> restorer \<Rightarrow> restorer res" where
  "RecoverDelta env er bidx st =
     res_bind (container_at st (er_containerID er)) (\<lambda>container.
     res_bind (decrypt_at env container (chunk_pos (er_offset er)) (er_length er)) (\<lambda>delta.
     if length (baseRecipeBuffer st) \<le> bidx then Inl OutOfBounds else
     let br = baseRecipeBuffer st ! bidx in
     res_bind (container_at st (er_containerID br)) (\<lambda>basecontainer.
     res_bind (decrypt_at env basecontainer (chunk_pos (er_offset br)) (er_length br)) (\<lambda>base.
     res_bind (ed3_decode delta
         (case LZ4_decompress_safe (env_lz4 env) base MAX_CHUNK_SIZE of Some x \<Rightarrow> x | None \<Rightarrow> base))
       (\<lambda>recchunk. put_chunk recchunk st)))))"

section \<open>Messages\<close>

definition send_message :: "restore_env \<Rightarrow> messageType \<Rightarrow> restorer \<Rightarrow> restorer res" where
  "send_message env t st =
     res_bind (buf_read (dataBuffer st) 0 (dataSize st)) (\<lambda>data.
     res_bind (SessionKeyEnc (env_ssl env) cryptoObj data (sessionKey env)) (\<lambda>c.
       Inr (st\<lparr>sent := sent st @ [(t, currentItemNum st, c)], dataSize := 0, currentItemNum := 0\<rparr>)))"

definition restore_chunk ::
    "restore_env \<Rightarrow> EnclaveRecipeEntry_t \<Rightarrow> nat \<Rightarrow> restorer \<Rightarrow> (nat \<times> restorer) res" where
  "restore_chunk env er bidx st =
     (if er_deltaFlag er = DELTA
      then res_bind (RecoverDelta env er bidx st) (\<lambda>st. Inr (Suc bidx, st))
      else res_bind (container_at st (er_containerID er)) (\<lambda>container.
           res_bind (RecoverOneChunk env container (chunk_pos (er_offset er)) (er_length er) st) (\<lambda>st.
             Inr (bidx, st))))"

text \<open>The loop over the collected recipes, in a batch and in the tail batch.\<close>

fun restore_chunks ::
    "restore_env \<Rightarrow> EnclaveRecipeEntry_t list \<Rightarrow> nat \<Rightarrow> restorer \<Rightarrow> restorer res" where
  "restore_chunks env [] bidx st = Inr st"
| "restore_chunks env (er # ers) bidx st =
     res_bind (restore_chunk env er bidx st) (\<lambda>(bidx, st).
     res_bind (if currentItemNum st mod sendChunkBatchSize env = 0
               then send_message env SERVER_RESTORE_CHUNK st else Inr st)
       (\<lambda>st. restore_chunks env ers bidx st))"

fun restore_tail ::
    "restore_env \<Rightarrow> EnclaveRecipeEntry_t list \<Rightarrow> nat \<Rightarrow> restorer \<Rightarrow> restorer res" where
  "restore_tail env [] bidx st = Inr st"
| "restore_tail env (er # ers) bidx st =
     res_bind (restore_chunk env er bidx st) (\<lambda>(bidx, st).
     let endFlag = (ers = []) in
     res_bind (if currentItemNum st mod sendChunkBatchSize env = 0 \<or> endFlag
               then send_message env (if endFlag then SERVER_RESTORE_FINAL else SERVER_RESTORE_CHUNK) st
               else Inr st)
       (\<lambda>st. restore_tail env ers bidx st))"

section \<open>Containers to fetch\<close>

type_synonym id_map = "byte list \<Rightarrow> nat option"

text \<open>The number of a container in this round of requests, a new one if it has none yet.\<close>

definition request_container :: "byte list \<Rightarrow> id_map \<Rightarrow> restorer \<Rightarrow> (nat \<times> id_map \<times> restorer) res" where
  "request_container name m st =
     (case m name of
        Some i \<Rightarrow> Inr (i, m, st)
      | None \<Rightarrow> res_bind (buf_write (idBuffer st) (idNum st * CONTAINER_ID_LENGTH) name) (\<lambda>buf.
          Inr (idNum st, m(name \<mapsto> idNum st), st\<lparr>idBuffer := buf, idNum := Suc (idNum st)\<rparr>)))"

text \<open>
  \<open>Ocall_QueryBaseIndex\<close>: look up the queued base fingerprints.  An entry that is not found
  keeps the address it had.
\<close>

fun query_entries :: "InMemoryDatabase \<Rightarrow> (byte list \<times> byte list) list \<Rightarrow> (byte list \<times> byte list) list res" where
  "query_entries db [] = Inr []"
| "query_entries db ((h, a) # es) =
     res_bind (QueryBuffer h CHUNK_HASH_SIZE db) (\<lambda>r.
     res_bind (case r of None \<Rightarrow> Inr a | Some v \<Rightarrow> buf_read v 0 sizeof_RecipeEntry) (\<lambda>a.
     res_bind (query_entries db es) (\<lambda>es. Inr ((h, a) # es))))"

definition Ocall_QueryBaseIndex :: "restore_env \<Rightarrow> restorer \<Rightarrow> restorer res" where
  "Ocall_QueryBaseIndex env st =
     res_bind (query_entries (env_db env) (take (queryNum st) (baseQuery st))) (\<lambda>es.
       Inr (st\<lparr>baseQuery := es @ drop (queryNum st) (baseQuery st)\<rparr>))"

definition recipe_entry :: "nat \<Rightarrow> RecipeEntry_t \<Rightarrow> EnclaveRecipeEntry_t" where
  "recipe_entry i r = \<lparr>er_containerID = i, er_offset = unat (re_offset r),
     er_length = unat (re_length r), er_deltaFlag = re_deltaFlag r\<rparr>"

definition decrypt_recipe :: "restore_env \<Rightarrow> byte list \<Rightarrow> RecipeEntry_t res" where
  "decrypt_recipe env v =
     res_bind (AESCBCDec (env_ssl env) cryptoObj v (indexQueryKey env)) (\<lambda>b. Inr (bytes_recipe b))"

text \<open>The loop over the found bases.\<close>

fun add_bases ::
    "restore_env \<Rightarrow> (byte list \<times> byte list) list \<Rightarrow> id_map \<Rightarrow> restorer \<Rightarrow> (id_map \<times> restorer) res" where
  "add_bases env [] m st = Inr (m, st)"
| "add_bases env ((h, a) # es) m st =
     res_bind (decrypt_recipe env a) (\<lambda>r.
     res_bind (request_container (containerName r) m st) (\<lambda>(i, m, st).
       add_bases env es m (st\<lparr>baseRecipeBuffer := baseRecipeBuffer st @ [recipe_entry i r]\<rparr>)))"

definition resolve_bases :: "restore_env \<Rightarrow> id_map \<Rightarrow> restorer \<Rightarrow> (id_map \<times> restorer) res" where
  "resolve_bases env m st =
     res_bind (Ocall_QueryBaseIndex env st) (\<lambda>st.
       add_bases env (take (queryNum st) (baseQuery st)) m st)"

text \<open>\<open>Ocall_GetReqContainers\<close> on the requested names.\<close>

definition requested :: "restorer \<Rightarrow> byte list list" where
  "requested st = map (\<lambda>i. bslice (idBuffer st) (i * CONTAINER_ID_LENGTH) CONTAINER_ID_LENGTH) [0..<idNum st]"

definition Ocall_GetReqContainers :: "restore_env \<Rightarrow> restorer \<Rightarrow> restorer res" where
  "Ocall_GetReqContainers env st =
     res_bind (GetReqContainers (env_files env) (requested st) (containerArray st) (containerCache st))
       (\<lambda>(outs, c). Inr (st\<lparr>containerArray := outs @ drop (idNum st) (containerArray st), containerCache := c\<rparr>))"

section \<open>A batch of recipes\<close>

text \<open>Queue the base of a delta chunk; a full queue is resolved first.\<close>

definition set_query :: "nat \<Rightarrow> byte list \<Rightarrow> restorer \<Rightarrow> restorer res" where
  "set_query i h st =
     (if i < length (baseQuery st)
      then Inr (st\<lparr>baseQuery := (baseQuery st)[i := (h, snd (baseQuery st ! i))], queryNum := Suc i\<rparr>)
      else Inl OutOfBounds)"

definition queue_base :: "restore_env \<Rightarrow> byte list \<Rightarrow> id_map \<Rightarrow> restorer \<Rightarrow> (id_map \<times> restorer) res" where
  "queue_base env h m st =
     (if queryNum st < BASE_QUERY_NUM then res_bind (set_query (queryNum st) h st) (\<lambda>st. Inr (m, st))
      else if queryNum st = BASE_QUERY_NUM then
        res_bind (resolve_bases env m st) (\<lambda>(m, st).
        res_bind (set_query 0 h st) (\<lambda>st. Inr (m, st)))
      else Inr (m, st))"

text \<open>What happens when the capping value is reached.\<close>

definition reset_requests :: "restorer \<Rightarrow> restorer" where
  "reset_requests st = st\<lparr>idNum := 0, enclaveRecipeBuffer := [], baseRecipeBuffer := [], queryNum := 0\<rparr>"

definition restore_window :: "restore_env \<Rightarrow> id_map \<Rightarrow> restorer \<Rightarrow> restorer res" where
  "restore_window env m st =
     res_bind (if queryNum st \<noteq> 0
               then res_bind (resolve_bases env m st) (\<lambda>(m, st). Inr (st\<lparr>queryNum := 0\<rparr>))
               else Inr st) (\<lambda>st.
     res_bind (Ocall_GetReqContainers env st) (\<lambda>st.
     res_bind (restore_chunks env (enclaveRecipeBuffer st) 0 st) (\<lambda>st.
       Inr (reset_requests st))))"

definition proc_entry :: "restore_env \<Rightarrow> RecipeEntry_t \<Rightarrow> id_map \<Rightarrow> restorer \<Rightarrow> (id_map \<times> restorer) res" where
  "proc_entry env r m st =
     res_bind (if re_deltaFlag r = DELTA then queue_base env (basechunkHash r) m st else Inr (m, st))
       (\<lambda>(m, st).
     res_bind (request_container (containerName r) m st) (\<lambda>(i, m, st).
     let st = st\<lparr>enclaveRecipeBuffer := enclaveRecipeBuffer st @ [recipe_entry i r]\<rparr> in
     if CONTAINER_CAPPING_VALUE \<le> idNum st + queryNum st
     then res_bind (restore_window env m st) (\<lambda>st. Inr (Map.empty, st))
     else Inr (m, st)))"

fun proc_entries :: "restore_env \<Rightarrow> byte list \<Rightarrow> nat \<Rightarrow> nat \<Rightarrow> id_map \<Rightarrow> restorer \<Rightarrow> restorer res" where
  "proc_entries env fileRecipes i 0 m st = Inr st"
| "proc_entries env fileRecipes i (Suc n) m st =
     res_bind (buf_read fileRecipes (i * sizeof_RecipeEntry) sizeof_RecipeEntry) (\<lambda>v.
     res_bind (decrypt_recipe env v) (\<lambda>r.
     res_bind (proc_entry env r m st) (\<lambda>(m, st).
       proc_entries env fileRecipes (Suc i) n m st)))"

text \<open>The index keys of the fingerprints.\<close>

fun index_keys :: "restore_env \<Rightarrow> byte list \<Rightarrow> nat \<Rightarrow> nat \<Rightarrow> byte list res" where
  "index_keys env fps i 0 = Inr []"
| "index_keys env fps i (Suc n) =
     res_bind (buf_read fps (i * CHUNK_HASH_SIZE) CHUNK_HASH_SIZE) (\<lambda>fp.
     res_bind (IndexAESCMCEnc (env_ssl env) cryptoObj fp (indexQueryKey env)) (\<lambda>key.
     res_bind (index_keys env fps (Suc i) n) (\<lambda>keys. Inr (key @ keys))))"

text \<open>
  \<open>Ocall_ReadIndexStoreBatch\<close>: a key that is not found leaves in \<open>value\<close> what the previous one
  put there, resized to a recipe entry.
\<close>

definition resize_value :: "byte list \<Rightarrow> byte list" where
  "resize_value v = take sizeof_RecipeEntry v @ replicate (sizeof_RecipeEntry - length v) 0"

fun read_index :: "InMemoryDatabase \<Rightarrow> byte list \<Rightarrow> nat \<Rightarrow> nat \<Rightarrow> byte list \<Rightarrow> byte list res" where
  "read_index db keys i 0 val = Inr []"
| "read_index db keys i (Suc n) val =
     res_bind (buf_read keys (i * CHUNK_HASH_SIZE) CHUNK_HASH_SIZE) (\<lambda>key.
     res_bind (QueryBuffer key CHUNK_HASH_SIZE db) (\<lambda>r.
     let val = (case r of None \<Rightarrow> resize_value val | Some v \<Rightarrow> v) in
     res_bind (read_index db keys (Suc i) n val) (\<lambda>vals. Inr (val @ vals))))"

definition Ocall_ReadIndexStoreBatch :: "InMemoryDatabase \<Rightarrow> byte list \<Rightarrow> nat \<Rightarrow> byte list res" where
  "Ocall_ReadIndexStoreBatch db keys keySize = read_index db keys 0 (keySize div CHUNK_HASH_SIZE) []"

definition ProcRecipeBatch :: "restore_env \<Rightarrow> byte list \<Rightarrow> nat \<Rightarrow> restorer \<Rightarrow> restorer res" where
  "ProcRecipeBatch env recipeBuffer recipeNum st =
     res_bind (buf_read recipeBuffer 0 (recipeNum * CHUNK_HASH_SIZE)) (\<lambda>c.
     res_bind (DecryptWithKey (env_ssl env) cryptoObj c (masterKey env)) (\<lambda>fps.
     res_bind (index_keys env fps 0 recipeNum) (\<lambda>keys.
     res_bind (Ocall_ReadIndexStoreBatch (env_db env) keys (recipeNum * CHUNK_HASH_SIZE)) (\<lambda>fileRecipes.
       proc_entries env fileRecipes 0 recipeNum Map.empty st))))"

definition ProcRecipeTailBatch :: "restore_env \<Rightarrow> restorer \<Rightarrow> restorer res" where
  "ProcRecipeTailBatch env st =
     (if enclaveRecipeBuffer st \<noteq> [] then
        res_bind (if queryNum st \<noteq> 0 then Ocall_QueryBaseIndex env st else Inr st) (\<lambda>st.
        res_bind (add_bases env (take (queryNum st) (baseQuery st)) Map.empty st) (\<lambda>(m, st).
        res_bind (Ocall_GetReqContainers env (st\<lparr>queryNum := 0\<rparr>)) (\<lambda>st.
          restore_tail env (enclaveRecipeBuffer st) 0 st)))
      else send_message env SERVER_RESTORE_FINAL st)"

text \<open>
  The loop of \<open>EnclaveRecvDecoder::Run\<close> over the recipe file; a read that comes up short sees
  the end of the file.
\<close>

function restore_batches :: "restore_env \<Rightarrow> byte list \<Rightarrow> restorer \<Rightarrow> restorer res" where
  "restore_batches env file st =
     (let n = CHUNK_HASH_SIZE * sendRecipeBatchSize env; readRecipeBuf = take n file in
      if readRecipeBuf = [] then Inr st
      else res_bind (ProcRecipeBatch env readRecipeBuf (length readRecipeBuf div CHUNK_HASH_SIZE) st) (\<lambda>st.
        if length readRecipeBuf < n then Inr st else restore_batches env (drop n file) st))"
  by pat_completeness auto
termination
  by (relation "measure (\<lambda>(env, file, st). length file)") (auto simp: CHUNK_HASH_SIZE_def)

declare restore_batches.simps [simp del]

definition EnclaveRecvDecoder_Run :: "restore_env \<Rightarrow> byte list \<Rightarrow> restorer \<Rightarrow> restorer res" where
  "EnclaveRecvDecoder_Run env file st =
     res_bind (restore_batches env file st) (ProcRecipeTailBatch env)"

end
