(* ===== verification/Restore_Correct.thy ===== *)
theory Restore_Correct imports Restore begin

text \<open>
  Correctness of the restore path: if every fingerprint of a recipe has an address in the index,
  its container on disk, and, for a delta chunk, a base that can be restored, then the client
  receives the chunks of the recipe in order.
\<close>

section \<open>What the restore path relies on\<close>

definition env_ok :: "restore_env \<Rightarrow> bool" where
  "env_ok env \<longleftrightarrow> openssl_ok (env_ssl env) \<and> length (enclaveKey env) = 32 \<and>
     length (indexQueryKey env) = 32 \<and> length (masterKey env) = 32 \<and> length (sessionKey env) = 32 \<and>
     0 < sendChunkBatchSize env \<and> 0 < sendRecipeBatchSize env \<and>
     (\<forall>d cap x. LZ4_decompress_safe (env_lz4 env) d cap = Some x \<longrightarrow> length x \<le> cap)"

text \<open>The index leads from a key to a recipe entry.\<close>

definition address_of :: "restore_env \<Rightarrow> byte list \<Rightarrow> RecipeEntry_t \<Rightarrow> bool" where
  "address_of env key r \<longleftrightarrow> length key = CHUNK_HASH_SIZE \<and>
     (\<exists>v. Query key (env_db env) = Some v \<and> length v = sizeof_RecipeEntry \<and> decrypt_recipe env v = Inr r)"

text \<open>The decrypted content of a recipe entry, as its container on disk has it.\<close>

definition plain :: "restore_env \<Rightarrow> RecipeEntry_t \<Rightarrow> byte list \<Rightarrow> bool" where
  "plain env r d \<longleftrightarrow> (\<exists>f. container_file (env_files env) (containerName r) = Some f \<and>
     length f \<le> MAX_CONTAINER_SIZE \<and>
     decrypt_at env f (chunk_pos (unat (re_offset r))) (unat (re_length r)) = Inr d)"

definition unpacked :: "restore_env \<Rightarrow> byte list \<Rightarrow> byte list" where
  "unpacked env d =
     (case LZ4_decompress_safe (env_lz4 env) d MAX_CHUNK_SIZE of Some x \<Rightarrow> x | None \<Rightarrow> d)"

definition base_for :: "restore_env \<Rightarrow> RecipeEntry_t \<Rightarrow> RecipeEntry_t \<Rightarrow> bool" where
  "base_for env r b \<longleftrightarrow> address_of env (basechunkHash r) b \<and> (\<exists>d. plain env b d)"

definition restores :: "restore_env \<Rightarrow> RecipeEntry_t \<Rightarrow> byte list \<Rightarrow> bool" where
  "restores env r chunk \<longleftrightarrow> length chunk \<le> MAX_CHUNK_SIZE \<and> (\<exists>d. plain env r d \<and>
     (if re_deltaFlag r = DELTA
      then \<exists>b db. address_of env (basechunkHash r) b \<and> plain env b db \<and>
             ed3_decode d (unpacked env db) = Inr chunk
      else chunk = unpacked env d))"

definition restorable :: "restore_env \<Rightarrow> byte list \<Rightarrow> byte list \<Rightarrow> bool" where
  "restorable env fp chunk \<longleftrightarrow> length fp = CHUNK_HASH_SIZE \<and>
     (\<exists>key r. IndexAESCMCEnc (env_ssl env) cryptoObj fp (indexQueryKey env) = Inr key \<and>
        address_of env key r \<and> restores env r chunk)"

text \<open>What the client makes of the messages: decrypt each and take its chunks apart.\<close>

fun parse_chunks :: "nat \<Rightarrow> byte list \<Rightarrow> byte list list res" where
  "parse_chunks 0 bs = Inr []"
| "parse_chunks (Suc n) bs =
     res_bind (buf_read bs 0 4) (\<lambda>size.
     res_bind (buf_read bs 4 (unat (get32 size))) (\<lambda>chunk.
     res_bind (parse_chunks n (drop (4 + unat (get32 size)) bs)) (\<lambda>chunks. Inr (chunk # chunks))))"

fun client_chunks :: "restore_env \<Rightarrow> (messageType \<times> nat \<times> byte list) list \<Rightarrow> byte list list res" where
  "client_chunks env [] = Inr []"
| "client_chunks env ((t, n, c) # ms) =
     res_bind (SessionKeyDec (env_ssl env) cryptoObj c (sessionKey env)) (\<lambda>data.
     res_bind (parse_chunks n data) (\<lambda>chunks.
     res_bind (client_chunks env ms) (\<lambda>more. Inr (chunks @ more))))"

section \<open>The message under construction\<close>

definition ser_chunks :: "byte list list \<Rightarrow> byte list" where
  "ser_chunks cs = concat (map (\<lambda>c. le32 (word_of_nat (length c)) @ c) cs)"

lemma ser_chunks_simps [simp]:
  "ser_chunks [] = []" "ser_chunks (c # cs) = le32 (word_of_nat (length c)) @ c @ ser_chunks cs"
  "ser_chunks (cs @ cs') = ser_chunks cs @ ser_chunks cs'"
  by (simp_all add: ser_chunks_def)

lemma parse_ser_chunks:
  "\<forall>c \<in> set cs. length c \<le> MAX_CHUNK_SIZE \<Longrightarrow> parse_chunks (length cs) (ser_chunks cs) = Inr cs"
proof (induction cs)
  case Nil
  show ?case by simp
next
  case (Cons c cs)
  have u: "unat (word_of_nat (length c) :: u32) = length c"
    using Cons.prems by (simp add: unat_of_nat MAX_CHUNK_SIZE_def)
  have "buf_read (ser_chunks (c # cs)) 0 4 = Inr (le32 (word_of_nat (length c)))"
    "buf_read (ser_chunks (c # cs)) 4 (length c) = Inr c"
    by (simp_all add: buf_read_def bslice_def)
  moreover have "drop (4 + length c) (ser_chunks (c # cs)) = ser_chunks cs" by simp
  ultimately show ?case using Cons u by (simp del: ser_chunks_simps(2))
qed

lemma client_chunks_snoc:
  assumes "client_chunks env ms = Inr cs" "SessionKeyDec (env_ssl env) cryptoObj c (sessionKey env) = Inr data"
    "parse_chunks n data = Inr cs'"
  shows "client_chunks env (ms @ [(t, n, c)]) = Inr (cs @ cs')"
  using assms(1)
proof (induction ms arbitrary: cs)
  case Nil
  then show ?case using assms(2,3) by simp
next
  case (Cons m ms)
  obtain t' n' c' where m: "m = (t', n', c')" by (cases m)
  show ?case using Cons by (auto simp: m res_bind_eq_Inr)
qed

text \<open>\<open>cs\<close> was sent and \<open>buf\<close> is in the message under construction.\<close>

definition in_message :: "restore_env \<Rightarrow> restorer \<Rightarrow> byte list list \<Rightarrow> byte list list \<Rightarrow> bool" where
  "in_message env st cs buf \<longleftrightarrow> client_chunks env (sent st) = Inr cs \<and>
     length (dataBuffer st) = sendChunkBatchSize env * sizeof_Chunk \<and>
     dataSize st = length (ser_chunks buf) \<and>
     take (length (ser_chunks buf)) (dataBuffer st) = ser_chunks buf \<and>
     currentItemNum st = length buf \<and> length buf \<le> sendChunkBatchSize env \<and>
     (\<forall>c \<in> set buf. length c \<le> MAX_CHUNK_SIZE)"

text \<open>The parts of the state that building messages leaves alone.\<close>

definition same_requests :: "restorer \<Rightarrow> restorer \<Rightarrow> bool" where
  "same_requests st st' \<longleftrightarrow> idBuffer st' = idBuffer st \<and> idNum st' = idNum st \<and>
     containerArray st' = containerArray st \<and> baseQuery st' = baseQuery st \<and> queryNum st' = queryNum st \<and>
     enclaveRecipeBuffer st' = enclaveRecipeBuffer st \<and> baseRecipeBuffer st' = baseRecipeBuffer st \<and>
     containerCache st' = containerCache st"

lemma same_requests_refl: "same_requests st st"
  by (simp add: same_requests_def)

lemma same_requests_trans: "same_requests st st' \<Longrightarrow> same_requests st' st'' \<Longrightarrow> same_requests st st''"
  by (simp add: same_requests_def)

lemma ser_chunks_length:
  "\<forall>c \<in> set cs. length c \<le> MAX_CHUNK_SIZE \<Longrightarrow> length (ser_chunks cs) \<le> length cs * sizeof_Chunk"
  by (induction cs) (auto simp: sizeof_Chunk_def)

lemma put_chunk_ok:
  assumes h: "in_message env st cs buf" and n: "length buf < sendChunkBatchSize env" and c: "length chunk \<le> MAX_CHUNK_SIZE"
  obtains st' where "put_chunk chunk st = Inr st'" "in_message env st' cs (buf @ [chunk])" "same_requests st st'"
proof -
  let ?l = "le32 (word_of_nat (length chunk))" and ?n = "dataSize st"
  have "length (ser_chunks buf) \<le> length buf * sizeof_Chunk"
    using h by (intro ser_chunks_length) (simp add: in_message_def)
  moreover have "Suc (length buf) * sizeof_Chunk \<le> sendChunkBatchSize env * sizeof_Chunk"
    using n by (intro mult_le_mono1) simp
  ultimately have r: "?n + 4 + length chunk \<le> length (dataBuffer st)"
    using h c by (simp add: in_message_def sizeof_Chunk_def)
  then obtain b1 where b1: "buf_write (dataBuffer st) ?n ?l = Inr b1" by (auto simp: buf_write_def)
  with r obtain b2 where b2: "buf_write b1 (?n + 4) chunk = Inr b2"
    using buf_write_length [OF b1] by (auto simp: buf_write_def)
  have t1: "take (?n + 4) b1 = ser_chunks buf @ ?l"
    using buf_write_take [OF b1] h by (simp add: in_message_def)
  have t2: "take (?n + 4 + length chunk) b2 = take (?n + 4) b1 @ chunk"
    using buf_write_take [OF b2] by simp
  have l: "length b2 = length (dataBuffer st)" using buf_write_length [OF b1] buf_write_length [OF b2] by simp
  let ?st = "st\<lparr>dataBuffer := b2, dataSize := ?n + 4 + length chunk, currentItemNum := Suc (currentItemNum st)\<rparr>"
  show thesis
  proof (rule that [of ?st])
    show "put_chunk chunk st = Inr ?st" using b1 b2 by (simp add: put_chunk_def)
    show "in_message env ?st cs (buf @ [chunk])" using h n c t1 t2 l by (simp add: in_message_def add.assoc)
    show "same_requests st ?st" by (simp add: same_requests_def)
  qed
qed

lemma send_message_ok:
  assumes env: "env_ok env" and h: "in_message env st cs buf"
  obtains st' where "send_message env t st = Inr st'" "in_message env st' (cs @ buf) []" "same_requests st st'"
    "sent st' \<noteq> []" "fst (last (sent st')) = t"
proof -
  have s: "openssl_ok (env_ssl env)" "length (sessionKey env) = 32" using env by (simp_all add: env_ok_def)
  have "length (take (length (ser_chunks buf)) (dataBuffer st)) = length (ser_chunks buf)"
    using h unfolding in_message_def by metis
  then have "length (ser_chunks buf) \<le> length (dataBuffer st)" by simp
  then have r: "buf_read (dataBuffer st) 0 (dataSize st) = Inr (ser_chunks buf)"
    using h by (simp add: in_message_def buf_read_def bslice_def)
  obtain c where c: "SessionKeyEnc (env_ssl env) cryptoObj (ser_chunks buf) (sessionKey env) = Inr c"
    "SessionKeyDec (env_ssl env) cryptoObj c (sessionKey env) = Inr (ser_chunks buf)"
    by (rule SessionKeyEnc_ok [OF s])
  let ?st = "st\<lparr>sent := sent st @ [(t, currentItemNum st, c)], dataSize := 0, currentItemNum := 0\<rparr>"
  have "client_chunks env (sent st @ [(t, currentItemNum st, c)]) = Inr (cs @ buf)"
    using h c(2) parse_ser_chunks [of buf] by (intro client_chunks_snoc) (auto simp: in_message_def)
  then have "in_message env ?st (cs @ buf) []" using h by (simp add: in_message_def)
  moreover have "same_requests st ?st" by (simp add: same_requests_def)
  ultimately show thesis using r c(1) by (intro that [of ?st]) (simp_all add: send_message_def)
qed


section \<open>Restoring the collected chunks\<close>

text \<open>The container with number \<open>i\<close> has a name; after the fetch its array starts with its file.\<close>

definition named :: "restorer \<Rightarrow> nat \<Rightarrow> byte list \<Rightarrow> bool" where
  "named st i name \<longleftrightarrow> i < idNum st \<and> bslice (idBuffer st) (i * CONTAINER_ID_LENGTH) CONTAINER_ID_LENGTH = name"

definition loaded :: "restore_env \<Rightarrow> restorer \<Rightarrow> bool" where
  "loaded env st \<longleftrightarrow> (\<forall>i name. named st i name \<longrightarrow>
     i < length (containerArray st) \<and>
     take (length (contents (env_files env) name)) (containerArray st ! i) = contents (env_files env) name)"

definition entry_for :: "restorer \<Rightarrow> EnclaveRecipeEntry_t \<Rightarrow> RecipeEntry_t \<Rightarrow> bool" where
  "entry_for st er r \<longleftrightarrow> named st (er_containerID er) (containerName r) \<and>
     er_offset er = unat (re_offset r) \<and> er_length er = unat (re_length r) \<and> er_deltaFlag er = re_deltaFlag r"

lemma same_requests_named: "same_requests st st' \<Longrightarrow> named st' i name = named st i name"
  by (simp add: same_requests_def named_def)

lemma same_requests_entry: "same_requests st st' \<Longrightarrow> entry_for st' er r = entry_for st er r"
  by (simp add: entry_for_def same_requests_named)

lemma same_requests_loaded: "same_requests st st' \<Longrightarrow> loaded env st' = loaded env st"
  by (simp add: loaded_def same_requests_named) (simp add: same_requests_def)

lemma decrypt_at_prefix:
  assumes "take (length f) c = f" "decrypt_at env f p n = Inr d"
  shows "decrypt_at env c p n = Inr d"
proof -
  have r: "buf_read c a k = Inr x" if "buf_read f a k = Inr x" for a k x
  proof -
    have a: "a + k \<le> length f" "x = bslice f a k" using that by (simp_all add: buf_read_Inr)
    moreover have "length f \<le> length c" using assms(1) by (metis length_take min.cobounded1)
    moreover have "bslice f a k = bslice c a k" using bslice_take [OF a(1), of c] assms(1) by simp
    ultimately show ?thesis by (simp add: buf_read_Inr)
  qed
  obtain x where x: "buf_read f p n = Inr x" using assms(2) by (auto simp: decrypt_at_def res_bind_eq_Inr)
  obtain iv where iv: "buf_read f (p + n) CRYPTO_BLOCK_SIZE = Inr iv"
    using assms(2) by (auto simp: decrypt_at_def res_bind_eq_Inr)
  show ?thesis using assms(2) by (simp add: decrypt_at_def x iv r [OF x] r [OF iv])
qed

lemma decrypt_loaded:
  assumes "loaded env st" "entry_for st er r" "plain env r d"
  obtains container where "container_at st (er_containerID er) = Inr container"
    "decrypt_at env container (chunk_pos (er_offset er)) (er_length er) = Inr d"
proof -
  obtain f where f: "container_file (env_files env) (containerName r) = Some f"
    "decrypt_at env f (chunk_pos (unat (re_offset r))) (unat (re_length r)) = Inr d"
    using assms(3) unfolding plain_def by blast
  have e: "named st (er_containerID er) (containerName r)" "er_offset er = unat (re_offset r)"
    "er_length er = unat (re_length r)"
    using assms(2) unfolding entry_for_def by simp_all
  let ?c = "containerArray st ! er_containerID er"
  have "contents (env_files env) (containerName r) = f" using f(1) by (simp add: contents_def)
  then have "er_containerID er < length (containerArray st)" "take (length f) ?c = f"
    using assms(1) e(1) unfolding loaded_def by blast+
  then show thesis
    using decrypt_at_prefix [OF _ f(2), of ?c] e by (intro that [of ?c]) (simp_all add: container_at_def)
qed

lemma entry_flag: "entry_for st er r \<Longrightarrow> er_deltaFlag er = re_deltaFlag r"
  by (simp add: entry_for_def)

lemma address_unique: "address_of env key r \<Longrightarrow> address_of env key r' \<Longrightarrow> r' = r"
  by (auto simp: address_of_def)

lemma restore_plain:
  assumes h: "in_message env st cs buf" "length buf < sendChunkBatchSize env" and l: "loaded env st" "entry_for st er r"
    and r: "restores env r chunk" "re_deltaFlag r \<noteq> DELTA"
  obtains st' where "restore_chunk env er bidx st = Inr (bidx, st')" "in_message env st' cs (buf @ [chunk])"
    "same_requests st st'"
proof -
  obtain d where d: "plain env r d" "chunk = unpacked env d" "length chunk \<le> MAX_CHUNK_SIZE"
    using r by (auto simp: restores_def)
  obtain c where c: "container_at st (er_containerID er) = Inr c"
    "decrypt_at env c (chunk_pos (er_offset er)) (er_length er) = Inr d"
    by (rule decrypt_loaded [OF l d(1)])
  obtain st' where st': "put_chunk chunk st = Inr st'" "in_message env st' cs (buf @ [chunk])" "same_requests st st'"
    by (rule put_chunk_ok [OF h d(3)])
  have "RecoverOneChunk env c (chunk_pos (er_offset er)) (er_length er) st = put_chunk chunk st"
    by (simp add: RecoverOneChunk_def c(2) d(2) unpacked_def split: option.split)
  then show thesis
    using st' c(1) r(2) entry_flag [OF l(2)] by (intro that [of st']) (simp_all add: restore_chunk_def)
qed

lemma restore_delta:
  assumes h: "in_message env st cs buf" "length buf < sendChunkBatchSize env" and l: "loaded env st" "entry_for st er r"
    and r: "restores env r chunk" "re_deltaFlag r = DELTA"
    and b: "bidx < length (baseRecipeBuffer st)" "address_of env (basechunkHash r) b" "entry_for st (baseRecipeBuffer st ! bidx) b"
  obtains st' where "restore_chunk env er bidx st = Inr (Suc bidx, st')" "in_message env st' cs (buf @ [chunk])"
    "same_requests st st'"
proof -
  obtain d b' db where "plain env r d" "address_of env (basechunkHash r) b'" "plain env b' db"
    and e: "ed3_decode d (unpacked env db) = Inr chunk" "length chunk \<le> MAX_CHUNK_SIZE"
    using r by (auto simp: restores_def)
  then have d: "plain env r d" "plain env b db" using address_unique [OF b(2)] by auto
  obtain c where c: "container_at st (er_containerID er) = Inr c"
    "decrypt_at env c (chunk_pos (er_offset er)) (er_length er) = Inr d"
    by (rule decrypt_loaded [OF l d(1)])
  let ?br = "baseRecipeBuffer st ! bidx"
  obtain c' where c': "container_at st (er_containerID ?br) = Inr c'"
    "decrypt_at env c' (chunk_pos (er_offset ?br)) (er_length ?br) = Inr db"
    by (rule decrypt_loaded [OF l(1) b(3) d(2)])
  obtain st' where st': "put_chunk chunk st = Inr st'" "in_message env st' cs (buf @ [chunk])" "same_requests st st'"
    by (rule put_chunk_ok [OF h e(2)])
  have "RecoverDelta env er bidx st = Inr st'"
    using b(1) e(1) st'(1) by (simp add: RecoverDelta_def c c' Let_def unpacked_def)
  then show thesis
    using st' r(2) entry_flag [OF l(2)] by (intro that [of st']) (simp_all add: restore_chunk_def)
qed

text \<open>The base fingerprints of the delta chunks among some recipes, and the bases found for them.\<close>

definition delta_hashes :: "RecipeEntry_t list \<Rightarrow> byte list list" where
  "delta_hashes rs = map basechunkHash (filter (\<lambda>r. re_deltaFlag r = DELTA) rs)"

lemma delta_hashes_simps [simp]:
  "delta_hashes [] = []"
  "delta_hashes (r # rs) = (if re_deltaFlag r = DELTA then basechunkHash r # delta_hashes rs else delta_hashes rs)"
  "delta_hashes (rs @ rs') = delta_hashes rs @ delta_hashes rs'"
  by (simp_all add: delta_hashes_def)

definition base_entry :: "restore_env \<Rightarrow> restorer \<Rightarrow> EnclaveRecipeEntry_t \<Rightarrow> byte list \<Rightarrow> bool" where
  "base_entry env st br h \<longleftrightarrow> (\<exists>b. address_of env h b \<and> entry_for st br b)"

lemma same_requests_base: "same_requests st st' \<Longrightarrow> base_entry env st' = base_entry env st"
  by (auto simp: base_entry_def same_requests_entry fun_eq_iff)

lemma restore_any:
  assumes h: "in_message env st cs buf" "length buf < sendChunkBatchSize env" and l: "loaded env st" "entry_for st er r"
    and r: "restores env r chunk"
    and b: "list_all2 (base_entry env st) (drop bidx (baseRecipeBuffer st)) (delta_hashes (r # rs))"
  obtains bidx' st' where "restore_chunk env er bidx st = Inr (bidx', st')" "in_message env st' cs (buf @ [chunk])"
    "same_requests st st'" "list_all2 (base_entry env st') (drop bidx' (baseRecipeBuffer st')) (delta_hashes rs)"
proof (cases "re_deltaFlag r = DELTA")
  case True
  then obtain br brs where br: "drop bidx (baseRecipeBuffer st) = br # brs" "base_entry env st br (basechunkHash r)"
    "list_all2 (base_entry env st) brs (delta_hashes rs)"
    using b by (auto simp: list_all2_Cons2)
  then have i: "bidx < length (baseRecipeBuffer st)" "baseRecipeBuffer st ! bidx = br" "drop (Suc bidx) (baseRecipeBuffer st) = brs"
    by (metis drop_all list.distinct(1) not_le, metis hd_drop_conv_nth drop_all list.distinct(1) list.sel(1) not_le,
        metis drop_Suc list.sel(3) tl_drop)
  obtain a where a: "address_of env (basechunkHash r) a" "entry_for st br a" using br(2) by (auto simp: base_entry_def)
  obtain st' where st': "restore_chunk env er bidx st = Inr (Suc bidx, st')" "in_message env st' cs (buf @ [chunk])"
    "same_requests st st'"
    by (rule restore_delta [OF h l r True i(1) a(1) a(2) [folded i(2)]])
  have "baseRecipeBuffer st' = baseRecipeBuffer st" using st'(3) by (simp add: same_requests_def)
  then show thesis using st' i(3) br(3) same_requests_base [OF st'(3)] by (intro that [OF st']) simp
next
  case False
  obtain st' where st': "restore_chunk env er bidx st = Inr (bidx, st')" "in_message env st' cs (buf @ [chunk])"
    "same_requests st st'"
    by (rule restore_plain [OF h l r False])
  have "baseRecipeBuffer st' = baseRecipeBuffer st" using st'(3) by (simp add: same_requests_def)
  then show thesis using st' b False same_requests_base [OF st'(3)] by (intro that [OF st']) simp
qed


lemma chunk_round:
  assumes env: "env_ok env" and l: "loaded env st" and h: "in_message env st cs buf" "length buf < sendChunkBatchSize env"
    and e: "list_all2 (entry_for st) (er # ers) rs" and c: "list_all2 (restores env) rs chunks"
    and b: "list_all2 (base_entry env st) (drop bidx (baseRecipeBuffer st)) (delta_hashes rs)"
  obtains bidx' st1 st2 rs1 chunk chunks1 cs2 buf2 where "restore_chunk env er bidx st = Inr (bidx', st1)"
    "in_message env st1 cs (buf @ [chunk])" "chunks = chunk # chunks1"
    "(if currentItemNum st1 mod sendChunkBatchSize env = 0 then send_message env SERVER_RESTORE_CHUNK st1 else Inr st1) = Inr st2"
    "in_message env st2 cs2 buf2" "length buf2 < sendChunkBatchSize env" "cs2 @ buf2 = cs @ buf @ [chunk]"
    "same_requests st st2" "loaded env st2" "list_all2 (entry_for st2) ers rs1" "list_all2 (restores env) rs1 chunks1"
    "list_all2 (base_entry env st2) (drop bidx' (baseRecipeBuffer st2)) (delta_hashes rs1)"
proof -
  obtain r rs1 where r: "rs = r # rs1" "entry_for st er r" "list_all2 (entry_for st) ers rs1"
    using e by (auto simp: list_all2_Cons1)
  obtain chunk chunks1 where ch: "chunks = chunk # chunks1" "restores env r chunk" "list_all2 (restores env) rs1 chunks1"
    using c by (auto simp: r(1) list_all2_Cons1)
  obtain bidx' st1 where s1: "restore_chunk env er bidx st = Inr (bidx', st1)" "in_message env st1 cs (buf @ [chunk])"
    "same_requests st st1" "list_all2 (base_entry env st1) (drop bidx' (baseRecipeBuffer st1)) (delta_hashes rs1)"
    by (rule restore_any [OF h l r(2) ch(2) b [unfolded r(1)]])
  define full where "full \<longleftrightarrow> currentItemNum st1 mod sendChunkBatchSize env = 0"
  have n: "currentItemNum st1 = Suc (length buf)" using s1(2) by (simp add: in_message_def)
  obtain st2 cs2 buf2 where s2: "(if full then send_message env SERVER_RESTORE_CHUNK st1 else Inr st1) = Inr st2"
    "in_message env st2 cs2 buf2" "length buf2 < sendChunkBatchSize env" "cs2 @ buf2 = cs @ buf @ [chunk]" "same_requests st1 st2"
  proof (cases full)
    case True
    obtain st2 where "send_message env SERVER_RESTORE_CHUNK st1 = Inr st2" "in_message env st2 (cs @ buf @ [chunk]) []" "same_requests st1 st2"
      by (rule send_message_ok [OF env s1(2)])
    with True env show ?thesis by (intro that [of st2 "cs @ buf @ [chunk]" "[]"]) (simp_all add: env_ok_def)
  next
    case False
    then have "Suc (length buf) \<noteq> sendChunkBatchSize env" unfolding full_def n by (metis mod_self)
    with False s1(2) h(2) show ?thesis
      by (intro that [of st1 cs "buf @ [chunk]"]) (simp_all add: same_requests_refl)
  qed
  have q: "same_requests st st2" by (rule same_requests_trans [OF s1(3) s2(5)])
  have "entry_for st2 = entry_for st" by (intro ext) (rule same_requests_entry [OF q])
  then have "list_all2 (entry_for st2) ers rs1" using r(3) by simp
  moreover have "baseRecipeBuffer st2 = baseRecipeBuffer st1" using s2(5) by (simp add: same_requests_def)
  then have "list_all2 (base_entry env st2) (drop bidx' (baseRecipeBuffer st2)) (delta_hashes rs1)"
    using s1(4) same_requests_base [OF s2(5)] by simp
  moreover have "loaded env st2" using l same_requests_loaded [OF q] by simp
  ultimately show thesis using that [OF s1(1,2) ch(1) s2(1) [unfolded full_def] s2(2-4) q] ch(3) by blast
qed

lemma restore_chunks_ok:
  assumes "env_ok env" "loaded env st" "in_message env st cs buf" "length buf < sendChunkBatchSize env"
    "list_all2 (entry_for st) ers rs" "list_all2 (restores env) rs chunks"
    "list_all2 (base_entry env st) (drop bidx (baseRecipeBuffer st)) (delta_hashes rs)"
  shows "\<exists>st' cs' buf'. restore_chunks env ers bidx st = Inr st' \<and> in_message env st' cs' buf' \<and>
    length buf' < sendChunkBatchSize env \<and> cs' @ buf' = cs @ buf @ chunks \<and> same_requests st st'"
  using assms(2-7)
proof (induction ers arbitrary: st cs buf rs chunks bidx)
  case Nil
  then have "rs = []" "chunks = []" by auto
  with Nil same_requests_refl show ?case by auto
next
  case (Cons er ers)
  obtain bidx' st1 st2 rs1 chunk chunks1 cs2 buf2 where r: "restore_chunk env er bidx st = Inr (bidx', st1)"
    "in_message env st1 cs (buf @ [chunk])" "chunks = chunk # chunks1"
    "(if currentItemNum st1 mod sendChunkBatchSize env = 0 then send_message env SERVER_RESTORE_CHUNK st1 else Inr st1) = Inr st2"
    "in_message env st2 cs2 buf2" "length buf2 < sendChunkBatchSize env" "cs2 @ buf2 = cs @ buf @ [chunk]"
    "same_requests st st2" "loaded env st2" "list_all2 (entry_for st2) ers rs1" "list_all2 (restores env) rs1 chunks1"
    "list_all2 (base_entry env st2) (drop bidx' (baseRecipeBuffer st2)) (delta_hashes rs1)"
    by (rule chunk_round [OF assms(1) Cons.prems])
  obtain st' cs' buf' where s3: "restore_chunks env ers bidx' st2 = Inr st'" "in_message env st' cs' buf'"
    "length buf' < sendChunkBatchSize env" "cs' @ buf' = cs2 @ buf2 @ chunks1" "same_requests st2 st'"
    using Cons.IH [OF r(9,5,6,10,11,12)] by blast
  have "restore_chunks env (er # ers) bidx st = Inr st'"
    using r(1,4) s3(1) by simp
  moreover have "cs' @ buf' = cs @ buf @ chunks" using s3(4) r(3,7) by simp
  ultimately show ?case using s3 same_requests_trans [OF r(8) s3(5)] by blast
qed

lemma restore_tail_ok:
  assumes "env_ok env" "loaded env st" "in_message env st cs buf" "length buf < sendChunkBatchSize env"
    "list_all2 (entry_for st) ers rs" "list_all2 (restores env) rs chunks"
    "list_all2 (base_entry env st) (drop bidx (baseRecipeBuffer st)) (delta_hashes rs)" "ers \<noteq> []"
  shows "\<exists>st'. restore_tail env ers bidx st = Inr st' \<and> in_message env st' (cs @ buf @ chunks) [] \<and>
    sent st' \<noteq> [] \<and> fst (last (sent st')) = SERVER_RESTORE_FINAL"
  using assms(2-8)
proof (induction ers arbitrary: st cs buf rs chunks bidx)
  case Nil
  then show ?case by simp
next
  case (Cons er ers)
  obtain bidx' st1 st2 rs1 chunk chunks1 cs2 buf2 where r: "restore_chunk env er bidx st = Inr (bidx', st1)"
    "in_message env st1 cs (buf @ [chunk])" "chunks = chunk # chunks1"
    "(if currentItemNum st1 mod sendChunkBatchSize env = 0 then send_message env SERVER_RESTORE_CHUNK st1 else Inr st1) = Inr st2"
    "in_message env st2 cs2 buf2" "length buf2 < sendChunkBatchSize env" "cs2 @ buf2 = cs @ buf @ [chunk]"
    "same_requests st st2" "loaded env st2" "list_all2 (entry_for st2) ers rs1" "list_all2 (restores env) rs1 chunks1"
    "list_all2 (base_entry env st2) (drop bidx' (baseRecipeBuffer st2)) (delta_hashes rs1)"
    by (rule chunk_round [OF assms(1) Cons.prems(1-6)])
  show ?case
  proof (cases "ers = []")
    case True
    obtain st' where s2: "send_message env SERVER_RESTORE_FINAL st1 = Inr st'" "in_message env st' (cs @ buf @ [chunk]) []"
      "sent st' \<noteq> []" "fst (last (sent st')) = SERVER_RESTORE_FINAL"
      by (rule send_message_ok [OF assms(1) r(2)])
    have "chunks = [chunk]" using True r(3,10,11) by auto
    then show ?thesis using r(1) s2 True by simp
  next
    case False
    obtain st' where s3: "restore_tail env ers bidx' st2 = Inr st'" "in_message env st' (cs2 @ buf2 @ chunks1) []"
      "sent st' \<noteq> [] \<and> fst (last (sent st')) = SERVER_RESTORE_FINAL"
      using Cons.IH [OF r(9,5,6,10,11,12) False] by blast
    have "restore_tail env (er # ers) bidx st = Inr st'" using r(1,4) s3(1) False by (auto split: if_splits)
    moreover have "cs2 @ buf2 @ chunks1 = cs @ buf @ chunks"
      using r(3,7) by (metis append.assoc append_Cons append_Nil)
    ultimately show ?thesis using s3 by simp
  qed
qed


section \<open>Collecting the containers\<close>

definition backed :: "restore_env \<Rightarrow> byte list \<Rightarrow> bool" where
  "backed env name \<longleftrightarrow> (\<exists>f. container_file (env_files env) name = Some f \<and> length f \<le> MAX_CONTAINER_SIZE)"

definition ids_ok :: "restore_env \<Rightarrow> restorer \<Rightarrow> id_map \<Rightarrow> bool" where
  "ids_ok env st m \<longleftrightarrow> (\<forall>name i. m name = Some i \<longrightarrow> named st i name) \<and>
     (\<forall>i name. named st i name \<longrightarrow> backed env name)"

definition more_ids :: "restorer \<Rightarrow> restorer \<Rightarrow> bool" where
  "more_ids st st' \<longleftrightarrow> (\<forall>i name. named st i name \<longrightarrow> named st' i name) \<and> idNum st \<le> idNum st' \<and>
     length (idBuffer st') = length (idBuffer st)"

lemma more_ids_refl: "more_ids st st"
  by (simp add: more_ids_def)

lemma more_ids_trans: "more_ids st st' \<Longrightarrow> more_ids st' st'' \<Longrightarrow> more_ids st st''"
  by (auto simp: more_ids_def)

lemma more_ids_entry: "more_ids st st' \<Longrightarrow> entry_for st er r \<Longrightarrow> entry_for st' er r"
  by (simp add: entry_for_def more_ids_def)

lemma more_ids_entries: "more_ids st st' \<Longrightarrow> list_all2 (entry_for st) ers rs \<Longrightarrow> list_all2 (entry_for st') ers rs"
  by (erule list_all2_mono) (rule more_ids_entry)

lemma more_ids_bases: "more_ids st st' \<Longrightarrow> list_all2 (base_entry env st) brs hs \<Longrightarrow> list_all2 (base_entry env st') brs hs"
  by (erule list_all2_mono) (auto simp: base_entry_def intro: more_ids_entry)

lemma named_cong: "idBuffer st' = idBuffer st \<Longrightarrow> idNum st' = idNum st \<Longrightarrow> named st' = named st"
  by (simp add: named_def fun_eq_iff)

lemma request_container_ok:
  assumes m: "ids_ok env st m" and name: "length name = CONTAINER_ID_LENGTH" "backed env name"
    and room: "Suc (idNum st) * CONTAINER_ID_LENGTH \<le> length (idBuffer st)"
  obtains i m' b n where "request_container name m st = Inr (i, m', st\<lparr>idBuffer := b, idNum := n\<rparr>)"
    "n \<le> Suc (idNum st)" "ids_ok env (st\<lparr>idBuffer := b, idNum := n\<rparr>) m'"
    "named (st\<lparr>idBuffer := b, idNum := n\<rparr>) i name" "more_ids st (st\<lparr>idBuffer := b, idNum := n\<rparr>)"
proof (cases "m name")
  case (Some i)
  then have "named st i name" using m by (simp add: ids_ok_def)
  with Some m show ?thesis
    by (intro that [where i = i and m' = m and b = "idBuffer st" and n = "idNum st"]) (simp_all add: request_container_def more_ids_refl)
next
  case None
  let ?o = "idNum st * CONTAINER_ID_LENGTH"
  obtain b where b: "buf_write (idBuffer st) ?o name = Inr b"
    using room name(1) by (auto simp: buf_write_def)
  let ?st = "st\<lparr>idBuffer := b, idNum := Suc (idNum st)\<rparr>"
  have new: "bslice b ?o CONTAINER_ID_LENGTH = name"
    using b name(1) by (auto simp: buf_write_Inr bslice_def)
  have old: "bslice b (i * CONTAINER_ID_LENGTH) CONTAINER_ID_LENGTH = bslice (idBuffer st) (i * CONTAINER_ID_LENGTH) CONTAINER_ID_LENGTH"
    if "i < idNum st" for i
  proof -
    have "i * CONTAINER_ID_LENGTH + CONTAINER_ID_LENGTH \<le> ?o"
      using that mult_le_mono1 [of "Suc i" "idNum st" CONTAINER_ID_LENGTH] by simp
    from bslice_take [OF this, of b] bslice_take [OF this, of "idBuffer st"] show ?thesis
      using buf_write_take_less [OF b, of ?o] by simp
  qed
  have n: "named ?st i x \<longleftrightarrow> named st i x \<or> i = idNum st \<and> x = name" for i x
    using new old [of i] by (auto simp: named_def less_Suc_eq)
  show ?thesis
  proof (rule that [where i = "idNum st" and m' = "m(name \<mapsto> idNum st)" and b = b and n = "Suc (idNum st)"])
    show "request_container name m st = Inr (idNum st, m(name \<mapsto> idNum st), ?st)"
      using None b by (simp add: request_container_def)
    show "ids_ok env ?st (m(name \<mapsto> idNum st))" using m name(2) by (auto simp: ids_ok_def n)
    show "more_ids st ?st" using buf_write_length [OF b] by (simp add: more_ids_def n)
  qed (simp_all add: n)
qed

text \<open>Names of addresses in the index have the right length.\<close>

lemma address_name:
  assumes "address_of env key r"
  shows "length (containerName r) = CONTAINER_ID_LENGTH"
proof -
  obtain v b where v: "length v = sizeof_RecipeEntry" "AESCBCDec (env_ssl env) cryptoObj v (indexQueryKey env) = Inr b" "r = bytes_recipe b"
    using assms by (auto simp: address_of_def decrypt_recipe_def res_bind_eq_Inr)
  then have "length b = sizeof_RecipeEntry"
    by (auto simp: AESCBCDec_def run_cipher_def split: option.splits if_splits)
  from recipe_bytes_recipe(2) [OF this] v(3) show ?thesis by (simp add: recipe_wf_def)
qed

text \<open>A fingerprint whose base chunk is in the index and on disk.\<close>

definition base_ok :: "restore_env \<Rightarrow> byte list \<Rightarrow> bool" where
  "base_ok env h \<longleftrightarrow> (\<exists>b. address_of env h b \<and> backed env (containerName b))"

lemma plain_backed: "plain env r d \<Longrightarrow> backed env (containerName r)"
  by (auto simp: plain_def backed_def)

lemma restores_backed:
  assumes "restores env r chunk"
  shows "backed env (containerName r)" and "re_deltaFlag r = DELTA \<Longrightarrow> base_ok env (basechunkHash r)"
  using assms by (auto simp: restores_def base_ok_def split: if_splits dest: plain_backed)

lemma query_entries_ok:
  "\<forall>h \<in> set (map fst es). base_ok env h \<Longrightarrow>
   \<exists>es'. query_entries (env_db env) es = Inr es' \<and> map fst es' = map fst es \<and>
     (\<forall>(h, a) \<in> set es'. \<exists>b. address_of env h b \<and> backed env (containerName b) \<and> decrypt_recipe env a = Inr b)"
proof (induction es)
  case Nil
  show ?case by simp
next
  case (Cons e es)
  obtain h a where e: "e = (h, a)" by (cases e)
  obtain es' where es': "query_entries (env_db env) es = Inr es'" "map fst es' = map fst es"
    "\<forall>(h, a) \<in> set es'. \<exists>b. address_of env h b \<and> backed env (containerName b) \<and> decrypt_recipe env a = Inr b"
    using Cons by auto
  obtain b where b: "address_of env h b" "backed env (containerName b)" using Cons.prems by (auto simp: e base_ok_def)
  then obtain v where v: "length h = CHUNK_HASH_SIZE" "Query h (env_db env) = Some v" "length v = sizeof_RecipeEntry"
    "decrypt_recipe env v = Inr b" by (auto simp: address_of_def)
  have "query_entries (env_db env) (e # es) = Inr ((h, v) # es')"
    using v es'(1) by (simp add: e QueryBuffer_def Query_def buf_read_def bslice_full)
  then show ?case using es' b v(4) by (auto simp: e)
qed

lemma add_bases_ok:
  assumes "ids_ok env st m" "(idNum st + length es) * CONTAINER_ID_LENGTH \<le> length (idBuffer st)"
    "\<forall>(h, a) \<in> set es. \<exists>b. address_of env h b \<and> backed env (containerName b) \<and> decrypt_recipe env a = Inr b"
  shows "\<exists>m' b n brs. add_bases env es m st =
      Inr (m', st\<lparr>idBuffer := b, idNum := n, baseRecipeBuffer := baseRecipeBuffer st @ brs\<rparr>) \<and>
    n \<le> idNum st + length es \<and> ids_ok env (st\<lparr>idBuffer := b, idNum := n\<rparr>) m' \<and>
    more_ids st (st\<lparr>idBuffer := b, idNum := n\<rparr>) \<and>
    list_all2 (base_entry env (st\<lparr>idBuffer := b, idNum := n\<rparr>)) brs (map fst es)"
  using assms
proof (induction es arbitrary: m st)
  case Nil
  then show ?case using more_ids_refl [of st]
    by (intro exI [of _ m] exI [of _ "idBuffer st"] exI [of _ "idNum st"] exI [of _ "[]"]) simp
next
  case (Cons e es)
  obtain h a where e: "e = (h, a)" by (cases e)
  obtain r where r: "address_of env h r" "backed env (containerName r)" "decrypt_recipe env a = Inr r"
    using Cons.prems(3) by (auto simp: e)
  have "Suc (idNum st) * CONTAINER_ID_LENGTH \<le> (idNum st + length (e # es)) * CONTAINER_ID_LENGTH"
    by (intro mult_le_mono1) simp
  then have room: "Suc (idNum st) * CONTAINER_ID_LENGTH \<le> length (idBuffer st)" using Cons.prems(2) by linarith
  obtain i m1 b1 n1 where q: "request_container (containerName r) m st = Inr (i, m1, st\<lparr>idBuffer := b1, idNum := n1\<rparr>)"
    "n1 \<le> Suc (idNum st)" "ids_ok env (st\<lparr>idBuffer := b1, idNum := n1\<rparr>) m1"
    "named (st\<lparr>idBuffer := b1, idNum := n1\<rparr>) i (containerName r)" "more_ids st (st\<lparr>idBuffer := b1, idNum := n1\<rparr>)"
    by (rule request_container_ok [OF Cons.prems(1) address_name [OF r(1)] r(2) room])
  let ?st1 = "st\<lparr>idBuffer := b1, idNum := n1, baseRecipeBuffer := baseRecipeBuffer st @ [recipe_entry i r]\<rparr>"
  have nm: "named (st\<lparr>idBuffer := b, idNum := n, baseRecipeBuffer := y\<rparr>) = named (st\<lparr>idBuffer := b, idNum := n\<rparr>)" for b n y
    by (rule named_cong) simp_all
  have i1: "ids_ok env ?st1 m1" using q(3) by (simp add: ids_ok_def nm)
  have "(n1 + length es) * CONTAINER_ID_LENGTH \<le> (idNum st + length (e # es)) * CONTAINER_ID_LENGTH"
    using q(2) by (intro mult_le_mono1) simp
  then have "(idNum ?st1 + length es) * CONTAINER_ID_LENGTH \<le> length (idBuffer ?st1)"
    using Cons.prems(2) q(5) by (simp add: more_ids_def)
  from Cons.IH [OF i1 this] Cons.prems(3) obtain m' b n brs where ih:
    "add_bases env es m1 ?st1 = Inr (m', ?st1\<lparr>idBuffer := b, idNum := n, baseRecipeBuffer := baseRecipeBuffer ?st1 @ brs\<rparr>)"
    "n \<le> idNum ?st1 + length es" "ids_ok env (?st1\<lparr>idBuffer := b, idNum := n\<rparr>) m'"
    "more_ids ?st1 (?st1\<lparr>idBuffer := b, idNum := n\<rparr>)"
    "list_all2 (base_entry env (?st1\<lparr>idBuffer := b, idNum := n\<rparr>)) brs (map fst es)"
    by auto
  let ?st' = "st\<lparr>idBuffer := b, idNum := n\<rparr>"
  have n': "named (?st1\<lparr>idBuffer := b, idNum := n\<rparr>) = named ?st'" by (rule named_cong) simp_all
  have n1: "named ?st1 = named (st\<lparr>idBuffer := b1, idNum := n1\<rparr>)" by (rule named_cong) simp_all
  have mi: "more_ids (st\<lparr>idBuffer := b1, idNum := n1\<rparr>) ?st'"
    using ih(4) unfolding more_ids_def n' n1 by simp
  have "entry_for ?st' (recipe_entry i r) r"
    using q(4) mi by (simp add: entry_for_def recipe_entry_def more_ids_def)
  moreover have "base_entry env (?st1\<lparr>idBuffer := b, idNum := n\<rparr>) = base_entry env ?st'"
    unfolding base_entry_def entry_for_def n' ..
  ultimately have "list_all2 (base_entry env ?st') (recipe_entry i r # brs) (map fst (e # es))"
    using ih(5) r(1) by (auto simp: e base_entry_def)
  moreover have "ids_ok env ?st' m'" using ih(3) unfolding ids_ok_def n' .
  moreover have "add_bases env (e # es) m st =
      Inr (m', st\<lparr>idBuffer := b, idNum := n, baseRecipeBuffer := baseRecipeBuffer st @ (recipe_entry i r # brs)\<rparr>)"
    using ih(1) by (simp add: e r(3) q(1))
  moreover have "n \<le> idNum st + length (e # es)" using ih(2) q(2) by simp
  ultimately show ?case using more_ids_trans [OF q(5) mi] by blast
qed


text \<open>What collecting containers leaves alone.\<close>

definition output_kept :: "restorer \<Rightarrow> restorer \<Rightarrow> bool" where
  "output_kept st st' \<longleftrightarrow> containerArray st' = containerArray st \<and>
     enclaveRecipeBuffer st' = enclaveRecipeBuffer st \<and> dataBuffer st' = dataBuffer st \<and>
     dataSize st' = dataSize st \<and> currentItemNum st' = currentItemNum st \<and>
     containerCache st' = containerCache st \<and> sent st' = sent st"

lemma output_kept_trans: "output_kept st st' \<Longrightarrow> output_kept st' st'' \<Longrightarrow> output_kept st st''"
  by (simp add: output_kept_def)

lemma output_kept_message: "output_kept st st' \<Longrightarrow> in_message env st' cs buf = in_message env st cs buf"
  by (simp add: output_kept_def in_message_def)

text \<open>The base fingerprints met so far: the first ones are resolved, the others are queued.\<close>

definition bases_ok :: "restore_env \<Rightarrow> restorer \<Rightarrow> byte list list \<Rightarrow> bool" where
  "bases_ok env st hs \<longleftrightarrow> length (baseQuery st) = BASE_QUERY_NUM \<and> queryNum st \<le> BASE_QUERY_NUM \<and>
     (\<exists>hs1. hs = hs1 @ map fst (take (queryNum st) (baseQuery st)) \<and>
        list_all2 (base_entry env st) (baseRecipeBuffer st) hs1) \<and>
     (\<forall>h \<in> set hs. base_ok env h)"

lemma resolve_bases_ok:
  assumes ids: "ids_ok env st m" and b: "bases_ok env st hs"
    and room: "(idNum st + queryNum st) * CONTAINER_ID_LENGTH \<le> length (idBuffer st)"
  obtains m' st' where "resolve_bases env m st = Inr (m', st')" "ids_ok env st' m'" "more_ids st st'"
    "output_kept st st'" "idNum st' \<le> idNum st + queryNum st" "queryNum st' = queryNum st"
    "length (baseQuery st') = BASE_QUERY_NUM" "list_all2 (base_entry env st') (baseRecipeBuffer st') hs"
proof -
  let ?q = "queryNum st" and ?es = "take (queryNum st) (baseQuery st)"
  obtain hs1 where hs: "hs = hs1 @ map fst ?es" "list_all2 (base_entry env st) (baseRecipeBuffer st) hs1"
    and l: "length (baseQuery st) = BASE_QUERY_NUM" "?q \<le> BASE_QUERY_NUM" and ok: "\<forall>h \<in> set hs. base_ok env h"
    using b by (auto simp: bases_ok_def)
  then obtain es where es: "query_entries (env_db env) ?es = Inr es" "map fst es = map fst ?es"
    "\<forall>(h, a) \<in> set es. \<exists>b. address_of env h b \<and> backed env (containerName b) \<and> decrypt_recipe env a = Inr b"
    using query_entries_ok [of ?es env] by auto
  have n: "length es = ?q" using arg_cong [OF es(2), of length] l by simp
  let ?st1 = "st\<lparr>baseQuery := es @ drop ?q (baseQuery st)\<rparr>"
  have nm: "named ?st1 = named st" by (rule named_cong) simp_all
  have i1: "ids_ok env ?st1 m" using ids unfolding ids_ok_def nm .
  have "(idNum ?st1 + length es) * CONTAINER_ID_LENGTH \<le> length (idBuffer ?st1)" using room n by simp
  from add_bases_ok [OF i1 this es(3)] obtain m' bf k brs where a:
    "add_bases env es m ?st1 = Inr (m', ?st1\<lparr>idBuffer := bf, idNum := k, baseRecipeBuffer := baseRecipeBuffer ?st1 @ brs\<rparr>)"
    "k \<le> idNum ?st1 + length es" "ids_ok env (?st1\<lparr>idBuffer := bf, idNum := k\<rparr>) m'"
    "more_ids ?st1 (?st1\<lparr>idBuffer := bf, idNum := k\<rparr>)"
    "list_all2 (base_entry env (?st1\<lparr>idBuffer := bf, idNum := k\<rparr>)) brs (map fst es)"
    by blast
  let ?st2 = "?st1\<lparr>idBuffer := bf, idNum := k\<rparr>"
  let ?st' = "?st1\<lparr>idBuffer := bf, idNum := k, baseRecipeBuffer := baseRecipeBuffer ?st1 @ brs\<rparr>"
  have n': "named ?st' = named ?st2" by (rule named_cong) simp_all
  have be: "base_entry env ?st' = base_entry env ?st2" unfolding base_entry_def entry_for_def n' ..
  have m: "more_ids st ?st'" using a(4) unfolding more_ids_def nm n' by simp
  show thesis
  proof (rule that [of m' ?st'])
    show "resolve_bases env m st = Inr (m', ?st')"
      using a(1) es(1) n by (simp add: resolve_bases_def Ocall_QueryBaseIndex_def)
    show "ids_ok env ?st' m'" using a(3) unfolding ids_ok_def n' .
    show "list_all2 (base_entry env ?st') (baseRecipeBuffer ?st') hs"
    proof -
      have "list_all2 (base_entry env ?st') brs (map fst es)" using a(5) unfolding be .
      from list_all2_appendI [OF more_ids_bases [OF m hs(2)] this] show ?thesis
        unfolding hs(1) es(2) [symmetric] by simp
    qed
  qed (use m a(2) n l in \<open>simp_all add: output_kept_def\<close>)
qed

lemma set_query_base:
  assumes "length (baseQuery st) = BASE_QUERY_NUM" "list_all2 (base_entry env st) (baseRecipeBuffer st) hs1"
    "i < BASE_QUERY_NUM" "\<forall>h \<in> set (hs1 @ map fst (take i (baseQuery st)) @ [h]). base_ok env h"
  obtains st' where "set_query i h st = Inr st'" "bases_ok env st' (hs1 @ map fst (take i (baseQuery st)) @ [h])"
    "output_kept st st'" "idNum st' = idNum st" "idBuffer st' = idBuffer st" "queryNum st' = Suc i"
proof -
  let ?st = "st\<lparr>baseQuery := (baseQuery st)[i := (h, snd (baseQuery st ! i))], queryNum := Suc i\<rparr>"
  have nm: "named ?st = named st" by (rule named_cong) simp_all
  have be: "base_entry env ?st = base_entry env st" unfolding base_entry_def entry_for_def nm ..
  have "map fst (take (Suc i) (baseQuery ?st)) = map fst (take i (baseQuery st)) @ [h]"
    using assms(1,3) by (simp add: take_Suc_conv_app_nth)
  then have "bases_ok env ?st (hs1 @ map fst (take i (baseQuery st)) @ [h])"
    using assms be by (auto simp: bases_ok_def)
  then show thesis
    using assms(1,3) by (intro that [of ?st]) (simp_all add: set_query_def output_kept_def)
qed

lemma queue_base_ok:
  assumes ids: "ids_ok env st m" and b: "bases_ok env st hs" and h: "base_ok env h"
    and room: "(idNum st + queryNum st) * CONTAINER_ID_LENGTH \<le> length (idBuffer st)"
  obtains m' st' where "queue_base env h m st = Inr (m', st')" "ids_ok env st' m'" "more_ids st st'"
    "output_kept st st'" "bases_ok env st' (hs @ [h])" "idNum st' + queryNum st' \<le> Suc (idNum st + queryNum st)"
    "1 \<le> queryNum st'"
proof (cases "queryNum st < BASE_QUERY_NUM")
  case True
  obtain hs1 where hs: "hs = hs1 @ map fst (take (queryNum st) (baseQuery st))"
    "list_all2 (base_entry env st) (baseRecipeBuffer st) hs1" "length (baseQuery st) = BASE_QUERY_NUM"
    "\<forall>h \<in> set hs. base_ok env h"
    using b by (auto simp: bases_ok_def)
  obtain st' where st': "set_query (queryNum st) h st = Inr st'"
    "bases_ok env st' (hs1 @ map fst (take (queryNum st) (baseQuery st)) @ [h])"
    "output_kept st st'" "idNum st' = idNum st" "idBuffer st' = idBuffer st" "queryNum st' = Suc (queryNum st)"
    by (rule set_query_base [OF hs(3,2) True, of h]) (use hs(1,4) h in auto)
  have nm: "named st' = named st" by (rule named_cong [OF st'(5,4)])
  show thesis
    by (rule that [of m st']) (use True st' hs(1) ids nm in \<open>simp_all add: queue_base_def ids_ok_def more_ids_def\<close>)
next
  case False
  then have q: "queryNum st = BASE_QUERY_NUM" using b by (simp add: bases_ok_def)
  obtain m1 st1 where r: "resolve_bases env m st = Inr (m1, st1)" "ids_ok env st1 m1" "more_ids st st1"
    "output_kept st st1" "idNum st1 \<le> idNum st + queryNum st" "queryNum st1 = queryNum st"
    "length (baseQuery st1) = BASE_QUERY_NUM" "list_all2 (base_entry env st1) (baseRecipeBuffer st1) hs"
    by (rule resolve_bases_ok [OF ids b room])
  have z: "0 < BASE_QUERY_NUM" by (simp add: BASE_QUERY_NUM_def)
  have ok: "\<forall>x \<in> set (hs @ map fst (take 0 (baseQuery st1)) @ [h]). base_ok env x" using b h by (simp add: bases_ok_def)
  obtain st' where st': "set_query 0 h st1 = Inr st'"
    "bases_ok env st' (hs @ map fst (take 0 (baseQuery st1)) @ [h])"
    "output_kept st1 st'" "idNum st' = idNum st1" "idBuffer st' = idBuffer st1" "queryNum st' = Suc 0"
    by (rule set_query_base [OF r(7,8) z ok])
  have nm: "named st' = named st1" by (rule named_cong [OF st'(5,4)])
  show thesis
  proof (rule that [of m1 st'])
    show "output_kept st st'" by (rule output_kept_trans [OF r(4) st'(3)])
    show "more_ids st st'" using r(3) st' nm by (simp add: more_ids_def)
  qed (use q r st' nm in \<open>simp_all add: queue_base_def ids_ok_def\<close>)
qed

section \<open>Fetching the containers\<close>

definition arrays_ok :: "restore_env \<Rightarrow> restorer \<Rightarrow> bool" where
  "arrays_ok env st \<longleftrightarrow> length (containerArray st) = CONTAINERARRAY_VALUE \<and>
     (\<forall>a \<in> set (containerArray st). length a = MAX_CONTAINER_SIZE) \<and>
     pool_ok 64 (contents (env_files env)) (containerCache st)"

lemma GetReqContainer_length:
  "GetReqContainer files out name c = Inr (out', c') \<Longrightarrow> length out' = length out"
  by (auto simp: GetReqContainer_def res_bind_eq_Inr dest: buf_write_length split: if_splits option.splits)

lemma GetReqContainers_length:
  "GetReqContainers files names outs c = Inr (outs', c') \<Longrightarrow> length outs' = length names \<and>
   ((\<forall>out \<in> set outs. length out = n) \<longrightarrow> (\<forall>out \<in> set outs'. length out = n))"
proof (induction names arbitrary: outs c outs' c')
  case Nil
  then show ?case by simp
next
  case (Cons name names)
  from Cons.prems obtain out outs1 where o: "outs = out # outs1" by (cases outs) auto
  with Cons.prems obtain out' c1 outs2 c2 where r: "GetReqContainer files out name c = Inr (out', c1)"
    "GetReqContainers files names outs1 c1 = Inr (outs2, c2)" "outs' = out' # outs2"
    by (auto simp: res_bind_eq_Inr)
  from Cons.IH [OF r(2)] GetReqContainer_length [OF r(1)] show ?case by (simp add: o r(3))
qed

lemma fetch_ok:
  assumes "arrays_ok env st" "ids_ok env st m" "idNum st \<le> CONTAINERARRAY_VALUE"
  obtains a c where "Ocall_GetReqContainers env st = Inr (st\<lparr>containerArray := a, containerCache := c\<rparr>)"
    "arrays_ok env (st\<lparr>containerArray := a, containerCache := c\<rparr>)"
    "loaded env (st\<lparr>containerArray := a, containerCache := c\<rparr>)"
proof -
  have n: "named st i x \<longleftrightarrow> i < length (requested st) \<and> requested st ! i = x" for i x
    by (auto simp: named_def requested_def)
  have l: "length (requested st) = idNum st" by (simp add: requested_def)
  have a: "length (containerArray st) = CONTAINERARRAY_VALUE"
    "\<forall>out \<in> set (containerArray st). length out = MAX_CONTAINER_SIZE"
    "pool_ok 64 (contents (env_files env)) (containerCache st)"
    using assms(1) by (simp_all add: arrays_ok_def)
  have "backed env name" if "name \<in> set (requested st)" for name
    using that assms(2) n by (auto simp: ids_ok_def in_set_conv_nth)
  then have b: "\<forall>name \<in> set (requested st). \<exists>f. container_file (env_files env) name = Some f \<and> length f \<le> MAX_CONTAINER_SIZE"
    by (auto simp: backed_def)
  have "length (requested st) \<le> length (containerArray st)" using l a(1) assms(3) by simp
  from GetReqContainers_ok [OF a(3) this a(2) b] obtain outs c where
    g: "GetReqContainers (env_files env) (requested st) (containerArray st) (containerCache st) = Inr (outs, c)"
      "pool_ok 64 (contents (env_files env)) c"
      "list_all2 (\<lambda>name out. take (length (contents (env_files env) name)) out = contents (env_files env) name) (requested st) outs"
    by blast
  have lo: "length outs = idNum st" "\<forall>out \<in> set outs. length out = MAX_CONTAINER_SIZE"
    using GetReqContainers_length [OF g(1), of MAX_CONTAINER_SIZE] a(2) l by simp_all
  let ?a = "outs @ drop (idNum st) (containerArray st)"
  let ?st = "st\<lparr>containerArray := ?a, containerCache := c\<rparr>"
  have nm: "named ?st = named st" by (rule named_cong) simp_all
  show thesis
  proof (rule that [where a = ?a and c = c])
    show "Ocall_GetReqContainers env st = Inr ?st" by (simp add: Ocall_GetReqContainers_def g(1))
    show "arrays_ok env ?st" using a lo g(2) assms(3) by (auto simp: arrays_ok_def dest: in_set_dropD)
    show "loaded env ?st"
      using list_all2_nthD [OF g(3)] lo(1) by (auto simp: loaded_def nm n l nth_append)
  qed
qed

section \<open>A window\<close>

definition fresh :: "restorer \<Rightarrow> bool" where
  "fresh st \<longleftrightarrow> idNum st = 0 \<and> queryNum st = 0 \<and> enclaveRecipeBuffer st = [] \<and> baseRecipeBuffer st = [] \<and>
     length (baseQuery st) = BASE_QUERY_NUM"

text \<open>The chunks \<open>chunks\<close> with the recipes \<open>rs\<close> wait; what came before was sent or is in the message.\<close>

definition waiting :: "restore_env \<Rightarrow> restorer \<Rightarrow> id_map \<Rightarrow> RecipeEntry_t list \<Rightarrow> byte list list
    \<Rightarrow> byte list list \<Rightarrow> byte list list \<Rightarrow> bool" where
  "waiting env st m rs chunks cs buf \<longleftrightarrow> ids_ok env st m \<and> bases_ok env st (delta_hashes rs) \<and>
     list_all2 (entry_for st) (enclaveRecipeBuffer st) rs \<and> list_all2 (restores env) rs chunks \<and>
     arrays_ok env st \<and> in_message env st cs buf \<and> length buf < sendChunkBatchSize env \<and>
     (idNum st + queryNum st) * CONTAINER_ID_LENGTH \<le> length (idBuffer st) \<and>
     idNum st + queryNum st \<le> Suc CONTAINER_CAPPING_VALUE"

lemma resolved:
  assumes w: "waiting env st m rs chunks cs buf"
  obtains m' st' where "(if queryNum st \<noteq> 0 then resolve_bases env m st else Inr (m, st)) = Inr (m', st')"
    "ids_ok env st' m'" "list_all2 (entry_for st') (enclaveRecipeBuffer st') rs" "arrays_ok env st'"
    "in_message env st' cs buf" "idNum st' \<le> Suc CONTAINER_CAPPING_VALUE" "length (idBuffer st') = length (idBuffer st)"
    "list_all2 (base_entry env st') (baseRecipeBuffer st') (delta_hashes rs)" "length (baseQuery st') = BASE_QUERY_NUM"
    "queryNum st' = queryNum st" "enclaveRecipeBuffer st' = enclaveRecipeBuffer st"
proof (cases "queryNum st = 0")
  case True
  with w show thesis by (intro that [of m st]) (auto simp: waiting_def bases_ok_def)
next
  case False
  have w': "ids_ok env st m" "bases_ok env st (delta_hashes rs)" "(idNum st + queryNum st) * CONTAINER_ID_LENGTH \<le> length (idBuffer st)"
    using w by (simp_all add: waiting_def)
  obtain m' st' where r: "resolve_bases env m st = Inr (m', st')" "ids_ok env st' m'" "more_ids st st'"
    "output_kept st st'" "idNum st' \<le> idNum st + queryNum st" "queryNum st' = queryNum st"
    "length (baseQuery st') = BASE_QUERY_NUM" "list_all2 (base_entry env st') (baseRecipeBuffer st') (delta_hashes rs)"
    by (rule resolve_bases_ok [OF w'])
  have e: "enclaveRecipeBuffer st' = enclaveRecipeBuffer st" using r(4) by (simp add: output_kept_def)
  show thesis
  proof (rule that [of m' st'])
    show "list_all2 (entry_for st') (enclaveRecipeBuffer st') rs"
      using more_ids_entries [OF r(3)] w by (simp add: e waiting_def)
    show "arrays_ok env st'" using w r(4) by (simp add: waiting_def arrays_ok_def output_kept_def)
    show "in_message env st' cs buf" using w output_kept_message [OF r(4)] by (simp add: waiting_def)
  qed (use False r e w in \<open>simp_all add: waiting_def more_ids_def\<close>)
qed

lemma fetched:
  assumes "ids_ok env st m" "list_all2 (entry_for st) (enclaveRecipeBuffer st) rs" "arrays_ok env st"
    "in_message env st cs buf" "idNum st \<le> Suc CONTAINER_CAPPING_VALUE"
    "list_all2 (base_entry env st) (baseRecipeBuffer st) (delta_hashes rs)"
  obtains st' where "Ocall_GetReqContainers env (st\<lparr>queryNum := 0\<rparr>) = Inr st'" "arrays_ok env st'" "loaded env st'"
    "in_message env st' cs buf" "list_all2 (entry_for st') (enclaveRecipeBuffer st') rs"
    "list_all2 (base_entry env st') (drop 0 (baseRecipeBuffer st')) (delta_hashes rs)"
    "idBuffer st' = idBuffer st" "baseQuery st' = baseQuery st" "enclaveRecipeBuffer st' = enclaveRecipeBuffer st"
proof -
  let ?st = "st\<lparr>queryNum := 0\<rparr>"
  have nm: "named ?st = named st" by (rule named_cong) simp_all
  have "arrays_ok env ?st" "ids_ok env ?st m" "idNum ?st \<le> CONTAINERARRAY_VALUE"
    using assms(1,3,5) by (simp_all add: arrays_ok_def ids_ok_def nm CONTAINER_CAPPING_VALUE_def CONTAINERARRAY_VALUE_def)
  then obtain a c where f: "Ocall_GetReqContainers env ?st = Inr (?st\<lparr>containerArray := a, containerCache := c\<rparr>)"
    "arrays_ok env (?st\<lparr>containerArray := a, containerCache := c\<rparr>)"
    "loaded env (?st\<lparr>containerArray := a, containerCache := c\<rparr>)" by (rule fetch_ok)
  let ?st' = "?st\<lparr>containerArray := a, containerCache := c\<rparr>"
  have nm': "named ?st' = named st" by (rule named_cong) simp_all
  have en: "entry_for ?st' = entry_for st" by (simp only: entry_for_def nm' fun_eq_iff) simp
  have be: "base_entry env ?st' = base_entry env st" by (intro ext) (simp only: base_entry_def en)
  show thesis
    by (rule that [OF f]) (use assms en be in \<open>simp_all add: in_message_def\<close>)
qed

lemma restore_window_ok:
  assumes env: "env_ok env" and w: "waiting env st m rs chunks cs buf"
  obtains st' cs' buf' where "restore_window env m st = Inr st'" "fresh st'" "arrays_ok env st'"
    "in_message env st' cs' buf'" "length buf' < sendChunkBatchSize env" "cs' @ buf' = cs @ buf @ chunks"
    "length (idBuffer st') = length (idBuffer st)"
proof -
  obtain m1 st1 where r: "(if queryNum st \<noteq> 0 then resolve_bases env m st else Inr (m, st)) = Inr (m1, st1)"
    "ids_ok env st1 m1" "list_all2 (entry_for st1) (enclaveRecipeBuffer st1) rs" "arrays_ok env st1"
    "in_message env st1 cs buf" "idNum st1 \<le> Suc CONTAINER_CAPPING_VALUE" "length (idBuffer st1) = length (idBuffer st)"
    "list_all2 (base_entry env st1) (baseRecipeBuffer st1) (delta_hashes rs)" "length (baseQuery st1) = BASE_QUERY_NUM"
    "queryNum st1 = queryNum st" "enclaveRecipeBuffer st1 = enclaveRecipeBuffer st"
    by (rule resolved [OF w])
  obtain st2 where f: "Ocall_GetReqContainers env (st1\<lparr>queryNum := 0\<rparr>) = Inr st2" "arrays_ok env st2" "loaded env st2"
    "in_message env st2 cs buf" "list_all2 (entry_for st2) (enclaveRecipeBuffer st2) rs"
    "list_all2 (base_entry env st2) (drop 0 (baseRecipeBuffer st2)) (delta_hashes rs)"
    "idBuffer st2 = idBuffer st1" "baseQuery st2 = baseQuery st1" "enclaveRecipeBuffer st2 = enclaveRecipeBuffer st1"
    by (rule fetched [OF r(2-6,8)])
  have lb: "length buf < sendChunkBatchSize env" "list_all2 (restores env) rs chunks" using w by (simp_all add: waiting_def)
  obtain st3 cs' buf' where c: "restore_chunks env (enclaveRecipeBuffer st2) 0 st2 = Inr st3" "in_message env st3 cs' buf'"
    "length buf' < sendChunkBatchSize env" "cs' @ buf' = cs @ buf @ chunks" "same_requests st2 st3"
    using restore_chunks_ok [OF env f(3,4) lb(1) f(5) lb(2) f(6)] by blast
  have q: "(if queryNum st \<noteq> 0 then res_bind (resolve_bases env m st) (\<lambda>(m, st). Inr (st\<lparr>queryNum := 0\<rparr>)) else Inr st) =
      Inr (st1\<lparr>queryNum := 0\<rparr>)"
    using r(1) by (cases "queryNum st = 0") auto
  show thesis
  proof (rule that [of "reset_requests st3" cs' buf'])
    show "restore_window env m st = Inr (reset_requests st3)"
      unfolding restore_window_def q using f(1) c(1) by simp
    show "fresh (reset_requests st3)" using c(5) f(8) r(9) by (simp add: fresh_def reset_requests_def same_requests_def)
    show "arrays_ok env (reset_requests st3)" using f(2) c(5) by (simp add: arrays_ok_def reset_requests_def same_requests_def)
    show "in_message env (reset_requests st3) cs' buf'" using c(2) by (simp add: in_message_def reset_requests_def)
    show "length (idBuffer (reset_requests st3)) = length (idBuffer st)"
      using c(5) f(7) r(7) by (simp add: reset_requests_def same_requests_def)
  qed (use c in simp_all)
qed


section \<open>Entries, batches, files\<close>

text \<open>
  Between two entries.  There is room for \<open>n\<close> container names; with delta chunks a window can
  ask for one container more than the capping value.
\<close>

definition collecting :: "restore_env \<Rightarrow> nat \<Rightarrow> restorer \<Rightarrow> id_map \<Rightarrow> RecipeEntry_t list \<Rightarrow> byte list list
    \<Rightarrow> byte list list \<Rightarrow> byte list list \<Rightarrow> bool" where
  "collecting env n st m rs chunks cs buf \<longleftrightarrow> waiting env st m rs chunks cs buf \<and>
     idNum st + queryNum st < CONTAINER_CAPPING_VALUE \<and> length (idBuffer st) = n * CONTAINER_ID_LENGTH"

definition enough_ids :: "nat \<Rightarrow> RecipeEntry_t \<Rightarrow> bool" where
  "enough_ids n r \<longleftrightarrow> CONTAINER_CAPPING_VALUE < n \<or> CONTAINER_CAPPING_VALUE = n \<and> re_deltaFlag r \<noteq> DELTA"

lemma fresh_collecting:
  assumes "fresh st" "arrays_ok env st" "in_message env st cs buf" "length buf < sendChunkBatchSize env"
    "length (idBuffer st) = n * CONTAINER_ID_LENGTH"
  shows "collecting env n st Map.empty [] [] cs buf"
proof -
  have "\<not> named st i x" for i x using assms(1) by (simp add: named_def fresh_def)
  then have "ids_ok env st Map.empty" by (simp add: ids_ok_def)
  then show ?thesis
    using assms by (simp add: collecting_def waiting_def fresh_def bases_ok_def CONTAINER_CAPPING_VALUE_def)
qed

lemma collecting_restart: "collecting env n st m rs chunks cs buf \<Longrightarrow> collecting env n st Map.empty rs chunks cs buf"
  unfolding collecting_def waiting_def ids_ok_def by auto

lemma queue_step:
  assumes c: "collecting env n st m rs chunks cs buf" and r: "restores env r chunk" and n: "enough_ids n r"
  obtains m' st' where "(if re_deltaFlag r = DELTA then queue_base env (basechunkHash r) m st else Inr (m, st)) = Inr (m', st')"
    "ids_ok env st' m'" "more_ids st st'" "output_kept st st'" "bases_ok env st' (delta_hashes (rs @ [r]))"
    "Suc (idNum st') * CONTAINER_ID_LENGTH \<le> length (idBuffer st')" "Suc (idNum st' + queryNum st') \<le> n"
    "Suc (idNum st' + queryNum st') \<le> Suc CONTAINER_CAPPING_VALUE"
proof (cases "re_deltaFlag r = DELTA")
  case True
  have w: "ids_ok env st m" "bases_ok env st (delta_hashes rs)"
    "(idNum st + queryNum st) * CONTAINER_ID_LENGTH \<le> length (idBuffer st)"
    using c unfolding collecting_def waiting_def by blast+
  obtain m' st' where q: "queue_base env (basechunkHash r) m st = Inr (m', st')" "ids_ok env st' m'" "more_ids st st'"
    "output_kept st st'" "bases_ok env st' (delta_hashes rs @ [basechunkHash r])"
    "idNum st' + queryNum st' \<le> Suc (idNum st + queryNum st)" "1 \<le> queryNum st'"
    by (rule queue_base_ok [OF w(1,2) restores_backed(2) [OF r True] w(3)])
  have l: "length (idBuffer st') = n * CONTAINER_ID_LENGTH" using q(3) c by (simp add: more_ids_def collecting_def)
  have b: "idNum st' + queryNum st' \<le> CONTAINER_CAPPING_VALUE" "CONTAINER_CAPPING_VALUE < n"
    using q(6) c n True by (simp_all add: collecting_def enough_ids_def)
  then have "Suc (idNum st') \<le> n" using q(7) by linarith
  then have "Suc (idNum st') * CONTAINER_ID_LENGTH \<le> length (idBuffer st')" unfolding l by (rule mult_le_mono1)
  with True q b show thesis by (intro that [of m' st']) simp_all
next
  case False
  have b: "idNum st + queryNum st < CONTAINER_CAPPING_VALUE" "CONTAINER_CAPPING_VALUE \<le> n"
    using c n by (auto simp: collecting_def enough_ids_def)
  then have "Suc (idNum st) \<le> n" by linarith
  then have "Suc (idNum st) * CONTAINER_ID_LENGTH \<le> length (idBuffer st)"
    using c mult_le_mono1 by (simp only: collecting_def)
  with False b c show thesis
    by (intro that [of m st]) (simp_all add: collecting_def waiting_def more_ids_refl output_kept_def)
qed

lemma proc_entry_ok:
  assumes env: "env_ok env" and c: "collecting env n st m rs chunks cs buf"
    and r: "address_of env key r" "restores env r chunk" and n: "enough_ids n r"
  shows "\<exists>m' st' rs' chunks' cs' buf'. proc_entry env r m st = Inr (m', st') \<and>
    collecting env n st' m' rs' chunks' cs' buf' \<and> cs' @ buf' @ chunks' = cs @ buf @ chunks @ [chunk]"
proof -
  obtain m1 st1 where q: "(if re_deltaFlag r = DELTA then queue_base env (basechunkHash r) m st else Inr (m, st)) = Inr (m1, st1)"
    "ids_ok env st1 m1" "more_ids st st1" "output_kept st st1" "bases_ok env st1 (delta_hashes (rs @ [r]))"
    "Suc (idNum st1) * CONTAINER_ID_LENGTH \<le> length (idBuffer st1)" "Suc (idNum st1 + queryNum st1) \<le> n"
    "Suc (idNum st1 + queryNum st1) \<le> Suc CONTAINER_CAPPING_VALUE"
    by (rule queue_step [OF c r(2) n])
  obtain i m2 b k where p: "request_container (containerName r) m1 st1 = Inr (i, m2, st1\<lparr>idBuffer := b, idNum := k\<rparr>)"
    "k \<le> Suc (idNum st1)" "ids_ok env (st1\<lparr>idBuffer := b, idNum := k\<rparr>) m2"
    "named (st1\<lparr>idBuffer := b, idNum := k\<rparr>) i (containerName r)" "more_ids st1 (st1\<lparr>idBuffer := b, idNum := k\<rparr>)"
    by (rule request_container_ok [OF q(2) address_name [OF r(1)] restores_backed(1) [OF r(2)] q(6)])
  let ?st2 = "st1\<lparr>idBuffer := b, idNum := k\<rparr>"
  let ?st3 = "?st2\<lparr>enclaveRecipeBuffer := enclaveRecipeBuffer st1 @ [recipe_entry i r]\<rparr>"
  have nm: "named ?st3 = named ?st2" by (rule named_cong) simp_all
  have en: "entry_for ?st3 = entry_for ?st2" unfolding entry_for_def nm ..
  have be: "base_entry env ?st3 = base_entry env ?st2" unfolding base_entry_def en ..
  have m13: "more_ids st ?st2" by (rule more_ids_trans [OF q(3) p(5)])
  have w0: "list_all2 (entry_for st) (enclaveRecipeBuffer st) rs" "list_all2 (restores env) rs chunks"
    "arrays_ok env st" "in_message env st cs buf" "length buf < sendChunkBatchSize env"
    using c unfolding collecting_def waiting_def by blast+
  have e1: "list_all2 (entry_for ?st2) (enclaveRecipeBuffer st1) rs"
    using more_ids_entries [OF m13 w0(1)] q(4) by (simp add: output_kept_def)
  have e2: "entry_for ?st2 (recipe_entry i r) r" using p(4) by (simp add: entry_for_def recipe_entry_def)
  have "list_all2 (entry_for ?st3) (enclaveRecipeBuffer ?st3) (rs @ [r])"
    using list_all2_appendI [OF e1, of "[recipe_entry i r]" "[r]"] e2 unfolding en by simp
  moreover have "bases_ok env ?st3 (delta_hashes (rs @ [r]))"
  proof -
    obtain hs1 where h: "delta_hashes (rs @ [r]) = hs1 @ map fst (take (queryNum st1) (baseQuery st1))"
      "list_all2 (base_entry env st1) (baseRecipeBuffer st1) hs1" using q(5) by (auto simp: bases_ok_def)
    have "list_all2 (base_entry env ?st3) (baseRecipeBuffer st1) hs1"
      unfolding be by (rule more_ids_bases [OF p(5) h(2)])
    with h(1) q(5) show ?thesis
      unfolding bases_ok_def by (intro conjI exI [of _ hs1]) (simp_all del: delta_hashes_simps)
  qed
  moreover have "ids_ok env ?st3 m2" using p(3) unfolding ids_ok_def nm .
  moreover have "list_all2 (restores env) (rs @ [r]) (chunks @ [chunk])"
    using w0(2) r(2) by (intro list_all2_appendI) simp_all
  moreover have "arrays_ok env ?st3" "in_message env ?st3 cs buf" "length buf < sendChunkBatchSize env"
    using w0 q(4) by (simp_all add: arrays_ok_def in_message_def output_kept_def)
  moreover have l: "length (idBuffer ?st3) = n * CONTAINER_ID_LENGTH"
    using m13 c by (simp add: more_ids_def collecting_def)
  moreover have s: "idNum ?st3 + queryNum ?st3 \<le> n" "idNum ?st3 + queryNum ?st3 \<le> Suc CONTAINER_CAPPING_VALUE"
    using p(2) q(7,8) by simp_all
  moreover have "(idNum ?st3 + queryNum ?st3) * CONTAINER_ID_LENGTH \<le> length (idBuffer ?st3)"
    unfolding l by (rule mult_le_mono1 [OF s(1)])
  ultimately have w: "waiting env ?st3 m2 (rs @ [r]) (chunks @ [chunk]) cs buf"
    unfolding waiting_def by blast
  have pe: "proc_entry env r m st = (if CONTAINER_CAPPING_VALUE \<le> idNum ?st3 + queryNum ?st3
      then res_bind (restore_window env m2 ?st3) (\<lambda>st. Inr (Map.empty, st)) else Inr (m2, ?st3))"
    unfolding proc_entry_def q(1) by (simp add: p(1))
  show ?thesis
  proof (cases "CONTAINER_CAPPING_VALUE \<le> idNum ?st3 + queryNum ?st3")
    case True
    obtain st4 cs' buf' where x: "restore_window env m2 ?st3 = Inr st4" "fresh st4" "arrays_ok env st4"
      "in_message env st4 cs' buf'" "length buf' < sendChunkBatchSize env" "cs' @ buf' = cs @ buf @ chunks @ [chunk]"
      "length (idBuffer st4) = length (idBuffer ?st3)"
      by (rule restore_window_ok [OF env w])
    have "collecting env n st4 Map.empty [] [] cs' buf'"
      by (rule fresh_collecting [OF x(2-5)]) (use x(7) l in simp)
    then show ?thesis unfolding pe using True x(1,6)
      by (intro exI [of _ Map.empty] exI [of _ st4] exI [of _ "[]"] exI [of _ cs'] exI [of _ buf']) simp
  next
    case False
    then have "collecting env n ?st3 m2 (rs @ [r]) (chunks @ [chunk]) cs buf"
      using w l by (simp add: collecting_def)
    then show ?thesis unfolding pe using False
      by (intro exI [of _ m2] exI [of _ ?st3] exI [of _ "rs @ [r]"] exI [of _ "chunks @ [chunk]"] exI [of _ cs] exI [of _ buf]) simp
  qed
qed


lemma buf_read_block:
  "\<forall>x \<in> set xs. length x = n \<Longrightarrow> i < length xs \<Longrightarrow> buf_read (concat xs) (i * n) n = Inr (xs ! i)"
proof (induction xs arbitrary: i)
  case Nil
  then show ?case by simp
next
  case (Cons x xs)
  show ?case
  proof (cases i)
    case 0
    then show ?thesis using Cons.prems(1) by (simp add: buf_read_def bslice_def)
  next
    case (Suc j)
    have "buf_read (concat xs) (j * n) n = Inr (xs ! j)" using Suc Cons.prems Cons.IH [of j] by simp
    then show ?thesis using Suc Cons.prems(1) by (simp add: buf_read_Inr bslice_append_right)
  qed
qed

lemma length_blocks: "\<forall>x \<in> set xs. length x = n \<Longrightarrow> length (concat xs) = length xs * n"
  by (induction xs) simp_all

text \<open>An entry of the index for a chunk of the recipe, and room for its containers.\<close>

definition found :: "restore_env \<Rightarrow> nat \<Rightarrow> byte list \<Rightarrow> byte list \<Rightarrow> bool" where
  "found env n v chunk \<longleftrightarrow> length v = sizeof_RecipeEntry \<and>
     (\<exists>key r. decrypt_recipe env v = Inr r \<and> address_of env key r \<and> restores env r chunk \<and> enough_ids n r)"

lemma proc_entries_ok:
  assumes env: "env_ok env" and l: "\<forall>v \<in> set vs. length v = sizeof_RecipeEntry"
  shows "i \<le> length vs \<Longrightarrow> list_all2 (found env n) (drop i vs) chunks1 \<Longrightarrow> collecting env n st m rs chunks cs buf \<Longrightarrow>
    \<exists>m' st' rs' chunks' cs' buf'. proc_entries env (concat vs) i (length vs - i) m st = Inr st' \<and>
      collecting env n st' m' rs' chunks' cs' buf' \<and> cs' @ buf' @ chunks' = cs @ buf @ chunks @ chunks1"
proof (induction "length vs - i" arbitrary: i chunks1 m st rs chunks cs buf)
  case 0
  then have "length vs - i = 0" "chunks1 = []" by simp_all
  with 0 show ?case by (metis append_Nil2 proc_entries.simps(1))
next
  case (Suc k)
  have i: "i < length vs" using Suc.hyps(2) by simp
  have d: "drop i vs = vs ! i # drop (Suc i) vs" using i by (simp add: Cons_nth_drop_Suc)
  obtain chunk chunks2 where c: "chunks1 = chunk # chunks2" "found env n (vs ! i) chunk"
    "list_all2 (found env n) (drop (Suc i) vs) chunks2"
    using Suc.prems(2) by (auto simp: d list_all2_Cons1)
  obtain key r where r: "decrypt_recipe env (vs ! i) = Inr r" "address_of env key r" "restores env r chunk" "enough_ids n r"
    using c(2) by (auto simp: found_def)
  obtain m1 st1 rs1 ch1 cs1 buf1 where p: "proc_entry env r m st = Inr (m1, st1)"
    "collecting env n st1 m1 rs1 ch1 cs1 buf1" "cs1 @ buf1 @ ch1 = cs @ buf @ chunks @ [chunk]"
    using proc_entry_ok [OF env Suc.prems(3) r(2-4)] by blast
  have k: "k = length vs - Suc i" "Suc i \<le> length vs" using Suc.hyps(2) i by simp_all
  obtain m' st' rs' chunks' cs' buf' where h: "proc_entries env (concat vs) (Suc i) (length vs - Suc i) m1 st1 = Inr st'"
    "collecting env n st' m' rs' chunks' cs' buf'" "cs' @ buf' @ chunks' = cs1 @ buf1 @ ch1 @ chunks2"
    using Suc.hyps(1) [OF k c(3) p(2)] by blast
  have "proc_entries env (concat vs) i (length vs - i) m st = Inr st'"
    using buf_read_block [OF l i] r(1) p(1) h(1) by (simp add: Suc.hyps(2) [symmetric] k(1))
  moreover have "cs' @ buf' @ chunks' = cs @ buf @ chunks @ chunks1"
    using h(3) p(3) c(1) by (metis append.assoc append_Cons append_Nil)
  ultimately show ?case using h(2) by blast
qed

lemma index_keys_ok:
  assumes l: "\<forall>fp \<in> set fps. length fp = CHUNK_HASH_SIZE"
    and k: "list_all2 (\<lambda>fp key. IndexAESCMCEnc (env_ssl env) cryptoObj fp (indexQueryKey env) = Inr key) fps keys"
  shows "i \<le> length fps \<Longrightarrow> index_keys env (concat fps) i (length fps - i) = Inr (concat (drop i keys))"
proof (induction "length fps - i" arbitrary: i)
  case 0
  then show ?case using list_all2_lengthD [OF k] by simp
next
  case (Suc n)
  have i: "i < length fps" "n = length fps - Suc i" "Suc i \<le> length fps" using Suc.hyps(2) by simp_all
  have "drop i keys = keys ! i # drop (Suc i) keys"
    using i(1) list_all2_lengthD [OF k] by (simp add: Cons_nth_drop_Suc)
  moreover have "IndexAESCMCEnc (env_ssl env) cryptoObj (fps ! i) (indexQueryKey env) = Inr (keys ! i)"
    by (rule list_all2_nthD [OF k i(1)])
  ultimately show ?case
    using buf_read_block [OF l i(1)] Suc.hyps(1) [OF i(2,3)] by (simp add: Suc.hyps(2) [symmetric] i(2))
qed

lemma read_index_ok:
  assumes l: "\<forall>key \<in> set keys. length key = CHUNK_HASH_SIZE"
    and k: "list_all2 (\<lambda>key v. Query key db = Some v) keys vs"
  shows "i \<le> length keys \<Longrightarrow> read_index db (concat keys) i (length keys - i) val = Inr (concat (drop i vs))"
proof (induction "length keys - i" arbitrary: i val)
  case 0
  then show ?case using list_all2_lengthD [OF k] by simp
next
  case (Suc n)
  have i: "i < length keys" "n = length keys - Suc i" "Suc i \<le> length keys" using Suc.hyps(2) by simp_all
  have "drop i vs = vs ! i # drop (Suc i) vs"
    using i(1) list_all2_lengthD [OF k] by (simp add: Cons_nth_drop_Suc)
  moreover have "QueryBuffer (keys ! i) CHUNK_HASH_SIZE db = Inr (Some (vs ! i))"
    using list_all2_nthD [OF k i(1)] l i(1) by (simp add: QueryBuffer_def Query_def buf_read_def bslice_full)
  ultimately show ?case
    using buf_read_block [OF l i(1)] Suc.hyps(1) [OF i(2,3), of "vs ! i"]
    by (simp add: Suc.hyps(2) [symmetric] i(2))
qed

text \<open>The entries of a recipe leave room in the buffer of container names.\<close>

definition recipe_room :: "restore_env \<Rightarrow> nat \<Rightarrow> byte list list \<Rightarrow> bool" where
  "recipe_room env n fps \<longleftrightarrow> (\<forall>fp \<in> set fps. \<forall>key r.
     IndexAESCMCEnc (env_ssl env) cryptoObj fp (indexQueryKey env) = Inr key \<and> address_of env key r \<longrightarrow> enough_ids n r)"

lemma restorable_found:
  assumes "list_all2 (restorable env) fps chunks" "recipe_room env n fps"
  obtains keys vs where
    "list_all2 (\<lambda>fp key. IndexAESCMCEnc (env_ssl env) cryptoObj fp (indexQueryKey env) = Inr key) fps keys"
    "\<forall>key \<in> set keys. length key = CHUNK_HASH_SIZE" "list_all2 (\<lambda>key v. Query key (env_db env) = Some v) keys vs"
    "list_all2 (found env n) vs chunks"
  using assms
proof (induction fps chunks arbitrary: thesis rule: list_all2_induct)
  case Nil
  show ?case by (rule Nil(1) [of "[]" "[]"]) simp_all
next
  case (Cons fp fps chunk chunks)
  have "recipe_room env n fps" using Cons.prems(2) unfolding recipe_room_def list.set(2) by blast
  then obtain keys vs where ih:
    "list_all2 (\<lambda>fp key. IndexAESCMCEnc (env_ssl env) cryptoObj fp (indexQueryKey env) = Inr key) fps keys"
    "\<forall>key \<in> set keys. length key = CHUNK_HASH_SIZE" "list_all2 (\<lambda>key v. Query key (env_db env) = Some v) keys vs"
    "list_all2 (found env n) vs chunks" using Cons.IH by blast
  obtain key r where k: "IndexAESCMCEnc (env_ssl env) cryptoObj fp (indexQueryKey env) = Inr key" "address_of env key r"
    "restores env r chunk" using Cons.hyps(1) by (auto simp: restorable_def)
  then obtain v where v: "length key = CHUNK_HASH_SIZE" "Query key (env_db env) = Some v" "length v = sizeof_RecipeEntry"
    "decrypt_recipe env v = Inr r" by (auto simp: address_of_def)
  have "enough_ids n r" using Cons.prems(2) k(1,2) unfolding recipe_room_def list.set(2) by blast
  with v k have "found env n v chunk" by (auto simp: found_def)
  with ih k(1) v show ?case by (intro Cons.prems(1) [of "key # keys" "v # vs"]) simp_all
qed

lemma ProcRecipeBatch_ok:
  assumes env: "env_ok env" and r: "list_all2 (restorable env) fps chunks1" "recipe_room env n fps"
    and e: "EncryptWithKey (env_ssl env) cryptoObj (concat fps) (masterKey env) = Inr c"
    and st: "collecting env n st m rs chunks cs buf"
  shows "\<exists>m' st' rs' chunks' cs' buf'. ProcRecipeBatch env c (length fps) st = Inr st' \<and>
    collecting env n st' m' rs' chunks' cs' buf' \<and> cs' @ buf' @ chunks' = cs @ buf @ chunks @ chunks1"
proof -
  have k: "openssl_ok (env_ssl env)" "length (masterKey env) = 32" using env by (simp_all add: env_ok_def)
  have l: "\<forall>fp \<in> set fps. length fp = CHUNK_HASH_SIZE"
    using r(1) by (induction rule: list_all2_induct) (auto simp: restorable_def)
  obtain keys vs where kv:
    "list_all2 (\<lambda>fp key. IndexAESCMCEnc (env_ssl env) cryptoObj fp (indexQueryKey env) = Inr key) fps keys"
    "\<forall>key \<in> set keys. length key = CHUNK_HASH_SIZE" "list_all2 (\<lambda>key v. Query key (env_db env) = Some v) keys vs"
    "list_all2 (found env n) vs chunks1" by (rule restorable_found [OF r])
  have ln: "length keys = length fps" "length vs = length fps"
    using list_all2_lengthD [OF kv(1)] list_all2_lengthD [OF kv(3)] by simp_all
  have lc: "length (concat fps) = length fps * CHUNK_HASH_SIZE" "length (concat keys) = length keys * CHUNK_HASH_SIZE"
    using length_blocks [OF l] length_blocks [OF kv(2)] by simp_all
  have lv: "\<forall>v \<in> set vs. length v = sizeof_RecipeEntry"
    using kv(4) by (induction rule: list_all2_induct) (auto simp: found_def)
  obtain c' where "EncryptWithKey (env_ssl env) cryptoObj (concat fps) (masterKey env) = Inr c'" "length c' = length (concat fps)"
    "DecryptWithKey (env_ssl env) cryptoObj c' (masterKey env) = Inr (concat fps)" by (rule EncryptWithKey_ok [OF k])
  with e have c: "length c = length fps * CHUNK_HASH_SIZE"
    "DecryptWithKey (env_ssl env) cryptoObj c (masterKey env) = Inr (concat fps)" using lc(1) by simp_all
  have ik: "index_keys env (concat fps) 0 (length fps) = Inr (concat keys)"
    using index_keys_ok [OF l kv(1), of 0] by simp
  have ri: "Ocall_ReadIndexStoreBatch (env_db env) (concat keys) (length fps * CHUNK_HASH_SIZE) = Inr (concat vs)"
    using read_index_ok [OF kv(2,3), of 0 "[]"] ln(1) by (simp add: Ocall_ReadIndexStoreBatch_def CHUNK_HASH_SIZE_def)
  have "ProcRecipeBatch env c (length fps) st = proc_entries env (concat vs) 0 (length vs - 0) Map.empty st"
    using c ik ri ln(2) by (simp add: ProcRecipeBatch_def buf_read_def bslice_full)
  with proc_entries_ok [OF env lv, of 0 n chunks1 st Map.empty rs chunks cs buf] kv(4) collecting_restart [OF st]
  show ?thesis by simp
qed


text \<open>The recipe file of some fingerprints: they are encrypted in batches.\<close>

function recipe_file :: "restore_env \<Rightarrow> byte list list \<Rightarrow> byte list res" where
  "recipe_file env fps =
     (if fps = [] \<or> sendRecipeBatchSize env = 0 then Inr []
      else res_bind (EncryptWithKey (env_ssl env) cryptoObj (concat (take (sendRecipeBatchSize env) fps)) (masterKey env)) (\<lambda>c.
           res_bind (recipe_file env (drop (sendRecipeBatchSize env) fps)) (\<lambda>rest. Inr (c @ rest))))"
  by pat_completeness auto
termination
  by (relation "measure (\<lambda>(env, fps). length fps)") auto

declare recipe_file.simps [simp del]

lemma recipe_room_append: "recipe_room env n (fps @ fps') \<longleftrightarrow> recipe_room env n fps \<and> recipe_room env n fps'"
  by (auto simp: recipe_room_def)

lemma restorable_length: "list_all2 (restorable env) fps chunks \<Longrightarrow> \<forall>fp \<in> set fps. length fp = CHUNK_HASH_SIZE"
  by (induction rule: list_all2_induct) (auto simp: restorable_def)

lemma restore_batches_ok:
  assumes env: "env_ok env"
  shows "list_all2 (restorable env) fps chunks1 \<Longrightarrow> recipe_room env n fps \<Longrightarrow> recipe_file env fps = Inr rfile \<Longrightarrow>
    collecting env n st m rs chunks cs buf \<Longrightarrow>
    \<exists>m' st' rs' chunks' cs' buf'. restore_batches env rfile st = Inr st' \<and>
      collecting env n st' m' rs' chunks' cs' buf' \<and> cs' @ buf' @ chunks' = cs @ buf @ chunks @ chunks1"
proof (induction "length fps" arbitrary: fps chunks1 rfile m st rs chunks cs buf rule: less_induct)
  case less
  let ?B = "sendRecipeBatchSize env"
  have B: "0 < ?B" using env by (simp add: env_ok_def)
  have ssl: "openssl_ok (env_ssl env)" "length (masterKey env) = 32" using env by (simp_all add: env_ok_def)
  show ?case
  proof (cases "fps = []")
    case True
    then have "rfile = []" "chunks1 = []" using less.prems(1,3) by (simp_all add: recipe_file.simps [of env "[]"])
    moreover have "restore_batches env [] st = Inr st" by (subst restore_batches.simps) simp
    ultimately show ?thesis using less.prems(4) by (metis append_Nil2)
  next
    case False
    let ?f1 = "take ?B fps" and ?f2 = "drop ?B fps"
    obtain c rest where c: "EncryptWithKey (env_ssl env) cryptoObj (concat ?f1) (masterKey env) = Inr c"
      "recipe_file env ?f2 = Inr rest" "rfile = c @ rest"
      using less.prems(3) False B by (subst (asm) recipe_file.simps) (auto simp: res_bind_eq_Inr)
    obtain c' where "EncryptWithKey (env_ssl env) cryptoObj (concat ?f1) (masterKey env) = Inr c'" "length c' = length (concat ?f1)"
      "DecryptWithKey (env_ssl env) cryptoObj c' (masterKey env) = Inr (concat ?f1)" by (rule EncryptWithKey_ok [OF ssl])
    moreover have "length (concat ?f1) = length ?f1 * CHUNK_HASH_SIZE"
      using restorable_length [OF less.prems(1)] by (intro length_blocks) (auto dest: in_set_takeD)
    ultimately have lc: "length c = CHUNK_HASH_SIZE * length ?f1" using c(1) by simp
    define d1 d2 where d: "d1 = take ?B chunks1" "d2 = drop ?B chunks1"
    have r: "list_all2 (restorable env) ?f1 d1" "list_all2 (restorable env) ?f2 d2"
      using less.prems(1) by (simp_all add: d)
    have room: "recipe_room env n ?f1" "recipe_room env n ?f2"
      using less.prems(2) recipe_room_append [of env n ?f1 ?f2] by simp_all
    obtain m1 st1 rs1 ch1 cs1 buf1 where p: "ProcRecipeBatch env c (length ?f1) st = Inr st1"
      "collecting env n st1 m1 rs1 ch1 cs1 buf1" "cs1 @ buf1 @ ch1 = cs @ buf @ chunks @ d1"
      using ProcRecipeBatch_ok [OF env r(1) room(1) c(1) less.prems(4)] by blast
    have rd: "take (CHUNK_HASH_SIZE * ?B) rfile = c \<and> drop (CHUNK_HASH_SIZE * ?B) rfile = rest"
    proof (cases "length fps \<le> ?B")
      case True
      then have "rest = []" using c(2) by (simp add: recipe_file.simps [of env "[]"])
      moreover have "length c \<le> CHUNK_HASH_SIZE * ?B" unfolding lc by (rule mult_le_mono2) simp
      ultimately show ?thesis by (simp add: c(3))
    next
      case False
      then have "length c = CHUNK_HASH_SIZE * ?B" using lc by (simp add: min_def)
      then show ?thesis by (simp add: c(3))
    qed
    have "0 < length c" using lc False B by (simp add: CHUNK_HASH_SIZE_def)
    then have ne: "c \<noteq> []" by auto
    have "length c div CHUNK_HASH_SIZE = length ?f1" using lc by (simp add: CHUNK_HASH_SIZE_def)
    then have step: "restore_batches env rfile st =
        (if length c < CHUNK_HASH_SIZE * ?B then Inr st1 else restore_batches env rest st1)"
      unfolding restore_batches.simps [of env rfile] Let_def conjunct1 [OF rd] conjunct2 [OF rd]
      using ne p(1) by simp
    have e: "d1 @ d2 = chunks1" by (simp add: d)
    show ?thesis
    proof (cases "length c < CHUNK_HASH_SIZE * ?B")
      case True
      then have "length fps < ?B" using lc by (simp add: CHUNK_HASH_SIZE_def min_def split: if_splits)
      then have "d2 = []" using r(2) by simp
      then have "cs1 @ buf1 @ ch1 = cs @ buf @ chunks @ chunks1" using p(3) e by simp
      moreover have "restore_batches env rfile st = Inr st1" using step True by simp
      ultimately show ?thesis using p(2) by blast
    next
      case more: False
      have "length ?f2 < length fps" using False B by (cases fps) auto
      from less.hyps [OF this r(2) room(2) c(2) p(2)] obtain m' st' rs' chunks' cs' buf' where h:
        "restore_batches env rest st1 = Inr st'" "collecting env n st' m' rs' chunks' cs' buf'"
        "cs' @ buf' @ chunks' = cs1 @ buf1 @ ch1 @ d2" by blast
      have "cs' @ buf' @ chunks' = cs @ buf @ chunks @ chunks1"
        using h(3) p(3) e by (metis append.assoc)
      moreover have "restore_batches env rfile st = Inr st'" using step more h(1) by simp
      ultimately show ?thesis using h(2) by blast
    qed
  qed
qed

lemma ProcRecipeTailBatch_ok:
  assumes env: "env_ok env" and c: "collecting env n st m rs chunks cs buf"
  obtains st' where "ProcRecipeTailBatch env st = Inr st'" "client_chunks env (sent st') = Inr (cs @ buf @ chunks)"
    "sent st' \<noteq> []" "fst (last (sent st')) = SERVER_RESTORE_FINAL"
proof (cases "enclaveRecipeBuffer st = []")
  case True
  have w: "waiting env st m rs chunks cs buf" using c by (simp add: collecting_def)
  then have "chunks = []" "in_message env st cs buf" using True unfolding waiting_def by auto
  moreover obtain st' where s: "send_message env SERVER_RESTORE_FINAL st = Inr st'" "in_message env st' (cs @ buf) []"
    "same_requests st st'" "sent st' \<noteq> []" "fst (last (sent st')) = SERVER_RESTORE_FINAL"
    by (rule send_message_ok [OF env \<open>in_message env st cs buf\<close>])
  ultimately show thesis using True by (intro that [of st']) (simp_all add: ProcRecipeTailBatch_def in_message_def)
next
  case False
  have w: "waiting env st Map.empty rs chunks cs buf" using collecting_restart [OF c] by (simp add: collecting_def)
  obtain m1 st1 where r: "(if queryNum st \<noteq> 0 then resolve_bases env Map.empty st else Inr (Map.empty, st)) = Inr (m1, st1)"
    "ids_ok env st1 m1" "list_all2 (entry_for st1) (enclaveRecipeBuffer st1) rs" "arrays_ok env st1"
    "in_message env st1 cs buf" "idNum st1 \<le> Suc CONTAINER_CAPPING_VALUE" "length (idBuffer st1) = length (idBuffer st)"
    "list_all2 (base_entry env st1) (baseRecipeBuffer st1) (delta_hashes rs)" "length (baseQuery st1) = BASE_QUERY_NUM"
    "queryNum st1 = queryNum st" "enclaveRecipeBuffer st1 = enclaveRecipeBuffer st"
    by (rule resolved [OF w])
  obtain st2 where f: "Ocall_GetReqContainers env (st1\<lparr>queryNum := 0\<rparr>) = Inr st2" "arrays_ok env st2" "loaded env st2"
    "in_message env st2 cs buf" "list_all2 (entry_for st2) (enclaveRecipeBuffer st2) rs"
    "list_all2 (base_entry env st2) (drop 0 (baseRecipeBuffer st2)) (delta_hashes rs)"
    "idBuffer st2 = idBuffer st1" "baseQuery st2 = baseQuery st1" "enclaveRecipeBuffer st2 = enclaveRecipeBuffer st1"
    by (rule fetched [OF r(2-6,8)])
  have lb: "length buf < sendChunkBatchSize env" "list_all2 (restores env) rs chunks"
    using w unfolding waiting_def by blast+
  have ne: "enclaveRecipeBuffer st2 \<noteq> []" using False f(9) r(11) by simp
  obtain st3 where t: "restore_tail env (enclaveRecipeBuffer st2) 0 st2 = Inr st3" "in_message env st3 (cs @ buf @ chunks) []"
    "sent st3 \<noteq> []" "fst (last (sent st3)) = SERVER_RESTORE_FINAL"
    using restore_tail_ok [OF env f(3,4) lb(1) f(5) lb(2) f(6) ne] by blast
  have "ProcRecipeTailBatch env st = Inr st3"
  proof (cases "queryNum st = 0")
    case True
    then show ?thesis using False r(1) f(1) t(1) by (simp add: ProcRecipeTailBatch_def)
  next
    case q: False
    then obtain sq where sq: "Ocall_QueryBaseIndex env st = Inr sq" "add_bases env (take (queryNum sq) (baseQuery sq)) Map.empty sq = Inr (m1, st1)"
      using r(1) by (auto simp: resolve_bases_def res_bind_eq_Inr)
    then show ?thesis using False q f(1) t(1) by (simp add: ProcRecipeTailBatch_def)
  qed
  with t show thesis by (intro that [of st3]) (simp_all add: in_message_def)
qed

text \<open>A client ready to restore, with room for \<open>n\<close> container names.\<close>

definition restore_start :: "nat \<Rightarrow> nat \<Rightarrow> restorer" where
  "restore_start n batch = (InitRestoreBuffer 64 batch)\<lparr>idBuffer := replicate (n * CONTAINER_ID_LENGTH) 0\<rparr>"

lemma restore_start_collecting:
  assumes "env_ok env"
  shows "collecting env n (restore_start n (sendChunkBatchSize env)) Map.empty [] [] [] []"
proof (rule fresh_collecting)
  show "arrays_ok env (restore_start n (sendChunkBatchSize env))"
    using new_pool_ok [of 64] by (simp add: arrays_ok_def restore_start_def InitRestoreBuffer_def ReadCache_def)
qed (use assms in \<open>simp_all add: restore_start_def InitRestoreBuffer_def fresh_def in_message_def env_ok_def\<close>)

lemma restore_ok:
  assumes "env_ok env" "list_all2 (restorable env) fps chunks" "recipe_room env n fps" "recipe_file env fps = Inr file"
  obtains st' where "EnclaveRecvDecoder_Run env file (restore_start n (sendChunkBatchSize env)) = Inr st'"
    "client_chunks env (sent st') = Inr chunks" "sent st' \<noteq> []" "fst (last (sent st')) = SERVER_RESTORE_FINAL"
proof -
  obtain m st1 rs ch cs buf where b: "restore_batches env file (restore_start n (sendChunkBatchSize env)) = Inr st1"
    "collecting env n st1 m rs ch cs buf" "cs @ buf @ ch = chunks"
    using restore_batches_ok [OF assms restore_start_collecting [OF assms(1)]] by auto
  obtain st' where t: "ProcRecipeTailBatch env st1 = Inr st'" "client_chunks env (sent st') = Inr (cs @ buf @ ch)"
    "sent st' \<noteq> []" "fst (last (sent st')) = SERVER_RESTORE_FINAL"
    by (rule ProcRecipeTailBatch_ok [OF assms(1) b(2)])
  show thesis by (rule that [of st']) (use b t in \<open>simp_all add: EnclaveRecvDecoder_Run_def\<close>)
qed

end
