(* ===== verification/Restore_Props.thy ===== *)
theory Restore_Props imports Restore_Correct Crypto_Props begin

text \<open>
  A recipe is restored whole, and the buffer of container names is one name too short for it
  when delta chunks are involved.
\<close>

section \<open>A sample repository\<close>

text \<open>
  For the witnesses: one container with a chunk and a delta over it, the index that leads to
  them, and an LZ4 that never compresses.
\<close>

definition sample_lz4 :: lz4 where
  "sample_lz4 = \<lparr>LZ4_compress_fast = \<lambda>d cap. None, LZ4_decompress_safe = \<lambda>d cap. None\<rparr>"

definition sample_recipe :: "byte \<Rightarrow> nat \<Rightarrow> nat \<Rightarrow> byte list \<Rightarrow> RecipeEntry_t" where
  "sample_recipe flag off len base = \<lparr>containerName = replicate 7 65, re_deltaFlag = flag,
     re_offset = word_of_nat off, re_length = word_of_nat len, basechunkHash = base, superfeature = replicate 96 0\<rparr>"

text \<open>What the index cipher of \<open>sample_ssl\<close> makes of a fingerprint of equal bytes, and of a recipe.\<close>

definition sample_key :: "byte \<Rightarrow> byte list" where
  "sample_key b = replicate 32 (b + 18)"

definition sample_value :: "RecipeEntry_t \<Rightarrow> byte list" where
  "sample_value r = map ((+) 9) (recipe_bytes r)"

text \<open>The literal 1, 2, 3 as a delta: a header with the flag and the length, then the bytes.\<close>

definition sample_delta :: "byte list" where
  "sample_delta = [3, 0, 0, 128, 1, 2, 3]"

definition sample_file :: "byte list" where
  "sample_file = replicate 272 0 @ map ((+) 9) [7, 8] @ replicate 16 0 @
     replicate 272 0 @ map ((+) 9) sample_delta @ replicate 16 0"

definition base_recipe :: RecipeEntry_t where
  "base_recipe = sample_recipe NO_DELTA 0 2 (replicate 32 0)"

definition delta_recipe :: RecipeEntry_t where
  "delta_recipe = sample_recipe DELTA 290 7 (sample_key 1)"

definition sample_env :: restore_env where
  "sample_env = \<lparr>env_ssl = sample_ssl, env_lz4 = sample_lz4,
     env_db = Insert (sample_key 2) (sample_value delta_recipe) (Insert (sample_key 1) (sample_value base_recipe) empty_db),
     env_files = [(False, replicate 7 65) \<mapsto> sample_file],
     enclaveKey = replicate 32 9, indexQueryKey = replicate 32 9, masterKey = replicate 32 9, sessionKey = replicate 32 9,
     sendChunkBatchSize = 2, sendRecipeBatchSize = 4\<rparr>"

lemma sample_env_ok: "env_ok sample_env"
  by (simp add: env_ok_def sample_env_def sample_ssl_ok sample_lz4_def)

lemma recipe_wf_sample: "length base = 32 \<Longrightarrow> recipe_wf (sample_recipe flag off len base)"
  by (simp add: recipe_wf_def sample_recipe_def size_consts)

lemma sample_wf: "recipe_wf base_recipe" "recipe_wf delta_recipe"
  by (simp_all add: base_recipe_def delta_recipe_def recipe_wf_sample sample_key_def)

lemma decrypt_sample: "recipe_wf r \<Longrightarrow> decrypt_recipe sample_env (sample_value r) = Inr r"
  by (simp add: decrypt_recipe_def sample_env_def AESCBCDec_def run_cipher_def sample_ssl_def sample_value_def comp_def)

lemma sample_keys: "sample_key 1 \<noteq> sample_key 2"
  by (simp add: sample_key_def)

lemma sample_address:
  "address_of sample_env (sample_key 1) base_recipe" "address_of sample_env (sample_key 2) delta_recipe"
  using sample_wf sample_keys decrypt_sample
  by (auto simp: address_of_def Query_def Insert_def sample_env_def CHUNK_HASH_SIZE_def sample_value_def)
    (simp_all add: sample_key_def)

lemma sample_index_key: "IndexAESCMCEnc sample_ssl cryptoObj (replicate 32 b) (replicate 32 9) = Inr (sample_key b)"
  by (simp add: IndexAESCMCEnc_def AESCBCEnc_def run_cipher_def sample_ssl_def reverseBytes_rev sample_key_def add.commute)

lemma sample_plain:
  "plain sample_env base_recipe [7, 8]" "plain sample_env delta_recipe sample_delta"
proof -
  have f: "container_file (env_files sample_env) (replicate 7 65) = Some sample_file"
    by (simp add: container_file_def sample_env_def)
  have l: "length sample_file \<le> MAX_CONTAINER_SIZE"
    by (simp add: sample_file_def MAX_CONTAINER_SIZE_def sample_delta_def)
  show "plain sample_env base_recipe [7, 8]" "plain sample_env delta_recipe sample_delta"
    unfolding plain_def using f l
    by (auto simp: base_recipe_def delta_recipe_def sample_recipe_def decrypt_at_def chunk_pos_def sizeof_RecipeEntry_def
      CHUNK_HASH_SIZE_def CRYPTO_BLOCK_SIZE_def buf_read_def bslice_def sample_file_def sample_delta_def
      DecryptionWithKeyIV_def run_cipher_def sample_env_def sample_ssl_def MAX_CHUNK_SIZE_def)
qed

lemma sample_decode: "ed3_decode sample_delta [7, 8] = Inr [1, 2, 3]"
proof -
  have "(2147483651 :: u32) AND mask 31 = 3" by code_simp
  then show ?thesis
    by (simp add: ed3_decode_def sample_delta_def EDeltaDecode_def decode_loop.simps buf_read_def bslice_def buf_write_def
      get32_def get_flag_def get_length_def edelta_consts Let_def)
qed

lemma sample_restores: "restores sample_env base_recipe [7, 8]" "restores sample_env delta_recipe [1, 2, 3]"
proof -
  have u: "unpacked sample_env d = d" for d by (simp add: unpacked_def sample_env_def sample_lz4_def)
  have f: "re_deltaFlag base_recipe \<noteq> DELTA" "re_deltaFlag delta_recipe = DELTA" "basechunkHash delta_recipe = sample_key 1"
    by (simp_all add: base_recipe_def delta_recipe_def sample_recipe_def delta_defs)
  show "restores sample_env base_recipe [7, 8]"
    using sample_plain(1) f by (auto simp: restores_def u MAX_CHUNK_SIZE_def)
  show "restores sample_env delta_recipe [1, 2, 3]"
    unfolding restores_def using sample_plain sample_decode sample_address(1) f
    by (auto simp: u MAX_CHUNK_SIZE_def)
qed

lemma sample_restorable:
  "restorable sample_env (replicate 32 1) [7, 8]" "restorable sample_env (replicate 32 2) [1, 2, 3]"
  using sample_index_key sample_address sample_restores
  by (auto simp: restorable_def sample_env_def CHUNK_HASH_SIZE_def)

section \<open>Properties\<close>



text \<open>
  C23: The buffer of container names that \<open>InitRestoreBuffer\<close> allocates overflows: with 15
  containers requested and no base queued, a delta chunk in a new container over a base in
  another new container makes the enclave write a 17th name behind the buffer.
\<close>

theorem restore_names_overflow:
  assumes "length (idBuffer st) = length (idBuffer (InitRestoreBuffer readCacheSize batch))"
    "idNum st = 15" "queryNum st = 0" "length (baseQuery st) = BASE_QUERY_NUM"
    "re_deltaFlag r = DELTA" "address_of env (basechunkHash r) b" "length (containerName r) = CONTAINER_ID_LENGTH"
    "m (containerName r) = None" "m (containerName b) = None" "containerName b \<noteq> containerName r"
  shows "proc_entry env r m st = Inl OutOfBounds"
proof -
  let ?h = "basechunkHash r"
  obtain v where v: "length ?h = CHUNK_HASH_SIZE" "Query ?h (env_db env) = Some v" "length v = sizeof_RecipeEntry"
    "decrypt_recipe env v = Inr b" using assms(6) by (auto simp: address_of_def)
  have nb: "length (containerName b) = CONTAINER_ID_LENGTH" by (rule address_name [OF assms(6)])
  have l: "length (idBuffer st) = 112"
    using assms(1) by (simp add: InitRestoreBuffer_def CONTAINER_CAPPING_VALUE_def CONTAINER_ID_LENGTH_def)
  obtain e es where q: "baseQuery st = e # es" using assms(4) by (cases "baseQuery st") (simp_all add: BASE_QUERY_NUM_def)
  let ?st1 = "st\<lparr>baseQuery := (?h, snd e) # es, queryNum := 1\<rparr>"
  have s1: "queue_base env ?h m st = Inr (m, ?st1)"
    using assms(3,4) by (simp add: queue_base_def set_query_def q BASE_QUERY_NUM_def)
  obtain buf where buf: "buf_write (idBuffer st) (15 * CONTAINER_ID_LENGTH) (containerName r) = Inr buf" "length buf = 112"
    using l assms(7) by (auto simp: buf_write_def CONTAINER_ID_LENGTH_def)
  let ?m = "m(containerName r \<mapsto> 15)"
  let ?st2 = "?st1\<lparr>idBuffer := buf, idNum := 16\<rparr>"
  have s2: "request_container (containerName r) m ?st1 = Inr (15, ?m, ?st2)"
    using assms(2,8) buf by (simp add: request_container_def)
  let ?st3 = "?st2\<lparr>enclaveRecipeBuffer := enclaveRecipeBuffer st @ [recipe_entry 15 r]\<rparr>"
  have "query_entries (env_db env) [(?h, snd e)] = Inr [(?h, v)]"
    using v by (simp add: QueryBuffer_def Query_def buf_read_def bslice_full)
  then have s3: "Ocall_QueryBaseIndex env ?st3 = Inr (?st3\<lparr>baseQuery := (?h, v) # es\<rparr>)"
    by (simp add: Ocall_QueryBaseIndex_def)
  have "request_container (containerName b) ?m (?st3\<lparr>baseQuery := (?h, v) # es\<rparr>) = Inl OutOfBounds"
    using assms(9,10) buf(2) nb by (simp add: request_container_def buf_write_def CONTAINER_ID_LENGTH_def)
  then have "resolve_bases env ?m ?st3 = Inl OutOfBounds"
    using s3 v(4) by (simp add: resolve_bases_def)
  then show ?thesis
    using assms(5) s1 s2 by (simp add: proc_entry_def restore_window_def CONTAINER_CAPPING_VALUE_def)
qed

theorem restore_names_overflow_witness:
  "proc_entry sample_env (delta_recipe\<lparr>containerName := replicate 7 66\<rparr>) Map.empty
     ((InitRestoreBuffer 64 2)\<lparr>idNum := 15\<rparr>) = Inl OutOfBounds"
  by (rule restore_names_overflow [where readCacheSize = 64 and batch = 2 and b = base_recipe])
    (use sample_address(1) in \<open>simp_all add: InitRestoreBuffer_def delta_recipe_def base_recipe_def sample_recipe_def
      delta_defs CONTAINER_ID_LENGTH_def\<close>)

end
