(* ===== verification/Upload.thy ===== *)
theory Upload imports Restore begin

text \<open>
  What the enclave does with a new chunk and with the recipe of a file
  (\<open>ecallIndex/enclaveBase.cc\<close>, the tail of \<open>ecallFreqIndex.cc\<close>, \<open>Server/storageCore.cc\<close>):
  compress, encrypt and save the chunk, append its fingerprint to the recipe and write the
  recipe out in encrypted batches.
\<close>

section \<open>Chunks\<close>

text \<open>The storage of a client and the statistics of the enclave.\<close>

record uploader =
  up_store :: store
  compressedDataSize :: nat
  onlineCompress_size :: nat
  onlineBackupSize :: nat

definition count_stored :: "nat \<Rightarrow> uploader \<Rightarrow> uploader" where
  "count_stored n up = up\<lparr>compressedDataSize := compressedDataSize up + n,
     onlineCompress_size := onlineCompress_size up + n, onlineBackupSize := onlineBackupSize up + n\<rparr>"

text \<open>
  The next iv of the client, and the cipher text of what is stored; compressed chunk and cipher
  text are arrays of \<open>MAX_CHUNK_SIZE\<close> bytes.
\<close>

definition next_iv :: "uploader \<Rightarrow> uploader" where
  "next_iv up = up\<lparr>up_store := (up_store up)\<lparr>st_iv := PickNewIV (st_iv (up_store up))\<rparr>\<rparr>"

definition encrypt_chunk :: "restore_env \<Rightarrow> byte list \<Rightarrow> byte list \<Rightarrow> byte list res" where
  "encrypt_chunk env data iv =
     (if length data \<le> MAX_CHUNK_SIZE
      then EncryptWithKeyIV (env_ssl env) cryptoObj data (enclaveKey env) iv else Inl OutOfBounds)"

text \<open>The chunk itself if compression fails or, for a delta, is not tried.\<close>

definition stored_form :: "restore_env \<Rightarrow> bool \<Rightarrow> byte list \<Rightarrow> byte list" where
  "stored_form env compress chunk =
     (case if compress then LZ4_compress_fast (env_lz4 env) chunk (length chunk) else None of
        Some c \<Rightarrow> c
      | None \<Rightarrow> chunk)"

definition ProcessSheUniqueChunk ::
    "restore_env \<Rightarrow> RecipeEntry_t \<Rightarrow> byte list \<Rightarrow> byte list \<Rightarrow> byte list \<Rightarrow> uploader
      \<Rightarrow> (RecipeEntry_t \<times> uploader) res" where
  "ProcessSheUniqueChunk env chunkAddr chunkBuffer chunksf chunkfp up =
     (let up = next_iv up;
          data = stored_form env (re_deltaFlag chunkAddr = NO_DELTA) chunkBuffer;
          up = count_stored (length data) up
      in res_bind (encrypt_chunk env data (st_iv (up_store up))) (\<lambda>tmpCipherChunk.
         res_bind (if re_deltaFlag chunkAddr = NO_DELTA
                   then SavebaseChunk tmpCipherChunk chunkAddr chunksf chunkfp (up_store up)
                   else SavedeltaChunk tmpCipherChunk chunkAddr chunksf chunkfp (up_store up))
           (\<lambda>(addr, st). Inr (addr, up\<lparr>up_store := st\<rparr>))))"

text \<open>The variant of the schemes without deltas.\<close>

definition ProcessUniqueChunk ::
    "restore_env \<Rightarrow> RecipeEntry_t \<Rightarrow> byte list \<Rightarrow> uploader \<Rightarrow> (RecipeEntry_t \<times> uploader) res" where
  "ProcessUniqueChunk env chunkAddr chunkBuffer up =
     (let up = next_iv up;
          data = stored_form env True chunkBuffer;
          up = count_stored (length data) up
      in res_bind (encrypt_chunk env data (st_iv (up_store up))) (\<lambda>tmpCipherChunk.
         res_bind (SaveChunk tmpCipherChunk chunkAddr (up_store up)) (\<lambda>(addr, st).
           Inr (addr, up\<lparr>up_store := st\<rparr>))))"

section \<open>Recipes\<close>

record Recipe_t =
  recipeNum :: nat
  entryFpList :: "byte list"

text \<open>\<open>UpdateRecipeToFile\<close> through its OCALL; the recipe file is the bytes written so far.\<close>

definition UpdateRecipeToFile :: "byte list \<Rightarrow> nat \<Rightarrow> byte list \<Rightarrow> byte list res" where
  "UpdateRecipeToFile recipeBuffer recipeEntryNum written =
     res_bind (buf_read recipeBuffer 0 (recipeEntryNum * CHUNK_HASH_SIZE)) (\<lambda>bs. Inr (written @ bs))"

text \<open>Encrypt the collected fingerprints into the outer recipe and have them written.\<close>

definition flush_recipe :: "restore_env \<Rightarrow> Recipe_t \<Rightarrow> byte list \<Rightarrow> (Recipe_t \<times> byte list) res" where
  "flush_recipe env inRecipe written =
     res_bind (buf_read (entryFpList inRecipe) 0 (recipeNum inRecipe * CHUNK_HASH_SIZE)) (\<lambda>fps.
     res_bind (EncryptWithKey (env_ssl env) cryptoObj fps (masterKey env)) (\<lambda>outRecipe.
     res_bind (UpdateRecipeToFile outRecipe (recipeNum inRecipe) written) (\<lambda>written.
       Inr (inRecipe\<lparr>recipeNum := 0\<rparr>, written))))"

definition UpdateFileRecipe ::
    "restore_env \<Rightarrow> byte list \<Rightarrow> Recipe_t \<Rightarrow> byte list \<Rightarrow> (Recipe_t \<times> byte list) res" where
  "UpdateFileRecipe env FP inRecipe written =
     res_bind (buf_read FP 0 CHUNK_HASH_SIZE) (\<lambda>fp.
     res_bind (buf_write (entryFpList inRecipe) (recipeNum inRecipe * CHUNK_HASH_SIZE) fp) (\<lambda>l.
     let inRecipe = \<lparr>recipeNum = Suc (recipeNum inRecipe), entryFpList = l\<rparr> in
     if recipeNum inRecipe mod sendRecipeBatchSize env = 0 then flush_recipe env inRecipe written
     else Inr (inRecipe, written)))"

text \<open>The recipe part of \<open>ProcessTailBatch\<close>.\<close>

definition tail_recipe :: "restore_env \<Rightarrow> Recipe_t \<Rightarrow> byte list \<Rightarrow> (Recipe_t \<times> byte list) res" where
  "tail_recipe env inRecipe written =
     (if recipeNum inRecipe \<noteq> 0 then flush_recipe env inRecipe written else Inr (inRecipe, written))"

section \<open>Segments\<close>

text \<open>
  The segment test of the base class; sizes and the sum of the hash bytes are 32 bits wide, and
  \<open>maxSegmentChunkNum\<close> is set by the constructor.
\<close>

record Segment_t =
  chunkNum :: u32
  segmentSize :: u32
  minHashVal :: u32
  minHash :: "byte list"
  seg_buffer :: "byte list"
  seg_metadata :: "(u32 \<times> byte list) list"

definition MIN_CHUNK_SIZE :: nat where "MIN_CHUNK_SIZE = 4096"

definition maxSegmentChunkNum :: nat where
  "maxSegmentChunkNum = MAX_SEGMENT_SIZE div MIN_CHUNK_SIZE"

definition IsEndOfSegment :: "u32 \<Rightarrow> u32 \<Rightarrow> Segment_t \<Rightarrow> bool" where
  "IsEndOfSegment chunkHashVal chunkSize segment =
     (if maxSegmentChunkNum < unat (chunkNum segment + 1) then True
      else if unat (segmentSize segment + chunkSize) < MIN_SEGMENT_SIZE then False
      else if MAX_SEGMENT_SIZE < unat (segmentSize segment + chunkSize) then True
      else unat chunkHashVal mod DIVISOR = PATTERN)"

definition ConvertHashToValue :: "byte list \<Rightarrow> u32 res" where
  "ConvertHashToValue inputHash =
     res_bind (buf_read inputHash 0 CHUNK_HASH_SIZE) (\<lambda>bs. Inr (foldl (\<lambda>v b. v + ucast b) 0 bs))"

definition ResetCurrentSegment :: "Segment_t \<Rightarrow> Segment_t" where
  "ResetCurrentSegment segment = segment\<lparr>chunkNum := 0, minHashVal := - 1, segmentSize := 0\<rparr>"

end
