(* ===== verification/Upload_Props.thy ===== *)
theory Upload_Props imports Upload Restore_Props Cache_Props Edelta_Props begin

text \<open>
  A stored chunk can be restored, deltas fit the buffer of the decoder, and the recipe file
  that the enclave writes is the one the restore path expects.
\<close>

section \<open>Compression\<close>

text \<open>
  What the code relies on in LZ4: a compressed chunk is not empty, no longer than the given
  size, and decompresses to the chunk when there is room for it.
\<close>

definition lz4_ok :: "lz4 \<Rightarrow> bool" where
  "lz4_ok lz \<longleftrightarrow> (\<forall>d cap c. LZ4_compress_fast lz d cap = Some c \<longrightarrow> length c \<le> cap \<and>
     (\<forall>room. length d \<le> room \<longrightarrow> LZ4_decompress_safe lz c room = Some d))"

text \<open>
  A chunk that is stored as it is must not look compressed: the restore path tries to decompress
  whatever it reads.
\<close>

definition raw_safe :: "restore_env \<Rightarrow> byte list \<Rightarrow> bool" where
  "raw_safe env chunk \<longleftrightarrow> (LZ4_compress_fast (env_lz4 env) chunk (length chunk) = None \<longrightarrow>
     LZ4_decompress_safe (env_lz4 env) chunk MAX_CHUNK_SIZE = None)"

lemma stored_form_length:
  "lz4_ok (env_lz4 env) \<Longrightarrow> length (stored_form env compress chunk) \<le> length chunk"
  by (auto simp: stored_form_def lz4_ok_def split: option.split)

lemma unpacked_stored:
  assumes "lz4_ok (env_lz4 env)" "raw_safe env chunk" "length chunk \<le> MAX_CHUNK_SIZE"
  shows "unpacked env (stored_form env True chunk) = chunk"
  using assms by (auto simp: unpacked_def stored_form_def lz4_ok_def raw_safe_def split: option.split)

section \<open>A stored record is decrypted where it stands\<close>

lemma reads_back_decrypt:
  assumes "reads_back f r" "length (s_data r) \<le> MAX_CHUNK_SIZE" "unat (re_length (s_addr r)) = length (s_data r)"
    "DecryptionWithKeyIV (env_ssl env) cryptoObj (s_data r) (enclaveKey env) (s_iv r) = Inr d" "length d = length (s_data r)"
  shows "decrypt_at env f (chunk_pos (unat (re_offset (s_addr r)))) (unat (re_length (s_addr r))) = Inr d"
proof -
  obtain out' pair' where g: "GetChunk_content_buffer f (s_addr r) False (0, 0) (replicate (length (s_data r)) 0) = Inr (out', pair')"
    "take (length (s_data r)) out' = s_data r"
    using assms(1) unfolding reads_back_def by (metis length_replicate order_refl)
  then obtain x where x: "buf_read f (chunk_pos (unat (re_offset (s_addr r)))) (length (s_data r)) = Inr x"
    "buf_write (replicate (length (s_data r)) 0) 0 x = Inr out'"
    using assms(3) by (auto simp: GetChunk_content_buffer_def res_bind_eq_Inr chunk_pos_def Let_def)
  have "length x = length (s_data r)" using x(1) by (auto simp: buf_read_Inr bslice_length)
  then have "x = s_data r" using x(2) g(2) by (auto simp: buf_write_Inr)
  moreover have "buf_read f (chunk_pos (unat (re_offset (s_addr r))) + length (s_data r)) CRYPTO_BLOCK_SIZE = Inr (s_iv r)"
    using assms(1,3) by (simp add: reads_back_def GetChunk_IV_def chunk_pos_def)
  ultimately show ?thesis using x(1) assms(2-5) by (simp add: decrypt_at_def)
qed

lemma placed_srec: "placed name off rs \<Longrightarrow> r \<in> set rs \<Longrightarrow> \<exists>off. srec_ok name off r"
  by (induction rs arbitrary: off) auto

lemma session_plain:
  assumes s: "session st hs" "(flag, r) \<in> set hs" "Suc (con_times st) < 36 ^ CONTAINER_ID_LENGTH" "end_upload st = Inr st'"
    and d: "DecryptionWithKeyIV (env_ssl env) cryptoObj (s_data r) (enclaveKey env) (s_iv r) = Inr d"
      "length d = length (s_data r)" "length d \<le> MAX_CHUNK_SIZE"
  shows "plain (env\<lparr>env_files := disk st'\<rparr>) (s_addr r) d"
proof -
  obtain st1 cat where e: "end_upload st = Inr st1" "history_ok hs cat" "tidy cat" "on_disk (disk st1) cat"
    "\<forall>k rs. cat k = Some rs \<and> rs \<noteq> [] \<longrightarrow> k \<in> dom (disk st1)"
    by (rule session_catalogue [OF s(1,3)])
  then have st1: "st1 = st'" using s(4) by simp
  obtain rs where rs: "container_file (disk st') (containerName (s_addr r)) = Some (content rs)"
    "placed (containerName (s_addr r)) 0 rs" "r \<in> set rs" "length (content rs) \<le> MAX_CONTAINER_SIZE"
    using record_file [OF e(2) s(2) e(3-5)] unfolding st1 by blast
  have rb: "reads_back (content rs) r"
    using placed_reads_back [of "containerName (s_addr r)" "[]" rs r "[]"] rs(2,3) by simp
  have "\<exists>off. srec_ok (containerName (s_addr r)) off r" by (rule placed_srec [OF rs(2,3)])
  then have l: "unat (re_length (s_addr r)) = length (s_data r)" by (auto simp: srec_ok_def)
  let ?env = "env\<lparr>env_files := disk st'\<rparr>"
  have "decrypt_at ?env (content rs) (chunk_pos (unat (re_offset (s_addr r)))) (unat (re_length (s_addr r))) = Inr d"
    by (rule reads_back_decrypt [OF rb _ l]) (use d in simp_all)
  then show ?thesis using rs(1,4) by (auto simp: plain_def)
qed


lemma Savebase_fields:
  "SavebaseChunk data addr sf fp st = Inr (addr', st') \<Longrightarrow>
     re_deltaFlag addr' = re_deltaFlag addr \<and> basechunkHash addr' = basechunkHash addr"
  by (auto simp: SavebaseChunk_def save_record_def put_record_def Let_def res_bind_eq_Inr)

lemma Savedelta_fields:
  "SavedeltaChunk data addr sf fp st = Inr (addr', st') \<Longrightarrow>
     re_deltaFlag addr' = re_deltaFlag addr \<and> basechunkHash addr' = basechunkHash addr"
  by (auto simp: SavedeltaChunk_def save_record_def put_record_def Let_def res_bind_eq_Inr)

lemma ProcessSheUniqueChunk_ok:
  assumes env: "env_ok env" "lz4_ok (env_lz4 env)" and s: "session (up_store up) hs"
    "con_times (up_store up) < 36 ^ CONTAINER_ID_LENGTH"
    and c: "length chunk \<le> MAX_CHUNK_SIZE" "length sf = 3 * CHUNK_HASH_SIZE" "length fp = CHUNK_HASH_SIZE"
      "length (basechunkHash addr) = CHUNK_HASH_SIZE" "length (superfeature addr) = 3 * CHUNK_HASH_SIZE"
  obtains addr' up' r where "ProcessSheUniqueChunk env addr chunk sf fp up = Inr (addr', up')"
    "session (up_store up') ((re_deltaFlag addr \<noteq> NO_DELTA, r) # hs)" "s_addr r = addr'"
    "re_deltaFlag addr' = re_deltaFlag addr" "basechunkHash addr' = basechunkHash addr"
    "DecryptionWithKeyIV (env_ssl env) cryptoObj (s_data r) (enclaveKey env) (s_iv r) =
       Inr (stored_form env (re_deltaFlag addr = NO_DELTA) chunk)"
    "length (s_data r) = length (stored_form env (re_deltaFlag addr = NO_DELTA) chunk)"
proof -
  let ?iv = "PickNewIV (st_iv (up_store up))" and ?st = "up_store (next_iv up)"
  let ?data = "stored_form env (re_deltaFlag addr = NO_DELTA) chunk"
  have s1: "session ?st hs" unfolding next_iv_def
    using session.iv [OF s(1), of ?iv] by (simp add: CRYPTO_BLOCK_SIZE_def)
  have iv: "st_iv ?st = ?iv" "con_times ?st = con_times (up_store up)" by (simp_all add: next_iv_def)
  have ld: "length ?data \<le> MAX_CHUNK_SIZE" using stored_form_length [OF env(2)] c(1) le_trans by blast
  have k: "openssl_ok (env_ssl env)" "length (enclaveKey env) = 32" "length ?iv = 16" using env(1) by (simp_all add: env_ok_def)
  obtain enc where e: "EncryptWithKeyIV (env_ssl env) cryptoObj ?data (enclaveKey env) ?iv = Inr enc"
    "length enc = length ?data" "DecryptionWithKeyIV (env_ssl env) cryptoObj enc (enclaveKey env) ?iv = Inr ?data"
    by (rule EncryptWithKeyIV_ok [OF k])
  have co: "chunk_ok enc addr sf fp (st_iv ?st)"
    using c e(2) ld iv(1)
    by (simp add: chunk_ok_def srec_size_def size_consts sizeof_RecipeEntry_def)
  have t: "con_times ?st < 36 ^ CONTAINER_ID_LENGTH" using s(2) iv(2) by simp
  have ec: "encrypt_chunk env ?data (st_iv ?st) = Inr enc" using e(1) ld iv(1) by (simp add: encrypt_chunk_def)
  have us: "up_store (count_stored n x) = up_store x" for n x by (simp add: count_stored_def)
  obtain b1 b2 d1 d2 where sv: "SavebaseChunk enc addr sf fp ?st = Inr (b1, b2)" "SavedeltaChunk enc addr sf fp ?st = Inr (d1, d2)"
    using save_total [OF s1 co t] by blast
  show thesis
  proof (cases "re_deltaFlag addr = NO_DELTA")
    case True
    let ?r = "\<lparr>s_addr = b1, s_fp = fp, s_sf = sf, s_data = enc, s_iv = st_iv ?st\<rparr>"
    show thesis
      by (rule that [of b1 "(count_stored (length ?data) (next_iv up))\<lparr>up_store := b2\<rparr>" ?r])
        (use True session.base [OF s1 co sv(1)] Savebase_fields [OF sv(1)] e ec sv(1) iv us in
          \<open>simp_all add: ProcessSheUniqueChunk_def Let_def\<close>)
  next
    case False
    let ?r = "\<lparr>s_addr = d1, s_fp = fp, s_sf = sf, s_data = enc, s_iv = st_iv ?st\<rparr>"
    show thesis
      by (rule that [of d1 "(count_stored (length ?data) (next_iv up))\<lparr>up_store := d2\<rparr>" ?r])
        (use False session.delta [OF s1 co sv(2)] Savedelta_fields [OF sv(2)] e ec sv(2) iv us in
          \<open>simp_all add: ProcessSheUniqueChunk_def Let_def\<close>)
  qed
qed

section \<open>Deltas\<close>

lemma ed3_decode_encoded:
  assumes "encode_room new base buf bl h" "encode_starts new base" "new \<noteq> []"
    "EDeltaEncode new base buf bl h = Inr (delta, n, bl', h')" "length new \<le> (n + length base) * 2"
  shows "ed3_decode (take n delta) base = Inr new"
proof -
  obtain us where d: "delta_ok new base delta n us"
    using EDeltaEncode_delta [OF assms(1,2)] assms(4) by auto
  then have n: "length (take n delta) = n" by (auto simp: delta_ok_def holds_def)
  have "delta_ok new base (take n delta) n us" using d by (auto simp: delta_ok_def holds_def)
  from delta_ok_decode [OF this assms(3), of "replicate ((n + length base) * 2) 0"] assms(5)
  obtain out where "EDeltaDecode (take n delta) n base (replicate ((n + length base) * 2) 0) = Inr (out, length new)"
    "take (length new) out = new" by auto
  moreover from this(2) have "buf_read out 0 (length new) = Inr new"
    by (cases "length new \<le> length out") (auto simp: buf_read_def bslice_def)
  ultimately show ?thesis unfolding ed3_decode_def n by simp
qed


text \<open>The number of bytes a delta decodes to does not depend on the buffer, and must fit into it.\<close>

definition next_unit :: "byte list \<Rightarrow> byte list \<Rightarrow> nat \<Rightarrow> (byte list \<times> nat) res" where
  "next_unit delta base rl =
     res_bind (buf_read delta rl 4) (\<lambda>hd.
       if get_flag (get32 hd) = 0
       then res_bind (buf_read delta rl unit1_size) (\<lambda>u.
         res_bind (buf_read base (unat (get32 (bslice u 4 4))) (unat (get_length (get32 (bslice u 0 4))))) (\<lambda>bs.
           Inr (bs, rl + unit1_size)))
       else res_bind (buf_read delta (rl + unit2_size) (unat (get_length (get32 hd)))) (\<lambda>bs.
         Inr (bs, rl + unit2_size + unat (get_length (get32 hd)))))"

lemma decode_loop_step:
  "decode_loop delta n base out dl rl =
     res_bind (next_unit delta base rl) (\<lambda>(bs, rl').
     res_bind (buf_write out dl bs) (\<lambda>out'.
       if n \<le> rl' then Inr (out', dl + length bs) else decode_loop delta n base out' (dl + length bs) rl'))"
  by (subst decode_loop.simps) (auto simp: next_unit_def Let_def buf_read_def bslice_length res_bind_def split: sum.split)

lemma next_unit_less: "next_unit delta base rl = Inr (bs, rl') \<Longrightarrow> rl < rl'"
  by (auto simp: next_unit_def res_bind_eq_Inr edelta_consts split: if_splits)

lemma next_unit_error: "next_unit delta base rl = Inl e \<Longrightarrow> e = OutOfBounds"
  by (auto simp: next_unit_def res_bind_eq_Inl buf_read_def split: if_splits)

lemma decode_loop_Inr:
  assumes "decode_loop delta n base out dl rl = Inr r"
  obtains bs rl' o' where "next_unit delta base rl = Inr (bs, rl')" "buf_write out dl bs = Inr o'"
    "(if n \<le> rl' then Inr (o', dl + length bs) else decode_loop delta n base o' (dl + length bs) rl') = Inr r"
proof (cases "next_unit delta base rl")
  case (Inr p)
  obtain bs rl' where p: "p = (bs, rl')" by (cases p)
  note step = assms [unfolded decode_loop_step [of delta n base out dl rl] Inr p]
  show thesis
  proof (cases "buf_write out dl bs")
    case (Inr o')
    show thesis by (rule that [OF \<open>next_unit delta base rl = Inr p\<close> [unfolded p] Inr])
      (use step in \<open>simp only: Inr res_bind_simps prod.case\<close>)
  qed (use step in simp)
qed (use assms in \<open>simp add: decode_loop_step [of delta n base out dl rl]\<close>)

lemma decode_loop_size:
  "decode_loop delta n base out dl rl = Inr (out', m) \<Longrightarrow> m \<le> length out"
proof (induction "n - rl" arbitrary: out dl rl rule: less_induct)
  case less
  obtain bs rl' o' where s: "next_unit delta base rl = Inr (bs, rl')" "buf_write out dl bs = Inr o'"
    "(if n \<le> rl' then Inr (o', dl + length bs) else decode_loop delta n base o' (dl + length bs) rl') = Inr (out', m)"
    by (rule decode_loop_Inr [OF less.prems])
  have w: "dl + length bs \<le> length out" "length o' = length out"
    using s(2) buf_write_length [OF s(2)] by (auto simp: buf_write_def split: if_splits)
  show ?case
  proof (cases "n \<le> rl'")
    case False
    with less.hyps [of rl' o' "dl + length bs"] s(3) next_unit_less [OF s(1)] w show ?thesis by simp
  qed (use s(3) w in simp)
qed

lemma decode_loop_same:
  "decode_loop delta n base out dl rl = Inr (o1, m1) \<Longrightarrow> decode_loop delta n base out2 dl rl = Inr (o2, m2) \<Longrightarrow> m1 = m2"
proof (induction "n - rl" arbitrary: out out2 dl rl rule: less_induct)
  case less
  obtain bs rl' x where 1: "next_unit delta base rl = Inr (bs, rl')"
    "(if n \<le> rl' then Inr (x, dl + length bs) else decode_loop delta n base x (dl + length bs) rl') = Inr (o1, m1)"
    by (rule decode_loop_Inr [OF less.prems(1)])
  obtain bs2 rl2 y where 2: "next_unit delta base rl = Inr (bs2, rl2)"
    "(if n \<le> rl2 then Inr (y, dl + length bs2) else decode_loop delta n base y (dl + length bs2) rl2) = Inr (o2, m2)"
    by (rule decode_loop_Inr [OF less.prems(2)])
  have e: "bs2 = bs" "rl2 = rl'" using 1(1) 2(1) by simp_all
  show ?case
  proof (cases "n \<le> rl'")
    case False
    with less.hyps [of rl' x "dl + length bs" y] 1(2) 2(2) next_unit_less [OF 1(1)] e show ?thesis by simp
  qed (use 1(2) 2(2) e in simp)
qed

lemma decode_loop_error:
  "decode_loop delta n base out dl rl = Inl e \<Longrightarrow> e = OutOfBounds"
proof (induction "n - rl" arbitrary: out dl rl rule: less_induct)
  case less
  show ?case
  proof (cases "next_unit delta base rl")
    case (Inr p)
    obtain bs rl' where p: "p = (bs, rl')" by (cases p)
    note step = less.prems [unfolded decode_loop_step [of delta n base out dl rl] Inr p]
    from step show ?thesis
      using less.hyps [of rl'] next_unit_less [OF Inr [unfolded p]]
      by (auto simp: res_bind_eq_Inl buf_write_def split: if_splits)
  qed (use less.prems next_unit_error in \<open>simp add: decode_loop_step [of delta n base out dl rl]\<close>)
qed

lemma ed3_decode_short:
  assumes "encode_room new base buf bl h" "encode_starts new base" "new \<noteq> []"
    "EDeltaEncode new base buf bl h = Inr (delta, n, bl', h')" "(n + length base) * 2 < length new"
  shows "ed3_decode (take n delta) base = Inl OutOfBounds"
proof -
  let ?out = "replicate ((n + length base) * 2) 0 :: byte list"
  obtain us where d: "delta_ok new base delta n us"
    using EDeltaEncode_delta [OF assms(1,2)] assms(4) by auto
  then have n: "length (take n delta) = n" by (auto simp: delta_ok_def holds_def)
  have "delta_ok new base (take n delta) n us" using d by (auto simp: delta_ok_def holds_def)
  from delta_ok_decode [OF this assms(3) order_refl]
  obtain x where x: "EDeltaDecode (take n delta) n base new = Inr (x, length new)" by auto
  have "EDeltaDecode (take n delta) n base ?out = Inl OutOfBounds"
  proof (cases "EDeltaDecode (take n delta) n base ?out")
    case (Inr p)
    obtain o' m where "p = (o', m)" by (cases p)
    with Inr x decode_loop_same decode_loop_size assms(5) show ?thesis
      unfolding EDeltaDecode_def by fastforce
  qed (use decode_loop_error EDeltaDecode_def in auto)
  then show ?thesis unfolding ed3_decode_def n by simp
qed

section \<open>Recipes\<close>

text \<open>The fingerprints of a file one after the other, then the tail.\<close>

fun write_recipe :: "restore_env \<Rightarrow> byte list list \<Rightarrow> Recipe_t \<Rightarrow> byte list \<Rightarrow> (Recipe_t \<times> byte list) res" where
  "write_recipe env [] r written = tail_recipe env r written"
| "write_recipe env (fp # fps) r written =
     res_bind (UpdateFileRecipe env fp r written) (\<lambda>(r, written). write_recipe env fps r written)"

text \<open>A recipe buffer that holds some fingerprints.\<close>

definition recipe_holds :: "restore_env \<Rightarrow> Recipe_t \<Rightarrow> byte list list \<Rightarrow> bool" where
  "recipe_holds env r fps \<longleftrightarrow> recipeNum r = length fps \<and> (\<forall>fp \<in> set fps. length fp = CHUNK_HASH_SIZE) \<and>
     length (entryFpList r) = sendRecipeBatchSize env * CHUNK_HASH_SIZE \<and>
     take (length fps * CHUNK_HASH_SIZE) (entryFpList r) = concat fps"

lemma flush_recipe_ok:
  assumes env: "env_ok env" and r: "recipe_holds env r fps" "length fps \<le> sendRecipeBatchSize env"
  obtains c where "flush_recipe env r written = Inr (r\<lparr>recipeNum := 0\<rparr>, written @ c)"
    "EncryptWithKey (env_ssl env) cryptoObj (concat fps) (masterKey env) = Inr c"
proof -
  have k: "openssl_ok (env_ssl env)" "length (masterKey env) = 32" using env by (simp_all add: env_ok_def)
  obtain c where c: "EncryptWithKey (env_ssl env) cryptoObj (concat fps) (masterKey env) = Inr c" "length c = length (concat fps)"
    by (rule EncryptWithKey_ok [OF k])
  have l: "length (concat fps) = length fps * CHUNK_HASH_SIZE"
    using r(1) by (intro length_blocks) (simp add: recipe_holds_def)
  have "length fps * CHUNK_HASH_SIZE \<le> length (entryFpList r)"
    using r mult_le_mono1 [OF r(2)] by (simp add: recipe_holds_def)
  then have "buf_read (entryFpList r) 0 (recipeNum r * CHUNK_HASH_SIZE) = Inr (concat fps)"
    using r(1) by (simp add: recipe_holds_def buf_read_def bslice_def)
  moreover have "UpdateRecipeToFile c (recipeNum r) written = Inr (written @ c)"
    using c(2) l r(1) by (simp add: UpdateRecipeToFile_def recipe_holds_def buf_read_def bslice_full)
  ultimately show thesis using c(1) by (intro that [of c]) (simp_all add: flush_recipe_def)
qed

lemma write_recipe_ok:
  assumes env: "env_ok env"
  shows "recipe_holds env r pend \<Longrightarrow> length pend < sendRecipeBatchSize env \<Longrightarrow> \<forall>fp \<in> set fps. length fp = CHUNK_HASH_SIZE \<Longrightarrow>
    \<exists>r' out. write_recipe env fps r written = Inr (r', written @ out) \<and> recipe_file env (pend @ fps) = Inr out"
proof (induction fps arbitrary: r pend written)
  case Nil
  let ?B = "sendRecipeBatchSize env"
  show ?case
  proof (cases "pend = []")
    case True
    then show ?thesis using Nil by (simp add: tail_recipe_def recipe_holds_def recipe_file.simps)
  next
    case False
    obtain c where c: "flush_recipe env r written = Inr (r\<lparr>recipeNum := 0\<rparr>, written @ c)"
      "EncryptWithKey (env_ssl env) cryptoObj (concat pend) (masterKey env) = Inr c"
      by (rule flush_recipe_ok [OF env Nil(1)]) (use Nil(2) in auto)
    have "recipe_file env pend = Inr c"
      using False Nil(2) c(2) recipe_file.simps [of env "[]"] by (subst recipe_file.simps) simp
    moreover have "recipeNum r \<noteq> 0" using False Nil(1) by (simp add: recipe_holds_def)
    ultimately show ?thesis using c(1) by (simp add: tail_recipe_def)
  qed
next
  case (Cons fp fps)
  let ?B = "sendRecipeBatchSize env" and ?k = "length pend"
  have fp: "length fp = CHUNK_HASH_SIZE" "\<forall>fp \<in> set fps. length fp = CHUNK_HASH_SIZE" using Cons.prems(3) by simp_all
  have num: "recipeNum r = ?k" and len: "length (entryFpList r) = ?B * CHUNK_HASH_SIZE"
    and tk: "take (?k * CHUNK_HASH_SIZE) (entryFpList r) = concat pend"
    using Cons.prems(1) by (simp_all add: recipe_holds_def)
  have "Suc ?k * CHUNK_HASH_SIZE \<le> ?B * CHUNK_HASH_SIZE" using Cons.prems(2) by (intro mult_le_mono1) simp
  then have room: "?k * CHUNK_HASH_SIZE + length fp \<le> length (entryFpList r)" using len fp(1) by simp
  obtain l where l: "buf_write (entryFpList r) (?k * CHUNK_HASH_SIZE) fp = Inr l"
    using room by (auto simp: buf_write_def)
  let ?r = "\<lparr>recipeNum = Suc ?k, entryFpList = l\<rparr>"
  have "take (Suc ?k * CHUNK_HASH_SIZE) l = concat pend @ fp"
    using buf_write_take [OF l] tk fp(1) by (simp add: add.commute)
  then have h: "recipe_holds env ?r (pend @ [fp])"
    using Cons.prems(1) fp(1) buf_write_length [OF l] len by (simp add: recipe_holds_def)
  have u: "UpdateFileRecipe env fp r written =
      (if Suc ?k mod ?B = 0 then flush_recipe env ?r written else Inr (?r, written))"
    using fp(1) l by (simp add: UpdateFileRecipe_def num buf_read_def bslice_full)
  show ?case
  proof (cases "Suc ?k = ?B")
    case True
    obtain c where c: "flush_recipe env ?r written = Inr (?r\<lparr>recipeNum := 0\<rparr>, written @ c)"
      "EncryptWithKey (env_ssl env) cryptoObj (concat (pend @ [fp])) (masterKey env) = Inr c"
      by (rule flush_recipe_ok [OF env h]) (use True in auto)
    have "recipe_holds env (?r\<lparr>recipeNum := 0\<rparr>) []" using h by (simp add: recipe_holds_def)
    from Cons.IH [OF this _ fp(2), of "written @ c"] True obtain r' out where o:
      "write_recipe env fps (?r\<lparr>recipeNum := 0\<rparr>) ((written @ c)) = Inr (r', (written @ c) @ out)" "recipe_file env fps = Inr out"
      by auto
    have "recipe_file env (pend @ fp # fps) = Inr (c @ out)"
      using True c(2) o(2) by (subst recipe_file.simps) (simp add: True [symmetric])
    moreover have "write_recipe env (fp # fps) r written = Inr (r', written @ c @ out)"
      using u c(1) o(1) True by simp
    ultimately show ?thesis by blast
  next
    case False
    then have lt: "Suc ?k < ?B" using Cons.prems(2) by simp
    then have "Suc ?k mod ?B \<noteq> 0" by simp
    then have "write_recipe env (fp # fps) r written = write_recipe env fps ?r written" using u by simp
    moreover have "length (pend @ [fp]) < ?B" using lt by simp
    ultimately show ?thesis using Cons.IH [OF h _ fp(2), of written] by simp
  qed
qed



section \<open>Properties\<close>

text \<open>
  A history of saved chunks keeps a text under an address: the record with this address decrypts
  to the text.
\<close>

definition kept :: "restore_env \<Rightarrow> (bool \<times> srec) list \<Rightarrow> RecipeEntry_t \<Rightarrow> byte list \<Rightarrow> bool" where
  "kept env hs addr d \<longleftrightarrow> (\<exists>(flag, r) \<in> set hs. s_addr r = addr \<and>
     DecryptionWithKeyIV (env_ssl env) cryptoObj (s_data r) (enclaveKey env) (s_iv r) = Inr d \<and>
     length d = length (s_data r) \<and> length d \<le> MAX_CHUNK_SIZE)"

text \<open>The same, with the kind of container.\<close>

definition kept_as :: "restore_env \<Rightarrow> (bool \<times> srec) list \<Rightarrow> bool \<Rightarrow> RecipeEntry_t \<Rightarrow> byte list \<Rightarrow> bool" where
  "kept_as env hs flag addr d \<longleftrightarrow> (\<exists>r. (flag, r) \<in> set hs \<and> s_addr r = addr \<and>
     DecryptionWithKeyIV (env_ssl env) cryptoObj (s_data r) (enclaveKey env) (s_iv r) = Inr d \<and>
     length d = length (s_data r) \<and> length d \<le> MAX_CHUNK_SIZE)"

lemma kept_as_kept: "kept_as env hs flag addr d \<Longrightarrow> kept env hs addr d"
  unfolding kept_as_def kept_def by blast

lemma kept_as_more: "kept_as env hs flag addr d \<Longrightarrow> set hs \<subseteq> set hs' \<Longrightarrow> kept_as env hs' flag addr d"
  unfolding kept_as_def by blast

lemma kept_more: "kept env hs addr d \<Longrightarrow> set hs \<subseteq> set hs' \<Longrightarrow> kept env hs' addr d"
  unfolding kept_def by blast

lemma kept_plain:
  assumes "session st hs" "Suc (con_times st) < 36 ^ CONTAINER_ID_LENGTH" "end_upload st = Inr st'" "kept env hs addr d"
  shows "plain (env\<lparr>env_files := disk st'\<rparr>) addr d"
  using assms session_plain unfolding kept_def by fast

lemma ProcessSheUniqueChunk_kept:
  assumes "env_ok env" "lz4_ok (env_lz4 env)" "session (up_store up) hs" "con_times (up_store up) < 36 ^ CONTAINER_ID_LENGTH"
    "length chunk \<le> MAX_CHUNK_SIZE" "length sf = 3 * CHUNK_HASH_SIZE" "length fp = CHUNK_HASH_SIZE"
    "length (basechunkHash addr) = CHUNK_HASH_SIZE" "length (superfeature addr) = 3 * CHUNK_HASH_SIZE"
  obtains addr' up' h where "ProcessSheUniqueChunk env addr chunk sf fp up = Inr (addr', up')"
    "session (up_store up') (h # hs)" "re_deltaFlag addr' = re_deltaFlag addr" "basechunkHash addr' = basechunkHash addr"
    "kept_as env (h # hs) (re_deltaFlag addr \<noteq> NO_DELTA) addr' (stored_form env (re_deltaFlag addr = NO_DELTA) chunk)"
proof -
  obtain addr' up' r where p: "ProcessSheUniqueChunk env addr chunk sf fp up = Inr (addr', up')"
    "session (up_store up') ((re_deltaFlag addr \<noteq> NO_DELTA, r) # hs)" "s_addr r = addr'"
    "re_deltaFlag addr' = re_deltaFlag addr" "basechunkHash addr' = basechunkHash addr"
    "DecryptionWithKeyIV (env_ssl env) cryptoObj (s_data r) (enclaveKey env) (s_iv r) =
       Inr (stored_form env (re_deltaFlag addr = NO_DELTA) chunk)"
    "length (s_data r) = length (stored_form env (re_deltaFlag addr = NO_DELTA) chunk)"
    by (rule ProcessSheUniqueChunk_ok [OF assms])
  have "length (stored_form env (re_deltaFlag addr = NO_DELTA) chunk) \<le> MAX_CHUNK_SIZE"
    using stored_form_length [OF assms(2)] assms(5) le_trans by blast
  then show thesis using p by (intro that [of addr' up' "(re_deltaFlag addr \<noteq> NO_DELTA, r)"]) (auto simp: kept_as_def)
qed

text \<open>
  C24: A unique chunk that is no delta is compressed, encrypted under the next iv, saved and
  counted without a fault, and its address then restores it: after any further chunks and the end of the
  upload, reading the container at the address, decrypting and decompressing gives the chunk,
  provided a chunk that LZ4 did not compress is not taken for a compressed one.
\<close>

theorem unique_chunk_restores:
  assumes "env_ok env" "lz4_ok (env_lz4 env)" "session (up_store up) hs" "con_times (up_store up) < 36 ^ CONTAINER_ID_LENGTH"
    "length chunk \<le> MAX_CHUNK_SIZE" "length sf = 3 * CHUNK_HASH_SIZE" "length fp = CHUNK_HASH_SIZE"
    "length (basechunkHash addr) = CHUNK_HASH_SIZE" "length (superfeature addr) = 3 * CHUNK_HASH_SIZE"
    "re_deltaFlag addr = NO_DELTA" "raw_safe env chunk"
  shows "\<exists>addr' up' h. ProcessSheUniqueChunk env addr chunk sf fp up = Inr (addr', up') \<and>
    session (up_store up') (h # hs) \<and>
    (\<forall>st hs' st'. session st hs' \<and> set (h # hs) \<subseteq> set hs' \<and> Suc (con_times st) < 36 ^ CONTAINER_ID_LENGTH \<and>
       end_upload st = Inr st' \<longrightarrow> restores (env\<lparr>env_files := disk st'\<rparr>) addr' chunk)"
proof -
  obtain addr' up' h where p: "ProcessSheUniqueChunk env addr chunk sf fp up = Inr (addr', up')"
    "session (up_store up') (h # hs)" "re_deltaFlag addr' = re_deltaFlag addr"
    "kept_as env (h # hs) (re_deltaFlag addr \<noteq> NO_DELTA) addr' (stored_form env (re_deltaFlag addr = NO_DELTA) chunk)"
    by (rule ProcessSheUniqueChunk_kept [OF assms(1-9)])
  have "restores (env\<lparr>env_files := disk st'\<rparr>) addr' chunk"
    if "session st hs'" "set (h # hs) \<subseteq> set hs'" "Suc (con_times st) < 36 ^ CONTAINER_ID_LENGTH" "end_upload st = Inr st'"
    for st hs' st'
  proof -
    have "plain (env\<lparr>env_files := disk st'\<rparr>) addr' (stored_form env True chunk)"
      by (rule kept_plain [OF that(1,3,4)]) (use kept_more [OF kept_as_kept [OF p(4)] that(2)] assms(10) in simp)
    moreover have "unpacked (env\<lparr>env_files := disk st'\<rparr>) d = unpacked env d" for d by (simp add: unpacked_def)
    ultimately show ?thesis
      using unpacked_stored [OF assms(2,11,5)] assms(5,10) p(3) by (auto simp: restores_def delta_defs)
  qed
  with p show ?thesis by blast
qed

lemma count_stored_store [simp]: "up_store (count_stored n up) = up_store up"
  by (simp add: count_stored_def)

lemma ProcessSheUniqueChunk_names:
  "ProcessSheUniqueChunk env addr chunk sf fp up = Inr (addr', up') \<Longrightarrow>
     con_times (up_store up') \<le> Suc (con_times (up_store up))"
  by (auto simp: ProcessSheUniqueChunk_def next_iv_def SavebaseChunk_def SavedeltaChunk_def save_record_def flush_stream_def
      write_container_def Let_def res_bind_eq_Inr split: if_splits)

lemma ProcessSheUniqueChunk_disk:
  "ProcessSheUniqueChunk env addr chunk sf fp up = Inr (addr', up') \<Longrightarrow> disk (up_store up') = disk (up_store up)"
  by (auto simp: ProcessSheUniqueChunk_def next_iv_def SavebaseChunk_def SavedeltaChunk_def save_record_def flush_stream_def
      write_container_def Let_def res_bind_eq_Inr split: if_splits)

lemma sample_lz4_ok: "lz4_ok (env_lz4 (sample_env\<lparr>env_db := db\<rparr>))" "raw_safe (sample_env\<lparr>env_db := db\<rparr>) chunk"
  by (simp_all add: lz4_ok_def raw_safe_def sample_env_def sample_lz4_def)

lemma end_upload_total:
  assumes "session st hs" "Suc (con_times st) < 36 ^ CONTAINER_ID_LENGTH"
  obtains st' where "end_upload st = Inr st'"
  by (rule session_catalogue [OF assms]) (rule that)

theorem unique_chunk_restores_witness:
  "\<exists>st addr up st'. InitUpload iv0 = Inr st \<and>
     ProcessSheUniqueChunk sample_env addr0 [7, 8] sf0 fp0
       \<lparr>up_store = st, compressedDataSize = 0, onlineCompress_size = 0, onlineBackupSize = 0\<rparr> = Inr (addr, up) \<and>
     end_upload (up_store up) = Inr st' \<and> restores (sample_env\<lparr>env_files := disk st'\<rparr>) addr [7, 8]"
proof -
  obtain st where st: "InitUpload iv0 = Inr st" "session st []" "con_times st = 3" using start_small by blast
  let ?up = "\<lparr>up_store = st, compressedDataSize = 0, onlineCompress_size = 0, onlineBackupSize = 0\<rparr>"
  have lz: "lz4_ok (env_lz4 sample_env)" "raw_safe sample_env [7, 8]"
    by (simp_all add: lz4_ok_def raw_safe_def sample_env_def sample_lz4_def)
  have s: "session (up_store ?up) []" "con_times (up_store ?up) < 36 ^ CONTAINER_ID_LENGTH"
    using st by (simp_all add: size_consts)
  obtain addr up h where p: "ProcessSheUniqueChunk sample_env addr0 [7, 8] sf0 fp0 ?up = Inr (addr, up)"
    "session (up_store up) [h]"
    "\<forall>st hs' st'. session st hs' \<and> set [h] \<subseteq> set hs' \<and> Suc (con_times st) < 36 ^ CONTAINER_ID_LENGTH \<and>
       end_upload st = Inr st' \<longrightarrow> restores (sample_env\<lparr>env_files := disk st'\<rparr>) addr [7, 8]"
    using unique_chunk_restores [OF sample_env_ok lz(1) s, of "[7, 8]" sf0 fp0 addr0] lz(2)
    by (auto simp: size_consts delta_defs)
  have t: "Suc (con_times (up_store up)) < 36 ^ CONTAINER_ID_LENGTH"
    using ProcessSheUniqueChunk_names [OF p(1)] st(3) by (simp add: size_consts)
  obtain st' where e: "end_upload (up_store up) = Inr st'" by (rule end_upload_total [OF p(2) t])
  show ?thesis using st(1) p(1) e p(3) p(2) t by blast
qed

text \<open>
  C25: The same for a delta: when its base chunk was saved under an address that the index has
  for the base fingerprint, the delta that \<open>EDeltaEncode\<close> made of a chunk over the base is saved
  without a fault, and after the end of the upload its address restores the chunk, as long as
  the chunk is at most twice as long as base and delta together.
\<close>

theorem delta_chunk_restores:
  assumes "env_ok env" "lz4_ok (env_lz4 env)" "session (up_store up) hs" "con_times (up_store up) < 36 ^ CONTAINER_ID_LENGTH"
    "length (take n delta) \<le> MAX_CHUNK_SIZE" "length sf = 3 * CHUNK_HASH_SIZE" "length fp = CHUNK_HASH_SIZE"
    "length (basechunkHash addr) = CHUNK_HASH_SIZE" "length (superfeature addr) = 3 * CHUNK_HASH_SIZE"
    "re_deltaFlag addr = DELTA" "address_of env (basechunkHash addr) b" "kept env hs b (stored_form env True base)"
    "raw_safe env base" "length base \<le> MAX_CHUNK_SIZE"
    "encode_room chunk base buf bl ht" "encode_starts chunk base" "chunk \<noteq> []"
    "EDeltaEncode chunk base buf bl ht = Inr (delta, n, bl', ht')" "length chunk \<le> MAX_CHUNK_SIZE"
    "length chunk \<le> (n + length base) * 2"
  shows "\<exists>addr' up' h. ProcessSheUniqueChunk env addr (take n delta) sf fp up = Inr (addr', up') \<and>
    session (up_store up') (h # hs) \<and>
    (\<forall>st hs' st'. session st hs' \<and> set (h # hs) \<subseteq> set hs' \<and> Suc (con_times st) < 36 ^ CONTAINER_ID_LENGTH \<and>
       end_upload st = Inr st' \<longrightarrow> restores (env\<lparr>env_files := disk st'\<rparr>) addr' chunk)"
proof -
  obtain addr' up' h where p: "ProcessSheUniqueChunk env addr (take n delta) sf fp up = Inr (addr', up')"
    "session (up_store up') (h # hs)" "re_deltaFlag addr' = re_deltaFlag addr" "basechunkHash addr' = basechunkHash addr"
    "kept_as env (h # hs) (re_deltaFlag addr \<noteq> NO_DELTA) addr' (stored_form env (re_deltaFlag addr = NO_DELTA) (take n delta))"
    by (rule ProcessSheUniqueChunk_kept [OF assms(1-9)])
  have raw: "stored_form env (re_deltaFlag addr = NO_DELTA) (take n delta) = take n delta"
    using assms(10) by (simp add: stored_form_def delta_defs)
  have "restores (env\<lparr>env_files := disk st'\<rparr>) addr' chunk"
    if t: "session st hs'" "set (h # hs) \<subseteq> set hs'" "Suc (con_times st) < 36 ^ CONTAINER_ID_LENGTH" "end_upload st = Inr st'"
    for st hs' st'
  proof -
    let ?env = "env\<lparr>env_files := disk st'\<rparr>"
    have 1: "plain ?env addr' (take n delta)"
      by (rule kept_plain [OF t(1,3,4)]) (use kept_more [OF kept_as_kept [OF p(5)] t(2)] raw in simp)
    have 2: "plain ?env b (stored_form env True base)"
      by (rule kept_plain [OF t(1,3,4)]) (use kept_more [OF assms(12)] t(2) in auto)
    have 3: "unpacked ?env (stored_form env True base) = base"
      using unpacked_stored [OF assms(2,13,14)] by (simp add: unpacked_def)
    have 4: "address_of ?env (basechunkHash addr') b"
      using assms(11) p(4) by (simp add: address_of_def decrypt_recipe_def)
    have "ed3_decode (take n delta) base = Inr chunk"
      by (rule ed3_decode_encoded [OF assms(15-18,20)])
    then show ?thesis unfolding restores_def using 1 2 3 4 assms(10,19) p(3) by auto metis
  qed
  with p show ?thesis by blast
qed

lemma session_wf:
  assumes "session st hs" "Suc (con_times st) < 36 ^ CONTAINER_ID_LENGTH" "(flag, r) \<in> set hs"
  shows "recipe_wf (s_addr r)"
proof -
  obtain st1 cat where e: "end_upload st = Inr st1" "history_ok hs cat" "tidy cat" "on_disk (disk st1) cat"
    "\<forall>k rs. cat k = Some rs \<and> rs \<noteq> [] \<longrightarrow> k \<in> dom (disk st1)"
    by (rule session_catalogue [OF assms(1,2)])
  obtain rs where "placed (containerName (s_addr r)) 0 rs" "r \<in> set rs"
    using record_file [OF e(2) assms(3) e(3-5)] by blast
  from placed_srec [OF this] show ?thesis by (auto simp: srec_ok_def)
qed

theorem delta_chunk_restores_witness:
  "\<exists>env st delta n bl' ht' addr up h.
     EDeltaEncode [1, 2, 3] [248, 249, 250] (replicate 15 0) small_links (htable_new 24 1) = Inr (delta, n, bl', ht') \<and>
     ProcessSheUniqueChunk env (addr0\<lparr>re_deltaFlag := DELTA, basechunkHash := sample_key 1\<rparr>) (take n delta) sf0 fp0
       \<lparr>up_store = st, compressedDataSize = 0, onlineCompress_size = 0, onlineBackupSize = 0\<rparr> = Inr (addr, up) \<and>
     session (up_store up) h \<and>
     (\<forall>st'. Suc (con_times (up_store up)) < 36 ^ CONTAINER_ID_LENGTH \<and> end_upload (up_store up) = Inr st' \<longrightarrow>
        restores (env\<lparr>env_files := disk st'\<rparr>) addr [1, 2, 3])"
proof -
  let ?new = "[1, 2, 3] :: byte list" and ?base = "[248, 249, 250] :: byte list"
  have room: "encode_room ?new ?base (replicate 15 0) small_links (htable_new 24 1)"
    by (simp add: encode_room_def htable_new_def htable_init_ok)
  have starts: "encode_starts ?new ?base"
    by (simp add: encode_starts_def detect_ends_def ext_words.simps ext_bytes.simps tail_words.simps tail_bytes.simps base_due_def Let_def)
  obtain delta n bl' ht' where e: "EDeltaEncode ?new ?base (replicate 15 0) small_links (htable_new 24 1) = Inr (delta, n, bl', ht')"
    using EDeltaEncode_delta [OF room starts] by blast
  have n: "n \<le> 15" using EDeltaEncode_delta [OF room starts] e by (auto simp: delta_ok_def)
  obtain st b where s: "session st [(False, \<lparr>s_addr = b, s_fp = fp0, s_sf = sf0, s_data = [1, 2, 3], s_iv = iv0\<rparr>)]"
    "Suc (con_times st) < 36 ^ CONTAINER_ID_LENGTH" using session_small by blast
  have b: "recipe_wf b" using session_wf [OF s] by force
  let ?env = "sample_env\<lparr>env_db := Insert (sample_key 1) (sample_value b) empty_db\<rparr>"
  let ?addr = "addr0\<lparr>re_deltaFlag := DELTA, basechunkHash := sample_key 1\<rparr>"
  let ?up = "\<lparr>up_store = st, compressedDataSize = 0, onlineCompress_size = 0, onlineBackupSize = 0\<rparr>"
  have ok: "env_ok ?env" using sample_env_ok by (simp add: env_ok_def)
  have "decrypt_recipe ?env (sample_value b) = Inr b" using decrypt_sample [OF b] by (simp add: decrypt_recipe_def)
  then have at: "address_of ?env (basechunkHash ?addr) b"
    using b by (simp add: address_of_def Query_def Insert_def size_consts sample_value_def sample_key_def recipe_wf_def)
  have k: "kept ?env [(False, \<lparr>s_addr = b, s_fp = fp0, s_sf = sf0, s_data = [1, 2, 3], s_iv = iv0\<rparr>)] b
      (stored_form ?env True ?base)"
    by (simp add: kept_def stored_form_def sample_env_def sample_lz4_def DecryptionWithKeyIV_def run_cipher_def sample_ssl_def
        size_consts)
  have c: "session (up_store ?up) [(False, \<lparr>s_addr = b, s_fp = fp0, s_sf = sf0, s_data = [1, 2, 3], s_iv = iv0\<rparr>)]"
    "con_times (up_store ?up) < 36 ^ CONTAINER_ID_LENGTH" using s by simp_all
  have d: "length (take n delta) \<le> MAX_CHUNK_SIZE" using n by (simp add: size_consts min_def)
  have l: "length sf0 = 3 * CHUNK_HASH_SIZE" "length fp0 = CHUNK_HASH_SIZE" "length (basechunkHash ?addr) = CHUNK_HASH_SIZE"
    "length (superfeature ?addr) = 3 * CHUNK_HASH_SIZE" "re_deltaFlag ?addr = DELTA" "length ?base \<le> MAX_CHUNK_SIZE"
    "?new \<noteq> []" "length ?new \<le> MAX_CHUNK_SIZE" "length ?new \<le> (n + length ?base) * 2"
    by (simp_all add: size_consts sample_key_def)
  obtain addr up h where p: "ProcessSheUniqueChunk ?env ?addr (take n delta) sf0 fp0 ?up = Inr (addr, up)"
    "session (up_store up) h" "\<forall>st hs' st'. session st hs' \<and> set h \<subseteq> set hs' \<and>
       Suc (con_times st) < 36 ^ CONTAINER_ID_LENGTH \<and> end_upload st = Inr st' \<longrightarrow>
       restores (?env\<lparr>env_files := disk st'\<rparr>) addr ?new"
    using delta_chunk_restores [OF ok sample_lz4_ok(1) c d l(1-5) at k sample_lz4_ok(2) l(6) room starts l(7) e l(8,9)] by blast
  show ?thesis using e p by blast
qed

text \<open>
  C26: The buffer of the restore path is not large enough for every delta: the delta of a
  non-empty chunk is decoded exactly when the chunk is at most twice as long as delta and base
  together, and otherwise the decoder writes behind the buffer.
\<close>

theorem restore_delta_buffer:
  assumes "encode_room chunk base buf bl ht" "encode_starts chunk base" "chunk \<noteq> []"
    "EDeltaEncode chunk base buf bl ht = Inr (delta, n, bl', ht')"
  shows "ed3_decode (take n delta) base =
    (if length chunk \<le> (n + length base) * 2 then Inr chunk else Inl OutOfBounds)"
  using ed3_decode_encoded [OF assms] ed3_decode_short [OF assms] by simp

theorem restore_delta_buffer_witness:
  "\<exists>delta n bl' ht'. EDeltaEncode [1, 2, 3] [1, 2, 4] (replicate 15 0) small_links (htable_new 24 1)
      = Inr (delta, n, bl', ht') \<and> ed3_decode (take n delta) [1, 2, 4] = Inr [1, 2, 3]"
proof -
  obtain delta n bl' ht' where e: "EDeltaEncode [1, 2, 3] [1, 2, 4] (replicate 15 0) small_links
      (htable_new 24 1) = Inr (delta, n, bl', ht')"
    using EDeltaEncode_delta [OF room_small(1) starts_small] by blast
  with restore_delta_buffer [OF room_small(1) starts_small _ e] show ?thesis by auto
qed



end
