(* ===== verification/Batch.thy ===== *)
theory Batch imports Upload Sketch EntryHeap Features begin

text \<open>
  The upload of a batch of chunks: \<open>ProcessOneBatch\<close> of \<open>ecallIndex/ecallFreqIndex.cc\<close> with its
  helpers, the OCALLs it makes (\<open>ocallSrc/storeOCall.cc\<close>), and the calls of the server around it
  (\<open>Index/enclaveIndex.cc\<close>).  The enclave fingerprints the chunks, counts them in the sketch, looks
  for duplicates in the batch, in the top-k index and in the database, computes features of
  the new chunks, looks for base chunks, saves deltas or chunks, and brings the indexes up to
  date.
\<close>

section \<open>State\<close>

text \<open>
  The entries of the query buffers.  An entry in the enclave holds a plain recipe; while a chunk
  is not stored yet, its offset field holds the position of another entry.  An entry outside
  holds recipes as raw bytes, since they are encrypted most of the time.  The pointer
  \<open>containerbuffer\<close> is the content it points to: it is read right after it has been set.
\<close>

record InQueryEntry_t =
  iq_dedupFlag :: byte
  iq_deltaFlag :: byte
  iq_chunkHash :: "byte list"
  iq_chunkAddr :: RecipeEntry_t
  iq_chunkFreq :: u32
  iq_chunkSize :: u32
  iq_superfeature :: "byte list"
  iq_basechunkAddr :: RecipeEntry_t

record OutQueryEntry_t =
  oq_dedupFlag :: byte
  oq_deltaFlag :: byte
  oq_offlineFlag :: byte
  oq_chunkHash :: "byte list"
  oq_chunkAddr :: "byte list"
  oq_superfeature :: "byte list"
  containerbuffer :: "byte list"
  oq_basechunkAddr :: "byte list"

text \<open>
  The index object of the enclave (\<open>EcallFreqIndex\<close>), the buffers of its client
  (\<open>EnclaveClient\<close>), and what the OCALLs reach outside: database, query buffer, scratch
  container and the two buffers of fingerprint pairs (\<open>ClientVar\<close>).
\<close>

record server =
  srv_up :: uploader
  index_db :: InMemoryDatabase
  cmSketch :: EcallCMSketch
  insideDedupIndex :: EcallEntryHeap
  topThreshold :: nat
  inContainercache :: slot_pool
  Forward_Flag :: bool
  inQueryBase :: "InQueryEntry_t list"
  localIndex :: "byte list \<Rightarrow> nat option"
  recvBuffer :: "byte list"
  BaseLink :: "DeltaRecord list"
  psHTable2 :: "nat htable"
  deltaBuffer :: "byte list"
  inRecipe :: Recipe_t
  recipeFile :: "byte list"
  outQueryBase :: "OutQueryEntry_t list"
  out_queryNum :: nat
  out_currNum :: nat
  tmpOcallcontainer :: "byte list"
  process_buffer :: "byte list"
  test_buffer :: "byte list"

text \<open>Element of an array, and a loop over positions.\<close>

definition entry_at :: "'a list \<Rightarrow> nat \<Rightarrow> 'a res" where
  "entry_at xs i = (if i < length xs then Inr (xs ! i) else Inl OutOfBounds)"

fun for_each :: "('i \<Rightarrow> 's \<Rightarrow> 's res) \<Rightarrow> 'i list \<Rightarrow> 's \<Rightarrow> 's res" where
  "for_each f [] s = Inr s"
| "for_each f (i # is) s = res_bind (f i s) (for_each f is)"

definition put_in :: "nat \<Rightarrow> InQueryEntry_t \<Rightarrow> server \<Rightarrow> server" where
  "put_in i e st = st\<lparr>inQueryBase := (inQueryBase st)[i := e]\<rparr>"

definition put_out :: "nat \<Rightarrow> OutQueryEntry_t \<Rightarrow> server \<Rightarrow> server" where
  "put_out i e st = st\<lparr>outQueryBase := (outQueryBase st)[i := e]\<rparr>"

text \<open>
  A server for a first upload, as the constructors set it up (\<open>EcallFreqIndex\<close>,
  \<open>InContainercache\<close>, \<open>EnclaveClient::InitUploadBuffer\<close>, \<open>ClientVar::InitUploadBuffer\<close>).
  Memory from \<open>malloc\<close> is filled with zeros here; none of it is read before it is written.
\<close>

definition zero_recipe :: RecipeEntry_t where
  "zero_recipe = \<lparr>containerName = replicate CONTAINER_ID_LENGTH 0, re_deltaFlag = 0, re_offset = 0, re_length = 0,
     basechunkHash = replicate CHUNK_HASH_SIZE 0, superfeature = replicate (3 * CHUNK_HASH_SIZE) 0\<rparr>"

definition zero_in :: InQueryEntry_t where
  "zero_in = \<lparr>iq_dedupFlag = 0, iq_deltaFlag = 0, iq_chunkHash = replicate CHUNK_HASH_SIZE 0, iq_chunkAddr = zero_recipe,
     iq_chunkFreq = 0, iq_chunkSize = 0, iq_superfeature = replicate (3 * CHUNK_HASH_SIZE) 0, iq_basechunkAddr = zero_recipe\<rparr>"

definition zero_out :: OutQueryEntry_t where
  "zero_out = \<lparr>oq_dedupFlag = 0, oq_deltaFlag = 0, oq_offlineFlag = 0, oq_chunkHash = replicate CHUNK_HASH_SIZE 0,
     oq_chunkAddr = replicate sizeof_RecipeEntry 0, oq_superfeature = replicate (3 * CHUNK_HASH_SIZE) 0,
     containerbuffer = [], oq_basechunkAddr = replicate sizeof_RecipeEntry 0\<rparr>"

definition InitServer :: "restore_env \<Rightarrow> nat \<Rightarrow> bool \<Rightarrow> byte list \<Rightarrow> server res" where
  "InitServer env topKParam forward iv =
     res_bind (InitUpload iv) (\<lambda>store. Inr
       \<lparr>srv_up = \<lparr>up_store = store, compressedDataSize = 0, onlineCompress_size = 0, onlineBackupSize = 0\<rparr>,
        index_db = empty_db, cmSketch = CMSketch_new (256 * 1024) 4, insideDedupIndex = new_heap,
        topThreshold = topKParam, inContainercache = new_pool Cachesize Cachesize, Forward_Flag = forward,
        inQueryBase = replicate (sendChunkBatchSize env) zero_in, localIndex = Map.empty,
        recvBuffer = replicate (sendChunkBatchSize env * sizeof_Chunk) 0,
        BaseLink = replicate (MAX_CHUNK_SIZE div STRMIN + 50) \<lparr>nHash = 0, nOffset = 0, nLength = 0, DupFlag = 0\<rparr>,
        psHTable2 = htable_init 0 8 (16 * 1024), deltaBuffer = replicate (2 * MAX_CHUNK_SIZE) 0,
        inRecipe = \<lparr>recipeNum = 0, entryFpList = replicate (sendRecipeBatchSize env * CHUNK_HASH_SIZE) 0\<rparr>,
        recipeFile = [], outQueryBase = replicate (sendChunkBatchSize env) zero_out, out_queryNum = 0, out_currNum = 0,
        tmpOcallcontainer = replicate MAX_CONTAINER_SIZE 0,
        process_buffer = replicate (100000 * CHUNK_HASH_SIZE) 0, test_buffer = replicate (8000 * CHUNK_HASH_SIZE) 0\<rparr>)"

section \<open>Fingerprints, frequencies and the first two indexes\<close>

text \<open>Every pass over the batch that needs the chunks carries the offset of the current one.\<close>

definition hash_chunk :: "restore_env \<Rightarrow> nat \<Rightarrow> nat \<times> server \<Rightarrow> (nat \<times> server) res" where
  "hash_chunk env i = (\<lambda>(currentOffset, st).
     res_bind (buf_read (recvBuffer st) currentOffset 4) (\<lambda>sz.
     let chunkSize = get32 sz in
     res_bind (buf_read (recvBuffer st) (currentOffset + 4) (unat chunkSize)) (\<lambda>chunk.
     res_bind (GenerateHash (env_ssl env) cryptoObj chunk) (\<lambda>h.
     res_bind (entry_at (inQueryBase st) i) (\<lambda>e.
       Inr (currentOffset + 4 + unat chunkSize,
         put_in i (e\<lparr>iq_chunkSize := chunkSize, iq_chunkHash := h\<rparr>) st))))))"

definition count_chunk :: "nat \<Rightarrow> server \<Rightarrow> server res" where
  "count_chunk i st =
     res_bind (entry_at (inQueryBase st) i) (\<lambda>e.
     res_bind (Update (iq_chunkHash e) 1 (cmSketch st)) (\<lambda>sk.
     res_bind (Estimate sk (iq_chunkHash e)) (\<lambda>freq.
       Inr (put_in i (e\<lparr>iq_chunkFreq := freq\<rparr>) (st\<lparr>cmSketch := sk\<rparr>)))))"

text \<open>A chunk that the index outside must be asked for gets the next entry outside.\<close>

definition ask_outside :: "restore_env \<Rightarrow> nat \<Rightarrow> nat \<times> server \<Rightarrow> (nat \<times> server) res" where
  "ask_outside env i = (\<lambda>(outQueryNum, st).
     res_bind (entry_at (inQueryBase st) i) (\<lambda>e.
     res_bind (IndexAESCMCEnc (env_ssl env) cryptoObj (iq_chunkHash e) (indexQueryKey env)) (\<lambda>key.
     res_bind (entry_at (outQueryBase st) outQueryNum) (\<lambda>q.
       Inr (Suc outQueryNum,
         put_in i (e\<lparr>iq_dedupFlag := UNIQUE,
             iq_chunkAddr := (iq_chunkAddr e)\<lparr>re_offset := word_of_nat outQueryNum\<rparr>\<rparr>)
           (put_out outQueryNum (q\<lparr>oq_chunkHash := key\<rparr>) st))))))"

text \<open>
  The local index of the batch, then the top-k index; a chunk that is rarer than all of the
  latter is not looked up there.
\<close>

definition dedup_chunk :: "restore_env \<Rightarrow> u32 \<Rightarrow> nat \<Rightarrow> nat \<times> server \<Rightarrow> (nat \<times> server) res" where
  "dedup_chunk env minFreq i = (\<lambda>(outQueryNum, st).
     res_bind (entry_at (inQueryBase st) i) (\<lambda>e.
     case localIndex st (iq_chunkHash e) of
       Some offset \<Rightarrow>
         res_bind (entry_at (inQueryBase st) offset) (\<lambda>f.
         res_bind (if iq_dedupFlag f = UNIQUE then Inr TMP_UNIQUE
                   else if iq_dedupFlag f = DUPLICATE then Inr TMP_DUPLICATE else Inl ExitError) (\<lambda>flag.
           Inr (outQueryNum,
             put_in offset (f\<lparr>iq_chunkFreq := iq_chunkFreq e\<rparr>)
               (put_in i (e\<lparr>iq_dedupFlag := flag,
                   iq_chunkAddr := (iq_chunkAddr e)\<lparr>re_offset := word_of_nat offset\<rparr>\<rparr>) st))))
     | None \<Rightarrow>
         res_bind
           (if iq_chunkFreq e \<ge> minFreq \<and> Contains_heap (iq_chunkHash e) (insideDedupIndex st)
            then let (item, h) = GetPriority (iq_chunkHash e) (insideDedupIndex st) in
              Inr (outQueryNum,
                put_in i (e\<lparr>iq_dedupFlag := DUPLICATE, iq_chunkAddr := address item\<rparr>) (st\<lparr>insideDedupIndex := h\<rparr>))
            else ask_outside env i (outQueryNum, st))
           (\<lambda>(outQueryNum, st). Inr (outQueryNum, st\<lparr>localIndex := (localIndex st)(iq_chunkHash e \<mapsto> i)\<rparr>))))"

text \<open>The frequency below which a chunk cannot be in the top-k index.\<close>

definition min_freq :: "server \<Rightarrow> u32 res" where
  "min_freq st =
     (if Size (insideDedupIndex st) = topThreshold st then TopEntry (insideDedupIndex st) else Inr 0)"

section \<open>The index outside\<close>

definition query_entry :: "nat \<Rightarrow> server \<Rightarrow> server res" where
  "query_entry j st =
     res_bind (entry_at (outQueryBase st) j) (\<lambda>q.
     res_bind (QueryBuffer (oq_chunkHash q) CHUNK_HASH_SIZE (index_db st)) (\<lambda>r.
       case r of
         None \<Rightarrow> Inr (put_out j (q\<lparr>oq_dedupFlag := UNIQUE\<rparr>) st)
       | Some tmpChunkAddress \<Rightarrow>
           res_bind (buf_read tmpChunkAddress 0 sizeof_RecipeEntry) (\<lambda>addr.
             Inr (put_out j (q\<lparr>oq_dedupFlag := DUPLICATE, oq_chunkAddr := addr\<rparr>) st))))"

definition Ocall_QueryOutIndex :: "server \<Rightarrow> server res" where
  "Ocall_QueryOutIndex st = for_each query_entry [0..<out_queryNum st] st"

definition update_entry :: "nat \<Rightarrow> server \<Rightarrow> server res" where
  "update_entry j st =
     res_bind (entry_at (outQueryBase st) j) (\<lambda>q.
       if oq_dedupFlag q = UNIQUE
       then res_bind (InsertBothBuffer (oq_chunkHash q) CHUNK_HASH_SIZE (oq_chunkAddr q) sizeof_RecipeEntry (index_db st)) (\<lambda>db.
            res_bind (if oq_deltaFlag q = NO_DELTA \<and> oq_offlineFlag q = 0
                      then InsertSF (oq_superfeature q) (oq_chunkHash q) 0 db else Inr db) (\<lambda>db.
              Inr (st\<lparr>index_db := db\<rparr>)))
       else Inr st)"

definition Ocall_UpdateOutIndex :: "server \<Rightarrow> server res" where
  "Ocall_UpdateOutIndex st = for_each update_entry [0..<out_queryNum st] st"

section \<open>Super features and similar chunks\<close>

text \<open>
  The parameters of the feature threads: the chunks that neither index knows.  The second
  component is the entry outside that belongs to the next unique entry inside.
\<close>

definition collect_param ::
    "nat \<Rightarrow> nat \<times> nat \<times> Param list \<times> server \<Rightarrow> (nat \<times> nat \<times> Param list \<times> server) res" where
  "collect_param i = (\<lambda>(currentOffset, k, param_list, st).
     res_bind (entry_at (inQueryBase st) i) (\<lambda>e.
     res_bind
       (if iq_dedupFlag e = UNIQUE
        then res_bind (entry_at (outQueryBase st) k) (\<lambda>q.
          Inr (Suc k, if oq_dedupFlag q = UNIQUE
                      then param_list @ [\<lparr>pm_ptr = drop (currentOffset + 4) (recvBuffer st), pm_SF = i,
                                          pm_chunksize = unat (iq_chunkSize e)\<rparr>]
                      else param_list))
        else Inr (k, param_list))
       (\<lambda>(k, param_list). Inr (currentOffset + 4 + unat (iq_chunkSize e), k, param_list, st))))"

text \<open>
  The features are written to disjoint entries, so all interleavings of the threads end like
  this loop (\<open>sf_threads_complete\<close>).
\<close>

definition run_param :: "restore_env \<Rightarrow> Param \<Rightarrow> server \<Rightarrow> server res" where
  "run_param env p st =
     res_bind (getSF2 (env_ssl env) cryptoObj (pm_ptr p) (pm_chunksize p)) (\<lambda>sf.
     res_bind (entry_at (inQueryBase st) (pm_SF p)) (\<lambda>e.
       Inr (put_in (pm_SF p) (e\<lparr>iq_superfeature := sf\<rparr>) st)))"

definition out_features :: "nat \<Rightarrow> nat \<times> server \<Rightarrow> (nat \<times> server) res" where
  "out_features i = (\<lambda>(k, st).
     res_bind (entry_at (inQueryBase st) i) (\<lambda>e.
       if iq_dedupFlag e = UNIQUE
       then res_bind (entry_at (outQueryBase st) k) (\<lambda>q.
         Inr (Suc k, if oq_dedupFlag q = UNIQUE
                     then put_out k (q\<lparr>oq_deltaFlag := NO_DELTA, oq_offlineFlag := 0,
                                       oq_superfeature := iq_superfeature e\<rparr>) st
                     else st))
       else Inr (k, st)))"

definition OutEntrySFGet :: "nat \<Rightarrow> server \<Rightarrow> server res" where
  "OutEntrySFGet itemNum st =
     res_bind (for_each out_features [0..<itemNum] (0, st)) (\<lambda>(k, st). Inr st)"

text \<open>
  Look for a chunk that has a feature in common; a base chunk without an address is reported
  and left as it is.
\<close>

definition query_base :: "nat \<Rightarrow> server \<Rightarrow> server res" where
  "query_base j st =
     res_bind (entry_at (outQueryBase st) j) (\<lambda>q.
       if oq_dedupFlag q = UNIQUE \<and> oq_deltaFlag q = NO_DELTA
       then res_bind (QuerySF (oq_superfeature q) (index_db st)) (\<lambda>r.
         case r of
           None \<Rightarrow> Inr st
         | Some basehash \<Rightarrow>
             res_bind (buf_read basehash 0 CHUNK_HASH_SIZE) (\<lambda>basehash.
             res_bind (buf_write (oq_chunkAddr q) 16 basehash) (\<lambda>addr.
             res_bind (QueryBuffer basehash CHUNK_HASH_SIZE (index_db st)) (\<lambda>r.
             let q = q\<lparr>oq_chunkAddr := addr, oq_deltaFlag := OUT_DELTA\<rparr> in
             case r of
               None \<Rightarrow> Inr (put_out j q st)
             | Some v \<Rightarrow> res_bind (buf_read v 0 sizeof_RecipeEntry) (\<lambda>baseaddr.
                 Inr (put_out j (q\<lparr>oq_basechunkAddr := baseaddr\<rparr>) st))))))
       else Inr st)"

definition Ocall_QueryOutBasechunk :: "server \<Rightarrow> server res" where
  "Ocall_QueryOutBasechunk st = for_each query_base [0..<out_queryNum st] st"

text \<open>The fingerprint of the base inside the address of an entry outside.\<close>

definition base_hash :: "OutQueryEntry_t \<Rightarrow> byte list" where
  "base_hash q = bslice (oq_chunkAddr q) 16 CHUNK_HASH_SIZE"

definition EntryLoad :: "restore_env \<Rightarrow> nat \<Rightarrow> nat \<Rightarrow> byte list list \<times> server \<Rightarrow> (byte list list \<times> server) res" where
  "EntryLoad env i k = (\<lambda>(ids, st).
     res_bind (entry_at (inQueryBase st) i) (\<lambda>e.
     res_bind (entry_at (outQueryBase st) k) (\<lambda>q.
       if oq_deltaFlag q = OUT_DELTA
       then res_bind (AESCBCDec (env_ssl env) cryptoObj (oq_basechunkAddr q) (indexQueryKey env)) (\<lambda>addr.
         Inr (List.insert (containerName (bytes_recipe addr)) ids,
           put_out k (q\<lparr>oq_basechunkAddr := addr\<rparr>)
             (put_in i (e\<lparr>iq_chunkAddr := (iq_chunkAddr e)\<lparr>basechunkHash := base_hash q\<rparr>,
                         iq_basechunkAddr := bytes_recipe addr\<rparr>) st)))
       else Inr (ids, st))))"

definition check_entry ::
    "restore_env \<Rightarrow> nat \<Rightarrow> nat \<times> byte list list \<times> server \<Rightarrow> (nat \<times> byte list list \<times> server) res" where
  "check_entry env i = (\<lambda>(k, ids, st).
     res_bind (entry_at (inQueryBase st) i) (\<lambda>e.
       if iq_dedupFlag e = UNIQUE
       then res_bind (entry_at (outQueryBase st) k) (\<lambda>q.
            res_bind (if oq_dedupFlag q = UNIQUE then EntryLoad env i k (ids, st) else Inr (ids, st)) (\<lambda>(ids, st).
              Inr (Suc k, ids, st)))
       else Inr (k, ids, st)))"

text \<open>
  \<open>OFFLINE_THRESHOLD\<close> is the double \<open>0.03\<close>; the product with a 32-bit number, converted to an
  integer, is the exact quotient.
\<close>

definition threshold :: "bool \<Rightarrow> nat \<Rightarrow> nat" where
  "threshold forward itemNum = (if forward then itemNum * 128 else itemNum * 3 div 100)"

definition LocalChecker :: "restore_env \<Rightarrow> nat \<Rightarrow> server \<Rightarrow> (bool \<times> server) res" where
  "LocalChecker env itemNum st =
     res_bind (for_each (check_entry env) [0..<itemNum] (0, [], st)) (\<lambda>(k, ids, st).
       Inr (threshold (Forward_Flag st) itemNum < length ids, st))"


section \<open>Storing a unique chunk\<close>

text \<open>
  Fetch the container of the base chunk of the current entry into the scratch container; the
  writer thread may not have written it yet.
\<close>

definition Ocall_getRefContainer :: "server \<Rightarrow> server res" where
  "Ocall_getRefContainer st =
     (let k = out_currNum st in
      res_bind (entry_at (outQueryBase st) k) (\<lambda>q.
        if oq_deltaFlag q = OUT_DELTA \<or> oq_deltaFlag q = DELTA
        then case disk (up_store (srv_up st)) (False, containerName (bytes_recipe (oq_basechunkAddr q))) of
               None \<Rightarrow> Inr (put_out k (q\<lparr>oq_deltaFlag := NO_DELTA\<rparr>) st)
             | Some f \<Rightarrow>
                 res_bind (buf_write (tmpOcallcontainer st) 0 f) (\<lambda>buf.
                   Inr (put_out k (q\<lparr>containerbuffer := buf, oq_deltaFlag := DELTA\<rparr>) (st\<lparr>tmpOcallcontainer := buf\<rparr>)))
        else Inr st))"

text \<open>
  Decide whether the chunk is compressed against its base now: not if its fingerprint starts
  with three fixed bytes, not if the batch would load too many containers (then the pair is
  noted for the offline pass), and only if the container of the base is in the cache or on disk.
\<close>

definition OfflinedeltaTure ::
    "bool \<Rightarrow> nat \<Rightarrow> nat \<Rightarrow> (byte list \<times> byte list) list \<times> server
      \<Rightarrow> ((byte list \<times> byte list) list \<times> server) res" where
  "OfflinedeltaTure Local_Flag i k = (\<lambda>(batch_map, st).
     res_bind (entry_at (inQueryBase st) i) (\<lambda>e.
     res_bind (entry_at (outQueryBase st) k) (\<lambda>q.
     res_bind (buf_read (iq_chunkHash e) 0 3) (\<lambda>prefix.
     let name = containerName (bytes_recipe (oq_basechunkAddr q));
         e' = e\<lparr>iq_chunkAddr := (iq_chunkAddr e)\<lparr>basechunkHash := base_hash q\<rparr>\<rparr> in
     if prefix = [161, 77, 140] then Inr (batch_map, put_out k (q\<lparr>oq_deltaFlag := NO_DELTA\<rparr>) st)
     else if Local_Flag \<and> oq_deltaFlag q = OUT_DELTA
     then Inr (batch_map @ [(base_hash q, oq_chunkHash q)],
            put_out k (q\<lparr>oq_deltaFlag := NO_DELTA, oq_offlineFlag := 1\<rparr>) st)
     else if oq_deltaFlag q = OUT_DELTA \<and> ExistsInCache name (inContainercache st)
     then res_bind (ReadFromCache name (inContainercache st)) (\<lambda>(buf, c).
            Inr (batch_map, put_in i e' (put_out k (q\<lparr>containerbuffer := buf, oq_deltaFlag := DELTA\<rparr>)
              (st\<lparr>inContainercache := c\<rparr>))))
     else res_bind (if oq_deltaFlag q = OUT_DELTA then Ocall_getRefContainer st else Inr st) (\<lambda>st.
          res_bind (entry_at (outQueryBase st) k) (\<lambda>q.
            if oq_deltaFlag q = DELTA \<and> \<not> ExistsInCache name (inContainercache st)
            then res_bind (InsertToCache_Offline name (containerbuffer q) (inContainercache st)) (\<lambda>c.
                   Inr (batch_map, put_in i e' (st\<lparr>inContainercache := c\<rparr>)))
            else Inr (batch_map, st)))))))"

text \<open>
  Decrypt and decompress the base from its container and encode the chunk over it; a delta that
  is no shorter than the chunk is dropped.
\<close>

definition load_base :: "restore_env \<Rightarrow> InQueryEntry_t \<Rightarrow> OutQueryEntry_t \<Rightarrow> byte list res" where
  "load_base env e q =
     (let r = iq_basechunkAddr e;
          pos = unat (re_offset r) + sizeof_RecipeEntry + 4 * CHUNK_HASH_SIZE in
      res_bind (buf_read (containerbuffer q) pos (unat (re_length r))) (\<lambda>x.
      res_bind (buf_write (replicate (2 * MAX_CHUNK_SIZE) 0) 0 x) (\<lambda>encBaseBuffer.
      res_bind (buf_read (containerbuffer q) (pos + unat (re_length r)) CRYPTO_BLOCK_SIZE) (\<lambda>ivBuffer.
      res_bind (buf_read encBaseBuffer 0 (unat (re_length (bytes_recipe (oq_basechunkAddr q))))) (\<lambda>enc.
      res_bind (DecryptionWithKeyIV (env_ssl env) cryptoObj enc (enclaveKey env) ivBuffer) (\<lambda>decBaseBuffer.
        case LZ4_decompress_safe (env_lz4 env) decBaseBuffer MAX_CHUNK_SIZE of
          Some plainBaseBuffer \<Rightarrow> Inr plainBaseBuffer
        | None \<Rightarrow> Inr decBaseBuffer))))))"

definition ProcessDeltachunk ::
    "restore_env \<Rightarrow> nat \<Rightarrow> nat \<Rightarrow> nat \<Rightarrow> server \<Rightarrow> (byte list \<times> server) res" where
  "ProcessDeltachunk env i k currentOffset st =
     res_bind (entry_at (inQueryBase st) i) (\<lambda>e.
     res_bind (entry_at (outQueryBase st) k) (\<lambda>q.
     res_bind (load_base env e q) (\<lambda>base.
     res_bind (buf_read (recvBuffer st) currentOffset (unat (iq_chunkSize e))) (\<lambda>chunk.
     res_bind (EDeltaEncode chunk base (deltaBuffer st) (BaseLink st) (psHTable2 st)) (\<lambda>(delta, deltachunk_size, bl, h).
       let flag = (if unat (iq_chunkSize e) \<le> deltachunk_size then NO_DELTA else oq_deltaFlag q) in
       Inr (take deltachunk_size delta,
         put_in i (e\<lparr>iq_chunkAddr := (iq_chunkAddr e)\<lparr>re_deltaFlag := flag\<rparr>\<rparr>)
           (put_out k (q\<lparr>oq_deltaFlag := flag\<rparr>)
             (st\<lparr>deltaBuffer := delta, BaseLink := bl, psHTable2 := h\<rparr>))))))))"

text \<open>The counters of the loop over the batch.\<close>

record batch_loop =
  currentOffset :: nat
  out_entry :: nat
  processBufferOffset :: nat
  processNum :: nat
  batch_basemap :: "(byte list \<times> byte list) list"

text \<open>Save the chunk or its delta under the address in its entry, and note a pair of fingerprints.\<close>

definition store_unique ::
    "restore_env \<Rightarrow> nat \<Rightarrow> byte list \<Rightarrow> batch_loop \<times> server \<Rightarrow> (batch_loop \<times> server) res" where
  "store_unique env i deltachunk = (\<lambda>(l, st).
     let k = out_entry l in
     res_bind (entry_at (inQueryBase st) i) (\<lambda>e.
     res_bind (entry_at (outQueryBase st) k) (\<lambda>q.
     if re_deltaFlag (iq_chunkAddr e) = DELTA
     then res_bind (ProcessSheUniqueChunk env (iq_chunkAddr e) deltachunk (iq_superfeature e) (oq_chunkHash q) (srv_up st))
            (\<lambda>(addr, up).
          res_bind (buf_write (process_buffer st) (processBufferOffset l) (base_hash q)) (\<lambda>buf.
          res_bind (buf_write buf (processBufferOffset l + CHUNK_HASH_SIZE) (oq_chunkHash q)) (\<lambda>buf.
            Inr (l\<lparr>processBufferOffset := processBufferOffset l + 2 * CHUNK_HASH_SIZE, processNum := Suc (processNum l)\<rparr>,
              put_in i (e\<lparr>iq_chunkAddr := addr\<rparr>)
                (put_out k (q\<lparr>oq_deltaFlag := DELTA\<rparr>) (st\<lparr>srv_up := up, process_buffer := buf\<rparr>))))))
     else if re_deltaFlag (iq_chunkAddr e) = NO_DELTA
     then res_bind (buf_read (recvBuffer st) (currentOffset l) (unat (iq_chunkSize e))) (\<lambda>chunk.
          res_bind (ProcessSheUniqueChunk env (iq_chunkAddr e) chunk (iq_superfeature e) (oq_chunkHash q) (srv_up st))
            (\<lambda>(addr, up).
            Inr (l, put_in i (e\<lparr>iq_chunkAddr := addr\<rparr>)
              (put_out k (q\<lparr>oq_deltaFlag := NO_DELTA\<rparr>) (st\<lparr>srv_up := up\<rparr>)))))
     else Inr (l, st))))"

text \<open>A chunk that no index knows, up to the encrypted address in its entry outside.\<close>

definition process_unique ::
    "restore_env \<Rightarrow> bool \<Rightarrow> nat \<Rightarrow> batch_loop \<times> server \<Rightarrow> (batch_loop \<times> server) res" where
  "process_unique env Local_Flag i = (\<lambda>(l, st).
     let k = out_entry l in
     res_bind (entry_at (inQueryBase st) i) (\<lambda>e.
     let st = put_in i (e\<lparr>iq_deltaFlag := NO_DELTA, iq_chunkAddr := (iq_chunkAddr e)\<lparr>re_deltaFlag := NO_DELTA\<rparr>\<rparr>) st in
     res_bind (OfflinedeltaTure Local_Flag i k (batch_basemap l, st)) (\<lambda>(m, st).
     res_bind (entry_at (outQueryBase st) k) (\<lambda>q.
     res_bind (if oq_deltaFlag q = DELTA then ProcessDeltachunk env i k (currentOffset l) st else Inr ([], st))
       (\<lambda>(deltachunk, st).
     res_bind (store_unique env i deltachunk (l\<lparr>batch_basemap := m\<rparr>, st)) (\<lambda>(l, st).
     res_bind (entry_at (inQueryBase st) i) (\<lambda>e.
     res_bind (AESCBCEnc (env_ssl env) cryptoObj (recipe_bytes (iq_chunkAddr e)) (indexQueryKey env)) (\<lambda>addr.
     res_bind (entry_at (outQueryBase st) k) (\<lambda>q.
       Inr (l, put_out k (q\<lparr>oq_chunkAddr := addr\<rparr>) st))))))))))"

text \<open>
  One round of the loop: dispatch on the two flags, then the recipe.  \<open>turns i\<close> is the number of
  containers that the writer thread has worked off since the last round.
\<close>

fun writer_turns :: "nat \<Rightarrow> store \<Rightarrow> store res" where
  "writer_turns 0 st = Inr st"
| "writer_turns (Suc n) st = res_bind (DataWriter_step st) (writer_turns n)"

definition process_chunk ::
    "restore_env \<Rightarrow> (nat \<Rightarrow> nat) \<Rightarrow> bool \<Rightarrow> nat \<Rightarrow> batch_loop \<times> server \<Rightarrow> (batch_loop \<times> server) res" where
  "process_chunk env turns Local_Flag i = (\<lambda>(l, st).
     res_bind (writer_turns (turns i) (up_store (srv_up st))) (\<lambda>store.
     let st = st\<lparr>srv_up := (srv_up st)\<lparr>up_store := store\<rparr>\<rparr>; l = l\<lparr>currentOffset := currentOffset l + 4\<rparr> in
     res_bind (entry_at (inQueryBase st) i) (\<lambda>e.
     res_bind
       (if iq_dedupFlag e = DUPLICATE then Inr (l, st)
        else if iq_dedupFlag e = TMP_DUPLICATE \<or> iq_dedupFlag e = TMP_UNIQUE
        then res_bind (entry_at (inQueryBase st) (unat (re_offset (iq_chunkAddr e)))) (\<lambda>_. Inr (l, st))
        else if iq_dedupFlag e = UNIQUE
        then res_bind (entry_at (outQueryBase st) (out_entry l)) (\<lambda>q.
             res_bind
               (if oq_dedupFlag q = DUPLICATE
                then res_bind (AESCBCDec (env_ssl env) cryptoObj (oq_chunkAddr q) (indexQueryKey env)) (\<lambda>addr.
                       Inr (l, put_in i (e\<lparr>iq_chunkAddr := bytes_recipe addr\<rparr>) st))
                else if oq_dedupFlag q = UNIQUE then process_unique env Local_Flag i (l, st)
                else Inl ExitError)
               (\<lambda>(l, st). Inr (l\<lparr>out_entry := Suc (out_entry l)\<rparr>, st\<lparr>out_currNum := Suc (out_currNum st)\<rparr>)))
        else Inl ExitError)
       (\<lambda>(l, st).
     res_bind (UpdateFileRecipe env (iq_chunkHash e) (inRecipe st) (recipeFile st)) (\<lambda>(r, written).
       Inr (l\<lparr>currentOffset := currentOffset l + unat (iq_chunkSize e)\<rparr>,
         st\<lparr>inRecipe := r, recipeFile := written\<rparr>))))))"

section \<open>The end of a batch\<close>

text \<open>The pairs of the deltas go to the delta index; pairs that were put off go to the offline pass.\<close>

fun copy_pairs :: "(byte list \<times> byte list) list \<Rightarrow> nat \<Rightarrow> byte list \<Rightarrow> byte list res" where
  "copy_pairs [] off buf = Inr buf"
| "copy_pairs ((a, b) # m) off buf =
     res_bind (buf_write buf off a) (\<lambda>buf.
     res_bind (buf_write buf (off + CHUNK_HASH_SIZE) b) (copy_pairs m (off + 2 * CHUNK_HASH_SIZE)))"

definition update_pairs :: "bool \<Rightarrow> batch_loop \<Rightarrow> server \<Rightarrow> server res" where
  "update_pairs Local_Flag l st =
     (if \<not> Local_Flag
      then res_bind (Ocall_UpdateDeltaIndex (process_buffer st) 0 (processNum l) (index_db st)) (\<lambda>db.
             Inr (st\<lparr>index_db := db\<rparr>))
      else res_bind (copy_pairs (batch_basemap l) 0 (test_buffer st)) (\<lambda>buf.
           res_bind (Ocall_LocalInsert buf 0 (length (batch_basemap l)) (index_db st)) (\<lambda>db.
             Inr (st\<lparr>index_db := db, test_buffer := buf\<rparr>))))"

definition update_topk :: "nat \<Rightarrow> server \<Rightarrow> server res" where
  "update_topk i st =
     res_bind (entry_at (inQueryBase st) i) (\<lambda>e.
       if iq_dedupFlag e = UNIQUE \<or> iq_dedupFlag e = DUPLICATE
       then res_bind (UpdateTopK (topThreshold st) (iq_chunkFreq e) (iq_chunkAddr e) (iq_chunkHash e) (insideDedupIndex st))
              (\<lambda>h. Inr (st\<lparr>insideDedupIndex := h\<rparr>))
       else Inr st)"

text \<open>A message is the encrypted batch and the number of its chunks.\<close>

definition receive_batch :: "restore_env \<Rightarrow> byte list \<Rightarrow> server \<Rightarrow> server res" where
  "receive_batch env data st =
     res_bind (SessionKeyDec (env_ssl env) cryptoObj data (sessionKey env)) (\<lambda>plain.
     res_bind (buf_write (recvBuffer st) 0 plain) (\<lambda>buf. Inr (st\<lparr>recvBuffer := buf\<rparr>)))"

definition ProcessOneBatch ::
    "restore_env \<Rightarrow> (nat \<Rightarrow> nat) \<Rightarrow> byte list \<times> nat \<Rightarrow> server \<Rightarrow> server res" where
  "ProcessOneBatch env turns = (\<lambda>(data, itemNum) st.
     res_bind (receive_batch env data st) (\<lambda>st.
     res_bind (for_each (hash_chunk env) [0..<itemNum] (0, st)) (\<lambda>(_, st).
     res_bind (for_each count_chunk [0..<itemNum] st) (\<lambda>st.
     res_bind (min_freq st) (\<lambda>minFreq.
     res_bind (for_each (dedup_chunk env minFreq) [0..<itemNum] (0, st)) (\<lambda>(outQueryNum, st).
     res_bind (if outQueryNum \<noteq> 0 then Ocall_QueryOutIndex (st\<lparr>out_queryNum := outQueryNum\<rparr>) else Inr st) (\<lambda>st.
     res_bind (for_each collect_param [0..<itemNum] (0, 0, [], st)) (\<lambda>(_, _, param_list, st).
     res_bind (for_each (run_param env) param_list st) (\<lambda>st.
     res_bind (OutEntrySFGet itemNum st) (\<lambda>st.
     res_bind (Ocall_QueryOutBasechunk st) (\<lambda>st.
     res_bind (LocalChecker env itemNum st) (\<lambda>(Local_Flag, st).
     res_bind (for_each (process_chunk env turns Local_Flag) [0..<itemNum]
         (\<lparr>currentOffset = 0, out_entry = 0, processBufferOffset = 0, processNum = 0, batch_basemap = []\<rparr>, st)) (\<lambda>(l, st).
     res_bind (update_pairs Local_Flag l st) (\<lambda>st.
     res_bind (for_each update_topk [0..<itemNum] st) (\<lambda>st.
       Inr (st\<lparr>out_queryNum := outQueryNum, out_currNum := 0, localIndex := Map.empty\<rparr>))))))))))))))))"

text \<open>\<open>ProcessOneBatch\<close> of the server's index object, and its use in the loop of the receiver.\<close>

definition EnclaveIndex_ProcessOneBatch ::
    "restore_env \<Rightarrow> (nat \<Rightarrow> nat) \<Rightarrow> byte list \<times> nat \<Rightarrow> server \<Rightarrow> server res" where
  "EnclaveIndex_ProcessOneBatch env turns msg st =
     res_bind (ProcessOneBatch env turns msg st) (\<lambda>st.
       if out_queryNum st \<noteq> 0 then Ocall_UpdateOutIndex st else Inr st)"

text \<open>
  A whole upload: the batches, each with the turns of the writer during it, then the tail of the
  recipe and the last containers.
\<close>

definition upload_messages ::
    "restore_env \<Rightarrow> ((nat \<Rightarrow> nat) \<times> byte list \<times> nat) list \<Rightarrow> server \<Rightarrow> server res" where
  "upload_messages env = for_each (\<lambda>(turns, msg). EnclaveIndex_ProcessOneBatch env turns msg)"

definition finish_upload :: "restore_env \<Rightarrow> server \<Rightarrow> server res" where
  "finish_upload env st =
     res_bind (tail_recipe env (inRecipe st) (recipeFile st)) (\<lambda>(r, written).
     res_bind (end_upload (up_store (srv_up st))) (\<lambda>store.
       Inr (st\<lparr>inRecipe := r, recipeFile := written, srv_up := (srv_up st)\<lparr>up_store := store\<rparr>\<rparr>)))"

end
