(* ===== verification/Batch_Correct.thy ===== *)
theory Batch_Correct imports Batch Upload_Props Features_Props Index_Props begin

text \<open>
  The passes of \<open>ProcessOneBatch\<close> over a batch up to the point where chunks are stored: fingerprints,
  frequencies, the look-ups in the batch, the top-k index and the index outside, features and
  base chunks.  Every pass succeeds and leaves the entries as the next one expects them.
\<close>

section \<open>Loops, fingerprints and keys\<close>

lemma for_each_append: "for_each f (xs @ ys) s = res_bind (for_each f xs s) (for_each f ys)"
proof (induction xs arbitrary: s)
  case (Cons x xs)
  then show ?case by (cases "f x s") simp_all
qed simp

lemma for_each_inv:
  assumes "P 0 s" "\<And>i s. i < n \<Longrightarrow> P i s \<Longrightarrow> \<exists>s'. f i s = Inr s' \<and> P (Suc i) s'"
  shows "\<exists>s'. for_each f [0..<n] s = Inr s' \<and> P n s'"
  using assms(2)
proof (induction n)
  case (Suc n)
  then obtain s1 where s1: "for_each f [0..<n] s = Inr s1" "P n s1" by (meson less_SucI)
  obtain s2 where "f n s1 = Inr s2" "P (Suc n) s2" using Suc.prems [OF _ s1(2)] by blast
  with s1 show ?case by (simp add: for_each_append)
qed (use assms(1) in simp)

text \<open>What the loops need in the induction: a step from any state that the invariant allows.\<close>

lemma entry_at_Inr [simp]: "i < length xs \<Longrightarrow> entry_at xs i = Inr (xs ! i)"
  by (simp add: entry_at_def)

definition fingerprint :: "restore_env \<Rightarrow> byte list \<Rightarrow> byte list" where
  "fingerprint env chunk = (case GenerateHash (env_ssl env) cryptoObj chunk of Inr h \<Rightarrow> h | Inl _ \<Rightarrow> [])"

definition index_key :: "restore_env \<Rightarrow> byte list \<Rightarrow> byte list" where
  "index_key env fp = (case IndexAESCMCEnc (env_ssl env) cryptoObj fp (indexQueryKey env) of Inr k \<Rightarrow> k | Inl _ \<Rightarrow> [])"

lemma fingerprint_ok:
  assumes "env_ok env"
  shows "GenerateHash (env_ssl env) cryptoObj c = Inr (fingerprint env c)" "length (fingerprint env c) = CHUNK_HASH_SIZE"
proof -
  have "openssl_ok (env_ssl env)" using assms by (simp add: env_ok_def)
  from GenerateHash_ok [OF this] obtain h where h: "GenerateHash (env_ssl env) cryptoObj c = Inr h" "length h = CHUNK_HASH_SIZE"
    by blast
  then show "GenerateHash (env_ssl env) cryptoObj c = Inr (fingerprint env c)" "length (fingerprint env c) = CHUNK_HASH_SIZE"
    by (simp_all add: fingerprint_def)
qed

lemma index_key_ok:
  assumes "env_ok env" "length fp = CHUNK_HASH_SIZE"
  shows "IndexAESCMCEnc (env_ssl env) cryptoObj fp (indexQueryKey env) = Inr (index_key env fp)"
    "length (index_key env fp) = CHUNK_HASH_SIZE"
    "IndexAESCMCDec (env_ssl env) cryptoObj (index_key env fp) (indexQueryKey env) = Inr fp"
proof -
  have s: "openssl_ok (env_ssl env)" "length (indexQueryKey env) = 32" "16 dvd length fp"
    using assms by (simp_all add: env_ok_def CHUNK_HASH_SIZE_def)
  obtain k where k: "IndexAESCMCEnc (env_ssl env) cryptoObj fp (indexQueryKey env) = Inr k" "length k = length fp"
    "IndexAESCMCDec (env_ssl env) cryptoObj k (indexQueryKey env) = Inr fp" by (rule IndexAESCMCEnc_ok [OF s])
  then show "IndexAESCMCEnc (env_ssl env) cryptoObj fp (indexQueryKey env) = Inr (index_key env fp)"
    "length (index_key env fp) = CHUNK_HASH_SIZE"
    "IndexAESCMCDec (env_ssl env) cryptoObj (index_key env fp) (indexQueryKey env) = Inr fp"
    using assms(2) by (simp_all add: index_key_def)
qed

lemma index_key_inject:
  "env_ok env \<Longrightarrow> length a = CHUNK_HASH_SIZE \<Longrightarrow> length b = CHUNK_HASH_SIZE \<Longrightarrow>
     index_key env a = index_key env b \<longleftrightarrow> a = b"
  using index_key_ok(3) by (metis Inr_inject)

section \<open>The received batch\<close>

definition chunk_bytes :: "byte list \<Rightarrow> byte list" where
  "chunk_bytes c = le32 (word_of_nat (length c)) @ c"

definition batch_bytes :: "byte list list \<Rightarrow> byte list" where
  "batch_bytes cs = concat (map chunk_bytes cs)"

definition chunk_at :: "byte list list \<Rightarrow> nat \<Rightarrow> nat" where
  "chunk_at cs i = length (batch_bytes (take i cs))"

definition carries :: "byte list \<Rightarrow> byte list list \<Rightarrow> bool" where
  "carries buf cs \<longleftrightarrow> take (length (batch_bytes cs)) buf = batch_bytes cs"

lemma chunk_at_0 [simp]: "chunk_at cs 0 = 0"
  by (simp add: chunk_at_def batch_bytes_def)

lemma chunk_at_Suc: "i < length cs \<Longrightarrow> chunk_at cs (Suc i) = chunk_at cs i + 4 + length (cs ! i)"
  by (simp add: chunk_at_def batch_bytes_def chunk_bytes_def take_Suc_conv_app_nth)

lemma carries_read:
  assumes "carries buf cs" "i < length cs"
  shows "buf_read buf (chunk_at cs i) 4 = Inr (le32 (word_of_nat (length (cs ! i))))"
    "buf_read buf (chunk_at cs i + 4) (length (cs ! i)) = Inr (cs ! i)"
proof -
  let ?a = "batch_bytes (take i cs)" and ?l = "le32 (word_of_nat (length (cs ! i)))"
    and ?z = "batch_bytes (drop (Suc i) cs) @ drop (length (batch_bytes cs)) buf"
  have "batch_bytes cs = ?a @ (?l @ cs ! i) @ batch_bytes (drop (Suc i) cs)"
    unfolding batch_bytes_def chunk_bytes_def [symmetric] using id_take_nth_drop [OF assms(2)]
    by (metis (no_types, lifting) concat.simps(2) concat_append list.simps(9) map_append)
  then have b: "buf = ?a @ (?l @ cs ! i) @ ?z"
    using assms(1) unfolding carries_def by (metis append.assoc append_take_drop_id)
  have "buf_read (?a @ ?l @ (cs ! i @ ?z)) (chunk_at cs i) 4 = Inr ?l" by (rule buf_read_mid) (simp_all add: chunk_at_def)
  moreover have "buf_read ((?a @ ?l) @ cs ! i @ ?z) (chunk_at cs i + 4) (length (cs ! i)) = Inr (cs ! i)"
    by (rule buf_read_mid) (simp_all add: chunk_at_def)
  ultimately show "buf_read buf (chunk_at cs i) 4 = Inr ?l" "buf_read buf (chunk_at cs i + 4) (length (cs ! i)) = Inr (cs ! i)"
    using b by simp_all
qed

lemma chunk_at_bound:
  assumes "\<forall>c \<in> set cs. length c \<le> MAX_CHUNK_SIZE" "i \<le> length cs"
  shows "chunk_at cs i \<le> i * sizeof_Chunk"
  using assms(2)
proof (induction i)
  case (Suc i)
  then have "chunk_at cs (Suc i) = chunk_at cs i + 4 + length (cs ! i)" "length (cs ! i) \<le> MAX_CHUNK_SIZE"
    using assms(1) by (simp_all add: chunk_at_Suc)
  with Suc show ?case by (simp add: sizeof_Chunk_def)
qed simp

lemma unat_size: "length c \<le> MAX_CHUNK_SIZE \<Longrightarrow> unat (word_of_nat (length c) :: u32) = length c"
  by (simp add: unat_of_nat MAX_CHUNK_SIZE_def)

section \<open>Entries inside\<close>

definition in_wf :: "InQueryEntry_t \<Rightarrow> bool" where
  "in_wf e \<longleftrightarrow> recipe_wf (iq_chunkAddr e) \<and> length (iq_superfeature e) = 3 * CHUNK_HASH_SIZE"

definition hashed :: "restore_env \<Rightarrow> byte list list \<Rightarrow> InQueryEntry_t list \<Rightarrow> nat \<Rightarrow> bool" where
  "hashed env cs ins k \<longleftrightarrow> length cs \<le> length ins \<and> (\<forall>e \<in> set ins. in_wf e) \<and>
     (\<forall>i < k. iq_chunkHash (ins ! i) = fingerprint env (cs ! i) \<and> iq_chunkSize (ins ! i) = word_of_nat (length (cs ! i)))"

lemma in_wf_update: "\<forall>e \<in> set xs. in_wf e \<Longrightarrow> in_wf x \<Longrightarrow> \<forall>e \<in> set (xs[i := x]). in_wf e"
  using set_update_subset_insert [of xs i x] by blast

lemma hash_pass:
  assumes env: "env_ok env" and b: "carries (recvBuffer st) cs" "\<forall>c \<in> set cs. length c \<le> MAX_CHUNK_SIZE"
    and ins: "hashed env cs (inQueryBase st) 0"
  obtains ins where "for_each (hash_chunk env) [0..<length cs] (0, st) = Inr (chunk_at cs (length cs), st\<lparr>inQueryBase := ins\<rparr>)"
    "length ins = length (inQueryBase st)" "hashed env cs ins (length cs)"
proof -
  let ?P = "\<lambda>i (off, st'). \<exists>ins. off = chunk_at cs i \<and> st' = st\<lparr>inQueryBase := ins\<rparr> \<and>
    length ins = length (inQueryBase st) \<and> hashed env cs ins i"
  have "\<exists>s'. for_each (hash_chunk env) [0..<length cs] (0, st) = Inr s' \<and> ?P (length cs) s'"
  proof (rule for_each_inv [where P = ?P])
    show "?P 0 (0, st)" using ins by (auto intro: exI [of _ "inQueryBase st"])
  next
    fix i s assume i: "i < length cs" and "?P i s"
    then obtain ins where s: "s = (chunk_at cs i, st\<lparr>inQueryBase := ins\<rparr>)" "length ins = length (inQueryBase st)"
      "hashed env cs ins i" by auto
    note r = carries_read [OF b(1) i]
    have len: "unat (word_of_nat (length (cs ! i)) :: u32) = length (cs ! i)" using b(2) i by (simp add: unat_size)
    have l: "i < length ins" using i s(3) by (simp add: hashed_def)
    let ?e = "(ins ! i)\<lparr>iq_chunkSize := word_of_nat (length (cs ! i)), iq_chunkHash := fingerprint env (cs ! i)\<rparr>"
    have "in_wf (ins ! i)" using s(3) l by (simp add: hashed_def)
    then have e: "in_wf ?e" by (simp add: in_wf_def)
    have "hashed env cs (ins[i := ?e]) (Suc i)"
      using s(3) l in_wf_update [OF _ e] by (auto simp: hashed_def less_Suc_eq nth_list_update)
    moreover have "hash_chunk env i s = Inr (chunk_at cs (Suc i), st\<lparr>inQueryBase := ins[i := ?e]\<rparr>)"
      using r len l fingerprint_ok(1) [OF env] i by (simp add: hash_chunk_def s(1) put_in_def chunk_at_Suc)
    ultimately show "\<exists>s'. hash_chunk env i s = Inr s' \<and> ?P (Suc i) s'" using s(2) by auto
  qed
  then show thesis using that by auto
qed

section \<open>Frequencies\<close>

definition sketch_usable :: "EcallCMSketch \<Rightarrow> bool" where
  "sketch_usable s \<longleftrightarrow> sketch_dims s \<and> 4 * unat (depth s) \<le> CHUNK_HASH_SIZE"

lemma sketch_min_total:
  assumes "sketch_dims s" "4 * unat (depth s) \<le> length h" "set is \<subseteq> {..<unat (depth s)}"
  shows "\<exists>e. sketch_min s h is m = Inr e"
  using assms(3)
proof (induction "is" arbitrary: m)
  case (Cons i js)
  have "sketch_pos s h i = Inr (column s h i)"
    using assms(1,2) Cons.prems by (intro sketch_pos_ok) (auto simp: sketch_dims_def)
  then show ?case using Cons by simp
qed simp

lemma count_total:
  assumes "sketch_usable s" "length h = CHUNK_HASH_SIZE"
  obtains s' freq where "Update h 1 s = Inr s'" "Estimate s' h = Inr freq" "sketch_usable s'"
proof -
  define s1 where "s1 = s\<lparr>total_num := total_num s + unat (1 :: u32)\<rparr>"
  have d: "sketch_dims s1" "4 * unat (depth s1) \<le> length h" "depth s1 = depth s"
    using assms by (simp_all add: s1_def sketch_usable_def sketch_dims_def)
  have "set [0..<unat (depth s)] \<subseteq> {..<unat (depth s1)}" "distinct [0..<unat (depth s)]" using d(3) by auto
  from sketch_add_ok [OF d(1) this d(2), of 1] obtain ca where
    ca: "sketch_add h 1 [0..<unat (depth s)] s1 = Inr (s1\<lparr>counterArray := ca\<rparr>)" "sketch_dims (s1\<lparr>counterArray := ca\<rparr>)"
    by blast
  have "4 * unat (depth (s1\<lparr>counterArray := ca\<rparr>)) \<le> length h" using d(2) by simp
  from sketch_min_total [OF ca(2) this, of "[0..<unat (depth s)]" "- 1"] obtain e where "Estimate (s1\<lparr>counterArray := ca\<rparr>) h = Inr e"
    using d(3) by (auto simp: Estimate_def atLeast0LessThan)
  moreover have "Update h 1 s = Inr (s1\<lparr>counterArray := ca\<rparr>)" using ca(1) by (simp add: Update_def s1_def)
  moreover have "sketch_usable (s1\<lparr>counterArray := ca\<rparr>)" using ca(2) d(3) assms by (simp add: sketch_usable_def)
  ultimately show thesis by (intro that)
qed

lemma count_pass:
  assumes env: "env_ok env" and ins: "hashed env cs (inQueryBase st) (length cs)" and sk: "sketch_usable (cmSketch st)"
  obtains ins sk where "for_each count_chunk [0..<length cs] st = Inr (st\<lparr>inQueryBase := ins, cmSketch := sk\<rparr>)"
    "length ins = length (inQueryBase st)" "hashed env cs ins (length cs)" "sketch_usable sk"
proof -
  let ?P = "\<lambda>i st'. \<exists>ins sk. st' = st\<lparr>inQueryBase := ins, cmSketch := sk\<rparr> \<and> length ins = length (inQueryBase st) \<and>
    hashed env cs ins (length cs) \<and> sketch_usable sk"
  have "\<exists>s'. for_each count_chunk [0..<length cs] st = Inr s' \<and> ?P (length cs) s'"
  proof (rule for_each_inv [where P = ?P])
    show "?P 0 st" using assms by (intro exI [of _ "inQueryBase st"] exI [of _ "cmSketch st"]) simp
  next
    fix i s assume i: "i < length cs" and "?P i s"
    then obtain ins sk where s: "s = st\<lparr>inQueryBase := ins, cmSketch := sk\<rparr>" "length ins = length (inQueryBase st)"
      "hashed env cs ins (length cs)" "sketch_usable sk" by auto
    have l: "i < length ins" and h: "length (iq_chunkHash (ins ! i)) = CHUNK_HASH_SIZE"
      using i s(3) fingerprint_ok(2) [OF env] by (simp_all add: hashed_def)
    obtain sk' freq where sk': "Update (iq_chunkHash (ins ! i)) 1 sk = Inr sk'" "Estimate sk' (iq_chunkHash (ins ! i)) = Inr freq"
      "sketch_usable sk'" by (rule count_total [OF s(4) h])
    let ?e = "(ins ! i)\<lparr>iq_chunkFreq := freq\<rparr>"
    have "in_wf (ins ! i)" using s(3) l by (simp add: hashed_def)
    then have e: "in_wf ?e" by (simp add: in_wf_def)
    have "hashed env cs (ins[i := ?e]) (length cs)"
      using s(3) l in_wf_update [OF _ e] by (auto simp: hashed_def nth_list_update)
    moreover have "count_chunk i s = Inr (st\<lparr>inQueryBase := ins[i := ?e], cmSketch := sk'\<rparr>)"
      using l sk' by (simp add: count_chunk_def s(1) put_in_def)
    ultimately show "\<exists>s'. count_chunk i s = Inr s' \<and> ?P (Suc i) s'"
      using s(2) sk'(3) by (intro exI [of _ "st\<lparr>inQueryBase := ins[i := ?e], cmSketch := sk'\<rparr>"] conjI
        exI [of _ "ins[i := ?e]"] exI [of _ sk']) simp_all
  qed
  then show thesis using that by auto
qed

section \<open>The first two indexes\<close>

definition first_in :: "byte list list \<Rightarrow> nat \<Rightarrow> bool" where
  "first_in cs i \<longleftrightarrow> cs ! i \<notin> set (take i cs)"

lemma first_exists:
  assumes "i < length cs"
  shows "\<exists>j \<le> i. first_in cs j \<and> cs ! j = cs ! i"
  using assms
proof (induction i rule: less_induct)
  case (less i)
  show ?case
  proof (cases "first_in cs i")
    case False
    then obtain j where j: "j < i" "cs ! j = cs ! i"
      using less.prems by (auto simp: first_in_def in_set_conv_nth)
    from less.IH [OF j(1)] j less.prems show ?thesis by (metis le_trans less_or_eq_imp_le less_trans)
  qed auto
qed

definition out_wf :: "OutQueryEntry_t \<Rightarrow> bool" where
  "out_wf q \<longleftrightarrow> length (oq_chunkAddr q) = sizeof_RecipeEntry \<and> length (oq_superfeature q) = 3 * CHUNK_HASH_SIZE"

lemma out_wf_update: "\<forall>e \<in> set xs. out_wf e \<Longrightarrow> out_wf x \<Longrightarrow> \<forall>e \<in> set (xs[i := x]). out_wf e"
  using set_update_subset_insert [of xs i x] by blast

text \<open>
  The state of the pass before chunk \<open>k\<close>: \<open>us\<close> are the positions of the chunks to be asked for
  outside, in the order of their entries there.
\<close>

definition dedup_ok ::
    "restore_env \<Rightarrow> byte list list \<Rightarrow> EcallEntryHeap \<Rightarrow> InQueryEntry_t list \<Rightarrow> OutQueryEntry_t list
      \<Rightarrow> (byte list \<Rightarrow> nat option) \<Rightarrow> nat list \<Rightarrow> nat \<Rightarrow> bool" where
  "dedup_ok env cs h ins outs L us k \<longleftrightarrow>
     us = filter (\<lambda>i. iq_dedupFlag (ins ! i) = UNIQUE) [0..<k] \<and>
     (\<forall>i < k. first_in cs i \<longrightarrow> iq_dedupFlag (ins ! i) = UNIQUE \<or>
        iq_dedupFlag (ins ! i) = DUPLICATE \<and> Contains_heap (fingerprint env (cs ! i)) h) \<and>
     (\<forall>i < k. \<not> first_in cs i \<longrightarrow> (iq_dedupFlag (ins ! i) = TMP_UNIQUE \<or> iq_dedupFlag (ins ! i) = TMP_DUPLICATE) \<and>
        unat (re_offset (iq_chunkAddr (ins ! i))) < length cs) \<and>
     (\<forall>fp j. L fp = Some j \<longleftrightarrow> j < k \<and> first_in cs j \<and> fp = fingerprint env (cs ! j)) \<and>
     (\<forall>j < length us. oq_chunkHash (outs ! j) = index_key env (fingerprint env (cs ! (us ! j))))"

lemma dedup_okD:
  assumes "dedup_ok env cs h ins outs L us k"
  shows "us = filter (\<lambda>i. iq_dedupFlag (ins ! i) = UNIQUE) [0..<k]"
    "\<And>i. i < k \<Longrightarrow> first_in cs i \<Longrightarrow> iq_dedupFlag (ins ! i) = UNIQUE \<or>
        iq_dedupFlag (ins ! i) = DUPLICATE \<and> Contains_heap (fingerprint env (cs ! i)) h"
    "\<And>i. i < k \<Longrightarrow> \<not> first_in cs i \<Longrightarrow> (iq_dedupFlag (ins ! i) = TMP_UNIQUE \<or> iq_dedupFlag (ins ! i) = TMP_DUPLICATE) \<and>
        unat (re_offset (iq_chunkAddr (ins ! i))) < length cs"
    "\<And>fp j. (L fp = Some j) = (j < k \<and> first_in cs j \<and> fp = fingerprint env (cs ! j))"
    "\<And>j. j < length us \<Longrightarrow> oq_chunkHash (outs ! j) = index_key env (fingerprint env (cs ! (us ! j)))"
  using assms unfolding dedup_ok_def by ((elim conjE, assumption) | (elim conjE, erule allE, erule (1) mp | blast))+

lemma dedup_ok_Suc:
  assumes d: "dedup_ok env cs h ins outs L us k"
    and same: "\<And>i. i < k \<Longrightarrow> iq_dedupFlag (ins' ! i) = iq_dedupFlag (ins ! i) \<and> iq_chunkAddr (ins' ! i) = iq_chunkAddr (ins ! i)"
    and new: "first_in cs k \<Longrightarrow> iq_dedupFlag (ins' ! k) = UNIQUE \<or>
        iq_dedupFlag (ins' ! k) = DUPLICATE \<and> Contains_heap (fingerprint env (cs ! k)) h"
    and old: "\<not> first_in cs k \<Longrightarrow> (iq_dedupFlag (ins' ! k) = TMP_UNIQUE \<or> iq_dedupFlag (ins' ! k) = TMP_DUPLICATE) \<and>
        unat (re_offset (iq_chunkAddr (ins' ! k))) < length cs"
    and L: "L' = (if first_in cs k then L(fingerprint env (cs ! k) \<mapsto> k) else L)"
      "first_in cs k \<Longrightarrow> L (fingerprint env (cs ! k)) = None"
    and us: "us' = us @ (if iq_dedupFlag (ins' ! k) = UNIQUE then [k] else [])"
    and outs: "\<And>j. j < length us \<Longrightarrow> oq_chunkHash (outs' ! j) = oq_chunkHash (outs ! j)"
      "iq_dedupFlag (ins' ! k) = UNIQUE \<Longrightarrow> oq_chunkHash (outs' ! length us) = index_key env (fingerprint env (cs ! k))"
  shows "dedup_ok env cs h ins' outs' L' us' (Suc k)"
proof -
  note u0 = dedup_okD(1) [OF d] and f = dedup_okD(2) [OF d] and nf = dedup_okD(3) [OF d] and lk = dedup_okD(4) [OF d]
    and hs = dedup_okD(5) [OF d]
  have "filter (\<lambda>i. iq_dedupFlag (ins' ! i) = UNIQUE) [0..<k] = us"
    by (subst u0, rule filter_cong) (use same in simp_all)
  then have 1: "us' = filter (\<lambda>i. iq_dedupFlag (ins' ! i) = UNIQUE) [0..<Suc k]" using us by simp
  have 2: "(L' fp = Some j) = (j < Suc k \<and> first_in cs j \<and> fp = fingerprint env (cs ! j))" for fp j
  proof (cases "first_in cs k")
    case True
    note L' = L(1) [unfolded if_P [OF True]] and none = L(2) [OF True]
    show ?thesis
    proof (cases "fp = fingerprint env (cs ! k)")
      case True
      have "\<not> (j < k \<and> first_in cs j \<and> fp = fingerprint env (cs ! j))" using lk [of fp j] none True by simp
      with True \<open>first_in cs k\<close> show ?thesis unfolding L' less_Suc_eq by auto
    next
      case False
      with lk [of fp j] show ?thesis unfolding L' less_Suc_eq by auto
    qed
  next
    case False
    with lk [of fp j] L(1) show ?thesis unfolding less_Suc_eq by auto
  qed
  have 3: "oq_chunkHash (outs' ! j) = index_key env (fingerprint env (cs ! (us' ! j)))" if "j < length us'" for j
  proof (cases "j < length us")
    case True
    then show ?thesis using hs [OF True] outs(1) us by (simp add: nth_append)
  next
    case False
    then have "j = length us" "iq_dedupFlag (ins' ! k) = UNIQUE" using that us by (auto split: if_splits)
    then show ?thesis using outs(2) us by simp
  qed
  have 4: "iq_dedupFlag (ins' ! i) = UNIQUE \<or>
      iq_dedupFlag (ins' ! i) = DUPLICATE \<and> Contains_heap (fingerprint env (cs ! i)) h" if "i < Suc k" "first_in cs i" for i
    using that f same new by (cases "i = k") (simp_all add: less_Suc_eq)
  have 5: "(iq_dedupFlag (ins' ! i) = TMP_UNIQUE \<or> iq_dedupFlag (ins' ! i) = TMP_DUPLICATE) \<and>
      unat (re_offset (iq_chunkAddr (ins' ! i))) < length cs" if "i < Suc k" "\<not> first_in cs i" for i
    using that nf same old by (cases "i = k") (simp_all add: less_Suc_eq)
  from 1 2 3 4 5 show ?thesis unfolding dedup_ok_def by blast
qed

definition heap_usable :: "EcallEntryHeap \<Rightarrow> bool" where
  "heap_usable h \<longleftrightarrow> heap_ok h \<and> (\<forall>fp it. index h fp = Some it \<longrightarrow> recipe_wf (address it))"

lemma ask_outside_step:
  assumes "env_ok env" "i < length (inQueryBase st)" "m < length (outQueryBase st)"
    "length (iq_chunkHash (inQueryBase st ! i)) = CHUNK_HASH_SIZE"
  shows "ask_outside env i (m, st) = Inr (Suc m,
    put_in i ((inQueryBase st ! i)\<lparr>iq_dedupFlag := UNIQUE,
        iq_chunkAddr := (iq_chunkAddr (inQueryBase st ! i))\<lparr>re_offset := word_of_nat m\<rparr>\<rparr>)
      (put_out m ((outQueryBase st ! m)\<lparr>oq_chunkHash := index_key env (iq_chunkHash (inQueryBase st ! i))\<rparr>) st))"
  using assms index_key_ok(1) [OF assms(1,4)] by (simp add: ask_outside_def)

lemma recipe_wf_offset [simp]: "recipe_wf (r\<lparr>re_offset := x\<rparr>) = recipe_wf r"
  by (simp add: recipe_wf_def)

lemma status_distinct [simp]:
  "UNIQUE \<noteq> DUPLICATE" "DUPLICATE \<noteq> UNIQUE" "TMP_UNIQUE \<noteq> UNIQUE" "TMP_DUPLICATE \<noteq> UNIQUE" "UNIQUE \<noteq> TMP_UNIQUE"
  "UNIQUE \<noteq> TMP_DUPLICATE" "DUPLICATE \<noteq> TMP_UNIQUE" "DUPLICATE \<noteq> TMP_DUPLICATE" "TMP_UNIQUE \<noteq> DUPLICATE" "TMP_DUPLICATE \<noteq> DUPLICATE"
  by (simp_all add: status_defs)

lemma hashed_put:
  assumes "hashed env cs ins k" "i < length ins" "in_wf e" "iq_chunkHash e = iq_chunkHash (ins ! i)" "iq_chunkSize e = iq_chunkSize (ins ! i)"
  shows "hashed env cs (ins[i := e]) k"
  using assms in_wf_update [of ins e i] by (auto simp: hashed_def nth_list_update)

lemma dedup_pass:
  assumes env: "env_ok env" and ins: "hashed env cs (inQueryBase st) (length cs)" and inj: "inj_on (fingerprint env) (set cs)"
    and h: "heap_usable (insideDedupIndex st)" and L: "localIndex st = Map.empty"
    and outs: "length cs \<le> length (outQueryBase st)" "\<forall>q \<in> set (outQueryBase st). out_wf q" and n: "length cs < 2 ^ 32"
  obtains ins outs L us where "for_each (dedup_chunk env minFreq) [0..<length cs] (0, st) =
      Inr (length us, st\<lparr>inQueryBase := ins, outQueryBase := outs, localIndex := L\<rparr>)"
    "length ins = length (inQueryBase st)" "hashed env cs ins (length cs)"
    "length outs = length (outQueryBase st)" "\<forall>q \<in> set outs. out_wf q"
    "dedup_ok env cs (insideDedupIndex st) ins outs L us (length cs)"
proof -
  let ?h = "insideDedupIndex st" and ?fp = "\<lambda>i. fingerprint env (cs ! i)"
  let ?st = "\<lambda>ins outs L. st\<lparr>inQueryBase := ins, outQueryBase := outs, localIndex := L\<rparr>"
  let ?P = "\<lambda>k s. \<exists>ins outs L us. s = (length us, ?st ins outs L) \<and>
    length ins = length (inQueryBase st) \<and> hashed env cs ins (length cs) \<and>
    length outs = length (outQueryBase st) \<and> (\<forall>q \<in> set outs. out_wf q) \<and> dedup_ok env cs ?h ins outs L us k"
  have "\<exists>s'. for_each (dedup_chunk env minFreq) [0..<length cs] (0, st) = Inr s' \<and> ?P (length cs) s'"
  proof (rule for_each_inv [where P = ?P])
    have "dedup_ok env cs ?h (inQueryBase st) (outQueryBase st) Map.empty [] 0" by (simp add: dedup_ok_def)
    then show "?P 0 (0, st)" using ins outs L
      by (intro exI [of _ "inQueryBase st"] exI [of _ "outQueryBase st"] exI [of _ Map.empty] exI [of _ "[]"]) simp
  next
    fix k s assume k: "k < length cs" and "?P k s"
    then obtain ins outs' L us where s: "s = (length us, ?st ins outs' L)" "length ins = length (inQueryBase st)"
      "hashed env cs ins (length cs)" "length outs' = length (outQueryBase st)" "\<forall>q \<in> set outs'. out_wf q"
      and d: "dedup_ok env cs ?h ins outs' L us k" by blast
    let ?e = "ins ! k"
    have l: "k < length ins" and fp: "iq_chunkHash ?e = ?fp k" and wf: "in_wf ?e"
      using k s(3) by (auto simp: hashed_def)
    have lu: "length us \<le> k" using d length_filter_le [of _ "[0..<k]"] by (auto simp: dedup_ok_def)
    have Lk: "L (?fp k) = Some j \<longleftrightarrow> j < k \<and> first_in cs j \<and> cs ! j = cs ! k" for j
    proof -
      have "L (?fp k) = Some j \<longleftrightarrow> j < k \<and> first_in cs j \<and> ?fp k = ?fp j" using d by (simp add: dedup_ok_def)
      then show ?thesis using k inj_on_eq_iff [OF inj, of "cs ! k" "cs ! j"] by auto
    qed
    have none: "L (?fp k) = None \<longleftrightarrow> first_in cs k"
    proof
      assume "L (?fp k) = None"
      then have "\<not> (j < k \<and> first_in cs j \<and> cs ! j = cs ! k)" for j using Lk by simp
      then show "first_in cs k" using first_exists [OF k] by (metis le_neq_implies_less)
    next
      assume f: "first_in cs k"
      have "\<not> (j < k \<and> cs ! j = cs ! k)" for j
        using f k by (auto simp: first_in_def in_set_conv_nth)
      then show "L (?fp k) = None" using Lk by (metis not_None_eq)
    qed
    show "\<exists>s'. dedup_chunk env minFreq k s = Inr s' \<and> ?P (Suc k) s'"
    proof (cases "L (?fp k)")
      case (Some j)
      have j: "j < k" "first_in cs j" "j < length ins" and nf: "\<not> first_in cs k" using Lk [of j] Some none l by auto
      let ?flag = "if iq_dedupFlag (ins ! j) = UNIQUE then TMP_UNIQUE else TMP_DUPLICATE"
      let ?e' = "?e\<lparr>iq_dedupFlag := ?flag, iq_chunkAddr := (iq_chunkAddr ?e)\<lparr>re_offset := word_of_nat j\<rparr>\<rparr>"
      let ?f' = "(ins ! j)\<lparr>iq_chunkFreq := iq_chunkFreq ?e\<rparr>"
      let ?ins = "ins[k := ?e', j := ?f']"
      have fl: "iq_dedupFlag (ins ! j) = UNIQUE \<or> iq_dedupFlag (ins ! j) = DUPLICATE" using d j by (auto simp: dedup_ok_def)
      have st: "dedup_chunk env minFreq k s = Inr (length us, ?st ?ins outs' L)"
        using l j fl Some fp by (auto simp: dedup_chunk_def s(1) put_in_def)
      have wj: "in_wf ?f'" using s(3) j(3) by (simp add: hashed_def in_wf_def)
      have "hashed env cs (ins[k := ?e']) (length cs)" using wf l by (intro hashed_put [OF s(3)]) (simp_all add: in_wf_def)
      from hashed_put [OF this _ wj, of j] have h': "hashed env cs ?ins (length cs)" using j by simp
      have d': "dedup_ok env cs ?h ?ins outs' L us (Suc k)"
        by (rule dedup_ok_Suc [OF d]) (use nf j l k n in \<open>auto simp: nth_list_update unat_of_nat split: if_splits\<close>)
      show ?thesis using st h' s d' by (intro exI [of _ "(length us, ?st ?ins outs' L)"] conjI
        exI [of _ ?ins] exI [of _ outs'] exI [of _ L] exI [of _ us]) simp_all
    next
      case None
      then have f: "first_in cs k" by (simp add: none)
      let ?L = "L(?fp k \<mapsto> k)"
      show ?thesis
      proof (cases "minFreq \<le> iq_chunkFreq ?e \<and> Contains_heap (?fp k) ?h")
        case True
        then obtain it where it: "index ?h (?fp k) = Some it" by (auto simp: Contains_heap_def)
        let ?ins = "ins[k := ?e\<lparr>iq_dedupFlag := DUPLICATE, iq_chunkAddr := address it\<rparr>]"
        have st: "dedup_chunk env minFreq k s = Inr (length us, ?st ?ins outs' ?L)"
          using l True None fp it by (simp add: dedup_chunk_def s(1) put_in_def GetPriority_def)
        have "recipe_wf (address it)" using h it by (auto simp: heap_usable_def)
        then have h': "hashed env cs ?ins (length cs)" using wf l by (intro hashed_put [OF s(3)]) (simp_all add: in_wf_def)
        have d': "dedup_ok env cs ?h ?ins outs' ?L us (Suc k)"
          by (rule dedup_ok_Suc [OF d]) (use f l True None in \<open>auto simp: nth_list_update\<close>)
        show ?thesis using st h' s d' by (intro exI [of _ "(length us, ?st ?ins outs' ?L)"] conjI
          exI [of _ ?ins] exI [of _ outs'] exI [of _ ?L] exI [of _ us]) simp_all
      next
        case False
        let ?m = "length us"
        let ?ins = "ins[k := ?e\<lparr>iq_dedupFlag := UNIQUE, iq_chunkAddr := (iq_chunkAddr ?e)\<lparr>re_offset := word_of_nat ?m\<rparr>\<rparr>]"
        let ?outs = "outs'[?m := (outs' ! ?m)\<lparr>oq_chunkHash := index_key env (?fp k)\<rparr>]"
        have m: "?m < length outs'" using lu k outs(1) s(4) by simp
        have a: "ask_outside env k (?m, ?st ins outs' L) = Inr (Suc ?m, ?st ?ins ?outs L)"
          using ask_outside_step [OF env, of k "?st ins outs' L" ?m] l m fingerprint_ok(2) [OF env] fp
          by (simp add: put_in_def put_out_def)
        have nc: "\<not> (minFreq \<le> iq_chunkFreq ?e \<and> Contains_heap (iq_chunkHash ?e) ?h)" using False by (simp only: fp not_False_eq_True)
        have st: "dedup_chunk env minFreq k s = Inr (Suc ?m, ?st ?ins ?outs ?L)"
          using l None a by (simp add: dedup_chunk_def s(1) fp) (use False fp in auto)
        have h': "hashed env cs ?ins (length cs)" using wf l by (intro hashed_put [OF s(3)]) (simp_all add: in_wf_def)
        have w: "out_wf ((outs' ! ?m)\<lparr>oq_chunkHash := index_key env (?fp k)\<rparr>)" using s(5) m by (simp add: out_wf_def)
        have d': "dedup_ok env cs ?h ?ins ?outs ?L (us @ [k]) (Suc k)"
          by (rule dedup_ok_Suc [OF d]) (use f l m None in \<open>auto simp: nth_list_update\<close>)
        show ?thesis using st h' s d' out_wf_update [OF s(5) w, of ?m] by (intro exI [of _ "(Suc ?m, ?st ?ins ?outs ?L)"] conjI
          exI [of _ ?ins] exI [of _ ?outs] exI [of _ ?L] exI [of _ "us @ [k]"]) simp_all
      qed
    qed
  qed
  then show thesis using that by auto
qed

section \<open>Positions of the chunks to ask for\<close>

definition rank :: "InQueryEntry_t list \<Rightarrow> nat \<Rightarrow> nat" where
  "rank ins i = length (filter (\<lambda>i. iq_dedupFlag (ins ! i) = UNIQUE) [0..<i])"

definition asked :: "InQueryEntry_t list \<Rightarrow> nat \<Rightarrow> nat list" where
  "asked ins n = filter (\<lambda>i. iq_dedupFlag (ins ! i) = UNIQUE) [0..<n]"

lemma rank_0 [simp]: "rank ins 0 = 0"
  by (simp add: rank_def)

lemma rank_Suc: "rank ins (Suc i) = (if iq_dedupFlag (ins ! i) = UNIQUE then Suc (rank ins i) else rank ins i)"
  by (simp add: rank_def)

lemma rank_all: "rank ins n = length (asked ins n)"
  by (simp add: rank_def asked_def)

lemma asked_split: "i \<le> n \<Longrightarrow> asked ins n = asked ins i @ filter (\<lambda>i. iq_dedupFlag (ins ! i) = UNIQUE) [i..<n]"
  unfolding asked_def by (metis filter_append le_add_diff_inverse less_eq_nat.simps(1) upt_add_eq_append)

lemma asked_rank:
  assumes "i < n" "iq_dedupFlag (ins ! i) = UNIQUE"
  shows "rank ins i < length (asked ins n)" "asked ins n ! rank ins i = i"
proof -
  have "asked ins n = asked ins i @ i # filter (\<lambda>i. iq_dedupFlag (ins ! i) = UNIQUE) [Suc i..<n]"
    using assms asked_split [of i n ins] by (simp add: upt_conv_Cons)
  then show "rank ins i < length (asked ins n)" "asked ins n ! rank ins i = i"
    by (simp_all add: rank_all nth_append)
qed

lemma asked_less: "j < length (asked ins n) \<Longrightarrow> asked ins n ! j < n \<and> iq_dedupFlag (ins ! (asked ins n ! j)) = UNIQUE"
  using nth_mem [of j "asked ins n"] by (auto simp: asked_def)

lemma asked_before: "i \<le> n \<Longrightarrow> j < rank ins i \<Longrightarrow> asked ins n ! j = asked ins i ! j"
  using asked_split [of i n ins] by (simp add: rank_all nth_append)

lemma asked_after:
  assumes "i \<le> n" "rank ins i \<le> j" "j < length (asked ins n)"
  shows "i \<le> asked ins n ! j"
proof -
  let ?r = "filter (\<lambda>i. iq_dedupFlag (ins ! i) = UNIQUE) [i..<n]"
  have e: "asked ins n = asked ins i @ ?r" by (rule asked_split [OF assms(1)])
  then have "asked ins n ! j = ?r ! (j - rank ins i)" "j - rank ins i < length ?r"
    using assms(2,3) by (simp_all add: rank_all nth_append)
  then show ?thesis using nth_mem by fastforce
qed

lemma rank_mono: "i \<le> j \<Longrightarrow> rank ins i \<le> rank ins j"
  by (induction j) (auto simp: rank_Suc le_Suc_eq)

lemma rank_le: "rank ins i \<le> i"
  using length_filter_le [of _ "[0..<i]"] by (simp add: rank_def)

lemma rank_same: "(\<And>i. i < n \<Longrightarrow> iq_dedupFlag (ins' ! i) = iq_dedupFlag (ins ! i)) \<Longrightarrow> i \<le> n \<Longrightarrow> rank ins' i = rank ins i"
  by (induction i) (simp_all add: rank_Suc)

lemma asked_same: "(\<And>i. i < n \<Longrightarrow> iq_dedupFlag (ins' ! i) = iq_dedupFlag (ins ! i)) \<Longrightarrow> asked ins' n = asked ins n"
  unfolding asked_def by (rule filter_cong) simp_all

section \<open>Passes over the entries outside\<close>

lemma out_pass:
  assumes n: "n \<le> length (outQueryBase st)" and wf: "\<forall>q \<in> set (outQueryBase st). out_wf q"
    and step: "\<And>j outs. j < n \<Longrightarrow> length outs = length (outQueryBase st) \<Longrightarrow> outs ! j = outQueryBase st ! j \<Longrightarrow>
      \<exists>q. f j (st\<lparr>outQueryBase := outs\<rparr>) = Inr (st\<lparr>outQueryBase := outs[j := q]\<rparr>) \<and> Q j q \<and> out_wf q"
  obtains outs where "for_each f [0..<n] st = Inr (st\<lparr>outQueryBase := outs\<rparr>)" "length outs = length (outQueryBase st)"
    "\<forall>q \<in> set outs. out_wf q" "\<And>j. j < n \<Longrightarrow> Q j (outs ! j)" "\<And>j. n \<le> j \<Longrightarrow> outs ! j = outQueryBase st ! j"
proof -
  let ?P = "\<lambda>k st'. \<exists>outs. st' = st\<lparr>outQueryBase := outs\<rparr> \<and> length outs = length (outQueryBase st) \<and>
    (\<forall>q \<in> set outs. out_wf q) \<and> (\<forall>j < k. Q j (outs ! j)) \<and> (\<forall>j \<ge> k. outs ! j = outQueryBase st ! j)"
  have "\<exists>s'. for_each f [0..<n] st = Inr s' \<and> ?P n s'"
  proof (rule for_each_inv [where P = ?P])
    show "?P 0 st" using wf by (intro exI [of _ "outQueryBase st"]) simp
  next
    fix k s assume k: "k < n" and "?P k s"
    then obtain outs where s: "s = st\<lparr>outQueryBase := outs\<rparr>" "length outs = length (outQueryBase st)"
      "\<forall>q \<in> set outs. out_wf q" "\<forall>j < k. Q j (outs ! j)" "\<forall>j \<ge> k. outs ! j = outQueryBase st ! j" by blast
    have "outs ! k = outQueryBase st ! k" using s(5) by simp
    from step [OF k s(2) this] obtain q where q: "f k s = Inr (st\<lparr>outQueryBase := outs[k := q]\<rparr>)" "Q k q" "out_wf q"
      unfolding s(1) by blast
    have "?P (Suc k) (st\<lparr>outQueryBase := outs[k := q]\<rparr>)"
      using s q k n out_wf_update [OF s(3) q(3), of k]
      by (intro exI [of _ "outs[k := q]"]) (auto simp: less_Suc_eq nth_list_update)
    then show "\<exists>s'. f k s = Inr s' \<and> ?P (Suc k) s'" using q(1) by blast
  qed
  then show thesis using that by auto
qed

section \<open>The index outside\<close>

text \<open>The cipher text of an address in the index.\<close>

definition enc_addr :: "restore_env \<Rightarrow> RecipeEntry_t \<Rightarrow> byte list \<Rightarrow> bool" where
  "enc_addr env r v \<longleftrightarrow> recipe_wf r \<and> AESCBCEnc (env_ssl env) cryptoObj (recipe_bytes r) (indexQueryKey env) = Inr v"

lemma enc_addr_total:
  assumes "env_ok env" "recipe_wf r"
  obtains v where "enc_addr env r v"
proof -
  have "openssl_ok (env_ssl env)" "length (indexQueryKey env) = 32" "16 dvd length (recipe_bytes r)"
    using assms by (simp_all add: env_ok_def sizeof_RecipeEntry_def)
  from AESCBCEnc_ok [OF this] show thesis using that assms(2) unfolding enc_addr_def by blast
qed

lemma enc_addr_dec:
  assumes "env_ok env" "enc_addr env r v"
  shows "length v = sizeof_RecipeEntry" "AESCBCDec (env_ssl env) cryptoObj v (indexQueryKey env) = Inr (recipe_bytes r)"
    "decrypt_recipe env v = Inr r"
proof -
  have wf: "recipe_wf r" and e: "AESCBCEnc (env_ssl env) cryptoObj (recipe_bytes r) (indexQueryKey env) = Inr v"
    using assms(2) by (simp_all add: enc_addr_def)
  have s: "openssl_ok (env_ssl env)" "length (indexQueryKey env) = 32" "16 dvd length (recipe_bytes r)"
    using assms(1) wf by (simp_all add: env_ok_def sizeof_RecipeEntry_def)
  obtain v' where v': "AESCBCEnc (env_ssl env) cryptoObj (recipe_bytes r) (indexQueryKey env) = Inr v'"
    "length v' = length (recipe_bytes r)" "AESCBCDec (env_ssl env) cryptoObj v' (indexQueryKey env) = Inr (recipe_bytes r)"
    by (rule AESCBCEnc_ok [OF s])
  then show "length v = sizeof_RecipeEntry" "AESCBCDec (env_ssl env) cryptoObj v (indexQueryKey env) = Inr (recipe_bytes r)"
    "decrypt_recipe env v = Inr r"
    using e wf by (simp_all add: decrypt_recipe_def)
qed

text \<open>The shape of the database: encrypted addresses, and features that lead to base chunks.\<close>

definition index_base :: "restore_env \<Rightarrow> InMemoryDatabase \<Rightarrow> byte list \<Rightarrow> RecipeEntry_t \<Rightarrow> bool" where
  "index_base env db k r \<longleftrightarrow> (\<exists>v. indexObj db k = Some v \<and> enc_addr env r v) \<and> re_deltaFlag r = NO_DELTA"

definition db_shape :: "restore_env \<Rightarrow> InMemoryDatabase \<Rightarrow> bool" where
  "db_shape env db \<longleftrightarrow> length (sfObj db) = 3 \<and>
     (\<forall>k v. indexObj db k = Some v \<longrightarrow> length k = CHUNK_HASH_SIZE \<and> (\<exists>r. enc_addr env r v)) \<and>
     (\<forall>m \<in> set (sfObj db). \<forall>f vs. m f = Some vs \<longrightarrow> vs \<noteq> [] \<and> (\<forall>k \<in> set vs. \<exists>r. index_base env db k r))"

definition queried :: "restore_env \<Rightarrow> InMemoryDatabase \<Rightarrow> OutQueryEntry_t \<Rightarrow> bool" where
  "queried env db q \<longleftrightarrow>
     oq_dedupFlag q = DUPLICATE \<and> indexObj db (oq_chunkHash q) = Some (oq_chunkAddr q) \<or>
     oq_dedupFlag q = UNIQUE \<and> indexObj db (oq_chunkHash q) = None"

lemma query_pass:
  assumes env: "env_ok env" and db: "db_shape env (index_db st)" and n: "out_queryNum st \<le> length (outQueryBase st)"
    and wf: "\<forall>q \<in> set (outQueryBase st). out_wf q"
    and hash: "\<forall>j < out_queryNum st. length (oq_chunkHash (outQueryBase st ! j)) = CHUNK_HASH_SIZE"
  obtains outs where "Ocall_QueryOutIndex st = Inr (st\<lparr>outQueryBase := outs\<rparr>)" "length outs = length (outQueryBase st)"
    "\<forall>q \<in> set outs. out_wf q" "\<And>j. j < out_queryNum st \<Longrightarrow> queried env (index_db st) (outs ! j) \<and>
       oq_chunkHash (outs ! j) = oq_chunkHash (outQueryBase st ! j)"
proof -
  let ?n = "out_queryNum st"
  let ?Q = "\<lambda>j q. queried env (index_db st) q \<and> oq_chunkHash q = oq_chunkHash (outQueryBase st ! j)"
  show thesis
  proof (rule out_pass [where f = query_entry and Q = ?Q, OF n wf])
    fix j outs assume j: "j < ?n" and l: "length outs = length (outQueryBase st)" "outs ! j = outQueryBase st ! j"
    let ?q = "outs ! j"
    have h: "length (oq_chunkHash ?q) = CHUNK_HASH_SIZE" and w: "out_wf ?q" and jl: "j < length outs" using hash j l wf n by auto
    have q: "QueryBuffer (oq_chunkHash ?q) CHUNK_HASH_SIZE (index_db st) = Inr (indexObj (index_db st) (oq_chunkHash ?q))"
      using h by (simp add: QueryBuffer_def buf_read_def bslice_full)
    show "\<exists>q. query_entry j (st\<lparr>outQueryBase := outs\<rparr>) = Inr (st\<lparr>outQueryBase := outs[j := q]\<rparr>) \<and> ?Q j q \<and> out_wf q"
    proof (cases "indexObj (index_db st) (oq_chunkHash ?q)")
      case None
      then show ?thesis using q w jl l(2)
        by (intro exI [of _ "?q\<lparr>oq_dedupFlag := UNIQUE\<rparr>"]) (simp add: query_entry_def put_out_def queried_def out_wf_def)
    next
      case (Some v)
      then obtain r where "enc_addr env r v" using db unfolding db_shape_def by blast
      then have v: "length v = sizeof_RecipeEntry" by (rule enc_addr_dec [OF env])
      then show ?thesis using q w jl Some l(2)
        by (intro exI [of _ "?q\<lparr>oq_dedupFlag := DUPLICATE, oq_chunkAddr := v\<rparr>"])
          (simp add: query_entry_def put_out_def queried_def out_wf_def buf_read_def bslice_full)
    qed
  qed (use that in \<open>auto simp: Ocall_QueryOutIndex_def\<close>)
qed

section \<open>Features\<close>

lemma collect_pass:
  assumes ins: "hashed env cs (inQueryBase st) (length cs)" and sz: "\<forall>c \<in> set cs. length c \<le> MAX_CHUNK_SIZE"
    and n: "length (asked (inQueryBase st) (length cs)) \<le> length (outQueryBase st)"
  obtains off k and ps :: "Param list" where "for_each collect_param [0..<length cs] (0, 0, [], st) = Inr (off, k, ps, st)"
    "\<forall>p \<in> set ps. pm_SF p < length cs \<and> pm_chunksize p = length (cs ! pm_SF p) \<and>
       pm_ptr p = drop (chunk_at cs (pm_SF p) + 4) (recvBuffer st)"
proof -
  let ?ins = "inQueryBase st"
  let ?P = "\<lambda>i (off, k, ps :: Param list, st'). off = chunk_at cs i \<and> k = rank ?ins i \<and> st' = st \<and>
    (\<forall>p \<in> set ps. pm_SF p < length cs \<and> pm_chunksize p = length (cs ! pm_SF p) \<and>
       pm_ptr p = drop (chunk_at cs (pm_SF p) + 4) (recvBuffer st))"
  have "\<exists>s'. for_each collect_param [0..<length cs] (0, 0, [], st) = Inr s' \<and> ?P (length cs) s'"
  proof (rule for_each_inv [where P = ?P])
    fix i s assume i: "i < length cs" and "?P i s"
    then obtain ps :: "Param list" where s: "s = (chunk_at cs i, rank ?ins i, ps, st)" and ps: "\<forall>p \<in> set ps. pm_SF p < length cs \<and>
      pm_chunksize p = length (cs ! pm_SF p) \<and> pm_ptr p = drop (chunk_at cs (pm_SF p) + 4) (recvBuffer st)"
      by (cases s) auto
    have l: "i < length ?ins" and e: "iq_chunkSize (?ins ! i) = word_of_nat (length (cs ! i))" using ins i by (auto simp: hashed_def)
    have u: "unat (iq_chunkSize (?ins ! i)) = length (cs ! i)" using sz i by (simp add: e unat_size)
    show "\<exists>s'. collect_param i s = Inr s' \<and> ?P (Suc i) s'"
    proof (cases "iq_dedupFlag (?ins ! i) = UNIQUE")
      case True
      have "rank ?ins i < length (outQueryBase st)" using asked_rank(1) [OF i True] n by simp
      then show ?thesis using True l i ps u by (simp add: collect_param_def s rank_Suc chunk_at_Suc)
    next
      case False
      then show ?thesis using l i ps u by (simp add: collect_param_def s rank_Suc chunk_at_Suc)
    qed
  qed simp
  then show thesis using that by auto
qed

lemma for_each_list:
  assumes "P s" "\<And>x s. x \<in> set xs \<Longrightarrow> P s \<Longrightarrow> \<exists>s'. f x s = Inr s' \<and> P s'"
  shows "\<exists>s'. for_each f xs s = Inr s' \<and> P s'"
  using assms
proof (induction xs arbitrary: s)
  case (Cons x xs)
  obtain s1 where s1: "f x s = Inr s1" "P s1" using Cons.prems by (meson list.set_intros(1))
  from Cons.IH [OF s1(2)] Cons.prems(2) s1(1) show ?case by auto
qed simp

lemma run_pass:
  assumes env: "env_ok env" and ins: "hashed env cs (inQueryBase st) (length cs)"
    and b: "length (recvBuffer st) = batch * sizeof_Chunk" "length cs \<le> batch" "\<forall>c \<in> set cs. length c \<le> MAX_CHUNK_SIZE"
    and ps: "\<forall>p \<in> set ps. pm_SF p < length cs \<and> pm_chunksize p = length (cs ! pm_SF p) \<and>
       pm_ptr p = drop (chunk_at cs (pm_SF p) + 4) (recvBuffer st)"
  obtains ins where "for_each (run_param env) ps st = Inr (st\<lparr>inQueryBase := ins\<rparr>)" "length ins = length (inQueryBase st)"
    "hashed env cs ins (length cs)" "\<And>i. iq_dedupFlag (ins ! i) = iq_dedupFlag (inQueryBase st ! i) \<and>
       iq_chunkAddr (ins ! i) = iq_chunkAddr (inQueryBase st ! i)"
proof -
  let ?P = "\<lambda>st'. \<exists>ins. st' = st\<lparr>inQueryBase := ins\<rparr> \<and> length ins = length (inQueryBase st) \<and> hashed env cs ins (length cs) \<and>
    (\<forall>i. iq_dedupFlag (ins ! i) = iq_dedupFlag (inQueryBase st ! i) \<and> iq_chunkAddr (ins ! i) = iq_chunkAddr (inQueryBase st ! i))"
  have "\<exists>s'. for_each (run_param env) ps st = Inr s' \<and> ?P s'"
  proof (rule for_each_list [where P = ?P])
    show "?P st" using ins by (intro exI [of _ "inQueryBase st"]) simp
  next
    fix p s assume "p \<in> set ps" and "?P s"
    then obtain ins where s: "s = st\<lparr>inQueryBase := ins\<rparr>" "length ins = length (inQueryBase st)" "hashed env cs ins (length cs)"
      "\<forall>i. iq_dedupFlag (ins ! i) = iq_dedupFlag (inQueryBase st ! i) \<and> iq_chunkAddr (ins ! i) = iq_chunkAddr (inQueryBase st ! i)"
      and p: "pm_SF p < length cs" "pm_chunksize p = length (cs ! pm_SF p)" "pm_ptr p = drop (chunk_at cs (pm_SF p) + 4) (recvBuffer st)"
      using ps by auto
    let ?i = "pm_SF p" and ?c = "cs ! pm_SF p"
    have c: "length ?c \<le> MAX_CHUNK_SIZE" using b(3) p(1) by simp
    have "chunk_at cs ?i \<le> ?i * sizeof_Chunk" using chunk_at_bound [OF b(3)] p(1) by simp
    moreover have "Suc ?i * sizeof_Chunk \<le> length (recvBuffer st)"
      unfolding b(1) using p(1) b(2) by (intro mult_le_mono1) simp
    ultimately have "chunk_at cs ?i + sizeof_Chunk \<le> length (recvBuffer st)" by simp
    moreover have "length ?c * 11 div 12 + WINDOW_SIZE + 4 \<le> sizeof_Chunk" "length ?c + 4 \<le> sizeof_Chunk"
      using c by (simp_all add: WINDOW_SIZE_def sizeof_Chunk_def MAX_CHUNK_SIZE_def)
    ultimately have r: "pm_chunksize p \<le> length (pm_ptr p)" "pm_chunksize p * 11 div 12 + WINDOW_SIZE \<le> length (pm_ptr p)"
      using p(2,3) by simp_all
    have ssl: "openssl_ok (env_ssl env)" using env by (simp add: env_ok_def)
    obtain sf where sf: "getSF2 (env_ssl env) cryptoObj (pm_ptr p) (pm_chunksize p) = Inr sf" "length sf = 3 * CHUNK_HASH_SIZE"
      using getSF2_super_features [OF r] super_features_ok [OF ssl] by metis
    let ?e = "(ins ! ?i)\<lparr>iq_superfeature := sf\<rparr>"
    have l: "?i < length ins" using p(1) s(3) by (simp add: hashed_def)
    have "in_wf (ins ! ?i)" using s(3) l by (simp add: hashed_def)
    then have "hashed env cs (ins[?i := ?e]) (length cs)" using sf(2) l by (intro hashed_put [OF s(3)]) (simp_all add: in_wf_def)
    moreover have "run_param env p s = Inr (st\<lparr>inQueryBase := ins[?i := ?e]\<rparr>)"
      using sf(1) l by (simp add: run_param_def s(1) put_in_def)
    moreover have "iq_dedupFlag (ins[?i := ?e] ! i) = iq_dedupFlag (ins ! i) \<and> iq_chunkAddr (ins[?i := ?e] ! i) = iq_chunkAddr (ins ! i)" for i
      using l by (cases "i = ?i") simp_all
    ultimately show "\<exists>s'. run_param env p s = Inr s' \<and> ?P s'"
      using s(2,4) by (intro exI [of _ "st\<lparr>inQueryBase := ins[?i := ?e]\<rparr>"] conjI exI [of _ "ins[?i := ?e]"]) simp_all
  qed
  then show thesis using that by auto
qed

section \<open>Similar chunks\<close>

lemma features_pass:
  assumes ins: "hashed env cs (inQueryBase st) (length cs)" and n: "length (asked (inQueryBase st) (length cs)) \<le> length (outQueryBase st)"
    and wf: "\<forall>q \<in> set (outQueryBase st). out_wf q"
  obtains outs where "OutEntrySFGet (length cs) st = Inr (st\<lparr>outQueryBase := outs\<rparr>)" "length outs = length (outQueryBase st)"
    "\<forall>q \<in> set outs. out_wf q" "\<And>j. oq_dedupFlag (outs ! j) = oq_dedupFlag (outQueryBase st ! j) \<and>
       oq_chunkHash (outs ! j) = oq_chunkHash (outQueryBase st ! j) \<and> oq_chunkAddr (outs ! j) = oq_chunkAddr (outQueryBase st ! j)"
    "\<And>j. j < length (asked (inQueryBase st) (length cs)) \<Longrightarrow> oq_dedupFlag (outs ! j) = UNIQUE \<Longrightarrow>
       oq_deltaFlag (outs ! j) = NO_DELTA \<and> oq_offlineFlag (outs ! j) = 0"
proof -
  let ?ins = "inQueryBase st"
  let ?P = "\<lambda>i (k, st'). k = rank ?ins i \<and> (\<exists>outs. st' = st\<lparr>outQueryBase := outs\<rparr> \<and> length outs = length (outQueryBase st) \<and>
    (\<forall>q \<in> set outs. out_wf q) \<and> (\<forall>j. oq_dedupFlag (outs ! j) = oq_dedupFlag (outQueryBase st ! j) \<and>
       oq_chunkHash (outs ! j) = oq_chunkHash (outQueryBase st ! j) \<and> oq_chunkAddr (outs ! j) = oq_chunkAddr (outQueryBase st ! j)) \<and>
    (\<forall>j < rank ?ins i. oq_dedupFlag (outs ! j) = UNIQUE \<longrightarrow> oq_deltaFlag (outs ! j) = NO_DELTA \<and> oq_offlineFlag (outs ! j) = 0))"
  have "\<exists>s'. for_each out_features [0..<length cs] (0, st) = Inr s' \<and> ?P (length cs) s'"
  proof (rule for_each_inv [where P = ?P])
    show "?P 0 (0, st)" using wf by (auto intro: exI [of _ "outQueryBase st"])
  next
    fix i s assume i: "i < length cs" and "?P i s"
    then obtain outs where s: "s = (rank ?ins i, st\<lparr>outQueryBase := outs\<rparr>)" "length outs = length (outQueryBase st)"
      "\<forall>q \<in> set outs. out_wf q" "\<forall>j. oq_dedupFlag (outs ! j) = oq_dedupFlag (outQueryBase st ! j) \<and>
         oq_chunkHash (outs ! j) = oq_chunkHash (outQueryBase st ! j) \<and> oq_chunkAddr (outs ! j) = oq_chunkAddr (outQueryBase st ! j)"
      "\<forall>j < rank ?ins i. oq_dedupFlag (outs ! j) = UNIQUE \<longrightarrow> oq_deltaFlag (outs ! j) = NO_DELTA \<and> oq_offlineFlag (outs ! j) = 0"
      by auto
    have l: "i < length ?ins" and w: "in_wf (?ins ! i)" using ins i by (auto simp: hashed_def)
    show "\<exists>s'. out_features i s = Inr s' \<and> ?P (Suc i) s'"
    proof (cases "iq_dedupFlag (?ins ! i) = UNIQUE")
      case False
      then show ?thesis using l s by (auto simp: out_features_def rank_Suc)
    next
      case True
      let ?k = "rank ?ins i"
      have k: "?k < length outs" using asked_rank(1) [OF i True] n s(2) by simp
      show ?thesis
      proof (cases "oq_dedupFlag (outs ! ?k) = UNIQUE")
        case False
        then show ?thesis using True l s k by (auto simp: out_features_def rank_Suc less_Suc_eq)
      next
        case u: True
        let ?q = "(outs ! ?k)\<lparr>oq_deltaFlag := NO_DELTA, oq_offlineFlag := 0, oq_superfeature := iq_superfeature (?ins ! i)\<rparr>"
        have wq: "out_wf ?q" using s(3) k w by (simp add: out_wf_def in_wf_def)
        have e: "out_features i s = Inr (Suc ?k, st\<lparr>outQueryBase := outs[?k := ?q]\<rparr>)"
          using True u l k by (simp add: out_features_def s(1) put_out_def)
        have f: "oq_dedupFlag (outs[?k := ?q] ! j) = oq_dedupFlag (outs ! j) \<and> oq_chunkHash (outs[?k := ?q] ! j) = oq_chunkHash (outs ! j) \<and>
           oq_chunkAddr (outs[?k := ?q] ! j) = oq_chunkAddr (outs ! j)" for j
          using k by (cases "j = ?k") simp_all
        have "?P (Suc i) (Suc ?k, st\<lparr>outQueryBase := outs[?k := ?q]\<rparr>)"
          using True s k f out_wf_update [OF s(3) wq, of ?k]
          by (auto simp: rank_Suc less_Suc_eq nth_list_update intro!: exI [of _ "outs[?k := ?q]"])
        then show ?thesis using e by blast
      qed
    qed
  qed
  then show thesis using that by (auto simp: OutEntrySFGet_def rank_all)
qed

lemma query_features_ok:
  assumes "length key = 3 * CHUNK_HASH_SIZE" "length ms = 3" "set is \<subseteq> {..<3}"
    "\<forall>m \<in> set ms. \<forall>f vs. m f = Some vs \<longrightarrow> vs \<noteq> [] \<and> (\<forall>k \<in> set vs. B k)"
  shows "\<exists>r. query_features is key ms = Inr r \<and> (\<forall>k. r = Some k \<longrightarrow> B k)"
  using assms(3)
proof (induction "is")
  case (Cons i js)
  have i: "i < 3" and js: "set js \<subseteq> {..<3}" using Cons.prems by simp_all
  have "CHUNK_HASH_SIZE * i + CHUNK_HASH_SIZE \<le> length key" using i assms(1) by (simp add: CHUNK_HASH_SIZE_def)
  then obtain f where f: "buf_read key (CHUNK_HASH_SIZE * i) CHUNK_HASH_SIZE = Inr f" by (simp add: buf_read_def)
  show ?case
  proof (cases "(ms ! i) f")
    case None
    then show ?thesis using Cons.IH [OF js] f by simp
  next
    case (Some vs)
    have "ms ! i \<in> set ms" using i assms(2) by simp
    with Some assms(4) have "vs \<noteq> []" "\<forall>k \<in> set vs. B k" by blast+
    then show ?thesis using Some f by (cases vs) simp_all
  qed
qed simp

text \<open>What the query for a base makes of an entry.\<close>

definition based :: "restore_env \<Rightarrow> InMemoryDatabase \<Rightarrow> OutQueryEntry_t \<Rightarrow> OutQueryEntry_t \<Rightarrow> bool" where
  "based env db q q' \<longleftrightarrow> oq_dedupFlag q' = oq_dedupFlag q \<and> oq_chunkHash q' = oq_chunkHash q \<and>
     oq_offlineFlag q' = oq_offlineFlag q \<and>
     (if oq_dedupFlag q = UNIQUE \<and> oq_deltaFlag q = NO_DELTA
      then oq_deltaFlag q' = NO_DELTA \<or> oq_deltaFlag q' = OUT_DELTA \<and>
        (\<exists>r. index_base env db (base_hash q') r \<and> enc_addr env r (oq_basechunkAddr q'))
      else q' = q)"

lemma base_hash_write:
  assumes "length a = sizeof_RecipeEntry" "length h = CHUNK_HASH_SIZE"
  shows "\<exists>a'. buf_write a 16 h = Inr a' \<and> length a' = sizeof_RecipeEntry \<and> bslice a' 16 CHUNK_HASH_SIZE = h"
  using assms by (auto simp: buf_write_def bslice_def sizeof_RecipeEntry_def CHUNK_HASH_SIZE_def)

lemma base_pass:
  assumes env: "env_ok env" and db: "db_shape env (index_db st)" and n: "out_queryNum st \<le> length (outQueryBase st)"
    and wf: "\<forall>q \<in> set (outQueryBase st). out_wf q"
  obtains outs where "Ocall_QueryOutBasechunk st = Inr (st\<lparr>outQueryBase := outs\<rparr>)" "length outs = length (outQueryBase st)"
    "\<forall>q \<in> set outs. out_wf q" "\<And>j. j < out_queryNum st \<Longrightarrow> based env (index_db st) (outQueryBase st ! j) (outs ! j)"
proof -
  let ?n = "out_queryNum st" and ?db = "index_db st"
  let ?Q = "\<lambda>j q. based env ?db (outQueryBase st ! j) q"
  show thesis
  proof (rule out_pass [where f = query_base and Q = ?Q, OF n wf])
    fix j outs assume j: "j < ?n" and l: "length outs = length (outQueryBase st)" "outs ! j = outQueryBase st ! j"
    let ?q = "outs ! j"
    have w: "out_wf ?q" and jl: "j < length outs" using j l wf n by auto
    show "\<exists>q. query_base j (st\<lparr>outQueryBase := outs\<rparr>) = Inr (st\<lparr>outQueryBase := outs[j := q]\<rparr>) \<and> ?Q j q \<and> out_wf q"
    proof (cases "oq_dedupFlag ?q = UNIQUE \<and> oq_deltaFlag ?q = NO_DELTA")
      case False
      then have "query_base j (st\<lparr>outQueryBase := outs\<rparr>) = Inr (st\<lparr>outQueryBase := outs[j := ?q]\<rparr>)"
        using jl by (auto simp: query_base_def)
      moreover have "based env ?db ?q ?q" using False by (simp add: based_def)
      ultimately show ?thesis using w unfolding l(2) [symmetric] by blast
    next
      case True
      have "length (oq_superfeature ?q) = 3 * CHUNK_HASH_SIZE" "length (sfObj ?db) = 3" "set [0, 1, 2 :: nat] \<subseteq> {..<3}"
        using w db by (auto simp: out_wf_def db_shape_def)
      moreover have "\<forall>m \<in> set (sfObj ?db). \<forall>f vs. m f = Some vs \<longrightarrow> vs \<noteq> [] \<and> (\<forall>k \<in> set vs. \<exists>r. index_base env ?db k r)"
        using db unfolding db_shape_def by blast
      ultimately have "\<exists>r. query_features [0, 1, 2] (oq_superfeature ?q) (sfObj ?db) = Inr r \<and>
        (\<forall>k. r = Some k \<longrightarrow> (\<exists>r. index_base env ?db k r))" by (rule query_features_ok)
      then obtain r where r: "QuerySF (oq_superfeature ?q) ?db = Inr r" "\<And>k. r = Some k \<Longrightarrow> \<exists>r. index_base env ?db k r"
        unfolding QuerySF_def by blast
      show ?thesis
      proof (cases r)
        case None
        have "query_base j (st\<lparr>outQueryBase := outs\<rparr>) = Inr (st\<lparr>outQueryBase := outs[j := ?q]\<rparr>)"
          using jl True r(1) None by (simp add: query_base_def)
        moreover have "based env ?db ?q ?q" using True by (simp add: based_def)
        ultimately show ?thesis using w unfolding l(2) [symmetric] by blast
      next
        case (Some k)
        obtain b v where b: "indexObj ?db k = Some v" "enc_addr env b v" "re_deltaFlag b = NO_DELTA" "index_base env ?db k b"
          using r(2) [OF Some] by (auto simp: index_base_def)
        have k: "length k = CHUNK_HASH_SIZE" using db b(1) by (auto simp: db_shape_def)
        obtain a where a: "buf_write (oq_chunkAddr ?q) 16 k = Inr a" "length a = sizeof_RecipeEntry" "bslice a 16 CHUNK_HASH_SIZE = k"
          using base_hash_write [OF _ k] w by (auto simp: out_wf_def)
        have v: "length v = sizeof_RecipeEntry" by (rule enc_addr_dec [OF env b(2)])
        let ?q' = "?q\<lparr>oq_chunkAddr := a, oq_deltaFlag := OUT_DELTA, oq_basechunkAddr := v\<rparr>"
        have "query_base j (st\<lparr>outQueryBase := outs\<rparr>) = Inr (st\<lparr>outQueryBase := outs[j := ?q']\<rparr>)"
          using True r(1) Some k a(1) b(1) v jl
          by (simp add: query_base_def put_out_def QueryBuffer_def buf_read_def bslice_full)
        moreover have "based env ?db (outQueryBase st ! j) ?q'"
          using True b a(3) l(2) by (auto simp: based_def base_hash_def)
        moreover have "out_wf ?q'" using w a(2) by (simp add: out_wf_def)
        ultimately show ?thesis by blast
      qed
    qed
  qed (use that in \<open>auto simp: Ocall_QueryOutBasechunk_def\<close>)
qed

text \<open>An entry outside before the chunks are stored, with its entry inside.\<close>

definition ready :: "restore_env \<Rightarrow> InMemoryDatabase \<Rightarrow> InQueryEntry_t \<Rightarrow> OutQueryEntry_t \<Rightarrow> bool" where
  "ready env db e q \<longleftrightarrow>
     oq_dedupFlag q = DUPLICATE \<and> indexObj db (oq_chunkHash q) = Some (oq_chunkAddr q) \<or>
     oq_dedupFlag q = UNIQUE \<and> indexObj db (oq_chunkHash q) = None \<and> oq_offlineFlag q = 0 \<and>
       (oq_deltaFlag q = NO_DELTA \<or> oq_deltaFlag q = OUT_DELTA \<and>
         (\<exists>r. index_base env db (base_hash q) r \<and> oq_basechunkAddr q = recipe_bytes r \<and> iq_basechunkAddr e = r))"

definition unready :: "restore_env \<Rightarrow> InMemoryDatabase \<Rightarrow> OutQueryEntry_t \<Rightarrow> bool" where
  "unready env db q \<longleftrightarrow>
     oq_dedupFlag q = DUPLICATE \<and> indexObj db (oq_chunkHash q) = Some (oq_chunkAddr q) \<or>
     oq_dedupFlag q = UNIQUE \<and> indexObj db (oq_chunkHash q) = None \<and> oq_offlineFlag q = 0 \<and>
       (oq_deltaFlag q = NO_DELTA \<or> oq_deltaFlag q = OUT_DELTA \<and>
         (\<exists>r. index_base env db (base_hash q) r \<and> enc_addr env r (oq_basechunkAddr q)))"

lemma delta_distinct [simp]: "NO_DELTA \<noteq> OUT_DELTA" "OUT_DELTA \<noteq> NO_DELTA" "DELTA \<noteq> NO_DELTA" "NO_DELTA \<noteq> DELTA" "DELTA \<noteq> OUT_DELTA" "OUT_DELTA \<noteq> DELTA"
  by (simp_all add: delta_defs)

lemma load_step:
  assumes env: "env_ok env" and i: "i < length ins" and k: "k < length outs"
    and u: "unready env db (outs ! k)" and w: "in_wf (ins ! i)" "out_wf (outs ! k)"
  obtains ids' e q where "(if oq_dedupFlag (outs ! k) = UNIQUE then EntryLoad env i k (ids, st\<lparr>inQueryBase := ins, outQueryBase := outs\<rparr>) else Inr (ids, st\<lparr>inQueryBase := ins, outQueryBase := outs\<rparr>)) =
      Inr (ids', st\<lparr>inQueryBase := ins[i := e], outQueryBase := outs[k := q]\<rparr>)"
    "ready env db e q" "in_wf e" "out_wf q" "oq_chunkHash q = oq_chunkHash (outs ! k)"
    "iq_dedupFlag e = iq_dedupFlag (ins ! i)" "iq_chunkHash e = iq_chunkHash (ins ! i)"
    "iq_chunkSize e = iq_chunkSize (ins ! i)" "re_offset (iq_chunkAddr e) = re_offset (iq_chunkAddr (ins ! i))"
proof -
  let ?e = "ins ! i" and ?q = "outs ! k"
  show thesis
  proof (cases "oq_dedupFlag ?q = UNIQUE \<and> oq_deltaFlag ?q = OUT_DELTA")
    case False
    have "(if oq_dedupFlag ?q = UNIQUE then EntryLoad env i k (ids, st\<lparr>inQueryBase := ins, outQueryBase := outs\<rparr>) else Inr (ids, st\<lparr>inQueryBase := ins, outQueryBase := outs\<rparr>)) =
      Inr (ids, st\<lparr>inQueryBase := ins[i := ?e], outQueryBase := outs[k := ?q]\<rparr>)"
      using False i k by (simp add: EntryLoad_def)
    moreover have "ready env db ?e ?q" using u False by (auto simp: unready_def ready_def)
    ultimately show thesis using that w by blast
  next
    case True
    then obtain r where r: "index_base env db (base_hash ?q) r" "enc_addr env r (oq_basechunkAddr ?q)"
      using u by (auto simp: unready_def)
    have wf: "recipe_wf r" using r(2) by (simp add: enc_addr_def)
    note dec = enc_addr_dec(2) [OF env r(2)]
    let ?e' = "?e\<lparr>iq_chunkAddr := (iq_chunkAddr ?e)\<lparr>basechunkHash := base_hash ?q\<rparr>, iq_basechunkAddr := r\<rparr>"
    let ?q' = "?q\<lparr>oq_basechunkAddr := recipe_bytes r\<rparr>"
    have "EntryLoad env i k (ids, st\<lparr>inQueryBase := ins, outQueryBase := outs\<rparr>) = Inr (List.insert (containerName r) ids,
        st\<lparr>inQueryBase := ins[i := ?e'], outQueryBase := outs[k := ?q']\<rparr>)"
      using True i k dec wf by (simp add: EntryLoad_def put_in_def put_out_def)
    moreover have "ready env db ?e' ?q'" using u r(1) True by (auto simp: unready_def ready_def base_hash_def)
    moreover have "length (base_hash ?q) = CHUNK_HASH_SIZE"
      unfolding base_hash_def using w(2) by (intro bslice_length) (simp add: out_wf_def sizeof_RecipeEntry_def CHUNK_HASH_SIZE_def)
    then have "in_wf ?e'" using w(1) by (simp add: in_wf_def recipe_wf_def)
    moreover have "out_wf ?q'" using w(2) by (simp add: out_wf_def)
    ultimately show thesis using True by (intro that [where e = ?e' and q = ?q']) simp_all
  qed
qed

lemma check_pass:
  assumes env: "env_ok env" and ins: "hashed env cs (inQueryBase st) (length cs)"
    and n: "length (asked (inQueryBase st) (length cs)) \<le> length (outQueryBase st)" and wf: "\<forall>q \<in> set (outQueryBase st). out_wf q"
    and u: "\<And>j. j < length (asked (inQueryBase st) (length cs)) \<Longrightarrow> unready env db (outQueryBase st ! j)"
  obtains flag ins outs where "LocalChecker env (length cs) st = Inr (flag, st\<lparr>inQueryBase := ins, outQueryBase := outs\<rparr>)"
    "length ins = length (inQueryBase st)" "hashed env cs ins (length cs)"
    "length outs = length (outQueryBase st)" "\<forall>q \<in> set outs. out_wf q"
    "\<And>j. j < length (asked (inQueryBase st) (length cs)) \<Longrightarrow> ready env db (ins ! (asked (inQueryBase st) (length cs) ! j)) (outs ! j) \<and>
       oq_chunkHash (outs ! j) = oq_chunkHash (outQueryBase st ! j)"
    "\<And>i. i < length cs \<Longrightarrow> iq_dedupFlag (ins ! i) = iq_dedupFlag (inQueryBase st ! i) \<and>
       re_offset (iq_chunkAddr (ins ! i)) = re_offset (iq_chunkAddr (inQueryBase st ! i))"
proof -
  let ?ins = "inQueryBase st" and ?outs = "outQueryBase st" and ?us = "asked (inQueryBase st) (length cs)"
  let ?st = "\<lambda>ins outs. st\<lparr>inQueryBase := ins, outQueryBase := outs\<rparr>"
  let ?P = "\<lambda>i (k, ids :: byte list list, st'). k = rank ?ins i \<and> (\<exists>ins outs. st' = ?st ins outs \<and> length ins = length ?ins \<and>
    hashed env cs ins (length cs) \<and> length outs = length ?outs \<and> (\<forall>q \<in> set outs. out_wf q) \<and>
    (\<forall>j < rank ?ins i. ready env db (ins ! (?us ! j)) (outs ! j) \<and> oq_chunkHash (outs ! j) = oq_chunkHash (?outs ! j)) \<and>
    (\<forall>j \<ge> rank ?ins i. outs ! j = ?outs ! j) \<and> (\<forall>i < length cs. iq_dedupFlag (ins ! i) = iq_dedupFlag (?ins ! i) \<and>
       re_offset (iq_chunkAddr (ins ! i)) = re_offset (iq_chunkAddr (?ins ! i))))"
  have "\<exists>s'. for_each (check_entry env) [0..<length cs] (0, [], st) = Inr s' \<and> ?P (length cs) s'"
  proof (rule for_each_inv [where P = ?P])
    show "?P 0 (0, [], st)" using ins wf by (auto intro!: exI [of _ ?ins] exI [of _ ?outs])
  next
    fix i s assume i: "i < length cs" and P: "?P i s"
    obtain k ids st' where s0: "s = (k, ids, st')" by (cases s) auto
    with P obtain ins outs where s: "s = (rank ?ins i, ids, ?st ins outs)" "length ins = length ?ins" "hashed env cs ins (length cs)"
      "length outs = length ?outs" "\<forall>q \<in> set outs. out_wf q"
      and rd: "\<forall>j < rank ?ins i. ready env db (ins ! (?us ! j)) (outs ! j) \<and> oq_chunkHash (outs ! j) = oq_chunkHash (?outs ! j)"
      and rest: "\<forall>j \<ge> rank ?ins i. outs ! j = ?outs ! j"
      and fl: "\<forall>i < length cs. iq_dedupFlag (ins ! i) = iq_dedupFlag (?ins ! i) \<and>
        re_offset (iq_chunkAddr (ins ! i)) = re_offset (iq_chunkAddr (?ins ! i))" by auto
    have l: "i < length ins" using s(3) i by (auto simp: hashed_def)
    show "\<exists>s'. check_entry env i s = Inr s' \<and> ?P (Suc i) s'"
    proof (cases "iq_dedupFlag (?ins ! i) = UNIQUE")
      case False
      then have "check_entry env i s = Inr (rank ?ins (Suc i), ids, ?st ins outs)"
        using l fl i by (simp add: check_entry_def s(1) rank_Suc)
      moreover have "?P (Suc i) (rank ?ins (Suc i), ids, ?st ins outs)"
        using False s rd rest fl by (auto simp: rank_Suc)
      ultimately show ?thesis by blast
    next
      case True
      let ?k = "rank ?ins i"
      have k: "?k < length ?us" "?us ! ?k = i" using asked_rank [OF i True] by simp_all
      have kl: "?k < length outs" using k n s(4) by simp
      have w: "in_wf (ins ! i)" "out_wf (outs ! ?k)" using s(3,5) l kl by (simp_all add: hashed_def)
      have uk: "unready env db (outs ! ?k)" using u [OF k(1)] rest by simp
      obtain ids' e q where eq: "(if oq_dedupFlag (outs ! ?k) = UNIQUE then EntryLoad env i ?k (ids, ?st ins outs) else Inr (ids, ?st ins outs)) =
          Inr (ids', ?st (ins[i := e]) (outs[?k := q]))"
        "ready env db e q" "in_wf e" "out_wf q" "oq_chunkHash q = oq_chunkHash (outs ! ?k)"
        "iq_dedupFlag e = iq_dedupFlag (ins ! i)" "iq_chunkHash e = iq_chunkHash (ins ! i)"
        "iq_chunkSize e = iq_chunkSize (ins ! i)" "re_offset (iq_chunkAddr e) = re_offset (iq_chunkAddr (ins ! i))"
        by (rule load_step [OF env l kl uk w])
      have ce: "check_entry env i s = Inr (Suc ?k, ids', ?st (ins[i := e]) (outs[?k := q]))"
        using True fl i l kl eq(1) by (simp add: check_entry_def s(1))
      have r1: "ready env db (ins[i := e] ! (?us ! j)) (outs[?k := q] ! j) \<and> oq_chunkHash (outs[?k := q] ! j) = oq_chunkHash (?outs ! j)"
        if j: "j < Suc ?k" for j
      proof (cases "j = ?k")
        case True
        then show ?thesis using eq k l kl rest by simp
      next
        case False
        then have jk: "j < ?k" using j by simp
        have "?us ! j = asked ?ins i ! j" using asked_before [OF _ jk, of "length cs"] i by simp
        moreover have "asked ?ins i ! j < i" using asked_less [of j ?ins i] jk by (simp add: rank_all)
        ultimately have "?us ! j \<noteq> i" by simp
        then show ?thesis using rd jk False by simp
      qed
      have f1: "iq_dedupFlag (ins[i := e] ! i') = iq_dedupFlag (?ins ! i') \<and>
          re_offset (iq_chunkAddr (ins[i := e] ! i')) = re_offset (iq_chunkAddr (?ins ! i'))" if "i' < length cs" for i'
        using fl that eq(6,9) l by (cases "i' = i") simp_all
      have "?P (Suc i) (Suc ?k, ids', ?st (ins[i := e]) (outs[?k := q]))"
        using True s(2,4) r1 f1 rest hashed_put [OF s(3) l eq(3,7,8)] out_wf_update [OF s(5) eq(4), of ?k]
        by (auto simp: rank_Suc intro!: exI [of _ "ins[i := e]"] exI [of _ "outs[?k := q]"])
      then show ?thesis using ce by blast
    qed
  qed
  then show thesis using that by (auto simp: LocalChecker_def rank_all)
qed

end
