(* ===== verification/Edelta_Ratio.thy ===== *)
theory Edelta_Ratio imports Edelta_Correct Complex_Main begin

text \<open>
  The floating-point test of the encoder's main loop for chunks of comparable length: rounding
  cannot spoil the margin, so the encoder always gets started.
\<close>

lemma f32_shift_large: "0 < a \<Longrightarrow> 0 < b \<Longrightarrow> 2 ^ 23 * b \<le> a * 2 ^ f32_shift a b e"
proof (induction a b e rule: f32_shift.induct)
  case (1 a b e)
  show ?case
  proof (cases "a * 2 ^ e < 2 ^ 23 * b")
    case True
    then have "f32_shift a b e = f32_shift a b (Suc e)" using 1(2) by (subst f32_shift.simps) (simp only: if_True simp_thms)
    then show ?thesis using 1(1) 1(2,3) True by (simp only: simp_thms)
  next
    case False
    then have "f32_shift a b e = e" by (subst f32_shift.simps) (simp only: if_False simp_thms)
    then show ?thesis using False by (simp only: not_less)
  qed
qed

lemma f32_div_bounds:
  assumes "0 < a" "a < b" "f32_div a b = (m, e)"
  shows "\<bar>real m / 2 ^ e - real a / real b\<bar> \<le> 1 / 2 ^ 25"
proof -
  let ?q = "a * 2 ^ e div b" and ?r = "a * 2 ^ e mod b"
  have e: "e = f32_shift a b 0" and m: "m = (if b < 2 * ?r \<or> (2 * ?r = b \<and> odd ?q) then ?q + 1 else ?q)"
    using assms(3) by (auto simp: f32_div_def Let_def)
  have s: "2 ^ 23 * b \<le> a * 2 ^ e" unfolding e using assms(1,2) by (intro f32_shift_large) auto
  have "2 ^ 23 * b < 2 ^ e * b"
    using s assms(1,2) by (metis le_less_trans mult.commute mult_less_mono2 zero_less_numeral zero_less_power)
  then have "(2::nat) ^ 23 < 2 ^ e" by simp
  then have "23 < e" using power_strict_increasing_iff [of "2::nat" 23 e] by simp
  then have p: "(2::real) ^ 24 \<le> 2 ^ e" by (intro power_increasing) auto
  have d: "a * 2 ^ e = ?q * b + ?r" "?r < b" using assms by (simp_all add: mult.commute)
  have "\<bar>real m * real b - real a * 2 ^ e\<bar> \<le> real b / 2"
  proof -
    have "real a * 2 ^ e = real ?q * real b + real ?r" using d(1) by (metis of_nat_add of_nat_mult of_nat_numeral of_nat_power)
    then show ?thesis using d(2) m by (auto split: if_splits simp: algebra_simps)
  qed
  then have "\<bar>real m * real b - real a * 2 ^ e\<bar> / (2 ^ e * real b) \<le> (real b / 2) / (2 ^ e * real b)"
    using assms by (intro divide_right_mono) auto
  moreover have "\<bar>real m * real b - real a * 2 ^ e\<bar> / (2 ^ e * real b) = \<bar>real m / 2 ^ e - real a / real b\<bar>"
  proof -
    have "real m / 2 ^ e - real a / real b = (real m * real b - real a * 2 ^ e) / (2 ^ e * real b)"
      using assms(1,2) by (simp add: field_simps)
    then show ?thesis by (simp add: abs_divide abs_mult)
  qed
  moreover have "(real b / 2) / (2 ^ e * real b) = 1 / (2 * 2 ^ e)" using assms by simp
  moreover have "1 / (2 * (2::real) ^ e) \<le> 1 / 2 ^ 25" using p by (intro divide_left_mono) auto
  ultimately show ?thesis by linarith
qed

lemma base_due_ratio:
  assumes "b < n1" "b < n2" "n1 \<le> 2 * n2" "n2 \<le> 2 ^ 20"
  shows "base_due b n1 b n2"
proof (cases "b = 0")
  case True
  then show ?thesis using assms by (simp add: base_due_def f32_div_def f32_shift.simps)
next
  case False
  obtain m1 e1 m2 e2 where d: "f32_div b n1 = (m1, e1)" "f32_div b n2 = (m2, e2)" by fastforce
  have "\<bar>real m1 / 2 ^ e1 - real b / real n1\<bar> \<le> 1 / 2 ^ 25" "\<bar>real m2 / 2 ^ e2 - real b / real n2\<bar> \<le> 1 / 2 ^ 25"
    using f32_div_bounds [OF _ assms(1) d(1)] f32_div_bounds [OF _ assms(2) d(2)] False by auto
  moreover have "real b / real n2 - real b / real n1 \<le> 1 / 2 - 1 / 2 ^ 21"
  proof -
    have "real b / (2 * real n2) \<le> real b / real n1" using assms by (intro divide_left_mono) auto
    moreover have "real b / real n2 \<le> 1 - 1 / 2 ^ 20"
    proof -
      have "real b / real n2 \<le> (real n2 - 1) / real n2" using assms by (intro divide_right_mono) auto
      also have "\<dots> = 1 - 1 / real n2" using assms by (simp add: diff_divide_distrib)
      also have "\<dots> \<le> 1 - 1 / 2 ^ 20"
      proof -
        have "real n2 \<le> 2 ^ 20" using assms(4) by (metis of_nat_le_iff of_nat_numeral of_nat_power)
        then have "1 / 2 ^ 20 \<le> 1 / real n2" using assms(2) by (intro divide_left_mono) auto
        then show ?thesis by simp
      qed
      finally show ?thesis .
    qed
    moreover have "real b / (2 * real n2) = (real b / real n2) / 2" by simp
    moreover have "(1 :: real) / 2 ^ 20 = 2 * (1 / 2 ^ 21)" by simp
    ultimately show ?thesis by linarith
  qed
  moreover have "1 / 2 ^ 25 + 1 / 2 ^ 25 \<le> (1 :: real) / 2 ^ 21" by simp
  ultimately have "real m2 / 2 ^ e2 \<le> real m1 / 2 ^ e1 + 1 / 2" by linarith
  then have "real m2 * 2 * 2 ^ e1 \<le> (2 * real m1 + 2 ^ e1) * 2 ^ e2" by (simp add: field_simps)
  then have "real (m2 * 2 ^ Suc e1) \<le> real ((2 * m1 + 2 ^ e1) * 2 ^ e2)" by (simp add: algebra_simps)
  then have "m2 * 2 ^ Suc e1 \<le> (2 * m1 + 2 ^ e1) * 2 ^ e2" unfolding of_nat_le_iff .
  then show ?thesis by (simp add: base_due_def d)
qed

text \<open>So a chunk that is at most twice as long as its base is always encoded.\<close>

lemma encode_starts_ratio:
  assumes "length new \<le> 2 * length base" "length base \<le> 2 ^ 20"
  shows "encode_starts new base"
proof -
  obtain b e where d: "detect_ends new base = (b, e)" by fastforce
  have "base_due b (length new) b (length base)" if "b + e < length base" "b + e < length new"
    using base_due_ratio [of b "length new" "length base"] that assms by simp
  then show ?thesis using d unfolding encode_starts_def by (simp only: Let_def prod.case) (metis not_le)
qed

end
