(* ===== verification/Batch_Store.thy ===== *)
theory Batch_Store imports Batch_Correct Edelta_Ratio begin

text \<open>
  The storage side of \<open>ProcessOneBatch\<close>: the writer thread, the container cache of the enclave, the
  choice of a base, the delta, and the saved record.  \<open>process_unique_ok\<close> puts them together: a
  chunk that no index knows is stored without a fault, under an address that restores it.
\<close>

section \<open>The writer thread\<close>

text \<open>Files are never changed once they are written.\<close>

definition disk_grows :: "store \<Rightarrow> store \<Rightarrow> bool" where
  "disk_grows st st' \<longleftrightarrow> (\<forall>k f. disk st k = Some f \<longrightarrow> disk st' k = Some f)"

lemma disk_grows_refl [simp]: "disk_grows st st"
  by (simp add: disk_grows_def)

lemma disk_grows_trans: "disk_grows a b \<Longrightarrow> disk_grows b c \<Longrightarrow> disk_grows a c"
  by (simp add: disk_grows_def)

lemma writer_total:
  assumes "store_ok st cat"
  obtains st' where "DataWriter_step st = Inr st'" "con_times st' = con_times st" "disk_grows st st'"
proof (cases "inputMQ st")
  case Nil
  then show thesis using that [of st] by (simp add: DataWriter_step_def)
next
  case (Cons c cs)
  have "\<exists>rs. cat (ct_deltaFlag c, containerID c) = Some rs \<and> packed (ct_deltaFlag c) c rs"
    using assms Cons unfolding store_ok_def in_queue_def by (metis list.set_intros(1))
  then obtain rs where rs: "cat (key_of c) = Some rs" "packed (ct_deltaFlag c) c rs"
    by (auto simp: key_of_def)
  let ?st = "st\<lparr>inputMQ := cs, disk := (disk st)(key_of c \<mapsto> content rs)\<rparr>"
  have "DataWriter_step st = Inr ?st"
    using Cons rs(2) by (auto simp: DataWriter_step_def SaveToFile_def packed_def key_of_def buf_read_def bslice_def)
  moreover have "d = content rs" if "disk st (key_of c) = Some d" for d
    using assms rs(1) that unfolding store_ok_def on_disk_def by (metis option.inject)
  then have "disk_grows st ?st" by (simp add: disk_grows_def)
  ultimately show thesis using that by simp
qed

lemma writer_turns_ok:
  assumes "session st hs"
  obtains st' where "writer_turns n st = Inr st'" "session st' hs" "con_times st' = con_times st" "disk_grows st st'"
proof -
  have "\<exists>st'. writer_turns n st = Inr st' \<and> session st' hs \<and> con_times st' = con_times st \<and> disk_grows st st'"
    using assms
  proof (induction n arbitrary: st)
    case (Suc n)
    obtain cat where "store_ok st cat" using session_ok [OF Suc.prems] by blast
    then obtain s1 where s1: "DataWriter_step st = Inr s1" "con_times s1 = con_times st" "disk_grows st s1"
      by (rule writer_total)
    obtain s2 where "writer_turns n s1 = Inr s2" "session s2 hs" "con_times s2 = con_times s1" "disk_grows s1 s2"
      using Suc.IH [OF session.writer [OF Suc.prems s1(1)]] by blast
    then show ?case using s1 disk_grows_trans by auto
  qed simp
  then show thesis using that by blast
qed

section \<open>Base chunks in their containers\<close>

lemma container_of_record:
  assumes "session st hs" "(False, r) \<in> set hs" "disk st (False, containerName (s_addr r)) = Some f"
  shows "reads_back f r" "unat (re_length (s_addr r)) = length (s_data r)" "recipe_wf (s_addr r)" "length f \<le> MAX_CONTAINER_SIZE"
proof -
  obtain cat where cat: "store_ok st cat" "history_ok hs cat" using session_ok [OF assms(1)] by blast
  let ?n = "containerName (s_addr r)"
  obtain rs where rs: "cat (False, ?n) = Some rs" "r \<in> set rs" using history_okD [OF cat(2) assms(2)] by blast
  have f: "f = content rs" "placed ?n 0 rs"
    using cat(1) assms(3) rs(1) unfolding store_ok_def on_disk_def by fastforce+
  show "reads_back f r" using placed_reads_back [of ?n "[]" rs r "[]"] f rs(2) by simp
  have "\<exists>off. srec_ok ?n off r" by (rule placed_srec [OF f(2) rs(2)])
  then show "unat (re_length (s_addr r)) = length (s_data r)" "recipe_wf (s_addr r)" by (auto simp: srec_ok_def)
  have "tidy cat" using cat(1) by (simp add: store_ok_def)
  then show "length f \<le> MAX_CONTAINER_SIZE" using rs(1) f(1) by (simp add: tidy_def)
qed

text \<open>What is read of a file is read of any buffer that starts with it.\<close>

lemma buf_read_prefix:
  assumes "take (length f) buf = f" "buf_read f off n = Inr x"
  shows "buf_read buf off n = Inr x"
proof -
  have "buf = f @ drop (length f) buf" using assms(1) by (metis append_take_drop_id)
  then have "length f \<le> length buf" "bslice buf off n = bslice f off n"
    using assms(2) by (metis le_add1 length_append, metis assms(2) buf_read_Inr bslice_append_left)
  then show ?thesis using assms(2) by (auto simp: buf_read_def split: if_splits)
qed

lemma reads_back_parts:
  assumes "reads_back f r" "unat (re_length (s_addr r)) = length (s_data r)"
  defines "pos \<equiv> unat (re_offset (s_addr r)) + sizeof_RecipeEntry + 4 * CHUNK_HASH_SIZE"
  shows "buf_read f pos (length (s_data r)) = Inr (s_data r)"
    "buf_read f (pos + length (s_data r)) CRYPTO_BLOCK_SIZE = Inr (s_iv r)"
proof -
  obtain out' pair' where g: "GetChunk_content_buffer f (s_addr r) False (0, 0) (replicate (length (s_data r)) 0) = Inr (out', pair')"
    "take (length (s_data r)) out' = s_data r"
    using assms(1) unfolding reads_back_def by (metis length_replicate order_refl)
  then obtain x where x: "buf_read f pos (length (s_data r)) = Inr x"
    "buf_write (replicate (length (s_data r)) 0) 0 x = Inr out'"
    using assms(2) by (auto simp: GetChunk_content_buffer_def res_bind_eq_Inr pos_def Let_def)
  have "length x = length (s_data r)" using x(1) by (auto simp: buf_read_Inr bslice_length)
  then have "x = s_data r" using x(2) g(2) by (auto simp: buf_write_Inr)
  then show "buf_read f pos (length (s_data r)) = Inr (s_data r)" using x(1) by simp
  show "buf_read f (pos + length (s_data r)) CRYPTO_BLOCK_SIZE = Inr (s_iv r)"
    using assms(1,2) by (simp add: reads_back_def GetChunk_IV_def pos_def algebra_simps)
qed

text \<open>The base chunk is read from the content of its container.\<close>

lemma load_base_ok:
  assumes env: "env_ok env" "lz4_ok (env_lz4 env)" and s: "session st hs" "disk st (False, containerName b) = Some f"
    and k: "kept_as env hs False b (stored_form env True base)" "raw_safe env base" "length base \<le> MAX_CHUNK_SIZE"
    and buf: "take (length f) (containerbuffer q) = f" and e: "iq_basechunkAddr e = b" "oq_basechunkAddr q = recipe_bytes b"
  shows "load_base env e q = Inr base"
proof -
  obtain r where r: "(False, r) \<in> set hs" "s_addr r = b"
    "DecryptionWithKeyIV (env_ssl env) cryptoObj (s_data r) (enclaveKey env) (s_iv r) = Inr (stored_form env True base)"
    "length (stored_form env True base) = length (s_data r)" "length (stored_form env True base) \<le> MAX_CHUNK_SIZE"
    using k(1) unfolding kept_as_def by blast
  have f: "disk st (False, containerName (s_addr r)) = Some f" using s(2) r(2) by simp
  note c = container_of_record [OF s(1) r(1) f]
  note p = reads_back_parts [OF c(1,2)]
  have l: "length (s_data r) \<le> MAX_CHUNK_SIZE" using r(4,5) by simp
  have w: "buf_write (replicate (2 * MAX_CHUNK_SIZE) 0) 0 (s_data r) =
      Inr (s_data r @ drop (length (s_data r)) (replicate (2 * MAX_CHUNK_SIZE) 0))"
    using l by (simp add: buf_write_def)
  have rd: "buf_read (s_data r @ drop (length (s_data r)) (replicate (2 * MAX_CHUNK_SIZE) 0)) 0 (length (s_data r)) = Inr (s_data r)"
    by (simp add: buf_read_def bslice_def)
  have bb: "bytes_recipe (oq_basechunkAddr q) = s_addr r" using e(2) r(2) c(3) by simp
  have "unpacked env (stored_form env True base) = base" by (rule unpacked_stored [OF env(2) k(2,3)])
  then have u: "(case LZ4_decompress_safe (env_lz4 env) (stored_form env True base) MAX_CHUNK_SIZE of
      Some x \<Rightarrow> Inr x | None \<Rightarrow> Inr (stored_form env True base)) = Inr base"
    by (simp add: unpacked_def split: option.splits)
  show ?thesis
    using buf_read_prefix [OF buf p(1)] buf_read_prefix [OF buf p(2)] w rd bb c(2) r(2,3) u e(1)
    by (simp add: load_base_def Let_def)
qed

section \<open>The container cache of the enclave\<close>

text \<open>The cache holds base containers that are on disk, each with the content of its file in front.\<close>

definition base_file :: "store \<Rightarrow> byte list \<Rightarrow> byte list" where
  "base_file st name = (case disk st (False, name) of Some f \<Rightarrow> f | None \<Rightarrow> [])"

definition cache_ok :: "store \<Rightarrow> slot_pool \<Rightarrow> bool" where
  "cache_ok st c \<longleftrightarrow> pool_ok Cachesize (base_file st) c \<and> (\<forall>name. ExistsInCache name c \<longrightarrow> disk st (False, name) \<noteq> None)"

lemma pool_exists: "pool_ok n M c \<Longrightarrow> ExistsInCache name c \<longleftrightarrow> (\<exists>i. lru_lookup (pool_lru c) name = Some i)"
  using contains_lookup [of "pool_lru c" name] by (auto simp: pool_ok_def ExistsInCache_def lru_bounded_def)

lemma pool_ok_prefix:
  assumes "pool_ok n M c" "\<And>name. ExistsInCache name c \<Longrightarrow> take (length (M' name)) (M name) = M' name"
  shows "pool_ok n M' c"
proof -
  have "take (length (M' name)) (containerPool c ! i) = M' name" if "lru_lookup (pool_lru c) name = Some i" for name i
  proof -
    have t: "take (length (M name)) (containerPool c ! i) = M name" using assms(1) that by (simp add: pool_ok_def)
    have p: "take (length (M' name)) (M name) = M' name" using assms that pool_exists by blast
    then have "length (M' name) \<le> length (M name)" by (metis length_take min.cobounded1)
    then have "take (length (M' name)) (take (length (M name)) (containerPool c ! i)) = take (length (M' name)) (containerPool c ! i)"
      by (simp add: min_absorb1)
    then show ?thesis unfolding t p by simp
  qed
  then show ?thesis using assms(1) by (simp add: pool_ok_def)
qed

lemma cache_ok_grows:
  assumes "cache_ok st c" "disk_grows st st'"
  shows "cache_ok st' c"
proof -
  have same: "base_file st' name = base_file st name \<and> disk st' (False, name) \<noteq> None" if e: "ExistsInCache name c" for name
  proof -
    obtain f where "disk st (False, name) = Some f" using assms(1) e by (auto simp: cache_ok_def)
    moreover from this have "disk st' (False, name) = Some f" using assms(2) by (simp add: disk_grows_def)
    ultimately show ?thesis by (simp add: base_file_def)
  qed
  have "pool_ok Cachesize (base_file st') c"
    by (rule pool_ok_prefix [of _ "base_file st"]) (use assms(1) same in \<open>auto simp: cache_ok_def\<close>)
  then show ?thesis using same by (simp add: cache_ok_def)
qed

lemma cache_read:
  assumes "cache_ok st c" "ExistsInCache name c"
  obtains buf c' f where "ReadFromCache name c = Inr (buf, c')" "disk st (False, name) = Some f" "take (length f) buf = f"
    "cache_ok st c'"
proof -
  have p: "pool_ok Cachesize (base_file st) c" using assms(1) by (simp add: cache_ok_def)
  obtain f where f: "disk st (False, name) = Some f" using assms by (auto simp: cache_ok_def)
  obtain buf c' where r: "ReadFromCache name c = Inr (buf, c')" "take (length (base_file st name)) buf = base_file st name"
    "pool_ok Cachesize (base_file st) c'" "\<forall>x. ExistsInCache x c' = ExistsInCache x c"
    using ReadFromCache_ok [OF p assms(2)] by auto
  show thesis using r assms(1) f by (intro that [OF r(1) f]) (simp_all add: base_file_def cache_ok_def)
qed

lemma cache_insert:
  assumes "cache_ok st c" "\<not> ExistsInCache name c" "disk st (False, name) = Some f" "take (length f) data = f"
    "length data = MAX_CONTAINER_SIZE"
  obtains c' where "InsertToCache_Offline name data c = Inr c'" "cache_ok st c'"
proof -
  have p: "pool_ok Cachesize (base_file st) c" using assms(1) by (simp add: cache_ok_def)
  obtain i c' where r: "InsertToCache_pool name data c = Inr (i, c')" "pool_ok Cachesize ((base_file st)(name := data)) c'"
    "\<forall>x j. x \<noteq> name \<longrightarrow> lru_lookup (pool_lru c') x = Some j \<longrightarrow> lru_lookup (pool_lru c) x = Some j \<and> j \<noteq> i"
    using InsertToCache_pool_ok [OF p assms(2), of data] assms(5) by auto
  have old: "ExistsInCache x c" if "ExistsInCache x c'" "x \<noteq> name" for x
    using that r(3) pool_exists [OF p] pool_exists [OF r(2)] by blast
  have "pool_ok Cachesize (base_file st) c'"
    by (rule pool_ok_prefix [OF r(2)]) (use assms(3,4) in \<open>auto simp: base_file_def\<close>)
  moreover have "disk st (False, x) \<noteq> None" if "ExistsInCache x c'" for x
    using old [OF that] assms(1,3) by (cases "x = name") (auto simp: cache_ok_def)
  moreover have "InsertToCache_Offline name data c = Inr c'"
    using r(1) assms(5) by (simp add: InsertToCache_Offline_def buf_read_def bslice_full)
  ultimately show thesis by (intro that) (auto simp: cache_ok_def)
qed

section \<open>Choosing the base of a chunk\<close>

text \<open>The base of an entry has been loaded: its container is at hand.\<close>

definition base_loaded :: "restore_env \<Rightarrow> InMemoryDatabase \<Rightarrow> store \<Rightarrow> InQueryEntry_t \<Rightarrow> OutQueryEntry_t \<Rightarrow> bool" where
  "base_loaded env db store e q \<longleftrightarrow> oq_deltaFlag q = DELTA \<and> oq_offlineFlag q = 0 \<and>
     basechunkHash (iq_chunkAddr e) = base_hash q \<and>
     (\<exists>b f. index_base env db (base_hash q) b \<and> oq_basechunkAddr q = recipe_bytes b \<and> iq_basechunkAddr e = b \<and>
        recipe_wf b \<and> disk store (False, containerName b) = Some f \<and> take (length f) (containerbuffer q) = f)"

text \<open>The fields of an entry outside that the choice of a base leaves alone.\<close>

definition same_query :: "OutQueryEntry_t \<Rightarrow> OutQueryEntry_t \<Rightarrow> bool" where
  "same_query q q' \<longleftrightarrow> oq_dedupFlag q' = oq_dedupFlag q \<and> oq_chunkHash q' = oq_chunkHash q \<and>
     oq_chunkAddr q' = oq_chunkAddr q \<and> oq_superfeature q' = oq_superfeature q"

lemma base_hash_length: "out_wf q \<Longrightarrow> length (base_hash q) = CHUNK_HASH_SIZE"
  unfolding base_hash_def by (intro bslice_length) (simp add: out_wf_def sizeof_RecipeEntry_def CHUNK_HASH_SIZE_def)

lemma container_write:
  assumes "length buf = MAX_CONTAINER_SIZE" "length f \<le> MAX_CONTAINER_SIZE"
  obtains buf' where "buf_write buf 0 f = Inr buf'" "length buf' = MAX_CONTAINER_SIZE" "take (length f) buf' = f"
  using assms by (auto simp: buf_write_def)

lemma OfflinedeltaTure_ok:
  fixes st :: server and store :: store
  assumes i: "i < length (inQueryBase st)" and k: "k < length (outQueryBase st)" "out_currNum st = k"
    and e: "e = inQueryBase st ! i" "length (iq_chunkHash e) = CHUNK_HASH_SIZE" "in_wf e"
    and q: "q = outQueryBase st ! k" "oq_dedupFlag q = UNIQUE" "ready env db e q" "out_wf q"
    and store: "store = up_store (srv_up st)" "cache_ok store (inContainercache st)"
      "\<And>name f. disk store (False, name) = Some f \<Longrightarrow> length f \<le> MAX_CONTAINER_SIZE"
    and buf: "length (tmpOcallcontainer st) = MAX_CONTAINER_SIZE"
  obtains m' h q' c buf' where
    "OfflinedeltaTure flag i k (m, st) = Inr (m', st\<lparr>
       inQueryBase := (inQueryBase st)[i := e\<lparr>iq_chunkAddr := (iq_chunkAddr e)\<lparr>basechunkHash := h\<rparr>\<rparr>],
       outQueryBase := (outQueryBase st)[k := q'], inContainercache := c, tmpOcallcontainer := buf'\<rparr>)"
    "m' = m \<or> m' = m @ [(base_hash q, oq_chunkHash q)]" "length h = CHUNK_HASH_SIZE" "same_query q q'"
    "cache_ok store c" "length buf' = MAX_CONTAINER_SIZE"
    "oq_deltaFlag q' = NO_DELTA \<or> base_loaded env db store (e\<lparr>iq_chunkAddr := (iq_chunkAddr e)\<lparr>basechunkHash := h\<rparr>\<rparr>) q'"
proof -
  let ?h0 = "basechunkHash (iq_chunkAddr e)" and ?c = "inContainercache st" and ?b = "tmpOcallcontainer st"
  let ?name = "containerName (bytes_recipe (oq_basechunkAddr q))"
  have same: "(inQueryBase st)[i := e\<lparr>iq_chunkAddr := (iq_chunkAddr e)\<lparr>basechunkHash := ?h0\<rparr>\<rparr>] = inQueryBase st"
    using e(1) by simp
  have h0: "length ?h0 = CHUNK_HASH_SIZE" using e(3) by (simp add: in_wf_def recipe_wf_def)
  have pre: "buf_read (iq_chunkHash e) 0 3 = Inr (bslice (iq_chunkHash e) 0 3)"
    using e(2) by (simp add: buf_read_def CHUNK_HASH_SIZE_def)
  note en = entry_at_Inr [OF i] entry_at_Inr [OF k(1)]
  have fl: "oq_deltaFlag q = NO_DELTA \<or> oq_deltaFlag q = OUT_DELTA" "oq_offlineFlag q = 0"
    using q(2,3) by (auto simp: ready_def)
  show thesis
  proof (cases "bslice (iq_chunkHash e) 0 3 = [161, 77, 140]")
    case True
    have "OfflinedeltaTure flag i k (m, st) = Inr (m, st\<lparr>outQueryBase := (outQueryBase st)[k := q\<lparr>oq_deltaFlag := NO_DELTA\<rparr>]\<rparr>)"
      using True pre e(1) q(1) en by (simp add: OfflinedeltaTure_def put_out_def)
    then show thesis using same h0 store(2) buf
      by (intro that [where m' = m and h = ?h0 and q' = "q\<lparr>oq_deltaFlag := NO_DELTA\<rparr>" and c = ?c and buf' = ?b]) (simp_all add: same_query_def)
  next
    case np: False
    show thesis
    proof (cases "oq_deltaFlag q = OUT_DELTA")
      case False
      then have "OfflinedeltaTure flag i k (m, st) = Inr (m, st)"
        using np pre e(1) q(1) en fl(1) by (auto simp: OfflinedeltaTure_def Let_def)
      then show thesis using same h0 store(2) buf False fl(1) q(1)
        by (intro that [where m' = m and h = ?h0 and q' = q and c = ?c and buf' = ?b]) (simp_all add: same_query_def)
    next
      case out: True
      obtain b where b: "index_base env db (base_hash q) b" "oq_basechunkAddr q = recipe_bytes b" "iq_basechunkAddr e = b"
        using q(2,3) out by (auto simp: ready_def)
      have bw: "recipe_wf b" using b(1) by (auto simp: index_base_def enc_addr_def)
      have name: "?name = containerName b" using b(2) bw by simp
      note hl = base_hash_length [OF q(4)]
      show thesis
      proof (cases flag)
        case True
        have "OfflinedeltaTure flag i k (m, st) = Inr (m @ [(base_hash q, oq_chunkHash q)],
            st\<lparr>outQueryBase := (outQueryBase st)[k := q\<lparr>oq_deltaFlag := NO_DELTA, oq_offlineFlag := 1\<rparr>]\<rparr>)"
          using np True out pre e(1) q(1) en by (simp add: OfflinedeltaTure_def put_out_def)
        then show thesis using same h0 store(2) buf
          by (intro that [where m' = "m @ [(base_hash q, oq_chunkHash q)]" and h = ?h0 and q' = "q\<lparr>oq_deltaFlag := NO_DELTA, oq_offlineFlag := 1\<rparr>" and c = ?c and buf' = ?b])
            (simp_all add: same_query_def)
      next
        case nl: False
        show thesis
        proof (cases "ExistsInCache ?name ?c")
          case True
          obtain cb c' f where r: "ReadFromCache ?name ?c = Inr (cb, c')" "disk store (False, ?name) = Some f"
            "take (length f) cb = f" "cache_ok store c'" by (rule cache_read [OF store(2) True])
          let ?q = "q\<lparr>containerbuffer := cb, oq_deltaFlag := DELTA\<rparr>"
          have "OfflinedeltaTure flag i k (m, st) = Inr (m, st\<lparr>
              inQueryBase := (inQueryBase st)[i := e\<lparr>iq_chunkAddr := (iq_chunkAddr e)\<lparr>basechunkHash := base_hash q\<rparr>\<rparr>],
              outQueryBase := (outQueryBase st)[k := ?q], inContainercache := c'\<rparr>)"
            using np nl out True r(1) pre e(1) q(1) en by (simp add: OfflinedeltaTure_def put_in_def put_out_def Let_def)
          moreover have "base_loaded env db store (e\<lparr>iq_chunkAddr := (iq_chunkAddr e)\<lparr>basechunkHash := base_hash q\<rparr>\<rparr>) ?q"
            using b r bw fl name by (simp add: base_loaded_def base_hash_def)
          ultimately show thesis using hl r(4) buf
            by (intro that [where m' = m and h = "base_hash q" and q' = ?q and c = c' and buf' = ?b]) (simp_all add: same_query_def)
        next
          case nc: False
          show thesis
          proof (cases "disk store (False, ?name)")
            case None
            let ?q = "q\<lparr>oq_deltaFlag := NO_DELTA\<rparr>"
            have "Ocall_getRefContainer st = Inr (put_out k ?q st)"
              using None out k q(1) store(1) by (simp add: Ocall_getRefContainer_def)
            then have "OfflinedeltaTure flag i k (m, st) = Inr (m, st\<lparr>outQueryBase := (outQueryBase st)[k := ?q]\<rparr>)"
              using np nl out nc pre e(1) q(1) en k(1) by (simp add: OfflinedeltaTure_def put_out_def Let_def)
            then show thesis using same h0 store(2) buf
              by (intro that [where m' = m and h = ?h0 and q' = ?q and c = ?c and buf' = ?b]) (simp_all add: same_query_def)
          next
            case (Some f)
            obtain buf' where w: "buf_write ?b 0 f = Inr buf'" "length buf' = MAX_CONTAINER_SIZE" "take (length f) buf' = f"
              by (rule container_write [OF buf store(3) [OF Some]])
            let ?q = "q\<lparr>containerbuffer := buf', oq_deltaFlag := DELTA\<rparr>"
            obtain c' where c': "InsertToCache_Offline ?name buf' ?c = Inr c'" "cache_ok store c'"
              by (rule cache_insert [OF store(2) nc Some w(3,2)])
            have "Ocall_getRefContainer st = Inr (put_out k ?q (st\<lparr>tmpOcallcontainer := buf'\<rparr>))"
              using Some out k q(1) store(1) w(1) by (simp add: Ocall_getRefContainer_def)
            then have "OfflinedeltaTure flag i k (m, st) = Inr (m, st\<lparr>
                inQueryBase := (inQueryBase st)[i := e\<lparr>iq_chunkAddr := (iq_chunkAddr e)\<lparr>basechunkHash := base_hash q\<rparr>\<rparr>],
                outQueryBase := (outQueryBase st)[k := ?q], inContainercache := c', tmpOcallcontainer := buf'\<rparr>)"
              using np nl out nc pre e(1) q(1) en k(1) c'(1)
              by (simp add: OfflinedeltaTure_def put_in_def put_out_def Let_def)
            moreover have "base_loaded env db store (e\<lparr>iq_chunkAddr := (iq_chunkAddr e)\<lparr>basechunkHash := base_hash q\<rparr>\<rparr>) ?q"
              using b w Some bw fl name by (simp add: base_loaded_def base_hash_def)
            ultimately show thesis using hl c'(2) w(2)
              by (intro that [where m' = m and h = "base_hash q" and q' = ?q and c = c' and buf' = buf']) (simp_all add: same_query_def)
          qed
        qed
      qed
    qed
  qed
qed

section \<open>Stored chunks\<close>

text \<open>
  What is asked of the chunks of all batches: they fit, those that do not compress do not look
  compressed, no two have the same fingerprint, and none is more than twice as long as another.
\<close>

definition chunks_ok :: "restore_env \<Rightarrow> byte list set \<Rightarrow> bool" where
  "chunks_ok env CS \<longleftrightarrow> (\<forall>c \<in> CS. length c \<le> MAX_CHUNK_SIZE \<and> raw_safe env c) \<and> inj_on (fingerprint env) CS \<and>
     (\<forall>c \<in> CS. \<forall>b \<in> CS. length c \<le> 2 * length b)"

text \<open>A delta of a chunk over a base in the index; an address under which a chunk is stored.\<close>

definition delta_of ::
    "restore_env \<Rightarrow> InMemoryDatabase \<Rightarrow> (bool \<times> srec) list \<Rightarrow> byte list set \<Rightarrow> byte list \<Rightarrow> byte list \<Rightarrow> byte list \<Rightarrow> bool" where
  "delta_of env db hs CS key d c \<longleftrightarrow> (\<exists>b base. index_base env db key b \<and> base \<in> CS \<and>
     kept_as env hs False b (stored_form env True base) \<and> ed3_decode d base = Inr c)"

definition good :: "restore_env \<Rightarrow> InMemoryDatabase \<Rightarrow> (bool \<times> srec) list \<Rightarrow> byte list set \<Rightarrow> RecipeEntry_t \<Rightarrow> byte list \<Rightarrow> bool" where
  "good env db hs CS addr c \<longleftrightarrow> c \<in> CS \<and> recipe_wf addr \<and>
     (re_deltaFlag addr = NO_DELTA \<and> kept_as env hs False addr (stored_form env True c) \<or>
      re_deltaFlag addr = DELTA \<and> (\<exists>d. kept_as env hs True addr d \<and> delta_of env db hs CS (basechunkHash addr) d c))"

definition db_ok :: "restore_env \<Rightarrow> InMemoryDatabase \<Rightarrow> (bool \<times> srec) list \<Rightarrow> byte list set \<Rightarrow> bool" where
  "db_ok env db hs CS \<longleftrightarrow> db_shape env db \<and> (\<forall>k v. indexObj db k = Some v \<longrightarrow>
     (\<exists>c r. k = index_key env (fingerprint env c) \<and> enc_addr env r v \<and> good env db hs CS r c))"

definition index_grows :: "InMemoryDatabase \<Rightarrow> InMemoryDatabase \<Rightarrow> bool" where
  "index_grows db db' \<longleftrightarrow> (\<forall>k v. indexObj db k = Some v \<longrightarrow> indexObj db' k = Some v)"

lemma index_base_grows: "index_base env db k r \<Longrightarrow> index_grows db db' \<Longrightarrow> index_base env db' k r"
  unfolding index_base_def index_grows_def by blast

lemma delta_of_grows:
  "delta_of env db hs CS key d c \<Longrightarrow> index_grows db db' \<Longrightarrow> set hs \<subseteq> set hs' \<Longrightarrow> delta_of env db' hs' CS key d c"
  unfolding delta_of_def by (meson index_base_grows kept_as_more)

lemma good_grows: "good env db hs CS addr c \<Longrightarrow> index_grows db db' \<Longrightarrow> set hs \<subseteq> set hs' \<Longrightarrow> good env db' hs' CS addr c"
  unfolding good_def by (meson delta_of_grows kept_as_more)

lemma index_grows_refl [simp]: "index_grows db db"
  by (simp add: index_grows_def)

lemma db_ok_hs: "db_ok env db hs CS \<Longrightarrow> set hs \<subseteq> set hs' \<Longrightarrow> db_ok env db hs' CS"
  unfolding db_ok_def by (meson good_grows index_grows_refl)

lemma enc_addr_inject: "env_ok env \<Longrightarrow> enc_addr env r v \<Longrightarrow> enc_addr env r' v \<Longrightarrow> r = r'"
  using enc_addr_dec(3) by (metis Inr_inject)

text \<open>A base in the index is a stored chunk.\<close>

lemma index_base_stored:
  assumes "env_ok env" "db_ok env db hs CS" "index_base env db k b"
  obtains base where "base \<in> CS" "kept_as env hs False b (stored_form env True base)"
proof -
  obtain v where v: "indexObj db k = Some v" "enc_addr env b v" "re_deltaFlag b = NO_DELTA"
    using assms(3) unfolding index_base_def by blast
  obtain c r where c: "enc_addr env r v" "good env db hs CS r c" using assms(2) v(1) unfolding db_ok_def by blast
  have "r = b" by (rule enc_addr_inject [OF assms(1) c(1) v(2)])
  with c(2) v(3) that show thesis by (auto simp: good_def)
qed

section \<open>Encoding a chunk over its base\<close>

definition ws_ok :: "server \<Rightarrow> bool" where
  "ws_ok st \<longleftrightarrow> length (deltaBuffer st) = 2 * MAX_CHUNK_SIZE \<and> length (BaseLink st) = MAX_CHUNK_SIZE div STRMIN + 50 \<and>
     htable_ok (psHTable2 st) \<and> htable_entries (psHTable2 st) = {}"

lemma ws_room: "ws_ok st \<Longrightarrow> length c \<le> MAX_CHUNK_SIZE \<Longrightarrow> length b \<le> MAX_CHUNK_SIZE \<Longrightarrow>
   encode_room c b (deltaBuffer st) (BaseLink st) (psHTable2 st)"
  by (simp add: encode_room_def ws_ok_def MAX_CHUNK_SIZE_def STRMIN_def)

lemma encode_ok:
  assumes "ws_ok st" "length c \<le> MAX_CHUNK_SIZE" "length base \<le> MAX_CHUNK_SIZE" "length c \<le> 2 * length base"
  obtains delta n bl h where "EDeltaEncode c base (deltaBuffer st) (BaseLink st) (psHTable2 st) = Inr (delta, n, bl, h)"
    "ws_ok (st\<lparr>deltaBuffer := delta, BaseLink := bl, psHTable2 := h\<rparr>)" "c \<noteq> [] \<longrightarrow> ed3_decode (take n delta) base = Inr c"
    "length (take n delta) = n"
proof -
  note room = ws_room [OF assms(1-3)]
  have starts: "encode_starts c base" using assms(3,4) by (intro encode_starts_ratio) (simp_all add: MAX_CHUNK_SIZE_def)
  obtain delta n bl h us where d: "EDeltaEncode c base (deltaBuffer st) (BaseLink st) (psHTable2 st) = Inr (delta, n, bl, h)"
    "delta_ok c base delta n us" "length bl = length (BaseLink st)" "htable_ok h" "htable_entries h = {}"
    using EDeltaEncode_delta [OF room starts] by blast
  have "ed3_decode (take n delta) base = Inr c" if "c \<noteq> []"
    by (rule ed3_decode_encoded [OF room starts that d(1)]) (use assms(4) in simp)
  moreover have "ws_ok (st\<lparr>deltaBuffer := delta, BaseLink := bl, psHTable2 := h\<rparr>)"
    using assms(1) d(3-5) EDeltaEncode_len [OF d(1)] by (simp add: ws_ok_def)
  moreover have "length (take n delta) = n" using d(2) by (auto simp: delta_ok_def holds_def)
  ultimately show thesis using that d(1) by blast
qed

lemma ProcessDeltachunk_ok:
  fixes st :: server and store :: store
  assumes env: "env_ok env" "lz4_ok (env_lz4 env)" and CS: "chunks_ok env CS" "c \<in> CS"
    and db: "db_ok env db hs CS" and s: "session store hs"
    and ik: "i < length (inQueryBase st)" "k < length (outQueryBase st)" "e = inQueryBase st ! i" "q = outQueryBase st ! k"
    and b: "base_loaded env db store e q" and w: "ws_ok st"
    and r: "buf_read (recvBuffer st) off (length c) = Inr c" "unat (iq_chunkSize e) = length c"
  obtains d fl delta bl h where
    "ProcessDeltachunk env i k off st = Inr (d, st\<lparr>
       inQueryBase := (inQueryBase st)[i := e\<lparr>iq_chunkAddr := (iq_chunkAddr e)\<lparr>re_deltaFlag := fl\<rparr>\<rparr>],
       outQueryBase := (outQueryBase st)[k := q\<lparr>oq_deltaFlag := fl\<rparr>], deltaBuffer := delta, BaseLink := bl, psHTable2 := h\<rparr>)"
    "ws_ok (st\<lparr>deltaBuffer := delta, BaseLink := bl, psHTable2 := h\<rparr>)"
    "fl = NO_DELTA \<or> fl = DELTA \<and> length d \<le> MAX_CHUNK_SIZE \<and> delta_of env db hs CS (base_hash q) d c"
proof -
  obtain b f where l: "index_base env db (base_hash q) b" "oq_basechunkAddr q = recipe_bytes b" "iq_basechunkAddr e = b"
    "disk store (False, containerName b) = Some f" "take (length f) (containerbuffer q) = f" and fl: "oq_deltaFlag q = DELTA"
    using b unfolding base_loaded_def by blast
  obtain base where base: "base \<in> CS" "kept_as env hs False b (stored_form env True base)"
    by (rule index_base_stored [OF env(1) db l(1)])
  have ok: "raw_safe env base" "length base \<le> MAX_CHUNK_SIZE" "length c \<le> MAX_CHUNK_SIZE" "length c \<le> 2 * length base"
    using CS base(1) by (auto simp: chunks_ok_def)
  have lb: "load_base env e q = Inr base"
    by (rule load_base_ok [OF env s l(4) base(2) ok(1,2) l(5,3,2)])
  obtain delta n bl h where en: "EDeltaEncode c base (deltaBuffer st) (BaseLink st) (psHTable2 st) = Inr (delta, n, bl, h)"
    "ws_ok (st\<lparr>deltaBuffer := delta, BaseLink := bl, psHTable2 := h\<rparr>)" "c \<noteq> [] \<longrightarrow> ed3_decode (take n delta) base = Inr c"
    "length (take n delta) = n" by (rule encode_ok [OF w ok(3,2,4)])
  let ?fl = "if length c \<le> n then NO_DELTA else DELTA"
  have "ProcessDeltachunk env i k off st = Inr (take n delta, st\<lparr>
       inQueryBase := (inQueryBase st)[i := e\<lparr>iq_chunkAddr := (iq_chunkAddr e)\<lparr>re_deltaFlag := ?fl\<rparr>\<rparr>],
       outQueryBase := (outQueryBase st)[k := q\<lparr>oq_deltaFlag := ?fl\<rparr>], deltaBuffer := delta, BaseLink := bl, psHTable2 := h\<rparr>)"
    using ik lb r en(1) fl by (simp add: ProcessDeltachunk_def put_in_def put_out_def Let_def)
  moreover have "?fl = NO_DELTA \<or> ?fl = DELTA \<and> length (take n delta) \<le> MAX_CHUNK_SIZE \<and>
      delta_of env db hs CS (base_hash q) (take n delta) c"
  proof (cases "length c \<le> n")
    case False
    then have "ed3_decode (take n delta) base = Inr c" using en(3) by (cases c) simp_all
    then have "delta_of env db hs CS (base_hash q) (take n delta) c" using l(1) base unfolding delta_of_def by blast
    then show ?thesis using False ok(3) en(4) by simp
  qed simp
  ultimately show thesis
    by (intro that [where d = "take n delta" and fl = ?fl and delta = delta and bl = bl and h = h]) (use en(2) in simp_all)
qed

section \<open>Storing a chunk\<close>

text \<open>The storage side of the server: session, cache, buffers and index.\<close>

definition storing :: "restore_env \<Rightarrow> byte list set \<Rightarrow> (bool \<times> srec) list \<Rightarrow> nat \<Rightarrow> server \<Rightarrow> bool" where
  "storing env CS hs n st \<longleftrightarrow> session (up_store (srv_up st)) hs \<and> con_times (up_store (srv_up st)) \<le> n \<and>
     cache_ok (up_store (srv_up st)) (inContainercache st) \<and> ws_ok st \<and> length (tmpOcallcontainer st) = MAX_CONTAINER_SIZE \<and>
     length (process_buffer st) = 100000 * CHUNK_HASH_SIZE \<and> db_ok env (index_db st) hs CS"

lemma ws_ok_cong [simp]:
  "ws_ok (st\<lparr>inQueryBase := a\<rparr>) = ws_ok st" "ws_ok (st\<lparr>outQueryBase := b\<rparr>) = ws_ok st" "ws_ok (st\<lparr>srv_up := u\<rparr>) = ws_ok st"
  "ws_ok (st\<lparr>process_buffer := p\<rparr>) = ws_ok st" "ws_ok (st\<lparr>inContainercache := x\<rparr>) = ws_ok st"
  "ws_ok (st\<lparr>tmpOcallcontainer := t\<rparr>) = ws_ok st" "ws_ok (st\<lparr>out_currNum := m\<rparr>) = ws_ok st"
  "ws_ok (st\<lparr>inRecipe := y\<rparr>) = ws_ok st" "ws_ok (st\<lparr>recipeFile := z\<rparr>) = ws_ok st" "ws_ok (st\<lparr>index_db := d\<rparr>) = ws_ok st"
  by (simp_all add: ws_ok_def)

lemma storing_cong [simp]:
  "storing env CS hs n (st\<lparr>inQueryBase := a\<rparr>) = storing env CS hs n st"
  "storing env CS hs n (st\<lparr>outQueryBase := b\<rparr>) = storing env CS hs n st"
  "storing env CS hs n (st\<lparr>out_currNum := m\<rparr>) = storing env CS hs n st"
  "storing env CS hs n (st\<lparr>inRecipe := y\<rparr>) = storing env CS hs n st"
  "storing env CS hs n (st\<lparr>recipeFile := z\<rparr>) = storing env CS hs n st"
  by (simp_all add: storing_def)

lemma disk_small:
  assumes "session st hs" "disk st k = Some f"
  shows "length f \<le> MAX_CONTAINER_SIZE"
proof -
  obtain cat where cat: "store_ok st cat" using session_ok [OF assms(1)] by blast
  obtain rs where "cat k = Some rs" "f = content rs" using cat assms(2) unfolding store_ok_def on_disk_def by blast
  moreover have "tidy cat" using cat by (simp add: store_ok_def)
  ultimately show ?thesis unfolding tidy_def by blast
qed

lemma session_head_wf:
  assumes "session st (h # hs)" "Suc (con_times st) < 36 ^ CONTAINER_ID_LENGTH" "kept_as env (h # hs) flag addr d"
  shows "recipe_wf addr"
  using session_wf [OF assms(1,2)] assms(3) unfolding kept_as_def by blast

lemma save_good:
  fixes st :: server
  assumes env: "env_ok env" "lz4_ok (env_lz4 env)" and st: "storing env CS hs n st" "n + 2 < 36 ^ CONTAINER_ID_LENGTH"
    and CS: "chunks_ok env CS" "c \<in> CS"
    and a: "recipe_wf addr" and sf: "length sf = 3 * CHUNK_HASH_SIZE" and key: "length key = CHUNK_HASH_SIZE"
    and d: "re_deltaFlag addr = NO_DELTA \<and> data = c \<or> re_deltaFlag addr = DELTA \<and> length data \<le> MAX_CHUNK_SIZE \<and>
      delta_of env (index_db st) hs CS (basechunkHash addr) data c"
  obtains addr' up' h where "ProcessSheUniqueChunk env addr data sf key (srv_up st) = Inr (addr', up')"
    "storing env CS (h # hs) (Suc n) (st\<lparr>srv_up := up'\<rparr>)" "re_deltaFlag addr' = re_deltaFlag addr"
    "good env (index_db st) (h # hs) CS addr' c" "recipe_wf addr'"
proof -
  have s: "session (up_store (srv_up st)) hs" "con_times (up_store (srv_up st)) \<le> n" using st(1) by (simp_all add: storing_def)
  have t: "con_times (up_store (srv_up st)) < 36 ^ CONTAINER_ID_LENGTH" using s(2) st(2) by linarith
  have c: "length c \<le> MAX_CHUNK_SIZE" using CS by (auto simp: chunks_ok_def)
  have l: "length data \<le> MAX_CHUNK_SIZE" "length (basechunkHash addr) = CHUNK_HASH_SIZE" "length (superfeature addr) = 3 * CHUNK_HASH_SIZE"
    using d c a by (auto simp: recipe_wf_def)
  obtain addr' up' h where p: "ProcessSheUniqueChunk env addr data sf key (srv_up st) = Inr (addr', up')"
    "session (up_store up') (h # hs)" "re_deltaFlag addr' = re_deltaFlag addr" "basechunkHash addr' = basechunkHash addr"
    "kept_as env (h # hs) (re_deltaFlag addr \<noteq> NO_DELTA) addr' (stored_form env (re_deltaFlag addr = NO_DELTA) data)"
    by (rule ProcessSheUniqueChunk_kept [OF env s(1) t l(1) sf key l(2,3)])
  have ct: "con_times (up_store up') \<le> Suc n" using ProcessSheUniqueChunk_names [OF p(1)] s(2) by simp
  have t': "Suc (con_times (up_store up')) < 36 ^ CONTAINER_ID_LENGTH" using ct st(2) by linarith
  have wf: "recipe_wf addr'" by (rule session_head_wf [OF p(2) t' p(5)])
  have sub: "set hs \<subseteq> set (h # hs)" by auto
  have dg: "disk_grows (up_store (srv_up st)) (up_store up')"
    using ProcessSheUniqueChunk_disk [OF p(1)] by (simp add: disk_grows_def)
  have "storing env CS (h # hs) (Suc n) (st\<lparr>srv_up := up'\<rparr>)"
    using st(1) p(2) ct cache_ok_grows [OF _ dg] db_ok_hs [OF _ sub] by (simp add: storing_def)
  moreover have "good env (index_db st) (h # hs) CS addr' c"
  proof (cases "re_deltaFlag addr = NO_DELTA")
    case True
    then show ?thesis using d p(3,5) wf CS(2) by (simp add: good_def)
  next
    case False
    then have dd: "re_deltaFlag addr = DELTA" "delta_of env (index_db st) (h # hs) CS (basechunkHash addr) data c"
      using d delta_of_grows [OF _ index_grows_refl sub] by auto
    then have "kept_as env (h # hs) True addr' data" using p(5) False by (simp add: stored_form_def)
    then show ?thesis using dd p(3,4) wf CS(2) by (auto simp: good_def)
  qed
  ultimately show thesis using that p(1,3) wf by blast
qed

lemma pair_written:
  assumes "off + 2 * CHUNK_HASH_SIZE \<le> length buf" "length a = CHUNK_HASH_SIZE" "length b = CHUNK_HASH_SIZE"
  obtains b1 b2 where "buf_write buf off a = Inr b1" "buf_write b1 (off + CHUNK_HASH_SIZE) b = Inr b2" "length b2 = length buf"
    "length b1 = length buf"
proof -
  obtain b1 where b1: "buf_write buf off a = Inr b1" using assms by (simp add: buf_write_def)
  have l1: "length b1 = length buf" by (rule buf_write_length [OF b1])
  obtain b2 where b2: "buf_write b1 (off + CHUNK_HASH_SIZE) b = Inr b2" using assms l1 by (simp add: buf_write_def)
  show thesis by (rule that [OF b1 b2 _ l1]) (use l1 buf_write_length [OF b2] in simp)
qed

lemma store_unique_ok:
  fixes st :: server
  assumes env: "env_ok env" "lz4_ok (env_lz4 env)" and st: "storing env CS hs n st" "n + 2 < 36 ^ CONTAINER_ID_LENGTH"
    and CS: "chunks_ok env CS" "c \<in> CS"
    and ik: "i < length (inQueryBase st)" "out_entry l < length (outQueryBase st)" "e = inQueryBase st ! i"
      "q = outQueryBase st ! out_entry l"
    and e: "in_wf e" and q: "out_wf q" "length (oq_chunkHash q) = CHUNK_HASH_SIZE"
    and r: "buf_read (recvBuffer st) (currentOffset l) (length c) = Inr c" "unat (iq_chunkSize e) = length c"
    and room: "processBufferOffset l + 2 * CHUNK_HASH_SIZE \<le> length (process_buffer st)"
    and d: "re_deltaFlag (iq_chunkAddr e) = NO_DELTA \<or> re_deltaFlag (iq_chunkAddr e) = DELTA \<and> length data \<le> MAX_CHUNK_SIZE \<and>
      delta_of env (index_db st) hs CS (basechunkHash (iq_chunkAddr e)) data c"
  obtains l' addr up buf h where
    "store_unique env i data (l, st) = Inr (l', st\<lparr>inQueryBase := (inQueryBase st)[i := e\<lparr>iq_chunkAddr := addr\<rparr>],
       outQueryBase := (outQueryBase st)[out_entry l := q\<lparr>oq_deltaFlag := re_deltaFlag (iq_chunkAddr e)\<rparr>],
       srv_up := up, process_buffer := buf\<rparr>)"
    "storing env CS (h # hs) (Suc n) (st\<lparr>srv_up := up, process_buffer := buf\<rparr>)"
    "re_deltaFlag addr = re_deltaFlag (iq_chunkAddr e)" "good env (index_db st) (h # hs) CS addr c" "recipe_wf addr"
    "l' = l \<or> l' = l\<lparr>processBufferOffset := processBufferOffset l + 2 * CHUNK_HASH_SIZE, processNum := Suc (processNum l)\<rparr>"
proof -
  let ?a = "iq_chunkAddr e"
  have wf: "recipe_wf ?a" "length (iq_superfeature e) = 3 * CHUNK_HASH_SIZE" using e by (simp_all add: in_wf_def)
  show thesis
  proof (cases "re_deltaFlag ?a = NO_DELTA")
    case True
    obtain addr up h where p: "ProcessSheUniqueChunk env ?a c (iq_superfeature e) (oq_chunkHash q) (srv_up st) = Inr (addr, up)"
      "storing env CS (h # hs) (Suc n) (st\<lparr>srv_up := up\<rparr>)" "re_deltaFlag addr = re_deltaFlag ?a"
      "good env (index_db st) (h # hs) CS addr c" "recipe_wf addr"
      by (rule save_good [OF env st CS wf q(2)]) (use True in auto)
    have "store_unique env i data (l, st) = Inr (l, st\<lparr>inQueryBase := (inQueryBase st)[i := e\<lparr>iq_chunkAddr := addr\<rparr>],
       outQueryBase := (outQueryBase st)[out_entry l := q\<lparr>oq_deltaFlag := re_deltaFlag ?a\<rparr>],
       srv_up := up, process_buffer := process_buffer st\<rparr>)"
      using True ik r p(1) by (simp add: store_unique_def put_in_def put_out_def Let_def)
    then show thesis using p(2-5)
      by (intro that [where l' = l and addr = addr and up = up and buf = "process_buffer st" and h = h]) simp_all
  next
    case False
    then have dd: "re_deltaFlag ?a = DELTA" "length data \<le> MAX_CHUNK_SIZE" "delta_of env (index_db st) hs CS (basechunkHash ?a) data c"
      using d by auto
    obtain addr up h where p: "ProcessSheUniqueChunk env ?a data (iq_superfeature e) (oq_chunkHash q) (srv_up st) = Inr (addr, up)"
      "storing env CS (h # hs) (Suc n) (st\<lparr>srv_up := up\<rparr>)" "re_deltaFlag addr = re_deltaFlag ?a"
      "good env (index_db st) (h # hs) CS addr c" "recipe_wf addr"
      by (rule save_good [OF env st CS wf q(2)]) (use dd in auto)
    obtain b1 b2 where b: "buf_write (process_buffer st) (processBufferOffset l) (base_hash q) = Inr b1"
      "buf_write b1 (processBufferOffset l + CHUNK_HASH_SIZE) (oq_chunkHash q) = Inr b2" "length b2 = length (process_buffer st)"
      "length b1 = length (process_buffer st)"
      by (rule pair_written [OF room base_hash_length [OF q(1)] q(2)])
    let ?l = "l\<lparr>processBufferOffset := processBufferOffset l + 2 * CHUNK_HASH_SIZE, processNum := Suc (processNum l)\<rparr>"
    have "store_unique env i data (l, st) = Inr (?l, st\<lparr>inQueryBase := (inQueryBase st)[i := e\<lparr>iq_chunkAddr := addr\<rparr>],
       outQueryBase := (outQueryBase st)[out_entry l := q\<lparr>oq_deltaFlag := re_deltaFlag ?a\<rparr>],
       srv_up := up, process_buffer := b2\<rparr>)"
      using dd(1) ik p(1) b(1,2) by (simp add: store_unique_def put_in_def put_out_def Let_def)
    moreover have "storing env CS (h # hs) (Suc n) (st\<lparr>srv_up := up, process_buffer := b2\<rparr>)"
      using p(2) b(3) by (simp add: storing_def)
    ultimately show thesis using p(3-5)
      by (intro that [where l' = ?l and addr = addr and up = up and buf = b2 and h = h]) simp_all
  qed
qed

section \<open>A new chunk, from the choice of its base to its encrypted address\<close>

text \<open>What the loop over the batch leaves alone.\<close>

definition same_rest :: "server \<Rightarrow> server \<Rightarrow> bool" where
  "same_rest st st' \<longleftrightarrow> index_db st' = index_db st \<and> cmSketch st' = cmSketch st \<and> insideDedupIndex st' = insideDedupIndex st \<and>
     topThreshold st' = topThreshold st \<and> localIndex st' = localIndex st \<and>
     recvBuffer st' = recvBuffer st \<and> out_queryNum st' = out_queryNum st \<and> test_buffer st' = test_buffer st"

lemma same_rest_refl [simp]: "same_rest st st"
  by (simp add: same_rest_def)

lemma same_rest_trans: "same_rest a b \<Longrightarrow> same_rest b c \<Longrightarrow> same_rest a c"
  by (simp add: same_rest_def)

definition same_recipe :: "server \<Rightarrow> server \<Rightarrow> bool" where
  "same_recipe st st' \<longleftrightarrow> inRecipe st' = inRecipe st \<and> recipeFile st' = recipeFile st \<and> out_currNum st' = out_currNum st"

text \<open>What the loop does to its own counters for one chunk.\<close>

definition pairs_ok :: "(byte list \<times> byte list) list \<Rightarrow> bool" where
  "pairs_ok m \<longleftrightarrow> (\<forall>(a, b) \<in> set m. length a = CHUNK_HASH_SIZE \<and> length b = CHUNK_HASH_SIZE)"

definition loop_step :: "batch_loop \<Rightarrow> batch_loop \<Rightarrow> bool" where
  "loop_step l l' \<longleftrightarrow> currentOffset l' = currentOffset l \<and> out_entry l' = out_entry l \<and>
     (\<exists>d \<le> 1. processNum l' = processNum l + d \<and> processBufferOffset l' = processBufferOffset l + 2 * CHUNK_HASH_SIZE * d) \<and>
     (\<exists>p. batch_basemap l' = batch_basemap l @ p \<and> length p \<le> 1 \<and> pairs_ok p)"

text \<open>The entries of a chunk after it has been stored.\<close>

definition same_chunk :: "InQueryEntry_t \<Rightarrow> InQueryEntry_t \<Rightarrow> bool" where
  "same_chunk e e' \<longleftrightarrow> in_wf e' \<and> iq_chunkHash e' = iq_chunkHash e \<and> iq_chunkSize e' = iq_chunkSize e \<and>
     iq_dedupFlag e' = iq_dedupFlag e"

definition stored_as ::
    "restore_env \<Rightarrow> InMemoryDatabase \<Rightarrow> (bool \<times> srec) list \<Rightarrow> byte list set \<Rightarrow> byte list \<Rightarrow> OutQueryEntry_t \<Rightarrow> bool" where
  "stored_as env db hs CS c q \<longleftrightarrow> (\<exists>r. enc_addr env r (oq_chunkAddr q) \<and> good env db hs CS r c \<and>
     (oq_deltaFlag q = NO_DELTA \<longrightarrow> re_deltaFlag r = NO_DELTA))"

lemma stored_as_grows: "stored_as env db hs CS c q \<Longrightarrow> index_grows db db' \<Longrightarrow> set hs \<subseteq> set hs' \<Longrightarrow> stored_as env db' hs' CS c q"
  unfolding stored_as_def using good_grows by blast

lemma recipe_wf_flag [simp]: "recipe_wf (r\<lparr>re_deltaFlag := x\<rparr>) = recipe_wf r"
  by (simp add: recipe_wf_def)

lemma recipe_wf_base: "recipe_wf r \<Longrightarrow> length h = CHUNK_HASH_SIZE \<Longrightarrow> recipe_wf (r\<lparr>basechunkHash := h\<rparr>)"
  by (simp add: recipe_wf_def)

lemma AESCBCEnc_recipe:
  assumes "env_ok env" "recipe_wf r"
  obtains v where "AESCBCEnc (env_ssl env) cryptoObj (recipe_bytes r) (indexQueryKey env) = Inr v" "enc_addr env r v"
    "length v = sizeof_RecipeEntry"
proof -
  obtain v where v: "enc_addr env r v" by (rule enc_addr_total [OF assms])
  with enc_addr_dec(1) [OF assms(1) v] show thesis by (intro that [of v]) (simp_all add: enc_addr_def)
qed

lemma ready_cong: "iq_basechunkAddr e' = iq_basechunkAddr e \<Longrightarrow> ready env db e q \<Longrightarrow> ready env db e' q"
  by (simp add: ready_def)

lemma process_unique_steps:
  assumes "i < length (inQueryBase st)" "e0 = inQueryBase st ! i" "k = out_entry l"
    "OfflinedeltaTure flag i k (batch_basemap l,
       put_in i (e0\<lparr>iq_deltaFlag := NO_DELTA, iq_chunkAddr := (iq_chunkAddr e0)\<lparr>re_deltaFlag := NO_DELTA\<rparr>\<rparr>) st) = Inr (m, st2)"
    "k < length (outQueryBase st2)"
    "(if oq_deltaFlag (outQueryBase st2 ! k) = DELTA then ProcessDeltachunk env i k (currentOffset l) st2 else Inr ([], st2)) =
       Inr (data, st3)"
    "store_unique env i data (l\<lparr>batch_basemap := m\<rparr>, st3) = Inr (l', st4)"
    "i < length (inQueryBase st4)" "k < length (outQueryBase st4)"
    "AESCBCEnc (env_ssl env) cryptoObj (recipe_bytes (iq_chunkAddr (inQueryBase st4 ! i))) (indexQueryKey env) = Inr v"
  shows "process_unique env flag i (l, st) = Inr (l', put_out k ((outQueryBase st4 ! k)\<lparr>oq_chunkAddr := v\<rparr>) st4)"
  using assms(1,5,6,7,8,9,10) assms(4) [unfolded assms(2)] unfolding process_unique_def assms(3) Let_def by simp

lemma process_unique_ok:
  fixes st :: server
  assumes env: "env_ok env" "lz4_ok (env_lz4 env)" and st: "storing env CS hs n st" "n + 2 < 36 ^ CONTAINER_ID_LENGTH"
    and CS: "chunks_ok env CS" "c \<in> CS"
    and ik: "i < length (inQueryBase st)" "out_entry l < length (outQueryBase st)" "out_currNum st = out_entry l"
      "e0 = inQueryBase st ! i" "q0 = outQueryBase st ! out_entry l"
    and e0: "in_wf e0" "length (iq_chunkHash e0) = CHUNK_HASH_SIZE" "unat (iq_chunkSize e0) = length c"
    and q0: "out_wf q0" "length (oq_chunkHash q0) = CHUNK_HASH_SIZE" "oq_dedupFlag q0 = UNIQUE" "ready env (index_db st) e0 q0"
    and r: "buf_read (recvBuffer st) (currentOffset l) (length c) = Inr c"
    and room: "processBufferOffset l + 2 * CHUNK_HASH_SIZE \<le> length (process_buffer st)"
  obtains l' st' e q h where "process_unique env flag i (l, st) = Inr (l', st')"
    "inQueryBase st' = (inQueryBase st)[i := e]" "outQueryBase st' = (outQueryBase st)[out_entry l := q]"
    "same_rest st st'" "same_recipe st st'" "loop_step l l'" "storing env CS (h # hs) (Suc n) st'"
    "same_chunk e0 e" "oq_dedupFlag q = UNIQUE" "oq_chunkHash q = oq_chunkHash q0" "out_wf q"
    "stored_as env (index_db st) (h # hs) CS c q"
proof -
  let ?k = "out_entry l" and ?store = "up_store (srv_up st)" and ?db = "index_db st"
  let ?e1 = "e0\<lparr>iq_deltaFlag := NO_DELTA, iq_chunkAddr := (iq_chunkAddr e0)\<lparr>re_deltaFlag := NO_DELTA\<rparr>\<rparr>"
  let ?st1 = "st\<lparr>inQueryBase := (inQueryBase st)[i := ?e1]\<rparr>"
  have s: "session ?store hs" "cache_ok ?store (inContainercache st)" "length (tmpOcallcontainer st) = MAX_CONTAINER_SIZE"
    "db_ok env ?db hs CS" "ws_ok st" using st(1) by (simp_all add: storing_def)
  have ld: "ready env ?db ?e1 q0" by (rule ready_cong [OF _ q0(4)]) simp
  have e1: "in_wf ?e1" using e0(1) by (simp add: in_wf_def)
  obtain m' hh q1 cc buf where od: "OfflinedeltaTure flag i ?k (batch_basemap l, ?st1) = Inr (m', ?st1\<lparr>
       inQueryBase := (inQueryBase ?st1)[i := ?e1\<lparr>iq_chunkAddr := (iq_chunkAddr ?e1)\<lparr>basechunkHash := hh\<rparr>\<rparr>],
       outQueryBase := (outQueryBase ?st1)[?k := q1], inContainercache := cc, tmpOcallcontainer := buf\<rparr>)"
    "m' = batch_basemap l \<or> m' = batch_basemap l @ [(base_hash q0, oq_chunkHash q0)]" "length hh = CHUNK_HASH_SIZE" "same_query q0 q1"
    "cache_ok ?store cc" "length buf = MAX_CONTAINER_SIZE"
    "oq_deltaFlag q1 = NO_DELTA \<or> base_loaded env ?db ?store (?e1\<lparr>iq_chunkAddr := (iq_chunkAddr ?e1)\<lparr>basechunkHash := hh\<rparr>\<rparr>) q1"
    by (rule OfflinedeltaTure_ok [of i ?st1 ?k ?e1 q0 env ?db ?store flag "batch_basemap l"])
      (use ik e1 e0 q0 ld s disk_small [OF s(1)] in \<open>auto simp: in_wf_def\<close>)
  let ?e2 = "?e1\<lparr>iq_chunkAddr := (iq_chunkAddr ?e1)\<lparr>basechunkHash := hh\<rparr>\<rparr>"
  let ?st2 = "st\<lparr>inQueryBase := (inQueryBase st)[i := ?e2], outQueryBase := (outQueryBase st)[?k := q1],
    inContainercache := cc, tmpOcallcontainer := buf\<rparr>"
  have od': "OfflinedeltaTure flag i ?k (batch_basemap l, ?st1) = Inr (m', ?st2)" using od(1) by simp
  have st2: "storing env CS hs n ?st2" using st(1) od(5,6) by (simp add: storing_def)
  have e2: "in_wf ?e2" using e1 od(3) by (simp add: in_wf_def recipe_wf_base)
  have q1: "out_wf q1" "length (oq_chunkHash q1) = CHUNK_HASH_SIZE" "oq_dedupFlag q1 = UNIQUE" "oq_chunkHash q1 = oq_chunkHash q0"
    "base_hash q1 = base_hash q0"
    using q0 od(4) by (simp_all add: same_query_def out_wf_def base_hash_def)
  let ?l = "l\<lparr>batch_basemap := m'\<rparr>"
  obtain data fl delta bl hx where pd:
    "(if oq_deltaFlag q1 = DELTA then ProcessDeltachunk env i ?k (currentOffset l) ?st2 else Inr ([], ?st2)) = Inr (data, ?st2\<lparr>
       inQueryBase := (inQueryBase st)[i := ?e2\<lparr>iq_chunkAddr := (iq_chunkAddr ?e2)\<lparr>re_deltaFlag := fl\<rparr>\<rparr>],
       outQueryBase := (outQueryBase st)[?k := q1\<lparr>oq_deltaFlag := fl\<rparr>], deltaBuffer := delta, BaseLink := bl, psHTable2 := hx\<rparr>)"
    "ws_ok (?st2\<lparr>deltaBuffer := delta, BaseLink := bl, psHTable2 := hx\<rparr>)"
    "fl = NO_DELTA \<or> fl = DELTA \<and> length data \<le> MAX_CHUNK_SIZE \<and> delta_of env ?db hs CS hh data c"
  proof (cases "oq_deltaFlag q1 = NO_DELTA")
    case True
    have a: "?e2\<lparr>iq_chunkAddr := (iq_chunkAddr ?e2)\<lparr>re_deltaFlag := NO_DELTA\<rparr>\<rparr> = ?e2" by simp
    have b: "q1\<lparr>oq_deltaFlag := NO_DELTA\<rparr> = q1" using True by simp
    have c: "?st2\<lparr>inQueryBase := (inQueryBase st)[i := ?e2], outQueryBase := (outQueryBase st)[?k := q1],
        deltaBuffer := deltaBuffer st, BaseLink := BaseLink st, psHTable2 := psHTable2 st\<rparr> = ?st2"
      by (rule server.equality) simp_all
    show thesis
    proof (rule that [where fl = NO_DELTA and data = "[]" and delta = "deltaBuffer st" and bl = "BaseLink st" and hx = "psHTable2 st"])
      show "ws_ok (?st2\<lparr>deltaBuffer := deltaBuffer st, BaseLink := BaseLink st, psHTable2 := psHTable2 st\<rparr>)"
        using s(5) by (simp add: ws_ok_def)
    qed (unfold a b c, use True in simp_all)
  next
    case False
    then have bl: "base_loaded env ?db ?store ?e2 q1" using od(7) by blast
    then have f: "oq_deltaFlag q1 = DELTA" "hh = base_hash q1" by (simp_all add: base_loaded_def)
    have rb: "buf_read (recvBuffer ?st2) (currentOffset l) (length c) = Inr c" using r by simp
    have sz: "unat (iq_chunkSize ?e2) = length c" using e0(3) by simp
    have w2: "ws_ok ?st2" using s(5) by (simp add: ws_ok_def)
    have i2: "i < length (inQueryBase ?st2)" "?k < length (outQueryBase ?st2)" "?e2 = inQueryBase ?st2 ! i" "q1 = outQueryBase ?st2 ! ?k"
      using ik by simp_all
    obtain d fl delta bl hx where "ProcessDeltachunk env i ?k (currentOffset l) ?st2 = Inr (d, ?st2\<lparr>
         inQueryBase := (inQueryBase ?st2)[i := ?e2\<lparr>iq_chunkAddr := (iq_chunkAddr ?e2)\<lparr>re_deltaFlag := fl\<rparr>\<rparr>],
         outQueryBase := (outQueryBase ?st2)[?k := q1\<lparr>oq_deltaFlag := fl\<rparr>], deltaBuffer := delta, BaseLink := bl, psHTable2 := hx\<rparr>)"
      "ws_ok (?st2\<lparr>deltaBuffer := delta, BaseLink := bl, psHTable2 := hx\<rparr>)"
      "fl = NO_DELTA \<or> fl = DELTA \<and> length d \<le> MAX_CHUNK_SIZE \<and> delta_of env ?db hs CS (base_hash q1) d c"
      by (rule ProcessDeltachunk_ok [OF env CS s(4,1) i2 bl w2 rb sz])
    then show thesis using f by (intro that [where fl = fl and data = d and delta = delta and bl = bl and hx = hx]) simp_all
  qed
  let ?e3 = "?e2\<lparr>iq_chunkAddr := (iq_chunkAddr ?e2)\<lparr>re_deltaFlag := fl\<rparr>\<rparr>" and ?q3 = "q1\<lparr>oq_deltaFlag := fl\<rparr>"
  let ?st3 = "?st2\<lparr>inQueryBase := (inQueryBase st)[i := ?e3], outQueryBase := (outQueryBase st)[?k := ?q3],
    deltaBuffer := delta, BaseLink := bl, psHTable2 := hx\<rparr>"
  have st3: "storing env CS hs n ?st3" using st2 pd(2) by (simp add: storing_def ws_ok_def)
  have e3: "in_wf ?e3" using e2 by (simp add: in_wf_def recipe_wf_def)
  have q3: "out_wf ?q3" "length (oq_chunkHash ?q3) = CHUNK_HASH_SIZE" using q1 by (simp_all add: out_wf_def)
  have i3: "i < length (inQueryBase ?st3)" "out_entry ?l < length (outQueryBase ?st3)" "?e3 = inQueryBase ?st3 ! i"
    "?q3 = outQueryBase ?st3 ! out_entry ?l" using ik by simp_all
  obtain l' addr up pb h where su:
    "store_unique env i data (?l, ?st3) = Inr (l', ?st3\<lparr>inQueryBase := (inQueryBase ?st3)[i := ?e3\<lparr>iq_chunkAddr := addr\<rparr>],
       outQueryBase := (outQueryBase ?st3)[out_entry ?l := ?q3\<lparr>oq_deltaFlag := re_deltaFlag (iq_chunkAddr ?e3)\<rparr>],
       srv_up := up, process_buffer := pb\<rparr>)"
    "storing env CS (h # hs) (Suc n) (?st3\<lparr>srv_up := up, process_buffer := pb\<rparr>)"
    "re_deltaFlag addr = re_deltaFlag (iq_chunkAddr ?e3)" "good env (index_db ?st3) (h # hs) CS addr c" "recipe_wf addr"
    "l' = ?l \<or> l' = ?l\<lparr>processBufferOffset := processBufferOffset ?l + 2 * CHUNK_HASH_SIZE, processNum := Suc (processNum ?l)\<rparr>"
    by (rule store_unique_ok [OF env st3 st(2) CS i3 e3 q3, of data]) (use r e0(3) room pd(3) in simp_all)
  let ?e4 = "?e3\<lparr>iq_chunkAddr := addr\<rparr>" and ?q4 = "q1\<lparr>oq_deltaFlag := fl\<rparr>"
  obtain v where v: "AESCBCEnc (env_ssl env) cryptoObj (recipe_bytes addr) (indexQueryKey env) = Inr v" "enc_addr env addr v"
    "length v = sizeof_RecipeEntry" by (rule AESCBCEnc_recipe [OF env(1) su(5)])
  let ?q5 = "?q4\<lparr>oq_chunkAddr := v\<rparr>"
  let ?st5 = "?st3\<lparr>inQueryBase := (inQueryBase st)[i := ?e4], outQueryBase := (outQueryBase st)[?k := ?q5], srv_up := up, process_buffer := pb\<rparr>"
  have le: "out_entry l' = ?k" using su(6) by auto
  have su': "store_unique env i data (?l, ?st3) = Inr (l', ?st3\<lparr>inQueryBase := (inQueryBase st)[i := ?e4],
       outQueryBase := (outQueryBase st)[?k := ?q4], srv_up := up, process_buffer := pb\<rparr>)" using su(1) by simp
  have run: "process_unique env flag i (l, st) = Inr (l', ?st5)"
  proof -
    let ?st4 = "?st3\<lparr>inQueryBase := (inQueryBase st)[i := ?e4], outQueryBase := (outQueryBase st)[?k := ?q4], srv_up := up, process_buffer := pb\<rparr>"
    have o1: "OfflinedeltaTure flag i ?k (batch_basemap l, put_in i ?e1 st) = Inr (m', ?st2)" using od' by (simp only: put_in_def)
    have k2: "?k < length (outQueryBase ?st2)" "outQueryBase ?st2 ! ?k = q1" using ik(2) by simp_all
    have p2: "(if oq_deltaFlag (outQueryBase ?st2 ! ?k) = DELTA then ProcessDeltachunk env i ?k (currentOffset l) ?st2 else Inr ([], ?st2)) =
        Inr (data, ?st3)" using pd(1) by (simp only: k2(2))
    have i4: "i < length (inQueryBase ?st4)" "?k < length (outQueryBase ?st4)" "inQueryBase ?st4 ! i = ?e4" "outQueryBase ?st4 ! ?k = ?q4"
      using ik(1,2) by simp_all
    have v4: "AESCBCEnc (env_ssl env) cryptoObj (recipe_bytes (iq_chunkAddr (inQueryBase ?st4 ! i))) (indexQueryKey env) = Inr v"
      unfolding i4(3) using v(1) by simp
    have "process_unique env flag i (l, st) = Inr (l', put_out ?k ((outQueryBase ?st4 ! ?k)\<lparr>oq_chunkAddr := v\<rparr>) ?st4)"
      by (rule process_unique_steps [OF ik(1,4) refl o1 k2(1) p2 su' i4(1,2) v4])
    moreover have "put_out ?k ((outQueryBase ?st4 ! ?k)\<lparr>oq_chunkAddr := v\<rparr>) ?st4 = ?st5"
      unfolding i4(4) put_out_def by (rule server.equality) simp_all
    ultimately show ?thesis by (simp only:)
  qed
  have fin: "storing env CS (h # hs) (Suc n) ?st5" using su(2) by (simp add: storing_def ws_ok_def)
  have lp: "loop_step l l'"
    using su(6) od(2) base_hash_length [OF q0(1)] q0(2)
    by (auto simp: loop_step_def pairs_ok_def intro: exI [of _ "0 :: nat"] exI [of _ "1 :: nat"])
  show thesis
    by (rule that [where l' = l' and st' = ?st5 and e = ?e4 and q = ?q5 and h = h])
      (use run fin lp su(3,4,5) v q1 e3 in \<open>simp_all add: same_rest_def same_recipe_def same_chunk_def in_wf_def out_wf_def stored_as_def, blast?\<close>)
qed

end
