(* ===== verification/Batch_Loop.thy ===== *)
theory Batch_Loop imports Batch_Store begin

text \<open>
  The loop of \<open>ProcessOneBatch\<close> over the chunks of a batch, with the turns of the writer thread
  between two chunks: every round succeeds, stores what is new, and extends the recipe.  The
  state in the middle of the loop is \<open>midway\<close>.
\<close>

section \<open>The recipe under construction\<close>

text \<open>The fingerprints so far: whatever follows, the file will be the recipe of all of them.\<close>

definition recipe_so_far :: "restore_env \<Rightarrow> byte list list \<Rightarrow> Recipe_t \<Rightarrow> byte list \<Rightarrow> bool" where
  "recipe_so_far env fps r written \<longleftrightarrow> (\<forall>rest. (\<forall>fp \<in> set rest. length fp = CHUNK_HASH_SIZE) \<longrightarrow>
     (\<exists>r' out. write_recipe env rest r written = Inr (r', out) \<and> recipe_file env (fps @ rest) = Inr out))"

lemma recipe_so_far_start:
  assumes "env_ok env" "length (entryFpList r) = sendRecipeBatchSize env * CHUNK_HASH_SIZE" "recipeNum r = 0"
  shows "recipe_so_far env [] r []"
proof -
  have "recipe_holds env r []" "length ([] :: byte list list) < sendRecipeBatchSize env"
    using assms by (simp_all add: recipe_holds_def env_ok_def)
  from write_recipe_ok [OF assms(1) this, of _ "[]"] show ?thesis by (simp add: recipe_so_far_def)
qed

lemma recipe_so_far_step:
  assumes "recipe_so_far env fps r written" "length fp = CHUNK_HASH_SIZE"
  obtains r' written' where "UpdateFileRecipe env fp r written = Inr (r', written')" "recipe_so_far env (fps @ [fp]) r' written'"
proof -
  have all: "\<exists>r' out. write_recipe env (fp # rest) r written = Inr (r', out) \<and> recipe_file env (fps @ fp # rest) = Inr out"
    if "\<forall>fp \<in> set rest. length fp = CHUNK_HASH_SIZE" for rest
    using assms(1) [unfolded recipe_so_far_def, rule_format, of "fp # rest"] assms(2) that by auto
  obtain r1 w1 where u: "UpdateFileRecipe env fp r written = Inr (r1, w1)"
    using all [of "[]"] by (auto simp: res_bind_eq_Inr)
  show thesis
  proof (rule that [OF u])
    show "recipe_so_far env (fps @ [fp]) r1 w1" unfolding recipe_so_far_def using all u by simp
  qed
qed

lemma recipe_so_far_end:
  assumes "recipe_so_far env fps r written"
  obtains r' out where "tail_recipe env r written = Inr (r', out)" "recipe_file env fps = Inr out"
proof -
  have "\<exists>r' out. write_recipe env [] r written = Inr (r', out) \<and> recipe_file env (fps @ []) = Inr out"
    using assms unfolding recipe_so_far_def by (metis empty_iff list.set(1))
  then show thesis using that by auto
qed

section \<open>One round of the loop\<close>

definition dispatch :: "restore_env \<Rightarrow> bool \<Rightarrow> nat \<Rightarrow> InQueryEntry_t \<Rightarrow> batch_loop \<times> server \<Rightarrow> (batch_loop \<times> server) res" where
  "dispatch env flag i e = (\<lambda>(l, st).
     if iq_dedupFlag e = DUPLICATE then Inr (l, st)
     else if iq_dedupFlag e = TMP_DUPLICATE \<or> iq_dedupFlag e = TMP_UNIQUE
     then res_bind (entry_at (inQueryBase st) (unat (re_offset (iq_chunkAddr e)))) (\<lambda>_. Inr (l, st))
     else if iq_dedupFlag e = UNIQUE
     then res_bind (entry_at (outQueryBase st) (out_entry l)) (\<lambda>q.
          res_bind
            (if oq_dedupFlag q = DUPLICATE
             then res_bind (AESCBCDec (env_ssl env) cryptoObj (oq_chunkAddr q) (indexQueryKey env)) (\<lambda>addr.
                    Inr (l, put_in i (e\<lparr>iq_chunkAddr := bytes_recipe addr\<rparr>) st))
             else if oq_dedupFlag q = UNIQUE then process_unique env flag i (l, st)
             else Inl ExitError)
            (\<lambda>(l, st). Inr (l\<lparr>out_entry := Suc (out_entry l)\<rparr>, st\<lparr>out_currNum := Suc (out_currNum st)\<rparr>)))
     else Inl ExitError)"

lemma process_chunk_dispatch:
  "process_chunk env turns flag i (l, st) =
     res_bind (writer_turns (turns i) (up_store (srv_up st))) (\<lambda>store.
     let st = st\<lparr>srv_up := (srv_up st)\<lparr>up_store := store\<rparr>\<rparr>; l = l\<lparr>currentOffset := currentOffset l + 4\<rparr> in
     res_bind (entry_at (inQueryBase st) i) (\<lambda>e.
     res_bind (dispatch env flag i e (l, st)) (\<lambda>(l, st).
     res_bind (UpdateFileRecipe env (iq_chunkHash e) (inRecipe st) (recipeFile st)) (\<lambda>(r, written).
       Inr (l\<lparr>currentOffset := currentOffset l + unat (iq_chunkSize e)\<rparr>,
         st\<lparr>inRecipe := r, recipeFile := written\<rparr>)))))"
  by (simp add: process_chunk_def dispatch_def)

definition entry_done ::
    "restore_env \<Rightarrow> InMemoryDatabase \<Rightarrow> (bool \<times> srec) list \<Rightarrow> byte list set \<Rightarrow> byte list \<Rightarrow> OutQueryEntry_t \<Rightarrow> bool" where
  "entry_done env db hs CS c q \<longleftrightarrow>
     oq_dedupFlag q = DUPLICATE \<and> indexObj db (oq_chunkHash q) \<noteq> None \<or>
     oq_dedupFlag q = UNIQUE \<and> indexObj db (oq_chunkHash q) = None \<and> stored_as env db hs CS c q"

lemma entry_done_hs: "entry_done env db hs CS c q \<Longrightarrow> set hs \<subseteq> set hs' \<Longrightarrow> entry_done env db hs' CS c q"
  unfolding entry_done_def using stored_as_grows [of env db hs CS c q db hs'] by auto

text \<open>The entries outside whose chunk the index does not know, among the first \<open>m\<close>.\<close>

definition news :: "OutQueryEntry_t list \<Rightarrow> nat \<Rightarrow> nat" where
  "news outs m = length (filter (\<lambda>j. oq_dedupFlag (outs ! j) = UNIQUE) [0..<m])"

lemma news_simps [simp]:
  "news outs 0 = 0" "news outs (Suc m) = news outs m + (if oq_dedupFlag (outs ! m) = UNIQUE then 1 else 0)"
  by (simp_all add: news_def)

text \<open>
  The loop before chunk \<open>k\<close>, from the state \<open>st0\<close> at its start: \<open>k\<close> chunks have been worked off,
  their entries outside are done, all others are as they were.  There were \<open>b\<close> records before; each
  new chunk has added one.
\<close>

definition midway ::
    "restore_env \<Rightarrow> byte list set \<Rightarrow> byte list list \<Rightarrow> server \<Rightarrow> nat \<Rightarrow> nat \<Rightarrow> (bool \<times> srec) list \<Rightarrow> nat \<Rightarrow> batch_loop \<Rightarrow> server \<Rightarrow> bool" where
  "midway env CS cs st0 n b hs k l st \<longleftrightarrow>
     storing env CS hs (n + k) st \<and> same_rest st0 st \<and> length hs = b + news (outQueryBase st0) (rank (inQueryBase st0) k) \<and>
     out_entry l = rank (inQueryBase st0) k \<and> out_currNum st = rank (inQueryBase st0) k \<and>
     processNum l \<le> k \<and> processBufferOffset l = 2 * CHUNK_HASH_SIZE * processNum l \<and>
     length (batch_basemap l) \<le> k \<and> pairs_ok (batch_basemap l) \<and>
     length (inQueryBase st) = length (inQueryBase st0) \<and> hashed env cs (inQueryBase st) (length cs) \<and>
     (\<forall>i < length cs. iq_dedupFlag (inQueryBase st ! i) = iq_dedupFlag (inQueryBase st0 ! i)) \<and>
     (\<forall>i \<ge> k. inQueryBase st ! i = inQueryBase st0 ! i) \<and>
     length (outQueryBase st) = length (outQueryBase st0) \<and> (\<forall>q \<in> set (outQueryBase st). out_wf q) \<and>
     (\<forall>j \<ge> rank (inQueryBase st0) k. outQueryBase st ! j = outQueryBase st0 ! j) \<and>
     (\<forall>j < rank (inQueryBase st0) k. oq_chunkHash (outQueryBase st ! j) = oq_chunkHash (outQueryBase st0 ! j) \<and>
        entry_done env (index_db st0) hs CS (cs ! (asked (inQueryBase st0) (length cs) ! j)) (outQueryBase st ! j))"

lemma midway_writer:
  assumes "midway env CS cs st0 n b hs k l st"
  obtains store where "writer_turns t (up_store (srv_up st)) = Inr store"
    "midway env CS cs st0 n b hs k (l\<lparr>currentOffset := x\<rparr>) (st\<lparr>srv_up := (srv_up st)\<lparr>up_store := store\<rparr>\<rparr>)"
proof -
  have s: "storing env CS hs (n + k) st" using assms by (simp add: midway_def)
  then have "session (up_store (srv_up st)) hs" by (simp add: storing_def)
  then obtain store where w: "writer_turns t (up_store (srv_up st)) = Inr store" "session store hs"
    "con_times store = con_times (up_store (srv_up st))" "disk_grows (up_store (srv_up st)) store" by (rule writer_turns_ok)
  have "storing env CS hs (n + k) (st\<lparr>srv_up := (srv_up st)\<lparr>up_store := store\<rparr>\<rparr>)"
    using s w cache_ok_grows [OF _ w(4)] by (simp add: storing_def)
  then show thesis using that w(1) assms by (simp add: midway_def same_rest_def)
qed

text \<open>What holds when the loop begins.\<close>

definition batch_start :: "restore_env \<Rightarrow> byte list set \<Rightarrow> byte list list \<Rightarrow> server \<Rightarrow> bool" where
  "batch_start env CS cs st0 \<longleftrightarrow> env_ok env \<and> lz4_ok (env_lz4 env) \<and> chunks_ok env CS \<and> set cs \<subseteq> CS \<and> length cs \<le> 4000 \<and>
     carries (recvBuffer st0) cs \<and> length (asked (inQueryBase st0) (length cs)) \<le> length (outQueryBase st0) \<and>
     (\<forall>i < length cs. iq_dedupFlag (inQueryBase st0 ! i) = UNIQUE \<or> iq_dedupFlag (inQueryBase st0 ! i) = DUPLICATE \<or>
        (iq_dedupFlag (inQueryBase st0 ! i) = TMP_UNIQUE \<or> iq_dedupFlag (inQueryBase st0 ! i) = TMP_DUPLICATE) \<and>
          unat (re_offset (iq_chunkAddr (inQueryBase st0 ! i))) < length cs) \<and>
     (\<forall>j < length (asked (inQueryBase st0) (length cs)).
        ready env (index_db st0) (inQueryBase st0 ! (asked (inQueryBase st0) (length cs) ! j)) (outQueryBase st0 ! j) \<and>
        oq_chunkHash (outQueryBase st0 ! j) = index_key env (fingerprint env (cs ! (asked (inQueryBase st0) (length cs) ! j))))"

lemma done_after:
  assumes "\<forall>j < m. oq_chunkHash (outs ! j) = oq_chunkHash (outs0 ! j) \<and> entry_done env db hs CS (f j) (outs ! j)"
    "set hs \<subseteq> set hs'" "m < length outs" "oq_chunkHash q = oq_chunkHash (outs0 ! m)" "entry_done env db hs' CS (f m) q"
  shows "\<forall>j < Suc m. oq_chunkHash (outs[m := q] ! j) = oq_chunkHash (outs0 ! j) \<and> entry_done env db hs' CS (f j) (outs[m := q] ! j)"
  using assms entry_done_hs [OF _ assms(2)] by (auto simp: less_Suc_eq nth_list_update)

lemma storing_Suc: "storing env CS hs n st \<Longrightarrow> storing env CS hs (Suc n) st"
  by (simp add: storing_def)

lemma dispatch_skip:
  assumes m: "midway env CS cs st0 n b hs k l st" and k: "iq_dedupFlag (inQueryBase st0 ! k) \<noteq> UNIQUE"
  shows "midway env CS cs st0 n b hs (Suc k) l st"
  using m k storing_Suc [of env CS hs "n + k" st] by (auto simp: midway_def rank_Suc)

lemma midway_step:
  assumes m: "midway env CS cs st0 n b hs k l st" and k: "k < length cs" "iq_dedupFlag (inQueryBase st0 ! k) = UNIQUE"
    and len: "length (asked (inQueryBase st0) (length cs)) \<le> length (outQueryBase st0)"
    and st': "inQueryBase st' = (inQueryBase st)[k := e]" "outQueryBase st' = (outQueryBase st)[rank (inQueryBase st0) k := q]"
      "out_currNum st' = Suc (rank (inQueryBase st0) k)" "same_rest st st'" "storing env CS hs' (n + Suc k) st'"
    and e: "same_chunk (inQueryBase st ! k) e"
    and q: "out_wf q" "oq_chunkHash q = oq_chunkHash (outQueryBase st0 ! rank (inQueryBase st0) k)"
      "entry_done env (index_db st0) hs' CS (cs ! k) q"
    and hs: "set hs \<subseteq> set hs'" "length hs' = length hs + (if oq_dedupFlag (outQueryBase st0 ! rank (inQueryBase st0) k) = UNIQUE then 1 else 0)"
    and l: "loop_step l l'"
  shows "midway env CS cs st0 n b hs' (Suc k) (l'\<lparr>out_entry := Suc (rank (inQueryBase st0) k)\<rparr>) st'"
proof -
  let ?ins = "inQueryBase st0" and ?us = "asked (inQueryBase st0) (length cs)"
  let ?k = "rank ?ins k"
  have h0: "hashed env cs (inQueryBase st) (length cs)" and old: "\<forall>i \<ge> k. inQueryBase st ! i = ?ins ! i"
    and fl: "\<forall>i < length cs. iq_dedupFlag (inQueryBase st ! i) = iq_dedupFlag (?ins ! i)"
    and w0: "\<forall>q \<in> set (outQueryBase st). out_wf q" and lo: "length (outQueryBase st) = length (outQueryBase st0)"
    and old': "\<forall>j \<ge> ?k. outQueryBase st ! j = outQueryBase st0 ! j"
    and prev: "\<forall>j < ?k. oq_chunkHash (outQueryBase st ! j) = oq_chunkHash (outQueryBase st0 ! j) \<and>
        entry_done env (index_db st0) hs CS (cs ! (?us ! j)) (outQueryBase st ! j)"
    using m by (simp_all add: midway_def)
  have u: "?k < length ?us" "?us ! ?k = k" using asked_rank [OF k] by simp_all
  then have kl: "?k < length (outQueryBase st)" using len lo by simp
  have ki: "k < length (inQueryBase st)" using h0 k by (simp add: hashed_def)
  have rk: "rank ?ins (Suc k) = Suc ?k" using k(2) by (simp add: rank_Suc)
  have 1: "hashed env cs ((inQueryBase st)[k := e]) (length cs)"
    by (rule hashed_put [OF h0 ki]) (use e in \<open>simp_all add: same_chunk_def\<close>)
  have 2: "\<forall>i < length cs. iq_dedupFlag ((inQueryBase st)[k := e] ! i) = iq_dedupFlag (?ins ! i)"
    using fl ki e by (auto simp: same_chunk_def nth_list_update)
  have 3: "\<forall>i \<ge> Suc k. (inQueryBase st)[k := e] ! i = ?ins ! i" using old by simp
  have 4: "\<forall>q' \<in> set ((outQueryBase st)[?k := q]). out_wf q'" by (rule out_wf_update [OF w0 q(1)])
  have 5: "\<forall>j \<ge> Suc ?k. (outQueryBase st)[?k := q] ! j = outQueryBase st0 ! j" using old' by simp
  have 6: "\<forall>j < Suc ?k. oq_chunkHash ((outQueryBase st)[?k := q] ! j) = oq_chunkHash (outQueryBase st0 ! j) \<and>
      entry_done env (index_db st0) hs' CS (cs ! (?us ! j)) ((outQueryBase st)[?k := q] ! j)"
    by (rule done_after [OF prev hs(1) kl q(2)]) (simp add: u(2) q(3))
  have 7: "processNum l' \<le> Suc k" "processBufferOffset l' = 2 * CHUNK_HASH_SIZE * processNum l'"
    "length (batch_basemap l') \<le> Suc k" "pairs_ok (batch_basemap l')"
    using m l by (auto simp: midway_def loop_step_def pairs_ok_def algebra_simps)
  have 8: "same_rest st0 st'" using m st'(4) same_rest_trans by (simp add: midway_def) blast
  have 9: "length (inQueryBase st) = length ?ins" "length hs' = b + news (outQueryBase st0) (Suc ?k)"
    using m hs(2) by (simp_all add: midway_def)
  show ?thesis unfolding midway_def st'(1,2) rk using 1 2 3 4 5 6 7 8 9 st'(3,5) lo by simp
qed

lemma loop_step_refl [simp]: "loop_step l l"
  by (auto simp: loop_step_def pairs_ok_def intro!: exI [of _ "0 :: nat"])

lemma dispatch_ok:
  assumes b: "batch_start env CS cs st0" and m: "midway env CS cs st0 n b hs k l st" and k: "k < length cs"
    and n: "n + length cs + 2 < 36 ^ CONTAINER_ID_LENGTH" and off: "currentOffset l = chunk_at cs k + 4"
  obtains l' st' hs' where "dispatch env flag k (inQueryBase st ! k) (l, st) = Inr (l', st')" "set hs \<subseteq> set hs'"
    "midway env CS cs st0 n b hs' (Suc k) l' st'" "currentOffset l' = currentOffset l"
    "inRecipe st' = inRecipe st" "recipeFile st' = recipeFile st"
proof -
  let ?ins = "inQueryBase st0" and ?us = "asked (inQueryBase st0) (length cs)" and ?e = "inQueryBase st ! k" and ?c = "cs ! k"
  have env: "env_ok env" "lz4_ok (env_lz4 env)" and CS: "chunks_ok env CS" "?c \<in> CS"
    using b k by (auto simp: batch_start_def)
  have hd: "hashed env cs (inQueryBase st) (length cs)" and same: "?e = ?ins ! k" using m by (simp_all add: midway_def)
  have kl: "k < length (inQueryBase st)" using hd k by (simp add: hashed_def)
  then have wf: "in_wf ?e" using hd by (simp add: hashed_def)
  have "iq_chunkHash ?e = fingerprint env ?c" "iq_chunkSize ?e = word_of_nat (length ?c)" using hd k by (simp_all add: hashed_def)
  note e = same kl wf this
  have cl: "length ?c \<le> MAX_CHUNK_SIZE" using CS by (auto simp: chunks_ok_def)
  show thesis
  proof (cases "iq_dedupFlag ?e = UNIQUE")
    case False
    have "iq_dedupFlag ?e = DUPLICATE \<or> (iq_dedupFlag ?e = TMP_UNIQUE \<or> iq_dedupFlag ?e = TMP_DUPLICATE) \<and>
        unat (re_offset (iq_chunkAddr ?e)) < length cs" using b k False by (auto simp: batch_start_def e(1))
    moreover have "length cs \<le> length (inQueryBase st)" using m by (simp add: midway_def hashed_def)
    ultimately have "dispatch env flag k ?e (l, st) = Inr (l, st)" using False by (auto simp: dispatch_def)
    then show thesis using that [of l st hs] dispatch_skip [OF m] False e(1) by simp
  next
    case True
    let ?k = "rank ?ins k"
    have len: "length ?us \<le> length (outQueryBase st0)" using b by (simp add: batch_start_def)
    have u: "?k < length ?us" "?us ! ?k = k" using asked_rank [OF k] True e(1) by simp_all
    have lo: "out_entry l = ?k" "out_currNum st = ?k" "outQueryBase st ! ?k = outQueryBase st0 ! ?k" "?k < length (outQueryBase st)"
      using m b u by (auto simp: midway_def batch_start_def)
    let ?q = "outQueryBase st ! ?k"
    have q: "ready env (index_db st0) (?ins ! k) ?q" "oq_chunkHash ?q = index_key env (fingerprint env ?c)"
      using b u lo(3) unfolding batch_start_def by (metis, metis)
    have aw: "\<forall>q \<in> set (outQueryBase st). out_wf q" using m by (simp add: midway_def)
    then have qw: "out_wf ?q" using nth_mem [OF lo(4)] by blast
    have db: "index_db st = index_db st0" and st: "storing env CS hs (n + k) st" and rb: "recvBuffer st = recvBuffer st0"
      using m by (simp_all add: midway_def same_rest_def)
    have nd: "oq_dedupFlag ?q = DUPLICATE \<and> indexObj (index_db st0) (oq_chunkHash ?q) = Some (oq_chunkAddr ?q) \<or> oq_dedupFlag ?q = UNIQUE \<and> indexObj (index_db st0) (oq_chunkHash ?q) = None"
      using q(1) unfolding ready_def by blast
    show thesis
    proof (cases "oq_dedupFlag ?q = DUPLICATE")
      case dup: True
      then have ix: "indexObj (index_db st0) (oq_chunkHash ?q) = Some (oq_chunkAddr ?q)" using nd by auto
      have "db_shape env (index_db st0)" using st db by (simp add: storing_def db_ok_def)
      then obtain r where r: "enc_addr env r (oq_chunkAddr ?q)" using ix unfolding db_shape_def by blast
      have rw: "recipe_wf r" using r by (simp add: enc_addr_def)
      let ?e' = "?e\<lparr>iq_chunkAddr := r\<rparr>"
      let ?l = "l\<lparr>out_entry := Suc ?k\<rparr>" and ?st = "st\<lparr>inQueryBase := (inQueryBase st)[k := ?e'], out_currNum := Suc ?k\<rparr>"
      have run: "dispatch env flag k ?e (l, st) = Inr (?l, ?st)"
        using True dup lo enc_addr_dec(2) [OF env(1) r] rw by (simp add: dispatch_def put_in_def)
      have qs: "outQueryBase st = (outQueryBase st)[?k := outQueryBase st0 ! ?k]"
        using lo(3) by (metis list_update_id)
      have "midway env CS cs st0 n b hs (Suc k) ?l ?st"
        by (rule midway_step [OF m k _ len, where e = ?e' and q = ?q])
          (use True e rw lo(3,4) qw dup ix qs storing_Suc [OF st] in \<open>simp_all add: same_rest_def same_chunk_def in_wf_def entry_done_def\<close>)
      then show thesis using run by (intro that [of ?l ?st hs]) simp_all
    next
      case nodup: False
      then have uq: "oq_dedupFlag ?q = UNIQUE" "indexObj (index_db st0) (oq_chunkHash ?q) = None" using nd by auto
      have n2: "n + k + 2 < 36 ^ CONTAINER_ID_LENGTH" using n k by linarith
      have fl: "length (iq_chunkHash ?e) = CHUNK_HASH_SIZE" "unat (iq_chunkSize ?e) = length ?c"
        using e(4,5) fingerprint_ok(2) [OF env(1)] unat_size [OF cl] by simp_all
      have ql: "length (oq_chunkHash ?q) = CHUNK_HASH_SIZE" unfolding q(2)
        by (rule index_key_ok(2) [OF env(1) fingerprint_ok(2) [OF env(1)]])
      have rd: "buf_read (recvBuffer st) (currentOffset l) (length ?c) = Inr ?c"
        unfolding off rb using carries_read(2) [OF _ k] b by (simp add: batch_start_def)
      have rm: "processBufferOffset l + 2 * CHUNK_HASH_SIZE \<le> length (process_buffer st)"
        using m st k b by (auto simp: midway_def storing_def batch_start_def CHUNK_HASH_SIZE_def)
      have i1: "out_entry l < length (outQueryBase st)" "out_currNum st = out_entry l" "?q = outQueryBase st ! out_entry l"
        using lo by simp_all
      have rq: "ready env (index_db st) ?e ?q" using q(1) by (simp add: db e(1))
      obtain l' st' e' q' h where p: "process_unique env flag k (l, st) = Inr (l', st')"
        "inQueryBase st' = (inQueryBase st)[k := e']" "outQueryBase st' = (outQueryBase st)[out_entry l := q']"
        "same_rest st st'" "same_recipe st st'" "loop_step l l'" "storing env CS (h # hs) (Suc (n + k)) st'"
        "same_chunk ?e e'" "oq_dedupFlag q' = UNIQUE" "oq_chunkHash q' = oq_chunkHash ?q" "out_wf q'"
        "stored_as env (index_db st) (h # hs) CS ?c q'"
        by (rule process_unique_ok [OF env st n2 CS e(2) i1(1,2) refl i1(3) e(3) fl qw ql uq(1) rq rd rm])
      let ?l = "l'\<lparr>out_entry := Suc ?k\<rparr>" and ?st = "st'\<lparr>out_currNum := Suc ?k\<rparr>"
      have le: "out_entry l' = ?k" "out_currNum st' = ?k" using p(5,6) lo by (simp_all add: loop_step_def same_recipe_def)
      have run: "dispatch env flag k ?e (l, st) = Inr (?l, ?st)"
        using True nodup uq(1) lo p(1) le by (simp add: dispatch_def)
      have sub: "set hs \<subseteq> set (h # hs)" by auto
      have "midway env CS cs st0 n b (h # hs) (Suc k) ?l ?st"
        by (rule midway_step [OF m k _ len, where e = e' and q = q'])
          (use True e(1) p lo(1,3) uq db sub in \<open>simp_all add: same_rest_def entry_done_def\<close>)
      then show thesis using run sub p(5,6) by (intro that [of ?l ?st "h # hs"]) (simp_all add: loop_step_def same_recipe_def)
    qed
  qed
qed

section \<open>The loop over the chunks\<close>

lemma process_chunk_ok:
  assumes b: "batch_start env CS cs st0" and m: "midway env CS cs st0 n b hs k l st" and k: "k < length cs"
    and n: "n + length cs + 2 < 36 ^ CONTAINER_ID_LENGTH" and off: "currentOffset l = chunk_at cs k"
    and r: "recipe_so_far env fps (inRecipe st) (recipeFile st)"
  obtains l' st' hs' where "process_chunk env turns flag k (l, st) = Inr (l', st')" "set hs \<subseteq> set hs'"
    "midway env CS cs st0 n b hs' (Suc k) l' st'" "currentOffset l' = chunk_at cs (Suc k)"
    "recipe_so_far env (fps @ [fingerprint env (cs ! k)]) (inRecipe st') (recipeFile st')"
proof -
  have env: "env_ok env" and CS: "chunks_ok env CS" "cs ! k \<in> CS"
    using b k nth_mem by (auto simp: batch_start_def)
  have c: "length (cs ! k) \<le> MAX_CHUNK_SIZE" using CS by (auto simp: chunks_ok_def)
  let ?l1 = "l\<lparr>currentOffset := currentOffset l + 4\<rparr>"
  obtain store where w: "writer_turns (turns k) (up_store (srv_up st)) = Inr store"
    "midway env CS cs st0 n b hs k ?l1 (st\<lparr>srv_up := (srv_up st)\<lparr>up_store := store\<rparr>\<rparr>)" by (rule midway_writer [OF m])
  let ?st1 = "st\<lparr>srv_up := (srv_up st)\<lparr>up_store := store\<rparr>\<rparr>"
  have o1: "currentOffset ?l1 = chunk_at cs k + 4" using off by simp
  obtain l2 st2 hs' where d: "dispatch env flag k (inQueryBase ?st1 ! k) (?l1, ?st1) = Inr (l2, st2)" "set hs \<subseteq> set hs'"
    "midway env CS cs st0 n b hs' (Suc k) l2 st2" "currentOffset l2 = currentOffset ?l1"
    "inRecipe st2 = inRecipe ?st1" "recipeFile st2 = recipeFile ?st1" by (rule dispatch_ok [OF b w(2) k n o1])
  have h: "hashed env cs (inQueryBase st) (length cs)" using m by (simp add: midway_def)
  then have e: "k < length (inQueryBase st)" "iq_chunkHash (inQueryBase st ! k) = fingerprint env (cs ! k)"
    "iq_chunkSize (inQueryBase st ! k) = word_of_nat (length (cs ! k))" using k by (auto simp: hashed_def)
  obtain r' out where u: "UpdateFileRecipe env (fingerprint env (cs ! k)) (inRecipe st) (recipeFile st) = Inr (r', out)"
    "recipe_so_far env (fps @ [fingerprint env (cs ! k)]) r' out"
    by (rule recipe_so_far_step [OF r fingerprint_ok(2) [OF env]])
  let ?l3 = "l2\<lparr>currentOffset := currentOffset l2 + length (cs ! k)\<rparr>" and ?st3 = "st2\<lparr>inRecipe := r', recipeFile := out\<rparr>"
  have run: "process_chunk env turns flag k (l, st) = Inr (?l3, ?st3)"
    using w(1) d(1,5,6) e u(1) unat_size [OF c] by (simp add: process_chunk_dispatch Let_def)
  have "midway env CS cs st0 n b hs' (Suc k) ?l3 ?st3" using d(3) by (simp add: midway_def same_rest_def)
  then show thesis using run d(2,4) off chunk_at_Suc [OF k] u(2) by (intro that [of ?l3 ?st3 hs']) simp_all
qed

definition loop_start :: batch_loop where
  "loop_start = \<lparr>currentOffset = 0, out_entry = 0, processBufferOffset = 0, processNum = 0, batch_basemap = []\<rparr>"

lemma chunk_loop_ok:
  assumes b: "batch_start env CS cs st0" and s: "storing env CS hs n st0" and n: "n + length cs + 2 < 36 ^ CONTAINER_ID_LENGTH"
    and h: "hashed env cs (inQueryBase st0) (length cs)" and w: "\<forall>q \<in> set (outQueryBase st0). out_wf q" and c: "out_currNum st0 = 0"
    and r: "recipe_so_far env fps (inRecipe st0) (recipeFile st0)"
  obtains l st hs' where "for_each (process_chunk env turns flag) [0..<length cs] (loop_start, st0) = Inr (l, st)" "set hs \<subseteq> set hs'"
    "midway env CS cs st0 n (length hs) hs' (length cs) l st"
    "recipe_so_far env (fps @ map (fingerprint env) cs) (inRecipe st) (recipeFile st)"
proof -
  let ?P = "\<lambda>k (l, st). \<exists>hs'. set hs \<subseteq> set hs' \<and> midway env CS cs st0 n (length hs) hs' k l st \<and> currentOffset l = chunk_at cs k \<and>
    recipe_so_far env (fps @ map (fingerprint env) (take k cs)) (inRecipe st) (recipeFile st)"
  have "\<exists>s'. for_each (process_chunk env turns flag) [0..<length cs] (loop_start, st0) = Inr s' \<and> ?P (length cs) s'"
  proof (rule for_each_inv [where P = ?P])
    have "midway env CS cs st0 n (length hs) hs 0 loop_start st0" using s h w c by (simp add: midway_def loop_start_def pairs_ok_def)
    then show "?P 0 (loop_start, st0)" using r by (auto simp: loop_start_def)
  next
    fix k s assume k: "k < length cs" and P: "?P k s"
    obtain l st where s: "s = (l, st)" by (cases s)
    then obtain hs1 where m: "set hs \<subseteq> set hs1" "midway env CS cs st0 n (length hs) hs1 k l st" "currentOffset l = chunk_at cs k"
      "recipe_so_far env (fps @ map (fingerprint env) (take k cs)) (inRecipe st) (recipeFile st)" using P by auto
    obtain l' st' hs' where p: "process_chunk env turns flag k (l, st) = Inr (l', st')" "set hs1 \<subseteq> set hs'"
      "midway env CS cs st0 n (length hs) hs' (Suc k) l' st'" "currentOffset l' = chunk_at cs (Suc k)"
      "recipe_so_far env ((fps @ map (fingerprint env) (take k cs)) @ [fingerprint env (cs ! k)]) (inRecipe st') (recipeFile st')"
      by (rule process_chunk_ok [OF b m(2) k n m(3,4)])
    have "(fps @ map (fingerprint env) (take k cs)) @ [fingerprint env (cs ! k)] = fps @ map (fingerprint env) (take (Suc k) cs)"
      using k by (simp add: take_Suc_conv_app_nth)
    then have "?P (Suc k) (l', st')" using p m(1) by auto
    then show "\<exists>s'. process_chunk env turns flag k s = Inr s' \<and> ?P (Suc k) s'" using p(1) s by blast
  qed
  then obtain s' where s': "for_each (process_chunk env turns flag) [0..<length cs] (loop_start, st0) = Inr s'" "?P (length cs) s'" by blast
  obtain l st where "s' = (l, st)" by (cases s')
  with s' show thesis using that by auto
qed

section \<open>The pairs of fingerprints\<close>

text \<open>The two indexes of pairs are of no concern to the index of addresses.\<close>

lemma db_ok_cong: "indexObj db' = indexObj db \<Longrightarrow> sfObj db' = sfObj db \<Longrightarrow> db_ok env db' hs CS = db_ok env db hs CS"
  by (simp add: db_ok_def db_shape_def index_base_def good_def delta_of_def)

lemma UpdateDeltaIndex_ok:
  "off + n * (2 * CHUNK_HASH_SIZE) \<le> length buf \<Longrightarrow>
     \<exists>db'. Ocall_UpdateDeltaIndex buf off n db = Inr db' \<and> indexObj db' = indexObj db \<and> sfObj db' = sfObj db"
proof (induction n arbitrary: off db)
  case (Suc n)
  have r: "off + CHUNK_HASH_SIZE \<le> length buf" "off + CHUNK_HASH_SIZE + CHUNK_HASH_SIZE \<le> length buf"
    "(off + 2 * CHUNK_HASH_SIZE) + n * (2 * CHUNK_HASH_SIZE) \<le> length buf"
    using Suc.prems by (simp_all add: algebra_simps)
  let ?db = "InsertDeltaIndex (bslice buf off CHUNK_HASH_SIZE) (bslice buf (off + CHUNK_HASH_SIZE) CHUNK_HASH_SIZE) db"
  obtain db' where "Ocall_UpdateDeltaIndex buf (off + 2 * CHUNK_HASH_SIZE) n ?db = Inr db'" "indexObj db' = indexObj ?db"
    "sfObj db' = sfObj ?db" using Suc.IH [OF r(3), of ?db] by blast
  then show ?case using r by (simp add: buf_read_def InsertDeltaIndex_def)
qed simp

lemma LocalInsert_ok:
  "off + n * (2 * CHUNK_HASH_SIZE) \<le> length buf \<Longrightarrow>
     \<exists>db'. Ocall_LocalInsert buf off n db = Inr db' \<and> indexObj db' = indexObj db \<and> sfObj db' = sfObj db"
proof (induction n arbitrary: off db)
  case (Suc n)
  let ?db = "local_insert (bslice buf off CHUNK_HASH_SIZE) (bslice buf (off + CHUNK_HASH_SIZE) CHUNK_HASH_SIZE) db"
  have l: "indexObj ?db = indexObj db" "sfObj ?db = sfObj db"
    by (simp_all add: local_insert_def Let_def split: option.split)
  have r: "off + CHUNK_HASH_SIZE \<le> length buf" "off + CHUNK_HASH_SIZE + CHUNK_HASH_SIZE \<le> length buf"
    "(off + 2 * CHUNK_HASH_SIZE) + n * (2 * CHUNK_HASH_SIZE) \<le> length buf"
    using Suc.prems by (simp_all add: algebra_simps)
  obtain db' where "Ocall_LocalInsert buf (off + 2 * CHUNK_HASH_SIZE) n ?db = Inr db'" "indexObj db' = indexObj ?db"
    "sfObj db' = sfObj ?db" using Suc.IH [OF r(3), of ?db] by blast
  then show ?case using r l by (simp add: buf_read_def)
qed simp

lemma copy_pairs_ok:
  "pairs_ok m \<Longrightarrow> off + length m * (2 * CHUNK_HASH_SIZE) \<le> length buf \<Longrightarrow>
     \<exists>buf'. copy_pairs m off buf = Inr buf' \<and> length buf' = length buf"
proof (induction m off buf rule: copy_pairs.induct)
  case (2 a b m off buf)
  have p: "length a = CHUNK_HASH_SIZE" "length b = CHUNK_HASH_SIZE" "pairs_ok m" using 2(2) by (simp_all add: pairs_ok_def)
  have "off + 2 * CHUNK_HASH_SIZE \<le> length buf" using 2(3) by (simp add: algebra_simps)
  then obtain b1 b2 where b: "buf_write buf off a = Inr b1" "buf_write b1 (off + CHUNK_HASH_SIZE) b = Inr b2"
    "length b2 = length buf" by (rule pair_written [OF _ p(1,2)])
  have "(off + 2 * CHUNK_HASH_SIZE) + length m * (2 * CHUNK_HASH_SIZE) \<le> length b2" using 2(3) b(3) by (simp add: algebra_simps)
  from 2(1) [OF b(1,2) p(3) this] b show ?case by simp
qed simp

lemma update_pairs_ok:
  assumes "pairs_ok (batch_basemap l)" "length (batch_basemap l) \<le> 4000" "processNum l \<le> 4000"
    "length (test_buffer st) = 8000 * CHUNK_HASH_SIZE" "length (process_buffer st) = 100000 * CHUNK_HASH_SIZE"
  obtains db buf where "update_pairs flag l st = Inr (st\<lparr>index_db := db, test_buffer := buf\<rparr>)" "indexObj db = indexObj (index_db st)"
    "sfObj db = sfObj (index_db st)" "length buf = length (test_buffer st)"
proof (cases flag)
  case False
  have "0 + processNum l * (2 * CHUNK_HASH_SIZE) \<le> length (process_buffer st)" using assms(3,5) by (simp add: CHUNK_HASH_SIZE_def)
  from UpdateDeltaIndex_ok [OF this, of "index_db st"] obtain db where
    "Ocall_UpdateDeltaIndex (process_buffer st) 0 (processNum l) (index_db st) = Inr db" "indexObj db = indexObj (index_db st)"
    "sfObj db = sfObj (index_db st)" by blast
  then show thesis using False by (intro that [where db = db and buf = "test_buffer st"]) (simp_all add: update_pairs_def)
next
  case True
  have r: "0 + length (batch_basemap l) * (2 * CHUNK_HASH_SIZE) \<le> length (test_buffer st)" using assms(2,4) by (simp add: CHUNK_HASH_SIZE_def)
  from copy_pairs_ok [OF assms(1) r] obtain buf where b: "copy_pairs (batch_basemap l) 0 (test_buffer st) = Inr buf"
    "length buf = length (test_buffer st)" by blast
  from LocalInsert_ok [of 0 "length (batch_basemap l)" buf "index_db st"] r b(2) obtain db where
    "Ocall_LocalInsert buf 0 (length (batch_basemap l)) (index_db st) = Inr db" "indexObj db = indexObj (index_db st)"
    "sfObj db = sfObj (index_db st)" by auto
  then show thesis using True b by (intro that [where db = db and buf = buf]) (simp_all add: update_pairs_def)
qed

end
