(* ===== verification/Batch_Run.thy ===== *)
theory Batch_Run imports Batch_Loop Database_Props begin

text \<open>
  A whole batch and the server between two batches (\<open>srv_ok\<close>): the top-k index and the index
  outside are brought up to date, the passes of \<open>Batch_Correct\<close> and the loop of \<open>Batch_Loop\<close> are
  put together, and each batch leaves the server ready for the next.
\<close>

section \<open>The top-k index\<close>

lemma heap_usable_entries:
  "heap_usable h \<longleftrightarrow> heap_ok h \<and> (\<forall>fp a n. entries h fp = Some (a, n) \<longrightarrow> recipe_wf a)"
  by (auto simp: heap_usable_def entries_def)

lemma UpdateTopK_usable:
  assumes h: "heap_usable h" "Size h \<le> k" and k: "2 \<le> k" "k < 2 ^ 31" and a: "recipe_wf addr"
  obtains h' where "UpdateTopK k freq addr fp h = Inr h'" "heap_usable h'" "Size h' \<le> k"
    "\<And>x. Contains_heap x h' \<Longrightarrow> x = fp \<or> Contains_heap x h"
proof -
  have ok: "heap_ok h" using h(1) by (simp add: heap_usable_def)
  show thesis
  proof (cases "CheckIfAddToHeap k freq h = Inr True")
    case False
    then have "\<not> Size h < k" by (auto simp: CheckIfAddToHeap_def)
    then have "Size h = k" using h(2) by simp
    then have "heap h \<noteq> []" using heap_nonempty [of h k] k by simp
    then obtain m where "TopEntry h = Inr m" using TopEntry_ok [OF ok] by blast
    then have "CheckIfAddToHeap k freq h = Inr False" using False \<open>Size h = k\<close> by (auto simp: CheckIfAddToHeap_def)
    then have "UpdateTopK k freq addr fp h = Inr h" by (simp add: UpdateTopK_def)
    then show thesis using that h by blast
  next
    case add: True
    show thesis
    proof (cases "index h fp")
      case (Some it)
      obtain h' where h': "Update_freq fp freq h = Inr h'" "heap_ok h'" "entries h' = (entries h)(fp \<mapsto> (address it, freq))"
        "Size h' = Size h" by (rule Update_freq_ok [OF ok Some])
      have "UpdateTopK k freq addr fp h = Inr h'" using add h'(1) Some by (simp add: UpdateTopK_def Contains_heap_def)
      moreover have "heap_usable h'" using h'(2,3) h(1) Some by (auto simp: heap_usable_entries entries_def [of h])
      moreover have "x = fp \<or> Contains_heap x h" if "Contains_heap x h'" for x
        using that h'(3) entries_None [of h' x] entries_None [of h x] by (auto split: if_splits)
      ultimately show thesis using that h'(4) h(2) by simp
    next
      case None
      have nc: "\<not> Contains_heap fp h" using None by (simp add: Contains_heap_def)
      obtain h1 where h1: "(if Size h = k then Pop h else Inr h) = Inr h1" "heap_usable h1" "Size h1 < k"
        "\<And>x. Contains_heap x h1 \<Longrightarrow> Contains_heap x h"
      proof (cases "Size h = k")
        case True
        obtain h1 where p: "Pop h = Inr h1" "heap_ok h1" "entries h1 = (entries h)(heap h ! 0 := None)" "Suc (Size h1) = Size h"
          using Pop_ok [OF ok] True k by auto
        have "Contains_heap x h" if "Contains_heap x h1" for x
          using that p(3) entries_None [of h1 x] entries_None [of h x] by (auto split: if_splits)
        moreover have "heap_usable h1" using p(2,3) h(1) by (auto simp: heap_usable_entries split: if_splits)
        ultimately show thesis using that p(1,4) True by simp
      next
        case False
        then show thesis using that [of h] h by simp
      qed
      have nc1: "\<not> Contains_heap fp h1" using nc h1(4) by blast
      have ok1: "heap_ok h1" and room: "Suc (Size h1) < 2 ^ 31" using h1(2,3) k by (simp_all add: heap_usable_def)
      obtain h' where h': "Add fp \<lparr>address = addr, chunkFreq = freq, idx = 0\<rparr> h1 = Inr h'" "heap_ok h'"
        "entries h' = (entries h1)(fp \<mapsto> (addr, freq))" "Size h' = Suc (Size h1)"
        using Add_ok [OF ok1 nc1 room, of "\<lparr>address = addr, chunkFreq = freq, idx = 0\<rparr>"] by auto
      have "UpdateTopK k freq addr fp h = Inr h'" using add h1(1) h'(1) nc by (simp add: UpdateTopK_def AddChunkToHeap_def)
      moreover have "heap_usable h'" using h'(2,3) h1(2) a by (auto simp: heap_usable_entries)
      moreover have "x = fp \<or> Contains_heap x h" if "Contains_heap x h'" for x
        using that h'(3) h1(4) entries_None [of h' x] entries_None [of h1 x] by (auto split: if_splits)
      ultimately show thesis using that h'(4) h1(3) by simp
    qed
  qed
qed

lemma topk_pass:
  assumes ins: "hashed env cs (inQueryBase st) (length cs)"
    and h: "heap_usable (insideDedupIndex st)" "Size (insideDedupIndex st) \<le> topThreshold st"
    and k: "2 \<le> topThreshold st" "topThreshold st < 2 ^ 31"
    and K: "\<And>x. Contains_heap x (insideDedupIndex st) \<Longrightarrow> x \<in> K" "fingerprint env ` set cs \<subseteq> K"
  obtains h' where "for_each update_topk [0..<length cs] st = Inr (st\<lparr>insideDedupIndex := h'\<rparr>)" "heap_usable h'"
    "Size h' \<le> topThreshold st" "\<forall>x. Contains_heap x h' \<longrightarrow> x \<in> K"
proof -
  let ?P = "\<lambda>i st'. \<exists>h'. st' = st\<lparr>insideDedupIndex := h'\<rparr> \<and> heap_usable h' \<and> Size h' \<le> topThreshold st \<and>
    (\<forall>x. Contains_heap x h' \<longrightarrow> x \<in> K)"
  have "\<exists>s'. for_each update_topk [0..<length cs] st = Inr s' \<and> ?P (length cs) s'"
  proof (rule for_each_inv [where P = ?P])
    show "?P 0 st" using h K by (intro exI [of _ "insideDedupIndex st"]) simp
  next
    fix i s assume i: "i < length cs" and "?P i s"
    then obtain h1 where s: "s = st\<lparr>insideDedupIndex := h1\<rparr>" and h1: "heap_usable h1" "Size h1 \<le> topThreshold st"
      "\<forall>x. Contains_heap x h1 \<longrightarrow> x \<in> K" by blast
    let ?e = "inQueryBase st ! i"
    have e: "i < length (inQueryBase st)" "iq_chunkHash ?e = fingerprint env (cs ! i)" "\<forall>e \<in> set (inQueryBase st). in_wf e"
      using ins i by (simp_all add: hashed_def)
    have aw: "recipe_wf (iq_chunkAddr ?e)" using nth_mem [OF e(1)] e(3) by (auto simp: in_wf_def)
    have fp: "fingerprint env (cs ! i) \<in> K" using i K(2) by auto
    obtain h2 where h2: "UpdateTopK (topThreshold st) (iq_chunkFreq ?e) (iq_chunkAddr ?e) (iq_chunkHash ?e) h1 = Inr h2"
      "heap_usable h2" "Size h2 \<le> topThreshold st" "\<And>x. Contains_heap x h2 \<Longrightarrow> x = iq_chunkHash ?e \<or> Contains_heap x h1"
      by (rule UpdateTopK_usable [OF h1(1,2) k aw]) blast
    show "\<exists>s'. update_topk i s = Inr s' \<and> ?P (Suc i) s'"
    proof (cases "iq_dedupFlag ?e = UNIQUE \<or> iq_dedupFlag ?e = DUPLICATE")
      case True
      have "update_topk i s = Inr (st\<lparr>insideDedupIndex := h2\<rparr>)" using True e(1) h2(1) by (simp add: update_topk_def s)
      moreover have "\<forall>x. Contains_heap x h2 \<longrightarrow> x \<in> K" using h2(4) h1(3) e(2) fp by auto
      ultimately show ?thesis using h2(2,3) by blast
    next
      case False
      then have "update_topk i s = Inr s" using e(1) by (simp add: update_topk_def s)
      then show ?thesis using s h1 by blast
    qed
  qed
  then show thesis using that by blast
qed

lemma min_freq_ok:
  assumes "heap_usable (insideDedupIndex st)" "2 \<le> topThreshold st"
  obtains m where "min_freq st = Inr m"
proof -
  have "\<exists>m. TopEntry (insideDedupIndex st) = Inr m" if "Size (insideDedupIndex st) = topThreshold st"
    using TopEntry_ok [of "insideDedupIndex st"] heap_nonempty [OF that] assms by (auto simp: heap_usable_def)
  then show thesis using that by (cases "Size (insideDedupIndex st) = topThreshold st") (auto simp: min_freq_def)
qed


section \<open>The index after the batch\<close>

definition lists_ok :: "(byte list \<Rightarrow> bool) \<Rightarrow> multi list \<Rightarrow> bool" where
  "lists_ok B ms \<longleftrightarrow> (\<forall>m \<in> set ms. \<forall>f vs. m f = Some vs \<longrightarrow> vs \<noteq> [] \<and> (\<forall>k \<in> set vs. B k))"

lemma insert_feature_shape:
  assumes "lists_ok B ms" "B v" "i < length ms"
  shows "lists_ok B (insert_feature i f v 0 ms)" "length (insert_feature i f v 0 ms) = length ms"
proof -
  have m: "ms ! i \<in> set ms" using assms(3) by simp
  have "lists_ok B (ms[i := multi_push f v (ms ! i)])"
    unfolding lists_ok_def
  proof (intro ballI allI impI)
    fix m g vs assume g: "m \<in> set (ms[i := multi_push f v (ms ! i)])" "m g = Some vs"
    then consider "m \<in> set ms" | "m = multi_push f v (ms ! i)" using set_update_subset_insert [of ms i] by blast
    then show "vs \<noteq> [] \<and> (\<forall>k \<in> set vs. B k)"
    proof cases
      case 1 then show ?thesis using assms(1) g(2) unfolding lists_ok_def by blast
    next
      case 2
      show ?thesis
      proof (cases "g = f")
        case True
        then show ?thesis using 2 g(2) m assms(1,2) unfolding lists_ok_def
          by (cases "(ms ! i) f") (auto simp: multi_push_def)
      next
        case False
        then have "(ms ! i) g = Some vs" using 2 g(2) by (simp add: multi_push_def split: option.splits)
        then show ?thesis using m assms(1) unfolding lists_ok_def by blast
      qed
    qed
  qed
  then show "lists_ok B (insert_feature i f v 0 ms)" "length (insert_feature i f v 0 ms) = length ms"
    by (simp_all add: insert_feature_def Let_def)
qed

lemma InsertSF_shape:
  assumes "length sf = 3 * CHUNK_HASH_SIZE" "length fp = CHUNK_HASH_SIZE" "length (sfObj db) = 3" "lists_ok B (sfObj db)" "B fp"
  obtains ms where "InsertSF sf fp 0 db = Inr (db\<lparr>sfObj := ms\<rparr>)" "length ms = 3" "lists_ok B ms"
proof -
  let ?a = "insert_feature 0 (feature 0 sf) fp 0 (sfObj db)"
  let ?b = "insert_feature 1 (feature 1 sf) fp 0 ?a"
  have a: "lists_ok B ?a" "length ?a = 3" using insert_feature_shape [of B "sfObj db" fp 0] assms(3-5) by simp_all
  have b: "lists_ok B ?b" "length ?b = 3" using insert_feature_shape [of B ?a fp 1] assms(5) a by simp_all
  have "update_ok (sf, fp, 0)" using assms(1,2) by (simp add: update_ok_def)
  from InsertSF_features [OF this] insert_feature_shape [of B ?b fp 2] assms(5) b show thesis using that by simp
qed

lemma db_shape_lists:
  "db_shape env db \<longleftrightarrow> length (sfObj db) = 3 \<and>
     (\<forall>k v. indexObj db k = Some v \<longrightarrow> length k = CHUNK_HASH_SIZE \<and> (\<exists>r. enc_addr env r v)) \<and>
     lists_ok (\<lambda>k. \<exists>r. index_base env db k r) (sfObj db)"
  by (simp add: db_shape_def lists_ok_def)

lemma insert_address:
  assumes db: "db_ok env db hs CS" and new: "indexObj db key = None" "key = index_key env (fingerprint env c)" "length key = CHUNK_HASH_SIZE"
    and r: "enc_addr env r addr" "good env db hs CS r c"
  shows "db_ok env (Insert key addr db) hs CS" "index_grows db (Insert key addr db)" "indexObj (Insert key addr db) = (indexObj db)(key \<mapsto> addr)"
    "sfObj (Insert key addr db) = sfObj db"
proof -
  let ?db = "Insert key addr db"
  show ix: "indexObj ?db = (indexObj db)(key \<mapsto> addr)" and sf: "sfObj ?db = sfObj db" by (simp_all add: Insert_def)
  show g: "index_grows db ?db" using new(1) by (auto simp: index_grows_def ix)
  have d: "length (sfObj db) = 3" "\<forall>k v. indexObj db k = Some v \<longrightarrow> length k = CHUNK_HASH_SIZE \<and> (\<exists>r. enc_addr env r v)"
    "lists_ok (\<lambda>k. \<exists>r. index_base env db k r) (sfObj db)" using db by (simp_all add: db_ok_def db_shape_lists)
  have "lists_ok (\<lambda>k. \<exists>r. index_base env ?db k r) (sfObj db)" using d(3) index_base_grows [OF _ g] unfolding lists_ok_def by blast
  moreover have "length k = CHUNK_HASH_SIZE \<and> (\<exists>r. enc_addr env r v)" if "indexObj ?db k = Some v" for k v
    using that ix d(2) new(3) r(1) by (cases "k = key") auto
  ultimately have "db_shape env ?db" using d(1) by (simp add: db_shape_lists sf)
  moreover have "\<exists>c r. k = index_key env (fingerprint env c) \<and> enc_addr env r v \<and> good env ?db hs CS r c" if "indexObj ?db k = Some v" for k v
  proof (cases "k = key")
    case True
    then have "v = addr" using that ix by simp
    then show ?thesis using True new(2) r good_grows [OF _ g subset_refl] by blast
  next
    case False
    then have "indexObj db k = Some v" using that ix by simp
    then obtain c r where "k = index_key env (fingerprint env c)" "enc_addr env r v" "good env db hs CS r c"
      using db unfolding db_ok_def by blast
    then show ?thesis using good_grows [OF _ g subset_refl] by blast
  qed
  ultimately show "db_ok env ?db hs CS" by (simp add: db_ok_def)
qed

lemma insert_lists:
  assumes db: "db_ok env db hs CS" and sf: "length sf = 3 * CHUNK_HASH_SIZE" "length key = CHUNK_HASH_SIZE" and b: "index_base env db key r"
  obtains ms where "InsertSF sf key 0 db = Inr (db\<lparr>sfObj := ms\<rparr>)" "db_ok env (db\<lparr>sfObj := ms\<rparr>) hs CS"
proof -
  have s: "length (sfObj db) = 3" "lists_ok (\<lambda>k. \<exists>r. index_base env db k r) (sfObj db)" using db by (simp_all add: db_ok_def db_shape_lists)
  obtain ms where ms: "InsertSF sf key 0 db = Inr (db\<lparr>sfObj := ms\<rparr>)" "length ms = 3" "lists_ok (\<lambda>k. \<exists>r. index_base env db k r) ms"
    by (rule InsertSF_shape [OF sf s]) (use b in blast)
  have "index_base env (db\<lparr>sfObj := ms\<rparr>) = index_base env db" "good env (db\<lparr>sfObj := ms\<rparr>) = good env db"
    by (intro ext; simp add: index_base_def good_def delta_of_def)+
  then have "db_ok env (db\<lparr>sfObj := ms\<rparr>) hs CS" using db ms(2,3) by (simp add: db_ok_def db_shape_lists)
  with ms(1) show thesis by (rule that)
qed

lemma entry_done_stored: "entry_done env db0 hs CS c q \<Longrightarrow> oq_dedupFlag q = UNIQUE \<Longrightarrow> stored_as env db0 hs CS c q"
  by (auto simp: entry_done_def)

lemma index_grows_trans: "index_grows a b \<Longrightarrow> index_grows b c \<Longrightarrow> index_grows a c"
  by (simp add: index_grows_def)

lemma update_entry_ok:
  assumes q: "j < length (outQueryBase st)" "out_wf (outQueryBase st ! j)" "oq_dedupFlag (outQueryBase st ! j) = UNIQUE"
    and db: "db_ok env (index_db st) hs CS" "indexObj (index_db st) (oq_chunkHash (outQueryBase st ! j)) = None"
    and key: "oq_chunkHash (outQueryBase st ! j) = index_key env (fingerprint env c)" "length (oq_chunkHash (outQueryBase st ! j)) = CHUNK_HASH_SIZE"
    and s: "stored_as env (index_db st) hs CS c (outQueryBase st ! j)"
  obtains db' v where "update_entry j st = Inr (st\<lparr>index_db := db'\<rparr>)" "db_ok env db' hs CS" "index_grows (index_db st) db'"
    "indexObj db' = (indexObj (index_db st))(oq_chunkHash (outQueryBase st ! j) \<mapsto> v)"
proof -
  let ?q = "outQueryBase st ! j"
  let ?k = "oq_chunkHash ?q" and ?v = "oq_chunkAddr ?q"
  let ?db = "Insert ?k ?v (index_db st)"
  obtain r where r: "enc_addr env r ?v" "good env (index_db st) hs CS r c" "oq_deltaFlag ?q = NO_DELTA \<longrightarrow> re_deltaFlag r = NO_DELTA"
    using s unfolding stored_as_def by blast
  have i: "db_ok env ?db hs CS" "index_grows (index_db st) ?db" "indexObj ?db = (indexObj (index_db st))(?k \<mapsto> ?v)"
    using insert_address [OF db key r(1,2)] by simp_all
  have w: "length ?v = sizeof_RecipeEntry" "length (oq_superfeature ?q) = 3 * CHUNK_HASH_SIZE" using q(2) by (simp_all add: out_wf_def)
  have both: "InsertBothBuffer ?k CHUNK_HASH_SIZE ?v sizeof_RecipeEntry (index_db st) = Inr ?db"
    by (rule InsertBothBuffer_exact) (simp_all add: key(2) w(1))
  show thesis
  proof (cases "oq_deltaFlag ?q = NO_DELTA \<and> oq_offlineFlag ?q = 0")
    case True
    have b: "index_base env ?db ?k r" using r(1,3) True i(3) by (simp add: index_base_def)
    obtain ms where ms: "InsertSF (oq_superfeature ?q) ?k 0 ?db = Inr (?db\<lparr>sfObj := ms\<rparr>)" "db_ok env (?db\<lparr>sfObj := ms\<rparr>) hs CS"
      by (rule insert_lists [OF i(1) w(2) key(2) b])
    have "update_entry j st = Inr (st\<lparr>index_db := ?db\<lparr>sfObj := ms\<rparr>\<rparr>)"
      using both True q(1,3) ms(1) by (simp add: update_entry_def)
    then show thesis using that ms(2) i(2,3) by (simp add: index_grows_def)
  next
    case False
    then have "update_entry j st = Inr (st\<lparr>index_db := ?db\<rparr>)" using both q(1,3) by (auto simp: update_entry_def)
    then show thesis using that i by blast
  qed
qed

lemma update_index:
  assumes n: "out_queryNum st \<le> length (outQueryBase st)" and wf: "\<forall>q \<in> set (outQueryBase st). out_wf q"
    and db: "db_ok env (index_db st) hs CS" and env: "env_ok env"
    and keys: "\<And>j. j < out_queryNum st \<Longrightarrow> oq_chunkHash (outQueryBase st ! j) = index_key env (fingerprint env (f j))"
    and inj: "\<And>i j. i < out_queryNum st \<Longrightarrow> j < out_queryNum st \<Longrightarrow> fingerprint env (f i) = fingerprint env (f j) \<Longrightarrow> i = j"
    and don: "\<And>j. j < out_queryNum st \<Longrightarrow> entry_done env (index_db st) hs CS (f j) (outQueryBase st ! j)"
  obtains db' where "Ocall_UpdateOutIndex st = Inr (st\<lparr>index_db := db'\<rparr>)" "db_ok env db' hs CS" "index_grows (index_db st) db'"
    "\<And>j. j < out_queryNum st \<Longrightarrow> indexObj db' (index_key env (fingerprint env (f j))) \<noteq> None"
    "\<And>k. indexObj db' k \<noteq> None \<Longrightarrow> indexObj (index_db st) k \<noteq> None \<or>
       (\<exists>j < out_queryNum st. k = index_key env (fingerprint env (f j)))"
proof -
  let ?n = "out_queryNum st" and ?db0 = "index_db st" and ?outs = "outQueryBase st"
  let ?key = "\<lambda>j. oq_chunkHash (?outs ! j)"
  let ?P = "\<lambda>j s. \<exists>db. s = st\<lparr>index_db := db\<rparr> \<and> db_ok env db hs CS \<and> index_grows ?db0 db \<and>
    (\<forall>i < j. indexObj db (?key i) \<noteq> None) \<and> (\<forall>i. j \<le> i \<and> i < ?n \<longrightarrow> indexObj db (?key i) = indexObj ?db0 (?key i)) \<and>
    (\<forall>k. indexObj db k \<noteq> None \<longrightarrow> indexObj ?db0 k \<noteq> None \<or> (\<exists>i < j. k = ?key i))"
  have kl: "length (?key j) = CHUNK_HASH_SIZE" if "j < ?n" for j
    using keys [OF that] index_key_ok(2) [OF env fingerprint_ok(2) [OF env]] by simp
  have kd: "?key i = ?key j \<longleftrightarrow> i = j" if "i < ?n" "j < ?n" for i j
    using keys inj that index_key_inject [OF env fingerprint_ok(2) [OF env] fingerprint_ok(2) [OF env]] by metis
  have "\<exists>s'. for_each update_entry [0..<?n] st = Inr s' \<and> ?P ?n s'"
  proof (rule for_each_inv [where P = ?P])
    show "?P 0 st" using db by (intro exI [of _ ?db0]) simp
  next
    fix j s assume j: "j < ?n" and "?P j s"
    then obtain db where s: "s = st\<lparr>index_db := db\<rparr>" and d: "db_ok env db hs CS" "index_grows ?db0 db"
      "\<forall>i < j. indexObj db (?key i) \<noteq> None" "\<forall>i. j \<le> i \<and> i < ?n \<longrightarrow> indexObj db (?key i) = indexObj ?db0 (?key i)"
      "\<forall>k. indexObj db k \<noteq> None \<longrightarrow> indexObj ?db0 k \<noteq> None \<or> (\<exists>i < j. k = ?key i)" by blast
    have jl: "j < length ?outs" using j n by simp
    have here: "indexObj db (?key j) = indexObj ?db0 (?key j)" using d(4) j by blast
    show "\<exists>s'. update_entry j s = Inr s' \<and> ?P (Suc j) s'"
    proof (cases "oq_dedupFlag (?outs ! j) = UNIQUE")
      case False
      then have some: "indexObj db (?key j) \<noteq> None" using don [OF j] here by (auto simp: entry_done_def)
      have "update_entry j s = Inr s" using False jl by (simp add: update_entry_def s)
      moreover have "\<forall>k. indexObj db k \<noteq> None \<longrightarrow> indexObj ?db0 k \<noteq> None \<or> (\<exists>i < Suc j. k = ?key i)"
        using d(5) less_SucI by metis
      then have "?P (Suc j) s" using s d some by (intro exI [of _ db]) (auto simp: less_Suc_eq)
      ultimately show ?thesis by blast
    next
      case True
      then have new: "indexObj ?db0 (?key j) = None" using don [OF j] by (auto simp: entry_done_def)
      have st: "stored_as env db hs CS (f j) (?outs ! j)"
        by (rule stored_as_grows [OF entry_done_stored [OF don [OF j] True] d(2) subset_refl])
      have qw: "out_wf (?outs ! j)" using wf nth_mem [OF jl] by blast
      obtain db' v where u: "update_entry j s = Inr (s\<lparr>index_db := db'\<rparr>)" "db_ok env db' hs CS" "index_grows (index_db s) db'"
        "indexObj db' = (indexObj (index_db s))(?key j \<mapsto> v)"
      proof -
        have 1: "j < length (outQueryBase s)" "out_wf (outQueryBase s ! j)" "oq_dedupFlag (outQueryBase s ! j) = UNIQUE"
          "db_ok env (index_db s) hs CS" "indexObj (index_db s) (oq_chunkHash (outQueryBase s ! j)) = None"
          "oq_chunkHash (outQueryBase s ! j) = index_key env (fingerprint env (f j))"
          "length (oq_chunkHash (outQueryBase s ! j)) = CHUNK_HASH_SIZE" "stored_as env (index_db s) hs CS (f j) (outQueryBase s ! j)"
          using jl qw True d(1) new here keys [OF j] kl [OF j] st by (simp_all add: s)
        have outs: "outQueryBase s = ?outs" by (simp add: s)
        obtain db' v where "update_entry j s = Inr (s\<lparr>index_db := db'\<rparr>)" "db_ok env db' hs CS" "index_grows (index_db s) db'"
          "indexObj db' = (indexObj (index_db s))(oq_chunkHash (outQueryBase s ! j) \<mapsto> v)" by (rule update_entry_ok [OF 1])
        then show thesis using that [of db' v] by (simp only: outs)
      qed
      have "indexObj db' (?key i) \<noteq> None" if "i < Suc j" for i
        using that d(3) u(4) j by (auto simp: less_Suc_eq s)
      moreover have "indexObj db' (?key i) = indexObj ?db0 (?key i)" if "Suc j \<le> i" "i < ?n" for i
        using that d(4) u(4) kd [of i j] j by (simp add: s)
      moreover have "indexObj ?db0 k \<noteq> None \<or> (\<exists>i < Suc j. k = ?key i)" if "indexObj db' k \<noteq> None" for k
      proof (cases "k = ?key j")
        case False
        then have "indexObj db k \<noteq> None" using that u(4) by (simp add: s)
        then show ?thesis using d(5) less_SucI by metis
      qed blast
      ultimately have "?P (Suc j) (s\<lparr>index_db := db'\<rparr>)"
        using u(2,3) index_grows_trans [OF d(2)] by (intro exI [of _ db']) (simp add: s)
      then show ?thesis using u(1) by blast
    qed
  qed
  then obtain db' where "for_each update_entry [0..<?n] st = Inr (st\<lparr>index_db := db'\<rparr>)" "db_ok env db' hs CS" "index_grows ?db0 db'"
    "\<forall>i < ?n. indexObj db' (?key i) \<noteq> None" "\<forall>k. indexObj db' k \<noteq> None \<longrightarrow> indexObj ?db0 k \<noteq> None \<or> (\<exists>i < ?n. k = ?key i)"
    by blast
  then show thesis using that keys by (metis Ocall_UpdateOutIndex_def)
qed

section \<open>A batch up to its chunks\<close>

lemma receive_batch_ok:
  assumes d: "SessionKeyDec (env_ssl env) cryptoObj data (sessionKey env) = Inr (batch_bytes cs)"
    and l: "length (recvBuffer st) = n * sizeof_Chunk" "length cs \<le> n" "\<forall>c \<in> set cs. length c \<le> MAX_CHUNK_SIZE"
  obtains buf where "receive_batch env data st = Inr (st\<lparr>recvBuffer := buf\<rparr>)" "length buf = n * sizeof_Chunk" "carries buf cs"
proof -
  have "length (batch_bytes cs) \<le> length cs * sizeof_Chunk" using chunk_at_bound [OF l(3), of "length cs"] by (simp add: chunk_at_def)
  also have "\<dots> \<le> length (recvBuffer st)" using l(1,2) by simp
  finally have r: "length (batch_bytes cs) \<le> length (recvBuffer st)" .
  then obtain buf where w: "buf_write (recvBuffer st) 0 (batch_bytes cs) = Inr buf"
    "take (length (batch_bytes cs)) buf = batch_bytes cs" by (auto simp: buf_write_def)
  then have "receive_batch env data st = Inr (st\<lparr>recvBuffer := buf\<rparr>)" using d by (simp add: receive_batch_def)
  then show thesis using that buf_write_length [OF w(1)] l(1) w(2) by (simp add: carries_def)
qed

text \<open>The queries of a batch; if there are none, the number of the last batch stays.\<close>

lemma queries_ok:
  assumes env: "env_ok env" and db: "db_shape env (index_db st)" and m: "m \<le> length (outQueryBase st)"
    and wf: "\<forall>q \<in> set (outQueryBase st). out_wf q" and old: "out_queryNum st \<le> length (outQueryBase st)"
    and hash: "\<forall>j < m. length (oq_chunkHash (outQueryBase st ! j)) = CHUNK_HASH_SIZE"
  obtains n outs where "(if m \<noteq> 0 then Ocall_QueryOutIndex (st\<lparr>out_queryNum := m\<rparr>) else Inr st) = Inr (st\<lparr>out_queryNum := n, outQueryBase := outs\<rparr>)"
    "m \<noteq> 0 \<longrightarrow> n = m" "n \<le> length outs" "length outs = length (outQueryBase st)" "\<forall>q \<in> set outs. out_wf q"
    "\<And>j. j < m \<Longrightarrow> queried env (index_db st) (outs ! j) \<and> oq_chunkHash (outs ! j) = oq_chunkHash (outQueryBase st ! j)"
proof (cases "m = 0")
  case True
  then show thesis using wf old by (intro that [where n = "out_queryNum st" and outs = "outQueryBase st"]) simp_all
next
  case False
  define s where "s = st\<lparr>out_queryNum := m\<rparr>"
  have p: "db_shape env (index_db s)" "out_queryNum s \<le> length (outQueryBase s)" "\<forall>q \<in> set (outQueryBase s). out_wf q"
    "\<forall>j < out_queryNum s. length (oq_chunkHash (outQueryBase s ! j)) = CHUNK_HASH_SIZE" using db m wf hash by (simp_all add: s_def)
  obtain outs where o: "Ocall_QueryOutIndex s = Inr (s\<lparr>outQueryBase := outs\<rparr>)" "length outs = length (outQueryBase s)"
    "\<forall>q \<in> set outs. out_wf q" "\<And>j. j < out_queryNum s \<Longrightarrow> queried env (index_db s) (outs ! j) \<and>
       oq_chunkHash (outs ! j) = oq_chunkHash (outQueryBase s ! j)" by (rule query_pass [OF env p]) blast
  then show thesis using False m by (intro that [where n = m and outs = outs]) (simp_all add: s_def)
qed

text \<open>What the passes before the loop over the chunks change.\<close>

definition prepared :: "server \<Rightarrow> server \<Rightarrow> bool" where
  "prepared st st' \<longleftrightarrow> (\<exists>buf ins sk outs L n. st' = st\<lparr>recvBuffer := buf, inQueryBase := ins, cmSketch := sk, outQueryBase := outs,
     localIndex := L, out_queryNum := n\<rparr> \<and> length buf = length (recvBuffer st) \<and> length ins = length (inQueryBase st) \<and>
     length outs = length (outQueryBase st) \<and> (\<forall>q \<in> set outs. out_wf q) \<and> sketch_usable sk)"

text \<open>How the chunks of a batch have been sorted out: first occurrences that the top-k index does not know are asked for.\<close>

definition sorted_out :: "restore_env \<Rightarrow> byte list list \<Rightarrow> EcallEntryHeap \<Rightarrow> InQueryEntry_t list \<Rightarrow> bool" where
  "sorted_out env cs h ins \<longleftrightarrow>
     (\<forall>i < length cs. first_in cs i \<longrightarrow> iq_dedupFlag (ins ! i) = UNIQUE \<or>
        iq_dedupFlag (ins ! i) = DUPLICATE \<and> Contains_heap (fingerprint env (cs ! i)) h) \<and>
     (\<forall>i < length cs. iq_dedupFlag (ins ! i) = UNIQUE \<longrightarrow> first_in cs i)"

lemma dedup_ok_sorted:
  assumes d: "dedup_ok env cs h ins outs L us (length cs)"
  shows "sorted_out env cs h ins" "us = asked ins (length cs)"
    "i < length cs \<Longrightarrow> iq_dedupFlag (ins ! i) = UNIQUE \<or> iq_dedupFlag (ins ! i) = DUPLICATE \<or>
       (iq_dedupFlag (ins ! i) = TMP_UNIQUE \<or> iq_dedupFlag (ins ! i) = TMP_DUPLICATE) \<and> unat (re_offset (iq_chunkAddr (ins ! i))) < length cs"
proof -
  have "first_in cs i" if "i < length cs" "iq_dedupFlag (ins ! i) = UNIQUE" for i
    using dedup_okD(3) [OF d, of i] that by auto
  then show "sorted_out env cs h ins" using dedup_okD(2) [OF d] by (simp add: sorted_out_def)
  show "us = asked ins (length cs)" using dedup_okD(1) [OF d] by (simp add: asked_def)
  show "iq_dedupFlag (ins ! i) = UNIQUE \<or> iq_dedupFlag (ins ! i) = DUPLICATE \<or>
      (iq_dedupFlag (ins ! i) = TMP_UNIQUE \<or> iq_dedupFlag (ins ! i) = TMP_DUPLICATE) \<and> unat (re_offset (iq_chunkAddr (ins ! i))) < length cs"
    if "i < length cs"
    using dedup_okD(2,3) [OF d that] by (cases "first_in cs i") auto
qed

lemma sorted_out_same: "sorted_out env cs h ins \<Longrightarrow> (\<And>i. i < length cs \<Longrightarrow> iq_dedupFlag (ins' ! i) = iq_dedupFlag (ins ! i)) \<Longrightarrow> sorted_out env cs h ins'"
  by (simp add: sorted_out_def)

lemma unready_based:
  assumes "queried env db q0" "oq_dedupFlag q1 = oq_dedupFlag q0 \<and> oq_chunkHash q1 = oq_chunkHash q0 \<and> oq_chunkAddr q1 = oq_chunkAddr q0"
    "oq_dedupFlag q1 = UNIQUE \<Longrightarrow> oq_deltaFlag q1 = NO_DELTA \<and> oq_offlineFlag q1 = 0" "based env db q1 q2"
  shows "unready env db q2"
proof (cases "oq_dedupFlag q0 = DUPLICATE")
  case True
  then have "q2 = q1" using assms(2,4) by (simp add: based_def)
  then show ?thesis using True assms(1,2) by (auto simp: unready_def queried_def)
next
  case False
  then have "oq_dedupFlag q0 = UNIQUE" "indexObj db (oq_chunkHash q0) = None" using assms(1) by (auto simp: queried_def)
  then show ?thesis using assms(2-4) by (auto simp: unready_def based_def)
qed

definition last_steps :: "nat \<Rightarrow> nat \<Rightarrow> bool \<Rightarrow> batch_loop \<times> server \<Rightarrow> server res" where
  "last_steps n m flag = (\<lambda>(l, st).
     res_bind (update_pairs flag l st) (\<lambda>st.
     res_bind (for_each update_topk [0..<n] st) (\<lambda>st.
       Inr (st\<lparr>out_queryNum := m, out_currNum := 0, localIndex := Map.empty\<rparr>))))"

lemma ProcessOneBatch_steps:
  assumes "receive_batch env data st = Inr s1" "for_each (hash_chunk env) [0..<n] (0, s1) = Inr (off, s2)"
    "for_each count_chunk [0..<n] s2 = Inr s3" "min_freq s3 = Inr f" "for_each (dedup_chunk env f) [0..<n] (0, s3) = Inr (m, s4)"
    "(if m \<noteq> 0 then Ocall_QueryOutIndex (s4\<lparr>out_queryNum := m\<rparr>) else Inr s4) = Inr s5"
    "for_each collect_param [0..<n] (0, 0, [], s5) = Inr (off', k, ps, s5)" "for_each (run_param env) ps s5 = Inr s6"
    "OutEntrySFGet n s6 = Inr s7" "Ocall_QueryOutBasechunk s7 = Inr s8" "LocalChecker env n s8 = Inr (flag, s9)"
  shows "ProcessOneBatch env turns (data, n) st =
    res_bind (for_each (process_chunk env turns flag) [0..<n] (loop_start, s9)) (last_steps n m flag)"
  using assms unfolding ProcessOneBatch_def last_steps_def loop_start_def by (simp del: for_each.simps)

section \<open>The server between two batches\<close>

text \<open>
  \<open>sofar\<close> are the chunks of the batches so far: the index has exactly them, the recipe lists them, the
  top-k index holds none but them, and there is one record \<open>hs\<close> for each distinct one.  \<open>n\<close> bounds the container names given out before.
\<close>

definition buffers_ok :: "restore_env \<Rightarrow> server \<Rightarrow> bool" where
  "buffers_ok env st \<longleftrightarrow> length (recvBuffer st) = sendChunkBatchSize env * sizeof_Chunk \<and>
     length (inQueryBase st) = sendChunkBatchSize env \<and> (\<forall>e \<in> set (inQueryBase st). in_wf e) \<and>
     length (outQueryBase st) = sendChunkBatchSize env \<and> (\<forall>q \<in> set (outQueryBase st). out_wf q) \<and>
     out_queryNum st \<le> sendChunkBatchSize env \<and> length (test_buffer st) = 8000 * CHUNK_HASH_SIZE"

definition srv_ok :: "restore_env \<Rightarrow> byte list set \<Rightarrow> nat \<Rightarrow> byte list list \<Rightarrow> server \<Rightarrow> (bool \<times> srec) list \<Rightarrow> bool" where
  "srv_ok env CS n sofar st hs \<longleftrightarrow> buffers_ok env st \<and> localIndex st = Map.empty \<and> out_currNum st = 0 \<and> sketch_usable (cmSketch st) \<and>
     heap_usable (insideDedupIndex st) \<and> Size (insideDedupIndex st) \<le> topThreshold st \<and> 2 \<le> topThreshold st \<and> topThreshold st < 2 ^ 31 \<and>
     (\<forall>x. Contains_heap x (insideDedupIndex st) \<longrightarrow> x \<in> fingerprint env ` set sofar) \<and>
     storing env CS hs (n + length sofar) st \<and>
     (\<forall>c \<in> set sofar. indexObj (index_db st) (index_key env (fingerprint env c)) \<noteq> None) \<and>
     (\<forall>k. indexObj (index_db st) k \<noteq> None \<longrightarrow> (\<exists>c \<in> set sofar. k = index_key env (fingerprint env c))) \<and>
     set sofar \<subseteq> CS \<and> length hs = card (set sofar) \<and>
     recipe_so_far env (map (fingerprint env) sofar) (inRecipe st) (recipeFile st)"

text \<open>A message with the chunks of a batch.\<close>

definition message_ok :: "restore_env \<Rightarrow> byte list set \<Rightarrow> byte list \<Rightarrow> byte list list \<Rightarrow> bool" where
  "message_ok env CS data cs \<longleftrightarrow> SessionKeyDec (env_ssl env) cryptoObj data (sessionKey env) = Inr (batch_bytes cs) \<and>
     set cs \<subseteq> CS \<and> length cs \<le> sendChunkBatchSize env"

definition setting_ok :: "restore_env \<Rightarrow> byte list set \<Rightarrow> bool" where
  "setting_ok env CS \<longleftrightarrow> env_ok env \<and> lz4_ok (env_lz4 env) \<and> chunks_ok env CS \<and> sendChunkBatchSize env \<le> 4000"

lemma passes_ok:
  assumes setting: "setting_ok env CS" and msg: "message_ok env CS data cs" and st: "srv_ok env CS n sofar st hs"
  obtains flag m st' where
    "\<forall>turns. ProcessOneBatch env turns (data, length cs) st =
       res_bind (for_each (process_chunk env turns flag) [0..<length cs] (loop_start, st')) (last_steps (length cs) m flag)"
    "prepared st st'" "batch_start env CS cs st'" "hashed env cs (inQueryBase st') (length cs)"
    "sorted_out env cs (insideDedupIndex st) (inQueryBase st')" "m = length (asked (inQueryBase st') (length cs))"
    "m \<le> sendChunkBatchSize env"
proof -
  let ?n = "length cs" and ?B = "sendChunkBatchSize env" and ?db = "index_db st" and ?h = "insideDedupIndex st"
  have env: "env_ok env" "lz4_ok (env_lz4 env)" and CS: "chunks_ok env CS" and B: "?B \<le> 4000"
    using setting by (simp_all add: setting_ok_def)
  have cs: "set cs \<subseteq> CS" "?n \<le> ?B" and data: "SessionKeyDec (env_ssl env) cryptoObj data (sessionKey env) = Inr (batch_bytes cs)"
    using msg by (simp_all add: message_ok_def)
  have sz: "\<forall>c \<in> set cs. length c \<le> MAX_CHUNK_SIZE" and inj: "inj_on (fingerprint env) (set cs)"
    using CS cs(1) by (auto simp: chunks_ok_def intro: inj_on_subset)
  have buf: "length (recvBuffer st) = ?B * sizeof_Chunk" "length (inQueryBase st) = ?B" "\<forall>e \<in> set (inQueryBase st). in_wf e"
    "length (outQueryBase st) = ?B" "\<forall>q \<in> set (outQueryBase st). out_wf q" "out_queryNum st \<le> ?B"
    using st by (simp_all add: srv_ok_def buffers_ok_def)
  have sk: "sketch_usable (cmSketch st)" and h: "heap_usable ?h" "2 \<le> topThreshold st" and L: "localIndex st = Map.empty"
    and db: "db_shape env ?db" using st by (simp_all add: srv_ok_def storing_def db_ok_def)
  obtain rb where r: "receive_batch env data st = Inr (st\<lparr>recvBuffer := rb\<rparr>)" "length rb = ?B * sizeof_Chunk" "carries rb cs"
    by (rule receive_batch_ok [OF data buf(1) cs(2) sz])
  define s1 where "s1 = st\<lparr>recvBuffer := rb\<rparr>"
  have f1: "recvBuffer s1 = rb" "inQueryBase s1 = inQueryBase st" by (simp_all add: s1_def)
  have h1: "hashed env cs (inQueryBase s1) 0" using buf(2,3) cs(2) by (simp add: hashed_def f1)
  obtain ins2 where p2: "for_each (hash_chunk env) [0..<?n] (0, s1) = Inr (chunk_at cs ?n, s1\<lparr>inQueryBase := ins2\<rparr>)"
    "length ins2 = length (inQueryBase s1)" "hashed env cs ins2 ?n" by (rule hash_pass [OF env(1) _ sz h1]) (simp_all add: f1 r(3))
  define s2 where "s2 = s1\<lparr>inQueryBase := ins2\<rparr>"
  have h2: "hashed env cs (inQueryBase s2) ?n" "sketch_usable (cmSketch s2)" using p2(3) sk by (simp_all add: s2_def s1_def)
  obtain ins3 sk3 where p3: "for_each count_chunk [0..<?n] s2 = Inr (s2\<lparr>inQueryBase := ins3, cmSketch := sk3\<rparr>)"
    "length ins3 = length (inQueryBase s2)" "hashed env cs ins3 ?n" "sketch_usable sk3" by (rule count_pass [OF env(1) h2])
  define s3 where "s3 = s2\<lparr>inQueryBase := ins3, cmSketch := sk3\<rparr>"
  have f3: "insideDedupIndex s3 = ?h" "topThreshold s3 = topThreshold st" "inQueryBase s3 = ins3" "localIndex s3 = Map.empty"
    "outQueryBase s3 = outQueryBase st" using L by (simp_all add: s3_def s2_def s1_def)
  obtain f where mf: "min_freq s3 = Inr f" by (rule min_freq_ok [of s3]) (use h in \<open>simp_all add: f3\<close>)
  have n32: "?n < 2 ^ 32" using cs(2) B by simp
  obtain ins4 outs4 L4 us where p4: "for_each (dedup_chunk env f) [0..<?n] (0, s3) =
      Inr (length us, s3\<lparr>inQueryBase := ins4, outQueryBase := outs4, localIndex := L4\<rparr>)"
    "length ins4 = length (inQueryBase s3)" "hashed env cs ins4 ?n" "length outs4 = length (outQueryBase s3)" "\<forall>q \<in> set outs4. out_wf q"
    "dedup_ok env cs (insideDedupIndex s3) ins4 outs4 L4 us ?n"
    by (rule dedup_pass [OF env(1) _ inj _ _ _ _ n32, of s3 f]) (use p3(3) h cs(2) buf(4,5) in \<open>simp_all add: f3\<close>)
  define s4 where "s4 = s3\<lparr>inQueryBase := ins4, outQueryBase := outs4, localIndex := L4\<rparr>"
  note d4 = p4(6) [unfolded f3]
  have us: "us = asked ins4 ?n" and so4: "sorted_out env cs ?h ins4" using dedup_ok_sorted [OF d4] by simp_all
  define m where "m = length us"
  have "length (asked ins4 ?n) \<le> ?n" using length_filter_le [of _ "[0..<?n]"] by (simp add: asked_def)
  then have m: "m \<le> ?B" using us cs(2) by (simp add: m_def)
  have f4: "index_db s4 = ?db" "outQueryBase s4 = outs4" "out_queryNum s4 = out_queryNum st" "length outs4 = ?B"
    using p4(4) buf(4) by (simp_all add: s4_def s3_def s2_def s1_def)
  have key: "length (oq_chunkHash (outs4 ! j)) = CHUNK_HASH_SIZE" if "j < m" for j
    using dedup_okD(5) [OF d4] that index_key_ok(2) [OF env(1) fingerprint_ok(2) [OF env(1)]] by (simp add: m_def)
  obtain n5 outs5 where p5: "(if m \<noteq> 0 then Ocall_QueryOutIndex (s4\<lparr>out_queryNum := m\<rparr>) else Inr s4) =
      Inr (s4\<lparr>out_queryNum := n5, outQueryBase := outs5\<rparr>)"
    "m \<noteq> 0 \<longrightarrow> n5 = m" "n5 \<le> length outs5" "length outs5 = length (outQueryBase s4)" "\<forall>q \<in> set outs5. out_wf q"
    "\<And>j. j < m \<Longrightarrow> queried env (index_db s4) (outs5 ! j) \<and> oq_chunkHash (outs5 ! j) = oq_chunkHash (outQueryBase s4 ! j)"
    by (rule queries_ok [OF env(1), of s4 m]) (use db m buf(6) p4(5) key in \<open>simp_all add: f4\<close>)
  define s5 where "s5 = s4\<lparr>out_queryNum := n5, outQueryBase := outs5\<rparr>"
  have f5: "inQueryBase s5 = ins4" "outQueryBase s5 = outs5" "recvBuffer s5 = rb" "length outs5 = ?B"
    using p5(4) f4 by (simp_all add: s5_def s4_def s3_def s2_def s1_def)
  have as5: "length (asked (inQueryBase s5) ?n) \<le> length (outQueryBase s5)" using m us by (simp add: f5 m_def)
  have h5: "hashed env cs (inQueryBase s5) ?n" using p4(3) by (simp add: f5)
  obtain off k and ps :: "Param list" where p6: "for_each collect_param [0..<?n] (0, 0, [], s5) = Inr (off, k, ps, s5)"
    "\<forall>p \<in> set ps. pm_SF p < ?n \<and> pm_chunksize p = length (cs ! pm_SF p) \<and> pm_ptr p = drop (chunk_at cs (pm_SF p) + 4) (recvBuffer s5)"
    by (rule collect_pass [OF h5 sz as5])
  obtain ins6 where p7: "for_each (run_param env) ps s5 = Inr (s5\<lparr>inQueryBase := ins6\<rparr>)" "length ins6 = length (inQueryBase s5)"
    "hashed env cs ins6 ?n" "\<And>i. iq_dedupFlag (ins6 ! i) = iq_dedupFlag (inQueryBase s5 ! i) \<and>
       iq_chunkAddr (ins6 ! i) = iq_chunkAddr (inQueryBase s5 ! i)"
    by (rule run_pass [OF env(1) h5 _ cs(2) sz p6(2)]) (simp_all add: f5 r(2))
  define s6 where "s6 = s5\<lparr>inQueryBase := ins6\<rparr>"
  have f6: "inQueryBase s6 = ins6" "outQueryBase s6 = outs5" by (simp_all add: s6_def f5)
  have as6: "asked ins6 ?n = us" unfolding us by (rule asked_same) (simp add: p7(4) f5)
  have q6: "hashed env cs (inQueryBase s6) ?n" "length (asked (inQueryBase s6) ?n) \<le> length (outQueryBase s6)"
    "\<forall>q \<in> set (outQueryBase s6). out_wf q" using p7(3) m p5(5) f5(4) by (simp_all add: f6 as6 m_def)
  obtain outs7 where p8: "OutEntrySFGet ?n s6 = Inr (s6\<lparr>outQueryBase := outs7\<rparr>)" "length outs7 = length (outQueryBase s6)"
    "\<forall>q \<in> set outs7. out_wf q" "\<And>j. oq_dedupFlag (outs7 ! j) = oq_dedupFlag (outQueryBase s6 ! j) \<and>
       oq_chunkHash (outs7 ! j) = oq_chunkHash (outQueryBase s6 ! j) \<and> oq_chunkAddr (outs7 ! j) = oq_chunkAddr (outQueryBase s6 ! j)"
    "\<And>j. j < length (asked (inQueryBase s6) ?n) \<Longrightarrow> oq_dedupFlag (outs7 ! j) = UNIQUE \<Longrightarrow>
       oq_deltaFlag (outs7 ! j) = NO_DELTA \<and> oq_offlineFlag (outs7 ! j) = 0"
    by (rule features_pass [OF q6]) blast
  define s7 where "s7 = s6\<lparr>outQueryBase := outs7\<rparr>"
  have f7: "index_db s7 = ?db" "out_queryNum s7 = n5" "outQueryBase s7 = outs7" "length outs7 = ?B"
    using p8(2) f4 f6 f5(4) by (simp_all add: s7_def s6_def s5_def)
  have q7: "db_shape env (index_db s7)" "out_queryNum s7 \<le> length (outQueryBase s7)" "\<forall>q \<in> set (outQueryBase s7). out_wf q"
    using db p5(3) f5(4) p8(3) by (simp_all add: f7)
  obtain outs8 where p9: "Ocall_QueryOutBasechunk s7 = Inr (s7\<lparr>outQueryBase := outs8\<rparr>)" "length outs8 = length (outQueryBase s7)"
    "\<forall>q \<in> set outs8. out_wf q" "\<And>j. j < out_queryNum s7 \<Longrightarrow> based env (index_db s7) (outQueryBase s7 ! j) (outs8 ! j)"
    by (rule base_pass [OF env(1) q7]) blast
  define s8 where "s8 = s7\<lparr>outQueryBase := outs8\<rparr>"
  have f8: "inQueryBase s8 = ins6" "outQueryBase s8 = outs8" "length outs8 = ?B"
    using p9(2) f6 f7 by (simp_all add: s8_def s7_def)
  have un: "unready env ?db (outs8 ! j)" and k8: "oq_chunkHash (outs8 ! j) = index_key env (fingerprint env (cs ! (us ! j)))"
    if j: "j < m" for j
  proof -
    have n5: "n5 = m" using j p5(2) by auto
    have q: "queried env ?db (outs5 ! j)" "oq_chunkHash (outs5 ! j) = oq_chunkHash (outs4 ! j)" using p5(6) [OF j] by (simp_all add: f4)
    have b: "based env ?db (outs7 ! j) (outs8 ! j)" using p9(4) [of j] j n5 by (simp add: f7)
    show "unready env ?db (outs8 ! j)"
      by (rule unready_based [OF q(1) _ _ b]) (use p8(4,5) [of j] j in \<open>simp_all add: f6 as6 m_def\<close>)
    have "oq_chunkHash (outs8 ! j) = oq_chunkHash (outs4 ! j)" using b q(2) p8(4) [of j] by (simp add: f6 based_def)
    then show "oq_chunkHash (outs8 ! j) = index_key env (fingerprint env (cs ! (us ! j)))"
      using dedup_okD(5) [OF d4, of j] j by (simp add: m_def)
  qed
  have q8: "hashed env cs (inQueryBase s8) ?n" "length (asked (inQueryBase s8) ?n) \<le> length (outQueryBase s8)"
    "\<forall>q \<in> set (outQueryBase s8). out_wf q" using p7(3) m p9(3) by (simp_all add: f8 as6 m_def)
  obtain flag ins9 outs9 where p10: "LocalChecker env ?n s8 = Inr (flag, s8\<lparr>inQueryBase := ins9, outQueryBase := outs9\<rparr>)"
    "length ins9 = length (inQueryBase s8)" "hashed env cs ins9 ?n"
    "length outs9 = length (outQueryBase s8)" "\<forall>q \<in> set outs9. out_wf q"
    "\<And>j. j < length (asked (inQueryBase s8) ?n) \<Longrightarrow> ready env ?db (ins9 ! (asked (inQueryBase s8) ?n ! j)) (outs9 ! j) \<and>
       oq_chunkHash (outs9 ! j) = oq_chunkHash (outQueryBase s8 ! j)"
    "\<And>i. i < ?n \<Longrightarrow> iq_dedupFlag (ins9 ! i) = iq_dedupFlag (inQueryBase s8 ! i) \<and>
       re_offset (iq_chunkAddr (ins9 ! i)) = re_offset (iq_chunkAddr (inQueryBase s8 ! i))"
    by (rule check_pass [OF env(1) q8, of ?db]) (use un in \<open>simp add: f8 as6 m_def\<close>, blast)
  define s9 where "s9 = s8\<lparr>inQueryBase := ins9, outQueryBase := outs9\<rparr>"
  have f9: "inQueryBase s9 = ins9" "outQueryBase s9 = outs9" "index_db s9 = ?db" "recvBuffer s9 = rb" "length outs9 = ?B"
    using p10(4) f8 f7 by (simp_all add: s9_def s8_def s7_def s6_def s5_def s4_def s3_def s2_def s1_def)
  have fl: "iq_dedupFlag (ins9 ! i) = iq_dedupFlag (ins4 ! i)" "re_offset (iq_chunkAddr (ins9 ! i)) = re_offset (iq_chunkAddr (ins4 ! i))"
    if "i < ?n" for i using p10(7) [OF that] p7(4) [of i] by (simp_all add: f8 f5)
  have as9: "asked ins9 ?n = us" unfolding us by (rule asked_same) (simp add: fl)
  have rd: "ready env ?db (ins9 ! (us ! j)) (outs9 ! j) \<and> oq_chunkHash (outs9 ! j) = index_key env (fingerprint env (cs ! (us ! j)))"
    if "j < m" for j using p10(6) [of j] k8 [OF that] that by (simp add: f8 as6 m_def)
  show thesis
  proof (rule that [where flag = flag and m = m and st' = s9])
    show "\<forall>turns. ProcessOneBatch env turns (data, ?n) st =
        res_bind (for_each (process_chunk env turns flag) [0..<?n] (loop_start, s9)) (last_steps ?n m flag)"
      using ProcessOneBatch_steps [OF r(1) [folded s1_def] p2(1) [folded s2_def] p3(1) [folded s3_def] mf p4(1) [folded s4_def, folded m_def]
        p5(1) [folded s5_def] p6(1) p7(1) [folded s6_def] p8(1) [folded s7_def] p9(1) [folded s8_def] p10(1) [folded s9_def]] by blast
    have "s9 = st\<lparr>recvBuffer := rb, inQueryBase := ins9, cmSketch := sk3, outQueryBase := outs9, localIndex := L4, out_queryNum := n5\<rparr>"
      unfolding s9_def s8_def s7_def s6_def s5_def s4_def s3_def s2_def s1_def by (rule server.equality) simp_all
    moreover have "length ins9 = ?B" using p10(2) p7(2) p4(2) p3(2) p2(2) buf(2) by (simp add: f8 f5 f3 f1 s2_def)
    ultimately show "prepared st s9" unfolding prepared_def using r(2) buf f9(5) p10(5) p3(4)
      by (intro exI conjI) (assumption | simp)+
    show "batch_start env CS cs s9" unfolding batch_start_def f9(1-4) as9
      using env CS cs B r(3) m f9(5) rd dedup_ok_sorted(3) [OF d4] fl by (simp add: f9 m_def)
    show "hashed env cs (inQueryBase s9) ?n" using p10(3) by (simp add: f9)
    show "sorted_out env cs ?h (inQueryBase s9)" unfolding f9 by (rule sorted_out_same [OF so4]) (simp add: fl)
    show "m = length (asked (inQueryBase s9) ?n)" by (simp add: f9 as9 m_def)
    show "m \<le> ?B" by (rule m)
  qed
qed

lemma storing_cong2 [simp]:
  "storing env CS hs n (st\<lparr>recvBuffer := a\<rparr>) = storing env CS hs n st"
  "storing env CS hs n (st\<lparr>cmSketch := b\<rparr>) = storing env CS hs n st"
  "storing env CS hs n (st\<lparr>localIndex := c\<rparr>) = storing env CS hs n st"
  "storing env CS hs n (st\<lparr>out_queryNum := d\<rparr>) = storing env CS hs n st"
  "storing env CS hs n (st\<lparr>test_buffer := e\<rparr>) = storing env CS hs n st"
  "storing env CS hs n (st\<lparr>insideDedupIndex := f\<rparr>) = storing env CS hs n st"
  by (simp_all add: storing_def ws_ok_def)

lemma storing_db:
  "storing env CS hs n st \<Longrightarrow> db_ok env db hs CS \<Longrightarrow> storing env CS hs n (st\<lparr>index_db := db\<rparr>)"
  by (simp add: storing_def ws_ok_def)

lemma prepared_kept:
  assumes "prepared st st'"
  shows "storing env CS hs n st' = storing env CS hs n st" "index_db st' = index_db st" "insideDedupIndex st' = insideDedupIndex st"
    "topThreshold st' = topThreshold st" "out_currNum st' = out_currNum st" "inRecipe st' = inRecipe st" "recipeFile st' = recipeFile st"
    "test_buffer st' = test_buffer st" "length (recvBuffer st') = length (recvBuffer st)" "length (inQueryBase st') = length (inQueryBase st)"
    "length (outQueryBase st') = length (outQueryBase st)" "\<forall>q \<in> set (outQueryBase st'). out_wf q" "sketch_usable (cmSketch st')"
  using assms unfolding prepared_def by (elim exE conjE; simp)+

lemma entry_done_cong:
  "indexObj db' = indexObj db \<Longrightarrow> entry_done env db' hs CS c q = entry_done env db hs CS c q"
  by (simp add: entry_done_def stored_as_def good_def delta_of_def index_base_def)

lemma asked_distinct:
  assumes so: "sorted_out env cs h ins" and inj: "inj_on (fingerprint env) (set cs)"
    and ij: "i < length (asked ins (length cs))" "j < length (asked ins (length cs))"
    and eq: "fingerprint env (cs ! (asked ins (length cs) ! i)) = fingerprint env (cs ! (asked ins (length cs) ! j))"
  shows "i = j"
proof -
  let ?us = "asked ins (length cs)"
  have l: "?us ! i < length cs" "?us ! j < length cs" "first_in cs (?us ! i)" "first_in cs (?us ! j)"
    using asked_less [OF ij(1)] asked_less [OF ij(2)] so by (simp_all add: sorted_out_def)
  have e: "cs ! (?us ! i) = cs ! (?us ! j)" using inj_onD [OF inj eq] l by simp
  have "\<not> ?us ! i < ?us ! j" if "first_in cs (?us ! j)" "cs ! (?us ! i) = cs ! (?us ! j)" "?us ! j < length cs" for i j
    using that by (auto simp: first_in_def in_set_conv_nth)
  then have "?us ! i = ?us ! j" using l e by (metis linorder_neqE_nat)
  moreover have "distinct ?us" by (simp add: asked_def)
  ultimately show ?thesis using ij by (simp add: nth_eq_iff_index_eq)
qed

lemma batch_indexed:
  assumes so: "sorted_out env cs h ins" and c: "c \<in> set cs"
    and asked: "\<And>j. j < length (asked ins (length cs)) \<Longrightarrow> indexObj db (index_key env (fingerprint env (cs ! (asked ins (length cs) ! j)))) \<noteq> None"
    and known: "\<And>fp. Contains_heap fp h \<Longrightarrow> indexObj db (index_key env fp) \<noteq> None"
  shows "indexObj db (index_key env (fingerprint env c)) \<noteq> None"
proof -
  obtain i where i: "i < length cs" "cs ! i = c" using c by (auto simp: in_set_conv_nth)
  obtain j where j0: "j \<le> i" "first_in cs j" "cs ! j = cs ! i" using first_exists [OF i(1)] by blast
  then have j: "j < length cs" "first_in cs j" "cs ! j = c" using i by simp_all
  then have "iq_dedupFlag (ins ! j) = UNIQUE \<or> Contains_heap (fingerprint env c) h" using so by (auto simp: sorted_out_def)
  then show ?thesis
  proof
    assume "iq_dedupFlag (ins ! j) = UNIQUE"
    from asked_rank [OF j(1) this] asked [of "rank ins j"] j(3) show ?thesis by simp
  qed (rule known)
qed

lemma update_outside:
  assumes env: "env_ok env" and m: "out_queryNum st = length (asked ins (length cs))" "out_queryNum st \<le> length (outQueryBase st)"
    and wf: "\<forall>q \<in> set (outQueryBase st). out_wf q" and db: "db_ok env (index_db st) hs CS"
    and so: "sorted_out env cs h ins" and inj: "inj_on (fingerprint env) (set cs)"
    and keys: "\<And>j. j < out_queryNum st \<Longrightarrow> oq_chunkHash (outQueryBase st ! j) = index_key env (fingerprint env (cs ! (asked ins (length cs) ! j))) \<and>
       entry_done env (index_db st) hs CS (cs ! (asked ins (length cs) ! j)) (outQueryBase st ! j)"
  obtains db' where "(if out_queryNum st \<noteq> 0 then Ocall_UpdateOutIndex st else Inr st) = Inr (st\<lparr>index_db := db'\<rparr>)"
    "db_ok env db' hs CS" "index_grows (index_db st) db'"
    "\<forall>j < out_queryNum st. indexObj db' (index_key env (fingerprint env (cs ! (asked ins (length cs) ! j)))) \<noteq> None"
    "\<forall>k. indexObj db' k \<noteq> None \<longrightarrow> indexObj (index_db st) k \<noteq> None \<or>
       (\<exists>j < out_queryNum st. k = index_key env (fingerprint env (cs ! (asked ins (length cs) ! j))))"
proof (cases "out_queryNum st = 0")
  case True
  then show thesis using db by (intro that [of "index_db st"]) simp_all
next
  case False
  have d: "i = j" if "i < out_queryNum st" "j < out_queryNum st"
    "fingerprint env (cs ! (asked ins (length cs) ! i)) = fingerprint env (cs ! (asked ins (length cs) ! j))" for i j
    by (rule asked_distinct [OF so inj]) (use that m(1) in simp_all)
  obtain db' where "Ocall_UpdateOutIndex st = Inr (st\<lparr>index_db := db'\<rparr>)" "db_ok env db' hs CS" "index_grows (index_db st) db'"
    "\<And>j. j < out_queryNum st \<Longrightarrow> indexObj db' (index_key env (fingerprint env (cs ! (asked ins (length cs) ! j)))) \<noteq> None"
    "\<And>k. indexObj db' k \<noteq> None \<Longrightarrow> indexObj (index_db st) k \<noteq> None \<or>
       (\<exists>j < out_queryNum st. k = index_key env (fingerprint env (cs ! (asked ins (length cs) ! j))))"
    by (rule update_index [OF m(2) wf db env, of "\<lambda>j. cs ! (asked ins (length cs) ! j)"]) (use keys d in blast)+
  then show thesis using False by (intro that [of db']) simp_all
qed

lemma last_steps_ok:
  assumes mid: "midway env CS cs st0 n b hs (length cs) l st" and b: "batch_start env CS cs st0"
    and h: "heap_usable (insideDedupIndex st0)" "Size (insideDedupIndex st0) \<le> topThreshold st0" "2 \<le> topThreshold st0" "topThreshold st0 < 2 ^ 31"
    and tb: "length (test_buffer st0) = 8000 * CHUNK_HASH_SIZE"
    and K: "\<And>x. Contains_heap x (insideDedupIndex st0) \<Longrightarrow> x \<in> K" "fingerprint env ` set cs \<subseteq> K"
  obtains db buf h' where "last_steps (length cs) m flag (l, st) = Inr (st\<lparr>index_db := db, test_buffer := buf, insideDedupIndex := h',
      out_queryNum := m, out_currNum := 0, localIndex := Map.empty\<rparr>)"
    "indexObj db = indexObj (index_db st0)" "sfObj db = sfObj (index_db st0)" "length buf = length (test_buffer st0)"
    "heap_usable h'" "Size h' \<le> topThreshold st0" "\<forall>x. Contains_heap x h' \<longrightarrow> x \<in> K"
proof -
  have rest: "index_db st = index_db st0" "insideDedupIndex st = insideDedupIndex st0" "topThreshold st = topThreshold st0"
    "test_buffer st = test_buffer st0" using mid by (simp_all add: midway_def same_rest_def)
  have n: "length cs \<le> 4000" using b by (simp add: batch_start_def)
  have l: "pairs_ok (batch_basemap l)" "length (batch_basemap l) \<le> 4000" "processNum l \<le> 4000"
    "length (process_buffer st) = 100000 * CHUNK_HASH_SIZE" using mid n by (simp_all add: midway_def storing_def)
  obtain db buf where u: "update_pairs flag l st = Inr (st\<lparr>index_db := db, test_buffer := buf\<rparr>)" "indexObj db = indexObj (index_db st)"
    "sfObj db = sfObj (index_db st)" "length buf = length (test_buffer st)"
    by (rule update_pairs_ok [OF l(1-3) _ l(4)]) (simp add: rest tb)
  define s where "s = st\<lparr>index_db := db, test_buffer := buf\<rparr>"
  have p: "hashed env cs (inQueryBase s) (length cs)" "heap_usable (insideDedupIndex s)" "Size (insideDedupIndex s) \<le> topThreshold s"
    "2 \<le> topThreshold s" "topThreshold s < 2 ^ 31" "\<And>x. Contains_heap x (insideDedupIndex s) \<Longrightarrow> x \<in> K"
    using mid h K(1) by (simp_all add: s_def rest midway_def)
  obtain h' where t: "for_each update_topk [0..<length cs] s = Inr (s\<lparr>insideDedupIndex := h'\<rparr>)" "heap_usable h'"
    "Size h' \<le> topThreshold s" "\<forall>x. Contains_heap x h' \<longrightarrow> x \<in> K"
    by (rule topk_pass [OF p K(2)])
  have "last_steps (length cs) m flag (l, st) = Inr (st\<lparr>index_db := db, test_buffer := buf, insideDedupIndex := h',
      out_queryNum := m, out_currNum := 0, localIndex := Map.empty\<rparr>)"
    using u(1) t(1) by (simp add: last_steps_def s_def del: for_each.simps)
  then show thesis using u t by (intro that [where db = db and buf = buf and h' = h']) (simp_all add: rest s_def)
qed

text \<open>One new entry outside for each chunk that is new.\<close>

lemma news_count:
  assumes so: "sorted_out env cs h ins" and CS: "set cs \<subseteq> CS" "set sofar \<subseteq> CS" "inj_on (fingerprint env) CS"
    and h: "\<forall>x. Contains_heap x h \<longrightarrow> x \<in> fingerprint env ` set sofar"
    and d: "\<And>j. j < length (asked ins (length cs)) \<Longrightarrow> oq_dedupFlag (outs ! j) = UNIQUE \<longleftrightarrow>
      fingerprint env (cs ! (asked ins (length cs) ! j)) \<notin> fingerprint env ` set sofar"
  shows "card (set (sofar @ cs)) = card (set sofar) + news outs (length (asked ins (length cs)))"
proof -
  let ?us = "asked ins (length cs)" and ?fp = "fingerprint env"
  let ?J = "{j. j < length ?us \<and> oq_dedupFlag (outs ! j) = UNIQUE}" and ?f = "\<lambda>j. cs ! (?us ! j)"
  have known: "?fp c \<in> ?fp ` set sofar \<longleftrightarrow> c \<in> set sofar" if "c \<in> set cs" for c
    using inj_on_image_mem_iff [OF CS(3) _ CS(2)] that CS(1) by blast
  have inj: "inj_on ?fp (set cs)" using CS(1,3) by (rule inj_on_subset [rotated])
  have in_cs: "?f j \<in> set cs" if "j < length ?us" for j using asked_less [OF that] by simp
  have "inj_on ?f ?J" using asked_distinct [OF so inj] by (auto intro!: inj_onI)
  moreover have "?f ` ?J = set cs - set sofar"
  proof (intro equalityI subsetI)
    fix c assume "c \<in> ?f ` ?J"
    then show "c \<in> set cs - set sofar" using in_cs d known by auto
  next
    fix c assume c: "c \<in> set cs - set sofar"
    then obtain i where i: "i < length cs" "cs ! i = c" by (auto simp: in_set_conv_nth)
    obtain k where k: "k \<le> i" "first_in cs k" "cs ! k = cs ! i" using first_exists [OF i(1)] by blast
    have "\<not> Contains_heap (?fp (cs ! k)) h" using h known c i k by force
    moreover have kl: "k < length cs" using k(1) i(1) by simp
    ultimately have u: "k < length cs" "iq_dedupFlag (ins ! k) = UNIQUE" using so k(2) unfolding sorted_out_def by blast+
    have "rank ins k \<in> ?J" "?f (rank ins k) = c" using asked_rank [OF u] d known c i k by auto
    then show "c \<in> ?f ` ?J" by blast
  qed
  ultimately have "card ?J = card (set cs - set sofar)" using card_image by fastforce
  moreover have "news outs (length ?us) = card ?J"
    unfolding news_def by (subst distinct_card [symmetric]) (auto intro: arg_cong [where f = card])
  moreover have "card (set (sofar @ cs)) = card (set sofar) + card (set cs - set sofar)"
    by (subst card_Un_disjoint [symmetric]) auto
  ultimately show ?thesis by simp
qed

lemma rank_full: "length (asked ins n) = rank ins n"
  by (simp add: rank_all)

lemma in_wf_nth: "hashed env cs ins k \<Longrightarrow> \<forall>e \<in> set ins. in_wf e"
  by (simp add: hashed_def)

lemma known_key:
  assumes env: "env_ok env" and known: "\<forall>c \<in> set sofar. indexObj db (index_key env (fingerprint env c)) \<noteq> None"
    and only: "\<forall>k. indexObj db k \<noteq> None \<longrightarrow> (\<exists>c \<in> set sofar. k = index_key env (fingerprint env c))"
  shows "indexObj db (index_key env (fingerprint env c)) = None \<longleftrightarrow> fingerprint env c \<notin> fingerprint env ` set sofar"
proof (cases "fingerprint env c \<in> fingerprint env ` set sofar")
  case True
  then obtain c' where "c' \<in> set sofar" "fingerprint env c = fingerprint env c'" by blast
  with known True show ?thesis by simp
next
  case False
  have "indexObj db (index_key env (fingerprint env c)) = None"
  proof (rule ccontr)
    assume "indexObj db (index_key env (fingerprint env c)) \<noteq> None"
    then obtain c' where c': "c' \<in> set sofar" "index_key env (fingerprint env c) = index_key env (fingerprint env c')"
      using only by blast
    have "fingerprint env c = fingerprint env c'"
      using c'(2) index_key_inject [OF env fingerprint_ok(2) [OF env] fingerprint_ok(2) [OF env]] by blast
    with c'(1) False show False by blast
  qed
  with False show ?thesis by simp
qed

lemma server_step:
  assumes setting: "setting_ok env CS" and msg: "message_ok env CS data cs" and st: "srv_ok env CS n sofar st hs"
    and room: "n + length sofar + length cs + 2 < 36 ^ CONTAINER_ID_LENGTH"
  obtains st' hs' where "EnclaveIndex_ProcessOneBatch env turns (data, length cs) st = Inr st'" "set hs \<subseteq> set hs'"
    "srv_ok env CS n (sofar @ cs) st' hs'"
proof -
  let ?n = "length cs" and ?B = "sendChunkBatchSize env" and ?h = "insideDedupIndex st" and ?fp = "fingerprint env"
  let ?K = "?fp ` set (sofar @ cs)"
  have env: "env_ok env" using setting by (simp add: setting_ok_def)
  have cs: "set cs \<subseteq> CS" using msg by (simp add: message_ok_def)
  have inj: "inj_on ?fp (set cs)" using setting cs unfolding setting_ok_def chunks_ok_def by (blast intro: inj_on_subset)
  have rec: "recipe_so_far env (map ?fp sofar) (inRecipe st) (recipeFile st)" and sto: "storing env CS hs (n + length sofar) st"
    and heap: "heap_usable ?h" "Size ?h \<le> topThreshold st" "2 \<le> topThreshold st" "topThreshold st < 2 ^ 31"
    and inside: "\<forall>x. Contains_heap x ?h \<longrightarrow> x \<in> ?fp ` set sofar"
    and known: "\<forall>c \<in> set sofar. indexObj (index_db st) (index_key env (?fp c)) \<noteq> None"
    and only: "\<forall>k. indexObj (index_db st) k \<noteq> None \<longrightarrow> (\<exists>c \<in> set sofar. k = index_key env (?fp c))"
    and old: "set sofar \<subseteq> CS" "length hs = card (set sofar)"
    and ocn: "out_currNum st = 0" and bufs: "buffers_ok env st"
    using st by (simp_all add: srv_ok_def)
  obtain flag m s0 where pre: "\<forall>turns. ProcessOneBatch env turns (data, ?n) st =
       res_bind (for_each (process_chunk env turns flag) [0..<?n] (loop_start, s0)) (last_steps ?n m flag)"
    "prepared st s0" "batch_start env CS cs s0" "hashed env cs (inQueryBase s0) ?n" "sorted_out env cs ?h (inQueryBase s0)"
    "m = length (asked (inQueryBase s0) ?n)" "m \<le> ?B" by (rule passes_ok [OF setting msg st])
  note kept = prepared_kept [OF pre(2)]
  let ?us = "asked (inQueryBase s0) ?n"
  have s0: "storing env CS hs (n + length sofar) s0" "n + length sofar + ?n + 2 < 36 ^ CONTAINER_ID_LENGTH" "out_currNum s0 = 0"
    "recipe_so_far env (map ?fp sofar) (inRecipe s0) (recipeFile s0)" using sto room ocn rec by (simp_all add: kept)
  obtain l s1 hs' where loop: "for_each (process_chunk env turns flag) [0..<?n] (loop_start, s0) = Inr (l, s1)" "set hs \<subseteq> set hs'"
    "midway env CS cs s0 (n + length sofar) (length hs) hs' ?n l s1" "recipe_so_far env (map ?fp sofar @ map ?fp cs) (inRecipe s1) (recipeFile s1)"
    by (rule chunk_loop_ok [OF pre(3) s0(1,2) pre(4) kept(12) s0(3,4)])
  have heap0: "heap_usable (insideDedupIndex s0)" "Size (insideDedupIndex s0) \<le> topThreshold s0" "2 \<le> topThreshold s0"
    "topThreshold s0 < 2 ^ 31" "length (test_buffer s0) = 8000 * CHUNK_HASH_SIZE"
    "\<And>x. Contains_heap x (insideDedupIndex s0) \<Longrightarrow> x \<in> ?K" "?fp ` set cs \<subseteq> ?K"
    using heap bufs inside by (auto simp: kept buffers_ok_def)
  obtain db buf h' where fin: "last_steps ?n m flag (l, s1) = Inr (s1\<lparr>index_db := db, test_buffer := buf, insideDedupIndex := h',
      out_queryNum := m, out_currNum := 0, localIndex := Map.empty\<rparr>)"
    "indexObj db = indexObj (index_db s0)" "sfObj db = sfObj (index_db s0)" "length buf = length (test_buffer s0)"
    "heap_usable h'" "Size h' \<le> topThreshold s0" "\<forall>x. Contains_heap x h' \<longrightarrow> x \<in> ?K"
    by (rule last_steps_ok [OF loop(3) pre(3) heap0])
  define s2 where "s2 = s1\<lparr>index_db := db, test_buffer := buf, insideDedupIndex := h',
      out_queryNum := m, out_currNum := 0, localIndex := Map.empty\<rparr>"
  have run: "ProcessOneBatch env turns (data, ?n) st = Inr s2" using pre(1) loop(1) fin(1) by (simp add: s2_def del: for_each.simps)
  have s1: "storing env CS hs' (n + length sofar + ?n) s1" "same_rest s0 s1" "hashed env cs (inQueryBase s1) ?n"
    "length (inQueryBase s1) = length (inQueryBase s0)" "length (outQueryBase s1) = length (outQueryBase s0)"
    "\<forall>q \<in> set (outQueryBase s1). out_wf q" "length hs' = length hs + news (outQueryBase s0) (rank (inQueryBase s0) ?n)"
    and done1: "\<forall>j < rank (inQueryBase s0) ?n. oq_chunkHash (outQueryBase s1 ! j) = oq_chunkHash (outQueryBase s0 ! j) \<and>
        entry_done env (index_db s0) hs' CS (cs ! (?us ! j)) (outQueryBase s1 ! j)"
    using loop(3) unfolding midway_def by blast+
  have rest: "index_db s1 = index_db s0" "recvBuffer s1 = recvBuffer s0" "cmSketch s1 = cmSketch s0" "topThreshold s1 = topThreshold s0"
    using s1(2) by (simp_all add: same_rest_def)
  have B: "length (outQueryBase s1) = ?B" "length (inQueryBase s1) = ?B" "length (recvBuffer s1) = ?B * sizeof_Chunk"
    "length buf = 8000 * CHUNK_HASH_SIZE" using s1(4,5) rest bufs fin(4) by (simp_all add: kept buffers_ok_def)
  have db: "db_ok env db hs' CS" using s1(1) db_ok_cong [of db "index_db s1"] fin(2,3) rest by (simp add: storing_def)
  have keys: "oq_chunkHash (outQueryBase s2 ! j) = index_key env (?fp (cs ! (?us ! j))) \<and>
      entry_done env (index_db s2) hs' CS (cs ! (?us ! j)) (outQueryBase s2 ! j)" if "j < out_queryNum s2" for j
  proof -
    have j: "j < length ?us" using that pre(6) by (simp add: s2_def)
    have "oq_chunkHash (outQueryBase s0 ! j) = index_key env (?fp (cs ! (?us ! j)))" using pre(3) j unfolding batch_start_def by blast
    moreover have "entry_done env db hs' CS c q = entry_done env (index_db s0) hs' CS c q" for c q by (rule entry_done_cong [OF fin(2)])
    ultimately show ?thesis using done1 j by (simp add: s2_def rank_full)
  qed
  have out: "out_queryNum s2 = length ?us" "out_queryNum s2 \<le> length (outQueryBase s2)" "\<forall>q \<in> set (outQueryBase s2). out_wf q"
    "db_ok env (index_db s2) hs' CS" using pre(6,7) B(1) s1(6) db by (simp_all add: s2_def)
  obtain db' where up: "(if out_queryNum s2 \<noteq> 0 then Ocall_UpdateOutIndex s2 else Inr s2) = Inr (s2\<lparr>index_db := db'\<rparr>)"
    "db_ok env db' hs' CS" "index_grows (index_db s2) db'"
    "\<forall>j < out_queryNum s2. indexObj db' (index_key env (?fp (cs ! (?us ! j)))) \<noteq> None"
    "\<forall>k. indexObj db' k \<noteq> None \<longrightarrow> indexObj (index_db s2) k \<noteq> None \<or> (\<exists>j < out_queryNum s2. k = index_key env (?fp (cs ! (?us ! j))))"
    by (rule update_outside [OF env out pre(5) inj keys])
  let ?s3 = "s2\<lparr>index_db := db'\<rparr>"
  have grown: "indexObj db' (index_key env (?fp c)) \<noteq> None" if "c \<in> set sofar" for c
    using known that up(3) fin(2) kept(2) by (auto simp: s2_def index_grows_def)
  have known': "indexObj db' (index_key env fp) \<noteq> None" if "Contains_heap fp ?h" for fp
    using inside that grown by blast
  have fresh: "indexObj db' (index_key env (?fp c)) \<noteq> None" if c: "c \<in> set cs" for c
    by (rule batch_indexed [OF pre(5) c _ known']) (use up(4) out(1) in simp)
  have only': "\<exists>c \<in> set (sofar @ cs). k = index_key env (?fp c)" if "indexObj db' k \<noteq> None" for k
  proof -
    have "indexObj (index_db st) k \<noteq> None \<or> (\<exists>j < length ?us. k = index_key env (?fp (cs ! (?us ! j))))"
      using up(5) that fin(2) kept(2) out(1) by (simp add: s2_def)
    then show ?thesis
    proof
      assume "\<exists>j < length ?us. k = index_key env (?fp (cs ! (?us ! j)))"
      then obtain j where "j < length ?us" "k = index_key env (?fp (cs ! (?us ! j)))" by blast
      then show ?thesis using asked_less [of j "inQueryBase s0" ?n] by (intro bexI [of _ "cs ! (?us ! j)"]) simp_all
    qed (use only in auto)
  qed
  have injCS: "inj_on ?fp CS" using setting by (simp add: setting_ok_def chunks_ok_def)
  have new: "oq_dedupFlag (outQueryBase s0 ! j) = UNIQUE \<longleftrightarrow> ?fp (cs ! (?us ! j)) \<notin> ?fp ` set sofar" if j: "j < length ?us" for j
  proof -
    let ?k = "index_key env (?fp (cs ! (?us ! j)))"
    have "ready env (index_db st) (inQueryBase s0 ! (?us ! j)) (outQueryBase s0 ! j)" "oq_chunkHash (outQueryBase s0 ! j) = ?k"
      using pre(3) j unfolding batch_start_def kept(2) by blast+
    then have "oq_dedupFlag (outQueryBase s0 ! j) = UNIQUE \<longleftrightarrow> indexObj (index_db st) ?k = None" by (auto simp: ready_def)
    also have "\<dots> \<longleftrightarrow> ?fp (cs ! (?us ! j)) \<notin> ?fp ` set sofar"
      by (rule known_key [OF env known only])
    finally show ?thesis .
  qed
  have records: "length hs' = card (set (sofar @ cs))"
    using news_count [OF pre(5) cs old(1) injCS inside new] s1(7) old(2) by (simp add: rank_full)
  have st3: "storing env CS hs' (n + length (sofar @ cs)) ?s3"
    by (rule storing_db [OF _ up(2)])
      (use s1(1) storing_db [OF s1(1) db] in \<open>simp add: s2_def add.assoc\<close>)
  show thesis
  proof (rule that [of ?s3 hs'])
    show "EnclaveIndex_ProcessOneBatch env turns (data, ?n) st = Inr ?s3" using run up(1) by (simp add: EnclaveIndex_ProcessOneBatch_def)
    show "set hs \<subseteq> set hs'" by (rule loop(2))
    have f: "index_db ?s3 = db'" "localIndex ?s3 = Map.empty" "out_currNum ?s3 = 0" "cmSketch ?s3 = cmSketch s0"
      "insideDedupIndex ?s3 = h'" "topThreshold ?s3 = topThreshold s0" "inRecipe ?s3 = inRecipe s1" "recipeFile ?s3 = recipeFile s1"
      by (simp_all add: s2_def rest)
    have b: "buffers_ok env ?s3" using B pre(7) s1(3,6) by (simp add: buffers_ok_def s2_def in_wf_nth)
    have i: "\<forall>c \<in> set (sofar @ cs). indexObj db' (index_key env (?fp c)) \<noteq> None" using grown fresh by auto
    have c: "set (sofar @ cs) \<subseteq> CS" using old(1) cs by simp
    have r: "recipe_so_far env (map ?fp (sofar @ cs)) (inRecipe s1) (recipeFile s1)" using loop(4) by simp
    show "srv_ok env CS n (sofar @ cs) ?s3 hs'" unfolding srv_ok_def f
      by (intro conjI allI impI b refl kept(13) fin(5,6) heap0(3,4) st3 i c r records only' fin(7) [rule_format])
  qed
qed

end
