(* ===== verification/Batch_Props.thy ===== *)
theory Batch_Props imports Batch_Run Restore_Props begin

text \<open>
  A whole upload, from the set-up of the server to the last container, and the restore of what
  it left behind; the properties of the batch.
\<close>

section \<open>A whole upload\<close>

definition messages_ok ::
    "restore_env \<Rightarrow> byte list set \<Rightarrow> ((nat \<Rightarrow> nat) \<times> byte list \<times> nat) list \<Rightarrow> byte list list list \<Rightarrow> bool" where
  "messages_ok env CS msgs batches \<longleftrightarrow> list_all2 (\<lambda>(turns, data, k) cs. k = length cs \<and> message_ok env CS data cs) msgs batches"

lemma upload_ok:
  assumes setting: "setting_ok env CS"
  shows "messages_ok env CS msgs batches \<Longrightarrow> srv_ok env CS n sofar st hs \<Longrightarrow>
    n + length sofar + length (concat batches) + 2 < 36 ^ CONTAINER_ID_LENGTH \<Longrightarrow>
    \<exists>st' hs'. upload_messages env msgs st = Inr st' \<and> srv_ok env CS n (sofar @ concat batches) st' hs'"
proof (induction msgs arbitrary: batches sofar st hs)
  case Nil
  then show ?case by (auto simp: messages_ok_def upload_messages_def)
next
  case (Cons m msgs)
  obtain turns data k where m: "m = (turns, data, k)" by (cases m)
  obtain cs rest where b: "batches = cs # rest" "k = length cs" "message_ok env CS data cs" "messages_ok env CS msgs rest"
    using Cons.prems(1) by (auto simp: messages_ok_def m list_all2_Cons1)
  have room: "n + length sofar + length cs + 2 < 36 ^ CONTAINER_ID_LENGTH"
    "n + length (sofar @ cs) + length (concat rest) + 2 < 36 ^ CONTAINER_ID_LENGTH" using Cons.prems(3) b(1) by simp_all
  obtain st1 hs1 where s: "EnclaveIndex_ProcessOneBatch env turns (data, length cs) st = Inr st1" "srv_ok env CS n (sofar @ cs) st1 hs1"
    by (rule server_step [OF setting b(3) Cons.prems(2) room(1)])
  from Cons.IH [OF b(4) s(2) room(2)] s(1) show ?case by (simp add: upload_messages_def m b(1,2))
qed

lemma InitUpload_total:
  assumes "length iv = CRYPTO_BLOCK_SIZE"
  obtains st where "InitUpload iv = Inr st" "session st []" "con_times st = 3"
proof -
  have "(1 :: nat) < 36 ^ CONTAINER_ID_LENGTH" "(2 :: nat) < 36 ^ CONTAINER_ID_LENGTH" by (simp_all add: size_consts)
  then obtain n1 n2 where "CreateUUID CONTAINER_ID_LENGTH 1 = Inr n1" "CreateUUID CONTAINER_ID_LENGTH 2 = Inr n2"
    using CreateUUID_Inr [of CONTAINER_ID_LENGTH] by (metis CONTAINER_ID_LENGTH_def zero_less_numeral)
  then obtain st where st: "InitUpload iv = Inr st" "con_times st = 3" by (simp add: InitUpload_def new_stream_def)
  show thesis by (rule that [OF st(1) session.start [OF assms st(1)] st(2)])
qed

lemma new_cache_ok: "cache_ok st (new_pool Cachesize Cachesize)"
  by (simp add: cache_ok_def new_pool_ok Cachesize_def ExistsInCache_def contains_def) (simp add: new_pool_def lru_new_def)

lemma InitServer_ok:
  assumes "env_ok env" "length iv = CRYPTO_BLOCK_SIZE" "2 \<le> k" "k < 2 ^ 31"
  obtains st where "InitServer env k forward iv = Inr st" "srv_ok env CS 3 [] st []"
proof -
  obtain store where store: "InitUpload iv = Inr store" "session store []" "con_times store = 3" by (rule InitUpload_total [OF assms(2)])
  obtain st where st: "InitServer env k forward iv = Inr st" "up_store (srv_up st) = store" using store(1) by (simp add: InitServer_def)
  have z: "in_wf zero_in" "out_wf zero_out" "sketch_usable (CMSketch_new (256 * 1024) 4)" "heap_usable new_heap"
    using sketch_new_ok [of "256 * 1024" 4] new_heap_ok [of 2]
    by (simp_all add: in_wf_def zero_in_def zero_recipe_def recipe_wf_def out_wf_def zero_out_def sketch_usable_def sketch_dims_def
        sketch_ok_def CMSketch_new_def heap_usable_def topk_ok_def new_heap_def CHUNK_HASH_SIZE_def)
  have e: "db_ok env empty_db [] CS" by (simp add: db_ok_def db_shape_def empty_db_def)
  have b: "buffers_ok env st" using st(1) store(1) z(1,2) by (auto simp: InitServer_def buffers_ok_def)
  have w: "ws_ok st" using st(1) store(1) by (auto simp: InitServer_def ws_ok_def htable_init_ok)
  have s: "storing env CS [] 3 st" using st(1) store w e new_cache_ok by (auto simp: InitServer_def storing_def)
  have r: "recipe_so_far env [] (inRecipe st) (recipeFile st)"
    using st(1) store(1) recipe_so_far_start [OF assms(1)] by (auto simp: InitServer_def)
  have "srv_ok env CS 3 [] st []" unfolding srv_ok_def
    using b z s r st(1) store(1) assms(3,4) by (auto simp: InitServer_def Size_def new_heap_def Contains_heap_def empty_db_def)
  with st(1) show thesis by (rule that)
qed


section \<open>The end of the upload, and the restore\<close>

text \<open>The environment of a restore: the containers and the index that the upload left behind.\<close>

definition restore_side :: "restore_env \<Rightarrow> server \<Rightarrow> restore_env" where
  "restore_side env st = env\<lparr>env_files := disk (up_store (srv_up st)), env_db := index_db st\<rparr>"

lemma recipe_file_side: "recipe_file (restore_side env st) fps = recipe_file env fps"
proof (induction env fps rule: recipe_file.induct)
  case (1 env fps)
  show ?case
    by (subst (1 2) recipe_file.simps, cases "EncryptWithKey (env_ssl env) cryptoObj (concat (take (sendRecipeBatchSize env) fps)) (masterKey env)")
      (use 1 in \<open>auto simp: restore_side_def\<close>)
qed

lemma restore_side_simps [simp]:
  "env_ssl (restore_side env st) = env_ssl env" "indexQueryKey (restore_side env st) = indexQueryKey env"
  "sendChunkBatchSize (restore_side env st) = sendChunkBatchSize env" "env_ok (restore_side env st) = env_ok env"
  by (simp_all add: restore_side_def env_ok_def)

lemma good_restores:
  assumes env: "env_ok env" "lz4_ok (env_lz4 env)" "chunks_ok env CS" and s: "session st hs" "Suc (con_times st) < 36 ^ CONTAINER_ID_LENGTH"
    and e: "end_upload st = Inr st'" and db: "db_ok env db hs CS" and g: "good env db hs CS r c"
  shows "restores (env\<lparr>env_files := disk st', env_db := db\<rparr>) r c"
proof -
  let ?env = "env\<lparr>env_files := disk st', env_db := db\<rparr>"
  have up: "unpacked ?env d = unpacked env d" for d by (simp add: unpacked_def)
  have pl: "plain ?env a d" if "kept_as env hs flag a d" for flag a d
  proof -
    have "plain (env\<lparr>env_files := disk st'\<rparr>) a d" by (rule kept_plain [OF s e kept_as_kept [OF that]])
    then show ?thesis by (simp add: plain_def decrypt_at_def)
  qed
  have un: "unpacked ?env (stored_form env True b) = b" if "b \<in> CS" for b
    unfolding up by (rule unpacked_stored [OF env(2)]) (use env(3) that in \<open>auto simp: chunks_ok_def\<close>)
  have c: "length c \<le> MAX_CHUNK_SIZE" using g env(3) by (auto simp: good_def chunks_ok_def)
  show ?thesis
  proof (cases "re_deltaFlag r = DELTA")
    case False
    then have "plain ?env r (stored_form env True c)" "c \<in> CS" using g pl by (auto simp: good_def)
    then show ?thesis using False c un by (auto simp: restores_def)
  next
    case True
    then obtain d where d: "plain ?env r d" "delta_of env db hs CS (basechunkHash r) d c" using g pl by (auto simp: good_def)
    obtain b base where b: "index_base env db (basechunkHash r) b" "base \<in> CS" "plain ?env b (stored_form env True base)"
      "ed3_decode d base = Inr c" using d(2) pl unfolding delta_of_def by blast
    obtain v where v: "indexObj db (basechunkHash r) = Some v" "enc_addr env b v" using b(1) by (auto simp: index_base_def)
    have "decrypt_recipe ?env v = Inr b" using enc_addr_dec(3) [OF env(1) v(2)] by (simp add: decrypt_recipe_def)
    moreover have "length (basechunkHash r) = CHUNK_HASH_SIZE" using db v(1) unfolding db_ok_def db_shape_def by blast
    ultimately have "address_of ?env (basechunkHash r) b" using v(1) enc_addr_dec(1) [OF env(1) v(2)] by (simp add: address_of_def Query_def)
    then show ?thesis unfolding restores_def using True c d(1) b(3,4) un [OF b(2)] by metis
  qed
qed

lemma indexed_restorable:
  assumes env: "env_ok env" "lz4_ok (env_lz4 env)" "chunks_ok env CS" and s: "session st hs" "Suc (con_times st) < 36 ^ CONTAINER_ID_LENGTH"
    and e: "end_upload st = Inr st'" and db: "db_ok env db hs CS" and c: "c \<in> CS"
    and i: "indexObj db (index_key env (fingerprint env c)) \<noteq> None"
  shows "restorable (env\<lparr>env_files := disk st', env_db := db\<rparr>) (fingerprint env c) c"
proof -
  let ?env = "env\<lparr>env_files := disk st', env_db := db\<rparr>" and ?k = "index_key env (fingerprint env c)"
  note fl = fingerprint_ok(2) [OF env(1)]
  obtain v where v: "indexObj db ?k = Some v" using i by blast
  then obtain c' r where r: "?k = index_key env (fingerprint env c')" "enc_addr env r v" "good env db hs CS r c'"
    using db unfolding db_ok_def by blast
  have "fingerprint env c = fingerprint env c'" using r(1) index_key_inject [OF env(1) fl fl] by blast
  moreover have "c' \<in> CS" using r(3) by (simp add: good_def)
  ultimately have "c' = c" using env(3) c unfolding chunks_ok_def by (metis inj_onD)
  then have "restores ?env r c" using good_restores [OF env s e db r(3)] by simp
  moreover have "decrypt_recipe ?env v = Inr r" using enc_addr_dec(3) [OF env(1) r(2)] by (simp add: decrypt_recipe_def)
  then have "address_of ?env ?k r" using v enc_addr_dec(1) [OF env(1) r(2)] index_key_ok(2) [OF env(1) fl]
    by (simp add: address_of_def Query_def)
  ultimately show ?thesis unfolding restorable_def using index_key_ok(1) [OF env(1) fl] fl by auto
qed

lemma finish_ok:
  assumes setting: "setting_ok env CS" and st: "srv_ok env CS n sofar st hs" and room: "n + length sofar + 2 < 36 ^ CONTAINER_ID_LENGTH"
  obtains st' where "finish_upload env st = Inr st'" "recipe_file env (map (fingerprint env) sofar) = Inr (recipeFile st')"
    "list_all2 (restorable (restore_side env st')) (map (fingerprint env) sofar) sofar"
proof -
  have env: "env_ok env" "lz4_ok (env_lz4 env)" "chunks_ok env CS" using setting by (simp_all add: setting_ok_def)
  have sto: "storing env CS hs (n + length sofar) st" and rec: "recipe_so_far env (map (fingerprint env) sofar) (inRecipe st) (recipeFile st)"
    and CS: "set sofar \<subseteq> CS" and ix: "\<forall>c \<in> set sofar. indexObj (index_db st) (index_key env (fingerprint env c)) \<noteq> None" using st by (simp_all add: srv_ok_def)
  have s: "session (up_store (srv_up st)) hs" "Suc (con_times (up_store (srv_up st))) < 36 ^ CONTAINER_ID_LENGTH"
    and db: "db_ok env (index_db st) hs CS" using sto room by (auto simp: storing_def)
  obtain r out where r: "tail_recipe env (inRecipe st) (recipeFile st) = Inr (r, out)" "recipe_file env (map (fingerprint env) sofar) = Inr out"
    by (rule recipe_so_far_end [OF rec])
  obtain store where e: "end_upload (up_store (srv_up st)) = Inr store" by (rule end_upload_total [OF s])
  let ?st = "st\<lparr>inRecipe := r, recipeFile := out, srv_up := (srv_up st)\<lparr>up_store := store\<rparr>\<rparr>"
  have side: "restore_side env ?st = env\<lparr>env_files := disk store, env_db := index_db st\<rparr>" by (simp add: restore_side_def)
  have "restorable (restore_side env ?st) (fingerprint env c) c" if "c \<in> set sofar" for c
    unfolding side by (rule indexed_restorable [OF env s e db]) (use that CS ix in blast)+
  then have "list_all2 (restorable (restore_side env ?st)) (map (fingerprint env) sofar) sofar"
    by (simp add: list_all2_map1 list_all2_same)
  moreover have "finish_upload env st = Inr ?st" using r(1) e by (simp add: finish_upload_def)
  ultimately show thesis using that [of ?st] r(2) by simp
qed

section \<open>Properties\<close>

text \<open>The chunks of the witnesses: two batches, the second of which repeats a chunk of the first.\<close>

definition sample_batches :: "byte list list list" where
  "sample_batches = [[[7, 8], [1, 2, 3]], [[7, 8]]]"

lemma sample_fingerprints: "fingerprint sample_env [7, 8] \<noteq> fingerprint sample_env [1, 2, 3]"
  by (simp add: fingerprint_def GenerateHash_def sample_env_def sample_ssl_def)

lemma sample_setting: "setting_ok sample_env (set (concat sample_batches))"
proof -
  have "raw_safe sample_env c" "lz4_ok (env_lz4 sample_env)" for c
    by (simp_all add: raw_safe_def lz4_ok_def sample_env_def sample_lz4_def)
  moreover have "sendChunkBatchSize sample_env \<le> 4000" by (simp add: sample_env_def)
  ultimately show ?thesis using sample_env_ok sample_fingerprints
    by (auto simp: setting_ok_def chunks_ok_def sample_batches_def MAX_CHUNK_SIZE_def)
qed

lemma sample_message:
  assumes "set cs \<subseteq> CS" "length cs \<le> 2"
  obtains data where "message_ok sample_env CS data cs"
proof -
  have k: "openssl_ok (env_ssl sample_env)" "length (sessionKey sample_env) = 32" using sample_env_ok by (simp_all add: env_ok_def)
  obtain data where "SessionKeyDec (env_ssl sample_env) cryptoObj data (sessionKey sample_env) = Inr (batch_bytes cs)"
    by (rule SessionKeyEnc_ok [OF k])
  then show thesis using assms that by (simp add: message_ok_def) (simp add: sample_env_def)
qed

lemma sample_messages:
  obtains msgs where "messages_ok sample_env (set (concat sample_batches)) msgs sample_batches"
proof -
  let ?CS = "set (concat sample_batches)"
  obtain d1 where d1: "message_ok sample_env ?CS d1 [[7, 8], [1, 2, 3]]" by (rule sample_message [of "[[7, 8], [1, 2, 3]]" ?CS]) (auto simp: sample_batches_def)
  obtain d2 where d2: "message_ok sample_env ?CS d2 [[7, 8]]" by (rule sample_message [of "[[7, 8]]" ?CS]) (auto simp: sample_batches_def)
  have "messages_ok sample_env ?CS [(\<lambda>i. i, d1, 2), (\<lambda>i. 0, d2, 1)] sample_batches"
    using d1 d2 by (simp add: messages_ok_def sample_batches_def)
  then show thesis by (rule that)
qed

lemma upload_total:
  assumes "setting_ok env CS" "messages_ok env CS msgs batches" "length iv = CRYPTO_BLOCK_SIZE" "2 \<le> k" "k < 2 ^ 31"
    "length (concat batches) + 5 < 36 ^ CONTAINER_ID_LENGTH"
  obtains st0 st1 hs where "InitServer env k forward iv = Inr st0" "upload_messages env msgs st0 = Inr st1"
    "srv_ok env CS 3 (concat batches) st1 hs"
proof -
  have env: "env_ok env" using assms(1) by (simp add: setting_ok_def)
  obtain st0 where st0: "InitServer env k forward iv = Inr st0" "srv_ok env CS 3 [] st0 []" by (rule InitServer_ok [OF env assms(3-5)])
  have "3 + length ([] :: byte list list) + length (concat batches) + 2 < 36 ^ CONTAINER_ID_LENGTH" using assms(6) by simp
  from upload_ok [OF assms(1,2) st0(2) this] st0(1) that show thesis by auto
qed









end
