(* ===== verification/Offline.thy ===== *)
theory Offline imports Batch "HOL-Library.AList" begin

text \<open>
  The offline pass after an upload: \<open>OFFLineBackward\<close> of \<open>ecallUtil/ecallOffline.cc\<close> with its OCALLs
  (\<open>ocallSrc/storeOCall.cc\<close>), \<open>ProcessOffline\<close> of \<open>ecallFreqIndex.cc\<close> and \<open>ProcessOff\<close> of
  \<open>Index/enclaveIndex.cc\<close>.  Every pair of an old and a new base chunk that the upload put off is
  worked off: the deltas of the old base are encoded over the new one, the old base becomes a
  delta of the new one itself, and both go to a hot container.  Then the records that were replaced are cut
  out of their containers, and small containers are merged.
\<close>

section \<open>State\<close>

text \<open>
  The fields of \<open>OFFLineBackward\<close> and of the client that the pass uses, the first entry of the
  query buffer (\<open>oe_\<close>), and what the OCALLs reach outside.  \<open>containerbuffer\<close> always points to
  \<open>tmpOcallcontainer\<close> here.  The buffers that are filled right before they are read
  (\<open>offline_oldIVBuffer_\<close> and the like) are values of the steps.  The counters of the statistics
  are left out but for the size of the backup, which the greedy test reads.
\<close>

record offline =
  of_db :: InMemoryDatabase
  of_files :: "bool \<times> byte list \<Rightarrow> byte list option"
  of_times :: nat
  oe_chunkHash :: "byte list"
  oe_chunkAddr :: "byte list"
  oe_superfeature :: "byte list"
  oe_offlineFlag :: bool
  oe_containersize :: nat
  ocall_container :: "byte list"
  local_map :: "(byte list \<times> byte list) list"
  cold_map :: "byte list \<Rightarrow> (nat \<times> nat) list option"
  cold_container_set :: "byte list list"
  cold_container_vector :: "byte list list"
  baseMergePair :: "(byte list \<times> byte list) list"
  delta_map :: multi
  hot_container :: Container_t
  BaseLinkOffline :: "DeltaRecord list"
  psHTable2Offline :: "nat htable"
  plainNewDeltaChunk :: "byte list"
  tmpUnique :: "byte list"
  mergeNewContainer :: "byte list"
  mergeContainer_body :: "byte list"
  process_buf :: "byte list"
  test_buf :: "byte list"
  out_buf :: "byte list"
  offlineCurrBackup_size :: u64

text \<open>
  The buffers as \<open>EnclaveClient\<close> and \<open>ClientVar\<close> allocate them for an upload; \<open>malloc\<close> promises no
  contents, and zeros stand for them.
\<close>

definition InitOffline :: offline where
  "InitOffline =
     \<lparr>of_db = empty_db, of_files = Map.empty, of_times = 0, oe_chunkHash = replicate CHUNK_HASH_SIZE 0,
      oe_chunkAddr = replicate sizeof_RecipeEntry 0, oe_superfeature = replicate (3 * CHUNK_HASH_SIZE) 0, oe_offlineFlag = False,
      oe_containersize = 0, ocall_container = replicate MAX_CONTAINER_SIZE 0, local_map = [], cold_map = Map.empty,
      cold_container_set = [], cold_container_vector = [], baseMergePair = [], delta_map = Map.empty,
      hot_container = \<lparr>containerID = replicate CONTAINER_ID_LENGTH 0, ct_deltaFlag = True, ct_body = replicate MAX_CONTAINER_SIZE 0, currentSize = 0\<rparr>,
      BaseLinkOffline = replicate (MAX_CHUNK_SIZE div STRMIN + 50) \<lparr>nHash = 0, nOffset = 0, nLength = 0, DupFlag = 0\<rparr>,
      psHTable2Offline = htable_init 0 8 (16 * 1024), plainNewDeltaChunk = replicate MAX_CHUNK_SIZE 0,
      tmpUnique = replicate MAX_CHUNK_SIZE 0, mergeNewContainer = replicate MAX_CONTAINER_SIZE 0,
      mergeContainer_body = replicate MAX_CONTAINER_SIZE 0, process_buf = replicate (100000 * CHUNK_HASH_SIZE) 0,
      test_buf = replicate (8000 * CHUNK_HASH_SIZE) 0, out_buf = replicate (4000 * CHUNK_HASH_SIZE) 0, offlineCurrBackup_size = 0\<rparr>"

section \<open>Pairs of bases\<close>

text \<open>
  \<open>Ocall_Localrevise\<close>: a base that was put off several times leads to its last successor, and so
  do the chunks it was passed over for; bases with few deltas come first.  \<open>pairs\<close> are the entries of
  \<open>_local_tmp_map\<close> in the order in which it iterates, \<open>order\<close> is the order of the map that is
  built; what \<open>sort\<close> does to pairs that compare equal is covered by the latter.
\<close>

definition greedy_basemap :: "(byte list \<times> byte list) list \<Rightarrow> multi \<Rightarrow> (byte list \<times> byte list) list" where
  "greedy_basemap pairs skip =
     fold (\<lambda>(old, new) m.
       let m = AList.update old new m in
       case skip old of
         None \<Rightarrow> m
       | Some fps \<Rightarrow> fold (\<lambda>fp. AList.update fp new) fps m) pairs []"

definition deltachunk_num :: "multi \<Rightarrow> byte list \<Rightarrow> nat" where
  "deltachunk_num di fp = (case di fp of None \<Rightarrow> 0 | Some fps \<Rightarrow> length fps)"

definition Ocall_Localrevise ::
    "(byte list \<times> byte list) list \<Rightarrow> (byte list list \<Rightarrow> byte list list) \<Rightarrow> offline \<Rightarrow> offline" where
  "Ocall_Localrevise pairs order st =
     (let m = greedy_basemap pairs (skipMap (of_db st));
          tmp_pair = map (\<lambda>fp. (fp, deltachunk_num (delta_index (of_db st)) fp)) (order (map fst m));
          more = map (\<lambda>(fp, _). (fp, the (map_of m fp))) (sort_key snd tmp_pair)
      in st\<lparr>local_map := local_map st @ more,
            of_db := (of_db st)\<lparr>local_tmp_map := Map.empty, skipMap := Map.empty\<rparr>\<rparr>)"

text \<open>\<open>Ocall_GetLocal\<close>: up to \<open>Local_Batch\<close> pairs, from the back of the vector.\<close>

definition Local_Batch :: nat where
  "Local_Batch = 100"

fun put_pairs :: "(byte list \<times> byte list) list \<Rightarrow> nat \<Rightarrow> byte list \<Rightarrow> byte list res" where
  "put_pairs [] offset buf = Inr buf"
| "put_pairs ((a, b) # ps) offset buf =
     res_bind (buf_write buf offset a) (\<lambda>buf.
     res_bind (buf_write buf (offset + CHUNK_HASH_SIZE) b) (put_pairs ps (offset + 2 * CHUNK_HASH_SIZE)))"

definition Ocall_GetLocal :: "offline \<Rightarrow> offline res" where
  "Ocall_GetLocal st =
     (let num = min Local_Batch (length (local_map st));
          rest = length (local_map st) - num in
      res_bind (buf_write (test_buf st) 0 (le32 (word_of_nat num))) (\<lambda>buf.
      res_bind (put_pairs (rev (drop rest (local_map st))) 4 buf) (\<lambda>buf.
        Inr (st\<lparr>test_buf := buf, local_map := take rest (local_map st)\<rparr>))))"

text \<open>The loop of the enclave that fills \<open>local_basemap\<close> from the buffer.\<close>

fun get_pairs :: "nat \<Rightarrow> nat \<Rightarrow> byte list \<Rightarrow> (byte list \<times> byte list) list \<Rightarrow> (byte list \<times> byte list) list res" where
  "get_pairs 0 offset buf m = Inr m"
| "get_pairs (Suc n) offset buf m =
     res_bind (buf_read buf offset CHUNK_HASH_SIZE) (\<lambda>old.
     res_bind (buf_read buf (offset + CHUNK_HASH_SIZE) CHUNK_HASH_SIZE) (\<lambda>new.
       get_pairs n (offset + 2 * CHUNK_HASH_SIZE) buf (AList.update old new m)))"

section \<open>Index and containers outside\<close>

text \<open>\<open>Ocall_OneRecipe\<close>; an unknown fingerprint is reported and the entry stays as it is.\<close>

definition Ocall_OneRecipe :: "offline \<Rightarrow> offline res" where
  "Ocall_OneRecipe st =
     res_bind (QueryBuffer (oe_chunkHash st) CHUNK_HASH_SIZE (of_db st)) (\<lambda>r.
       case r of
         None \<Rightarrow> Inr st
       | Some v \<Rightarrow> res_bind (buf_read v 0 sizeof_RecipeEntry) (\<lambda>addr. Inr (st\<lparr>oe_chunkAddr := addr\<rparr>)))"

definition Ocall_OneContainer :: "offline \<Rightarrow> offline res" where
  "Ocall_OneContainer st =
     (case of_files st (False, bslice (oe_chunkAddr st) 0 CONTAINER_ID_LENGTH) of
        None \<Rightarrow> Inr (st\<lparr>oe_offlineFlag := False\<rparr>)
      | Some f \<Rightarrow> res_bind (buf_write (ocall_container st) 0 f) (\<lambda>buf.
          Inr (st\<lparr>ocall_container := buf, oe_offlineFlag := True\<rparr>)))"

text \<open>A delta container that does not exist is reported; the buffer keeps what was read last.\<close>

definition Ocall_OneDeltaContainer :: "offline \<Rightarrow> offline res" where
  "Ocall_OneDeltaContainer st =
     (case of_files st (True, bslice (oe_chunkAddr st) 0 CONTAINER_ID_LENGTH) of
        None \<Rightarrow> Inr st
      | Some f \<Rightarrow> res_bind (buf_write (ocall_container st) 0 f) (\<lambda>buf. Inr (st\<lparr>ocall_container := buf\<rparr>)))"

definition Ocall_OneColdContainer :: "offline \<Rightarrow> (bool \<times> offline) res" where
  "Ocall_OneColdContainer st =
     (let name = bslice (oe_chunkAddr st) 0 CONTAINER_ID_LENGTH;
          deltaFlag = (of_files st (True, name) \<noteq> None) in
      case of_files st (deltaFlag, name) of
        None \<Rightarrow> Inr (deltaFlag, st)
      | Some f \<Rightarrow> res_bind (buf_write (ocall_container st) 0 f) (\<lambda>buf.
          Inr (deltaFlag, st\<lparr>ocall_container := buf, oe_containersize := length f\<rparr>)))"

text \<open>\<open>Ocall_OFFline_updateIndex\<close>: 0 drops the features of the entry, otherwise they are replaced.\<close>

definition Ocall_OFFline_updateIndex :: "nat \<Rightarrow> offline \<Rightarrow> offline res" where
  "Ocall_OFFline_updateIndex keySize st =
     res_bind (QueryBuffer (oe_chunkHash st) CHUNK_HASH_SIZE (of_db st)) (\<lambda>_.
     res_bind (InsertSF (oe_superfeature st) (oe_chunkHash st) (if keySize = 0 then 2 else 1) (of_db st)) (\<lambda>db.
       Inr (st\<lparr>of_db := db\<rparr>)))"

definition UpdateIndexStore :: "byte list \<Rightarrow> byte list \<Rightarrow> offline \<Rightarrow> offline res" where
  "UpdateIndexStore key buffer st =
     res_bind (InsertBothBuffer key (length key) buffer sizeof_RecipeEntry (of_db st)) (\<lambda>db. Inr (st\<lparr>of_db := db\<rparr>))"

text \<open>\<open>Ocall_QueryDeltaIndex\<close>: the fingerprint is at the front of the buffer, the answers go behind it.\<close>

fun put_hashes :: "byte list list \<Rightarrow> nat \<Rightarrow> byte list \<Rightarrow> byte list res" where
  "put_hashes [] i buf = Inr buf"
| "put_hashes (h # hs) i buf = res_bind (buf_write buf (i * CHUNK_HASH_SIZE) h) (put_hashes hs (Suc i))"

definition Ocall_QueryDeltaIndex :: "offline \<Rightarrow> (nat \<times> offline) res" where
  "Ocall_QueryDeltaIndex st =
     res_bind (buf_read (process_buf st) 0 CHUNK_HASH_SIZE) (\<lambda>fp.
       case QueryDeltaIndex fp (of_db st) of
         (None, db) \<Rightarrow> Inr (0, st\<lparr>of_db := db\<rparr>)
       | (Some fps, db) \<Rightarrow> res_bind (put_hashes fps 1 (process_buf st)) (\<lambda>buf.
           Inr (length fps, st\<lparr>of_db := db, process_buf := buf\<rparr>)))"

text \<open>\<open>memset\<close> and \<open>memcpy\<close> of the pair, then \<open>Ocall_UpdateDeltaIndex\<close> for one pair.\<close>

definition clear_process :: "byte list \<Rightarrow> byte list res" where
  "clear_process buf = buf_write buf 0 (replicate (1000 * CHUNK_HASH_SIZE) 0)"

definition note_delta :: "byte list \<Rightarrow> byte list \<Rightarrow> offline \<Rightarrow> offline res" where
  "note_delta base fp st =
     res_bind (clear_process (process_buf st)) (\<lambda>buf.
     res_bind (buf_write buf 0 base) (\<lambda>buf.
     res_bind (buf_write buf CHUNK_HASH_SIZE fp) (\<lambda>buf.
     res_bind (Ocall_UpdateDeltaIndex buf 0 1 (of_db st)) (\<lambda>db. Inr (st\<lparr>process_buf := buf, of_db := db\<rparr>)))))"

section \<open>Cold records\<close>

text \<open>
  \<open>_cold_container_set\<close> is an ordered set of strings.  \<open>Ocall_ColdInsert\<close> takes name, offset and
  length from the buffer; \<open>note_cold\<close> is the enclave's part.
\<close>

fun bytes_less :: "byte list \<Rightarrow> byte list \<Rightarrow> bool" where
  "bytes_less xs [] = False"
| "bytes_less [] (y # ys) = True"
| "bytes_less (x # xs) (y # ys) = (x < y \<or> x = y \<and> bytes_less xs ys)"

fun insert_name :: "byte list \<Rightarrow> byte list list \<Rightarrow> byte list list" where
  "insert_name x [] = [x]"
| "insert_name x (y # ys) = (if x = y then y # ys else if bytes_less x y then x # y # ys else y # insert_name x ys)"

definition push_cold :: "byte list \<Rightarrow> nat \<times> nat \<Rightarrow> (byte list \<Rightarrow> (nat \<times> nat) list option) \<Rightarrow> byte list \<Rightarrow> (nat \<times> nat) list option" where
  "push_cold name p m = m(name \<mapsto> (case m name of None \<Rightarrow> [] | Some ps \<Rightarrow> ps) @ [p])"

definition Ocall_ColdInsert :: "offline \<Rightarrow> offline res" where
  "Ocall_ColdInsert st =
     res_bind (buf_read (out_buf st) 0 CONTAINER_ID_LENGTH) (\<lambda>name.
     res_bind (buf_read (out_buf st) CONTAINER_ID_LENGTH 4) (\<lambda>offset.
     res_bind (buf_read (out_buf st) (CONTAINER_ID_LENGTH + 4) 4) (\<lambda>len.
       Inr (st\<lparr>cold_map := push_cold name (unat (get32 offset), unat (get32 len)) (cold_map st),
               cold_container_set := insert_name name (cold_container_set st)\<rparr>))))"

definition note_cold :: "byte list \<Rightarrow> nat \<times> nat \<Rightarrow> offline \<Rightarrow> offline res" where
  "note_cold name p st =
     res_bind (buf_write (out_buf st) 0 name) (\<lambda>buf.
     res_bind (buf_write buf CONTAINER_ID_LENGTH (le32 (word_of_nat (fst p)))) (\<lambda>buf.
     res_bind (buf_write buf (CONTAINER_ID_LENGTH + 4) (le32 (word_of_nat (snd p)))) (\<lambda>buf.
       Ocall_ColdInsert (st\<lparr>out_buf := buf\<rparr>))))"

text \<open>\<open>Ocall_Coldrevise\<close> and \<open>Ocall_GetCold\<close>: one container at a time, its regions from the back.\<close>

definition Cold_Batch :: nat where
  "Cold_Batch = 1"

definition Ocall_Coldrevise :: "offline \<Rightarrow> offline" where
  "Ocall_Coldrevise st = st\<lparr>cold_container_vector := cold_container_vector st @ cold_container_set st, cold_container_set := []\<rparr>"

fun put_regions :: "(nat \<times> nat) list \<Rightarrow> nat \<Rightarrow> byte list \<Rightarrow> (nat \<times> byte list) res" where
  "put_regions [] offset buf = Inr (offset, buf)"
| "put_regions ((a, b) # ps) offset buf =
     res_bind (buf_write buf offset (le32 (word_of_nat a))) (\<lambda>buf.
     res_bind (buf_write buf (offset + 4) (le32 (word_of_nat b))) (put_regions ps (offset + 8)))"

fun put_colds :: "byte list list \<Rightarrow> nat \<Rightarrow> byte list \<Rightarrow> (byte list \<Rightarrow> (nat \<times> nat) list option)
    \<Rightarrow> (byte list \<times> (byte list \<Rightarrow> (nat \<times> nat) list option)) res" where
  "put_colds [] offset buf m = Inr (buf, m)"
| "put_colds (name # names) offset buf m =
     (let ps = (case m name of None \<Rightarrow> [] | Some ps \<Rightarrow> ps) in
      res_bind (buf_write buf offset name) (\<lambda>buf.
      res_bind (buf_write buf (offset + CONTAINER_ID_LENGTH) (le32 (word_of_nat (length ps)))) (\<lambda>buf.
      res_bind (put_regions (rev ps) (offset + CONTAINER_ID_LENGTH + 4) buf) (\<lambda>(offset, buf).
        put_colds names offset buf (m(name := None))))))"

definition Ocall_GetCold :: "offline \<Rightarrow> offline res" where
  "Ocall_GetCold st =
     (let v = cold_container_vector st; num = min Cold_Batch (length v); rest = length v - num in
      res_bind (buf_write (out_buf st) 0 (le32 (word_of_nat num))) (\<lambda>buf.
      res_bind (put_colds (rev (drop rest v)) 4 buf (cold_map st)) (\<lambda>(buf, m).
        Inr (st\<lparr>out_buf := buf, cold_map := m, cold_container_vector := take rest v\<rparr>))))"

text \<open>The loops of the enclave that fill \<open>cold_basemap\<close> from the buffer.\<close>

fun get_regions :: "nat \<Rightarrow> nat \<Rightarrow> byte list \<Rightarrow> (nat \<times> nat) list \<Rightarrow> (nat \<times> (nat \<times> nat) list) res" where
  "get_regions 0 offset buf ps = Inr (offset, ps)"
| "get_regions (Suc n) offset buf ps =
     res_bind (buf_read buf offset 4) (\<lambda>a.
     res_bind (buf_read buf (offset + 4) 4) (\<lambda>b.
       get_regions n (offset + 8) buf (ps @ [(unat (get32 a), unat (get32 b))])))"

fun get_colds :: "nat \<Rightarrow> nat \<Rightarrow> byte list \<Rightarrow> (byte list \<times> (nat \<times> nat) list) list \<Rightarrow> (byte list \<times> (nat \<times> nat) list) list res" where
  "get_colds 0 offset buf m = Inr m"
| "get_colds (Suc n) offset buf m =
     res_bind (buf_read buf offset CONTAINER_ID_LENGTH) (\<lambda>name.
     res_bind (buf_read buf (offset + CONTAINER_ID_LENGTH) 4) (\<lambda>num.
     res_bind (get_regions (unat (get32 num)) (offset + CONTAINER_ID_LENGTH + 4) buf
         (case map_of m name of None \<Rightarrow> [] | Some ps \<Rightarrow> ps)) (\<lambda>(offset, ps).
       get_colds n offset buf (if ps = [] then m else AList.update name ps m))))"

section \<open>Chunks and deltas\<close>

text \<open>
  The recipe of a fingerprint; its container is then named in the entry, in front of what is
  left of the encrypted recipe.
\<close>

definition fetch_recipe :: "restore_env \<Rightarrow> byte list \<Rightarrow> offline \<Rightarrow> (RecipeEntry_t \<times> offline) res" where
  "fetch_recipe env fp st =
     res_bind (Ocall_OneRecipe (st\<lparr>oe_chunkHash := fp\<rparr>)) (\<lambda>st.
     res_bind (AESCBCDec (env_ssl env) cryptoObj (oe_chunkAddr st) (indexQueryKey env)) (\<lambda>b.
     res_bind (buf_write (oe_chunkAddr st) 0 (containerName (bytes_recipe b))) (\<lambda>addr.
       Inr (bytes_recipe b, st\<lparr>oe_chunkAddr := addr\<rparr>))))"

text \<open>
  The stored form of a chunk, its iv and its extent; then the chunk itself.  The size 0 is no
  error to the code here, but only the block of an empty chunk gives it, and none is stored.
\<close>

definition load_chunk :: "restore_env \<Rightarrow> byte list \<Rightarrow> RecipeEntry_t \<Rightarrow> (byte list \<times> byte list \<times> nat \<times> nat) res" where
  "load_chunk env container r =
     res_bind (GetChunk_content_buffer container r True (0, 0) (replicate MAX_CHUNK_SIZE 0)) (\<lambda>(buf, extent).
     res_bind (GetChunk_IV container r) (\<lambda>iv.
     res_bind (buf_read buf 0 (unat (re_length r))) (\<lambda>enc.
     res_bind (DecryptionWithKeyIV (env_ssl env) cryptoObj enc (enclaveKey env) iv) (\<lambda>x.
       Inr (x, iv, extent)))))"

definition plain_chunk :: "restore_env \<Rightarrow> byte list \<Rightarrow> byte list" where
  "plain_chunk env x = (case LZ4_decompress_safe (env_lz4 env) x MAX_CHUNK_SIZE of Some p \<Rightarrow> p | None \<Rightarrow> x)"

text \<open>The copy of \<open>EDeltaEncode\<close> in this class empties its hash table first.\<close>

definition off_EDeltaEncode ::
    "byte list \<Rightarrow> byte list \<Rightarrow> byte list \<Rightarrow> DeltaRecord list \<Rightarrow> nat htable
      \<Rightarrow> (byte list \<times> nat \<times> DeltaRecord list \<times> nat htable) res" where
  "off_EDeltaEncode new base buf bl h =
     (let (begSize, endSize) = detect_ends new base in
      EDeltaEncode new base buf bl (if length base \<le> begSize + endSize then h else ResetTable h))"

definition ed3_encode_buffer :: "byte list \<Rightarrow> byte list \<Rightarrow> offline \<Rightarrow> (byte list \<times> offline) res" where
  "ed3_encode_buffer new base st =
     res_bind (off_EDeltaEncode new base (plainNewDeltaChunk st) (BaseLinkOffline st) (psHTable2Offline st))
       (\<lambda>(buf, n, bl, h).
          Inr (take n buf, st\<lparr>plainNewDeltaChunk := buf, BaseLinkOffline := bl, psHTable2Offline := h\<rparr>))"

text \<open>A delta over the old base becomes a delta over the new one; the flag tells whether it is worth it.\<close>

definition resize_backup :: "nat \<Rightarrow> nat \<Rightarrow> offline \<Rightarrow> offline" where
  "resize_backup old new st =
     st\<lparr>offlineCurrBackup_size := offlineCurrBackup_size st - word_of_nat old + word_of_nat new\<rparr>"

definition GetNew_deltachunk ::
    "byte list \<Rightarrow> byte list \<Rightarrow> byte list \<Rightarrow> offline \<Rightarrow> (bool \<times> byte list \<times> offline) res" where
  "GetNew_deltachunk delta old_base new_base st =
     res_bind (EDeltaDecode delta (length delta) old_base (tmpUnique st)) (\<lambda>(buf, n).
     res_bind (buf_read buf 0 n) (\<lambda>chunk.
     res_bind (ed3_encode_buffer chunk new_base (st\<lparr>tmpUnique := buf\<rparr>)) (\<lambda>(delta', st).
       if length chunk < length delta' then Inr (False, delta', st)
       else Inr (True, delta', resize_backup (length delta) (length delta') st))))"

section \<open>The hot container\<close>

text \<open>\<open>InsertHot_container\<close>, with \<open>Ocall_SavehotContainer\<close> when the record does not fit.\<close>

definition hot_fits :: "nat \<Rightarrow> nat \<Rightarrow> bool" where
  "hot_fits chunkSize saveOffset \<longleftrightarrow>
     (chunkSize + saveOffset) mod 2 ^ 32 + sizeof_RecipeEntry + 4 * CHUNK_HASH_SIZE + CRYPTO_BLOCK_SIZE
       < MAX_CONTAINER_SIZE"

definition Ocall_SavehotContainer :: "offline \<Rightarrow> offline res" where
  "Ocall_SavehotContainer st =
     res_bind (buf_read (ct_body (hot_container st)) 0 (currentSize (hot_container st))) (\<lambda>body.
       Inr (st\<lparr>of_files := (of_files st)((True, containerID (hot_container st)) \<mapsto> body)\<rparr>))"

definition Init_hot :: "offline \<Rightarrow> offline res" where
  "Init_hot st =
     res_bind (CreateUUID CONTAINER_ID_LENGTH (of_times st)) (\<lambda>name.
       Inr (st\<lparr>of_times := Suc (of_times st),
               hot_container := (hot_container st)\<lparr>containerID := name, currentSize := 0\<rparr>\<rparr>))"

definition put_hot ::
    "byte list \<Rightarrow> RecipeEntry_t \<Rightarrow> byte list \<Rightarrow> byte list \<Rightarrow> byte list \<Rightarrow> offline \<Rightarrow> (RecipeEntry_t \<times> offline) res" where
  "put_hot data r fp sf iv st =
     (let c = hot_container st; saveOffset = currentSize c;
          r = r\<lparr>re_offset := word_of_nat saveOffset, re_deltaFlag := 1, containerName := containerID c\<rparr> in
      res_bind (copy_pieces (ct_body c) saveOffset [recipe_bytes r, fp, sf, data, iv]) (\<lambda>body.
        Inr (r, st\<lparr>hot_container := c\<lparr>ct_body := body, currentSize := saveOffset + length data
          + sizeof_RecipeEntry + 4 * CHUNK_HASH_SIZE + CRYPTO_BLOCK_SIZE\<rparr>\<rparr>)))"

definition InsertHot_container ::
    "byte list \<Rightarrow> RecipeEntry_t \<Rightarrow> byte list \<Rightarrow> byte list \<Rightarrow> byte list \<Rightarrow> offline \<Rightarrow> (RecipeEntry_t \<times> offline) res" where
  "InsertHot_container data r fp sf iv st =
     res_bind
       (if hot_fits (length data) (currentSize (hot_container st)) then Inr st
        else res_bind (Ocall_SavehotContainer st) Init_hot)
       (put_hot data r fp sf iv)"

text \<open>
  What follows for a record that is replaced, a delta or a base: its new content goes to the hot
  container under the iv it had, its address to the index, the pair to the delta index, and its
  old extent to the cold records.  The cipher text is an array of \<open>MAX_CHUNK_SIZE\<close> bytes.
\<close>

definition store_delta ::
    "restore_env \<Rightarrow> byte list \<Rightarrow> byte list \<Rightarrow> RecipeEntry_t \<Rightarrow> byte list \<Rightarrow> byte list \<Rightarrow> byte list \<Rightarrow> byte list
      \<Rightarrow> nat \<times> nat \<Rightarrow> offline \<Rightarrow> offline res" where
  "store_delta env new_hash key r delta fp sf iv extent st =
     (let r' = r\<lparr>re_length := word_of_nat (length delta), basechunkHash := new_hash\<rparr> in
      res_bind (EncryptWithKeyIV (env_ssl env) cryptoObj delta (enclaveKey env) iv) (\<lambda>enc.
      res_bind (res_guard OutOfBounds (length enc \<le> MAX_CHUNK_SIZE)) (\<lambda>_.
      res_bind (InsertHot_container enc r' fp sf iv st) (\<lambda>(r', st).
      res_bind (AESCBCEnc (env_ssl env) cryptoObj (recipe_bytes r') (indexQueryKey env)) (\<lambda>out.
      res_bind (UpdateIndexStore key out st) (\<lambda>st.
      res_bind (note_delta new_hash key st) (\<lambda>st.
        note_cold (containerName r) extent st)))))))"


section \<open>Working off the pairs\<close>

text \<open>
  One delta of the old base.  A delta that does not get shorter than its chunk stays where it is, and the old base
  must then stay a base.
\<close>

definition rebase_delta ::
    "restore_env \<Rightarrow> byte list \<Rightarrow> byte list \<Rightarrow> byte list \<Rightarrow> byte list \<Rightarrow> bool \<times> offline \<Rightarrow> (bool \<times> offline) res" where
  "rebase_delta env old_chunk new_chunk new_hash delta_hash = (\<lambda>(delta_flag, st).
     res_bind (fetch_recipe env delta_hash st) (\<lambda>(r, st).
     res_bind (Ocall_OneDeltaContainer st) (\<lambda>st.
     let tmpDeltaContainer = ocall_container st in
     res_bind (GetChunk_FP tmpDeltaContainer r) (\<lambda>fp.
     res_bind (GetChunk_SF tmpDeltaContainer r) (\<lambda>sf.
     res_bind (load_chunk env tmpDeltaContainer r) (\<lambda>(delta, iv, extent).
     res_bind (GetNew_deltachunk delta old_chunk new_chunk st) (\<lambda>(tmp_delta_flag, new_delta, st).
       if tmp_delta_flag
       then res_bind (store_delta env new_hash delta_hash r new_delta fp sf iv extent st) (\<lambda>st. Inr (delta_flag, st))
       else Inr (False, st))))))))"

text \<open>The answers of the delta index go to \<open>delta_map\<close>, whose entry is worked off and erased.\<close>

definition collect_deltas :: "byte list \<Rightarrow> offline \<Rightarrow> offline res" where
  "collect_deltas old_hash st =
     res_bind (clear_process (process_buf st)) (\<lambda>buf.
     res_bind (buf_write buf 0 old_hash) (\<lambda>buf.
     res_bind (Ocall_QueryDeltaIndex (st\<lparr>process_buf := buf\<rparr>)) (\<lambda>(n, st).
       Inr (st\<lparr>delta_map := fold (\<lambda>i. multi_push old_hash (bslice (process_buf st) (Suc i * CHUNK_HASH_SIZE) CHUNK_HASH_SIZE))
         [0..<n] (delta_map st)\<rparr>))))"

definition rebase_deltas ::
    "restore_env \<Rightarrow> byte list \<Rightarrow> byte list \<Rightarrow> byte list \<Rightarrow> byte list \<Rightarrow> offline \<Rightarrow> (bool \<times> offline) res" where
  "rebase_deltas env old_hash old_chunk new_chunk new_hash st =
     (case delta_map st old_hash of
        None \<Rightarrow> Inr (True, st)
      | Some hashes \<Rightarrow>
          res_bind (for_each (rebase_delta env old_chunk new_chunk new_hash) hashes (True, st)) (\<lambda>(delta_flag, st).
            Inr (delta_flag, st\<lparr>delta_map := (delta_map st)(old_hash := None)\<rparr>)))"

text \<open>Then the old base itself; the size of the backup is adjusted whatever became of the deltas.\<close>

definition rebase_old ::
    "restore_env \<Rightarrow> byte list \<Rightarrow> byte list \<Rightarrow> byte list \<Rightarrow> byte list \<Rightarrow> RecipeEntry_t \<Rightarrow> byte list \<Rightarrow> nat \<times> nat
      \<Rightarrow> bool \<Rightarrow> offline \<Rightarrow> offline res" where
  "rebase_old env old_hash old_chunk new_chunk new_hash r iv extent delta_flag st =
     res_bind (ed3_encode_buffer old_chunk new_chunk st) (\<lambda>(delta, st).
       if length old_chunk < length delta then Inr st
       else
         let st = resize_backup (unat (re_length r)) (length delta) st in
         if delta_flag then store_delta env new_hash old_hash r delta old_hash (superfeature r) iv extent st
         else Inr st)"

text \<open>
  A pair.  When the size of the backup has come down to the share \<open>GREEDY_THRESHOLD\<close> of what it
  was, only the features move; a pair whose containers cannot be read is skipped, where the
  features of the old base are gone already if only the new container is missing.
\<close>

definition GREEDY_THRESHOLD :: nat where
  "GREEDY_THRESHOLD = 0"

definition move_features :: "restore_env \<Rightarrow> byte list \<Rightarrow> nat \<Rightarrow> offline \<Rightarrow> offline res" where
  "move_features env hash keySize st =
     res_bind (Ocall_OneRecipe (st\<lparr>oe_chunkHash := hash\<rparr>)) (\<lambda>st.
     res_bind (AESCBCDec (env_ssl env) cryptoObj (oe_chunkAddr st) (indexQueryKey env)) (\<lambda>b.
       Ocall_OFFline_updateIndex keySize (st\<lparr>oe_superfeature := superfeature (bytes_recipe b)\<rparr>)))"

definition greedy_base :: "restore_env \<Rightarrow> byte list \<Rightarrow> byte list \<Rightarrow> offline \<Rightarrow> offline res" where
  "greedy_base env old_hash new_hash st =
     res_bind (move_features env old_hash 0 st) (\<lambda>st.
     res_bind (move_features env new_hash 1 st) (\<lambda>st.
     res_bind (clear_process (process_buf st)) (\<lambda>buf.
     res_bind (buf_write buf 0 old_hash) (\<lambda>buf.
     res_bind (Ocall_QueryDeltaIndex (st\<lparr>process_buf := buf\<rparr>)) (\<lambda>(_, st). Inr st)))))"

definition fetch_base ::
    "restore_env \<Rightarrow> byte list \<Rightarrow> nat \<Rightarrow> offline \<Rightarrow> ((RecipeEntry_t \<times> byte list) option \<times> offline) res" where
  "fetch_base env hash keySize st =
     res_bind (fetch_recipe env hash st) (\<lambda>(r, st).
     res_bind (Ocall_OneContainer st) (\<lambda>st.
       if \<not> oe_offlineFlag st then Inr (None, st)
       else res_bind (Ocall_OFFline_updateIndex keySize (st\<lparr>oe_superfeature := superfeature r\<rparr>)) (\<lambda>st.
              Inr (Some (r, ocall_container st), st))))"

definition rebase_base :: "restore_env \<Rightarrow> nat \<Rightarrow> byte list \<times> byte list \<Rightarrow> offline \<Rightarrow> offline res" where
  "rebase_base env GreeyOfflineSize = (\<lambda>(old_hash, new_hash) st.
     if unat (offlineCurrBackup_size st) \<le> GreeyOfflineSize then greedy_base env old_hash new_hash st
     else
       res_bind (fetch_base env old_hash 0 st) (\<lambda>(old, st).
       case old of
         None \<Rightarrow> Inr st
       | Some (old_recipe, old_container) \<Rightarrow>
           res_bind (fetch_base env new_hash 1 st) (\<lambda>(new, st).
           case new of
             None \<Rightarrow> Inr st
           | Some (new_recipe, new_container) \<Rightarrow>
               res_bind (load_chunk env old_container old_recipe) (\<lambda>(x, iv, extent).
               res_bind (load_chunk env new_container new_recipe) (\<lambda>(y, _, _).
               let old_chunk = plain_chunk env x; new_chunk = plain_chunk env y in
               res_bind (collect_deltas old_hash st) (\<lambda>st.
               res_bind (rebase_deltas env old_hash old_chunk new_chunk new_hash st) (\<lambda>(delta_flag, st).
                 rebase_old env old_hash old_chunk new_chunk new_hash old_recipe iv extent delta_flag st)))))))"

text \<open>
  The batches of pairs, from the buffer that holds the next one; \<open>order\<close> is the order in which
  the map of a batch is iterated.
\<close>

fun rebase_batches ::
    "nat \<Rightarrow> restore_env \<Rightarrow> nat \<Rightarrow> ((byte list \<times> byte list) list \<Rightarrow> (byte list \<times> byte list) list) \<Rightarrow> offline \<Rightarrow> offline res"
    where
  "rebase_batches 0 env gs order st = Inl NoReturn"
| "rebase_batches (Suc fuel) env gs order st =
     res_bind (buf_read (test_buf st) 0 4) (\<lambda>num.
     let backnum = unat (get32 num) in
     if backnum = 0 then Inr st
     else
       res_bind (get_pairs backnum 4 (test_buf st) []) (\<lambda>local_basemap.
       res_bind (Ocall_GetLocal st) (\<lambda>st.
       res_bind (for_each (rebase_base env gs) (order local_basemap) st) (\<lambda>st.
         rebase_batches fuel env gs order st))))"

section \<open>Cutting records out\<close>

text \<open>
  A record is copied behind \<open>newset\<close> with its recipe changed by \<open>f\<close>, and its address in the index
  is replaced.  \<open>record_rest\<close> is what follows the recipe in the record, in 32 bits.
\<close>

definition record_rest :: "RecipeEntry_t \<Rightarrow> nat" where
  "record_rest r = unat (re_length r + word_of_nat (4 * CHUNK_HASH_SIZE + CRYPTO_BLOCK_SIZE))"

definition copy_record ::
    "restore_env \<Rightarrow> (RecipeEntry_t \<Rightarrow> RecipeEntry_t) \<Rightarrow> byte list \<Rightarrow> nat \<Rightarrow> nat \<Rightarrow> byte list \<Rightarrow> offline
      \<Rightarrow> (nat \<times> byte list \<times> offline) res" where
  "copy_record env f src pos newset dst st =
     res_bind (buf_read src pos sizeof_RecipeEntry) (\<lambda>b.
     res_bind (buf_read src (pos + sizeof_RecipeEntry) CHUNK_HASH_SIZE) (\<lambda>hash.
     let r = f (bytes_recipe b); n = record_rest r in
     res_bind (buf_write dst newset (recipe_bytes r)) (\<lambda>dst.
     res_bind (buf_read src (pos + sizeof_RecipeEntry) n) (\<lambda>rest.
     res_bind (buf_write dst (newset + sizeof_RecipeEntry) rest) (\<lambda>dst.
     res_bind (AESCBCEnc (env_ssl env) cryptoObj (recipe_bytes r) (indexQueryKey env)) (\<lambda>out.
     res_bind (UpdateIndexStore hash out st) (\<lambda>st. Inr (n, dst, st))))))))"

function copy_until ::
    "restore_env \<Rightarrow> (RecipeEntry_t \<Rightarrow> RecipeEntry_t) \<Rightarrow> byte list \<Rightarrow> nat \<Rightarrow> nat \<Rightarrow> nat \<Rightarrow> byte list \<Rightarrow> offline
      \<Rightarrow> (nat \<times> nat \<times> byte list \<times> offline) res" where
  "copy_until env f src limit pos newset dst st =
     (if pos < limit
      then res_bind (copy_record env f src pos newset dst st) (\<lambda>(n, dst, st).
             copy_until env f src limit (pos + sizeof_RecipeEntry + n) (newset + sizeof_RecipeEntry + n) dst st)
      else Inr (pos, newset, dst, st))"
  by pat_completeness auto
termination
  by (relation "measure (\<lambda>(env, f, src, limit, pos, newset, dst, st). limit - pos)")
    (auto simp: sizeof_RecipeEntry_def)

declare copy_until.simps [simp del]

text \<open>The regions in order; \<open>coldset\<close> is the number of bytes that are left out so far.\<close>

definition shift_back :: "nat \<Rightarrow> RecipeEntry_t \<Rightarrow> RecipeEntry_t" where
  "shift_back coldset r = r\<lparr>re_offset := re_offset r - word_of_nat coldset\<rparr>"

fun cut_regions ::
    "restore_env \<Rightarrow> byte list \<Rightarrow> (nat \<times> nat) list \<Rightarrow> nat \<Rightarrow> nat \<Rightarrow> nat \<Rightarrow> byte list \<Rightarrow> offline
      \<Rightarrow> (nat \<times> nat \<times> nat \<times> byte list \<times> offline) res" where
  "cut_regions env src [] coldset saveset newset dst st = Inr (coldset, saveset, newset, dst, st)"
| "cut_regions env src ((a, b) # ps) coldset saveset newset dst st =
     res_bind (copy_until env (shift_back coldset) src a saveset newset dst st) (\<lambda>(saveset, newset, dst, st).
       cut_regions env src ps ((coldset + b) mod 2 ^ 32) ((saveset + b) mod 2 ^ 32) newset dst st)"

definition Ocall_SaveColdContainer :: "byte list \<Rightarrow> byte list \<Rightarrow> nat \<Rightarrow> bool \<Rightarrow> offline \<Rightarrow> offline res" where
  "Ocall_SaveColdContainer name body n delta_flag st =
     res_bind (buf_read body 0 n) (\<lambda>f. Inr (st\<lparr>of_files := (of_files st)((delta_flag, name) \<mapsto> f)\<rparr>))"

definition Update_cold_container :: "restore_env \<Rightarrow> byte list \<times> (nat \<times> nat) list \<Rightarrow> offline \<Rightarrow> offline res" where
  "Update_cold_container env = (\<lambda>(container_id, cold_basechunk) st.
     res_bind (buf_write (oe_chunkAddr st) 0 container_id) (\<lambda>addr.
     res_bind (Ocall_OneColdContainer (st\<lparr>oe_chunkAddr := addr\<rparr>)) (\<lambda>(delta_flag, st).
     let Cold_container_size = oe_containersize st; Cold_container = ocall_container st in
     res_bind (cut_regions env Cold_container (sort_key fst cold_basechunk) 0 0 0 (mergeNewContainer st) st)
       (\<lambda>(coldset, saveset, newset, dst, st).
     res_bind (copy_until env (shift_back coldset) Cold_container Cold_container_size saveset newset dst st)
       (\<lambda>(saveset, newset, dst, st).
     res_bind (res_guard OutOfBounds (coldset \<le> Cold_container_size)) (\<lambda>_.
       Ocall_SaveColdContainer container_id dst (Cold_container_size - coldset) delta_flag
         (st\<lparr>mergeNewContainer := dst\<rparr>)))))))"

text \<open>The loop over the containers, from the buffer that holds the next one.\<close>

fun cold_batches ::
    "nat \<Rightarrow> restore_env
      \<Rightarrow> ((byte list \<times> (nat \<times> nat) list) list \<Rightarrow> (byte list \<times> (nat \<times> nat) list) list) \<Rightarrow> offline \<Rightarrow> offline res"
    where
  "cold_batches 0 env order st = Inl NoReturn"
| "cold_batches (Suc fuel) env order st =
     res_bind (buf_read (out_buf st) 0 4) (\<lambda>num.
     let ColdContainernum = unat (get32 num) in
     if ColdContainernum = 0 then Inr st
     else
       res_bind (get_colds ColdContainernum 4 (out_buf st) []) (\<lambda>cold_basemap.
       res_bind (Ocall_GetCold st) (\<lambda>st.
       res_bind (for_each (Update_cold_container env) (order cold_basemap) st) (\<lambda>st.
         cold_batches fuel env order st))))"

section \<open>Merging\<close>

text \<open>
  Neighbours in the sorted list of base containers that fit into one are merged; \<open>listing\<close> is
  the directory as the file system lists it.
\<close>

fun merge_pairs :: "(byte list \<Rightarrow> nat) \<Rightarrow> byte list list \<Rightarrow> (byte list \<times> byte list) list" where
  "merge_pairs len (a # b # ns) =
     (if (len a + len b) mod 2 ^ 32 < MAX_CONTAINER_SIZE - 1 then (a, b) # merge_pairs len ns
      else merge_pairs len (b # ns))"
| "merge_pairs len ns = []"

definition file_size :: "(bool \<times> byte list \<Rightarrow> byte list option) \<Rightarrow> byte list \<Rightarrow> nat" where
  "file_size files name = (case files (False, name) of None \<Rightarrow> 0 | Some f \<Rightarrow> length f)"

definition Ocall_GetMergeContainer ::
    "((bool \<times> byte list \<Rightarrow> byte list option) \<Rightarrow> byte list list) \<Rightarrow> offline \<Rightarrow> offline" where
  "Ocall_GetMergeContainer listing st =
     st\<lparr>baseMergePair := baseMergePair st @
       merge_pairs (file_size (of_files st)) (fold insert_name (listing (of_files st)) [])\<rparr>"

text \<open>One pair: \<open>Ocall_GetMergePair\<close>, the records of the second container, \<open>Ocall_MergeContent\<close>.\<close>

definition move_to :: "byte list \<Rightarrow> nat \<Rightarrow> RecipeEntry_t \<Rightarrow> RecipeEntry_t" where
  "move_to name n r = r\<lparr>re_offset := re_offset r + word_of_nat n, containerName := name\<rparr>"

definition Ocall_MergeContent :: "byte list \<times> byte list \<Rightarrow> byte list \<Rightarrow> offline \<Rightarrow> offline" where
  "Ocall_MergeContent = (\<lambda>(a, b) body st.
     let old = (case of_files st (False, a) of None \<Rightarrow> [] | Some f \<Rightarrow> f) in
     st\<lparr>of_files := (of_files st)((False, a) \<mapsto> old @ body, (False, b) := None),
        baseMergePair := tl (baseMergePair st)\<rparr>)"

definition merge_pair :: "restore_env \<Rightarrow> byte list \<times> byte list \<Rightarrow> offline \<Rightarrow> offline res" where
  "merge_pair env = (\<lambda>(a, b) st.
     case of_files st (False, b) of
       None \<Rightarrow> Inl ExitError
     | Some f \<Rightarrow>
         res_bind (buf_write (mergeContainer_body st) 0 f) (\<lambda>body.
         let st = st\<lparr>mergeContainer_body := body, oe_containersize := length f\<rparr> in
         res_bind (copy_until env (move_to a (file_size (of_files st) a)) body (length f) 0 0 (mergeNewContainer st) st)
           (\<lambda>(_, _, dst, st).
         res_bind (buf_read dst 0 (length f)) (\<lambda>moved.
           Inr (Ocall_MergeContent (a, b) moved (st\<lparr>mergeNewContainer := dst\<rparr>))))))"

definition Ocall_CleanMerge :: "offline \<Rightarrow> offline res" where
  "Ocall_CleanMerge st =
     res_bind (buf_write (oe_chunkAddr st) 8 (le32 0)) (\<lambda>addr. Inr (st\<lparr>baseMergePair := [], oe_chunkAddr := addr\<rparr>))"

definition MergeContainer ::
    "restore_env \<Rightarrow> ((bool \<times> byte list \<Rightarrow> byte list option) \<Rightarrow> byte list list) \<Rightarrow> offline \<Rightarrow> offline res" where
  "MergeContainer env listing st =
     (let st = Ocall_GetMergeContainer listing st in
      res_bind (for_each (merge_pair env) (baseMergePair st) st) Ocall_CleanMerge)"

section \<open>The pass\<close>

text \<open>
  The orders in which the maps are iterated and the listing of the directory.  Each batch takes at
  least one pair or container off its vector, so the fuel is enough.
\<close>

record offline_env =
  order_names :: "byte list list \<Rightarrow> byte list list"
  order_pairs :: "(byte list \<times> byte list) list \<Rightarrow> (byte list \<times> byte list) list"
  order_colds :: "(byte list \<times> (nat \<times> nat) list) list \<Rightarrow> (byte list \<times> (nat \<times> nat) list) list"
  dir_listing :: "(bool \<times> byte list \<Rightarrow> byte list option) \<Rightarrow> byte list list"

definition Easy_update :: "restore_env \<Rightarrow> offline_env \<Rightarrow> offline \<Rightarrow> offline res" where
  "Easy_update env oenv st =
     (let gs = GREEDY_THRESHOLD * unat (offlineCurrBackup_size st) in
      res_bind (Ocall_GetLocal st) (\<lambda>st1.
      res_bind (rebase_batches (Suc (length (local_map st))) env gs (order_pairs oenv) st1) (\<lambda>st.
      res_bind (if currentSize (hot_container st) \<noteq> 0 then Ocall_SavehotContainer st else Inr st) (\<lambda>st.
      let st = Ocall_Coldrevise st in
      res_bind (Ocall_GetCold st) (\<lambda>st1.
      res_bind (cold_batches (Suc (length (cold_container_vector st))) env (order_colds oenv) st1) (\<lambda>st.
      res_bind (MergeContainer env (dir_listing oenv) st) (\<lambda>st.
        Inr (st\<lparr>delta_map := Map.empty\<rparr>))))))))"

definition ProcessOffline :: "restore_env \<Rightarrow> offline_env \<Rightarrow> bool \<Rightarrow> u64 \<Rightarrow> offline \<Rightarrow> offline res" where
  "ProcessOffline env oenv Offline_Flag onlineBackup_size st =
     res_bind (Init_hot (st\<lparr>offlineCurrBackup_size := onlineBackup_size\<rparr>)) (\<lambda>st.
       if Offline_Flag then Easy_update env oenv st else Inr (st\<lparr>local_map := []\<rparr>))"

text \<open>
  \<open>ProcessOff\<close> of the server: what the pass shares with the upload goes in and comes back.  The
  counter of container names, the scratch container and the first query entry are shared as well.
\<close>

definition enter_offline :: "server \<Rightarrow> offline \<Rightarrow> offline res" where
  "enter_offline srv st =
     res_bind (entry_at (outQueryBase srv) 0) (\<lambda>q.
       let store = up_store (srv_up srv) in
       Inr (st\<lparr>of_db := index_db srv, of_files := disk store, of_times := con_times store,
               oe_chunkHash := oq_chunkHash q, oe_chunkAddr := oq_chunkAddr q, oe_superfeature := oq_superfeature q,
               oe_offlineFlag := (oq_offlineFlag q \<noteq> 0), ocall_container := tmpOcallcontainer srv,
               process_buf := process_buffer srv, test_buf := test_buffer srv\<rparr>))"

definition leave_offline :: "offline \<Rightarrow> server \<Rightarrow> server res" where
  "leave_offline st srv =
     res_bind (entry_at (outQueryBase srv) 0) (\<lambda>q.
       Inr (put_out 0 (q\<lparr>oq_chunkHash := oe_chunkHash st, oq_chunkAddr := oe_chunkAddr st,
                         oq_superfeature := oe_superfeature st, oq_offlineFlag := (if oe_offlineFlag st then 1 else 0)\<rparr>)
         (srv\<lparr>index_db := of_db st, tmpOcallcontainer := ocall_container st, process_buffer := process_buf st,
              test_buffer := test_buf st,
              srv_up := (srv_up srv)\<lparr>up_store := (up_store (srv_up srv))\<lparr>disk := of_files st, con_times := of_times st\<rparr>\<rparr>\<rparr>)))"

definition ProcessOff ::
    "restore_env \<Rightarrow> offline_env \<Rightarrow> bool \<Rightarrow> (byte list \<times> byte list) list \<Rightarrow> server \<times> offline \<Rightarrow> (server \<times> offline) res" where
  "ProcessOff env oenv Offline_Flag pairs = (\<lambda>(srv, st).
     res_bind (enter_offline srv st) (\<lambda>st.
     let st = Ocall_Localrevise pairs (order_names oenv) st in
     res_bind (ProcessOffline env oenv Offline_Flag (word_of_nat (onlineBackupSize (srv_up srv))) st) (\<lambda>st.
     res_bind (leave_offline st srv) (\<lambda>srv. Inr (srv, st)))))"

end
