(* ===== verification/Offline_Catalog.thy ===== *)
theory Offline_Catalog imports Batch_Props Offline begin

text \<open>
  The repository as a catalog: which records each container holds, which of them the index points
  to, and what the index promises about the chunks.  Records that are copied, with changed
  offsets and names, keep what they hold; the copying loops of \<open>Update_cold_container\<close> and
  \<open>MergeContainer\<close> do exactly that.
\<close>

section \<open>Catalogues\<close>

type_synonym catalog = "bool \<times> byte list \<Rightarrow> srec list option"

definition disk_of :: "catalog \<Rightarrow> bool \<times> byte list \<Rightarrow> byte list option" where
  "disk_of cat k = map_option content (cat k)"

definition extent :: "srec \<Rightarrow> nat \<times> nat" where
  "extent s = (unat (re_offset (s_addr s)), length (srec_bytes s))"

definition in_cat :: "catalog \<Rightarrow> bool \<Rightarrow> srec \<Rightarrow> bool" where
  "in_cat cat flag s \<longleftrightarrow> (\<exists>rs. cat (flag, containerName (s_addr s)) = Some rs \<and> s \<in> set rs)"

definition cat_ok :: "catalog \<Rightarrow> bool" where
  "cat_ok cat \<longleftrightarrow>
     (\<forall>k rs. cat k = Some rs \<longrightarrow> placed (snd k) 0 rs \<and> length (content rs) \<le> MAX_CONTAINER_SIZE \<and> length (snd k) = CONTAINER_ID_LENGTH) \<and>
     (\<forall>n. cat (False, n) = None \<or> cat (True, n) = None)"

definition live :: "restore_env \<Rightarrow> InMemoryDatabase \<Rightarrow> srec \<Rightarrow> bool" where
  "live env db s \<longleftrightarrow> (\<exists>v. indexObj db (s_fp s) = Some v \<and> enc_addr env (s_addr s) v)"

definition keeps :: "restore_env \<Rightarrow> InMemoryDatabase \<Rightarrow> (byte list \<Rightarrow> byte list) \<Rightarrow> bool \<Rightarrow> srec \<Rightarrow> bool" where
  "keeps env db orig flag s \<longleftrightarrow>
     (\<exists>d. DecryptionWithKeyIV (env_ssl env) cryptoObj (s_data s) (enclaveKey env) (s_iv s) = Inr d \<and>
        length d = length (s_data s) \<and> length d \<le> MAX_CHUNK_SIZE \<and>
        (if flag then re_deltaFlag (s_addr s) = DELTA \<and> (\<exists>b. index_base env db (basechunkHash (s_addr s)) b) \<and>
              ed3_decode d (orig (basechunkHash (s_addr s))) = Inr (orig (s_fp s))
         else re_deltaFlag (s_addr s) = NO_DELTA \<and> unpacked env d = orig (s_fp s)))"

definition repo_ok ::
    "restore_env \<Rightarrow> (byte list \<Rightarrow> byte list) \<Rightarrow> catalog \<Rightarrow> InMemoryDatabase \<Rightarrow> (byte list \<Rightarrow> (nat \<times> nat) list) \<Rightarrow> bool" where
  "repo_ok env orig cat db colds \<longleftrightarrow> cat_ok cat \<and>
     (\<forall>k v. indexObj db k = Some v \<longrightarrow> length k = CHUNK_HASH_SIZE \<and> length (orig k) \<le> MAX_CHUNK_SIZE \<and>
        (\<exists>flag s. in_cat cat flag s \<and> s_fp s = k \<and> enc_addr env (s_addr s) v \<and> keeps env db orig flag s)) \<and>
     (\<forall>n. distinct (colds n) \<and>
        set (colds n) = extent ` {s. \<exists>flag. in_cat cat flag s \<and> containerName (s_addr s) = n \<and> \<not> live env db s})"

section \<open>Records that move\<close>

definition displaced :: "byte list \<Rightarrow> nat \<Rightarrow> srec \<Rightarrow> srec" where
  "displaced name off s = s\<lparr>s_addr := (s_addr s)\<lparr>re_offset := word_of_nat off, containerName := name\<rparr>\<rparr>"

fun relocate :: "byte list \<Rightarrow> nat \<Rightarrow> srec list \<Rightarrow> srec list" where
  "relocate name off [] = []"
| "relocate name off (s # ss) = displaced name off s # relocate name (off + length (srec_bytes s)) ss"

lemma displaced_simps [simp]:
  "s_fp (displaced n off s) = s_fp s" "s_sf (displaced n off s) = s_sf s" "s_data (displaced n off s) = s_data s" "s_iv (displaced n off s) = s_iv s"
  "containerName (s_addr (displaced n off s)) = n" "re_deltaFlag (s_addr (displaced n off s)) = re_deltaFlag (s_addr s)"
  "basechunkHash (s_addr (displaced n off s)) = basechunkHash (s_addr s)"
  by (simp_all add: displaced_def)

lemma displaced_wf: "recipe_wf (s_addr s) \<Longrightarrow> length n = CONTAINER_ID_LENGTH \<Longrightarrow> recipe_wf (s_addr (displaced n off s))"
  by (simp add: displaced_def recipe_wf_def)

lemma displaced_bytes_length:
  "srec_ok n0 p s \<Longrightarrow> length n = CONTAINER_ID_LENGTH \<Longrightarrow> length (srec_bytes (displaced n off s)) = length (srec_bytes s)"
  by (simp add: srec_bytes_def srec_ok_def displaced_wf)

lemma displaced_ok:
  "srec_ok n0 p s \<Longrightarrow> length n = CONTAINER_ID_LENGTH \<Longrightarrow> off < 2 ^ 32 \<Longrightarrow> srec_ok n off (displaced n off s)"
  by (auto simp: srec_ok_def displaced_wf) (simp_all add: displaced_def unat_of_nat)

lemma relocate_length: "placed n0 p ss \<Longrightarrow> length n = CONTAINER_ID_LENGTH \<Longrightarrow> length (content (relocate n off ss)) = length (content ss)"
  by (induction ss arbitrary: p off) (auto simp: displaced_bytes_length)

lemma relocate_placed:
  "placed n0 p ss \<Longrightarrow> length n = CONTAINER_ID_LENGTH \<Longrightarrow> off + length (content ss) < 2 ^ 32 \<Longrightarrow> placed n off (relocate n off ss)"
proof (induction ss arbitrary: p off)
  case (Cons s ss)
  then show ?case by (auto simp: displaced_ok displaced_bytes_length intro: Cons.IH)
qed simp

lemma relocate_append: "relocate n off (ss @ ts) = relocate n off ss @ relocate n (off + length (content ss)) ts"
  by (induction ss arbitrary: off) (auto simp: add.assoc)

lemma relocate_fps: "map s_fp (relocate n off ss) = map s_fp ss"
  by (induction ss arbitrary: off) simp_all

lemma set_relocate: "s \<in> set (relocate n off ss) \<Longrightarrow> \<exists>t off'. t \<in> set ss \<and> s = displaced n off' t"
  by (induction ss arbitrary: off) (auto, meson)

lemma relocate_of: "t \<in> set ss \<Longrightarrow> \<exists>off'. displaced n off' t \<in> set (relocate n off ss)"
  by (induction ss arbitrary: off) auto

section \<open>Copying records\<close>

definition reindexed :: "restore_env \<Rightarrow> srec list \<Rightarrow> InMemoryDatabase \<Rightarrow> InMemoryDatabase \<Rightarrow> bool" where
  "reindexed env rs db db' \<longleftrightarrow> (\<exists>I. db' = db\<lparr>indexObj := I\<rparr> \<and> (\<forall>k. k \<notin> s_fp ` set rs \<longrightarrow> I k = indexObj db k) \<and>
     dom I = dom (indexObj db) \<union> s_fp ` set rs \<and>
     (distinct (map s_fp rs) \<longrightarrow> (\<forall>s \<in> set rs. \<exists>v. I (s_fp s) = Some v \<and> enc_addr env (s_addr s) v)))"

lemma reindexed_Nil [simp]: "reindexed env [] db db"
  unfolding reindexed_def by (intro exI [of _ "indexObj db"]) simp

lemma reindexed_Cons:
  assumes "enc_addr env (s_addr s) v" "reindexed env rs (db\<lparr>indexObj := (indexObj db)(s_fp s \<mapsto> v)\<rparr>) db'"
  shows "reindexed env (s # rs) db db'"
proof -
  obtain I where I: "db' = db\<lparr>indexObj := I\<rparr>" "\<forall>k. k \<notin> s_fp ` set rs \<longrightarrow> I k = ((indexObj db)(s_fp s \<mapsto> v)) k"
    "dom I = dom (indexObj (db\<lparr>indexObj := (indexObj db)(s_fp s \<mapsto> v)\<rparr>)) \<union> s_fp ` set rs"
    "distinct (map s_fp rs) \<longrightarrow> (\<forall>s \<in> set rs. \<exists>v. I (s_fp s) = Some v \<and> enc_addr env (s_addr s) v)"
    using assms(2) unfolding reindexed_def by auto
  have "\<exists>v. I (s_fp s) = Some v \<and> enc_addr env (s_addr s) v" if "s_fp s \<notin> s_fp ` set rs"
    using I(2) assms(1) that by simp
  then show ?thesis unfolding reindexed_def using I by (intro exI [of _ I]) auto
qed

lemma reindexed_append:
  assumes "reindexed env rs db db1" "reindexed env rs' db1 db'"
  shows "reindexed env (rs @ rs') db db'"
proof -
  obtain I where I: "db1 = db\<lparr>indexObj := I\<rparr>" "\<forall>k. k \<notin> s_fp ` set rs \<longrightarrow> I k = indexObj db k"
    "distinct (map s_fp rs) \<longrightarrow> (\<forall>s \<in> set rs. \<exists>v. I (s_fp s) = Some v \<and> enc_addr env (s_addr s) v)"
    "dom I = dom (indexObj db) \<union> s_fp ` set rs"
    using assms(1) unfolding reindexed_def by auto
  obtain J where J: "db' = db1\<lparr>indexObj := J\<rparr>" "\<forall>k. k \<notin> s_fp ` set rs' \<longrightarrow> J k = indexObj db1 k"
    "distinct (map s_fp rs') \<longrightarrow> (\<forall>s \<in> set rs'. \<exists>v. J (s_fp s) = Some v \<and> enc_addr env (s_addr s) v)"
    "dom J = dom (indexObj db1) \<union> s_fp ` set rs'"
    using assms(2) unfolding reindexed_def by auto
  have "\<exists>v. J (s_fp s) = Some v \<and> enc_addr env (s_addr s) v" if "distinct (map s_fp (rs @ rs'))" "s \<in> set rs" for s
  proof -
    have "s_fp s \<notin> s_fp ` set rs'" "distinct (map s_fp rs)" using that by auto
    then show ?thesis using I J that(2) by simp
  qed
  moreover have "J k = indexObj db k" if "k \<notin> s_fp ` set (rs @ rs')" for k using I(1,2) J(2) that by (simp add: image_Un)
  moreover have "\<exists>v. J (s_fp s) = Some v \<and> enc_addr env (s_addr s) v" if "distinct (map s_fp (rs @ rs'))" "s \<in> set rs'" for s
    using J(3) that by simp
  moreover have "dom J = dom (indexObj db) \<union> s_fp ` set (rs @ rs')" using I(1,4) J(4) by (simp add: image_Un Un_assoc)
  ultimately show ?thesis unfolding reindexed_def using I(1) J(1) by (intro exI [of _ J]) auto
qed

lemma reindexed_dom:
  assumes "reindexed env (relocate m off ks) db db'" "\<forall>s \<in> set ks. live env db s"
  shows "dom (indexObj db') = dom (indexObj db)"
proof -
  have "s_fp ` set (relocate m off ks) = s_fp ` set ks" by (metis list.set_map relocate_fps)
  moreover have "s_fp ` set ks \<subseteq> dom (indexObj db)" using assms(2) by (auto simp: live_def)
  moreover obtain I where "db' = db\<lparr>indexObj := I\<rparr>" "dom I = dom (indexObj db) \<union> s_fp ` set (relocate m off ks)"
    using assms(1) unfolding reindexed_def by blast
  ultimately show ?thesis by (simp add: Un_absorb2)
qed

lemma UpdateIndexStore_ok:
  assumes "length key = CHUNK_HASH_SIZE" "length v = sizeof_RecipeEntry"
  shows "UpdateIndexStore key v st = Inr (st\<lparr>of_db := (of_db st)\<lparr>indexObj := (indexObj (of_db st))(key \<mapsto> v)\<rparr>\<rparr>)"
  using assms by (simp add: UpdateIndexStore_def InsertBothBuffer_def buf_read_def bslice_full)

lemma nat_word: "word_of_nat (unat w) = (w :: 'a :: len word)"
  by simp

lemma record_rest_ok: "srec_ok n p s \<Longrightarrow> length (s_data s) < 2 ^ 31 \<Longrightarrow> re_length r = re_length (s_addr s) \<Longrightarrow>
  record_rest r = length (s_data s) + 4 * CHUNK_HASH_SIZE + CRYPTO_BLOCK_SIZE"
  by (simp add: record_rest_def srec_ok_def size_consts unat_word_ariths unat_of_nat)

lemma srec_split: "srec_ok n p s \<Longrightarrow> length (srec_bytes s) = sizeof_RecipeEntry + (length (s_data s) + 4 * CHUNK_HASH_SIZE + CRYPTO_BLOCK_SIZE)"
  by (simp add: srec_bytes_length srec_size_def)

lemma copy_record_ok:
  assumes env: "env_ok env" and s: "srec_ok n0 pos s" "length (s_data s) < 2 ^ 31"
    and src: "pos + length (srec_bytes s) \<le> length src" "bslice src pos (length (srec_bytes s)) = srec_bytes s"
    and f: "f (s_addr s) = s_addr (displaced nm tgt s)" and nm: "length nm = CONTAINER_ID_LENGTH"
    and dst: "newset + length (srec_bytes s) \<le> length dst"
  obtains v dst' where "enc_addr env (s_addr (displaced nm tgt s)) v"
    "copy_record env f src pos newset dst st = Inr (length (srec_bytes s) - sizeof_RecipeEntry, dst',
       st\<lparr>of_db := (of_db st)\<lparr>indexObj := (indexObj (of_db st))(s_fp s \<mapsto> v)\<rparr>\<rparr>)"
    "length dst' = length dst" "take (newset + length (srec_bytes s)) dst' = take newset dst @ srec_bytes (displaced nm tgt s)"
proof -
  let ?n = "length (s_data s) + 4 * CHUNK_HASH_SIZE + CRYPTO_BLOCK_SIZE" and ?R = "sizeof_RecipeEntry"
  let ?rest = "s_fp s @ s_sf s @ s_data s @ s_iv s" and ?r = "s_addr (displaced nm tgt s)"
  have len: "length (srec_bytes s) = ?R + ?n" by (rule srec_split [OF s(1)])
  have wf: "recipe_wf (s_addr s)" and fp: "length (s_fp s) = CHUNK_HASH_SIZE" and l: "length ?rest = ?n"
    using s(1) by (auto simp: srec_ok_def)
  have rwf: "recipe_wf ?r" by (rule displaced_wf [OF wf nm])
  have b: "buf_read src (pos + i) m = Inr (bslice (srec_bytes s) i m)" if "i + m \<le> ?R + ?n" for i m
  proof -
    have "bslice (bslice src pos (?R + ?n)) i m = bslice src (pos + i) m"
      using that by (simp add: bslice_def drop_take add.commute min_def)
    then show ?thesis using that src len by (simp add: buf_read_def)
  qed
  have b1: "buf_read src pos ?R = Inr (recipe_bytes (s_addr s))"
    using b [of 0 ?R] wf by (simp add: srec_bytes_def bslice_def)
  have b2: "buf_read src (pos + ?R) CHUNK_HASH_SIZE = Inr (s_fp s)"
    using b [of ?R CHUNK_HASH_SIZE] wf fp by (simp add: srec_bytes_def bslice_def)
  have b3: "buf_read src (pos + ?R) ?n = Inr ?rest"
    using b [of ?R ?n] wf l by (simp add: srec_bytes_def bslice_def)
  obtain v where v: "enc_addr env ?r v" by (rule enc_addr_total [OF env rwf])
  obtain d1 where d1: "buf_write dst newset (recipe_bytes ?r) = Inr d1" using dst len rwf by (auto simp: buf_write_def)
  obtain d2 where d2: "buf_write d1 (newset + ?R) ?rest = Inr d2"
    using dst len l buf_write_length [OF d1] by (auto simp: buf_write_def)
  have n: "record_rest ?r = ?n" by (rule record_rest_ok [OF s]) (simp add: displaced_def)
  have "copy_record env f src pos newset dst st = Inr (?n, d2, st\<lparr>of_db := (of_db st)\<lparr>indexObj := (indexObj (of_db st))(s_fp s \<mapsto> v)\<rparr>\<rparr>)"
    using b1 b2 b3 d1 d2 v wf n UpdateIndexStore_ok [OF fp enc_addr_dec(1) [OF env v], of st]
    by (simp add: copy_record_def f Let_def enc_addr_def)
  moreover have "take (newset + (?R + ?n)) d2 = take newset dst @ srec_bytes (displaced nm tgt s)"
    using buf_write_take [OF d2] buf_write_take [OF d1] rwf unfolding l by (simp add: srec_bytes_def add.assoc)
  ultimately show thesis using that [OF v] len buf_write_length [OF d1] buf_write_length [OF d2] by simp
qed

lemma copy_until_ok:
  assumes env: "env_ok env" and nm: "length nm = CONTAINER_ID_LENGTH"
    and f: "\<And>r. length (containerName r) = CONTAINER_ID_LENGTH \<Longrightarrow> containerName r = n0 \<Longrightarrow> f r = r\<lparr>re_offset := re_offset r + w, containerName := nm\<rparr>"
  shows "placed n0 pos rs \<Longrightarrow> pos + length (content rs) \<le> length src \<Longrightarrow> bslice src pos (length (content rs)) = content rs \<Longrightarrow>
    length src < 2 ^ 31 \<Longrightarrow> newset + length (content rs) \<le> length dst \<Longrightarrow> word_of_nat pos + w = word_of_nat tgt \<Longrightarrow>
    \<exists>dst' db'. copy_until env f src (pos + length (content rs)) pos newset dst st =
       Inr (pos + length (content rs), newset + length (content rs), dst', st\<lparr>of_db := db'\<rparr>) \<and>
       length dst' = length dst \<and> take (newset + length (content rs)) dst' = take newset dst @ content (relocate nm tgt rs) \<and>
       reindexed env (relocate nm tgt rs) (of_db st) db'"
proof (induction rs arbitrary: pos newset dst st tgt)
  case Nil
  show ?case by (subst copy_until.simps) (simp, metis offline.surjective offline.update_convs(1) reindexed_Nil)
next
  case (Cons s rs)
  let ?l = "length (srec_bytes s)" and ?m = "length (content rs)"
  have s: "srec_ok n0 pos s" and p: "placed n0 (pos + ?l) rs" using Cons.prems(1) by auto
  have b: "bslice src pos (?l + ?m) = srec_bytes s @ content rs" using Cons.prems(3) by simp
  have b1: "bslice src pos ?l = srec_bytes s" using bslice_left [of src pos ?l ?m] b by simp
  have b2: "bslice src (pos + ?l) ?m = content rs" using bslice_right [of src pos ?l ?m] b by simp
  have small: "length (s_data s) < 2 ^ 31" using Cons.prems(2,4) srec_split [OF s] by simp
  have nz: "sizeof_RecipeEntry \<le> ?l" "0 < ?l" using srec_split [OF s] by (simp_all add: sizeof_RecipeEntry_def)
  have off: "re_offset (s_addr s) = word_of_nat pos" using s unfolding srec_ok_def by (metis nat_word)
  have fs: "f (s_addr s) = s_addr (displaced nm tgt s)"
  proof -
    have "containerName (s_addr s) = n0" "length (containerName (s_addr s)) = CONTAINER_ID_LENGTH" using s by (auto simp: srec_ok_def recipe_wf_def)
    then show ?thesis using f off Cons.prems(6) by (simp add: displaced_def)
  qed
  have room: "pos + ?l \<le> length src" and rd: "newset + ?l \<le> length dst" using Cons.prems(2,5) by auto
  obtain v d where c: "enc_addr env (s_addr (displaced nm tgt s)) v"
    "copy_record env f src pos newset dst st = Inr (?l - sizeof_RecipeEntry, d,
       st\<lparr>of_db := (of_db st)\<lparr>indexObj := (indexObj (of_db st))(s_fp s \<mapsto> v)\<rparr>\<rparr>)"
    "length d = length dst" "take (newset + ?l) d = take newset dst @ srec_bytes (displaced nm tgt s)"
    by (rule copy_record_ok [where f = f and dst = dst and newset = newset and st = st, OF env s small room b1 fs nm rd])
  let ?db = "(of_db st)\<lparr>indexObj := (indexObj (of_db st))(s_fp s \<mapsto> v)\<rparr>"
  have "word_of_nat (pos + ?l) + w = word_of_nat (tgt + ?l)" using Cons.prems(6) by (simp add: add.commute add.left_commute)
  from Cons.IH [OF p _ b2 Cons.prems(4) _ this, of "newset + ?l" d "st\<lparr>of_db := ?db\<rparr>"] Cons.prems(2,5) c(3)
  obtain dst' db' where ih: "copy_until env f src (pos + ?l + ?m) (pos + ?l) (newset + ?l) d (st\<lparr>of_db := ?db\<rparr>) =
       Inr (pos + ?l + ?m, newset + ?l + ?m, dst', st\<lparr>of_db := db'\<rparr>)"
       "length dst' = length d" "take (newset + ?l + ?m) dst' = take (newset + ?l) d @ content (relocate nm (tgt + ?l) rs)"
       "reindexed env (relocate nm (tgt + ?l) rs) ?db db'" by auto
  have "copy_until env f src (pos + length (content (s # rs))) pos newset dst st =
      Inr (pos + length (content (s # rs)), newset + length (content (s # rs)), dst', st\<lparr>of_db := db'\<rparr>)"
    using c(2) ih(1) nz by (subst copy_until.simps) (simp add: add.assoc)
  moreover have "reindexed env (relocate nm tgt (s # rs)) (of_db st) db'"
    using reindexed_Cons [of env "displaced nm tgt s" v "relocate nm (tgt + ?l) rs" "of_db st" db'] c(1) ih(4) by simp
  moreover have "take (newset + length (content (s # rs))) dst' = take newset dst @ content (relocate nm tgt (s # rs))"
    using ih(3) c(4) by (simp add: add.assoc)
  ultimately show ?case using ih(2) c(3) by (intro exI [of _ dst'] exI [of _ db']) (simp only: simp_thms)
qed

end
