(* ===== verification/Offline_Cold.thy ===== *)
theory Offline_Cold imports Offline_Catalog "HOL-Library.Multiset" begin

text \<open>
  \<open>Update_cold_container\<close>: the regions of the replaced records are cut out of a container, the
  other records move together, and the repository keeps its chunks.
\<close>

section \<open>Cutting records out\<close>

text \<open>A container as runs of records that stay, each followed by one that is cut out.\<close>

type_synonym runs = "(srec list \<times> srec) list"

definition all_of :: "runs \<Rightarrow> srec list" where
  "all_of segs = concat (map (\<lambda>(ks, c). ks @ [c]) segs)"

definition kept_of :: "runs \<Rightarrow> srec list" where
  "kept_of segs = concat (map fst segs)"

lemma runs_simps [simp]:
  "all_of [] = []" "all_of ((ks, c) # segs) = ks @ c # all_of segs"
  "kept_of [] = []" "kept_of ((ks, c) # segs) = ks @ kept_of segs"
  by (simp_all add: all_of_def kept_of_def)

lemma runs_exist:
  "\<exists>segs tail. rs = all_of segs @ tail \<and> filter gone rs = map snd segs \<and> filter (\<lambda>s. \<not> gone s) rs = kept_of segs @ tail"
proof (induction rs)
  case Nil
  show ?case by (intro exI [of _ "[]"]) simp
next
  case (Cons r rs)
  then obtain segs tail where ih: "rs = all_of segs @ tail" "filter gone rs = map snd segs" "filter (\<lambda>s. \<not> gone s) rs = kept_of segs @ tail"
    by blast
  show ?case
  proof (cases "gone r")
    case True
    with ih show ?thesis by (intro exI [of _ "([], r) # segs"] exI [of _ tail]) simp
  next
    case nc: False
    show ?thesis
    proof (cases segs)
      case Nil
      with nc ih show ?thesis by (intro exI [of _ "[]"] exI [of _ "r # tail"]) simp
    next
      case (Cons x xs)
      obtain ks c where x: "x = (ks, c)" by fastforce
      from nc ih Cons x show ?thesis by (intro exI [of _ "(r # ks, c) # xs"] exI [of _ tail]) simp
    qed
  qed
qed

lemma shift_back_moves:
  "containerName r = n0 \<Longrightarrow> shift_back c r = r\<lparr>re_offset := re_offset r + (- word_of_nat c), containerName := n0\<rparr>"
  by (simp add: shift_back_def)

lemma bslice_parts:
  assumes "bslice src p (length a + length b) = a @ b"
  shows "bslice src p (length a) = a" "bslice src (p + length a) (length b) = b"
  using bslice_left [of src p "length a" "length b"] bslice_right [of src p "length a" "length b"] assms by simp_all

lemma cut_regions_ok:
  assumes env: "env_ok env" and nm: "length n0 = CONTAINER_ID_LENGTH" and src: "length src < 2 ^ 31"
  shows "placed n0 saveset (all_of segs) \<Longrightarrow> saveset + length (content (all_of segs)) \<le> length src \<Longrightarrow>
    bslice src saveset (length (content (all_of segs))) = content (all_of segs) \<Longrightarrow>
    newset + length (content (kept_of segs)) \<le> length dst \<Longrightarrow> saveset = coldset + newset \<Longrightarrow>
    \<exists>dst' db' coldset'. cut_regions env src (map (extent \<circ> snd) segs) coldset saveset newset dst st =
       Inr (coldset', saveset + length (content (all_of segs)), newset + length (content (kept_of segs)), dst', st\<lparr>of_db := db'\<rparr>) \<and>
       saveset + length (content (all_of segs)) = coldset' + (newset + length (content (kept_of segs))) \<and>
       length dst' = length dst \<and>
       take (newset + length (content (kept_of segs))) dst' = take newset dst @ content (relocate n0 newset (kept_of segs)) \<and>
       reindexed env (relocate n0 newset (kept_of segs)) (of_db st) db'"
proof (induction segs arbitrary: saveset coldset newset dst st)
  case Nil
  then show ?case by simp (metis offline.surjective offline.update_convs(1) reindexed_Nil)
next
  case (Cons x segs)
  obtain ks c where x: "x = (ks, c)" by fastforce
  let ?k = "length (content ks)" and ?c = "length (srec_bytes c)" and ?m = "length (content (all_of segs))"
  have p: "placed n0 saveset ks" "srec_ok n0 (saveset + ?k) c" "placed n0 (saveset + ?k + ?c) (all_of segs)"
    using Cons.prems(1) by (simp_all add: x placed_append)
  have len: "saveset + ?k + ?c + ?m \<le> length src" using Cons.prems(2) by (simp add: x)
  have b0: "bslice src saveset (?k + length (srec_bytes c @ content (all_of segs))) = content ks @ srec_bytes c @ content (all_of segs)"
    using Cons.prems(3) by (simp add: x)
  note b1 = bslice_parts [OF b0]
  have b2: "bslice src (saveset + ?k) (?c + ?m) = srec_bytes c @ content (all_of segs)" using b1(2) by simp
  note b3 = bslice_parts [OF b2]
  have w: "word_of_nat saveset + - word_of_nat coldset = (word_of_nat newset :: 32 word)" using Cons.prems(5) by simp
  have fit: "saveset + ?k \<le> length src" "newset + ?k \<le> length dst" using len Cons.prems(4) by (simp_all add: x)
  from copy_until_ok [OF env nm shift_back_moves p(1) fit(1) b1(1) src fit(2) w, of st]
  obtain d1 db1 where c1: "copy_until env (shift_back coldset) src (saveset + ?k) saveset newset dst st =
      Inr (saveset + ?k, newset + ?k, d1, st\<lparr>of_db := db1\<rparr>)" "length d1 = length dst"
    "take (newset + ?k) d1 = take newset dst @ content (relocate n0 newset ks)" "reindexed env (relocate n0 newset ks) (of_db st) db1"
    by auto
  have rl: "length (content (relocate n0 newset ks)) = ?k" by (rule relocate_length [OF p(1) nm])
  have mods: "(coldset + ?c) mod 2 ^ 32 = coldset + ?c" "(saveset + ?k + ?c) mod 2 ^ 32 = saveset + ?k + ?c"
    using len src Cons.prems(5) by simp_all
  have ex: "extent c = (saveset + ?k, ?c)" using p(2) by (simp add: extent_def srec_ok_def)
  have "newset + ?k + length (content (kept_of segs)) \<le> length d1" "saveset + ?k + ?c = (coldset + ?c) + (newset + ?k)"
    using Cons.prems(4,5) c1(2) by (simp_all add: x)
  from Cons.IH [OF p(3) len b3(2) this, of "st\<lparr>of_db := db1\<rparr>"]
  obtain d2 db2 cs where ih0: "cut_regions env src (map (extent \<circ> snd) segs) (coldset + ?c) (saveset + ?k + ?c) (newset + ?k) d1 (st\<lparr>of_db := db1\<rparr>) =
       Inr (cs, saveset + ?k + ?c + ?m, newset + ?k + length (content (kept_of segs)), d2, (st\<lparr>of_db := db1\<rparr>)\<lparr>of_db := db2\<rparr>)"
    "saveset + ?k + ?c + ?m = cs + (newset + ?k + length (content (kept_of segs)))" "length d2 = length d1"
    "take (newset + ?k + length (content (kept_of segs))) d2 = take (newset + ?k) d1 @ content (relocate n0 (newset + ?k) (kept_of segs))"
    "reindexed env (relocate n0 (newset + ?k) (kept_of segs)) (of_db (st\<lparr>of_db := db1\<rparr>)) db2" by blast
  have upd: "(st\<lparr>of_db := db1\<rparr>)\<lparr>of_db := db2\<rparr> = st\<lparr>of_db := db2\<rparr>" "of_db (st\<lparr>of_db := db1\<rparr>) = db1" by simp_all
  note ih = ih0 [unfolded upd]
  have "cut_regions env src (map (extent \<circ> snd) (x # segs)) coldset saveset newset dst st =
      Inr (cs, saveset + length (content (all_of (x # segs))), newset + length (content (kept_of (x # segs))), d2, st\<lparr>of_db := db2\<rparr>)"
    using c1(1) ih(1) mods by (simp add: x ex add.assoc)
  moreover have "reindexed env (relocate n0 newset (kept_of (x # segs))) (of_db st) db2"
    using reindexed_append [OF c1(4) ih(5)] by (simp add: x relocate_append)
  moreover have "take (newset + length (content (kept_of (x # segs)))) d2 = take newset dst @ content (relocate n0 newset (kept_of (x # segs)))"
    using ih(4) c1(3) by (simp add: x relocate_append add.assoc)
  ultimately show ?case using ih(2,3) c1(2) by (intro exI [of _ d2] exI [of _ db2] exI [of _ cs]) (simp add: x add.assoc comp_def)
qed

text \<open>The whole container: the regions may come in any order.\<close>

lemma extent_sorted: "placed n p rs \<Longrightarrow> sorted_wrt (<) (map (fst \<circ> extent) rs) \<and> (\<forall>s \<in> set rs. p \<le> fst (extent s))"
proof (induction rs arbitrary: p)
  case (Cons s rs)
  then have s: "srec_ok n p s" "placed n (p + length (srec_bytes s)) rs" by simp_all
  have "0 < length (srec_bytes s)" using srec_split [OF s(1)] by (simp add: sizeof_RecipeEntry_def)
  moreover have "p + length (srec_bytes s) \<le> fst (extent x)" if "x \<in> set rs" for x using Cons.IH [OF s(2)] that by blast
  ultimately have "p < fst (extent x)" if "x \<in> set rs" for x using that by (metis le_eq_less_or_eq less_add_same_cancel1 less_le_trans)
  then show ?case using Cons.IH [OF s(2)] s(1) by (auto simp: extent_def srec_ok_def)
qed simp

lemma placed_extents:
  assumes "placed n p rs"
  shows "inj_on (fst \<circ> extent) (set rs)" "distinct (map extent rs)" "distinct rs" "sorted (map (fst \<circ> extent) rs)"
proof -
  have s: "sorted_wrt (<) (map (fst \<circ> extent) rs)" using extent_sorted [OF assms] by simp
  then have d: "distinct (map (fst \<circ> extent) rs)" "sorted (map (fst \<circ> extent) rs)" by (simp_all add: strict_sorted_iff)
  then show "inj_on (fst \<circ> extent) (set rs)" "distinct rs" "sorted (map (fst \<circ> extent) rs)" by (simp_all add: distinct_map)
  have "distinct (map fst (map extent rs))" using d(1) by simp
  then show "distinct (map extent rs)" unfolding distinct_map [of fst] by blast
qed

lemma sorted_regions:
  assumes "placed n p rs" "mset ps = mset (map extent (filter gone rs))"
  shows "sort_key fst ps = map extent (filter gone rs)"
proof (rule sort_key_inj_key_eq [OF assms(2)])
  have "set ps = extent ` set (filter gone rs)" using assms(2) by (metis list.set_map set_mset_mset)
  moreover have "inj_on fst (extent ` set (filter gone rs))"
  proof (rule inj_onI)
    fix x y assume "x \<in> extent ` set (filter gone rs)" "y \<in> extent ` set (filter gone rs)" "fst x = fst y"
    then show "x = y" using placed_extents(1) [OF assms(1)] by (auto simp: inj_on_def)
  qed
  ultimately show "inj_on fst (set ps)" by simp
  have "sorted (map (fst \<circ> extent) (filter gone rs))" by (rule sorted_filter [OF placed_extents(4) [OF assms(1)]])
  then show "sorted (map fst (map extent (filter gone rs)))" by simp
qed

lemma strip_of_files [simp]: "disk_of cat (flag, n) = None \<longleftrightarrow> cat (flag, n) = None"
  by (simp add: disk_of_def)

lemma cat_ok_rs:
  assumes "cat_ok cat" "cat (flag, n) = Some rs"
  shows "placed n 0 rs" "length (content rs) \<le> MAX_CONTAINER_SIZE" "length n = CONTAINER_ID_LENGTH" "cat (\<not> flag, n) = None"
proof -
  show "placed n 0 rs" "length (content rs) \<le> MAX_CONTAINER_SIZE" "length n = CONTAINER_ID_LENGTH"
    using assms unfolding cat_ok_def by force+
  have "cat (False, n) = None \<or> cat (True, n) = None" using assms(1) by (simp add: cat_ok_def)
  then show "cat (\<not> flag, n) = None" using assms(2) by (cases flag) auto
qed

text \<open>The buffers of the pass.\<close>

definition pass_buffers :: "offline \<Rightarrow> bool" where
  "pass_buffers st \<longleftrightarrow> length (ocall_container st) = MAX_CONTAINER_SIZE \<and> length (oe_chunkAddr st) = sizeof_RecipeEntry \<and>
     length (mergeNewContainer st) = MAX_CONTAINER_SIZE \<and> length (mergeContainer_body st) = MAX_CONTAINER_SIZE"

text \<open>
  What an update of a container does: files, index and four buffers change, nothing else.
\<close>

definition cold_step :: "offline \<Rightarrow> offline \<Rightarrow> bool" where
  "cold_step st st' \<longleftrightarrow> (\<exists>db files addr sz oc nc body pairs. st' = st\<lparr>of_db := db, of_files := files, oe_chunkAddr := addr,
     oe_containersize := sz, ocall_container := oc, mergeNewContainer := nc, mergeContainer_body := body, baseMergePair := pairs\<rparr>)"

lemma Update_cold_container_ok:
  assumes env: "env_ok env" and cat: "cat_ok cat" "of_files st = disk_of cat" "cat (flag, n) = Some rs" and b: "pass_buffers st"
    and ps: "mset ps = mset (map extent (filter gone rs))"
  obtains st' where "Update_cold_container env (n, ps) st = Inr st'" "pass_buffers st'" "cold_step st st'"
    "of_files st' = disk_of (cat((flag, n) \<mapsto> relocate n 0 (filter (\<lambda>s. \<not> gone s) rs)))"
    "reindexed env (relocate n 0 (filter (\<lambda>s. \<not> gone s) rs)) (of_db st) (of_db st')" "baseMergePair st' = baseMergePair st"
proof -
  note c = cat_ok_rs [OF cat(1,3)]
  let ?f = "content rs" and ?M = "MAX_CONTAINER_SIZE"
  obtain addr where a: "buf_write (oe_chunkAddr st) 0 n = Inr addr" "length addr = sizeof_RecipeEntry" "bslice addr 0 CONTAINER_ID_LENGTH = n"
    using b c(3) by (auto simp: buf_write_def pass_buffers_def bslice_def sizeof_RecipeEntry_def CONTAINER_ID_LENGTH_def)
  have lf: "length (ocall_container st) = ?M" using b by (simp add: pass_buffers_def)
  obtain oc where oc: "buf_write (ocall_container st) 0 ?f = Inr oc" "length oc = ?M" "take (length ?f) oc = ?f"
    by (rule container_write [OF lf c(2)])
  have fl: "(of_files st (True, n) \<noteq> None) = flag" "of_files st (flag, n) = Some ?f"
    using c(4) cat(2,3) by (cases flag; simp add: disk_of_def)+
  let ?st1 = "st\<lparr>oe_chunkAddr := addr, ocall_container := oc, oe_containersize := length ?f\<rparr>"
  have one: "Ocall_OneColdContainer (st\<lparr>oe_chunkAddr := addr\<rparr>) = Inr (flag, ?st1)"
    using a(3) fl oc(1) by (simp add: Ocall_OneColdContainer_def Let_def)
  obtain segs tail where g: "rs = all_of segs @ tail" "filter gone rs = map snd segs" "filter (\<lambda>s. \<not> gone s) rs = kept_of segs @ tail"
    using runs_exist [of rs gone] by blast
  have p: "placed n 0 (all_of segs)" "placed n (length (content (all_of segs))) tail" using c(1) g(1) by (simp_all add: placed_append)
  have bs: "bslice oc 0 (length (content (all_of segs)) + length (content tail)) = content (all_of segs) @ content tail"
    using oc(3) g(1) by (simp add: bslice_def)
  note bp = bslice_parts [OF bs]
  have rgs: "sort_key fst ps = map (extent \<circ> snd) segs" using sorted_regions [OF c(1) ps] g(2) by simp
  have M: "?M < 2 ^ 31" by (simp add: MAX_CONTAINER_SIZE_def)
  have kl: "length (content (kept_of segs)) \<le> length (content (all_of segs))"
    by (induction segs) auto
  have lm: "length (mergeNewContainer st) = ?M" using b by (simp add: pass_buffers_def)
  have al: "0 + length (content (all_of segs)) \<le> length oc" "0 + length (content (kept_of segs)) \<le> length (mergeNewContainer st)"
    using c(2) g(1) oc(2) kl lm by simp_all
  from cut_regions_ok [OF env c(3) _ p(1) al(1) _ al(2), of 0 ?st1] M oc(2) bp(1)
  obtain d1 db1 cs where c1: "cut_regions env oc (map (extent \<circ> snd) segs) 0 0 0 (mergeNewContainer st) ?st1 =
       Inr (cs, length (content (all_of segs)), length (content (kept_of segs)), d1, ?st1\<lparr>of_db := db1\<rparr>)"
    "length (content (all_of segs)) = cs + length (content (kept_of segs))" "length d1 = ?M"
    "take (length (content (kept_of segs))) d1 = content (relocate n 0 (kept_of segs))"
    "reindexed env (relocate n 0 (kept_of segs)) (of_db st) db1" using lm by auto
  let ?a = "length (content (all_of segs))" and ?k = "length (content (kept_of segs))" and ?t = "length (content tail)"
  have w: "word_of_nat ?a + - word_of_nat cs = (word_of_nat ?k :: 32 word)" using c1(2) by simp
  have fit: "?a + ?t \<le> length oc" "?k + ?t \<le> length d1" using c(2) g(1) oc(2) kl c1(3) by simp_all
  have so: "length oc < 2 ^ 31" using M oc(2) by simp
  have bp2: "bslice oc ?a ?t = content tail" using bp(2) by simp
  from copy_until_ok [OF env c(3) shift_back_moves p(2) fit(1) bp2 so fit(2) w, of "?st1\<lparr>of_db := db1\<rparr>"]
  obtain d2 db2 where c2: "copy_until env (shift_back cs) oc (?a + ?t) ?a ?k d1 (?st1\<lparr>of_db := db1\<rparr>) =
      Inr (?a + ?t, ?k + ?t, d2, ?st1\<lparr>of_db := db2\<rparr>)" "length d2 = length d1"
    "take (?k + ?t) d2 = take ?k d1 @ content (relocate n ?k tail)" "reindexed env (relocate n ?k tail) db1 db2" by auto
  let ?rs = "relocate n 0 (filter (\<lambda>s. \<not> gone s) rs)"
  have rs: "?rs = relocate n 0 (kept_of segs) @ relocate n ?k tail" by (simp add: g(3) relocate_append)
  have body: "take (?k + ?t) d2 = content ?rs" using c2(3) c1(4) by (simp add: rs)
  have sz: "length ?f = ?a + ?t" "length ?f - cs = ?k + ?t" "cs \<le> length ?f" using g(1) c1(2) by simp_all
  let ?st2 = "?st1\<lparr>of_db := db2, mergeNewContainer := d2, of_files := (of_files st)((flag, n) \<mapsto> content ?rs)\<rparr>"
  have "Update_cold_container env (n, ps) st = Inr ?st2"
    using a(1) one c1(1) c2(1) rgs sz body fit(2) c2(2)
    by (simp add: Update_cold_container_def Let_def Ocall_SaveColdContainer_def buf_read_def bslice_def)
  moreover have "(of_files st)((flag, n) \<mapsto> content ?rs) = disk_of (cat((flag, n) \<mapsto> ?rs))"
    by (auto simp: cat(2) disk_of_def)
  moreover have "reindexed env ?rs (of_db st) db2" unfolding rs by (rule reindexed_append [OF c1(5) c2(4)])
  moreover have "pass_buffers ?st2" using b a(2) oc(2) c1(3) c2(2) by (simp add: pass_buffers_def)
  moreover have "cold_step st ?st2" unfolding cold_step_def
    by (rule exI [of _ db2], rule exI [of _ "(of_files st)((flag, n) \<mapsto> content ?rs)"], rule exI [of _ addr], rule exI [of _ "length ?f"],
        rule exI [of _ oc], rule exI [of _ d2], rule exI [of _ "mergeContainer_body st"], rule exI [of _ "baseMergePair st"]) simp
  ultimately show thesis by (intro that [of ?st2]) simp_all
qed

section \<open>The repository\<close>

lemma repo_index:
  assumes "repo_ok env orig cat db colds" "indexObj db k = Some v"
  obtains flag s where "in_cat cat flag s" "s_fp s = k" "enc_addr env (s_addr s) v" "keeps env db orig flag s"
    "length k = CHUNK_HASH_SIZE" "length (orig k) \<le> MAX_CHUNK_SIZE"
proof -
  have "length k = CHUNK_HASH_SIZE \<and> length (orig k) \<le> MAX_CHUNK_SIZE \<and>
      (\<exists>flag s. in_cat cat flag s \<and> s_fp s = k \<and> enc_addr env (s_addr s) v \<and> keeps env db orig flag s)"
    using assms unfolding repo_ok_def by simp
  then show thesis using that by blast
qed

lemma repo_cat: "repo_ok env orig cat db colds \<Longrightarrow> cat_ok cat"
  by (simp add: repo_ok_def)

lemma repo_colds:
  assumes "repo_ok env orig cat db colds"
  shows "distinct (colds n)"
    "set (colds n) = extent ` {s. \<exists>flag. in_cat cat flag s \<and> containerName (s_addr s) = n \<and> \<not> live env db s}"
  using assms by (simp_all add: repo_ok_def)

lemma in_cat_unique:
  assumes "cat_ok cat" "in_cat cat f s" "in_cat cat g t" "s_addr s = s_addr t"
  shows "f = g \<and> s = t"
proof -
  obtain rs ts where r: "cat (f, containerName (s_addr s)) = Some rs" "s \<in> set rs" "cat (g, containerName (s_addr s)) = Some ts" "t \<in> set ts"
    using assms(2-4) unfolding in_cat_def by auto
  have fg: "f = g" using cat_ok_rs(4) [OF assms(1) r(1)] r(3) by (cases f; cases g) auto
  then have "t \<in> set rs" using r by simp
  moreover have "fst (extent s) = fst (extent t)" using assms(4) by (simp add: extent_def)
  ultimately show ?thesis using fg inj_onD [OF placed_extents(1) [OF cat_ok_rs(1) [OF assms(1) r(1)]], of s t] r(2) by simp
qed

lemma in_cat_of:
  assumes "cat_ok cat" "cat (f, n) = Some rs" "s \<in> set rs"
  shows "in_cat cat f s" "containerName (s_addr s) = n" "\<exists>p. srec_ok n p s"
proof -
  have "placed n 0 rs" by (rule cat_ok_rs(1) [OF assms(1,2)])
  moreover have "\<exists>p. srec_ok n p s" if "placed n q rs" "s \<in> set rs" for q using that by (induction rs arbitrary: q) auto
  ultimately show e: "\<exists>p. srec_ok n p s" using assms(3) by blast
  then show "containerName (s_addr s) = n" by (auto simp: srec_ok_def)
  then show "in_cat cat f s" using assms by (auto simp: in_cat_def)
qed

lemma live_unique:
  "env_ok env \<Longrightarrow> live env db s \<Longrightarrow> live env db t \<Longrightarrow> s_fp s = s_fp t \<Longrightarrow> s_addr s = s_addr t"
  unfolding live_def using enc_addr_inject by fastforce

lemma live_fps:
  assumes "env_ok env" "cat_ok cat" "cat (f, n) = Some rs" "\<forall>s \<in> set ks. live env db s" "set ks \<subseteq> set rs" "distinct ks"
  shows "distinct (map s_fp ks)"
  unfolding distinct_map
proof (rule conjI [OF assms(6)], rule inj_onI)
  fix s t assume s: "s \<in> set ks" "t \<in> set ks" "s_fp s = s_fp t"
  have "s_addr s = s_addr t" by (rule live_unique [OF assms(1)]) (use s assms(4) in auto)
  moreover have "in_cat cat f s" "in_cat cat f t" using in_cat_of(1) [OF assms(2,3)] assms(5) s by auto
  ultimately show "s = t" using in_cat_unique [OF assms(2)] by blast
qed

lemma keeps_mono:
  "keeps env db orig flag s \<Longrightarrow> (\<And>k b. index_base env db k b \<Longrightarrow> \<exists>b. index_base env db' k b) \<Longrightarrow> keeps env db' orig flag s"
  unfolding keeps_def by (auto split: if_splits)

lemma keeps_displaced [simp]: "keeps env db orig flag (displaced n off s) = keeps env db orig flag s"
  by (simp add: keeps_def)

text \<open>
  Live records move from container \<open>n\<close> to container \<open>m\<close>, and what is not live in \<open>n\<close> is gone; the
  index follows.
\<close>

lemma repo_moved:
  assumes env: "env_ok env" and R: "repo_ok env orig cat db colds" and C: "cat_ok cat'"
    and ks: "\<And>s. s \<in> set ks \<longleftrightarrow> (\<exists>f. in_cat cat f s) \<and> containerName (s_addr s) = n \<and> live env db s" "distinct (map s_fp ks)"
    and fl: "\<And>s. s \<in> set ks \<Longrightarrow> in_cat cat flag s"
    and idx: "reindexed env (relocate m off ks) db db'"
    and cat': "\<And>f s. in_cat cat' f s \<longleftrightarrow> in_cat cat f s \<and> containerName (s_addr s) \<noteq> n \<or> f = flag \<and> s \<in> set (relocate m off ks)"
    and mn: "m = n \<or> (\<forall>f s. in_cat cat f s \<longrightarrow> live env db s)"
  shows "repo_ok env orig cat' db' (colds(n := []))"
proof -
  let ?ks = "relocate m off ks"
  obtain I where I: "db' = db\<lparr>indexObj := I\<rparr>" "\<And>k. k \<notin> s_fp ` set ?ks \<Longrightarrow> I k = indexObj db k"
    "\<And>s. s \<in> set ?ks \<Longrightarrow> \<exists>v. I (s_fp s) = Some v \<and> enc_addr env (s_addr s) v"
    using idx ks(2) unfolding reindexed_def relocate_fps by blast
  have fps: "s_fp ` set ?ks = s_fp ` set ks" using relocate_fps [of m off ks] by (metis list.set_map)
  have newlive: "live env db' s" if "s \<in> set ?ks" for s using I(1,3) that by (auto simp: live_def)
  have find: "s \<in> set ks" if "in_cat cat f s" "live env db s" "s_fp s = s_fp t" "t \<in> set ks" for f s t
  proof -
    have t: "in_cat cat flag t" "live env db t" using fl ks(1) that(4) by auto
    have "s_addr s = s_addr t" by (rule live_unique [OF env that(2) t(2) that(3)])
    then show ?thesis using in_cat_unique [OF repo_cat [OF R] that(1) t(1)] that(4) by simp
  qed
  have base: "\<exists>b'. index_base env db' k b'" if b: "index_base env db k b" for k b
  proof (cases "k \<in> s_fp ` set ks")
    case False
    then show ?thesis using b I(1,2) unfolding fps by (auto simp: index_base_def)
  next
    case True
    then obtain t where t: "t \<in> set ks" "k = s_fp t" by blast
    obtain off' where t': "displaced m off' t \<in> set ?ks" using relocate_of [OF t(1)] by blast
    obtain v where v: "I k = Some v" "enc_addr env (s_addr (displaced m off' t)) v" using I(3) [OF t'] t(2) by auto
    have "live env db t" using ks(1) t(1) by blast
    then have "s_addr t = b" using b t(2) enc_addr_inject [OF env] by (auto simp: live_def index_base_def)
    then have "re_deltaFlag (s_addr (displaced m off' t)) = NO_DELTA" using b by (simp add: index_base_def)
    then show ?thesis using v I(1) unfolding index_base_def by auto
  qed
  have index: "length k = CHUNK_HASH_SIZE \<and> length (orig k) \<le> MAX_CHUNK_SIZE \<and>
      (\<exists>f s. in_cat cat' f s \<and> s_fp s = k \<and> enc_addr env (s_addr s) v \<and> keeps env db' orig f s)" if v: "indexObj db' k = Some v" for k v
  proof (cases "k \<in> s_fp ` set ks")
    case False
    then have v0: "indexObj db k = Some v" using v I(1,2) unfolding fps by simp
    obtain f s where s: "in_cat cat f s" "s_fp s = k" "enc_addr env (s_addr s) v" "keeps env db orig f s"
      "length k = CHUNK_HASH_SIZE" "length (orig k) \<le> MAX_CHUNK_SIZE" by (rule repo_index [OF R v0])
    have "live env db s" using v0 s(2,3) by (auto simp: live_def)
    then have "containerName (s_addr s) \<noteq> n" using ks(1) s(1,2) False by blast
    then have "in_cat cat' f s" using cat' s(1) by blast
    moreover have "keeps env db' orig f s" by (rule keeps_mono [OF s(4)]) (rule base)
    ultimately show ?thesis using s by blast
  next
    case True
    then obtain t where t: "t \<in> set ks" "k = s_fp t" by blast
    obtain off' where t': "displaced m off' t \<in> set ?ks" using relocate_of [OF t(1)] by blast
    have lt: "live env db t" using ks(1) t(1) by blast
    then obtain v0 where v0: "indexObj db k = Some v0" using t(2) by (auto simp: live_def)
    obtain f s where s: "in_cat cat f s" "s_fp s = k" "enc_addr env (s_addr s) v0" "keeps env db orig f s"
      "length k = CHUNK_HASH_SIZE" "length (orig k) \<le> MAX_CHUNK_SIZE" by (rule repo_index [OF R v0])
    have ls: "live env db s" using v0 s(2,3) by (auto simp: live_def)
    have "s_addr s = s_addr t" by (rule live_unique [OF env ls lt]) (simp add: s(2) t(2))
    then have st: "f = flag" "s = t" using in_cat_unique [OF repo_cat [OF R] s(1) fl [OF t(1)]] by simp_all
    have "keeps env db' orig f s" by (rule keeps_mono [OF s(4)]) (rule base)
    then have "keeps env db' orig flag (displaced m off' t)" using st by simp
    moreover have "enc_addr env (s_addr (displaced m off' t)) v" using I(3) [OF t'] v I(1) t(2) by auto
    moreover have "in_cat cat' flag (displaced m off' t)" using cat' t' by blast
    ultimately show ?thesis using s(5,6) t(2)
      by (intro conjI exI [of _ flag] exI [of _ "displaced m off' t"]) simp_all
  qed
  have other: "live env db' s = live env db s" if s: "in_cat cat f s" "containerName (s_addr s) \<noteq> n" for f s
  proof (cases "s_fp s \<in> s_fp ` set ks")
    case False
    then show ?thesis using I(1,2) unfolding fps by (simp add: live_def)
  next
    case True
    then obtain t where t: "t \<in> set ks" "s_fp s = s_fp t" by blast
    have no: "\<not> live env db s" using find [OF s(1) _ t(2,1)] s(2) ks(1) by blast
    obtain off' where t': "displaced m off' t \<in> set ?ks" using relocate_of [OF t(1)] by blast
    have "\<not> live env db' s"
    proof
      assume l: "live env db' s"
      have "s_addr s = s_addr (displaced m off' t)" by (rule live_unique [OF env l newlive [OF t']]) (simp add: t(2))
      moreover have "in_cat cat' f s" "in_cat cat' flag (displaced m off' t)" using cat' s t' by blast+
      ultimately have "s = displaced m off' t" using in_cat_unique [OF C] by blast
      then have "containerName (s_addr s) = m" by simp
      then show False using mn no s by blast
    qed
    with no show ?thesis by simp
  qed
  have dead: "extent ` {s. \<exists>f. in_cat cat' f s \<and> containerName (s_addr s) = x \<and> \<not> live env db' s} = set ((colds(n := [])) x)" for x
  proof (cases "x = n")
    case True
    then have "{s. \<exists>f. in_cat cat' f s \<and> containerName (s_addr s) = x \<and> \<not> live env db' s} = {}" using cat' newlive by blast
    with True show ?thesis by simp
  next
    case False
    then have "{s. \<exists>f. in_cat cat' f s \<and> containerName (s_addr s) = x \<and> \<not> live env db' s} =
        {s. \<exists>f. in_cat cat f s \<and> containerName (s_addr s) = x \<and> \<not> live env db s}" using cat' newlive other by blast
    with False show ?thesis using repo_colds(2) [OF R] by simp
  qed
  have "distinct ((colds(n := [])) x)" for x using repo_colds(1) [OF R] by simp
  then show ?thesis unfolding repo_ok_def using C index dead by simp
qed

section \<open>A cold container is updated\<close>

lemma kept_sizes: "length (content (filter P rs)) \<le> length (content rs)"
  by (induction rs) auto

lemma placed_filter_relocate:
  "placed n p rs \<Longrightarrow> length m = CONTAINER_ID_LENGTH \<Longrightarrow>
     length (content (relocate m off (filter P rs))) = length (content (filter P rs)) \<and>
     (off + length (content (filter P rs)) < 2 ^ 32 \<longrightarrow> placed m off (relocate m off (filter P rs)))"
proof (induction rs arbitrary: p off)
  case (Cons s rs)
  then have s: "srec_ok n p s" "placed n (p + length (srec_bytes s)) rs" by simp_all
  from Cons.IH [OF s(2) Cons.prems(2)] show ?case
    using displaced_bytes_length [OF s(1) Cons.prems(2)] displaced_ok [OF s(1) Cons.prems(2)] by (simp add: add.assoc)
qed simp

lemma cold_repo:
  assumes env: "env_ok env" and R: "repo_ok env orig cat db colds" and c: "cat (flag, n) = Some rs"
    and idx: "reindexed env (relocate n 0 (filter (\<lambda>s. \<not> \<not> live env db s) rs)) db db'"
  shows "repo_ok env orig (cat((flag, n) \<mapsto> relocate n 0 (filter (\<lambda>s. \<not> \<not> live env db s) rs))) db' (colds(n := []))"
proof -
  let ?ks = "filter (live env db) rs"
  have e: "filter (\<lambda>s. \<not> \<not> live env db s) rs = ?ks" by simp
  note C = repo_cat [OF R]
  note p = cat_ok_rs [OF C c]
  have len: "length (content (relocate n 0 ?ks)) \<le> MAX_CONTAINER_SIZE" "placed n 0 (relocate n 0 ?ks)"
    using placed_filter_relocate [OF p(1,3), of 0 "live env db"] kept_sizes [of "live env db" rs] p(2)
    by (auto simp: MAX_CONTAINER_SIZE_def)
  let ?cat = "cat((flag, n) \<mapsto> relocate n 0 ?ks)"
  have C': "cat_ok ?cat"
    using C len p(3,4) unfolding cat_ok_def by (cases flag) auto
  have ks: "s \<in> set ?ks \<longleftrightarrow> (\<exists>f. in_cat cat f s) \<and> containerName (s_addr s) = n \<and> live env db s" for s
  proof
    assume "s \<in> set ?ks"
    then show "(\<exists>f. in_cat cat f s) \<and> containerName (s_addr s) = n \<and> live env db s" using in_cat_of [OF C c] by auto
  next
    assume a: "(\<exists>f. in_cat cat f s) \<and> containerName (s_addr s) = n \<and> live env db s"
    then obtain f ss where f: "cat (f, n) = Some ss" "s \<in> set ss" by (auto simp: in_cat_def)
    have "f = flag" using p(4) f(1) by (cases f; cases flag) auto
    then show "s \<in> set ?ks" using f c a by simp
  qed
  have sub: "in_cat cat flag s" if "s \<in> set ?ks" for s using in_cat_of(1) [OF C c] that by simp
  have d: "distinct (map s_fp ?ks)"
    by (rule live_fps [OF env C c]) (use placed_extents(3) [OF p(1)] in auto)
  have mem: "in_cat ?cat f s \<longleftrightarrow> in_cat cat f s \<and> containerName (s_addr s) \<noteq> n \<or> f = flag \<and> s \<in> set (relocate n 0 ?ks)" for f s
  proof -
    have "containerName (s_addr s) = n" if "s \<in> set (relocate n 0 ?ks)" using set_relocate [OF that] by auto
    moreover have "cat (\<not> flag, n) = None" by (rule p(4))
    ultimately show ?thesis by (cases f; cases flag) (auto simp: in_cat_def)
  qed
  show ?thesis unfolding e
    by (rule repo_moved [OF env R C' ks d sub idx [unfolded e] mem]) simp_all
qed

lemma cold_regions:
  assumes R: "repo_ok env orig cat db colds" and c: "cat (flag, n) = Some rs" and ps: "mset ps = mset (colds n)"
  shows "mset ps = mset (map extent (filter (\<lambda>s. \<not> live env db s) rs))"
proof -
  note C = repo_cat [OF R]
  note p = cat_ok_rs [OF C c]
  have "set (colds n) = set (map extent (filter (\<lambda>s. \<not> live env db s) rs))"
  proof -
    have "{s. \<exists>f. in_cat cat f s \<and> containerName (s_addr s) = n \<and> \<not> live env db s} = {s \<in> set rs. \<not> live env db s}"
    proof -
      have "s \<in> set rs" if "in_cat cat f s" "containerName (s_addr s) = n" for f s
        using that p(4) c by (cases f; cases flag) (auto simp: in_cat_def)
      then show ?thesis using in_cat_of [OF C c] by blast
    qed
    then show ?thesis using repo_colds(2) [OF R, of n] by simp
  qed
  moreover have "distinct (map extent (filter (\<lambda>s. \<not> live env db s) rs))"
    using placed_extents(2) [OF p(1)] by (rule distinct_map_filter)
  ultimately show ?thesis using ps repo_colds(1) [OF R, of n] by (metis set_eq_iff_mset_eq_distinct)
qed

lemma Update_cold_container_repo:
  assumes env: "env_ok env" and R: "repo_ok env orig cat (of_db st) colds" and f: "of_files st = disk_of cat" and b: "pass_buffers st"
    and c: "cat (flag, n) = Some rs" and ps: "mset ps = mset (colds n)"
  obtains st' cat' where "Update_cold_container env (n, ps) st = Inr st'" "pass_buffers st'" "cold_step st st'"
    "of_files st' = disk_of cat'" "repo_ok env orig cat' (of_db st') (colds(n := []))" "dom cat' = dom cat"
    "dom (indexObj (of_db st')) = dom (indexObj (of_db st))" "baseMergePair st' = baseMergePair st"
proof -
  obtain st' where u: "Update_cold_container env (n, ps) st = Inr st'" "pass_buffers st'" "cold_step st st'"
    "of_files st' = disk_of (cat((flag, n) \<mapsto> relocate n 0 (filter (\<lambda>s. \<not> \<not> live env (of_db st) s) rs)))"
    "reindexed env (relocate n 0 (filter (\<lambda>s. \<not> \<not> live env (of_db st) s) rs)) (of_db st) (of_db st')"
    "baseMergePair st' = baseMergePair st"
    by (rule Update_cold_container_ok [OF env repo_cat [OF R] f c b cold_regions [OF R c ps]])
  have "dom (cat((flag, n) \<mapsto> relocate n 0 (filter (\<lambda>s. \<not> \<not> live env (of_db st) s) rs))) = dom cat" using c by auto
  then show thesis
    by (rule that [OF u(1-4) cold_repo [OF env R c u(5)]]) (use reindexed_dom [OF u(5)] u(6) in simp_all)
qed

end
