(* ===== verification/Offline_Merge.thy ===== *)
theory Offline_Merge imports Offline_Cold begin

text \<open>
  \<open>MergeContainer\<close>: neighbouring base containers that fit into one are merged, and the repository keeps
  its chunks.
\<close>

section \<open>Two containers are merged\<close>

lemma merge_pair_ok:
  assumes env: "env_ok env" and C: "cat_ok cat" and f: "of_files st = disk_of cat" and b: "pass_buffers st"
    and c: "cat (False, m) = Some ra" "cat (False, n) = Some rb" "m \<noteq> n"
    and room: "length (content ra) + length (content rb) \<le> MAX_CONTAINER_SIZE"
  obtains st' where "merge_pair env (m, n) st = Inr st'" "pass_buffers st'" "cold_step st st'" "baseMergePair st' = tl (baseMergePair st)"
    "of_files st' = disk_of (cat((False, n) := None, (False, m) \<mapsto> ra @ relocate m (length (content ra)) rb))"
    "reindexed env (relocate m (length (content ra)) rb) (of_db st) (of_db st')"
proof -
  note p = cat_ok_rs [OF C c(1)] cat_ok_rs [OF C c(2)]
  let ?a = "length (content ra)" and ?b = "length (content rb)" and ?M = "MAX_CONTAINER_SIZE"
  have lb: "length (mergeContainer_body st) = ?M" "length (mergeNewContainer st) = ?M" using b by (simp_all add: pass_buffers_def)
  obtain body where w: "buf_write (mergeContainer_body st) 0 (content rb) = Inr body" "length body = ?M" "take ?b body = content rb"
    by (rule container_write [OF lb(1) p(6)])
  let ?st1 = "st\<lparr>mergeContainer_body := body, oe_containersize := ?b\<rparr>"
  have fs: "file_size (of_files ?st1) m = ?a" "of_files st (False, n) = Some (content rb)" "of_files st (False, m) = Some (content ra)"
    using c f by (simp_all add: file_size_def disk_of_def)
  have mv: "move_to m ?a r = r\<lparr>re_offset := re_offset r + word_of_nat ?a, containerName := m\<rparr>" for r by (simp add: move_to_def)
  have M: "?M < 2 ^ 31" by (simp add: MAX_CONTAINER_SIZE_def)
  have fit: "0 + ?b \<le> length body" "0 + ?b \<le> length (mergeNewContainer st)" "length body < 2 ^ 31" "bslice body 0 ?b = content rb"
    using room w(2,3) lb M by (simp_all add: bslice_def)
  have ww: "word_of_nat 0 + word_of_nat ?a = (word_of_nat ?a :: 32 word)" by simp
  from copy_until_ok [OF env p(3) mv p(5) fit(1,4,3,2) ww, of ?st1]
  obtain d db where cu: "copy_until env (move_to m ?a) body ?b 0 0 (mergeNewContainer st) ?st1 = Inr (?b, ?b, d, ?st1\<lparr>of_db := db\<rparr>)"
    "length d = ?M" "take ?b d = content (relocate m ?a rb)" "reindexed env (relocate m ?a rb) (of_db st) db"
    using lb by auto
  let ?rs = "ra @ relocate m ?a rb"
  let ?st2 = "?st1\<lparr>of_db := db, mergeNewContainer := d, of_files := (of_files st)((False, m) \<mapsto> content ?rs, (False, n) := None),
    baseMergePair := tl (baseMergePair st)\<rparr>"
  have "buf_read d 0 ?b = Inr (content (relocate m ?a rb))" using cu(2,3) fit lb by (simp add: buf_read_def bslice_def)
  then have "merge_pair env (m, n) st = Inr ?st2"
    using w(1) fs cu(1) by (simp add: merge_pair_def Let_def Ocall_MergeContent_def)
  moreover have "(of_files st)((False, m) \<mapsto> content ?rs, (False, n) := None) = disk_of (cat((False, n) := None, (False, m) \<mapsto> ?rs))"
    using c(3) by (auto simp: f disk_of_def)
  moreover have "pass_buffers ?st2" using b w(2) cu(2) by (simp add: pass_buffers_def)
  moreover have "cold_step st ?st2" unfolding cold_step_def
    by (rule exI [of _ db], rule exI [of _ "of_files ?st2"], rule exI [of _ "oe_chunkAddr st"], rule exI [of _ ?b],
        rule exI [of _ "ocall_container st"], rule exI [of _ d], rule exI [of _ body], rule exI [of _ "tl (baseMergePair st)"]) simp
  ultimately show thesis using cu(4) by (intro that [of ?st2]) simp_all
qed

lemma merge_repo:
  assumes env: "env_ok env" and R: "repo_ok env orig cat db (\<lambda>_. [])"
    and c: "cat (False, m) = Some ra" "cat (False, n) = Some rb" "m \<noteq> n"
    and room: "length (content ra) + length (content rb) \<le> MAX_CONTAINER_SIZE"
    and idx: "reindexed env (relocate m (length (content ra)) rb) db db'"
  shows "repo_ok env orig (cat((False, n) := None, (False, m) \<mapsto> ra @ relocate m (length (content ra)) rb)) db' (\<lambda>_. [])"
proof -
  let ?ks = "relocate m (length (content ra)) rb"
  let ?cat = "cat((False, n) := None, (False, m) \<mapsto> ra @ ?ks)"
  note C = repo_cat [OF R]
  note p = cat_ok_rs [OF C c(1)] cat_ok_rs [OF C c(2)]
  have lv: "live env db s" if "in_cat cat f s" for f s using repo_colds(2) [OF R, of "containerName (s_addr s)"] that by auto
  have "placed m 0 (ra @ ?ks)" "length (content (ra @ ?ks)) \<le> MAX_CONTAINER_SIZE"
    using p(1) relocate_placed [OF p(5,3), of "length (content ra)"] relocate_length [OF p(5,3), of "length (content ra)"] room
    by (auto simp: placed_append MAX_CONTAINER_SIZE_def)
  then have C': "cat_ok ?cat" using C p(3,4) unfolding cat_ok_def by auto
  have name: "in_cat cat f s \<and> containerName (s_addr s) = n \<longleftrightarrow> f = False \<and> s \<in> set rb" for f s
    using in_cat_of [OF C c(2), of s] p(8) c(2) by (cases f) (auto simp: in_cat_def)
  have ks: "s \<in> set rb \<longleftrightarrow> (\<exists>f. in_cat cat f s) \<and> containerName (s_addr s) = n \<and> live env db s" for s
    using name lv by blast
  have sub: "in_cat cat False s" if "s \<in> set rb" for s using name that by blast
  have d: "distinct (map s_fp rb)" by (rule live_fps [OF env C c(2)]) (use placed_extents(3) [OF p(5)] lv sub in auto)
  have mem: "in_cat ?cat f s \<longleftrightarrow> in_cat cat f s \<and> containerName (s_addr s) \<noteq> n \<or> f = False \<and> s \<in> set ?ks" for f s
  proof -
    have "containerName (s_addr s) = m" if "s \<in> set ?ks" using set_relocate [OF that] by auto
    then show ?thesis using c p(4,8) by (cases f) (auto simp: in_cat_def)
  qed
  have "repo_ok env orig ?cat db' ((\<lambda>_. [])(n := []))"
    by (rule repo_moved [OF env R C' ks d sub idx mem]) (use lv in blast)+
  then show ?thesis by (simp add: fun_upd_def)
qed

lemma merge_pair_repo:
  assumes env: "env_ok env" and R: "repo_ok env orig cat (of_db st) (\<lambda>_. [])" and f: "of_files st = disk_of cat" and b: "pass_buffers st"
    and c: "cat (False, m) = Some ra" "cat (False, n) = Some rb" "m \<noteq> n"
    and room: "length (content ra) + length (content rb) \<le> MAX_CONTAINER_SIZE"
  obtains st' where "merge_pair env (m, n) st = Inr st'" "pass_buffers st'" "cold_step st st'"
    "of_files st' = disk_of (cat((False, n) := None, (False, m) \<mapsto> ra @ relocate m (length (content ra)) rb))"
    "repo_ok env orig (cat((False, n) := None, (False, m) \<mapsto> ra @ relocate m (length (content ra)) rb)) (of_db st') (\<lambda>_. [])"
    "dom (indexObj (of_db st')) = dom (indexObj (of_db st))"
proof -
  obtain st' where u: "merge_pair env (m, n) st = Inr st'" "pass_buffers st'" "cold_step st st'"
    "of_files st' = disk_of (cat((False, n) := None, (False, m) \<mapsto> ra @ relocate m (length (content ra)) rb))"
    "reindexed env (relocate m (length (content ra)) rb) (of_db st) (of_db st')"
    by (rule merge_pair_ok [OF env repo_cat [OF R] f b c room]) blast
  have "live env (of_db st) s" if s: "s \<in> set rb" for s
  proof -
    have "in_cat cat False s" by (rule in_cat_of(1) [OF repo_cat [OF R] c(2) s])
    then show ?thesis using repo_colds(2) [OF R, of "containerName (s_addr s)"] by auto
  qed
  then show thesis by (intro that [OF u(1-4) merge_repo [OF env R c room u(5)]] reindexed_dom [OF u(5)]) blast
qed

section \<open>All pairs\<close>

text \<open>The pairs are disjoint, name base containers and fit; that stays so while they are worked off.\<close>

definition pair_names :: "(byte list \<times> byte list) list \<Rightarrow> byte list list" where
  "pair_names ps = concat (map (\<lambda>(a, b). [a, b]) ps)"

lemma pair_names_simps [simp]: "pair_names [] = []" "pair_names ((a, b) # ps) = a # b # pair_names ps"
  by (simp_all add: pair_names_def)

lemma pair_names_in: "(a, b) \<in> set ps \<Longrightarrow> a \<in> set (pair_names ps) \<and> b \<in> set (pair_names ps)"
  by (induction ps) auto

definition pairs_fit :: "catalog \<Rightarrow> (byte list \<times> byte list) list \<Rightarrow> bool" where
  "pairs_fit cat ps \<longleftrightarrow> distinct (pair_names ps) \<and>
     (\<forall>(a, b) \<in> set ps. \<exists>ra rb. cat (False, a) = Some ra \<and> cat (False, b) = Some rb \<and>
        length (content ra) + length (content rb) \<le> MAX_CONTAINER_SIZE)"

lemma pairs_fit_step:
  assumes "pairs_fit cat ((a, b) # ps)"
  shows "a \<noteq> b" "pairs_fit (cat((False, b) := None, (False, a) \<mapsto> rs)) ps"
proof -
  show "a \<noteq> b" using assms by (simp add: pairs_fit_def)
  have "a \<notin> {c, d} \<and> b \<notin> {c, d}" if "(c, d) \<in> set ps" for c d
    using assms pair_names_in [OF that] by (auto simp: pairs_fit_def)
  then show "pairs_fit (cat((False, b) := None, (False, a) \<mapsto> rs)) ps"
    using assms by (fastforce simp: pairs_fit_def)
qed

lemma cold_step_trans: "cold_step a b \<Longrightarrow> cold_step b c \<Longrightarrow> cold_step a c"
  unfolding cold_step_def by (elim exE) (simp, blast)

lemma cold_step_refl [simp]: "cold_step st st"
proof -
  have "st = st\<lparr>of_db := of_db st, of_files := of_files st, oe_chunkAddr := oe_chunkAddr st, oe_containersize := oe_containersize st,
    ocall_container := ocall_container st, mergeNewContainer := mergeNewContainer st, mergeContainer_body := mergeContainer_body st,
    baseMergePair := baseMergePair st\<rparr>" by simp
  then show ?thesis unfolding cold_step_def by blast
qed

lemma merge_loop_ok:
  assumes env: "env_ok env"
  shows "repo_ok env orig cat (of_db st) (\<lambda>_. []) \<Longrightarrow> of_files st = disk_of cat \<Longrightarrow> pass_buffers st \<Longrightarrow> pairs_fit cat ps \<Longrightarrow>
    \<exists>st' cat'. for_each (merge_pair env) ps st = Inr st' \<and> pass_buffers st' \<and> cold_step st st' \<and> of_files st' = disk_of cat' \<and>
      repo_ok env orig cat' (of_db st') (\<lambda>_. []) \<and> dom cat' \<subseteq> dom cat \<and> dom (indexObj (of_db st')) = dom (indexObj (of_db st))"
proof (induction ps arbitrary: cat st)
  case Nil
  then show ?case by simp blast
next
  case (Cons x ps)
  obtain a b where x: "x = (a, b)" by fastforce
  note pf = Cons.prems(4) [unfolded x]
  obtain ra rb where c: "cat (False, a) = Some ra" "cat (False, b) = Some rb" "length (content ra) + length (content rb) \<le> MAX_CONTAINER_SIZE"
    using pf by (auto simp: pairs_fit_def)
  let ?cat = "cat((False, b) := None, (False, a) \<mapsto> ra @ relocate a (length (content ra)) rb)"
  obtain st1 where s: "merge_pair env (a, b) st = Inr st1" "pass_buffers st1" "cold_step st st1" "of_files st1 = disk_of ?cat"
    "repo_ok env orig ?cat (of_db st1) (\<lambda>_. [])"
    "dom (indexObj (of_db st1)) = dom (indexObj (of_db st))"
    by (rule merge_pair_repo [OF env Cons.prems(1-3) c(1,2) pairs_fit_step(1) [OF pf] c(3)])
  obtain st' cat' where "for_each (merge_pair env) ps st1 = Inr st' \<and> pass_buffers st' \<and> cold_step st1 st' \<and> of_files st' = disk_of cat' \<and>
      repo_ok env orig cat' (of_db st') (\<lambda>_. []) \<and> dom cat' \<subseteq> dom ?cat \<and> dom (indexObj (of_db st')) = dom (indexObj (of_db st1))"
    using Cons.IH [OF s(5,4,2) pairs_fit_step(2) [OF pf]] by blast
  moreover have "dom ?cat \<subseteq> dom cat" using c(1) by auto
  ultimately show ?case using s(1,6) cold_step_trans [OF s(3)] by (intro exI [of _ st'] exI [of _ cat']) (auto simp: x)
qed

text \<open>The sorted list of names, and the pairs made of it.\<close>

lemma bytes_less_irrefl: "\<not> bytes_less x x"
  by (induction x) simp_all

lemma insert_name_set [simp]: "set (insert_name x xs) = insert x (set xs)"
  by (induction xs) auto

lemma bytes_less_trans: "bytes_less x y \<Longrightarrow> bytes_less y z \<Longrightarrow> bytes_less x z"
proof (induction x y arbitrary: z rule: bytes_less.induct)
  case (2 y ys)
  then show ?case by (cases z) auto
next
  case (3 x xs y ys)
  then show ?case by (cases z) (auto dest: less_trans)
qed simp

lemma bytes_less_total: "x = y \<or> bytes_less x y \<or> bytes_less y x"
  by (induction x y rule: bytes_less.induct) (auto simp: neq_iff, metis bytes_less.simps(2) neq_Nil_conv)

lemma insert_name_sorted: "sorted_wrt bytes_less xs \<Longrightarrow> sorted_wrt bytes_less (insert_name x xs)"
proof (induction xs)
  case (Cons y ys)
  then show ?case using bytes_less_total [of x y] bytes_less_trans [of x y] by auto
qed simp

lemma insert_name_distinct: "distinct xs \<Longrightarrow> sorted_wrt bytes_less xs \<Longrightarrow> distinct (insert_name x xs)"
proof (induction xs)
  case (Cons y ys)
  then show ?case using bytes_less_trans [of x y x] bytes_less_irrefl by (auto dest: bytes_less_trans)
qed simp

lemma fold_insert_name:
  "distinct acc \<and> sorted_wrt bytes_less acc \<Longrightarrow> distinct (fold insert_name ns acc) \<and> sorted_wrt bytes_less (fold insert_name ns acc) \<and>
     set (fold insert_name ns acc) = set ns \<union> set acc"
  by (induction ns arbitrary: acc) (auto simp: insert_name_sorted insert_name_distinct)

lemma merge_pairs_names: "set (pair_names (merge_pairs len ns)) \<subseteq> set ns"
  by (induction len ns rule: merge_pairs.induct) auto

lemma merge_pairs_distinct: "distinct ns \<Longrightarrow> distinct (pair_names (merge_pairs len ns))"
proof (induction len ns rule: merge_pairs.induct)
  case (1 len a b ns)
  then show ?case using merge_pairs_names [of len ns] by (simp only: merge_pairs.simps) (auto split: if_splits)
qed simp_all

lemma merge_pairs_fit: "(a, b) \<in> set (merge_pairs len ns) \<Longrightarrow> (len a + len b) mod 2 ^ 32 < MAX_CONTAINER_SIZE - 1"
  by (induction len ns rule: merge_pairs.induct) (auto split: if_splits)

definition lists_base :: "catalog \<Rightarrow> byte list list \<Rightarrow> bool" where
  "lists_base cat ns \<longleftrightarrow> set ns = {n. cat (False, n) \<noteq> None}"

lemma MergeContainer_ok:
  assumes env: "env_ok env" and R: "repo_ok env orig cat (of_db st) (\<lambda>_. [])" and f: "of_files st = disk_of cat" and b: "pass_buffers st"
    and l: "lists_base cat (listing (disk_of cat))" and p: "baseMergePair st = []"
  obtains st' cat' where "MergeContainer env listing st = Inr st'" "cold_step st st'" "of_files st' = disk_of cat'"
    "repo_ok env orig cat' (of_db st') (\<lambda>_. [])" "dom cat' \<subseteq> dom cat" "baseMergePair st' = []"
    "pass_buffers st'" "dom (indexObj (of_db st')) = dom (indexObj (of_db st))"
proof -
  let ?ns = "fold insert_name (listing (disk_of cat)) []" and ?len = "file_size (disk_of cat)"
  have ns: "distinct ?ns" "set ?ns = {n. cat (False, n) \<noteq> None}"
    using fold_insert_name [of "[]" "listing (disk_of cat)"] l by (simp_all add: lists_base_def)
  have "pairs_fit cat (merge_pairs ?len ?ns)"
  proof -
    have "\<exists>ra rb. cat (False, x) = Some ra \<and> cat (False, y) = Some rb \<and> length (content ra) + length (content rb) \<le> MAX_CONTAINER_SIZE"
      if xy: "(x, y) \<in> set (merge_pairs ?len ?ns)" for x y
    proof -
      have "{x, y} \<subseteq> set (pair_names (merge_pairs ?len ?ns))" using pair_names_in [OF xy] by simp
      then have "{x, y} \<subseteq> set ?ns" using merge_pairs_names by blast
      then have "cat (False, x) \<noteq> None" "cat (False, y) \<noteq> None" using ns(2) by auto
      then obtain ra rb where r: "cat (False, x) = Some ra" "cat (False, y) = Some rb" by blast
      have "?len x = length (content ra)" "?len y = length (content rb)" using r by (simp_all add: file_size_def disk_of_def)
      moreover have "length (content ra) + length (content rb) < 2 ^ 32"
        using cat_ok_rs(2) [OF repo_cat [OF R] r(1)] cat_ok_rs(2) [OF repo_cat [OF R] r(2)] by (simp add: MAX_CONTAINER_SIZE_def)
      ultimately show ?thesis using merge_pairs_fit [OF xy] r by simp
    qed
    then show ?thesis unfolding pairs_fit_def using merge_pairs_distinct [OF ns(1)] by blast
  qed
  let ?st = "Ocall_GetMergeContainer listing st"
  have st: "?st = st\<lparr>baseMergePair := merge_pairs ?len ?ns\<rparr>" using p f by (simp add: Ocall_GetMergeContainer_def)
  have cs: "cold_step st ?st" unfolding st cold_step_def
    by (rule exI [of _ "of_db st"], rule exI [of _ "of_files st"], rule exI [of _ "oe_chunkAddr st"], rule exI [of _ "oe_containersize st"],
        rule exI [of _ "ocall_container st"], rule exI [of _ "mergeNewContainer st"], rule exI [of _ "mergeContainer_body st"],
        rule exI [of _ "merge_pairs ?len ?ns"]) simp
  have "repo_ok env orig cat (of_db ?st) (\<lambda>_. [])" "of_files ?st = disk_of cat" "pass_buffers ?st" "pairs_fit cat (baseMergePair ?st)"
    using R f b \<open>pairs_fit cat _\<close> by (simp_all add: st pass_buffers_def)
  from merge_loop_ok [OF env this] obtain st1 cat' where s: "for_each (merge_pair env) (baseMergePair ?st) ?st = Inr st1"
    "pass_buffers st1" "cold_step ?st st1" "of_files st1 = disk_of cat'" "repo_ok env orig cat' (of_db st1) (\<lambda>_. [])" "dom cat' \<subseteq> dom cat"
    "dom (indexObj (of_db st1)) = dom (indexObj (of_db ?st))"
    by blast
  obtain addr where a: "buf_write (oe_chunkAddr st1) 8 (le32 0) = Inr addr" "length addr = sizeof_RecipeEntry"
    using s(2) by (auto simp: buf_write_def pass_buffers_def sizeof_RecipeEntry_def)
  let ?st2 = "st1\<lparr>baseMergePair := [], oe_chunkAddr := addr\<rparr>"
  have "cold_step st1 ?st2" unfolding cold_step_def
    by (rule exI [of _ "of_db st1"], rule exI [of _ "of_files st1"], rule exI [of _ addr], rule exI [of _ "oe_containersize st1"],
        rule exI [of _ "ocall_container st1"], rule exI [of _ "mergeNewContainer st1"], rule exI [of _ "mergeContainer_body st1"],
        rule exI [of _ "[]"]) simp
  then have "cold_step st ?st2" using cold_step_trans cs s(3) by blast
  moreover have "MergeContainer env listing st = Inr ?st2" using s(1) a by (simp add: MergeContainer_def Ocall_CleanMerge_def Let_def)
  moreover have "pass_buffers ?st2" using s(2) a(2) by (simp add: pass_buffers_def)
  ultimately show thesis using that [of ?st2 cat'] s(4-7) by (simp add: st)
qed

end
