(* ===== verification/Offline_Delta.thy ===== *)
theory Offline_Delta imports Offline_Merge begin

text \<open>
  The codec as the pass uses it: a delta over the old base becomes a delta over the new one that
  stands for the same chunk.
\<close>

section \<open>Decoding into another buffer\<close>

lemma decode_loop_grows: "decode_loop delta ds base out dl rl = Inr (o1, n) \<Longrightarrow> dl \<le> n \<and> n \<le> length o1 \<and> length o1 = length out"
proof (induction delta ds base out dl rl rule: decode_loop.induct)
  case (1 delta ds base out dl rl)
  obtain hd where hd: "buf_read delta rl 4 = Inr hd" using "1.prems" by (subst (asm) decode_loop.simps) (auto simp: res_bind_eq_Inr)
  show ?case
  proof (cases "get_flag (get32 hd) = 0")
    case True
    obtain u where u: "buf_read delta rl unit1_size = Inr u"
      using "1.prems" True hd by (subst (asm) decode_loop.simps) (auto simp: res_bind_eq_Inr)
    let ?len = "unat (get_length (get32 (bslice u 0 4)))" and ?off = "unat (get32 (bslice u 4 4))"
    obtain bs out' where o: "buf_read base ?off ?len = Inr bs" "buf_write out dl bs = Inr out'"
      "(if ds \<le> rl + unit1_size then Inr (out', dl + ?len) else decode_loop delta ds base out' (dl + ?len) (rl + unit1_size)) = Inr (o1, n)"
      using "1.prems" True hd u by (subst (asm) decode_loop.simps) (auto simp: res_bind_eq_Inr Let_def)
    have l: "length bs = ?len" "dl + ?len \<le> length out" "length out' = length out"
      using o(1,2) by (auto simp: buf_read_Inr buf_write_Inr bslice_length)
    show ?thesis
    proof (cases "ds \<le> rl + unit1_size")
      case False
      from "1.IH"(1) [OF hd True u refl refl refl o(1,2) False] o(3) False l show ?thesis by simp
    qed (use o(3) l in auto)
  next
    case False
    let ?len = "unat (get_length (get32 hd))" and ?rl = "rl + unit2_size"
    obtain bs out' where o: "buf_read delta ?rl ?len = Inr bs" "buf_write out dl bs = Inr out'"
      "(if ds \<le> ?rl + ?len then Inr (out', dl + ?len) else decode_loop delta ds base out' (dl + ?len) (?rl + ?len)) = Inr (o1, n)"
      using "1.prems" False hd by (subst (asm) decode_loop.simps) (auto simp: res_bind_eq_Inr Let_def)
    have l: "length bs = ?len" "dl + ?len \<le> length out" "length out' = length out"
      using o(1,2) by (auto simp: buf_read_Inr buf_write_Inr bslice_length)
    show ?thesis
    proof (cases "ds \<le> ?rl + ?len")
      case nd: False
      from "1.IH"(2) [OF hd False refl refl o(1,2) nd] o(3) nd l show ?thesis by simp
    qed (use o(3) l in auto)
  qed
qed

lemma decode_loop_buffer:
  "decode_loop delta ds base out dl rl = Inr (o1, n) \<Longrightarrow> n \<le> length out2 \<Longrightarrow> take dl out2 = take dl out \<Longrightarrow>
     \<exists>o2. decode_loop delta ds base out2 dl rl = Inr (o2, n) \<and> take n o2 = take n o1 \<and> length o2 = length out2"
proof (induction delta ds base out dl rl arbitrary: out2 rule: decode_loop.induct)
  case (1 delta ds base out dl rl)
  obtain hd where hd: "buf_read delta rl 4 = Inr hd" using "1.prems" by (subst (asm) decode_loop.simps) (auto simp: res_bind_eq_Inr)
  have wr: "\<exists>out2'. buf_write out2 dl bs = Inr out2' \<and> length out2' = length out2 \<and> take (dl + length bs) out2' = take (dl + length bs) out'"
    if "buf_write out dl bs = Inr out'" "dl + length bs \<le> length out2" for bs out'
    using that "1.prems"(3) by (auto simp: buf_write_Inr)
  show ?case
  proof (cases "get_flag (get32 hd) = 0")
    case True
    obtain u where u: "buf_read delta rl unit1_size = Inr u"
      using "1.prems"(1) True hd by (subst (asm) decode_loop.simps) (auto simp: res_bind_eq_Inr)
    let ?len = "unat (get_length (get32 (bslice u 0 4)))" and ?off = "unat (get32 (bslice u 4 4))"
    obtain bs out' where o: "buf_read base ?off ?len = Inr bs" "buf_write out dl bs = Inr out'"
      "(if ds \<le> rl + unit1_size then Inr (out', dl + ?len) else decode_loop delta ds base out' (dl + ?len) (rl + unit1_size)) = Inr (o1, n)"
      using "1.prems"(1) True hd u by (subst (asm) decode_loop.simps) (auto simp: res_bind_eq_Inr Let_def)
    have l: "length bs = ?len" using o(1) by (auto simp: buf_read_Inr bslice_length)
    have n: "dl + ?len \<le> n" using o(3) decode_loop_grows by (auto split: if_splits)
    then obtain out2' where w: "buf_write out2 dl bs = Inr out2'" "length out2' = length out2" "take (dl + ?len) out2' = take (dl + ?len) out'"
      using wr [OF o(2)] l "1.prems"(2) by auto
    show ?thesis
    proof (cases "ds \<le> rl + unit1_size")
      case d: True
      then show ?thesis using True hd u o w by (subst decode_loop.simps) (auto simp: Let_def)
    next
      case False
      from "1.IH"(1) [OF hd True u refl refl refl o(1,2) False, of out2'] o(3) False w "1.prems"(2)
      obtain o2 where "decode_loop delta ds base out2' (dl + ?len) (rl + unit1_size) = Inr (o2, n)" "take n o2 = take n o1" "length o2 = length out2"
        by auto
      then show ?thesis using True hd u o(1) w(1) False by (subst decode_loop.simps) (simp add: Let_def)
    qed
  next
    case False
    let ?len = "unat (get_length (get32 hd))" and ?rl = "rl + unit2_size"
    obtain bs out' where o: "buf_read delta ?rl ?len = Inr bs" "buf_write out dl bs = Inr out'"
      "(if ds \<le> ?rl + ?len then Inr (out', dl + ?len) else decode_loop delta ds base out' (dl + ?len) (?rl + ?len)) = Inr (o1, n)"
      using "1.prems"(1) False hd by (subst (asm) decode_loop.simps) (auto simp: res_bind_eq_Inr Let_def)
    have l: "length bs = ?len" using o(1) by (auto simp: buf_read_Inr bslice_length)
    have n: "dl + ?len \<le> n" using o(3) decode_loop_grows by (auto split: if_splits)
    then obtain out2' where w: "buf_write out2 dl bs = Inr out2'" "length out2' = length out2" "take (dl + ?len) out2' = take (dl + ?len) out'"
      using wr [OF o(2)] l "1.prems"(2) by auto
    show ?thesis
    proof (cases "ds \<le> ?rl + ?len")
      case d: True
      then show ?thesis using False hd o w by (subst decode_loop.simps) (auto simp: Let_def)
    next
      case nd: False
      from "1.IH"(2) [OF hd False refl refl o(1,2) nd, of out2'] o(3) nd w "1.prems"(2)
      obtain o2 where "decode_loop delta ds base out2' (dl + ?len) (?rl + ?len) = Inr (o2, n)" "take n o2 = take n o1" "length o2 = length out2"
        by auto
      then show ?thesis using False hd o(1) w(1) nd by (subst decode_loop.simps) (simp add: Let_def)
    qed
  qed
qed

lemma EDeltaDecode_buffer:
  assumes "ed3_decode d base = Inr c" "length c \<le> length out"
  obtains out' where "EDeltaDecode d (length d) base out = Inr (out', length c)" "buf_read out' 0 (length c) = Inr c" "length out' = length out"
proof -
  obtain o1 n where o: "decode_loop d (length d) base (replicate ((length d + length base) * 2) 0) 0 0 = Inr (o1, n)" "buf_read o1 0 n = Inr c"
    using assms(1) by (auto simp: ed3_decode_def EDeltaDecode_def res_bind_eq_Inr Let_def)
  have n: "n = length c" "take n o1 = c" "n \<le> length o1" using o(2) by (auto simp: buf_read_Inr bslice_def)
  from decode_loop_buffer [OF o(1), of out] assms(2) n
  obtain o2 where o2: "decode_loop d (length d) base out 0 0 = Inr (o2, n)" "take n o2 = take n o1" "length o2 = length out" by auto
  have "buf_read o2 0 (length c) = Inr c" using o2 n assms(2) by (simp add: buf_read_def bslice_def)
  then show thesis using that [of o2] o2(1,3) n(1) by (simp add: EDeltaDecode_def)
qed

section \<open>Encoding in the pass\<close>

definition codec_ok :: "offline \<Rightarrow> bool" where
  "codec_ok st \<longleftrightarrow> length (plainNewDeltaChunk st) = MAX_CHUNK_SIZE \<and> length (tmpUnique st) = MAX_CHUNK_SIZE \<and>
     length (BaseLinkOffline st) = MAX_CHUNK_SIZE div STRMIN + 50 \<and> htable_ok (psHTable2Offline st) \<and> htable_entries (psHTable2Offline st) = {}"

definition codec_step :: "offline \<Rightarrow> offline \<Rightarrow> bool" where
  "codec_step st st' \<longleftrightarrow> (\<exists>p t l h z. st' = st\<lparr>plainNewDeltaChunk := p, tmpUnique := t, BaseLinkOffline := l, psHTable2Offline := h,
     offlineCurrBackup_size := z\<rparr>)"

lemma codec_stepI:
  "codec_step st (st\<lparr>plainNewDeltaChunk := p, tmpUnique := t, BaseLinkOffline := l, psHTable2Offline := h, offlineCurrBackup_size := z\<rparr>)"
  unfolding codec_step_def by blast

lemma ed3_encode_buffer_ok:
  assumes w: "codec_ok st" and c: "length c + 12 \<le> MAX_CHUNK_SIZE" "length base \<le> MAX_CHUNK_SIZE" "length c \<le> 2 * length base" "c \<noteq> []"
  obtains d p l h where "ed3_encode_buffer c base st = Inr (d, st\<lparr>plainNewDeltaChunk := p, BaseLinkOffline := l, psHTable2Offline := h\<rparr>)"
    "codec_ok (st\<lparr>plainNewDeltaChunk := p, BaseLinkOffline := l, psHTable2Offline := h\<rparr>)" "ed3_decode d base = Inr c"
proof -
  obtain b e where be: "detect_ends c base = (b, e)" by fastforce
  let ?h = "if length base \<le> b + e then psHTable2Offline st else ResetTable (psHTable2Offline st)"
  have h: "htable_ok ?h" "htable_entries ?h = {}" using w ResetTable_ok by (auto simp: codec_ok_def)
  have room: "encode_room c base (plainNewDeltaChunk st) (BaseLinkOffline st) ?h"
    using w c h by (simp add: encode_room_def codec_ok_def MAX_CHUNK_SIZE_def STRMIN_def)
  have starts: "encode_starts c base" using c by (intro encode_starts_ratio) (simp_all add: MAX_CHUNK_SIZE_def)
  obtain p n l h' us where d: "EDeltaEncode c base (plainNewDeltaChunk st) (BaseLinkOffline st) ?h = Inr (p, n, l, h')"
    "delta_ok c base p n us" "length l = length (BaseLinkOffline st)" "htable_ok h'" "htable_entries h' = {}"
    using EDeltaEncode_delta [OF room starts] by blast
  have "ed3_decode (take n p) base = Inr c"
    by (rule ed3_decode_encoded [OF room starts c(4) d(1)]) (use c(3) in simp)
  moreover have "ed3_encode_buffer c base st = Inr (take n p, st\<lparr>plainNewDeltaChunk := p, BaseLinkOffline := l, psHTable2Offline := h'\<rparr>)"
    using d(1) be by (simp add: ed3_encode_buffer_def off_EDeltaEncode_def)
  moreover have "codec_ok (st\<lparr>plainNewDeltaChunk := p, BaseLinkOffline := l, psHTable2Offline := h'\<rparr>)"
    using w d(3-5) EDeltaEncode_len [OF d(1)] by (simp add: codec_ok_def)
  ultimately show thesis using that by blast
qed

lemma codec_ok_size [simp]: "codec_ok (st\<lparr>offlineCurrBackup_size := z\<rparr>) = codec_ok st"
  by (simp add: codec_ok_def)

lemma GetNew_deltachunk_ok:
  assumes w: "codec_ok st" and d: "ed3_decode delta old = Inr c"
    and c: "length c + 12 \<le> MAX_CHUNK_SIZE" "length new \<le> MAX_CHUNK_SIZE" "length c \<le> 2 * length new" "c \<noteq> []"
  obtains flag d' st' where "GetNew_deltachunk delta old new st = Inr (flag, d', st')" "codec_ok st'" "codec_step st st'"
    "flag \<Longrightarrow> ed3_decode d' new = Inr c \<and> length d' \<le> length c"
proof -
  obtain u where u: "EDeltaDecode delta (length delta) old (tmpUnique st) = Inr (u, length c)" "buf_read u 0 (length c) = Inr c"
    "length u = length (tmpUnique st)" by (rule EDeltaDecode_buffer [OF d, of "tmpUnique st"]) (use w c(1) in \<open>simp_all add: codec_ok_def\<close>)
  have w1: "codec_ok (st\<lparr>tmpUnique := u\<rparr>)" using w u(3) by (simp add: codec_ok_def)
  obtain d' p l h where e: "ed3_encode_buffer c new (st\<lparr>tmpUnique := u\<rparr>) =
      Inr (d', (st\<lparr>tmpUnique := u\<rparr>)\<lparr>plainNewDeltaChunk := p, BaseLinkOffline := l, psHTable2Offline := h\<rparr>)"
    "codec_ok ((st\<lparr>tmpUnique := u\<rparr>)\<lparr>plainNewDeltaChunk := p, BaseLinkOffline := l, psHTable2Offline := h\<rparr>)" "ed3_decode d' new = Inr c"
    by (rule ed3_encode_buffer_ok [OF w1 c])
  let ?st = "st\<lparr>plainNewDeltaChunk := p, tmpUnique := u, BaseLinkOffline := l, psHTable2Offline := h\<rparr>"
  have s: "(st\<lparr>tmpUnique := u\<rparr>)\<lparr>plainNewDeltaChunk := p, BaseLinkOffline := l, psHTable2Offline := h\<rparr> = ?st" by simp
  show thesis
  proof (cases "length c < length d'")
    case True
    have "GetNew_deltachunk delta old new st = Inr (False, d', ?st)" using u e(1) True by (simp add: GetNew_deltachunk_def)
    moreover have "codec_step st ?st" using codec_stepI [where st = st and p = p and t = u and l = l and h = h and z = "offlineCurrBackup_size st"] by simp
    ultimately show thesis using e(2) s by (intro that [of False d' ?st]) simp_all
  next
    case False
    have "GetNew_deltachunk delta old new st = Inr (True, d', resize_backup (length delta) (length d') ?st)"
      using u e(1) [unfolded s] False by (simp add: GetNew_deltachunk_def)
    moreover have "codec_step st (resize_backup (length delta) (length d') ?st)" unfolding resize_backup_def by (simp add: codec_stepI)
    moreover have "codec_ok (resize_backup (length delta) (length d') ?st)" using e(2) s by (simp add: resize_backup_def)
    ultimately show thesis using e(3) False by (intro that [of True d' "resize_backup (length delta) (length d') ?st"]) simp_all
  qed
qed

end
