(* ===== verification/Offline_Store.thy ===== *)
theory Offline_Store imports Offline_Delta begin

text \<open>
  The state in the middle of the pass: a hot container that is not on disk yet, and the extents
  that are noted as cold.  Storing a record anew in the hot container keeps the repository.
\<close>

section \<open>A record is replaced\<close>

definition deltas :: "restore_env \<Rightarrow> InMemoryDatabase \<Rightarrow> byte list \<Rightarrow> byte list set" where
  "deltas env db b = {k. \<exists>v r. indexObj db k = Some v \<and> enc_addr env r v \<and> re_deltaFlag r = DELTA \<and> basechunkHash r = b}"

lemma index_only:
  assumes "indexObj db' = indexObj db"
  shows "repo_ok env orig cat db' colds = repo_ok env orig cat db colds" "deltas env db' = deltas env db"
    "index_base env db' = index_base env db" "live env db' = live env db"
proof -
  have i: "index_base env db' = index_base env db" using assms by (intro ext) (simp add: index_base_def)
  have l: "live env db' = live env db" using assms by (intro ext) (simp add: live_def)
  have "keeps env db' = keeps env db" by (intro ext) (simp add: keeps_def i)
  then show "repo_ok env orig cat db' colds = repo_ok env orig cat db colds" using assms l by (simp add: repo_ok_def)
  show "deltas env db' = deltas env db" using assms by (intro ext) (simp add: deltas_def)
  show "index_base env db' = index_base env db" "live env db' = live env db" by (fact i l)+
qed

text \<open>The address of a delta that the index holds is one of the deltas of its base.\<close>

lemma keeps_delta_of:
  assumes "keeps env db orig flag s" "indexObj db k = Some v" "enc_addr env (s_addr s) v" "flag"
  shows "k \<in> deltas env db (basechunkHash (s_addr s))"
  using assms unfolding keeps_def deltas_def by auto

lemma keeps_change:
  assumes "keeps env db orig f s"
    "\<And>b. f \<Longrightarrow> index_base env db (basechunkHash (s_addr s)) b \<Longrightarrow> \<exists>b'. index_base env db' (basechunkHash (s_addr s)) b'"
  shows "keeps env db' orig f s"
  using assms unfolding keeps_def by (cases f) auto

lemma repo_replace:
  assumes env: "env_ok env" and R: "repo_ok env orig cat db colds"
    and s0: "in_cat cat f0 s0" "live env db s0" and no: "deltas env db (s_fp s0) = {}"
    and h: "cat (True, n) = Some hs" "placed n 0 (hs @ [s1])" "length (content (hs @ [s1])) \<le> MAX_CONTAINER_SIZE"
    and s1: "s_fp s1 = s_fp s0" "enc_addr env (s_addr s1) v" "basechunkHash (s_addr s1) \<noteq> s_fp s0"
      "re_deltaFlag (s_addr s1) = DELTA" "\<exists>b. index_base env db (basechunkHash (s_addr s1)) b"
      "DecryptionWithKeyIV (env_ssl env) cryptoObj (s_data s1) (enclaveKey env) (s_iv s1) = Inr d" "length d = length (s_data s1)"
      "length d \<le> MAX_CHUNK_SIZE" "ed3_decode d (orig (basechunkHash (s_addr s1))) = Inr (orig (s_fp s0))"
    and db': "indexObj db' = (indexObj db)(s_fp s0 \<mapsto> v)"
  shows "repo_ok env orig (cat((True, n) \<mapsto> hs @ [s1])) db'
      (colds(containerName (s_addr s0) := colds (containerName (s_addr s0)) @ [extent s0]))"
proof -
  let ?k = "s_fp s0" and ?cat = "cat((True, n) \<mapsto> hs @ [s1])" and ?n0 = "containerName (s_addr s0)"
  note C = repo_cat [OF R]
  note p = cat_ok_rs [OF C h(1)]
  have C': "cat_ok ?cat" using C h(2,3) p(3,4) unfolding cat_ok_def by auto
  have n1: "containerName (s_addr s1) = n" using h(2) by (auto simp: placed_append srec_ok_def)
  have mem: "in_cat ?cat f s \<longleftrightarrow> in_cat cat f s \<or> f = True \<and> s = s1" for f s
    using h(1) n1 by (cases f) (auto simp: in_cat_def)
  have new: "\<not> in_cat cat f s1" for f
  proof
    assume a: "in_cat cat f s1"
    then have "s1 \<in> set hs" using n1 h(1) p(4) by (cases f) (auto simp: in_cat_def)
    moreover have "distinct (hs @ [s1])" by (rule placed_extents(3) [OF h(2)])
    ultimately show False by simp
  qed
  have addr1: "s_addr s = s_addr s1 \<Longrightarrow> in_cat ?cat f s \<Longrightarrow> s = s1" for f s
    using in_cat_unique [OF C', of f s True s1] mem by blast
  have base: "\<exists>b. index_base env db' k' b" if "index_base env db k' b" "k' \<noteq> ?k" for k' b
    using that db' by (auto simp: index_base_def)
  have k32: "length ?k = CHUNK_HASH_SIZE" "length (orig ?k) \<le> MAX_CHUNK_SIZE"
    using s0(2) repo_index [OF R, of ?k] unfolding live_def by blast+
  have keep1: "keeps env db' orig True s1" unfolding keeps_def using s1 base by auto
  have index: "length k = CHUNK_HASH_SIZE \<and> length (orig k) \<le> MAX_CHUNK_SIZE \<and>
      (\<exists>f s. in_cat ?cat f s \<and> s_fp s = k \<and> enc_addr env (s_addr s) w \<and> keeps env db' orig f s)" if w: "indexObj db' k = Some w" for k w
  proof (cases "k = ?k")
    case True
    then have "w = v" using w db' by simp
    then have "in_cat ?cat True s1 \<and> s_fp s1 = k \<and> enc_addr env (s_addr s1) w \<and> keeps env db' orig True s1"
      using mem s1(1,2) keep1 True by simp
    then show ?thesis using k32 True by (intro conjI exI [of _ True] exI [of _ s1]) simp_all
  next
    case False
    then have w0: "indexObj db k = Some w" using w db' by simp
    obtain f s where s: "in_cat cat f s" "s_fp s = k" "enc_addr env (s_addr s) w" "keeps env db orig f s"
      "length k = CHUNK_HASH_SIZE" "length (orig k) \<le> MAX_CHUNK_SIZE" by (rule repo_index [OF R w0])
    have nb: "basechunkHash (s_addr s) \<noteq> ?k" if "f" using keeps_delta_of [OF s(4) w0 s(3) that] no by auto
    have "keeps env db' orig f s" by (rule keeps_change [OF s(4)]) (rule base, assumption, rule nb)
    then show ?thesis using s mem by blast
  qed
  have lv: "live env db' s \<longleftrightarrow> (if s_fp s = ?k then s = s1 else live env db s)" if "in_cat ?cat f s" for f s
  proof (cases "s_fp s = ?k")
    case True
    have "live env db' s \<longleftrightarrow> enc_addr env (s_addr s) v" using True db' by (simp add: live_def)
    also have "\<dots> \<longleftrightarrow> s = s1" using enc_addr_inject [OF env s1(2)] addr1 [OF _ that] s1(2) by metis
    finally show ?thesis using True by simp
  qed (simp add: live_def db')
  have dead: "\<not> live env db' s \<longleftrightarrow> \<not> live env db s \<or> s = s0" if s: "in_cat cat f s" for f s
  proof (cases "s_fp s = ?k")
    case True
    have "\<not> live env db' s" using lv [of f s] mem s True new by auto
    moreover have "s = s0" if "live env db s"
      using in_cat_unique [OF C s s0(1) live_unique [OF env that s0(2) True]] by simp
    ultimately show ?thesis by blast
  next
    case False
    then show ?thesis using lv [of f s] mem s by auto
  qed
  have live1: "live env db' s1" using lv [of True s1] mem s1(1) by simp
  have cs: "set ((colds(?n0 := colds ?n0 @ [extent s0])) x) =
      extent ` {s. \<exists>f. in_cat ?cat f s \<and> containerName (s_addr s) = x \<and> \<not> live env db' s}" for x
  proof -
    have "{s. \<exists>f. in_cat ?cat f s \<and> containerName (s_addr s) = x \<and> \<not> live env db' s} =
        {s. \<exists>f. in_cat cat f s \<and> containerName (s_addr s) = x \<and> \<not> live env db s} \<union> (if x = ?n0 then {s0} else {})"
      using mem dead live1 s0(1) by auto
    then show ?thesis using repo_colds(2) [OF R] by (simp add: image_Un)
  qed
  have "extent s0 \<notin> set (colds ?n0)"
  proof
    assume "extent s0 \<in> set (colds ?n0)"
    then obtain f t where t: "in_cat cat f t" "containerName (s_addr t) = ?n0" "\<not> live env db t" "extent t = extent s0"
      unfolding repo_colds(2) [OF R] by fastforce
    obtain rs where rs: "cat (f0, ?n0) = Some rs" "s0 \<in> set rs" using s0(1) by (auto simp: in_cat_def)
    have "t \<in> set rs" using t(1,2) rs(1) cat_ok_rs(4) [OF C rs(1)] by (cases f; cases f0) (auto simp: in_cat_def)
    then have "t = s0" using inj_onD [OF placed_extents(1) [OF cat_ok_rs(1) [OF C rs(1)]], of t s0] rs(2) t(4) by simp
    then show False using t(3) s0(2) by simp
  qed
  then have "distinct ((colds(?n0 := colds ?n0 @ [extent s0])) x)" for x using repo_colds(1) [OF R] by simp
  then show ?thesis unfolding repo_ok_def using C' index cs by simp
qed

lemma deltas_replace:
  assumes env: "env_ok env" and "indexObj db' = (indexObj db)(k \<mapsto> v)" "enc_addr env r v" "re_deltaFlag r = DELTA"
  shows "deltas env db' b = deltas env db b - {k} \<union> (if b = basechunkHash r then {k} else {})"
  using assms(2-4) enc_addr_inject [OF env] unfolding deltas_def by auto

lemma base_replace:
  assumes env: "env_ok env" and "indexObj db' = (indexObj db)(k \<mapsto> v)" "enc_addr env r v" "re_deltaFlag r = DELTA"
  shows "index_base env db' b x \<longleftrightarrow> b \<noteq> k \<and> index_base env db b x"
proof (cases "b = k")
  case True
  have "\<not> index_base env db' k x"
  proof
    assume "index_base env db' k x"
    then have "x = r" "re_deltaFlag x = NO_DELTA" using enc_addr_inject [OF env _ assms(3)] assms(2) by (auto simp: index_base_def)
    then show False using assms(4) by (simp add: delta_defs)
  qed
  with True show ?thesis by simp
qed (simp add: index_base_def assms(2))

section \<open>The state of the pass\<close>

definition colds_of :: "offline \<Rightarrow> byte list \<Rightarrow> (nat \<times> nat) list" where
  "colds_of st n = (case cold_map st n of None \<Rightarrow> [] | Some ps \<Rightarrow> ps)"

definition colds_ok :: "offline \<Rightarrow> bool" where
  "colds_ok st \<longleftrightarrow> distinct (cold_container_set st) \<and> sorted_wrt bytes_less (cold_container_set st) \<and>
     set (cold_container_set st) = dom (cold_map st) \<and> (\<forall>n. cold_map st n \<noteq> Some [])"

definition room_ok :: "offline \<Rightarrow> bool" where
  "room_ok st \<longleftrightarrow> pass_buffers st \<and> codec_ok st \<and> length (process_buf st) = 100000 * CHUNK_HASH_SIZE \<and>
     length (out_buf st) = 4000 * CHUNK_HASH_SIZE \<and> length (test_buf st) = 8000 * CHUNK_HASH_SIZE"

definition hot_ok :: "Container_t \<Rightarrow> srec list \<Rightarrow> bool" where
  "hot_ok c hs \<longleftrightarrow> length (ct_body c) = MAX_CONTAINER_SIZE \<and> currentSize c = length (content hs) \<and> currentSize c < MAX_CONTAINER_SIZE \<and>
     take (currentSize c) (ct_body c) = content hs \<and> length (containerID c) = CONTAINER_ID_LENGTH \<and> placed (containerID c) 0 hs"

definition names_ok :: "catalog \<Rightarrow> nat \<Rightarrow> bool" where
  "names_ok cat T \<longleftrightarrow> (\<forall>k \<in> dom cat. \<exists>t < T. CreateUUID CONTAINER_ID_LENGTH t = Inr (snd k))"

abbreviation with_hot :: "catalog \<Rightarrow> srec list \<Rightarrow> offline \<Rightarrow> catalog" where
  "with_hot cat hs st \<equiv> cat((True, containerID (hot_container st)) \<mapsto> hs)"

definition mid :: "restore_env \<Rightarrow> (byte list \<Rightarrow> byte list) \<Rightarrow> catalog \<Rightarrow> srec list \<Rightarrow> offline \<Rightarrow> bool" where
  "mid env orig cat hs st \<longleftrightarrow> repo_ok env orig (with_hot cat hs st) (of_db st) (colds_of st) \<and> of_files st = disk_of cat \<and>
     cat (True, containerID (hot_container st)) = None \<and> hot_ok (hot_container st) hs \<and>
     names_ok (with_hot cat hs st) (of_times st) \<and> room_ok st \<and> colds_ok st"

definition same_frame :: "offline \<Rightarrow> offline \<Rightarrow> bool" where
  "same_frame st st' \<longleftrightarrow> local_map st' = local_map st \<and> cold_container_vector st' = cold_container_vector st \<and>
     baseMergePair st' = baseMergePair st \<and> delta_map st' = delta_map st \<and> test_buf st' = test_buf st"

lemma same_frame_trans: "same_frame a b \<Longrightarrow> same_frame b c \<Longrightarrow> same_frame a c"
  by (simp add: same_frame_def)

lemma same_frame_refl [simp]: "same_frame a a"
  by (simp add: same_frame_def)

lemma codec_step_frame: "codec_step st st' \<Longrightarrow> same_frame st st'"
  unfolding codec_step_def same_frame_def by auto

lemma pass_buffers_codec: "codec_step st st' \<Longrightarrow> codec_ok st' \<Longrightarrow> room_ok st \<Longrightarrow> room_ok st'"
  unfolding codec_step_def room_ok_def pass_buffers_def by auto

lemma mid_codec: "mid env orig cat hs st \<Longrightarrow> codec_step st st' \<Longrightarrow> codec_ok st' \<Longrightarrow> mid env orig cat hs st'"
  using pass_buffers_codec unfolding mid_def codec_step_def by (auto simp: colds_of_def [abs_def] colds_ok_def)

section \<open>Notes\<close>

lemma buf_write_ok: "off + length bs \<le> length buf \<Longrightarrow> \<exists>buf'. buf_write buf off bs = Inr buf' \<and> length buf' = length buf \<and> bslice buf' off (length bs) = bs \<and>
    take off buf' = take off buf"
  by (auto simp: buf_write_def bslice_def)

lemma clear_process_ok:
  assumes "length buf = 100000 * CHUNK_HASH_SIZE"
  obtains buf' where "clear_process buf = Inr buf'" "length buf' = 100000 * CHUNK_HASH_SIZE"
proof -
  have "0 + length (replicate (1000 * CHUNK_HASH_SIZE) (0 :: byte)) \<le> length buf" using assms by simp
  from buf_write_ok [OF this] that assms show thesis unfolding clear_process_def by auto
qed

lemma read_back:
  assumes "buf_write buf off bs = Inr buf'"
  shows "buf_read buf' off (length bs) = Inr bs"
  using assms by (auto simp: buf_write_def buf_read_def bslice_def split: if_splits)

lemma read_before:
  assumes "buf_write buf off bs = Inr buf'" "p + n \<le> off"
  shows "buf_read buf' p n = buf_read buf p n"
  using assms by (auto simp: buf_write_def buf_read_def bslice_def drop_take min_def split: if_splits)

lemma note_delta_ok:
  assumes "length (process_buf st) = 100000 * CHUNK_HASH_SIZE" "length b = CHUNK_HASH_SIZE" "length k = CHUNK_HASH_SIZE"
  obtains buf where "note_delta b k st = Inr (st\<lparr>process_buf := buf, of_db := InsertDeltaIndex b k (of_db st)\<rparr>)"
    "length buf = 100000 * CHUNK_HASH_SIZE"
proof -
  obtain b0 where b0: "clear_process (process_buf st) = Inr b0" "length b0 = 100000 * CHUNK_HASH_SIZE"
    by (rule clear_process_ok [OF assms(1)])
  have "0 + length b \<le> length b0" using b0 assms(2) by simp
  then obtain b1 where b1: "buf_write b0 0 b = Inr b1" "length b1 = length b0" using buf_write_ok by blast
  have "CHUNK_HASH_SIZE + length k \<le> length b1" using b0 b1 assms(3) by simp
  then obtain b2 where b2: "buf_write b1 CHUNK_HASH_SIZE k = Inr b2" "length b2 = length b1" using buf_write_ok by blast
  have "buf_read b2 0 CHUNK_HASH_SIZE = Inr b" using read_before [OF b2(1), of 0 CHUNK_HASH_SIZE] read_back [OF b1(1)] assms(2) by simp
  moreover have "buf_read b2 CHUNK_HASH_SIZE CHUNK_HASH_SIZE = Inr k" using read_back [OF b2(1)] assms(3) by simp
  ultimately have "Ocall_UpdateDeltaIndex b2 0 1 (of_db st) = Inr (InsertDeltaIndex b k (of_db st))" by simp
  then have "note_delta b k st = Inr (st\<lparr>process_buf := b2, of_db := InsertDeltaIndex b k (of_db st)\<rparr>)"
    using b0(1) b1(1) b2(1) by (simp add: note_delta_def)
  then show thesis using that b0 b1 b2 by simp
qed

lemma note_cold_ok:
  assumes "length (out_buf st) = 4000 * CHUNK_HASH_SIZE" "length n = CONTAINER_ID_LENGTH" "fst e < 2 ^ 32" "snd e < 2 ^ 32"
  obtains buf where "note_cold n e st = Inr (st\<lparr>out_buf := buf, cold_map := push_cold n e (cold_map st),
      cold_container_set := insert_name n (cold_container_set st)\<rparr>)" "length buf = 4000 * CHUNK_HASH_SIZE"
proof -
  let ?a = "le32 (word_of_nat (fst e))" and ?b = "le32 (word_of_nat (snd e))" and ?N = "CONTAINER_ID_LENGTH"
  have N: "?N = 7" by (simp add: CONTAINER_ID_LENGTH_def)
  have big: "15 \<le> length (out_buf st)" using assms(1) by (simp add: CHUNK_HASH_SIZE_def)
  obtain b0 where b0: "buf_write (out_buf st) 0 n = Inr b0" "length b0 = length (out_buf st)"
    using buf_write_ok [of 0 n "out_buf st"] assms(2) big N by auto
  obtain b1 where b1: "buf_write b0 ?N ?a = Inr b1" "length b1 = length (out_buf st)"
    using buf_write_ok [of ?N ?a b0] b0 big N by auto
  obtain b2 where b2: "buf_write b1 (?N + 4) ?b = Inr b2" "length b2 = length (out_buf st)"
    using buf_write_ok [of "?N + 4" ?b b1] b1 big N by auto
  have r: "buf_read b2 0 ?N = Inr n" "buf_read b2 ?N 4 = Inr ?a" "buf_read b2 (?N + 4) 4 = Inr ?b"
    using read_before [OF b2(1), of 0 ?N] read_before [OF b1(1), of 0 ?N] read_back [OF b0(1)] assms(2)
      read_before [OF b2(1), of ?N 4] read_back [OF b1(1)] read_back [OF b2(1)] by simp_all
  have "unat (word_of_nat (fst e) :: u32) = fst e" "unat (word_of_nat (snd e) :: u32) = snd e"
    using assms(3,4) by (simp_all add: unat_of_nat)
  then have "Ocall_ColdInsert (st\<lparr>out_buf := b2\<rparr>) = Inr (st\<lparr>out_buf := b2, cold_map := push_cold n e (cold_map st),
      cold_container_set := insert_name n (cold_container_set st)\<rparr>)"
    using r by (simp add: Ocall_ColdInsert_def)
  then show thesis using that b0(1) b1(1) b2 assms(1) by (simp add: note_cold_def)
qed

lemma push_cold_colds:
  assumes "cold_map st' = push_cold n e (cold_map st)"
  shows "colds_of st' = (colds_of st)(n := colds_of st n @ [e])"
  using assms by (intro ext) (simp add: colds_of_def push_cold_def)

lemma push_cold_ok:
  assumes "colds_ok st" "cold_map st' = push_cold n e (cold_map st)" "cold_container_set st' = insert_name n (cold_container_set st)"
  shows "colds_ok st'"
  using assms insert_name_sorted insert_name_distinct unfolding colds_ok_def
  by (auto simp: push_cold_def split: if_splits option.splits)

section \<open>The hot container\<close>

lemma repo_empty:
  assumes R: "repo_ok env orig cat db colds" and n: "cat (True, n) = None" "cat (False, n) = None" "length n = CONTAINER_ID_LENGTH"
  shows "repo_ok env orig (cat((True, n) \<mapsto> [])) db colds"
proof -
  have "in_cat (cat((True, n) \<mapsto> [])) f s = in_cat cat f s" for f s using n by (auto simp: in_cat_def)
  moreover have "cat_ok (cat((True, n) \<mapsto> []))" using repo_cat [OF R] n unfolding cat_ok_def by auto
  ultimately show ?thesis using R unfolding repo_ok_def by simp
qed

lemma repo_drop_empty:
  assumes R: "repo_ok env orig (cat((True, n) \<mapsto> [])) db colds" and n: "cat (True, n) = None"
  shows "repo_ok env orig cat db colds"
proof -
  have "in_cat (cat((True, n) \<mapsto> [])) f s = in_cat cat f s" for f s using n by (auto simp: in_cat_def)
  moreover have "cat_ok cat"
  proof -
    have "(cat((True, n) \<mapsto> [])) k = Some rs" if "cat k = Some rs" for k rs using that n by auto
    then have 1: "placed (snd k) 0 rs \<and> length (content rs) \<le> MAX_CONTAINER_SIZE \<and> length (snd k) = CONTAINER_ID_LENGTH"
      if "cat k = Some rs" for k rs using that repo_cat [OF R] unfolding cat_ok_def by blast
    have "(cat((True, n) \<mapsto> [])) (False, m) = None \<or> (cat((True, n) \<mapsto> [])) (True, m) = None" for m
      using repo_cat [OF R] unfolding cat_ok_def by (elim conjE allE)
    then have "cat (False, m) = None \<or> cat (True, m) = None" for m using n by (cases "m = n") (simp_all, metis)
    with 1 show ?thesis unfolding cat_ok_def by blast
  qed
  ultimately show ?thesis using R unfolding repo_ok_def by simp
qed

lemma hot_fits_iff: "n \<le> MAX_CHUNK_SIZE \<Longrightarrow> off \<le> MAX_CONTAINER_SIZE \<Longrightarrow> hot_fits n off \<longleftrightarrow> srec_size n + off < MAX_CONTAINER_SIZE"
  by (simp add: hot_fits_def srec_size_def size_consts) linarith

lemma names_fresh:
  assumes "names_ok cat T" "CreateUUID CONTAINER_ID_LENGTH T = Inr n"
  shows "cat (f, n) = None"
proof (rule ccontr)
  assume "cat (f, n) \<noteq> None"
  then have "(f, n) \<in> dom cat" by blast
  then obtain t where t: "t < T" "CreateUUID CONTAINER_ID_LENGTH t = Inr n" using assms(1) unfolding names_ok_def by force
  have "t = T" by (rule CreateUUID_inj [OF _ t(2) assms(2)]) (simp add: CONTAINER_ID_LENGTH_def)
  with t(1) show False by simp
qed

text \<open>What a save does to the containers: only containers of deltas come in.\<close>

definition widened :: "catalog \<Rightarrow> catalog \<Rightarrow> bool" where
  "widened cat cat' \<longleftrightarrow> cat \<subseteq>\<^sub>m cat' \<and> (\<forall>n. cat' (False, n) = cat (False, n))"

lemma widened_refl [simp]: "widened cat cat"
  by (simp add: widened_def)

lemma widened_trans: "widened cat cat1 \<Longrightarrow> widened cat1 cat' \<Longrightarrow> widened cat cat'"
  unfolding widened_def by (auto intro: map_le_trans)

lemma hot_room:
  assumes m: "mid env orig cat hs st" and n: "n \<le> MAX_CHUNK_SIZE" and T: "of_times st < 36 ^ CONTAINER_ID_LENGTH"
  obtains files T' c cat' hs' where
    "(if hot_fits n (currentSize (hot_container st)) then Inr st else res_bind (Ocall_SavehotContainer st) Init_hot) =
       Inr (st\<lparr>of_files := files, of_times := T', hot_container := c\<rparr>)"
    "mid env orig cat' hs' (st\<lparr>of_files := files, of_times := T', hot_container := c\<rparr>)" "T' \<le> Suc (of_times st)"
    "srec_size n + currentSize c < MAX_CONTAINER_SIZE" "\<forall>f s. in_cat (with_hot cat hs st) f s \<longrightarrow> in_cat (cat'((True, containerID c) \<mapsto> hs')) f s"
    "widened cat cat'"
proof (cases "hot_fits n (currentSize (hot_container st))")
  case True
  have h: "hot_ok (hot_container st) hs" using m by (simp add: mid_def)
  have "srec_size n + currentSize (hot_container st) < MAX_CONTAINER_SIZE"
    using True hot_fits_iff [OF n, of "currentSize (hot_container st)"] h by (simp add: hot_ok_def)
  then show thesis using True m
    by (intro that [where files = "of_files st" and T' = "of_times st" and c = "hot_container st" and cat' = cat and hs' = hs]) simp_all
next
  case False
  let ?c = "hot_container st"
  have h: "hot_ok ?c hs" and R: "repo_ok env orig (with_hot cat hs st) (of_db st) (colds_of st)" and f: "of_files st = disk_of cat"
    and nm: "names_ok (with_hot cat hs st) (of_times st)" and cn: "cat (True, containerID ?c) = None"
    using m by (simp_all add: mid_def)
  obtain name where name: "CreateUUID CONTAINER_ID_LENGTH (of_times st) = Inr name"
    using CreateUUID_Inr [of CONTAINER_ID_LENGTH] T by (auto simp: size_consts)
  have ln: "length name = CONTAINER_ID_LENGTH" using CreateUUID_length [OF name] .
  have fresh: "with_hot cat hs st (x, name) = None" for x by (rule names_fresh [OF nm name])
  let ?files = "(of_files st)((True, containerID ?c) \<mapsto> content hs)" and ?c' = "?c\<lparr>containerID := name, currentSize := 0\<rparr>"
  let ?st = "st\<lparr>of_files := ?files, of_times := Suc (of_times st), hot_container := ?c'\<rparr>"
  have "Ocall_SavehotContainer st = Inr (st\<lparr>of_files := ?files\<rparr>)"
    using h by (auto simp: Ocall_SavehotContainer_def hot_ok_def buf_read_def bslice_def)
  then have 1: "res_bind (Ocall_SavehotContainer st) Init_hot = Inr ?st" using name by (simp add: Init_hot_def)
  have "repo_ok env orig ((with_hot cat hs st)((True, name) \<mapsto> [])) (of_db st) (colds_of st)"
    by (rule repo_empty [OF R fresh fresh ln])
  moreover have "?files = disk_of (with_hot cat hs st)" by (auto simp: f disk_of_def)
  moreover have "hot_ok ?c' []" using h ln by (simp add: hot_ok_def MAX_CONTAINER_SIZE_def)
  moreover have "names_ok ((with_hot cat hs st)((True, name) \<mapsto> [])) (Suc (of_times st))"
    using nm name unfolding names_ok_def by (auto intro: less_SucI)
  moreover have "room_ok ?st" "colds_ok ?st" "colds_of ?st = colds_of st"
    using m by (simp_all add: mid_def room_ok_def pass_buffers_def codec_ok_def colds_ok_def colds_of_def [abs_def])
  ultimately have "mid env orig (with_hot cat hs st) [] ?st"
    using fresh [of True] unfolding mid_def by simp
  moreover have "in_cat ((with_hot cat hs st)((True, name) \<mapsto> [])) g s" if "in_cat (with_hot cat hs st) g s" for g s
    using that fresh [of g] unfolding in_cat_def by (cases "containerName (s_addr s) = name") auto
  moreover have "srec_size n + 0 < MAX_CONTAINER_SIZE" using n by (simp add: srec_size_def size_consts sizeof_RecipeEntry_def)
  moreover have "widened cat (with_hot cat hs st)" using cn by (auto simp: widened_def map_le_def)
  ultimately show thesis using 1 False
    by (intro that [where files = ?files and T' = "Suc (of_times st)" and c = ?c' and cat' = "with_hot cat hs st" and hs' = "[]"]) simp_all
qed

section \<open>A delta is stored\<close>

lemma put_hot_ok:
  assumes h: "hot_ok c hs" and data: "length data \<le> MAX_CHUNK_SIZE" "length iv = CRYPTO_BLOCK_SIZE" "length k = CHUNK_HASH_SIZE" "length sf = 3 * CHUNK_HASH_SIZE"
    and r: "recipe_wf r" "unat (re_length r) = length data" and room: "srec_size (length data) + currentSize c < MAX_CONTAINER_SIZE"
    and c: "hot_container st = c"
  obtains c' s1 where "put_hot data r k sf iv st = Inr (s_addr s1, st\<lparr>hot_container := c'\<rparr>)" "containerID c' = containerID c"
    "hot_ok c' (hs @ [s1])" "s_fp s1 = k" "s_data s1 = data" "s_iv s1 = iv" "recipe_wf (s_addr s1)"
    "re_deltaFlag (s_addr s1) = DELTA" "basechunkHash (s_addr s1) = basechunkHash r"
proof -
  let ?off = "currentSize c"
  let ?r = "r\<lparr>re_offset := word_of_nat ?off, re_deltaFlag := 1, containerName := containerID c\<rparr>"
  let ?s = "\<lparr>s_addr = ?r, s_fp = k, s_sf = sf, s_data = data, s_iv = iv\<rparr>"
  have off: "?off < 2 ^ 32" using h by (simp add: hot_ok_def MAX_CONTAINER_SIZE_def)
  have wf: "recipe_wf ?r" using r(1) h by (simp add: recipe_wf_def hot_ok_def)
  have ok: "srec_ok (containerID c) ?off ?s" using wf off r(2) data by (simp add: srec_ok_def unat_of_nat)
  have l: "length (srec_bytes ?s) = srec_size (length data)" using srec_bytes_length [OF ok] by simp
  have pieces: "concat [recipe_bytes ?r, k, sf, data, iv] = srec_bytes ?s" by (simp add: srec_bytes_def)
  have t: "take (length (content hs)) (ct_body c) = content hs" using h unfolding hot_ok_def by metis
  have lb: "length (ct_body c) = MAX_CONTAINER_SIZE" using h by (simp add: hot_ok_def)
  have cp: "copy_pieces (ct_body c) ?off [recipe_bytes ?r, k, sf, data, iv] = buf_write (ct_body c) ?off (srec_bytes ?s)"
    using copy_pieces_write [of ?off "[recipe_bytes ?r, k, sf, data, iv]" "ct_body c"] room l lb unfolding pieces by simp
  obtain body where body: "buf_write (ct_body c) ?off (srec_bytes ?s) = Inr body" using room l lb by (auto simp: buf_write_def)
  let ?c = "c\<lparr>ct_body := body, currentSize := ?off + srec_size (length data)\<rparr>"
  have "put_hot data r k sf iv st = Inr (?r, st\<lparr>hot_container := ?c\<rparr>)"
    using cp body c by (simp add: put_hot_def Let_def srec_size_def add.assoc add.commute add.left_commute)
  moreover have "hot_ok ?c (hs @ [?s])"
    using h t ok l room buf_write_take [OF body] buf_write_length [OF body] unfolding hot_ok_def
    by (simp add: placed_append add.commute)
  ultimately show thesis using wf by (intro that [of ?s ?c]) (simp_all add: DELTA_def)
qed

lemma extent_small:
  assumes "cat_ok cat" "in_cat cat f s"
  shows "fst (extent s) < 2 ^ 32" "snd (extent s) < 2 ^ 32"
proof -
  obtain rs where rs: "cat (f, containerName (s_addr s)) = Some rs" "s \<in> set rs" using assms(2) by (auto simp: in_cat_def)
  show "fst (extent s) < 2 ^ 32" using unat_word_less [of "re_offset (s_addr s)"] by (simp add: extent_def)
  have "length (srec_bytes s) \<le> length (content rs)" using rs(2) by (induction rs) auto
  then show "snd (extent s) < 2 ^ 32" using cat_ok_rs(2) [OF assms(1) rs(1)] by (simp add: extent_def MAX_CONTAINER_SIZE_def)
qed

lemma live_known:
  assumes "repo_ok env orig cat db colds" "live env db s"
  shows "length (s_fp s) = CHUNK_HASH_SIZE" "recipe_wf (s_addr s)"
  using assms repo_index [OF assms(1), of "s_fp s"] unfolding live_def enc_addr_def by blast+

lemma in_cat_more: "in_cat (cat((True, n) \<mapsto> hs)) f s \<Longrightarrow> in_cat (cat((True, n) \<mapsto> hs, (True, n) \<mapsto> hs @ xs)) f s"
  by (auto simp: in_cat_def split: if_splits)

lemma store_delta_ok:
  assumes env: "env_ok env" and m: "mid env orig cat hs st" and T: "of_times st < 36 ^ CONTAINER_ID_LENGTH"
    and s0: "in_cat (with_hot cat hs st) f0 s0" "live env (of_db st) s0" and k: "k = s_fp s0" and no: "deltas env (of_db st) k = {}"
    and b: "index_base env (of_db st) b x" "b \<noteq> k"
    and d: "length delta \<le> MAX_CHUNK_SIZE" "ed3_decode delta (orig b) = Inr (orig k)"
    and r: "recipe_wf r" "containerName r = containerName (s_addr s0)" and l: "length sf = 3 * CHUNK_HASH_SIZE" "length iv = CRYPTO_BLOCK_SIZE"
  obtains st' cat' hs' v r' where "store_delta env b k r delta k sf iv (extent s0) st = Inr st'" "mid env orig cat' hs' st'"
    "same_frame st st'" "of_times st' \<le> Suc (of_times st)" "indexObj (of_db st') = (indexObj (of_db st))(k \<mapsto> v)" "enc_addr env r' v"
    "re_deltaFlag r' = DELTA" "basechunkHash r' = b" "delta_index (of_db st') = multi_push b k (delta_index (of_db st))" "widened cat cat'"
    "\<forall>f s. in_cat (with_hot cat hs st) f s \<longrightarrow> in_cat (with_hot cat' hs' st') f s"
    "offlineCurrBackup_size st' = offlineCurrBackup_size st"
proof -
  let ?cat = "with_hot cat hs st" and ?n0 = "containerName (s_addr s0)"
  have R: "repo_ok env orig ?cat (of_db st) (colds_of st)" using m by (simp add: mid_def)
  have kl: "length k = CHUNK_HASH_SIZE" using live_known [OF R s0(2)] k by simp
  have bl: "length b = CHUNK_HASH_SIZE" using b(1) repo_index [OF R, of b] unfolding index_base_def by blast
  have keys: "openssl_ok (env_ssl env)" "length (enclaveKey env) = 32" "length iv = 16" using env l(2) by (simp_all add: env_ok_def CRYPTO_BLOCK_SIZE_def)
  obtain enc where enc: "EncryptWithKeyIV (env_ssl env) cryptoObj delta (enclaveKey env) iv = Inr enc" "length enc = length delta"
    "DecryptionWithKeyIV (env_ssl env) cryptoObj enc (enclaveKey env) iv = Inr delta" by (rule EncryptWithKeyIV_ok [OF keys])
  have le: "length enc \<le> MAX_CHUNK_SIZE" using enc(2) d(1) by simp
  obtain files T' c cat1 hs1 where h: "(if hot_fits (length enc) (currentSize (hot_container st)) then Inr st else res_bind (Ocall_SavehotContainer st) Init_hot) =
       Inr (st\<lparr>of_files := files, of_times := T', hot_container := c\<rparr>)"
    "mid env orig cat1 hs1 (st\<lparr>of_files := files, of_times := T', hot_container := c\<rparr>)" "T' \<le> Suc (of_times st)"
    "srec_size (length enc) + currentSize c < MAX_CONTAINER_SIZE" "\<forall>f s. in_cat ?cat f s \<longrightarrow> in_cat (cat1((True, containerID c) \<mapsto> hs1)) f s"
    "widened cat cat1" by (rule hot_room [OF m le T])
  let ?st1 = "st\<lparr>of_files := files, of_times := T', hot_container := c\<rparr>" and ?cat1 = "cat1((True, containerID c) \<mapsto> hs1)"
  let ?r = "r\<lparr>re_length := word_of_nat (length delta), basechunkHash := b\<rparr>"
  have hc: "hot_ok c hs1" using h(2) by (simp add: mid_def)
  have rw: "recipe_wf ?r" "unat (re_length ?r) = length enc" using r(1) bl d(1) enc(2) by (simp_all add: recipe_wf_def unat_of_nat MAX_CHUNK_SIZE_def)
  have cst: "hot_container ?st1 = c" by simp
  obtain c2 s1 where p: "put_hot enc ?r k sf iv ?st1 = Inr (s_addr s1, ?st1\<lparr>hot_container := c2\<rparr>)" "containerID c2 = containerID c"
    "hot_ok c2 (hs1 @ [s1])" "s_fp s1 = k" "s_data s1 = enc" "s_iv s1 = iv" "recipe_wf (s_addr s1)"
    "re_deltaFlag (s_addr s1) = DELTA" "basechunkHash (s_addr s1) = basechunkHash ?r" by (rule put_hot_ok [OF hc le l(2) kl l(1) rw h(4) cst])
  obtain v where v: "enc_addr env (s_addr s1) v" by (rule enc_addr_total [OF env p(7)])
  let ?db = "(of_db st)\<lparr>indexObj := (indexObj (of_db st))(k \<mapsto> v)\<rparr>"
  let ?st2 = "?st1\<lparr>hot_container := c2, of_db := ?db\<rparr>"
  have room: "room_ok st" using m by (simp add: mid_def)
  then have pb: "length (process_buf ?st2) = 100000 * CHUNK_HASH_SIZE" and ob: "length (out_buf st) = 4000 * CHUNK_HASH_SIZE"
    by (simp_all add: room_ok_def)
  obtain buf where buf: "note_delta b k ?st2 = Inr (?st2\<lparr>process_buf := buf, of_db := InsertDeltaIndex b k (of_db ?st2)\<rparr>)"
    "length buf = 100000 * CHUNK_HASH_SIZE" by (rule note_delta_ok [OF pb bl kl])
  let ?st3 = "?st2\<lparr>process_buf := buf, of_db := InsertDeltaIndex b k ?db\<rparr>"
  have ob3: "length (out_buf ?st3) = 4000 * CHUNK_HASH_SIZE" using ob by simp
  have nl: "length ?n0 = CONTAINER_ID_LENGTH" using live_known(2) [OF R s0(2)] by (simp add: recipe_wf_def)
  obtain obuf where o: "note_cold ?n0 (extent s0) ?st3 = Inr (?st3\<lparr>out_buf := obuf, cold_map := push_cold ?n0 (extent s0) (cold_map ?st3),
      cold_container_set := insert_name ?n0 (cold_container_set ?st3)\<rparr>)" "length obuf = 4000 * CHUNK_HASH_SIZE"
    by (rule note_cold_ok [OF ob3 nl extent_small [OF repo_cat [OF R] s0(1)]])
  let ?st4 = "?st3\<lparr>out_buf := obuf, cold_map := push_cold ?n0 (extent s0) (cold_map st), cold_container_set := insert_name ?n0 (cold_container_set st)\<rparr>"
  have ins: "InsertHot_container enc ?r k sf iv st = Inr (s_addr s1, ?st1\<lparr>hot_container := c2\<rparr>)"
    unfolding InsertHot_container_def h(1) using p(1) by simp
  have run: "store_delta env b k r delta k sf iv (extent s0) st = Inr ?st4"
    using enc(1) le ins v UpdateIndexStore_ok [OF kl enc_addr_dec(1) [OF env v], of "?st1\<lparr>hot_container := c2\<rparr>"] buf(1) o(1) r(2)
    by (simp add: store_delta_def Let_def enc_addr_def)
  have inc1: "in_cat ?cat1 f s" if "in_cat ?cat f s" for f s using h(5) that by blast
  have R1: "repo_ok env orig ?cat1 (of_db st) (colds_of st)" using h(2) by (simp add: mid_def colds_of_def [abs_def])
  have hs1: "?cat1 (True, containerID c) = Some hs1" by simp
  have pl: "placed (containerID c) 0 (hs1 @ [s1])" "length (content (hs1 @ [s1])) \<le> MAX_CONTAINER_SIZE"
    using p(2,3) by (auto simp: hot_ok_def)
  have bb: "basechunkHash (s_addr s1) = b" using p(9) by simp
  have "repo_ok env orig (?cat1((True, containerID c) \<mapsto> hs1 @ [s1])) ?db ((colds_of st)(?n0 := colds_of st ?n0 @ [extent s0]))"
    by (rule repo_replace [OF env R1 inc1 [OF s0(1)] s0(2) no [unfolded k] hs1 pl, where v = v and d = delta])
      (use p(4-6,8) v b bb enc d k in auto)
  moreover have "colds_of ?st4 = (colds_of st)(?n0 := colds_of st ?n0 @ [extent s0])" by (rule push_cold_colds) simp
  moreover have wh: "with_hot cat1 (hs1 @ [s1]) ?st4 = ?cat1((True, containerID c) \<mapsto> hs1 @ [s1])" using p(2) by simp
  moreover have "indexObj (of_db ?st4) = indexObj ?db" by (simp add: InsertDeltaIndex_def)
  ultimately have R4: "repo_ok env orig (with_hot cat1 (hs1 @ [s1]) ?st4) (of_db ?st4) (colds_of ?st4)"
    using index_only(1) [of "of_db ?st4" ?db] by simp
  have "room_ok ?st4" using room buf(2) o(2) by (simp add: room_ok_def pass_buffers_def codec_ok_def)
  moreover have "colds_ok ?st4" by (rule push_cold_ok [of st]) (use m in \<open>simp_all add: mid_def\<close>)
  moreover have "names_ok (with_hot cat1 (hs1 @ [s1]) ?st4) T'" using h(2) p(2) by (simp add: mid_def names_ok_def)
  ultimately have mid: "mid env orig cat1 (hs1 @ [s1]) ?st4" using R4 h(2) p(2,3) by (simp add: mid_def)
  have inc: "\<forall>f s. in_cat ?cat f s \<longrightarrow> in_cat (with_hot cat1 (hs1 @ [s1]) ?st4) f s"
    using inc1 in_cat_more unfolding wh by blast
  have di: "delta_index (of_db ?st4) = multi_push b k (delta_index (of_db st))" by (simp add: InsertDeltaIndex_def)
  show thesis
    by (rule that [OF run mid _ _ _ v p(8) bb di h(6) inc]) (simp_all add: same_frame_def InsertDeltaIndex_def h(3))
qed

end
