(* ===== verification/Offline_Deltas.thy ===== *)
theory Offline_Deltas imports Offline_Store begin

text \<open>
  Records are fetched from disk, and the deltas of an old base are worked off one by one.
\<close>

section \<open>Fetching records\<close>

lemma mid_cong:
  assumes "mid env orig cat hs st" "indexObj (of_db st') = indexObj (of_db st)" "of_files st' = of_files st" "of_times st' = of_times st"
    "hot_container st' = hot_container st" "cold_map st' = cold_map st" "cold_container_set st' = cold_container_set st" "room_ok st'"
  shows "mid env orig cat hs st'"
proof -
  have "colds_of st' = colds_of st" using assms(6) by (intro ext) (simp add: colds_of_def)
  then show ?thesis using assms index_only(1) [OF assms(2)] by (simp add: mid_def colds_ok_def)
qed

lemma OneRecipe_ok:
  assumes "indexObj (of_db st) k = Some v" "oe_chunkHash st = k" "length k = CHUNK_HASH_SIZE" "length v = sizeof_RecipeEntry"
  shows "Ocall_OneRecipe st = Inr (st\<lparr>oe_chunkAddr := v\<rparr>)"
  using assms by (simp add: Ocall_OneRecipe_def QueryBuffer_def buf_read_def bslice_full)

lemma fetch_recipe_ok:
  assumes env: "env_ok env" and v: "indexObj (of_db st) k = Some v" "enc_addr env r v" and l: "length k = CHUNK_HASH_SIZE"
  obtains addr where "fetch_recipe env k st = Inr (r, st\<lparr>oe_chunkHash := k, oe_chunkAddr := addr\<rparr>)" "length addr = sizeof_RecipeEntry"
    "bslice addr 0 CONTAINER_ID_LENGTH = containerName r"
proof -
  note e = enc_addr_dec [OF env v(2)]
  have wf: "recipe_wf r" using v(2) by (simp add: enc_addr_def)
  have n: "length (containerName r) = CONTAINER_ID_LENGTH" using wf by (simp add: recipe_wf_def)
  have "0 + length (containerName r) \<le> length v" using n e(1) by (simp add: sizeof_RecipeEntry_def CONTAINER_ID_LENGTH_def)
  from buf_write_ok [OF this] obtain addr where a: "buf_write v 0 (containerName r) = Inr addr" "length addr = length v"
    "bslice addr 0 (length (containerName r)) = containerName r" by blast
  have one: "Ocall_OneRecipe (st\<lparr>oe_chunkHash := k\<rparr>) = Inr (st\<lparr>oe_chunkHash := k, oe_chunkAddr := v\<rparr>)"
    using OneRecipe_ok [of "st\<lparr>oe_chunkHash := k\<rparr>" k v] v(1) l e(1) by simp
  have "fetch_recipe env k st = Inr (r, st\<lparr>oe_chunkHash := k, oe_chunkAddr := addr\<rparr>)"
    unfolding fetch_recipe_def one using e(2) wf a(1) by simp
  then show thesis using that a e(1) n by simp
qed

lemma container_read:
  assumes f: "of_files st = disk_of cat" "cat (flag, n) = Some rs" and C: "cat_ok cat" and b: "length (ocall_container st) = MAX_CONTAINER_SIZE"
    and n: "bslice (oe_chunkAddr st) 0 CONTAINER_ID_LENGTH = n"
  obtains oc where "length oc = MAX_CONTAINER_SIZE" "take (length (content rs)) oc = content rs"
    "flag \<Longrightarrow> Ocall_OneDeltaContainer st = Inr (st\<lparr>ocall_container := oc\<rparr>)"
    "\<not> flag \<Longrightarrow> Ocall_OneContainer st = Inr (st\<lparr>ocall_container := oc, oe_offlineFlag := True\<rparr>)"
proof -
  obtain oc where oc: "buf_write (ocall_container st) 0 (content rs) = Inr oc" "length oc = MAX_CONTAINER_SIZE" "take (length (content rs)) oc = content rs"
    by (rule container_write [OF b cat_ok_rs(2) [OF C f(2)]])
  have "of_files st (flag, n) = Some (content rs)" using f by (simp add: disk_of_def)
  then show thesis using oc n by (intro that [of oc]) (simp_all add: Ocall_OneDeltaContainer_def Ocall_OneContainer_def)
qed

lemma load_chunk_ok:
  assumes C: "cat_ok cat" and s: "cat (flag, containerName (s_addr s)) = Some rs" "s \<in> set rs"
    and oc: "take (length (content rs)) oc = content rs"
    and d: "DecryptionWithKeyIV (env_ssl env) cryptoObj (s_data s) (enclaveKey env) (s_iv s) = Inr d" "length (s_data s) \<le> MAX_CHUNK_SIZE"
  shows "load_chunk env oc (s_addr s) = Inr (d, s_iv s, extent s)" "GetChunk_FP oc (s_addr s) = Inr (s_fp s)" "GetChunk_SF oc (s_addr s) = Inr (s_sf s)"
proof -
  have split: "oc = content rs @ drop (length (content rs)) oc" using oc by (metis append_take_drop_id)
  have p: "placed (containerName (s_addr s)) (length ([] :: byte list)) rs" using cat_ok_rs(1) [OF C s(1)] by simp
  have rb: "reads_back oc s" using placed_reads_back [OF p s(2), of "drop (length (content rs)) oc"] split by simp
  then show "GetChunk_FP oc (s_addr s) = Inr (s_fp s)" "GetChunk_SF oc (s_addr s) = Inr (s_sf s)" by (simp_all add: reads_back_def)
  obtain q where ok: "srec_ok (containerName (s_addr s)) q s" using placed_srec [OF p s(2)] by blast
  have len: "unat (re_length (s_addr s)) = length (s_data s)" using ok by (simp add: srec_ok_def)
  have "length (s_data s) \<le> length (replicate MAX_CHUNK_SIZE (0 :: byte))" using d(2) by simp
  then obtain out pr where g: "GetChunk_content_buffer oc (s_addr s) True (0, 0) (replicate MAX_CHUNK_SIZE 0) = Inr (out, pr)"
    "take (length (s_data s)) out = s_data s" using rb unfolding reads_back_def by blast
  have "pr = (unat (re_offset (s_addr s)), unat (re_length (s_addr s)) + 4 * CHUNK_HASH_SIZE + sizeof_RecipeEntry + CRYPTO_BLOCK_SIZE)"
    and lo: "length out = MAX_CHUNK_SIZE"
    using g(1) by (auto simp: GetChunk_content_buffer_def Let_def res_bind_eq_Inr dest: buf_write_length)
  then have pr: "pr = extent s" using srec_split [OF ok] len by (simp add: extent_def)
  have "buf_read out 0 (unat (re_length (s_addr s))) = Inr (s_data s)" using g(2) len lo d(2) by (simp add: buf_read_def bslice_def)
  moreover have "GetChunk_IV oc (s_addr s) = Inr (s_iv s)" using rb by (simp add: reads_back_def)
  ultimately show "load_chunk env oc (s_addr s) = Inr (d, s_iv s, extent s)" using g(1) d(1) pr by (simp add: load_chunk_def)
qed

text \<open>What the sizes of the chunks must satisfy: a delta may need 12 bytes more than its chunk while it is written.\<close>

definition chunk_sizes :: "(byte list \<Rightarrow> byte list) \<Rightarrow> byte list set \<Rightarrow> bool" where
  "chunk_sizes orig D \<longleftrightarrow> finite D \<and> card D < 100000 \<and>
     (\<forall>k \<in> D. orig k \<noteq> [] \<and> length (orig k) + 12 \<le> MAX_CHUNK_SIZE \<and> (\<forall>k' \<in> D. length (orig k) \<le> 2 * length (orig k')))"

lemma sizesD:
  assumes "chunk_sizes orig D" "k \<in> D" "k' \<in> D"
  shows "orig k \<noteq> []" "length (orig k) + 12 \<le> MAX_CHUNK_SIZE" "length (orig k) \<le> MAX_CHUNK_SIZE" "length (orig k) \<le> 2 * length (orig k')"
  using assms unfolding chunk_sizes_def by fastforce+

text \<open>What a step for the pair leaves alone.\<close>

definition advance :: "restore_env \<Rightarrow> byte list \<Rightarrow> byte list \<Rightarrow> catalog \<Rightarrow> offline \<Rightarrow> catalog \<Rightarrow> offline \<Rightarrow> bool" where
  "advance env old new cat st cat' st' \<longleftrightarrow>
     local_map st' = local_map st \<and> cold_container_vector st' = cold_container_vector st \<and> baseMergePair st' = baseMergePair st \<and>
     test_buf st' = test_buf st \<and> dom (indexObj (of_db st')) = dom (indexObj (of_db st)) \<and> widened cat cat' \<and>
     (\<forall>x b. x \<noteq> old \<longrightarrow> index_base env (of_db st') x b = index_base env (of_db st) x b) \<and>
     (\<forall>a. a \<noteq> old \<and> a \<noteq> new \<longrightarrow> deltas env (of_db st') a = deltas env (of_db st) a \<and> delta_index (of_db st') a = delta_index (of_db st) a) \<and>
     (\<forall>a k s. a \<noteq> old \<and> a \<noteq> new \<and> k \<in> deltas env (of_db st) a \<and> in_cat cat True s \<and> s_fp s = k \<and> live env (of_db st) s \<longrightarrow>
        in_cat cat' True s \<and> live env (of_db st') s)"

lemma advanceD:
  assumes "advance env old new cat st cat' st'"
  shows "local_map st' = local_map st" "cold_container_vector st' = cold_container_vector st" "baseMergePair st' = baseMergePair st"
    "test_buf st' = test_buf st" "dom (indexObj (of_db st')) = dom (indexObj (of_db st))"
    "x \<noteq> old \<Longrightarrow> index_base env (of_db st') x b = index_base env (of_db st) x b"
    "a \<noteq> old \<Longrightarrow> a \<noteq> new \<Longrightarrow> deltas env (of_db st') a = deltas env (of_db st) a"
    "a \<noteq> old \<Longrightarrow> a \<noteq> new \<Longrightarrow> delta_index (of_db st') a = delta_index (of_db st) a"
  using assms unfolding advance_def by simp_all

lemma advance_disk:
  assumes "advance env old new cat st cat' st'" "a \<noteq> old" "a \<noteq> new" "s_fp s \<in> deltas env (of_db st) a" "in_cat cat True s" "live env (of_db st) s"
  shows "in_cat cat' True s" "live env (of_db st') s"
  using assms unfolding advance_def by simp_all

lemma advance_map: "advance env old new cat st cat' st' \<Longrightarrow> widened cat cat'"
  unfolding advance_def by simp

lemma advanceI:
  assumes "local_map st' = local_map st" "cold_container_vector st' = cold_container_vector st" "baseMergePair st' = baseMergePair st"
    "test_buf st' = test_buf st" "dom (indexObj (of_db st')) = dom (indexObj (of_db st))"
    "\<And>x b. x \<noteq> old \<Longrightarrow> index_base env (of_db st') x b = index_base env (of_db st) x b"
    "\<And>a. a \<noteq> old \<Longrightarrow> a \<noteq> new \<Longrightarrow> deltas env (of_db st') a = deltas env (of_db st) a"
    "\<And>a. a \<noteq> old \<Longrightarrow> a \<noteq> new \<Longrightarrow> delta_index (of_db st') a = delta_index (of_db st) a"
    "\<And>a s. a \<noteq> old \<Longrightarrow> a \<noteq> new \<Longrightarrow> s_fp s \<in> deltas env (of_db st) a \<Longrightarrow> in_cat cat True s \<Longrightarrow> live env (of_db st) s \<Longrightarrow>
       in_cat cat' True s \<and> live env (of_db st') s"
    "widened cat cat'"
  shows "advance env old new cat st cat' st'"
  using assms unfolding advance_def by blast

lemma advance_trans:
  assumes a: "advance env old new cat st cat1 st1" and b: "advance env old new cat1 st1 cat' st'"
  shows "advance env old new cat st cat' st'"
proof (rule advanceI)
  fix c s assume c: "c \<noteq> old" "c \<noteq> new" "s_fp s \<in> deltas env (of_db st) c" "in_cat cat True s" "live env (of_db st) s"
  note d = advance_disk [OF a c]
  have "s_fp s \<in> deltas env (of_db st1) c" using c(3) advanceD(7) [OF a c(1,2)] by simp
  from advance_disk [OF b c(1,2) this d] show "in_cat cat' True s \<and> live env (of_db st') s" by simp
qed (simp_all add: advanceD [OF a] advanceD [OF b] widened_trans [OF advance_map [OF a] advance_map [OF b]])

lemma advance_same:
  assumes "same_frame st st'" "indexObj (of_db st') = indexObj (of_db st)" "\<And>a. a \<noteq> old \<Longrightarrow> delta_index (of_db st') a = delta_index (of_db st) a"
  shows "advance env old new cat st cat st'"
  by (rule advanceI) (use assms(1,3) index_only(2-4) [OF assms(2)] assms(2) in \<open>simp_all add: same_frame_def\<close>)

lemma delta_one_base:
  "env_ok env \<Longrightarrow> k \<in> deltas env db a \<Longrightarrow> k \<in> deltas env db b \<Longrightarrow> a = b"
  unfolding deltas_def using enc_addr_inject by fastforce

lemma delta_no_base: "env_ok env \<Longrightarrow> k \<in> deltas env db a \<Longrightarrow> \<not> index_base env db k b"
  unfolding deltas_def index_base_def using enc_addr_inject by (fastforce simp: delta_defs)

lemma multi_push_other: "a \<noteq> b \<Longrightarrow> multi_push b k m a = m a"
  by (simp add: multi_push_def)

lemma in_cat_le: "widened cat cat' \<Longrightarrow> in_cat cat f s \<Longrightarrow> in_cat cat' f s"
  unfolding in_cat_def widened_def map_le_def by (metis domI)

lemma advance_store:
  assumes env: "env_ok env" and f: "same_frame st st'" and i: "indexObj (of_db st') = (indexObj (of_db st))(k \<mapsto> v)" "enc_addr env r v"
    "re_deltaFlag r = DELTA" "basechunkHash r = new" "k \<in> dom (indexObj (of_db st))"
    and di: "delta_index (of_db st') = multi_push new k (delta_index (of_db st))" and c: "widened cat cat'"
    and k: "k = old \<and> index_base env (of_db st) old x \<or> k \<in> deltas env (of_db st) old"
  shows "advance env old new cat st cat' st'"
proof -
  have other: "k \<notin> deltas env (of_db st) a" if "a \<noteq> old" for a
    using k delta_one_base [OF env] delta_no_base [OF env] that by blast
  have b: "index_base env (of_db st') y b = index_base env (of_db st) y b" if "y \<noteq> old" for y b
    using base_replace [OF env i(1-3)] k delta_no_base [OF env] that by blast
  have d: "deltas env (of_db st') a = deltas env (of_db st) a" if "a \<noteq> old" "a \<noteq> new" for a
    using deltas_replace [OF env i(1-3)] other [OF that(1)] that(2) i(4) by simp
  have l: "live env (of_db st') s" if "a \<noteq> old" "s_fp s \<in> deltas env (of_db st) a" "live env (of_db st) s" for a s
  proof -
    have "s_fp s \<noteq> k" using other [OF that(1)] that(2) by blast
    then show ?thesis using that(3) i(1) by (simp add: live_def)
  qed
  show ?thesis
  proof (rule advanceI)
    show "dom (indexObj (of_db st')) = dom (indexObj (of_db st))" using i(1,5) by auto
    fix a s assume a: "a \<noteq> old" "a \<noteq> new" "s_fp s \<in> deltas env (of_db st) a" "in_cat cat True s" "live env (of_db st) s"
    show "in_cat cat' True s \<and> live env (of_db st') s" using in_cat_le [OF c a(4)] l [OF a(1,3,5)] by simp
  qed (use f di multi_push_other c in \<open>simp_all add: same_frame_def b d\<close>)
qed

section \<open>The deltas of a base\<close>

text \<open>The deltas that are shelved are on disk, not in the hot container.\<close>

definition shelved :: "restore_env \<Rightarrow> catalog \<Rightarrow> InMemoryDatabase \<Rightarrow> byte list \<Rightarrow> bool" where
  "shelved env cat db k \<longleftrightarrow> (\<exists>s. in_cat cat True s \<and> s_fp s = k \<and> live env db s)"

lemma repo_live:
  assumes env: "env_ok env" and R: "repo_ok env orig cat db colds" and s: "in_cat cat f s" "live env db s"
  shows "keeps env db orig f s" "length (orig (s_fp s)) \<le> MAX_CHUNK_SIZE" "s_fp s \<in> dom (indexObj db)"
proof -
  obtain v where v: "indexObj db (s_fp s) = Some v" "enc_addr env (s_addr s) v" using s(2) by (auto simp: live_def)
  obtain g t where t: "in_cat cat g t" "s_fp t = s_fp s" "enc_addr env (s_addr t) v" "keeps env db orig g t"
    "length (orig (s_fp s)) \<le> MAX_CHUNK_SIZE" by (rule repo_index [OF R v(1)])
  have "s_addr t = s_addr s" by (rule enc_addr_inject [OF env t(3) v(2)])
  then have "g = f \<and> t = s" by (rule in_cat_unique [OF repo_cat [OF R] t(1) s(1)])
  then show "keeps env db orig f s" "length (orig (s_fp s)) \<le> MAX_CHUNK_SIZE" "s_fp s \<in> dom (indexObj db)" using t v by auto
qed

lemma repo_fps:
  assumes "repo_ok env orig cat db colds" "in_cat cat f s"
  shows "\<exists>q rs. cat (f, containerName (s_addr s)) = Some rs \<and> s \<in> set rs \<and> srec_ok (containerName (s_addr s)) q s"
proof -
  obtain rs where "cat (f, containerName (s_addr s)) = Some rs" "s \<in> set rs" using assms(2) by (auto simp: in_cat_def)
  with in_cat_of(3) [OF repo_cat [OF assms(1)] this] show ?thesis by blast
qed

lemma room_ok_entry:
  assumes "room_ok st" "length addr = sizeof_RecipeEntry" "length oc = MAX_CONTAINER_SIZE"
  shows "room_ok (st\<lparr>oe_chunkHash := k, oe_chunkAddr := addr, ocall_container := oc\<rparr>)"
  using assms by (simp add: room_ok_def pass_buffers_def codec_ok_def)

lemma mid_entry:
  assumes "mid env orig cat hs st" "length addr = sizeof_RecipeEntry" "length oc = MAX_CONTAINER_SIZE"
  shows "mid env orig cat hs (st\<lparr>oe_chunkHash := k, oe_chunkAddr := addr, ocall_container := oc\<rparr>)"
  by (rule mid_cong [OF assms(1)]) (use room_ok_entry [OF _ assms(2,3)] assms(1) in \<open>simp_all add: mid_def\<close>)

lemma mid_disk:
  assumes "mid env orig cat hs st" "in_cat cat f s"
  shows "in_cat (with_hot cat hs st) f s" "\<exists>rs. cat (f, containerName (s_addr s)) = Some rs \<and> s \<in> set rs"
proof -
  obtain rs where rs: "cat (f, containerName (s_addr s)) = Some rs" "s \<in> set rs" using assms(2) by (auto simp: in_cat_def)
  then have "(f, containerName (s_addr s)) \<noteq> (True, containerID (hot_container st))" using assms(1) by (auto simp: mid_def)
  then have "with_hot cat hs st (f, containerName (s_addr s)) = Some rs" using rs(1) by (simp only: fun_upd_apply if_False)
  then show "in_cat (with_hot cat hs st) f s" using rs(2) unfolding in_cat_def by blast
  show "\<exists>rs. cat (f, containerName (s_addr s)) = Some rs \<and> s \<in> set rs" using rs by blast
qed

lemma mid_cat: "mid env orig cat hs st \<Longrightarrow> cat_ok cat"
proof -
  assume m: "mid env orig cat hs st"
  let ?id = "containerID (hot_container st)"
  have C: "cat_ok (with_hot cat hs st)" and n: "cat (True, ?id) = None" using m repo_cat by (auto simp: mid_def)
  have w: "with_hot cat hs st k = Some rs" if "cat k = Some rs" for k rs using that n by auto
  have 1: "placed (snd k) 0 rs \<and> length (content rs) \<le> MAX_CONTAINER_SIZE \<and> length (snd k) = CONTAINER_ID_LENGTH" if "cat k = Some rs" for k rs
    using w [OF that] cat_ok_rs [OF C] by (cases k) auto
  have 2: "cat (False, x) = None \<or> cat (True, x) = None" for x
  proof (rule ccontr)
    assume "\<not> (cat (False, x) = None \<or> cat (True, x) = None)"
    then obtain a b where ab: "cat (False, x) = Some a" "cat (True, x) = Some b" by auto
    show False using cat_ok_rs(4) [OF C w [OF ab(1)]] w [OF ab(2)] by simp
  qed
  show "cat_ok cat" unfolding cat_ok_def using 1 2 by blast
qed

lemma rebase_delta_ok:
  assumes env: "env_ok env" and m: "mid env orig cat hs st" and T: "of_times st < 36 ^ CONTAINER_ID_LENGTH"
    and k: "k \<in> deltas env (of_db st) old" "shelved env cat (of_db st) k"
    and new: "index_base env (of_db st) new x" and ne: "old \<noteq> new" and old: "old \<in> dom (indexObj (of_db st))"
    and sz: "chunk_sizes orig (dom (indexObj (of_db st)))" and no: "deltas env (of_db st) k = {}"
  obtains flag' st' cat' hs' where "rebase_delta env (orig old) (orig new) new k (flag, st) = Inr (flag', st')"
    "mid env orig cat' hs' st'" "advance env old new cat st cat' st'" "of_times st' \<le> Suc (of_times st)" "delta_map st' = delta_map st"
    "flag' \<longrightarrow> flag \<and> deltas env (of_db st') old = deltas env (of_db st) old - {k}"
    "\<forall>k'. k' \<noteq> k \<longrightarrow> (k' \<in> deltas env (of_db st') old \<longleftrightarrow> k' \<in> deltas env (of_db st) old) \<and>
       (shelved env cat (of_db st) k' \<longrightarrow> shelved env cat' (of_db st') k')"
    "index_base env (of_db st') new = index_base env (of_db st) new" "index_base env (of_db st') old = index_base env (of_db st) old"
    "delta_index (of_db st') old = delta_index (of_db st) old"
proof -
  note ix = index_only
  have R: "repo_ok env orig (with_hot cat hs st) (of_db st) (colds_of st)" and room: "room_ok st" and files: "of_files st = disk_of cat"
    using m by (simp_all add: mid_def)
  obtain s where s: "in_cat cat True s" "s_fp s = k" "live env (of_db st) s" using k(2) by (auto simp: shelved_def)
  note sh = mid_disk(1) [OF m s(1)]
  obtain rs where rs: "cat (True, containerName (s_addr s)) = Some rs" "s \<in> set rs" using mid_disk(2) [OF m s(1)] by blast
  obtain v where v: "indexObj (of_db st) k = Some v" "enc_addr env (s_addr s) v" using s(2,3) by (auto simp: live_def)
  have kD: "k \<in> dom (indexObj (of_db st))" and nD: "new \<in> dom (indexObj (of_db st))" using v new by (auto simp: index_base_def)
  have kl: "length k = CHUNK_HASH_SIZE" using live_known(1) [OF R s(3)] s(2) by simp
  have base: "basechunkHash (s_addr s) = old" "re_deltaFlag (s_addr s) = DELTA"
    using k(1) v enc_addr_inject [OF env] by (auto simp: deltas_def)
  obtain d where d: "DecryptionWithKeyIV (env_ssl env) cryptoObj (s_data s) (enclaveKey env) (s_iv s) = Inr d" "length d = length (s_data s)"
    "length d \<le> MAX_CHUNK_SIZE" "ed3_decode d (orig old) = Inr (orig k)"
    using repo_live(1) [OF env R sh s(3)] base(1) s(2) by (auto simp: keeps_def)
  obtain addr where a: "fetch_recipe env k st = Inr (s_addr s, st\<lparr>oe_chunkHash := k, oe_chunkAddr := addr\<rparr>)" "length addr = sizeof_RecipeEntry"
    "bslice addr 0 CONTAINER_ID_LENGTH = containerName (s_addr s)" by (rule fetch_recipe_ok [OF env v kl])
  let ?st1 = "st\<lparr>oe_chunkHash := k, oe_chunkAddr := addr\<rparr>"
  have lo: "length (ocall_container ?st1) = MAX_CONTAINER_SIZE" and f1: "of_files ?st1 = disk_of cat"
    and bs1: "bslice (oe_chunkAddr ?st1) 0 CONTAINER_ID_LENGTH = containerName (s_addr s)"
    using room files a(3) by (simp_all add: room_ok_def pass_buffers_def)
  obtain oc where oc: "length oc = MAX_CONTAINER_SIZE" "take (length (content rs)) oc = content rs"
    "True \<Longrightarrow> Ocall_OneDeltaContainer ?st1 = Inr (?st1\<lparr>ocall_container := oc\<rparr>)"
    by (rule container_read [OF f1 rs(1) mid_cat [OF m] lo bs1]) blast
  let ?st2 = "st\<lparr>oe_chunkHash := k, oe_chunkAddr := addr, ocall_container := oc\<rparr>"
  have ls: "length (s_data s) \<le> MAX_CHUNK_SIZE" using d(2,3) by simp
  note ld = load_chunk_ok [OF mid_cat [OF m] rs oc(2) d(1) ls]
  have m2: "mid env orig cat hs ?st2" by (rule mid_entry [OF m a(2) oc(1)])
  have w: "codec_ok ?st2" using m2 by (simp add: mid_def room_ok_def)
  note size = sizesD [OF sz kD nD] sizesD(3) [OF sz nD nD]
  obtain tf d' st3 where g: "GetNew_deltachunk d (orig old) (orig new) ?st2 = Inr (tf, d', st3)" "codec_ok st3" "codec_step ?st2 st3"
    "tf \<Longrightarrow> ed3_decode d' (orig new) = Inr (orig k) \<and> length d' \<le> length (orig k)"
    by (rule GetNew_deltachunk_ok [OF w d(4) size(2,5,4,1)]) blast
  have m3: "mid env orig cat hs st3" by (rule mid_codec [OF m2 g(3,2)])
  have same3: "of_db st3 = of_db st" "of_times st3 = of_times st" "with_hot cat hs st3 = with_hot cat hs st" "same_frame st st3"
    using g(3) by (auto simp: codec_step_def same_frame_def)
  have run: "rebase_delta env (orig old) (orig new) new k (flag, st) =
      (if tf then res_bind (store_delta env new k (s_addr s) d' (s_fp s) (s_sf s) (s_iv s) (extent s) st3) (\<lambda>st. Inr (flag, st))
       else Inr (False, st3))"
    using a(1) oc(3) ld g(1) by (simp add: rebase_delta_def Let_def)
  show thesis
  proof (cases tf)
    case False
    have ad: "advance env old new cat st cat st3" by (rule advance_same [OF same3(4)]) (simp_all add: same3(1))
    show thesis
      by (rule that [of False st3 cat hs]) (use run False m3 ad same3 in \<open>simp_all add: same_frame_def\<close>)
  next
    case True
    have ld': "length d' \<le> MAX_CHUNK_SIZE" "ed3_decode d' (orig new) = Inr (orig k)" using g(4) True size(3) by auto
    obtain q where q: "srec_ok (containerName (s_addr s)) q s" using in_cat_of(3) [OF mid_cat [OF m] rs] by blast
    have lens: "recipe_wf (s_addr s)" "length (s_sf s) = 3 * CHUNK_HASH_SIZE" "length (s_iv s) = CRYPTO_BLOCK_SIZE" using q by (simp_all add: srec_ok_def)
    have nk: "new \<noteq> k" using new delta_no_base [OF env k(1)] by blast
    have T3: "of_times st3 < 36 ^ CONTAINER_ID_LENGTH" using T same3(2) by simp
    have sh3: "in_cat (with_hot cat hs st3) True s" "live env (of_db st3) s" "k = s_fp s" "deltas env (of_db st3) k = {}" "index_base env (of_db st3) new x"
      using sh s same3 no new by simp_all
    obtain st' cat' hs' w r' where st': "store_delta env new k (s_addr s) d' k (s_sf s) (s_iv s) (extent s) st3 = Inr st'" "mid env orig cat' hs' st'"
      "same_frame st3 st'" "of_times st' \<le> Suc (of_times st3)" "indexObj (of_db st') = (indexObj (of_db st3))(k \<mapsto> w)" "enc_addr env r' w"
      "re_deltaFlag r' = DELTA" "basechunkHash r' = new" "delta_index (of_db st') = multi_push new k (delta_index (of_db st3))" "widened cat cat'"
      by (rule store_delta_ok [OF env m3 T3 sh3(1,2,3,4,5) nk ld' lens(1) refl lens(2,3)])
    have io: "indexObj (of_db st') = (indexObj (of_db st))(k \<mapsto> w)" "delta_index (of_db st') = multi_push new k (delta_index (of_db st))"
      using st'(5,9) same3(1) by simp_all
    have ad: "advance env old new cat st cat' st'"
      by (rule advance_store [OF env same_frame_trans [OF same3(4) st'(3)] io(1) st'(6,7,8) kD io(2) st'(10)]) (use k(1) in simp)
    have dl: "deltas env (of_db st') old = deltas env (of_db st) old - {k}"
      using deltas_replace [OF env io(1) st'(6,7), of old] st'(8) ne by simp
    have wt: "shelved env cat' (of_db st') k'" if c: "k' \<noteq> k" "shelved env cat (of_db st) k'" for k'
    proof -
      obtain t where t: "in_cat cat True t" "s_fp t = k'" "live env (of_db st) t" using c(2) by (auto simp: shelved_def)
      have "live env (of_db st') t" using t(2,3) c(1) io(1) by (simp add: live_def)
      then show ?thesis using t(2) in_cat_le [OF st'(10) t(1)] by (auto simp: shelved_def)
    qed
    have ib: "index_base env (of_db st') y = index_base env (of_db st) y" for y
      using base_replace [OF env io(1) st'(6,7)] delta_no_base [OF env k(1)] by (intro ext) auto
    have dm: "delta_map st' = delta_map st" using same_frame_trans [OF same3(4) st'(3)] by (simp add: same_frame_def)
    show thesis
      by (rule that [of flag st' cat' hs'])
        (use run True st'(1,2,4) s(2) ad dm dl wt ib same3(2) io(2) ne in \<open>simp_all add: multi_push_other\<close>)
  qed
qed

lemma delta_leaf:
  assumes env: "env_ok env" and R: "repo_ok env orig cat db colds" and k: "k \<in> deltas env db a"
  shows "deltas env db k = {}"
proof (rule ccontr)
  assume "deltas env db k \<noteq> {}"
  then obtain j v r where j: "indexObj db j = Some v" "enc_addr env r v" "re_deltaFlag r = DELTA" "basechunkHash r = k"
    by (auto simp: deltas_def)
  obtain f s where s: "in_cat cat f s" "s_fp s = j" "enc_addr env (s_addr s) v" "keeps env db orig f s" by (rule repo_index [OF R j(1)])
  have "s_addr s = r" by (rule enc_addr_inject [OF env s(3) j(2)])
  then have "\<exists>b. index_base env db k b" using s(4) j(3,4) by (cases f) (auto simp: keeps_def delta_defs)
  then show False using delta_no_base [OF env k] by blast
qed

lemma mid_repo: "mid env orig cat hs st \<Longrightarrow> repo_ok env orig (with_hot cat hs st) (of_db st) (colds_of st)"
  by (simp add: mid_def)

lemma deltas_dom: "deltas env db a \<subseteq> dom (indexObj db)"
  unfolding deltas_def by auto

lemma base_dom: "index_base env db a b \<Longrightarrow> a \<in> dom (indexObj db)"
  unfolding index_base_def by blast

lemma rebase_deltas_loop:
  assumes env: "env_ok env" and ne: "old \<noteq> new"
  shows "mid env orig cat hs st \<Longrightarrow> of_times st + length ks \<le> 36 ^ CONTAINER_ID_LENGTH \<Longrightarrow> distinct ks \<Longrightarrow>
    set ks \<subseteq> deltas env (of_db st) old \<Longrightarrow> (flag \<longrightarrow> deltas env (of_db st) old = set ks) \<Longrightarrow> \<forall>k \<in> set ks. shelved env cat (of_db st) k \<Longrightarrow>
    index_base env (of_db st) new x \<Longrightarrow> index_base env (of_db st) old y \<Longrightarrow> chunk_sizes orig (dom (indexObj (of_db st))) \<Longrightarrow>
    \<exists>flag' st' cat' hs'. for_each (rebase_delta env (orig old) (orig new) new) ks (flag, st) = Inr (flag', st') \<and>
      mid env orig cat' hs' st' \<and> advance env old new cat st cat' st' \<and> of_times st' \<le> of_times st + length ks \<and> delta_map st' = delta_map st \<and>
      (flag' \<longrightarrow> deltas env (of_db st') old = {}) \<and> index_base env (of_db st') old = index_base env (of_db st) old \<and>
      index_base env (of_db st') new = index_base env (of_db st) new \<and> delta_index (of_db st') old = delta_index (of_db st) old"
proof (induction ks arbitrary: flag st cat hs)
  case Nil
  have "advance env old new cat st cat st" by (rule advance_same) simp_all
  with Nil show ?case by fastforce
next
  case (Cons k ks)
  note p = Cons.prems
  have T: "of_times st < 36 ^ CONTAINER_ID_LENGTH" using p(2) by simp
  have k: "k \<in> deltas env (of_db st) old" "shelved env cat (of_db st) k" using p(4,6) by simp_all
  obtain flag1 st1 cat1 hs1 where 1: "rebase_delta env (orig old) (orig new) new k (flag, st) = Inr (flag1, st1)"
    "mid env orig cat1 hs1 st1" "advance env old new cat st cat1 st1" "of_times st1 \<le> Suc (of_times st)" "delta_map st1 = delta_map st"
    "flag1 \<longrightarrow> flag \<and> deltas env (of_db st1) old = deltas env (of_db st) old - {k}"
    "\<forall>k'. k' \<noteq> k \<longrightarrow> (k' \<in> deltas env (of_db st1) old \<longleftrightarrow> k' \<in> deltas env (of_db st) old) \<and>
       (shelved env cat (of_db st) k' \<longrightarrow> shelved env cat1 (of_db st1) k')"
    "index_base env (of_db st1) new = index_base env (of_db st) new" "index_base env (of_db st1) old = index_base env (of_db st) old"
    "delta_index (of_db st1) old = delta_index (of_db st) old"
    by (rule rebase_delta_ok [OF env p(1) T k p(7) ne base_dom [OF p(8)] p(9) delta_leaf [OF env mid_repo [OF p(1)] k(1)]])
  have t1: "of_times st1 + length ks \<le> 36 ^ CONTAINER_ID_LENGTH" using p(2) 1(4) by simp
  have d1: "distinct ks" "k \<notin> set ks" using p(3) by simp_all
  have s1: "set ks \<subseteq> deltas env (of_db st1) old"
  proof
    fix k' assume k': "k' \<in> set ks"
    then have "k' \<noteq> k" "k' \<in> deltas env (of_db st) old" using d1(2) p(4) by auto
    then show "k' \<in> deltas env (of_db st1) old" using 1(7) by simp
  qed
  have f1: "flag1 \<longrightarrow> deltas env (of_db st1) old = set ks" using 1(6) p(5) d1(2) by auto
  have w1: "\<forall>k \<in> set ks. shelved env cat1 (of_db st1) k"
  proof
    fix k' assume k': "k' \<in> set ks"
    then have "k' \<noteq> k" "shelved env cat (of_db st) k'" using d1(2) p(6) by auto
    then show "shelved env cat1 (of_db st1) k'" using 1(7) by simp
  qed
  have b1: "index_base env (of_db st1) new x" "index_base env (of_db st1) old y" using 1(8,9) p(7,8) by simp_all
  have z1: "chunk_sizes orig (dom (indexObj (of_db st1)))" using p(9) advanceD(5) [OF 1(3)] by simp
  from Cons.IH [OF 1(2) t1 d1(1) s1 f1 w1 b1 z1] obtain flag' st' cat' hs' where
    2: "for_each (rebase_delta env (orig old) (orig new) new) ks (flag1, st1) = Inr (flag', st')"
      "mid env orig cat' hs' st'" "advance env old new cat1 st1 cat' st'" "of_times st' \<le> of_times st1 + length ks" "delta_map st' = delta_map st1"
      "flag' \<longrightarrow> deltas env (of_db st') old = {}" "index_base env (of_db st') old = index_base env (of_db st1) old"
      "index_base env (of_db st') new = index_base env (of_db st1) new" "delta_index (of_db st') old = delta_index (of_db st1) old" by blast
  have "for_each (rebase_delta env (orig old) (orig new) new) (k # ks) (flag, st) = Inr (flag', st')" using 1(1) 2(1) by simp
  moreover have "of_times st' \<le> of_times st + length (k # ks)" using 1(4) 2(4) by simp
  ultimately show ?case using 2 advance_trans [OF 1(3) 2(3)] 1(5,8,9,10)
    by (intro exI [of _ flag'] exI [of _ st'] exI [of _ cat'] exI [of _ hs']) simp
qed

section \<open>The answers of the delta index\<close>

lemma put_hashes_ok:
  "length buf = n \<Longrightarrow> (i + length hs) * CHUNK_HASH_SIZE \<le> n \<Longrightarrow> \<forall>h \<in> set hs. length h = CHUNK_HASH_SIZE \<Longrightarrow>
   \<exists>buf'. put_hashes hs i buf = Inr buf' \<and> length buf' = n \<and> take (i * CHUNK_HASH_SIZE) buf' = take (i * CHUNK_HASH_SIZE) buf \<and>
     map (\<lambda>j. bslice buf' ((i + j) * CHUNK_HASH_SIZE) CHUNK_HASH_SIZE) [0..<length hs] = hs"
proof (induction hs arbitrary: i buf)
  case (Cons h hs)
  have "i * CHUNK_HASH_SIZE + length h \<le> length buf" using Cons.prems by (simp add: algebra_simps)
  then obtain b1 where b1: "buf_write buf (i * CHUNK_HASH_SIZE) h = Inr b1" "length b1 = length buf" "bslice b1 (i * CHUNK_HASH_SIZE) (length h) = h"
    "take (i * CHUNK_HASH_SIZE) b1 = take (i * CHUNK_HASH_SIZE) buf" using buf_write_ok by blast
  have "length b1 = n" "(Suc i + length hs) * CHUNK_HASH_SIZE \<le> n" "\<forall>h \<in> set hs. length h = CHUNK_HASH_SIZE"
    using Cons.prems b1(2) by (simp_all add: algebra_simps)
  from Cons.IH [OF this] obtain b2 where b2: "put_hashes hs (Suc i) b1 = Inr b2" "length b2 = n"
    "take (Suc i * CHUNK_HASH_SIZE) b2 = take (Suc i * CHUNK_HASH_SIZE) b1"
    "map (\<lambda>j. bslice b2 ((Suc i + j) * CHUNK_HASH_SIZE) CHUNK_HASH_SIZE) [0..<length hs] = hs" by blast
  have lh: "length h = CHUNK_HASH_SIZE" using Cons.prems(3) by simp
  have "take (i * CHUNK_HASH_SIZE) b2 = take (i * CHUNK_HASH_SIZE) (take (Suc i * CHUNK_HASH_SIZE) b2)" by (simp add: min_def)
  also have "\<dots> = take (i * CHUNK_HASH_SIZE) b1" unfolding b2(3) by (simp add: min_def)
  finally have t: "take (i * CHUNK_HASH_SIZE) b2 = take (i * CHUNK_HASH_SIZE) buf" using b1(4) by simp
  have "bslice b2 (i * CHUNK_HASH_SIZE) CHUNK_HASH_SIZE = drop (i * CHUNK_HASH_SIZE) (take (Suc i * CHUNK_HASH_SIZE) b2)"
    by (simp add: bslice_def drop_take)
  also have "\<dots> = h" unfolding b2(3) using b1(3) lh by (simp add: bslice_def drop_take)
  finally have hd: "bslice b2 (i * CHUNK_HASH_SIZE) CHUNK_HASH_SIZE = h" .
  have "map (\<lambda>j. bslice b2 ((i + j) * CHUNK_HASH_SIZE) CHUNK_HASH_SIZE) [0..<length (h # hs)] =
      bslice b2 (i * CHUNK_HASH_SIZE) CHUNK_HASH_SIZE # map (\<lambda>j. bslice b2 ((Suc i + j) * CHUNK_HASH_SIZE) CHUNK_HASH_SIZE) [0..<length hs]"
    by (simp add: upt_conv_Cons map_Suc_upt [symmetric] del: upt_Suc)
  also have "\<dots> = h # hs" using hd b2(4) by simp
  finally show ?case using b1(1) b2(1,2) t by simp
qed simp

lemma fold_multi_push:
  "fold (\<lambda>i. multi_push b (f i)) is m = (if is = [] then m else m(b \<mapsto> (case m b of None \<Rightarrow> [] | Some vs \<Rightarrow> vs) @ map f is))"
  by (induction "is" arbitrary: m) (auto simp: multi_push_def)

lemma room_ok_process:
  "room_ok st \<Longrightarrow> length buf = 100000 * CHUNK_HASH_SIZE \<Longrightarrow> room_ok (st\<lparr>process_buf := buf, of_db := db, delta_map := dm\<rparr>)"
  by (simp add: room_ok_def pass_buffers_def codec_ok_def)

lemma query_deltas_ok:
  assumes w: "length (process_buf st) = 100000 * CHUNK_HASH_SIZE" "length old = CHUNK_HASH_SIZE"
    and hs: "(case delta_index (of_db st) old of None \<Rightarrow> [] | Some ks \<Rightarrow> ks) = ks" "length ks < 100000" "\<forall>h \<in> set ks. length h = CHUNK_HASH_SIZE"
  obtains b0 b1 b2 where "clear_process (process_buf st) = Inr b0" "buf_write b0 0 old = Inr b1"
    "Ocall_QueryDeltaIndex (st\<lparr>process_buf := b1\<rparr>) =
       Inr (length ks, st\<lparr>process_buf := b2, of_db := (of_db st)\<lparr>delta_index := (delta_index (of_db st))(old := None)\<rparr>\<rparr>)"
    "length b2 = 100000 * CHUNK_HASH_SIZE" "map (\<lambda>i. bslice b2 (Suc i * CHUNK_HASH_SIZE) CHUNK_HASH_SIZE) [0..<length ks] = ks"
proof -
  obtain b0 where b0: "clear_process (process_buf st) = Inr b0" "length b0 = 100000 * CHUNK_HASH_SIZE"
    by (rule clear_process_ok [OF w(1)])
  have "0 + length old \<le> length b0" using b0 w(2) by simp
  then obtain b1 where b1: "buf_write b0 0 old = Inr b1" "length b1 = length b0" using buf_write_ok by blast
  have r: "buf_read b1 0 CHUNK_HASH_SIZE = Inr old" using read_back [OF b1(1)] w(2) by simp
  show thesis
  proof (cases "delta_index (of_db st) old")
    case None
    then have un: "(delta_index (of_db st))(old := None) = delta_index (of_db st)" by auto
    have ks: "ks = []" using None hs(1) by simp
    have c: "Ocall_QueryDeltaIndex (st\<lparr>process_buf := b1\<rparr>) =
        Inr (length ks, st\<lparr>process_buf := b1, of_db := (of_db st)\<lparr>delta_index := (delta_index (of_db st))(old := None)\<rparr>\<rparr>)"
      using r None un ks by (simp add: Ocall_QueryDeltaIndex_def QueryDeltaIndex_def)
    show thesis by (rule that [OF b0(1) b1(1) c]) (simp_all add: b0 b1 ks)
  next
    case (Some l)
    then have l: "l = ks" using hs(1) by simp
    have "length b1 = 100000 * CHUNK_HASH_SIZE" "(1 + length ks) * CHUNK_HASH_SIZE \<le> 100000 * CHUNK_HASH_SIZE" using b0 b1 hs(2) by simp_all
    from put_hashes_ok [OF this hs(3)] obtain b2 where b2: "put_hashes ks 1 b1 = Inr b2" "length b2 = 100000 * CHUNK_HASH_SIZE"
      "map (\<lambda>j. bslice b2 ((1 + j) * CHUNK_HASH_SIZE) CHUNK_HASH_SIZE) [0..<length ks] = ks" by blast
    have c: "Ocall_QueryDeltaIndex (st\<lparr>process_buf := b1\<rparr>) =
        Inr (length ks, st\<lparr>process_buf := b2, of_db := (of_db st)\<lparr>delta_index := (delta_index (of_db st))(old := None)\<rparr>\<rparr>)"
      using r Some l b2(1) by (simp add: Ocall_QueryDeltaIndex_def QueryDeltaIndex_def)
    show thesis by (rule that [OF b0(1) b1(1) c b2(2)]) (use b2(3) in simp)
  qed
qed

lemma collect_deltas_ok:
  assumes w: "length (process_buf st) = 100000 * CHUNK_HASH_SIZE" "length old = CHUNK_HASH_SIZE"
    and hs: "(case delta_index (of_db st) old of None \<Rightarrow> [] | Some ks \<Rightarrow> ks) = ks" "length ks < 100000" "\<forall>h \<in> set ks. length h = CHUNK_HASH_SIZE"
    and dm: "delta_map st old = None"
  obtains buf dm where "collect_deltas old st = Inr (st\<lparr>process_buf := buf, of_db := (of_db st)\<lparr>delta_index := (delta_index (of_db st))(old := None)\<rparr>,
      delta_map := dm\<rparr>)" "length buf = 100000 * CHUNK_HASH_SIZE" "dm = (if ks = [] then delta_map st else (delta_map st)(old \<mapsto> ks))"
proof -
  obtain b0 b1 b2 where q: "clear_process (process_buf st) = Inr b0" "buf_write b0 0 old = Inr b1"
    "Ocall_QueryDeltaIndex (st\<lparr>process_buf := b1\<rparr>) =
       Inr (length ks, st\<lparr>process_buf := b2, of_db := (of_db st)\<lparr>delta_index := (delta_index (of_db st))(old := None)\<rparr>\<rparr>)"
    "length b2 = 100000 * CHUNK_HASH_SIZE" "map (\<lambda>i. bslice b2 (Suc i * CHUNK_HASH_SIZE) CHUNK_HASH_SIZE) [0..<length ks] = ks"
    by (rule query_deltas_ok [OF w hs])
  have "fold (\<lambda>i. multi_push old (bslice b2 (Suc i * CHUNK_HASH_SIZE) CHUNK_HASH_SIZE)) [0..<length ks] (delta_map st) =
      (if ks = [] then delta_map st else (delta_map st)(old \<mapsto> ks))"
    unfolding fold_multi_push q(5) using dm by simp
  then have "collect_deltas old st = Inr (st\<lparr>process_buf := b2, of_db := (of_db st)\<lparr>delta_index := (delta_index (of_db st))(old := None)\<rparr>,
      delta_map := (if ks = [] then delta_map st else (delta_map st)(old \<mapsto> ks))\<rparr>)"
    using q(1-3) by (simp add: collect_deltas_def)
  then show thesis by (rule that) (simp_all add: q(4))
qed

end
