(* ===== verification/Offline_Pairs.thy ===== *)
theory Offline_Pairs imports Offline_Deltas begin

text \<open>
  A pair of an old and a new base, the pairs of a batch, and all batches.
\<close>

section \<open>Steps that leave the repository alone\<close>

definition quiet :: "byte list \<Rightarrow> offline \<Rightarrow> offline \<Rightarrow> bool" where
  "quiet old st st' \<longleftrightarrow> local_map st' = local_map st \<and> cold_container_vector st' = cold_container_vector st \<and>
     baseMergePair st' = baseMergePair st \<and> test_buf st' = test_buf st \<and>
     indexObj (of_db st') = indexObj (of_db st) \<and> of_files st' = of_files st \<and> of_times st' = of_times st \<and>
     hot_container st' = hot_container st \<and> cold_map st' = cold_map st \<and> cold_container_set st' = cold_container_set st \<and>
     (room_ok st \<longrightarrow> room_ok st') \<and> (\<forall>a. a \<noteq> old \<longrightarrow> delta_index (of_db st') a = delta_index (of_db st) a)"

lemma quiet_refl [simp]: "quiet old st st"
  by (simp add: quiet_def)

lemma quiet_trans: "quiet old st st1 \<Longrightarrow> quiet old st1 st2 \<Longrightarrow> quiet old st st2"
  by (simp add: quiet_def)

lemma quiet_mid: "quiet old st st' \<Longrightarrow> mid env orig cat hs st \<Longrightarrow> mid env orig cat hs st'"
  by (rule mid_cong) (simp_all add: quiet_def mid_def)

lemma quiet_index:
  assumes "quiet old st st'"
  shows "deltas env (of_db st') = deltas env (of_db st)" "index_base env (of_db st') = index_base env (of_db st)"
    "live env (of_db st') = live env (of_db st)" "indexObj (of_db st') = indexObj (of_db st)" "of_times st' = of_times st"
proof -
  show i: "indexObj (of_db st') = indexObj (of_db st)" and "of_times st' = of_times st" using assms by (simp_all add: quiet_def)
  show "deltas env (of_db st') = deltas env (of_db st)" "index_base env (of_db st') = index_base env (of_db st)"
    "live env (of_db st') = live env (of_db st)" using index_only(2-4) [OF i] by simp_all
qed

lemma quiet_advance:
  assumes "quiet old st st'"
  shows "advance env old new cat st cat st'"
  by (rule advanceI) (use assms in \<open>simp_all add: quiet_index [OF assms] quiet_def\<close>)

lemma quiet_codec:
  assumes "codec_step st st'" "codec_ok st'"
  shows "quiet old st st'"
proof -
  have room: "room_ok st \<longrightarrow> room_ok st'" using pass_buffers_codec [OF assms] by (rule impI)
  obtain p t l h z where s: "st' = st\<lparr>plainNewDeltaChunk := p, tmpUnique := t, BaseLinkOffline := l, psHTable2Offline := h,
     offlineCurrBackup_size := z\<rparr>" using assms(1) unfolding codec_step_def by (elim exE)
  show ?thesis unfolding quiet_def by (intro conjI room allI impI) (simp_all add: s)
qed

lemma updateIndex_ok:
  assumes "length (oe_superfeature st) = 3 * CHUNK_HASH_SIZE" "length (oe_chunkHash st) = CHUNK_HASH_SIZE"
  obtains ms where "Ocall_OFFline_updateIndex n st = Inr (st\<lparr>of_db := (of_db st)\<lparr>sfObj := ms\<rparr>\<rparr>)"
  using assms InsertSF_features [of "oe_superfeature st" "oe_chunkHash st" "if n = 0 then 2 else 1" "of_db st"]
  by (simp add: Ocall_OFFline_updateIndex_def QueryBuffer_def buf_read_def update_ok_def)

lemma updateIndex_quiet:
  assumes "length (oe_superfeature st) = 3 * CHUNK_HASH_SIZE" "length (oe_chunkHash st) = CHUNK_HASH_SIZE"
  obtains st' where "Ocall_OFFline_updateIndex n st = Inr st'" "quiet old st st'" "delta_map st' = delta_map st" "ocall_container st' = ocall_container st"
    "delta_index (of_db st') = delta_index (of_db st)"
proof -
  obtain ms where ms: "Ocall_OFFline_updateIndex n st = Inr (st\<lparr>of_db := (of_db st)\<lparr>sfObj := ms\<rparr>\<rparr>)" by (rule updateIndex_ok [OF assms])
  show thesis by (rule that [OF ms]) (simp_all add: quiet_def room_ok_def pass_buffers_def codec_ok_def)
qed

lemma index_base_known:
  assumes env: "env_ok env" and "repo_ok env orig cat db colds" "index_base env db k r"
  obtains v where "indexObj db k = Some v" "enc_addr env r v" "length k = CHUNK_HASH_SIZE" "length v = sizeof_RecipeEntry"
    "recipe_wf r" "length (orig k) \<le> MAX_CHUNK_SIZE"
proof -
  obtain v where v: "indexObj db k = Some v" "enc_addr env r v" using assms(3) by (auto simp: index_base_def)
  have "recipe_wf r" using v(2) by (simp add: enc_addr_def)
  moreover have "length k = CHUNK_HASH_SIZE" "length (orig k) \<le> MAX_CHUNK_SIZE" using repo_index [OF assms(2) v(1)] by blast+
  ultimately show thesis by (intro that [OF v]) (simp_all add: enc_addr_dec(1) [OF env v(2)])
qed

lemma move_features_ok:
  assumes env: "env_ok env" and m: "mid env orig cat hs st" and b: "index_base env (of_db st) k r"
  obtains st' where "move_features env k n st = Inr st'" "quiet old st st'" "delta_map st' = delta_map st"
    "delta_index (of_db st') = delta_index (of_db st)"
proof -
  obtain v where v: "indexObj (of_db st) k = Some v" "enc_addr env r v" "length k = CHUNK_HASH_SIZE" "recipe_wf r"
    by (rule index_base_known [OF env mid_repo [OF m] b])
  note e = enc_addr_dec [OF env v(2)]
  let ?st1 = "st\<lparr>oe_chunkHash := k, oe_chunkAddr := v, oe_superfeature := superfeature r\<rparr>"
  have one: "Ocall_OneRecipe (st\<lparr>oe_chunkHash := k\<rparr>) = Inr (st\<lparr>oe_chunkHash := k, oe_chunkAddr := v\<rparr>)"
    using OneRecipe_ok [of "st\<lparr>oe_chunkHash := k\<rparr>" k v] v(1,3) e(1) by simp
  have l: "length (oe_superfeature ?st1) = 3 * CHUNK_HASH_SIZE" "length (oe_chunkHash ?st1) = CHUNK_HASH_SIZE"
    using v(3,4) by (simp_all add: recipe_wf_def)
  obtain st' where st': "Ocall_OFFline_updateIndex n ?st1 = Inr st'" "quiet old ?st1 st'" "delta_map st' = delta_map ?st1"
    "ocall_container st' = ocall_container ?st1" "delta_index (of_db st') = delta_index (of_db ?st1)" by (rule updateIndex_quiet [OF l])
  have q: "quiet old st ?st1" using e(1) by (simp add: quiet_def room_ok_def pass_buffers_def codec_ok_def)
  have "move_features env k n st = Inr st'" using one e(2) v(4) st'(1) by (simp add: move_features_def)
  then show thesis by (rule that) (use quiet_trans [OF q st'(2)] st'(3,5) in simp_all)
qed

lemma fetch_base_ok:
  assumes env: "env_ok env" and m: "mid env orig cat hs st" and b: "index_base env (of_db st) k r"
  obtains st' rs s where "fetch_base env k n st = Inr (Some (r, ocall_container st'), st')" "quiet old st st'" "delta_map st' = delta_map st"
    "delta_index (of_db st') = delta_index (of_db st)"
    "cat (False, containerName r) = Some rs" "s \<in> set rs" "s_addr s = r" "s_fp s = k" "take (length (content rs)) (ocall_container st') = content rs"
    "keeps env (of_db st) orig False s"
proof -
  obtain v where v: "indexObj (of_db st) k = Some v" "enc_addr env r v" "length k = CHUNK_HASH_SIZE" "recipe_wf r"
    by (rule index_base_known [OF env mid_repo [OF m] b])
  obtain f s where s: "in_cat (with_hot cat hs st) f s" "s_fp s = k" "enc_addr env (s_addr s) v" "keeps env (of_db st) orig f s"
    by (rule repo_index [OF mid_repo [OF m] v(1)])
  have sr: "s_addr s = r" by (rule enc_addr_inject [OF env s(3) v(2)])
  have f: "\<not> f" using s(4) b sr by (auto simp: keeps_def index_base_def delta_defs)
  then obtain rs where rs: "cat (False, containerName r) = Some rs" "s \<in> set rs" using s(1) sr by (auto simp: in_cat_def)
  obtain addr where a: "fetch_recipe env k st = Inr (r, st\<lparr>oe_chunkHash := k, oe_chunkAddr := addr\<rparr>)" "length addr = sizeof_RecipeEntry"
    "bslice addr 0 CONTAINER_ID_LENGTH = containerName r" by (rule fetch_recipe_ok [OF env v(1,2,3)])
  let ?st1 = "st\<lparr>oe_chunkHash := k, oe_chunkAddr := addr\<rparr>"
  have lo: "length (ocall_container ?st1) = MAX_CONTAINER_SIZE" and f1: "of_files ?st1 = disk_of cat"
    and bs1: "bslice (oe_chunkAddr ?st1) 0 CONTAINER_ID_LENGTH = containerName r"
    using m a(3) by (simp_all add: mid_def room_ok_def pass_buffers_def)
  obtain oc where oc: "length oc = MAX_CONTAINER_SIZE" "take (length (content rs)) oc = content rs"
    "\<not> False \<Longrightarrow> Ocall_OneContainer ?st1 = Inr (?st1\<lparr>ocall_container := oc, oe_offlineFlag := True\<rparr>)"
    by (rule container_read [OF f1 rs(1) mid_cat [OF m] lo bs1]) blast
  let ?st2 = "st\<lparr>oe_chunkHash := k, oe_chunkAddr := addr, ocall_container := oc, oe_offlineFlag := True, oe_superfeature := superfeature r\<rparr>"
  have l: "length (oe_superfeature ?st2) = 3 * CHUNK_HASH_SIZE" "length (oe_chunkHash ?st2) = CHUNK_HASH_SIZE"
    using v(3,4) by (simp_all add: recipe_wf_def)
  obtain st' where st': "Ocall_OFFline_updateIndex n ?st2 = Inr st'" "quiet old ?st2 st'" "delta_map st' = delta_map ?st2"
    "ocall_container st' = ocall_container ?st2" "delta_index (of_db st') = delta_index (of_db ?st2)" by (rule updateIndex_quiet [OF l])
  have q: "quiet old st ?st2" using a(2) oc(1) by (simp add: quiet_def room_ok_def pass_buffers_def codec_ok_def)
  have "fetch_base env k n st = Inr (Some (r, ocall_container st'), st')" using a(1) oc(3) st'(1) by (simp add: fetch_base_def)
  then show thesis by (rule that) (use quiet_trans [OF q st'(2)] st'(3,4,5) rs sr s(2,4) f oc(2) in simp_all)
qed

section \<open>The old base\<close>

lemma rebase_old_ok:
  assumes env: "env_ok env" and m: "mid env orig cat hs st" and T: "of_times st < 36 ^ CONTAINER_ID_LENGTH"
    and old: "index_base env (of_db st) old r" and new: "index_base env (of_db st) new x" and ne: "old \<noteq> new"
    and s: "in_cat cat False s" "s_addr s = r" "s_fp s = old" and fl: "flag \<longrightarrow> deltas env (of_db st) old = {}"
    and sz: "chunk_sizes orig (dom (indexObj (of_db st)))"
  obtains st' cat' hs' where "rebase_old env old (orig old) (orig new) new r (s_iv s) (extent s) flag st = Inr st'" "mid env orig cat' hs' st'"
    "advance env old new cat st cat' st'" "of_times st' \<le> Suc (of_times st)" "delta_map st' = delta_map st"
proof -
  have w: "codec_ok st" using m by (simp add: mid_def room_ok_def)
  note size = sizesD [OF sz base_dom [OF old] base_dom [OF new]] sizesD(3) [OF sz base_dom [OF new] base_dom [OF new]]
  obtain d p l h where e: "ed3_encode_buffer (orig old) (orig new) st =
      Inr (d, st\<lparr>plainNewDeltaChunk := p, BaseLinkOffline := l, psHTable2Offline := h\<rparr>)"
    "codec_ok (st\<lparr>plainNewDeltaChunk := p, BaseLinkOffline := l, psHTable2Offline := h\<rparr>)" "ed3_decode d (orig new) = Inr (orig old)"
    by (rule ed3_encode_buffer_ok [OF w size(2,5,4,1)])
  let ?st1 = "st\<lparr>plainNewDeltaChunk := p, BaseLinkOffline := l, psHTable2Offline := h\<rparr>"
  let ?st2 = "resize_backup (unat (re_length r)) (length d) ?st1"
  have q1: "quiet old st ?st1" and q2: "quiet old st ?st2" and w2: "delta_map ?st2 = delta_map st"
    using e(2) unfolding resize_backup_def quiet_def by (simp_all add: room_ok_def pass_buffers_def codec_ok_def)
  consider "length (orig old) < length d" | "\<not> length (orig old) < length d" "\<not> flag" | "\<not> length (orig old) < length d" flag by blast
  then show thesis
  proof cases
    case 1
    then have "rebase_old env old (orig old) (orig new) new r (s_iv s) (extent s) flag st = Inr ?st1" using e(1) by (simp add: rebase_old_def)
    then show thesis by (rule that [OF _ quiet_mid [OF q1 m] quiet_advance [OF q1]]) simp_all
  next
    case 2
    then have "rebase_old env old (orig old) (orig new) new r (s_iv s) (extent s) flag st = Inr ?st2" using e(1) by (simp add: rebase_old_def Let_def)
    then show thesis by (rule that [OF _ quiet_mid [OF q2 m] quiet_advance [OF q2]]) (simp_all add: w2 quiet_index(5) [OF q2])
  next
    case 3
    note i2 = quiet_index [OF q2]
    have m2: "mid env orig cat hs ?st2" by (rule quiet_mid [OF q2 m])
    have T2: "of_times ?st2 < 36 ^ CONTAINER_ID_LENGTH" using T i2(5) by simp
    obtain v where v: "indexObj (of_db st) old = Some v" "enc_addr env r v" "recipe_wf r" by (rule index_base_known [OF env mid_repo [OF m] old])
    have s2: "in_cat (with_hot cat hs ?st2) False s" "live env (of_db ?st2) s"
      using mid_disk(1) [OF m2 s(1)] v s(2,3) i2(3) by (simp_all add: live_def)
    have no: "deltas env (of_db ?st2) old = {}" and new2: "index_base env (of_db ?st2) new x" using fl 3(2) new i2(1,2) by simp_all
    have dl: "length d \<le> MAX_CHUNK_SIZE" using 3(1) size(3) by simp
    obtain rs q where "srec_ok (containerName (s_addr s)) q s" using s(1) in_cat_of(3) [OF mid_cat [OF m]] unfolding in_cat_def by blast
    then have lens: "length (superfeature r) = 3 * CHUNK_HASH_SIZE" "length (s_iv s) = CRYPTO_BLOCK_SIZE"
      using v(3) by (simp_all add: srec_ok_def recipe_wf_def)
    have cn: "containerName r = containerName (s_addr s)" using s(2) by simp
    obtain st' cat' hs' w r' where st': "store_delta env new old r d old (superfeature r) (s_iv s) (extent s) ?st2 = Inr st'" "mid env orig cat' hs' st'"
      "same_frame ?st2 st'" "of_times st' \<le> Suc (of_times ?st2)" "indexObj (of_db st') = (indexObj (of_db ?st2))(old \<mapsto> w)" "enc_addr env r' w"
      "re_deltaFlag r' = DELTA" "basechunkHash r' = new" "delta_index (of_db st') = multi_push new old (delta_index (of_db ?st2))" "widened cat cat'"
      by (rule store_delta_ok [OF env m2 T2 s2 s(3) [symmetric] no new2 ne [symmetric] dl e(3) v(3) cn lens])
    have run: "rebase_old env old (orig old) (orig new) new r (s_iv s) (extent s) flag st = Inr st'"
      using e(1) 3 st'(1) by (simp add: rebase_old_def Let_def)
    have od: "old \<in> dom (indexObj (of_db ?st2))" "index_base env (of_db ?st2) old r" using base_dom [OF old] old i2(2,4) by simp_all
    have "advance env old new cat ?st2 cat' st'"
      by (rule advance_store [where x = r, OF env st'(3,5,6,7,8) od(1) st'(9,10)]) (intro disjI1 conjI refl od(2))
    from run st'(2) advance_trans [OF quiet_advance [OF q2] this] show thesis
      by (rule that) (use st'(3,4) w2 i2(5) in \<open>simp_all add: same_frame_def\<close>)
  qed
qed

section \<open>A pair\<close>

definition noted :: "InMemoryDatabase \<Rightarrow> byte list \<Rightarrow> byte list list" where
  "noted db b = (case delta_index db b of None \<Rightarrow> [] | Some ks \<Rightarrow> ks)"

definition pending :: "restore_env \<Rightarrow> catalog \<Rightarrow> InMemoryDatabase \<Rightarrow> byte list \<Rightarrow> bool" where
  "pending env cat db b \<longleftrightarrow> (\<exists>x. index_base env db b x) \<and> distinct (noted db b) \<and> set (noted db b) = deltas env db b \<and>
     (\<forall>k \<in> deltas env db b. shelved env cat db k)"

lemma deltas_known:
  assumes "repo_ok env orig cat db colds" "k \<in> deltas env db a"
  shows "length k = CHUNK_HASH_SIZE"
  using assms(2) repo_index [OF assms(1), of k] unfolding deltas_def by blast

lemma noted_short:
  assumes "pending env cat db b" "chunk_sizes orig (dom (indexObj db))"
  shows "length (noted db b) < 100000"
proof -
  have "length (noted db b) = card (deltas env db b)" using assms(1) distinct_card [of "noted db b"] by (simp add: pending_def)
  also have "\<dots> \<le> card (dom (indexObj db))" by (rule card_mono) (use assms(2) deltas_dom in \<open>auto simp: chunk_sizes_def\<close>)
  finally show ?thesis using assms(2) by (simp add: chunk_sizes_def)
qed

lemma quiet_shelved: "quiet old st st' \<Longrightarrow> shelved env cat (of_db st') k = shelved env cat (of_db st) k"
  by (simp add: shelved_def quiet_index(3))

lemma rebase_deltas_ok:
  assumes env: "env_ok env" and ne: "old \<noteq> new" and m: "mid env orig cat hs st" and T: "of_times st + length ks \<le> 36 ^ CONTAINER_ID_LENGTH"
    and ks: "distinct ks" "set ks = deltas env (of_db st) old" "\<forall>k \<in> set ks. shelved env cat (of_db st) k"
    and dm: "delta_map st = (if ks = [] then Map.empty else [old \<mapsto> ks])"
    and b: "index_base env (of_db st) new x" "index_base env (of_db st) old y" and sz: "chunk_sizes orig (dom (indexObj (of_db st)))"
  obtains flag' st' cat' hs' where "rebase_deltas env old (orig old) (orig new) new st = Inr (flag', st')"
    "mid env orig cat' hs' st'" "advance env old new cat st cat' st'" "of_times st' \<le> of_times st + length ks" "delta_map st' = Map.empty"
    "flag' \<longrightarrow> deltas env (of_db st') old = {}" "index_base env (of_db st') old = index_base env (of_db st) old"
    "index_base env (of_db st') new = index_base env (of_db st) new"
proof (cases "ks = []")
  case True
  then have "delta_map st = Map.empty" using dm by simp
  then show thesis using True ks(2) m quiet_advance [OF quiet_refl, of env old new cat st]
    by (intro that [of True st cat hs]) (simp_all add: rebase_deltas_def)
next
  case False
  have f: "True \<longrightarrow> deltas env (of_db st) old = set ks" and sub: "set ks \<subseteq> deltas env (of_db st) old" using ks(2) by simp_all
  from rebase_deltas_loop [OF env ne m T ks(1) sub f ks(3) b sz] obtain flag' st' cat' hs' where
    1: "for_each (rebase_delta env (orig old) (orig new) new) ks (True, st) = Inr (flag', st')"
      "mid env orig cat' hs' st'" "advance env old new cat st cat' st'" "of_times st' \<le> of_times st + length ks" "delta_map st' = delta_map st"
      "flag' \<longrightarrow> deltas env (of_db st') old = {}" "index_base env (of_db st') old = index_base env (of_db st) old"
      "index_base env (of_db st') new = index_base env (of_db st) new" by blast
  let ?st = "st'\<lparr>delta_map := (delta_map st')(old := None)\<rparr>"
  have q: "quiet old st' ?st" by (simp add: quiet_def room_ok_def pass_buffers_def codec_ok_def)
  have dm': "delta_map st old = Some ks" "(delta_map st)(old := None) = Map.empty" using dm False by (simp_all add: fun_eq_iff)
  have run: "rebase_deltas env old (orig old) (orig new) new st = Inr (flag', ?st)" using 1(1) dm'(1) by (simp add: rebase_deltas_def)
  show thesis
    by (rule that [OF run quiet_mid [OF q 1(2)] advance_trans [OF 1(3) quiet_advance [OF q]]])
      (use 1(4-8) dm'(2) in simp_all)
qed

lemma greedy_base_ok:
  assumes env: "env_ok env" and m: "mid env orig cat hs st" and p: "pending env cat (of_db st) old" and new: "index_base env (of_db st) new x"
    and sz: "chunk_sizes orig (dom (indexObj (of_db st)))"
  obtains st' where "greedy_base env old new st = Inr st'" "quiet old st st'" "delta_map st' = delta_map st"
proof -
  obtain y where y: "index_base env (of_db st) old y" using p by (auto simp: pending_def)
  obtain st1 where st1: "move_features env old 0 st = Inr st1" "quiet old st st1" "delta_map st1 = delta_map st"
    "delta_index (of_db st1) = delta_index (of_db st)" by (rule move_features_ok [OF env m y])
  have m1: "mid env orig cat hs st1" by (rule quiet_mid [OF st1(2) m])
  have new1: "index_base env (of_db st1) new x" using new quiet_index(2) [OF st1(2)] by simp
  obtain st2 where st2: "move_features env new 1 st1 = Inr st2" "quiet old st1 st2" "delta_map st2 = delta_map st1"
    "delta_index (of_db st2) = delta_index (of_db st1)" by (rule move_features_ok [OF env m1 new1])
  note q = quiet_trans [OF st1(2) st2(2)]
  have R: "repo_ok env orig (with_hot cat hs st) (of_db st) (colds_of st)" by (rule mid_repo [OF m])
  have ol: "length old = CHUNK_HASH_SIZE" by (rule index_base_known [OF env R y])
  have b: "length (process_buf st2) = 100000 * CHUNK_HASH_SIZE" using quiet_mid [OF q m] by (simp add: mid_def room_ok_def)
  have di: "(case delta_index (of_db st2) old of None \<Rightarrow> [] | Some ks \<Rightarrow> ks) = noted (of_db st) old" using st1(4) st2(4) by (simp add: noted_def)
  have kl: "\<forall>h \<in> set (noted (of_db st) old). length h = CHUNK_HASH_SIZE" using p deltas_known [OF R] by (auto simp: pending_def)
  obtain b0 b1 b2 where c: "clear_process (process_buf st2) = Inr b0" "buf_write b0 0 old = Inr b1"
    "Ocall_QueryDeltaIndex (st2\<lparr>process_buf := b1\<rparr>) = Inr (length (noted (of_db st) old),
       st2\<lparr>process_buf := b2, of_db := (of_db st2)\<lparr>delta_index := (delta_index (of_db st2))(old := None)\<rparr>\<rparr>)"
    "length b2 = 100000 * CHUNK_HASH_SIZE" by (rule query_deltas_ok [OF b ol di noted_short [OF p sz] kl])
  let ?st = "st2\<lparr>process_buf := b2, of_db := (of_db st2)\<lparr>delta_index := (delta_index (of_db st2))(old := None)\<rparr>\<rparr>"
  have q3: "quiet old st2 ?st" using c(4) by (simp add: quiet_def room_ok_def pass_buffers_def codec_ok_def)
  have "greedy_base env old new st = Inr ?st" using st1(1) st2(1) c(1-3) by (simp add: greedy_base_def)
  then show thesis by (rule that [OF _ quiet_trans [OF q q3]]) (use st1(3) st2(3) in simp)
qed

lemma rebase_base_ok:
  assumes env: "env_ok env" and m: "mid env orig cat hs st" and T: "of_times st + 100000 \<le> 36 ^ CONTAINER_ID_LENGTH"
    and dm: "delta_map st = Map.empty" and p: "pending env cat (of_db st) old" and new: "index_base env (of_db st) new x" and ne: "old \<noteq> new"
    and sz: "chunk_sizes orig (dom (indexObj (of_db st)))"
  obtains st' cat' hs' where "rebase_base env gs (old, new) st = Inr st'" "mid env orig cat' hs' st'"
    "advance env old new cat st cat' st'" "of_times st' \<le> of_times st + 100000" "delta_map st' = Map.empty"
proof (cases "unat (offlineCurrBackup_size st) \<le> gs")
  case True
  obtain st' where st': "greedy_base env old new st = Inr st'" "quiet old st st'" "delta_map st' = delta_map st"
    by (rule greedy_base_ok [OF env m p new sz])
  have run: "rebase_base env gs (old, new) st = Inr st'" using True st'(1) by (simp add: rebase_base_def)
  show thesis by (rule that [OF run quiet_mid [OF st'(2) m] quiet_advance [OF st'(2)]]) (simp_all add: quiet_index(5) [OF st'(2)] st'(3) dm)
next
  case False
  let ?ks = "noted (of_db st) old"
  obtain r where r: "index_base env (of_db st) old r" using p by (auto simp: pending_def)
  have R: "repo_ok env orig (with_hot cat hs st) (of_db st) (colds_of st)" by (rule mid_repo [OF m])
  have ol: "length old = CHUNK_HASH_SIZE" by (rule index_base_known [OF env R r])
  obtain st1 rs s where st1: "fetch_base env old 0 st = Inr (Some (r, ocall_container st1), st1)" "quiet old st st1" "delta_map st1 = delta_map st"
    "delta_index (of_db st1) = delta_index (of_db st)"
    and s: "cat (False, containerName r) = Some rs" "s \<in> set rs" "s_addr s = r" "s_fp s = old" "take (length (content rs)) (ocall_container st1) = content rs"
    "keeps env (of_db st) orig False s" by (rule fetch_base_ok [OF env m r])
  have m1: "mid env orig cat hs st1" by (rule quiet_mid [OF st1(2) m])
  have new1: "index_base env (of_db st1) new x" using new quiet_index(2) [OF st1(2)] by simp
  obtain st2 rs' s' where st2: "fetch_base env new 1 st1 = Inr (Some (x, ocall_container st2), st2)" "quiet old st1 st2" "delta_map st2 = delta_map st1"
    "delta_index (of_db st2) = delta_index (of_db st1)"
    and s': "cat (False, containerName x) = Some rs'" "s' \<in> set rs'" "s_addr s' = x" "s_fp s' = new" "take (length (content rs')) (ocall_container st2) = content rs'"
    "keeps env (of_db st1) orig False s'" by (rule fetch_base_ok [OF env m1 new1])
  note C = mid_cat [OF m] and q = quiet_trans [OF st1(2) st2(2)]
  obtain d where d: "DecryptionWithKeyIV (env_ssl env) cryptoObj (s_data s) (enclaveKey env) (s_iv s) = Inr d" "length (s_data s) \<le> MAX_CHUNK_SIZE"
    "unpacked env d = orig old" using s(4,6) by (auto simp: keeps_def)
  obtain d' where d': "DecryptionWithKeyIV (env_ssl env) cryptoObj (s_data s') (enclaveKey env) (s_iv s') = Inr d'" "length (s_data s') \<le> MAX_CHUNK_SIZE"
    "unpacked env d' = orig new" using s'(4,6) by (auto simp: keeps_def)
  have l1: "load_chunk env (ocall_container st1) r = Inr (d, s_iv s, extent s)"
    using load_chunk_ok(1) [OF C s(1) [folded s(3)] s(2,5) d(1,2)] s(3) by simp
  have l2: "load_chunk env (ocall_container st2) x = Inr (d', s_iv s', extent s')"
    using load_chunk_ok(1) [OF C s'(1) [folded s'(3)] s'(2,5) d'(1,2)] s'(3) by simp
  have pl: "plain_chunk env d = orig old" "plain_chunk env d' = orig new" using d(3) d'(3) by (simp_all add: plain_chunk_def unpacked_def)
  have m2: "mid env orig cat hs st2" by (rule quiet_mid [OF q m])
  have b: "length (process_buf st2) = 100000 * CHUNK_HASH_SIZE" using m2 by (simp add: mid_def room_ok_def)
  have di: "(case delta_index (of_db st2) old of None \<Rightarrow> [] | Some ks \<Rightarrow> ks) = ?ks" using st1(4) st2(4) by (simp add: noted_def)
  have kl: "\<forall>h \<in> set ?ks. length h = CHUNK_HASH_SIZE" using p deltas_known [OF R] by (auto simp: pending_def)
  have dm2: "delta_map st2 = Map.empty" using dm st1(3) st2(3) by simp
  then have dm2': "delta_map st2 old = None" by simp
  obtain buf dm' where c: "collect_deltas old st2 = Inr (st2\<lparr>process_buf := buf, of_db := (of_db st2)\<lparr>delta_index := (delta_index (of_db st2))(old := None)\<rparr>,
      delta_map := dm'\<rparr>)" "length buf = 100000 * CHUNK_HASH_SIZE" "dm' = (if ?ks = [] then delta_map st2 else (delta_map st2)(old \<mapsto> ?ks))"
    by (rule collect_deltas_ok [OF b ol di noted_short [OF p sz] kl dm2'])
  let ?st3 = "st2\<lparr>process_buf := buf, of_db := (of_db st2)\<lparr>delta_index := (delta_index (of_db st2))(old := None)\<rparr>, delta_map := dm'\<rparr>"
  have q3': "quiet old st2 ?st3" using c(2) by (simp add: quiet_def room_ok_def pass_buffers_def codec_ok_def)
  note q3 = quiet_trans [OF q q3'] and i3 = quiet_index [OF quiet_trans [OF q q3']]
  have m3: "mid env orig cat hs ?st3" by (rule quiet_mid [OF q3 m])
  have T3: "of_times ?st3 + length ?ks \<le> 36 ^ CONTAINER_ID_LENGTH" using T noted_short [OF p sz] i3(5) by simp
  have ks: "distinct ?ks" "set ?ks = deltas env (of_db ?st3) old" "\<forall>k \<in> set ?ks. shelved env cat (of_db ?st3) k"
    using p i3(1) quiet_shelved [OF q3] by (simp_all add: pending_def)
  have dm3: "delta_map ?st3 = (if ?ks = [] then Map.empty else [old \<mapsto> ?ks])" using c(3) dm2 by simp
  have b3: "index_base env (of_db ?st3) new x" "index_base env (of_db ?st3) old r" "chunk_sizes orig (dom (indexObj (of_db ?st3)))"
    using new r sz i3(2,4) by simp_all
  obtain flag st4 cat4 hs4 where st4: "rebase_deltas env old (orig old) (orig new) new ?st3 = Inr (flag, st4)"
    "mid env orig cat4 hs4 st4" "advance env old new cat ?st3 cat4 st4" "of_times st4 \<le> of_times ?st3 + length ?ks" "delta_map st4 = Map.empty"
    "flag \<longrightarrow> deltas env (of_db st4) old = {}" "index_base env (of_db st4) old = index_base env (of_db ?st3) old"
    "index_base env (of_db st4) new = index_base env (of_db ?st3) new"
    by (rule rebase_deltas_ok [OF env ne m3 T3 ks dm3 b3])
  have T4: "of_times st4 < 36 ^ CONTAINER_ID_LENGTH" using st4(4) T noted_short [OF p sz] i3(5) by simp
  have b4: "index_base env (of_db st4) old r" "index_base env (of_db st4) new x" using st4(7,8) b3(1,2) by simp_all
  have z4: "chunk_sizes orig (dom (indexObj (of_db st4)))" using b3(3) advanceD(5) [OF st4(3)] by simp
  have "in_cat cat False s" using s(1-3) unfolding in_cat_def by blast
  then have s4: "in_cat cat4 False s" by (rule in_cat_le [OF advance_map [OF st4(3)]])
  obtain st5 cat5 hs5 where st5: "rebase_old env old (orig old) (orig new) new r (s_iv s) (extent s) flag st4 = Inr st5" "mid env orig cat5 hs5 st5"
    "advance env old new cat4 st4 cat5 st5" "of_times st5 \<le> Suc (of_times st4)" "delta_map st5 = delta_map st4"
    by (rule rebase_old_ok [OF env st4(2) T4 b4 ne s4 s(3,4) st4(6) z4])
  have run: "rebase_base env gs (old, new) st = Inr st5"
    using False st1(1) st2(1) l1 l2 pl c(1) st4(1) st5(1) by (simp add: rebase_base_def Let_def)
  show thesis
    by (rule that [OF run st5(2) advance_trans [OF quiet_advance [OF q3] advance_trans [OF st4(3) st5(3)]]])
      (use st4(4,5) st5(4,5) i3(5) noted_short [OF p sz] in simp_all)
qed

section \<open>The pairs of a batch\<close>

definition work_ok :: "restore_env \<Rightarrow> catalog \<Rightarrow> InMemoryDatabase \<Rightarrow> (byte list \<times> byte list) list \<Rightarrow> bool" where
  "work_ok env cat db ps \<longleftrightarrow> distinct (map fst ps) \<and> fst ` set ps \<inter> snd ` set ps = {} \<and>
     (\<forall>p \<in> set ps. pending env cat db (fst p) \<and> (\<exists>x. index_base env db (snd p) x))"

lemma work_ok_perm:
  assumes "mset qs = mset ps" "work_ok env cat db ps"
  shows "work_ok env cat db qs"
proof -
  have "mset (map fst qs) = mset (map fst ps)" using assms(1) by simp
  then have "distinct (map fst qs) = distinct (map fst ps)" by (rule mset_eq_imp_distinct_iff)
  moreover have "set qs = set ps" by (rule mset_eq_setD [OF assms(1)])
  ultimately show ?thesis using assms(2) by (simp add: work_ok_def)
qed

lemma pending_advance:
  assumes a: "advance env old new cat st cat' st'" and p: "pending env cat (of_db st) b" and b: "b \<noteq> old" "b \<noteq> new"
  shows "pending env cat' (of_db st') b"
proof -
  have d: "deltas env (of_db st') b = deltas env (of_db st) b" and n: "noted (of_db st') b = noted (of_db st) b"
    using advanceD(7,8) [OF a b] by (simp_all add: noted_def)
  have "shelved env cat' (of_db st') k" if k: "k \<in> deltas env (of_db st) b" for k
  proof -
    obtain s where s: "in_cat cat True s" "s_fp s = k" "live env (of_db st) s" using p k unfolding pending_def shelved_def by blast
    have "s_fp s \<in> deltas env (of_db st) b" using s(2) k by simp
    from advance_disk [OF a b this s(1,3)] s(2) show ?thesis unfolding shelved_def by blast
  qed
  moreover have "index_base env (of_db st') b = index_base env (of_db st) b" by (intro ext advanceD(6) [OF a b(1)])
  ultimately show ?thesis using p d n unfolding pending_def by simp
qed

lemma work_ok_advance:
  assumes w: "work_ok env cat (of_db st) ((old, new) # ps)" and a: "advance env old new cat st cat' st'"
  shows "work_ok env cat' (of_db st') ps"
proof -
  have "pending env cat' (of_db st') (fst p) \<and> (\<exists>x. index_base env (of_db st') (snd p) x)" if p: "p \<in> set ps" for p
  proof -
    have ne: "fst p \<noteq> old" "fst p \<noteq> new" "snd p \<noteq> old" using w p unfolding work_ok_def by force+
    have "pending env cat (of_db st) (fst p)" "\<exists>x. index_base env (of_db st) (snd p) x" using w p by (simp_all add: work_ok_def)
    then show ?thesis using pending_advance [OF a _ ne(1,2)] advanceD(6) [OF a ne(3)] by simp
  qed
  then show ?thesis using w unfolding work_ok_def by auto
qed

definition frame :: "offline \<Rightarrow> offline \<Rightarrow> bool" where
  "frame st st' \<longleftrightarrow> local_map st' = local_map st \<and> cold_container_vector st' = cold_container_vector st \<and>
     baseMergePair st' = baseMergePair st \<and> test_buf st' = test_buf st \<and> dom (indexObj (of_db st')) = dom (indexObj (of_db st))"

lemma frame_refl [simp]: "frame st st"
  by (simp add: frame_def)

lemma frame_advance: "advance env old new cat st cat' st' \<Longrightarrow> frame st' st'' \<Longrightarrow> frame st st''"
  by (simp add: frame_def advance_def)

lemma rebase_pairs_ok:
  assumes env: "env_ok env"
  shows "mid env orig cat hs st \<Longrightarrow> of_times st + 100000 * length ps \<le> 36 ^ CONTAINER_ID_LENGTH \<Longrightarrow> delta_map st = Map.empty \<Longrightarrow>
    work_ok env cat (of_db st) (ps @ qs) \<Longrightarrow> chunk_sizes orig (dom (indexObj (of_db st))) \<Longrightarrow>
    \<exists>st' cat' hs'. for_each (rebase_base env gs) ps st = Inr st' \<and> mid env orig cat' hs' st' \<and> frame st st' \<and>
      of_times st' \<le> of_times st + 100000 * length ps \<and> delta_map st' = Map.empty \<and> work_ok env cat' (of_db st') qs \<and> widened cat cat'"
proof (induction ps arbitrary: st cat hs)
  case Nil
  then show ?case using frame_refl [of st] by fastforce
next
  case (Cons p ps)
  obtain old new where p: "p = (old, new)" by fastforce
  note h = Cons.prems
  have T: "of_times st + 100000 \<le> 36 ^ CONTAINER_ID_LENGTH" using h(2) by simp
  obtain x where pe: "pending env cat (of_db st) old" and x: "index_base env (of_db st) new x" using h(4) p by (auto simp: work_ok_def)
  have ne: "old \<noteq> new" using h(4) p by (auto simp: work_ok_def)
  obtain st1 cat1 hs1 where 1: "rebase_base env gs (old, new) st = Inr st1" "mid env orig cat1 hs1 st1" "advance env old new cat st cat1 st1"
    "of_times st1 \<le> of_times st + 100000" "delta_map st1 = Map.empty" by (rule rebase_base_ok [OF env h(1) T h(3) pe x ne h(5)])
  have w: "work_ok env cat (of_db st) ((old, new) # (ps @ qs))" using h(4) p by simp
  have 2: "of_times st1 + 100000 * length ps \<le> 36 ^ CONTAINER_ID_LENGTH" using 1(4) h(2) by simp
  have z: "chunk_sizes orig (dom (indexObj (of_db st1)))" using h(5) advanceD(5) [OF 1(3)] by simp
  from Cons.IH [OF 1(2) 2 1(5) work_ok_advance [OF w 1(3)] z] obtain st' cat' hs' where
    3: "for_each (rebase_base env gs) ps st1 = Inr st'" "mid env orig cat' hs' st'" "frame st1 st'"
      "of_times st' \<le> of_times st1 + 100000 * length ps" "delta_map st' = Map.empty" "work_ok env cat' (of_db st') qs" "widened cat1 cat'" by blast
  have "for_each (rebase_base env gs) (p # ps) st = Inr st'" using p 1(1) 3(1) by simp
  moreover have "of_times st' \<le> of_times st + 100000 * length (p # ps)" using 1(4) 3(4) by simp
  ultimately show ?case using 3(2,5,6) frame_advance [OF 1(3) 3(3)] widened_trans [OF advance_map [OF 1(3)] 3(7)]
    by (intro exI [of _ st'] exI [of _ cat'] exI [of _ hs']) simp
qed

section \<open>The batches\<close>

lemma buf_read_take:
  assumes "length buf = length buf'" "take n buf = take n buf'" "x + y \<le> n"
  shows "buf_read buf x y = buf_read buf' x y"
proof -
  have "bslice b x y = drop x (take (x + y) (take n b))" for b :: "byte list" using assms(3) by (simp add: bslice_def drop_take min_def)
  then have "bslice buf x y = bslice buf' x y" by (simp only: assms(2))
  then show ?thesis using assms(1) by (simp add: buf_read_def)
qed

lemma update_new: "k \<notin> fst ` set m \<Longrightarrow> AList.update k v m = m @ [(k, v)]"
  by (induction m) auto

lemma put_pairs_ok:
  "length buf = n \<Longrightarrow> off + length ps * (2 * CHUNK_HASH_SIZE) \<le> n \<Longrightarrow>
   \<forall>p \<in> set ps. length (fst p) = CHUNK_HASH_SIZE \<and> length (snd p) = CHUNK_HASH_SIZE \<Longrightarrow> distinct (map fst ps) \<Longrightarrow>
   \<exists>buf'. put_pairs ps off buf = Inr buf' \<and> length buf' = n \<and> take off buf' = take off buf \<and>
     (\<forall>m. fst ` set m \<inter> fst ` set ps = {} \<longrightarrow> get_pairs (length ps) off buf' m = Inr (m @ ps))"
proof (induction ps arbitrary: off buf)
  case (Cons p ps)
  obtain a b where p: "p = (a, b)" by fastforce
  let ?h = "CHUNK_HASH_SIZE"
  have ab: "length a = ?h" "length b = ?h" using Cons.prems(3) p by simp_all
  have "off + length a \<le> length buf" using Cons.prems(1,2) ab by simp
  then obtain b1 where b1: "buf_write buf off a = Inr b1" "length b1 = length buf" "take off b1 = take off buf" using buf_write_ok by blast
  have "off + ?h + length b \<le> length b1" using Cons.prems(1,2) ab b1(2) by simp
  then obtain b2 where b2: "buf_write b1 (off + ?h) b = Inr b2" "length b2 = length b1" "take (off + ?h) b2 = take (off + ?h) b1"
    using buf_write_ok by blast
  have l2: "length b2 = n" "off + 2 * ?h + length ps * (2 * ?h) \<le> n" "distinct (map fst ps)"
    "\<forall>p \<in> set ps. length (fst p) = ?h \<and> length (snd p) = ?h" using Cons.prems b1(2) b2(2) by simp_all
  from Cons.IH [OF l2(1,2,4,3)] obtain b3 where b3: "put_pairs ps (off + 2 * ?h) b2 = Inr b3" "length b3 = n"
    "take (off + 2 * ?h) b3 = take (off + 2 * ?h) b2"
    "\<forall>m. fst ` set m \<inter> fst ` set ps = {} \<longrightarrow> get_pairs (length ps) (off + 2 * ?h) b3 m = Inr (m @ ps)" by blast
  have r2: "buf_read b3 x y = buf_read b2 x y" if "x + y \<le> off + 2 * ?h" for x y
    by (rule buf_read_take [OF _ b3(3) that]) (simp add: b3(2) l2(1))
  have r1: "buf_read b2 x y = buf_read b1 x y" if "x + y \<le> off + ?h" for x y
    by (rule buf_read_take [OF b2(2,3) that])
  have ra: "buf_read b3 off ?h = Inr a" using r2 [of off ?h] r1 [of off ?h] read_back [OF b1(1)] ab by simp
  have rb: "buf_read b3 (off + ?h) ?h = Inr b" using r2 [of "off + ?h" ?h] read_back [OF b2(1)] ab by simp
  have t: "take off b3 = take off buf"
  proof -
    have "take off b3 = take off (take (off + 2 * ?h) b3)" by simp
    also have "\<dots> = take off (take (off + ?h) b2)" unfolding b3(3) by simp
    also have "\<dots> = take off buf" unfolding b2(3) using b1(3) by simp
    finally show ?thesis .
  qed
  have "get_pairs (length (p # ps)) off b3 m = Inr (m @ p # ps)" if m: "fst ` set m \<inter> fst ` set (p # ps) = {}" for m
  proof -
    have "fst ` set (m @ [p]) \<inter> fst ` set ps = {}" using m Cons.prems(4) by auto
    moreover have "AList.update a b m = m @ [p]" using update_new [of a m b] m p by auto
    ultimately show ?thesis using ra rb b3(4) by simp
  qed
  then show ?case using b1(1) b2(1) b3(1,2) t p by simp
qed simp

definition batch_in :: "byte list \<Rightarrow> (byte list \<times> byte list) list \<Rightarrow> bool" where
  "batch_in buf ps \<longleftrightarrow> buf_read buf 0 4 = Inr (le32 (word_of_nat (length ps))) \<and> length ps \<le> Local_Batch \<and>
     get_pairs (length ps) 4 buf [] = Inr ps"

lemma GetLocal_ok:
  assumes b: "length (test_buf st) = 8000 * CHUNK_HASH_SIZE" and d: "distinct (map fst (local_map st))"
    and l: "\<forall>p \<in> set (local_map st). length (fst p) = CHUNK_HASH_SIZE \<and> length (snd p) = CHUNK_HASH_SIZE"
  obtains buf cur rest where "Ocall_GetLocal st = Inr (st\<lparr>test_buf := buf, local_map := rest\<rparr>)" "batch_in buf cur"
    "length buf = 8000 * CHUNK_HASH_SIZE" "mset (cur @ rest) = mset (local_map st)" "cur = [] \<longrightarrow> rest = []"
proof -
  let ?n = "min Local_Batch (length (local_map st))"
  let ?r = "length (local_map st) - ?n"
  let ?cur = "rev (drop ?r (local_map st))"
  have ln: "length ?cur = ?n" by simp
  have "0 + length (le32 (word_of_nat ?n)) \<le> length (test_buf st)" using b by (simp add: CHUNK_HASH_SIZE_def)
  then obtain b1 where b1: "buf_write (test_buf st) 0 (le32 (word_of_nat ?n)) = Inr b1" "length b1 = 8000 * CHUNK_HASH_SIZE"
    using buf_write_ok b by metis
  have "4 + length ?cur * (2 * CHUNK_HASH_SIZE) \<le> 8000 * CHUNK_HASH_SIZE" unfolding ln by (simp add: CHUNK_HASH_SIZE_def Local_Batch_def)
  moreover have "\<forall>p \<in> set ?cur. length (fst p) = CHUNK_HASH_SIZE \<and> length (snd p) = CHUNK_HASH_SIZE" using l in_set_dropD by fastforce
  moreover have "distinct (map fst ?cur)"
  proof -
    have "distinct (map fst (drop ?r (local_map st)))" using d by (simp add: drop_map [symmetric])
    then show ?thesis by (simp add: rev_map [symmetric])
  qed
  ultimately obtain b2 where b2: "put_pairs ?cur 4 b1 = Inr b2" "length b2 = 8000 * CHUNK_HASH_SIZE" "take 4 b2 = take 4 b1"
    "\<forall>m. fst ` set m \<inter> fst ` set ?cur = {} \<longrightarrow> get_pairs (length ?cur) 4 b2 m = Inr (m @ ?cur)"
    using put_pairs_ok [OF b1(2)] by blast
  have "buf_read b2 0 4 = buf_read b1 0 4" by (rule buf_read_take [where n = 4]) (use b1(2) b2(2,3) in simp_all)
  then have "buf_read b2 0 4 = Inr (le32 (word_of_nat (length ?cur)))" using read_back [OF b1(1)] ln by simp
  then have "batch_in b2 ?cur" using b2(4) by (simp add: batch_in_def)
  moreover have "Ocall_GetLocal st = Inr (st\<lparr>test_buf := b2, local_map := take ?r (local_map st)\<rparr>)"
    using b1(1) b2(1) by (simp add: Ocall_GetLocal_def Let_def)
  moreover have "mset (?cur @ take ?r (local_map st)) = mset (local_map st)"
  proof -
    have "mset (local_map st) = mset (take ?r (local_map st) @ drop ?r (local_map st))" by (simp only: append_take_drop_id)
    then show ?thesis by (simp only: mset_append mset_rev union_commute)
  qed
  ultimately show thesis using b2(2) by (intro that [where buf = b2 and cur = ?cur and rest = "take ?r (local_map st)"])
    (simp_all add: Local_Batch_def)
qed

lemma work_known:
  assumes env: "env_ok env" and R: "repo_ok env orig cat' db colds" and w: "work_ok env cat db ps" "p \<in> set ps"
  shows "length (fst p) = CHUNK_HASH_SIZE \<and> length (snd p) = CHUNK_HASH_SIZE"
proof -
  obtain x y where xy: "index_base env db (fst p) x" "index_base env db (snd p) y" using w unfolding work_ok_def pending_def by blast
  have "length (fst p) = CHUNK_HASH_SIZE" by (rule index_base_known [OF env R xy(1)])
  moreover have "length (snd p) = CHUNK_HASH_SIZE" by (rule index_base_known [OF env R xy(2)])
  ultimately show ?thesis by simp
qed

lemma rebase_batches_ok:
  assumes env: "env_ok env" and order: "\<And>ps. mset (order ps) = mset ps"
  shows "mid env orig cat hs st \<Longrightarrow> of_times st + 100000 * (length cur + length (local_map st)) \<le> 36 ^ CONTAINER_ID_LENGTH \<Longrightarrow>
    delta_map st = Map.empty \<Longrightarrow> work_ok env cat (of_db st) (cur @ local_map st) \<Longrightarrow> chunk_sizes orig (dom (indexObj (of_db st))) \<Longrightarrow>
    batch_in (test_buf st) cur \<Longrightarrow> (cur = [] \<longrightarrow> local_map st = []) \<Longrightarrow> length cur + length (local_map st) < fuel \<Longrightarrow>
    \<exists>st' cat' hs'. rebase_batches fuel env gs order st = Inr st' \<and> mid env orig cat' hs' st' \<and> delta_map st' = Map.empty \<and>
      local_map st' = [] \<and> cold_container_vector st' = cold_container_vector st \<and> baseMergePair st' = baseMergePair st \<and>
      dom (indexObj (of_db st')) = dom (indexObj (of_db st)) \<and>
      of_times st' \<le> of_times st + 100000 * (length cur + length (local_map st)) \<and> widened cat cat'"
proof (induction fuel arbitrary: st cat hs cur)
  case (Suc fuel)
  note h = Suc.prems
  have small: "unat (word_of_nat (length cur) :: u32) = length cur" using h(6) by (simp add: batch_in_def Local_Batch_def unat_of_nat)
  have num: "buf_read (test_buf st) 0 4 = Inr (le32 (word_of_nat (length cur)))" "get_pairs (length cur) 4 (test_buf st) [] = Inr cur"
    using h(6) by (simp_all add: batch_in_def)
  show ?case
  proof (cases "cur = []")
    case True
    then have "rebase_batches (Suc fuel) env gs order st = Inr st" using num(1) by simp
    then show ?thesis using h(1,3,7) True by (intro exI [of _ st] exI [of _ cat] exI [of _ hs]) simp
  next
    case False
    have R: "repo_ok env orig (with_hot cat hs st) (of_db st) (colds_of st)" by (rule mid_repo [OF h(1)])
    have room: "length (test_buf st) = 8000 * CHUNK_HASH_SIZE" using h(1) by (simp add: mid_def room_ok_def)
    have di: "distinct (map fst (local_map st))" using h(4) by (simp add: work_ok_def)
    have kn: "\<forall>p \<in> set (local_map st). length (fst p) = CHUNK_HASH_SIZE \<and> length (snd p) = CHUNK_HASH_SIZE"
      using work_known [OF env R h(4)] by simp
    obtain buf cur' rest where g: "Ocall_GetLocal st = Inr (st\<lparr>test_buf := buf, local_map := rest\<rparr>)" "batch_in buf cur'"
      "length buf = 8000 * CHUNK_HASH_SIZE" "mset (cur' @ rest) = mset (local_map st)" "cur' = [] \<longrightarrow> rest = []"
      by (rule GetLocal_ok [OF room di kn])
    let ?st1 = "st\<lparr>test_buf := buf, local_map := rest\<rparr>"
    have len: "length cur' + length rest = length (local_map st)" using arg_cong [OF g(4), of size] by simp
    have r1: "room_ok ?st1" using h(1) g(3) by (simp add: mid_def room_ok_def pass_buffers_def codec_ok_def)
    have m1: "mid env orig cat hs ?st1" by (rule mid_cong [OF h(1)]) (use r1 in simp_all)
    have T1: "of_times ?st1 + 100000 * length (order cur) \<le> 36 ^ CONTAINER_ID_LENGTH"
      using h(2) arg_cong [OF order [of cur], of size] by simp
    have w1: "work_ok env cat (of_db ?st1) (order cur @ (cur' @ rest))"
      using work_ok_perm [OF _ h(4), of "order cur @ (cur' @ rest)"] order [of cur] g(4) by simp
    have d1: "delta_map ?st1 = Map.empty" "chunk_sizes orig (dom (indexObj (of_db ?st1)))" using h(3,5) by simp_all
    from rebase_pairs_ok [OF env m1 T1 d1(1) w1 d1(2)] obtain st2 cat2 hs2 where
      2: "for_each (rebase_base env gs) (order cur) ?st1 = Inr st2" "mid env orig cat2 hs2 st2" "frame ?st1 st2"
        "of_times st2 \<le> of_times ?st1 + 100000 * length (order cur)" "delta_map st2 = Map.empty" "work_ok env cat2 (of_db st2) (cur' @ rest)"
        "widened cat cat2" by blast
    have f2: "local_map st2 = rest" "test_buf st2 = buf" "dom (indexObj (of_db st2)) = dom (indexObj (of_db st))"
      "cold_container_vector st2 = cold_container_vector st" "baseMergePair st2 = baseMergePair st" using 2(3) by (simp_all add: frame_def)
    have lo: "length (order cur) = length cur" using arg_cong [OF order [of cur], of size] by simp
    have T2: "of_times st2 + 100000 * (length cur' + length (local_map st2)) \<le> 36 ^ CONTAINER_ID_LENGTH"
      using h(2) 2(4) lo f2(1) len by simp
    have w2: "work_ok env cat2 (of_db st2) (cur' @ local_map st2)" using 2(6) f2(1) by simp
    have z2: "chunk_sizes orig (dom (indexObj (of_db st2)))" "batch_in (test_buf st2) cur'" "cur' = [] \<longrightarrow> local_map st2 = []"
      "length cur' + length (local_map st2) < fuel" using h(5,8) f2 g(2,5) len False by (simp_all, cases cur, simp_all)
    from Suc.IH [OF 2(2) T2 2(5) w2 z2] obtain st' cat' hs' where
      3: "rebase_batches fuel env gs order st2 = Inr st'" "mid env orig cat' hs' st'" "delta_map st' = Map.empty" "local_map st' = []"
        "cold_container_vector st' = cold_container_vector st2" "baseMergePair st' = baseMergePair st2"
        "dom (indexObj (of_db st')) = dom (indexObj (of_db st2))"
        "of_times st' \<le> of_times st2 + 100000 * (length cur' + length (local_map st2))" "widened cat2 cat'" by blast
    have run: "rebase_batches (Suc fuel) env gs order st = Inr st'"
      using num small False g(1) 2(1) 3(1) by simp
    have "of_times st' \<le> of_times st + 100000 * (length cur + length (local_map st))" using 3(8) 2(4) lo f2(1) len by simp
    with run 3(2-7) f2(3-5) widened_trans [OF 2(7) 3(9)] show ?thesis by (intro exI [of _ st'] exI [of _ cat'] exI [of _ hs']) simp
  qed
qed simp

end
