(* ===== verification/Offline_Pass.thy ===== *)
theory Offline_Pass imports Offline_Pairs begin

text \<open>
  The containers with cold records are updated one by one, the whole pass is put together, and
  the server around it can restore after the pass what it could restore before.
\<close>

section \<open>The cold records of a container\<close>

lemma repo_ok_colds:
  assumes "repo_ok env orig cat db colds" "\<And>n. mset (colds' n) = mset (colds n)"
  shows "repo_ok env orig cat db colds'"
proof -
  have "distinct (colds' n) = distinct (colds n)" "set (colds' n) = set (colds n)" for n
    using mset_eq_imp_distinct_iff [OF assms(2)] mset_eq_setD [OF assms(2)] by auto
  then show ?thesis using assms(1) by (simp add: repo_ok_def)
qed

lemma content_records: "placed n off rs \<Longrightarrow> 288 * length rs \<le> length (content rs)"
proof (induction rs arbitrary: off)
  case (Cons s rs)
  then have "srec_ok n off s" "placed n (off + length (srec_bytes s)) rs" by simp_all
  then show ?case using Cons.IH srec_bytes_length [of n off s]
    by (fastforce simp: srec_size_def size_consts sizeof_RecipeEntry_def)
qed simp

lemma colds_known:
  assumes R: "repo_ok env orig cat db colds" and n: "colds n \<noteq> []"
  obtains flag rs where "cat (flag, n) = Some rs" "length n = CONTAINER_ID_LENGTH" "288 * length (colds n) \<le> MAX_CONTAINER_SIZE"
    "\<forall>e \<in> set (colds n). fst e < 2 ^ 32 \<and> snd e < 2 ^ 32"
proof -
  note C = repo_cat [OF R] and cs = repo_colds [OF R]
  obtain e where "e \<in> set (colds n)" using n by (cases "colds n") auto
  then obtain f s where s: "in_cat cat f s" "containerName (s_addr s) = n" using cs(2) by auto
  then obtain rs where rs: "cat (f, n) = Some rs" by (auto simp: in_cat_def)
  note p = cat_ok_rs [OF C rs]
  have sub: "set (colds n) \<subseteq> extent ` set rs"
  proof
    fix e assume "e \<in> set (colds n)"
    then obtain g t where t: "in_cat cat g t" "containerName (s_addr t) = n" "e = extent t" using cs(2) by auto
    have "t \<in> set rs" using t(1,2) rs p(4) by (cases g; cases f) (auto simp: in_cat_def)
    then show "e \<in> extent ` set rs" using t(3) by blast
  qed
  have "length (colds n) = card (set (colds n))" using cs(1) distinct_card by metis
  also have "\<dots> \<le> card (extent ` set rs)" by (rule card_mono [OF _ sub]) simp
  also have "\<dots> \<le> length rs" using card_image_le [of "set rs" extent] card_length [of rs] by simp
  finally have "288 * length (colds n) \<le> MAX_CONTAINER_SIZE" using content_records [OF p(1)] p(2) by simp
  moreover have "\<forall>e \<in> set (colds n). fst e < 2 ^ 32 \<and> snd e < 2 ^ 32"
    using extent_small [OF C in_cat_of(1) [OF C rs]] sub by auto
  ultimately show thesis using that [OF rs p(3)] by simp
qed

lemma put_regions_ok:
  "length buf = n \<Longrightarrow> off + length ps * 8 \<le> n \<Longrightarrow> \<forall>e \<in> set ps. fst e < 2 ^ 32 \<and> snd e < 2 ^ 32 \<Longrightarrow>
   \<exists>buf'. put_regions ps off buf = Inr (off + length ps * 8, buf') \<and> length buf' = n \<and> take off buf' = take off buf \<and>
     (\<forall>m. get_regions (length ps) off buf' m = Inr (off + length ps * 8, m @ ps))"
proof (induction ps arbitrary: off buf)
  case (Cons p ps)
  obtain a b where p: "p = (a, b)" by fastforce
  let ?a = "le32 (word_of_nat a)" and ?b = "le32 (word_of_nat b)"
  have "off + length ?a \<le> length buf" using Cons.prems(1,2) by simp
  then obtain b1 where b1: "buf_write buf off ?a = Inr b1" "length b1 = length buf" "take off b1 = take off buf" using buf_write_ok by blast
  have "off + 4 + length ?b \<le> length b1" using Cons.prems(1,2) b1(2) by simp
  then obtain b2 where b2: "buf_write b1 (off + 4) ?b = Inr b2" "length b2 = length b1" "take (off + 4) b2 = take (off + 4) b1"
    using buf_write_ok by blast
  have l2: "length b2 = n" "off + 8 + length ps * 8 \<le> n" "\<forall>e \<in> set ps. fst e < 2 ^ 32 \<and> snd e < 2 ^ 32"
    using Cons.prems b1(2) b2(2) by simp_all
  from Cons.IH [OF l2] obtain b3 where b3: "put_regions ps (off + 8) b2 = Inr (off + 8 + length ps * 8, b3)" "length b3 = n"
    "take (off + 8) b3 = take (off + 8) b2"
    "\<forall>m. get_regions (length ps) (off + 8) b3 m = Inr (off + 8 + length ps * 8, m @ ps)" by blast
  have r2: "buf_read b3 x y = buf_read b2 x y" if "x + y \<le> off + 8" for x y
    by (rule buf_read_take [OF _ b3(3) that]) (simp add: b3(2) l2(1))
  have r1: "buf_read b2 x y = buf_read b1 x y" if "x + y \<le> off + 4" for x y by (rule buf_read_take [OF b2(2,3) that])
  have ra: "buf_read b3 off 4 = Inr ?a" using r2 [of off 4] r1 [of off 4] read_back [OF b1(1)] by simp
  have rb: "buf_read b3 (off + 4) 4 = Inr ?b" using r2 [of "off + 4" 4] read_back [OF b2(1)] by simp
  have t: "take off b3 = take off buf"
  proof -
    have "take off b3 = take off (take (off + 8) b3)" by simp
    also have "\<dots> = take off (take (off + 4) b2)" unfolding b3(3) by simp
    also have "\<dots> = take off buf" unfolding b2(3) using b1(3) by simp
    finally show ?thesis .
  qed
  have w: "unat (word_of_nat a :: u32) = a" "unat (word_of_nat b :: u32) = b" using Cons.prems(3) p by (simp_all add: unat_of_nat)
  have "get_regions (length (p # ps)) off b3 m = Inr (off + length (p # ps) * 8, m @ p # ps)" for m
    using ra rb b3(4) w p by simp
  then show ?case using b1(1) b2(1) b3(1,2) t p by simp
qed simp

text \<open>What the buffer holds: no container, or one with its regions.\<close>

definition cold_in :: "byte list \<Rightarrow> (byte list \<times> (nat \<times> nat) list) list \<Rightarrow> bool" where
  "cold_in buf cur \<longleftrightarrow> buf_read buf 0 4 = Inr (le32 (word_of_nat (length cur))) \<and> length cur \<le> 1 \<and> get_colds (length cur) 4 buf [] = Inr cur"

lemma GetCold_none:
  assumes b: "length (out_buf st) = 4000 * CHUNK_HASH_SIZE" and v: "cold_container_vector st = []"
  obtains buf where "Ocall_GetCold st = Inr (st\<lparr>out_buf := buf\<rparr>)" "cold_in buf []" "length buf = 4000 * CHUNK_HASH_SIZE"
proof -
  have "0 + length (le32 (0 :: u32)) \<le> length (out_buf st)" using b by (simp add: CHUNK_HASH_SIZE_def)
  then obtain b1 where b1: "buf_write (out_buf st) 0 (le32 (0 :: u32)) = Inr b1" "length b1 = length (out_buf st)" using buf_write_ok by blast
  have "st\<lparr>out_buf := b1, cold_map := cold_map st, cold_container_vector := []\<rparr> = st\<lparr>out_buf := b1\<rparr>" using v by simp
  then have "Ocall_GetCold st = Inr (st\<lparr>out_buf := b1\<rparr>)" using b1(1) v by (simp add: Ocall_GetCold_def)
  moreover have "cold_in b1 []" using read_back [OF b1(1)] by (simp add: cold_in_def)
  ultimately show thesis using that b1(2) b by simp
qed

lemma GetCold_one:
  assumes b: "length (out_buf st) = 4000 * CHUNK_HASH_SIZE" and v: "cold_container_vector st = v @ [n]" and ps: "cold_map st n = Some ps"
    and n: "length n = CONTAINER_ID_LENGTH" "288 * length ps \<le> MAX_CONTAINER_SIZE" "ps \<noteq> []" "\<forall>e \<in> set ps. fst e < 2 ^ 32 \<and> snd e < 2 ^ 32"
  obtains buf where "Ocall_GetCold st = Inr (st\<lparr>out_buf := buf, cold_map := (cold_map st)(n := None), cold_container_vector := v\<rparr>)"
    "cold_in buf [(n, rev ps)]" "length buf = 4000 * CHUNK_HASH_SIZE"
proof -
  let ?N = "CONTAINER_ID_LENGTH" and ?one = "le32 (1 :: u32)" and ?num = "le32 (word_of_nat (length ps))"
  have N: "?N = 7" by (simp add: CONTAINER_ID_LENGTH_def)
  have B: "length (out_buf st) = 128000" using b by (simp add: CHUNK_HASH_SIZE_def)
  have L: "length ps \<le> 14563" using n(2) by (simp add: MAX_CONTAINER_SIZE_def)
  have "0 + length ?one \<le> length (out_buf st)" using B by simp
  then obtain b1 where b1: "buf_write (out_buf st) 0 ?one = Inr b1" "length b1 = length (out_buf st)" using buf_write_ok by blast
  have "4 + length n \<le> length b1" using b1(2) B n(1) N by simp
  then obtain b2 where b2: "buf_write b1 4 n = Inr b2" "length b2 = length b1" "take 4 b2 = take 4 b1" using buf_write_ok by blast
  have "4 + ?N + length ?num \<le> length b2" using b1(2) b2(2) B N by simp
  then obtain b3 where b3: "buf_write b2 (4 + ?N) ?num = Inr b3" "length b3 = length b2" "take (4 + ?N) b3 = take (4 + ?N) b2" using buf_write_ok by blast
  have l3: "length b3 = 128000" using b1(2) b2(2) b3(2) B by simp
  have "4 + ?N + 4 + length (rev ps) * 8 \<le> 128000" using L N by simp
  moreover have "\<forall>e \<in> set (rev ps). fst e < 2 ^ 32 \<and> snd e < 2 ^ 32" using n(4) by simp
  ultimately obtain b4 where b4: "put_regions (rev ps) (4 + ?N + 4) b3 = Inr (4 + ?N + 4 + length (rev ps) * 8, b4)" "length b4 = 128000"
    "take (4 + ?N + 4) b4 = take (4 + ?N + 4) b3"
    "\<forall>m. get_regions (length (rev ps)) (4 + ?N + 4) b4 m = Inr (4 + ?N + 4 + length (rev ps) * 8, m @ rev ps)"
    using put_regions_ok [OF l3] by blast
  have r3: "buf_read b4 x y = buf_read b3 x y" if "x + y \<le> 4 + ?N + 4" for x y
    by (rule buf_read_take [OF _ b4(3) that]) (simp add: b4(2) l3)
  have r2: "buf_read b3 x y = buf_read b2 x y" if "x + y \<le> 4 + ?N" for x y by (rule buf_read_take [OF b3(2,3) that])
  have r1: "buf_read b2 x y = buf_read b1 x y" if "x + y \<le> 4" for x y by (rule buf_read_take [OF b2(2,3) that])
  have rd: "buf_read b4 0 4 = Inr ?one" "buf_read b4 4 ?N = Inr n" "buf_read b4 (4 + ?N) 4 = Inr ?num"
    using r3 [of 0 4] r2 [of 0 4] r1 [of 0 4] read_back [OF b1(1)] r3 [of 4 ?N] r2 [of 4 ?N] read_back [OF b2(1)] n(1)
      r3 [of "4 + ?N" 4] read_back [OF b3(1)] by simp_all
  have w: "unat (word_of_nat (length ps) :: u32) = length ps" using L by (simp add: unat_of_nat)
  have g: "get_regions (length ps) (4 + ?N + 4) b4 [] = Inr (4 + ?N + 4 + length ps * 8, rev ps)" using b4(4) by simp
  have "get_colds 1 4 b4 [] = Inr [(n, rev ps)]" using rd(2,3) w g n(3) by simp
  then have "cold_in b4 [(n, rev ps)]" using rd(1) by (simp add: cold_in_def)
  moreover have "Ocall_GetCold st = Inr (st\<lparr>out_buf := b4, cold_map := (cold_map st)(n := None), cold_container_vector := v\<rparr>)"
    using v ps b1(1) b2(1) b3(1) b4(1) by (simp add: Ocall_GetCold_def Cold_Batch_def Let_def)
  ultimately show thesis using that b4(2) by (simp add: CHUNK_HASH_SIZE_def)
qed

section \<open>All containers with cold records\<close>

definition cold_view :: "(byte list \<times> (nat \<times> nat) list) list \<Rightarrow> offline \<Rightarrow> byte list \<Rightarrow> (nat \<times> nat) list" where
  "cold_view cur st n = (case map_of cur n of Some ps \<Rightarrow> ps | None \<Rightarrow> colds_of st n)"

definition cold_queue :: "(byte list \<times> (nat \<times> nat) list) list \<Rightarrow> offline \<Rightarrow> bool" where
  "cold_queue cur st \<longleftrightarrow> distinct (cold_container_vector st) \<and> set (cold_container_vector st) = dom (cold_map st) \<and>
     (\<forall>n. cold_map st n \<noteq> Some []) \<and> fst ` set cur \<inter> dom (cold_map st) = {} \<and> (\<forall>p \<in> set cur. snd p \<noteq> []) \<and>
     length (out_buf st) = 4000 * CHUNK_HASH_SIZE \<and> cold_in (out_buf st) cur \<and> (cur = [] \<longrightarrow> cold_container_vector st = [])"

lemma GetCold_queue:
  assumes R: "repo_ok env orig cat (of_db st) colds" "\<forall>n \<in> dom (cold_map st). colds n = colds_of st n" and v: "distinct (cold_container_vector st)"
    "set (cold_container_vector st) = dom (cold_map st)" "\<forall>n. cold_map st n \<noteq> Some []" and b: "length (out_buf st) = 4000 * CHUNK_HASH_SIZE"
  obtains buf m v' cur where "Ocall_GetCold st = Inr (st\<lparr>out_buf := buf, cold_map := m, cold_container_vector := v'\<rparr>)"
    "cold_queue cur (st\<lparr>out_buf := buf, cold_map := m, cold_container_vector := v'\<rparr>)"
    "\<forall>n. mset (cold_view cur (st\<lparr>out_buf := buf, cold_map := m, cold_container_vector := v'\<rparr>) n) = mset (colds_of st n)"
    "length cur + length v' = length (cold_container_vector st)"
proof (cases "cold_container_vector st" rule: rev_cases)
  case Nil
  obtain buf where g: "Ocall_GetCold st = Inr (st\<lparr>out_buf := buf\<rparr>)" "cold_in buf []" "length buf = 4000 * CHUNK_HASH_SIZE"
    by (rule GetCold_none [OF b Nil])
  have e: "st\<lparr>out_buf := buf, cold_map := cold_map st, cold_container_vector := []\<rparr> = st\<lparr>out_buf := buf\<rparr>" using Nil by simp
  show thesis
    by (rule that [where buf = buf and m = "cold_map st" and v' = "[]" and cur = "[]"])
      (use g v Nil in \<open>simp_all add: cold_queue_def cold_view_def colds_of_def\<close>)
next
  case (snoc v' n)
  then have "n \<in> dom (cold_map st)" using v(2) by auto
  then obtain ps where ps: "cold_map st n = Some ps" "ps \<noteq> []" using v(3) by auto
  have c: "colds_of st n = ps" using ps(1) by (simp add: colds_of_def)
  then have e: "colds n = ps" using R(2) ps(1) by auto
  then have c0: "colds n \<noteq> []" using ps(2) by simp
  obtain flag rs where k: "cat (flag, n) = Some rs" "length n = CONTAINER_ID_LENGTH" "288 * length (colds n) \<le> MAX_CONTAINER_SIZE"
    "\<forall>e \<in> set (colds n). fst e < 2 ^ 32 \<and> snd e < 2 ^ 32" by (rule colds_known [OF R(1) c0])
  obtain buf where g: "Ocall_GetCold st = Inr (st\<lparr>out_buf := buf, cold_map := (cold_map st)(n := None), cold_container_vector := v'\<rparr>)"
    "cold_in buf [(n, rev ps)]" "length buf = 4000 * CHUNK_HASH_SIZE" by (rule GetCold_one [OF b snoc ps(1) k(2) k(3) [unfolded e] ps(2) k(4) [unfolded e]])
  have "set v' = dom (cold_map st) - {n}" using v(1,2) snoc by auto
  then show thesis
    by (intro that [OF g(1), where cur = "[(n, rev ps)]"]) (use g(2,3) v snoc ps in \<open>auto simp: cold_queue_def cold_view_def colds_of_def\<close>)
qed

section \<open>All containers with cold records\<close>

text \<open>What the rest of the pass leaves alone.\<close>

definition cold_frame :: "offline \<Rightarrow> offline \<Rightarrow> bool" where
  "cold_frame st st' \<longleftrightarrow> local_map st' = local_map st \<and> delta_map st' = delta_map st \<and> of_times st' = of_times st \<and>
     cold_container_set st' = cold_container_set st \<and> baseMergePair st' = baseMergePair st"

lemma cold_frame_refl [simp]: "cold_frame st st"
  by (simp add: cold_frame_def)

lemma cold_frame_trans: "cold_frame a b \<Longrightarrow> cold_frame b c \<Longrightarrow> cold_frame a c"
  by (simp add: cold_frame_def)

lemma mset_single: "mset xs = {#x#} \<Longrightarrow> xs = [x]"
  by simp

lemma cold_batches_ok:
  assumes env: "env_ok env" and order: "\<And>x. mset (order x) = mset x"
  shows "repo_ok env orig cat (of_db st) (cold_view cur st) \<Longrightarrow> of_files st = disk_of cat \<Longrightarrow> pass_buffers st \<Longrightarrow> cold_queue cur st \<Longrightarrow>
    length cur + length (cold_container_vector st) < fuel \<Longrightarrow>
    \<exists>st' cat'. cold_batches fuel env order st = Inr st' \<and> repo_ok env orig cat' (of_db st') (\<lambda>_. []) \<and> of_files st' = disk_of cat' \<and>
      pass_buffers st' \<and> dom cat' = dom cat \<and> dom (indexObj (of_db st')) = dom (indexObj (of_db st)) \<and> cold_frame st st' \<and>
      cold_container_vector st' = [] \<and> cold_map st' = Map.empty"
proof (induction fuel arbitrary: st cat cur)
  case (Suc fuel)
  note h = Suc.prems
  have q: "distinct (cold_container_vector st)" "set (cold_container_vector st) = dom (cold_map st)" "\<forall>n. cold_map st n \<noteq> Some []"
    "fst ` set cur \<inter> dom (cold_map st) = {}" "\<forall>p \<in> set cur. snd p \<noteq> []" "length (out_buf st) = 4000 * CHUNK_HASH_SIZE" "cold_in (out_buf st) cur"
    "cur = [] \<longrightarrow> cold_container_vector st = []" using h(4) unfolding cold_queue_def by blast+
  have num: "buf_read (out_buf st) 0 4 = Inr (le32 (word_of_nat (length cur)))" "get_colds (length cur) 4 (out_buf st) [] = Inr cur" "length cur \<le> 1"
    using q(7) by (simp_all add: cold_in_def)
  show ?case
  proof (cases cur)
    case Nil
    then have v: "cold_container_vector st = []" "cold_map st = Map.empty" using q(2,8) by auto
    have "cold_view cur st = (\<lambda>_. [])" using Nil v(2) by (intro ext) (simp add: cold_view_def colds_of_def)
    then have "repo_ok env orig cat (of_db st) (\<lambda>_. [])" using h(1) by simp
    moreover have "cold_batches (Suc fuel) env order st = Inr st" using num(1) Nil by simp
    ultimately show ?thesis using h(2,3) v by (intro exI [of _ st] exI [of _ cat]) simp
  next
    case (Cons p cs)
    obtain n ps where c: "cur = [(n, ps)]" using Cons num(3) by (cases p) auto
    have view: "\<forall>x \<in> dom (cold_map st). cold_view cur st x = colds_of st x"
    proof
      fix x assume "x \<in> dom (cold_map st)"
      then have "x \<notin> fst ` set cur" using q(4) by blast
      then have "map_of cur x = None" by (simp add: map_of_eq_None_iff)
      then show "cold_view cur st x = colds_of st x" by (simp add: cold_view_def)
    qed
    obtain buf m v' cur1 where g: "Ocall_GetCold st = Inr (st\<lparr>out_buf := buf, cold_map := m, cold_container_vector := v'\<rparr>)"
      "cold_queue cur1 (st\<lparr>out_buf := buf, cold_map := m, cold_container_vector := v'\<rparr>)"
      "\<forall>x. mset (cold_view cur1 (st\<lparr>out_buf := buf, cold_map := m, cold_container_vector := v'\<rparr>) x) = mset (colds_of st x)"
      "length cur1 + length v' = length (cold_container_vector st)"
      by (rule GetCold_queue [OF h(1) view q(1,2,3,6)])
    let ?st1 = "st\<lparr>out_buf := buf, cold_map := m, cold_container_vector := v'\<rparr>"
    have vn: "cold_view cur st n = ps" "ps \<noteq> []" using c q(5) by (simp_all add: cold_view_def)
    then have vn0: "cold_view cur st n \<noteq> []" by simp
    obtain flag rs where fl: "cat (flag, n) = Some rs" by (rule colds_known [OF h(1) vn0])
    have R1: "repo_ok env orig cat (of_db ?st1) (cold_view cur st)" "of_files ?st1 = disk_of cat" "pass_buffers ?st1" "mset ps = mset (cold_view cur st n)"
      using h(1-3) vn(1) by (simp_all add: pass_buffers_def)
    obtain st2 cat2 where u: "Update_cold_container env (n, ps) ?st1 = Inr st2" "pass_buffers st2" "cold_step ?st1 st2"
      "of_files st2 = disk_of cat2" "repo_ok env orig cat2 (of_db st2) ((cold_view cur st)(n := []))" "dom cat2 = dom cat"
      "dom (indexObj (of_db st2)) = dom (indexObj (of_db ?st1))" "baseMergePair st2 = baseMergePair ?st1"
      by (rule Update_cold_container_repo [OF env R1(1-3) fl R1(4)])
    have k2: "out_buf st2 = buf" "cold_map st2 = m" "cold_container_vector st2 = v'" "cold_frame st st2"
      using u(3,8) unfolding cold_step_def cold_frame_def by auto
    have q2: "cold_queue cur1 st2" using g(2) k2(1-3) by (simp add: cold_queue_def)
    have cv: "cold_view cur1 st2 = cold_view cur1 ?st1" by (intro ext) (simp add: cold_view_def colds_of_def k2(2) split: option.split)
    have ms: "mset (cold_view cur1 st2 x) = mset (((cold_view cur st)(n := [])) x)" for x
    proof (cases "x = n")
      case True
      have "n \<notin> dom (cold_map st)" using q(4) c by auto
      then have "colds_of st n = []" by (auto simp: colds_of_def split: option.split)
      then show ?thesis using True g(3) cv by simp
    next
      case False
      then have "cold_view cur st x = colds_of st x" using c by (simp add: cold_view_def)
      then show ?thesis using False g(3) cv by simp
    qed
    have R2: "repo_ok env orig cat2 (of_db st2) (cold_view cur1 st2)" by (rule repo_ok_colds [OF u(5) ms])
    have f2: "length cur1 + length (cold_container_vector st2) < fuel" using h(5) g(4) k2(3) c by simp
    from Suc.IH [OF R2 u(4,2) q2 f2] obtain st' cat' where
      3: "cold_batches fuel env order st2 = Inr st'" "repo_ok env orig cat' (of_db st') (\<lambda>_. [])" "of_files st' = disk_of cat'"
        "pass_buffers st'" "dom cat' = dom cat2" "dom (indexObj (of_db st')) = dom (indexObj (of_db st2))" "cold_frame st2 st'"
        "cold_container_vector st' = []" "cold_map st' = Map.empty" by blast
    have o: "order [(n, ps)] = [(n, ps)]" using order [of "[(n, ps)]"] by (intro mset_single) simp
    have "cold_batches (Suc fuel) env order st = cold_batches fuel env order st2"
      using num g(1) u(1) o c by simp
    then show ?thesis using 3 u(6,7) cold_frame_trans [OF k2(4) 3(7)] by (intro exI [of _ st'] exI [of _ cat']) simp
  qed
qed simp

section \<open>The pass\<close>

text \<open>Outside a pass: everything is on disk and nothing is left to do but the pairs.\<close>

definition resting :: "offline \<Rightarrow> bool" where
  "resting st \<longleftrightarrow> delta_map st = Map.empty \<and> cold_map st = Map.empty \<and> cold_container_set st = [] \<and> cold_container_vector st = [] \<and>
     baseMergePair st = []"

definition listing_ok :: "(bool \<times> byte list \<Rightarrow> byte list option) \<Rightarrow> ((bool \<times> byte list \<Rightarrow> byte list option) \<Rightarrow> byte list list) \<Rightarrow> bool" where
  "listing_ok files listing \<longleftrightarrow>
     (\<forall>files'. (\<forall>n. files' (False, n) \<noteq> None \<longrightarrow> files (False, n) \<noteq> None) \<longrightarrow> set (listing files') = {n. files' (False, n) \<noteq> None})"

definition orders_ok :: "(bool \<times> byte list \<Rightarrow> byte list option) \<Rightarrow> offline_env \<Rightarrow> bool" where
  "orders_ok files oenv \<longleftrightarrow> (\<forall>ps. mset (order_pairs oenv ps) = mset ps) \<and> (\<forall>cs. mset (order_colds oenv cs) = mset cs) \<and>
     listing_ok files (dir_listing oenv)"

lemma repo_saved:
  assumes m: "mid env orig cat hs st"
  obtains st' cat' where "(if currentSize (hot_container st) \<noteq> 0 then Ocall_SavehotContainer st else Inr st) = Inr st'"
    "repo_ok env orig cat' (of_db st') (colds_of st')" "of_files st' = disk_of cat'" "widened cat cat'"
    "st' = st\<lparr>of_files := of_files st'\<rparr>"
proof (cases "currentSize (hot_container st) = 0")
  case True
  have h: "hot_ok (hot_container st) hs" and R: "repo_ok env orig (with_hot cat hs st) (of_db st) (colds_of st)"
    and f: "of_files st = disk_of cat" and n: "cat (True, containerID (hot_container st)) = None" using m by (simp_all add: mid_def)
  have "hs = []" using h True content_records [of "containerID (hot_container st)" 0 hs] by (simp add: hot_ok_def)
  then have "repo_ok env orig cat (of_db st) (colds_of st)" using R by (intro repo_drop_empty [where n = "containerID (hot_container st)" and cat = cat] n) simp
  with True f show thesis by (intro that [of st cat]) simp_all
next
  case False
  let ?c = "hot_container st"
  have h: "hot_ok ?c hs" and R: "repo_ok env orig (with_hot cat hs st) (of_db st) (colds_of st)"
    and f: "of_files st = disk_of cat" and n: "cat (True, containerID ?c) = None" using m by (simp_all add: mid_def)
  let ?st = "st\<lparr>of_files := (of_files st)((True, containerID ?c) \<mapsto> content hs)\<rparr>"
  have "buf_read (ct_body ?c) 0 (currentSize ?c) = Inr (take (currentSize ?c) (ct_body ?c))" using h by (simp add: buf_read_def hot_ok_def bslice_def)
  moreover have "take (currentSize ?c) (ct_body ?c) = content hs" using h unfolding hot_ok_def by blast
  ultimately have run: "Ocall_SavehotContainer st = Inr ?st" by (simp add: Ocall_SavehotContainer_def)
  have "of_files ?st = disk_of (with_hot cat hs st)" by (auto simp: f disk_of_def)
  moreover have "widened cat (with_hot cat hs st)" using n by (auto simp: widened_def map_le_def)
  moreover have "colds_of ?st = colds_of st" by (intro ext) (simp add: colds_of_def)
  ultimately show thesis using False run R by (intro that [of ?st "with_hot cat hs st"]) simp_all
qed

lemma Easy_update_ok:
  assumes env: "env_ok env" and ords: "orders_ok (of_files st) oenv" and m: "mid env orig cat hs st"
    and T: "of_times st + 100000 * length (local_map st) \<le> 36 ^ CONTAINER_ID_LENGTH"
    and rest: "resting st" and w: "work_ok env cat (of_db st) (local_map st)" and sz: "chunk_sizes orig (dom (indexObj (of_db st)))"
  obtains st' cat' where "Easy_update env oenv st = Inr st'" "of_files st' = disk_of cat'" "repo_ok env orig cat' (of_db st') (\<lambda>_. [])"
    "dom (indexObj (of_db st')) = dom (indexObj (of_db st))" "resting st'" "local_map st' = []"
proof -
  have o1: "mset (order_pairs oenv ps) = mset ps" for ps using ords by (simp add: orders_ok_def)
  have o2: "mset (order_colds oenv cs) = mset cs" for cs using ords by (simp add: orders_ok_def)
  have R: "repo_ok env orig (with_hot cat hs st) (of_db st) (colds_of st)" by (rule mid_repo [OF m])
  have room: "length (test_buf st) = 8000 * CHUNK_HASH_SIZE" using m by (simp add: mid_def room_ok_def)
  have di: "distinct (map fst (local_map st))" using w by (simp add: work_ok_def)
  have kn: "\<forall>p \<in> set (local_map st). length (fst p) = CHUNK_HASH_SIZE \<and> length (snd p) = CHUNK_HASH_SIZE"
    using work_known [OF env R w] by simp
  obtain buf cur rst where g: "Ocall_GetLocal st = Inr (st\<lparr>test_buf := buf, local_map := rst\<rparr>)" "batch_in buf cur"
    "length buf = 8000 * CHUNK_HASH_SIZE" "mset (cur @ rst) = mset (local_map st)" "cur = [] \<longrightarrow> rst = []"
    by (rule GetLocal_ok [OF room di kn])
  let ?st1 = "st\<lparr>test_buf := buf, local_map := rst\<rparr>" and ?gs = "GREEDY_THRESHOLD * unat (offlineCurrBackup_size st)"
  have len: "length cur + length rst = length (local_map st)" using arg_cong [OF g(4), of size] by simp
  have r1: "room_ok ?st1" using m g(3) by (simp add: mid_def room_ok_def pass_buffers_def codec_ok_def)
  have m1: "mid env orig cat hs ?st1" by (rule mid_cong [OF m]) (use r1 in simp_all)
  have T1: "of_times ?st1 + 100000 * (length cur + length (local_map ?st1)) \<le> 36 ^ CONTAINER_ID_LENGTH" using T len by simp
  have d1: "delta_map ?st1 = Map.empty" "chunk_sizes orig (dom (indexObj (of_db ?st1)))" "batch_in (test_buf ?st1) cur" "cur = [] \<longrightarrow> local_map ?st1 = []"
    "length cur + length (local_map ?st1) < Suc (length (local_map st))" using rest sz g(2,5) len by (simp_all add: resting_def)
  have w1: "work_ok env cat (of_db ?st1) (cur @ local_map ?st1)" using work_ok_perm [OF _ w] g(4) by simp
  from rebase_batches_ok [OF env o1 m1 T1 d1(1) w1 d1(2-5)] obtain st2 cat2 hs2 where
    2: "rebase_batches (Suc (length (local_map st))) env ?gs (order_pairs oenv) ?st1 = Inr st2" "mid env orig cat2 hs2 st2"
      "delta_map st2 = Map.empty" "local_map st2 = []" "cold_container_vector st2 = cold_container_vector ?st1"
      "baseMergePair st2 = baseMergePair ?st1" "dom (indexObj (of_db st2)) = dom (indexObj (of_db ?st1))" "widened cat cat2" by blast
  have rst2: "cold_container_vector st2 = []" "baseMergePair st2 = []" using 2(5,6) rest by (simp_all add: resting_def)
  obtain st3 cat3 where 3: "(if currentSize (hot_container st2) \<noteq> 0 then Ocall_SavehotContainer st2 else Inr st2) = Inr st3"
    "repo_ok env orig cat3 (of_db st3) (colds_of st3)" "of_files st3 = disk_of cat3" "widened cat2 cat3"
    "st3 = st2\<lparr>of_files := of_files st3\<rparr>" by (rule repo_saved [OF 2(2)])
  let ?st4 = "Ocall_Coldrevise st3"
  have co: "colds_ok st2" "room_ok st2" using 2(2) by (simp_all add: mid_def)
  have s3: "cold_map st3 = cold_map st2" "cold_container_set st3 = cold_container_set st2" "cold_container_vector st3 = []"
    "out_buf st3 = out_buf st2" "pass_buffers st3" "local_map st3 = []" "baseMergePair st3 = []" "of_db st3 = of_db st2"
    by (subst 3(5); use co 2(4) rst2 in \<open>simp add: room_ok_def pass_buffers_def\<close>)+
  have s4: "cold_container_vector ?st4 = cold_container_set st2" "cold_map ?st4 = cold_map st2" "of_db ?st4 = of_db st3" "of_files ?st4 = disk_of cat3"
    "pass_buffers ?st4" "length (out_buf ?st4) = 4000 * CHUNK_HASH_SIZE" "cold_container_set ?st4 = []" "baseMergePair ?st4 = []" "local_map ?st4 = []"
    using s3 3(3) co(2) by (simp_all add: Ocall_Coldrevise_def pass_buffers_def room_ok_def)
  have c4: "colds_of ?st4 = colds_of st3" by (intro ext) (simp add: colds_of_def Ocall_Coldrevise_def)
  have R4: "repo_ok env orig cat3 (of_db ?st4) (colds_of ?st4)" using 3(2) c4 s4(3) by simp
  have v4: "distinct (cold_container_vector ?st4)" "set (cold_container_vector ?st4) = dom (cold_map ?st4)" "\<forall>n. cold_map ?st4 n \<noteq> Some []"
    using co(1) s4(1,2) by (simp_all add: colds_ok_def)
  have v4': "\<forall>n \<in> dom (cold_map ?st4). colds_of ?st4 n = colds_of ?st4 n" by simp
  obtain b5 m5 v5 cur5 where g5: "Ocall_GetCold ?st4 = Inr (?st4\<lparr>out_buf := b5, cold_map := m5, cold_container_vector := v5\<rparr>)"
    "cold_queue cur5 (?st4\<lparr>out_buf := b5, cold_map := m5, cold_container_vector := v5\<rparr>)"
    "\<forall>n. mset (cold_view cur5 (?st4\<lparr>out_buf := b5, cold_map := m5, cold_container_vector := v5\<rparr>) n) = mset (colds_of ?st4 n)"
    "length cur5 + length v5 = length (cold_container_vector ?st4)"
    by (rule GetCold_queue [OF R4 v4' v4 s4(6)])
  let ?st5 = "?st4\<lparr>out_buf := b5, cold_map := m5, cold_container_vector := v5\<rparr>"
  have R5: "repo_ok env orig cat3 (of_db ?st5) (cold_view cur5 ?st5)" using repo_ok_colds [OF R4] g5(3) by simp
  have f5: "of_files ?st5 = disk_of cat3" "pass_buffers ?st5" "length cur5 + length (cold_container_vector ?st5) < Suc (length (cold_container_vector ?st4))"
    using s4 g5(4) by (simp_all add: pass_buffers_def)
  from cold_batches_ok [OF env o2 R5 f5(1,2) g5(2) f5(3)] obtain st6 cat6 where
    6: "cold_batches (Suc (length (cold_container_vector ?st4))) env (order_colds oenv) ?st5 = Inr st6"
      "repo_ok env orig cat6 (of_db st6) (\<lambda>_. [])" "of_files st6 = disk_of cat6" "pass_buffers st6" "dom cat6 = dom cat3"
      "dom (indexObj (of_db st6)) = dom (indexObj (of_db ?st5))" "cold_frame ?st5 st6" "cold_container_vector st6 = []" "cold_map st6 = Map.empty" by blast
  have base: "cat (False, n) \<noteq> None" if "cat6 (False, n) \<noteq> None" for n
  proof -
    have "cat3 (False, n) \<noteq> None" using that 6(5) by (metis domIff)
    then show ?thesis using widened_trans [OF 2(8) 3(4)] by (simp add: widened_def)
  qed
  have files: "of_files st = disk_of cat" using m by (simp add: mid_def)
  have "set (dir_listing oenv (disk_of cat6)) = {n. disk_of cat6 (False, n) \<noteq> None}"
    using ords base unfolding orders_ok_def listing_ok_def files by (simp add: disk_of_def)
  then have li: "lists_base cat6 (dir_listing oenv (disk_of cat6))" by (simp add: lists_base_def disk_of_def)
  have bp: "baseMergePair st6 = []" using 6(7) s4(8) by (simp add: cold_frame_def)
  obtain st7 cat7 where 7: "MergeContainer env (dir_listing oenv) st6 = Inr st7" "cold_step st6 st7" "of_files st7 = disk_of cat7"
    "repo_ok env orig cat7 (of_db st7) (\<lambda>_. [])" "baseMergePair st7 = []" "dom (indexObj (of_db st7)) = dom (indexObj (of_db st6))"
    by (rule MergeContainer_ok [where listing = "dir_listing oenv", OF env 6(2,3,4) li bp])
  have k7: "cold_map st7 = Map.empty" "cold_container_set st7 = []" "cold_container_vector st7 = []" "local_map st7 = []"
    using 7(2) 6(7,8,9) s4(7,9) unfolding cold_step_def cold_frame_def by auto
  have run: "Easy_update env oenv st = Inr (st7\<lparr>delta_map := Map.empty\<rparr>)"
    using g(1) 2(1) 3(1) g5(1) 6(1) 7(1) by (simp add: Easy_update_def Let_def)
  have dm: "dom (indexObj (of_db st7)) = dom (indexObj (of_db st))" using 7(6) 6(6) s4(3) s3(8) 2(7) by simp
  show thesis by (rule that [OF run]) (use 7(3,4,5) k7 dm in \<open>simp_all add: resting_def\<close>)
qed

section \<open>The pass starts\<close>

lemma Init_hot_mid:
  assumes R: "repo_ok env orig cat (of_db st) (\<lambda>_. [])" and f: "of_files st = disk_of cat" and n: "names_ok cat (of_times st)"
    and T: "of_times st < 36 ^ CONTAINER_ID_LENGTH" and b: "length (ct_body (hot_container st)) = MAX_CONTAINER_SIZE" and room: "room_ok st"
    and rest: "resting st"
  obtains name where "Init_hot (st\<lparr>offlineCurrBackup_size := z\<rparr>) =
      Inr (st\<lparr>offlineCurrBackup_size := z, of_times := Suc (of_times st), hot_container := (hot_container st)\<lparr>containerID := name, currentSize := 0\<rparr>\<rparr>)"
    "mid env orig cat [] (st\<lparr>offlineCurrBackup_size := z, of_times := Suc (of_times st),
       hot_container := (hot_container st)\<lparr>containerID := name, currentSize := 0\<rparr>\<rparr>)"
proof -
  obtain name where name: "CreateUUID CONTAINER_ID_LENGTH (of_times st) = Inr name"
    using CreateUUID_Inr [of CONTAINER_ID_LENGTH] T by (auto simp: size_consts)
  let ?st = "st\<lparr>offlineCurrBackup_size := z, of_times := Suc (of_times st), hot_container := (hot_container st)\<lparr>containerID := name, currentSize := 0\<rparr>\<rparr>"
  have ln: "length name = CONTAINER_ID_LENGTH" using CreateUUID_length [OF name] .
  have fresh: "cat (x, name) = None" for x by (rule names_fresh [OF n name])
  have "colds_of ?st = (\<lambda>_. [])" using rest by (intro ext) (simp add: colds_of_def resting_def)
  then have "repo_ok env orig (with_hot cat [] ?st) (of_db ?st) (colds_of ?st)" using repo_empty [OF R fresh fresh ln] by simp
  moreover have "hot_ok (hot_container ?st) []" using b ln by (simp add: hot_ok_def MAX_CONTAINER_SIZE_def)
  moreover have "names_ok (with_hot cat [] ?st) (of_times ?st)"
    unfolding names_ok_def
  proof
    fix k assume "k \<in> dom (with_hot cat [] ?st)"
    then have "k = (True, name) \<or> k \<in> dom cat" by auto
    then show "\<exists>t < of_times ?st. CreateUUID CONTAINER_ID_LENGTH t = Inr (snd k)"
    proof
      assume "k = (True, name)"
      then show ?thesis using name by (intro exI [of _ "of_times st"]) simp
    next
      assume "k \<in> dom cat"
      then show ?thesis using n unfolding names_ok_def by (auto intro: less_SucI)
    qed
  qed
  moreover have "room_ok ?st" using room by (simp add: room_ok_def pass_buffers_def codec_ok_def)
  moreover have "colds_ok ?st" using rest by (simp add: colds_ok_def resting_def)
  ultimately have "mid env orig cat [] ?st" using f fresh by (simp add: mid_def)
  then show thesis using name by (intro that [of name]) (simp_all add: Init_hot_def)
qed

lemma ProcessOffline_ok:
  assumes env: "env_ok env" and ords: "orders_ok (of_files st) oenv" and R: "repo_ok env orig cat (of_db st) (\<lambda>_. [])"
    and f: "of_files st = disk_of cat" and n: "names_ok cat (of_times st)"
    and T: "of_times st + 100000 * length (local_map st) < 36 ^ CONTAINER_ID_LENGTH"
    and b: "length (ct_body (hot_container st)) = MAX_CONTAINER_SIZE" "room_ok st" and rest: "resting st"
    and w: "work_ok env cat (of_db st) (local_map st)" and sz: "chunk_sizes orig (dom (indexObj (of_db st)))"
  obtains st' cat' where "ProcessOffline env oenv flag z st = Inr st'" "of_files st' = disk_of cat'" "repo_ok env orig cat' (of_db st') (\<lambda>_. [])"
    "dom (indexObj (of_db st')) = dom (indexObj (of_db st))" "resting st'" "local_map st' = []"
proof -
  have T0: "of_times st < 36 ^ CONTAINER_ID_LENGTH" using T by simp
  obtain name where i: "Init_hot (st\<lparr>offlineCurrBackup_size := z\<rparr>) =
      Inr (st\<lparr>offlineCurrBackup_size := z, of_times := Suc (of_times st), hot_container := (hot_container st)\<lparr>containerID := name, currentSize := 0\<rparr>\<rparr>)"
    "mid env orig cat [] (st\<lparr>offlineCurrBackup_size := z, of_times := Suc (of_times st),
       hot_container := (hot_container st)\<lparr>containerID := name, currentSize := 0\<rparr>\<rparr>)" by (rule Init_hot_mid [OF R f n T0 b rest])
  let ?st = "st\<lparr>offlineCurrBackup_size := z, of_times := Suc (of_times st), hot_container := (hot_container st)\<lparr>containerID := name, currentSize := 0\<rparr>\<rparr>"
  show thesis
  proof (cases flag)
    case False
    have "ProcessOffline env oenv flag z st = Inr (?st\<lparr>local_map := []\<rparr>)" using i(1) False by (simp add: ProcessOffline_def)
    then show thesis by (rule that) (use R f rest in \<open>simp_all add: resting_def\<close>)
  next
    case True
    have "orders_ok (of_files ?st) oenv" "of_times ?st + 100000 * length (local_map ?st) \<le> 36 ^ CONTAINER_ID_LENGTH" "resting ?st"
      "work_ok env cat (of_db ?st) (local_map ?st)" "chunk_sizes orig (dom (indexObj (of_db ?st)))"
      using ords T rest w sz by (simp_all add: resting_def)
    from Easy_update_ok [OF env this(1) i(2) this(2-5)] obtain st' cat' where
      "Easy_update env oenv ?st = Inr st'" "of_files st' = disk_of cat'" "repo_ok env orig cat' (of_db st') (\<lambda>_. [])"
      "dom (indexObj (of_db st')) = dom (indexObj (of_db ?st))" "resting st'" "local_map st' = []" by blast
    then show thesis using i(1) True by (intro that [of st' cat']) (simp_all add: ProcessOffline_def)
  qed
qed

section \<open>What the repository holds can be restored\<close>

lemma record_plain:
  assumes C: "cat_ok cat" and s: "in_cat cat f s"
    and d: "DecryptionWithKeyIV (env_ssl env) cryptoObj (s_data s) (enclaveKey env) (s_iv s) = Inr d" "length d \<le> MAX_CHUNK_SIZE"
  shows "plain (env\<lparr>env_files := disk_of cat, env_db := db\<rparr>) (s_addr s) d"
proof -
  let ?r = "s_addr s" and ?n = "containerName (s_addr s)"
  obtain rs where rs: "cat (f, ?n) = Some rs" "s \<in> set rs" using s by (auto simp: in_cat_def)
  note p = cat_ok_rs [OF C rs(1)]
  have cf: "container_file (disk_of cat) ?n = Some (content rs)" using rs(1) p(4) by (cases f) (simp_all add: container_file_def disk_of_def)
  obtain us vs where uv: "rs = us @ s # vs" using split_list [OF rs(2)] by blast
  have ok: "srec_ok ?n (length (content us)) s" using p(1) uv by (simp add: placed_append)
  have l: "unat (re_length ?r) = length (s_data s)" "unat (re_offset ?r) = length (content us)" "recipe_wf ?r"
    "length (s_fp s) = CHUNK_HASH_SIZE" "length (s_sf s) = 3 * CHUNK_HASH_SIZE" "length (s_iv s) = CRYPTO_BLOCK_SIZE"
    using ok by (simp_all add: srec_ok_def)
  let ?a = "content us @ recipe_bytes ?r @ s_fp s @ s_sf s"
  have split: "content rs = ?a @ s_data s @ s_iv s @ content vs" by (simp add: uv srec_bytes_def)
  have la: "chunk_pos (unat (re_offset ?r)) = length ?a" using l by (simp add: chunk_pos_def)
  have "buf_read (content rs) (chunk_pos (unat (re_offset ?r))) (unat (re_length ?r)) = Inr (s_data s)"
    unfolding split la by (rule buf_read_mid) (simp_all add: l)
  moreover have "buf_read (content rs) (chunk_pos (unat (re_offset ?r)) + unat (re_length ?r)) CRYPTO_BLOCK_SIZE = Inr (s_iv s)"
    using buf_read_mid [of CRYPTO_BLOCK_SIZE "s_iv s" "length (?a @ s_data s)" "?a @ s_data s" "content vs"] l(1,6) unfolding la split by (simp add: add.assoc)
  ultimately show ?thesis using cf p(2) d by (simp add: plain_def decrypt_at_def)
qed

lemma repo_restorable:
  assumes env: "env_ok env" and R: "repo_ok env orig cat db colds" and fp: "length fp = CHUNK_HASH_SIZE"
    and k: "IndexAESCMCEnc (env_ssl env) cryptoObj fp (indexQueryKey env) = Inr k" "k \<in> dom (indexObj db)"
  shows "restorable (env\<lparr>env_files := disk_of cat, env_db := db\<rparr>) fp (orig k)"
proof -
  let ?env = "env\<lparr>env_files := disk_of cat, env_db := db\<rparr>"
  note C = repo_cat [OF R]
  have un: "unpacked ?env d = unpacked env d" for d by (simp add: unpacked_def)
  have addr: "address_of ?env x r" if "indexObj db x = Some v" "enc_addr env r v" for x v r
  proof -
    have "decrypt_recipe ?env v = Inr r" using enc_addr_dec(3) [OF env that(2)] by (simp add: decrypt_recipe_def)
    moreover have "length x = CHUNK_HASH_SIZE" by (rule repo_index [OF R that(1)])
    ultimately show ?thesis using that(1) enc_addr_dec(1) [OF env that(2)] by (simp add: address_of_def Query_def)
  qed
  obtain v where v: "indexObj db k = Some v" using k(2) by blast
  obtain f s where s: "in_cat cat f s" "s_fp s = k" "enc_addr env (s_addr s) v" "keeps env db orig f s" "length (orig k) \<le> MAX_CHUNK_SIZE"
    by (rule repo_index [OF R v])
  obtain d where d: "DecryptionWithKeyIV (env_ssl env) cryptoObj (s_data s) (enclaveKey env) (s_iv s) = Inr d" "length d \<le> MAX_CHUNK_SIZE"
    using s(4) by (auto simp: keeps_def)
  have pd: "plain ?env (s_addr s) d" by (rule record_plain [OF C s(1) d])
  have "restores ?env (s_addr s) (orig k)"
  proof (cases f)
    case False
    then have "re_deltaFlag (s_addr s) \<noteq> DELTA" "unpacked env d = orig k" using s(2,4) d(1) by (auto simp: keeps_def delta_defs)
    then show ?thesis using pd s(5) by (auto simp: restores_def un)
  next
    case True
    then obtain b where b: "re_deltaFlag (s_addr s) = DELTA" "index_base env db (basechunkHash (s_addr s)) b"
      "ed3_decode d (orig (basechunkHash (s_addr s))) = Inr (orig k)" using s(2,4) d(1) by (auto simp: keeps_def)
    obtain w where w: "indexObj db (basechunkHash (s_addr s)) = Some w" "enc_addr env b w" using b(2) by (auto simp: index_base_def)
    obtain g t where t: "in_cat cat g t" "s_fp t = basechunkHash (s_addr s)" "enc_addr env (s_addr t) w" "keeps env db orig g t"
      by (rule repo_index [OF R w(1)])
    have tb: "s_addr t = b" by (rule enc_addr_inject [OF env t(3) w(2)])
    then have "\<not> g" using t(4) b(2) by (auto simp: keeps_def index_base_def delta_defs)
    then obtain e where e: "DecryptionWithKeyIV (env_ssl env) cryptoObj (s_data t) (enclaveKey env) (s_iv t) = Inr e" "length e \<le> MAX_CHUNK_SIZE"
      "unpacked env e = orig (basechunkHash (s_addr s))" using t(2,4) by (auto simp: keeps_def)
    have "plain ?env b e" using record_plain [OF C t(1) e(1,2)] tb by simp
    moreover have "ed3_decode d (unpacked ?env e) = Inr (orig k)" using b(3) e(3) un by simp
    ultimately show ?thesis unfolding restores_def using pd b(1) addr [OF w] s(5) by auto
  qed
  then show ?thesis unfolding restorable_def using fp k(1) addr [OF v s(3)] by auto
qed

section \<open>The server around the pass\<close>

definition pass_ready :: "restore_env \<Rightarrow> (byte list \<Rightarrow> byte list) \<Rightarrow> offline_env \<Rightarrow> catalog \<Rightarrow> offline \<Rightarrow> bool" where
  "pass_ready env orig oenv cat st \<longleftrightarrow> orders_ok (of_files st) oenv \<and> repo_ok env orig cat (of_db st) (\<lambda>_. []) \<and> of_files st = disk_of cat \<and>
     names_ok cat (of_times st) \<and> of_times st + 100000 * length (local_map st) < 36 ^ CONTAINER_ID_LENGTH \<and>
     length (ct_body (hot_container st)) = MAX_CONTAINER_SIZE \<and> room_ok st \<and> resting st \<and> work_ok env cat (of_db st) (local_map st) \<and>
     chunk_sizes orig (dom (indexObj (of_db st)))"

lemma restorable_unique:
  assumes "restorable env fp c" "restorable env fp c'"
  shows "c = c'"
proof -
  have addr: "r = r'" if "address_of env k r" "address_of env k r'" for k r r' using that unfolding address_of_def by auto
  have pl: "d = d'" if "plain env r d" "plain env r d'" for r d d' using that unfolding plain_def by auto
  obtain k r where k: "IndexAESCMCEnc (env_ssl env) cryptoObj fp (indexQueryKey env) = Inr k" "address_of env k r" "restores env r c"
    using assms(1) unfolding restorable_def by blast
  obtain r' where k': "address_of env k r'" "restores env r' c'" using assms(2) k(1) unfolding restorable_def by auto
  have r: "restores env r c'" using k'(2) addr [OF k(2) k'(1)] by simp
  obtain d where d: "plain env r d" using k(3) unfolding restores_def by blast
  show ?thesis
  proof (cases "re_deltaFlag r = DELTA")
    case False
    then show ?thesis using k(3) r pl unfolding restores_def by metis
  next
    case True
    obtain b e where 1: "address_of env (basechunkHash r) b" "plain env b e" "ed3_decode d (unpacked env e) = Inr c"
      using k(3) True pl [OF _ d] unfolding restores_def by metis
    obtain b' e' where 2: "address_of env (basechunkHash r) b'" "plain env b' e'" "ed3_decode d (unpacked env e') = Inr c'"
      using r True pl [OF _ d] unfolding restores_def by metis
    have "e = e'" using pl [OF 1(2)] 2(2) addr [OF 1(1) 2(1)] by simp
    then show ?thesis using 1(3) 2(3) by simp
  qed
qed

lemma repo_restores:
  assumes env: "env_ok env" and R: "repo_ok env orig cat db colds"
  shows "restorable (env\<lparr>env_files := disk_of cat, env_db := db\<rparr>) fp c \<longleftrightarrow> length fp = CHUNK_HASH_SIZE \<and>
    (\<exists>k \<in> dom (indexObj db). IndexAESCMCEnc (env_ssl env) cryptoObj fp (indexQueryKey env) = Inr k \<and> c = orig k)"
    (is "?lhs \<longleftrightarrow> ?rhs")
proof
  assume l: ?lhs
  then obtain k r where k: "IndexAESCMCEnc (env_ssl env) cryptoObj fp (indexQueryKey env) = Inr k" "address_of (env\<lparr>env_files := disk_of cat, env_db := db\<rparr>) k r"
    "length fp = CHUNK_HASH_SIZE" unfolding restorable_def by auto
  have d: "k \<in> dom (indexObj db)" using k(2) by (auto simp: address_of_def Query_def)
  have "c = orig k" by (rule restorable_unique [OF l repo_restorable [OF env R k(3,1) d]])
  then show ?rhs using k(1,3) d by blast
qed (use repo_restorable [OF env R] in blast)

lemma enter_leave:
  assumes "enter_offline srv st = Inr st1"
  shows "of_db st1 = index_db srv" "of_files st1 = disk (up_store (srv_up srv))"
    "\<exists>srv'. leave_offline st' srv = Inr srv' \<and> index_db srv' = of_db st' \<and> disk (up_store (srv_up srv')) = of_files st'"
proof -
  obtain q where q: "entry_at (outQueryBase srv) 0 = Inr q" using assms by (cases "entry_at (outQueryBase srv) 0") (simp_all add: enter_offline_def)
  show "of_db st1 = index_db srv" "of_files st1 = disk (up_store (srv_up srv))"
    using assms q by (auto simp: enter_offline_def Let_def)
  show "\<exists>srv'. leave_offline st' srv = Inr srv' \<and> index_db srv' = of_db st' \<and> disk (up_store (srv_up srv')) = of_files st'"
    using q by (simp add: leave_offline_def put_out_def)
qed

lemma ProcessOff_restores_all:
  assumes env: "env_ok env" and e: "enter_offline srv st = Inr st1"
    and r: "pass_ready env orig oenv cat (Ocall_Localrevise pairs (order_names oenv) st1)"
  obtains srv' st' where "ProcessOff env oenv flag pairs (srv, st) = Inr (srv', st')" "resting st'" "local_map st' = []"
    "\<forall>fp c. restorable (restore_side env srv') fp c \<longleftrightarrow> restorable (restore_side env srv) fp c"
proof -
  let ?st = "Ocall_Localrevise pairs (order_names oenv) st1"
  have i: "indexObj (of_db ?st) = indexObj (index_db srv)" "of_files ?st = disk (up_store (srv_up srv))"
    using enter_leave(1,2) [OF e] by (simp_all add: Ocall_Localrevise_def Let_def)
  have p: "orders_ok (of_files ?st) oenv" "repo_ok env orig cat (of_db ?st) (\<lambda>_. [])" "of_files ?st = disk_of cat" "names_ok cat (of_times ?st)"
    "of_times ?st + 100000 * length (local_map ?st) < 36 ^ CONTAINER_ID_LENGTH"
    "length (ct_body (hot_container ?st)) = MAX_CONTAINER_SIZE" "room_ok ?st" "resting ?st" "work_ok env cat (of_db ?st) (local_map ?st)"
    "chunk_sizes orig (dom (indexObj (of_db ?st)))" using r unfolding pass_ready_def by blast+
  obtain st' cat' where o: "ProcessOffline env oenv flag (word_of_nat (onlineBackupSize (srv_up srv))) ?st = Inr st'" "of_files st' = disk_of cat'"
    "repo_ok env orig cat' (of_db st') (\<lambda>_. [])" "dom (indexObj (of_db st')) = dom (indexObj (of_db ?st))" "resting st'" "local_map st' = []"
    by (rule ProcessOffline_ok [OF env p])
  obtain srv' where s: "leave_offline st' srv = Inr srv'" "index_db srv' = of_db st'" "disk (up_store (srv_up srv')) = of_files st'"
    using enter_leave(3) [OF e] by blast
  have run: "ProcessOff env oenv flag pairs (srv, st) = Inr (srv', st')" using e o(1) s(1) by (simp add: ProcessOff_def Let_def)
  have side: "restore_side env srv = env\<lparr>env_files := disk_of cat, env_db := index_db srv\<rparr>"
    "restore_side env srv' = env\<lparr>env_files := disk_of cat', env_db := of_db st'\<rparr>" using i(2) p(3) s(2,3) o(2) by (simp_all add: restore_side_def)
  have R: "repo_ok env orig cat (index_db srv) (\<lambda>_. [])" using index_only(1) [OF i(1)] p(2) by simp
  have "\<forall>fp c. restorable (restore_side env srv') fp c \<longleftrightarrow> restorable (restore_side env srv) fp c"
    unfolding side repo_restores [OF env R] repo_restores [OF env o(3)] o(4) i(1) by simp
  with run o(5,6) show thesis by (rule that)
qed

end
