(* ===== verification/Offline_Props.thy ===== *)
theory Offline_Props imports Offline_Pass begin

text \<open>
  The properties of the offline pass, with a sample repository for their witnesses.
\<close>

section \<open>A sample repository\<close>

text \<open>
  For the witnesses: a container with two base chunks, a container with a delta over the first one,
  and the index that leads to them; the pass is to make the first base a delta over the second.
\<close>

definition sample_srec :: "byte list \<Rightarrow> nat \<Rightarrow> byte \<Rightarrow> byte list \<Rightarrow> byte list \<Rightarrow> byte list \<Rightarrow> srec" where
  "sample_srec name off flag base k data =
     \<lparr>s_addr = \<lparr>containerName = name, re_deltaFlag = flag, re_offset = word_of_nat off, re_length = word_of_nat (length data),
        basechunkHash = base, superfeature = replicate 96 0\<rparr>,
      s_fp = k, s_sf = replicate 96 0, s_data = map ((+) 9) data, s_iv = replicate 16 0\<rparr>"

definition sample_old :: "byte list \<Rightarrow> srec" where
  "sample_old n = sample_srec n 0 NO_DELTA (replicate 32 0) (sample_key 1) [7, 8]"

definition sample_new :: "byte list \<Rightarrow> srec" where
  "sample_new n = sample_srec n 290 NO_DELTA (replicate 32 0) (sample_key 3) [7, 9]"

definition sample_dlt :: "byte list \<Rightarrow> srec" where
  "sample_dlt n = sample_srec n 0 DELTA (sample_key 1) (sample_key 2) sample_delta"

lemmas sample_defs = sample_old_def sample_new_def sample_dlt_def sample_srec_def

definition sample_cat :: "byte list \<Rightarrow> byte list \<Rightarrow> catalog" where
  "sample_cat a b = [(False, a) \<mapsto> [sample_old a, sample_new a], (True, b) \<mapsto> [sample_dlt b]]"

definition sample_db :: "byte list \<Rightarrow> byte list \<Rightarrow> InMemoryDatabase" where
  "sample_db a b = empty_db\<lparr>indexObj := [sample_key 1 \<mapsto> sample_value (s_addr (sample_old a)),
       sample_key 3 \<mapsto> sample_value (s_addr (sample_new a)), sample_key 2 \<mapsto> sample_value (s_addr (sample_dlt b))],
     delta_index := [sample_key 1 \<mapsto> [sample_key 2]]\<rparr>"

definition sample_orig :: "byte list \<Rightarrow> byte list" where
  "sample_orig k = (if k = sample_key 2 then [1, 2, 3] else if k = sample_key 1 then [7, 8] else [7, 9])"

definition sample_names :: "byte list \<Rightarrow> byte list \<Rightarrow> bool" where
  "sample_names a b \<longleftrightarrow> CreateUUID CONTAINER_ID_LENGTH 0 = Inr a \<and> CreateUUID CONTAINER_ID_LENGTH 1 = Inr b"

lemma sample_names_ok:
  assumes "sample_names a b"
  shows "length a = 7" "length b = 7" "a \<noteq> b" "a = b \<longleftrightarrow> False" "b = a \<longleftrightarrow> False"
proof -
  have n: "CreateUUID CONTAINER_ID_LENGTH 0 = Inr a" "CreateUUID CONTAINER_ID_LENGTH 1 = Inr b" using assms by (simp_all add: sample_names_def)
  show "length a = 7" "length b = 7" using CreateUUID_length [OF n(1)] CreateUUID_length [OF n(2)] by (simp_all add: CONTAINER_ID_LENGTH_def)
  have "a \<noteq> b"
  proof
    assume "a = b"
    then have "(0 :: nat) = 1" by (intro CreateUUID_inj [OF _ n(1)]) (use n(2) in \<open>simp_all add: CONTAINER_ID_LENGTH_def\<close>)
    then show False by simp
  qed
  then show "a \<noteq> b" "a = b \<longleftrightarrow> False" "b = a \<longleftrightarrow> False" by auto
qed

lemma sample_names_exist: obtains a b where "sample_names a b"
proof -
  have z: "0 < CONTAINER_ID_LENGTH" "(0 :: nat) < 36 ^ CONTAINER_ID_LENGTH" "(1 :: nat) < 36 ^ CONTAINER_ID_LENGTH"
    by (simp_all add: CONTAINER_ID_LENGTH_def)
  obtain a b where "CreateUUID CONTAINER_ID_LENGTH 0 = Inr a" "CreateUUID CONTAINER_ID_LENGTH 1 = Inr b"
    using CreateUUID_Inr [OF z(1)] z(2,3) by blast
  then show thesis using that by (simp add: sample_names_def)
qed

lemma sample_key_eq: "sample_key x = sample_key y \<longleftrightarrow> x = y"
  by (simp add: sample_key_def)

lemma sample_rec_wf:
  assumes "sample_names a b"
  shows "recipe_wf (s_addr (sample_old a))" "recipe_wf (s_addr (sample_new a))" "recipe_wf (s_addr (sample_dlt b))"
  using sample_names_ok(1,2) [OF assms] by (simp_all add: sample_defs recipe_wf_def size_consts sample_key_def)

lemma sample_enc: "recipe_wf r \<Longrightarrow> enc_addr sample_env r (sample_value r)"
  by (simp add: enc_addr_def sample_env_def AESCBCEnc_def run_cipher_def sample_ssl_def sample_value_def)

lemma sample_recs_ok:
  assumes "sample_names a b"
  shows "srec_ok a 0 (sample_old a)" "srec_ok a 290 (sample_new a)" "srec_ok b 0 (sample_dlt b)"
    "length (srec_bytes (sample_old a)) = 290" "length (srec_bytes (sample_new a)) = 290" "length (srec_bytes (sample_dlt b)) = 295"
  using sample_rec_wf [OF assms] sample_names_ok(1,2) [OF assms]
  by (simp_all add: srec_ok_def srec_bytes_def sample_defs size_consts sample_key_def sample_delta_def sizeof_RecipeEntry_def)

lemma sample_cat_ok:
  assumes "sample_names a b"
  shows "cat_ok (sample_cat a b)"
  unfolding cat_ok_def using sample_recs_ok [OF assms] sample_names_ok [OF assms]
  by (auto simp: sample_cat_def size_consts content_def split: if_splits)

lemma sample_in_cat:
  assumes "sample_names a b"
  shows "in_cat (sample_cat a b) f s \<longleftrightarrow> \<not> f \<and> (s = sample_old a \<or> s = sample_new a) \<or> f \<and> s = sample_dlt b"
  using sample_names_ok [OF assms] by (auto simp: in_cat_def sample_cat_def sample_defs split: if_splits)

lemma sample_live:
  assumes "sample_names a b" "in_cat (sample_cat a b) f s"
  shows "live sample_env (sample_db a b) s"
proof -
  have "s = sample_old a \<or> s = sample_new a \<or> s = sample_dlt b" using assms(2) sample_in_cat [OF assms(1)] by blast
  moreover have "live sample_env (sample_db a b) (sample_old a)" "live sample_env (sample_db a b) (sample_new a)" "live sample_env (sample_db a b) (sample_dlt b)"
    using sample_enc sample_rec_wf [OF assms(1)] by (simp_all add: live_def sample_db_def sample_key_eq, simp_all add: sample_defs sample_key_eq)
  ultimately show ?thesis by blast
qed

lemma sample_decrypt: "DecryptionWithKeyIV (env_ssl sample_env) cryptoObj (map ((+) 9) d) (enclaveKey sample_env) iv = Inr d"
  by (simp add: DecryptionWithKeyIV_def run_cipher_def sample_env_def sample_ssl_def comp_def)

lemma sample_unpacked: "unpacked sample_env d = d"
  by (simp add: unpacked_def sample_env_def sample_lz4_def)

lemma sample_base:
  assumes "sample_names a b"
  shows "index_base sample_env (sample_db a b) (sample_key 1) (s_addr (sample_old a))"
    "index_base sample_env (sample_db a b) (sample_key 3) (s_addr (sample_new a))"
  using sample_enc sample_rec_wf [OF assms]
  by (simp_all add: index_base_def sample_db_def sample_key_eq) (simp_all add: sample_defs)

lemma sample_keeps:
  assumes "sample_names a b" "in_cat (sample_cat a b) f s"
  shows "keeps sample_env (sample_db a b) sample_orig f s"
proof -
  consider "\<not> f" "s = sample_old a" | "\<not> f" "s = sample_new a" | "f" "s = sample_dlt b" using assms(2) sample_in_cat [OF assms(1)] by blast
  then show ?thesis
  proof cases
    case 1
    then show ?thesis using sample_decrypt [of "[7, 8]"]
      by (simp add: keeps_def sample_defs sample_unpacked sample_orig_def sample_key_eq MAX_CHUNK_SIZE_def)
  next
    case 2
    then show ?thesis using sample_decrypt [of "[7, 9]"]
      by (simp add: keeps_def sample_defs sample_unpacked sample_orig_def sample_key_eq MAX_CHUNK_SIZE_def)
  next
    case 3
    have "ed3_decode sample_delta (sample_orig (sample_key 1)) = Inr (sample_orig (sample_key 2))"
      using sample_decode by (simp add: sample_orig_def sample_key_eq)
    then show ?thesis using 3 sample_decrypt [of sample_delta] sample_base(1) [OF assms(1)]
      by (auto simp: keeps_def sample_dlt_def sample_srec_def MAX_CHUNK_SIZE_def sample_delta_def)
  qed
qed

lemma sample_repo:
  assumes "sample_names a b"
  shows "repo_ok sample_env sample_orig (sample_cat a b) (sample_db a b) (\<lambda>_. [])"
proof -
  have ix: "\<exists>f s. in_cat (sample_cat a b) f s \<and> s_fp s = k \<and> enc_addr sample_env (s_addr s) v" "length k = CHUNK_HASH_SIZE"
    if i: "indexObj (sample_db a b) k = Some v" for k v
  proof -
    consider "k = sample_key 1" "v = sample_value (s_addr (sample_old a))" | "k = sample_key 3" "v = sample_value (s_addr (sample_new a))"
      | "k = sample_key 2" "v = sample_value (s_addr (sample_dlt b))" using i by (auto simp: sample_db_def split: if_splits)
    then show "\<exists>f s. in_cat (sample_cat a b) f s \<and> s_fp s = k \<and> enc_addr sample_env (s_addr s) v"
    proof cases
      case 1
      then show ?thesis using sample_in_cat [OF assms, of False "sample_old a"] sample_enc [OF sample_rec_wf(1) [OF assms]]
        by (intro exI [of _ False] exI [of _ "sample_old a"]) (simp add: sample_defs)
    next
      case 2
      then show ?thesis using sample_in_cat [OF assms, of False "sample_new a"] sample_enc [OF sample_rec_wf(2) [OF assms]]
        by (intro exI [of _ False] exI [of _ "sample_new a"]) (simp add: sample_defs)
    next
      case 3
      then show ?thesis using sample_in_cat [OF assms, of True "sample_dlt b"] sample_enc [OF sample_rec_wf(3) [OF assms]]
        by (intro exI [of _ True] exI [of _ "sample_dlt b"]) (simp add: sample_defs)
    qed
    show "length k = CHUNK_HASH_SIZE" using i by (auto simp: sample_db_def sample_key_def CHUNK_HASH_SIZE_def split: if_splits)
  qed
  have "length (sample_orig k) \<le> MAX_CHUNK_SIZE" for k by (simp add: sample_orig_def MAX_CHUNK_SIZE_def)
  then show ?thesis unfolding repo_ok_def using sample_cat_ok [OF assms] ix sample_keeps [OF assms] sample_live [OF assms] by fastforce
qed

lemma InitOffline_ready: "room_ok InitOffline" "resting InitOffline" "codec_ok InitOffline" "pass_buffers InitOffline"
  "length (ct_body (hot_container InitOffline)) = MAX_CONTAINER_SIZE" "local_map InitOffline = []"
  by (simp_all add: room_ok_def pass_buffers_def codec_ok_def resting_def InitOffline_def htable_init_ok)

section \<open>Two more sample repositories\<close>

text \<open>One where the first container has a record that the index no longer points to, and one with two small containers.\<close>

definition cold_db :: "byte list \<Rightarrow> InMemoryDatabase" where
  "cold_db a = empty_db\<lparr>indexObj := [sample_key 3 \<mapsto> sample_value (s_addr (sample_new a))]\<rparr>"

definition cold_cat :: "byte list \<Rightarrow> catalog" where
  "cold_cat a = [(False, a) \<mapsto> [sample_old a, sample_new a]]"

definition cold_regions_of :: "byte list \<Rightarrow> byte list \<Rightarrow> (nat \<times> nat) list" where
  "cold_regions_of a n = (if n = a then [(0, 290)] else [])"

lemma cold_repo_ok:
  assumes "sample_names a b"
  shows "repo_ok sample_env sample_orig (cold_cat a) (cold_db a) (cold_regions_of a)"
proof -
  have C: "cat_ok (cold_cat a)" unfolding cat_ok_def using sample_recs_ok [OF assms] sample_names_ok [OF assms]
    by (auto simp: cold_cat_def size_consts content_def split: if_splits)
  have mem: "in_cat (cold_cat a) f s \<longleftrightarrow> \<not> f \<and> (s = sample_old a \<or> s = sample_new a)" for f s
    by (auto simp: in_cat_def cold_cat_def sample_defs split: if_splits)
  have e: "enc_addr sample_env (s_addr (sample_new a)) (sample_value (s_addr (sample_new a)))" by (rule sample_enc [OF sample_rec_wf(2) [OF assms]])
  have fp: "s_fp (sample_old a) = sample_key 1" "s_fp (sample_new a) = sample_key 3" "containerName (s_addr (sample_old a)) = a"
    "containerName (s_addr (sample_new a)) = a" by (simp_all add: sample_defs)
  have lv: "live sample_env (cold_db a) (sample_new a)" "\<not> live sample_env (cold_db a) (sample_old a)"
    using e fp by (simp_all add: live_def cold_db_def sample_key_eq)
  have k: "keeps sample_env (cold_db a) sample_orig False (sample_new a)" using sample_decrypt [of "[7, 9]"]
    by (simp add: keeps_def sample_defs sample_unpacked sample_orig_def sample_key_eq MAX_CHUNK_SIZE_def)
  have ix: "length k = CHUNK_HASH_SIZE \<and> length (sample_orig k) \<le> MAX_CHUNK_SIZE \<and>
      (\<exists>f s. in_cat (cold_cat a) f s \<and> s_fp s = k \<and> enc_addr sample_env (s_addr s) v \<and> keeps sample_env (cold_db a) sample_orig f s)"
    if "indexObj (cold_db a) k = Some v" for k v
  proof -
    have "k = sample_key 3" "v = sample_value (s_addr (sample_new a))" using that by (auto simp: cold_db_def split: if_splits)
    then show ?thesis using mem [of False "sample_new a"] fp(2) e k
      by (intro conjI exI [of _ False] exI [of _ "sample_new a"]) (simp_all add: sample_key_def CHUNK_HASH_SIZE_def sample_orig_def MAX_CHUNK_SIZE_def)
  qed
  have ex: "extent (sample_old a) = (0, 290)" using sample_recs_ok(4) [OF assms] by (simp add: extent_def) (simp add: sample_defs)
  have dead: "{s. \<exists>f. in_cat (cold_cat a) f s \<and> containerName (s_addr s) = n \<and> \<not> live sample_env (cold_db a) s} =
      (if n = a then {sample_old a} else {})" for n
  proof -
    have "(\<exists>f. in_cat (cold_cat a) f s \<and> containerName (s_addr s) = n \<and> \<not> live sample_env (cold_db a) s) \<longleftrightarrow> n = a \<and> s = sample_old a" for s
      unfolding mem using lv fp by (metis (full_types))
    then show ?thesis by auto
  qed
  have "distinct (cold_regions_of a n) \<and> set (cold_regions_of a n) =
      extent ` {s. \<exists>f. in_cat (cold_cat a) f s \<and> containerName (s_addr s) = n \<and> \<not> live sample_env (cold_db a) s}" for n
    unfolding dead using ex by (simp add: cold_regions_of_def)
  then show ?thesis unfolding repo_ok_def using C ix by blast
qed

definition sample_alone :: "byte list \<Rightarrow> srec" where
  "sample_alone n = sample_srec n 0 NO_DELTA (replicate 32 0) (sample_key 3) [7, 9]"

definition pair_cat :: "byte list \<Rightarrow> byte list \<Rightarrow> catalog" where
  "pair_cat a b = [(False, a) \<mapsto> [sample_old a], (False, b) \<mapsto> [sample_alone b]]"

definition pair_db :: "byte list \<Rightarrow> byte list \<Rightarrow> InMemoryDatabase" where
  "pair_db a b = empty_db\<lparr>indexObj := [sample_key 1 \<mapsto> sample_value (s_addr (sample_old a)), sample_key 3 \<mapsto> sample_value (s_addr (sample_alone b))]\<rparr>"

lemma pair_repo_ok:
  assumes "sample_names a b"
  shows "repo_ok sample_env sample_orig (pair_cat a b) (pair_db a b) (\<lambda>_. [])"
proof -
  note n = sample_names_ok [OF assms]
  have w: "recipe_wf (s_addr (sample_alone b))" using n(2) by (simp add: sample_alone_def sample_srec_def recipe_wf_def size_consts)
  have so: "srec_ok b 0 (sample_alone b)" "length (srec_bytes (sample_alone b)) = 290"
    using w n(2) by (simp_all add: srec_ok_def srec_bytes_def sample_alone_def sample_srec_def size_consts sample_key_def sizeof_RecipeEntry_def)
  have C: "cat_ok (pair_cat a b)" unfolding cat_ok_def using sample_recs_ok [OF assms] so n
    by (auto simp: pair_cat_def size_consts content_def split: if_splits)
  have fp: "s_fp (sample_old a) = sample_key 1" "s_fp (sample_alone b) = sample_key 3" "containerName (s_addr (sample_old a)) = a"
    "containerName (s_addr (sample_alone b)) = b" by (simp_all add: sample_defs sample_alone_def)
  have mem: "in_cat (pair_cat a b) f s \<longleftrightarrow> \<not> f \<and> (s = sample_old a \<or> s = sample_alone b)" for f s
    using fp n by (auto simp: in_cat_def pair_cat_def split: if_splits)
  have e: "enc_addr sample_env (s_addr (sample_old a)) (sample_value (s_addr (sample_old a)))"
    "enc_addr sample_env (s_addr (sample_alone b)) (sample_value (s_addr (sample_alone b)))"
    using sample_enc sample_rec_wf(1) [OF assms] w by blast+
  have lv: "live sample_env (pair_db a b) (sample_old a)" "live sample_env (pair_db a b) (sample_alone b)"
    using e fp by (simp_all add: live_def pair_db_def sample_key_eq)
  have k: "keeps sample_env (pair_db a b) sample_orig False (sample_old a)" "keeps sample_env (pair_db a b) sample_orig False (sample_alone b)"
    using sample_decrypt [of "[7, 8]"] sample_decrypt [of "[7, 9]"]
    by (simp_all add: keeps_def sample_defs sample_alone_def sample_unpacked sample_orig_def sample_key_eq MAX_CHUNK_SIZE_def)
  have ix: "length k = CHUNK_HASH_SIZE \<and> length (sample_orig k) \<le> MAX_CHUNK_SIZE \<and>
      (\<exists>f s. in_cat (pair_cat a b) f s \<and> s_fp s = k \<and> enc_addr sample_env (s_addr s) v \<and> keeps sample_env (pair_db a b) sample_orig f s)"
    if i: "indexObj (pair_db a b) k = Some v" for k v
  proof -
    have "\<exists>s. (s = sample_old a \<or> s = sample_alone b) \<and> s_fp s = k \<and> v = sample_value (s_addr s)"
      using i fp by (auto simp: pair_db_def split: if_splits)
    then obtain s where "s = sample_old a \<or> s = sample_alone b" "s_fp s = k" "v = sample_value (s_addr s)" by blast
    then have "in_cat (pair_cat a b) False s \<and> s_fp s = k \<and> enc_addr sample_env (s_addr s) v \<and> keeps sample_env (pair_db a b) sample_orig False s"
      using mem e k by auto
    moreover have "length k = CHUNK_HASH_SIZE" using i by (auto simp: pair_db_def sample_key_def CHUNK_HASH_SIZE_def split: if_splits)
    ultimately show ?thesis by (intro conjI exI [of _ False] exI [of _ s]) (simp_all add: sample_orig_def MAX_CHUNK_SIZE_def)
  qed
  have "{s. \<exists>f. in_cat (pair_cat a b) f s \<and> containerName (s_addr s) = x \<and> \<not> live sample_env (pair_db a b) s} = {}" for x
    using mem lv by auto
  then show ?thesis unfolding repo_ok_def using C ix by simp
qed

section \<open>Properties\<close>


definition sample_oenv :: "byte list \<Rightarrow> offline_env" where
  "sample_oenv a = \<lparr>order_names = \<lambda>x. x, order_pairs = \<lambda>x. x, order_colds = \<lambda>x. x,
     dir_listing = \<lambda>files. filter (\<lambda>n. files (False, n) \<noteq> None) [a]\<rparr>"

lemma sample_orders:
  assumes "\<And>n. disk_of cat (False, n) \<noteq> None \<Longrightarrow> n = a"
  shows "orders_ok (disk_of cat) (sample_oenv a)"
proof -
  have "set (filter (\<lambda>n. files (False, n) \<noteq> None) [a]) = {n. files (False, n) \<noteq> None}"
    if "\<forall>n. files (False, n) \<noteq> None \<longrightarrow> disk_of cat (False, n) \<noteq> None" for files :: "bool \<times> byte list \<Rightarrow> byte list option"
    using that assms by force
  then show ?thesis unfolding orders_ok_def listing_ok_def sample_oenv_def by simp
qed

lemma sample_work:
  assumes "sample_names a b" "indexObj db = indexObj (sample_db a b)" "delta_index db = delta_index (sample_db a b)"
  shows "work_ok sample_env (sample_cat a b) db [(sample_key 1, sample_key 3)]"
proof -
  have i: "deltas sample_env db = deltas sample_env (sample_db a b)" "index_base sample_env db = index_base sample_env (sample_db a b)"
    "live sample_env db = live sample_env (sample_db a b)" using index_only(2-4) [OF assms(2)] by simp_all
  note e = enc_addr_inject [OF sample_env_ok]
  note w = sample_rec_wf [OF assms(1)]
  have d: "deltas sample_env (sample_db a b) (sample_key 1) = {sample_key 2}"
  proof -
    have "k = sample_key 2" if k: "indexObj (sample_db a b) k = Some v" "enc_addr sample_env r v" "re_deltaFlag r = DELTA" for k v r
    proof (rule ccontr)
      assume "k \<noteq> sample_key 2"
      then consider "v = sample_value (s_addr (sample_old a))" | "v = sample_value (s_addr (sample_new a))"
        using k(1) by (auto simp: sample_db_def split: if_splits)
      then have "r = s_addr (sample_old a) \<or> r = s_addr (sample_new a)" using e [OF k(2)] sample_enc w(1,2) by metis
      then show False using k(3) by (auto simp: sample_defs delta_defs)
    qed
    moreover have "indexObj (sample_db a b) (sample_key 2) = Some (sample_value (s_addr (sample_dlt b)))" by (simp add: sample_db_def)
    moreover have "re_deltaFlag (s_addr (sample_dlt b)) = DELTA" "basechunkHash (s_addr (sample_dlt b)) = sample_key 1" by (simp_all add: sample_defs)
    ultimately show ?thesis unfolding deltas_def using sample_enc [OF w(3)] by blast
  qed
  have s: "in_cat (sample_cat a b) True (sample_dlt b)" using sample_in_cat [OF assms(1)] by simp
  have "shelved sample_env (sample_cat a b) (sample_db a b) (sample_key 2)"
    unfolding shelved_def using s sample_live [OF assms(1) s] by (intro exI [of _ "sample_dlt b"]) (simp add: sample_defs)
  moreover have "noted db (sample_key 1) = [sample_key 2]" using assms(3) by (simp add: noted_def sample_db_def)
  ultimately show ?thesis using sample_base [OF assms(1)] d
    by (auto simp: work_ok_def pending_def i shelved_def sample_key_eq)
qed

lemma sample_names_cat:
  assumes "sample_names a b"
  shows "names_ok (sample_cat a b) 3"
proof -
  have "\<exists>t < 3. CreateUUID CONTAINER_ID_LENGTH t = Inr (snd k)" if "k \<in> dom (sample_cat a b)" for k
  proof -
    have "snd k = a \<or> snd k = b" using that by (auto simp: sample_cat_def split: if_splits)
    then show ?thesis using assms unfolding sample_names_def by (elim disjE) (rule exI [of _ 0], simp, rule exI [of _ 1], simp)
  qed
  then show ?thesis unfolding names_ok_def by blast
qed


text \<open>
  C34: Updating a cold container cuts out exactly the records that the index no longer points to: the
  container on disk holds the others, in their order and next to each other from offset 0, the index leads to their new
  offsets, no key is lost or added, and the repository keeps its chunks with nothing cold left in this container.
\<close>

theorem cold_update_cuts_dead:
  assumes "env_ok env" "repo_ok env orig cat (of_db st) colds" "of_files st = disk_of cat" "pass_buffers st"
    "cat (flag, n) = Some rs" "mset ps = mset (colds n)"
  shows "\<exists>st'. Update_cold_container env (n, ps) st = Inr st' \<and>
    of_files st' = disk_of (cat((flag, n) \<mapsto> relocate n 0 (filter (live env (of_db st)) rs))) \<and>
    repo_ok env orig (cat((flag, n) \<mapsto> relocate n 0 (filter (live env (of_db st)) rs))) (of_db st') (colds(n := [])) \<and>
    dom (indexObj (of_db st')) = dom (indexObj (of_db st))"
proof -
  obtain st' where u: "Update_cold_container env (n, ps) st = Inr st'"
    "of_files st' = disk_of (cat((flag, n) \<mapsto> relocate n 0 (filter (\<lambda>s. \<not> \<not> live env (of_db st) s) rs)))"
    "reindexed env (relocate n 0 (filter (\<lambda>s. \<not> \<not> live env (of_db st) s) rs)) (of_db st) (of_db st')"
    by (rule Update_cold_container_ok [OF assms(1) repo_cat [OF assms(2)] assms(3,5,4) cold_regions [OF assms(2,5,6)]])
  have "dom (indexObj (of_db st')) = dom (indexObj (of_db st))" by (rule reindexed_dom [OF u(3)]) simp
  then show ?thesis using u(1,2) cold_repo [OF assms(1,2,5) u(3)] by simp
qed

lemma cold_update_cuts_dead_witness:
  "\<exists>a st st'. Update_cold_container sample_env (a, [(0, 290)]) st = Inr st' \<and> of_files st (False, a) = Some (content [sample_old a, sample_new a]) \<and>
    of_files st' (False, a) = Some (content [displaced a 0 (sample_new a)])"
proof -
  obtain a b where n: "sample_names a b" by (rule sample_names_exist)
  let ?st = "InitOffline\<lparr>of_db := cold_db a, of_files := disk_of (cold_cat a)\<rparr>"
  have R: "repo_ok sample_env sample_orig (cold_cat a) (of_db ?st) (cold_regions_of a)" using cold_repo_ok [OF n] by simp
  have b: "pass_buffers ?st" using InitOffline_ready(4) by (simp add: pass_buffers_def)
  have c: "cold_cat a (False, a) = Some [sample_old a, sample_new a]" "mset [(0, 290)] = mset (cold_regions_of a a)" "of_files ?st = disk_of (cold_cat a)"
    by (simp_all add: cold_cat_def cold_regions_of_def)
  have e: "enc_addr sample_env (s_addr (sample_new a)) (sample_value (s_addr (sample_new a)))" by (rule sample_enc [OF sample_rec_wf(2) [OF n]])
  have "s_fp (sample_old a) = sample_key 1" "s_fp (sample_new a) = sample_key 3" by (simp_all add: sample_defs)
  then have "filter (live sample_env (cold_db a)) [sample_old a, sample_new a] = [sample_new a]"
    using e by (simp add: live_def cold_db_def sample_key_eq)
  then obtain st' where u: "Update_cold_container sample_env (a, [(0, 290)]) ?st = Inr st'"
    "of_files st' = disk_of ((cold_cat a)((False, a) \<mapsto> relocate a 0 [sample_new a]))"
    using cold_update_cuts_dead [OF sample_env_ok R c(3) b c(1,2)] by auto
  have "of_files ?st (False, a) = Some (content [sample_old a, sample_new a])" using c(1) by (simp add: disk_of_def)
  moreover have "of_files st' (False, a) = Some (content [displaced a 0 (sample_new a)])" using u(2) by (simp add: disk_of_def)
  ultimately show ?thesis using u(1) by blast
qed

text \<open>
  C35: Merging base containers keeps the repository: whatever order the directory is listed in, the pass over the pairs ends without a fault,
  every chunk that the index knew is still known and kept where the index says, no container is added, and no pair is left over.
\<close>

theorem merge_keeps_repository:
  assumes "env_ok env" "repo_ok env orig cat (of_db st) (\<lambda>_. [])" "of_files st = disk_of cat" "pass_buffers st"
    "lists_base cat (listing (disk_of cat))" "baseMergePair st = []"
  shows "\<exists>st' cat'. MergeContainer env listing st = Inr st' \<and> of_files st' = disk_of cat' \<and> repo_ok env orig cat' (of_db st') (\<lambda>_. []) \<and>
    dom cat' \<subseteq> dom cat \<and> dom (indexObj (of_db st')) = dom (indexObj (of_db st)) \<and> baseMergePair st' = []"
proof -
  obtain st' cat' where "MergeContainer env listing st = Inr st'" "of_files st' = disk_of cat'" "repo_ok env orig cat' (of_db st') (\<lambda>_. [])"
    "dom cat' \<subseteq> dom cat" "baseMergePair st' = []" "dom (indexObj (of_db st')) = dom (indexObj (of_db st))"
    by (rule MergeContainer_ok [where listing = listing, OF assms])
  then show ?thesis by blast
qed

lemma merge_keeps_repository_witness:
  "\<exists>a b st st' cat'. MergeContainer sample_env (\<lambda>files. [b, a]) st = Inr st' \<and> of_files st = disk_of (pair_cat a b) \<and> of_files st' = disk_of cat' \<and>
    dom cat' \<subseteq> {(False, a), (False, b)} \<and> repo_ok sample_env sample_orig cat' (of_db st') (\<lambda>_. [])"
proof -
  obtain a b where n: "sample_names a b" by (rule sample_names_exist)
  let ?st = "InitOffline\<lparr>of_db := pair_db a b, of_files := disk_of (pair_cat a b)\<rparr>"
  have R: "repo_ok sample_env sample_orig (pair_cat a b) (of_db ?st) (\<lambda>_. [])" using pair_repo_ok [OF n] by simp
  have b: "pass_buffers ?st" "baseMergePair ?st = []" "of_files ?st = disk_of (pair_cat a b)" using InitOffline_ready(2,4) by (simp_all add: pass_buffers_def resting_def)
  have l: "lists_base (pair_cat a b) ((\<lambda>files. [b, a]) (disk_of (pair_cat a b)))" by (auto simp: lists_base_def pair_cat_def)
  have d: "dom (pair_cat a b) = {(False, a), (False, b)}" by (auto simp: pair_cat_def)
  from merge_keeps_repository [where listing = "\<lambda>files. [b, a]", OF sample_env_ok R b(3,1) l b(2)] show ?thesis unfolding d using b(3) by blast
qed



lemma note_keeps_hot:
  "UpdateIndexStore key out st = Inr st' \<Longrightarrow> hot_container st' = hot_container st"
  "note_delta b k st = Inr st' \<Longrightarrow> hot_container st' = hot_container st"
  "note_cold n e st = Inr st' \<Longrightarrow> hot_container st' = hot_container st"
  by (auto simp: UpdateIndexStore_def note_delta_def note_cold_def Ocall_ColdInsert_def res_bind_eq_Inr)

lemma copy_pieces_fits: "copy_pieces buf off ps = Inr b \<Longrightarrow> ps \<noteq> [] \<Longrightarrow> off + length (concat ps) \<le> length buf"
proof (induction ps arbitrary: buf off)
  case (Cons p ps)
  obtain b1 where b1: "buf_write buf off p = Inr b1" "copy_pieces b1 (off + length p) ps = Inr b"
    using Cons.prems(1) by (auto simp: res_bind_eq_Inr)
  have l: "off + length p \<le> length buf" "length b1 = length buf" using b1(1) buf_write_length [OF b1(1)] by (auto simp: buf_write_def split: if_splits)
  show ?case using Cons.IH [OF b1(2)] l by (cases "ps = []") auto
qed simp

lemma put_hot_iv:
  assumes "put_hot data r fp sf iv st = Inr (r', st')" "recipe_wf r" "length fp = CHUNK_HASH_SIZE" "length sf = 3 * CHUNK_HASH_SIZE"
    "length iv = CRYPTO_BLOCK_SIZE" "length (containerID (hot_container st)) = CONTAINER_ID_LENGTH"
  shows "buf_read (ct_body (hot_container st')) (currentSize (hot_container st') - (length data + CRYPTO_BLOCK_SIZE)) (length data + CRYPTO_BLOCK_SIZE) =
    Inr (data @ iv)"
proof -
  let ?c = "hot_container st" and ?off = "currentSize (hot_container st)"
  let ?r = "r\<lparr>re_offset := word_of_nat ?off, re_deltaFlag := 1, containerName := containerID ?c\<rparr>"
  let ?h = "recipe_bytes ?r @ fp @ sf"
  have wf: "recipe_wf ?r" using assms(2,6) by (simp add: recipe_wf_def)
  obtain body where b: "copy_pieces (ct_body ?c) ?off [recipe_bytes ?r, fp, sf, data, iv] = Inr body" and
    s: "st' = st\<lparr>hot_container := ?c\<lparr>ct_body := body, currentSize := ?off + length data + sizeof_RecipeEntry + 4 * CHUNK_HASH_SIZE + CRYPTO_BLOCK_SIZE\<rparr>\<rparr>"
    using assms(1) by (auto simp: put_hot_def Let_def res_bind_eq_Inr)
  have "buf_write (ct_body ?c) ?off (concat [recipe_bytes ?r, fp, sf, data, iv]) = Inr body" using b copy_pieces_write [OF copy_pieces_fits [OF b]] by simp
  then have w: "buf_write (ct_body ?c) ?off (?h @ data @ iv) = Inr body" by simp
  have lh: "length ?h = sizeof_RecipeEntry + 4 * CHUNK_HASH_SIZE" using wf assms(3,4) by simp
  have r: "buf_read body (?off + length ?h) (length (data @ iv)) = Inr (data @ iv)"
    using w by (auto simp: buf_write_def buf_read_def bslice_def split: if_splits)
  have "currentSize (hot_container st') - (length data + CRYPTO_BLOCK_SIZE) = ?off + length ?h" unfolding s lh by simp
  then show ?thesis using r assms(5) unfolding s by simp
qed



end
