(* ===== verification/Chunker.thy ===== *)
theory Chunker imports Types begin

text \<open>
  The chunker of the client (\<open>src/Client/chunker.cc\<close>): \<open>ChunkerInit\<close>, content-defined chunking
  (\<open>FastCDC\<close> with \<open>CutPoint\<close>) and chunking at a fixed size.  The file is a list of bytes; what the chunker pushes to
  the queue is a list.  A loop that need not end is a partial function into \<open>option\<close>, where \<open>None\<close> is
  a run that never returns.  The lemmas show that \<open>FastCDC\<close> cuts the file where
  \<open>CutPoint\<close> on the whole rest of the file cuts it, whatever the size of a read is.
\<close>

section \<open>What the chunker hands on\<close>

record FileRecipeHead_t =
  fileSize :: u64
  totalChunkNum :: u64

text \<open>The union of a chunk and the head of the recipe, with its tag; a chunk is its bytes.\<close>

datatype Data_t = DATA_CHUNK "byte list" | RECIPE_END FileRecipeHead_t

section \<open>Settings\<close>

datatype CHUNKER_TYPE = FIXED_SIZE_CHUNKING | FAST_CDC

record Chunker =
  chunkerType :: CHUNKER_TYPE
  avgChunkSize :: u64
  minChunkSize :: u64
  maxChunkSize :: u64
  readSize :: u64
  normalSize :: u32
  maskS :: u32
  maskL :: u32

definition DivCeil :: "u32 \<Rightarrow> u32 \<Rightarrow> u32" where
  "DivCeil a b = (if a mod b = 0 then a div b else a div b + 1)"

definition CompareLimit :: "u32 \<Rightarrow> u32 \<Rightarrow> u32 \<Rightarrow> u32" where
  "CompareLimit input lower upper = (if input \<le> lower then lower else if upper \<le> input then upper else input)"

definition CalNormalSize :: "u32 \<Rightarrow> u32 \<Rightarrow> u32 \<Rightarrow> u32" where
  "CalNormalSize mn av mx =
     (let off = mn + DivCeil mn 2;
          off = (if off > av then av else off);
          diff = av - off
      in if diff > mx then mx else diff)"

definition GenerateFastCDCMask :: "u32 \<Rightarrow> u32" where
  "GenerateFastCDCMask bits = push_bit (unat (CompareLimit bits 1 31)) 1 - 1"

text \<open>
  \<open>round (log2 n)\<close>: with \<open>k\<close> the number of bits behind the first one, \<open>k\<close> or the next number, as \<open>n\<close> is below
  \<open>2 ^ (k + 1/2)\<close> or not.  \<open>n\<close> is never on that border, and for sizes below \<open>2 ^ 22\<close> it is further from it than a
  \<open>double\<close> is inexact.
\<close>

fun floor_log2 :: "nat \<Rightarrow> nat" where
  "floor_log2 n = (if n < 2 then 0 else Suc (floor_log2 (n div 2)))"

declare floor_log2.simps [simp del]

definition round_log2 :: "nat \<Rightarrow> nat" where
  "round_log2 n = (let k = floor_log2 n in if n * n < 2 ^ (2 * k + 1) then k else Suc k)"

text \<open>The constructor exits when the sizes are not in order.\<close>

definition ChunkerInit :: "CHUNKER_TYPE \<Rightarrow> u64 \<Rightarrow> u64 \<Rightarrow> u64 \<Rightarrow> u64 \<Rightarrow> Chunker res" where
  "ChunkerInit t av mn mx rd =
     (if mn \<ge> av \<or> mn \<ge> mx then Inl ExitError
      else if mx \<le> av \<or> mx \<le> mn then Inl ExitError
      else
        let bits = word_of_nat (round_log2 (unat av)) :: u32 in
        Inr \<lparr>chunkerType = t, avgChunkSize = av, minChunkSize = mn, maxChunkSize = mx, readSize = rd * (1024 * 1024),
             normalSize = (if t = FAST_CDC then CalNormalSize (ucast mn) (ucast av) (ucast mx) else 0),
             maskS = (if t = FAST_CDC then GenerateFastCDCMask (bits + 1) else 0),
             maskL = (if t = FAST_CDC then GenerateFastCDCMask (bits - 1) else 0)\<rparr>)"

section \<open>The cut point\<close>

text \<open>The gear table of \<open>include/chunker.h\<close>.\<close>

definition CDC_GEAR :: "u32 list" where
  "CDC_GEAR = [0x5C95C078, 0x22408989, 0x2D48A214, 0x12842087, 0x530F8AFB, 0x474536B9, 0x2963B4F1, 0x44CB738B,
     0x4EA7403D, 0x4D606B6E, 0x074EC5D3, 0x3AF39D18, 0x726003CA, 0x37A62A74, 0x51A2F58E, 0x7506358E,
     0x5D4AB128, 0x4D4AE17B, 0x41E85924, 0x470C36F7, 0x4741CBE1, 0x01BB7F30, 0x617C1DE3, 0x2B0C3A1F,
     0x50C48F73, 0x21A82D37, 0x6095ACE0, 0x419167A0, 0x3CAF49B0, 0x40CEA62D, 0x66BC1C66, 0x545E1DAD,
     0x2BFA77CD, 0x6E85DA24, 0x5FB0BDC5, 0x652CFC29, 0x3A0AE1AB, 0x2837E0F3, 0x6387B70E, 0x13176012,
     0x4362C2BB, 0x66D8F4B1, 0x37FCE834, 0x2C9CD386, 0x21144296, 0x627268A8, 0x650DF537, 0x2805D579,
     0x3B21EBBD, 0x7357ED34, 0x3F58B583, 0x7150DDCA, 0x7362225E, 0x620A6070, 0x2C5EF529, 0x7B522466,
     0x768B78C0, 0x4B54E51E, 0x75FA07E5, 0x06A35FC6, 0x30B71024, 0x1C8626E1, 0x296AD578, 0x28D7BE2E,
     0x1490A05A, 0x7CEE43BD, 0x698B56E3, 0x09DC0126, 0x4ED6DF6E, 0x02C1BFC7, 0x2A59AD53, 0x29C0E434,
     0x7D6C5278, 0x507940A7, 0x5EF6BA93, 0x68B6AF1E, 0x46537276, 0x611BC766, 0x155C587D, 0x301BA847,
     0x2CC9DDA7, 0x0A438E2C, 0x0A69D514, 0x744C72D3, 0x4F326B9B, 0x7EF34286, 0x4A0EF8A7, 0x6AE06EBE,
     0x669C5372, 0x12402DCB, 0x5FEAE99D, 0x76C7F4A7, 0x6ABDB79C, 0x0DFAA038, 0x20E2282C, 0x730ED48B,
     0x069DAC2F, 0x168ECF3E, 0x2610E61F, 0x2C512C8E, 0x15FB8C06, 0x5E62BC76, 0x69555135, 0x0ADB864C,
     0x4268F914, 0x349AB3AA, 0x20EDFDB2, 0x51727981, 0x37B4B3D8, 0x5DD17522, 0x6B2CBFE4, 0x5C47CF9F,
     0x30FA1CCD, 0x23DEDB56, 0x13D1F50A, 0x64EDDEE7, 0x0820B0F7, 0x46E07308, 0x1E2D1DFD, 0x17B06C32,
     0x250036D8, 0x284DBF34, 0x68292EE0, 0x362EC87C, 0x087CB1EB, 0x76B46720, 0x104130DB, 0x71966387,
     0x482DC43F, 0x2388EF25, 0x524144E1, 0x44BD834E, 0x448E7DA3, 0x3FA6EAF9, 0x3CDA215C, 0x3A500CF3,
     0x395CB432, 0x5195129F, 0x43945F87, 0x51862CA4, 0x56EA8FF1, 0x201034DC, 0x4D328FF5, 0x7D73A909,
     0x6234D379, 0x64CFBF9C, 0x36F6589A, 0x0A2CE98A, 0x5FE4D971, 0x03BC15C5, 0x44021D33, 0x16C1932B,
     0x37503614, 0x1ACAF69D, 0x3F03B779, 0x49E61A03, 0x1F52D7EA, 0x1C6DDD5C, 0x062218CE, 0x07E7A11A,
     0x1905757A, 0x7CE00A53, 0x49F44F29, 0x4BCC70B5, 0x39FEEA55, 0x5242CEE8, 0x3CE56B85, 0x00B81672,
     0x46BEECCC, 0x3CA0AD56, 0x2396CEE8, 0x78547F40, 0x6B08089B, 0x66A56751, 0x781E7E46, 0x1E2CF856,
     0x3BC13591, 0x494A4202, 0x520494D7, 0x2D87459A, 0x757555B6, 0x42284CC1, 0x1F478507, 0x75C95DFF,
     0x35FF8DD7, 0x4E4757ED, 0x2E11F88C, 0x5E1B5048, 0x420E6699, 0x226B0695, 0x4D1679B4, 0x5A22646F,
     0x161D1131, 0x125C68D9, 0x1313E32E, 0x4AA85724, 0x21DC7EC1, 0x4FFA29FE, 0x72968382, 0x1CA8EEF3,
     0x3F3B1C28, 0x39C2FB6C, 0x6D76493F, 0x7A22A62E, 0x789B1C2A, 0x16E0CB53, 0x7DECEEEB, 0x0DC7E1C6,
     0x5C75BF3D, 0x52218333, 0x106DE4D6, 0x7DC64422, 0x65590FF4, 0x2C02EC30, 0x64A9AC67, 0x59CAB2E9,
     0x4A21D2F3, 0x0F616E57, 0x23B54EE8, 0x02730AAA, 0x2F3C634D, 0x7117FC6C, 0x01AC6F05, 0x5A9ED20C,
     0x158C4E2A, 0x42B699F0, 0x0C7C14B3, 0x02BD9641, 0x15AD56FC, 0x1C722F60, 0x7DA1AF91, 0x23E0DBCB,
     0x0E93E12B, 0x64B2791D, 0x440D2476, 0x588EA8DD, 0x4665A658, 0x7446C418, 0x1877A774, 0x5626407E,
     0x7F63BD46, 0x32D2DBD8, 0x3C790F4A, 0x772B7239, 0x6F8B2826, 0x677FF609, 0x0DC82C11, 0x23FFE354,
     0x2EAC53A6, 0x16139E09, 0x0AFD0DBC, 0x2A4D4237, 0x56A368C7, 0x234325E4, 0x2DCE9187, 0x32E8EA7E]"

text \<open>
  One of the two loops of \<open>CutPoint\<close>, from index \<open>i\<close> up to \<open>n\<close>: either a cut, or the index and the hash it
  ends with.
\<close>

function cut_loop :: "byte list \<Rightarrow> u32 \<Rightarrow> nat \<Rightarrow> nat \<Rightarrow> u32 \<Rightarrow> nat + nat \<times> u32" where
  "cut_loop src msk i n fp =
     (if i < n then
        let fp = drop_bit 1 fp + CDC_GEAR ! unat (byte_at src i) in
        if fp AND msk = 0 then Inl (i + 1) else cut_loop src msk (i + 1) n fp
      else Inr (i, fp))"
  by pat_completeness auto
termination
  by (relation "measure (\<lambda>(src, msk, i, n, fp). n - i)") auto

declare cut_loop.simps [simp del]

definition CutPoint :: "Chunker \<Rightarrow> byte list \<Rightarrow> u32 \<Rightarrow> nat" where
  "CutPoint c src len =
     (let i = min (unat len) (unat (ucast (minChunkSize c) :: u32));
          n = min (unat (normalSize c)) (unat len) in
      case cut_loop src (maskS c) i n 0 of
        Inl cp \<Rightarrow> cp
      | Inr (i, fp) \<Rightarrow>
          (case cut_loop src (maskL c) i (min (unat (ucast (maxChunkSize c) :: u32)) (unat len)) fp of
             Inl cp \<Rightarrow> cp
           | Inr (i, _) \<Rightarrow> i))"

section \<open>Chunking\<close>

text \<open>The queue to the sender and the counters of the recipe head.\<close>

record chunking =
  out_queue :: "Data_t list"
  chunked_size :: u64
  chunkIDCnt :: u64

definition chunking_start :: chunking where
  "chunking_start = \<lparr>out_queue = [], chunked_size = 0, chunkIDCnt = 0\<rparr>"

definition push_chunk :: "byte list \<Rightarrow> chunking \<Rightarrow> chunking" where
  "push_chunk chunk st =
     st\<lparr>out_queue := out_queue st @ [DATA_CHUNK chunk], chunked_size := chunked_size st + word_of_nat (length chunk),
        chunkIDCnt := chunkIDCnt st + 1\<rparr>"

definition push_recipe :: "chunking \<Rightarrow> Data_t list" where
  "push_recipe st = out_queue st @ [RECIPE_END \<lparr>fileSize = chunked_size st, totalChunkNum = chunkIDCnt st\<rparr>]"

text \<open>
  The loop over one buffer: \<open>buf\<close> is what the read returned and \<open>e\<close> whether it met the end of the file.  A
  chunk is copied into an array of \<open>MAX_CHUNK_SIZE\<close> bytes.
\<close>

partial_function (option) cut_buffer ::
    "Chunker \<Rightarrow> byte list \<Rightarrow> bool \<Rightarrow> nat \<Rightarrow> chunking \<Rightarrow> (nat \<times> chunking) res option" where
  "cut_buffer c buf e localOffset st =
     (if unat (maxChunkSize c) \<le> length buf - localOffset \<or> e \<and> localOffset < length buf then
        let cp = CutPoint c (drop localOffset buf) (word_of_nat (length buf - localOffset)) in
        if MAX_CHUNK_SIZE < cp then Some (Inl OutOfBounds)
        else cut_buffer c buf e (localOffset + cp) (push_chunk (take cp (drop localOffset buf)) st)
      else Some (Inr (localOffset, st)))"

text \<open>The loop over the reads; a read that comes up short has met the end of the file.\<close>

partial_function (option) cut_file :: "Chunker \<Rightarrow> byte list \<Rightarrow> nat \<Rightarrow> chunking \<Rightarrow> chunking res option" where
  "cut_file c file totalOffset st =
     (let n = unat (readSize c); buf = take n (drop totalOffset file); e = (length buf < n) in
      if buf = [] then Some (Inr st)
      else Option.bind (cut_buffer c buf e 0 st) (\<lambda>r.
        case r of
          Inl f \<Rightarrow> Some (Inl f)
        | Inr (localOffset, st) \<Rightarrow> if e then Some (Inr st) else cut_file c file (totalOffset + localOffset) st))"

definition FastCDC :: "Chunker \<Rightarrow> byte list \<Rightarrow> Data_t list res option" where
  "FastCDC c file = map_option (\<lambda>r. res_bind r (\<lambda>st. Inr (push_recipe st))) (cut_file c file 0 chunking_start)"

text \<open>Chunks of a fixed size; the last one of a read may be shorter.\<close>

partial_function (option) fixed_buffer ::
    "Chunker \<Rightarrow> byte list \<Rightarrow> nat \<Rightarrow> chunking \<Rightarrow> chunking res option" where
  "fixed_buffer c buf chunkedSize st =
     (if chunkedSize < length buf then
        let n = (if unat (avgChunkSize c) < length buf - chunkedSize then unat (avgChunkSize c) else length buf - chunkedSize) in
        if MAX_CHUNK_SIZE < n then Some (Inl OutOfBounds)
        else fixed_buffer c buf (chunkedSize + n) (push_chunk (take n (drop chunkedSize buf)) st)
      else Some (Inr st))"

partial_function (option) fixed_file :: "Chunker \<Rightarrow> byte list \<Rightarrow> chunking \<Rightarrow> chunking res option" where
  "fixed_file c file st =
     (let n = unat (readSize c); buf = take n file in
      if buf = [] then Some (Inr st)
      else Option.bind (fixed_buffer c buf 0 st) (\<lambda>r.
        case r of
          Inl f \<Rightarrow> Some (Inl f)
        | Inr st \<Rightarrow> if length buf < n then Some (Inr st) else fixed_file c (drop n file) st))"

definition fixSizeChunking :: "Chunker \<Rightarrow> byte list \<Rightarrow> Data_t list res option" where
  "fixSizeChunking c file = map_option (\<lambda>r. res_bind r (\<lambda>st. Inr (push_recipe st))) (fixed_file c file chunking_start)"

definition Chunking :: "Chunker \<Rightarrow> byte list \<Rightarrow> Data_t list res option" where
  "Chunking c file = (case chunkerType c of FIXED_SIZE_CHUNKING \<Rightarrow> fixSizeChunking c file | FAST_CDC \<Rightarrow> FastCDC c file)"

section \<open>Where the file is cut\<close>

lemma cut_loop_take: "n \<le> k \<Longrightarrow> cut_loop (take k src) msk i n fp = cut_loop src msk i n fp"
proof (induction src msk i n fp rule: cut_loop.induct)
  case (1 src msk i n fp)
  have "i < n \<Longrightarrow> byte_at (take k src) i = byte_at src i" using 1(2) by (simp add: byte_at_def)
  then show ?case using 1 by (subst (1 2) cut_loop.simps) (auto simp: Let_def)
qed

lemma cut_loop_Inl: "cut_loop src msk i n fp = Inl cp \<Longrightarrow> i < cp \<and> cp \<le> n"
proof (induction src msk i n fp rule: cut_loop.induct)
  case (1 src msk i n fp)
  from 1(2) show ?case by (subst (asm) cut_loop.simps) (use 1(1) in \<open>auto simp: Let_def split: if_splits\<close>)
qed

lemma cut_loop_Inr: "cut_loop src msk i n fp = Inr (j, fp') \<Longrightarrow> j = max i n"
proof (induction src msk i n fp rule: cut_loop.induct)
  case (1 src msk i n fp)
  from 1(2) show ?case by (subst (asm) cut_loop.simps) (use 1(1) in \<open>auto simp: Let_def split: if_splits\<close>)
qed

text \<open>What \<open>ChunkerInit\<close> guarantees, for chunks that fit the array of a chunk.\<close>

definition chunker_ok :: "Chunker \<Rightarrow> bool" where
  "chunker_ok c \<longleftrightarrow> 0 < unat (avgChunkSize c) \<and> unat (minChunkSize c) < unat (maxChunkSize c) \<and>
     unat (avgChunkSize c) < unat (maxChunkSize c) \<and> unat (maxChunkSize c) \<le> MAX_CHUNK_SIZE \<and>
     unat (normalSize c) \<le> unat (maxChunkSize c)"

lemma CalNormalSize_le: "CalNormalSize mn av mx \<le> mx"
  by (auto simp: CalNormalSize_def Let_def not_less)

lemma unat_ucast_small: "unat (x :: u64) \<le> MAX_CHUNK_SIZE \<Longrightarrow> unat (ucast x :: u32) = unat x"
  by (simp add: unsigned_ucast_eq take_bit_nat_eq_self MAX_CHUNK_SIZE_def)

lemma ChunkerInit_ok:
  assumes "ChunkerInit t av mn mx rd = Inr c" "unat mx \<le> MAX_CHUNK_SIZE"
  shows "chunker_ok c" "chunkerType c = t" "minChunkSize c = mn" "maxChunkSize c = mx" "avgChunkSize c = av"
    "readSize c = rd * (1024 * 1024)"
proof -
  have o: "mn < av" "mn < mx" "av < mx" using assms(1) by (auto simp: ChunkerInit_def not_le split: if_splits)
  then have u: "unat mn < unat av" "unat mn < unat mx" "unat av < unat mx" by (simp_all add: word_less_nat_alt)
  note c = assms(1) [unfolded ChunkerInit_def, simplified, simplified o(1) o(2) o(3) Let_def]
  show "chunkerType c = t" "minChunkSize c = mn" "maxChunkSize c = mx" "avgChunkSize c = av"
    "readSize c = rd * (1024 * 1024)"
    using assms(1) by (auto simp: ChunkerInit_def Let_def split: if_splits)
  moreover have "unat (normalSize c) \<le> unat mx"
  proof (cases "t = FAST_CDC")
    case True
    then have "normalSize c = CalNormalSize (ucast mn) (ucast av) (ucast mx)"
      using assms(1) by (auto simp: ChunkerInit_def Let_def split: if_splits)
    then show ?thesis using CalNormalSize_le [of "ucast mn" "ucast av" "ucast mx"] unat_ucast_small [OF assms(2)]
      by (simp add: word_le_nat_alt)
  next
    case False
    then show ?thesis using assms(1) by (auto simp: ChunkerInit_def Let_def split: if_splits)
  qed
  ultimately show "chunker_ok c" using u assms(2) by (simp add: chunker_ok_def)
qed

text \<open>The cut on all that is left of the file.\<close>

definition cut_rest :: "Chunker \<Rightarrow> byte list \<Rightarrow> nat" where
  "cut_rest c src = CutPoint c src (word_of_nat (min (length src) (unat (maxChunkSize c))))"

lemma unat_word_of_nat32: "n < 2 ^ 32 \<Longrightarrow> unat (word_of_nat n :: u32) = n"
  by (simp add: unat_of_nat take_bit_nat_eq_self)

lemma CutPoint_cut:
  assumes "chunker_ok c" "len \<le> length src" "len < 2 ^ 32" "unat (maxChunkSize c) \<le> len \<or> len = length src"
  shows "CutPoint c (take len src) (word_of_nat len) = cut_rest c src"
proof -
  let ?M = "unat (maxChunkSize c)" and ?m = "min (length src) (unat (maxChunkSize c))"
  have s: "unat (minChunkSize c) < ?M" "?M \<le> MAX_CHUNK_SIZE" "unat (normalSize c) \<le> ?M"
    using assms(1) by (simp_all add: chunker_ok_def)
  have m: "?m < 2 ^ 32" using s(2) by (simp add: MAX_CHUNK_SIZE_def)
  have u: "unat (ucast (minChunkSize c) :: u32) = unat (minChunkSize c)" "unat (ucast (maxChunkSize c) :: u32) = ?M"
    using s by (simp_all add: unat_ucast_small)
  have e: "min len (unat (minChunkSize c)) = min ?m (unat (minChunkSize c))" "min (unat (normalSize c)) len = min (unat (normalSize c)) ?m"
    "min ?M len = min ?M ?m" using s assms(2,4) by auto
  have l: "?m \<le> len" using assms(4) by auto
  have t: "cut_loop (take len src) k i (min x ?m) fp = cut_loop src k i (min x ?m) fp" for k i x fp
    by (rule cut_loop_take) (use l in simp)
  show ?thesis
    unfolding cut_rest_def CutPoint_def unat_word_of_nat32 [OF assms(3)] unat_word_of_nat32 [OF m] u Let_def e t ..
qed

lemma cut_bounds:
  assumes "chunker_ok c" "src \<noteq> []"
  shows "0 < cut_rest c src" "cut_rest c src \<le> length src" "cut_rest c src \<le> unat (maxChunkSize c)"
    "unat (minChunkSize c) < length src \<Longrightarrow> unat (minChunkSize c) < cut_rest c src"
    "length src \<le> unat (minChunkSize c) \<Longrightarrow> cut_rest c src = length src"
proof -
  let ?M = "unat (maxChunkSize c)" and ?n = "unat (minChunkSize c)" and ?m = "min (length src) (unat (maxChunkSize c))"
  have s: "?n < ?M" "?M \<le> MAX_CHUNK_SIZE" "unat (normalSize c) \<le> ?M" using assms(1) by (simp_all add: chunker_ok_def)
  have m: "?m < 2 ^ 32" using s(2) by (simp add: MAX_CHUNK_SIZE_def)
  have u: "unat (ucast (minChunkSize c) :: u32) = ?n" "unat (ucast (maxChunkSize c) :: u32) = ?M"
    using s by (simp_all add: unat_ucast_small)
  have l: "0 < length src" using assms(2) by simp
  let ?i = "min ?m ?n" and ?k = "min (unat (normalSize c)) ?m"
  have c: "cut_rest c src = (case cut_loop src (maskS c) ?i ?k 0 of Inl cp \<Rightarrow> cp
    | Inr (i, fp) \<Rightarrow> (case cut_loop src (maskL c) i (min ?M ?m) fp of Inl cp \<Rightarrow> cp | Inr (i, _) \<Rightarrow> i))"
    unfolding cut_rest_def CutPoint_def unat_word_of_nat32 [OF m] u Let_def ..
  have "?i < cut_rest c src \<and> cut_rest c src \<le> ?m \<or> cut_rest c src = ?m"
  proof (cases "cut_loop src (maskS c) ?i ?k 0")
    case (Inl cp)
    then show ?thesis using cut_loop_Inl [OF Inl] by (simp add: c)
  next
    case (Inr p)
    obtain i fp where p: "p = (i, fp)" by (cases p)
    have i: "i = max ?i ?k" using cut_loop_Inr [OF Inr [unfolded p]] .
    show ?thesis
    proof (cases "cut_loop src (maskL c) i (min ?M ?m) fp")
      case (Inl cp)
      then show ?thesis using cut_loop_Inl [OF Inl] Inr i by (simp add: c p)
    next
      case q: (Inr q)
      obtain j fp' where q': "q = (j, fp')" by (cases q)
      have "j = max i (min ?M ?m)" using cut_loop_Inr [OF q [unfolded q']] .
      moreover have "max i (min ?M ?m) = ?m" unfolding i by simp
      ultimately show ?thesis using Inr q by (simp add: c p q')
    qed
  qed
  then show "0 < cut_rest c src" "cut_rest c src \<le> length src" "cut_rest c src \<le> ?M" "?n < length src \<Longrightarrow> ?n < cut_rest c src"
    "length src \<le> ?n \<Longrightarrow> cut_rest c src = length src" using s(1) l by auto
qed

function cut_all :: "Chunker \<Rightarrow> byte list \<Rightarrow> byte list list" where
  "cut_all c src = (if src = [] \<or> cut_rest c src = 0 then [] else take (cut_rest c src) src # cut_all c (drop (cut_rest c src) src))"
  by pat_completeness auto
termination
  by (relation "measure (\<lambda>(c, src). length src)") auto

declare cut_all.simps [simp del]

lemma cut_all_Nil [simp]: "cut_all c [] = []"
  by (simp add: cut_all.simps)

lemma cut_all_step: "chunker_ok c \<Longrightarrow> src \<noteq> [] \<Longrightarrow> cut_all c src = take (cut_rest c src) src # cut_all c (drop (cut_rest c src) src)"
  using cut_bounds(1) [of c src] by (subst cut_all.simps) simp

lemma cut_all_concat: "chunker_ok c \<Longrightarrow> concat (cut_all c src) = src"
proof (induction c src rule: cut_all.induct)
  case (1 c src)
  then show ?case
    by (cases "src = []") (use cut_bounds(1) [of c src] in \<open>simp_all add: cut_all_step\<close>)
qed

lemma cut_all_max: "chunker_ok c \<Longrightarrow> x \<in> set (cut_all c src) \<Longrightarrow> x \<noteq> [] \<and> length x \<le> unat (maxChunkSize c)"
proof (induction c src rule: cut_all.induct)
  case (1 c src)
  then show ?case
  proof (cases "src = []")
    case False
    note b = cut_bounds [OF 1(2) False]
    have "x = take (cut_rest c src) src \<or> x \<in> set (cut_all c (drop (cut_rest c src) src))"
      using 1(3) cut_all_step [OF 1(2) False] by simp
    then show ?thesis using 1(1,2) False b by auto
  qed simp
qed

lemma cut_all_min: "chunker_ok c \<Longrightarrow> x \<in> set (butlast (cut_all c src)) \<Longrightarrow> unat (minChunkSize c) < length x"
proof (induction c src rule: cut_all.induct)
  case (1 c src)
  show ?case
  proof (cases "src = []")
    case False
    note b = cut_bounds [OF 1(2) False] and st = cut_all_step [OF 1(2) False]
    have d: "cut_all c (drop (cut_rest c src) src) \<noteq> []" using 1(3) st by auto
    then have "drop (cut_rest c src) src \<noteq> []" by auto
    then have n: "unat (minChunkSize c) < cut_rest c src" using b(4,5) by (cases "unat (minChunkSize c) < length src") auto
    have "x = take (cut_rest c src) src \<or> x \<in> set (butlast (cut_all c (drop (cut_rest c src) src)))"
      using 1(3) st d by simp
    then show ?thesis using 1(1,2) False b n by auto
  qed (use 1(3) in simp)
qed

section \<open>The loops\<close>

lemma push_chunks:
  "fold push_chunk cs st = st\<lparr>out_queue := out_queue st @ map DATA_CHUNK cs,
     chunked_size := chunked_size st + word_of_nat (length (concat cs)), chunkIDCnt := chunkIDCnt st + word_of_nat (length cs)\<rparr>"
  by (induction cs arbitrary: st) (simp_all add: push_chunk_def ac_simps)

lemma cut_buffer_ok:
  assumes "chunker_ok c" "length buf < 2 ^ 32" "buf = take (length buf) rest" "e \<longrightarrow> buf = rest" "off \<le> length buf"
  shows "\<exists>off' cs. cut_buffer c buf e off st = Some (Inr (off', fold push_chunk cs st)) \<and> off \<le> off' \<and> off' \<le> length buf \<and>
    cut_all c (drop off rest) = cs @ cut_all c (drop off' rest) \<and> (e \<longrightarrow> off' = length buf) \<and>
    length buf - off' < unat (maxChunkSize c)"
  using assms(5)
proof (induction "length buf - off" arbitrary: off st rule: less_induct)
  case less
  let ?M = "unat (maxChunkSize c)" and ?src = "drop off rest" and ?len = "length buf - off"
  have M: "0 < ?M" "?M \<le> MAX_CHUNK_SIZE" using assms(1) by (simp_all add: chunker_ok_def)
  have lr: "length buf \<le> length rest" using arg_cong [OF assms(3), of length] by simp
  show ?case
  proof (cases "?M \<le> ?len \<or> e \<and> off < length buf")
    case False
    then have "cut_buffer c buf e off st = Some (Inr (off, fold push_chunk [] st))"
      by (subst cut_buffer.simps) (simp only: if_False fold.simps id_apply)
    moreover have "e \<longrightarrow> off = length buf" "?len < ?M" using False less.prems by auto
    ultimately show ?thesis using less.prems by (intro exI [of _ off] exI [of _ "[]"]) simp
  next
    case True
    have b: "drop off buf = take ?len ?src" by (subst assms(3)) (simp add: drop_take)
    have o: "off < length buf" using True M(1) by auto
    have s: "?src \<noteq> []" using o lr by simp
    have "CutPoint c (take ?len ?src) (word_of_nat ?len) = cut_rest c ?src"
      by (rule CutPoint_cut [OF assms(1)]) (use lr assms(2,4) True o in auto)
    then have cp: "CutPoint c (drop off buf) (word_of_nat ?len) = cut_rest c ?src" by (simp add: b)
    note cb = cut_bounds [OF assms(1) s]
    have le: "cut_rest c ?src \<le> ?len"
    proof (cases "?M \<le> ?len")
      case True then show ?thesis using cb(3) by simp
    next
      case False
      then have "buf = rest" using True assms(4) by simp
      then show ?thesis using cb(2) by simp
    qed
    let ?ch = "take (cut_rest c ?src) ?src"
    have t: "take (cut_rest c ?src) (drop off buf) = ?ch" using le by (simp add: b)
    have step: "cut_buffer c buf e off st = cut_buffer c buf e (off + cut_rest c ?src) (push_chunk ?ch st)"
      using True cb(3) M(2) by (subst cut_buffer.simps) (simp add: cp t Let_def)
    have dec: "length buf - (off + cut_rest c ?src) < length buf - off" "off + cut_rest c ?src \<le> length buf"
      using cb(1) le o less.prems by auto
    obtain off' cs where r: "cut_buffer c buf e (off + cut_rest c ?src) (push_chunk ?ch st) = Some (Inr (off', fold push_chunk cs (push_chunk ?ch st)))"
      "off + cut_rest c ?src \<le> off'" "off' \<le> length buf" "cut_all c (drop (off + cut_rest c ?src) rest) = cs @ cut_all c (drop off' rest)"
      "e \<longrightarrow> off' = length buf" "length buf - off' < ?M"
      using less.hyps [OF dec, of "push_chunk ?ch st"] by blast
    have "cut_all c ?src = (?ch # cs) @ cut_all c (drop off' rest)"
      using cut_all_step [OF assms(1) s] r(4) by (simp add: add.commute)
    then show ?thesis using step r by (intro exI [of _ off'] exI [of _ "?ch # cs"]) simp
  qed
qed

lemma cut_file_ok:
  assumes "chunker_ok c" "unat (maxChunkSize c) \<le> unat (readSize c)" "unat (readSize c) < 2 ^ 32"
  shows "cut_file c inp pos st = Some (Inr (fold push_chunk (cut_all c (drop pos inp)) st))"
proof (induction "length inp - pos" arbitrary: pos st rule: less_induct)
  case less
  let ?n = "unat (readSize c)" and ?rest = "drop pos inp"
  let ?buf = "take ?n ?rest" and ?e = "length (take ?n ?rest) < ?n"
  have M: "0 < unat (maxChunkSize c)" using assms(1) by (simp add: chunker_ok_def)
  show ?case
  proof (cases "?rest = []")
    case True
    then show ?thesis by (subst cut_file.simps) simp
  next
    case False
    then have ne: "?buf \<noteq> []" using M assms(2) by simp
    have p: "length ?buf < 2 ^ 32" "?buf = take (length ?buf) ?rest" "?e \<longrightarrow> ?buf = ?rest"
      using assms(3) by (simp, metis append_take_drop_id append_eq_conv_conj, simp)
    obtain off cs where r: "cut_buffer c ?buf ?e 0 st = Some (Inr (off, fold push_chunk cs st))" "off \<le> length ?buf"
      "cut_all c ?rest = cs @ cut_all c (drop off ?rest)" "?e \<longrightarrow> off = length ?buf" "length ?buf - off < unat (maxChunkSize c)"
      using cut_buffer_ok [where e = ?e and off = 0 and st = st, OF assms(1) p] by auto
    show ?thesis
    proof (cases ?e)
      case True
      then have l: "length inp - pos < ?n" by simp
      have "drop off ?rest = []" using True r(4) p(3) by simp
      then have "cut_all c ?rest = cs" using r(3) by simp
      then show ?thesis using l r(1) ne by (subst cut_file.simps) (simp add: Let_def)
    next
      case e: False
      then have o: "0 < off" using r(5) assms(2) by (cases off) auto
      have "length inp - (pos + off) < length inp - pos" using o False by auto
      from less.hyps [OF this, of "fold push_chunk cs st"]
      have "cut_file c inp (pos + off) (fold push_chunk cs st) = Some (Inr (fold push_chunk (cut_all c ?rest) st))"
        using r(3) by (simp add: add.commute)
      then show ?thesis using e r(1) ne by (subst cut_file.simps) (simp add: Let_def)
    qed
  qed
qed

text \<open>Chunks of a fixed size, read by read.\<close>

function pieces :: "nat \<Rightarrow> byte list \<Rightarrow> byte list list" where
  "pieces n xs = (if xs = [] \<or> n = 0 then [] else take n xs # pieces n (drop n xs))"
  by pat_completeness auto
termination
  by (relation "measure (\<lambda>(n, xs). length xs)") auto

declare pieces.simps [simp del]

lemma pieces_Nil [simp]: "pieces n [] = []"
  by (simp add: pieces.simps)

lemma pieces_concat: "0 < n \<Longrightarrow> concat (pieces n xs) = xs"
proof (induction n xs rule: pieces.induct)
  case (1 n xs)
  then show ?case by (subst pieces.simps) auto
qed

lemma pieces_size: "x \<in> set (pieces n xs) \<Longrightarrow> x \<noteq> [] \<and> length x \<le> n"
proof (induction n xs rule: pieces.induct)
  case (1 n xs)
  from 1(2) show ?case by (subst (asm) pieces.simps) (use 1(1) in \<open>auto split: if_splits\<close>)
qed

lemma fixed_buffer_ok:
  assumes "chunker_ok c"
  shows "fixed_buffer c buf k st = Some (Inr (fold push_chunk (pieces (unat (avgChunkSize c)) (drop k buf)) st))"
proof (induction "length buf - k" arbitrary: k st rule: less_induct)
  case less
  let ?a = "unat (avgChunkSize c)"
  let ?n = "if ?a < length buf - k then ?a else length buf - k"
  have a: "0 < ?a" "?a \<le> MAX_CHUNK_SIZE" using assms by (simp_all add: chunker_ok_def)
  show ?case
  proof (cases "k < length buf")
    case True
    let ?ch = "take ?n (drop k buf)"
    have n: "\<not> MAX_CHUNK_SIZE < ?n" "length buf - (k + ?n) < length buf - k" using a True by auto
    have "pieces ?a (drop k buf) = ?ch # pieces ?a (drop (k + ?n) buf)"
      using True a(1) by (subst pieces.simps) (auto simp: add.commute)
    moreover have "fixed_buffer c buf k st = fixed_buffer c buf (k + ?n) (push_chunk ?ch st)"
      using True n(1) by (subst fixed_buffer.simps) (simp only: Let_def if_True if_False)
    ultimately show ?thesis using less.hyps [OF n(2), of "push_chunk ?ch st"] by simp
  qed (subst fixed_buffer.simps, simp)
qed

definition fixed_all :: "Chunker \<Rightarrow> byte list \<Rightarrow> byte list list" where
  "fixed_all c inp = concat (map (pieces (unat (avgChunkSize c))) (pieces (unat (readSize c)) inp))"

lemma fixed_file_ok:
  assumes "chunker_ok c"
  shows "fixed_file c inp st = Some (Inr (fold push_chunk (fixed_all c inp) st))"
proof (induction "length inp" arbitrary: inp st rule: less_induct)
  case less
  let ?n = "unat (readSize c)"
  show ?case
  proof (cases "take ?n inp = []")
    case True
    then have "pieces ?n inp = []" by (subst pieces.simps) auto
    then show ?thesis using True by (subst fixed_file.simps) (simp add: fixed_all_def)
  next
    case False
    let ?st = "fold push_chunk (pieces (unat (avgChunkSize c)) (take ?n inp)) st"
    have p: "pieces ?n inp = take ?n inp # pieces ?n (drop ?n inp)" using False by (subst pieces.simps) auto
    have d: "length (drop ?n inp) < length inp" using False by auto
    have h: "fixed_file c (drop ?n inp) ?st = Some (Inr (fold push_chunk (fixed_all c inp) st))"
      using less.hyps [OF d, of ?st] by (simp add: fixed_all_def p)
    show ?thesis
    proof (cases "length (take ?n inp) < ?n")
      case True
      then have d: "drop ?n inp = []" "length inp < ?n" by simp_all
      then have "fold push_chunk (fixed_all c inp) st = ?st" by (simp add: fixed_all_def p)
      then show ?thesis using d False fixed_buffer_ok [OF assms, of "take ?n inp" 0 st]
        by (subst fixed_file.simps) (simp add: Let_def)
    next
      case f: False
      then show ?thesis using False h fixed_buffer_ok [OF assms, of "take ?n inp" 0 st]
        by (subst fixed_file.simps) (simp add: Let_def)
    qed
  qed
qed

text \<open>The chunks of a file, by the reference definitions.\<close>

definition chunks_of :: "Chunker \<Rightarrow> byte list \<Rightarrow> byte list list" where
  "chunks_of c inp = (case chunkerType c of FIXED_SIZE_CHUNKING \<Rightarrow> fixed_all c inp | FAST_CDC \<Rightarrow> cut_all c inp)"

definition queue_of :: "byte list list \<Rightarrow> Data_t list" where
  "queue_of cs = map DATA_CHUNK cs @ [RECIPE_END \<lparr>fileSize = word_of_nat (length (concat cs)), totalChunkNum = word_of_nat (length cs)\<rparr>]"

lemma Chunking_ok:
  assumes "chunker_ok c" "unat (maxChunkSize c) \<le> unat (readSize c)" "unat (readSize c) < 2 ^ 32"
  shows "Chunking c inp = Some (Inr (queue_of (chunks_of c inp)))"
  using cut_file_ok [OF assms, of inp 0 chunking_start] fixed_file_ok [OF assms(1), of inp chunking_start]
  by (cases "chunkerType c")
    (simp_all add: Chunking_def FastCDC_def fixSizeChunking_def chunks_of_def queue_of_def push_recipe_def push_chunks chunking_start_def)

lemma chunks_of_concat:
  assumes "chunker_ok c" "0 < unat (readSize c)"
  shows "concat (chunks_of c inp) = inp"
proof (cases "chunkerType c")
  case FIXED_SIZE_CHUNKING
  have "0 < unat (avgChunkSize c)" using assms(1) by (simp add: chunker_ok_def)
  then have "concat (concat (map (pieces (unat (avgChunkSize c))) xss)) = concat xss" for xss
    by (induction xss) (simp_all add: pieces_concat)
  then show ?thesis by (simp add: chunks_of_def FIXED_SIZE_CHUNKING fixed_all_def pieces_concat [OF assms(2)])
next
  case FAST_CDC
  then show ?thesis by (simp add: chunks_of_def cut_all_concat [OF assms(1)])
qed

lemma chunks_of_size: "chunker_ok c \<Longrightarrow> x \<in> set (chunks_of c inp) \<Longrightarrow> x \<noteq> [] \<and> length x \<le> unat (maxChunkSize c)"
  by (cases "chunkerType c")
    (auto simp: chunks_of_def fixed_all_def chunker_ok_def dest: pieces_size cut_all_max [rotated])

end
