(* ===== verification/Client.thy ===== *)
theory Client imports Chunker Batch begin

text \<open>
  The client around the chunker: the sender of an upload (\<open>src/Client/dataSender.cc\<close>), the receiver of a restore
  (\<open>src/Client/dataRetriever.cc\<close>) and the writer of the restored file (\<open>src/Client/restoreWriter.cc\<close>), with the loop
  of the server that takes the messages of an upload (\<open>src/Server/dataReceiver.cc\<close>) and the recipe file
  (\<open>src/Server/storageCore.cc\<close>).  The threads of the client hand chunks on through queues of one producer and one consumer,
  so the consumer sees the list that the producer pushed.  A connection delivers what was sent, in order.
\<close>

section \<open>The crypto wrapper outside the enclave\<close>

definition gcm_aad :: "byte list" where
  "gcm_aad = [0x4d, 0x23, 0xc3, 0xce, 0xc3, 0x34, 0xb4, 0x9b, 0xdb, 0x37, 0x0c, 0x43, 0x7f, 0xec, 0x78, 0xde]"

definition CryptoPrimitive_iv :: "byte list" where
  "CryptoPrimitive_iv = replicate CRYPTO_BLOCK_SIZE 0"

definition CryptoPrimitive_SessionKeyEnc :: "openssl \<Rightarrow> byte list \<Rightarrow> byte list \<Rightarrow> byte list res" where
  "CryptoPrimitive_SessionKeyEnc ssl data key = run_cipher (evp_encrypt ssl) (EVP_aes_128_gcm, gcm_aad) key CryptoPrimitive_iv data"

definition CryptoPrimitive_SessionKeyDec :: "openssl \<Rightarrow> byte list \<Rightarrow> byte list \<Rightarrow> byte list res" where
  "CryptoPrimitive_SessionKeyDec ssl data key = run_cipher (evp_decrypt ssl) (EVP_aes_128_gcm, gcm_aad) key CryptoPrimitive_iv data"

section \<open>Sending\<close>

text \<open>The messages of an upload: the encrypted chunks with their number, and the head of the recipe in the clear.\<close>

datatype upload_message = CLIENT_UPLOAD_CHUNK nat "byte list" | CLIENT_UPLOAD_RECIPE_END "byte list"

definition recipe_head_bytes :: "FileRecipeHead_t \<Rightarrow> byte list" where
  "recipe_head_bytes h = le64 (fileSize h) @ le64 (totalChunkNum h)"

definition sizeof_FileRecipeHead :: nat where
  "sizeof_FileRecipeHead = 16"

record sender =
  sd_dataBuffer :: "byte list"
  sd_dataSize :: nat
  sd_currentItemNum :: nat
  sd_sent :: "upload_message list"

definition DataSender_new :: "restore_env \<Rightarrow> sender" where
  "DataSender_new env =
     \<lparr>sd_dataBuffer = replicate (sendChunkBatchSize env * sizeof_Chunk) 0, sd_dataSize = 0, sd_currentItemNum = 0, sd_sent = []\<rparr>"

definition SendChunks :: "restore_env \<Rightarrow> sender \<Rightarrow> sender res" where
  "SendChunks env st =
     res_bind (buf_read (sd_dataBuffer st) 0 (sd_dataSize st)) (\<lambda>data.
     res_bind (CryptoPrimitive_SessionKeyEnc (env_ssl env) data (sessionKey env)) (\<lambda>c.
       Inr (st\<lparr>sd_sent := sd_sent st @ [CLIENT_UPLOAD_CHUNK (sd_currentItemNum st) c],
               sd_currentItemNum := 0, sd_dataSize := 0\<rparr>)))"

definition ProcessChunk :: "restore_env \<Rightarrow> byte list \<Rightarrow> sender \<Rightarrow> sender res" where
  "ProcessChunk env inputChunk st =
     res_bind (buf_write (sd_dataBuffer st) (sd_dataSize st) (le32 (word_of_nat (length inputChunk)))) (\<lambda>buf.
     res_bind (buf_write buf (sd_dataSize st + 4) inputChunk) (\<lambda>buf.
     let st = st\<lparr>sd_dataBuffer := buf, sd_dataSize := sd_dataSize st + 4 + length inputChunk,
                 sd_currentItemNum := Suc (sd_currentItemNum st)\<rparr> in
     if sd_currentItemNum st mod sendChunkBatchSize env = 0 then SendChunks env st else Inr st))"

definition ProcessRecipeEnd :: "restore_env \<Rightarrow> FileRecipeHead_t \<Rightarrow> sender \<Rightarrow> sender res" where
  "ProcessRecipeEnd env recipeHead st =
     res_bind (if sd_currentItemNum st \<noteq> 0 then SendChunks env st else Inr st) (\<lambda>st.
     res_bind (buf_write (sd_dataBuffer st) 0 (recipe_head_bytes recipeHead)) (\<lambda>buf.
     res_bind (buf_read buf 0 sizeof_FileRecipeHead) (\<lambda>data.
       Inr (st\<lparr>sd_dataBuffer := buf, sd_dataSize := sizeof_FileRecipeHead,
               sd_sent := sd_sent st @ [CLIENT_UPLOAD_RECIPE_END data]\<rparr>))))"

fun send_data :: "restore_env \<Rightarrow> Data_t \<Rightarrow> sender \<Rightarrow> sender res" where
  "send_data env (DATA_CHUNK chunk) st = ProcessChunk env chunk st"
| "send_data env (RECIPE_END h) st = ProcessRecipeEnd env h st"

definition DataSender_Run :: "restore_env \<Rightarrow> Data_t list \<Rightarrow> sender \<Rightarrow> sender res" where
  "DataSender_Run env = for_each (send_data env)"

section \<open>Receiving an upload\<close>

text \<open>
  The recipe file starts with a head that the code writes uninitialised; zeros stand for it, and \<open>FinalizeRecipe\<close>
  overwrites it before it closes the file.
  \<open>None\<close> stands for the open file; a flush of the recipe into the closed file ends the server.
\<close>

definition virtualRecipeEnd :: "byte list" where
  "virtualRecipeEnd = replicate sizeof_FileRecipeHead 0"

definition FinalizeRecipe :: "byte list \<Rightarrow> byte list \<Rightarrow> byte list" where
  "FinalizeRecipe recipeHead file = recipeHead @ drop (length recipeHead) file"

fun receive_message ::
    "restore_env \<Rightarrow> (nat \<Rightarrow> nat) \<times> upload_message \<Rightarrow> server \<times> byte list option \<Rightarrow> (server \<times> byte list option) res" where
  "receive_message env (turns, CLIENT_UPLOAD_CHUNK n data) (st, closed) =
     res_bind (EnclaveIndex_ProcessOneBatch env turns (data, n) st) (\<lambda>st'.
       if closed \<noteq> None \<and> recipeFile st' \<noteq> recipeFile st then Inl ExitError else Inr (st', closed))"
| "receive_message env (turns, CLIENT_UPLOAD_RECIPE_END recipeHead) (st, closed) =
     res_bind (tail_recipe env (inRecipe st) (recipeFile st)) (\<lambda>(r, written).
     if closed \<noteq> None then Inl ExitError
     else res_bind (ProcessTail_containers (up_store (srv_up st))) (\<lambda>store.
       Inr (st\<lparr>inRecipe := r, recipeFile := written, srv_up := (srv_up st)\<lparr>up_store := store\<rparr>\<rparr>,
            Some (FinalizeRecipe recipeHead (virtualRecipeEnd @ written)))))"

text \<open>The loop until the connection is closed, then the last containers and the end of the writer thread.\<close>

definition DataReceiver_Run ::
    "restore_env \<Rightarrow> ((nat \<Rightarrow> nat) \<times> upload_message) list \<Rightarrow> server \<Rightarrow> (server \<times> byte list option) res" where
  "DataReceiver_Run env msgs st =
     res_bind (for_each (receive_message env) msgs (st, None)) (\<lambda>(st, closed).
     res_bind (Receiver_finish (up_store (srv_up st))) (\<lambda>store.
     res_bind (DataWriter_run (inputMQ store) (disk store)) (\<lambda>files.
       Inr (st\<lparr>srv_up := (srv_up st)\<lparr>up_store := store\<lparr>inputMQ := [], disk := files\<rparr>\<rparr>\<rparr>, closed))))"

section \<open>Retrieving\<close>

text \<open>The head of the recipe that the server sends with its answer to the login.\<close>

definition login_head :: "byte list \<Rightarrow> FileRecipeHead_t res" where
  "login_head rfile =
     res_bind (buf_read rfile 0 sizeof_FileRecipeHead) (\<lambda>b.
       Inr \<lparr>fileSize = get64 (bslice b 0 8), totalChunkNum = get64 (bslice b 8 8)\<rparr>)"

record retriever =
  decBuffer :: "byte list"
  rt_queue :: "byte list list"
  totalRecvChunkNum :: u64

definition DataRetriever_new :: "restore_env \<Rightarrow> retriever" where
  "DataRetriever_new env = \<lparr>decBuffer = replicate (sendChunkBatchSize env * sizeof_Chunk) 0, rt_queue = [], totalRecvChunkNum = 0\<rparr>"

text \<open>The loop over the chunks of a message; a chunk is copied into an array of \<open>MAX_CHUNK_SIZE\<close> bytes.\<close>

fun take_chunks :: "nat \<Rightarrow> nat \<Rightarrow> retriever \<Rightarrow> retriever res" where
  "take_chunks 0 offset st = Inr st"
| "take_chunks (Suc n) offset st =
     res_bind (buf_read (decBuffer st) offset 4) (\<lambda>size.
     let chunkSize = unat (get32 size) in
     if MAX_CHUNK_SIZE < chunkSize then Inl OutOfBounds
     else res_bind (buf_read (decBuffer st) (offset + 4) chunkSize) (\<lambda>data.
       take_chunks n (offset + 4 + chunkSize)
         (st\<lparr>rt_queue := rt_queue st @ [data], totalRecvChunkNum := totalRecvChunkNum st + 1\<rparr>)))"

definition ProcessChunkBatch :: "restore_env \<Rightarrow> nat \<Rightarrow> byte list \<Rightarrow> retriever \<Rightarrow> retriever res" where
  "ProcessChunkBatch env num data st =
     res_bind (CryptoPrimitive_SessionKeyDec (env_ssl env) data (sessionKey env)) (\<lambda>plain.
     res_bind (buf_write (decBuffer st) 0 plain) (\<lambda>buf. take_chunks num 0 (st\<lparr>decBuffer := buf\<rparr>)))"

text \<open>The messages up to the final one; a connection that ends before is an error.\<close>

fun receive_chunks :: "restore_env \<Rightarrow> (messageType \<times> nat \<times> byte list) list \<Rightarrow> retriever \<Rightarrow> retriever res" where
  "receive_chunks env [] st = Inl ExitError"
| "receive_chunks env ((t, n, data) # ms) st =
     res_bind (ProcessChunkBatch env n data st) (\<lambda>st.
       case t of SERVER_RESTORE_CHUNK \<Rightarrow> receive_chunks env ms st | SERVER_RESTORE_FINAL \<Rightarrow> Inr st)"

definition DataRetriever_Run ::
    "restore_env \<Rightarrow> FileRecipeHead_t \<Rightarrow> (messageType \<times> nat \<times> byte list) list \<Rightarrow> retriever \<Rightarrow> retriever res" where
  "DataRetriever_Run env fileRecipeHead ms st =
     res_bind (receive_chunks env ms st) (\<lambda>st.
       if totalRecvChunkNum st \<noteq> totalChunkNum fileRecipeHead then Inl ExitError else Inr st)"

section \<open>Writing the restored file\<close>

record writer =
  outputFile :: "byte list"
  totalRecvNum :: u64
  totalWrittenSize :: u64

definition write_chunk :: "byte list \<Rightarrow> writer \<Rightarrow> writer" where
  "write_chunk newData st =
     st\<lparr>outputFile := outputFile st @ newData, totalRecvNum := totalRecvNum st + 1,
        totalWrittenSize := totalWrittenSize st + word_of_nat (length newData)\<rparr>"

definition RestoreWriter_Run :: "byte list list \<Rightarrow> writer" where
  "RestoreWriter_Run chunks = fold write_chunk chunks \<lparr>outputFile = [], totalRecvNum = 0, totalWrittenSize = 0\<rparr>"

end
