(* ===== verification/Client_Correct.thy ===== *)
theory Client_Correct imports Client Batch_Props begin

text \<open>
  The client is right: the messages of the restore path fit the client's buffer and end with the final
  one, the retriever takes from them the chunks, the sender packs all chunks into batches, and the server's loop over the messages
  is an upload.
\<close>

section \<open>The messages of a restore\<close>

definition msgs_ok :: "nat \<Rightarrow> restorer \<Rightarrow> bool" where
  "msgs_ok N st \<longleftrightarrow> length (dataBuffer st) = N \<and> (\<forall>(t, n, c) \<in> set (sent st). t = SERVER_RESTORE_CHUNK \<and> length c \<le> N)"

lemma run_cipher_length: "run_cipher run s key iv data = Inr out \<Longrightarrow> length out = length data"
  by (auto simp: run_cipher_def split: option.splits if_splits)

lemma msgs_ok_kept: "dataBuffer st' = dataBuffer st \<Longrightarrow> sent st' = sent st \<Longrightarrow> msgs_ok N st' = msgs_ok N st"
  by (simp add: msgs_ok_def)

lemma put_chunk_msgs: "put_chunk c st = Inr st' \<Longrightarrow> msgs_ok N st \<Longrightarrow> msgs_ok N st'"
  by (auto simp: put_chunk_def res_bind_eq_Inr msgs_ok_def dest!: buf_write_length)

lemma send_message_data:
  assumes "send_message env t st = Inr st'" "msgs_ok N st"
  obtains n c where "sent st' = sent st @ [(t, n, c)]" "length c \<le> N" "length (dataBuffer st') = N"
proof -
  obtain d c where d: "buf_read (dataBuffer st) 0 (dataSize st) = Inr d" "SessionKeyEnc (env_ssl env) cryptoObj d (sessionKey env) = Inr c"
    "st' = st\<lparr>sent := sent st @ [(t, currentItemNum st, c)], dataSize := 0, currentItemNum := 0\<rparr>"
    using assms(1) by (auto simp: send_message_def res_bind_eq_Inr)
  have "length c = length d" using d(2) by (simp add: SessionKeyEnc_def run_cipher_length)
  moreover have "length d \<le> length (dataBuffer st)" using d(1) by (auto simp: buf_read_Inr bslice_def)
  ultimately show thesis using assms(2) d(3) by (intro that [of "currentItemNum st" c]) (auto simp: msgs_ok_def)
qed

lemma send_chunk_msgs: "send_message env SERVER_RESTORE_CHUNK st = Inr st' \<Longrightarrow> msgs_ok N st \<Longrightarrow> msgs_ok N st'"
  by (erule (1) send_message_data) (auto simp: msgs_ok_def)

lemma restore_chunk_msgs: "restore_chunk env er b st = Inr (b', st') \<Longrightarrow> msgs_ok N st \<Longrightarrow> msgs_ok N st'"
  by (auto simp: restore_chunk_def RecoverDelta_def RecoverOneChunk_def res_bind_eq_Inr Let_def
      split: if_splits option.splits dest: put_chunk_msgs)

lemma restore_chunks_msgs: "restore_chunks env ers b st = Inr st' \<Longrightarrow> msgs_ok N st \<Longrightarrow> msgs_ok N st'"
proof (induction ers arbitrary: b st)
  case (Cons er ers)
  then show ?case
    by (auto simp: res_bind_eq_Inr split: if_splits dest!: restore_chunk_msgs [where N = N] send_chunk_msgs [where N = N])
qed simp

text \<open>All messages but the last are plain, the last one is final, and all fit the buffer of the client.\<close>

definition stream_ok :: "nat \<Rightarrow> (messageType \<times> nat \<times> byte list) list \<Rightarrow> bool" where
  "stream_ok N ms \<longleftrightarrow> (\<exists>init n c. ms = init @ [(SERVER_RESTORE_FINAL, n, c)] \<and> length c \<le> N \<and>
     (\<forall>(t, n, c) \<in> set init. t = SERVER_RESTORE_CHUNK \<and> length c \<le> N))"

lemma send_final_stream: "send_message env SERVER_RESTORE_FINAL st = Inr st' \<Longrightarrow> msgs_ok N st \<Longrightarrow> stream_ok N (sent st')"
  by (erule (1) send_message_data) (auto simp: msgs_ok_def stream_ok_def)

lemma restore_tail_stream:
  "restore_tail env ers b st = Inr st' \<Longrightarrow> ers \<noteq> [] \<Longrightarrow> msgs_ok N st \<Longrightarrow> stream_ok N (sent st')"
proof (induction ers arbitrary: b st)
  case (Cons er ers)
  obtain b1 st1 where c: "restore_chunk env er b st = Inr (b1, st1)" using Cons.prems(1) by (auto simp: res_bind_eq_Inr Let_def)
  have m: "msgs_ok N st1" using restore_chunk_msgs [OF c Cons.prems(3)] .
  show ?case
  proof (cases "ers = []")
    case True
    then show ?thesis using Cons.prems(1) c m by (auto simp: res_bind_eq_Inr Let_def dest: send_final_stream)
  next
    case False
    then obtain st2 where "msgs_ok N st2" "restore_tail env ers b1 st2 = Inr st'"
      using Cons.prems(1) c m by (auto simp: res_bind_eq_Inr Let_def split: if_splits dest: send_chunk_msgs)
    then show ?thesis using Cons.IH False by blast
  qed
qed simp

lemma request_container_msgs: "request_container name m st = Inr (i, m', st') \<Longrightarrow> msgs_ok N st' = msgs_ok N st"
  by (auto simp: request_container_def res_bind_eq_Inr msgs_ok_def split: option.splits)

lemma query_base_msgs: "Ocall_QueryBaseIndex env st = Inr st' \<Longrightarrow> msgs_ok N st' = msgs_ok N st \<and> enclaveRecipeBuffer st' = enclaveRecipeBuffer st"
  by (auto simp: Ocall_QueryBaseIndex_def res_bind_eq_Inr msgs_ok_def)

lemma add_bases_recipes: "add_bases env es m st = Inr (m', st') \<Longrightarrow> enclaveRecipeBuffer st' = enclaveRecipeBuffer st"
proof (induction es arbitrary: m st)
  case (Cons e es)
  obtain h a where e: "e = (h, a)" by (cases e)
  obtain r i m1 st1 where r: "request_container (containerName r) m st = Inr (i, m1, st1)"
    "add_bases env es m1 (st1\<lparr>baseRecipeBuffer := baseRecipeBuffer st1 @ [recipe_entry i r]\<rparr>) = Inr (m', st')"
    using Cons.prems(1) by (auto simp: e res_bind_eq_Inr)
  have "enclaveRecipeBuffer st1 = enclaveRecipeBuffer st"
    using r(1) by (auto simp: request_container_def res_bind_eq_Inr split: option.splits)
  then show ?case using Cons.IH [OF r(2)] by simp
qed simp

lemma add_bases_msgs: "add_bases env es m st = Inr (m', st') \<Longrightarrow> msgs_ok N st \<Longrightarrow> msgs_ok N st'"
proof (induction es arbitrary: m st)
  case (Cons e es)
  obtain h a where e: "e = (h, a)" by (cases e)
  obtain r i m1 st1 where r: "request_container (containerName r) m st = Inr (i, m1, st1)"
    "add_bases env es m1 (st1\<lparr>baseRecipeBuffer := baseRecipeBuffer st1 @ [recipe_entry i r]\<rparr>) = Inr (m', st')"
    using Cons.prems(1) by (auto simp: e res_bind_eq_Inr)
  show ?case
    by (rule Cons.IH [OF r(2)]) (use Cons.prems(2) request_container_msgs [OF r(1)] in \<open>simp add: msgs_ok_def\<close>)
qed simp

lemma resolve_bases_msgs: "resolve_bases env m st = Inr (m', st') \<Longrightarrow> msgs_ok N st \<Longrightarrow> msgs_ok N st'"
proof -
  assume r: "resolve_bases env m st = Inr (m', st')" and m: "msgs_ok N st"
  then obtain st1 where q: "Ocall_QueryBaseIndex env st = Inr st1" "add_bases env (take (queryNum st1) (baseQuery st1)) m st1 = Inr (m', st')"
    by (auto simp: resolve_bases_def res_bind_eq_Inr)
  show "msgs_ok N st'" by (rule add_bases_msgs [OF q(2)]) (use query_base_msgs [OF q(1)] m in simp)
qed

lemma fetch_msgs: "Ocall_GetReqContainers env st = Inr st' \<Longrightarrow> msgs_ok N st' = msgs_ok N st"
  by (auto simp: Ocall_GetReqContainers_def res_bind_eq_Inr msgs_ok_def)

lemma set_query_msgs: "set_query i h st = Inr st' \<Longrightarrow> msgs_ok N st' = msgs_ok N st"
  by (auto simp: set_query_def msgs_ok_def split: if_splits)

lemma queue_base_msgs: "queue_base env h m st = Inr (m', st') \<Longrightarrow> msgs_ok N st \<Longrightarrow> msgs_ok N st'"
  by (auto simp: queue_base_def res_bind_eq_Inr set_query_msgs split: if_splits dest: resolve_bases_msgs)

lemma restore_window_msgs:
  assumes "restore_window env m st = Inr st'" "msgs_ok N st"
  shows "msgs_ok N st'"
proof -
  obtain st1 st2 st3 where s: "(if queryNum st \<noteq> 0 then res_bind (resolve_bases env m st) (\<lambda>(m, st). Inr (st\<lparr>queryNum := 0\<rparr>)) else Inr st) = Inr st1"
    "Ocall_GetReqContainers env st1 = Inr st2" "restore_chunks env (enclaveRecipeBuffer st2) 0 st2 = Inr st3" "st' = reset_requests st3"
    using assms(1) by (auto simp: restore_window_def res_bind_eq_Inr)
  have "msgs_ok N st1"
    using s(1) assms(2) by (auto simp: res_bind_eq_Inr split: if_splits dest!: resolve_bases_msgs [where N = N]) (simp add: msgs_ok_def)
  then have "msgs_ok N st3" using restore_chunks_msgs [OF s(3)] fetch_msgs [OF s(2)] by simp
  then show ?thesis by (simp add: s(4) reset_requests_def msgs_ok_def)
qed

lemma proc_entry_msgs:
  assumes "proc_entry env r m st = Inr (m', st')" "msgs_ok N st"
  shows "msgs_ok N st'"
proof -
  obtain m1 st1 where q: "(if re_deltaFlag r = DELTA then queue_base env (basechunkHash r) m st else Inr (m, st)) = Inr (m1, st1)"
    using assms(1) by (auto simp: proc_entry_def res_bind_eq_Inr)
  have m1: "msgs_ok N st1" using q assms(2) by (auto split: if_splits dest: queue_base_msgs)
  obtain i m2 st2 where r: "request_container (containerName r) m1 st1 = Inr (i, m2, st2)"
    using assms(1) by (auto simp: proc_entry_def q res_bind_eq_Inr)
  let ?st = "st2\<lparr>enclaveRecipeBuffer := enclaveRecipeBuffer st2 @ [recipe_entry i r]\<rparr>"
  have "msgs_ok N ?st" using m1 request_container_msgs [OF r] by (simp add: msgs_ok_def)
  then show ?thesis
    using assms(1) by (auto simp: proc_entry_def q r res_bind_eq_Inr Let_def split: if_splits dest: restore_window_msgs)
qed

lemma proc_entries_msgs: "proc_entries env frs i n m st = Inr st' \<Longrightarrow> msgs_ok N st \<Longrightarrow> msgs_ok N st'"
  by (induction n arbitrary: i m st) (auto simp: res_bind_eq_Inr dest!: proc_entry_msgs [where N = N])

lemma ProcRecipeBatch_msgs: "ProcRecipeBatch env rb n st = Inr st' \<Longrightarrow> msgs_ok N st \<Longrightarrow> msgs_ok N st'"
  by (auto simp: ProcRecipeBatch_def res_bind_eq_Inr dest: proc_entries_msgs)

lemma restore_batches_msgs: "restore_batches env rf st = Inr st' \<Longrightarrow> msgs_ok N st \<Longrightarrow> msgs_ok N st'"
proof (induction env rf st rule: restore_batches.induct)
  case (1 env rf st)
  let ?n = "CHUNK_HASH_SIZE * sendRecipeBatchSize env"
  show ?case
  proof (cases "take ?n rf = []")
    case True
    then have "restore_batches env rf st = Inr st" by (subst restore_batches.simps) (simp only: Let_def simp_thms if_True)
    then show ?thesis using 1(2,3) by simp
  next
    case False
    obtain st1 where b: "ProcRecipeBatch env (take ?n rf) (length (take ?n rf) div CHUNK_HASH_SIZE) st = Inr st1"
      "(if length (take ?n rf) < ?n then Inr st1 else restore_batches env (drop ?n rf) st1) = Inr st'"
      using 1(2) False by (subst (asm) restore_batches.simps) (simp only: Let_def if_False res_bind_eq_Inr, blast)
    have m: "msgs_ok N st1" by (rule ProcRecipeBatch_msgs [OF b(1) 1(3)])
    show ?thesis using b(2) m 1(1) [OF refl refl False b(1)] by (auto split: if_splits)
  qed
qed

lemma EnclaveRecvDecoder_stream:
  assumes "EnclaveRecvDecoder_Run env rf st = Inr st'" "msgs_ok N st"
  shows "stream_ok N (sent st')"
proof -
  obtain st1 where s: "restore_batches env rf st = Inr st1" "ProcRecipeTailBatch env st1 = Inr st'"
    using assms(1) by (auto simp: EnclaveRecvDecoder_Run_def res_bind_eq_Inr)
  have m: "msgs_ok N st1" by (rule restore_batches_msgs [OF s(1) assms(2)])
  show ?thesis
  proof (cases "enclaveRecipeBuffer st1 = []")
    case True
    then show ?thesis using s(2) m by (auto simp: ProcRecipeTailBatch_def dest: send_final_stream)
  next
    case False
    obtain st2 m3 st3 st4 where t: "(if queryNum st1 \<noteq> 0 then Ocall_QueryBaseIndex env st1 else Inr st1) = Inr st2"
      "add_bases env (take (queryNum st2) (baseQuery st2)) Map.empty st2 = Inr (m3, st3)"
      "Ocall_GetReqContainers env (st3\<lparr>queryNum := 0\<rparr>) = Inr st4" "restore_tail env (enclaveRecipeBuffer st4) 0 st4 = Inr st'"
      using s(2) False by (auto simp: ProcRecipeTailBatch_def res_bind_eq_Inr)
    have "msgs_ok N st2" using t(1) m query_base_msgs by (auto split: if_splits)
    then have "msgs_ok N st3" by (rule add_bases_msgs [OF t(2)])
    then have "msgs_ok N (st3\<lparr>queryNum := 0\<rparr>)" by (simp add: msgs_ok_def)
    then have m4: "msgs_ok N st4" using fetch_msgs [OF t(3)] by simp
    show ?thesis
    proof (cases "enclaveRecipeBuffer st4 = []")
      case True
      moreover have "enclaveRecipeBuffer st2 = enclaveRecipeBuffer st1"
        using t(1) query_base_msgs by (auto split: if_splits)
      moreover have "enclaveRecipeBuffer st4 = enclaveRecipeBuffer st3"
        using t(3) by (auto simp: Ocall_GetReqContainers_def res_bind_eq_Inr)
      ultimately show ?thesis using False add_bases_recipes [OF t(2)] by simp
    next
      case f: False
      then show ?thesis by (rule restore_tail_stream [OF t(4) _ m4])
    qed
  qed
qed

section \<open>The client's side of a restore\<close>

lemma client_SessionKeyDec [simp]: "CryptoPrimitive_SessionKeyDec ssl data key = SessionKeyDec ssl cryptoObj data key"
  by (simp add: CryptoPrimitive_SessionKeyDec_def SessionKeyDec_def gcm_aad_def ecall_gcm_aad_def CryptoPrimitive_iv_def
      cryptoObj_def EcallCrypto_new_def)

lemma client_SessionKeyEnc [simp]: "CryptoPrimitive_SessionKeyEnc ssl data key = SessionKeyEnc ssl cryptoObj data key"
  by (simp add: CryptoPrimitive_SessionKeyEnc_def SessionKeyEnc_def gcm_aad_def ecall_gcm_aad_def CryptoPrimitive_iv_def
      cryptoObj_def EcallCrypto_new_def)

lemma buf_read_inside:
  assumes "take (length bs) (drop off buf) = bs" "buf_read bs p n = Inr x" "off \<le> length buf"
  shows "buf_read buf (off + p) n = Inr x"
proof -
  have p: "p + n \<le> length bs" "x = bslice bs p n" using assms(2) by (auto simp: buf_read_Inr)
  have l: "length bs \<le> length buf - off" using arg_cong [OF assms(1), of length] by simp
  have "bslice bs p n = bslice buf (off + p) n"
  proof -
    have "bslice bs p n = take n (drop p (take (length bs) (drop off buf)))" by (simp add: bslice_def assms(1))
    also have "\<dots> = take n (drop (off + p) buf)" using p(1) by (simp add: drop_take add.commute)
    finally show ?thesis by (simp add: bslice_def)
  qed
  then show ?thesis using p l assms(3) by (simp add: buf_read_def)
qed

lemma take_chunks_parse:
  assumes "parse_chunks n bs = Inr cs" "\<forall>c \<in> set cs. length c \<le> MAX_CHUNK_SIZE" "take (length bs) (drop off (decBuffer st)) = bs"
    "off \<le> length (decBuffer st)"
  shows "take_chunks n off st = Inr (st\<lparr>rt_queue := rt_queue st @ cs, totalRecvChunkNum := totalRecvChunkNum st + word_of_nat (length cs)\<rparr>)"
  using assms
proof (induction n arbitrary: bs cs off st)
  case (Suc n)
  obtain size chunk more where p: "buf_read bs 0 4 = Inr size" "buf_read bs 4 (unat (get32 size)) = Inr chunk"
    "parse_chunks n (drop (4 + unat (get32 size)) bs) = Inr more" "cs = chunk # more"
    using Suc.prems(1) by (auto simp: res_bind_eq_Inr)
  let ?k = "unat (get32 size)"
  have r: "buf_read (decBuffer st) off 4 = Inr size" "buf_read (decBuffer st) (off + 4) ?k = Inr chunk"
    using buf_read_inside [OF Suc.prems(3) p(1) Suc.prems(4)] buf_read_inside [OF Suc.prems(3) p(2) Suc.prems(4)] by simp_all
  have l: "length chunk = ?k" "off + 4 + ?k \<le> length (decBuffer st)" using r(2) by (auto simp: buf_read_Inr bslice_def)
  have m: "?k \<le> MAX_CHUNK_SIZE" using Suc.prems(2) l(1) p(4) by simp
  let ?st = "st\<lparr>rt_queue := rt_queue st @ [chunk], totalRecvChunkNum := totalRecvChunkNum st + 1\<rparr>"
  have "take (length (drop (4 + ?k) bs)) (drop (off + 4 + ?k) (decBuffer ?st)) = drop (4 + ?k) (take (length bs) (drop off (decBuffer st)))"
    by (simp add: drop_take add.commute add.left_commute)
  then have d: "take (length (drop (4 + ?k) bs)) (drop (off + 4 + ?k) (decBuffer ?st)) = drop (4 + ?k) bs" by (simp only: Suc.prems(3))
  have "take_chunks n (off + 4 + ?k) ?st = Inr (?st\<lparr>rt_queue := rt_queue ?st @ more,
      totalRecvChunkNum := totalRecvChunkNum ?st + word_of_nat (length more)\<rparr>)"
    by (rule Suc.IH [OF p(3) _ d]) (use Suc.prems(2) p(4) l(2) in simp_all)
  then show ?case using r m by (simp add: p(4) ac_simps)
qed simp

lemma ProcessChunkBatch_ok:
  assumes "SessionKeyDec (env_ssl env) cryptoObj c (sessionKey env) = Inr data" "parse_chunks n data = Inr cs"
    "\<forall>x \<in> set cs. length x \<le> MAX_CHUNK_SIZE" "length c \<le> length (decBuffer st)"
  obtains buf where "ProcessChunkBatch env n c st = Inr (st\<lparr>decBuffer := buf, rt_queue := rt_queue st @ cs,
      totalRecvChunkNum := totalRecvChunkNum st + word_of_nat (length cs)\<rparr>)" "length buf = length (decBuffer st)"
proof -
  have l: "length data = length c" using assms(1) by (simp add: SessionKeyDec_def run_cipher_length)
  then obtain buf where b: "buf_write (decBuffer st) 0 data = Inr buf" using assms(4) by (auto simp: buf_write_def)
  have t: "take (length data) (drop 0 (decBuffer (st\<lparr>decBuffer := buf\<rparr>))) = data" using b by (auto simp: buf_write_Inr)
  have "take_chunks n 0 (st\<lparr>decBuffer := buf\<rparr>) = Inr (st\<lparr>decBuffer := buf, rt_queue := rt_queue st @ cs,
      totalRecvChunkNum := totalRecvChunkNum st + word_of_nat (length cs)\<rparr>)"
    using take_chunks_parse [OF assms(2,3) t] by simp
  then show thesis using b buf_write_length [OF b] assms(1) by (intro that [of buf]) (simp_all add: ProcessChunkBatch_def)
qed

lemma receive_chunks_ok:
  assumes "stream_ok N ms" "client_chunks env ms = Inr cs" "\<forall>x \<in> set cs. length x \<le> MAX_CHUNK_SIZE" "N = length (decBuffer st)"
  shows "\<exists>buf. receive_chunks env ms st = Inr (st\<lparr>decBuffer := buf, rt_queue := rt_queue st @ cs,
      totalRecvChunkNum := totalRecvChunkNum st + word_of_nat (length cs)\<rparr>)"
  using assms
proof (induction ms arbitrary: st cs)
  case (Cons m ms)
  obtain t n c where m: "m = (t, n, c)" by (cases m)
  obtain data cs1 cs2 where p: "SessionKeyDec (env_ssl env) cryptoObj c (sessionKey env) = Inr data" "parse_chunks n data = Inr cs1"
    "client_chunks env ms = Inr cs2" "cs = cs1 @ cs2"
    using Cons.prems(2) by (auto simp: m res_bind_eq_Inr)
  have "length c \<le> N" using Cons.prems(1) by (auto simp: stream_ok_def m Cons_eq_append_conv)
  then obtain buf where b: "ProcessChunkBatch env n c st = Inr (st\<lparr>decBuffer := buf, rt_queue := rt_queue st @ cs1,
      totalRecvChunkNum := totalRecvChunkNum st + word_of_nat (length cs1)\<rparr>)" "length buf = length (decBuffer st)"
    using ProcessChunkBatch_ok [OF p(1,2), of st] Cons.prems(3,4) p(4) by auto
  show ?case
  proof (cases "ms = []")
    case True
    then have "t = SERVER_RESTORE_FINAL" using Cons.prems(1) by (auto simp: stream_ok_def m Cons_eq_append_conv)
    then show ?thesis using b(1) p True by (auto simp: m)
  next
    case False
    then have s: "t = SERVER_RESTORE_CHUNK" "stream_ok N ms" using Cons.prems(1) by (auto simp: stream_ok_def m Cons_eq_append_conv)
    let ?st = "st\<lparr>decBuffer := buf, rt_queue := rt_queue st @ cs1, totalRecvChunkNum := totalRecvChunkNum st + word_of_nat (length cs1)\<rparr>"
    obtain buf' where "receive_chunks env ms ?st = Inr (?st\<lparr>decBuffer := buf', rt_queue := rt_queue ?st @ cs2,
      totalRecvChunkNum := totalRecvChunkNum ?st + word_of_nat (length cs2)\<rparr>)"
      using Cons.IH [OF s(2) p(3), of ?st] Cons.prems(3,4) p(4) b(2) by auto
    then show ?thesis using b(1) s(1) p(4) by (auto simp: m ac_simps)
  qed
qed (simp add: stream_ok_def)

section \<open>The client's side of an upload\<close>

lemma batch_bytes_ser: "batch_bytes cs = ser_chunks cs"
  by (simp add: batch_bytes_def ser_chunks_def chunk_bytes_def [abs_def])

definition carries_batch :: "restore_env \<Rightarrow> byte list set \<Rightarrow> upload_message \<Rightarrow> byte list list \<Rightarrow> bool" where
  "carries_batch env CS m batch \<longleftrightarrow> (\<exists>data. m = CLIENT_UPLOAD_CHUNK (length batch) data \<and> message_ok env CS data batch)"

text \<open>What was sent in \<open>batches\<close>, and the chunks \<open>buf\<close> in the message under construction.\<close>

definition sender_ok :: "restore_env \<Rightarrow> byte list set \<Rightarrow> sender \<Rightarrow> byte list list list \<Rightarrow> byte list list \<Rightarrow> bool" where
  "sender_ok env CS st batches buf \<longleftrightarrow> list_all2 (carries_batch env CS) (sd_sent st) batches \<and>
     length (sd_dataBuffer st) = sendChunkBatchSize env * sizeof_Chunk \<and> sd_dataSize st = length (ser_chunks buf) \<and>
     take (length (ser_chunks buf)) (sd_dataBuffer st) = ser_chunks buf \<and> sd_currentItemNum st = length buf \<and>
     length buf \<le> sendChunkBatchSize env \<and> set buf \<subseteq> CS"

lemma DataSender_new_ok: "sender_ok env CS (DataSender_new env) [] []"
  by (simp add: sender_ok_def DataSender_new_def)

lemma SendChunks_ok:
  assumes "env_ok env" "sender_ok env CS st batches buf"
  obtains st' where "SendChunks env st = Inr st'" "sender_ok env CS st' (batches @ [buf]) []"
proof -
  have s: "openssl_ok (env_ssl env)" "length (sessionKey env) = 32" using assms(1) by (simp_all add: env_ok_def)
  note h = assms(2) [unfolded sender_ok_def]
  have "length (ser_chunks buf) \<le> length (sd_dataBuffer st)" using h by (metis length_take min.cobounded1)
  then have r: "buf_read (sd_dataBuffer st) 0 (sd_dataSize st) = Inr (ser_chunks buf)"
    using h by (simp add: buf_read_def bslice_def)
  obtain c where c: "SessionKeyEnc (env_ssl env) cryptoObj (ser_chunks buf) (sessionKey env) = Inr c"
    "SessionKeyDec (env_ssl env) cryptoObj c (sessionKey env) = Inr (ser_chunks buf)"
    by (rule SessionKeyEnc_ok [OF s])
  have "carries_batch env CS (CLIENT_UPLOAD_CHUNK (sd_currentItemNum st) c) buf"
    using h c(2) by (simp add: carries_batch_def message_ok_def batch_bytes_ser)
  then show thesis
    using h r c(1) by (intro that [of "st\<lparr>sd_sent := sd_sent st @ [CLIENT_UPLOAD_CHUNK (sd_currentItemNum st) c],
        sd_currentItemNum := 0, sd_dataSize := 0\<rparr>"]) (simp_all add: SendChunks_def sender_ok_def list_all2_appendI)
qed

lemma ProcessChunk_ok:
  assumes env: "env_ok env" and h: "sender_ok env CS st batches buf" "length buf < sendChunkBatchSize env"
    and c: "chunk \<in> CS" "\<forall>x \<in> CS. length x \<le> MAX_CHUNK_SIZE"
  obtains st' batches' buf' where "ProcessChunk env chunk st = Inr st'" "sender_ok env CS st' batches' buf'"
    "length buf' < sendChunkBatchSize env" "concat batches' @ buf' = concat batches @ buf @ [chunk]"
proof -
  let ?l = "le32 (word_of_nat (length chunk))" and ?n = "sd_dataSize st"
  note h1 = h(1) [unfolded sender_ok_def]
  have len: "length chunk \<le> MAX_CHUNK_SIZE" using c by simp
  have "length (ser_chunks buf) \<le> length buf * sizeof_Chunk" using h1 c(2) by (intro ser_chunks_length) auto
  moreover have "Suc (length buf) * sizeof_Chunk \<le> sendChunkBatchSize env * sizeof_Chunk" using h(2) by (intro mult_le_mono1) simp
  ultimately have r: "?n + 4 + length chunk \<le> length (sd_dataBuffer st)" using h1 len by (simp add: sizeof_Chunk_def)
  then obtain b1 where b1: "buf_write (sd_dataBuffer st) ?n ?l = Inr b1" by (auto simp: buf_write_def)
  with r obtain b2 where b2: "buf_write b1 (?n + 4) chunk = Inr b2" using buf_write_length [OF b1] by (auto simp: buf_write_def)
  have t1: "take (?n + 4) b1 = ser_chunks buf @ ?l" using buf_write_take [OF b1] h1 by simp
  have t2: "take (?n + 4 + length chunk) b2 = take (?n + 4) b1 @ chunk" using buf_write_take [OF b2] by simp
  have l: "length b2 = length (sd_dataBuffer st)" using buf_write_length [OF b1] buf_write_length [OF b2] by simp
  let ?st = "st\<lparr>sd_dataBuffer := b2, sd_dataSize := ?n + 4 + length chunk, sd_currentItemNum := Suc (sd_currentItemNum st)\<rparr>"
  have ok: "sender_ok env CS ?st batches (buf @ [chunk])" using h1 h(2) c(1) t1 t2 l by (simp add: sender_ok_def add.assoc)
  have p: "ProcessChunk env chunk st =
      (if Suc (length buf) mod sendChunkBatchSize env = 0 then SendChunks env ?st else Inr ?st)"
    using h1 b1 b2 by (simp add: ProcessChunk_def Let_def)
  show thesis
  proof (cases "Suc (length buf) mod sendChunkBatchSize env = 0")
    case True
    obtain st' where "SendChunks env ?st = Inr st'" "sender_ok env CS st' (batches @ [buf @ [chunk]]) []"
      by (rule SendChunks_ok [OF env ok])
    then show thesis using p True h(2) by (intro that [of st' "batches @ [buf @ [chunk]]" "[]"]) auto
  next
    case False
    then have "Suc (length buf) < sendChunkBatchSize env" using h(2) by (cases "Suc (length buf) = sendChunkBatchSize env") auto
    then show thesis using p False ok by (intro that [of ?st batches "buf @ [chunk]"]) auto
  qed
qed

lemma send_all_ok:
  assumes "env_ok env" "\<forall>x \<in> CS. length x \<le> MAX_CHUNK_SIZE"
  shows "set cs \<subseteq> CS \<Longrightarrow> sender_ok env CS st batches buf \<Longrightarrow> length buf < sendChunkBatchSize env \<Longrightarrow>
    \<exists>st' batches' buf'. DataSender_Run env (map DATA_CHUNK cs) st = Inr st' \<and> sender_ok env CS st' batches' buf' \<and>
      concat batches' @ buf' = concat batches @ buf @ cs"
proof (induction cs arbitrary: st batches buf)
  case (Cons c cs)
  obtain st1 bs1 buf1 where s: "ProcessChunk env c st = Inr st1" "sender_ok env CS st1 bs1 buf1"
    "length buf1 < sendChunkBatchSize env" "concat bs1 @ buf1 = concat batches @ buf @ [c]"
    by (rule ProcessChunk_ok [OF assms(1) Cons.prems(2,3) _ assms(2)]) (use Cons.prems(1) in auto)
  obtain st' batches' buf' where "DataSender_Run env (map DATA_CHUNK cs) st1 = Inr st'" "sender_ok env CS st' batches' buf'"
    "concat batches' @ buf' = concat bs1 @ buf1 @ cs" using Cons.IH [OF _ s(2,3)] Cons.prems(1) by auto
  then show ?case using s(1,4) by (intro exI [of _ st'] exI [of _ batches'] exI [of _ buf']) (simp add: DataSender_Run_def)
qed (auto simp: DataSender_Run_def)

text \<open>A run of the sender: batches with all the chunks, and then the head of the recipe.\<close>

lemma DataSender_ok:
  assumes "env_ok env" "set cs \<subseteq> CS" "\<forall>x \<in> CS. length x \<le> MAX_CHUNK_SIZE"
  obtains st msgs batches where "DataSender_Run env (map DATA_CHUNK cs @ [RECIPE_END h]) (DataSender_new env) = Inr st"
    "sd_sent st = msgs @ [CLIENT_UPLOAD_RECIPE_END (recipe_head_bytes h)]" "list_all2 (carries_batch env CS) msgs batches"
    "concat batches = cs"
proof -
  have B: "0 < sendChunkBatchSize env" using assms(1) by (simp add: env_ok_def)
  obtain st bs buf where s: "DataSender_Run env (map DATA_CHUNK cs) (DataSender_new env) = Inr st" "sender_ok env CS st bs buf"
    "concat bs @ buf = cs"
    using send_all_ok [OF assms(1,3,2) DataSender_new_ok] B by auto
  obtain st1 bs1 where t: "(if sd_currentItemNum st \<noteq> 0 then SendChunks env st else Inr st) = Inr st1" "sender_ok env CS st1 bs1 []"
    "concat bs1 = cs"
  proof (cases "buf = []")
    case True
    then show thesis using s that [of st bs] by (auto simp: sender_ok_def)
  next
    case False
    obtain st1 where "SendChunks env st = Inr st1" "sender_ok env CS st1 (bs @ [buf]) []" by (rule SendChunks_ok [OF assms(1) s(2)])
    then show thesis using s False that [of st1 "bs @ [buf]"] by (auto simp: sender_ok_def)
  qed
  have l: "length (recipe_head_bytes h) = sizeof_FileRecipeHead" by (simp add: recipe_head_bytes_def sizeof_FileRecipeHead_def)
  have "1 * sizeof_Chunk \<le> sendChunkBatchSize env * sizeof_Chunk" using B by (intro mult_le_mono1) simp
  then have "sizeof_FileRecipeHead \<le> length (sd_dataBuffer st1)"
    using t(2) by (simp add: sender_ok_def sizeof_Chunk_def sizeof_FileRecipeHead_def MAX_CHUNK_SIZE_def)
  then obtain buf where w: "buf_write (sd_dataBuffer st1) 0 (recipe_head_bytes h) = Inr buf" using l by (auto simp: buf_write_def)
  then have "take sizeof_FileRecipeHead buf = recipe_head_bytes h" "sizeof_FileRecipeHead \<le> length buf"
    using l by (auto simp: buf_write_Inr)
  then have r: "buf_read buf 0 sizeof_FileRecipeHead = Inr (recipe_head_bytes h)" by (simp add: buf_read_def bslice_def)
  show thesis
    using s(1) t w r by (intro that [of "st1\<lparr>sd_dataBuffer := buf, sd_dataSize := sizeof_FileRecipeHead,
        sd_sent := sd_sent st1 @ [CLIENT_UPLOAD_RECIPE_END (recipe_head_bytes h)]\<rparr>" "sd_sent st1" bs1])
      (simp_all add: DataSender_Run_def for_each_append ProcessRecipeEnd_def sender_ok_def)
qed

text \<open>The server takes the batches and then ends the upload.\<close>

lemma receive_batches:
  "for_each (receive_message env) (map (\<lambda>(turns, k, data). (turns, CLIENT_UPLOAD_CHUNK k data)) ms) (st, None) =
     res_bind (upload_messages env (map (\<lambda>(turns, k, data). (turns, data, k)) ms) st) (\<lambda>st. Inr (st, None))"
proof (induction ms arbitrary: st)
  case (Cons m ms)
  obtain turns k data where m: "m = (turns, k, data)" by (cases m)
  show ?case
    by (cases "EnclaveIndex_ProcessOneBatch env turns (data, k) st")
      (use Cons in \<open>simp_all add: m upload_messages_def\<close>)
qed (simp add: upload_messages_def)

lemma DataReceiver_ok:
  assumes "upload_messages env (map (\<lambda>(turns, k, data). (turns, data, k)) ms) st = Inr st1" "finish_upload env st1 = Inr st2"
  shows "DataReceiver_Run env (map (\<lambda>(turns, k, data). (turns, CLIENT_UPLOAD_CHUNK k data)) ms @ [(t, CLIENT_UPLOAD_RECIPE_END h)]) st =
    Inr (st2, Some (FinalizeRecipe h (virtualRecipeEnd @ recipeFile st2)))"
proof -
  obtain r out store store1 files where f: "tail_recipe env (inRecipe st1) (recipeFile st1) = Inr (r, out)"
    "ProcessTail_containers (up_store (srv_up st1)) = Inr store" "Receiver_finish store = Inr store1"
    "DataWriter_run (inputMQ store1) (disk store1) = Inr files"
    "st2 = st1\<lparr>inRecipe := r, recipeFile := out, srv_up := (srv_up st1)\<lparr>up_store := store1\<lparr>inputMQ := [], disk := files\<rparr>\<rparr>\<rparr>"
    using assms(2) by (auto simp: finish_upload_def end_upload_def res_bind_eq_Inr)
  show ?thesis using assms(1) f by (simp add: DataReceiver_Run_def for_each_append receive_batches)
qed

lemma login_head_ok: "login_head (FinalizeRecipe (recipe_head_bytes h) (virtualRecipeEnd @ body)) = Inr h"
  "drop sizeof_FileRecipeHead (FinalizeRecipe (recipe_head_bytes h) (virtualRecipeEnd @ body)) = body"
  by (simp_all add: login_head_def FinalizeRecipe_def recipe_head_bytes_def virtualRecipeEnd_def sizeof_FileRecipeHead_def
      buf_read_def bslice_def)

lemma RestoreWriter_file: "outputFile (RestoreWriter_Run cs) = concat cs"
proof -
  have "outputFile (fold write_chunk cs st) = outputFile st @ concat cs" for st
    by (induction cs arbitrary: st) (simp_all add: write_chunk_def)
  then show ?thesis by (simp add: RestoreWriter_Run_def)
qed

text \<open>The numbered messages, with the turns of the writer during each.\<close>

lemma numbered_messages:
  assumes "list_all2 (carries_batch env CS) msgs batches"
  obtains ms where "map (\<lambda>(i, m). (turns i, m)) (enumerate n msgs) = map (\<lambda>(turns, k, data). (turns, CLIENT_UPLOAD_CHUNK k data)) ms"
    "messages_ok env CS (map (\<lambda>(turns, k, data). (turns, data, k)) ms) batches"
proof -
  have "\<exists>ms. map (\<lambda>(i, m). (turns i, m)) (enumerate n msgs) = map (\<lambda>(turns, k, data). (turns, CLIENT_UPLOAD_CHUNK k data)) ms \<and>
      messages_ok env CS (map (\<lambda>(turns, k, data). (turns, data, k)) ms) batches"
    using assms
  proof (induction msgs batches arbitrary: n rule: list_all2_induct)
    case Nil
    then show ?case by (intro exI [of _ "[]"]) (simp add: messages_ok_def)
  next
    case (Cons m msgs b batches)
    obtain data where d: "m = CLIENT_UPLOAD_CHUNK (length b) data" "message_ok env CS data b" using Cons.hyps(1) by (auto simp: carries_batch_def)
    obtain ms where "map (\<lambda>(i, m). (turns i, m)) (enumerate (Suc n) msgs) = map (\<lambda>(turns, k, data). (turns, CLIENT_UPLOAD_CHUNK k data)) ms"
      "messages_ok env CS (map (\<lambda>(turns, k, data). (turns, data, k)) ms) batches" using Cons.IH [of "Suc n"] by blast
    then show ?case using d by (intro exI [of _ "(turns n, length b, data) # ms"]) (simp add: messages_ok_def)
  qed
  with that show thesis by blast
qed

lemma client_chunks_side: "client_chunks (restore_side env st) ms = client_chunks env ms"
  by (induction env ms rule: client_chunks.induct) (simp_all add: restore_side_def cong: res_bind_cong)

lemma restored_from_recipe:
  assumes "env_ok env" "recipe_file env fps = Inr rf" "list_all2 (restorable (restore_side env st)) fps cs"
  obtains r where "EnclaveRecvDecoder_Run (restore_side env st) rf (restore_start 17 (sendChunkBatchSize env)) = Inr r"
    "client_chunks (restore_side env st) (sent r) = Inr cs"
proof -
  have e: "env_ok (restore_side env st)" using assms(1) by simp
  have rm: "recipe_room (restore_side env st) 17 fps" by (simp add: recipe_room_def enough_ids_def CONTAINER_CAPPING_VALUE_def)
  have rf: "recipe_file (restore_side env st) fps = Inr rf" using assms(2) by (simp add: recipe_file_side)
  show thesis using restore_ok [OF e assms(3) rm rf] that by (simp add: restore_side_def) metis
qed

end
