(* ===== verification/Client_Props.thy ===== *)
theory Client_Props imports Client_Correct begin

text \<open>
  The properties of the client: chunking, and the way of a file to the server and back.
\<close>

section \<open>Cutting\<close>

lemma read_size:
  assumes "0 < unat (rd :: u64)" "unat rd < 4096"
  shows "unat (rd * (1024 * 1024)) = unat rd * 1048576" "MAX_CHUNK_SIZE \<le> unat rd * 1048576" "unat rd * 1048576 < 2 ^ 32"
proof -
  have "unat rd * unat (1048576 :: u64) < 2 ^ LENGTH(64)" using assms(2) by simp
  then have "unat (rd * 1048576) = unat rd * unat (1048576 :: u64)" by (subst unat_mult_lem [symmetric]) simp
  then show "unat (rd * (1024 * 1024)) = unat rd * 1048576" by simp
qed (use assms in \<open>simp_all add: MAX_CHUNK_SIZE_def\<close>)

lemma init_chunking:
  assumes "ChunkerInit t av mn mx rd = Inr c" "unat mx \<le> MAX_CHUNK_SIZE" "0 < unat rd" "unat rd < 4096"
  shows "chunker_ok c" "0 < unat (readSize c)" "Chunking c inp = Some (Inr (queue_of (chunks_of c inp)))"
proof -
  note i = ChunkerInit_ok [OF assms(1,2)] and r = read_size [OF assms(3,4)]
  show "chunker_ok c" by (rule i(1))
  show "0 < unat (readSize c)" using assms(3) by (simp only: i(6) r(1))
  show "Chunking c inp = Some (Inr (queue_of (chunks_of c inp)))"
  proof (rule Chunking_ok [OF i(1)])
    show "unat (maxChunkSize c) \<le> unat (readSize c)" unfolding i(4) i(6) r(1) using assms(2) r(2) by linarith
    show "unat (readSize c) < 2 ^ 32" unfolding i(6) r(1) by (rule r(3))
  qed
qed

lemma cut_all_same_settings:
  assumes "ChunkerInit t av mn mx rd = Inr c" "ChunkerInit t av mn mx rd' = Inr c'"
  shows "cut_all c' src = cut_all c src"
proof -
  have s: "minChunkSize c' = minChunkSize c" "maxChunkSize c' = maxChunkSize c" "normalSize c' = normalSize c"
    "maskS c' = maskS c" "maskL c' = maskL c"
    using assms by (auto simp: ChunkerInit_def Let_def split: if_splits)
  have "cut_rest c' x = cut_rest c x" for x unfolding cut_rest_def CutPoint_def s ..
  then show ?thesis
    by (induction c src rule: cut_all.induct) (subst (1 2) cut_all.simps, simp)
qed

text \<open>
  C38: Content-defined chunking does not depend on how the file is read: for sizes in order and chunks that fit their array, the loop
  over the reads returns without a fault for every file, and what it pushes is the list that \<open>CutPoint\<close> gives on the whole
  file, with its total size and number of chunks, whatever number of megabytes a read has.  The chunks are the file in order, none is
  empty or longer than the maximum, and all but the last are longer than the minimum.
\<close>

theorem chunking_independent_of_reads:
  assumes "ChunkerInit FAST_CDC av mn mx rd = Inr c" "ChunkerInit FAST_CDC av mn mx rd' = Inr c'" "unat mx \<le> MAX_CHUNK_SIZE"
    "0 < unat rd" "unat rd < 4096" "0 < unat rd'" "unat rd' < 4096"
  shows "Chunking c inp = Some (Inr (queue_of (cut_all c inp))) \<and> Chunking c' inp = Chunking c inp \<and>
    concat (cut_all c inp) = inp \<and> (\<forall>x \<in> set (cut_all c inp). x \<noteq> [] \<and> length x \<le> unat mx) \<and>
    (\<forall>x \<in> set (butlast (cut_all c inp)). unat mn < length x)"
proof -
  note i = ChunkerInit_ok [OF assms(1,3)] and i' = ChunkerInit_ok [OF assms(2,3)]
  have "Chunking c inp = Some (Inr (queue_of (cut_all c inp)))" "Chunking c' inp = Some (Inr (queue_of (cut_all c inp)))"
    using init_chunking(3) [OF assms(1,3-5), of inp] init_chunking(3) [OF assms(2,3,6,7), of inp]
    by (simp_all add: chunks_of_def i(2) i'(2) cut_all_same_settings [OF assms(1,2)])
  then show ?thesis using cut_all_concat [OF i(1)] cut_all_max [OF i(1)] cut_all_min [OF i(1)] i(3,4) by auto
qed

theorem chunking_independent_of_reads_witness:
  "\<exists>c c'. ChunkerInit FAST_CDC 8192 4096 16384 128 = Inr c \<and> ChunkerInit FAST_CDC 8192 4096 16384 1 = Inr c' \<and>
    Chunking c' (replicate 20000 7) = Chunking c (replicate 20000 7) \<and> concat (cut_all c (replicate 20000 7)) = replicate 20000 7"
proof -
  obtain c c' where c: "ChunkerInit FAST_CDC 8192 4096 16384 128 = Inr c" "ChunkerInit FAST_CDC 8192 4096 16384 1 = Inr c'"
    by (simp add: ChunkerInit_def Let_def)
  from chunking_independent_of_reads [OF c, of "replicate 20000 7"] c show ?thesis by (simp add: MAX_CHUNK_SIZE_def)
qed

lemma unat_CalNormalSize:
  assumes "unat mx \<le> MAX_CHUNK_SIZE" "mn < av" "av < mx" "2 * unat av \<le> 5 * unat mn"
  shows "unat (CalNormalSize mn av mx) \<le> unat mn"
proof -
  have n: "unat mn < unat av" "unat av < unat mx" using assms(2,3) by (simp_all add: word_less_nat_alt)
  then have k: "unat mn < 16384" "unat av < 16384" using assms(1) by (simp_all add: MAX_CHUNK_SIZE_def)
  have d: "unat mn \<le> 2 * unat (DivCeil mn 2)" "unat (DivCeil mn 2) \<le> unat mn"
  proof -
    have e: "mn mod 2 = 0 \<longleftrightarrow> unat mn mod 2 = 0" using unat_eq_zero [of "mn mod 2"] by (simp add: unat_mod)
    have a: "unat (mn div 2) = unat mn div 2" by (simp add: unat_div)
    have "unat (mn div 2 + 1) = unat mn div 2 + 1" using k(1) a by (simp add: unat_word_ariths(1))
    then show "unat mn \<le> 2 * unat (DivCeil mn 2)" "unat (DivCeil mn 2) \<le> unat mn" using e a by (auto simp: DivCeil_def)
  qed
  let ?off = "mn + DivCeil mn 2"
  have o: "unat ?off = unat mn + unat (DivCeil mn 2)" using k(1) d(2) by (simp add: unat_word_ariths(1))
  show ?thesis
  proof (cases "?off > av")
    case True
    then show ?thesis by (simp add: CalNormalSize_def)
  next
    case False
    then have "?off \<le> av" by simp
    then have "unat (av - ?off) = unat av - unat ?off" by (simp add: unat_sub)
    then have u: "unat (av - ?off) \<le> unat mn" using o d(1) assms(4) by linarith
    then have "\<not> mx < av - ?off" using n by (simp add: word_less_nat_alt)
    then show ?thesis using False u by (simp add: CalNormalSize_def)
  qed
qed

text \<open>
  C39: The stricter mask is never used: when the average size is at most two and a half times the minimum, as in the configuration
  of the repository, \<open>CalNormalSize\<close> is not above the minimum, the first loop of \<open>CutPoint\<close> does no round, and the
  cut is the same for every value of \<open>maskS\<close>.
\<close>

theorem strict_mask_unused:
  assumes "ChunkerInit FAST_CDC av mn mx rd = Inr c" "unat mx \<le> MAX_CHUNK_SIZE" "2 * unat av \<le> 5 * unat mn"
  shows "unat (normalSize c) \<le> unat mn \<and> CutPoint (c\<lparr>maskS := s\<rparr>) src len = CutPoint c src len"
proof -
  note i = ChunkerInit_ok [OF assms(1,2)]
  have o: "unat mn < unat av" "unat av < unat mx" "normalSize c = CalNormalSize (ucast mn) (ucast av) (ucast mx)"
    using assms(1) by (auto simp: ChunkerInit_def Let_def word_less_nat_alt not_le split: if_splits)
  have u: "unat (ucast mn :: u32) = unat mn" "unat (ucast av :: u32) = unat av" "unat (ucast mx :: u32) = unat mx"
    using o assms(2) by (simp_all add: unat_ucast_small)
  have n: "unat (normalSize c) \<le> unat mn"
    unfolding o(3) u(1) [symmetric] by (rule unat_CalNormalSize) (use u o assms(2,3) in \<open>simp_all add: word_less_nat_alt\<close>)
  then have "cut_loop src k (min (unat len) (unat mn)) (min (unat (normalSize c)) (unat len)) 0 = Inr (min (unat len) (unat mn), 0)" for k
    by (subst cut_loop.simps) auto
  then show ?thesis using n by (simp add: CutPoint_def i(3) u(1))
qed

theorem strict_mask_unused_witness:
  "\<exists>c. ChunkerInit FAST_CDC 8192 4096 16384 128 = Inr c \<and> unat (normalSize c) \<le> 4096 \<and>
    CutPoint (c\<lparr>maskS := 0\<rparr>) (replicate 5000 7) 5000 = CutPoint c (replicate 5000 7) 5000"
proof -
  obtain c where c: "ChunkerInit FAST_CDC 8192 4096 16384 128 = Inr c" by (simp add: ChunkerInit_def Let_def)
  from strict_mask_unused [OF c, where s = 0 and src = "replicate 5000 7" and len = 5000] c
  show ?thesis by (simp add: MAX_CHUNK_SIZE_def)
qed

section \<open>From file to file\<close>


lemma sample_pieces: "pieces 4 [1, 2, 3, 4, 5, 6, 7, 8, 1, 2, 3, 4] = [[1, 2, 3, 4], [5, 6, 7, 8], [1, 2, 3, 4]]"
  "pieces 1048576 [1, 2, 3, 4, 5, 6, 7, 8, 1, 2, 3, 4] = [[1, 2, 3, 4, 5, 6, 7, 8, 1, 2, 3, 4]]"
  by (simp_all add: pieces.simps)

lemma sample_chunk_setting: "setting_ok sample_env {[1, 2, 3, 4], [5, 6, 7, 8]}"
proof -
  have "fingerprint sample_env [1, 2, 3, 4] \<noteq> fingerprint sample_env [5, 6, 7, 8]"
    by (simp add: fingerprint_def GenerateHash_def sample_env_def sample_ssl_def)
  moreover have "raw_safe sample_env c" "lz4_ok (env_lz4 sample_env)" "sendChunkBatchSize sample_env \<le> 4000" for c
    by (simp_all add: raw_safe_def lz4_ok_def sample_env_def sample_lz4_def)
  ultimately show ?thesis using sample_env_ok by (auto simp: setting_ok_def chunks_ok_def MAX_CHUNK_SIZE_def)
qed


end
