(* ===== verification/Sealed.thy ===== *)
theory Sealed
  imports Sketch EntryHeap
begin

text \<open>
  What the enclave keeps over a restart: the sketch and the top-k index in two files (\<open>PersistDedupIndex\<close> and
  \<open>LoadDedupIndex\<close> of \<open>ecallFreqIndex.cc\<close>, \<open>WriteBufferToFile\<close> and \<open>ReadFileToBuffer\<close> of
  \<open>ecallUtil/commonEnclave.cc\<close>, the OCALLs of \<open>ocallSrc/storeOCall.cc\<close>).  A file is \<open>None\<close> when it does not exist.  The
  lemma \<open>load_persisted\<close> says that a restart loses nothing.
\<close>

section \<open>Buffers and files\<close>

definition SGX_PERSISTENCE_BUFFER_SIZE :: nat where
  "SGX_PERSISTENCE_BUFFER_SIZE = 2 * 1024 * 1024"

text \<open>The buffer goes to the end of the file in pieces.\<close>

function WriteBufferToFile :: "byte list \<Rightarrow> byte list \<Rightarrow> byte list" where
  "WriteBufferToFile buffer fl =
     (if buffer = [] then fl
      else if SGX_PERSISTENCE_BUFFER_SIZE < length buffer
      then WriteBufferToFile (drop SGX_PERSISTENCE_BUFFER_SIZE buffer) (fl @ take SGX_PERSISTENCE_BUFFER_SIZE buffer)
      else fl @ buffer)"
  by pat_completeness auto
termination
  by (relation "measure (\<lambda>(buffer, fl). length buffer)") (auto simp: SGX_PERSISTENCE_BUFFER_SIZE_def)

declare WriteBufferToFile.simps [simp del]

text \<open>
  Reading fills a buffer of \<open>n\<close> bytes in pieces; what the stream no longer has keeps its old value \<open>old\<close>.  The
  result is the buffer and the rest of the stream.
\<close>

function ReadFileToBuffer :: "nat \<Rightarrow> byte list \<Rightarrow> byte list \<Rightarrow> byte list \<times> byte list" where
  "ReadFileToBuffer n old stream =
     (if n = 0 then ([], stream)
      else if SGX_PERSISTENCE_BUFFER_SIZE < n then
        let piece = take SGX_PERSISTENCE_BUFFER_SIZE stream;
            (more, rest) = ReadFileToBuffer (n - SGX_PERSISTENCE_BUFFER_SIZE) (drop SGX_PERSISTENCE_BUFFER_SIZE old)
              (drop SGX_PERSISTENCE_BUFFER_SIZE stream)
        in (piece @ drop (length piece) (take SGX_PERSISTENCE_BUFFER_SIZE old) @ more, rest)
      else (take n stream @ drop (length (take n stream)) (take n old), drop n stream))"
  by pat_completeness auto
termination
  by (relation "measure (\<lambda>(n, old, stream). n)") (auto simp: SGX_PERSISTENCE_BUFFER_SIZE_def)

declare ReadFileToBuffer.simps [simp del]

lemma WriteBufferToFile_eq: "WriteBufferToFile buffer fl = fl @ buffer"
  by (induction buffer fl rule: WriteBufferToFile.induct) (subst WriteBufferToFile.simps, simp)

lemma ReadFileToBuffer_eq:
  "n \<le> length stream \<Longrightarrow> ReadFileToBuffer n old stream = (take n stream, drop n stream)"
proof (induction n old stream rule: ReadFileToBuffer.induct)
  case (1 n old stream)
  show ?case
  proof (cases "SGX_PERSISTENCE_BUFFER_SIZE < n")
    case True
    let ?s = SGX_PERSISTENCE_BUFFER_SIZE
    have "ReadFileToBuffer (n - ?s) (drop ?s old) (drop ?s stream) = (take (n - ?s) (drop ?s stream), drop (n - ?s) (drop ?s stream))"
      using 1(1) [OF _ True refl] True 1(2) by simp
    moreover have "take n stream = take ?s stream @ take (n - ?s) (drop ?s stream)" using True take_add [of ?s "n - ?s" stream] by simp
    ultimately show ?thesis using True 1(2) by (subst ReadFileToBuffer.simps) simp
  qed (use 1(2) in \<open>subst ReadFileToBuffer.simps, simp\<close>)
qed

section \<open>The sketch and the heap as bytes\<close>

definition row_bytes :: "u32 list \<Rightarrow> byte list" where
  "row_bytes row = concat (map le32 row)"

fun bytes_row :: "nat \<Rightarrow> byte list \<Rightarrow> u32 list" where
  "bytes_row 0 bs = []"
| "bytes_row (Suc n) bs = get32 (take 4 bs) # bytes_row n (drop 4 bs)"

definition sizeof_HeapItem :: nat where
  "sizeof_HeapItem = sizeof_RecipeEntry + 8"

definition item_bytes :: "HeapItem_t \<Rightarrow> byte list" where
  "item_bytes it = recipe_bytes (address it) @ le32 (chunkFreq it) @ le32 (word_of_nat (idx it))"

definition bytes_item :: "byte list \<Rightarrow> HeapItem_t" where
  "bytes_item bs =
     \<lparr>address = bytes_recipe (take sizeof_RecipeEntry bs), chunkFreq = get32 (bslice bs sizeof_RecipeEntry 4),
      idx = unat (get32 (bslice bs (sizeof_RecipeEntry + 4) 4))\<rparr>"

section \<open>Persisting and loading\<close>

record sealed =
  SEALED_SKETCH :: "byte list option"
  SEALED_FREQ_INDEX :: "byte list option"

definition persist_sketch :: "EcallCMSketch \<Rightarrow> byte list" where
  "persist_sketch s = fold (\<lambda>row fl. WriteBufferToFile (row_bytes row) fl) (counterArray s) []"

fun heap_items :: "EcallEntryHeap \<Rightarrow> nat list \<Rightarrow> byte list res" where
  "heap_items h [] = Inr []"
| "heap_items h (i # is) =
     res_bind (item_at h i) (\<lambda>it.
     res_bind (buf_read (heap h ! i) 0 CHUNK_HASH_SIZE) (\<lambda>fp.
     res_bind (heap_items h is) (\<lambda>more. Inr (fp @ item_bytes it @ more))))"

definition PersistDedupIndex :: "EcallCMSketch \<Rightarrow> EcallEntryHeap \<Rightarrow> sealed res" where
  "PersistDedupIndex sketch h =
     res_bind (heap_items h [0..<length (heap h)]) (\<lambda>items. Inr
       \<lparr>SEALED_SKETCH = Some (persist_sketch sketch),
        SEALED_FREQ_INDEX = Some (WriteBufferToFile (le64 (word_of_nat (length (heap h))) @ items) [])\<rparr>)"

fun load_rows :: "nat \<Rightarrow> u32 list list \<Rightarrow> byte list \<Rightarrow> u32 list list" where
  "load_rows w [] stream = []"
| "load_rows w (row # rows) stream =
     (let (b, rest) = ReadFileToBuffer (4 * w) (row_bytes row) stream in bytes_row w b # load_rows w rows rest)"

text \<open>An item whose fingerprint is in the index already does not replace it.\<close>

fun load_items :: "nat \<Rightarrow> byte list \<Rightarrow> nat \<Rightarrow> EcallEntryHeap \<Rightarrow> EcallEntryHeap res" where
  "load_items 0 buf offset h = Inr h"
| "load_items (Suc n) buf offset h =
     res_bind (buf_read buf offset CHUNK_HASH_SIZE) (\<lambda>fp.
     res_bind (buf_read buf (offset + CHUNK_HASH_SIZE) sizeof_HeapItem) (\<lambda>item.
       load_items n buf (offset + CHUNK_HASH_SIZE + sizeof_HeapItem)
         (h\<lparr>heap := heap h @ [fp], index := (if index h fp = None then (index h)(fp \<mapsto> bytes_item item) else index h)\<rparr>)))"

definition LoadDedupIndex :: "sealed \<Rightarrow> EcallCMSketch \<times> EcallEntryHeap \<Rightarrow> (bool \<times> EcallCMSketch \<times> EcallEntryHeap) res" where
  "LoadDedupIndex files = (\<lambda>(sketch, h).
     case SEALED_SKETCH files of
       None \<Rightarrow> Inr (False, sketch, h)
     | Some f \<Rightarrow>
         if f = [] then Inr (False, sketch, h)
         else
           let sketch = sketch\<lparr>counterArray := load_rows (unat (width sketch)) (counterArray sketch) f\<rparr> in
           case SEALED_FREQ_INDEX files of
             None \<Rightarrow> Inr (False, sketch, h)
           | Some g \<Rightarrow>
               if g = [] then Inr (False, sketch, h)
               else
                 let buf = fst (ReadFileToBuffer (length g) (replicate (length g) 0) g) in
                 res_bind (buf_read buf 0 8) (\<lambda>num.
                 res_bind (load_items (unat (get64 num)) buf 8 h) (\<lambda>h. Inr (True, sketch, h))))"

text \<open>The constructor and the destructor of the index; the sketch has \<open>sketchWidth_ = 256 * 1024\<close> and \<open>sketchDepth_ = 4\<close>.\<close>

definition ENABLE_SEALING :: bool where
  "ENABLE_SEALING = True"

definition EcallFreqIndex_new :: "u32 \<Rightarrow> u32 \<Rightarrow> sealed \<Rightarrow> (EcallCMSketch \<times> EcallEntryHeap) res" where
  "EcallFreqIndex_new w d files =
     (if ENABLE_SEALING
      then res_bind (LoadDedupIndex files (CMSketch_new w d, new_heap)) (\<lambda>(_, index). Inr index)
      else Inr (CMSketch_new w d, new_heap))"

definition EcallFreqIndex_delete :: "EcallCMSketch \<Rightarrow> EcallEntryHeap \<Rightarrow> sealed \<Rightarrow> sealed res" where
  "EcallFreqIndex_delete sketch h files = (if ENABLE_SEALING then PersistDedupIndex sketch h else Inr files)"

section \<open>A restart\<close>

lemma row_bytes_length: "length (row_bytes row) = 4 * length row"
  by (induction row) (simp_all add: row_bytes_def)

lemma bytes_row_bytes: "bytes_row (length row) (row_bytes row) = row"
  by (induction row) (simp_all add: row_bytes_def)

lemma persist_sketch_eq: "persist_sketch s = concat (map row_bytes (counterArray s))"
proof -
  have "fold (\<lambda>row fl. WriteBufferToFile (row_bytes row) fl) rows fl = fl @ concat (map row_bytes rows)" for rows fl
    by (induction rows arbitrary: fl) (simp_all add: WriteBufferToFile_eq)
  then show ?thesis by (simp add: persist_sketch_def)
qed

lemma load_rows_ok:
  "length olds = length rows \<Longrightarrow> \<forall>r \<in> set rows. length r = w \<Longrightarrow> load_rows w olds (concat (map row_bytes rows)) = rows"
proof (induction olds rows rule: list_induct2)
  case (Cons old olds row rows)
  then have "ReadFileToBuffer (4 * w) (row_bytes old) (row_bytes row @ concat (map row_bytes rows)) = (row_bytes row, concat (map row_bytes rows))"
    by (simp add: ReadFileToBuffer_eq row_bytes_length)
  then show ?case using Cons bytes_row_bytes [of row] by simp
qed simp

lemma item_bytes_length: "recipe_wf (address it) \<Longrightarrow> length (item_bytes it) = sizeof_HeapItem"
  by (simp add: item_bytes_def sizeof_HeapItem_def)

lemma bytes_item_bytes:
  assumes "recipe_wf (address it)" "idx it < 2 ^ 32"
  shows "bytes_item (item_bytes it) = it"
proof -
  have "unat (word_of_nat (idx it) :: u32) = idx it" using assms(2) by (simp add: unat_of_nat take_bit_nat_eq_self)
  then show ?thesis using assms(1) by (simp add: bytes_item_def item_bytes_def bslice_def)
qed

text \<open>The bytes of the entries at some positions.\<close>

definition entry_bytes :: "EcallEntryHeap \<Rightarrow> byte list \<Rightarrow> byte list" where
  "entry_bytes h fp = fp @ item_bytes (the (index h fp))"

definition storable :: "EcallEntryHeap \<Rightarrow> bool" where
  "storable h \<longleftrightarrow> (\<forall>fp \<in> set (heap h). length fp = CHUNK_HASH_SIZE \<and>
     (\<exists>it. index h fp = Some it \<and> recipe_wf (address it) \<and> idx it < 2 ^ 32))"

lemma heap_items_ok:
  assumes "storable h"
  shows "set is \<subseteq> {..<length (heap h)} \<Longrightarrow> heap_items h is = Inr (concat (map (\<lambda>i. entry_bytes h (heap h ! i)) is))"
proof (induction "is")
  case (Cons i "is")
  then have i: "i < length (heap h)" by simp
  then have "heap h ! i \<in> set (heap h)" by simp
  then obtain it where it: "length (heap h ! i) = CHUNK_HASH_SIZE" "index h (heap h ! i) = Some it"
    using assms unfolding storable_def by blast
  then show ?case using Cons i by (simp add: item_at_def buf_read_def bslice_full entry_bytes_def)
qed simp

lemma load_items_ok:
  assumes "storable h" "heap h = done @ todo" "distinct (heap h)"
    "drop off buf = concat (map (entry_bytes h) todo)" "off \<le> length buf"
    "heap g = done" "\<forall>k. index g k = (if k \<in> set done then index h k else None)"
  shows "\<exists>g'. load_items (length todo) buf off g = Inr g' \<and> heap g' = heap h \<and> (\<forall>k. index g' k = (if k \<in> set (heap h) then index h k else None))"
  using assms
proof (induction todo arbitrary: "done" off g)
  case (Cons fp todo)
  obtain it where it: "length fp = CHUNK_HASH_SIZE" "index h fp = Some it" "recipe_wf (address it)" "idx it < 2 ^ 32"
    using Cons.prems(1,2) unfolding storable_def by auto
  have d: "drop off buf = fp @ item_bytes it @ concat (map (entry_bytes h) todo)"
    using Cons.prems(4) it(2) by (simp add: entry_bytes_def [of h fp])
  have "length (drop off buf) = CHUNK_HASH_SIZE + (sizeof_HeapItem + length (concat (map (entry_bytes h) todo)))"
    using it(1) item_bytes_length [OF it(3)] by (simp only: d length_append)
  then have l: "off + CHUNK_HASH_SIZE + sizeof_HeapItem \<le> length buf" using Cons.prems(5) by (simp only: length_drop)
  have r1: "buf_read buf off CHUNK_HASH_SIZE = Inr fp" using l d it(1) by (simp add: buf_read_def bslice_def)
  have r2: "buf_read buf (off + CHUNK_HASH_SIZE) sizeof_HeapItem = Inr (item_bytes it)"
  proof -
    have "drop (off + CHUNK_HASH_SIZE) buf = item_bytes it @ concat (map (entry_bytes h) todo)"
      using arg_cong [OF d, of "drop CHUNK_HASH_SIZE"] it(1) by (simp add: add.commute)
    then show ?thesis using l item_bytes_length [OF it(3)] by (simp add: buf_read_def bslice_def)
  qed
  have n: "index g fp = None" using Cons.prems(2,3,7) by auto
  let ?g = "g\<lparr>heap := heap g @ [fp], index := (index g)(fp \<mapsto> it)\<rparr>" and ?off = "off + CHUNK_HASH_SIZE + sizeof_HeapItem"
  have "drop ?off buf = drop (CHUNK_HASH_SIZE + sizeof_HeapItem) (drop off buf)" by (simp add: ac_simps)
  then have d': "drop ?off buf = concat (map (entry_bytes h) todo)" using it(1) item_bytes_length [OF it(3)] by (simp add: d)
  have inv: "\<forall>k. index ?g k = (if k \<in> set (done @ [fp]) then index h k else None)" using Cons.prems(7) it(2) by simp
  have split: "heap h = (done @ [fp]) @ todo" "heap ?g = done @ [fp]" using Cons.prems(2,6) by simp_all
  obtain g' where "load_items (length todo) buf ?off ?g = Inr g'" "heap g' = heap h"
    "\<forall>k. index g' k = (if k \<in> set (heap h) then index h k else None)"
    using Cons.IH [OF Cons.prems(1) split(1) Cons.prems(3) d' l split(2) inv] by blast
  then show ?case using r1 r2 n bytes_item_bytes [OF it(3,4)] by simp
qed auto

lemma le64_ne: "le64 w \<noteq> []"
  using le64_length [of w] by (cases "le64 w") auto

text \<open>
  A restart: loading what the destructor persisted into a fresh sketch and a fresh heap gives back all counters and the heap with its
  order, positions, frequencies and addresses.
\<close>

lemma load_persisted:
  assumes "sketch_dims s" "0 < depth s" "heap_ok h" "storable h" "length (heap h) < 2 ^ 32"
  shows "\<exists>files. PersistDedupIndex s h = Inr files \<and>
    LoadDedupIndex files (CMSketch_new (width s) (depth s), new_heap) = Inr (True, s\<lparr>total_num := 0\<rparr>, h)"
proof -
  let ?bytes = "concat (map (entry_bytes h) (heap h))" and ?n = "length (heap h)"
  let ?g = "le64 (word_of_nat ?n) @ ?bytes" and ?f = "concat (map row_bytes (counterArray s))"
  have "map (\<lambda>i. entry_bytes h (heap h ! i)) [0..<?n] = map (entry_bytes h) (map ((!) (heap h)) [0..<?n])" by simp
  also have "\<dots> = map (entry_bytes h) (heap h)" by (simp only: map_nth)
  finally have i: "heap_items h [0..<?n] = Inr ?bytes" using heap_items_ok [OF assms(4), of "[0..<?n]"] by (simp add: atLeast0LessThan)
  have p: "PersistDedupIndex s h = Inr \<lparr>SEALED_SKETCH = Some ?f, SEALED_FREQ_INDEX = Some ?g\<rparr>"
    by (simp add: PersistDedupIndex_def i persist_sketch_eq WriteBufferToFile_eq)
  have dims: "0 < unat (width s)" "length (counterArray s) = unat (depth s)" "\<forall>r \<in> set (counterArray s). length r = unat (width s)"
    using assms(1) by (auto simp: sketch_dims_def in_set_conv_nth word_less_nat_alt)
  have "0 < unat (depth s)" using assms(2) by (simp add: word_less_nat_alt)
  then obtain r rs where r: "counterArray s = r # rs" using dims(2) by (cases "counterArray s") auto
  then have ne: "?f \<noteq> []" using dims(1,3) row_bytes_length [of r] by auto
  have rows: "load_rows (unat (width s)) (replicate (unat (depth s)) (replicate (unat (width s)) 0)) ?f = counterArray s"
    by (rule load_rows_ok) (use dims in auto)
  have n: "unat (get64 (le64 (word_of_nat ?n :: u64))) = ?n" using assms(5) by (simp add: unat_of_nat take_bit_nat_eq_self)
  have dist: "distinct (heap h)" "set (heap h) = dom (index h)" using assms(3) by (simp_all add: heap_ok_def linked_def)
  obtain g' where g': "load_items ?n ?g 8 new_heap = Inr g'" "heap g' = heap h" "\<forall>k. index g' k = (if k \<in> set (heap h) then index h k else None)"
    using load_items_ok [OF assms(4) _ dist(1), of "[]" "heap h" 8 ?g new_heap] by (auto simp: new_heap_def)
  have "index g' = index h" using g'(3) dist(2) by (auto simp: fun_eq_iff domIff)
  then have "g' = h" using g'(2) by simp
  moreover have "buf_read ?g 0 8 = Inr (le64 (word_of_nat ?n))" by (simp add: buf_read_def bslice_def)
  ultimately have "LoadDedupIndex \<lparr>SEALED_SKETCH = Some ?f, SEALED_FREQ_INDEX = Some ?g\<rparr> (CMSketch_new (width s) (depth s), new_heap) =
      Inr (True, s\<lparr>total_num := 0\<rparr>, h)"
    using ne rows g'(1) n by (simp add: LoadDedupIndex_def CMSketch_new_def ReadFileToBuffer_eq le64_ne Let_def del: concat_eq_Nil_conv)
  with p show ?thesis by blast
qed

text \<open>The first start, with no files: the index is empty.\<close>

lemma first_start:
  "EcallFreqIndex_new w d \<lparr>SEALED_SKETCH = None, SEALED_FREQ_INDEX = None\<rparr> = Inr (CMSketch_new w d, new_heap)"
  by (simp add: EcallFreqIndex_new_def LoadDedupIndex_def ENABLE_SEALING_def)

lemma restart:
  assumes "sketch_dims s" "0 < depth s" "heap_ok h" "storable h" "length (heap h) < 2 ^ 32"
  shows "res_bind (EcallFreqIndex_delete s h files) (EcallFreqIndex_new (width s) (depth s)) = Inr (s\<lparr>total_num := 0\<rparr>, h)"
  using load_persisted [OF assms] by (auto simp: EcallFreqIndex_delete_def EcallFreqIndex_new_def ENABLE_SEALING_def)

end
