(* ===== verification/Spec2Isabelle.thy ===== *)
theory Spec2Isabelle
  imports Edelta_Props Storage_Props Cache_Props Index_Props Database_Props Crypto_Props
    Features_Props Restore_Props Upload_Props Batch_Props Offline_Props Client_Props
    Sealed
begin

text \<open>
  A verification development for the deduplicating backup server of this repository, the
  single-client system under \<open>src/Prototype\<close>.

  The program.  A client cuts a file into chunks and sends them to a server whose index logic
  runs in an SGX enclave.  For a batch of chunks the enclave computes fingerprints and super
  features, looks for a duplicate in the top-k index of frequent chunks and in the database
  outside, looks for a similar chunk to compress against (delta compression), and compresses,
  encrypts and saves what is new into containers.  The recipe of the file is the list of
  its fingerprints.  To restore, the enclave looks the fingerprints up, has the server fetch
  containers, decrypts and decompresses the chunks, decodes deltas over their bases and sends
  the chunks back to the client.

  The theories and the code they model (paths under \<open>src/Prototype\<close>; theories whose name ends in
  \<open>_Correct\<close> or \<open>_Spec\<close> hold proofs and specifications, those ending in \<open>_Props\<close> the
  properties C1, C2, ... with an application of each to concrete inputs).

  \<^item> \<open>Prelude\<close>: bounded reads and writes of byte buffers; a fault is a value of the type
    \<open>fault\<close>, and \<open>res_bind\<close> sequences steps that can fail.  A read or write outside a buffer is
    \<open>OutOfBounds\<close>, so that a property that some operation returns \<open>Inr\<close> is a memory safety property
    as well.
  \<^item> \<open>Gear\<close>, \<open>Htable\<close>, \<open>Edelta\<close>: the delta compressor (\<open>src/Enclave/ecallSrc/edelta/util.cc\<close>,
    \<open>htable.cc\<close>, and the functions \<open>EDeltaEncode\<close> and \<open>EDeltaDecode\<close> of \<open>ecallFreqIndex.cc\<close>): the gear
    hash that cuts sub-chunks, the weak hash, the chained hash table, the encoder
    loop with all its cursors, the decoder.  \<open>Delta_Spec\<close> states what a delta means,
    \<open>Edelta_Correct\<close> proves that every step of the encoder keeps the output a delta of what has
    been read; C1 round trip, C2 size, C3 faults.  The floating-point comparison of the main loop
    is written out on 24-bit mantissas.
  \<^item> \<open>Types\<close>, \<open>Uuid\<close>, \<open>Storage\<close>: the constants and the recipe record (\<open>include/constVar.h\<close>,
    \<open>chunkStructure.h\<close>), container names (\<open>CreateUUID\<close> of \<open>include/define.h\<close>), and the two container
    streams of a client, from \<open>SavebaseChunk\<close> and \<open>SavedeltaChunk\<close> in the enclave
    (\<open>ecallStore/ecallStorage.cc\<close>) over the queue of the writer thread
    (\<open>src/Server/dataWriter.cc\<close>) to the files.  The relation \<open>session\<close> of \<open>Storage_Correct\<close> has a step
    for every call and for every turn of the writer, in any order; C4 to C7.
  \<^item> \<open>Lru\<close>, \<open>ContainerCache\<close>: the LRU cache (\<open>include/lruCache.h\<close>) as nodes with addresses and a list of
    references, the container cache of the restore path (\<open>src/Util/readCache.cc\<close>, the request loop of
    \<open>src/Server/enclaveRecvDecoder.cc\<close>), and the container cache of the enclave with its feature index
    (\<open>ecallUtil/ecallinContainercache.cc\<close>); C8 to C11.
  \<^item> \<open>Sketch\<close>, \<open>EntryHeap\<close>: the count-min sketch (\<open>ecallCMSketch.cc\<close>) and the indexed heap of the top-k
    index (\<open>ecallEntryHeap.cc\<close>, \<open>CheckIfAddToHeap\<close> and \<open>AddChunkToHeap\<close>); C12 to C14 and C31.
  \<^item> \<open>Database\<close>: the in-memory index with its feature maps and its two files
    (\<open>src/Database/inMemoryDatabase.cc\<close>); C15, C16, with the laws of a key-value store as a locale.
  \<^item> \<open>Crypto\<close>: the wrapper over OpenSSL (\<open>ecallEnc.cc\<close>) and the iv generators of the client
    (\<open>ecallClient.h\<close>); C17, C18.
  \<^item> \<open>Features\<close>: super features with the rolling hash and the shortened Mersenne twister, and
    the three threads that compute them for a batch as an interleaving step relation
    (\<open>getSF2\<close>, \<open>mt_n_get\<close> and \<open>GetSF_thread_func_f\<close> of \<open>ecallFreqIndex.cc\<close>); C19 to C21.
  \<^item> \<open>Restore\<close>: the restore path (\<open>ecallStore/ecallRecvDecoder.cc\<close>, its OCALLs in
    \<open>ocallSrc/storeOCall.cc\<close>, and the loop \<open>Run\<close> of the server); \<open>Restore_Correct\<close> follows the state
    between two entries of a recipe, with a window of containers, queued bases and messages; C22, C23.
  \<^item> \<open>Batch\<close>: the upload of a batch, \<open>ProcessOneBatch\<close> of \<open>ecallFreqIndex.cc\<close> with its OCALLs and the calls
    around it (\<open>src/Index/enclaveIndex.cc\<close>, \<open>src/Server/dataReceiver.cc\<close>).  \<open>Batch_Correct\<close> follows a batch
    through its passes: every pass succeeds and leaves the query entries as the next one expects.
    \<open>Edelta_Ratio\<close> shows that the encoder gets started for chunks of comparable length, \<open>Batch_Store\<close>
    that storing one unique chunk keeps containers, caches and index in step, \<open>Batch_Loop\<close> does the loop over
    the chunks with the turns of the writer thread between them, and \<open>Batch_Run\<close> the whole
    batch, with the invariant \<open>srv_ok\<close> of the server between two batches.  C28 to C30 and C32: a whole
    upload is restored to exactly its chunks, every batch keeps the server well-formed, one record
    is stored for each distinct chunk, and the encoder delivers.
  \<^item> \<open>Upload\<close>: compression, encryption and saving of a new chunk, and the recipe of a file
    (\<open>ecallIndex/enclaveBase.cc\<close>, \<open>ProcessTailBatch\<close>, \<open>src/Server/storageCore.cc\<close>); C24 to C27 compose
    the storage, the delta compressor and the restore path: what is uploaded is what is restored.
  \<^item> \<open>Offline\<close>: the offline pass after an upload (\<open>ecallUtil/ecallOffline.cc\<close>, its OCALLs in
    \<open>ocallSrc/storeOCall.cc\<close>, \<open>ProcessOffline\<close> and \<open>ProcessOff\<close>).  Deltas of an old base are encoded over
    its successor, the old base becomes a delta itself, dead records are cut out of cold containers and small
    containers are merged.  \<open>Offline_Catalog\<close> holds the abstract view of the disk, a catalogue of the records of
    each container, and the repository invariant \<open>repo_ok\<close>; \<open>Offline_Cold\<close>, \<open>Offline_Merge\<close>,
    \<open>Offline_Delta\<close>, \<open>Offline_Store\<close>, \<open>Offline_Deltas\<close> and \<open>Offline_Pairs\<close> show that each step keeps it, and
    \<open>Offline_Pass\<close> does the batches.  C33 to C37: the pass loses no chunk, what a cold update cuts, merging,
    carrying a delta over to another base, and the iv that is used again.
  \<^item> \<open>Chunker\<close>, \<open>Client\<close>: the chunker (\<open>src/Client/chunker.cc\<close>) with the loops over reads and buffers as partial
    functions into \<open>option\<close>, the sender, the retriever and the writer of the client (\<open>src/Client/dataSender.cc\<close>,
    \<open>dataRetriever.cc\<close>, \<open>restoreWriter.cc\<close>), the server's loop over the messages of an upload and the head of the
    recipe file (\<open>src/Server/storageCore.cc\<close>).  \<open>Client_Correct\<close> shows that the messages of a restore fit the client's buffer
    and that what the sender packs is an upload.  C38 to C40: chunking does not depend on the reads, the mask that is
    never used, and the way of a file from the client to the server and back.

  \<^item> \<open>Sealed\<close>: the two files in which the enclave keeps the sketch and the top-k index over a restart (\<open>PersistDedupIndex\<close>,
    \<open>LoadDedupIndex\<close>, constructor and destructor of \<open>ecallFreqIndex.cc\<close>, the file helpers of \<open>commonEnclave.cc\<close>).  The
    lemma \<open>restart\<close>: a restart gives back every counter and the heap as it was.

  Parameters.  LZ4 (\<open>lz4\<close>) and OpenSSL (\<open>openssl\<close>) are records of functions, with the documented
  behaviour as hypotheses (\<open>lz4_ok\<close>, \<open>openssl_ok\<close>); the witnesses use an LZ4 that never
  compresses and a cipher that adds a key byte.  The iteration order of the hash maps is a
  parameter of what is written to disk.

  Bounds and termination.  The loops are total functions with a measure, but for three with fuel: sifting in the heap (C31
  says that a logarithmic amount is enough), and the batches of pairs and of cold containers of the offline pass, which
  get one more than there are pairs or containers (every round takes one off; C33 shows that the pass ends).  The loops of
  the chunker need not end for every setting and are partial functions; C38 says when they return;
  the limit \<open>36 ^ 7\<close> on the number of container names is a hypothesis where it matters (C4 says what
  happens behind it).  Words are kept at their width in hashes, counters of the sketch,
  positions and sizes of records; buffer positions are natural numbers checked against the
  buffer.

  Not modelled.  The trace-driven modes of the chunker (they replay fingerprint traces with random contents), and the logins.
  LZ4, xdelta3, xxHash, the message queues and the JSON parser are third-party code.  Attestation,
  TLS sockets, the LevelDB backend and the log output are calls of libraries.  The baseline
  schemes (\<open>ecallDEBE.cc\<close>, \<open>ecallMeGA.cc\<close>) and the copy of the program under \<open>src/MultiClient\<close> are
  variants for the evaluation.  Time measurements and the counters of OCALLs are left out
  everywhere.
\<close>

end
